(* ===== verification/Prelude.thy ===== *)
theory Prelude
  imports Main "HOL-Library.Word"
begin

text \<open>
  What the component theories share: the C integer types as words, byte memory with
  little-endian 32-bit accesses (the LX106 is little endian), the result codes of
  \<^verbatim>\<open>esp_err.h\<close> and the component headers, and the list facts the proofs
  use again and again. Nothing here is specific to one component.
\<close>

unbundle bit_operations_syntax

type_synonym u8 = "8 word"
type_synonym u16 = "16 word"
type_synonym u32 = "32 word"

section \<open>Result codes\<close>

text \<open>
  The values of \<^verbatim>\<open>esp_err_t\<close> the modelled code returns
  (\<^verbatim>\<open>components/esp8266/include/esp_err.h\<close> and the headers of the
  components); the numbers behind the names are not used by any of it.
\<close>

datatype esp_err_t =
    ESP_OK
  | ESP_FAIL
  | ESP_ERR_NO_MEM
  | ESP_ERR_INVALID_ARG
  | ESP_ERR_INVALID_STATE
  | ESP_ERR_INVALID_SIZE
  | ESP_ERR_NOT_FOUND
  | ESP_ERR_FLASH_OP_FAIL
  | ESP_ERR_IMAGE_INVALID
  | ESP_ERR_OTA_PARTITION_CONFLICT
  | ESP_ERR_OTA_VALIDATE_FAILED
  | ESP_ERR_HTTPD_HANDLERS_FULL
  | ESP_ERR_HTTPD_HANDLER_EXISTS
  | ESP_ERR_HTTPD_ALLOC_MEM

section \<open>Byte memory\<close>

text \<open>
  Memory maps byte addresses to bytes. A \<^verbatim>\<open>uint32_t\<close> access at an address
  touches four bytes, least significant first. \<open>mem_write\<close> is \<^verbatim>\<open>memcpy\<close>
  from a byte list, \<open>mem_read\<close> reads a byte list back, \<open>mem_fill\<close> is
  \<^verbatim>\<open>memset\<close>.
\<close>

type_synonym mem = "nat \<Rightarrow> u8"

definition ld32 :: "mem \<Rightarrow> nat \<Rightarrow> u32" where
  "ld32 m a = ucast (m a) OR push_bit 8 (ucast (m (a + 1)))
     OR push_bit 16 (ucast (m (a + 2))) OR push_bit 24 (ucast (m (a + 3)))"

definition st32 :: "mem \<Rightarrow> nat \<Rightarrow> u32 \<Rightarrow> mem" where
  "st32 m a v = m(a := ucast v, a + 1 := ucast (drop_bit 8 v),
     a + 2 := ucast (drop_bit 16 v), a + 3 := ucast (drop_bit 24 v))"

definition mem_write :: "mem \<Rightarrow> nat \<Rightarrow> u8 list \<Rightarrow> mem" where
  "mem_write m a bs = (\<lambda>i. if a \<le> i \<and> i < a + length bs then bs ! (i - a) else m i)"

definition mem_read :: "mem \<Rightarrow> nat \<Rightarrow> nat \<Rightarrow> u8 list" where
  "mem_read m a n = map m [a..<a + n]"

definition mem_fill :: "mem \<Rightarrow> nat \<Rightarrow> nat \<Rightarrow> u8 \<Rightarrow> mem" where
  "mem_fill m a n v = (\<lambda>i. if a \<le> i \<and> i < a + n then v else m i)"

lemma ld32_st32 [simp]: "ld32 (st32 m a v) a = v"
proof (rule bit_word_eqI)
  fix n assume "n < LENGTH(32)"
  then show "bit (ld32 (st32 m a v) a) n \<longleftrightarrow> bit v n"
    by (cases "n < 8"; cases "n < 16"; cases "n < 24") (auto simp: ld32_def st32_def bit_simps)
qed

lemma ld32_cong:
  "m a = m' a \<Longrightarrow> m (a + 1) = m' (a + 1) \<Longrightarrow> m (a + 2) = m' (a + 2) \<Longrightarrow> m (a + 3) = m' (a + 3)
    \<Longrightarrow> ld32 m a = ld32 m' a"
  by (simp add: ld32_def)

lemma st32_other: "i < a \<or> a + 4 \<le> i \<Longrightarrow> st32 m a v i = m i"
  by (auto simp: st32_def)

lemma ld32_st32_other: "b + 4 \<le> a \<or> a + 4 \<le> b \<Longrightarrow> ld32 (st32 m a v) b = ld32 m b"
  by (rule ld32_cong) (auto simp: st32_other)

lemma mem_write_other: "i < a \<or> a + length bs \<le> i \<Longrightarrow> mem_write m a bs i = m i"
  by (auto simp: mem_write_def)

lemma ld32_mem_write_other:
  "b + 4 \<le> a \<or> a + length bs \<le> b \<Longrightarrow> ld32 (mem_write m a bs) b = ld32 m b"
  by (rule ld32_cong) (auto simp: mem_write_other)

lemma mem_fill_other: "i < a \<or> a + n \<le> i \<Longrightarrow> mem_fill m a n v i = m i"
  by (auto simp: mem_fill_def)

lemma ld32_mem_fill_other:
  "b + 4 \<le> a \<or> a + n \<le> b \<Longrightarrow> ld32 (mem_fill m a n v) b = ld32 m b"
  by (rule ld32_cong) (auto simp: mem_fill_other)

lemma mem_fill_0 [simp]: "mem_fill m a 0 v = m"
  by (rule ext) (auto simp: mem_fill_def dest: leD)

lemma mem_fill_append: "mem_fill (mem_fill m a n v) (a + n) k v = mem_fill m a (n + k) v"
  by (auto simp: mem_fill_def fun_eq_iff)

lemma length_mem_read [simp]: "length (mem_read m a n) = n"
  by (simp add: mem_read_def)

lemma nth_mem_read [simp]: "i < n \<Longrightarrow> mem_read m a n ! i = m (a + i)"
  by (simp add: mem_read_def)

lemma mem_read_0 [simp]: "mem_read m a 0 = []"
  by (simp add: mem_read_def)

lemma mem_read_cong: "(\<And>i. a \<le> i \<Longrightarrow> i < a + n \<Longrightarrow> m i = m' i) \<Longrightarrow> mem_read m a n = mem_read m' a n"
  by (simp add: mem_read_def)

lemma mem_read_mem_write [simp]: "mem_read (mem_write m a bs) a (length bs) = bs"
  by (rule nth_equalityI) (auto simp: mem_write_def)

lemma mem_read_mem_write_other:
  "b + n \<le> a \<or> a + length bs \<le> b \<Longrightarrow> mem_read (mem_write m a bs) b n = mem_read m b n"
  by (rule mem_read_cong) (auto simp: mem_write_def)

lemma mem_read_st32_other:
  "b + n \<le> a \<or> a + 4 \<le> b \<Longrightarrow> mem_read (st32 m a v) b n = mem_read m b n"
  by (rule mem_read_cong) (auto simp: st32_other)

lemma take_mem_read: "k \<le> n \<Longrightarrow> take k (mem_read m a n) = mem_read m a k"
  by (rule nth_equalityI) auto

lemma drop_mem_read: "drop k (mem_read m a n) = mem_read m (a + k) (n - k)"
  by (rule nth_equalityI) (auto simp: add.assoc)

lemma mem_read_append: "mem_read m a (n + k) = mem_read m a n @ mem_read m (a + n) k"
proof -
  have "[a..<a + (n + k)] = [a..<a + n] @ [a + n..<a + n + k]"
    using upt_add_eq_append [of a "a + n" k] by (simp add: add.assoc)
  then show ?thesis by (simp add: mem_read_def)
qed

lemma mem_write_append: "mem_write (mem_write m a xs) (a + length xs) ys = mem_write m a (xs @ ys)"
  by (auto simp: mem_write_def fun_eq_iff nth_append)

lemma mem_write_Nil [simp]: "mem_write m a [] = m"
  by (rule ext) (auto simp: mem_write_def dest: leD)

section \<open>Little-endian fields in byte lists\<close>

fun le16 :: "u8 list \<Rightarrow> u16" where
  "le16 (a # b # _) = ucast a OR push_bit 8 (ucast b)"
| "le16 _ = 0"

fun le32 :: "u8 list \<Rightarrow> u32" where
  "le32 (a # b # c # d # _) = ucast a OR push_bit 8 (ucast b) OR push_bit 16 (ucast c) OR push_bit 24 (ucast d)"
| "le32 _ = 0"

definition le16_bytes :: "u16 \<Rightarrow> u8 list" where
  "le16_bytes v = [ucast v, ucast (drop_bit 8 v)]"

definition le32_bytes :: "u32 \<Rightarrow> u8 list" where
  "le32_bytes v = [ucast v, ucast (drop_bit 8 v), ucast (drop_bit 16 v), ucast (drop_bit 24 v)]"

lemma length_le_bytes [simp]: "length (le16_bytes v) = 2" "length (le32_bytes w) = 4"
  by (simp_all add: le16_bytes_def le32_bytes_def)

lemma le16_le16_bytes [simp]: "le16 (le16_bytes v @ rest) = v" "le16 (le16_bytes v) = v"
proof -
  show "le16 (le16_bytes v @ rest) = v"
  proof (rule bit_word_eqI)
    fix n assume "n < LENGTH(16)"
    then show "bit (le16 (le16_bytes v @ rest)) n \<longleftrightarrow> bit v n"
      by (cases "n < 8") (auto simp: le16_bytes_def bit_simps)
  qed
  then show "le16 (le16_bytes v) = v" by (simp add: le16_bytes_def)
qed

lemma le32_le32_bytes [simp]: "le32 (le32_bytes v @ rest) = v" "le32 (le32_bytes v) = v"
proof -
  show "le32 (le32_bytes v @ rest) = v"
  proof (rule bit_word_eqI)
    fix n assume "n < LENGTH(32)"
    then show "bit (le32 (le32_bytes v @ rest)) n \<longleftrightarrow> bit v n"
      by (cases "n < 8"; cases "n < 16"; cases "n < 24") (auto simp: le32_bytes_def bit_simps)
  qed
  then show "le32 (le32_bytes v) = v" by (simp add: le32_bytes_def)
qed

lemma le32_bytes_inj: "le32_bytes v = le32_bytes w \<longleftrightarrow> v = w"
  by (metis le32_le32_bytes(2))

section \<open>Lists\<close>

text \<open>The index a counting loop leaves in its variable: the first position that satisfies
  the test, the length when there is none.\<close>

fun find_idx :: "('a \<Rightarrow> bool) \<Rightarrow> 'a list \<Rightarrow> nat" where
  "find_idx P [] = 0"
| "find_idx P (x # xs) = (if P x then 0 else Suc (find_idx P xs))"

lemma find_idx_le: "find_idx P xs \<le> length xs"
  by (induction xs) auto

lemma find_idx_less_iff: "find_idx P xs < length xs \<longleftrightarrow> (\<exists>x \<in> set xs. P x)"
  by (induction xs) auto

lemma find_idx_nth: "find_idx P xs < length xs \<Longrightarrow> P (xs ! find_idx P xs)"
  by (induction xs) auto

lemma find_idx_first: "j < find_idx P xs \<Longrightarrow> \<not> P (xs ! j)"
proof (induction xs arbitrary: j)
  case Nil
  then show ?case by simp
next
  case (Cons x xs)
  then show ?case by (cases j) (auto split: if_splits)
qed

lemma find_idx_eqI:
  assumes "i < length xs" and "P (xs ! i)" and "\<And>j. j < i \<Longrightarrow> \<not> P (xs ! j)"
  shows "find_idx P xs = i"
proof -
  have "find_idx P xs \<le> i"
    using assms(2) find_idx_first [of i P xs] by (meson leI)
  moreover have "find_idx P xs < length xs"
    using assms(1,2) by (auto simp: find_idx_less_iff)
  then have "P (xs ! find_idx P xs)" by (rule find_idx_nth)
  ultimately show ?thesis
    using assms(3) by (meson le_neq_implies_less)
qed

lemma find_idx_eq_length: "find_idx P xs = length xs \<longleftrightarrow> (\<forall>x \<in> set xs. \<not> P x)"
  using find_idx_less_iff [of P xs] find_idx_le [of P xs] by auto

section \<open>Words\<close>

lemma unat_add_1_less: "(a::'a::len word) < b \<Longrightarrow> unat (a + 1) = unat a + 1"
proof -
  assume "a < b"
  moreover have "unat b < 2 ^ LENGTH('a)" by (rule unsigned_less)
  ultimately have "unat a + 1 < 2 ^ LENGTH('a)"
    by (simp only: word_less_nat_alt)
  then show ?thesis
    by (simp add: unat_word_ariths)
qed

lemma unat_add_no_wrap: "unat a + unat b < 2 ^ LENGTH('a) \<Longrightarrow> unat (a + b :: 'a::len word) = unat a + unat b"
  by (simp add: unat_word_ariths)

lemma unat_ucast_8_32 [simp]: "unat (ucast (i :: u8) :: u32) = unat i"
proof -
  have "unat i < 2 ^ LENGTH(8)" by (rule unsigned_less)
  then show ?thesis
    by (simp add: unsigned_ucast_eq take_bit_nat_eq_self_iff)
qed

lemma unat_of_nat_small: "n < 2 ^ LENGTH('a) \<Longrightarrow> unat (of_nat n :: 'a::len word) = n"
  by (simp add: unat_of_nat)

lemma unat_and_mask: "unat (a AND mask n :: 'a::len word) = unat a mod 2 ^ n"
  by (metis take_bit_eq_mask unsigned_take_bit_eq take_bit_eq_mod)

lemma unat_and_not_mask: "unat (a AND NOT (mask n) :: 'a::len word) = unat a - unat a mod 2 ^ n"
proof -
  have "(a AND mask n) + (a AND NOT (mask n)) = a"
    by (subst disjunctive_add) (auto simp: bit_simps intro: bit_word_eqI)
  moreover have "(a AND mask n) AND (a AND NOT (mask n)) = 0"
    by (rule bit_word_eqI) (auto simp: bit_simps)
  ultimately have "a AND NOT (mask n) = a - (a AND mask n)"
    by (metis add_diff_cancel_left')
  moreover have "a AND mask n \<le> a"
    by (simp add: word_le_nat_alt unat_and_mask)
  ultimately show ?thesis
    by (simp add: unat_sub unat_and_mask)
qed

lemma and_mask_eq_0_iff: "(a::'a::len word) AND mask n = 0 \<longleftrightarrow> unat a mod 2 ^ n = 0"
  by (metis unat_and_mask unat_eq_zero)

text \<open>Words of four: the alignment masks of the allocators and the flash driver.\<close>

lemma three_eq_mask: "(3 :: 'a::len word) = mask 2"
  by (simp add: mask_eq_exp_minus_1)

lemma unat_and_3 [simp]: "unat (a AND 3 :: 'a::len word) = unat a mod 4"
  unfolding three_eq_mask by (simp add: unat_and_mask)

lemma and_3_eq_0_iff [simp]: "(a :: 'a::len word) AND 3 = 0 \<longleftrightarrow> unat a mod 4 = 0"
  unfolding three_eq_mask by (simp add: and_mask_eq_0_iff)

lemma unat_and_not_3: "unat (a AND NOT 3 :: 'a::len word) = 4 * (unat a div 4)"
  unfolding three_eq_mask by (simp add: unat_and_not_mask minus_mod_eq_mult_div)

section \<open>Multiples\<close>

lemma mult_div_of_mod_0: "(a::nat) mod b = 0 \<Longrightarrow> b * (a div b) = a"
  by (simp add: mod_eq_0_iff_dvd)

lemma next_multiple_le: "(a::nat) mod b = 0 \<Longrightarrow> s < a div b \<Longrightarrow> b * s + b \<le> a"
  by (metis Suc_leI mult_Suc_right mult_div_of_mod_0 mult_le_mono2 add.commute)

lemma mod_0_trans: "(a::nat) mod b = 0 \<Longrightarrow> c dvd b \<Longrightarrow> a mod c = 0"
  by (metis dvd_trans mod_eq_0_iff_dvd)

lemma div4_up: "(x::nat) mod 4 \<noteq> 0 \<Longrightarrow> (x + 3) div 4 = x div 4 + 1"
  by presburger

lemma round_up_le: "(a::nat) mod 4 = 0 \<Longrightarrow> c mod 4 = 0 \<Longrightarrow> a + n \<le> c \<Longrightarrow> a + 4 * ((n + 3) div 4) \<le> c"
  by presburger

lemma word_hull:
  fixes a :: nat
  assumes "base mod 4 = 0" and "lim mod 4 = 0" and "base \<le> a" and "a + n \<le> lim"
  shows "base \<le> 4 * (a div 4)" and "4 * (a div 4) + 4 * ((a mod 4 + n + 3) div 4) \<le> lim"
proof -
  obtain b where b: "base = 4 * b" using assms(1) by auto
  obtain l where l: "lim = 4 * l" using assms(2) by auto
  show "base \<le> 4 * (a div 4)" using assms(3) unfolding b by simp
  have "4 * (a div 4) + a mod 4 = a" by simp
  then have "4 * (a div 4) + 4 * ((a mod 4 + n + 3) div 4) = 4 * ((a + n + 3) div 4)"
    by (metis (no_types) add.assoc add_mult_distrib2 div_mult_self4 zero_neq_numeral)
  also have "(a + n + 3) div 4 \<le> (4 * l + 3) div 4"
    using assms(4) unfolding l by (intro div_le_mono) simp
  then have "4 * ((a + n + 3) div 4) \<le> 4 * l" by simp
  finally show "4 * (a div 4) + 4 * ((a mod 4 + n + 3) div 4) \<le> lim" unfolding l .
qed

section \<open>NOR flash\<close>

text \<open>Programming clears bits and never sets one: what a write leaves is the AND of the old and
  the new byte.\<close>

definition nor_write :: "mem \<Rightarrow> nat \<Rightarrow> u8 list \<Rightarrow> mem" where
  "nor_write m a bs = (\<lambda>i. if a \<le> i \<and> i < a + length bs then m i AND bs ! (i - a) else m i)"

definition same_outside :: "nat \<Rightarrow> nat \<Rightarrow> mem \<Rightarrow> mem \<Rightarrow> bool" where
  "same_outside a n m m' \<longleftrightarrow> (\<forall>i. i < a \<or> a + n \<le> i \<longrightarrow> m' i = m i)"

lemma nor_write_Nil [simp]: "nor_write m a [] = m"
  by (rule ext) (auto simp: nor_write_def dest: leD)

lemma nor_write_append: "nor_write (nor_write m a xs) (a + length xs) ys = nor_write m a (xs @ ys)"
  by (auto simp: nor_write_def fun_eq_iff nth_append)

lemma nor_write_other: "i < a \<or> a + length bs \<le> i \<Longrightarrow> nor_write m a bs i = m i"
  by (auto simp: nor_write_def)

lemma nor_write_id: "nor_write m a (mem_read m a n) = m"
  by (auto simp: nor_write_def fun_eq_iff)

lemma nor_write_keep: "nor_write m a (xs @ mem_read m (a + length xs) k) = nor_write m a xs"
proof -
  have "mem_read m (a + length xs) k = mem_read (nor_write m a xs) (a + length xs) k"
    by (rule mem_read_cong) (simp add: nor_write_other)
  then show ?thesis by (metis nor_write_append nor_write_id)
qed

lemma nor_write_middle:
  "nor_write m r (mem_read m r c @ xs @ mem_read m (r + c + length xs) k) = nor_write m (r + c) xs"
  using nor_write_append [of m r "mem_read m r c" "xs @ mem_read m (r + c + length xs) k", symmetric]
    nor_write_keep [of m "r + c" xs k]
  by (simp add: nor_write_id)

lemma nor_write_cong: "(\<And>i. i < length bs \<Longrightarrow> m (a + i) AND bs ! i = m (a + i) AND bs' ! i)
    \<Longrightarrow> length bs' = length bs \<Longrightarrow> nor_write m a bs = nor_write m a bs'"
  by (rule ext) (auto simp: nor_write_def dest: le_Suc_ex)

lemma nor_write_erased:
  assumes "\<And>i. i < length bs \<Longrightarrow> m (a + i) = 0xff"
  shows "nor_write m a bs = mem_write m a bs"
proof (rule ext)
  fix i
  have ff: "(0xff :: u8) = mask 8" by (simp add: mask_eq_exp_minus_1)
  have "0xff AND b = b" for b :: u8
    by (rule bit_word_eqI) (simp add: ff bit_simps)
  then show "nor_write m a bs i = mem_write m a bs i"
    using assms [of "i - a"] by (auto simp: nor_write_def mem_write_def)
qed

lemma same_outside_refl [simp, intro]: "same_outside a n m m"
  by (simp add: same_outside_def)

lemma same_outside_trans:
  "same_outside a n m m' \<Longrightarrow> same_outside a n m' m'' \<Longrightarrow> same_outside a n m m''"
  by (auto simp: same_outside_def)

lemma same_outside_mono:
  "same_outside b k m m' \<Longrightarrow> a \<le> b \<Longrightarrow> b + k \<le> a + n \<Longrightarrow> same_outside a n m m'"
  by (auto simp: same_outside_def)

lemma same_outside_nor_write [intro]: "length bs \<le> n \<Longrightarrow> same_outside a n m (nor_write m a bs)"
  by (auto simp: same_outside_def nor_write_def)

lemma same_outside_mem_fill [intro]: "k \<le> n \<Longrightarrow> same_outside a n m (mem_fill m a k v)"
  by (auto simp: same_outside_def mem_fill_def)

lemma mem_read_same_outside:
  "same_outside a n m m' \<Longrightarrow> b + k \<le> a \<or> a + n \<le> b \<Longrightarrow> mem_read m' b k = mem_read m b k"
  by (rule mem_read_cong) (auto simp: same_outside_def)

end
