(* ===== verification/Crc.thy ===== *)
theory Crc
  imports Prelude
begin

text \<open>
  The table-driven checksums of \<^verbatim>\<open>components/util/src/crc.c\<close>
  (\<open>crc16_le\<close>, \<open>crc32_le\<close>, \<open>esp_crc8\<close>) with their three 256-entry tables, and the
  bit-serial shift register each table is meant to speed up. The lemmas reduce the table
  step to eight steps of the shift register, and show that the register step is injective,
  from which it follows that a CRC-32 tells any two 32-bit messages apart.
\<close>

section \<open>The tables and the byte loops\<close>

definition crc32_le_table :: "u32 list" where
  "crc32_le_table = [
     0x00000000, 0x77073096, 0xee0e612c, 0x990951ba, 0x076dc419, 0x706af48f, 0xe963a535, 0x9e6495a3,
     0x0edb8832, 0x79dcb8a4, 0xe0d5e91e, 0x97d2d988, 0x09b64c2b, 0x7eb17cbd, 0xe7b82d07, 0x90bf1d91,
     0x1db71064, 0x6ab020f2, 0xf3b97148, 0x84be41de, 0x1adad47d, 0x6ddde4eb, 0xf4d4b551, 0x83d385c7,
     0x136c9856, 0x646ba8c0, 0xfd62f97a, 0x8a65c9ec, 0x14015c4f, 0x63066cd9, 0xfa0f3d63, 0x8d080df5,
     0x3b6e20c8, 0x4c69105e, 0xd56041e4, 0xa2677172, 0x3c03e4d1, 0x4b04d447, 0xd20d85fd, 0xa50ab56b,
     0x35b5a8fa, 0x42b2986c, 0xdbbbc9d6, 0xacbcf940, 0x32d86ce3, 0x45df5c75, 0xdcd60dcf, 0xabd13d59,
     0x26d930ac, 0x51de003a, 0xc8d75180, 0xbfd06116, 0x21b4f4b5, 0x56b3c423, 0xcfba9599, 0xb8bda50f,
     0x2802b89e, 0x5f058808, 0xc60cd9b2, 0xb10be924, 0x2f6f7c87, 0x58684c11, 0xc1611dab, 0xb6662d3d,
     0x76dc4190, 0x01db7106, 0x98d220bc, 0xefd5102a, 0x71b18589, 0x06b6b51f, 0x9fbfe4a5, 0xe8b8d433,
     0x7807c9a2, 0x0f00f934, 0x9609a88e, 0xe10e9818, 0x7f6a0dbb, 0x086d3d2d, 0x91646c97, 0xe6635c01,
     0x6b6b51f4, 0x1c6c6162, 0x856530d8, 0xf262004e, 0x6c0695ed, 0x1b01a57b, 0x8208f4c1, 0xf50fc457,
     0x65b0d9c6, 0x12b7e950, 0x8bbeb8ea, 0xfcb9887c, 0x62dd1ddf, 0x15da2d49, 0x8cd37cf3, 0xfbd44c65,
     0x4db26158, 0x3ab551ce, 0xa3bc0074, 0xd4bb30e2, 0x4adfa541, 0x3dd895d7, 0xa4d1c46d, 0xd3d6f4fb,
     0x4369e96a, 0x346ed9fc, 0xad678846, 0xda60b8d0, 0x44042d73, 0x33031de5, 0xaa0a4c5f, 0xdd0d7cc9,
     0x5005713c, 0x270241aa, 0xbe0b1010, 0xc90c2086, 0x5768b525, 0x206f85b3, 0xb966d409, 0xce61e49f,
     0x5edef90e, 0x29d9c998, 0xb0d09822, 0xc7d7a8b4, 0x59b33d17, 0x2eb40d81, 0xb7bd5c3b, 0xc0ba6cad,
     0xedb88320, 0x9abfb3b6, 0x03b6e20c, 0x74b1d29a, 0xead54739, 0x9dd277af, 0x04db2615, 0x73dc1683,
     0xe3630b12, 0x94643b84, 0x0d6d6a3e, 0x7a6a5aa8, 0xe40ecf0b, 0x9309ff9d, 0x0a00ae27, 0x7d079eb1,
     0xf00f9344, 0x8708a3d2, 0x1e01f268, 0x6906c2fe, 0xf762575d, 0x806567cb, 0x196c3671, 0x6e6b06e7,
     0xfed41b76, 0x89d32be0, 0x10da7a5a, 0x67dd4acc, 0xf9b9df6f, 0x8ebeeff9, 0x17b7be43, 0x60b08ed5,
     0xd6d6a3e8, 0xa1d1937e, 0x38d8c2c4, 0x4fdff252, 0xd1bb67f1, 0xa6bc5767, 0x3fb506dd, 0x48b2364b,
     0xd80d2bda, 0xaf0a1b4c, 0x36034af6, 0x41047a60, 0xdf60efc3, 0xa867df55, 0x316e8eef, 0x4669be79,
     0xcb61b38c, 0xbc66831a, 0x256fd2a0, 0x5268e236, 0xcc0c7795, 0xbb0b4703, 0x220216b9, 0x5505262f,
     0xc5ba3bbe, 0xb2bd0b28, 0x2bb45a92, 0x5cb36a04, 0xc2d7ffa7, 0xb5d0cf31, 0x2cd99e8b, 0x5bdeae1d,
     0x9b64c2b0, 0xec63f226, 0x756aa39c, 0x026d930a, 0x9c0906a9, 0xeb0e363f, 0x72076785, 0x05005713,
     0x95bf4a82, 0xe2b87a14, 0x7bb12bae, 0x0cb61b38, 0x92d28e9b, 0xe5d5be0d, 0x7cdcefb7, 0x0bdbdf21,
     0x86d3d2d4, 0xf1d4e242, 0x68ddb3f8, 0x1fda836e, 0x81be16cd, 0xf6b9265b, 0x6fb077e1, 0x18b74777,
     0x88085ae6, 0xff0f6a70, 0x66063bca, 0x11010b5c, 0x8f659eff, 0xf862ae69, 0x616bffd3, 0x166ccf45,
     0xa00ae278, 0xd70dd2ee, 0x4e048354, 0x3903b3c2, 0xa7672661, 0xd06016f7, 0x4969474d, 0x3e6e77db,
     0xaed16a4a, 0xd9d65adc, 0x40df0b66, 0x37d83bf0, 0xa9bcae53, 0xdebb9ec5, 0x47b2cf7f, 0x30b5ffe9,
     0xbdbdf21c, 0xcabac28a, 0x53b39330, 0x24b4a3a6, 0xbad03605, 0xcdd70693, 0x54de5729, 0x23d967bf,
     0xb3667a2e, 0xc4614ab8, 0x5d681b02, 0x2a6f2b94, 0xb40bbe37, 0xc30c8ea1, 0x5a05df1b, 0x2d02ef8d]"

definition crc16_le_table :: "u16 list" where
  "crc16_le_table = [
     0x0000, 0x1189, 0x2312, 0x329b, 0x4624, 0x57ad, 0x6536, 0x74bf,
     0x8c48, 0x9dc1, 0xaf5a, 0xbed3, 0xca6c, 0xdbe5, 0xe97e, 0xf8f7,
     0x1081, 0x0108, 0x3393, 0x221a, 0x56a5, 0x472c, 0x75b7, 0x643e,
     0x9cc9, 0x8d40, 0xbfdb, 0xae52, 0xdaed, 0xcb64, 0xf9ff, 0xe876,
     0x2102, 0x308b, 0x0210, 0x1399, 0x6726, 0x76af, 0x4434, 0x55bd,
     0xad4a, 0xbcc3, 0x8e58, 0x9fd1, 0xeb6e, 0xfae7, 0xc87c, 0xd9f5,
     0x3183, 0x200a, 0x1291, 0x0318, 0x77a7, 0x662e, 0x54b5, 0x453c,
     0xbdcb, 0xac42, 0x9ed9, 0x8f50, 0xfbef, 0xea66, 0xd8fd, 0xc974,
     0x4204, 0x538d, 0x6116, 0x709f, 0x0420, 0x15a9, 0x2732, 0x36bb,
     0xce4c, 0xdfc5, 0xed5e, 0xfcd7, 0x8868, 0x99e1, 0xab7a, 0xbaf3,
     0x5285, 0x430c, 0x7197, 0x601e, 0x14a1, 0x0528, 0x37b3, 0x263a,
     0xdecd, 0xcf44, 0xfddf, 0xec56, 0x98e9, 0x8960, 0xbbfb, 0xaa72,
     0x6306, 0x728f, 0x4014, 0x519d, 0x2522, 0x34ab, 0x0630, 0x17b9,
     0xef4e, 0xfec7, 0xcc5c, 0xddd5, 0xa96a, 0xb8e3, 0x8a78, 0x9bf1,
     0x7387, 0x620e, 0x5095, 0x411c, 0x35a3, 0x242a, 0x16b1, 0x0738,
     0xffcf, 0xee46, 0xdcdd, 0xcd54, 0xb9eb, 0xa862, 0x9af9, 0x8b70,
     0x8408, 0x9581, 0xa71a, 0xb693, 0xc22c, 0xd3a5, 0xe13e, 0xf0b7,
     0x0840, 0x19c9, 0x2b52, 0x3adb, 0x4e64, 0x5fed, 0x6d76, 0x7cff,
     0x9489, 0x8500, 0xb79b, 0xa612, 0xd2ad, 0xc324, 0xf1bf, 0xe036,
     0x18c1, 0x0948, 0x3bd3, 0x2a5a, 0x5ee5, 0x4f6c, 0x7df7, 0x6c7e,
     0xa50a, 0xb483, 0x8618, 0x9791, 0xe32e, 0xf2a7, 0xc03c, 0xd1b5,
     0x2942, 0x38cb, 0x0a50, 0x1bd9, 0x6f66, 0x7eef, 0x4c74, 0x5dfd,
     0xb58b, 0xa402, 0x9699, 0x8710, 0xf3af, 0xe226, 0xd0bd, 0xc134,
     0x39c3, 0x284a, 0x1ad1, 0x0b58, 0x7fe7, 0x6e6e, 0x5cf5, 0x4d7c,
     0xc60c, 0xd785, 0xe51e, 0xf497, 0x8028, 0x91a1, 0xa33a, 0xb2b3,
     0x4a44, 0x5bcd, 0x6956, 0x78df, 0x0c60, 0x1de9, 0x2f72, 0x3efb,
     0xd68d, 0xc704, 0xf59f, 0xe416, 0x90a9, 0x8120, 0xb3bb, 0xa232,
     0x5ac5, 0x4b4c, 0x79d7, 0x685e, 0x1ce1, 0x0d68, 0x3ff3, 0x2e7a,
     0xe70e, 0xf687, 0xc41c, 0xd595, 0xa12a, 0xb0a3, 0x8238, 0x93b1,
     0x6b46, 0x7acf, 0x4854, 0x59dd, 0x2d62, 0x3ceb, 0x0e70, 0x1ff9,
     0xf78f, 0xe606, 0xd49d, 0xc514, 0xb1ab, 0xa022, 0x92b9, 0x8330,
     0x7bc7, 0x6a4e, 0x58d5, 0x495c, 0x3de3, 0x2c6a, 0x1ef1, 0x0f78]"

definition crc8_le_table :: "u8 list" where
  "crc8_le_table = [
     0x00, 0x5e, 0xbc, 0xe2, 0x61, 0x3f, 0xdd, 0x83, 0xc2, 0x9c, 0x7e, 0x20, 0xa3, 0xfd, 0x1f, 0x41,
     0x9d, 0xc3, 0x21, 0x7f, 0xfc, 0xa2, 0x40, 0x1e, 0x5f, 0x01, 0xe3, 0xbd, 0x3e, 0x60, 0x82, 0xdc,
     0x23, 0x7d, 0x9f, 0xc1, 0x42, 0x1c, 0xfe, 0xa0, 0xe1, 0xbf, 0x5d, 0x03, 0x80, 0xde, 0x3c, 0x62,
     0xbe, 0xe0, 0x02, 0x5c, 0xdf, 0x81, 0x63, 0x3d, 0x7c, 0x22, 0xc0, 0x9e, 0x1d, 0x43, 0xa1, 0xff,
     0x46, 0x18, 0xfa, 0xa4, 0x27, 0x79, 0x9b, 0xc5, 0x84, 0xda, 0x38, 0x66, 0xe5, 0xbb, 0x59, 0x07,
     0xdb, 0x85, 0x67, 0x39, 0xba, 0xe4, 0x06, 0x58, 0x19, 0x47, 0xa5, 0xfb, 0x78, 0x26, 0xc4, 0x9a,
     0x65, 0x3b, 0xd9, 0x87, 0x04, 0x5a, 0xb8, 0xe6, 0xa7, 0xf9, 0x1b, 0x45, 0xc6, 0x98, 0x7a, 0x24,
     0xf8, 0xa6, 0x44, 0x1a, 0x99, 0xc7, 0x25, 0x7b, 0x3a, 0x64, 0x86, 0xd8, 0x5b, 0x05, 0xe7, 0xb9,
     0x8c, 0xd2, 0x30, 0x6e, 0xed, 0xb3, 0x51, 0x0f, 0x4e, 0x10, 0xf2, 0xac, 0x2f, 0x71, 0x93, 0xcd,
     0x11, 0x4f, 0xad, 0xf3, 0x70, 0x2e, 0xcc, 0x92, 0xd3, 0x8d, 0x6f, 0x31, 0xb2, 0xec, 0x0e, 0x50,
     0xaf, 0xf1, 0x13, 0x4d, 0xce, 0x90, 0x72, 0x2c, 0x6d, 0x33, 0xd1, 0x8f, 0x0c, 0x52, 0xb0, 0xee,
     0x32, 0x6c, 0x8e, 0xd0, 0x53, 0x0d, 0xef, 0xb1, 0xf0, 0xae, 0x4c, 0x12, 0x91, 0xcf, 0x2d, 0x73,
     0xca, 0x94, 0x76, 0x28, 0xab, 0xf5, 0x17, 0x49, 0x08, 0x56, 0xb4, 0xea, 0x69, 0x37, 0xd5, 0x8b,
     0x57, 0x09, 0xeb, 0xb5, 0x36, 0x68, 0x8a, 0xd4, 0x95, 0xcb, 0x29, 0x77, 0xf4, 0xaa, 0x48, 0x16,
     0xe9, 0xb7, 0x55, 0x0b, 0x88, 0xd6, 0x34, 0x6a, 0x2b, 0x75, 0x97, 0xc9, 0x4a, 0x14, 0xf6, 0xa8,
     0x74, 0x2a, 0xc8, 0x96, 0x15, 0x4b, 0xa9, 0xf7, 0xb6, 0xe8, 0x0a, 0x54, 0xd7, 0x89, 0x6b, 0x35]"

text \<open>
  The bodies of the three \<^verbatim>\<open>for\<close> loops; the buffer and its length are the byte
  list. \<^verbatim>\<open>ESP_IBUS_GET_U16_DATA\<close> and \<^verbatim>\<open>ESP_IBUS_GET_U8_DATA\<close> read one
  element of a table that lives on the instruction bus.
\<close>

definition crc16_le_step :: "u16 \<Rightarrow> u8 \<Rightarrow> u16" where
  "crc16_le_step crc b = crc16_le_table ! unat ((crc XOR ucast b) AND 0xff) XOR drop_bit 8 crc"

definition crc32_le_step :: "u32 \<Rightarrow> u8 \<Rightarrow> u32" where
  "crc32_le_step crc b = crc32_le_table ! unat ((crc XOR ucast b) AND 0xff) XOR drop_bit 8 crc"

definition esp_crc8_step :: "u8 \<Rightarrow> u8 \<Rightarrow> u8" where
  "esp_crc8_step crc b = crc8_le_table ! unat (crc XOR b)"

definition crc16_le :: "u16 \<Rightarrow> u8 list \<Rightarrow> u16" where
  "crc16_le crc buf = NOT (foldl crc16_le_step (NOT crc) buf)"

definition crc32_le :: "u32 \<Rightarrow> u8 list \<Rightarrow> u32" where
  "crc32_le crc buf = NOT (foldl crc32_le_step (NOT crc) buf)"

definition esp_crc8 :: "u8 list \<Rightarrow> u8" where
  "esp_crc8 buf = foldl esp_crc8_step 0 buf"

section \<open>The bit-serial reference\<close>

text \<open>
  One clock of a reflected CRC register with generator \<open>poly\<close>: the low bit leaves, and
  when it was set the generator is added.
\<close>

definition crc_bit :: "'a::len word \<Rightarrow> 'a word \<Rightarrow> 'a word" where
  "crc_bit poly c = (if bit c 0 then drop_bit 1 c XOR poly else drop_bit 1 c)"

definition crc_byte :: "'a::len word \<Rightarrow> 'a word \<Rightarrow> u8 \<Rightarrow> 'a word" where
  "crc_byte poly c b = (crc_bit poly ^^ 8) (c XOR ucast b)"

definition crc_serial :: "'a::len word \<Rightarrow> 'a word \<Rightarrow> u8 list \<Rightarrow> 'a word" where
  "crc_serial poly c buf = foldl (crc_byte poly) c buf"

section \<open>Linearity of the register\<close>

lemma crc_bit_0 [simp]: "crc_bit p 0 = 0"
  by (simp add: crc_bit_def)

lemma crc_bit_xor: "crc_bit p (a XOR b) = crc_bit p a XOR crc_bit p b"
  by (auto simp: crc_bit_def bit_simps drop_bit_xor xor.assoc xor.left_commute xor.commute)

lemma crc_bit_funpow_0 [simp]: "(crc_bit p ^^ n) 0 = 0"
  by (induction n) simp_all

lemma crc_bit_funpow_xor: "(crc_bit p ^^ n) (a XOR b) = (crc_bit p ^^ n) a XOR (crc_bit p ^^ n) b"
  by (induction n) (simp_all add: crc_bit_xor)

lemma crc_bit_funpow_high: "(\<And>i. i < n \<Longrightarrow> \<not> bit x i) \<Longrightarrow> (crc_bit p ^^ n) x = drop_bit n x"
proof (induction n)
  case 0
  then show ?case by simp
next
  case (Suc n)
  then show ?case by (simp add: crc_bit_def bit_simps drop_bit_drop_bit)
qed

fun crc_table_upto :: "'a::len word \<Rightarrow> nat \<Rightarrow> 'a word list" where
  "crc_table_upto p 0 = [0]"
| "crc_table_upto p (Suc k) =
     (let xs = crc_table_upto p k in xs @ map (\<lambda>x. (crc_bit p ^^ 8) (push_bit k 1) XOR x) xs)"

lemma of_nat_pow_add: "i < 2 ^ k \<Longrightarrow> (of_nat (2 ^ k + i) :: 'a::len word) = push_bit k 1 XOR of_nat i"
proof -
  assume i: "i < 2 ^ k"
  have "(2 ^ k AND i :: nat) = 0"
  proof (rule bit_eqI)
    fix n
    have "\<not> bit i k" using i by (simp add: bit_iff_odd)
    then show "bit (2 ^ k AND i) n \<longleftrightarrow> bit (0::nat) n"
      by (auto simp: bit_simps)
  qed
  then have "2 ^ k + i = 2 ^ k XOR i"
    by (rule disjunctive_add_eq_xor)
  then show ?thesis
    by (simp only: of_nat_xor_eq) (simp add: push_bit_eq_mult)
qed

lemma crc_table_upto: "crc_table_upto p k = map (\<lambda>i. (crc_bit p ^^ 8) (of_nat i)) [0..<2 ^ k]"
proof (induction k)
  case 0
  then show ?case by simp
next
  case (Suc k)
  have "[0..<2 ^ Suc k] = [0..<2 ^ k] @ map (\<lambda>i. 2 ^ k + i) [0..<2 ^ k]"
    using upt_add_eq_append [of 0 "2 ^ k" "2 ^ k"] map_add_upt [of "2 ^ k" "2 ^ k"]
    by (simp add: mult_2 add.commute)
  then show ?case
    by (simp add: Suc Let_def of_nat_pow_add crc_bit_funpow_xor del: of_nat_add)
qed


locale crc_table =
  fixes poly :: "'a::len word" and table :: "'a word list"
  assumes wide: "8 \<le> LENGTH('a)"
    and entries: "table = crc_table_upto poly 8"
begin

lemma entry: "i < 256 \<Longrightarrow> table ! i = (crc_bit poly ^^ 8) (of_nat i)"
  by (simp add: entries crc_table_upto)

lemma low_byte: "unat ((c::'a word) AND 0xff) < 256"
proof -
  have "c AND 0xff = take_bit 8 c"
    by (simp add: take_bit_eq_mask mask_eq_exp_minus_1)
  then have "unat (c AND 0xff) = take_bit 8 (unat c)"
    by (simp add: unsigned_take_bit_eq)
  then show ?thesis
    by (simp add: take_bit_eq_mod)
qed

lemma step_eq_byte:
  "table ! unat ((c XOR ucast b) AND 0xff) XOR drop_bit 8 c = crc_byte poly c b"
proof -
  let ?x = "c XOR ucast b :: 'a word"
  have split: "?x = (?x AND 0xff) XOR (?x AND NOT 0xff)"
    by (rule bit_word_eqI) (auto simp: bit_simps)
  have high: "(crc_bit poly ^^ 8) (?x AND NOT 0xff) = drop_bit 8 c"
  proof -
    have ff: "(0xff :: 'a word) = mask 8"
      by (simp add: mask_eq_exp_minus_1)
    have "(crc_bit poly ^^ 8) (?x AND NOT 0xff) = drop_bit 8 (?x AND NOT 0xff)"
      by (rule crc_bit_funpow_high) (auto simp: ff bit_simps)
    also have "\<dots> = drop_bit 8 c"
      by (rule bit_word_eqI) (auto simp: ff bit_simps dest: bit_imp_le_length)
    finally show ?thesis .
  qed
  have "crc_byte poly c b = (crc_bit poly ^^ 8) (?x AND 0xff) XOR drop_bit 8 c"
    unfolding crc_byte_def by (subst split) (simp only: crc_bit_funpow_xor high)
  then show ?thesis
    by (simp add: entry low_byte)
qed

end

lemma crc_bit_inj:
  fixes p :: "'a::len word"
  assumes top: "bit p (LENGTH('a) - 1)"
  shows "inj (crc_bit p)"
proof (rule injI)
  fix x y assume eq: "crc_bit p x = crc_bit p y"
  have top_bit: "bit (crc_bit p z) (LENGTH('a) - 1) = bit z 0" for z
  proof -
    have "\<not> bit (drop_bit 1 z) (LENGTH('a) - 1)"
      by (auto simp: bit_drop_bit_eq dest: bit_imp_le_length)
    then show ?thesis
      using top by (simp add: crc_bit_def bit_xor_iff)
  qed
  have low: "bit x 0 = bit y 0"
    using eq top_bit by metis
  have dr: "drop_bit 1 x = drop_bit 1 y"
  proof (cases "bit y 0")
    case True
    then have "(drop_bit 1 x XOR p) XOR p = (drop_bit 1 y XOR p) XOR p"
      using eq low by (simp add: crc_bit_def)
    then show ?thesis by (simp add: xor.assoc)
  next
    case False
    then show ?thesis using eq low by (simp add: crc_bit_def)
  qed
  show "x = y"
  proof (rule bit_word_eqI)
    fix n assume "n < LENGTH('a)"
    show "bit x n = bit y n"
    proof (cases n)
      case 0
      then show ?thesis using low by simp
    next
      case (Suc m)
      have "bit (drop_bit 1 x) m = bit (drop_bit 1 y) m" by (simp only: dr)
      then show ?thesis using Suc by (simp add: bit_simps)
    qed
  qed
qed

section \<open>The tables of the source are the tables of their polynomials\<close>

text \<open>
  A table of a linear map is fixed by its entries at the powers of two and by doubling, so
  the check of 256 entries is eight evaluations of the polynomial and eight comparisons.
\<close>

lemma funpow_8: "(f ^^ 8) x = f (f (f (f (f (f (f (f x)))))))"
  by (simp add: eval_nat_numeral)

lemma crc_table_upto_take:
  assumes len: "length table = 256" and zero: "table ! 0 = 0"
    and basis: "map (\<lambda>k. table ! (2 ^ k)) [0,1,2,3,4,5,6,7] = map (\<lambda>k. (crc_bit p ^^ 8) (push_bit k 1)) [0,1,2,3,4,5,6,7]"
    and double: "list_all (\<lambda>k. take (2^k) (drop (2^k) table) = map (\<lambda>x. table ! (2^k) XOR x) (take (2^k) table)) [0,1,2,3,4,5,6,7]"
  shows "table = crc_table_upto p 8"
proof -
  have ks: "set [0,1,2,3,4,5,6,7] = {..<8::nat}" by auto
  have "k \<le> 8 \<Longrightarrow> crc_table_upto p k = take (2^k) table" for k
  proof (induction k)
    case 0
    then show ?case using zero len by (cases table) auto
  next
    case (Suc k)
    then have k: "k \<in> set [0,1,2,3,4,5,6,7]" using ks by auto
    have "table ! (2 ^ k) = (crc_bit p ^^ 8) (push_bit k 1)"
      using basis k by (simp only: map_eq_conv) 
    moreover have "take (2^k) (drop (2^k) table) = map (\<lambda>x. table ! (2^k) XOR x) (take (2^k) table)"
      using double k by (simp only: list_all_iff)
    ultimately show ?case using Suc by (simp add: Let_def take_add mult_2)
  qed
  from this [of 8] show ?thesis using len by simp
qed

lemma crc32_le_table_take: "crc32_le_table = crc_table_upto 0xEDB88320 8"
proof (rule crc_table_upto_take)
  show "length crc32_le_table = 256" "crc32_le_table ! 0 = 0"
    unfolding crc32_le_table_def by simp_all
  have "map (\<lambda>k. crc32_le_table ! (2 ^ k)) [0,1,2,3,4,5,6,7] = [0x77073096, 0xee0e612c, 0x76dc419, 0xedb8832, 0x1db71064, 0x3b6e20c8, 0x76dc4190, 0xedb88320]"
    unfolding crc32_le_table_def by simp
  also have "\<dots> = map (\<lambda>k. (crc_bit (0xEDB88320 :: u32) ^^ 8) (push_bit k 1)) [0,1,2,3,4,5,6,7]"
    by (simp add: funpow_8 crc_bit_def)
  finally show "map (\<lambda>k. crc32_le_table ! (2 ^ k)) [0,1,2,3,4,5,6,7] = map (\<lambda>k. (crc_bit (0xEDB88320 :: u32) ^^ 8) (push_bit k 1)) [0,1,2,3,4,5,6,7]" .
  show "list_all (\<lambda>k. take (2^k) (drop (2^k) crc32_le_table) = map (\<lambda>x. crc32_le_table ! (2^k) XOR x) (take (2^k) crc32_le_table)) [0,1,2,3,4,5,6,7]"
    unfolding crc32_le_table_def by simp
qed

lemma crc16_le_table_take: "crc16_le_table = crc_table_upto 0x8408 8"
proof (rule crc_table_upto_take)
  show "length crc16_le_table = 256" "crc16_le_table ! 0 = 0"
    unfolding crc16_le_table_def by simp_all
  have "map (\<lambda>k. crc16_le_table ! (2 ^ k)) [0,1,2,3,4,5,6,7] = [0x1189, 0x2312, 0x4624, 0x8c48, 0x1081, 0x2102, 0x4204, 0x8408]"
    unfolding crc16_le_table_def by simp
  also have "\<dots> = map (\<lambda>k. (crc_bit (0x8408 :: u16) ^^ 8) (push_bit k 1)) [0,1,2,3,4,5,6,7]"
    by (simp add: funpow_8 crc_bit_def)
  finally show "map (\<lambda>k. crc16_le_table ! (2 ^ k)) [0,1,2,3,4,5,6,7] = map (\<lambda>k. (crc_bit (0x8408 :: u16) ^^ 8) (push_bit k 1)) [0,1,2,3,4,5,6,7]" .
  show "list_all (\<lambda>k. take (2^k) (drop (2^k) crc16_le_table) = map (\<lambda>x. crc16_le_table ! (2^k) XOR x) (take (2^k) crc16_le_table)) [0,1,2,3,4,5,6,7]"
    unfolding crc16_le_table_def by simp
qed

lemma crc8_le_table_take: "crc8_le_table = crc_table_upto 0x8c 8"
proof (rule crc_table_upto_take)
  show "length crc8_le_table = 256" "crc8_le_table ! 0 = 0"
    unfolding crc8_le_table_def by simp_all
  have "map (\<lambda>k. crc8_le_table ! (2 ^ k)) [0,1,2,3,4,5,6,7] = [0x5e, 0xbc, 0x61, 0xc2, 0x9d, 0x23, 0x46, 0x8c]"
    unfolding crc8_le_table_def by simp
  also have "\<dots> = map (\<lambda>k. (crc_bit (0x8c :: u8) ^^ 8) (push_bit k 1)) [0,1,2,3,4,5,6,7]"
    by (simp add: funpow_8 crc_bit_def)
  finally show "map (\<lambda>k. crc8_le_table ! (2 ^ k)) [0,1,2,3,4,5,6,7] = map (\<lambda>k. (crc_bit (0x8c :: u8) ^^ 8) (push_bit k 1)) [0,1,2,3,4,5,6,7]" .
  show "list_all (\<lambda>k. take (2^k) (drop (2^k) crc8_le_table) = map (\<lambda>x. crc8_le_table ! (2^k) XOR x) (take (2^k) crc8_le_table)) [0,1,2,3,4,5,6,7]"
    unfolding crc8_le_table_def by simp
qed

interpretation crc32: crc_table "0xEDB88320 :: u32" crc32_le_table
  by unfold_locales (simp, rule crc32_le_table_take)

interpretation crc16: crc_table "0x8408 :: u16" crc16_le_table
  by unfold_locales (simp, rule crc16_le_table_take)

interpretation crc8: crc_table "0x8c :: u8" crc8_le_table
  by unfold_locales (simp, rule crc8_le_table_take)

section \<open>The register as one word: messages of at most four bytes\<close>

fun bytes_word :: "u8 list \<Rightarrow> u32" where
  "bytes_word [] = 0"
| "bytes_word (b # bs) = ucast b XOR push_bit 8 (bytes_word bs)"

lemma bit_bytes_word_bound: "bit (bytes_word bs) i \<Longrightarrow> i < 8 * length bs"
  by (induction bs arbitrary: i) (fastforce simp: bit_simps dest: bit_imp_le_length)+

lemma crc_serial_word:
  fixes c :: u32
  shows "length bs \<le> 4 \<Longrightarrow> crc_serial p c bs = (crc_bit p ^^ (8 * length bs)) (c XOR bytes_word bs)"
proof (induction bs arbitrary: c)
  case Nil
  then show ?case by (simp add: crc_serial_def)
next
  case (Cons b bs)
  let ?W = "bytes_word bs"
  have "(crc_bit p ^^ 8) (push_bit 8 ?W) = drop_bit 8 (push_bit 8 ?W)"
    by (rule crc_bit_funpow_high) (simp add: bit_simps)
  also have "\<dots> = ?W"
    using Cons.prems by (intro bit_word_eqI) (auto simp: bit_simps dest: bit_bytes_word_bound)
  finally have W: "?W = (crc_bit p ^^ 8) (push_bit 8 ?W)" ..
  have "crc_serial p c (b # bs) = crc_serial p (crc_byte p c b) bs"
    by (simp add: crc_serial_def)
  also have "\<dots> = (crc_bit p ^^ (8 * length bs)) (crc_byte p c b XOR ?W)"
    using Cons by simp
  also have "crc_byte p c b XOR ?W = (crc_bit p ^^ 8) (c XOR bytes_word (b # bs))"
    by (subst W) (simp add: crc_byte_def crc_bit_funpow_xor xor.assoc)
  also have "(crc_bit p ^^ (8 * length bs)) \<dots> = (crc_bit p ^^ (8 * length (b # bs))) (c XOR bytes_word (b # bs))"
    by (simp only: funpow_add [THEN fun_cong, symmetric, unfolded o_apply] list.size mult_Suc_right add.commute add_Suc)
      simp
  finally show ?case .
qed

lemma bytes_word_inj: "length xs = length ys \<Longrightarrow> length ys \<le> 4 \<Longrightarrow> bytes_word xs = bytes_word ys \<Longrightarrow> xs = ys"
proof (induction xs ys rule: list_induct2)
  case Nil
  then show ?case by simp
next
  case (Cons x xs y ys)
  have bits: "bit (ucast x XOR push_bit 8 (bytes_word xs)) i = bit (ucast y XOR push_bit 8 (bytes_word ys)) i" for i
    using Cons.prems(2) by simp
  have "x = y"
  proof (rule bit_word_eqI)
    fix i assume "i < LENGTH(8)"
    then show "bit x i = bit y i" using bits [of i] by (simp add: bit_simps)
  qed
  moreover have "bytes_word xs = bytes_word ys"
  proof (rule bit_word_eqI)
    fix i assume "i < LENGTH(32)"
    show "bit (bytes_word xs) i = bit (bytes_word ys) i"
    proof (cases "i < 24")
      case True
      then show ?thesis using bits [of "i + 8"] \<open>x = y\<close> by (auto simp: bit_simps)
    next
      case False
      then show ?thesis using Cons.hyps Cons.prems(1) bit_bytes_word_bound [of xs i] bit_bytes_word_bound [of ys i]
        by auto
    qed
  qed
  ultimately show ?case using Cons by simp
qed

lemma crc_byte_inj: "bit p (LENGTH('a) - 1) \<Longrightarrow> inj (\<lambda>c::'a::len word. crc_byte p c b)"
proof (rule injI)
  fix x y :: "'a word"
  assume top: "bit p (LENGTH('a) - 1)" and "crc_byte p x b = crc_byte p y b"
  then have "x XOR ucast b = y XOR ucast b"
    using inj_fn [OF crc_bit_inj [OF top], of 8] by (simp add: crc_byte_def inj_eq)
  then have "(x XOR ucast b) XOR ucast b = (y XOR ucast b) XOR ucast b" by simp
  then show "x = y" by (simp add: xor.assoc)
qed

lemma crc_serial_inj: "bit p (LENGTH('a) - 1) \<Longrightarrow> inj (\<lambda>c::'a::len word. crc_serial p c bs)"
proof (induction bs)
  case Nil
  then show ?case by (simp add: crc_serial_def)
next
  case (Cons b bs)
  then have "inj ((\<lambda>c. crc_serial p c bs) \<circ> (\<lambda>c. crc_byte p c b))"
    by (intro inj_compose crc_byte_inj) auto
  then show ?case by (simp add: crc_serial_def o_def)
qed

lemma crc_serial_append: "crc_serial p c (xs @ ys) = crc_serial p (crc_serial p c xs) ys"
  by (simp add: crc_serial_def)

lemma crc32_serial_burst:
  fixes c :: u32
  assumes len: "length xs = length ys" "length ys \<le> 4" and top: "bit p 31"
    and eq: "crc_serial p c (pre @ xs @ suf) = crc_serial p c (pre @ ys @ suf)"
  shows "xs = ys"
proof -
  let ?s = "crc_serial p c pre"
  have top': "bit p (LENGTH(32) - 1)" using top by simp
  have "crc_serial p ?s xs = crc_serial p ?s ys"
    using eq injD [OF crc_serial_inj [OF top', of suf]] by (simp add: crc_serial_append)
  then have "?s XOR bytes_word xs = ?s XOR bytes_word ys"
    using inj_fn [OF crc_bit_inj [OF top']] len by (simp add: crc_serial_word inj_eq)
  then have "?s XOR (?s XOR bytes_word xs) = ?s XOR (?s XOR bytes_word ys)" by simp
  then show ?thesis using len by (simp add: bytes_word_inj flip: xor.assoc)
qed

lemma crc32_le_eq_serial: "crc32_le c buf = NOT (crc_serial 0xEDB88320 (NOT c) buf)"
proof -
  have "crc32_le_step = crc_byte 0xEDB88320"
    by (intro ext) (simp only: crc32_le_step_def crc32.step_eq_byte)
  then show ?thesis by (simp add: crc32_le_def crc_serial_def)
qed

lemma crc16_le_eq_serial: "crc16_le c buf = NOT (crc_serial 0x8408 (NOT c) buf)"
proof -
  have "crc16_le_step = crc_byte 0x8408"
    by (intro ext) (simp only: crc16_le_step_def crc16.step_eq_byte)
  then show ?thesis by (simp add: crc16_le_def crc_serial_def)
qed

lemma esp_crc8_eq_serial: "esp_crc8 buf = crc_serial 0x8c 0 buf"
proof -
  have "esp_crc8_step c b = crc_byte 0x8c c b" for c b
  proof -
    have ff: "(0xff :: u8) = mask 8"
      by (simp add: mask_eq_exp_minus_1)
    have "(c XOR b) AND 0xff = c XOR b"
      by (rule bit_word_eqI) (simp add: ff bit_simps)
    moreover have "drop_bit 8 c = 0" by (rule bit_word_eqI) (auto simp: bit_simps dest: bit_imp_le_length)
    ultimately show ?thesis using crc8.step_eq_byte [of c b] by (simp add: esp_crc8_step_def)
  qed
  then have "esp_crc8_step = crc_byte 0x8c" by (intro ext)
  then show ?thesis by (simp add: esp_crc8_def crc_serial_def)
qed

lemma crc32_le_append: "crc32_le c (xs @ ys) = crc32_le (crc32_le c xs) ys"
  by (simp add: crc32_le_def)

section \<open>Properties\<close>

text \<open>C31: The three table-driven routines compute, for every start value and every buffer, the
  CRC of their generator polynomial as the bit-serial shift register defines it: CRC-32/ISO-HDLC
  (reflected 0x04C11DB7), CRC-16/X-25 (reflected 0x1021) and CRC-8/MAXIM (reflected 0x31). Every
  one of the 3 * 256 constants of the source is checked.\<close>

theorem crc_tables_match_serial:
  "crc32_le c32 buf = NOT (crc_serial 0xEDB88320 (NOT c32) buf)
   \<and> crc16_le c16 buf = NOT (crc_serial 0x8408 (NOT c16) buf)
   \<and> esp_crc8 buf = crc_serial 0x8c 0 buf"
  by (simp add: crc32_le_eq_serial crc16_le_eq_serial esp_crc8_eq_serial)

text \<open>C32: crc32_le tells apart any two messages that differ only inside one window of at most four
  consecutive bytes, whatever the start value and whatever surrounds the window: every burst of up to
  32 bits is detected. (The OTA select entry is protected by the CRC of one such window, its
  sequence number.)\<close>

theorem crc32_le_detects_burst:
  assumes "length xs = length ys" and "length ys \<le> 4" and "xs \<noteq> ys"
  shows "crc32_le c (pre @ xs @ suf) \<noteq> crc32_le c (pre @ ys @ suf)"
  using crc32_serial_burst [of xs ys "0xEDB88320" "NOT c" pre suf] assms
  by (auto simp: crc32_le_eq_serial)

lemma crc32_le_detects_burst_witness:
  "crc32_le 0 ([0xAA] @ [1, 2] @ [0x55]) \<noteq> crc32_le 0 ([0xAA] @ [1, 3] @ [0x55])"
  by (rule crc32_le_detects_burst) simp_all

end
