(* ===== verification/Kernel_List.thy ===== *)
theory Kernel_List
  imports Prelude "HOL-Library.Monad_Syntax"
begin

text \<open>
  The lists of the kernel, \<^verbatim>\<open>freertos/list.c\<close> and the macros of \<^verbatim>\<open>list.h\<close>:
  circular doubly linked lists through a marker item. First the code on its memory of items, then lists as the rest of the kernel uses
  them, and that the one implements the other. The integrity check bytes are compiled out.
\<close>

section \<open>The code\<close>

record ListItem_t =
  xItemValue :: u32
  pxNext :: u32
  pxPrevious :: u32
  pvOwner :: u32
  pvContainer :: u32

record List_t =
  uxNumberOfItems :: u32
  pxIndex :: u32

text \<open>The memory of the items, the markers included, and of the list heads. The marker of a list lies eight bytes behind its start.\<close>

record list_mem =
  li :: "u32 \<Rightarrow> ListItem_t"
  ls :: "u32 \<Rightarrow> List_t"

definition xListEnd :: "u32 \<Rightarrow> u32" where "xListEnd L = L + 8"

definition portMAX_TICK :: u32 where "portMAX_TICK = 0xffffffff"

lemma le_max_tick [simp]: "(v :: u32) \<le> portMAX_TICK"
proof -
  have "unat v < 2 ^ LENGTH(32)" by (rule unsigned_less)
  then show ?thesis by (simp add: portMAX_TICK_def word_le_nat_alt)
qed

definition set_item :: "u32 \<Rightarrow> (ListItem_t \<Rightarrow> ListItem_t) \<Rightarrow> list_mem \<Rightarrow> list_mem" where
  "set_item p f h = h\<lparr>li := (li h)(p := f (li h p))\<rparr>"

definition set_list :: "u32 \<Rightarrow> (List_t \<Rightarrow> List_t) \<Rightarrow> list_mem \<Rightarrow> list_mem" where
  "set_list L f h = h\<lparr>ls := (ls h)(L := f (ls h L))\<rparr>"

definition vListInitialise :: "u32 \<Rightarrow> list_mem \<Rightarrow> list_mem" where
  "vListInitialise L h =
    set_list L (uxNumberOfItems_update (\<lambda>_. 0))
      (set_item (xListEnd L) (\<lambda>i. i\<lparr>xItemValue := portMAX_TICK, pxNext := xListEnd L, pxPrevious := xListEnd L\<rparr>)
        (set_list L (pxIndex_update (\<lambda>_. xListEnd L)) h))"

definition vListInitialiseItem :: "u32 \<Rightarrow> list_mem \<Rightarrow> list_mem" where
  "vListInitialiseItem p = set_item p (pvContainer_update (\<lambda>_. 0))"

definition listSET_LIST_ITEM_VALUE :: "u32 \<Rightarrow> u32 \<Rightarrow> list_mem \<Rightarrow> list_mem" where
  "listSET_LIST_ITEM_VALUE p v = set_item p (xItemValue_update (\<lambda>_. v))"

definition vListInsertEnd :: "u32 \<Rightarrow> u32 \<Rightarrow> list_mem \<Rightarrow> list_mem" where
  "vListInsertEnd L p h =
    (let ix = pxIndex (ls h L);
         h1 = set_item p (pxNext_update (\<lambda>_. ix)) h;
         h2 = set_item p (pxPrevious_update (\<lambda>_. pxPrevious (li h1 ix))) h1;
         h3 = set_item (pxPrevious (li h2 ix)) (pxNext_update (\<lambda>_. p)) h2;
         h4 = set_item ix (pxPrevious_update (\<lambda>_. p)) h3;
         h5 = set_item p (pvContainer_update (\<lambda>_. L)) h4 in
     set_list L (\<lambda>l. l\<lparr>uxNumberOfItems := uxNumberOfItems l + 1\<rparr>) h5)"

partial_function (option) insert_position :: "u32 \<Rightarrow> u32 \<Rightarrow> list_mem \<Rightarrow> u32 option" where [code]:
  "insert_position v it h =
    (if xItemValue (li h (pxNext (li h it))) \<le> v then insert_position v (pxNext (li h it)) h else Some it)"

definition vListInsert :: "u32 \<Rightarrow> u32 \<Rightarrow> list_mem \<Rightarrow> list_mem option" where
  "vListInsert L p h =
    do {
      it \<leftarrow> (if xItemValue (li h p) = portMAX_TICK then Some (pxPrevious (li h (xListEnd L)))
            else insert_position (xItemValue (li h p)) (xListEnd L) h);
      let h1 = set_item p (pxNext_update (\<lambda>_. pxNext (li h it))) h;
      let h2 = set_item (pxNext (li h1 p)) (pxPrevious_update (\<lambda>_. p)) h1;
      let h3 = set_item p (pxPrevious_update (\<lambda>_. it)) h2;
      let h4 = set_item it (pxNext_update (\<lambda>_. p)) h3;
      let h5 = set_item p (pvContainer_update (\<lambda>_. L)) h4;
      Some (set_list L (\<lambda>l. l\<lparr>uxNumberOfItems := uxNumberOfItems l + 1\<rparr>) h5)
    }"

definition uxListRemove :: "u32 \<Rightarrow> list_mem \<Rightarrow> list_mem \<times> u32" where
  "uxListRemove p h =
    (let L = pvContainer (li h p);
         h1 = set_item (pxNext (li h p)) (pxPrevious_update (\<lambda>_. pxPrevious (li h p))) h;
         h2 = set_item (pxPrevious (li h1 p)) (pxNext_update (\<lambda>_. pxNext (li h1 p))) h1;
         h3 = (if pxIndex (ls h2 L) = p then set_list L (pxIndex_update (\<lambda>_. pxPrevious (li h2 p))) h2 else h2);
         h4 = set_item p (pvContainer_update (\<lambda>_. 0)) h3;
         h5 = set_list L (\<lambda>l. l\<lparr>uxNumberOfItems := uxNumberOfItems l - 1\<rparr>) h4 in
     (h5, uxNumberOfItems (ls h5 L)))"

definition listLIST_IS_EMPTY :: "u32 \<Rightarrow> list_mem \<Rightarrow> bool" where "listLIST_IS_EMPTY L h = (uxNumberOfItems (ls h L) = 0)"

text \<open>The item that is next in turn; its owner is the result of the macro.\<close>

definition listGET_OWNER_OF_NEXT_ENTRY :: "u32 \<Rightarrow> list_mem \<Rightarrow> list_mem \<times> u32" where
  "listGET_OWNER_OF_NEXT_ENTRY L h =
    (let h1 = set_list L (\<lambda>l. l\<lparr>pxIndex := pxNext (li h (pxIndex l))\<rparr>) h;
         h2 = (if pxIndex (ls h1 L) = xListEnd L then set_list L (\<lambda>l. l\<lparr>pxIndex := pxNext (li h1 (pxIndex l))\<rparr>) h1 else h1) in
     (h2, pvOwner (li h2 (pxIndex (ls h2 L)))))"

definition listGET_OWNER_OF_HEAD_ENTRY :: "u32 \<Rightarrow> list_mem \<Rightarrow> u32" where
  "listGET_OWNER_OF_HEAD_ENTRY L h = pvOwner (li h (pxNext (li h (xListEnd L))))"

section \<open>Lists\<close>

text \<open>The items from the head on, and the one the index stands on; \<open>None\<close> is the marker.\<close>

record 'a klist =
  items :: "'a list"
  index :: "'a option"

definition kl_empty :: "'a klist" where "kl_empty = \<lparr>items = [], index = None\<rparr>"

definition kl_insert_end :: "'a \<Rightarrow> 'a klist \<Rightarrow> 'a klist" where
  "kl_insert_end x l =
    (case index l of None \<Rightarrow> l\<lparr>items := items l @ [x]\<rparr>
     | Some y \<Rightarrow> l\<lparr>items := takeWhile (\<lambda>z. z \<noteq> y) (items l) @ x # dropWhile (\<lambda>z. z \<noteq> y) (items l)\<rparr>)"

definition kl_insert :: "('a \<Rightarrow> u32) \<Rightarrow> 'a \<Rightarrow> 'a klist \<Rightarrow> 'a klist" where
  "kl_insert val x l = l\<lparr>items := takeWhile (\<lambda>y. val y \<le> val x) (items l) @ x # dropWhile (\<lambda>y. val y \<le> val x) (items l)\<rparr>"

lemma set_take_drop_While: "set (takeWhile P xs) \<union> set (dropWhile P xs) = set xs"
  by (metis set_append takeWhile_dropWhile_id)

lemma items_insert_end: "set (items (kl_insert_end x l)) = insert x (set (items l))"
  by (simp add: kl_insert_end_def set_take_drop_While split: option.split)

lemma items_insert: "set (items (kl_insert val x l)) = insert x (set (items l))"
  by (simp add: kl_insert_def set_take_drop_While)

text \<open>The item before one in the list, if it is not the first.\<close>

fun before :: "'a \<Rightarrow> 'a list \<Rightarrow> 'a option" where
  "before x [] = None"
| "before x [y] = None"
| "before x (y # z # zs) = (if y = x then None else if z = x then Some y else before x (z # zs))"

definition kl_remove :: "'a \<Rightarrow> 'a klist \<Rightarrow> 'a klist" where
  "kl_remove x l = \<lparr>items = remove1 x (items l), index = (if index l = Some x then before x (items l) else index l)\<rparr>"

text \<open>The item after the index, around the marker.\<close>

definition kl_next :: "'a klist \<Rightarrow> 'a" where
  "kl_next l = (case index l of None \<Rightarrow> hd (items l)
     | Some y \<Rightarrow> (case dropWhile (\<lambda>z. z \<noteq> y) (items l) of y' # z # _ \<Rightarrow> z | _ \<Rightarrow> hd (items l)))"

definition kl_advance :: "'a klist \<Rightarrow> 'a klist" where "kl_advance l = l\<lparr>index := Some (kl_next l)\<rparr>"

section \<open>The code implements the lists\<close>

text \<open>Each item of the sequence and the next are linked both ways.\<close>

fun chain :: "list_mem \<Rightarrow> u32 list \<Rightarrow> bool" where
  "chain h [] = True"
| "chain h [a] = True"
| "chain h (a # b # r) = (pxNext (li h a) = b \<and> pxPrevious (li h b) = a \<and> chain h (b # r))"

lemma chain_split: "chain h (p @ a # q) \<longleftrightarrow> chain h (p @ [a]) \<and> chain h (a # q)"
  by (induction p rule: induct_list012) auto

lemma chain_cong:
  "\<forall>a \<in> set (butlast zs). pxNext (li h' a) = pxNext (li h a) \<Longrightarrow> \<forall>b \<in> set (tl zs). pxPrevious (li h' b) = pxPrevious (li h b)
    \<Longrightarrow> chain h' zs = chain h zs"
  by (induction h zs rule: chain.induct) auto

definition list_rep :: "list_mem \<Rightarrow> u32 \<Rightarrow> u32 klist \<Rightarrow> bool" where
  "list_rep h L l \<longleftrightarrow> chain h (xListEnd L # items l @ [xListEnd L]) \<and> distinct (xListEnd L # items l)
     \<and> xItemValue (li h (xListEnd L)) = portMAX_TICK \<and> uxNumberOfItems (ls h L) = of_nat (length (items l))
     \<and> (case index l of None \<Rightarrow> pxIndex (ls h L) = xListEnd L | Some x \<Rightarrow> pxIndex (ls h L) = x \<and> x \<in> set (items l))
     \<and> (\<forall>x \<in> set (items l). pvContainer (li h x) = L)"

lemma list_rep_init: "list_rep (vListInitialise L h) L kl_empty"
  by (simp add: list_rep_def vListInitialise_def kl_empty_def set_item_def set_list_def)

lemma list_rep_frame:
  assumes "\<forall>x \<in> insert (xListEnd L) (set (items l)). li h' x = li h x" and "ls h' L = ls h L"
  shows "list_rep h' L l = list_rep h L l"
proof -
  have "chain h' (xListEnd L # items l @ [xListEnd L]) = chain h (xListEnd L # items l @ [xListEnd L])"
    using assms(1) by (intro chain_cong) (auto dest: in_set_butlastD)
  then show ?thesis using assms by (auto simp: list_rep_def split: option.split)
qed

text \<open>Linking an item in between two neighbours.\<close>

definition link_between :: "u32 \<Rightarrow> u32 \<Rightarrow> u32 \<Rightarrow> list_mem \<Rightarrow> list_mem \<Rightarrow> bool" where
  "link_between a p b h h' \<longleftrightarrow> (\<forall>x. pxNext (li h' x) = (if x = p then b else if x = a then p else pxNext (li h x)))
     \<and> (\<forall>x. pxPrevious (li h' x) = (if x = p then a else if x = b then p else pxPrevious (li h x)))"

lemma chain_link:
  assumes "chain h (us @ a # b # vs)" and "link_between a p b h h'" and "distinct (butlast (us @ a # b # vs))" "distinct (tl (us @ a # b # vs))"
    and "p \<notin> set (us @ a # b # vs)"
  shows "chain h' (us @ a # p # b # vs)"
proof -
  have c: "chain h (us @ [a])" "chain h (b # vs)" using assms(1) chain_split [of h us a "b # vs"] by simp_all
  have na: "a \<notin> set us" using assms(3) by (auto simp: butlast_append split: if_splits)
  have d4: "distinct (a # b # vs) \<or> us = []" using assms(4) by (cases us) auto
  have "b \<notin> set vs" using assms(4) by (cases us) auto
  have n: "pxNext (li h' x) = (if x = p then b else if x = a then p else pxNext (li h x))"
    "pxPrevious (li h' x) = (if x = p then a else if x = b then p else pxPrevious (li h x))" for x using assms(2) by (simp_all add: link_between_def)
  have nb: "b \<notin> set (tl (us @ [a]))" using assms(4) by (cases us) auto
  have nbv: "a \<notin> set (butlast (b # vs))" using assms(3) by (auto simp: butlast_append split: if_splits)
  have "chain h' (us @ [a])"
    using c(1) na nb assms(5) by (subst chain_cong [of _ h' h]) (auto simp: n dest: in_set_butlastD list.set_sel(2) [rotated])
  moreover have "chain h' (b # vs)"
    using c(2) nbv \<open>b \<notin> set vs\<close> assms(5) by (subst chain_cong [of _ h' h]) (auto simp: n dest: in_set_butlastD)
  moreover have "chain h' (a # p # b # vs)" using calculation(2) assms(5) by (auto simp: n)
  ultimately show ?thesis by (subst chain_split) simp
qed

lemma rep_chain:
  assumes "list_rep h L l" and "items l = xs @ ys" and "xListEnd L # xs = us @ [a]" and "ys @ [xListEnd L] = b # vs"
  shows "chain h (us @ a # b # vs)" and "distinct (us @ [a])" and "distinct (b # vs)" and "set (us @ [a]) \<inter> set (b # vs) = {xListEnd L}"
    and "pxNext (li h a) = b" and "pxPrevious (li h b) = a"
proof -
  have e: "us @ a # b # vs = xListEnd L # items l @ [xListEnd L]"
    using arg_cong2 [OF assms(3,4), of "(@)"] assms(2) by simp
  show c: "chain h (us @ a # b # vs)" using assms(1) by (simp add: list_rep_def e)
  show "distinct (us @ [a])" "distinct (b # vs)" "set (us @ [a]) \<inter> set (b # vs) = {xListEnd L}"
    using assms(1,2) unfolding assms(3,4) [symmetric] by (auto simp: list_rep_def)
  have "chain h (a # b # vs)" using c by (subst (asm) chain_split) simp
  then show "pxNext (li h a) = b" "pxPrevious (li h b) = a" by simp_all
qed

lemma rep_insert:
  assumes rep: "list_rep h L l" and its: "items l = xs @ ys" and p: "p \<notin> insert (xListEnd L) (set (items l))"
    and ab: "xListEnd L # xs = us @ [a]" "ys @ [xListEnd L] = b # vs" and link: "link_between a p b h h'"
    and rest: "pvContainer (li h' p) = L" "\<forall>x. x \<noteq> p \<longrightarrow> pvContainer (li h' x) = pvContainer (li h x) \<and> xItemValue (li h' x) = xItemValue (li h x)"
      "ls h' L = ls h L\<lparr>uxNumberOfItems := uxNumberOfItems (ls h L) + 1\<rparr>"
  shows "list_rep h' L (l\<lparr>items := xs @ p # ys\<rparr>)"
proof -
  note c = rep_chain [OF rep its ab]
  have "xListEnd L # (xs @ p # ys) @ [xListEnd L] = us @ a # p # b # vs" using ab by (metis append.assoc append_Cons append_Nil)
  moreover have "chain h' (us @ a # p # b # vs)"
  proof (rule chain_link [OF c(1) link])
    have "butlast (us @ a # b # vs) = (us @ [a]) @ butlast (b # vs)" by (simp add: butlast_append)
    moreover have "xListEnd L \<notin> set (butlast (b # vs))" using rep its unfolding ab(2) [symmetric] by (auto simp: list_rep_def)
    then have "set (us @ [a]) \<inter> set (butlast (b # vs)) = {}" using c(4) in_set_butlastD [of _ "b # vs"] by fastforce
    ultimately show "distinct (butlast (us @ a # b # vs))"
      using c(2,3) by (simp only: distinct_append distinct_butlast simp_thms)
    have "tl (us @ a # b # vs) = xs @ b # vs" using arg_cong [OF ab(1), of "\<lambda>z. tl (z @ b # vs)"] by simp
    then show "distinct (tl (us @ a # b # vs))" using rep its unfolding ab(2) [symmetric] by (auto simp: list_rep_def)
    show "p \<notin> set (us @ a # b # vs)" using p its arg_cong [OF ab(1), of set] arg_cong [OF ab(2), of set] by auto
  qed
  ultimately show ?thesis using rep its p rest by (auto simp: list_rep_def split: option.splits)
qed

lemma rep_remove:
  assumes rep: "list_rep h L l" and its: "items l = xs @ p # ys" and ab: "xListEnd L # xs = us @ [a]" "ys @ [xListEnd L] = b # vs"
    and link: "\<forall>x. pxNext (li h' x) = (if x = a then b else pxNext (li h x))" "\<forall>x. pxPrevious (li h' x) = (if x = b then a else pxPrevious (li h x))"
    and rest: "\<forall>x. x \<noteq> p \<longrightarrow> pvContainer (li h' x) = pvContainer (li h x)" "\<forall>x. xItemValue (li h' x) = xItemValue (li h x)"
      "ls h' L = \<lparr>uxNumberOfItems = uxNumberOfItems (ls h L) - 1, pxIndex = (if pxIndex (ls h L) = p then a else pxIndex (ls h L))\<rparr>"
  shows "list_rep h' L \<lparr>items = xs @ ys, index = (if index l = Some p then (if xs = [] then None else Some (last xs)) else index l)\<rparr>"
proof -
  have r: "chain h (xListEnd L # (xs @ p # ys) @ [xListEnd L])" "distinct (xListEnd L # xs @ p # ys)" using rep its by (simp_all add: list_rep_def)
  have "xListEnd L # (xs @ p # ys) @ [xListEnd L] = (xListEnd L # xs) @ p # (ys @ [xListEnd L])" by simp
  also have "\<dots> = us @ a # p # b # vs" by (simp only: ab) simp
  finally have e1: "xListEnd L # (xs @ p # ys) @ [xListEnd L] = us @ a # p # b # vs" .
  have "xListEnd L # (xs @ ys) @ [xListEnd L] = (xListEnd L # xs) @ (ys @ [xListEnd L])" by simp
  also have "\<dots> = us @ a # b # vs" by (simp only: ab) simp
  finally have e2: "xListEnd L # (xs @ ys) @ [xListEnd L] = us @ a # b # vs" .
  have c: "chain h (us @ [a])" "chain h (b # vs)" using r(1) chain_split [of h us a "p # b # vs"] unfolding e1 by simp_all
  have d: "distinct (us @ [a])" "distinct (b # vs)" using r(2) unfolding ab [symmetric] by auto
  have an: "a \<notin> set (butlast (b # vs))"
  proof -
    have "a \<in> set (xListEnd L # xs)" unfolding ab(1) by simp
    then show ?thesis using r(2) unfolding ab(2) [symmetric] by auto
  qed
  have bn: "b \<notin> set (tl (us @ [a]))"
  proof -
    have "b \<in> set (ys @ [xListEnd L])" unfolding ab(2) by simp
    then show ?thesis using r(2) unfolding ab(1) [symmetric] by auto
  qed
  have "chain h' (us @ [a])"
    using c(1) d(1) bn link by (subst chain_cong [of _ h' h]) (auto simp: butlast_append)
  moreover have "chain h' (b # vs)"
    using c(2) d(2) an link by (subst chain_cong [of _ h' h]) (auto simp del: butlast.simps)
  ultimately have ch: "chain h' (xListEnd L # (xs @ ys) @ [xListEnd L])" unfolding e2 using link by (subst chain_split) simp
  have a: "a = (if xs = [] then xListEnd L else last xs)" using arg_cong [OF ab(1), of last] by simp
  have v: "xItemValue (li h (xListEnd L)) = portMAX_TICK" "uxNumberOfItems (ls h L) = of_nat (length (xs @ p # ys))"
    and c: "\<forall>x \<in> set (xs @ p # ys). pvContainer (li h x) = L"
    and ix: "case index l of None \<Rightarrow> pxIndex (ls h L) = xListEnd L | Some x \<Rightarrow> pxIndex (ls h L) = x \<and> x \<in> set (xs @ p # ys)"
    using rep its by (auto simp: list_rep_def split: option.splits)
  define j where "j = (if index l = Some p then (if xs = [] then None else Some (last xs)) else index l)"
  have "case j of None \<Rightarrow> pxIndex (ls h' L) = xListEnd L
    | Some x \<Rightarrow> pxIndex (ls h' L) = x \<and> x \<in> set (xs @ ys)"
    using ix r(2) by (auto simp: rest(3) a j_def split: option.splits)
  moreover have "\<forall>x \<in> set (xs @ ys). pvContainer (li h' x) = L" using c r(2) rest(1) by auto
  moreover have "uxNumberOfItems (ls h' L) = of_nat (length (xs @ ys))" using v(2) by (simp add: rest(3))
  moreover have "distinct (xListEnd L # xs @ ys)" "xItemValue (li h' (xListEnd L)) = portMAX_TICK" using r(2) v(1) rest(2) by simp_all
  ultimately show ?thesis using ch unfolding list_rep_def klist.select_convs j_def [symmetric] by blast
qed

text \<open>What an operation leaves alone.\<close>

definition only_touches :: "u32 set \<Rightarrow> u32 \<Rightarrow> list_mem \<Rightarrow> list_mem \<Rightarrow> bool" where
  "only_touches X L h h' \<longleftrightarrow> (\<forall>x. x \<notin> X \<longrightarrow> li h' x = li h x) \<and> (\<forall>M. M \<noteq> L \<longrightarrow> ls h' M = ls h M)
     \<and> (\<forall>x. xItemValue (li h' x) = xItemValue (li h x) \<and> pvOwner (li h' x) = pvOwner (li h x))"

lemma last_split: obtains us a where "x # xs = us @ [a]"
  by (metis append_butlast_last_id list.distinct(1))

lemma hd_split: obtains b vs where "ys @ [x] = b # vs"
  by (cases ys) auto

lemma split_sets:
  assumes "x # xs = us @ [a]" shows "a \<in> insert x (set xs)"
  using arg_cong [OF assms, of set] by auto

lemma split_sets2:
  assumes "ys @ [x] = b # vs" shows "b \<in> insert x (set ys)"
  using arg_cong [OF assms, of set] by auto

lemma insert_end_rep:
  assumes rep: "list_rep h L l" and p: "p \<notin> insert (xListEnd L) (set (items l))"
  shows "list_rep (vListInsertEnd L p h) L (kl_insert_end p l)"
    and "only_touches (insert p (insert (xListEnd L) (set (items l)))) L h (vListInsertEnd L p h)"
proof -
  let ?E = "xListEnd L" and ?ix = "pxIndex (ls h L)"
  obtain xs ys where its: "items l = xs @ ys" "hd (ys @ [?E]) = ?ix" "kl_insert_end p l = l\<lparr>items := xs @ p # ys\<rparr>"
  proof (cases "index l")
    case None
    then show thesis using rep that [of "items l" "[]"] by (simp add: list_rep_def kl_insert_end_def)
  next
    case (Some y)
    then have y: "?ix = y" "y \<in> set (items l)" using rep by (simp_all add: list_rep_def)
    then have "dropWhile (\<lambda>z. z \<noteq> y) (items l) \<noteq> []" by (simp add: dropWhile_eq_Nil_conv)
    then have "hd (dropWhile (\<lambda>z. z \<noteq> y) (items l) @ [?E]) = y" using hd_dropWhile [of "\<lambda>z. z \<noteq> y" "items l"] by simp
    then show thesis using Some y that [of "takeWhile (\<lambda>z. z \<noteq> y) (items l)" "dropWhile (\<lambda>z. z \<noteq> y) (items l)"]
      by (simp add: kl_insert_end_def)
  qed
  obtain us a where us: "?E # xs = us @ [a]" by (rule last_split)
  obtain b vs where vs: "ys @ [?E] = b # vs" by (rule hd_split)
  note c = rep_chain [OF rep its(1) us vs]
  have b: "?ix = b" using its(2) vs by simp
  have in_list: "a \<in> insert ?E (set (items l))" "b \<in> insert ?E (set (items l))" using split_sets [OF us] split_sets2 [OF vs] its(1) by auto
  then have ne: "a \<noteq> p" "b \<noteq> p" using p by auto
  have h': "link_between a p b h (vListInsertEnd L p h)" "pvContainer (li (vListInsertEnd L p h) p) = L"
    "\<forall>x. x \<noteq> p \<longrightarrow> pvContainer (li (vListInsertEnd L p h) x) = pvContainer (li h x)"
    "\<forall>x. xItemValue (li (vListInsertEnd L p h) x) = xItemValue (li h x) \<and> pvOwner (li (vListInsertEnd L p h) x) = pvOwner (li h x)"
    "ls (vListInsertEnd L p h) = (ls h)(L := ls h L\<lparr>uxNumberOfItems := uxNumberOfItems (ls h L) + 1\<rparr>)"
    "\<forall>x. x \<notin> {p, a, b} \<longrightarrow> li (vListInsertEnd L p h) x = li h x"
    using ne c(6) by (auto simp: vListInsertEnd_def Let_def link_between_def set_item_def set_list_def b)
  show "list_rep (vListInsertEnd L p h) L (kl_insert_end p l)"
    unfolding its(3) by (rule rep_insert [OF rep its(1) p us vs h'(1,2)]) (use h' in simp_all)
  show "only_touches (insert p (insert ?E (set (items l)))) L h (vListInsertEnd L p h)"
    using h' in_list by (auto simp: only_touches_def)
qed

text \<open>The search for the position ends: the marker has the highest value.\<close>

lemma insert_position_rep:
  assumes "chain h (it # zs @ [xListEnd L])" and "xItemValue (li h (xListEnd L)) = portMAX_TICK" and "v \<noteq> portMAX_TICK"
  shows "insert_position v it h = Some (last (it # takeWhile (\<lambda>z. xItemValue (li h z) \<le> v) zs))"
  using assms(1)
proof (induction zs arbitrary: it)
  case Nil
  have "\<not> portMAX_TICK \<le> v" using assms(3) le_max_tick [of v] by (metis order_antisym)
  then show ?case using Nil assms(2) by (subst insert_position.simps) simp
next
  case (Cons z zs)
  then have "pxNext (li h it) = z" "chain h (z # zs @ [xListEnd L])" by simp_all
  then show ?case using Cons.IH [of z] by (subst insert_position.simps) simp
qed

lemma insert_rep:
  assumes rep: "list_rep h L l" and p: "p \<notin> insert (xListEnd L) (set (items l))"
  shows "\<exists>h'. vListInsert L p h = Some h' \<and> list_rep h' L (kl_insert (\<lambda>x. xItemValue (li h x)) p l)
    \<and> only_touches (insert p (insert (xListEnd L) (set (items l)))) L h h'"
proof -
  let ?E = "xListEnd L" and ?v = "xItemValue (li h p)"
  define xs ys where "xs = takeWhile (\<lambda>y. xItemValue (li h y) \<le> ?v) (items l)" and "ys = dropWhile (\<lambda>y. xItemValue (li h y) \<le> ?v) (items l)"
  have its: "items l = xs @ ys" by (simp add: xs_def ys_def)
  obtain us a where us: "?E # xs = us @ [a]" by (rule last_split)
  obtain b vs where vs: "ys @ [?E] = b # vs" by (rule hd_split)
  note c = rep_chain [OF rep its us vs]
  have r: "chain h (?E # items l @ [?E])" "xItemValue (li h ?E) = portMAX_TICK" using rep by (simp_all add: list_rep_def)
  have a: "a = last (?E # xs)" using us by simp
  have pos: "(if ?v = portMAX_TICK then Some (pxPrevious (li h ?E)) else insert_position ?v ?E h) = Some a"
  proof (cases "?v = portMAX_TICK")
    case True
    then have "ys = []" by (simp add: ys_def dropWhile_eq_Nil_conv)
    then have "b = ?E" using vs by simp
    then show ?thesis using True c(6) by simp
  next
    case False
    then show ?thesis using insert_position_rep [OF r False] a by (simp add: xs_def)
  qed
  have in_list: "a \<in> insert ?E (set (items l))" "b \<in> insert ?E (set (items l))" using split_sets [OF us] split_sets2 [OF vs] its by auto
  then have ne: "a \<noteq> p" "b \<noteq> p" using p by auto
  define h' where "h' = set_list L (\<lambda>l. l\<lparr>uxNumberOfItems := uxNumberOfItems l + 1\<rparr>) (set_item p (pvContainer_update (\<lambda>_. L))
    (set_item a (pxNext_update (\<lambda>_. p)) (set_item p (pxPrevious_update (\<lambda>_. a)) (set_item b (pxPrevious_update (\<lambda>_. p))
      (set_item p (pxNext_update (\<lambda>_. b)) h)))))"
  have run: "vListInsert L p h = Some h'"
    unfolding vListInsert_def pos using c(5) by (simp add: h'_def Let_def) (simp add: set_item_def)
  have f: "link_between a p b h h'" "pvContainer (li h' p) = L" "\<forall>x. x \<noteq> p \<longrightarrow> pvContainer (li h' x) = pvContainer (li h x)"
    "\<forall>x. xItemValue (li h' x) = xItemValue (li h x) \<and> pvOwner (li h' x) = pvOwner (li h x)"
    "ls h' = (ls h)(L := ls h L\<lparr>uxNumberOfItems := uxNumberOfItems (ls h L) + 1\<rparr>)" "\<forall>x. x \<notin> {p, a, b} \<longrightarrow> li h' x = li h x"
    using ne by (auto simp: h'_def link_between_def set_item_def set_list_def)
  have "list_rep h' L (l\<lparr>items := xs @ p # ys\<rparr>)"
    by (rule rep_insert [OF rep its p us vs f(1,2)]) (use f in simp_all)
  moreover have "only_touches (insert p (insert ?E (set (items l)))) L h h'" using f in_list by (auto simp: only_touches_def)
  ultimately show ?thesis using run by (auto simp: kl_insert_def xs_def ys_def)
qed

lemma before_append: "x \<notin> set xs \<Longrightarrow> before x (xs @ x # ys) = (if xs = [] then None else Some (last xs))"
proof (induction xs)
  case Nil
  then show ?case by (cases ys) simp_all
next
  case (Cons y xs)
  then show ?case by (cases xs) auto
qed

lemma remove_rep:
  assumes rep: "list_rep h L l" and p: "p \<in> set (items l)"
  shows "list_rep (fst (uxListRemove p h)) L (kl_remove p l)" and "snd (uxListRemove p h) = of_nat (length (items (kl_remove p l)))"
    and "only_touches (insert (xListEnd L) (set (items l))) L h (fst (uxListRemove p h))"
proof -
  let ?E = "xListEnd L"
  obtain xs ys where its: "items l = xs @ p # ys" "p \<notin> set xs" using p by (meson split_list_first)
  obtain us a where us: "?E # xs = us @ [a]" by (rule last_split)
  obtain b vs where vs: "ys @ [?E] = b # vs" by (rule hd_split)
  have d: "distinct (?E # xs @ p # ys)" and cont: "pvContainer (li h p) = L" using rep its by (simp_all add: list_rep_def)
  have nx: "pxNext (li h p) = b" using rep_chain(5) [of h L l "xs @ [p]" ys "?E # xs" p b vs] rep its vs by simp
  have pv: "pxPrevious (li h p) = a" using rep_chain(6) [of h L l xs "p # ys" us a p "ys @ [?E]"] rep its us by simp
  have in_list: "a \<in> insert ?E (set xs)" "b \<in> insert ?E (set ys)" using split_sets [OF us] split_sets2 [OF vs] by auto
  then have ne: "a \<noteq> p" "b \<noteq> p" using d by auto
  define h' where "h' = fst (uxListRemove p h)"
  have f: "\<forall>x. pxNext (li h' x) = (if x = a then b else pxNext (li h x))" "\<forall>x. pxPrevious (li h' x) = (if x = b then a else pxPrevious (li h x))"
    "\<forall>x. x \<noteq> p \<longrightarrow> pvContainer (li h' x) = pvContainer (li h x)" "\<forall>x. xItemValue (li h' x) = xItemValue (li h x)"
    "ls h' L = \<lparr>uxNumberOfItems = uxNumberOfItems (ls h L) - 1, pxIndex = (if pxIndex (ls h L) = p then a else pxIndex (ls h L))\<rparr>"
    "\<forall>x. pvOwner (li h' x) = pvOwner (li h x)" "\<forall>M. M \<noteq> L \<longrightarrow> ls h' M = ls h M" "\<forall>x. x \<notin> {p, a, b} \<longrightarrow> li h' x = li h x"
    using ne nx pv cont by (auto simp: h'_def uxListRemove_def Let_def set_item_def set_list_def)
  have rep': "list_rep h' L \<lparr>items = xs @ ys, index = (if index l = Some p then (if xs = [] then None else Some (last xs)) else index l)\<rparr>"
    by (rule rep_remove [OF rep its(1) us vs]) (use f in simp_all)
  moreover have "kl_remove p l = \<lparr>items = xs @ ys, index = (if index l = Some p then (if xs = [] then None else Some (last xs)) else index l)\<rparr>"
    using its by (simp add: kl_remove_def before_append remove1_append)
  ultimately show "list_rep (fst (uxListRemove p h)) L (kl_remove p l)" by (simp add: h'_def)
  then show "snd (uxListRemove p h) = of_nat (length (items (kl_remove p l)))"
    by (simp add: list_rep_def uxListRemove_def Let_def cont)
  show "only_touches (insert ?E (set (items l))) L h (fst (uxListRemove p h))"
    unfolding h'_def [symmetric] only_touches_def
  proof (intro conjI allI impI)
    fix x assume "x \<notin> insert ?E (set (items l))"
    then have "x \<notin> {p, a, b}" using in_list its(1) by auto
    then show "li h' x = li h x" using f(8) by blast
  qed (use f in simp_all)
qed

lemma next_rep:
  assumes rep: "list_rep h L l" and ne: "items l \<noteq> []"
  shows "list_rep (fst (listGET_OWNER_OF_NEXT_ENTRY L h)) L (kl_advance l)"
    and "snd (listGET_OWNER_OF_NEXT_ENTRY L h) = pvOwner (li h (kl_next l))"
    and "li (fst (listGET_OWNER_OF_NEXT_ENTRY L h)) = li h" and "only_touches {} L h (fst (listGET_OWNER_OF_NEXT_ENTRY L h))"
proof -
  let ?E = "xListEnd L" and ?ix = "pxIndex (ls h L)"
  have d: "distinct (?E # items l)" using rep by (simp add: list_rep_def)
  have first: "pxNext (li h ?E) = hd (items l)"
    using rep_chain(5) [of h L l "[]" "items l" "[]" ?E "hd (items l)" "tl (items l) @ [?E]"] rep ne by (cases "items l") auto
  have step: "(if pxNext (li h ?ix) = ?E then pxNext (li h ?E) else pxNext (li h ?ix)) = kl_next l \<and> kl_next l \<in> set (items l)"
  proof (cases "index l")
    case None
    then have "?ix = ?E" using rep by (simp add: list_rep_def)
    then show ?thesis using first d ne None by (auto simp: kl_next_def)
  next
    case (Some y)
    then have y: "?ix = y" "y \<in> set (items l)" using rep by (simp_all add: list_rep_def)
    then obtain xs ys where its: "items l = xs @ y # ys" "y \<notin> set xs" by (meson split_list_first)
    obtain b vs where vs: "ys @ [?E] = b # vs" by (rule hd_split)
    have nx: "pxNext (li h y) = b" using rep_chain(5) [of h L l "xs @ [y]" ys "?E # xs" y b vs] rep its vs by simp
    have "dropWhile (\<lambda>z. z \<noteq> y) (xs @ y # ys) = y # ys" using its(2) by (induction xs) auto
    then have "dropWhile (\<lambda>z. z \<noteq> y) (items l) = y # ys" by (simp add: its)
    then show ?thesis using nx y(1) first its vs d Some by (cases ys; cases xs) (auto simp: kl_next_def)
  qed
  have e: "fst (listGET_OWNER_OF_NEXT_ENTRY L h) = set_list L (\<lambda>l'. l'\<lparr>pxIndex := kl_next l\<rparr>) h"
    using step by (auto simp: listGET_OWNER_OF_NEXT_ENTRY_def Let_def set_list_def)
  show "list_rep (fst (listGET_OWNER_OF_NEXT_ENTRY L h)) L (kl_advance l)"
  proof -
    have "chain (set_list L (\<lambda>l'. l'\<lparr>pxIndex := kl_next l\<rparr>) h) zs = chain h zs" for zs by (rule chain_cong) (simp_all add: set_list_def)
    then show ?thesis using rep step unfolding e by (simp add: list_rep_def kl_advance_def) (simp add: set_list_def)
  qed
  show "snd (listGET_OWNER_OF_NEXT_ENTRY L h) = pvOwner (li h (kl_next l))"
    using step by (auto simp: listGET_OWNER_OF_NEXT_ENTRY_def Let_def set_list_def)
  show "li (fst (listGET_OWNER_OF_NEXT_ENTRY L h)) = li h" "only_touches {} L h (fst (listGET_OWNER_OF_NEXT_ENTRY L h))"
    by (simp_all add: e set_list_def only_touches_def)
qed

section \<open>Any number of lists\<close>

datatype ('l, 'i) list_command = InsertEnd 'l 'i | Insert 'l 'i | Remove 'i | Next 'l | SetValue 'i u32

text \<open>A call of the code.\<close>

fun list_call :: "(u32, u32) list_command \<Rightarrow> list_mem \<Rightarrow> list_mem option" where
  "list_call (InsertEnd L p) h = Some (vListInsertEnd L p h)"
| "list_call (Insert L p) h = vListInsert L p h"
| "list_call (Remove p) h = Some (fst (uxListRemove p h))"
| "list_call (Next L) h = Some (fst (listGET_OWNER_OF_NEXT_ENTRY L h))"
| "list_call (SetValue p v) h = Some (listSET_LIST_ITEM_VALUE p v h)"

text \<open>What it stands for: the lists, where each item is, and the values.\<close>

record ('l, 'i) lists =
  lists_of :: "'l \<Rightarrow> 'i klist"
  where_is :: "'i \<Rightarrow> 'l option"
  value_of :: "'i \<Rightarrow> u32"

fun lists_call :: "('l, 'i) list_command \<Rightarrow> ('l, 'i) lists \<Rightarrow> ('l, 'i) lists" where
  "lists_call (InsertEnd L p) s = s\<lparr>lists_of := (lists_of s)(L := kl_insert_end p (lists_of s L)), where_is := (where_is s)(p := Some L)\<rparr>"
| "lists_call (Insert L p) s =
    s\<lparr>lists_of := (lists_of s)(L := kl_insert (value_of s) p (lists_of s L)), where_is := (where_is s)(p := Some L)\<rparr>"
| "lists_call (Remove p) s = (case where_is s p of None \<Rightarrow> s
     | Some L \<Rightarrow> s\<lparr>lists_of := (lists_of s)(L := kl_remove p (lists_of s L)), where_is := (where_is s)(p := None)\<rparr>)"
| "lists_call (Next L) s = s\<lparr>lists_of := (lists_of s)(L := kl_advance (lists_of s L))\<rparr>"
| "lists_call (SetValue p v) s = s\<lparr>value_of := (value_of s)(p := v)\<rparr>"

text \<open>A call fits when the item that goes in is in no list, the item that comes out is in one, and the list that is asked for its next entry is not
  empty. On memory it is proper when it also leaves the markers alone.\<close>

fun fits :: "('l, 'i) lists \<Rightarrow> ('l, 'i) list_command \<Rightarrow> bool" where
  "fits s (InsertEnd L p) = (where_is s p = None)"
| "fits s (Insert L p) = (where_is s p = None)"
| "fits s (Remove p) = (where_is s p \<noteq> None)"
| "fits s (Next L) = (items (lists_of s L) \<noteq> [])"
| "fits s (SetValue p v) = True"

fun avoids_markers :: "u32 set \<Rightarrow> (u32, u32) list_command \<Rightarrow> bool" where
  "avoids_markers A (InsertEnd L p) = (L \<in> A \<and> p \<notin> xListEnd ` A)"
| "avoids_markers A (Insert L p) = (L \<in> A \<and> p \<notin> xListEnd ` A)"
| "avoids_markers A (Remove p) = True"
| "avoids_markers A (Next L) = (L \<in> A)"
| "avoids_markers A (SetValue p v) = (p \<notin> xListEnd ` A)"

definition proper :: "u32 set \<Rightarrow> (u32, u32) lists \<Rightarrow> (u32, u32) list_command \<Rightarrow> bool" where
  "proper A s c \<longleftrightarrow> avoids_markers A c \<and> fits s c"

fun proper_run :: "u32 set \<Rightarrow> (u32, u32) lists \<Rightarrow> (u32, u32) list_command list \<Rightarrow> bool" where
  "proper_run A s [] = True"
| "proper_run A s (c # cs) = (proper A s c \<and> proper_run A (lists_call c s) cs)"

fun list_calls :: "(u32, u32) list_command list \<Rightarrow> list_mem \<Rightarrow> list_mem option" where
  "list_calls [] h = Some h"
| "list_calls (c # cs) h = do { h' \<leftarrow> list_call c h; list_calls cs h' }"

text \<open>The lists that the addresses in \<open>A\<close> hold.\<close>

definition implements :: "u32 set \<Rightarrow> list_mem \<Rightarrow> (u32, u32) lists \<Rightarrow> bool" where
  "implements A h s \<longleftrightarrow> (\<forall>L \<in> A. list_rep h L (lists_of s L)) \<and> (\<forall>L \<in> A. set (items (lists_of s L)) = {p. where_is s p = Some L})
     \<and> (\<forall>p L. where_is s p = Some L \<longrightarrow> L \<in> A \<and> p \<notin> xListEnd ` A) \<and> (\<forall>p. p \<notin> xListEnd ` A \<longrightarrow> value_of s p = xItemValue (li h p))"

lemma implements_single:
  assumes imp: "implements A h s" and L: "L \<in> A" and touch: "only_touches X L h h'" and X: "X \<inter> {x. x \<in> xListEnd ` (A - {L}) \<or> (\<exists>M. M \<noteq> L \<and> where_is s x = Some M)} = {}"
    and rep: "list_rep h' L l" and w: "\<forall>p. p \<notin> set (items l) \<longrightarrow> w p \<noteq> Some L" "\<forall>p \<in> set (items l). w p = Some L \<and> p \<notin> xListEnd ` A"
      "\<forall>p M. M \<noteq> L \<longrightarrow> (w p = Some M) = (where_is s p = Some M)"
  shows "implements A h' (s\<lparr>lists_of := (lists_of s)(L := l), where_is := w\<rparr>)"
proof -
  have i: "\<forall>L \<in> A. list_rep h L (lists_of s L)" "\<forall>L \<in> A. set (items (lists_of s L)) = {p. where_is s p = Some L}"
    "\<forall>p L. where_is s p = Some L \<longrightarrow> L \<in> A \<and> p \<notin> xListEnd ` A" "\<forall>p. p \<notin> xListEnd ` A \<longrightarrow> value_of s p = xItemValue (li h p)"
    using imp by (simp_all add: implements_def)
  have inj: "xListEnd M \<noteq> xListEnd L" if "M \<noteq> L" for M using that by (simp add: xListEnd_def)
  have "list_rep h' M (lists_of s M)" if "M \<in> A" "M \<noteq> L" for M
  proof -
    have "x \<notin> X" if "x \<in> insert (xListEnd M) (set (items (lists_of s M)))" for x
      using that X \<open>M \<in> A\<close> \<open>M \<noteq> L\<close> i(2) by auto
    then have "list_rep h' M (lists_of s M) = list_rep h M (lists_of s M)"
      using touch \<open>M \<noteq> L\<close> by (intro list_rep_frame) (auto simp: only_touches_def)
    then show ?thesis using i(1) \<open>M \<in> A\<close> by blast
  qed
  then have "\<forall>M \<in> A. list_rep h' M (((lists_of s)(L := l)) M)" using rep by simp
  moreover have sets: "\<forall>M \<in> A. set (items (((lists_of s)(L := l)) M)) = {p. w p = Some M}" using i(2) w by auto
  moreover have "M \<in> A \<and> p \<notin> xListEnd ` A" if "w p = Some M" for p M
  proof (cases "M = L")
    case True
    then have "p \<in> set (items l)" using that w(1) by blast
    then show ?thesis using w(2) L True by blast
  next
    case False
    then have "where_is s p = Some M" using that w(3) by blast
    then show ?thesis using i(3) by blast
  qed
  moreover have "\<forall>p. p \<notin> xListEnd ` A \<longrightarrow> value_of s p = xItemValue (li h' p)" using i(4) touch by (simp add: only_touches_def)
  ultimately show ?thesis unfolding implements_def by simp
qed

lemma list_call_implements:
  assumes imp: "implements A h s" and ok: "proper A s c"
  shows "\<exists>h'. list_call c h = Some h' \<and> implements A h' (lists_call c s)"
proof -
  have i: "\<forall>L \<in> A. list_rep h L (lists_of s L)" "\<forall>L \<in> A. set (items (lists_of s L)) = {p. where_is s p = Some L}"
    "\<forall>p L. where_is s p = Some L \<longrightarrow> L \<in> A \<and> p \<notin> xListEnd ` A" "\<forall>p. p \<notin> xListEnd ` A \<longrightarrow> value_of s p = xItemValue (li h p)"
    using imp by (simp_all add: implements_def)
  have own: "insert (xListEnd L) (set (items (lists_of s L))) \<inter> {x. x \<in> xListEnd ` (A - {L}) \<or> (\<exists>M. M \<noteq> L \<and> where_is s x = Some M)} = {}"
    if "L \<in> A" for L
  proof -
    have "where_is s x = Some L" "x \<notin> xListEnd ` A" if "x \<in> set (items (lists_of s L))" for x using that \<open>L \<in> A\<close> i(2,3) by blast+
    moreover have "where_is s (xListEnd L) = None" using that i(3) by (metis imageI not_Some_eq)
    moreover have "xListEnd L \<notin> xListEnd ` (A - {L})" by (auto simp: xListEnd_def)
    ultimately show ?thesis by auto
  qed
  have new: "insert p (insert (xListEnd L) (set (items (lists_of s L)))) \<inter> {x. x \<in> xListEnd ` (A - {L}) \<or> (\<exists>M. M \<noteq> L \<and> where_is s x = Some M)} = {}"
    "p \<notin> insert (xListEnd L) (set (items (lists_of s L)))"
    if "L \<in> A" "p \<notin> xListEnd ` A" "where_is s p = None" for L p
    using that own [OF that(1)] i(2) by auto
  show ?thesis
  proof (cases c)
    case (InsertEnd L p)
    then have k: "L \<in> A" "p \<notin> xListEnd ` A" "where_is s p = None" using ok by (simp_all add: proper_def)
    have rep: "list_rep h L (lists_of s L)" using i(1) k(1) by blast
    have its: "set (items (kl_insert_end p (lists_of s L))) = insert p {q. where_is s q = Some L}"
      using i(2) k(1) by (simp add: items_insert_end)
    have "implements A (vListInsertEnd L p h) (s\<lparr>lists_of := (lists_of s)(L := kl_insert_end p (lists_of s L)), where_is := (where_is s)(p := Some L)\<rparr>)"
      by (rule implements_single [OF imp k(1) insert_end_rep(2) [OF rep new(2) [OF k]] new(1) [OF k] insert_end_rep(1) [OF rep new(2) [OF k]]])
        (use its k i(3) in auto)
    then show ?thesis by (simp add: InsertEnd)
  next
    case (Insert L p)
    then have k: "L \<in> A" "p \<notin> xListEnd ` A" "where_is s p = None" using ok by (simp_all add: proper_def)
    have rep: "list_rep h L (lists_of s L)" using i(1) k(1) by blast
    have its: "set (items (kl_insert (value_of s) p (lists_of s L))) = insert p {q. where_is s q = Some L}"
      using i(2) k(1) by (simp add: items_insert)
    obtain h' where h': "vListInsert L p h = Some h'" "list_rep h' L (kl_insert (\<lambda>x. xItemValue (li h x)) p (lists_of s L))"
      "only_touches (insert p (insert (xListEnd L) (set (items (lists_of s L))))) L h h'" using insert_rep [OF rep new(2) [OF k]] by blast
    have "kl_insert (\<lambda>x. xItemValue (li h x)) p (lists_of s L) = kl_insert (value_of s) p (lists_of s L)"
    proof -
      have "\<forall>y \<in> insert p (set (items (lists_of s L))). xItemValue (li h y) = value_of s y" using i(2,3,4) k by auto
      then show ?thesis by (simp add: kl_insert_def cong: takeWhile_cong dropWhile_cong)
    qed
    then have "implements A h' (s\<lparr>lists_of := (lists_of s)(L := kl_insert (value_of s) p (lists_of s L)), where_is := (where_is s)(p := Some L)\<rparr>)"
      using h' by (intro implements_single [OF imp k(1) h'(3) new(1) [OF k]]) (use its k i(3) in auto)
    then show ?thesis by (simp add: Insert h'(1))
  next
    case (Remove p)
    then obtain L where k: "where_is s p = Some L" using ok by (auto simp: proper_def)
    then have L: "L \<in> A" "p \<in> set (items (lists_of s L))" using i(2,3) by auto
    have rep: "list_rep h L (lists_of s L)" using i(1) L(1) by blast
    have "distinct (items (lists_of s L))" using rep by (simp add: list_rep_def)
    then have its: "set (items (kl_remove p (lists_of s L))) = {q. where_is s q = Some L} - {p}"
      using i(2) L(1) by (simp add: kl_remove_def)
    have "implements A (fst (uxListRemove p h)) (s\<lparr>lists_of := (lists_of s)(L := kl_remove p (lists_of s L)), where_is := (where_is s)(p := None)\<rparr>)"
      by (rule implements_single [OF imp L(1) remove_rep(3) [OF rep L(2)] own [OF L(1)] remove_rep(1) [OF rep L(2)]]) (use its k i(3) in auto)
    then show ?thesis by (simp add: Remove k)
  next
    case (Next L)
    then have k: "L \<in> A" "items (lists_of s L) \<noteq> []" using ok by (simp_all add: proper_def)
    have rep: "list_rep h L (lists_of s L)" using i(1) k(1) by blast
    have "implements A (fst (listGET_OWNER_OF_NEXT_ENTRY L h)) (s\<lparr>lists_of := (lists_of s)(L := kl_advance (lists_of s L)), where_is := where_is s\<rparr>)"
      by (rule implements_single [OF imp k(1) next_rep(4) [OF rep k(2)] _ next_rep(1) [OF rep k(2)]]) (use i(2,3) k in \<open>auto simp: kl_advance_def\<close>)
    then show ?thesis by (simp add: Next)
  next
    case (SetValue p v)
    then have k: "p \<notin> xListEnd ` A" using ok by (simp add: proper_def)
    have "chain (listSET_LIST_ITEM_VALUE p v h) zs = chain h zs" for zs
      by (rule chain_cong) (simp_all add: listSET_LIST_ITEM_VALUE_def set_item_def)
    then have "list_rep (listSET_LIST_ITEM_VALUE p v h) L l = list_rep h L l" if "L \<in> A" for L l
      using k that by (auto simp: list_rep_def listSET_LIST_ITEM_VALUE_def set_item_def split: option.splits)
    then show ?thesis using i by (auto simp: SetValue implements_def listSET_LIST_ITEM_VALUE_def set_item_def)
  qed
qed

text \<open>What the lists are after the kernel has initialised them.\<close>

definition fresh_lists :: "list_mem \<Rightarrow> (u32, u32) lists" where
  "fresh_lists h = \<lparr>lists_of = \<lambda>_. kl_empty, where_is = \<lambda>_. None, value_of = \<lambda>p. xItemValue (li h p)\<rparr>"

lemma init_implements: "implements (set As) (fold vListInitialise As h) (fresh_lists h)"
proof (induction As rule: rev_induct)
  case Nil
  then show ?case by (simp add: implements_def fresh_lists_def)
next
  case (snoc L As)
  define h' where "h' = fold vListInitialise As h"
  have "list_rep (vListInitialise L h') M kl_empty" if "M \<noteq> L" "list_rep h' M kl_empty" for M
    using that by (subst list_rep_frame [of M kl_empty _ h']) (auto simp: vListInitialise_def set_list_def set_item_def kl_empty_def xListEnd_def)
  then have "list_rep (vListInitialise L h') M kl_empty" if "M \<in> set (As @ [L])" for M
    using that snoc.IH list_rep_init [of L h'] by (cases "M = L") (auto simp: implements_def fresh_lists_def h'_def)
  moreover have "xItemValue (li h p) = xItemValue (li (vListInitialise L h') p)" if "p \<notin> xListEnd ` set (As @ [L])" for p
    using that snoc.IH by (simp add: implements_def fresh_lists_def h'_def vListInitialise_def [of L] set_list_def set_item_def)
  ultimately show ?case by (simp add: implements_def fresh_lists_def h'_def [symmetric]) (simp add: kl_empty_def)
qed

lemma list_calls_run:
  "implements A h s \<Longrightarrow> proper_run A s cs \<Longrightarrow> \<exists>h'. list_calls cs h = Some h' \<and> implements A h' (fold lists_call cs s)"
proof (induction cs arbitrary: h s)
  case (Cons c cs)
  then obtain h1 where "list_call c h = Some h1" "implements A h1 (lists_call c s)" using list_call_implements [of A h s c] by auto
  then show ?case using Cons.IH [of h1 "lists_call c s"] Cons.prems(2) by simp
qed simp

text \<open>C6: The linked lists of the kernel implement sequences. Any number of lists that vListInitialise has set up and any calls of
  vListInsertEnd, vListInsert, uxListRemove, listGET_OWNER_OF_NEXT_ENTRY and listSET_LIST_ITEM_VALUE in which only items in no list go in
  and only items in a list come out: every call returns, the search of vListInsert included, and afterwards each list is well linked both ways, holds
  the items of its sequence in order, each with the list as its container, counts them, and has its index on the right one.\<close>

theorem list_calls_implement:
  assumes "proper_run (set As) (fresh_lists h) cs"
  shows "\<exists>h'. list_calls cs (fold vListInitialise As h) = Some h' \<and> implements (set As) h' (fold lists_call cs (fresh_lists h))"
  using list_calls_run [OF init_implements assms] .

lemma list_calls_implement_witness:
  "\<forall>h. \<exists>h'. list_calls [SetValue 0x100 7, SetValue 0x200 5, Insert 0x1000 0x100, Insert 0x1000 0x200, Next 0x1000, Remove 0x200, InsertEnd 0x2000 0x200]
      (fold vListInitialise [0x1000, 0x2000] h) = Some h'
    \<and> list_rep h' 0x1000 \<lparr>items = [0x100], index = None\<rparr> \<and> list_rep h' 0x2000 \<lparr>items = [0x200], index = None\<rparr>"
proof
  fix h :: list_mem
  let ?cs = "[SetValue 0x100 7, SetValue 0x200 5, Insert 0x1000 0x100, Insert 0x1000 0x200, Next 0x1000, Remove 0x200, InsertEnd 0x2000 0x200]"
  have "proper_run (set [0x1000, 0x2000]) (fresh_lists h) ?cs"
    by (simp add: proper_def fresh_lists_def xListEnd_def kl_empty_def kl_insert_def kl_advance_def kl_next_def kl_remove_def)
  note r = list_calls_implement [OF this]
  have "lists_of (fold lists_call ?cs (fresh_lists h)) 0x1000 = \<lparr>items = [0x100], index = None\<rparr>"
    "lists_of (fold lists_call ?cs (fresh_lists h)) 0x2000 = \<lparr>items = [0x200], index = None\<rparr>"
    by (simp_all add: fresh_lists_def kl_empty_def kl_insert_def kl_insert_end_def kl_advance_def kl_next_def kl_remove_def)
  then show "\<exists>h'. list_calls ?cs (fold vListInitialise [0x1000, 0x2000] h) = Some h' \<and> list_rep h' 0x1000 \<lparr>items = [0x100], index = None\<rparr>
      \<and> list_rep h' 0x2000 \<lparr>items = [0x200], index = None\<rparr>"
    using r unfolding implements_def by (metis insertI1 insertI2 list.simps(15))
qed

text \<open>An insertion keeps the values in order, behind equal ones.\<close>

lemma kl_insert_sorted: "sorted (map val (items l)) \<Longrightarrow> sorted (map val (items (kl_insert val x l)))"
proof -
  have "sorted (map val xs) \<Longrightarrow> sorted (map val (takeWhile (\<lambda>y. val y \<le> val x) xs @ x # dropWhile (\<lambda>y. val y \<le> val x) xs))" for xs
    by (induction xs) (auto dest: set_takeWhileD set_dropWhileD simp: not_le)
  then show "sorted (map val (items l)) \<Longrightarrow> sorted (map val (items (kl_insert val x l)))" by (simp add: kl_insert_def)
qed

text \<open>What the calls keep of the lists themselves.\<close>

definition wf_lists :: "('l, 'i) lists \<Rightarrow> bool" where
  "wf_lists s \<longleftrightarrow> (\<forall>L. distinct (items (lists_of s L)) \<and> set (items (lists_of s L)) = {p. where_is s p = Some L}
     \<and> (\<forall>y. index (lists_of s L) = Some y \<longrightarrow> where_is s y = Some L))"

lemma distinct_take_drop:
  assumes "x \<notin> set xs" and "distinct xs"
  shows "distinct (takeWhile P xs @ x # dropWhile P xs)"
proof -
  have "distinct (takeWhile P xs @ dropWhile P xs)" using assms(2) by (simp only: takeWhile_dropWhile_id)
  then show ?thesis using assms(1) set_take_drop_While [of P xs] by (auto simp del: takeWhile_dropWhile_id)
qed

lemma distinct_insert_end: "x \<notin> set (items l) \<Longrightarrow> distinct (items l) \<Longrightarrow> distinct (items (kl_insert_end x l))"
  using distinct_take_drop [of x "items l"] by (cases "index l") (simp_all add: kl_insert_end_def)

lemma distinct_insert: "x \<notin> set (items l) \<Longrightarrow> distinct (items l) \<Longrightarrow> distinct (items (kl_insert val x l))"
  by (simp add: kl_insert_def distinct_take_drop del: distinct_append)

lemma before_in: "before x ys = Some z \<Longrightarrow> distinct ys \<Longrightarrow> z \<in> set ys - {x}"
  by (induction x ys rule: before.induct) (auto split: if_splits)

lemma kl_next_in: "items l \<noteq> [] \<Longrightarrow> kl_next l \<in> set (items l)"
  by (auto simp: kl_next_def split: option.split list.split) (metis UnCI list.set_intros set_take_drop_While)

lemma index_insert [simp]: "index (kl_insert_end x l) = index l" "index (kl_insert val x l) = index l"
  by (simp_all add: kl_insert_end_def kl_insert_def split: option.split)

lemma lists_call_wf: "wf_lists s \<Longrightarrow> fits s c \<Longrightarrow> wf_lists (lists_call c s)"
proof (induction c s rule: lists_call.induct)
  case (1 L p s)
  then show ?case by (auto simp: wf_lists_def items_insert_end intro!: distinct_insert_end)
next
  case (2 L p s)
  then show ?case by (auto simp: wf_lists_def items_insert intro!: distinct_insert)
next
  case (3 p s)
  then obtain L where L: "where_is s p = Some L" by auto
  have "set (items (kl_remove p (lists_of s L))) = {q. where_is s q = Some L} - {p}" "distinct (items (kl_remove p (lists_of s L)))"
    using 3(1) by (simp_all add: kl_remove_def wf_lists_def)
  moreover have "y \<in> {q. where_is s q = Some L} - {p}" if "index (kl_remove p (lists_of s L)) = Some y" for y
    using that 3(1) before_in [of p "items (lists_of s L)" y] by (auto simp: kl_remove_def wf_lists_def split: if_splits)
  moreover have "y \<in> {q. where_is s q = Some M}" if "index (lists_of s M) = Some y" for y M using that 3(1) by (auto simp: wf_lists_def)
  ultimately show ?case using 3(1) L by (auto simp: wf_lists_def)
next
  case (4 L s)
  then show ?case using kl_next_in [of "lists_of s L"] by (auto simp: wf_lists_def kl_advance_def)
qed (auto simp: wf_lists_def)

end
