(* ===== verification/Kernel_Tasks.thy ===== *)
theory Kernel_Tasks
  imports Kernel_List
begin

text \<open>
  The task scheduler of the kernel, \<^verbatim>\<open>freertos/tasks.c\<close> with the port's \<^verbatim>\<open>port.c\<close>, in the configuration of the SDK: preemption with time slices,
  15 priorities and generic selection, 32-bit ticks, mutexes, notifications, suspension; no static allocation, no abort of a delay, assertions compiled
  out. The kernel works on the lists of Kernel_List, each task's two list items in them. A list operation on an item that is in no list,
  or that puts in one that is in a list, would corrupt the lists: there the result is \<open>None\<close>, as for a loop that does not end.
\<close>

section \<open>State\<close>

text \<open>The two list items of the task at an address.\<close>

datatype item = StateItem u32 | EventItem u32

fun owner :: "item \<Rightarrow> u32" where
  "owner (StateItem t) = t"
| "owner (EventItem t) = t"

datatype list_id = Ready u32 | xDelayedTaskList1 | xDelayedTaskList2 | xPendingReadyList | xTasksWaitingTermination | xSuspendedTaskList | EventList u32

datatype notify_state = taskNOT_WAITING_NOTIFICATION | taskWAITING_NOTIFICATION | taskNOTIFICATION_RECEIVED

record TCB_t =
  uxPriority :: u32
  uxBasePriority :: u32
  uxMutexesHeld :: u32
  ulNotifiedValue :: u32
  ucNotifyState :: notify_state

text \<open>Tasks are the addresses of their control blocks; 0 is NULL. \<open>SWReq\<close> is the port's request for a switch.\<close>

record kernel =
  kl :: "(list_id, item) lists"
  tcb :: "u32 \<Rightarrow> TCB_t"
  pxCurrentTCB :: u32
  pxDelayedTaskList :: list_id
  pxOverflowDelayedTaskList :: list_id
  uxDeletedTasksWaitingCleanUp :: u32
  uxCurrentNumberOfTasks :: u32
  xTickCount :: u32
  uxTopReadyPriority :: u32
  xSchedulerRunning :: bool
  uxPendedTicks :: u32
  xYieldPending :: bool
  xNumOfOverflows :: u32
  uxTaskNumber :: u32
  xNextTaskUnblockTime :: u32
  xIdleTaskHandle :: u32
  uxSchedulerSuspended :: u32
  SWReq :: bool

abbreviation container :: "kernel \<Rightarrow> item \<Rightarrow> list_id option" where "container k x \<equiv> where_is (kl k) x"
abbreviation item_value :: "kernel \<Rightarrow> item \<Rightarrow> u32" where "item_value k x \<equiv> value_of (kl k) x"
abbreviation the_items :: "kernel \<Rightarrow> list_id \<Rightarrow> item list" where "the_items k L \<equiv> items (lists_of (kl k) L)"
abbreviation prio :: "kernel \<Rightarrow> u32 \<Rightarrow> u32" where "prio k t \<equiv> uxPriority (tcb k t)"

definition list_do :: "(list_id, item) list_command \<Rightarrow> kernel \<Rightarrow> kernel option" where
  "list_do c k = (if fits (kl k) c then Some (k\<lparr>kl := lists_call c (kl k)\<rparr>) else None)"

definition set_tcb :: "u32 \<Rightarrow> (TCB_t \<Rightarrow> TCB_t) \<Rightarrow> kernel \<Rightarrow> kernel" where
  "set_tcb t f k = k\<lparr>tcb := (tcb k)(t := f (tcb k t))\<rparr>"

definition configMAX_PRIORITIES :: u32 where "configMAX_PRIORITIES = 15"
definition configTIMER_TASK_PRIORITY :: u32 where "configTIMER_TASK_PRIORITY = 2"
definition tskIDLE_PRIORITY :: u32 where "tskIDLE_PRIORITY = 0"
definition taskEVENT_LIST_ITEM_VALUE_IN_USE :: u32 where "taskEVENT_LIST_ITEM_VALUE_IN_USE = 0x80000000"

definition prvGetTCBFromHandle :: "u32 \<Rightarrow> kernel \<Rightarrow> u32" where
  "prvGetTCBFromHandle h k = (if h = 0 then pxCurrentTCB k else h)"

section \<open>Ready and delayed tasks\<close>

definition taskRECORD_READY_PRIORITY :: "u32 \<Rightarrow> kernel \<Rightarrow> kernel" where
  "taskRECORD_READY_PRIORITY p k = (if p > uxTopReadyPriority k then k\<lparr>uxTopReadyPriority := p\<rparr> else k)"

definition prvAddTaskToReadyList :: "u32 \<Rightarrow> kernel \<Rightarrow> kernel option" where
  "prvAddTaskToReadyList t k = list_do (InsertEnd (Ready (prio k t)) (StateItem t)) (taskRECORD_READY_PRIORITY (prio k t) k)"

text \<open>The search of \<open>taskSELECT_HIGHEST_PRIORITY_TASK\<close>; below priority 0 it would leave the array of lists.\<close>

fun highest_ready :: "nat \<Rightarrow> kernel \<Rightarrow> u32 option" where
  "highest_ready n k =
    (if the_items k (Ready (of_nat n)) = [] then (case n of 0 \<Rightarrow> None | Suc m \<Rightarrow> highest_ready m k) else Some (of_nat n))"

definition taskSELECT_HIGHEST_PRIORITY_TASK :: "kernel \<Rightarrow> kernel option" where
  "taskSELECT_HIGHEST_PRIORITY_TASK k =
    do {
      p \<leftarrow> highest_ready (unat (uxTopReadyPriority k)) k;
      k1 \<leftarrow> list_do (Next (Ready p)) k;
      x \<leftarrow> index (lists_of (kl k1) (Ready p));
      Some (k1\<lparr>pxCurrentTCB := owner x, uxTopReadyPriority := p\<rparr>)
    }"

definition prvResetNextTaskUnblockTime :: "kernel \<Rightarrow> kernel" where
  "prvResetNextTaskUnblockTime k = k\<lparr>xNextTaskUnblockTime :=
     (if the_items k (pxDelayedTaskList k) = [] then portMAX_TICK
      else item_value k (StateItem (owner (hd (the_items k (pxDelayedTaskList k))))))\<rparr>"

definition taskSWITCH_DELAYED_LISTS :: "kernel \<Rightarrow> kernel" where
  "taskSWITCH_DELAYED_LISTS k =
    prvResetNextTaskUnblockTime
      (k\<lparr>pxDelayedTaskList := pxOverflowDelayedTaskList k, pxOverflowDelayedTaskList := pxDelayedTaskList k,
         xNumOfOverflows := xNumOfOverflows k + 1\<rparr>)"

text \<open>Taking the event item out of the list it is in, if any.\<close>

definition leave_event_list :: "u32 \<Rightarrow> kernel \<Rightarrow> kernel option" where
  "leave_event_list t k = (if container k (EventItem t) \<noteq> None then list_do (Remove (EventItem t)) k else Some k)"

definition prvAddCurrentTaskToDelayedList :: "u32 \<Rightarrow> bool \<Rightarrow> kernel \<Rightarrow> kernel option" where
  "prvAddCurrentTaskToDelayedList xTicksToWait xCanBlockIndefinitely k =
    do {
      let t = StateItem (pxCurrentTCB k);
      k1 \<leftarrow> list_do (Remove t) k;
      if xTicksToWait = portMAX_TICK \<and> xCanBlockIndefinitely then list_do (InsertEnd xSuspendedTaskList t) k1
      else do {
        let xTimeToWake = xTickCount k + xTicksToWait;
        k2 \<leftarrow> list_do (SetValue t xTimeToWake) k1;
        if xTimeToWake < xTickCount k then list_do (Insert (pxOverflowDelayedTaskList k2) t) k2
        else do {
          k3 \<leftarrow> list_do (Insert (pxDelayedTaskList k2) t) k2;
          Some (if xTimeToWake < xNextTaskUnblockTime k3 then k3\<lparr>xNextTaskUnblockTime := xTimeToWake\<rparr> else k3)
        }
      }
    }"

section \<open>The tick\<close>

text \<open>The loop that wakes the tasks that are due; with it goes whether a switch is required.\<close>

partial_function (option) unblock_loop :: "u32 \<Rightarrow> bool \<Rightarrow> kernel \<Rightarrow> (kernel \<times> bool) option" where [code]:
  "unblock_loop now sw k =
    (if the_items k (pxDelayedTaskList k) = [] then Some (k\<lparr>xNextTaskUnblockTime := portMAX_TICK\<rparr>, sw)
     else if now < item_value k (StateItem (owner (hd (the_items k (pxDelayedTaskList k)))))
     then Some (k\<lparr>xNextTaskUnblockTime := item_value k (StateItem (owner (hd (the_items k (pxDelayedTaskList k)))))\<rparr>, sw)
     else do {
       k1 \<leftarrow> list_do (Remove (StateItem (owner (hd (the_items k (pxDelayedTaskList k)))))) k;
       k2 \<leftarrow> leave_event_list (owner (hd (the_items k (pxDelayedTaskList k)))) k1;
       k3 \<leftarrow> prvAddTaskToReadyList (owner (hd (the_items k (pxDelayedTaskList k)))) k2;
       unblock_loop now (sw \<or> prio k3 (owner (hd (the_items k (pxDelayedTaskList k)))) \<ge> prio k3 (pxCurrentTCB k3)) k3
     })"

text \<open>The tick hooks of the application are left out.\<close>

definition xTaskIncrementTick :: "kernel \<Rightarrow> (kernel \<times> bool) option" where
  "xTaskIncrementTick k =
    (if uxSchedulerSuspended k = 0 then
       do {
         let xConstTickCount = xTickCount k + 1;
         let k1 = k\<lparr>xTickCount := xConstTickCount\<rparr>;
         let k2 = (if xConstTickCount = 0 then taskSWITCH_DELAYED_LISTS k1 else k1);
         (k3, sw) \<leftarrow> (if xConstTickCount \<ge> xNextTaskUnblockTime k2 then unblock_loop xConstTickCount False k2 else Some (k2, False));
         Some (k3, sw \<or> length (the_items k3 (Ready (prio k3 (pxCurrentTCB k3)))) > 1 \<or> xYieldPending k3)
       }
     else Some (k\<lparr>uxPendedTicks := uxPendedTicks k + 1\<rparr>, xYieldPending k))"

definition vTaskStepTick :: "u32 \<Rightarrow> kernel \<Rightarrow> kernel" where
  "vTaskStepTick xTicksToJump k = k\<lparr>xTickCount := xTickCount k + xTicksToJump\<rparr>"

section \<open>Switching\<close>

definition vTaskSwitchContext :: "kernel \<Rightarrow> kernel option" where
  "vTaskSwitchContext k =
    (if uxSchedulerSuspended k \<noteq> 0 then Some (k\<lparr>xYieldPending := True\<rparr>)
     else taskSELECT_HIGHEST_PRIORITY_TASK (k\<lparr>xYieldPending := False\<rparr>))"

text \<open>The port: requesting a switch, the software interrupt that makes it (its other source, the MAC, left out) and the tick interrupt.\<close>

definition portYIELD :: "kernel \<Rightarrow> kernel" where "portYIELD k = k\<lparr>SWReq := True\<rparr>"

definition SoftIsrHdl :: "kernel \<Rightarrow> kernel option" where
  "SoftIsrHdl k = (if SWReq k then do { k1 \<leftarrow> vTaskSwitchContext k; Some (k1\<lparr>SWReq := False\<rparr>) } else Some k)"

definition xPortSysTickHandle :: "kernel \<Rightarrow> kernel option" where
  "xPortSysTickHandle k = do { (k1, sw) \<leftarrow> xTaskIncrementTick k; if sw then vTaskSwitchContext k1 else Some k1 }"

section \<open>Suspending the scheduler\<close>

definition vTaskSuspendAll :: "kernel \<Rightarrow> kernel" where
  "vTaskSuspendAll k = k\<lparr>uxSchedulerSuspended := uxSchedulerSuspended k + 1\<rparr>"

text \<open>The loop over the tasks that became ready meanwhile; with it goes whether there was one.\<close>

partial_function (option) pending_loop :: "bool \<Rightarrow> kernel \<Rightarrow> (kernel \<times> bool) option" where [code]:
  "pending_loop some k =
    (if the_items k xPendingReadyList = [] then Some (k, some)
     else do {
       k1 \<leftarrow> list_do (Remove (EventItem (owner (hd (the_items k xPendingReadyList))))) k;
       k2 \<leftarrow> list_do (Remove (StateItem (owner (hd (the_items k xPendingReadyList))))) k1;
       k3 \<leftarrow> prvAddTaskToReadyList (owner (hd (the_items k xPendingReadyList))) k2;
       pending_loop True (if prio k3 (owner (hd (the_items k xPendingReadyList))) \<ge> prio k3 (pxCurrentTCB k3) then k3\<lparr>xYieldPending := True\<rparr> else k3)
     })"

primrec replay_ticks :: "nat \<Rightarrow> kernel \<Rightarrow> kernel option" where
  "replay_ticks 0 k = Some k"
| "replay_ticks (Suc n) k = do { (k1, sw) \<leftarrow> xTaskIncrementTick k; replay_ticks n (if sw then k1\<lparr>xYieldPending := True\<rparr> else k1) }"

definition xTaskResumeAll :: "kernel \<Rightarrow> (kernel \<times> bool) option" where
  "xTaskResumeAll k =
    do {
      let k1 = k\<lparr>uxSchedulerSuspended := uxSchedulerSuspended k - 1\<rparr>;
      if uxSchedulerSuspended k1 = 0 \<and> uxCurrentNumberOfTasks k1 > 0 then
        do {
          (k2, some) \<leftarrow> pending_loop False k1;
          let k3 = (if some then prvResetNextTaskUnblockTime k2 else k2);
          k4 \<leftarrow> replay_ticks (unat (uxPendedTicks k3)) k3;
          let k5 = k4\<lparr>uxPendedTicks := 0\<rparr>;
          Some (if xYieldPending k5 then (portYIELD k5, True) else (k5, False))
        }
      else Some (k1, False)
    }"

definition xTaskGetSchedulerState :: "kernel \<Rightarrow> u32" where
  "xTaskGetSchedulerState k = (if \<not> xSchedulerRunning k then 1 else if uxSchedulerSuspended k = 0 then 2 else 0)"

definition prvGetExpectedIdleTime :: "kernel \<Rightarrow> u32" where
  "prvGetExpectedIdleTime k =
    (if prio k (pxCurrentTCB k) > tskIDLE_PRIORITY then 0
     else if length (the_items k (Ready tskIDLE_PRIORITY)) > 1 then 0
     else if uxTopReadyPriority k > tskIDLE_PRIORITY then 0
     else xNextTaskUnblockTime k - xTickCount k)"

section \<open>Delays\<close>

definition yield_unless :: "kernel \<times> bool \<Rightarrow> kernel" where
  "yield_unless r = (if snd r then fst r else portYIELD (fst r))"

definition vTaskDelay :: "u32 \<Rightarrow> kernel \<Rightarrow> kernel option" where
  "vTaskDelay xTicksToDelay k =
    (if xTicksToDelay > 0 then
       do { k1 \<leftarrow> prvAddCurrentTaskToDelayedList xTicksToDelay False (vTaskSuspendAll k); r \<leftarrow> xTaskResumeAll k1; Some (yield_unless r) }
     else Some (portYIELD k))"

definition should_delay :: "u32 \<Rightarrow> u32 \<Rightarrow> u32 \<Rightarrow> bool" where
  "should_delay now previous xTimeToWake =
    (if now < previous then xTimeToWake < previous \<and> xTimeToWake > now else xTimeToWake < previous \<or> xTimeToWake > now)"

text \<open>With the new wake time for the caller.\<close>

definition vTaskDelayUntil :: "u32 \<Rightarrow> u32 \<Rightarrow> kernel \<Rightarrow> (kernel \<times> u32) option" where
  "vTaskDelayUntil previous xTimeIncrement k =
    do {
      let k1 = vTaskSuspendAll k;
      let xTimeToWake = previous + xTimeIncrement;
      k2 \<leftarrow> (if should_delay (xTickCount k1) previous xTimeToWake
             then prvAddCurrentTaskToDelayedList (xTimeToWake - xTickCount k1) False k1 else Some k1);
      r \<leftarrow> xTaskResumeAll k2;
      Some (yield_unless r, xTimeToWake)
    }"

section \<open>Creating and deleting tasks\<close>

definition prvInitialiseTaskLists :: "kernel \<Rightarrow> kernel" where
  "prvInitialiseTaskLists k =
    k\<lparr>kl := (kl k)\<lparr>lists_of := (\<lambda>L. case L of Ready p \<Rightarrow> if p < configMAX_PRIORITIES then kl_empty else lists_of (kl k) L
        | EventList e \<Rightarrow> lists_of (kl k) L | _ \<Rightarrow> kl_empty)\<rparr>,
      pxDelayedTaskList := xDelayedTaskList1, pxOverflowDelayedTaskList := xDelayedTaskList2\<rparr>"

text \<open>What of a new control block the scheduler reads; the items of a block are in no list (\<open>vListInitialiseItem\<close>).\<close>

definition prvInitialiseNewTask :: "u32 \<Rightarrow> u32 \<Rightarrow> kernel \<Rightarrow> kernel option" where
  "prvInitialiseNewTask uxPriority' t k =
    do {
      let p = (if uxPriority' \<ge> configMAX_PRIORITIES then configMAX_PRIORITIES - 1 else uxPriority');
      let k1 = k\<lparr>tcb := (tcb k)(t := \<lparr>uxPriority = p, uxBasePriority = p, uxMutexesHeld = 0, ulNotifiedValue = 0,
                                      ucNotifyState = taskNOT_WAITING_NOTIFICATION\<rparr>),
                 kl := (kl k)\<lparr>where_is := (where_is (kl k))(StateItem t := None, EventItem t := None)\<rparr>\<rparr>;
      list_do (SetValue (EventItem t) (configMAX_PRIORITIES - p)) k1
    }"

definition prvAddNewTaskToReadyList :: "u32 \<Rightarrow> kernel \<Rightarrow> kernel option" where
  "prvAddNewTaskToReadyList t k =
    do {
      let k1 = k\<lparr>uxCurrentNumberOfTasks := uxCurrentNumberOfTasks k + 1\<rparr>;
      let k2 = (if pxCurrentTCB k1 = 0 then
                  (if uxCurrentNumberOfTasks k1 = 1 then prvInitialiseTaskLists (k1\<lparr>pxCurrentTCB := t\<rparr>) else k1\<lparr>pxCurrentTCB := t\<rparr>)
                else if \<not> xSchedulerRunning k1 \<and> prio k1 (pxCurrentTCB k1) \<le> prio k1 t then k1\<lparr>pxCurrentTCB := t\<rparr> else k1);
      k3 \<leftarrow> prvAddTaskToReadyList t (k2\<lparr>uxTaskNumber := uxTaskNumber k2 + 1\<rparr>);
      Some (if xSchedulerRunning k3 \<and> prio k3 (pxCurrentTCB k3) < prio k3 t then portYIELD k3 else k3)
    }"

text \<open>The block is what memory was obtained for, with its stack, if for both.\<close>

definition xTaskCreate :: "u32 option \<Rightarrow> u32 \<Rightarrow> kernel \<Rightarrow> (kernel \<times> bool) option" where
  "xTaskCreate pxNewTCB uxPriority' k =
    (case pxNewTCB of None \<Rightarrow> Some (k, False)
     | Some t \<Rightarrow> do { k1 \<leftarrow> prvInitialiseNewTask uxPriority' t k; k2 \<leftarrow> prvAddNewTaskToReadyList t k1; Some (k2, True) })"

text \<open>Starting: the idle task, the timer task (\<open>xTimerCreateTimerTask\<close>), and the port's first switch.\<close>

definition vTaskStartScheduler :: "u32 option \<Rightarrow> u32 option \<Rightarrow> kernel \<Rightarrow> kernel option" where
  "vTaskStartScheduler idle timer k =
    do {
      (k1, ok) \<leftarrow> xTaskCreate idle tskIDLE_PRIORITY k;
      let k1' = (case idle of None \<Rightarrow> k1 | Some t \<Rightarrow> k1\<lparr>xIdleTaskHandle := t\<rparr>);
      (k2, ok') \<leftarrow> (if ok then xTaskCreate timer configTIMER_TASK_PRIORITY k1' else Some (k1', False));
      if ok' then vTaskSwitchContext (k2\<lparr>xNextTaskUnblockTime := portMAX_TICK, xSchedulerRunning := True, xTickCount := 0\<rparr>)
      else Some k2
    }"

definition vTaskDelete :: "u32 \<Rightarrow> kernel \<Rightarrow> kernel option" where
  "vTaskDelete h k =
    do {
      let t = prvGetTCBFromHandle h k;
      k1 \<leftarrow> list_do (Remove (StateItem t)) k;
      k2 \<leftarrow> leave_event_list t k1;
      let k3 = k2\<lparr>uxTaskNumber := uxTaskNumber k2 + 1\<rparr>;
      k4 \<leftarrow> (if t = pxCurrentTCB k3 then
               do {
                 k' \<leftarrow> list_do (InsertEnd xTasksWaitingTermination (StateItem t)) k3;
                 Some (k'\<lparr>uxDeletedTasksWaitingCleanUp := uxDeletedTasksWaitingCleanUp k' + 1\<rparr>)
               }
             else Some (prvResetNextTaskUnblockTime (k3\<lparr>uxCurrentNumberOfTasks := uxCurrentNumberOfTasks k3 - 1\<rparr>)));
      Some (if xSchedulerRunning k4 \<and> t = pxCurrentTCB k4 then portYIELD k4 else k4)
    }"

text \<open>One round of the idle task's loop over the deleted tasks.\<close>

definition clean_up_one :: "kernel \<Rightarrow> kernel option" where
  "clean_up_one k =
    (if uxDeletedTasksWaitingCleanUp k > 0 then
       do {
         x \<leftarrow> (case the_items k xTasksWaitingTermination of [] \<Rightarrow> None | x # _ \<Rightarrow> Some x);
         k1 \<leftarrow> list_do (Remove (StateItem (owner x))) k;
         Some (k1\<lparr>uxCurrentNumberOfTasks := uxCurrentNumberOfTasks k1 - 1, uxDeletedTasksWaitingCleanUp := uxDeletedTasksWaitingCleanUp k1 - 1\<rparr>)
       }
     else Some k)"

section \<open>Suspending and resuming tasks\<close>

definition vTaskSuspend :: "u32 \<Rightarrow> kernel \<Rightarrow> kernel option" where
  "vTaskSuspend h k =
    do {
      let t = prvGetTCBFromHandle h k;
      k1 \<leftarrow> list_do (Remove (StateItem t)) k;
      k2 \<leftarrow> leave_event_list t k1;
      k3 \<leftarrow> list_do (InsertEnd xSuspendedTaskList (StateItem t)) k2;
      let k4 = (if ucNotifyState (tcb k3 t) = taskWAITING_NOTIFICATION
                then set_tcb t (ucNotifyState_update (\<lambda>_. taskNOT_WAITING_NOTIFICATION)) k3 else k3);
      let k5 = (if xSchedulerRunning k4 then prvResetNextTaskUnblockTime k4 else k4);
      if t = pxCurrentTCB k5 then
        (if xSchedulerRunning k5 then Some (portYIELD k5)
         else if of_nat (length (the_items k5 xSuspendedTaskList)) = uxCurrentNumberOfTasks k5 then Some (k5\<lparr>pxCurrentTCB := 0\<rparr>)
         else vTaskSwitchContext k5)
      else Some k5
    }"

definition prvTaskIsTaskSuspended :: "u32 \<Rightarrow> kernel \<Rightarrow> bool" where
  "prvTaskIsTaskSuspended t k \<longleftrightarrow> container k (StateItem t) = Some xSuspendedTaskList \<and> container k (EventItem t) \<noteq> Some xPendingReadyList
     \<and> container k (EventItem t) = None"

definition vTaskResume :: "u32 \<Rightarrow> kernel \<Rightarrow> kernel option" where
  "vTaskResume t k =
    (if t \<noteq> 0 \<and> t \<noteq> pxCurrentTCB k \<and> prvTaskIsTaskSuspended t k then
       do {
         k1 \<leftarrow> list_do (Remove (StateItem t)) k;
         k2 \<leftarrow> prvAddTaskToReadyList t k1;
         Some (if prio k2 t \<ge> prio k2 (pxCurrentTCB k2) then portYIELD k2 else k2)
       }
     else Some k)"

definition xTaskResumeFromISR :: "u32 \<Rightarrow> kernel \<Rightarrow> (kernel \<times> bool) option" where
  "xTaskResumeFromISR t k =
    (if prvTaskIsTaskSuspended t k then
       (if uxSchedulerSuspended k = 0 then
          do {
            k1 \<leftarrow> list_do (Remove (StateItem t)) k;
            k2 \<leftarrow> prvAddTaskToReadyList t k1;
            Some (k2, prio k t \<ge> prio k (pxCurrentTCB k))
          }
        else do { k1 \<leftarrow> list_do (InsertEnd xPendingReadyList (EventItem t)) k; Some (k1, False) })
     else Some (k, False))"

section \<open>Priorities\<close>

text \<open>The event item sorts by priority unless its value is in use by an event group.\<close>

definition set_event_value :: "u32 \<Rightarrow> u32 \<Rightarrow> kernel \<Rightarrow> kernel option" where
  "set_event_value t p k =
    (if item_value k (EventItem t) AND taskEVENT_LIST_ITEM_VALUE_IN_USE = 0 then list_do (SetValue (EventItem t) (configMAX_PRIORITIES - p)) k
     else Some k)"

definition vTaskPrioritySet :: "u32 \<Rightarrow> u32 \<Rightarrow> kernel \<Rightarrow> kernel option" where
  "vTaskPrioritySet h uxNewPriority k =
    do {
      let p = (if uxNewPriority \<ge> configMAX_PRIORITIES then configMAX_PRIORITIES - 1 else uxNewPriority);
      let t = prvGetTCBFromHandle h k;
      if uxBasePriority (tcb k t) = p then Some k
      else do {
        let xYieldRequired = (if p > uxBasePriority (tcb k t) then t \<noteq> pxCurrentTCB k \<and> p \<ge> prio k (pxCurrentTCB k) else t = pxCurrentTCB k);
        let uxPriorityUsedOnEntry = prio k t;
        let k1 = set_tcb t (\<lambda>c. (if uxBasePriority c = uxPriority c then c\<lparr>uxPriority := p\<rparr> else c)\<lparr>uxBasePriority := p\<rparr>) k;
        k2 \<leftarrow> set_event_value t p k1;
        k3 \<leftarrow> (if container k2 (StateItem t) = Some (Ready uxPriorityUsedOnEntry) then
                 do { k' \<leftarrow> list_do (Remove (StateItem t)) k2; prvAddTaskToReadyList t k' }
               else Some k2);
        Some (if xYieldRequired then portYIELD k3 else k3)
      }
    }"

definition xTaskPriorityInherit :: "u32 \<Rightarrow> kernel \<Rightarrow> (kernel \<times> bool) option" where
  "xTaskPriorityInherit t k =
    (if t = 0 then Some (k, False)
     else if prio k t < prio k (pxCurrentTCB k) then
       do {
         k1 \<leftarrow> set_event_value t (prio k (pxCurrentTCB k)) k;
         k2 \<leftarrow> (if container k1 (StateItem t) = Some (Ready (prio k1 t)) then
                  do {
                    k' \<leftarrow> list_do (Remove (StateItem t)) k1;
                    prvAddTaskToReadyList t (set_tcb t (uxPriority_update (\<lambda>_. prio k (pxCurrentTCB k))) k')
                  }
                else Some (set_tcb t (uxPriority_update (\<lambda>_. prio k (pxCurrentTCB k))) k1));
         Some (k2, True)
       }
     else Some (k, uxBasePriority (tcb k t) < prio k (pxCurrentTCB k)))"

definition xTaskPriorityDisinherit :: "u32 \<Rightarrow> kernel \<Rightarrow> (kernel \<times> bool) option" where
  "xTaskPriorityDisinherit t k =
    (if t = 0 then Some (k, False)
     else do {
       let k1 = set_tcb t (\<lambda>c. c\<lparr>uxMutexesHeld := uxMutexesHeld c - 1\<rparr>) k;
       if prio k1 t \<noteq> uxBasePriority (tcb k1 t) \<and> uxMutexesHeld (tcb k1 t) = 0 then
         do {
           k2 \<leftarrow> list_do (Remove (StateItem t)) k1;
           let k3 = set_tcb t (\<lambda>c. c\<lparr>uxPriority := uxBasePriority c\<rparr>) k2;
           k4 \<leftarrow> list_do (SetValue (EventItem t) (configMAX_PRIORITIES - prio k3 t)) k3;
           k5 \<leftarrow> prvAddTaskToReadyList t k4;
           Some (k5, True)
         }
       else Some (k1, False)
     })"

definition vTaskPriorityDisinheritAfterTimeout :: "u32 \<Rightarrow> u32 \<Rightarrow> kernel \<Rightarrow> kernel option" where
  "vTaskPriorityDisinheritAfterTimeout t uxHighestPriorityWaitingTask k =
    do {
      let uxPriorityToUse = max (uxBasePriority (tcb k t)) uxHighestPriorityWaitingTask;
      if t \<noteq> 0 \<and> prio k t \<noteq> uxPriorityToUse \<and> uxMutexesHeld (tcb k t) = 1 then
        do {
          let uxPriorityUsedOnEntry = prio k t;
          k2 \<leftarrow> set_event_value t uxPriorityToUse (set_tcb t (uxPriority_update (\<lambda>_. uxPriorityToUse)) k);
          if container k2 (StateItem t) = Some (Ready uxPriorityUsedOnEntry) then
            do { k' \<leftarrow> list_do (Remove (StateItem t)) k2; prvAddTaskToReadyList t k' }
          else Some k2
        }
      else Some k
    }"

definition uxTaskResetEventItemValue :: "kernel \<Rightarrow> (kernel \<times> u32) option" where
  "uxTaskResetEventItemValue k =
    do {
      k1 \<leftarrow> list_do (SetValue (EventItem (pxCurrentTCB k)) (configMAX_PRIORITIES - prio k (pxCurrentTCB k))) k;
      Some (k1, item_value k (EventItem (pxCurrentTCB k)))
    }"

definition pvTaskIncrementMutexHeldCount :: "kernel \<Rightarrow> kernel \<times> u32" where
  "pvTaskIncrementMutexHeldCount k =
    (if pxCurrentTCB k = 0 then (k, 0)
     else (set_tcb (pxCurrentTCB k) (\<lambda>c. c\<lparr>uxMutexesHeld := uxMutexesHeld c + 1\<rparr>) k, pxCurrentTCB k))"

section \<open>Waiting for events\<close>

definition vTaskPlaceOnEventList :: "u32 \<Rightarrow> u32 \<Rightarrow> kernel \<Rightarrow> kernel option" where
  "vTaskPlaceOnEventList e xTicksToWait k =
    do { k1 \<leftarrow> list_do (Insert (EventList e) (EventItem (pxCurrentTCB k))) k; prvAddCurrentTaskToDelayedList xTicksToWait True k1 }"

definition vTaskPlaceOnUnorderedEventList :: "u32 \<Rightarrow> u32 \<Rightarrow> u32 \<Rightarrow> kernel \<Rightarrow> kernel option" where
  "vTaskPlaceOnUnorderedEventList e xItemValue' xTicksToWait k =
    do {
      k1 \<leftarrow> list_do (SetValue (EventItem (pxCurrentTCB k)) (xItemValue' OR taskEVENT_LIST_ITEM_VALUE_IN_USE)) k;
      k2 \<leftarrow> list_do (InsertEnd (EventList e) (EventItem (pxCurrentTCB k1))) k1;
      prvAddCurrentTaskToDelayedList xTicksToWait True k2
    }"

definition vTaskPlaceOnEventListRestricted :: "u32 \<Rightarrow> u32 \<Rightarrow> bool \<Rightarrow> kernel \<Rightarrow> kernel option" where
  "vTaskPlaceOnEventListRestricted e xTicksToWait xWaitIndefinitely k =
    do {
      k1 \<leftarrow> list_do (InsertEnd (EventList e) (EventItem (pxCurrentTCB k))) k;
      prvAddCurrentTaskToDelayedList (if xWaitIndefinitely then portMAX_TICK else xTicksToWait) xWaitIndefinitely k1
    }"

definition xTaskRemoveFromEventList :: "u32 \<Rightarrow> kernel \<Rightarrow> (kernel \<times> bool) option" where
  "xTaskRemoveFromEventList e k =
    do {
      x \<leftarrow> (case the_items k (EventList e) of [] \<Rightarrow> None | x # _ \<Rightarrow> Some x);
      let t = owner x;
      k1 \<leftarrow> list_do (Remove (EventItem t)) k;
      k2 \<leftarrow> (if uxSchedulerSuspended k1 = 0 then do { k' \<leftarrow> list_do (Remove (StateItem t)) k1; prvAddTaskToReadyList t k' }
             else list_do (InsertEnd xPendingReadyList (EventItem t)) k1);
      let higher = prio k2 t > prio k2 (pxCurrentTCB k2);
      let k3 = (if higher then k2\<lparr>xYieldPending := True\<rparr> else k2);
      Some (prvResetNextTaskUnblockTime k3, higher)
    }"

definition vTaskRemoveFromUnorderedEventList :: "u32 \<Rightarrow> u32 \<Rightarrow> kernel \<Rightarrow> kernel option" where
  "vTaskRemoveFromUnorderedEventList t xItemValue' k =
    do {
      k1 \<leftarrow> list_do (SetValue (EventItem t) (xItemValue' OR taskEVENT_LIST_ITEM_VALUE_IN_USE)) k;
      k2 \<leftarrow> list_do (Remove (EventItem t)) k1;
      k3 \<leftarrow> list_do (Remove (StateItem t)) k2;
      k4 \<leftarrow> prvAddTaskToReadyList t k3;
      Some (if prio k4 t > prio k4 (pxCurrentTCB k4) then k4\<lparr>xYieldPending := True\<rparr> else k4)
    }"

section \<open>Time-outs\<close>

record TimeOut_t =
  xOverflowCount :: u32
  xTimeOnEntering :: u32

definition vTaskSetTimeOutState :: "kernel \<Rightarrow> TimeOut_t" where
  "vTaskSetTimeOutState k = \<lparr>xOverflowCount = xNumOfOverflows k, xTimeOnEntering = xTickCount k\<rparr>"

text \<open>With whether the time is out, the time-out and the ticks left to wait.\<close>

definition xTaskCheckForTimeOut :: "TimeOut_t \<Rightarrow> u32 \<Rightarrow> kernel \<Rightarrow> bool \<times> TimeOut_t \<times> u32" where
  "xTaskCheckForTimeOut pxTimeOut ticks k =
    (let xElapsedTime = xTickCount k - xTimeOnEntering pxTimeOut in
     if ticks = portMAX_TICK then (False, pxTimeOut, ticks)
     else if xNumOfOverflows k \<noteq> xOverflowCount pxTimeOut \<and> xTickCount k \<ge> xTimeOnEntering pxTimeOut then (True, pxTimeOut, ticks)
     else if xElapsedTime < ticks then (False, vTaskSetTimeOutState k, ticks - xElapsedTime)
     else (True, pxTimeOut, 0))"

section \<open>Notifications\<close>

datatype eNotifyAction = eNoAction | eSetBits | eIncrement | eSetValueWithOverwrite | eSetValueWithoutOverwrite

text \<open>The switch of the notifying functions on a control block whose state was \<open>orig\<close>; with it goes whether it is a success.\<close>

definition notify_value :: "eNotifyAction \<Rightarrow> u32 \<Rightarrow> notify_state \<Rightarrow> TCB_t \<Rightarrow> TCB_t \<times> bool" where
  "notify_value eAction ulValue orig c =
    (case eAction of eSetBits \<Rightarrow> (c\<lparr>ulNotifiedValue := ulNotifiedValue c OR ulValue\<rparr>, True)
     | eIncrement \<Rightarrow> (c\<lparr>ulNotifiedValue := ulNotifiedValue c + 1\<rparr>, True)
     | eSetValueWithOverwrite \<Rightarrow> (c\<lparr>ulNotifiedValue := ulValue\<rparr>, True)
     | eSetValueWithoutOverwrite \<Rightarrow> if orig \<noteq> taskNOTIFICATION_RECEIVED then (c\<lparr>ulNotifiedValue := ulValue\<rparr>, True) else (c, False)
     | eNoAction \<Rightarrow> (c, True))"

text \<open>With the result and the previous value.\<close>

definition xTaskGenericNotify :: "u32 \<Rightarrow> u32 \<Rightarrow> eNotifyAction \<Rightarrow> kernel \<Rightarrow> (kernel \<times> bool \<times> u32) option" where
  "xTaskGenericNotify t ulValue eAction k =
    do {
      let orig = ucNotifyState (tcb k t);
      let (c, xReturn) = notify_value eAction ulValue orig ((tcb k t)\<lparr>ucNotifyState := taskNOTIFICATION_RECEIVED\<rparr>);
      let k1 = set_tcb t (\<lambda>_. c) k;
      k2 \<leftarrow> (if orig = taskWAITING_NOTIFICATION then
               do {
                 k' \<leftarrow> list_do (Remove (StateItem t)) k1;
                 k'' \<leftarrow> prvAddTaskToReadyList t k';
                 let k3 = prvResetNextTaskUnblockTime k'';
                 Some (if prio k3 t > prio k3 (pxCurrentTCB k3) then portYIELD k3 else k3)
               }
             else Some k1);
      Some (k2, xReturn, ulNotifiedValue (tcb k t))
    }"

text \<open>From an interrupt, with whether a task of higher priority was woken: the caller's flag, or the pending yield when the caller has none.\<close>

definition xTaskGenericNotifyFromISR :: "u32 \<Rightarrow> u32 \<Rightarrow> eNotifyAction \<Rightarrow> bool \<Rightarrow> kernel \<Rightarrow> (kernel \<times> bool \<times> u32 \<times> bool) option" where
  "xTaskGenericNotifyFromISR t ulValue eAction has_flag k =
    do {
      let orig = ucNotifyState (tcb k t);
      let (c, xReturn) = notify_value eAction ulValue orig ((tcb k t)\<lparr>ucNotifyState := taskNOTIFICATION_RECEIVED\<rparr>);
      let k1 = set_tcb t (\<lambda>_. c) k;
      (k2, woken) \<leftarrow> (if orig = taskWAITING_NOTIFICATION then
               do {
                 k' \<leftarrow> (if uxSchedulerSuspended k1 = 0 then do { k' \<leftarrow> list_do (Remove (StateItem t)) k1; prvAddTaskToReadyList t k' }
                        else list_do (InsertEnd xPendingReadyList (EventItem t)) k1);
                 let higher = prio k' t > prio k' (pxCurrentTCB k');
                 Some (if higher \<and> \<not> has_flag then k'\<lparr>xYieldPending := True\<rparr> else k', higher \<and> has_flag)
               }
             else Some (k1, False));
      Some (k2, xReturn, ulNotifiedValue (tcb k t), woken)
    }"

definition vTaskNotifyGiveFromISR :: "u32 \<Rightarrow> bool \<Rightarrow> kernel \<Rightarrow> (kernel \<times> bool) option" where
  "vTaskNotifyGiveFromISR t has_flag k =
    do {
      let orig = ucNotifyState (tcb k t);
      let k1 = set_tcb t (\<lambda>c. c\<lparr>ucNotifyState := taskNOTIFICATION_RECEIVED, ulNotifiedValue := ulNotifiedValue c + 1\<rparr>) k;
      if orig = taskWAITING_NOTIFICATION then
        do {
          k' \<leftarrow> (if uxSchedulerSuspended k1 = 0 then do { k' \<leftarrow> list_do (Remove (StateItem t)) k1; prvAddTaskToReadyList t k' }
                 else list_do (InsertEnd xPendingReadyList (EventItem t)) k1);
          let higher = prio k' t > prio k' (pxCurrentTCB k');
          Some (if higher \<and> \<not> has_flag then k'\<lparr>xYieldPending := True\<rparr> else k', higher \<and> has_flag)
        }
      else Some (k1, False)
    }"

text \<open>Waiting is two critical sections, with the switch to other tasks between them.\<close>

definition notify_wait_enter :: "u32 \<Rightarrow> u32 \<Rightarrow> kernel \<Rightarrow> kernel option" where
  "notify_wait_enter ulBitsToClearOnEntry xTicksToWait k =
    (if ucNotifyState (tcb k (pxCurrentTCB k)) \<noteq> taskNOTIFICATION_RECEIVED then
       do {
         let k1 = set_tcb (pxCurrentTCB k) (\<lambda>c. c\<lparr>ulNotifiedValue := ulNotifiedValue c AND NOT ulBitsToClearOnEntry,
                                                 ucNotifyState := taskWAITING_NOTIFICATION\<rparr>) k;
         if xTicksToWait > 0 then do { k2 \<leftarrow> prvAddCurrentTaskToDelayedList xTicksToWait True k1; Some (portYIELD k2) } else Some k1
       }
     else Some k)"

definition notify_wait_leave :: "u32 \<Rightarrow> kernel \<Rightarrow> kernel \<times> bool \<times> u32" where
  "notify_wait_leave ulBitsToClearOnExit k =
    (let t = pxCurrentTCB k; v = ulNotifiedValue (tcb k t); received = (ucNotifyState (tcb k t) = taskNOTIFICATION_RECEIVED);
         k1 = (if received then set_tcb t (\<lambda>c. c\<lparr>ulNotifiedValue := ulNotifiedValue c AND NOT ulBitsToClearOnExit\<rparr>) k else k) in
     (set_tcb t (ucNotifyState_update (\<lambda>_. taskNOT_WAITING_NOTIFICATION)) k1, received, v))"

definition notify_take_enter :: "u32 \<Rightarrow> kernel \<Rightarrow> kernel option" where
  "notify_take_enter xTicksToWait k =
    (if ulNotifiedValue (tcb k (pxCurrentTCB k)) = 0 then
       do {
         let k1 = set_tcb (pxCurrentTCB k) (ucNotifyState_update (\<lambda>_. taskWAITING_NOTIFICATION)) k;
         if xTicksToWait > 0 then do { k2 \<leftarrow> prvAddCurrentTaskToDelayedList xTicksToWait True k1; Some (portYIELD k2) } else Some k1
       }
     else Some k)"

definition notify_take_leave :: "bool \<Rightarrow> kernel \<Rightarrow> kernel \<times> u32" where
  "notify_take_leave xClearCountOnExit k =
    (let t = pxCurrentTCB k; v = ulNotifiedValue (tcb k t);
         k1 = (if v \<noteq> 0 then set_tcb t (ulNotifiedValue_update (\<lambda>_. if xClearCountOnExit then 0 else v - 1)) k else k) in
     (set_tcb t (ucNotifyState_update (\<lambda>_. taskNOT_WAITING_NOTIFICATION)) k1, v))"

definition xTaskNotifyStateClear :: "u32 \<Rightarrow> kernel \<Rightarrow> kernel \<times> bool" where
  "xTaskNotifyStateClear h k =
    (let t = prvGetTCBFromHandle h k in
     if ucNotifyState (tcb k t) = taskNOTIFICATION_RECEIVED
     then (set_tcb t (ucNotifyState_update (\<lambda>_. taskNOT_WAITING_NOTIFICATION)) k, True) else (k, False))"

datatype eTaskState = eRunning | eReady | eBlocked | eSuspended | eDeleted | eInvalid

definition eTaskGetState :: "u32 \<Rightarrow> kernel \<Rightarrow> eTaskState" where
  "eTaskGetState t k =
    (if t = pxCurrentTCB k then eRunning
     else (let L = container k (StateItem t) in
           if L = Some (pxDelayedTaskList k) \<or> L = Some (pxOverflowDelayedTaskList k) then eBlocked
           else if L = Some xSuspendedTaskList then (if container k (EventItem t) = None then eSuspended else eBlocked)
           else if L = Some xTasksWaitingTermination \<or> L = None then eDeleted else eReady))"

end
