(* ===== verification/Kernel_Invariant.thy ===== *)
theory Kernel_Invariant
  imports Kernel_Tasks
begin

text \<open>
  The invariant of the scheduler and that every operation keeps it, returns and never corrupts a list. The invariant has three parts: the lists
  and what they say of priorities and wake times (\<open>core\<close>), the next wake-up (\<open>alarm\<close>), and how the two items of each task, the running
  task, the idle task and the counters hang together (\<open>links\<close>). The last two only speak of where each item is.
\<close>

section \<open>The invariant\<close>

fun holds_states :: "list_id \<Rightarrow> bool" where
  "holds_states xPendingReadyList = False"
| "holds_states (EventList e) = False"
| "holds_states L = True"

text \<open>The values in the delayed list are bounded by a predicate; between ticks they lie after the tick count.\<close>

definition core_in :: "(u32 \<Rightarrow> bool) \<Rightarrow> kernel \<Rightarrow> bool" where
  "core_in P k \<longleftrightarrow> wf_lists (kl k)
    \<and> (\<forall>t L. container k (StateItem t) = Some L \<longrightarrow> holds_states L)
    \<and> (\<forall>t L. container k (EventItem t) = Some L \<longrightarrow> \<not> holds_states L)
    \<and> (\<forall>t p. container k (StateItem t) = Some (Ready p) \<longrightarrow> p = prio k t \<and> p \<le> uxTopReadyPriority k)
    \<and> (\<forall>t. container k (StateItem t) \<noteq> None \<longrightarrow> prio k t < configMAX_PRIORITIES \<and> uxBasePriority (tcb k t) < configMAX_PRIORITIES)
    \<and> (pxDelayedTaskList k, pxOverflowDelayedTaskList k) \<in> {(xDelayedTaskList1, xDelayedTaskList2), (xDelayedTaskList2, xDelayedTaskList1)}
    \<and> sorted (map (item_value k) (the_items k (pxDelayedTaskList k))) \<and> sorted (map (item_value k) (the_items k (pxOverflowDelayedTaskList k)))
    \<and> (\<forall>x. container k x = Some (pxDelayedTaskList k) \<longrightarrow> P (item_value k x))
    \<and> (\<forall>x. container k x = Some (pxOverflowDelayedTaskList k) \<longrightarrow> item_value k x \<le> xTickCount k)"

abbreviation core :: "kernel \<Rightarrow> bool" where "core k \<equiv> core_in ((<) (xTickCount k)) k"

definition alarm :: "kernel \<Rightarrow> bool" where
  "alarm k \<longleftrightarrow> (\<forall>x. container k x = Some (pxDelayedTaskList k) \<longrightarrow> xNextTaskUnblockTime k \<le> item_value k x)"

definition tasks :: "kernel \<Rightarrow> u32 set" where "tasks k = {t. container k (StateItem t) \<noteq> None}"

definition deleted :: "kernel \<Rightarrow> u32 set" where "deleted k = {t. container k (StateItem t) = Some xTasksWaitingTermination}"

definition blocked_in :: "list_id option \<Rightarrow> bool" where
  "blocked_in L \<longleftrightarrow> L \<in> {Some xDelayedTaskList1, Some xDelayedTaskList2, Some xSuspendedTaskList}"

definition links :: "kernel \<Rightarrow> bool" where
  "links k \<longleftrightarrow> (xSchedulerRunning k \<longrightarrow> container k (StateItem (xIdleTaskHandle k)) \<in> Some ` range Ready)
    \<and> (pxCurrentTCB k \<in> tasks k \<or> tasks k = {} \<and> pxCurrentTCB k = 0)
    \<and> (\<forall>t e. container k (EventItem t) = Some (EventList e) \<longrightarrow> blocked_in (container k (StateItem t)))
    \<and> (\<forall>t. container k (EventItem t) = Some xPendingReadyList \<longrightarrow> uxSchedulerSuspended k \<noteq> 0 \<and> t \<in> tasks k \<and> t \<notin> deleted k)
    \<and> (\<forall>t. t \<in> tasks k \<longrightarrow> ucNotifyState (tcb k t) = taskWAITING_NOTIFICATION \<longrightarrow> container k (EventItem t) = None)
    \<and> 0 \<notin> tasks k \<and> uxCurrentNumberOfTasks k = of_nat (card (tasks k)) \<and> uxDeletedTasksWaitingCleanUp k = of_nat (card (deleted k))"

definition kernel_ok :: "kernel \<Rightarrow> bool" where
  "kernel_ok k \<longleftrightarrow> core k \<and> alarm k \<and> links k \<and> (uxSchedulerSuspended k = 0 \<longrightarrow> uxPendedTicks k = 0)"

text \<open>What the parts do not speak of.\<close>

lemma core_ignores [simp]:
  "core_in P (k\<lparr>xYieldPending := y\<rparr>) = core_in P k" "core_in P (k\<lparr>SWReq := r\<rparr>) = core_in P k" "core_in P (k\<lparr>uxTaskNumber := v\<rparr>) = core_in P k"
  "core_in P (k\<lparr>uxPendedTicks := v\<rparr>) = core_in P k" "core_in P (k\<lparr>xNextTaskUnblockTime := v\<rparr>) = core_in P k"
  "core_in P (k\<lparr>uxSchedulerSuspended := v\<rparr>) = core_in P k" "core_in P (k\<lparr>pxCurrentTCB := v\<rparr>) = core_in P k"
  "core_in P (k\<lparr>uxCurrentNumberOfTasks := v\<rparr>) = core_in P k" "core_in P (k\<lparr>uxDeletedTasksWaitingCleanUp := v\<rparr>) = core_in P k"
  by (simp_all add: core_in_def)

lemma alarm_ignores [simp]:
  "alarm (k\<lparr>xYieldPending := y\<rparr>) = alarm k" "alarm (k\<lparr>SWReq := r\<rparr>) = alarm k" "alarm (k\<lparr>uxTaskNumber := v\<rparr>) = alarm k"
  "alarm (k\<lparr>uxPendedTicks := v\<rparr>) = alarm k" "alarm (k\<lparr>uxSchedulerSuspended := v\<rparr>) = alarm k" "alarm (k\<lparr>pxCurrentTCB := v\<rparr>) = alarm k"
  "alarm (k\<lparr>uxCurrentNumberOfTasks := v\<rparr>) = alarm k" "alarm (k\<lparr>uxDeletedTasksWaitingCleanUp := v\<rparr>) = alarm k"
  "alarm (k\<lparr>tcb := f\<rparr>) = alarm k" "alarm (k\<lparr>uxTopReadyPriority := v\<rparr>) = alarm k"
  by (simp_all add: alarm_def)

lemma links_ignores [simp]:
  "links (k\<lparr>xYieldPending := y\<rparr>) = links k" "links (k\<lparr>SWReq := r\<rparr>) = links k" "links (k\<lparr>uxTaskNumber := v\<rparr>) = links k"
  "links (k\<lparr>uxPendedTicks := v\<rparr>) = links k" "links (k\<lparr>xNextTaskUnblockTime := v\<rparr>) = links k" "links (k\<lparr>uxTopReadyPriority := v\<rparr>) = links k"
  by (simp_all add: links_def tasks_def deleted_def)

lemma kernel_ok_yield [simp]: "kernel_ok (portYIELD k) = kernel_ok k" "kernel_ok (k\<lparr>xYieldPending := y\<rparr>) = kernel_ok k" "kernel_ok (k\<lparr>SWReq := r\<rparr>) = kernel_ok k"
  by (simp_all add: kernel_ok_def portYIELD_def)

lemma alarm_less:
  assumes "alarm k" and "\<And>x. container k' x = Some (pxDelayedTaskList k') \<Longrightarrow> container k x = Some (pxDelayedTaskList k) \<and> item_value k' x = item_value k x"
    and "xNextTaskUnblockTime k' = xNextTaskUnblockTime k"
  shows "alarm k'"
  using assms by (auto simp: alarm_def)

section \<open>List operations\<close>

lemma list_do_Some: "fits (kl k) c \<Longrightarrow> list_do c k = Some (k\<lparr>kl := lists_call c (kl k)\<rparr>)"
  by (simp add: list_do_def)

lemma sorted_remove1: "sorted (map f xs) \<Longrightarrow> sorted (map f (remove1 x xs))"
  by (induction xs) (auto dest: notin_set_remove1 in_set_remove1 [THEN iffD1, rotated] set_remove1_subset [THEN subsetD])

lemma core_remove:
  assumes "core_in P k" and "container k x = Some L"
  shows "\<exists>s. list_do (Remove x) k = Some (k\<lparr>kl := s\<rparr>) \<and> core_in P (k\<lparr>kl := s\<rparr>) \<and> where_is s = (where_is (kl k))(x := None)
    \<and> value_of s = value_of (kl k)"
proof -
  define s where "s = lists_call (Remove x) (kl k)"
  have s: "where_is s = (where_is (kl k))(x := None)" "value_of s = value_of (kl k)"
    "lists_of s = (lists_of (kl k))(L := kl_remove x (lists_of (kl k) L))" using assms(2) by (simp_all add: s_def)
  have "wf_lists s" unfolding s_def using assms by (intro lists_call_wf) (simp_all add: core_in_def)
  moreover have "sorted (map (value_of (kl k)) (items (lists_of s M)))" if "sorted (map (value_of (kl k)) (the_items k M))" for M
    using that by (cases "M = L") (simp_all add: s kl_remove_def sorted_remove1)
  ultimately have "core_in P (k\<lparr>kl := s\<rparr>)" using assms(1) unfolding core_in_def by (auto simp: s(1,2))
  then show ?thesis using s assms(2) by (intro exI [of _ s]) (simp add: list_do_Some s_def)
qed

lemma core_insert_end:
  assumes "core_in P k" and "container k x = None" and "L \<noteq> xDelayedTaskList1" "L \<noteq> xDelayedTaskList2"
    and "\<And>t. x = StateItem t \<Longrightarrow> holds_states L \<and> prio k t < configMAX_PRIORITIES \<and> uxBasePriority (tcb k t) < configMAX_PRIORITIES"
    and "\<And>t p. x = StateItem t \<Longrightarrow> L = Ready p \<Longrightarrow> p = prio k t \<and> p \<le> uxTopReadyPriority k"
    and "\<And>t. x = EventItem t \<Longrightarrow> \<not> holds_states L"
  shows "\<exists>s. list_do (InsertEnd L x) k = Some (k\<lparr>kl := s\<rparr>) \<and> core_in P (k\<lparr>kl := s\<rparr>) \<and> where_is s = (where_is (kl k))(x := Some L)
    \<and> value_of s = value_of (kl k)"
proof -
  define s where "s = lists_call (InsertEnd L x) (kl k)"
  have s: "where_is s = (where_is (kl k))(x := Some L)" "value_of s = value_of (kl k)"
    "lists_of s = (lists_of (kl k))(L := kl_insert_end x (lists_of (kl k) L))" by (simp_all add: s_def)
  have "wf_lists s" unfolding s_def using assms by (intro lists_call_wf) (simp_all add: core_in_def)
  moreover have "lists_of s (pxDelayedTaskList k) = lists_of (kl k) (pxDelayedTaskList k)"
    "lists_of s (pxOverflowDelayedTaskList k) = lists_of (kl k) (pxOverflowDelayedTaskList k)"
    "pxDelayedTaskList k \<noteq> L" "pxOverflowDelayedTaskList k \<noteq> L"
    using assms(1,3,4) by (auto simp: s core_in_def)
  ultimately have "core_in P (k\<lparr>kl := s\<rparr>)" using assms unfolding core_in_def by (auto simp: s(1,2))
  then show ?thesis using s assms(2) by (intro exI [of _ s]) (simp add: list_do_Some s_def)
qed

lemma core_insert_event:
  assumes "core_in P k" and "container k (EventItem t) = None"
  shows "\<exists>s. list_do (Insert (EventList e) (EventItem t)) k = Some (k\<lparr>kl := s\<rparr>) \<and> core_in P (k\<lparr>kl := s\<rparr>)
    \<and> where_is s = (where_is (kl k))(EventItem t := Some (EventList e)) \<and> value_of s = value_of (kl k)"
proof -
  define s where "s = lists_call (Insert (EventList e) (EventItem t)) (kl k)"
  have s: "where_is s = (where_is (kl k))(EventItem t := Some (EventList e))" "value_of s = value_of (kl k)"
    "lists_of s = (lists_of (kl k))(EventList e := kl_insert (value_of (kl k)) (EventItem t) (lists_of (kl k) (EventList e)))" by (simp_all add: s_def)
  have "wf_lists s" unfolding s_def using assms by (intro lists_call_wf) (simp_all add: core_in_def)
  then have "core_in P (k\<lparr>kl := s\<rparr>)" using assms unfolding core_in_def by (auto simp: s)
  then show ?thesis using s assms(2) by (intro exI [of _ s]) (simp add: list_do_Some s_def)
qed

text \<open>A task goes to sleep: its value and the list it belongs to.\<close>

lemma core_insert_delayed:
  assumes "core k" and "container k (StateItem t) = None" and "prio k t < configMAX_PRIORITIES" "uxBasePriority (tcb k t) < configMAX_PRIORITIES"
    and L: "L = (if v \<le> xTickCount k then pxOverflowDelayedTaskList k else pxDelayedTaskList k)"
  shows "\<exists>s. list_do (SetValue (StateItem t) v) k = Some (k\<lparr>kl := (kl k)\<lparr>value_of := (value_of (kl k))(StateItem t := v)\<rparr>\<rparr>)
    \<and> list_do (Insert L (StateItem t)) (k\<lparr>kl := (kl k)\<lparr>value_of := (value_of (kl k))(StateItem t := v)\<rparr>\<rparr>) = Some (k\<lparr>kl := s\<rparr>)
    \<and> core (k\<lparr>kl := s\<rparr>) \<and> where_is s = (where_is (kl k))(StateItem t := Some L) \<and> value_of s = (value_of (kl k))(StateItem t := v)"
proof -
  define s0 where "s0 = (kl k)\<lparr>value_of := (value_of (kl k))(StateItem t := v)\<rparr>"
  define s where "s = lists_call (Insert L (StateItem t)) s0"
  have s0: "wf_lists s0" "where_is s0 = where_is (kl k)" "value_of s0 = (value_of (kl k))(StateItem t := v)" "lists_of s0 = lists_of (kl k)"
    using assms(1) by (simp_all add: s0_def core_in_def wf_lists_def)
  have s: "where_is s = (where_is (kl k))(StateItem t := Some L)" "value_of s = (value_of (kl k))(StateItem t := v)"
    "lists_of s = (lists_of (kl k))(L := kl_insert (value_of s0) (StateItem t) (lists_of (kl k) L))" by (simp_all add: s_def s0)
  have wf: "wf_lists s" unfolding s_def using assms(2) s0 by (intro lists_call_wf) simp_all
  have notin: "StateItem t \<notin> set (the_items k M)" for M using assms(1,2) by (simp add: core_in_def wf_lists_def)
  have srt: "sorted (map (value_of s) (items (lists_of s M)))" if "M \<in> {xDelayedTaskList1, xDelayedTaskList2}" for M
  proof -
    have "sorted (map (value_of (kl k)) (the_items k M))" using assms(1) that by (auto simp: core_in_def)
    moreover have "map (value_of (kl k)) (the_items k M) = map (value_of s0) (the_items k M)"
      using notin [of M] by (auto simp: s0(3))
    ultimately have "sorted (map (value_of s0) (the_items k M))" by simp
    then show ?thesis using kl_insert_sorted [of "value_of s0" "lists_of (kl k) M" "StateItem t"] by (cases "M = L") (simp_all add: s s0(3))
  qed
  have "core (k\<lparr>kl := s\<rparr>)" using assms wf srt unfolding core_in_def by (auto simp: s(1,2) L)
  moreover have "fits (kl k) (SetValue (StateItem t) v)" "fits s0 (Insert L (StateItem t))" using assms(2) s0 by simp_all
  ultimately show ?thesis using s by (intro exI [of _ s]) (simp add: list_do_def s_def s0_def)
qed

lemma core_set_event_value:
  assumes "core_in P k"
  shows "\<exists>s. list_do (SetValue (EventItem t) v) k = Some (k\<lparr>kl := s\<rparr>) \<and> core_in P (k\<lparr>kl := s\<rparr>) \<and> where_is s = where_is (kl k)
    \<and> value_of s = (value_of (kl k))(EventItem t := v)"
proof -
  define s where "s = lists_call (SetValue (EventItem t) v) (kl k)"
  have s: "where_is s = where_is (kl k)" "value_of s = (value_of (kl k))(EventItem t := v)" "lists_of s = lists_of (kl k)" by (simp_all add: s_def)
  have wf: "wf_lists s" using assms by (simp add: s_def core_in_def wf_lists_def)
  have notin: "EventItem t \<notin> set (the_items k M)" if "M \<in> {xDelayedTaskList1, xDelayedTaskList2}" for M
  proof -
    have "holds_states M" using that by auto
    then have "container k (EventItem t) \<noteq> Some M" using assms by (auto simp: core_in_def)
    then show ?thesis using assms by (simp add: core_in_def wf_lists_def)
  qed
  have same: "map (value_of s) (the_items k M) = map (value_of (kl k)) (the_items k M)"
    "container k x = Some M \<longrightarrow> value_of s x = item_value k x" if "M \<in> {xDelayedTaskList1, xDelayedTaskList2}" for M x
    using notin [OF that] assms by (auto simp: s(2) core_in_def wf_lists_def)
  have DO: "pxDelayedTaskList k \<in> {xDelayedTaskList1, xDelayedTaskList2}" "pxOverflowDelayedTaskList k \<in> {xDelayedTaskList1, xDelayedTaskList2}"
    using assms by (auto simp: core_in_def)
  have "core_in P (k\<lparr>kl := s\<rparr>)" using assms wf same(1) [OF DO(1)] same(1) [OF DO(2)] same(2) [OF DO(1)] same(2) [OF DO(2)]
    unfolding core_in_def by (simp add: s(1,3) del: map_eq_conv)
  then show ?thesis using s by (intro exI [of _ s]) (simp add: list_do_def s_def)
qed

lemma core_leave:
  assumes "core_in P k"
  shows "\<exists>s. leave_event_list t k = Some (k\<lparr>kl := s\<rparr>) \<and> core_in P (k\<lparr>kl := s\<rparr>) \<and> where_is s = (where_is (kl k))(EventItem t := None)
    \<and> value_of s = value_of (kl k)"
proof (cases "container k (EventItem t)")
  case None
  then have "(where_is (kl k))(EventItem t := None) = where_is (kl k)" by auto
  then show ?thesis using assms None by (intro exI [of _ "kl k"]) (simp add: leave_event_list_def)
next
  case (Some L)
  then show ?thesis using core_remove [OF assms Some] by (simp add: leave_event_list_def)
qed

lemma core_add_ready:
  assumes "core_in P k" and "container k (StateItem t) = None" and "prio k t < configMAX_PRIORITIES" "uxBasePriority (tcb k t) < configMAX_PRIORITIES"
  shows "\<exists>s p. prvAddTaskToReadyList t k = Some (k\<lparr>uxTopReadyPriority := p, kl := s\<rparr>) \<and> core_in P (k\<lparr>uxTopReadyPriority := p, kl := s\<rparr>)
    \<and> where_is s = (where_is (kl k))(StateItem t := Some (Ready (prio k t))) \<and> value_of s = value_of (kl k)"
proof -
  define p where "p = max (prio k t) (uxTopReadyPriority k)"
  have r: "taskRECORD_READY_PRIORITY (prio k t) k = k\<lparr>uxTopReadyPriority := p\<rparr>" by (simp add: taskRECORD_READY_PRIORITY_def p_def max_def)
  have "core_in P (k\<lparr>uxTopReadyPriority := p\<rparr>)" using assms(1) unfolding core_in_def by (auto simp: p_def le_max_iff_disj)
  then show ?thesis
    using core_insert_end [of P "k\<lparr>uxTopReadyPriority := p\<rparr>" "StateItem t" "Ready (prio k t)"] assms
    unfolding prvAddTaskToReadyList_def r by (auto simp: p_def)
qed

text \<open>Out of one list and into a ready list.\<close>

lemma core_to_ready:
  assumes "core_in P k" and "container k (StateItem t) = Some L"
  shows "\<exists>s p. do { k1 \<leftarrow> list_do (Remove (StateItem t)) k; prvAddTaskToReadyList t k1 } = Some (k\<lparr>uxTopReadyPriority := p, kl := s\<rparr>)
    \<and> core_in P (k\<lparr>uxTopReadyPriority := p, kl := s\<rparr>) \<and> where_is s = (where_is (kl k))(StateItem t := Some (Ready (prio k t)))
    \<and> value_of s = value_of (kl k)"
proof -
  obtain s where s: "list_do (Remove (StateItem t)) k = Some (k\<lparr>kl := s\<rparr>)" "core_in P (k\<lparr>kl := s\<rparr>)" "where_is s = (where_is (kl k))(StateItem t := None)"
    "value_of s = value_of (kl k)" using core_remove [OF assms] by blast
  have "prio k t < configMAX_PRIORITIES" "uxBasePriority (tcb k t) < configMAX_PRIORITIES" using assms by (auto simp: core_in_def)
  then show ?thesis using core_add_ready [OF s(2), of t] s by simp
qed

section \<open>Links\<close>

lemma finite_u32 [simp]: "finite (A :: u32 set)" by (rule finite_subset [OF subset_UNIV]) simp

text \<open>A task whose state item moves to another list, its event item with it.\<close>

lemma links_move:
  assumes "links k" and t: "container k (StateItem t) = Some L0" "L0 \<noteq> xTasksWaitingTermination" "L \<noteq> xTasksWaitingTermination"
    and w: "where_is (kl k') = (where_is (kl k))(StateItem t := Some L, EventItem t := e)"
    and idle: "xSchedulerRunning k \<Longrightarrow> t = xIdleTaskHandle k \<Longrightarrow> L \<in> range Ready"
    and e: "e = None \<or> e = Some xPendingReadyList \<and> uxSchedulerSuspended k \<noteq> 0 \<or> (\<exists>a. e = Some (EventList a)) \<and> blocked_in (Some L)"
    and n: "\<And>u. u \<in> tasks k \<Longrightarrow> ucNotifyState (tcb k' u) = taskWAITING_NOTIFICATION \<Longrightarrow> u = t \<and> e = None \<or> ucNotifyState (tcb k u) = taskWAITING_NOTIFICATION \<and> (u = t \<longrightarrow> e = None)"
    and fr: "xSchedulerRunning k' = xSchedulerRunning k" "xIdleTaskHandle k' = xIdleTaskHandle k" "pxCurrentTCB k' = pxCurrentTCB k"
      "uxSchedulerSuspended k' = uxSchedulerSuspended k" "uxCurrentNumberOfTasks k' = uxCurrentNumberOfTasks k"
      "uxDeletedTasksWaitingCleanUp k' = uxDeletedTasksWaitingCleanUp k"
  shows "links k'"
proof -
  have ts: "tasks k' = tasks k" "deleted k' = deleted k" using t by (auto simp: tasks_def deleted_def w)
  have tt: "t \<in> tasks k" "t \<notin> deleted k" using t by (auto simp: tasks_def deleted_def)
  have l: "xSchedulerRunning k \<longrightarrow> container k (StateItem (xIdleTaskHandle k)) \<in> Some ` range Ready"
    "pxCurrentTCB k \<in> tasks k \<or> tasks k = {} \<and> pxCurrentTCB k = 0" "\<forall>t e. container k (EventItem t) = Some (EventList e) \<longrightarrow> blocked_in (container k (StateItem t))"
    "\<forall>t. container k (EventItem t) = Some xPendingReadyList \<longrightarrow> uxSchedulerSuspended k \<noteq> 0 \<and> t \<in> tasks k \<and> t \<notin> deleted k"
    "\<forall>t. t \<in> tasks k \<longrightarrow> ucNotifyState (tcb k t) = taskWAITING_NOTIFICATION \<longrightarrow> container k (EventItem t) = None"
    "0 \<notin> tasks k \<and> uxCurrentNumberOfTasks k = of_nat (card (tasks k)) \<and> uxDeletedTasksWaitingCleanUp k = of_nat (card (deleted k))"
    using assms(1) by (simp_all add: links_def)
  have 1: "xSchedulerRunning k' \<longrightarrow> container k' (StateItem (xIdleTaskHandle k')) \<in> Some ` range Ready" using l(1) idle by (auto simp: w fr)
  have 3: "\<forall>t e. container k' (EventItem t) = Some (EventList e) \<longrightarrow> blocked_in (container k' (StateItem t))" using l(3) e by (auto simp: w)
  have 4: "\<forall>t. container k' (EventItem t) = Some xPendingReadyList \<longrightarrow> uxSchedulerSuspended k' \<noteq> 0 \<and> t \<in> tasks k' \<and> t \<notin> deleted k'"
    using l(4) e tt by (auto simp: w ts fr)
  have 5: "\<forall>u. u \<in> tasks k' \<longrightarrow> ucNotifyState (tcb k' u) = taskWAITING_NOTIFICATION \<longrightarrow> container k' (EventItem u) = None"
    using l(5) n e by (auto simp: w ts)
  show ?thesis using 1 3 4 5 l(2,6) unfolding links_def by (simp add: ts fr)
qed

text \<open>Tasks that become ready, their event items in no list any more.\<close>

lemma links_ready:
  assumes "links k" and w: "\<And>t. container k' (StateItem t) = container k (StateItem t) \<and> container k' (EventItem t) = container k (EventItem t)
      \<or> container k' (StateItem t) \<in> Some ` range Ready \<and> container k' (EventItem t) = None
        \<and> container k (StateItem t) \<notin> {None, Some xTasksWaitingTermination}"
    and n: "\<And>u. ucNotifyState (tcb k' u) = taskWAITING_NOTIFICATION \<Longrightarrow> ucNotifyState (tcb k u) = taskWAITING_NOTIFICATION"
    and fr: "xSchedulerRunning k' = xSchedulerRunning k" "xIdleTaskHandle k' = xIdleTaskHandle k" "pxCurrentTCB k' \<in> insert (pxCurrentTCB k) (tasks k')"
      "uxCurrentNumberOfTasks k' = uxCurrentNumberOfTasks k" "uxDeletedTasksWaitingCleanUp k' = uxDeletedTasksWaitingCleanUp k"
    and s: "uxSchedulerSuspended k' \<noteq> 0 \<or> (\<forall>t. container k' (EventItem t) \<noteq> Some xPendingReadyList)"
  shows "links k'"
proof -
  have ts: "tasks k' = tasks k"
  proof -
    have "t \<in> tasks k' \<longleftrightarrow> t \<in> tasks k" for t using w [of t] by (auto simp: tasks_def simp del: not_None_eq)
    then show ?thesis by blast
  qed
  have ds: "deleted k' = deleted k"
  proof -
    have "t \<in> deleted k' \<longleftrightarrow> t \<in> deleted k" for t using w [of t] by (auto simp: deleted_def)
    then show ?thesis by blast
  qed
  have l: "xSchedulerRunning k \<longrightarrow> container k (StateItem (xIdleTaskHandle k)) \<in> Some ` range Ready"
    "pxCurrentTCB k \<in> tasks k \<or> tasks k = {} \<and> pxCurrentTCB k = 0" "\<And>t e. container k (EventItem t) = Some (EventList e) \<Longrightarrow> blocked_in (container k (StateItem t))"
    "\<And>t. container k (EventItem t) = Some xPendingReadyList \<Longrightarrow> uxSchedulerSuspended k \<noteq> 0 \<and> t \<in> tasks k \<and> t \<notin> deleted k"
    "\<And>t. t \<in> tasks k \<Longrightarrow> ucNotifyState (tcb k t) = taskWAITING_NOTIFICATION \<Longrightarrow> container k (EventItem t) = None"
    "0 \<notin> tasks k \<and> uxCurrentNumberOfTasks k = of_nat (card (tasks k)) \<and> uxDeletedTasksWaitingCleanUp k = of_nat (card (deleted k))"
    using assms(1) by (simp_all add: links_def)
  have 1: "xSchedulerRunning k' \<longrightarrow> container k' (StateItem (xIdleTaskHandle k')) \<in> Some ` range Ready"
    using l(1) w [of "xIdleTaskHandle k"] by (auto simp: fr)
  have 2: "pxCurrentTCB k' \<in> tasks k' \<or> tasks k' = {} \<and> pxCurrentTCB k' = 0" using fr(3) l(2) by (auto simp: ts)
  have 3: "blocked_in (container k' (StateItem t))" if "container k' (EventItem t) = Some (EventList e)" for t e
    using that w [of t] l(3) [of t e] by auto
  have 4: "uxSchedulerSuspended k' \<noteq> 0 \<and> t \<in> tasks k' \<and> t \<notin> deleted k'" if "container k' (EventItem t) = Some xPendingReadyList" for t
    using that w [of t] l(4) [of t] s by (auto simp: ts ds)
  have 5: "container k' (EventItem t) = None" if "t \<in> tasks k'" "ucNotifyState (tcb k' t) = taskWAITING_NOTIFICATION" for t
    using that w [of t] l(5) [of t] n by (auto simp: ts)
  show ?thesis unfolding links_def using 1 2 3 4 5 l(6) by (simp add: ts ds fr)
qed

lemma core_reset [simp]: "core_in P (prvResetNextTaskUnblockTime k) = core_in P k"
  by (simp add: core_in_def prvResetNextTaskUnblockTime_def)

lemma reset_fields [simp]:
  "kl (prvResetNextTaskUnblockTime k) = kl k" "tcb (prvResetNextTaskUnblockTime k) = tcb k" "pxCurrentTCB (prvResetNextTaskUnblockTime k) = pxCurrentTCB k"
  "xTickCount (prvResetNextTaskUnblockTime k) = xTickCount k" "uxSchedulerSuspended (prvResetNextTaskUnblockTime k) = uxSchedulerSuspended k"
  "uxPendedTicks (prvResetNextTaskUnblockTime k) = uxPendedTicks k" "xYieldPending (prvResetNextTaskUnblockTime k) = xYieldPending k"
  "xSchedulerRunning (prvResetNextTaskUnblockTime k) = xSchedulerRunning k" "uxCurrentNumberOfTasks (prvResetNextTaskUnblockTime k) = uxCurrentNumberOfTasks k"
  "uxDeletedTasksWaitingCleanUp (prvResetNextTaskUnblockTime k) = uxDeletedTasksWaitingCleanUp k" "xIdleTaskHandle (prvResetNextTaskUnblockTime k) = xIdleTaskHandle k"
  "pxDelayedTaskList (prvResetNextTaskUnblockTime k) = pxDelayedTaskList k" "pxOverflowDelayedTaskList (prvResetNextTaskUnblockTime k) = pxOverflowDelayedTaskList k"
  "xNumOfOverflows (prvResetNextTaskUnblockTime k) = xNumOfOverflows k"
  by (simp_all add: prvResetNextTaskUnblockTime_def)

lemma links_reset [simp]: "links (prvResetNextTaskUnblockTime k) = links k"
  by (simp add: links_def tasks_def deleted_def)

section \<open>The tick\<close>

definition due :: "u32 \<Rightarrow> kernel \<Rightarrow> u32 \<Rightarrow> bool" where
  "due now k t \<longleftrightarrow> container k (StateItem t) = Some (pxDelayedTaskList k) \<and> item_value k (StateItem t) \<le> now"

fun woken :: "u32 \<Rightarrow> kernel \<Rightarrow> item \<Rightarrow> list_id option" where
  "woken now k (StateItem t) = (if due now k t then Some (Ready (prio k t)) else container k (StateItem t))"
| "woken now k (EventItem t) = (if due now k t then None else container k (EventItem t))"

lemma delayed_states:
  assumes "core_in P k" and "x \<in> set (the_items k (pxDelayedTaskList k))"
  shows "x = StateItem (owner x)" and "container k x = Some (pxDelayedTaskList k)"
proof -
  show c: "container k x = Some (pxDelayedTaskList k)" using assms by (auto simp: core_in_def wf_lists_def)
  show "x = StateItem (owner x)"
  proof (cases x)
    case (EventItem t)
    then have "\<not> holds_states (pxDelayedTaskList k)" using assms(1) c by (auto simp: core_in_def)
    then show ?thesis using assms(1) by (auto simp: core_in_def)
  qed simp
qed

lemma set_items: "core_in P k \<Longrightarrow> x \<in> set (the_items k L) \<longleftrightarrow> container k x = Some L"
  by (simp add: core_in_def wf_lists_def)

text \<open>The head of the delayed list wakes first.\<close>

lemma head_least:
  assumes "core_in P k" and "the_items k (pxDelayedTaskList k) = y # ys" and "container k x = Some (pxDelayedTaskList k)"
  shows "item_value k y \<le> item_value k x"
proof -
  have "x \<in> set (y # ys)" using assms set_items [OF assms(1), of x "pxDelayedTaskList k"] by simp
  moreover have "sorted (map (item_value k) (y # ys))" using assms(1,2) by (simp add: core_in_def)
  ultimately show ?thesis by auto
qed

lemma alarm_reset:
  assumes "core_in P k"
  shows "alarm (prvResetNextTaskUnblockTime k)"
proof (cases "the_items k (pxDelayedTaskList k)")
  case Nil
  then show ?thesis using set_items [OF assms, of _ "pxDelayedTaskList k"] by (simp add: alarm_def)
next
  case (Cons y ys)
  then show ?thesis using head_least [OF assms Cons] delayed_states(1) [OF assms, of y] by (simp add: alarm_def) (simp add: prvResetNextTaskUnblockTime_def)
qed

text \<open>One round of the loop.\<close>

lemma wake_one:
  assumes "core_in P k" and t: "container k (StateItem t) = Some L"
  shows "\<exists>s p. do { k1 \<leftarrow> list_do (Remove (StateItem t)) k; k2 \<leftarrow> leave_event_list t k1; prvAddTaskToReadyList t k2 }
      = Some (k\<lparr>uxTopReadyPriority := p, kl := s\<rparr>)
    \<and> core_in P (k\<lparr>uxTopReadyPriority := p, kl := s\<rparr>)
    \<and> where_is s = (where_is (kl k))(StateItem t := Some (Ready (prio k t)), EventItem t := None) \<and> value_of s = value_of (kl k)"
proof -
  obtain s1 where s1: "list_do (Remove (StateItem t)) k = Some (k\<lparr>kl := s1\<rparr>)" "core_in P (k\<lparr>kl := s1\<rparr>)"
    "where_is s1 = (where_is (kl k))(StateItem t := None)" "value_of s1 = value_of (kl k)" using core_remove [OF assms] by blast
  obtain s2 where s2: "leave_event_list t (k\<lparr>kl := s1\<rparr>) = Some (k\<lparr>kl := s2\<rparr>)" "core_in P (k\<lparr>kl := s2\<rparr>)"
    "where_is s2 = (where_is s1)(EventItem t := None)" "value_of s2 = value_of s1" using core_leave [OF s1(2), of t] by auto
  have "prio k t < configMAX_PRIORITIES" "uxBasePriority (tcb k t) < configMAX_PRIORITIES" using assms by (auto simp: core_in_def)
  then obtain s p where "prvAddTaskToReadyList t (k\<lparr>kl := s2\<rparr>) = Some (k\<lparr>uxTopReadyPriority := p, kl := s\<rparr>)"
    "core_in P (k\<lparr>uxTopReadyPriority := p, kl := s\<rparr>)" "where_is s = (where_is s2)(StateItem t := Some (Ready (prio k t)))" "value_of s = value_of s2"
    using core_add_ready [OF s2(2), of t] s2(3) s1(3) by auto
  then show ?thesis using s1 s2 by (intro exI [of _ s] exI [of _ p]) (simp add: fun_upd_twist)
qed

lemma unblock_loop_wakes:
  assumes "core_in P k"
  shows "\<exists>s p n. unblock_loop now sw k = Some (k\<lparr>uxTopReadyPriority := p, kl := s, xNextTaskUnblockTime := n\<rparr>,
        sw \<or> (\<exists>t. due now k t \<and> prio k (pxCurrentTCB k) \<le> prio k t))
    \<and> core_in ((<) now) (k\<lparr>uxTopReadyPriority := p, kl := s, xNextTaskUnblockTime := n\<rparr>)
    \<and> alarm (k\<lparr>uxTopReadyPriority := p, kl := s, xNextTaskUnblockTime := n\<rparr>) \<and> where_is s = woken now k \<and> value_of s = value_of (kl k)"
  using assms
proof (induction "card (set (the_items k (pxDelayedTaskList k)))" arbitrary: k sw rule: less_induct)
  case less
  let ?D = "pxDelayedTaskList k"
  have same: "where_is (kl k) = woken now k" if "\<forall>t. \<not> due now k t"
  proof
    show "where_is (kl k) x = woken now k x" for x using that by (cases x) simp_all
  qed
  show ?case
  proof (cases "the_items k ?D")
    case Nil
    then have none: "container k x \<noteq> Some ?D" for x using set_items [OF less.prems, of x ?D] by simp
    then have nd: "\<forall>t. \<not> due now k t" by (simp add: due_def)
    have "core_in ((<) now) k" using less.prems none by (simp add: core_in_def)
    then have "core_in ((<) now) (k\<lparr>xNextTaskUnblockTime := portMAX_TICK\<rparr>)" by (simp add: core_in_def)
    then show ?thesis using nd none same [OF nd] Nil
      by (intro exI [of _ "kl k"] exI [of _ "uxTopReadyPriority k"] exI [of _ portMAX_TICK]) (simp add: unblock_loop.simps alarm_def)
  next
    case (Cons y ys)
    have y: "y = StateItem (owner y)" "container k y = Some ?D" using delayed_states [OF less.prems, of y] Cons by auto
    define t where "t = owner y"
    have ct: "container k (StateItem t) = Some ?D" "y = StateItem t" using y by (simp_all add: t_def)
    show ?thesis
    proof (cases "now < item_value k y")
      case True
      then have later: "now < item_value k x" if "container k x = Some ?D" for x using head_least [OF less.prems Cons that] by simp
      then have nd: "\<forall>t. \<not> due now k t" by (auto simp: due_def not_le)
      have "core_in ((<) now) k" using less.prems later by (simp add: core_in_def)
      then have "core_in ((<) now) (k\<lparr>xNextTaskUnblockTime := item_value k y\<rparr>)" by (simp add: core_in_def)
      moreover have "alarm (k\<lparr>xNextTaskUnblockTime := item_value k y\<rparr>)" using head_least [OF less.prems Cons] by (simp add: alarm_def)
      ultimately show ?thesis using nd same [OF nd] Cons True ct(2)
        by (intro exI [of _ "kl k"] exI [of _ "uxTopReadyPriority k"] exI [of _ "item_value k y"]) (simp add: unblock_loop.simps)
    next
      case False
      obtain s1 p1 where w: "do { k1 \<leftarrow> list_do (Remove (StateItem t)) k; k2 \<leftarrow> leave_event_list t k1; prvAddTaskToReadyList t k2 }
          = Some (k\<lparr>uxTopReadyPriority := p1, kl := s1\<rparr>)" "core_in P (k\<lparr>uxTopReadyPriority := p1, kl := s1\<rparr>)"
        "where_is s1 = (where_is (kl k))(StateItem t := Some (Ready (prio k t)), EventItem t := None)" "value_of s1 = value_of (kl k)"
        using wake_one [OF less.prems ct(1)] by blast
      define k3 where "k3 = k\<lparr>uxTopReadyPriority := p1, kl := s1\<rparr>"
      have D3: "pxDelayedTaskList k3 = ?D" by (simp add: k3_def)
      have nr: "?D \<noteq> Ready q" for q using less.prems by (auto simp: core_in_def)
      have "container k (EventItem t) \<noteq> Some ?D"
        using delayed_states(1) [OF less.prems, of "EventItem t"] set_items [OF less.prems, of "EventItem t" ?D] by auto
      then have "z \<in> set (the_items k3 ?D) \<longleftrightarrow> z \<in> set (the_items k ?D) - {StateItem t}" for z
        using set_items [OF w(2), of z ?D] set_items [OF less.prems, of z ?D] nr [of "prio k t"] by (auto simp: w(3) k3_def)
      then have "set (the_items k3 ?D) = set (the_items k ?D) - {StateItem t}" by blast
      then have "card (set (the_items k3 (pxDelayedTaskList k3))) < card (set (the_items k ?D))"
        using card_Diff1_less [of "set (the_items k ?D)" "StateItem t"] Cons ct(2) by (simp add: D3)
      note IH = less.hyps [OF this, of "sw \<or> prio k t \<ge> prio k (pxCurrentTCB k)"]
      have due3: "due now k3 u \<longleftrightarrow> due now k u \<and> u \<noteq> t" for u using nr [of "prio k t"] nr [of "prio k t", symmetric] w(3,4) by (auto simp: due_def k3_def)
      have dt: "due now k t" using ct False by (simp add: due_def)
      have step: "unblock_loop now sw k = unblock_loop now (sw \<or> prio k t \<ge> prio k (pxCurrentTCB k)) k3"
        using w(1) False Cons ct(2) by (subst unblock_loop.simps) (auto simp: k3_def bind_assoc split: Option.bind_splits)
      have "woken now k3 x = woken now k x" for x
        by (cases x) (use dt due3 w(3) in \<open>auto simp: k3_def\<close>)
      then have wk: "woken now k3 = woken now k" by auto
      have "core_in P k3" using w(2) by (simp add: k3_def)
      from IH [OF this] obtain s p n where r: "unblock_loop now (sw \<or> prio k t \<ge> prio k (pxCurrentTCB k)) k3 =
          Some (k\<lparr>uxTopReadyPriority := p, kl := s, xNextTaskUnblockTime := n\<rparr>,
            (sw \<or> prio k t \<ge> prio k (pxCurrentTCB k)) \<or> (\<exists>u. due now k3 u \<and> prio k3 (pxCurrentTCB k3) \<le> prio k3 u))"
        "core_in ((<) now) (k\<lparr>uxTopReadyPriority := p, kl := s, xNextTaskUnblockTime := n\<rparr>)"
        "alarm (k\<lparr>uxTopReadyPriority := p, kl := s, xNextTaskUnblockTime := n\<rparr>)" "where_is s = woken now k3" "value_of s = value_of (kl k3)"
        by (auto simp: k3_def)
      have "(sw \<or> prio k t \<ge> prio k (pxCurrentTCB k)) \<or> (\<exists>u. due now k3 u \<and> prio k3 (pxCurrentTCB k3) \<le> prio k3 u) \<longleftrightarrow>
          sw \<or> (\<exists>u. due now k u \<and> prio k (pxCurrentTCB k) \<le> prio k u)"
        using dt due3 by (auto simp: k3_def)
      then show ?thesis using step r wk w(4) by (intro exI [of _ s] exI [of _ p] exI [of _ n]) (simp add: k3_def)
    qed
  qed
qed

text \<open>The tick when the scheduler is not suspended: the tick count, the lists that change places at its overflow and who wakes.\<close>

definition tick_lists :: "kernel \<Rightarrow> kernel" where
  "tick_lists k =
    (if xTickCount k = portMAX_TICK
     then k\<lparr>xTickCount := 0, pxDelayedTaskList := pxOverflowDelayedTaskList k, pxOverflowDelayedTaskList := pxDelayedTaskList k,
             xNumOfOverflows := xNumOfOverflows k + 1\<rparr>
     else k\<lparr>xTickCount := xTickCount k + 1\<rparr>)"

lemma succ_zero: "(v :: u32) + 1 = 0 \<longleftrightarrow> v = portMAX_TICK"
proof
  assume "v + 1 = 0"
  then have "v = - 1" by (simp add: add_eq_0_iff2)
  then show "v = portMAX_TICK" by (simp add: portMAX_TICK_def)
qed (simp add: portMAX_TICK_def)

lemma less_succ: "(v :: u32) \<noteq> portMAX_TICK \<Longrightarrow> v < w \<longleftrightarrow> v + 1 \<le> w"
  using unatSuc [of v] succ_zero [of v] by (simp add: word_less_nat_alt word_le_nat_alt add.commute Suc_le_eq)

lemma unat_succ: "(v :: u32) \<noteq> portMAX_TICK \<Longrightarrow> unat (v + 1) = unat v + 1"
  using unatSuc [of v] succ_zero [of v] by (simp add: add.commute)

lemma core_tick_lists:
  assumes "core k"
  shows "core_in ((\<le>) (xTickCount k + 1)) (tick_lists k)"
proof (cases "xTickCount k = portMAX_TICK")
  case True
  have z: "xTickCount k + 1 = 0" using True succ_zero by blast
  have "\<not> xTickCount k < v" for v using True by (simp add: not_less)
  then have "container k x \<noteq> Some (pxDelayedTaskList k)" for x using assms unfolding core_in_def by blast
  then show ?thesis using assms True unfolding core_in_def tick_lists_def z by auto
next
  case False
  then have "xTickCount k \<le> xTickCount k + 1" using less_succ [OF False, of "xTickCount k + 1"] by simp
  then show ?thesis using assms False unfolding core_in_def tick_lists_def by (auto simp: less_succ intro: order_trans)
qed

lemma tick_wakes:
  assumes ok: "core k" "alarm k" and run: "uxSchedulerSuspended k = 0"
  defines "k1 \<equiv> tick_lists k"
  defines "now \<equiv> xTickCount k + 1"
  shows "\<exists>s p n sw. xTaskIncrementTick k = Some (k1\<lparr>uxTopReadyPriority := p, kl := s, xNextTaskUnblockTime := n\<rparr>, sw)
    \<and> core (k1\<lparr>uxTopReadyPriority := p, kl := s, xNextTaskUnblockTime := n\<rparr>) \<and> alarm (k1\<lparr>uxTopReadyPriority := p, kl := s, xNextTaskUnblockTime := n\<rparr>)
    \<and> where_is s = woken now k1 \<and> value_of s = value_of (kl k)
    \<and> sw = ((\<exists>t. due now k1 t \<and> prio k (pxCurrentTCB k) \<le> prio k t)
        \<or> 1 < card {t. woken now k1 (StateItem t) = Some (Ready (prio k (pxCurrentTCB k)))} \<or> xYieldPending k)"
proof -
  have c1: "core_in ((\<le>) now) k1" using core_tick_lists [OF ok(1)] by (simp add: k1_def now_def)
  have k1: "kl k1 = kl k" "tcb k1 = tcb k" "pxCurrentTCB k1 = pxCurrentTCB k" "xYieldPending k1 = xYieldPending k"
    "xTickCount k1 = now" "xNextTaskUnblockTime k1 = xNextTaskUnblockTime k"
    by (simp_all add: k1_def now_def tick_lists_def portMAX_TICK_def)
  obtain m where m: "(if xTickCount k + 1 = 0 then taskSWITCH_DELAYED_LISTS (k\<lparr>xTickCount := xTickCount k + 1\<rparr>) else k\<lparr>xTickCount := xTickCount k + 1\<rparr>)
      = k1\<lparr>xNextTaskUnblockTime := m\<rparr>" "\<forall>x. container k1 x = Some (pxDelayedTaskList k1) \<longrightarrow> m \<le> item_value k1 x"
  proof (cases "xTickCount k = portMAX_TICK")
    case True
    then have z: "xTickCount k + 1 = 0" using succ_zero by blast
    have e: "taskSWITCH_DELAYED_LISTS (k\<lparr>xTickCount := xTickCount k + 1\<rparr>) = prvResetNextTaskUnblockTime k1"
      using True z by (simp add: taskSWITCH_DELAYED_LISTS_def k1_def tick_lists_def)
    have "\<forall>x. container k1 x = Some (pxDelayedTaskList k1) \<longrightarrow> xNextTaskUnblockTime (prvResetNextTaskUnblockTime k1) \<le> item_value k1 x"
      using alarm_reset [OF c1] by (simp add: alarm_def)
    then show ?thesis using that [of "xNextTaskUnblockTime (prvResetNextTaskUnblockTime k1)"] z e by (simp add: prvResetNextTaskUnblockTime_def)
  next
    case False
    then have nz: "xTickCount k + 1 \<noteq> 0" using succ_zero by blast
    have e: "k1 = k\<lparr>xTickCount := xTickCount k + 1\<rparr>" using False by (simp add: k1_def tick_lists_def)
    then show ?thesis using that [of "xNextTaskUnblockTime k"] nz ok(2) by (simp add: e alarm_def)
  qed
  define k2 where "k2 = k1\<lparr>xNextTaskUnblockTime := m\<rparr>"
  have c2: "core_in ((\<le>) now) k2" using c1 by (simp add: k2_def core_in_def)
  have dw: "due now k2 = due now k1" "woken now k2 x = woken now k1 x" for x
    by (auto simp: due_def k2_def fun_eq_iff) (cases x; simp add: due_def)
  obtain s p n sw where r: "(if now \<ge> xNextTaskUnblockTime k2 then unblock_loop now False k2 else Some (k2, False))
      = Some (k1\<lparr>uxTopReadyPriority := p, kl := s, xNextTaskUnblockTime := n\<rparr>, sw)" "core_in ((<) now) (k1\<lparr>uxTopReadyPriority := p, kl := s, xNextTaskUnblockTime := n\<rparr>)"
    "alarm (k1\<lparr>uxTopReadyPriority := p, kl := s, xNextTaskUnblockTime := n\<rparr>)" "where_is s = woken now k1" "value_of s = value_of (kl k)"
    "sw = (\<exists>t. due now k1 t \<and> prio k (pxCurrentTCB k) \<le> prio k t)"
  proof (cases "now \<ge> xNextTaskUnblockTime k2")
    case True
    have "woken now k2 = woken now k1" using dw(2) by auto
    then show ?thesis using that unblock_loop_wakes [OF c2, of now False] True dw(1) by (auto simp: k2_def k1)
  next
    case False
    then have nd: "\<not> due now k1 t" for t using m(2) by (auto simp: due_def k2_def not_le dest: less_le_trans)
    then have "woken now k1 x = where_is (kl k1) x" for x by (cases x) simp_all
    then have w: "woken now k1 = where_is (kl k)" by (auto simp: k1)
    have "now < item_value k1 x" if "container k1 x = Some (pxDelayedTaskList k1)" for x using m(2) that False by (auto simp: k2_def not_le dest: less_le_trans)
    then have "core_in ((<) now) k1" using c1 by (simp add: core_in_def)
    then have "core_in ((<) now) k2" "alarm k2" using m(2) by (simp_all add: core_in_def k2_def alarm_def)
    moreover have e: "k1\<lparr>uxTopReadyPriority := uxTopReadyPriority k1, kl := kl k1, xNextTaskUnblockTime := m\<rparr> = k2" by (simp add: k2_def)
    ultimately show ?thesis
      using that [where s = "kl k1" and p = "uxTopReadyPriority k1" and n = m and sw = False, unfolded e] False nd w by (simp add: k1)
  qed
  define k3 where "k3 = k1\<lparr>uxTopReadyPriority := p, kl := s, xNextTaskUnblockTime := n\<rparr>"
  have len: "length (the_items k3 (Ready q)) = card {t. woken now k1 (StateItem t) = Some (Ready q)}" for q
  proof -
    have c3: "core_in ((<) now) k3" using r(2) by (simp add: k3_def)
    have "x \<in> StateItem ` {t. where_is s (StateItem t) = Some (Ready q)}" if "where_is s x = Some (Ready q)" for x
    proof (cases x)
      case (EventItem t)
      have "container k3 x = Some (Ready q)" using that by (simp add: k3_def)
      then have "\<not> holds_states (Ready q)" using c3 unfolding core_in_def EventItem by blast
      then show ?thesis by simp
    qed (use that in auto)
    then have "set (the_items k3 (Ready q)) = StateItem ` {t. where_is s (StateItem t) = Some (Ready q)}"
      using set_items [OF c3, of _ "Ready q"] by (auto simp: k3_def)
    moreover have "distinct (the_items k3 (Ready q))" using c3 by (simp add: core_in_def wf_lists_def)
    ultimately show ?thesis using distinct_card [of "the_items k3 (Ready q)"] card_image [of StateItem] by (simp add: inj_on_def r(4))
  qed
  have "xTaskIncrementTick k = Some (k3, sw \<or> 1 < length (the_items k3 (Ready (prio k3 (pxCurrentTCB k3)))) \<or> xYieldPending k3)"
    using run unfolding xTaskIncrementTick_def Let_def unfolding m(1) unfolding k2_def [symmetric] now_def [symmetric] unfolding r(1)
    unfolding k3_def [symmetric] by simp
  then show ?thesis using r len by (intro exI [of _ s] exI [of _ p] exI [of _ n] exI) (simp add: k3_def k1)
qed

lemma tick_ok:
  assumes ok: "core k" "alarm k" "links k" and run: "uxSchedulerSuspended k = 0"
  shows "\<exists>k' sw. xTaskIncrementTick k = Some (k', sw) \<and> core k' \<and> alarm k' \<and> links k' \<and> uxSchedulerSuspended k' = 0
    \<and> uxPendedTicks k' = uxPendedTicks k \<and> pxCurrentTCB k' = pxCurrentTCB k \<and> xSchedulerRunning k' = xSchedulerRunning k"
proof -
  obtain s p n sw where r: "xTaskIncrementTick k = Some ((tick_lists k)\<lparr>uxTopReadyPriority := p, kl := s, xNextTaskUnblockTime := n\<rparr>, sw)"
    "core ((tick_lists k)\<lparr>uxTopReadyPriority := p, kl := s, xNextTaskUnblockTime := n\<rparr>)"
    "alarm ((tick_lists k)\<lparr>uxTopReadyPriority := p, kl := s, xNextTaskUnblockTime := n\<rparr>)" "where_is s = woken (xTickCount k + 1) (tick_lists k)"
    using tick_wakes [OF ok(1,2) run] by blast
  define k' where "k' = (tick_lists k)\<lparr>uxTopReadyPriority := p, kl := s, xNextTaskUnblockTime := n\<rparr>"
  have kl: "kl (tick_lists k) = kl k" "tcb (tick_lists k) = tcb k" by (simp_all add: tick_lists_def)
  have D: "pxDelayedTaskList (tick_lists k) \<in> {xDelayedTaskList1, xDelayedTaskList2}" using ok(1) by (auto simp: core_in_def tick_lists_def)
  have "links k'"
  proof (rule links_ready [OF ok(3)])
    fix t
    show "container k' (StateItem t) = container k (StateItem t) \<and> container k' (EventItem t) = container k (EventItem t)
      \<or> container k' (StateItem t) \<in> Some ` range Ready \<and> container k' (EventItem t) = None
        \<and> container k (StateItem t) \<notin> {None, Some xTasksWaitingTermination}"
      using D by (cases "due (xTickCount k + 1) (tick_lists k) t") (auto simp: k'_def r(4) kl due_def)
    have none: "container k (EventItem t) \<noteq> Some xPendingReadyList" for t using ok(3) run by (auto simp: links_def)
    then show "uxSchedulerSuspended k' \<noteq> 0 \<or> (\<forall>t. container k' (EventItem t) \<noteq> Some xPendingReadyList)"
      by (simp add: k'_def r(4) kl)
    show "ucNotifyState (tcb k' u) = taskWAITING_NOTIFICATION \<Longrightarrow> ucNotifyState (tcb k u) = taskWAITING_NOTIFICATION" for u
      by (simp add: k'_def kl)
  qed (simp_all add: k'_def tick_lists_def)
  then show ?thesis using r run by (auto simp: k'_def tick_lists_def)
qed

section \<open>Resuming the scheduler\<close>

text \<open>Where the items are once the pending tasks are made ready.\<close>

fun resumed :: "kernel \<Rightarrow> item \<Rightarrow> list_id option" where
  "resumed k (StateItem t) = (if container k (EventItem t) = Some xPendingReadyList then Some (Ready (prio k t)) else container k (StateItem t))"
| "resumed k (EventItem t) = (if container k (EventItem t) = Some xPendingReadyList then None else container k (EventItem t))"

lemma pending_events:
  assumes "core_in P k" and "x \<in> set (the_items k xPendingReadyList)"
  shows "x = EventItem (owner x)" and "container k x = Some xPendingReadyList"
proof -
  show c: "container k x = Some xPendingReadyList" using assms by (simp add: set_items)
  show "x = EventItem (owner x)"
  proof (cases x)
    case (StateItem t)
    then have "holds_states xPendingReadyList" using assms(1) c unfolding core_in_def by blast
    then show ?thesis by simp
  qed simp
qed

lemma pending_loop_resumes:
  assumes "core_in P k" and "\<forall>t. container k (EventItem t) = Some xPendingReadyList \<longrightarrow> container k (StateItem t) \<noteq> None"
  shows "\<exists>s p y some'. pending_loop some k = Some (k\<lparr>uxTopReadyPriority := p, kl := s, xYieldPending := y\<rparr>, some')
    \<and> core_in P (k\<lparr>uxTopReadyPriority := p, kl := s, xYieldPending := y\<rparr>) \<and> where_is s = resumed k \<and> value_of s = value_of (kl k)"
  using assms
proof (induction "card (set (the_items k xPendingReadyList))" arbitrary: k some rule: less_induct)
  case less
  show ?case
  proof (cases "the_items k xPendingReadyList")
    case Nil
    then have "container k (EventItem t) \<noteq> Some xPendingReadyList" for t using set_items [OF less.prems(1), of "EventItem t" xPendingReadyList] by simp
    then have "resumed k x = where_is (kl k) x" for x by (cases x) simp_all
    then have "resumed k = where_is (kl k)" by auto
    then show ?thesis using Nil less.prems(1)
      by (intro exI [of _ "kl k"] exI [of _ "uxTopReadyPriority k"] exI [of _ "xYieldPending k"] exI [of _ some]) (simp add: pending_loop.simps)
  next
    case (Cons y ys)
    have y: "y = EventItem (owner y)" "container k y = Some xPendingReadyList" using pending_events [OF less.prems(1), of y] Cons by auto
    define t where "t = owner y"
    have ct: "container k (EventItem t) = Some xPendingReadyList" "y = EventItem t" using y by (simp_all add: t_def)
    then obtain L where L: "container k (StateItem t) = Some L" using less.prems(2) by blast
    obtain s1 where s1: "list_do (Remove (EventItem t)) k = Some (k\<lparr>kl := s1\<rparr>)" "core_in P (k\<lparr>kl := s1\<rparr>)"
      "where_is s1 = (where_is (kl k))(EventItem t := None)" "value_of s1 = value_of (kl k)" using core_remove [OF less.prems(1) ct(1)] by blast
    have "container (k\<lparr>kl := s1\<rparr>) (StateItem t) = Some L" using L s1(3) by simp
    then obtain s2 p2 where s2: "do { k1 \<leftarrow> list_do (Remove (StateItem t)) (k\<lparr>kl := s1\<rparr>); prvAddTaskToReadyList t k1 }
        = Some (k\<lparr>uxTopReadyPriority := p2, kl := s2\<rparr>)" "core_in P (k\<lparr>uxTopReadyPriority := p2, kl := s2\<rparr>)"
      "where_is s2 = (where_is s1)(StateItem t := Some (Ready (prio k t)))" "value_of s2 = value_of s1"
      using core_to_ready [OF s1(2)] by fastforce
    define y2 where "y2 = (if prio k t \<ge> prio k (pxCurrentTCB k) then True else xYieldPending k)"
    define k3 where "k3 = k\<lparr>uxTopReadyPriority := p2, kl := s2, xYieldPending := y2\<rparr>"
    have c3: "core_in P k3" using s2(2) by (simp add: core_in_def k3_def)
    have w3: "where_is (kl k3) = (where_is (kl k))(EventItem t := None, StateItem t := Some (Ready (prio k t)))" by (simp add: k3_def s1(3) s2(3))
    have "z \<in> set (the_items k3 xPendingReadyList) \<longleftrightarrow> z \<in> set (the_items k xPendingReadyList) - {EventItem t}" for z
    proof -
      have "container k (StateItem t) \<noteq> Some xPendingReadyList" using less.prems(1) unfolding core_in_def by (metis holds_states.simps(1))
      then show ?thesis using set_items [OF c3, of z xPendingReadyList] set_items [OF less.prems(1), of z xPendingReadyList] by (auto simp: w3)
    qed
    then have "set (the_items k3 xPendingReadyList) = set (the_items k xPendingReadyList) - {EventItem t}" by blast
    then have "card (set (the_items k3 xPendingReadyList)) < card (set (the_items k xPendingReadyList))"
      using card_Diff1_less [of "set (the_items k xPendingReadyList)" "EventItem t"] Cons ct(2) by simp
    note IH = less.hyps [OF this c3, of True]
    have fr: "tcb k3 = tcb k" by (simp add: k3_def)
    have "resumed k3 x = resumed k x" for x by (cases x) (use ct(1) in \<open>auto simp: w3 fr\<close>)
    then have rs: "resumed k3 = resumed k" by auto
    have "pending_loop some k = pending_loop True k3"
      using s1(1) s2(1) Cons ct(2) by (subst pending_loop.simps) (auto simp: k3_def y2_def split: Option.bind_splits)
    moreover have "\<forall>t. container k3 (EventItem t) = Some xPendingReadyList \<longrightarrow> container k3 (StateItem t) \<noteq> None" using less.prems(2) by (auto simp: w3)
    ultimately show ?thesis using IH s1(4) s2(4) rs by (auto simp: k3_def)
  qed
qed

lemma replay_ok:
  "core k \<Longrightarrow> alarm k \<Longrightarrow> links k \<Longrightarrow> uxSchedulerSuspended k = 0 \<Longrightarrow>
    \<exists>k'. replay_ticks n k = Some k' \<and> core k' \<and> alarm k' \<and> links k' \<and> uxSchedulerSuspended k' = 0 \<and> pxCurrentTCB k' = pxCurrentTCB k \<and> xSchedulerRunning k' = xSchedulerRunning k"
proof (induction n arbitrary: k)
  case (Suc n)
  obtain k1 sw where k1: "xTaskIncrementTick k = Some (k1, sw)" "core k1" "alarm k1" "links k1" "uxSchedulerSuspended k1 = 0"
    "pxCurrentTCB k1 = pxCurrentTCB k" "xSchedulerRunning k1 = xSchedulerRunning k" using tick_ok [OF Suc.prems] by blast
  then show ?case using Suc.IH [of "if sw then k1\<lparr>xYieldPending := True\<rparr> else k1"] by (cases sw) simp_all
qed simp

lemma card_u32: "0 \<notin> (A :: u32 set) \<Longrightarrow> card A < 2 ^ 32"
proof -
  assume "0 \<notin> A"
  then have "card A \<le> card (UNIV - {0 :: u32})" by (intro card_mono) auto
  also have "\<dots> < card (UNIV :: u32 set)" by (rule card_Diff1_less) simp_all
  also have "\<dots> = 2 ^ 32" by (simp add: card_word)
  finally show ?thesis .
qed

lemma tasks_counted:
  assumes "links k" and "tasks k \<noteq> {}"
  shows "0 < uxCurrentNumberOfTasks k"
proof -
  have "0 < card (tasks k)" "card (tasks k) < 2 ^ 32" using assms card_u32 [of "tasks k"] by (simp_all add: links_def card_gt_0_iff)
  then have "unat (of_nat (card (tasks k)) :: u32) = card (tasks k)" by (simp add: unsigned_of_nat take_bit_nat_eq_self)
  moreover have "uxCurrentNumberOfTasks k = of_nat (card (tasks k))" using assms(1) by (simp add: links_def)
  ultimately have "unat (uxCurrentNumberOfTasks k) \<noteq> 0" using \<open>0 < card (tasks k)\<close> by (metis less_irrefl)
  then show ?thesis by (metis unat_0 word_neq_0_conv)
qed

lemma idle_counted: "links k \<Longrightarrow> xSchedulerRunning k \<Longrightarrow> tasks k \<noteq> {}"
  by (auto simp: links_def tasks_def)

lemma resume_ok:
  assumes ok: "kernel_ok k" and run: "xSchedulerRunning k" and susp: "uxSchedulerSuspended k \<noteq> 0"
  shows "\<exists>k' b. xTaskResumeAll k = Some (k', b) \<and> kernel_ok k' \<and> xSchedulerRunning k'"
proof -
  define k1 where "k1 = k\<lparr>uxSchedulerSuspended := uxSchedulerSuspended k - 1\<rparr>"
  have o: "core k" "alarm k" "links k" using ok by (simp_all add: kernel_ok_def)
  have pend: "\<forall>t. container k (EventItem t) = Some xPendingReadyList \<longrightarrow> t \<in> tasks k \<and> t \<notin> deleted k" using o(3) by (simp add: links_def)
  show ?thesis
  proof (cases "uxSchedulerSuspended k1 = 0")
    case False
    then have "links k1" using o(3) susp by (simp add: links_def k1_def tasks_def deleted_def)
    then have "kernel_ok k1" using o False by (simp add: kernel_ok_def k1_def)
    then show ?thesis using False run unfolding xTaskResumeAll_def Let_def k1_def [symmetric] by (auto simp: k1_def)
  next
    case True
    have "\<forall>t. container k1 (EventItem t) = Some xPendingReadyList \<longrightarrow> container k1 (StateItem t) \<noteq> None"
      using pend by (simp add: k1_def tasks_def)
    moreover have "core_in ((<) (xTickCount k)) k1" using o(1) by (simp add: k1_def)
    ultimately obtain s p y some where r: "pending_loop False k1 = Some (k1\<lparr>uxTopReadyPriority := p, kl := s, xYieldPending := y\<rparr>, some)"
      "core_in ((<) (xTickCount k)) (k1\<lparr>uxTopReadyPriority := p, kl := s, xYieldPending := y\<rparr>)" "where_is s = resumed k1" "value_of s = value_of (kl k1)"
      using pending_loop_resumes [of "(<) (xTickCount k)" k1 False] by blast
    define k2 where "k2 = k1\<lparr>uxTopReadyPriority := p, kl := s, xYieldPending := y\<rparr>"
    have w: "where_is (kl k2) = resumed k1" "kl k1 = kl k" "tcb k1 = tcb k" by (simp_all add: k2_def r(3) k1_def)
    have "links k2"
    proof (rule links_ready [OF o(3)])
      show "container k2 (StateItem t) = container k (StateItem t) \<and> container k2 (EventItem t) = container k (EventItem t)
        \<or> container k2 (StateItem t) \<in> Some ` range Ready \<and> container k2 (EventItem t) = None
          \<and> container k (StateItem t) \<notin> {None, Some xTasksWaitingTermination}" for t
        using pend by (auto simp: w tasks_def deleted_def)
    qed (simp_all add: w, simp_all add: k2_def k1_def)
    moreover have "alarm k2"
    proof (rule alarm_less [OF o(2)])
      have D: "pxDelayedTaskList k2 \<noteq> Ready q" "pxDelayedTaskList k2 = pxDelayedTaskList k" for q using o(1) by (auto simp: core_in_def k2_def k1_def)
      show "container k x = Some (pxDelayedTaskList k) \<and> item_value k2 x = item_value k x" if "container k2 x = Some (pxDelayedTaskList k2)" for x
        using that D(1) D(1) [symmetric] unfolding D(2) by (cases x) (auto simp: w split: if_splits, simp_all add: k2_def r(4) w(2))
    qed (simp add: k2_def k1_def)
    moreover define k3 where "k3 = (if some then prvResetNextTaskUnblockTime k2 else k2)"
    ultimately have k3: "core k3" "alarm k3" "links k3" "uxSchedulerSuspended k3 = 0"
      using r(2) alarm_reset [of _ k2] True by (auto simp: k3_def k2_def k1_def)
    obtain k4 where k4: "replay_ticks (unat (uxPendedTicks k3)) k3 = Some k4" "core k4" "alarm k4" "links k4" "uxSchedulerSuspended k4 = 0"
      "xSchedulerRunning k4 = xSchedulerRunning k3" using replay_ok [OF k3] by blast
    have run4: "xSchedulerRunning k4" using run k4(6) by (simp add: k3_def k2_def k1_def)
    have "0 < uxCurrentNumberOfTasks k1" using tasks_counted [OF o(3) idle_counted [OF o(3) run]] by (simp add: k1_def)
    then have "xTaskResumeAll k = Some (if xYieldPending k4 then (portYIELD (k4\<lparr>uxPendedTicks := 0\<rparr>), True) else (k4\<lparr>uxPendedTicks := 0\<rparr>, False))"
      using True r(1) k4(1) unfolding xTaskResumeAll_def Let_def k1_def [symmetric] by (simp add: k2_def [symmetric] k3_def [symmetric])
    moreover have "kernel_ok (k4\<lparr>uxPendedTicks := 0\<rparr>)" using k4 by (simp add: kernel_ok_def)
    ultimately show ?thesis using run4 by (cases "xYieldPending k4") (auto simp: portYIELD_def)
  qed
qed

section \<open>Going to sleep\<close>

lemma add_delayed:
  fixes forever :: bool
  assumes ok: "core k" "alarm k" and L0: "container k (StateItem (pxCurrentTCB k)) = Some L0" and n: "ticks \<noteq> 0"
  defines "L \<equiv> if ticks = portMAX_TICK \<and> forever then xSuspendedTaskList
    else if xTickCount k + ticks < xTickCount k then pxOverflowDelayedTaskList k else pxDelayedTaskList k"
  shows "\<exists>s m. prvAddCurrentTaskToDelayedList ticks forever k = Some (k\<lparr>kl := s, xNextTaskUnblockTime := m\<rparr>)
    \<and> core (k\<lparr>kl := s, xNextTaskUnblockTime := m\<rparr>) \<and> alarm (k\<lparr>kl := s, xNextTaskUnblockTime := m\<rparr>)
    \<and> where_is s = (where_is (kl k))(StateItem (pxCurrentTCB k) := Some L)
    \<and> value_of s = (if ticks = portMAX_TICK \<and> forever then value_of (kl k) else (value_of (kl k))(StateItem (pxCurrentTCB k) := xTickCount k + ticks))"
proof -
  define t where "t = StateItem (pxCurrentTCB k)"
  obtain s1 where s1: "list_do (Remove t) k = Some (k\<lparr>kl := s1\<rparr>)" "core (k\<lparr>kl := s1\<rparr>)"
    "where_is s1 = (where_is (kl k))(t := None)" "value_of s1 = value_of (kl k)" using core_remove [OF ok(1) L0] by (auto simp: t_def)
  have pr: "prio k (pxCurrentTCB k) < configMAX_PRIORITIES" "uxBasePriority (tcb k (pxCurrentTCB k)) < configMAX_PRIORITIES"
    using ok(1) L0 by (auto simp: core_in_def)
  show ?thesis
  proof (cases "ticks = portMAX_TICK \<and> forever")
    case True
    obtain s where s: "list_do (InsertEnd xSuspendedTaskList t) (k\<lparr>kl := s1\<rparr>) = Some (k\<lparr>kl := s\<rparr>)" "core (k\<lparr>kl := s\<rparr>)"
      "where_is s = (where_is s1)(t := Some xSuspendedTaskList)" "value_of s = value_of s1"
      using core_insert_end [OF s1(2), of t xSuspendedTaskList] pr s1(3) by (auto simp: t_def)
    have "xSuspendedTaskList \<noteq> pxDelayedTaskList k" using ok(1) by (auto simp: core_in_def)
    then have "alarm (k\<lparr>kl := s, xNextTaskUnblockTime := xNextTaskUnblockTime k\<rparr>)"
      using s s1 by (intro alarm_less [OF ok(2)]) (auto split: if_splits)
    then show ?thesis using True s s1 
      by (intro exI [of _ s] exI [of _ "xNextTaskUnblockTime k"]) (simp add: prvAddCurrentTaskToDelayedList_def t_def L_def)
  next
    case False
    define v where "v = xTickCount k + ticks"
    have Lv: "L = (if v \<le> xTickCount k then pxOverflowDelayedTaskList k else pxDelayedTaskList k)"
      using False n by (auto simp: L_def v_def order.strict_iff_order)
    have ct: "container (k\<lparr>kl := s1\<rparr>) t = None" by (simp add: s1(3))
    obtain s where s: "list_do (SetValue t v) (k\<lparr>kl := s1\<rparr>) = Some (k\<lparr>kl := s1\<lparr>value_of := (value_of s1)(t := v)\<rparr>\<rparr>)"
      "list_do (Insert L t) (k\<lparr>kl := s1\<lparr>value_of := (value_of s1)(t := v)\<rparr>\<rparr>) = Some (k\<lparr>kl := s\<rparr>)"
      "core (k\<lparr>kl := s\<rparr>)" "where_is s = (where_is s1)(t := Some L)" "value_of s = (value_of s1)(t := v)"
    proof -
      define k1 where "k1 = k\<lparr>kl := s1\<rparr>"
      have "core k1" "container k1 t = None" "tcb k1 = tcb k" using s1(2) ct by (simp_all add: k1_def)
      moreover have "L = (if v \<le> xTickCount k1 then pxOverflowDelayedTaskList k1 else pxDelayedTaskList k1)" by (simp add: Lv k1_def)
      ultimately show thesis using that core_insert_delayed [of k1 "pxCurrentTCB k" L v] pr unfolding t_def [symmetric] by (auto simp: k1_def)
    qed
    define m where "m = (if L = pxDelayedTaskList k \<and> v < xNextTaskUnblockTime k then v else xNextTaskUnblockTime k)"
    have DO: "pxOverflowDelayedTaskList k \<noteq> pxDelayedTaskList k" using ok(1) by (auto simp: core_in_def)
    have "prvAddCurrentTaskToDelayedList ticks forever k = Some (k\<lparr>kl := s, xNextTaskUnblockTime := m\<rparr>)"
    proof (cases "v < xTickCount k")
      case True
      then have "L = pxOverflowDelayedTaskList k" "m = xNextTaskUnblockTime k" using False DO by (auto simp: L_def v_def [symmetric] m_def)
      then show ?thesis using True False s(1,2) s1(1)
        unfolding prvAddCurrentTaskToDelayedList_def Let_def t_def [symmetric] v_def [symmetric] by auto
    next
      case nov: False
      then have "L = pxDelayedTaskList k" using False by (auto simp: L_def v_def [symmetric])
      then show ?thesis using nov False s(1,2) s1(1)
        unfolding prvAddCurrentTaskToDelayedList_def Let_def t_def [symmetric] v_def [symmetric] by (auto simp: m_def)
    qed
    moreover have "alarm (k\<lparr>kl := s, xNextTaskUnblockTime := m\<rparr>)"
    proof -
      have "m \<le> xNextTaskUnblockTime k" "L = pxDelayedTaskList k \<Longrightarrow> m \<le> v" by (auto simp: m_def)
      then show ?thesis using ok(2) by (auto simp: alarm_def s(4,5) s1(3,4) split: if_splits intro: order_trans)
    qed
    ultimately show ?thesis using s(3,4,5) s1(3,4) False
      by (intro exI [of _ s] exI [of _ m]) (auto simp: t_def [symmetric] v_def)
  qed
qed

end
