(* ===== verification/Kernel_Calls.thy ===== *)
theory Kernel_Calls
  imports Kernel_Invariant
begin

text \<open>
  Every call of the scheduler, from tasks and from interrupts, as a step on its state, with what its callers must keep to; the states that such steps
  reach from a kernel without tasks satisfy the invariant, and no call fails in them.
\<close>

section \<open>Calls\<close>

datatype call = Create "u32 option" u32 | Start "u32 option" "u32 option" | Tick | SoftInterrupt | SuspendAll | ResumeAll | StepTick u32
  | Delay u32 | DelayUntil u32 u32 | Suspend u32 | Resume u32 | ResumeFromISR u32 | Delete u32 | CleanUp
  | PrioritySet u32 u32 | Inherit u32 | Disinherit u32 | DisinheritTimeout u32 u32 | HoldMutex | ResetEventValue
  | WaitEvent u32 u32 | WaitUnordered u32 u32 u32 | WaitRestricted u32 u32 bool | WakeEvent u32 | WakeUnordered u32 u32
  | Notify u32 u32 eNotifyAction | NotifyFromISR u32 u32 eNotifyAction bool | GiveFromISR u32 bool
  | WaitEnter u32 u32 | WaitLeave u32 | TakeEnter u32 | TakeLeave bool | StateClear u32

fun kernel_call :: "call \<Rightarrow> kernel \<Rightarrow> kernel option" where
  "kernel_call (Create t p) k = map_option fst (xTaskCreate t p k)"
| "kernel_call (Start i t) k = vTaskStartScheduler i t k"
| "kernel_call Tick k = xPortSysTickHandle k"
| "kernel_call SoftInterrupt k = SoftIsrHdl k"
| "kernel_call SuspendAll k = Some (vTaskSuspendAll k)"
| "kernel_call ResumeAll k = map_option fst (xTaskResumeAll k)"
| "kernel_call (StepTick n) k = Some (vTaskStepTick n k)"
| "kernel_call (Delay n) k = vTaskDelay n k"
| "kernel_call (DelayUntil p n) k = map_option fst (vTaskDelayUntil p n k)"
| "kernel_call (Suspend h) k = vTaskSuspend h k"
| "kernel_call (Resume t) k = vTaskResume t k"
| "kernel_call (ResumeFromISR t) k = map_option fst (xTaskResumeFromISR t k)"
| "kernel_call (Delete h) k = vTaskDelete h k"
| "kernel_call CleanUp k = clean_up_one k"
| "kernel_call (PrioritySet h p) k = vTaskPrioritySet h p k"
| "kernel_call (Inherit t) k = map_option fst (xTaskPriorityInherit t k)"
| "kernel_call (Disinherit t) k = map_option fst (xTaskPriorityDisinherit t k)"
| "kernel_call (DisinheritTimeout t p) k = vTaskPriorityDisinheritAfterTimeout t p k"
| "kernel_call HoldMutex k = Some (fst (pvTaskIncrementMutexHeldCount k))"
| "kernel_call ResetEventValue k = map_option fst (uxTaskResetEventItemValue k)"
| "kernel_call (WaitEvent e n) k = vTaskPlaceOnEventList e n k"
| "kernel_call (WaitUnordered e v n) k = vTaskPlaceOnUnorderedEventList e v n k"
| "kernel_call (WaitRestricted e n f) k = vTaskPlaceOnEventListRestricted e n f k"
| "kernel_call (WakeEvent e) k = map_option fst (xTaskRemoveFromEventList e k)"
| "kernel_call (WakeUnordered t v) k = vTaskRemoveFromUnorderedEventList t v k"
| "kernel_call (Notify t v a) k = map_option fst (xTaskGenericNotify t v a k)"
| "kernel_call (NotifyFromISR t v a f) k = map_option fst (xTaskGenericNotifyFromISR t v a f k)"
| "kernel_call (GiveFromISR t f) k = map_option fst (vTaskNotifyGiveFromISR t f k)"
| "kernel_call (WaitEnter b n) k = notify_wait_enter b n k"
| "kernel_call (WaitLeave b) k = Some (fst (notify_wait_leave b k))"
| "kernel_call (TakeEnter n) k = notify_take_enter n k"
| "kernel_call (TakeLeave b) k = Some (fst (notify_take_leave b k))"
| "kernel_call (StateClear h) k = Some (fst (xTaskNotifyStateClear h k))"

definition live :: "kernel \<Rightarrow> u32 \<Rightarrow> bool" where "live k t \<longleftrightarrow> t \<in> tasks k \<and> t \<notin> deleted k"

text \<open>The running task is ready and waits for nothing; it may block unless it is the idle task.\<close>

definition runs :: "kernel \<Rightarrow> bool" where
  "runs k \<longleftrightarrow> container k (StateItem (pxCurrentTCB k)) \<in> Some ` range Ready \<and> container k (EventItem (pxCurrentTCB k)) = None"

definition may_block :: "kernel \<Rightarrow> bool" where
  "may_block k \<longleftrightarrow> runs k \<and> pxCurrentTCB k \<noteq> xIdleTaskHandle k \<and> ucNotifyState (tcb k (pxCurrentTCB k)) \<noteq> taskWAITING_NOTIFICATION"

text \<open>What the callers keep to: handles are of tasks that exist, new blocks are fresh memory, only running tasks block and never the idle
  task, for at least a tick, scheduler suspensions are matched and not nested beyond 32 bits, and \<open>xTaskResumeFromISR\<close> is not called on a task that
  waits for a notification while the scheduler is suspended.\<close>

fun allowed :: "call \<Rightarrow> kernel \<Rightarrow> bool" where
  "allowed (Create t p) k = (\<forall>a. t = Some a \<longrightarrow> a \<noteq> 0 \<and> a \<notin> tasks k)"
| "allowed (Start i t) k = (\<not> xSchedulerRunning k \<and> uxSchedulerSuspended k = 0 \<and> (\<forall>a. i = Some a \<longrightarrow> a \<noteq> 0 \<and> a \<notin> tasks k \<and> t \<noteq> i) \<and> (\<forall>a. t = Some a \<longrightarrow> a \<noteq> 0 \<and> a \<notin> tasks k))"
| "allowed SuspendAll k = (xSchedulerRunning k \<and> uxSchedulerSuspended k \<noteq> portMAX_TICK)"
| "allowed ResumeAll k = (xSchedulerRunning k \<and> uxSchedulerSuspended k \<noteq> 0)"
| "allowed (StepTick n) k = (xSchedulerRunning k \<and> unat (xTickCount k) + unat n < unat (xNextTaskUnblockTime k))"
| "allowed (Delay n) k = (xSchedulerRunning k \<and> may_block k \<and> uxSchedulerSuspended k \<noteq> portMAX_TICK)"
| "allowed (DelayUntil p n) k = (xSchedulerRunning k \<and> may_block k \<and> uxSchedulerSuspended k \<noteq> portMAX_TICK)"
| "allowed (Suspend h) k = (xSchedulerRunning k \<and> live k (prvGetTCBFromHandle h k) \<and> prvGetTCBFromHandle h k \<noteq> xIdleTaskHandle k)"
| "allowed (ResumeFromISR t) k = (xSchedulerRunning k \<and> (uxSchedulerSuspended k = 0 \<or> ucNotifyState (tcb k t) \<noteq> taskWAITING_NOTIFICATION))"
| "allowed (Delete h) k = (xSchedulerRunning k \<and> live k (prvGetTCBFromHandle h k) \<and> prvGetTCBFromHandle h k \<noteq> xIdleTaskHandle k)"
| "allowed CleanUp k = (xSchedulerRunning k \<and> pxCurrentTCB k = xIdleTaskHandle k)"
| "allowed (PrioritySet h p) k = (xSchedulerRunning k \<and> prvGetTCBFromHandle h k \<in> tasks k)"
| "allowed (Inherit t) k = (xSchedulerRunning k \<and> (t = 0 \<or> t \<in> tasks k))"
| "allowed (Disinherit t) k = (xSchedulerRunning k \<and> (t = 0 \<or> container k (StateItem t) \<in> Some ` range Ready))"
| "allowed (DisinheritTimeout t p) k = (xSchedulerRunning k \<and> (t = 0 \<or> t \<in> tasks k) \<and> p < configMAX_PRIORITIES)"
| "allowed (WaitEvent e n) k = (xSchedulerRunning k \<and> may_block k \<and> n \<noteq> 0)"
| "allowed (WaitUnordered e v n) k = (xSchedulerRunning k \<and> may_block k \<and> n \<noteq> 0)"
| "allowed (WaitRestricted e n f) k = (xSchedulerRunning k \<and> may_block k \<and> n \<noteq> 0)"
| "allowed (WakeEvent e) k = (xSchedulerRunning k \<and> the_items k (EventList e) \<noteq> [])"
| "allowed (WakeUnordered t v) k = (xSchedulerRunning k \<and> container k (EventItem t) \<in> Some ` range EventList)"
| "allowed (Notify t v a) k = (xSchedulerRunning k \<and> live k t)"
| "allowed (NotifyFromISR t v a f) k = (xSchedulerRunning k \<and> live k t)"
| "allowed (GiveFromISR t f) k = (xSchedulerRunning k \<and> live k t)"
| "allowed (WaitEnter b n) k = (xSchedulerRunning k \<and> runs k \<and> pxCurrentTCB k \<noteq> xIdleTaskHandle k)"
| "allowed (TakeEnter n) k = (xSchedulerRunning k \<and> runs k \<and> pxCurrentTCB k \<noteq> xIdleTaskHandle k)"
| "allowed c k = xSchedulerRunning k"

text \<open>Before any task is created.\<close>

definition kernel_reset :: "kernel \<Rightarrow> bool" where
  "kernel_reset k \<longleftrightarrow> (\<forall>L. lists_of (kl k) L = kl_empty) \<and> (\<forall>x. container k x = None) \<and> pxCurrentTCB k = 0 \<and> uxDeletedTasksWaitingCleanUp k = 0
    \<and> uxCurrentNumberOfTasks k = 0 \<and> xTickCount k = 0 \<and> uxTopReadyPriority k = 0 \<and> \<not> xSchedulerRunning k \<and> uxPendedTicks k = 0
    \<and> \<not> xYieldPending k \<and> xNumOfOverflows k = 0 \<and> xNextTaskUnblockTime k = 0 \<and> uxSchedulerSuspended k = 0 \<and> \<not> SWReq k
    \<and> pxDelayedTaskList k = xDelayedTaskList1 \<and> pxOverflowDelayedTaskList k = xDelayedTaskList2"

inductive reachable :: "kernel \<Rightarrow> bool" where
  start: "kernel_reset k \<Longrightarrow> reachable k"
| step: "reachable k \<Longrightarrow> allowed c k \<Longrightarrow> kernel_call c k = Some k' \<Longrightarrow> reachable k'"

definition kernel_inv :: "kernel \<Rightarrow> bool" where
  "kernel_inv k \<longleftrightarrow> kernel_ok k \<and> (xSchedulerRunning k \<or> (\<forall>x L. container k x = Some L \<longrightarrow> L \<in> range Ready))"

section \<open>Each call keeps the invariant\<close>

definition keeps :: "call \<Rightarrow> kernel \<Rightarrow> bool" where
  "keeps c k \<longleftrightarrow> (\<exists>k'. kernel_call c k = Some k' \<and> kernel_ok k' \<and> xSchedulerRunning k')"

lemma live_container: "live k t \<Longrightarrow> \<exists>L. container k (StateItem t) = Some L \<and> L \<noteq> xTasksWaitingTermination"
  by (auto simp: live_def tasks_def deleted_def)

lemma state_item:
  assumes "core_in P k" and "container k x = Some L" and "holds_states L"
  shows "\<exists>t. x = StateItem t"
proof (cases x)
  case (EventItem t)
  then show ?thesis using assms unfolding core_in_def by metis
qed simp

lemma highest_ready_found:
  "the_items k (Ready (of_nat m)) \<noteq> [] \<Longrightarrow> m \<le> n \<Longrightarrow> \<exists>q \<le> n. highest_ready n k = Some (of_nat q) \<and> the_items k (Ready (of_nat q)) \<noteq> []
    \<and> (\<forall>j. q < j \<and> j \<le> n \<longrightarrow> the_items k (Ready (of_nat j)) = [])"
proof (induction n)
  case 0
  then show ?case by simp
next
  case (Suc n)
  show ?case
  proof (cases "the_items k (Ready (of_nat (Suc n))) = []")
    case True
    then have "m \<le> n" using Suc.prems by (cases "m = Suc n") auto
    then obtain q where "q \<le> n" "highest_ready n k = Some (of_nat q)" "the_items k (Ready (of_nat q)) \<noteq> []"
      "\<forall>j. q < j \<and> j \<le> n \<longrightarrow> the_items k (Ready (of_nat j)) = []" using Suc by blast
    then show ?thesis using True by (intro exI [of _ q]) (auto simp: le_Suc_eq)
  next
    case False
    then show ?thesis by (intro exI [of _ "Suc n"]) auto
  qed
qed

text \<open>The switch picks the next of the ready tasks of the highest priority.\<close>

lemma switch_picks:
  assumes ok: "core k" and run: "uxSchedulerSuspended k = 0" and some: "container k (StateItem u) = Some (Ready q)"
  shows "\<exists>s p t. vTaskSwitchContext k = Some (k\<lparr>xYieldPending := False, kl := s, pxCurrentTCB := t, uxTopReadyPriority := p\<rparr>)
    \<and> core (k\<lparr>xYieldPending := False, kl := s, pxCurrentTCB := t, uxTopReadyPriority := p\<rparr>)
    \<and> where_is s = where_is (kl k) \<and> value_of s = value_of (kl k) \<and> lists_of s = (lists_of (kl k))(Ready p := kl_advance (lists_of (kl k) (Ready p)))
    \<and> StateItem t = kl_next (lists_of (kl k) (Ready p)) \<and> container k (StateItem t) = Some (Ready p)
    \<and> (\<forall>v r. container k (StateItem v) = Some (Ready r) \<longrightarrow> r \<le> p)"
proof -
  define k0 where "k0 = k\<lparr>xYieldPending := False\<rparr>"
  define n where "n = unat (uxTopReadyPriority k)"
  have bound: "r \<le> uxTopReadyPriority k" if "container k (StateItem v) = Some (Ready r)" for v r using ok that by (auto simp: core_in_def)
  have iff: "the_items k0 (Ready r) \<noteq> [] \<longleftrightarrow> (\<exists>v. container k (StateItem v) = Some (Ready r))" for r
  proof -
    have "x \<in> set (the_items k (Ready r)) \<Longrightarrow> \<exists>v. x = StateItem v" for x
      using state_item [OF ok, of x "Ready r"] set_items [OF ok, of x "Ready r"] by simp
    then show ?thesis using set_items [OF ok, of _ "Ready r"] unfolding k0_def by (cases "the_items k (Ready r)") (simp_all, metis list.set_intros(1))
  qed
  have "the_items k0 (Ready (of_nat (unat q))) \<noteq> []" using iff some by auto
  moreover have "unat q \<le> n" using bound [OF some] by (simp add: n_def word_le_nat_alt)
  ultimately obtain m where m: "m \<le> n" "highest_ready n k0 = Some (of_nat m)" "the_items k0 (Ready (of_nat m)) \<noteq> []"
    "\<forall>j. m < j \<and> j \<le> n \<longrightarrow> the_items k0 (Ready (of_nat j)) = []" using highest_ready_found by blast
  define p :: u32 where "p = of_nat m"
  define l where "l = lists_of (kl k) (Ready p)"
  define s where "s = lists_call (Next (Ready p)) (kl k0)"
  have ne: "items l \<noteq> []" using m(3) by (simp add: l_def p_def k0_def)
  have s: "where_is s = where_is (kl k)" "value_of s = value_of (kl k)" "lists_of s = (lists_of (kl k))(Ready p := kl_advance l)"
    by (simp_all add: s_def k0_def l_def)
  have "kl_next l \<in> set (items l)" using ne by (rule kl_next_in)
  then have c: "container k (kl_next l) = Some (Ready p)" using set_items [OF ok] by (simp add: l_def)
  then obtain t where t: "kl_next l = StateItem t" using state_item [OF ok] by force
  have highest: "r \<le> p" if v: "container k (StateItem v) = Some (Ready r)" for v r
  proof -
    have "unat r \<le> n" using bound [OF v] by (simp add: n_def word_le_nat_alt)
    moreover have "the_items k0 (Ready (of_nat (unat r))) \<noteq> []" using iff v by auto
    ultimately have "unat r \<le> m" using m(4) by (meson not_le)
    moreover have "unat p = m"
    proof -
      have "unat (uxTopReadyPriority k) < 2 ^ LENGTH(32)" by (rule unsigned_less)
      then have "m < 2 ^ LENGTH(32)" using m(1) by (simp add: n_def)
      then show ?thesis by (simp add: p_def unsigned_of_nat take_bit_nat_eq_self)
    qed
    ultimately show ?thesis by (simp add: word_le_nat_alt)
  qed
  define k' where "k' = k\<lparr>xYieldPending := False, kl := s, pxCurrentTCB := t, uxTopReadyPriority := p\<rparr>"
  have wf: "wf_lists s" unfolding s_def using ok ne by (intro lists_call_wf) (simp_all add: core_in_def k0_def l_def)
  have fits: "fits (kl k0) (Next (Ready p))" using ne by (simp add: k0_def l_def)
  have idx: "index (lists_of s (Ready p)) = Some (StateItem t)" by (simp add: s kl_advance_def t)
  have hr: "highest_ready (unat (uxTopReadyPriority k0)) k0 = Some p" using m(2) by (simp add: p_def n_def k0_def)
  have ld: "list_do (Next (Ready p)) k0 = Some (k0\<lparr>kl := s\<rparr>)" using list_do_Some [OF fits] by (simp add: s_def)
  have "vTaskSwitchContext k = Some k'"
    using run unfolding vTaskSwitchContext_def k0_def [symmetric] taskSELECT_HIGHEST_PRIORITY_TASK_def hr
    by (simp add: ld idx) (simp add: k0_def k'_def)
  moreover have "core k'"
  proof -
    have DO: "pxDelayedTaskList k \<noteq> Ready p" "pxOverflowDelayedTaskList k \<noteq> Ready p" using ok by (auto simp: core_in_def)
    show ?thesis using ok wf DO highest unfolding core_in_def k'_def by (simp add: s)
  qed
  ultimately show ?thesis using s c t highest
    by (intro exI [of _ s] exI [of _ p] exI [of _ t]) (simp add: k'_def l_def)
qed

lemma switch_ok:
  assumes ok: "kernel_ok k" and run: "xSchedulerRunning k"
  shows "\<exists>k'. vTaskSwitchContext k = Some k' \<and> kernel_ok k' \<and> xSchedulerRunning k'"
proof (cases "uxSchedulerSuspended k = 0")
  case False
  then show ?thesis using assms by (auto simp: vTaskSwitchContext_def)
next
  case True
  have o: "core k" "alarm k" "links k" using ok by (simp_all add: kernel_ok_def)
  obtain u q where "container k (StateItem u) = Some (Ready q)" using o(3) run by (auto simp: links_def)
  from switch_picks [OF o(1) True this] obtain s p t where r:
    "vTaskSwitchContext k = Some (k\<lparr>xYieldPending := False, kl := s, pxCurrentTCB := t, uxTopReadyPriority := p\<rparr>)"
    "core (k\<lparr>xYieldPending := False, kl := s, pxCurrentTCB := t, uxTopReadyPriority := p\<rparr>)"
    "where_is s = where_is (kl k)" "value_of s = value_of (kl k)" "container k (StateItem t) = Some (Ready p)" by blast
  define k' where "k' = k\<lparr>xYieldPending := False, kl := s, pxCurrentTCB := t, uxTopReadyPriority := p\<rparr>"
  have "alarm k'" by (rule alarm_less [OF o(2)]) (simp_all add: k'_def r(3,4))
  moreover have "links k'"
  proof (rule links_ready [OF o(3)])
    show "uxSchedulerSuspended k' \<noteq> 0 \<or> (\<forall>t. container k' (EventItem t) \<noteq> Some xPendingReadyList)"
      using o(3) True by (simp add: links_def k'_def r(3))
  qed (simp_all add: k'_def r(3,5) tasks_def)
  ultimately show ?thesis using r(1,2) ok run True by (simp add: kernel_ok_def k'_def)
qed

lemma keeps_tick:
  assumes ok: "kernel_ok k" and run: "xSchedulerRunning k"
  shows "keeps Tick k"
proof (cases "uxSchedulerSuspended k = 0")
  case True
  have o: "core k" "alarm k" "links k" "uxPendedTicks k = 0" using ok True by (simp_all add: kernel_ok_def)
  obtain k1 sw where k1: "xTaskIncrementTick k = Some (k1, sw)" "core k1" "alarm k1" "links k1" "uxPendedTicks k1 = uxPendedTicks k"
    "xSchedulerRunning k1 = xSchedulerRunning k" using tick_ok [OF o(1-3) True] by blast
  then have "kernel_ok k1" "xSchedulerRunning k1" using o run by (simp_all add: kernel_ok_def)
  then show ?thesis using switch_ok [of k1] k1(1) by (cases sw) (auto simp: keeps_def xPortSysTickHandle_def)
next
  case False
  define k1 where "k1 = k\<lparr>uxPendedTicks := uxPendedTicks k + 1\<rparr>"
  have "kernel_ok k1" "xSchedulerRunning k1" using ok False run by (simp_all add: kernel_ok_def k1_def)
  then show ?thesis using switch_ok [of k1] False
    by (cases "xYieldPending k") (auto simp: keeps_def xPortSysTickHandle_def xTaskIncrementTick_def k1_def)
qed

text \<open>What a call changes besides the lists and the control blocks.\<close>

definition frame :: "kernel \<Rightarrow> kernel \<Rightarrow> bool" where
  "frame k k' \<longleftrightarrow> xSchedulerRunning k' = xSchedulerRunning k \<and> xIdleTaskHandle k' = xIdleTaskHandle k \<and> pxCurrentTCB k' = pxCurrentTCB k
    \<and> uxSchedulerSuspended k' = uxSchedulerSuspended k \<and> uxCurrentNumberOfTasks k' = uxCurrentNumberOfTasks k
    \<and> uxDeletedTasksWaitingCleanUp k' = uxDeletedTasksWaitingCleanUp k \<and> uxPendedTicks k' = uxPendedTicks k
    \<and> pxDelayedTaskList k' = pxDelayedTaskList k \<and> pxOverflowDelayedTaskList k' = pxOverflowDelayedTaskList k \<and> xTickCount k' = xTickCount k"

text \<open>A call that has taken the event item of a task out of its list, if it was in one, and
  makes the task ready, puts its event item elsewhere, or puts the running task to sleep.\<close>

lemma make_ready:
  assumes ok: "kernel_ok k" and t: "live k t" and fr: "frame k k1" and c1: "core k1" "alarm k1"
    and w: "where_is (kl k1) = (where_is (kl k))(EventItem t := None)"
    and n: "\<And>u. ucNotifyState (tcb k1 u) = taskWAITING_NOTIFICATION \<Longrightarrow> ucNotifyState (tcb k u) = taskWAITING_NOTIFICATION"
  shows "\<exists>k2. do { k' \<leftarrow> list_do (Remove (StateItem t)) k1; prvAddTaskToReadyList t k' } = Some k2 \<and> kernel_ok k2 \<and> frame k k2
    \<and> where_is (kl k2) = (where_is (kl k))(StateItem t := Some (Ready (prio k1 t)), EventItem t := None) \<and> tcb k2 = tcb k1"
proof -
  obtain L where L: "container k (StateItem t) = Some L" "L \<noteq> xTasksWaitingTermination" using live_container [OF t] by blast
  then have "container k1 (StateItem t) = Some L" by (simp add: w)
  then obtain s p where r: "do { k' \<leftarrow> list_do (Remove (StateItem t)) k1; prvAddTaskToReadyList t k' } = Some (k1\<lparr>uxTopReadyPriority := p, kl := s\<rparr>)"
    "core (k1\<lparr>uxTopReadyPriority := p, kl := s\<rparr>)" "where_is s = (where_is (kl k1))(StateItem t := Some (Ready (prio k1 t)))" "value_of s = value_of (kl k1)"
    using core_to_ready [OF c1(1), of t L] by auto
  define k2 where "k2 = k1\<lparr>uxTopReadyPriority := p, kl := s\<rparr>"
  have w2: "where_is (kl k2) = (where_is (kl k))(StateItem t := Some (Ready (prio k1 t)), EventItem t := None)" by (auto simp: k2_def r(3) w)
  have f2: "frame k k2" using fr by (simp add: frame_def k2_def)
  have D: "pxDelayedTaskList k1 \<noteq> Ready q" for q using c1(1) by (auto simp: core_in_def)
  have "alarm k2" by (rule alarm_less [OF c1(2)]) (use D D [symmetric] in \<open>auto simp: k2_def r(3,4) split: if_splits\<close>)
  moreover have "links k2"
  proof (rule links_ready [where k = k])
    show "links k" using ok by (simp add: kernel_ok_def)
    show "container k2 (StateItem u) = container k (StateItem u) \<and> container k2 (EventItem u) = container k (EventItem u)
      \<or> container k2 (StateItem u) \<in> Some ` range Ready \<and> container k2 (EventItem u) = None
        \<and> container k (StateItem u) \<notin> {None, Some xTasksWaitingTermination}" for u using L by (simp add: w2)
    show "uxSchedulerSuspended k2 \<noteq> 0 \<or> (\<forall>u. container k2 (EventItem u) \<noteq> Some xPendingReadyList)"
      using ok f2 by (auto simp: w2 kernel_ok_def links_def frame_def)
  qed (use f2 n in \<open>simp_all add: frame_def k2_def\<close>)
  ultimately have "kernel_ok k2" using r(2) ok f2 by (simp add: kernel_ok_def k2_def frame_def)
  then show ?thesis using r(1) w2 f2 by (intro exI [of _ k2]) (simp add: k2_def)
qed

lemma make_pending:
  assumes ok: "kernel_ok k" and t: "live k t" and fr: "frame k k1" and c1: "core k1" "alarm k1" and susp: "uxSchedulerSuspended k \<noteq> 0"
    and w: "where_is (kl k1) = (where_is (kl k))(EventItem t := None)"
    and n: "\<And>u. ucNotifyState (tcb k1 u) = taskWAITING_NOTIFICATION \<Longrightarrow> ucNotifyState (tcb k u) = taskWAITING_NOTIFICATION \<and> u \<noteq> t"
  shows "\<exists>k2. list_do (InsertEnd xPendingReadyList (EventItem t)) k1 = Some k2 \<and> kernel_ok k2 \<and> frame k k2"
proof -
  obtain L where L: "container k (StateItem t) = Some L" "L \<noteq> xTasksWaitingTermination" using live_container [OF t] by blast
  obtain s where r: "list_do (InsertEnd xPendingReadyList (EventItem t)) k1 = Some (k1\<lparr>kl := s\<rparr>)" "core (k1\<lparr>kl := s\<rparr>)"
    "where_is s = (where_is (kl k1))(EventItem t := Some xPendingReadyList)" "value_of s = value_of (kl k1)"
    using core_insert_end [OF c1(1), of "EventItem t" xPendingReadyList] by (auto simp: w)
  define k2 where "k2 = k1\<lparr>kl := s\<rparr>"
  have f2: "frame k k2" using fr by (simp add: frame_def k2_def)
  have w2: "where_is (kl k2) = (where_is (kl k))(StateItem t := Some L, EventItem t := Some xPendingReadyList)" using L(1) by (auto simp: k2_def r(3) w)
  have D: "pxDelayedTaskList k1 \<noteq> xPendingReadyList" using c1(1) by (auto simp: core_in_def)
  have "alarm k2" by (rule alarm_less [OF c1(2)]) (use D in \<open>auto simp: k2_def r(3,4) split: if_splits\<close>)
  moreover have "links k2"
  proof (rule links_move [OF _ L(1) L(2) L(2) w2])
    show l: "links k" using ok by (simp add: kernel_ok_def)
    show "L \<in> range Ready" if "xSchedulerRunning k" "t = xIdleTaskHandle k" using l L that by (auto simp: links_def)
  qed (use f2 n susp in \<open>auto simp: frame_def k2_def\<close>)
  ultimately have "kernel_ok k2" using r(2) ok f2 by (simp add: kernel_ok_def k2_def frame_def)
  then show ?thesis using r(1) f2 by (simp add: k2_def)
qed

lemma put_to_sleep:
  fixes forever :: bool
  assumes ok: "kernel_ok k" and cur: "runs k" "pxCurrentTCB k \<noteq> xIdleTaskHandle k" and fr: "frame k k1" and c1: "core k1" "alarm k1" and ticks: "ticks \<noteq> 0"
    and w: "where_is (kl k1) = (where_is (kl k))(EventItem (pxCurrentTCB k) := e)"
    and e: "e = None \<or> e \<in> Some ` range EventList \<and> ucNotifyState (tcb k1 (pxCurrentTCB k)) \<noteq> taskWAITING_NOTIFICATION"
    and n: "\<And>u. u \<noteq> pxCurrentTCB k \<Longrightarrow> ucNotifyState (tcb k1 u) = taskWAITING_NOTIFICATION \<Longrightarrow> ucNotifyState (tcb k u) = taskWAITING_NOTIFICATION"
  shows "\<exists>k2. prvAddCurrentTaskToDelayedList ticks forever k1 = Some k2 \<and> kernel_ok k2 \<and> frame k k2"
proof -
  obtain q where q: "container k (StateItem (pxCurrentTCB k)) = Some (Ready q)" using cur(1) by (auto simp: runs_def)
  have "container k1 (StateItem (pxCurrentTCB k1)) = Some (Ready q)" using q fr by (simp add: w frame_def)
  from add_delayed [OF c1 this ticks, of forever] obtain s m L where r: "prvAddCurrentTaskToDelayedList ticks forever k1 = Some (k1\<lparr>kl := s, xNextTaskUnblockTime := m\<rparr>)"
    "core (k1\<lparr>kl := s, xNextTaskUnblockTime := m\<rparr>)" "alarm (k1\<lparr>kl := s, xNextTaskUnblockTime := m\<rparr>)"
    "where_is s = (where_is (kl k1))(StateItem (pxCurrentTCB k1) := Some L)" "L \<in> {xSuspendedTaskList, pxDelayedTaskList k1, pxOverflowDelayedTaskList k1}"
    by fastforce
  define k2 where "k2 = k1\<lparr>kl := s, xNextTaskUnblockTime := m\<rparr>"
  have f2: "frame k k2" using fr by (simp add: frame_def k2_def)
  have w2: "where_is (kl k2) = (where_is (kl k))(StateItem (pxCurrentTCB k) := Some L, EventItem (pxCurrentTCB k) := e)"
    using fr by (auto simp: k2_def r(4) w frame_def)
  have bl: "blocked_in (Some L)" "L \<noteq> xTasksWaitingTermination" using r(5) c1(1) by (auto simp: blocked_in_def core_in_def)
  have "links k2"
  proof (rule links_move [OF _ q _ bl(2) w2])
    show "links k" using ok by (simp add: kernel_ok_def)
    show "e = None \<or> e = Some xPendingReadyList \<and> uxSchedulerSuspended k \<noteq> 0 \<or> (\<exists>a. e = Some (EventList a)) \<and> blocked_in (Some L)" using e bl(1) by auto
    show "u = pxCurrentTCB k \<and> e = None \<or> ucNotifyState (tcb k u) = taskWAITING_NOTIFICATION \<and> (u = pxCurrentTCB k \<longrightarrow> e = None)"
      if "ucNotifyState (tcb k2 u) = taskWAITING_NOTIFICATION" for u
      by (cases "u = pxCurrentTCB k") (use that n [of u] e in \<open>auto simp: k2_def\<close>)
  qed (use cur(2) f2 in \<open>simp_all add: frame_def\<close>)
  then have "kernel_ok k2" using r(2,3) ok f2 by (simp add: kernel_ok_def k2_def frame_def)
  then show ?thesis using r(1) f2 by (simp add: k2_def)
qed

lemma keeps_suspend:
  assumes ok: "kernel_ok k" and al: "allowed (Suspend h) k"
  shows "keeps (Suspend h) k"
proof -
  define t where "t = prvGetTCBFromHandle h k"
  have a: "xSchedulerRunning k" "live k t" "t \<noteq> xIdleTaskHandle k" using al by (simp_all add: t_def)
  have o: "core k" "alarm k" "links k" using ok by (simp_all add: kernel_ok_def)
  obtain L where L: "container k (StateItem t) = Some L" "L \<noteq> xTasksWaitingTermination" using live_container [OF a(2)] by blast
  obtain s1 where s1: "list_do (Remove (StateItem t)) k = Some (k\<lparr>kl := s1\<rparr>)" "core (k\<lparr>kl := s1\<rparr>)"
    "where_is s1 = (where_is (kl k))(StateItem t := None)" "value_of s1 = value_of (kl k)" using core_remove [OF o(1) L(1)] by auto
  obtain s2 where s2: "leave_event_list t (k\<lparr>kl := s1\<rparr>) = Some (k\<lparr>kl := s2\<rparr>)" "core (k\<lparr>kl := s2\<rparr>)"
    "where_is s2 = (where_is s1)(EventItem t := None)" "value_of s2 = value_of s1" using core_leave [OF s1(2), of t] by auto
  have pr: "prio k t < configMAX_PRIORITIES" "uxBasePriority (tcb k t) < configMAX_PRIORITIES" using o(1) L(1) by (auto simp: core_in_def)
  obtain s3 where s3: "list_do (InsertEnd xSuspendedTaskList (StateItem t)) (k\<lparr>kl := s2\<rparr>) = Some (k\<lparr>kl := s3\<rparr>)" "core (k\<lparr>kl := s3\<rparr>)"
    "where_is s3 = (where_is s2)(StateItem t := Some xSuspendedTaskList)" "value_of s3 = value_of s2"
    using core_insert_end [OF s2(2), of "StateItem t" xSuspendedTaskList] pr s1(3) s2(3) by auto
  define k4 where "k4 = (if ucNotifyState (tcb (k\<lparr>kl := s3\<rparr>) t) = taskWAITING_NOTIFICATION
    then set_tcb t (ucNotifyState_update (\<lambda>_. taskNOT_WAITING_NOTIFICATION)) (k\<lparr>kl := s3\<rparr>) else k\<lparr>kl := s3\<rparr>)"
  have k4: "kl k4 = s3" "core k4" using s3(2) by (simp_all add: k4_def set_tcb_def core_in_def)
  have w: "where_is s3 = (where_is (kl k))(StateItem t := Some xSuspendedTaskList, EventItem t := None)" by (auto simp: s3(3) s2(3) s1(3))
  have "links k4"
    by (rule links_move [OF o(3) L, of xSuspendedTaskList k4 None]) (use a in \<open>auto simp: k4(1) w\<close>, simp_all add: k4_def set_tcb_def split: if_splits)
  then have "kernel_ok (prvResetNextTaskUnblockTime k4)" using k4(2) alarm_reset [OF k4(2)] ok
    by (simp add: kernel_ok_def) (simp add: k4_def set_tcb_def)
  moreover have "kernel_call (Suspend h) k = Some (if t = pxCurrentTCB k then portYIELD (prvResetNextTaskUnblockTime k4) else prvResetNextTaskUnblockTime k4)"
  proof -
    have "xSchedulerRunning k4" "pxCurrentTCB k4 = pxCurrentTCB k" using a(1) by (simp_all add: k4_def set_tcb_def)
    then show ?thesis
      unfolding kernel_call.simps vTaskSuspend_def Let_def t_def [symmetric] s1(1) bind.bind_lunit unfolding s2(1) bind.bind_lunit
      unfolding s3(1) bind.bind_lunit k4_def [symmetric] by simp
  qed
  ultimately show ?thesis using a(1) by (auto simp: keeps_def k4_def set_tcb_def portYIELD_def)
qed

lemma keeps_resume:
  assumes ok: "kernel_ok k" and run: "xSchedulerRunning k"
  shows "keeps (Resume t) k"
proof (cases "t \<noteq> 0 \<and> t \<noteq> pxCurrentTCB k \<and> prvTaskIsTaskSuspended t k")
  case True
  then have t: "container k (StateItem t) = Some xSuspendedTaskList" "container k (EventItem t) = None" by (simp_all add: prvTaskIsTaskSuspended_def)
  have "live k t" using t(1) by (simp add: live_def tasks_def deleted_def)
  then obtain k2 where "do { k' \<leftarrow> list_do (Remove (StateItem t)) k; prvAddTaskToReadyList t k' } = Some k2" "kernel_ok k2" "frame k k2"
    using make_ready [OF ok, of t k] t(2) ok by (auto simp: frame_def kernel_ok_def fun_upd_idem)
  then show ?thesis using True run by (auto simp: keeps_def vTaskResume_def frame_def portYIELD_def split: Option.bind_splits)
next
  case False
  then show ?thesis using assms by (auto simp: keeps_def vTaskResume_def)
qed

lemma keeps_resume_isr:
  assumes ok: "kernel_ok k" and al: "allowed (ResumeFromISR t) k"
  shows "keeps (ResumeFromISR t) k"
proof (cases "prvTaskIsTaskSuspended t k")
  case True
  then have t: "container k (StateItem t) = Some xSuspendedTaskList" "container k (EventItem t) = None" by (simp_all add: prvTaskIsTaskSuspended_def)
  have l: "live k t" using t(1) by (simp add: live_def tasks_def deleted_def)
  have o: "core k" "alarm k" using ok by (simp_all add: kernel_ok_def)
  show ?thesis
  proof (cases "uxSchedulerSuspended k = 0")
    case run: True
    obtain k2 where "do { k' \<leftarrow> list_do (Remove (StateItem t)) k; prvAddTaskToReadyList t k' } = Some k2" "kernel_ok k2" "frame k k2"
      using make_ready [OF ok l, of k] t(2) o by (auto simp: frame_def fun_upd_idem)
    then show ?thesis using True run al by (auto simp: keeps_def xTaskResumeFromISR_def frame_def split: Option.bind_splits)
  next
    case False
    then obtain k2 where "list_do (InsertEnd xPendingReadyList (EventItem t)) k = Some k2" "kernel_ok k2" "frame k k2"
      using make_pending [OF ok l, of k] t(2) o al by (auto simp: frame_def fun_upd_idem)
    then show ?thesis using True False al by (auto simp: keeps_def xTaskResumeFromISR_def frame_def)
  qed
next
  case False
  then show ?thesis using assms by (auto simp: keeps_def xTaskResumeFromISR_def)
qed

lemma kernel_ok_reset:
  assumes "kernel_ok k"
  shows "kernel_ok (prvResetNextTaskUnblockTime k)"
proof -
  have "core k" using assms by (simp add: kernel_ok_def)
  then show ?thesis using assms alarm_reset [of _ k] by (simp add: kernel_ok_def)
qed

text \<open>The event item leaves its list.\<close>

lemma leave_event:
  assumes ok: "kernel_ok k" and e: "container k (EventItem t) = Some L" and fr: "frame k k1" and c: "core k1" "alarm k1" and w: "where_is (kl k1) = where_is (kl k)"
  shows "\<exists>k2. list_do (Remove (EventItem t)) k1 = Some k2 \<and> core k2 \<and> alarm k2 \<and> frame k k2 \<and> where_is (kl k2) = (where_is (kl k))(EventItem t := None)
    \<and> tcb k2 = tcb k1"
proof -
  have "container k1 (EventItem t) = Some L" using e by (simp add: w)
  then obtain s where s: "list_do (Remove (EventItem t)) k1 = Some (k1\<lparr>kl := s\<rparr>)" "core (k1\<lparr>kl := s\<rparr>)" "where_is s = (where_is (kl k1))(EventItem t := None)"
    "value_of s = value_of (kl k1)" using core_remove [OF c(1)] by auto
  have "alarm (k1\<lparr>kl := s\<rparr>)" by (rule alarm_less [OF c(2)]) (auto simp: s(3,4) split: if_splits)
  then show ?thesis using s fr by (intro exI [of _ "k1\<lparr>kl := s\<rparr>"]) (simp add: frame_def w)
qed

lemma keeps_wake_event:
  assumes ok: "kernel_ok k" and al: "allowed (WakeEvent e) k"
  shows "keeps (WakeEvent e) k"
proof -
  have o: "core k" "alarm k" "links k" using ok by (simp_all add: kernel_ok_def)
  obtain x xs where x: "the_items k (EventList e) = x # xs" using al by (auto simp: neq_Nil_conv)
  then have c: "container k x = Some (EventList e)" using set_items [OF o(1), of x "EventList e"] by simp
  define t where "t = owner x"
  have xt: "x = EventItem t"
  proof (cases x)
    case (StateItem u)
    then have "holds_states (EventList e)" using o(1) c unfolding core_in_def by blast
    then show ?thesis by simp
  qed (simp add: t_def)
  have "blocked_in (container k (StateItem t))" using o(3) c by (auto simp: links_def xt)
  then have l: "live k t" by (auto simp: live_def tasks_def deleted_def blocked_in_def)
  have "frame k k" by (simp add: frame_def)
  from leave_event [OF ok c [unfolded xt] this o(1,2)] obtain k1 where k1: "list_do (Remove (EventItem t)) k = Some k1" "core k1" "alarm k1" "frame k k1"
    "where_is (kl k1) = (where_is (kl k))(EventItem t := None)" "tcb k1 = tcb k" by auto
  have "\<exists>k2. (if uxSchedulerSuspended k1 = 0 then do { k' \<leftarrow> list_do (Remove (StateItem t)) k1; prvAddTaskToReadyList t k' }
      else list_do (InsertEnd xPendingReadyList (EventItem t)) k1) = Some k2 \<and> kernel_ok k2 \<and> frame k k2"
  proof (cases "uxSchedulerSuspended k1 = 0")
    case True
    then show ?thesis using make_ready [OF ok l k1(4,2,3,5)] k1(6) by auto
  next
    case False
    have "ucNotifyState (tcb k t) \<noteq> taskWAITING_NOTIFICATION" using o(3) c l by (auto simp: links_def xt live_def)
    then show ?thesis using False make_pending [OF ok l k1(4,2,3) _ k1(5)] k1(4,6) by (auto simp: frame_def)
  qed
  then obtain k2 where k2: "(if uxSchedulerSuspended k1 = 0 then do { k' \<leftarrow> list_do (Remove (StateItem t)) k1; prvAddTaskToReadyList t k' }
      else list_do (InsertEnd xPendingReadyList (EventItem t)) k1) = Some k2" "kernel_ok k2" "frame k k2" by blast
  define k3 where "k3 = (if prio k2 (pxCurrentTCB k2) < prio k2 t then k2\<lparr>xYieldPending := True\<rparr> else k2)"
  have "kernel_ok k3" using k2(2) by (simp add: k3_def)
  moreover have "map_option fst (xTaskRemoveFromEventList e k) = Some (prvResetNextTaskUnblockTime k3)"
    unfolding xTaskRemoveFromEventList_def x list.case Let_def bind.bind_lunit t_def [symmetric] unfolding k1(1) bind.bind_lunit
    unfolding k2(1) bind.bind_lunit k3_def [symmetric] by simp
  ultimately show ?thesis using kernel_ok_reset al k2(3) by (auto simp: keeps_def k3_def frame_def)
qed

lemma keeps_wake_unordered:
  assumes ok: "kernel_ok k" and al: "allowed (WakeUnordered t v) k"
  shows "keeps (WakeUnordered t v) k"
proof -
  have o: "core k" "alarm k" "links k" using ok by (simp_all add: kernel_ok_def)
  obtain e where c: "container k (EventItem t) = Some (EventList e)" using al by auto
  have "blocked_in (container k (StateItem t))" using o(3) c by (auto simp: links_def)
  then have l: "live k t" by (auto simp: live_def tasks_def deleted_def blocked_in_def)
  define v' where "v' = v OR taskEVENT_LIST_ITEM_VALUE_IN_USE"
  obtain s where s: "list_do (SetValue (EventItem t) v') k = Some (k\<lparr>kl := s\<rparr>)" "core (k\<lparr>kl := s\<rparr>)" "where_is s = where_is (kl k)"
    "value_of s = (value_of (kl k))(EventItem t := v')" using core_set_event_value [OF o(1), of t v'] by auto
  define k1 where "k1 = k\<lparr>kl := s\<rparr>"
  have "container k (EventItem t) \<noteq> Some (pxDelayedTaskList k)" using c o(1) by (auto simp: core_in_def)
  then have "alarm k1" by (intro alarm_less [OF o(2)]) (auto simp: k1_def s(3,4))
  moreover have "core k1" "frame k k1" "where_is (kl k1) = where_is (kl k)" "tcb k1 = tcb k" using s by (simp_all add: k1_def frame_def)
  ultimately obtain k2 where k2: "list_do (Remove (EventItem t)) k1 = Some k2" "core k2" "alarm k2" "frame k k2"
    "where_is (kl k2) = (where_is (kl k))(EventItem t := None)" "tcb k2 = tcb k" using leave_event [OF ok c, of k1] by auto
  obtain k4 where k4: "do { k' \<leftarrow> list_do (Remove (StateItem t)) k2; prvAddTaskToReadyList t k' } = Some k4" "kernel_ok k4" "frame k k4"
    using make_ready [OF ok l k2(4,2,3,5)] k2(6) by auto
  then have "vTaskRemoveFromUnorderedEventList t v k = Some (if prio k4 (pxCurrentTCB k4) < prio k4 t then k4\<lparr>xYieldPending := True\<rparr> else k4)"
    unfolding vTaskRemoveFromUnorderedEventList_def v'_def [symmetric] using s(1) k2(1) by (auto simp: k1_def split: Option.bind_splits)
  then show ?thesis using k4(2,3) al by (auto simp: keeps_def frame_def)
qed

text \<open>A change of a control block that leaves the priorities alone.\<close>

lemma set_tcb_core:
  assumes "core_in P k" and "\<And>c. uxPriority (f c) = uxPriority c \<and> uxBasePriority (f c) = uxBasePriority c"
  shows "core_in P (set_tcb t f k)"
  using assms unfolding core_in_def set_tcb_def by simp

lemma set_tcb_fields [simp]:
  "kl (set_tcb t f k) = kl k" "frame k0 (set_tcb t f k) = frame k0 k" "alarm (set_tcb t f k) = alarm k"
  "pxCurrentTCB (set_tcb t f k) = pxCurrentTCB k" "uxSchedulerSuspended (set_tcb t f k) = uxSchedulerSuspended k"
  "tcb (set_tcb t f k) u = (if u = t then f (tcb k t) else tcb k u)" "xSchedulerRunning (set_tcb t f k) = xSchedulerRunning k"
  by (simp_all add: set_tcb_def frame_def)

lemma frame_refl [simp]: "frame k k"
  by (simp add: frame_def)

lemma set_tcb_twice: "set_tcb t g (set_tcb t f k) = set_tcb t (\<lambda>c. g (f c)) k"
  by (simp add: set_tcb_def)

lemma set_tcb_ok:
  assumes "kernel_ok k" and "\<And>c. uxPriority (f c) = uxPriority c \<and> uxBasePriority (f c) = uxBasePriority c"
    and "ucNotifyState (f (tcb k t)) = taskWAITING_NOTIFICATION \<Longrightarrow> container k (EventItem t) = None"
  shows "kernel_ok (set_tcb t f k)"
proof -
  have o: "core k" "alarm k" "links k" using assms(1) by (simp_all add: kernel_ok_def)
  have "links (set_tcb t f k)" using o(3) assms(3) by (auto simp: links_def tasks_def deleted_def set_tcb_def)
  then show ?thesis using set_tcb_core [OF o(1) assms(2)] o(2) assms(1) by (simp add: kernel_ok_def set_tcb_def)
qed

lemma notify_value_fields [simp]:
  "uxPriority (fst (notify_value a v orig c)) = uxPriority c" "uxBasePriority (fst (notify_value a v orig c)) = uxBasePriority c"
  "ucNotifyState (fst (notify_value a v orig c)) = ucNotifyState c"
  by (cases a; simp add: notify_value_def)+

text \<open>Notifying: the control block is updated; a task that waits becomes ready, or pending when an interrupt finds the scheduler suspended.\<close>

definition received :: "(TCB_t \<Rightarrow> TCB_t) \<Rightarrow> bool" where
  "received f \<longleftrightarrow> (\<forall>c. uxPriority (f c) = uxPriority c \<and> uxBasePriority (f c) = uxBasePriority c \<and> ucNotifyState (f c) = taskNOTIFICATION_RECEIVED)"

lemma set_received:
  assumes ok: "kernel_ok k" and f: "received f"
  shows "kernel_ok (set_tcb t f k)" "core (set_tcb t f k)" "alarm (set_tcb t f k)"
proof -
  show "kernel_ok (set_tcb t f k)" using assms by (intro set_tcb_ok) (simp_all add: received_def)
  then show "core (set_tcb t f k)" "alarm (set_tcb t f k)" by (simp_all add: kernel_ok_def)
qed

lemma waiting_ready:
  assumes ok: "kernel_ok k" and l: "live k t" and f: "received f" and wt: "ucNotifyState (tcb k t) = taskWAITING_NOTIFICATION"
  shows "\<exists>k2. do { k' \<leftarrow> list_do (Remove (StateItem t)) (set_tcb t f k); prvAddTaskToReadyList t k' } = Some k2 \<and> kernel_ok k2 \<and> frame k k2"
proof -
  have "container k (EventItem t) = None" using ok l wt by (simp add: kernel_ok_def links_def live_def)
  moreover have "ucNotifyState (tcb (set_tcb t f k) u) = taskWAITING_NOTIFICATION \<Longrightarrow> ucNotifyState (tcb k u) = taskWAITING_NOTIFICATION" for u
    using f by (auto simp: received_def split: if_splits)
  ultimately show ?thesis using make_ready [OF ok l _ set_received(2,3) [OF ok f, of t]] by (fastforce simp: fun_upd_idem)
qed

lemma waiting_pending:
  assumes ok: "kernel_ok k" and l: "live k t" and f: "received f" and wt: "ucNotifyState (tcb k t) = taskWAITING_NOTIFICATION" and s: "uxSchedulerSuspended k \<noteq> 0"
  shows "\<exists>k2. list_do (InsertEnd xPendingReadyList (EventItem t)) (set_tcb t f k) = Some k2 \<and> kernel_ok k2 \<and> frame k k2"
proof -
  have "container k (EventItem t) = None" using ok l wt by (simp add: kernel_ok_def links_def live_def)
  moreover have "ucNotifyState (tcb (set_tcb t f k) u) = taskWAITING_NOTIFICATION \<Longrightarrow> ucNotifyState (tcb k u) = taskWAITING_NOTIFICATION \<and> u \<noteq> t" for u
    using f by (auto simp: received_def split: if_splits)
  ultimately show ?thesis using make_pending [OF ok l _ set_received(2,3) [OF ok f, of t] s] by (fastforce simp: fun_upd_idem)
qed

lemma waiting_isr:
  assumes ok: "kernel_ok k" and l: "live k t" and f: "received f" and wt: "ucNotifyState (tcb k t) = taskWAITING_NOTIFICATION"
  shows "\<exists>k2. (if uxSchedulerSuspended (set_tcb t f k) = 0 then do { k' \<leftarrow> list_do (Remove (StateItem t)) (set_tcb t f k); prvAddTaskToReadyList t k' }
      else list_do (InsertEnd xPendingReadyList (EventItem t)) (set_tcb t f k)) = Some k2 \<and> kernel_ok k2 \<and> frame k k2"
  using waiting_ready [OF assms] waiting_pending [OF assms] by simp

lemma keeps_notify:
  assumes ok: "kernel_ok k" and al: "allowed (Notify t v a) k"
  shows "keeps (Notify t v a) k"
proof -
  have l: "live k t" "xSchedulerRunning k" using al by simp_all
  obtain c ret where c: "notify_value a v (ucNotifyState (tcb k t)) ((tcb k t)\<lparr>ucNotifyState := taskNOTIFICATION_RECEIVED\<rparr>) = (c, ret)" by fastforce
  define f where "f = (\<lambda>c'. if c' = tcb k t then c else c'\<lparr>ucNotifyState := taskNOTIFICATION_RECEIVED\<rparr>)"
  have cf: "uxPriority c = prio k t" "uxBasePriority c = uxBasePriority (tcb k t)" "ucNotifyState c = taskNOTIFICATION_RECEIVED"
    using notify_value_fields [of a v "ucNotifyState (tcb k t)" "(tcb k t)\<lparr>ucNotifyState := taskNOTIFICATION_RECEIVED\<rparr>"] by (simp_all add: c)
  have f: "received f" using cf by (simp add: received_def f_def)
  have e: "set_tcb t (\<lambda>_. c) k = set_tcb t f k" by (simp add: set_tcb_def f_def)
  show ?thesis
  proof (cases "ucNotifyState (tcb k t) = taskWAITING_NOTIFICATION")
    case True
    obtain k2 where k2: "do { k' \<leftarrow> list_do (Remove (StateItem t)) (set_tcb t f k); prvAddTaskToReadyList t k' } = Some k2" "kernel_ok k2" "frame k k2"
      using waiting_ready [OF ok l(1) f True] by blast
    then have "map_option fst (xTaskGenericNotify t v a k) = Some (if prio k2 (pxCurrentTCB k2) < prio k2 t then portYIELD (prvResetNextTaskUnblockTime k2)
        else prvResetNextTaskUnblockTime k2)"
      using True c unfolding xTaskGenericNotify_def by (auto simp: e Let_def split: Option.bind_splits)
    then show ?thesis using kernel_ok_reset [OF k2(2)] k2(3) l(2) by (auto simp: keeps_def frame_def portYIELD_def)
  next
    case False
    then have "map_option fst (xTaskGenericNotify t v a k) = Some (set_tcb t f k)" using c unfolding xTaskGenericNotify_def by (simp add: e)
    then show ?thesis using set_received(1) [OF ok f, of t] l(2) by (auto simp: keeps_def)
  qed
qed

lemma keeps_notify_isr:
  assumes ok: "kernel_ok k" and al: "allowed (NotifyFromISR t v a flag) k"
  shows "keeps (NotifyFromISR t v a flag) k"
proof -
  have l: "live k t" "xSchedulerRunning k" using al by simp_all
  obtain c ret where c: "notify_value a v (ucNotifyState (tcb k t)) ((tcb k t)\<lparr>ucNotifyState := taskNOTIFICATION_RECEIVED\<rparr>) = (c, ret)" by fastforce
  define f where "f = (\<lambda>c'. if c' = tcb k t then c else c'\<lparr>ucNotifyState := taskNOTIFICATION_RECEIVED\<rparr>)"
  have cf: "uxPriority c = prio k t" "uxBasePriority c = uxBasePriority (tcb k t)" "ucNotifyState c = taskNOTIFICATION_RECEIVED"
    using notify_value_fields [of a v "ucNotifyState (tcb k t)" "(tcb k t)\<lparr>ucNotifyState := taskNOTIFICATION_RECEIVED\<rparr>"] by (simp_all add: c)
  have f: "received f" using cf by (simp add: received_def f_def)
  have e: "set_tcb t (\<lambda>_. c) k = set_tcb t f k" by (simp add: set_tcb_def f_def)
  show ?thesis
  proof (cases "ucNotifyState (tcb k t) = taskWAITING_NOTIFICATION")
    case True
    obtain k2 where k2: "(if uxSchedulerSuspended (set_tcb t f k) = 0 then do { k' \<leftarrow> list_do (Remove (StateItem t)) (set_tcb t f k); prvAddTaskToReadyList t k' }
      else list_do (InsertEnd xPendingReadyList (EventItem t)) (set_tcb t f k)) = Some k2" "kernel_ok k2" "frame k k2"
      using waiting_isr [OF ok l(1) f True] by blast
    have "map_option fst (xTaskGenericNotifyFromISR t v a flag k) = Some (if prio k2 (pxCurrentTCB k2) < prio k2 t \<and> \<not> flag then k2\<lparr>xYieldPending := True\<rparr> else k2)"
      unfolding xTaskGenericNotifyFromISR_def Let_def c prod.case e unfolding k2(1) bind.bind_lunit by (simp add: True)
    then show ?thesis using k2(2,3) l(2) by (auto simp: keeps_def frame_def)
  next
    case False
    then have "map_option fst (xTaskGenericNotifyFromISR t v a flag k) = Some (set_tcb t f k)" using c unfolding xTaskGenericNotifyFromISR_def by (simp add: e)
    then show ?thesis using set_received(1) [OF ok f, of t] l(2) by (auto simp: keeps_def)
  qed
qed

lemma keeps_give_isr:
  assumes ok: "kernel_ok k" and al: "allowed (GiveFromISR t flag) k"
  shows "keeps (GiveFromISR t flag) k"
proof -
  have l: "live k t" "xSchedulerRunning k" using al by simp_all
  define f :: "TCB_t \<Rightarrow> TCB_t" where "f = (\<lambda>c. c\<lparr>ucNotifyState := taskNOTIFICATION_RECEIVED, ulNotifiedValue := ulNotifiedValue c + 1\<rparr>)"
  have f: "received f" by (simp add: received_def f_def)
  show ?thesis
  proof (cases "ucNotifyState (tcb k t) = taskWAITING_NOTIFICATION")
    case True
    obtain k2 where k2: "(if uxSchedulerSuspended (set_tcb t f k) = 0 then do { k' \<leftarrow> list_do (Remove (StateItem t)) (set_tcb t f k); prvAddTaskToReadyList t k' }
      else list_do (InsertEnd xPendingReadyList (EventItem t)) (set_tcb t f k)) = Some k2" "kernel_ok k2" "frame k k2"
      using waiting_isr [OF ok l(1) f True] by blast
    have "map_option fst (vTaskNotifyGiveFromISR t flag k) = Some (if prio k2 (pxCurrentTCB k2) < prio k2 t \<and> \<not> flag then k2\<lparr>xYieldPending := True\<rparr> else k2)"
      unfolding vTaskNotifyGiveFromISR_def Let_def f_def [symmetric] unfolding k2(1) bind.bind_lunit by (simp add: True)
    then show ?thesis using k2(2,3) l(2) by (auto simp: keeps_def frame_def)
  next
    case False
    then show ?thesis using set_received(1) [OF ok f] l(2) by (simp add: keeps_def vTaskNotifyGiveFromISR_def f_def)
  qed
qed

section \<open>Blocking\<close>

text \<open>The event item of the running task goes into an event list, then the task sleeps.\<close>

lemma wait_in_event_list:
  fixes forever :: bool
  assumes ok: "kernel_ok k" and mb: "may_block k" and n: "n \<noteq> 0" and fr: "frame k k1" and c1: "core k1" "alarm k1"
    and w: "where_is (kl k1) = (where_is (kl k))(EventItem (pxCurrentTCB k) := Some (EventList e))" and tcb: "tcb k1 = tcb k"
  shows "\<exists>k2. prvAddCurrentTaskToDelayedList n forever k1 = Some k2 \<and> kernel_ok k2 \<and> frame k k2"
  using put_to_sleep [OF ok _ _ fr c1 n w] mb tcb by (simp add: may_block_def)

lemma event_alarm:
  assumes "core k" "alarm k" and "where_is (kl k') = (where_is (kl k))(EventItem t := Some (EventList e))" and "pxDelayedTaskList k' = pxDelayedTaskList k"
    and "xNextTaskUnblockTime k' = xNextTaskUnblockTime k" and "\<And>u. item_value k' (StateItem u) = item_value k (StateItem u)"
  shows "alarm k'"
proof (rule alarm_less [OF assms(2)])
  fix x
  assume x: "container k' x = Some (pxDelayedTaskList k')"
  have D: "pxDelayedTaskList k \<noteq> EventList e" "holds_states (pxDelayedTaskList k)" using assms(1) by (auto simp: core_in_def)
  have c: "container k x = Some (pxDelayedTaskList k)" using x D(1) D(1) [symmetric] by (auto simp: assms(3,4) split: if_splits)
  then obtain u where "x = StateItem u" using state_item [OF assms(1) c D(2)] by blast
  then show "container k x = Some (pxDelayedTaskList k) \<and> item_value k' x = item_value k x" using c assms(6) by simp
qed (rule assms(5))

lemma keeps_wait_event:
  assumes ok: "kernel_ok k" and al: "allowed (WaitEvent e n) k"
  shows "keeps (WaitEvent e n) k"
proof -
  have o: "core k" "alarm k" using ok by (simp_all add: kernel_ok_def)
  have mb: "may_block k" "n \<noteq> 0" "xSchedulerRunning k" "container k (EventItem (pxCurrentTCB k)) = None" using al by (simp_all add: may_block_def runs_def)
  obtain s where s: "list_do (Insert (EventList e) (EventItem (pxCurrentTCB k))) k = Some (k\<lparr>kl := s\<rparr>)" "core (k\<lparr>kl := s\<rparr>)"
    "where_is s = (where_is (kl k))(EventItem (pxCurrentTCB k) := Some (EventList e))" "value_of s = value_of (kl k)"
    using core_insert_event [OF o(1) mb(4), of e] by auto
  define k1 where "k1 = k\<lparr>kl := s\<rparr>"
  have "alarm k1" by (rule event_alarm [OF o]) (simp_all add: k1_def s(3,4))
  then obtain k2 where "prvAddCurrentTaskToDelayedList n True k1 = Some k2" "kernel_ok k2" "frame k k2"
    using wait_in_event_list [OF ok mb(1,2), of k1 e True] s by (auto simp: k1_def frame_def)
  then show ?thesis using s(1) mb(3) by (auto simp: keeps_def vTaskPlaceOnEventList_def k1_def frame_def)
qed

lemma keeps_wait_restricted:
  assumes ok: "kernel_ok k" and al: "allowed (WaitRestricted e n f) k"
  shows "keeps (WaitRestricted e n f) k"
proof -
  have o: "core k" "alarm k" using ok by (simp_all add: kernel_ok_def)
  have mb: "may_block k" "n \<noteq> 0" "xSchedulerRunning k" "container k (EventItem (pxCurrentTCB k)) = None" using al by (simp_all add: may_block_def runs_def)
  obtain s where s: "list_do (InsertEnd (EventList e) (EventItem (pxCurrentTCB k))) k = Some (k\<lparr>kl := s\<rparr>)" "core (k\<lparr>kl := s\<rparr>)"
    "where_is s = (where_is (kl k))(EventItem (pxCurrentTCB k) := Some (EventList e))" "value_of s = value_of (kl k)"
    using core_insert_end [OF o(1) mb(4), of "EventList e"] by auto
  define k1 where "k1 = k\<lparr>kl := s\<rparr>"
  have "(if f then portMAX_TICK else n) \<noteq> 0" using mb(2) by (simp add: portMAX_TICK_def)
  moreover have "alarm k1" by (rule event_alarm [OF o]) (simp_all add: k1_def s(3,4))
  ultimately obtain k2 where "prvAddCurrentTaskToDelayedList (if f then portMAX_TICK else n) f k1 = Some k2" "kernel_ok k2" "frame k k2"
    using wait_in_event_list [OF ok mb(1), of _ k1 e f] s by (auto simp: k1_def frame_def)
  then show ?thesis using s(1) mb(3) by (auto simp: keeps_def vTaskPlaceOnEventListRestricted_def k1_def frame_def)
qed

lemma keeps_wait_unordered:
  assumes ok: "kernel_ok k" and al: "allowed (WaitUnordered e v n) k"
  shows "keeps (WaitUnordered e v n) k"
proof -
  have o: "core k" "alarm k" using ok by (simp_all add: kernel_ok_def)
  have mb: "may_block k" "n \<noteq> 0" "xSchedulerRunning k" "container k (EventItem (pxCurrentTCB k)) = None" using al by (simp_all add: may_block_def runs_def)
  define v' where "v' = v OR taskEVENT_LIST_ITEM_VALUE_IN_USE"
  obtain s0 where s0: "list_do (SetValue (EventItem (pxCurrentTCB k)) v') k = Some (k\<lparr>kl := s0\<rparr>)" "core (k\<lparr>kl := s0\<rparr>)"
    "where_is s0 = where_is (kl k)" "value_of s0 = (value_of (kl k))(EventItem (pxCurrentTCB k) := v')" using core_set_event_value [OF o(1)] by auto
  have "container (k\<lparr>kl := s0\<rparr>) (EventItem (pxCurrentTCB k)) = None" using mb(4) s0(3) by simp
  then obtain s where s: "list_do (InsertEnd (EventList e) (EventItem (pxCurrentTCB k))) (k\<lparr>kl := s0\<rparr>) = Some (k\<lparr>kl := s\<rparr>)" "core (k\<lparr>kl := s\<rparr>)"
    "where_is s = (where_is s0)(EventItem (pxCurrentTCB k) := Some (EventList e))" "value_of s = value_of s0"
    using core_insert_end [OF s0(2), of "EventItem (pxCurrentTCB k)" "EventList e"] by auto
  define k1 where "k1 = k\<lparr>kl := s\<rparr>"
  have "alarm k1" by (rule event_alarm [OF o]) (simp_all add: k1_def s(3,4) s0(3,4))
  then obtain k2 where "prvAddCurrentTaskToDelayedList n True k1 = Some k2" "kernel_ok k2" "frame k k2"
    using wait_in_event_list [OF ok mb(1,2), of k1 e True] s s0 by (auto simp: k1_def frame_def)
  then show ?thesis using s(1) s0(1) mb(3) by (auto simp: keeps_def vTaskPlaceOnUnorderedEventList_def k1_def frame_def v'_def)
qed

text \<open>Waiting for a notification.\<close>

lemma notify_sleep:
  assumes ok: "kernel_ok k" and al: "runs k" "pxCurrentTCB k \<noteq> xIdleTaskHandle k" "xSchedulerRunning k"
    and f: "\<And>c. uxPriority (f c) = uxPriority c \<and> uxBasePriority (f c) = uxBasePriority c \<and> ucNotifyState (f c) = taskWAITING_NOTIFICATION"
  shows "\<exists>k2. (let k1 = set_tcb (pxCurrentTCB k) f k in
      if n > 0 then do { k2 \<leftarrow> prvAddCurrentTaskToDelayedList n True k1; Some (portYIELD k2) } else Some k1) = Some k2
    \<and> kernel_ok k2 \<and> xSchedulerRunning k2"
proof -
  have e: "container k (EventItem (pxCurrentTCB k)) = None" using al(1) by (simp add: runs_def)
  have ok1: "kernel_ok (set_tcb (pxCurrentTCB k) f k)" using ok f e by (intro set_tcb_ok) simp_all
  then have c1: "core (set_tcb (pxCurrentTCB k) f k)" "alarm (set_tcb (pxCurrentTCB k) f k)" by (simp_all add: kernel_ok_def)
  show ?thesis
  proof (cases "n > 0")
    case True
    then have "n \<noteq> 0" by auto
    from put_to_sleep [OF ok al(1,2) _ c1 this, where e = None and forever = True] e obtain k2
      where "prvAddCurrentTaskToDelayedList n True (set_tcb (pxCurrentTCB k) f k) = Some k2" "kernel_ok k2" "frame k k2"
      by (auto simp: fun_upd_idem)
    then show ?thesis using True al(3) by (auto simp: Let_def frame_def portYIELD_def)
  next
    case False
    then show ?thesis using ok1 al(3) by (simp add: Let_def)
  qed
qed

lemma keeps_wait_enter:
  assumes ok: "kernel_ok k" and al: "allowed (WaitEnter b n) k"
  shows "keeps (WaitEnter b n) k"
proof -
  have a: "runs k" "pxCurrentTCB k \<noteq> xIdleTaskHandle k" "xSchedulerRunning k" using al by simp_all
  show ?thesis
    using notify_sleep [OF ok a, of "\<lambda>c. c\<lparr>ulNotifiedValue := ulNotifiedValue c AND NOT b, ucNotifyState := taskWAITING_NOTIFICATION\<rparr>" n] ok a(3)
    unfolding keeps_def kernel_call.simps notify_wait_enter_def by auto
qed

lemma keeps_take_enter:
  assumes ok: "kernel_ok k" and al: "allowed (TakeEnter n) k"
  shows "keeps (TakeEnter n) k"
proof -
  have a: "runs k" "pxCurrentTCB k \<noteq> xIdleTaskHandle k" "xSchedulerRunning k" using al by simp_all
  show ?thesis using notify_sleep [OF ok a, of "ucNotifyState_update (\<lambda>_. taskWAITING_NOTIFICATION)" n] ok a(3)
    unfolding keeps_def kernel_call.simps notify_take_enter_def by auto
qed

lemma keeps_leave:
  assumes ok: "kernel_ok k" and run: "xSchedulerRunning k"
  shows "keeps (WaitLeave b) k" and "keeps (TakeLeave c) k" and "keeps (StateClear h) k"
  using assms by (auto simp: keeps_def notify_wait_leave_def notify_take_leave_def xTaskNotifyStateClear_def Let_def set_tcb_twice intro!: set_tcb_ok)

section \<open>Delays and suspension of the scheduler\<close>

lemma suspend_all_ok:
  assumes "kernel_ok k" and "uxSchedulerSuspended k \<noteq> portMAX_TICK"
  shows "kernel_ok (vTaskSuspendAll k)" and "uxSchedulerSuspended (vTaskSuspendAll k) \<noteq> 0"
proof -
  show n: "uxSchedulerSuspended (vTaskSuspendAll k) \<noteq> 0" using assms(2) succ_zero by (simp add: vTaskSuspendAll_def)
  have o: "core k" "alarm k" "links k" using assms(1) by (simp_all add: kernel_ok_def)
  have "links (vTaskSuspendAll k)" using o(3) n by (simp add: links_def tasks_def deleted_def vTaskSuspendAll_def)
  then show "kernel_ok (vTaskSuspendAll k)" using o(1,2) n by (simp add: kernel_ok_def vTaskSuspendAll_def)
qed

lemma sleep_and_resume:
  assumes ok: "kernel_ok k" and al: "xSchedulerRunning k" "may_block k" "uxSchedulerSuspended k \<noteq> portMAX_TICK"
  shows "n \<noteq> 0 \<Longrightarrow> \<exists>k1 k2 b. prvAddCurrentTaskToDelayedList n False (vTaskSuspendAll k) = Some k1 \<and> xTaskResumeAll k1 = Some (k2, b)
      \<and> kernel_ok k2 \<and> xSchedulerRunning k2"
    and "\<exists>k2 b. xTaskResumeAll (vTaskSuspendAll k) = Some (k2, b) \<and> kernel_ok k2 \<and> xSchedulerRunning k2"
proof -
  define k0 where "k0 = vTaskSuspendAll k"
  have k0: "kernel_ok k0" "uxSchedulerSuspended k0 \<noteq> 0" using suspend_all_ok [OF ok al(3)] by (simp_all add: k0_def)
  have r: "runs k0" "pxCurrentTCB k0 \<noteq> xIdleTaskHandle k0" "xSchedulerRunning k0"
    "ucNotifyState (tcb k0 (pxCurrentTCB k0)) \<noteq> taskWAITING_NOTIFICATION" "container k0 (EventItem (pxCurrentTCB k0)) = None"
    using al by (simp_all add: k0_def vTaskSuspendAll_def may_block_def runs_def)
  have c: "core k0" "alarm k0" using k0(1) by (simp_all add: kernel_ok_def)
  show "\<exists>k2 b. xTaskResumeAll (vTaskSuspendAll k) = Some (k2, b) \<and> kernel_ok k2 \<and> xSchedulerRunning k2"
    using resume_ok [OF k0(1) r(3) k0(2)] by (auto simp: k0_def)
  assume n: "n \<noteq> 0"
  from put_to_sleep [OF k0(1) r(1,2) frame_refl c n, where e = None and forever = False] r(5)
  obtain k1 where k1: "prvAddCurrentTaskToDelayedList n False k0 = Some k1" "kernel_ok k1" "frame k0 k1" by (auto simp: fun_upd_idem)
  then have "xSchedulerRunning k1" "uxSchedulerSuspended k1 \<noteq> 0" using r(3) k0(2) by (simp_all add: frame_def)
  then show "\<exists>k1 k2 b. prvAddCurrentTaskToDelayedList n False (vTaskSuspendAll k) = Some k1 \<and> xTaskResumeAll k1 = Some (k2, b)
      \<and> kernel_ok k2 \<and> xSchedulerRunning k2"
    using resume_ok [OF k1(2)] k1(1) by (auto simp: k0_def)
qed

lemma keeps_delay:
  assumes ok: "kernel_ok k" and al: "allowed (Delay n) k"
  shows "keeps (Delay n) k"
proof (cases "n > 0")
  case True
  then have "n \<noteq> 0" by auto
  then obtain k1 k2 b where "prvAddCurrentTaskToDelayedList n False (vTaskSuspendAll k) = Some k1" "xTaskResumeAll k1 = Some (k2, b)"
    "kernel_ok k2" "xSchedulerRunning k2" using sleep_and_resume(1) [OF ok, of n] al by auto
  then show ?thesis using True by (auto simp: keeps_def vTaskDelay_def yield_unless_def portYIELD_def)
next
  case False
  then show ?thesis using ok al by (simp add: keeps_def vTaskDelay_def) (simp add: portYIELD_def)
qed

lemma keeps_delay_until:
  assumes ok: "kernel_ok k" and al: "allowed (DelayUntil p n) k"
  shows "keeps (DelayUntil p n) k"
proof (cases "should_delay (xTickCount (vTaskSuspendAll k)) p (p + n)")
  case True
  then have "p + n \<noteq> xTickCount (vTaskSuspendAll k)" by (auto simp: should_delay_def split: if_splits)
  then have "p + n - xTickCount (vTaskSuspendAll k) \<noteq> 0" by simp
  then obtain k1 k2 b where "prvAddCurrentTaskToDelayedList (p + n - xTickCount (vTaskSuspendAll k)) False (vTaskSuspendAll k) = Some k1"
    "xTaskResumeAll k1 = Some (k2, b)" "kernel_ok k2" "xSchedulerRunning k2" using sleep_and_resume(1) [OF ok, of "p + n - xTickCount (vTaskSuspendAll k)"] al by auto
  then show ?thesis using True by (auto simp: keeps_def vTaskDelayUntil_def yield_unless_def portYIELD_def Let_def)
next
  case False
  obtain k2 b where "xTaskResumeAll (vTaskSuspendAll k) = Some (k2, b)" "kernel_ok k2" "xSchedulerRunning k2"
    using sleep_and_resume(2) [OF ok] al by auto
  then show ?thesis using False by (auto simp: keeps_def vTaskDelayUntil_def yield_unless_def portYIELD_def Let_def)
qed

lemma keeps_scheduler:
  assumes ok: "kernel_ok k"
  shows "allowed SuspendAll k \<Longrightarrow> keeps SuspendAll k" and "allowed ResumeAll k \<Longrightarrow> keeps ResumeAll k"
    and "xSchedulerRunning k \<Longrightarrow> keeps SoftInterrupt k" and "xSchedulerRunning k \<Longrightarrow> keeps HoldMutex k" and "xSchedulerRunning k \<Longrightarrow> keeps ResetEventValue k"
    and "allowed (StepTick n) k \<Longrightarrow> keeps (StepTick n) k"
proof -
  have o: "core k" "alarm k" "links k" using ok by (simp_all add: kernel_ok_def)
  show "keeps SuspendAll k" if "allowed SuspendAll k"
    using suspend_all_ok(1) [OF ok] that by (simp add: keeps_def) (simp add: vTaskSuspendAll_def)
  show "keeps ResumeAll k" if "allowed ResumeAll k" using resume_ok [OF ok] that by (auto simp: keeps_def)
  show "keeps SoftInterrupt k" if "xSchedulerRunning k" using switch_ok [OF ok that] ok that by (auto simp: keeps_def SoftIsrHdl_def)
  show "keeps HoldMutex k" if "xSchedulerRunning k"
  proof -
    have "pxCurrentTCB k \<in> tasks k" using o(3) idle_counted [OF o(3) that] by (auto simp: links_def)
    then have "kernel_ok (set_tcb (pxCurrentTCB k) (\<lambda>c. c\<lparr>uxMutexesHeld := uxMutexesHeld c + 1\<rparr>) k)"
      using o(3) by (intro set_tcb_ok [OF ok]) (simp_all add: links_def)
    then show ?thesis using ok that by (simp add: keeps_def pvTaskIncrementMutexHeldCount_def)
  qed
  show "keeps ResetEventValue k" if run: "xSchedulerRunning k"
  proof -
    define v where "v = configMAX_PRIORITIES - prio k (pxCurrentTCB k)"
    obtain s where s: "list_do (SetValue (EventItem (pxCurrentTCB k)) v) k = Some (k\<lparr>kl := s\<rparr>)" "core (k\<lparr>kl := s\<rparr>)" "where_is s = where_is (kl k)"
      "value_of s = (value_of (kl k))(EventItem (pxCurrentTCB k) := v)" using core_set_event_value [OF o(1)] by auto
    have h: "holds_states (pxDelayedTaskList k)" using o(1) by (auto simp: core_in_def)
    have "alarm (k\<lparr>kl := s\<rparr>)"
    proof (rule alarm_less [OF o(2)])
      fix x
      assume "container (k\<lparr>kl := s\<rparr>) x = Some (pxDelayedTaskList (k\<lparr>kl := s\<rparr>))"
      then have c: "container k x = Some (pxDelayedTaskList k)" by (simp add: s(3))
      then obtain u where "x = StateItem u" using state_item [OF o(1) c h] by blast
      then show "container k x = Some (pxDelayedTaskList k) \<and> item_value (k\<lparr>kl := s\<rparr>) x = item_value k x" using c by (simp add: s(4))
    qed simp
    moreover have "links (k\<lparr>kl := s\<rparr>)" using o(3) by (simp add: links_def tasks_def deleted_def s(3))
    ultimately have "kernel_ok (k\<lparr>kl := s\<rparr>)" using s(2) ok by (simp add: kernel_ok_def)
    then show ?thesis using s(1) run by (simp add: keeps_def uxTaskResetEventItemValue_def v_def)
  qed
  show "keeps (StepTick n) k" if al: "allowed (StepTick n) k"
  proof -
    have "unat (xNextTaskUnblockTime k) < 2 ^ LENGTH(32)" by (rule unsigned_less)
    then have u: "unat (xTickCount k + n) = unat (xTickCount k) + unat n" using al by (simp add: unat_word_ariths)
    then have le: "xTickCount k \<le> xTickCount k + n" "xTickCount k + n < xNextTaskUnblockTime k" using al by (simp_all add: word_le_nat_alt word_less_nat_alt)
    define k' where "k' = k\<lparr>xTickCount := xTickCount k + n\<rparr>"
    have c: "core k'" using o(1,2) le unfolding core_in_def k'_def alarm_def by (auto intro: order_trans less_le_trans)
    have "alarm k'" "links k'" using o(2,3) by (simp_all add: k'_def alarm_def links_def tasks_def deleted_def)
    then show ?thesis using c ok al by (simp add: keeps_def vTaskStepTick_def k'_def kernel_ok_def)
  qed
qed

section \<open>Deleting tasks\<close>

lemma of_nat_card_remove: "t \<in> (A :: u32 set) \<Longrightarrow> (of_nat (card (A - {t})) :: u32) = of_nat (card A) - 1"
proof -
  assume t: "t \<in> (A :: u32 set)"
  have "card A = Suc (card (A - {t}))" by (rule card.remove [OF _ t]) simp
  then have "(of_nat (card A) :: u32) = 1 + of_nat (card (A - {t}))" by (metis of_nat_Suc)
  then show ?thesis by (metis add_diff_cancel_left')
qed

text \<open>A task that leaves the kernel: it is not the running one and not the idle task, and its event item is in no list.\<close>

lemma links_leave:
  assumes l: "links k" and t: "t \<in> tasks k" "t \<noteq> pxCurrentTCB k" "xSchedulerRunning k \<Longrightarrow> t \<noteq> xIdleTaskHandle k"
    and w: "where_is (kl k') = (where_is (kl k))(StateItem t := None, EventItem t := None)" and tcb: "tcb k' = tcb k"
    and fr: "xSchedulerRunning k' = xSchedulerRunning k" "xIdleTaskHandle k' = xIdleTaskHandle k" "pxCurrentTCB k' = pxCurrentTCB k"
      "uxSchedulerSuspended k' = uxSchedulerSuspended k" "uxCurrentNumberOfTasks k' = uxCurrentNumberOfTasks k - 1"
      "uxDeletedTasksWaitingCleanUp k' = uxDeletedTasksWaitingCleanUp k - (if t \<in> deleted k then 1 else 0)"
  shows "links k'"
proof -
  have ts: "tasks k' = tasks k - {t}" "deleted k' = deleted k - {t}" by (auto simp: tasks_def deleted_def w)
  have n: "uxCurrentNumberOfTasks k' = of_nat (card (tasks k'))" "uxDeletedTasksWaitingCleanUp k' = of_nat (card (deleted k'))"
    using l t(1) of_nat_card_remove [of t "tasks k"] of_nat_card_remove [of t "deleted k"] by (auto simp: fr ts links_def)
  have "pxCurrentTCB k \<in> tasks k" using l t(1) by (auto simp: links_def)
  moreover have "xSchedulerRunning k \<longrightarrow> container k (StateItem (xIdleTaskHandle k)) \<in> Some ` range Ready"
    "\<forall>u e. container k (EventItem u) = Some (EventList e) \<longrightarrow> blocked_in (container k (StateItem u))"
    "\<forall>u. container k (EventItem u) = Some xPendingReadyList \<longrightarrow> uxSchedulerSuspended k \<noteq> 0 \<and> u \<in> tasks k \<and> u \<notin> deleted k"
    "\<forall>u. u \<in> tasks k \<longrightarrow> ucNotifyState (tcb k u) = taskWAITING_NOTIFICATION \<longrightarrow> container k (EventItem u) = None" "0 \<notin> tasks k"
    using l by (simp_all add: links_def)
  moreover have "xSchedulerRunning k \<longrightarrow> xIdleTaskHandle k \<noteq> t" using t(3) by blast
  ultimately show ?thesis using t(2) n unfolding links_def by (simp add: fr ts w tcb)
qed

lemma keeps_delete:
  assumes ok: "kernel_ok k" and al: "allowed (Delete h) k"
  shows "keeps (Delete h) k"
proof -
  define t where "t = prvGetTCBFromHandle h k"
  have a: "xSchedulerRunning k" "live k t" "t \<noteq> xIdleTaskHandle k" using al by (simp_all add: t_def)
  have o: "core k" "alarm k" "links k" using ok by (simp_all add: kernel_ok_def)
  obtain L where L: "container k (StateItem t) = Some L" "L \<noteq> xTasksWaitingTermination" using live_container [OF a(2)] by blast
  obtain s1 where s1: "list_do (Remove (StateItem t)) k = Some (k\<lparr>kl := s1\<rparr>)" "core (k\<lparr>kl := s1\<rparr>)"
    "where_is s1 = (where_is (kl k))(StateItem t := None)" "value_of s1 = value_of (kl k)" using core_remove [OF o(1) L(1)] by auto
  obtain s2 where s2: "leave_event_list t (k\<lparr>kl := s1\<rparr>) = Some (k\<lparr>kl := s2\<rparr>)" "core (k\<lparr>kl := s2\<rparr>)"
    "where_is s2 = (where_is s1)(EventItem t := None)" "value_of s2 = value_of s1" using core_leave [OF s1(2), of t] by auto
  define k3 where "k3 = k\<lparr>kl := s2, uxTaskNumber := uxTaskNumber k + 1\<rparr>"
  have k3: "core k3" "where_is (kl k3) = (where_is (kl k))(StateItem t := None, EventItem t := None)" "value_of (kl k3) = value_of (kl k)"
    using s2 by (simp_all add: k3_def s1(3,4))
  have D: "xTasksWaitingTermination \<noteq> pxDelayedTaskList k" using o(1) by (auto simp: core_in_def)
  have start: "kernel_call (Delete h) k = do {
      k4 \<leftarrow> (if t = pxCurrentTCB k3 then
               do { k' \<leftarrow> list_do (InsertEnd xTasksWaitingTermination (StateItem t)) k3;
                    Some (k'\<lparr>uxDeletedTasksWaitingCleanUp := uxDeletedTasksWaitingCleanUp k' + 1\<rparr>) }
             else Some (prvResetNextTaskUnblockTime (k3\<lparr>uxCurrentNumberOfTasks := uxCurrentNumberOfTasks k3 - 1\<rparr>)));
      Some (if xSchedulerRunning k4 \<and> t = pxCurrentTCB k4 then portYIELD k4 else k4) }"
    unfolding kernel_call.simps vTaskDelete_def Let_def t_def [symmetric] using s1(1) s2(1) by (simp add: k3_def)
  show ?thesis
  proof (cases "t = pxCurrentTCB k")
    case True
    have pr: "prio k t < configMAX_PRIORITIES" "uxBasePriority (tcb k t) < configMAX_PRIORITIES" using o(1) L(1) by (auto simp: core_in_def)
    obtain s where s: "list_do (InsertEnd xTasksWaitingTermination (StateItem t)) k3 = Some (k3\<lparr>kl := s\<rparr>)" "core (k3\<lparr>kl := s\<rparr>)"
      "where_is s = (where_is (kl k3))(StateItem t := Some xTasksWaitingTermination)" "value_of s = value_of (kl k3)"
      using core_insert_end [OF k3(1), of "StateItem t" xTasksWaitingTermination] pr by (auto simp: k3(2)) (auto simp: k3_def)
    define k4 where "k4 = k3\<lparr>kl := s, uxDeletedTasksWaitingCleanUp := uxDeletedTasksWaitingCleanUp k3 + 1\<rparr>"
    have w4: "where_is (kl k4) = (where_is (kl k))(StateItem t := Some xTasksWaitingTermination, EventItem t := None)" by (auto simp: k4_def s(3) k3(2))
    have v4: "value_of (kl k4) = value_of (kl k)" by (simp add: k4_def s(4) k3(3))
    have f4: "pxDelayedTaskList k4 = pxDelayedTaskList k" "xNextTaskUnblockTime k4 = xNextTaskUnblockTime k" by (simp_all add: k4_def k3_def)
    have "alarm k4" by (rule alarm_less [OF o(2)]) (use D in \<open>auto simp: w4 v4 f4 split: if_splits\<close>)
    moreover have "links k4"
    proof -
      have ts: "tasks k4 = tasks k" "deleted k4 = insert t (deleted k)" using L(1) by (auto simp: tasks_def deleted_def w4)
      have "t \<notin> deleted k" using a(2) by (simp add: live_def)
      moreover have "uxDeletedTasksWaitingCleanUp k4 = uxDeletedTasksWaitingCleanUp k + 1" by (simp add: k4_def k3_def)
      ultimately have n: "uxDeletedTasksWaitingCleanUp k4 = of_nat (card (deleted k4))" using o(3) by (simp add: ts links_def add.commute)
      have "t \<in> tasks k" using a(2) by (simp add: live_def)
      moreover have "xSchedulerRunning k \<longrightarrow> container k (StateItem (xIdleTaskHandle k)) \<in> Some ` range Ready"
        "pxCurrentTCB k \<in> tasks k \<or> tasks k = {} \<and> pxCurrentTCB k = 0"
        "\<forall>u e. container k (EventItem u) = Some (EventList e) \<longrightarrow> blocked_in (container k (StateItem u))"
        "\<forall>u. container k (EventItem u) = Some xPendingReadyList \<longrightarrow> uxSchedulerSuspended k \<noteq> 0 \<and> u \<in> tasks k \<and> u \<notin> deleted k"
        "\<forall>u. u \<in> tasks k \<longrightarrow> ucNotifyState (tcb k u) = taskWAITING_NOTIFICATION \<longrightarrow> container k (EventItem u) = None"
        "0 \<notin> tasks k \<and> uxCurrentNumberOfTasks k = of_nat (card (tasks k))"
        using o(3) by (simp_all add: links_def)
      moreover have "xSchedulerRunning k4 = xSchedulerRunning k" "xIdleTaskHandle k4 = xIdleTaskHandle k" "pxCurrentTCB k4 = pxCurrentTCB k"
        "uxSchedulerSuspended k4 = uxSchedulerSuspended k" "uxCurrentNumberOfTasks k4 = uxCurrentNumberOfTasks k" "tcb k4 = tcb k"
        by (simp_all add: k4_def k3_def)
      ultimately show ?thesis using n a(3) unfolding links_def by (simp add: ts w4)
    qed
    ultimately have "kernel_ok k4" using s(2) ok by (simp add: kernel_ok_def k4_def) (simp add: k3_def)
    moreover have "kernel_call (Delete h) k = Some (portYIELD k4)" unfolding start using True s(1) a(1) by (simp add: k4_def k3_def)
    ultimately show ?thesis using a(1) by (simp add: keeps_def k4_def k3_def portYIELD_def)
  next
    case False
    define k4 where "k4 = prvResetNextTaskUnblockTime (k3\<lparr>uxCurrentNumberOfTasks := uxCurrentNumberOfTasks k3 - 1\<rparr>)"
    have c4: "core k4" "alarm k4" using k3(1) alarm_reset [of _ "k3\<lparr>uxCurrentNumberOfTasks := uxCurrentNumberOfTasks k3 - 1\<rparr>"] by (simp_all add: k4_def)
    have "links k4"
      by (rule links_leave [OF o(3), of t]) (use a False k3(2) in \<open>simp_all add: live_def k4_def\<close>, simp_all add: k3_def)
    then have "kernel_ok k4" using c4 ok by (simp add: kernel_ok_def k4_def) (simp add: k3_def)
    moreover have "kernel_call (Delete h) k = Some k4" unfolding start using False by (simp add: k4_def k3_def)
    ultimately show ?thesis using a(1) by (simp add: keeps_def k4_def k3_def)
  qed
qed

lemma keeps_clean_up:
  assumes ok: "kernel_ok k" and al: "allowed CleanUp k"
  shows "keeps CleanUp k"
proof (cases "uxDeletedTasksWaitingCleanUp k > 0")
  case True
  have o: "core k" "alarm k" "links k" using ok by (simp_all add: kernel_ok_def)
  have "deleted k \<noteq> {}" using True o(3) by (auto simp: links_def)
  then obtain d where "container k (StateItem d) = Some xTasksWaitingTermination" by (auto simp: deleted_def)
  then have "the_items k xTasksWaitingTermination \<noteq> []" using set_items [OF o(1), of "StateItem d" xTasksWaitingTermination] by auto
  then obtain x xs where x: "the_items k xTasksWaitingTermination = x # xs" by (auto simp: neq_Nil_conv)
  then have cx: "container k x = Some xTasksWaitingTermination" using set_items [OF o(1), of x xTasksWaitingTermination] by simp
  then obtain t where t: "x = StateItem t" using state_item [OF o(1)] by force
  obtain s where s: "list_do (Remove (StateItem t)) k = Some (k\<lparr>kl := s\<rparr>)" "core (k\<lparr>kl := s\<rparr>)"
    "where_is s = (where_is (kl k))(StateItem t := None)" "value_of s = value_of (kl k)" using core_remove [OF o(1) cx] by (auto simp: t)
  define k' where "k' = k\<lparr>kl := s, uxCurrentNumberOfTasks := uxCurrentNumberOfTasks k - 1, uxDeletedTasksWaitingCleanUp := uxDeletedTasksWaitingCleanUp k - 1\<rparr>"
  have del: "t \<in> deleted k" "t \<in> tasks k" using cx by (simp_all add: deleted_def tasks_def t)
  have "container k (EventItem t) \<noteq> Some xPendingReadyList" "\<And>e. container k (EventItem t) \<noteq> Some (EventList e)"
    using o(3) cx del by (auto simp: links_def blocked_in_def t)
  then have "container k (EventItem t) = None"
    using o(1) unfolding core_in_def by (metis holds_states.elims(3) option.exhaust)
  then have w: "where_is (kl k') = (where_is (kl k))(StateItem t := None, EventItem t := None)" by (auto simp: k'_def s(3))
  have "t \<noteq> xIdleTaskHandle k" using o(3) al cx by (auto simp: links_def t)
  then have "links k'"
    by (intro links_leave [OF o(3), of t]) (use al del w in \<open>simp_all add: k'_def\<close>)
  moreover have "alarm k'" by (rule alarm_less [OF o(2)]) (auto simp: k'_def s(3,4) split: if_splits)
  ultimately have "kernel_ok k'" using s(2) ok by (simp add: kernel_ok_def k'_def)
  moreover have "kernel_call CleanUp k = Some k'" using True s(1) x t by (simp add: clean_up_one_def k'_def)
  ultimately show ?thesis using al by (simp add: keeps_def k'_def)
next
  case False
  then show ?thesis using ok al by (simp add: keeps_def clean_up_one_def)
qed

end
