(* ===== verification/Kernel_Reach.thy ===== *)
theory Kernel_Reach
  imports Kernel_Calls
begin

text \<open>
  The rest of the calls (priorities, creation of tasks, start of the scheduler), and the result: in every state that allowed calls reach,
  every allowed call returns and keeps the invariant. What the scheduler picks follows.
\<close>

section \<open>Priorities\<close>

lemma list_do_set_tcb: "list_do c (set_tcb t f k) = map_option (set_tcb t f) (list_do c k)"
  by (simp add: list_do_def set_tcb_def)

lemma set_tcb_lists: "set_tcb t f (k\<lparr>kl := s\<rparr>) = (set_tcb t f k)\<lparr>kl := s\<rparr>"
  by (simp add: set_tcb_def)

lemma core_set_tcb_out: "core_in P k \<Longrightarrow> container k (StateItem t) = None \<Longrightarrow> core_in P (set_tcb t f k)"
  unfolding core_in_def set_tcb_def by auto

lemma core_set_tcb_in:
  assumes "core_in P k" and "container k (StateItem t) \<notin> Some ` range Ready"
    and "uxPriority (f (tcb k t)) < configMAX_PRIORITIES" "uxBasePriority (f (tcb k t)) < configMAX_PRIORITIES"
  shows "core_in P (set_tcb t f k)"
proof -
  have "\<And>p. container k (StateItem t) \<noteq> Some (Ready p)" using assms(2) by auto
  then show ?thesis using assms(1,3,4) unfolding core_in_def set_tcb_def by auto
qed

text \<open>The priority of a task changes: a ready task moves to another list, any other stays where it is.\<close>

lemma change_priority:
  assumes ok: "kernel_ok k" and t: "t \<in> tasks k" and fr: "frame k k1" and c1: "core k1" "alarm k1"
    and w: "where_is (kl k1) = where_is (kl k)" and tcb: "tcb k1 = tcb k"
    and f: "uxPriority (f (tcb k t)) < configMAX_PRIORITIES" "uxBasePriority (f (tcb k t)) < configMAX_PRIORITIES"
      "ucNotifyState (f (tcb k t)) = ucNotifyState (tcb k t)"
  shows "container k (StateItem t) \<in> Some ` range Ready \<Longrightarrow> \<exists>k2. do { k' \<leftarrow> list_do (Remove (StateItem t)) (set_tcb t f k1); prvAddTaskToReadyList t k' } = Some k2
      \<and> kernel_ok k2 \<and> frame k k2"
    and "container k (StateItem t) \<notin> Some ` range Ready \<Longrightarrow> kernel_ok (set_tcb t f k1)"
proof -
  have l: "links k" using ok by (simp add: kernel_ok_def)
  show "kernel_ok (set_tcb t f k1)" if nr: "container k (StateItem t) \<notin> Some ` range Ready"
  proof -
    have "core (set_tcb t f k1)" using core_set_tcb_in [of _ k1 t f] c1(1) nr f fr by (simp add: w tcb frame_def set_tcb_def)
    moreover have "links (set_tcb t f k1)"
    proof (rule links_ready [OF l])
      show "uxSchedulerSuspended (set_tcb t f k1) \<noteq> 0 \<or> (\<forall>t'. container (set_tcb t f k1) (EventItem t') \<noteq> Some xPendingReadyList)"
        using l fr by (auto simp: links_def w frame_def)
      show "ucNotifyState (tcb (set_tcb t f k1) u) = taskWAITING_NOTIFICATION \<Longrightarrow> ucNotifyState (tcb k u) = taskWAITING_NOTIFICATION" for u
        using f(3) by (auto simp: tcb split: if_splits)
    qed (use fr in \<open>simp_all add: w frame_def\<close>, simp_all add: set_tcb_def)
    ultimately show ?thesis using c1(2) ok fr by (simp add: kernel_ok_def frame_def) (simp add: set_tcb_def)
  qed
  assume "container k (StateItem t) \<in> Some ` range Ready"
  then obtain q where q: "container k (StateItem t) = Some (Ready q)" by auto
  then have "container k1 (StateItem t) = Some (Ready q)" by (simp add: w)
  then obtain s1 where s1: "list_do (Remove (StateItem t)) k1 = Some (k1\<lparr>kl := s1\<rparr>)" "core (k1\<lparr>kl := s1\<rparr>)" "where_is s1 = (where_is (kl k1))(StateItem t := None)"
    "value_of s1 = value_of (kl k1)" using core_remove [OF c1(1)] by auto
  define k' where "k' = set_tcb t f (k1\<lparr>kl := s1\<rparr>)"
  have c': "core k'" using core_set_tcb_out [OF s1(2), of t f] s1(3) by (simp add: k'_def set_tcb_def)
  have w': "where_is (kl k') = (where_is (kl k))(StateItem t := None)" "value_of (kl k') = value_of (kl k1)" "tcb k' t = f (tcb k t)"
    by (simp_all add: k'_def s1(3,4) w tcb)
  obtain s p where s: "prvAddTaskToReadyList t k' = Some (k'\<lparr>uxTopReadyPriority := p, kl := s\<rparr>)" "core (k'\<lparr>uxTopReadyPriority := p, kl := s\<rparr>)"
    "where_is s = (where_is (kl k'))(StateItem t := Some (Ready (prio k' t)))" "value_of s = value_of (kl k')"
    using core_add_ready [OF c', of t] f by (auto simp: w')
  define k2 where "k2 = k'\<lparr>uxTopReadyPriority := p, kl := s\<rparr>"
  have w2: "where_is (kl k2) = (where_is (kl k))(StateItem t := Some (Ready (prio k' t)))" by (simp add: k2_def s(3) w')
  have f2: "frame k k2" "tcb k2 = (tcb k1)(t := f (tcb k t))" "xNextTaskUnblockTime k2 = xNextTaskUnblockTime k1"
    using fr by (simp_all add: k2_def k'_def frame_def set_tcb_def tcb)
  have "alarm k2"
  proof (rule alarm_less [OF c1(2)])
    have D: "pxDelayedTaskList k1 \<noteq> Ready (prio k' t)" "Ready (prio k' t) \<noteq> pxDelayedTaskList k1" "pxDelayedTaskList k2 = pxDelayedTaskList k1"
      using c1(1) f2(1) fr by (auto simp: core_in_def frame_def)
    show "container k1 x = Some (pxDelayedTaskList k1) \<and> item_value k2 x = item_value k1 x" if "container k2 x = Some (pxDelayedTaskList k2)" for x
      using that D by (auto simp: w2 w split: if_splits) (simp_all add: k2_def s(4) w')
  qed (rule f2(3))
  moreover have "links k2"
  proof (rule links_move [OF l q, where L = "Ready (prio k' t)" and e = "container k (EventItem t)"])
    show "where_is (kl k2) = (where_is (kl k))(StateItem t := Some (Ready (prio k' t)), EventItem t := container k (EventItem t))" by (auto simp: w2)
    have "\<And>e. container k (EventItem t) \<noteq> Some (EventList e)" using l q by (auto simp: links_def blocked_in_def)
    moreover have "container k (EventItem t) = Some xPendingReadyList \<Longrightarrow> uxSchedulerSuspended k \<noteq> 0" using l by (simp add: links_def)
    moreover have "\<And>L. container k (EventItem t) = Some L \<Longrightarrow> \<not> holds_states L" using ok by (simp add: kernel_ok_def core_in_def)
    ultimately show "container k (EventItem t) = None \<or> container k (EventItem t) = Some xPendingReadyList \<and> uxSchedulerSuspended k \<noteq> 0
        \<or> (\<exists>a. container k (EventItem t) = Some (EventList a)) \<and> blocked_in (Some (Ready (prio k' t)))"
      by (metis holds_states.elims(3) option.exhaust)
    show "u = t \<and> container k (EventItem t) = None \<or> ucNotifyState (tcb k u) = taskWAITING_NOTIFICATION \<and> (u = t \<longrightarrow> container k (EventItem t) = None)"
      if "u \<in> tasks k" "ucNotifyState (tcb k2 u) = taskWAITING_NOTIFICATION" for u
    proof -
      have "ucNotifyState (tcb k u) = taskWAITING_NOTIFICATION" using that(2) f(3) by (auto simp: f2(2) tcb split: if_splits)
      moreover then have "container k (EventItem u) = None" using l that(1) by (simp add: links_def)
      ultimately show ?thesis by auto
    qed
  qed (use f2(1) in \<open>simp_all add: frame_def\<close>)
  ultimately have "kernel_ok k2" using s(2) ok f2(1) fr by (simp add: kernel_ok_def k2_def [symmetric] frame_def)
  moreover have "do { k' \<leftarrow> list_do (Remove (StateItem t)) (set_tcb t f k1); prvAddTaskToReadyList t k' } = Some k2"
    by (simp add: list_do_set_tcb s1(1) k'_def [symmetric] s(1) k2_def)
  ultimately show "\<exists>k2. do { k' \<leftarrow> list_do (Remove (StateItem t)) (set_tcb t f k1); prvAddTaskToReadyList t k' } = Some k2 \<and> kernel_ok k2 \<and> frame k k2"
    using f2(1) by blast
qed

text \<open>The value of the event item.\<close>

lemma event_value:
  assumes ok: "kernel_ok k"
  shows "\<exists>k1. set_event_value t p k = Some k1 \<and> (\<forall>u f. set_event_value t p (set_tcb u f k) = Some (set_tcb u f k1)) \<and> kernel_ok k1 \<and> frame k k1
    \<and> where_is (kl k1) = where_is (kl k) \<and> tcb k1 = tcb k"
    and "\<exists>k1. list_do (SetValue (EventItem t) v) k = Some k1 \<and> kernel_ok k1 \<and> frame k k1 \<and> where_is (kl k1) = where_is (kl k) \<and> tcb k1 = tcb k"
proof -
  have o: "core k" "alarm k" "links k" using ok by (simp_all add: kernel_ok_def)
  show *: "\<exists>k1. list_do (SetValue (EventItem t) v) k = Some k1 \<and> kernel_ok k1 \<and> frame k k1 \<and> where_is (kl k1) = where_is (kl k) \<and> tcb k1 = tcb k" for v
  proof -
    obtain s where s: "list_do (SetValue (EventItem t) v) k = Some (k\<lparr>kl := s\<rparr>)" "core (k\<lparr>kl := s\<rparr>)" "where_is s = where_is (kl k)"
      "value_of s = (value_of (kl k))(EventItem t := v)" using core_set_event_value [OF o(1)] by auto
    have h: "holds_states (pxDelayedTaskList k)" using o(1) by (auto simp: core_in_def)
    have "alarm (k\<lparr>kl := s\<rparr>)"
    proof (rule alarm_less [OF o(2)])
      fix x
      assume "container (k\<lparr>kl := s\<rparr>) x = Some (pxDelayedTaskList (k\<lparr>kl := s\<rparr>))"
      then have c: "container k x = Some (pxDelayedTaskList k)" by (simp add: s(3))
      then obtain u where "x = StateItem u" using state_item [OF o(1) c h] by blast
      then show "container k x = Some (pxDelayedTaskList k) \<and> item_value (k\<lparr>kl := s\<rparr>) x = item_value k x" using c by (simp add: s(4))
    qed simp
    moreover have "links (k\<lparr>kl := s\<rparr>)" using o(3) by (simp add: links_def tasks_def deleted_def s(3))
    ultimately show ?thesis using s ok by (intro exI [of _ "k\<lparr>kl := s\<rparr>"]) (simp add: kernel_ok_def frame_def)
  qed
  show "\<exists>k1. set_event_value t p k = Some k1 \<and> (\<forall>u f. set_event_value t p (set_tcb u f k) = Some (set_tcb u f k1)) \<and> kernel_ok k1 \<and> frame k k1
    \<and> where_is (kl k1) = where_is (kl k) \<and> tcb k1 = tcb k"
  proof (cases "item_value k (EventItem t) AND taskEVENT_LIST_ITEM_VALUE_IN_USE = 0")
    case True
    then show ?thesis using * [of "configMAX_PRIORITIES - p"] by (auto simp: set_event_value_def list_do_set_tcb)
  next
    case False
    then show ?thesis using ok by (simp add: set_event_value_def)
  qed
qed

lemma priority_bounded: "kernel_ok k \<Longrightarrow> t \<in> tasks k \<Longrightarrow> prio k t < configMAX_PRIORITIES \<and> uxBasePriority (tcb k t) < configMAX_PRIORITIES"
  by (auto simp: kernel_ok_def core_in_def tasks_def)

lemma ready_priority: "kernel_ok k \<Longrightarrow> container k (StateItem t) = Some (Ready (prio k t)) \<longleftrightarrow> container k (StateItem t) \<in> Some ` range Ready"
  by (auto simp: kernel_ok_def core_in_def)

lemma keeps_priority_set:
  assumes ok: "kernel_ok k" and al: "allowed (PrioritySet h q) k"
  shows "keeps (PrioritySet h q) k"
proof -
  define t where "t = prvGetTCBFromHandle h k"
  define p where "p = (if q \<ge> configMAX_PRIORITIES then configMAX_PRIORITIES - 1 else q)"
  have t: "t \<in> tasks k" "xSchedulerRunning k" using al by (simp_all add: t_def)
  have p: "p < configMAX_PRIORITIES" by (simp add: p_def configMAX_PRIORITIES_def not_le)
  define f where "f = (\<lambda>c :: TCB_t. (if uxBasePriority c = uxPriority c then c\<lparr>uxPriority := p\<rparr> else c)\<lparr>uxBasePriority := p\<rparr>)"
  have f: "uxPriority (f (tcb k t)) < configMAX_PRIORITIES" "uxBasePriority (f (tcb k t)) < configMAX_PRIORITIES"
    "ucNotifyState (f (tcb k t)) = ucNotifyState (tcb k t)" using p priority_bounded [OF ok t(1)] by (simp_all add: f_def)
  obtain k1 where k1: "set_event_value t p (set_tcb t f k) = Some (set_tcb t f k1)" "kernel_ok k1" "frame k k1" "where_is (kl k1) = where_is (kl k)" "tcb k1 = tcb k"
    using event_value(1) [OF ok] by blast
  have c1: "core k1" "alarm k1" using k1(2) by (simp_all add: kernel_ok_def)
  note ch = change_priority [where f = f, OF ok t(1) k1(3) c1 k1(4,5) f]
  have "\<exists>k3. (if container (set_tcb t f k1) (StateItem t) = Some (Ready (prio k t)) then
      do { k' \<leftarrow> list_do (Remove (StateItem t)) (set_tcb t f k1); prvAddTaskToReadyList t k' } else Some (set_tcb t f k1)) = Some k3
    \<and> kernel_ok k3 \<and> frame k k3"
    using ch k1(3) ready_priority [OF ok, of t] by (simp add: k1(4))
  then obtain k3 where k3: "(if container (set_tcb t f k1) (StateItem t) = Some (Ready (prio k t)) then
      do { k' \<leftarrow> list_do (Remove (StateItem t)) (set_tcb t f k1); prvAddTaskToReadyList t k' } else Some (set_tcb t f k1)) = Some k3"
    "kernel_ok k3" "frame k k3" by blast
  define y where "y = (if p > uxBasePriority (tcb k t) then t \<noteq> pxCurrentTCB k \<and> p \<ge> prio k (pxCurrentTCB k) else t = pxCurrentTCB k)"
  have "kernel_call (PrioritySet h q) k = (if uxBasePriority (tcb k t) = p then Some k else Some (if y then portYIELD k3 else k3))"
    unfolding kernel_call.simps vTaskPrioritySet_def p_def [symmetric] t_def [symmetric] Let_def f_def [symmetric] k1(1) bind.bind_lunit
    unfolding k3(1) bind.bind_lunit y_def ..
  then show ?thesis using k3(2,3) ok t(2) by (auto simp: keeps_def frame_def portYIELD_def)
qed

lemma keeps_inherit:
  assumes ok: "kernel_ok k" and al: "allowed (Inherit t) k"
  shows "keeps (Inherit t) k"
proof (cases "t = 0 \<or> \<not> prio k t < prio k (pxCurrentTCB k)")
  case True
  then show ?thesis using ok al by (auto simp: keeps_def xTaskPriorityInherit_def)
next
  case False
  then have t: "t \<in> tasks k" "t \<noteq> 0" "xSchedulerRunning k" "prio k t < prio k (pxCurrentTCB k)" using al by auto
  have l: "links k" using ok by (simp add: kernel_ok_def)
  have cur: "pxCurrentTCB k \<in> tasks k" using l idle_counted [OF l t(3)] by (auto simp: links_def)
  define p where "p = prio k (pxCurrentTCB k)"
  have f: "uxPriority (uxPriority_update (\<lambda>_. p) (tcb k t)) < configMAX_PRIORITIES" "uxBasePriority (uxPriority_update (\<lambda>_. p) (tcb k t)) < configMAX_PRIORITIES"
    "ucNotifyState (uxPriority_update (\<lambda>_. p) (tcb k t)) = ucNotifyState (tcb k t)"
    using priority_bounded [OF ok t(1)] priority_bounded [OF ok cur] by (simp_all add: p_def)
  obtain k1 where k1: "set_event_value t p k = Some k1" "kernel_ok k1" "frame k k1" "where_is (kl k1) = where_is (kl k)" "tcb k1 = tcb k"
    using event_value(1) [OF ok] by blast
  have c1: "core k1" "alarm k1" using k1(2) by (simp_all add: kernel_ok_def)
  have swap: "do { k' \<leftarrow> list_do (Remove (StateItem t)) k1; prvAddTaskToReadyList t (set_tcb t (uxPriority_update (\<lambda>_. p)) k') }
      = do { k' \<leftarrow> list_do (Remove (StateItem t)) (set_tcb t (uxPriority_update (\<lambda>_. p)) k1); prvAddTaskToReadyList t k' }"
    by (cases "list_do (Remove (StateItem t)) k1") (simp_all add: list_do_set_tcb)
  note ch = change_priority [where f = \<open>uxPriority_update (\<lambda>_. p)\<close>, OF ok t(1) k1(3) c1 k1(4,5) f]
  have "\<exists>k3. (if container k1 (StateItem t) = Some (Ready (prio k1 t)) then
      do { k' \<leftarrow> list_do (Remove (StateItem t)) k1; prvAddTaskToReadyList t (set_tcb t (uxPriority_update (\<lambda>_. p)) k') }
      else Some (set_tcb t (uxPriority_update (\<lambda>_. p)) k1)) = Some k3 \<and> kernel_ok k3 \<and> frame k k3"
    unfolding swap using ch k1(3) ready_priority [OF ok, of t] by (simp add: k1(4,5))
  then obtain k3 where k3: "(if container k1 (StateItem t) = Some (Ready (prio k1 t)) then
      do { k' \<leftarrow> list_do (Remove (StateItem t)) k1; prvAddTaskToReadyList t (set_tcb t (uxPriority_update (\<lambda>_. p)) k') }
      else Some (set_tcb t (uxPriority_update (\<lambda>_. p)) k1)) = Some k3" "kernel_ok k3" "frame k k3" by blast
  have "kernel_call (Inherit t) k = Some k3"
    using t(2,4) unfolding kernel_call.simps xTaskPriorityInherit_def p_def [symmetric] k1(1) bind.bind_lunit k3(1) by simp
  then show ?thesis using k3(2,3) t(3) by (auto simp: keeps_def frame_def)
qed

lemma keeps_disinherit:
  assumes ok: "kernel_ok k" and al: "allowed (Disinherit t) k"
  shows "keeps (Disinherit t) k"
proof (cases "t = 0")
  case True
  then show ?thesis using ok al by (simp add: keeps_def xTaskPriorityDisinherit_def)
next
  case False
  then have rd: "container k (StateItem t) \<in> Some ` range Ready" "xSchedulerRunning k" using al by auto
  then have t: "t \<in> tasks k" by (auto simp: tasks_def)
  have l: "links k" using ok by (simp add: kernel_ok_def)
  define g :: "TCB_t \<Rightarrow> TCB_t" where "g = (\<lambda>c. c\<lparr>uxMutexesHeld := uxMutexesHeld c - 1\<rparr>)"
  define k1 where "k1 = set_tcb t g k"
  have ok1: "kernel_ok k1" unfolding k1_def by (rule set_tcb_ok [OF ok]) (use t l in \<open>simp_all add: g_def links_def\<close>)
  have k1: "t \<in> tasks k1" "container k1 (StateItem t) \<in> Some ` range Ready" "xSchedulerRunning k1" using t rd by (simp_all add: k1_def tasks_def)
  show ?thesis
  proof (cases "prio k1 t \<noteq> uxBasePriority (tcb k1 t) \<and> uxMutexesHeld (tcb k1 t) = 0")
    case True
    define f :: "TCB_t \<Rightarrow> TCB_t" where "f = (\<lambda>c. c\<lparr>uxPriority := uxBasePriority c\<rparr>)"
    define v where "v = configMAX_PRIORITIES - uxBasePriority (tcb k1 t)"
    have f: "uxPriority (f (tcb k1 t)) < configMAX_PRIORITIES" "uxBasePriority (f (tcb k1 t)) < configMAX_PRIORITIES"
      "ucNotifyState (f (tcb k1 t)) = ucNotifyState (tcb k1 t)" using priority_bounded [OF ok1 k1(1)] by (simp_all add: f_def)
    obtain k2 where k2: "list_do (SetValue (EventItem t) v) k1 = Some k2" "kernel_ok k2" "frame k1 k2" "where_is (kl k2) = where_is (kl k1)" "tcb k2 = tcb k1"
      using event_value(2) [OF ok1] by blast
    have c2: "core k2" "alarm k2" using k2(2) by (simp_all add: kernel_ok_def)
    obtain k3 where k3: "do { k' \<leftarrow> list_do (Remove (StateItem t)) (set_tcb t f k2); prvAddTaskToReadyList t k' } = Some k3" "kernel_ok k3" "frame k1 k3"
      using change_priority(1) [where f = f, OF ok1 k1(1) k2(3) c2 k2(4,5) f k1(2)] by blast
    have "do { k' \<leftarrow> list_do (Remove (StateItem t)) k1; k4 \<leftarrow> list_do (SetValue (EventItem t) v) (set_tcb t f k'); prvAddTaskToReadyList t k4 }
        = do { k' \<leftarrow> list_do (Remove (StateItem t)) (set_tcb t f k2); prvAddTaskToReadyList t k' }"
    proof -
      have fit: "fits (kl k1) (Remove (StateItem t))" "fits (kl k2) (Remove (StateItem t))" using k1(2) by (auto simp: k2(4))
      have "kl k2 = lists_call (SetValue (EventItem t) v) (kl k1)" "k2 = k1\<lparr>kl := kl k2\<rparr>" using k2(1) by (auto simp: list_do_def)
      then have "list_do (SetValue (EventItem t) v) (k1\<lparr>kl := lists_call (Remove (StateItem t)) (kl k1)\<rparr>) = Some (k2\<lparr>kl := lists_call (Remove (StateItem t)) (kl k2)\<rparr>)"
        using k1(2) by (auto simp: list_do_def)
      then show ?thesis using fit by (simp add: list_do_set_tcb list_do_Some)
    qed
    moreover have "prio (set_tcb t f k') t = uxBasePriority (tcb k1 t)" if "list_do (Remove (StateItem t)) k1 = Some k'" for k'
      using that by (auto simp: f_def list_do_def split: if_splits)
    ultimately have "map_option fst (xTaskPriorityDisinherit t k) = Some k3"
      using False True k3(1) list_do_Some [of k1 "Remove (StateItem t)"] k1(2)
      unfolding xTaskPriorityDisinherit_def g_def [symmetric] k1_def [symmetric] Let_def f_def [symmetric]
      by (auto simp: v_def split: Option.bind_splits)
    then show ?thesis using k3(2,3) k1(3) by (auto simp: keeps_def frame_def)
  next
    case no: False
    have "map_option fst (xTaskPriorityDisinherit t k) = Some k1"
      using False no unfolding xTaskPriorityDisinherit_def g_def [symmetric] k1_def [symmetric] Let_def by auto
    then show ?thesis using ok1 k1(3) by (auto simp: keeps_def)
  qed
qed

lemma keeps_disinherit_timeout:
  assumes ok: "kernel_ok k" and al: "allowed (DisinheritTimeout t q) k"
  shows "keeps (DisinheritTimeout t q) k"
proof -
  define p where "p = max (uxBasePriority (tcb k t)) q"
  show ?thesis
  proof (cases "t \<noteq> 0 \<and> prio k t \<noteq> p \<and> uxMutexesHeld (tcb k t) = 1")
    case False
    then show ?thesis using ok al unfolding keeps_def kernel_call.simps vTaskPriorityDisinheritAfterTimeout_def p_def [symmetric] Let_def by auto
  next
    case True
    then have t: "t \<in> tasks k" "xSchedulerRunning k" using al by auto
    have f: "uxPriority (uxPriority_update (\<lambda>_. p) (tcb k t)) < configMAX_PRIORITIES" "uxBasePriority (uxPriority_update (\<lambda>_. p) (tcb k t)) < configMAX_PRIORITIES"
      "ucNotifyState (uxPriority_update (\<lambda>_. p) (tcb k t)) = ucNotifyState (tcb k t)"
      using priority_bounded [OF ok t(1)] al by (simp_all add: p_def)
    obtain k1 where k1: "set_event_value t p (set_tcb t (uxPriority_update (\<lambda>_. p)) k) = Some (set_tcb t (uxPriority_update (\<lambda>_. p)) k1)" "kernel_ok k1" "frame k k1"
      "where_is (kl k1) = where_is (kl k)" "tcb k1 = tcb k" using event_value(1) [OF ok] by blast
    have c1: "core k1" "alarm k1" using k1(2) by (simp_all add: kernel_ok_def)
    note ch = change_priority [where f = \<open>uxPriority_update (\<lambda>_. p)\<close>, OF ok t(1) k1(3) c1 k1(4,5) f]
    define k2 where "k2 = set_tcb t (uxPriority_update (\<lambda>_. p)) k1"
    have "\<exists>k3. (if container k2 (StateItem t) = Some (Ready (prio k t)) then
        do { k' \<leftarrow> list_do (Remove (StateItem t)) k2; prvAddTaskToReadyList t k' } else Some k2) = Some k3 \<and> kernel_ok k3 \<and> frame k k3"
      using ch k1(3) ready_priority [OF ok, of t] by (simp add: k2_def k1(4))
    then obtain k3 where k3: "(if container k2 (StateItem t) = Some (Ready (prio k t)) then
        do { k' \<leftarrow> list_do (Remove (StateItem t)) k2; prvAddTaskToReadyList t k' } else Some k2) = Some k3" "kernel_ok k3" "frame k k3" by blast
    have "kernel_call (DisinheritTimeout t q) k = Some k3"
      using True unfolding kernel_call.simps vTaskPriorityDisinheritAfterTimeout_def p_def [symmetric] Let_def k1(1) bind.bind_lunit k2_def [symmetric] k3(1) by simp
    then show ?thesis using k3(2,3) t(2) by (simp add: keeps_def frame_def)
  qed
qed

section \<open>Creating tasks and starting the scheduler\<close>

lemma no_event_outside:
  assumes ok: "kernel_ok k" and t: "t \<notin> tasks k"
  shows "container k (EventItem t) = None"
proof -
  have l: "links k" using ok by (simp add: kernel_ok_def)
  have "\<And>e. container k (EventItem t) \<noteq> Some (EventList e)" "container k (EventItem t) \<noteq> Some xPendingReadyList"
    using l t by (auto simp: links_def tasks_def blocked_in_def)
  moreover have "\<And>L. container k (EventItem t) = Some L \<Longrightarrow> \<not> holds_states L" using ok by (simp add: kernel_ok_def core_in_def)
  ultimately show ?thesis by (metis holds_states.elims(3) option.exhaust)
qed

lemma init_lists:
  assumes ok: "kernel_ok k" and t: "tasks k = {}"
  shows "kernel_ok (prvInitialiseTaskLists k)" and "where_is (kl (prvInitialiseTaskLists k)) = where_is (kl k)"
proof -
  define k' where "k' = prvInitialiseTaskLists k"
  have o: "core k" "alarm k" "links k" using ok by (simp_all add: kernel_ok_def)
  have none: "container k x = None" for x
  proof (cases x)
    case (StateItem u)
    then show ?thesis using t by (auto simp: tasks_def)
  next
    case (EventItem u)
    then show ?thesis using no_event_outside [OF ok, of u] t by simp
  qed
  show w: "where_is (kl (prvInitialiseTaskLists k)) = where_is (kl k)" by (simp add: prvInitialiseTaskLists_def)
  have e: "items (lists_of (kl k) L) = [] \<and> index (lists_of (kl k) L) = None" for L
  proof -
    have "set (items (lists_of (kl k) L)) = {}" "\<And>y. index (lists_of (kl k) L) \<noteq> Some y" using o(1) none by (auto simp: core_in_def wf_lists_def)
    then show ?thesis by auto
  qed
  have e': "items (lists_of (kl k') L) = [] \<and> index (lists_of (kl k') L) = None" for L
    using e by (auto simp: k'_def prvInitialiseTaskLists_def kl_empty_def split: list_id.split)
  have f: "pxDelayedTaskList k' = xDelayedTaskList1" "pxOverflowDelayedTaskList k' = xDelayedTaskList2" by (simp_all add: k'_def prvInitialiseTaskLists_def)
  have "core k'" unfolding core_in_def using e' none w [folded k'_def] by (simp add: f wf_lists_def)
  moreover have "alarm k'" using none w [folded k'_def] by (simp add: alarm_def)
  moreover have "links k'" using o(3) by (simp add: links_def tasks_def deleted_def k'_def prvInitialiseTaskLists_def)
  ultimately show "kernel_ok (prvInitialiseTaskLists k)" using ok by (simp add: kernel_ok_def k'_def) (simp add: prvInitialiseTaskLists_def)
qed

lemma init_commutes:
  "prvInitialiseTaskLists (k\<lparr>uxCurrentNumberOfTasks := n, pxCurrentTCB := t\<rparr>) = (prvInitialiseTaskLists k)\<lparr>uxCurrentNumberOfTasks := n, pxCurrentTCB := t\<rparr>"
  by (simp add: prvInitialiseTaskLists_def cong: list_id.case_cong if_cong)

lemma create_ok:
  assumes inv: "kernel_inv k" and t: "t \<noteq> 0" "t \<notin> tasks k"
  shows "\<exists>k'. xTaskCreate (Some t) q k = Some (k', True) \<and> kernel_inv k' \<and> tasks k' = insert t (tasks k) \<and> xSchedulerRunning k' = xSchedulerRunning k
    \<and> container k' (StateItem t) \<in> Some ` range Ready \<and> (\<forall>u. u \<noteq> t \<longrightarrow> container k' (StateItem u) = container k (StateItem u))
    \<and> uxSchedulerSuspended k' = uxSchedulerSuspended k \<and> xIdleTaskHandle k' = xIdleTaskHandle k"
proof -
  have ok: "kernel_ok k" using inv by (simp add: kernel_inv_def)
  have o: "core k" "alarm k" "links k" using ok by (simp_all add: kernel_ok_def)
  define p where "p = (if q \<ge> configMAX_PRIORITIES then configMAX_PRIORITIES - 1 else q)"
  have p: "p < configMAX_PRIORITIES" by (simp add: p_def configMAX_PRIORITIES_def not_le)
  define c where "c = \<lparr>uxPriority = p, uxBasePriority = p, uxMutexesHeld = 0, ulNotifiedValue = 0, ucNotifyState = taskNOT_WAITING_NOTIFICATION\<rparr>"
  have none: "container k (StateItem t) = None" "container k (EventItem t) = None" using t(2) no_event_outside [OF ok t(2)] by (auto simp: tasks_def)
  then have "(where_is (kl k))(StateItem t := None, EventItem t := None) = where_is (kl k)" by auto
  then have kl: "(kl k)\<lparr>where_is := (where_is (kl k))(StateItem t := None, EventItem t := None)\<rparr> = kl k" by simp
  define k1 where "k1 = set_tcb t (\<lambda>_. c) k"
  have l1: "links k1" using o(3) t(2) by (auto simp: links_def tasks_def deleted_def k1_def set_tcb_def)
  have ok1: "kernel_ok k1" using core_set_tcb_out [OF o(1) none(1)] o(2) l1 ok by (simp add: kernel_ok_def k1_def) (simp add: set_tcb_def)
  obtain k2 where k2: "list_do (SetValue (EventItem t) (configMAX_PRIORITIES - p)) k1 = Some k2" "kernel_ok k2" "frame k1 k2"
    "where_is (kl k2) = where_is (kl k1)" "tcb k2 = tcb k1" using event_value(2) [OF ok1] by blast
  have e2: "k2 = k1\<lparr>kl := kl k2\<rparr>" using k2(1) by (auto simp: list_do_def)
  have i: "prvInitialiseNewTask q t k = Some k2"
    unfolding prvInitialiseNewTask_def p_def [symmetric] Let_def c_def [symmetric] kl using k2(1) by (simp add: k1_def set_tcb_def)
  have w2: "where_is (kl k2) = where_is (kl k)" using k2(4) by (simp add: k1_def)
  have ts2: "tasks k2 = tasks k" "deleted k2 = deleted k" by (simp_all add: tasks_def deleted_def w2)
  define k3 where "k3 = (if pxCurrentTCB k = 0 then (if uxCurrentNumberOfTasks k + 1 = 1 then prvInitialiseTaskLists k2 else k2) else k2)"
  have o2: "core k2" "alarm k2" "links k2" using k2(2) by (simp_all add: kernel_ok_def)
  have empty: "tasks k2 = {}" if "pxCurrentTCB k = 0" using o(3) that ts2 by (auto simp: links_def)
  have k3: "kernel_ok k3" "where_is (kl k3) = where_is (kl k)" "tcb k3 = tcb k1"
    using k2(2) w2 k2(5) init_lists [OF k2(2) empty] by (auto simp: k3_def) (simp add: prvInitialiseTaskLists_def)
  have f3: "pxCurrentTCB k3 = pxCurrentTCB k" "uxCurrentNumberOfTasks k3 = uxCurrentNumberOfTasks k" "xSchedulerRunning k3 = xSchedulerRunning k"
    "uxSchedulerSuspended k3 = uxSchedulerSuspended k" "xIdleTaskHandle k3 = xIdleTaskHandle k"
    using k2(3) by (simp_all add: k3_def frame_def prvInitialiseTaskLists_def k1_def set_tcb_def)
  define cur where "cur = (if pxCurrentTCB k = 0 \<or> \<not> xSchedulerRunning k \<and> prio k3 (pxCurrentTCB k) \<le> p then t else pxCurrentTCB k)"
  define k4 where "k4 = k3\<lparr>pxCurrentTCB := cur, uxCurrentNumberOfTasks := uxCurrentNumberOfTasks k + 1, uxTaskNumber := uxTaskNumber k3 + 1\<rparr>"
  have o3: "core k3" "alarm k3" "links k3" using k3(1) by (simp_all add: kernel_ok_def)
  have c4: "core k4" "alarm k4" using o3(1,2) by (simp_all add: k4_def)
  have pt: "tcb k3 t = c" "tcb k4 t = c" by (simp_all add: k3(3) k1_def k4_def)
  obtain s tp where s: "prvAddTaskToReadyList t k4 = Some (k4\<lparr>uxTopReadyPriority := tp, kl := s\<rparr>)" "core (k4\<lparr>uxTopReadyPriority := tp, kl := s\<rparr>)"
    "where_is s = (where_is (kl k4))(StateItem t := Some (Ready p))" "value_of s = value_of (kl k4)"
    using core_add_ready [OF c4(1), of t] p none(1) by (auto simp: pt c_def k4_def k3(2))
  define k5 where "k5 = k4\<lparr>uxTopReadyPriority := tp, kl := s\<rparr>"
  have w5: "where_is (kl k5) = (where_is (kl k))(StateItem t := Some (Ready p))" by (simp add: k5_def s(3) k4_def k3(2))
  have ts5: "tasks k5 = insert t (tasks k)" "deleted k5 = deleted k" using none(1) by (auto simp: tasks_def deleted_def w5)
  have D: "pxDelayedTaskList k4 \<noteq> Ready p" "Ready p \<noteq> pxDelayedTaskList k4" using c4(1) by (auto simp: core_in_def)
  have "alarm k5" by (rule alarm_less [OF c4(2)]) (use D in \<open>auto simp: k5_def s(3,4) split: if_splits\<close>)
  moreover have "links k5"
  proof -
    have f5: "xSchedulerRunning k5 = xSchedulerRunning k" "xIdleTaskHandle k5 = xIdleTaskHandle k" "pxCurrentTCB k5 = cur"
      "uxSchedulerSuspended k5 = uxSchedulerSuspended k" "uxCurrentNumberOfTasks k5 = uxCurrentNumberOfTasks k + 1"
      "uxDeletedTasksWaitingCleanUp k5 = uxDeletedTasksWaitingCleanUp k3" "tcb k5 = (tcb k)(t := c)"
      by (simp_all add: k5_def k4_def f3 k3(3)) (simp add: k1_def set_tcb_def)
    have d3: "deleted k3 = deleted k" "tasks k3 = tasks k" by (simp_all add: deleted_def tasks_def k3(2))
    have dl: "uxDeletedTasksWaitingCleanUp k3 = of_nat (card (deleted k))" using o3(3) by (simp add: links_def d3)
    have 1: "xSchedulerRunning k \<longrightarrow> container k5 (StateItem (xIdleTaskHandle k)) \<in> Some ` range Ready" using o(3) by (auto simp: links_def w5)
    have 2: "cur \<in> insert t (tasks k)" using o(3) by (auto simp: cur_def links_def)
    have 3: "\<forall>u e. container k5 (EventItem u) = Some (EventList e) \<longrightarrow> blocked_in (container k5 (StateItem u))"
      using o(3) none(2) by (auto simp: links_def w5)
    have 4: "\<forall>u. container k5 (EventItem u) = Some xPendingReadyList \<longrightarrow> uxSchedulerSuspended k \<noteq> 0 \<and> u \<in> insert t (tasks k) \<and> u \<notin> deleted k"
      using o(3) by (simp add: links_def w5)
    have 5: "\<forall>u. u \<in> insert t (tasks k) \<longrightarrow> ucNotifyState (((tcb k)(t := c)) u) = taskWAITING_NOTIFICATION \<longrightarrow> container k5 (EventItem u) = None"
      using o(3) by (simp add: links_def w5 c_def)
    have 6: "0 \<notin> insert t (tasks k)" "uxCurrentNumberOfTasks k + 1 = of_nat (card (insert t (tasks k)))"
      using o(3) t by (simp_all add: links_def add.commute)
    show ?thesis unfolding links_def using 1 2 3 4 5 6 by (simp add: ts5 f5 dl)
  qed
  ultimately have ok5: "kernel_ok k5" using s(2) k3(1) f3 by (simp add: kernel_ok_def k5_def k4_def)
  have run5: "xSchedulerRunning k5 = xSchedulerRunning k" by (simp add: k5_def k4_def f3)
  have "prvAddNewTaskToReadyList t k2 = Some (if xSchedulerRunning k5 \<and> prio k5 (pxCurrentTCB k5) < prio k5 t then portYIELD k5 else k5)"
  proof -
    have f2: "pxCurrentTCB k2 = pxCurrentTCB k" "uxCurrentNumberOfTasks k2 = uxCurrentNumberOfTasks k" "xSchedulerRunning k2 = xSchedulerRunning k"
      using k2(3) by (simp_all add: frame_def k1_def set_tcb_def)
    have pt2: "prio k2 t = p" "tcb k3 = tcb k2" by (simp_all add: k2(5) k3(3) k1_def c_def)
    have "(let k1 = k2\<lparr>uxCurrentNumberOfTasks := uxCurrentNumberOfTasks k2 + 1\<rparr>;
         k2 = (if pxCurrentTCB k1 = 0 then
                  (if uxCurrentNumberOfTasks k1 = 1 then prvInitialiseTaskLists (k1\<lparr>pxCurrentTCB := t\<rparr>) else k1\<lparr>pxCurrentTCB := t\<rparr>)
                else if \<not> xSchedulerRunning k1 \<and> prio k1 (pxCurrentTCB k1) \<le> prio k1 t then k1\<lparr>pxCurrentTCB := t\<rparr> else k1)
       in k2\<lparr>uxTaskNumber := uxTaskNumber k2 + 1\<rparr>) = k4"
      using pt2 by (auto simp: Let_def f2 k4_def k3_def cur_def init_commutes split: if_splits)
    then show ?thesis using s(1) unfolding prvAddNewTaskToReadyList_def Let_def by (simp add: k5_def)
  qed
  then have "xTaskCreate (Some t) q k = Some (if xSchedulerRunning k5 \<and> prio k5 (pxCurrentTCB k5) < prio k5 t then portYIELD k5 else k5, True)"
    by (simp add: xTaskCreate_def i)
  moreover have "kernel_inv k5" using inv ok5 by (auto simp: kernel_inv_def run5 w5 split: if_splits)
  moreover have "uxSchedulerSuspended k5 = uxSchedulerSuspended k" "xIdleTaskHandle k5 = xIdleTaskHandle k" by (simp_all add: k5_def k4_def f3)
  ultimately show ?thesis using run5 ts5(1) w5
    by (cases "xSchedulerRunning k5 \<and> prio k5 (pxCurrentTCB k5) < prio k5 t") (auto simp: kernel_inv_def tasks_def, auto simp: portYIELD_def)
qed

lemma start_ok:
  assumes inv: "kernel_inv k" and al: "allowed (Start i m) k"
  shows "\<exists>k'. kernel_call (Start i m) k = Some k' \<and> kernel_inv k'"
proof (cases i)
  case None
  then show ?thesis using inv by (simp add: vTaskStartScheduler_def xTaskCreate_def)
next
  case (Some t)
  have t: "t \<noteq> 0" "t \<notin> tasks k" "m \<noteq> Some t" "\<not> xSchedulerRunning k" "uxSchedulerSuspended k = 0" using al Some by auto
  obtain k1 where k1: "xTaskCreate (Some t) tskIDLE_PRIORITY k = Some (k1, True)" "kernel_inv k1" "tasks k1 = insert t (tasks k)" "\<not> xSchedulerRunning k1"
    "container k1 (StateItem t) \<in> Some ` range Ready" "uxSchedulerSuspended k1 = 0" using create_ok [OF inv t(1,2), of tskIDLE_PRIORITY] t(4,5) by auto
  define k2 where "k2 = k1\<lparr>xIdleTaskHandle := t\<rparr>"
  have l1: "links k2" using k1(2,4) by (simp add: kernel_inv_def kernel_ok_def links_def k2_def tasks_def deleted_def)
  have k2: "kernel_inv k2" "tasks k2 = insert t (tasks k)" "\<not> xSchedulerRunning k2" "container k2 (StateItem t) \<in> Some ` range Ready" "uxSchedulerSuspended k2 = 0"
    using k1(2-6) l1 by (simp_all add: kernel_inv_def kernel_ok_def k2_def core_in_def alarm_def tasks_def)
  have id2: "xIdleTaskHandle k2 = t" by (simp add: k2_def)
  show ?thesis
  proof (cases m)
    case None
    then show ?thesis using k1(1) k2(1) Some by (simp add: vTaskStartScheduler_def xTaskCreate_def k2_def)
  next
    case m: (Some u)
    have u: "u \<noteq> 0" "u \<notin> tasks k2" "u \<noteq> t" using al Some m k2(2) by auto
    obtain k3 where k3: "xTaskCreate (Some u) configTIMER_TASK_PRIORITY k2 = Some (k3, True)" "kernel_inv k3" "\<not> xSchedulerRunning k3"
      "container k3 (StateItem t) \<in> Some ` range Ready" "uxSchedulerSuspended k3 = 0"
      and id3: "xIdleTaskHandle k3 = t"
      using create_ok [OF k2(1) u(1,2), of configTIMER_TASK_PRIORITY] k2(3-5) id2 u(3) by auto
    define k4 where "k4 = k3\<lparr>xNextTaskUnblockTime := portMAX_TICK, xSchedulerRunning := True, xTickCount := 0\<rparr>"
    have rd: "\<And>x L. container k3 x = Some L \<Longrightarrow> L \<in> range Ready" using k3(2,3) by (simp add: kernel_inv_def)
    have o: "core k3" "links k3" "uxPendedTicks k3 = 0" using k3(2,5) by (simp_all add: kernel_inv_def kernel_ok_def)
    have nd: "container k3 x \<noteq> Some (pxDelayedTaskList k3)" "container k3 x \<noteq> Some (pxOverflowDelayedTaskList k3)" for x
      using rd [of x] o(1) by (auto simp: core_in_def)
    have "core k4" using o(1) nd unfolding core_in_def k4_def by simp
    moreover have "alarm k4" using nd by (simp add: alarm_def k4_def)
    moreover have "links k4" using o(2) k3(4) id3 by (simp add: links_def k4_def tasks_def deleted_def)
    ultimately have "kernel_ok k4" using o(3) by (simp add: kernel_ok_def k4_def)
    then obtain k5 where "vTaskSwitchContext k4 = Some k5" "kernel_ok k5" "xSchedulerRunning k5" using switch_ok [of k4] by (auto simp: k4_def)
    then show ?thesis using Some m k1(1) k3(1) by (simp add: vTaskStartScheduler_def kernel_inv_def k2_def k4_def)
  qed
qed

section \<open>Reachable states\<close>

lemma reset_inv: "kernel_reset k \<Longrightarrow> kernel_inv k"
  by (auto simp: kernel_reset_def kernel_inv_def kernel_ok_def core_in_def wf_lists_def kl_empty_def alarm_def links_def tasks_def deleted_def)

lemma call_keeps:
  assumes inv: "kernel_inv k" and al: "allowed c k"
  shows "\<exists>k'. kernel_call c k = Some k' \<and> kernel_inv k'"
proof -
  have ok: "kernel_ok k" using inv by (simp add: kernel_inv_def)
  consider (create) t p where "c = Create t p" | (start) i t where "c = Start i t" | (running) "xSchedulerRunning k" "\<And>t p. c \<noteq> Create t p" "\<And>i t. c \<noteq> Start i t"
    using al by (cases c) auto
  then show ?thesis
  proof cases
    case create
    then show ?thesis
    proof (cases t)
      case None
      then show ?thesis using inv create by (simp add: xTaskCreate_def)
    next
      case (Some a)
      then show ?thesis using create_ok [OF inv, of a p] al create by auto
    qed
  next
    case start
    then show ?thesis using start_ok [OF inv, of i t] al by simp
  next
    case running
    have "keeps c k"
      using running al ok
      by (cases c) (simp_all add: keeps_tick keeps_scheduler keeps_delay keeps_delay_until keeps_suspend keeps_resume keeps_resume_isr keeps_delete
        keeps_clean_up keeps_priority_set keeps_inherit keeps_disinherit keeps_disinherit_timeout keeps_wait_event keeps_wait_unordered
        keeps_wait_restricted keeps_wake_event keeps_wake_unordered keeps_notify keeps_notify_isr keeps_give_isr keeps_wait_enter keeps_take_enter keeps_leave, blast)
    then show ?thesis by (auto simp: keeps_def kernel_inv_def)
  qed
qed

lemma reachable_inv: "reachable k \<Longrightarrow> kernel_inv k"
proof (induction rule: reachable.induct)
  case (start k)
  then show ?case by (rule reset_inv)
next
  case (step k c k')
  then show ?case using call_keeps [of k c] by auto
qed

text \<open>Memory as the start-up code leaves it, cleared.\<close>

definition kernel0 :: kernel where
  "kernel0 = \<lparr>kl = \<lparr>lists_of = \<lambda>_. kl_empty, where_is = \<lambda>_. None, value_of = \<lambda>_. 0\<rparr>,
     tcb = \<lambda>_. \<lparr>uxPriority = 0, uxBasePriority = 0, uxMutexesHeld = 0, ulNotifiedValue = 0, ucNotifyState = taskNOT_WAITING_NOTIFICATION\<rparr>,
     pxCurrentTCB = 0, pxDelayedTaskList = xDelayedTaskList1, pxOverflowDelayedTaskList = xDelayedTaskList2, uxDeletedTasksWaitingCleanUp = 0,
     uxCurrentNumberOfTasks = 0, xTickCount = 0, uxTopReadyPriority = 0, xSchedulerRunning = False, uxPendedTicks = 0, xYieldPending = False,
     xNumOfOverflows = 0, uxTaskNumber = 0, xNextTaskUnblockTime = 0, xIdleTaskHandle = 0, uxSchedulerSuspended = 0, SWReq = False\<rparr>"

lemma kernel0_reset: "kernel_reset kernel0"
  by (simp add: kernel_reset_def kernel0_def)

lemma kernel0_start: "allowed (Start (Some 1) (Some 2)) kernel0"
  by (simp add: kernel0_def tasks_def)

lemma started:
  "map_option (\<lambda>k. (xSchedulerRunning k, uxSchedulerSuspended k, pxCurrentTCB k, xIdleTaskHandle k, container k (StateItem 1), container k (StateItem 2),
      container k (EventItem 2), ucNotifyState (tcb k 2))) (kernel_call (Start (Some 1) (Some 2)) kernel0)
    = Some (True, 0, 2, 1, Some (Ready 0), Some (Ready 2), None, taskNOT_WAITING_NOTIFICATION)"
  by code_simp

text \<open>C1: The scheduler never corrupts its lists and never loses a task. In every state that the kernel reaches from cleared memory by allowed
  calls, from tasks and from interrupts in any order, every allowed call returns (no search or loop runs on, no list item is removed that is in no list or
  inserted twice) and keeps the invariant: each task's state item is in exactly one list, a ready task in the list of its priority, the delayed lists are
  sorted by wake time and split at the overflow of the tick count, the next unblock time is never after the first of them, a task waits for an event only
  while it is blocked, the idle task is ready, the running task exists, and the counters of tasks are right.\<close>

theorem kernel_safe:
  assumes "reachable k" and "allowed c k"
  shows "\<exists>k'. kernel_call c k = Some k' \<and> kernel_inv k'"
  using call_keeps [OF reachable_inv [OF assms(1)] assms(2)] .

lemma kernel_safe_witness: "\<exists>k1 k2. kernel_call (Start (Some 1) (Some 2)) kernel0 = Some k1 \<and> kernel_call Tick k1 = Some k2 \<and> kernel_inv k2 \<and> xSchedulerRunning k1"
proof -
  have r0: "reachable kernel0" by (rule reachable.start) (rule kernel0_reset)
  obtain k1 where k1: "kernel_call (Start (Some 1) (Some 2)) kernel0 = Some k1" "kernel_inv k1" using kernel_safe [OF r0 kernel0_start] by blast
  have "reachable k1" by (rule reachable.step [OF r0 kernel0_start k1(1)])
  moreover have run: "xSchedulerRunning k1"
    using started k1(1) by simp
  ultimately obtain k2 where "kernel_call Tick k1 = Some k2" "kernel_inv k2" using kernel_safe [of k1 Tick] by auto
  then show ?thesis using k1(1) run by blast
qed

end
