(* ===== verification/Kernel_Time.thy ===== *)
theory Kernel_Time
  imports Kernel_Reach
begin

text \<open>
  Time in the kernel: what a tick wakes, that delays and the ticks counted while the scheduler is suspended are exact, also when
  the 32-bit tick count overflows, that time-outs are, and that the ready tasks of the highest priority take turns.
\<close>

section \<open>A running kernel\<close>

text \<open>With the idle task 1 and the timer task 2, which runs.\<close>

lemma running_kernel:
  "\<exists>k. kernel_call (Start (Some 1) (Some 2)) kernel0 = Some k \<and> reachable k \<and> xSchedulerRunning k \<and> uxSchedulerSuspended k = 0 \<and> may_block k
    \<and> pxCurrentTCB k = 2 \<and> container k (StateItem 2) = Some (Ready 2) \<and> uxTopReadyPriority k = 2 \<and> xTickCount k = 0 \<and> length (the_items k (Ready 2)) = 1
    \<and> prio k 2 = 2"
proof -
  have c: "map_option (\<lambda>k. (xSchedulerRunning k, uxSchedulerSuspended k, pxCurrentTCB k, xIdleTaskHandle k, container k (StateItem 2), container k (EventItem 2),
      ucNotifyState (tcb k 2), uxTopReadyPriority k, xTickCount k, length (the_items k (Ready 2)), prio k 2))
    (kernel_call (Start (Some 1) (Some 2)) kernel0) = Some (True, 0, 2, 1, Some (Ready 2), None, taskNOT_WAITING_NOTIFICATION, 2, 0, 1, 2)"
    by code_simp
  then obtain k where k: "kernel_call (Start (Some 1) (Some 2)) kernel0 = Some k" by auto
  moreover have "reachable k" by (rule reachable.step [OF reachable.start [OF kernel0_reset] kernel0_start k])
  ultimately show ?thesis using c by (auto simp: may_block_def runs_def)
qed

section \<open>What a tick wakes\<close>

text \<open>The tasks whose delay or time-out ends with the next tick; after the last tick before the overflow these are in the other list.\<close>

definition due_next :: "kernel \<Rightarrow> u32 \<Rightarrow> bool" where
  "due_next k t \<longleftrightarrow> container k (StateItem t) = Some (if xTickCount k = portMAX_TICK then pxOverflowDelayedTaskList k else pxDelayedTaskList k)
     \<and> item_value k (StateItem t) = xTickCount k + 1"

lemma due_tick:
  assumes "core k"
  shows "due (xTickCount k + 1) (tick_lists k) t \<longleftrightarrow> due_next k t"
proof -
  have kl: "kl (tick_lists k) = kl k" by (simp add: tick_lists_def)
  have D: "pxDelayedTaskList (tick_lists k) = (if xTickCount k = portMAX_TICK then pxOverflowDelayedTaskList k else pxDelayedTaskList k)"
    by (simp add: tick_lists_def)
  have "xTickCount k + 1 \<le> item_value k x" if "container k x = Some (pxDelayedTaskList (tick_lists k))" for x
    using core_tick_lists [OF assms] that unfolding core_in_def kl by blast
  then show ?thesis unfolding due_def due_next_def kl D by (auto simp: order.antisym)
qed

lemma tick_effect:
  assumes o: "core k" "alarm k" and run: "uxSchedulerSuspended k = 0"
  shows "\<exists>k' sw. xTaskIncrementTick k = Some (k', sw) \<and> core k' \<and> alarm k' \<and> value_of (kl k') = value_of (kl k) \<and> tcb k' = tcb k
    \<and> xTickCount k' = xTickCount k + 1 \<and> pxCurrentTCB k' = pxCurrentTCB k \<and> uxSchedulerSuspended k' = 0 \<and> xSchedulerRunning k' = xSchedulerRunning k
    \<and> uxPendedTicks k' = uxPendedTicks k \<and> xNumOfOverflows k' = xNumOfOverflows k + (if xTickCount k = portMAX_TICK then 1 else 0)
    \<and> pxDelayedTaskList k' = (if xTickCount k = portMAX_TICK then pxOverflowDelayedTaskList k else pxDelayedTaskList k)
    \<and> pxOverflowDelayedTaskList k' = (if xTickCount k = portMAX_TICK then pxDelayedTaskList k else pxOverflowDelayedTaskList k)
    \<and> (\<forall>t. container k' (StateItem t) = (if due_next k t then Some (Ready (prio k t)) else container k (StateItem t)))
    \<and> (\<forall>t. container k' (EventItem t) = (if due_next k t then None else container k (EventItem t)))
    \<and> sw = ((\<exists>t. due_next k t \<and> prio k (pxCurrentTCB k) \<le> prio k t)
        \<or> 1 < card {t. container k' (StateItem t) = Some (Ready (prio k (pxCurrentTCB k)))} \<or> xYieldPending k)"
proof -
  obtain s p n sw where r: "xTaskIncrementTick k = Some ((tick_lists k)\<lparr>uxTopReadyPriority := p, kl := s, xNextTaskUnblockTime := n\<rparr>, sw)"
    "core ((tick_lists k)\<lparr>uxTopReadyPriority := p, kl := s, xNextTaskUnblockTime := n\<rparr>)"
    "alarm ((tick_lists k)\<lparr>uxTopReadyPriority := p, kl := s, xNextTaskUnblockTime := n\<rparr>)"
    "where_is s = woken (xTickCount k + 1) (tick_lists k)" "value_of s = value_of (kl k)"
    "sw = ((\<exists>t. due (xTickCount k + 1) (tick_lists k) t \<and> prio k (pxCurrentTCB k) \<le> prio k t)
        \<or> 1 < card {t. woken (xTickCount k + 1) (tick_lists k) (StateItem t) = Some (Ready (prio k (pxCurrentTCB k)))} \<or> xYieldPending k)"
    using tick_wakes [OF o run] by blast
  define k' where "k' = (tick_lists k)\<lparr>uxTopReadyPriority := p, kl := s, xNextTaskUnblockTime := n\<rparr>"
  have kl: "kl (tick_lists k) = kl k" "tcb (tick_lists k) = tcb k" by (simp_all add: tick_lists_def)
  have w: "container k' (StateItem t) = (if due_next k t then Some (Ready (prio k t)) else container k (StateItem t))"
    "container k' (EventItem t) = (if due_next k t then None else container k (EventItem t))"
    "woken (xTickCount k + 1) (tick_lists k) (StateItem t) = container k' (StateItem t)" for t
    by (simp_all add: k'_def r(4) due_tick [OF o(1)] kl)
  have z: "xTickCount k = portMAX_TICK \<Longrightarrow> 0 = xTickCount k + 1" using succ_zero by metis
  have f: "value_of (kl k') = value_of (kl k)" "tcb k' = tcb k" "xTickCount k' = xTickCount k + 1" "pxCurrentTCB k' = pxCurrentTCB k" "uxSchedulerSuspended k' = 0"
    "xSchedulerRunning k' = xSchedulerRunning k" "uxPendedTicks k' = uxPendedTicks k"
    "xNumOfOverflows k' = xNumOfOverflows k + (if xTickCount k = portMAX_TICK then 1 else 0)"
    "pxDelayedTaskList k' = (if xTickCount k = portMAX_TICK then pxOverflowDelayedTaskList k else pxDelayedTaskList k)"
    "pxOverflowDelayedTaskList k' = (if xTickCount k = portMAX_TICK then pxDelayedTaskList k else pxOverflowDelayedTaskList k)"
    using run z by (simp_all add: k'_def tick_lists_def r(5))
  have c: "core k'" "alarm k'" using r(2,3) by (simp_all add: k'_def)
  have s: "sw = ((\<exists>t. due_next k t \<and> prio k (pxCurrentTCB k) \<le> prio k t)
        \<or> 1 < card {t. container k' (StateItem t) = Some (Ready (prio k (pxCurrentTCB k)))} \<or> xYieldPending k)"
    using r(6) unfolding due_tick [OF o(1)] w(3) .
  show ?thesis using r(1) f c s w(1,2) unfolding k'_def [symmetric] by blast
qed

text \<open>C2: A tick wakes exactly the tasks that are due. In a reachable state with the scheduler not suspended xTaskIncrementTick returns and advances the
  tick count by one; a task whose wake time is the new tick count, in the list of the current or, when the count overflows, of the next round, becomes ready at
  its priority and its event item leaves the event list it waited in; every other task stays where it is. A switch is asked for exactly when a woken task has
  at least the priority of the running one, when several tasks are ready at that priority, or when a switch was pending.\<close>

theorem tick_wakes_due:
  assumes "reachable k" and "uxSchedulerSuspended k = 0"
  shows "\<exists>k' sw. xTaskIncrementTick k = Some (k', sw) \<and> xTickCount k' = xTickCount k + 1
    \<and> (\<forall>t. container k' (StateItem t) = (if due_next k t then Some (Ready (prio k t)) else container k (StateItem t)))
    \<and> (\<forall>t. container k' (EventItem t) = (if due_next k t then None else container k (EventItem t)))
    \<and> sw = ((\<exists>t. due_next k t \<and> prio k (pxCurrentTCB k) \<le> prio k t)
        \<or> 1 < card {t. container k' (StateItem t) = Some (Ready (prio k (pxCurrentTCB k)))} \<or> xYieldPending k)"
  using tick_effect [of k] reachable_inv [OF assms(1)] assms(2) unfolding kernel_inv_def kernel_ok_def by blast

lemma tick_wakes_due_witness:
  "\<exists>k k' sw. kernel_call (Start (Some 1) (Some 2)) kernel0 = Some k \<and> xTaskIncrementTick k = Some (k', sw) \<and> xTickCount k' = 1"
proof -
  obtain k where k: "kernel_call (Start (Some 1) (Some 2)) kernel0 = Some k" "reachable k" "uxSchedulerSuspended k = 0" "xTickCount k = 0"
    using running_kernel by blast
  show ?thesis using tick_wakes_due [OF k(2,3)] k(1,4) by auto
qed

section \<open>Delays\<close>

text \<open>A task sleeps for \<open>r\<close> more ticks.\<close>

definition asleep :: "nat \<Rightarrow> kernel \<Rightarrow> u32 \<Rightarrow> bool" where
  "asleep r k t \<longleftrightarrow> r > 0 \<and> (container k (StateItem t) = Some (pxDelayedTaskList k) \<and> unat (item_value k (StateItem t)) = unat (xTickCount k) + r
     \<or> container k (StateItem t) = Some (pxOverflowDelayedTaskList k) \<and> unat (item_value k (StateItem t)) + 2 ^ 32 = unat (xTickCount k) + r)"

lemma unat_bound: "unat (v :: u32) < 2 ^ 32"
proof -
  have "unat v < 2 ^ LENGTH(32)" by (rule unsigned_less)
  then show ?thesis by simp
qed

lemma unat_max: "unat portMAX_TICK = 2 ^ 32 - 1"
  by (simp add: portMAX_TICK_def)

lemma unat_add_u32:
  "unat (a + b :: u32) = (if a + b < a then unat a + unat b - 2 ^ 32 else unat a + unat b)" "a + b < a \<longleftrightarrow> 2 ^ 32 \<le> unat a + unat b" for a b :: u32
proof -
  have m: "unat (a + b) = (unat a + unat b) mod 2 ^ 32" by (simp add: unat_word_ariths)
  have "unat (a + b) = (if 2 ^ 32 \<le> unat a + unat b then unat a + unat b - 2 ^ 32 else unat a + unat b)"
    using unat_bound [of a] unat_bound [of b] unfolding m by (auto simp: mod_if)
  moreover from this show "a + b < a \<longleftrightarrow> 2 ^ 32 \<le> unat a + unat b" using unat_bound [of a] unat_bound [of b] by (auto simp: word_less_nat_alt)
  ultimately show "unat (a + b :: u32) = (if a + b < a then unat a + unat b - 2 ^ 32 else unat a + unat b)" by simp
qed

lemma asleep_tick:
  assumes ok: "kernel_ok k" and z: "asleep r k t" and run: "uxSchedulerSuspended k = 0" and k': "xTaskIncrementTick k = Some (k', sw)"
  shows "r > 1 \<Longrightarrow> asleep (r - 1) k' t" and "r = 1 \<Longrightarrow> container k' (StateItem t) = Some (Ready (prio k t))"
proof -
  have DO: "pxOverflowDelayedTaskList k \<noteq> pxDelayedTaskList k" using ok by (auto simp: kernel_ok_def core_in_def)
  have o: "core k" "alarm k" using ok by (simp_all add: kernel_ok_def)
  from tick_effect [OF o run] k' have e: "value_of (kl k') = value_of (kl k)" "xTickCount k' = xTickCount k + 1"
    "pxDelayedTaskList k' = (if xTickCount k = portMAX_TICK then pxOverflowDelayedTaskList k else pxDelayedTaskList k)"
    "pxOverflowDelayedTaskList k' = (if xTickCount k = portMAX_TICK then pxDelayedTaskList k else pxOverflowDelayedTaskList k)"
    "container k' (StateItem t) = (if due_next k t then Some (Ready (prio k t)) else container k (StateItem t))" by simp_all
  have due: "due_next k t \<longleftrightarrow> r = 1"
  proof (cases "xTickCount k = portMAX_TICK")
    case True
    then have m: "unat (xTickCount k) = 2 ^ 32 - 1" "xTickCount k + 1 = 0" using unat_max succ_zero by simp_all
    have "item_value k (StateItem t) = 0 \<longleftrightarrow> unat (item_value k (StateItem t)) = 0" by (simp add: unat_eq_0)
    then show ?thesis using z m True DO unat_bound [of "item_value k (StateItem t)"] by (auto simp: asleep_def due_next_def)
  next
    case False
    have "item_value k (StateItem t) = xTickCount k + 1 \<longleftrightarrow> unat (item_value k (StateItem t)) = unat (xTickCount k) + 1"
      using unat_succ [OF False] by (metis unsigned_word_eqI)
    moreover have "unat (xTickCount k) + 1 < 2 ^ 32" using unat_succ [OF False] unat_bound [of "xTickCount k + 1"] by simp
    ultimately show ?thesis using z False DO unat_bound [of "item_value k (StateItem t)"] by (auto simp: asleep_def due_next_def)
  qed
  show "container k' (StateItem t) = Some (Ready (prio k t))" if "r = 1" using e(5) due that by simp
  show "asleep (r - 1) k' t" if r: "r > 1"
  proof (cases "xTickCount k = portMAX_TICK")
    case True
    then have m: "unat (xTickCount k) = 2 ^ 32 - 1" "xTickCount k + 1 = 0" using unat_max succ_zero by simp_all
    then show ?thesis using z r due True unat_bound [of "item_value k (StateItem t)"] by (auto simp: asleep_def e(1-4)) (auto simp: e(5))
  next
    case False
    have "unat (xTickCount k + 1) = unat (xTickCount k) + 1" using unat_succ [OF False] .
    then show ?thesis using z r due False by (auto simp: asleep_def e(1-4)) (auto simp: e(5))
  qed
qed

text \<open>The tick interrupt, any number of times.\<close>

primrec sys_ticks :: "nat \<Rightarrow> kernel \<Rightarrow> kernel option" where
  "sys_ticks 0 k = Some k"
| "sys_ticks (Suc n) k = do { k1 \<leftarrow> xPortSysTickHandle k; sys_ticks n k1 }"

lemma switch_keeps_places:
  assumes ok: "kernel_ok k" and run: "xSchedulerRunning k" "uxSchedulerSuspended k = 0"
  shows "\<exists>k'. vTaskSwitchContext k = Some k' \<and> kernel_ok k' \<and> xSchedulerRunning k' \<and> uxSchedulerSuspended k' = 0 \<and> where_is (kl k') = where_is (kl k)
    \<and> value_of (kl k') = value_of (kl k) \<and> xTickCount k' = xTickCount k \<and> pxDelayedTaskList k' = pxDelayedTaskList k
    \<and> pxOverflowDelayedTaskList k' = pxOverflowDelayedTaskList k \<and> tcb k' = tcb k \<and> xNumOfOverflows k' = xNumOfOverflows k"
proof -
  have o: "core k" "links k" using ok by (simp_all add: kernel_ok_def)
  obtain u q where "container k (StateItem u) = Some (Ready q)" using o(2) run(1) by (auto simp: links_def)
  from switch_picks [OF o(1) run(2) this] obtain s p t where
    "vTaskSwitchContext k = Some (k\<lparr>xYieldPending := False, kl := s, pxCurrentTCB := t, uxTopReadyPriority := p\<rparr>)"
    "where_is s = where_is (kl k)" "value_of s = value_of (kl k)" by blast
  then show ?thesis using switch_ok [OF ok run(1)] run by auto
qed

lemma sys_tick_effect:
  assumes ok: "kernel_ok k" and run: "xSchedulerRunning k" "uxSchedulerSuspended k = 0"
  shows "\<exists>k1 sw k'. xTaskIncrementTick k = Some (k1, sw) \<and> xPortSysTickHandle k = Some k' \<and> kernel_ok k' \<and> xSchedulerRunning k' \<and> uxSchedulerSuspended k' = 0
    \<and> where_is (kl k') = where_is (kl k1) \<and> value_of (kl k') = value_of (kl k1) \<and> xTickCount k' = xTickCount k1
    \<and> pxDelayedTaskList k' = pxDelayedTaskList k1 \<and> pxOverflowDelayedTaskList k' = pxOverflowDelayedTaskList k1 \<and> tcb k' = tcb k1 \<and> tcb k1 = tcb k
    \<and> xNumOfOverflows k' = xNumOfOverflows k1"
proof -
  have o: "core k" "alarm k" "links k" "uxPendedTicks k = 0" using ok run(2) by (simp_all add: kernel_ok_def)
  obtain k1 sw where k1: "xTaskIncrementTick k = Some (k1, sw)" "core k1" "alarm k1" "links k1" "uxSchedulerSuspended k1 = 0" "uxPendedTicks k1 = uxPendedTicks k"
    "xSchedulerRunning k1 = xSchedulerRunning k" using tick_ok [OF o(1-3) run(2)] by blast
  have ok1: "kernel_ok k1" "xSchedulerRunning k1" using k1 o(4) run(1) by (simp_all add: kernel_ok_def)
  have "tcb k1 = tcb k" using tick_effect [OF o(1,2) run(2)] k1(1) by auto
  then show ?thesis using switch_keeps_places [OF ok1 k1(5)] ok1 k1(1,5) by (cases sw) (auto simp: xPortSysTickHandle_def)
qed

lemma sleep_ticks:
  "kernel_ok k \<Longrightarrow> xSchedulerRunning k \<Longrightarrow> uxSchedulerSuspended k = 0 \<Longrightarrow> asleep r k t \<Longrightarrow> m \<le> r \<Longrightarrow>
    \<exists>k'. sys_ticks m k = Some k' \<and> kernel_ok k' \<and> (if m < r then asleep (r - m) k' t else container k' (StateItem t) = Some (Ready (prio k t)))"
proof (induction m arbitrary: k r)
  case 0
  then show ?case by (auto simp: asleep_def)
next
  case (Suc m)
  obtain k1 sw k' where k': "xTaskIncrementTick k = Some (k1, sw)" "xPortSysTickHandle k = Some k'" "kernel_ok k'" "xSchedulerRunning k'" "uxSchedulerSuspended k' = 0"
    "where_is (kl k') = where_is (kl k1)" "value_of (kl k') = value_of (kl k1)" "xTickCount k' = xTickCount k1"
    "pxDelayedTaskList k' = pxDelayedTaskList k1" "pxOverflowDelayedTaskList k' = pxOverflowDelayedTaskList k1" "tcb k' = tcb k1" "tcb k1 = tcb k"
    using sys_tick_effect [OF Suc.prems(1-3)] by auto
  have same: "asleep q k' t = asleep q k1 t" for q using k' by (simp add: asleep_def)
  show ?case
  proof (cases "r = 1")
    case True
    then have "container k' (StateItem t) = Some (Ready (prio k t))" using asleep_tick(2) [OF Suc.prems(1,4,3) k'(1)] k'(6) by simp
    then show ?thesis using k'(2,3) Suc.prems(5) True by simp
  next
    case False
    then have "r > 1" using Suc.prems(4) by (simp add: asleep_def)
    then have "asleep (r - 1) k' t" using asleep_tick(1) [OF Suc.prems(1,4,3) k'(1)] same by simp
    moreover have "m \<le> r - 1" using Suc.prems(5) by simp
    ultimately obtain k'' where "sys_ticks m k' = Some k''" "kernel_ok k''"
      "if m < r - 1 then asleep (r - 1 - m) k'' t else container k'' (StateItem t) = Some (Ready (prio k' t))"
      using Suc.IH [OF k'(3-5)] by blast
    moreover have "m < r - 1 \<longleftrightarrow> Suc m < r" "r - 1 - m = r - Suc m" using \<open>r > 1\<close> by auto
    ultimately have "if Suc m < r then asleep (r - Suc m) k'' t else container k'' (StateItem t) = Some (Ready (prio k' t))" by metis
    then show ?thesis using k'(2,11,12) \<open>sys_ticks m k' = Some k''\<close> \<open>kernel_ok k''\<close> by simp
  qed
qed

text \<open>With no ticks counted and no tasks made ready meanwhile, resuming the scheduler moves nothing.\<close>

lemma quiet_resume:
  assumes "the_items k xPendingReadyList = []" and "uxPendedTicks k = 0"
  shows "xTaskResumeAll (vTaskSuspendAll k) = Some (if uxSchedulerSuspended k = 0 \<and> uxCurrentNumberOfTasks k > 0 \<and> xYieldPending k then (portYIELD k, True) else (k, False))"
proof -
  have l: "pending_loop False k = Some (k, False)" using assms(1) by (subst pending_loop.simps) simp
  have e: "(vTaskSuspendAll k)\<lparr>uxSchedulerSuspended := uxSchedulerSuspended (vTaskSuspendAll k) - 1\<rparr> = k" by (simp add: vTaskSuspendAll_def)
  have z: "k\<lparr>uxPendedTicks := 0\<rparr> = k" using assms(2) by simp
  show ?thesis unfolding xTaskResumeAll_def Let_def e l bind.bind_lunit prod.case if_False assms(2) unat_0 replay_ticks.simps z by simp
qed

lemma delay_sleeps:
  assumes ok: "kernel_ok k" and run: "xSchedulerRunning k" "uxSchedulerSuspended k = 0" and may: "may_block k" and n: "n \<noteq> 0"
  shows "\<exists>k'. vTaskDelay n k = Some k' \<and> kernel_ok k' \<and> xSchedulerRunning k' \<and> uxSchedulerSuspended k' = 0
    \<and> asleep (unat n) k' (pxCurrentTCB k) \<and> prio k' (pxCurrentTCB k) = prio k (pxCurrentTCB k)"
proof -
  define t where "t = pxCurrentTCB k"
  define k0 where "k0 = vTaskSuspendAll k"
  have o: "core k" "alarm k" "links k" "uxPendedTicks k = 0" using ok run(2) by (simp_all add: kernel_ok_def)
  have k0: "core k0" "alarm k0" "pxCurrentTCB k0 = t" "kl k0 = kl k" using o(1,2) by (simp_all add: k0_def vTaskSuspendAll_def t_def)
  obtain L where "container k0 (StateItem (pxCurrentTCB k0)) = Some L" using may by (auto simp: may_block_def runs_def k0 t_def)
  from add_delayed [OF k0(1,2) this n, of False] obtain s m where
    r: "prvAddCurrentTaskToDelayedList n False k0 = Some (k0\<lparr>kl := s, xNextTaskUnblockTime := m\<rparr>)"
    "where_is s = (where_is (kl k))(StateItem t := Some (if xTickCount k + n < xTickCount k then pxOverflowDelayedTaskList k else pxDelayedTaskList k))"
    "value_of s = (value_of (kl k))(StateItem t := xTickCount k + n)"
    unfolding k0(3,4) by (auto simp: k0_def vTaskSuspendAll_def)
  define k1 where "k1 = k\<lparr>kl := s, xNextTaskUnblockTime := m\<rparr>"
  have k1: "k0\<lparr>kl := s, xNextTaskUnblockTime := m\<rparr> = vTaskSuspendAll k1" by (simp add: k0_def k1_def vTaskSuspendAll_def)
  have "core (vTaskSuspendAll k1)" using add_delayed [OF k0(1,2) \<open>container k0 (StateItem (pxCurrentTCB k0)) = Some L\<close> n, of False] r(1) k1 by auto
  then have c1: "core k1" by (simp add: vTaskSuspendAll_def)
  have "container k1 (EventItem u) \<noteq> Some xPendingReadyList" for u using o(3) run(2) by (auto simp: k1_def r(2) links_def)
  moreover have "container k1 (StateItem u) \<noteq> Some xPendingReadyList" for u using c1 by (fastforce simp: core_in_def)
  ultimately have "x \<notin> set (the_items k1 xPendingReadyList)" for x using set_items [OF c1, of x xPendingReadyList] by (cases x) auto
  then have "the_items k1 xPendingReadyList = []" by (metis list.set_intros(1) neq_Nil_conv)
  from quiet_resume [OF this] o(4) obtain k2 b where k2: "xTaskResumeAll (vTaskSuspendAll k1) = Some (k2, b)" "k2 = k1 \<or> k2 = portYIELD k1"
    by (auto simp: k1_def split: if_splits)
  define k' where "k' = yield_unless (k2, b)"
  have d: "vTaskDelay n k = Some k'" using n r(1) k2(1) by (simp add: vTaskDelay_def k0_def [symmetric] k1 k'_def word_neq_0_conv)
  have "allowed (Delay n) k" using run may by (simp add: portMAX_TICK_def)
  from keeps_delay [OF ok this] have ok': "kernel_ok k'" "xSchedulerRunning k'" by (auto simp: keeps_def d)
  have same: "kl k' = s" "xTickCount k' = xTickCount k" "uxSchedulerSuspended k' = 0" "tcb k' = tcb k"
    "pxDelayedTaskList k' = pxDelayedTaskList k" "pxOverflowDelayedTaskList k' = pxOverflowDelayedTaskList k"
    using k2(2) run(2) by (auto simp: k'_def yield_unless_def k1_def portYIELD_def)
  have "asleep (unat n) k' t"
    using n unat_add_u32 [of "xTickCount k" n] by (auto simp: asleep_def same r(2,3) unat_eq_0 simp flip: unat_eq_0)
  then show ?thesis using d ok' same by (simp add: t_def)
qed

text \<open>C3: A delay takes exactly as many ticks as asked for. When a task calls vTaskDelay with a non-zero number of ticks, in a reachable state of the
  running scheduler in which it may block, the call returns, and if then only tick interrupts come, the task is in no ready list after any smaller number of
  them and ready, at its priority, after exactly that number. The tick count may overflow on the way: then the wake time is below the current count and the
  task waits in the overflow list, which the tick that overflows makes the current one.\<close>

theorem delay_exact:
  assumes "reachable k" and "xSchedulerRunning k" and "uxSchedulerSuspended k = 0" and "may_block k" and "n \<noteq> 0" and "m \<le> unat n"
  shows "\<exists>k1 km. vTaskDelay n k = Some k1 \<and> sys_ticks m k1 = Some km
    \<and> (if m < unat n then \<forall>p. container km (StateItem (pxCurrentTCB k)) \<noteq> Some (Ready p)
       else container km (StateItem (pxCurrentTCB k)) = Some (Ready (prio k (pxCurrentTCB k))))"
proof -
  have ok: "kernel_ok k" using reachable_inv [OF assms(1)] by (simp add: kernel_inv_def)
  obtain k1 where k1: "vTaskDelay n k = Some k1" "kernel_ok k1" "xSchedulerRunning k1" "uxSchedulerSuspended k1 = 0"
    "asleep (unat n) k1 (pxCurrentTCB k)" "prio k1 (pxCurrentTCB k) = prio k (pxCurrentTCB k)" using delay_sleeps [OF ok assms(2-5)] by blast
  obtain km where km: "sys_ticks m k1 = Some km" "kernel_ok km" "if m < unat n then asleep (unat n - m) km (pxCurrentTCB k)
    else container km (StateItem (pxCurrentTCB k)) = Some (Ready (prio k1 (pxCurrentTCB k)))" using sleep_ticks [OF k1(2-5) assms(6)] by blast
  have "pxDelayedTaskList km \<noteq> Ready p" "pxOverflowDelayedTaskList km \<noteq> Ready p" for p using km(2) by (auto simp: kernel_ok_def core_in_def)
  then have "asleep q km t \<Longrightarrow> container km (StateItem t) \<noteq> Some (Ready p)" for q t p by (auto simp: asleep_def)
  then show ?thesis using k1(1,6) km(1,3) by (auto split: if_splits)
qed

lemma delay_exact_witness:
  "\<exists>k k1 k2 k3. kernel_call (Start (Some 1) (Some 2)) kernel0 = Some k \<and> vTaskDelay 3 k = Some k1 \<and> sys_ticks 2 k1 = Some k2 \<and> sys_ticks 3 k1 = Some k3
    \<and> container k2 (StateItem 2) \<noteq> Some (Ready 2) \<and> container k3 (StateItem 2) = Some (Ready 2)"
proof -
  obtain k where k: "kernel_call (Start (Some 1) (Some 2)) kernel0 = Some k" "reachable k" "xSchedulerRunning k" "uxSchedulerSuspended k = 0" "may_block k"
    "pxCurrentTCB k = 2" "prio k 2 = 2" using running_kernel by blast
  show ?thesis using delay_exact [OF k(2-5), of 3 2] delay_exact [OF k(2-5), of 3 3] k(1,6,7) by auto
qed

section \<open>Clock and time-outs\<close>

lemma clock:
  "kernel_ok k \<Longrightarrow> xSchedulerRunning k \<Longrightarrow> uxSchedulerSuspended k = 0 \<Longrightarrow>
    \<exists>k'. sys_ticks m k = Some k' \<and> xSchedulerRunning k' \<and> uxSchedulerSuspended k' = 0 \<and> xTickCount k' = xTickCount k + of_nat m
      \<and> xNumOfOverflows k' = xNumOfOverflows k + of_nat ((unat (xTickCount k) + m) div 2 ^ 32)"
proof (induction m arbitrary: k)
  case 0
  then show ?case using unat_bound [of "xTickCount k"] by simp
next
  case (Suc m)
  obtain k1 sw k' where k': "xTaskIncrementTick k = Some (k1, sw)" "xPortSysTickHandle k = Some k'" "kernel_ok k'" "xSchedulerRunning k'" "uxSchedulerSuspended k' = 0"
    "xTickCount k' = xTickCount k1" "xNumOfOverflows k' = xNumOfOverflows k1"
    using sys_tick_effect [OF Suc.prems] by auto
  have o: "core k" "alarm k" using Suc.prems(1) by (simp_all add: kernel_ok_def)
  have k1: "xTickCount k1 = xTickCount k + 1" "xNumOfOverflows k1 = xNumOfOverflows k + (if xTickCount k = portMAX_TICK then 1 else 0)"
    using tick_effect [OF o Suc.prems(3)] k'(1) by auto
  obtain k'' where k'': "sys_ticks m k' = Some k''" "xTickCount k'' = xTickCount k' + of_nat m"
    "xNumOfOverflows k'' = xNumOfOverflows k' + of_nat ((unat (xTickCount k') + m) div 2 ^ 32)" "xSchedulerRunning k''" "uxSchedulerSuspended k'' = 0" using Suc.IH [OF k'(3-5)] by blast
  have "xNumOfOverflows k'' = xNumOfOverflows k + of_nat ((unat (xTickCount k) + Suc m) div 2 ^ 32)"
  proof (cases "xTickCount k = portMAX_TICK")
    case True
    then have "unat (xTickCount k) + Suc m = 2 ^ 32 + m" "xTickCount k' = 0" using unat_max succ_zero [of "xTickCount k"] k'(6) k1(1) by simp_all
    moreover have "(2 ^ 32 + m) div 2 ^ 32 = Suc (m div 2 ^ 32)" by (simp add: div_add_self1)
    ultimately show ?thesis using k''(3) k'(7) k1(2) True by simp
  next
    case False
    then have "unat (xTickCount k') + m = unat (xTickCount k) + Suc m" using unat_succ [OF False] k'(6) k1(1) by simp
    then show ?thesis using k''(3) k'(7) k1(2) False by simp
  qed
  then show ?case using k'(2,6) k''(1,2,4,5) k1(1) by simp
qed

lemma check_after:
  assumes "xTickCount km = xTickCount k + of_nat m" and "xNumOfOverflows km = xNumOfOverflows k + of_nat ((unat (xTickCount k) + m) div 2 ^ 32)"
    and "n \<noteq> portMAX_TICK" and "unat (xTickCount k) + m < 2 ^ 33"
  shows "if m < unat n then xTaskCheckForTimeOut (vTaskSetTimeOutState k) n km = (False, vTaskSetTimeOutState km, n - of_nat m)
    else fst (xTaskCheckForTimeOut (vTaskSetTimeOutState k) n km)"
proof -
  define c where "c = xTickCount k"
  have km: "xTickCount km = c + of_nat m" "xNumOfOverflows km = xNumOfOverflows k + of_nat ((unat c + m) div 2 ^ 32)" using assms(1,2) by (simp_all add: c_def)
  have u: "unat (c + of_nat m) = (unat c + m) mod 2 ^ 32" by (simp add: unat_word_ariths unsigned_of_nat take_bit_eq_mod mod_simps)
  have el: "xTickCount km - c = of_nat m" by (simp add: km(1))
  have nb: "unat n < 2 ^ 32" by (rule unat_bound)
  show ?thesis
  proof (cases "m < 2 ^ 32")
    case True
    then have lt: "(of_nat m < n) = (m < unat n)" by (simp add: word_less_nat_alt unsigned_of_nat take_bit_nat_eq_self)
    have "xTickCount km \<ge> c \<longrightarrow> (unat c + m) div 2 ^ 32 = 0"
    proof
      assume "xTickCount km \<ge> c"
      then have "unat c \<le> (unat c + m) mod 2 ^ 32" by (simp add: km(1) word_le_nat_alt u)
      then show "(unat c + m) div 2 ^ 32 = 0" using True unat_bound [of c] by (auto simp: mod_if split: if_splits)
    qed
    then have "\<not> (xNumOfOverflows km \<noteq> xNumOfOverflows k \<and> xTickCount km \<ge> c)" using km(2) by auto
    then show ?thesis using assms(3) el lt unfolding xTaskCheckForTimeOut_def Let_def by (auto simp: vTaskSetTimeOutState_def c_def)
  next
    case False
    then have d: "(unat c + m) div 2 ^ 32 = 1" "(unat c + m) mod 2 ^ 32 \<ge> unat c" using assms(4) by (auto simp: c_def mod_if div_if)
    then have "xNumOfOverflows km \<noteq> xNumOfOverflows k" "xTickCount km \<ge> c" by (simp_all add: km(2)) (simp add: km(1) word_le_nat_alt u)
    then have "fst (xTaskCheckForTimeOut (vTaskSetTimeOutState k) n km)" using assms(3) by (simp add: xTaskCheckForTimeOut_def vTaskSetTimeOutState_def c_def)
    then show ?thesis using False nb by auto
  qed
qed

text \<open>C35: Time-outs are exact. With a time-out set by vTaskSetTimeOutState and a limit of ticks other than the one for ever, xTaskCheckForTimeOut after
  any number of tick interrupts says that the time is out exactly when that number has reached the limit, and otherwise restarts the time-out and takes the
  ticks passed off the limit, across the overflow of the tick count, until the count overflows for a second time.\<close>

theorem timeout_exact:
  assumes "reachable k" and "xSchedulerRunning k" and "uxSchedulerSuspended k = 0" and "n \<noteq> portMAX_TICK" and "unat (xTickCount k) + m < 2 ^ 33"
  shows "\<exists>km. sys_ticks m k = Some km \<and> (if m < unat n then xTaskCheckForTimeOut (vTaskSetTimeOutState k) n km = (False, vTaskSetTimeOutState km, n - of_nat m)
    else fst (xTaskCheckForTimeOut (vTaskSetTimeOutState k) n km))"
proof -
  have "kernel_ok k" using reachable_inv [OF assms(1)] by (simp add: kernel_inv_def)
  from clock [OF this assms(2,3)] obtain km where "sys_ticks m k = Some km" "xTickCount km = xTickCount k + of_nat m"
    "xNumOfOverflows km = xNumOfOverflows k + of_nat ((unat (xTickCount k) + m) div 2 ^ 32)" by blast
  then show ?thesis using check_after [of km k m n] assms(4,5) by blast
qed

lemma timeout_exact_witness:
  "\<exists>k k1. kernel_call (Start (Some 1) (Some 2)) kernel0 = Some k \<and> sys_ticks 7 k = Some k1 \<and> fst (xTaskCheckForTimeOut (vTaskSetTimeOutState k) 5 k1)"
proof -
  obtain k where k: "kernel_call (Start (Some 1) (Some 2)) kernel0 = Some k" "reachable k" "xSchedulerRunning k" "uxSchedulerSuspended k = 0" "xTickCount k = 0"
    using running_kernel by blast
  show ?thesis using timeout_exact [OF k(2-4), of 5 7] k(1,5) by (auto simp: portMAX_TICK_def)
qed

section \<open>Ticks while the scheduler is suspended\<close>

text \<open>Two states agree on the clock, on where every task is and on its control block.\<close>

definition agree :: "kernel \<Rightarrow> kernel \<Rightarrow> bool" where
  "agree a b \<longleftrightarrow> where_is (kl a) = where_is (kl b) \<and> value_of (kl a) = value_of (kl b) \<and> tcb a = tcb b \<and> xTickCount a = xTickCount b
    \<and> xNumOfOverflows a = xNumOfOverflows b \<and> pxDelayedTaskList a = pxDelayedTaskList b \<and> pxOverflowDelayedTaskList a = pxOverflowDelayedTaskList b"

lemma agree_tick:
  assumes "core a" "alarm a" "uxSchedulerSuspended a = 0" and "core b" "alarm b" "uxSchedulerSuspended b = 0" and "agree a b"
    and "xTaskIncrementTick a = Some (a', y)" and "xTaskIncrementTick b = Some (b', z)"
  shows "agree a' b'"
proof -
  note ea = tick_effect [OF assms(1-3)] and eb = tick_effect [OF assms(4-6)]
  have due: "due_next a t = due_next b t" for t using assms(7) by (simp add: agree_def due_next_def)
  have "container a' x = container b' x" for x
    using ea eb assms(7,8,9) due by (cases x) (auto simp: agree_def)
  then have "where_is (kl a') = where_is (kl b')" by (rule ext)
  then show ?thesis using ea eb assms(7,8,9) by (auto simp: agree_def)
qed

lemma replay_agrees:
  "kernel_ok a \<Longrightarrow> xSchedulerRunning a \<Longrightarrow> uxSchedulerSuspended a = 0 \<Longrightarrow> core b \<Longrightarrow> alarm b \<Longrightarrow> uxSchedulerSuspended b = 0 \<Longrightarrow> agree a b \<Longrightarrow>
    \<exists>a' b'. sys_ticks n a = Some a' \<and> replay_ticks n b = Some b' \<and> agree a' b'"
proof (induction n arbitrary: a b)
  case 0
  then show ?case by simp
next
  case (Suc n)
  have o: "core a" "alarm a" using Suc.prems(1) by (simp_all add: kernel_ok_def)
  obtain a1 sw a' where a': "xTaskIncrementTick a = Some (a1, sw)" "xPortSysTickHandle a = Some a'" "kernel_ok a'" "xSchedulerRunning a'" "uxSchedulerSuspended a' = 0"
    "agree a' a1" using sys_tick_effect [OF Suc.prems(1-3)] unfolding agree_def by auto
  obtain b1 sw' where b1: "xTaskIncrementTick b = Some (b1, sw')" "core b1" "alarm b1" "uxSchedulerSuspended b1 = 0" using tick_effect [OF Suc.prems(4-6)] by blast
  define b2 where "b2 = (if sw' then b1\<lparr>xYieldPending := True\<rparr> else b1)"
  have b2: "core b2" "alarm b2" "uxSchedulerSuspended b2 = 0" "agree b1 b2" using b1 by (simp_all add: b2_def agree_def)
  have "agree a1 b1" by (rule agree_tick [OF o Suc.prems(3-7) a'(1) b1(1)])
  then have "agree a' b2" using a'(6) b2(4) by (simp add: agree_def)
  from Suc.IH [OF a'(3-5) b2(1-3) this] show ?case using a'(2) b1(1) by (simp add: b2_def)
qed

lemma ticks_suspended:
  "uxSchedulerSuspended k \<noteq> 0 \<Longrightarrow> sys_ticks n k = Some (k\<lparr>uxPendedTicks := uxPendedTicks k + of_nat n\<rparr>)"
proof (induction n arbitrary: k)
  case 0
  then show ?case by simp
next
  case (Suc n)
  define k1 where "k1 = k\<lparr>uxPendedTicks := uxPendedTicks k + 1\<rparr>"
  have "k1\<lparr>xYieldPending := True\<rparr> = k1" if "xYieldPending k" using that by (simp add: k1_def)
  then have "xPortSysTickHandle k = Some k1"
    using Suc.prems by (simp add: xPortSysTickHandle_def xTaskIncrementTick_def k1_def [symmetric] vTaskSwitchContext_def) (simp add: k1_def)
  then show ?case using Suc.IH [of k1] Suc.prems by (simp add: k1_def add.assoc)
qed

text \<open>C4: Suspending the scheduler loses no time. Ticks that come while the scheduler is suspended, up to the width of their counter, only count;
  xTaskResumeAll then replays them, and afterwards the clock, its overflow count, the place of every task in the ready, delayed and event lists and every
  control block are what the same number of ticks gives with the scheduler never suspended.\<close>

theorem suspended_ticks_replayed:
  assumes "reachable k" and "xSchedulerRunning k" and "uxSchedulerSuspended k = 0" and "n < 2 ^ 32"
  shows "\<exists>a s b y. sys_ticks n k = Some a \<and> sys_ticks n (vTaskSuspendAll k) = Some s \<and> xTickCount s = xTickCount k \<and> xTaskResumeAll s = Some (b, y) \<and> agree a b"
proof -
  have ok: "kernel_ok k" using reachable_inv [OF assms(1)] by (simp add: kernel_inv_def)
  have o: "core k" "alarm k" "links k" "uxPendedTicks k = 0" using ok assms(3) by (simp_all add: kernel_ok_def)
  define s where "s = (vTaskSuspendAll k)\<lparr>uxPendedTicks := of_nat n\<rparr>"
  define b0 where "b0 = k\<lparr>uxPendedTicks := of_nat n\<rparr>"
  have "sys_ticks n (vTaskSuspendAll k) = Some s" using ticks_suspended [of "vTaskSuspendAll k" n] assms(3) o(4) by (simp add: s_def) (simp add: vTaskSuspendAll_def)
  moreover have "agree k b0" "core b0" "alarm b0" "uxSchedulerSuspended b0 = 0" using o assms(3) by (simp_all add: b0_def agree_def)
  then obtain a b1 where ab: "sys_ticks n k = Some a" "replay_ticks n b0 = Some b1" "agree a b1" using replay_agrees [OF ok assms(2,3)] by blast
  moreover have "\<exists>b y. xTaskResumeAll s = Some (b, y) \<and> agree a b"
  proof -
    have e: "s\<lparr>uxSchedulerSuspended := uxSchedulerSuspended s - 1\<rparr> = b0" by (simp add: s_def b0_def vTaskSuspendAll_def)
    have "container b0 (StateItem u) \<noteq> Some xPendingReadyList \<and> container b0 (EventItem u) \<noteq> Some xPendingReadyList" for u
      using o(1,3) assms(3) unfolding b0_def by (fastforce simp: core_in_def links_def)
    then have "x \<notin> set (the_items b0 xPendingReadyList)" for x using set_items [OF \<open>core b0\<close>, of x xPendingReadyList] by (cases x) auto
    then have "the_items b0 xPendingReadyList = []" by (metis list.set_intros(1) neq_Nil_conv)
    then have l: "pending_loop False b0 = Some (b0, False)" by (subst pending_loop.simps) simp
    have n: "unat (uxPendedTicks b0) = n" using assms(4) by (simp add: b0_def unsigned_of_nat take_bit_nat_eq_self)
    have c: "uxSchedulerSuspended b0 = 0 \<and> 0 < uxCurrentNumberOfTasks b0"
      using tasks_counted [OF o(3) idle_counted [OF o(3) assms(2)]] assms(3) by (simp add: b0_def)
    have "agree a (b1\<lparr>uxPendedTicks := 0\<rparr>)" using ab(3) by (simp add: agree_def)
    moreover have "agree a (portYIELD (b1\<lparr>uxPendedTicks := 0\<rparr>))" using ab(3) by (simp add: agree_def portYIELD_def)
    ultimately show ?thesis unfolding xTaskResumeAll_def Let_def e l bind.bind_lunit prod.case if_False n ab(2) using c by (cases "xYieldPending b1") auto
  qed
  moreover have "xTickCount s = xTickCount k" by (simp add: s_def vTaskSuspendAll_def)
  ultimately show ?thesis by blast
qed

lemma suspended_ticks_replayed_witness:
  "\<exists>k a s b y. kernel_call (Start (Some 1) (Some 2)) kernel0 = Some k \<and> sys_ticks 4 k = Some a \<and> sys_ticks 4 (vTaskSuspendAll k) = Some s
    \<and> xTaskResumeAll s = Some (b, y) \<and> agree a b"
proof -
  obtain k where k: "kernel_call (Start (Some 1) (Some 2)) kernel0 = Some k" "reachable k" "xSchedulerRunning k" "uxSchedulerSuspended k = 0"
    using running_kernel by blast
  show ?thesis using suspended_ticks_replayed [OF k(2-4), of 4] k(1) by auto
qed

section \<open>Taking turns\<close>

text \<open>Switches, with the task that each makes the running one.\<close>

primrec turns :: "nat \<Rightarrow> kernel \<Rightarrow> (kernel \<times> u32 list) option" where
  "turns 0 k = Some (k, [])"
| "turns (Suc n) k = do { k1 \<leftarrow> vTaskSwitchContext k; (k2, ts) \<leftarrow> turns n k1; Some (k2, pxCurrentTCB k1 # ts) }"

lemma kl_next_nth:
  assumes d: "distinct (items l)" and i: "i < length (items l)" and at: "index l = Some (items l ! i)"
  shows "kl_next l = items l ! (Suc i mod length (items l))"
proof -
  have s: "items l = take i (items l) @ items l ! i # drop (Suc i) (items l)" using i by (rule id_take_nth_drop)
  have "items l ! i \<notin> set (take i (items l))" using d s by (metis distinct_append disjoint_iff list.set_intros(1))
  moreover have dw: "y \<notin> set a \<Longrightarrow> dropWhile (\<lambda>z. z \<noteq> y) (a @ y # b) = y # b" for a b and y :: 'a by (induction a) auto
  ultimately have "dropWhile (\<lambda>z. z \<noteq> items l ! i) (items l) = items l ! i # drop (Suc i) (items l)"
    using s by metis
  then show ?thesis using i at by (cases "Suc i < length (items l)") (auto simp: kl_next_def Cons_nth_drop_Suc [symmetric] hd_conv_nth mod_if split: list.split)
qed

lemma turns_rotate:
  assumes "core k" and "uxSchedulerSuspended k = 0" and "the_items k (Ready p) = zs" and "zs \<noteq> []"
    and "\<forall>v r. container k (StateItem v) = Some (Ready r) \<longrightarrow> r \<le> p"
    and "i < length zs" and "kl_next (lists_of (kl k) (Ready p)) = zs ! i"
  shows "\<exists>k' ts. turns n k = Some (k', ts) \<and> length ts = n \<and> (\<forall>j<n. StateItem (ts ! j) = zs ! ((i + j) mod length zs))"
  using assms
proof (induction n arbitrary: k i)
  case 0
  then show ?case by simp
next
  case (Suc n)
  note ok = Suc.prems(1)
  have "hd zs \<in> set (the_items k (Ready p))" using Suc.prems(3,4) by simp
  then have c: "container k (hd zs) = Some (Ready p)" using set_items [OF ok] by blast
  then obtain u where u: "hd zs = StateItem u" using state_item [OF ok] by fastforce
  obtain s q t where r: "vTaskSwitchContext k = Some (k\<lparr>xYieldPending := False, kl := s, pxCurrentTCB := t, uxTopReadyPriority := q\<rparr>)"
    "core (k\<lparr>xYieldPending := False, kl := s, pxCurrentTCB := t, uxTopReadyPriority := q\<rparr>)" "where_is s = where_is (kl k)"
    "lists_of s = (lists_of (kl k))(Ready q := kl_advance (lists_of (kl k) (Ready q)))" "StateItem t = kl_next (lists_of (kl k) (Ready q))"
    "container k (StateItem t) = Some (Ready q)" "\<forall>v r. container k (StateItem v) = Some (Ready r) \<longrightarrow> r \<le> q"
    using switch_picks [OF ok Suc.prems(2) c [unfolded u]] by blast
  have q: "q = p" using r(6,7) Suc.prems(5) c u by (metis order.antisym)
  define k1 where "k1 = k\<lparr>xYieldPending := False, kl := s, pxCurrentTCB := t, uxTopReadyPriority := q\<rparr>"
  define l where "l = lists_of (kl k1) (Ready p)"
  have l: "items l = zs" "index l = Some (zs ! i)" using Suc.prems(3,7) by (simp_all add: l_def k1_def r(4) q kl_advance_def)
  have "distinct zs" using ok Suc.prems(3) by (auto simp: core_in_def wf_lists_def)
  then have nx: "kl_next l = zs ! (Suc i mod length zs)" using kl_next_nth [of l i] l Suc.prems(6) by simp
  have "\<exists>k' ts. turns n k1 = Some (k', ts) \<and> length ts = n \<and> (\<forall>j<n. StateItem (ts ! j) = zs ! ((Suc i mod length zs + j) mod length zs))"
  proof (rule Suc.IH)
    show "core k1" using r(2) by (simp only: k1_def)
    show "the_items k1 (Ready p) = zs" using l(1) by (simp add: l_def)
    show "kl_next (lists_of (kl k1) (Ready p)) = zs ! (Suc i mod length zs)" using nx by (simp add: l_def)
  qed (use Suc.prems r(3) in \<open>simp_all add: k1_def\<close>)
  then obtain k' ts where ts: "turns n k1 = Some (k', ts)" "length ts = n" "\<forall>j<n. StateItem (ts ! j) = zs ! ((Suc i mod length zs + j) mod length zs)" by blast
  have "turns (Suc n) k = Some (k', t # ts)" using r(1) ts(1) by (simp add: k1_def)
  moreover have "StateItem ((t # ts) ! j) = zs ! ((i + j) mod length zs)" if "j < Suc n" for j
  proof (cases j)
    case 0
    then show ?thesis using r(5) q Suc.prems(6,7) by simp
  next
    case (Suc j')
    then show ?thesis using ts(3) that by (simp add: mod_simps)
  qed
  ultimately show ?case using ts(2) by auto
qed

lemma kl_next_split:
  assumes "distinct (items l)" and "items l = xs @ x # ys" and "index l = Some x"
  shows "kl_next l = items l ! (Suc (length xs) mod length (items l))"
  using kl_next_nth [OF assms(1), of "length xs"] assms(2,3) by simp

lemma rotate_after: "rotate (Suc (length xs) mod length (xs @ x # ys)) (xs @ x # ys) = ys @ xs @ [x]"
proof -
  have "rotate (Suc (length xs)) (xs @ x # ys) = rotate (length (xs @ [x])) ((xs @ [x]) @ ys)" by simp
  also have "\<dots> = ys @ xs @ [x]" by (simp only: rotate_append)
  finally show ?thesis by (metis rotate_conv_mod)
qed

text \<open>C5: The ready tasks of the highest priority take turns. In a reachable state with the scheduler not suspended, as many switches as there are tasks
  ready at the highest priority that has one succeed and make each of these tasks the running one exactly once, in the order of the ready list: first those
  after the entry that the list's index names, then those before it, then that one; or from the first on when the index is at the end. No ready task of
  that priority starves.\<close>

theorem round_robin:
  assumes "reachable k" and "uxSchedulerSuspended k = 0" and "container k (StateItem t) = Some (Ready p)"
    and "\<forall>v r. container k (StateItem v) = Some (Ready r) \<longrightarrow> r \<le> p"
  shows "\<exists>k' ts. turns (length (the_items k (Ready p))) k = Some (k', ts) \<and> distinct ts \<and> set ts = {u. container k (StateItem u) = Some (Ready p)}
    \<and> (case index (lists_of (kl k) (Ready p)) of None \<Rightarrow> map StateItem ts = the_items k (Ready p)
       | Some x \<Rightarrow> \<exists>xs ys. the_items k (Ready p) = xs @ x # ys \<and> map StateItem ts = ys @ xs @ [x])"
proof -
  have ok: "core k" using reachable_inv [OF assms(1)] by (simp add: kernel_inv_def kernel_ok_def)
  define l where "l = lists_of (kl k) (Ready p)"
  define zs where "zs = the_items k (Ready p)"
  have s: "set zs = {x. container k x = Some (Ready p)}" using set_items [OF ok, of _ "Ready p"] by (auto simp: zs_def)
  then have ne: "zs \<noteq> []" using assms(3) by auto
  have wf: "wf_lists (kl k)" using ok by (simp add: core_in_def)
  then have d: "distinct zs" by (auto simp: zs_def wf_lists_def)
  have lz: "items l = zs" by (simp add: l_def zs_def)
  define i where "i = (case index l of None \<Rightarrow> 0 | Some x \<Rightarrow> Suc (length (takeWhile (\<lambda>y. y \<noteq> x) zs)) mod length zs)"
  have at: "\<exists>ys. zs = takeWhile (\<lambda>y. y \<noteq> x) zs @ x # ys" if "index l = Some x" for x
  proof -
    have "x \<in> set zs" using wf that by (auto simp: wf_lists_def l_def zs_def)
    then have "dropWhile (\<lambda>y. y \<noteq> x) zs \<noteq> []" by simp
    then have "dropWhile (\<lambda>y. y \<noteq> x) zs = x # tl (dropWhile (\<lambda>y. y \<noteq> x) zs)" using hd_dropWhile [of "\<lambda>y. y \<noteq> x" zs] by (metis list.collapse)
    then show ?thesis by (metis takeWhile_dropWhile_id)
  qed
  have "kl_next l = zs ! i"
  proof (cases "index l")
    case None
    then show ?thesis using ne by (simp add: kl_next_def i_def lz hd_conv_nth)
  next
    case (Some x)
    obtain ys where ys: "items l = takeWhile (\<lambda>y. y \<noteq> x) zs @ x # ys" using at [OF Some] lz by metis
    have "distinct (items l)" using d lz by simp
    from kl_next_split [OF this ys Some] show ?thesis using Some by (simp add: i_def lz)
  qed
  moreover have "i < length zs" using ne by (simp add: i_def split: option.split)
  ultimately obtain k' ts where ts: "turns (length zs) k = Some (k', ts)" "length ts = length zs" "\<forall>j<length zs. StateItem (ts ! j) = zs ! ((i + j) mod length zs)"
    using turns_rotate [OF ok assms(2) zs_def [symmetric] ne assms(4) \<open>i < length zs\<close>, of "length zs"] \<open>kl_next l = zs ! i\<close> unfolding l_def by blast
  have m: "map StateItem ts = rotate i zs" using ts(2,3) by (intro nth_equalityI) (simp_all add: nth_rotate)
  then have "distinct (map StateItem ts)" "StateItem ` set ts = set zs" using d by (metis distinct_rotate, metis list.set_map set_rotate)
  then have "distinct ts" "set ts = {u. container k (StateItem u) = Some (Ready p)}" using s by (auto simp: distinct_map)
  moreover have "case index l of None \<Rightarrow> map StateItem ts = zs | Some x \<Rightarrow> \<exists>xs ys. zs = xs @ x # ys \<and> map StateItem ts = ys @ xs @ [x]"
  proof (cases "index l")
    case None
    then show ?thesis using m by (simp add: i_def)
  next
    case (Some x)
    then obtain ys where ys: "zs = takeWhile (\<lambda>y. y \<noteq> x) zs @ x # ys" using at by blast
    then have "map StateItem ts = ys @ takeWhile (\<lambda>y. y \<noteq> x) zs @ [x]" using m Some rotate_after [of "takeWhile (\<lambda>y. y \<noteq> x) zs" x ys] by (simp add: i_def)
    then show ?thesis using ys Some by auto
  qed
  ultimately show ?thesis using ts(1) unfolding zs_def l_def by blast
qed

lemma round_robin_witness:
  "\<exists>k k' t. kernel_call (Start (Some 1) (Some 2)) kernel0 = Some k \<and> turns 1 k = Some (k', [t]) \<and> container k (StateItem t) = Some (Ready 2)"
proof -
  obtain k where k: "kernel_call (Start (Some 1) (Some 2)) kernel0 = Some k" "reachable k" "uxSchedulerSuspended k = 0" "container k (StateItem 2) = Some (Ready 2)"
    "uxTopReadyPriority k = 2" "length (the_items k (Ready 2)) = 1" using running_kernel by blast
  have "core k" using reachable_inv [OF k(2)] by (simp add: kernel_inv_def kernel_ok_def)
  then have "\<forall>v r. container k (StateItem v) = Some (Ready r) \<longrightarrow> r \<le> 2" using k(5) by (auto simp: core_in_def)
  from round_robin [OF k(2-4) this] obtain k' ts where ts: "turns 1 k = Some (k', ts)" "set ts = {u. container k (StateItem u) = Some (Ready 2)}" unfolding k(6) by blast
  have "length ts = 1" using ts(1) by (auto split: Option.bind_splits)
  then show ?thesis using k(1) ts by (cases ts) auto
qed

section \<open>Resuming tasks that wait\<close>

text \<open>A task that waits for a notification for ever is in the list of suspended tasks, in no event list, and counts as suspended: resuming it ends its wait
  without a notification.\<close>

lemma resume_ends_endless_wait:
  assumes "reachable k" and "container k (StateItem t) = Some xSuspendedTaskList" and "ucNotifyState (tcb k t) = taskWAITING_NOTIFICATION" and "t \<noteq> pxCurrentTCB k"
  shows "eTaskGetState t k = eSuspended"
    and "\<exists>k'. vTaskResume t k = Some k' \<and> container k' (StateItem t) = Some (Ready (prio k t)) \<and> fst (snd (notify_wait_leave b (k'\<lparr>pxCurrentTCB := t\<rparr>))) = False"
proof -
  have ok: "kernel_ok k" using reachable_inv [OF assms(1)] by (simp add: kernel_inv_def)
  have o: "core k" "alarm k" "links k" using ok by (simp_all add: kernel_ok_def)
  have t: "t \<in> tasks k" "t \<noteq> 0" using assms(2) o(3) by (auto simp: tasks_def links_def)
  have e: "container k (EventItem t) = None" using t(1) assms(3) o(3) by (simp add: links_def)
  have l: "live k t" using assms(2) by (simp add: live_def tasks_def deleted_def)
  have "where_is (kl k) = (where_is (kl k))(EventItem t := None)" using e by (simp add: fun_upd_idem)
  moreover have "frame k k" by (simp add: frame_def)
  ultimately obtain k2 where k2: "do { k' \<leftarrow> list_do (Remove (StateItem t)) k; prvAddTaskToReadyList t k' } = Some k2"
    "where_is (kl k2) = (where_is (kl k))(StateItem t := Some (Ready (prio k t)), EventItem t := None)" "tcb k2 = tcb k"
    using make_ready [OF ok l _ o(1,2)] by blast
  have "prvTaskIsTaskSuspended t k" using assms(2) e by (simp add: prvTaskIsTaskSuspended_def)
  then have "vTaskResume t k = Some (if prio k2 t \<ge> prio k2 (pxCurrentTCB k2) then portYIELD k2 else k2)"
    using k2(1) assms(4) t(2) by (auto simp: vTaskResume_def split: Option.bind_splits)
  then show "\<exists>k'. vTaskResume t k = Some k' \<and> container k' (StateItem t) = Some (Ready (prio k t)) \<and> fst (snd (notify_wait_leave b (k'\<lparr>pxCurrentTCB := t\<rparr>))) = False"
    using k2(2,3) assms(3) by (auto simp: notify_wait_leave_def Let_def portYIELD_def)
  show "eTaskGetState t k = eSuspended" using assms(2,4) e o(1) by (auto simp: eTaskGetState_def core_in_def)
qed

text \<open>A run: the timer task waits for ever for a notification, the idle task suspends the scheduler, and one interrupt resumes the waiting task.\<close>

fun kernel_calls :: "call list \<Rightarrow> kernel \<Rightarrow> kernel option" where
  "kernel_calls [] k = Some k"
| "kernel_calls (c # cs) k = do { k1 \<leftarrow> kernel_call c k; kernel_calls cs k1 }"

text \<open>Resuming a task from an interrupt while it waits for a notification, with the scheduler suspended, makes the next notification corrupt the lists.
  xTaskResumeFromISR puts the event item of the waiting task in the pending-ready list but leaves its state that of a waiting one, and
  vTaskNotifyGiveFromISR then inserts the same item a second time: the call has no result in the model, in which no item is inserted twice, while without the
  resumption it has one. The calls below lead to such a state.\<close>

lemma notify_after_resume_corrupts:
  assumes "uxSchedulerSuspended k \<noteq> 0" and "container k (StateItem t) = Some xSuspendedTaskList" and "container k (EventItem t) = None"
    and "ucNotifyState (tcb k t) = taskWAITING_NOTIFICATION"
  shows "\<exists>k1 b. xTaskResumeFromISR t k = Some (k1, b) \<and> container k1 (EventItem t) = Some xPendingReadyList \<and> vTaskNotifyGiveFromISR t flag k1 = None"
    and "vTaskNotifyGiveFromISR t flag k \<noteq> None"
  using assms by (auto simp: xTaskResumeFromISR_def prvTaskIsTaskSuspended_def vTaskNotifyGiveFromISR_def list_do_def set_tcb_def Let_def)

lemma notify_after_resume_corrupts_witness:
  "(case kernel_calls [Start (Some 1) (Some 2), WaitEnter 0 portMAX_TICK, SoftInterrupt, SuspendAll, ResumeFromISR 2] kernel0 of None \<Rightarrow> False
     | Some k \<Rightarrow> container k (EventItem 2) = Some xPendingReadyList \<and> kernel_call (GiveFromISR 2 False) k = None)
   \<and> kernel_calls [Start (Some 1) (Some 2), WaitEnter 0 portMAX_TICK, SoftInterrupt, SuspendAll, GiveFromISR 2 False] kernel0 \<noteq> None"
proof
  show "case kernel_calls [Start (Some 1) (Some 2), WaitEnter 0 portMAX_TICK, SoftInterrupt, SuspendAll, ResumeFromISR 2] kernel0 of None \<Rightarrow> False
     | Some k \<Rightarrow> container k (EventItem 2) = Some xPendingReadyList \<and> kernel_call (GiveFromISR 2 False) k = None" by code_simp
  have "\<not> Option.is_none (kernel_calls [Start (Some 1) (Some 2), WaitEnter 0 portMAX_TICK, SoftInterrupt, SuspendAll, GiveFromISR 2 False] kernel0)" by code_simp
  then show "kernel_calls [Start (Some 1) (Some 2), WaitEnter 0 portMAX_TICK, SoftInterrupt, SuspendAll, GiveFromISR 2 False] kernel0 \<noteq> None" by (auto simp: Option.is_none_def)
qed

end
