(* ===== verification/Kernel_Queue.thy ===== *)
theory Kernel_Queue
  imports Kernel_Time
begin

text \<open>
  The queues, semaphores and mutexes of \<^verbatim>\<open>queue.c\<close>, on a byte memory and the scheduler. A critical section is one step;
  what interrupts and other tasks do between them is a parameter. Queue sets, the queue registry and the trace facility are compiled out.
\<close>

section \<open>Structures\<close>

text \<open>A mutex has a null \<open>pcHead\<close> (\<open>uxQueueType\<close>), and \<open>pcTail\<close> is its holder (\<open>pxMutexHolder\<close>); \<open>pcReadFrom\<close> shares its
  memory with \<open>uxRecursiveCallCount\<close>.\<close>

record Queue_t =
  pcHead :: u32
  pcTail :: u32
  pcWriteTo :: u32
  pcReadFrom :: u32
  uxMessagesWaiting :: u32
  uxLength :: u32
  uxItemSize :: u32
  cRxLock :: u8
  cTxLock :: u8

text \<open>Queues are the addresses of their structures, with the event lists in them.\<close>

record qsys =
  kern :: kernel
  queue :: "u32 \<Rightarrow> Queue_t"
  qmem :: mem

datatype copy_position = queueSEND_TO_BACK | queueSEND_TO_FRONT | queueOVERWRITE

definition queueUNLOCKED :: u8 where "queueUNLOCKED = -1"
definition queueLOCKED_UNMODIFIED :: u8 where "queueLOCKED_UNMODIFIED = 0"
definition sizeof_Queue_t :: u32 where "sizeof_Queue_t = 72"

definition xTasksWaitingToSend :: "u32 \<Rightarrow> u32" where "xTasksWaitingToSend q = q + 16"
definition xTasksWaitingToReceive :: "u32 \<Rightarrow> u32" where "xTasksWaitingToReceive q = q + 36"

definition is_mutex :: "u32 \<Rightarrow> qsys \<Rightarrow> bool" where "is_mutex q st \<longleftrightarrow> pcHead (queue st q) = 0"

definition set_queue :: "u32 \<Rightarrow> (Queue_t \<Rightarrow> Queue_t) \<Rightarrow> qsys \<Rightarrow> qsys" where
  "set_queue q f st = st\<lparr>queue := (queue st)(q := f (queue st q))\<rparr>"

text \<open>A call of the scheduler, and one that also has a result.\<close>

definition kernel_do :: "(kernel \<Rightarrow> kernel option) \<Rightarrow> qsys \<Rightarrow> qsys option" where
  "kernel_do f st = map_option (\<lambda>k. st\<lparr>kern := k\<rparr>) (f (kern st))"

definition kernel_ask :: "(kernel \<Rightarrow> (kernel \<times> 'a) option) \<Rightarrow> qsys \<Rightarrow> (qsys \<times> 'a) option" where
  "kernel_ask f st = map_option (\<lambda>(k, r). (st\<lparr>kern := k\<rparr>, r)) (f (kern st))"

definition yield_if :: "bool \<Rightarrow> qsys \<Rightarrow> qsys" where
  "yield_if b st = (if b then st\<lparr>kern := portYIELD (kern st)\<rparr> else st)"

definition vTaskMissedYield :: "kernel \<Rightarrow> kernel" where "vTaskMissedYield k = k\<lparr>xYieldPending := True\<rparr>"

text \<open>Waking the first of the tasks that wait, if any; with it goes whether it has a higher priority than the running one.\<close>

definition wake_one :: "u32 \<Rightarrow> qsys \<Rightarrow> (qsys \<times> bool) option" where
  "wake_one e st = (if the_items (kern st) (EventList e) \<noteq> [] then kernel_ask (xTaskRemoveFromEventList e) st else Some (st, False))"

section \<open>Creation\<close>

definition xQueueGenericReset :: "u32 \<Rightarrow> bool \<Rightarrow> qsys \<Rightarrow> qsys option" where
  "xQueueGenericReset q xNewQueue st =
    (let st1 = set_queue q (\<lambda>Q. Q\<lparr>pcTail := pcHead Q + uxLength Q * uxItemSize Q, uxMessagesWaiting := 0, pcWriteTo := pcHead Q,
                 pcReadFrom := pcHead Q + (uxLength Q - 1) * uxItemSize Q, cRxLock := queueUNLOCKED, cTxLock := queueUNLOCKED\<rparr>) st in
     if \<not> xNewQueue then do { (st2, higher) \<leftarrow> wake_one (xTasksWaitingToSend q) st1; Some (yield_if higher st2) }
     else Some (st1\<lparr>kern := (kern st1)\<lparr>kl := (kl (kern st1))\<lparr>lists_of := (lists_of (kl (kern st1)))
                 (EventList (xTasksWaitingToSend q) := kl_empty, EventList (xTasksWaitingToReceive q) := kl_empty)\<rparr>\<rparr>\<rparr>))"

definition prvInitialiseNewQueue :: "u32 \<Rightarrow> u32 \<Rightarrow> u32 \<Rightarrow> u32 \<Rightarrow> qsys \<Rightarrow> qsys option" where
  "prvInitialiseNewQueue len size' storage q st =
    xQueueGenericReset q True (set_queue q (\<lambda>Q. Q\<lparr>pcHead := (if size' = 0 then q else storage), uxLength := len, uxItemSize := size'\<rparr>) st)"

text \<open>The heap's \<^verbatim>\<open>pvPortMalloc\<close> is a parameter, from the bytes asked for to the block.\<close>

definition xQueueGenericCreate :: "(u32 \<Rightarrow> u32 option) \<Rightarrow> u32 \<Rightarrow> u32 \<Rightarrow> qsys \<Rightarrow> (qsys \<times> u32) option" where
  "xQueueGenericCreate pvPortMalloc len size' st =
    (let xQueueSizeInBytes = (if size' = 0 then 0 else len * size') in
     case pvPortMalloc (sizeof_Queue_t + xQueueSizeInBytes) of
       None \<Rightarrow> Some (st, 0)
     | Some q \<Rightarrow> do { st1 \<leftarrow> prvInitialiseNewQueue len size' (q + sizeof_Queue_t) q st; Some (st1, q) })"

definition xQueueCreateCountingSemaphore :: "(u32 \<Rightarrow> u32 option) \<Rightarrow> u32 \<Rightarrow> u32 \<Rightarrow> qsys \<Rightarrow> (qsys \<times> u32) option" where
  "xQueueCreateCountingSemaphore pvPortMalloc uxMaxCount uxInitialCount st =
    do {
      (st1, q) \<leftarrow> xQueueGenericCreate pvPortMalloc uxMaxCount 0 st;
      Some (if q \<noteq> 0 then set_queue q (\<lambda>Q. Q\<lparr>uxMessagesWaiting := uxInitialCount\<rparr>) st1 else st1, q)
    }"

section \<open>Copying items\<close>

definition uxQueueMessagesWaiting :: "u32 \<Rightarrow> qsys \<Rightarrow> u32" where "uxQueueMessagesWaiting q st = uxMessagesWaiting (queue st q)"
definition uxQueueSpacesAvailable :: "u32 \<Rightarrow> qsys \<Rightarrow> u32" where "uxQueueSpacesAvailable q st = uxLength (queue st q) - uxMessagesWaiting (queue st q)"
definition prvIsQueueEmpty :: "Queue_t \<Rightarrow> bool" where "prvIsQueueEmpty Q \<longleftrightarrow> uxMessagesWaiting Q = 0"
definition prvIsQueueFull :: "Queue_t \<Rightarrow> bool" where "prvIsQueueFull Q \<longleftrightarrow> uxMessagesWaiting Q = uxLength Q"

text \<open>The item is the bytes at the caller's pointer; with the result goes whether a mutex given back lowered the holder's priority.\<close>

definition copy_back :: "u8 list \<Rightarrow> Queue_t \<Rightarrow> mem \<Rightarrow> Queue_t \<times> mem" where
  "copy_back item Q m =
    (let w = pcWriteTo Q + uxItemSize Q in
     (Q\<lparr>pcWriteTo := (if w \<ge> pcTail Q then pcHead Q else w)\<rparr>, mem_write m (unat (pcWriteTo Q)) item))"

definition copy_front :: "u8 list \<Rightarrow> Queue_t \<Rightarrow> mem \<Rightarrow> Queue_t \<times> mem" where
  "copy_front item Q m =
    (let r = pcReadFrom Q - uxItemSize Q in
     (Q\<lparr>pcReadFrom := (if r < pcHead Q then pcTail Q - uxItemSize Q else r)\<rparr>, mem_write m (unat (pcReadFrom Q)) item))"

definition prvCopyDataToQueue :: "u32 \<Rightarrow> u8 list \<Rightarrow> copy_position \<Rightarrow> qsys \<Rightarrow> (qsys \<times> bool) option" where
  "prvCopyDataToQueue q item xPosition st =
    do {
      let n = uxMessagesWaiting (queue st q);
      (st1, n1, lowered) \<leftarrow>
        (if uxItemSize (queue st q) = 0 then
           (if is_mutex q st then
              do {
                (st', b) \<leftarrow> kernel_ask (xTaskPriorityDisinherit (pcTail (queue st q))) st;
                Some (set_queue q (\<lambda>Q. Q\<lparr>pcTail := 0\<rparr>) st', n, b)
              }
            else Some (st, n, False))
         else if xPosition = queueSEND_TO_BACK then
           (case copy_back item (queue st q) (qmem st) of (Q, m) \<Rightarrow> Some (st\<lparr>queue := (queue st)(q := Q), qmem := m\<rparr>, n, False))
         else
           (case copy_front item (queue st q) (qmem st) of (Q, m) \<Rightarrow>
              Some (st\<lparr>queue := (queue st)(q := Q), qmem := m\<rparr>, if xPosition = queueOVERWRITE \<and> n > 0 then n - 1 else n, False)));
      Some (set_queue q (\<lambda>Q. Q\<lparr>uxMessagesWaiting := n1 + 1\<rparr>) st1, lowered)
    }"

definition prvCopyDataFromQueue :: "Queue_t \<Rightarrow> mem \<Rightarrow> Queue_t \<times> u8 list" where
  "prvCopyDataFromQueue Q m =
    (if uxItemSize Q \<noteq> 0 then
       (let r = pcReadFrom Q + uxItemSize Q; r' = (if r \<ge> pcTail Q then pcHead Q else r) in
        (Q\<lparr>pcReadFrom := r'\<rparr>, mem_read m (unat r') (unat (uxItemSize Q))))
     else (Q, []))"

section \<open>Locking\<close>

definition prvLockQueue :: "u32 \<Rightarrow> qsys \<Rightarrow> qsys" where
  "prvLockQueue q = set_queue q (\<lambda>Q. Q\<lparr>cRxLock := (if cRxLock Q = queueUNLOCKED then queueLOCKED_UNMODIFIED else cRxLock Q),
     cTxLock := (if cTxLock Q = queueUNLOCKED then queueLOCKED_UNMODIFIED else cTxLock Q)\<rparr>)"

text \<open>The loop of an unlock, for the count of a lock.\<close>

primrec unlock_loop :: "nat \<Rightarrow> u32 \<Rightarrow> qsys \<Rightarrow> qsys option" where
  "unlock_loop 0 e st = Some st"
| "unlock_loop (Suc n) e st =
    (if the_items (kern st) (EventList e) \<noteq> [] then
       do { (st1, higher) \<leftarrow> wake_one e st; unlock_loop n e (if higher then st1\<lparr>kern := vTaskMissedYield (kern st1)\<rparr> else st1) }
     else Some st)"

definition prvUnlockQueue :: "u32 \<Rightarrow> qsys \<Rightarrow> qsys option" where
  "prvUnlockQueue q st =
    do {
      st1 \<leftarrow> unlock_loop (nat (sint (cTxLock (queue st q)))) (xTasksWaitingToReceive q) st;
      let st2 = set_queue q (\<lambda>Q. Q\<lparr>cTxLock := queueUNLOCKED\<rparr>) st1;
      st3 \<leftarrow> unlock_loop (nat (sint (cRxLock (queue st2 q)))) (xTasksWaitingToSend q) st2;
      Some (set_queue q (\<lambda>Q. Q\<lparr>cRxLock := queueUNLOCKED\<rparr>) st3)
    }"

section \<open>Trying and waiting\<close>

text \<open>What the calls do in their critical section when there is room, or an item.\<close>

definition send_try :: "u32 \<Rightarrow> u8 list \<Rightarrow> copy_position \<Rightarrow> qsys \<Rightarrow> (qsys \<times> unit option) option" where
  "send_try q item xPosition st =
    (if uxMessagesWaiting (queue st q) < uxLength (queue st q) \<or> xPosition = queueOVERWRITE then
       do {
         (st1, xYieldRequired) \<leftarrow> prvCopyDataToQueue q item xPosition st;
         (if the_items (kern st1) (EventList (xTasksWaitingToReceive q)) \<noteq> [] then
            do { (st2, higher) \<leftarrow> wake_one (xTasksWaitingToReceive q) st1; Some (yield_if higher st2, Some ()) }
          else Some (yield_if xYieldRequired st1, Some ()))
       }
     else Some (st, None))"

definition receive_try :: "u32 \<Rightarrow> qsys \<Rightarrow> (qsys \<times> u8 list option) option" where
  "receive_try q st =
    (let n = uxMessagesWaiting (queue st q) in
     if n > 0 then
       (case prvCopyDataFromQueue (queue st q) (qmem st) of (Q, item) \<Rightarrow>
         do {
           (st1, higher) \<leftarrow> wake_one (xTasksWaitingToSend q) (st\<lparr>queue := (queue st)(q := Q\<lparr>uxMessagesWaiting := n - 1\<rparr>)\<rparr>);
           Some (yield_if higher st1, Some item)
         })
     else Some (st, None))"

definition peek_try :: "u32 \<Rightarrow> qsys \<Rightarrow> (qsys \<times> u8 list option) option" where
  "peek_try q st =
    (if uxMessagesWaiting (queue st q) > 0 then
       (case prvCopyDataFromQueue (queue st q) (qmem st) of (Q, item) \<Rightarrow>
         do {
           (st1, higher) \<leftarrow> wake_one (xTasksWaitingToReceive q) (st\<lparr>queue := (queue st)(q := Q\<lparr>pcReadFrom := pcReadFrom (queue st q)\<rparr>)\<rparr>);
           Some (yield_if higher st1, Some item)
         })
     else Some (st, None))"

definition take_try :: "u32 \<Rightarrow> qsys \<Rightarrow> (qsys \<times> unit option) option" where
  "take_try q st =
    (let n = uxMessagesWaiting (queue st q) in
     if n > 0 then
       do {
         let st1 = set_queue q (\<lambda>Q. Q\<lparr>uxMessagesWaiting := n - 1\<rparr>) st;
         let st2 = (if is_mutex q st1 then
                      (case pvTaskIncrementMutexHeldCount (kern st1) of (k, t) \<Rightarrow> set_queue q (\<lambda>Q. Q\<lparr>pcTail := t\<rparr>) (st1\<lparr>kern := k\<rparr>))
                    else st1);
         (st3, higher) \<leftarrow> wake_one (xTasksWaitingToSend q) st2;
         Some (yield_if higher st3, Some ())
       }
     else Some (st, None))"

definition inherit_priority :: "u32 \<Rightarrow> bool \<Rightarrow> qsys \<Rightarrow> (qsys \<times> bool) option" where
  "inherit_priority q occurred st =
    (if is_mutex q st then kernel_ask (xTaskPriorityInherit (pcTail (queue st q))) st else Some (st, occurred))"

definition prvGetDisinheritPriorityAfterTimeout :: "u32 \<Rightarrow> kernel \<Rightarrow> u32" where
  "prvGetDisinheritPriorityAfterTimeout q k =
    (case the_items k (EventList (xTasksWaitingToReceive q)) of [] \<Rightarrow> tskIDLE_PRIORITY | x # _ \<Rightarrow> configMAX_PRIORITIES - item_value k x)"

definition disinherit_after_timeout :: "u32 \<Rightarrow> bool \<Rightarrow> qsys \<Rightarrow> qsys option" where
  "disinherit_after_timeout q occurred st =
    (if occurred then
       kernel_do (vTaskPriorityDisinheritAfterTimeout (pcTail (queue st q)) (prvGetDisinheritPriorityAfterTimeout q (kern st))) st
     else Some st)"

definition unlock_and_resume :: "u32 \<Rightarrow> qsys \<Rightarrow> (qsys \<times> bool) option" where
  "unlock_and_resume q st = do { st1 \<leftarrow> prvUnlockQueue q st; kernel_ask xTaskResumeAll st1 }"

text \<open>Between two attempts: whether the time is out, the time-out and the ticks left, and whether a priority was inherited. Interrupts may
  act while the scheduler is suspended.\<close>

definition queue_wait :: "(qsys \<Rightarrow> qsys) \<Rightarrow> (Queue_t \<Rightarrow> bool) \<Rightarrow> (bool \<Rightarrow> qsys \<Rightarrow> (qsys \<times> bool) option) \<Rightarrow> u32 \<Rightarrow> u32
    \<Rightarrow> TimeOut_t \<Rightarrow> u32 \<Rightarrow> bool \<Rightarrow> qsys \<Rightarrow> (qsys \<times> bool \<times> TimeOut_t \<times> u32 \<times> bool) option" where
  "queue_wait interrupts blocked inherit e q xTimeOut ticks occurred st =
    do {
      let st1 = interrupts (prvLockQueue q (st\<lparr>kern := vTaskSuspendAll (kern st)\<rparr>));
      let (out, xTimeOut', ticks') = xTaskCheckForTimeOut xTimeOut ticks (kern st1);
      if \<not> out \<and> blocked (queue st1 q) then
        do {
          (st2, occurred') \<leftarrow> inherit occurred st1;
          st3 \<leftarrow> kernel_do (vTaskPlaceOnEventList e ticks') st2;
          (st4, yielded) \<leftarrow> unlock_and_resume q (interrupts st3);
          Some (yield_if (\<not> yielded) st4, False, xTimeOut', ticks', occurred')
        }
      else do { (st2, yielded) \<leftarrow> unlock_and_resume q st1; Some (st2, out, xTimeOut', ticks', occurred) }
    }"

text \<open>The loop of the calls that may block: an attempt, the wait, and what is done when the time is out. The environment says, for each turn,
  what interrupts do while the task has the scheduler suspended and what they and other tasks do while it has not.\<close>

record environment =
  interrupts :: "nat \<Rightarrow> qsys \<Rightarrow> qsys"
  others :: "nat \<Rightarrow> qsys \<Rightarrow> qsys"

partial_function (option) queue_loop :: "environment \<Rightarrow> (qsys \<Rightarrow> (qsys \<times> 'a option) option) \<Rightarrow> (Queue_t \<Rightarrow> bool)
    \<Rightarrow> (bool \<Rightarrow> qsys \<Rightarrow> (qsys \<times> bool) option) \<Rightarrow> (Queue_t \<Rightarrow> bool) \<Rightarrow> (bool \<Rightarrow> qsys \<Rightarrow> qsys option) \<Rightarrow> u32 \<Rightarrow> u32
    \<Rightarrow> nat \<Rightarrow> TimeOut_t option \<Rightarrow> u32 \<Rightarrow> bool \<Rightarrow> qsys \<Rightarrow> (qsys \<times> 'a option) option" where [code]:
  "queue_loop E attempt blocked inherit fails leave e q n xTimeOut ticks occurred st =
    do {
      (st1, r) \<leftarrow> attempt st;
      (if r \<noteq> None \<or> ticks = 0 then Some (st1, r)
       else do {
         (st2, out, xTimeOut', ticks', occurred') \<leftarrow>
           queue_wait (interrupts E n) blocked inherit e q (case xTimeOut of None \<Rightarrow> vTaskSetTimeOutState (kern st1) | Some t \<Rightarrow> t) ticks occurred (others E (2 * n) st1);
         (let st3 = others E (2 * n + 1) st2 in
          if out \<and> fails (queue st3 q) then do { st4 \<leftarrow> leave occurred' st3; Some (st4, None) }
          else queue_loop E attempt blocked inherit fails leave e q (n + 1) (Some xTimeOut') ticks' occurred' st3)
       })
    }"

section \<open>The calls\<close>

text \<open>None is \<^verbatim>\<open>errQUEUE_FULL\<close> or \<^verbatim>\<open>errQUEUE_EMPTY\<close>, Some is \<^verbatim>\<open>pdPASS\<close>.\<close>

definition xQueueGenericSend :: "environment \<Rightarrow> u32 \<Rightarrow> u8 list \<Rightarrow> u32 \<Rightarrow> copy_position \<Rightarrow> qsys \<Rightarrow> (qsys \<times> unit option) option" where
  "xQueueGenericSend E q item ticks xPosition st =
    queue_loop E (send_try q item xPosition) prvIsQueueFull (\<lambda>b st. Some (st, b)) (\<lambda>Q. True) (\<lambda>b st. Some st) (xTasksWaitingToSend q) q 0 None ticks False st"

definition xQueueReceive :: "environment \<Rightarrow> u32 \<Rightarrow> u32 \<Rightarrow> qsys \<Rightarrow> (qsys \<times> u8 list option) option" where
  "xQueueReceive E q ticks st =
    queue_loop E (receive_try q) prvIsQueueEmpty (\<lambda>b st. Some (st, b)) prvIsQueueEmpty (\<lambda>b st. Some st) (xTasksWaitingToReceive q) q 0 None ticks False st"

definition xQueuePeek :: "environment \<Rightarrow> u32 \<Rightarrow> u32 \<Rightarrow> qsys \<Rightarrow> (qsys \<times> u8 list option) option" where
  "xQueuePeek E q ticks st =
    queue_loop E (peek_try q) prvIsQueueEmpty (\<lambda>b st. Some (st, b)) prvIsQueueEmpty (\<lambda>b st. Some st) (xTasksWaitingToReceive q) q 0 None ticks False st"

definition xQueueSemaphoreTake :: "environment \<Rightarrow> u32 \<Rightarrow> u32 \<Rightarrow> qsys \<Rightarrow> (qsys \<times> unit option) option" where
  "xQueueSemaphoreTake E q ticks st =
    queue_loop E (take_try q) prvIsQueueEmpty (inherit_priority q) prvIsQueueEmpty (disinherit_after_timeout q) (xTasksWaitingToReceive q) q 0 None ticks False st"

section \<open>Mutexes\<close>

definition prvInitialiseMutex :: "environment \<Rightarrow> u32 \<Rightarrow> qsys \<Rightarrow> qsys option" where
  "prvInitialiseMutex E q st =
    (if q \<noteq> 0 then
       do { (st1, r) \<leftarrow> xQueueGenericSend E q [] 0 queueSEND_TO_BACK (set_queue q (\<lambda>Q. Q\<lparr>pcTail := 0, pcHead := 0, pcReadFrom := 0\<rparr>) st); Some st1 }
     else Some st)"

definition xQueueCreateMutex :: "environment \<Rightarrow> (u32 \<Rightarrow> u32 option) \<Rightarrow> qsys \<Rightarrow> (qsys \<times> u32) option" where
  "xQueueCreateMutex E pvPortMalloc st =
    do { (st1, q) \<leftarrow> xQueueGenericCreate pvPortMalloc 1 0 st; st2 \<leftarrow> prvInitialiseMutex E q st1; Some (st2, q) }"

definition xQueueGetMutexHolder :: "u32 \<Rightarrow> qsys \<Rightarrow> u32" where
  "xQueueGetMutexHolder q st = (if is_mutex q st then pcTail (queue st q) else 0)"

definition xQueueGiveMutexRecursive :: "environment \<Rightarrow> u32 \<Rightarrow> qsys \<Rightarrow> (qsys \<times> bool) option" where
  "xQueueGiveMutexRecursive E q st =
    (if pcTail (queue st q) = pxCurrentTCB (kern st) then
       (let st1 = set_queue q (\<lambda>Q. Q\<lparr>pcReadFrom := pcReadFrom Q - 1\<rparr>) st in
        if pcReadFrom (queue st1 q) = 0 then do { (st2, r) \<leftarrow> xQueueGenericSend E q [] 0 queueSEND_TO_BACK st1; Some (st2, True) }
        else Some (st1, True))
     else Some (st, False))"

definition xQueueTakeMutexRecursive :: "environment \<Rightarrow> u32 \<Rightarrow> u32 \<Rightarrow> qsys \<Rightarrow> (qsys \<times> bool) option" where
  "xQueueTakeMutexRecursive E q ticks st =
    (let again = set_queue q (\<lambda>Q. Q\<lparr>pcReadFrom := pcReadFrom Q + 1\<rparr>) in
     if pcTail (queue st q) = pxCurrentTCB (kern st) then Some (again st, True)
     else do { (st1, r) \<leftarrow> xQueueSemaphoreTake E q ticks st; Some (if r \<noteq> None then (again st1, True) else (st1, False)) })"

section \<open>From interrupts\<close>

text \<open>With what is written to \<^verbatim>\<open>pxHigherPriorityTaskWoken\<close>, unless it is null.\<close>

definition sent_from_isr :: "u32 \<Rightarrow> u8 \<Rightarrow> qsys \<Rightarrow> (qsys \<times> bool) option" where
  "sent_from_isr q lock st =
    (if lock = queueUNLOCKED then wake_one (xTasksWaitingToReceive q) st
     else Some (set_queue q (\<lambda>Q. Q\<lparr>cTxLock := lock + 1\<rparr>) st, False))"

definition xQueueGenericSendFromISR :: "u32 \<Rightarrow> u8 list \<Rightarrow> copy_position \<Rightarrow> qsys \<Rightarrow> (qsys \<times> unit option \<times> bool) option" where
  "xQueueGenericSendFromISR q item xPosition st =
    (if uxMessagesWaiting (queue st q) < uxLength (queue st q) \<or> xPosition = queueOVERWRITE then
       do {
         (st1, b) \<leftarrow> prvCopyDataToQueue q item xPosition st;
         (st2, woken) \<leftarrow> sent_from_isr q (cTxLock (queue st q)) st1;
         Some (st2, Some (), woken)
       }
     else Some (st, None, False))"

definition xQueueGiveFromISR :: "u32 \<Rightarrow> qsys \<Rightarrow> (qsys \<times> unit option \<times> bool) option" where
  "xQueueGiveFromISR q st =
    (if uxMessagesWaiting (queue st q) < uxLength (queue st q) then
       do {
         (st1, woken) \<leftarrow> sent_from_isr q (cTxLock (queue st q)) (set_queue q (\<lambda>Q. Q\<lparr>uxMessagesWaiting := uxMessagesWaiting Q + 1\<rparr>) st);
         Some (st1, Some (), woken)
       }
     else Some (st, None, False))"

definition xQueueReceiveFromISR :: "u32 \<Rightarrow> qsys \<Rightarrow> (qsys \<times> u8 list option \<times> bool) option" where
  "xQueueReceiveFromISR q st =
    (let n = uxMessagesWaiting (queue st q) in
     if n > 0 then
       (case prvCopyDataFromQueue (queue st q) (qmem st) of (Q, item) \<Rightarrow>
         do {
           let st1 = st\<lparr>queue := (queue st)(q := Q\<lparr>uxMessagesWaiting := n - 1\<rparr>)\<rparr>;
           (st2, woken) \<leftarrow> (if cRxLock Q = queueUNLOCKED then wake_one (xTasksWaitingToSend q) st1
                            else Some (set_queue q (\<lambda>Q. Q\<lparr>cRxLock := cRxLock Q + 1\<rparr>) st1, False));
           Some (st2, Some item, woken)
         })
     else Some (st, None, False))"

definition xQueuePeekFromISR :: "u32 \<Rightarrow> qsys \<Rightarrow> u8 list option" where
  "xQueuePeekFromISR q st = (if uxMessagesWaiting (queue st q) > 0 then Some (snd (prvCopyDataFromQueue (queue st q) (qmem st))) else None)"

text \<open>For the timer task, with the scheduler suspended.\<close>

definition vQueueWaitForMessageRestricted :: "u32 \<Rightarrow> u32 \<Rightarrow> bool \<Rightarrow> qsys \<Rightarrow> qsys option" where
  "vQueueWaitForMessageRestricted q ticks forever st =
    do {
      let st1 = prvLockQueue q st;
      st2 \<leftarrow> (if uxMessagesWaiting (queue st1 q) = 0 then kernel_do (vTaskPlaceOnEventListRestricted (xTasksWaitingToReceive q) ticks forever) st1 else Some st1);
      prvUnlockQueue q st2
    }"

end
