(* ===== verification/Kernel_Messages.thy ===== *)
theory Kernel_Messages
  imports Kernel_Queue
begin

text \<open>A sequence of at most \<open>n\<close> items in slots, from slot \<open>r\<close> on, turning over at \<open>n\<close>.\<close>

definition stored :: "(nat \<Rightarrow> 'a) \<Rightarrow> nat \<Rightarrow> nat \<Rightarrow> 'a list \<Rightarrow> bool" where
  "stored f n r xs \<longleftrightarrow> length xs \<le> n \<and> (\<forall>i<length xs. f ((r + i) mod n) = xs ! i)"

lemma mod_inj: "(r + i) mod n = (r + j) mod n \<Longrightarrow> i < n \<Longrightarrow> j < n \<Longrightarrow> i = j" for i j n r :: nat
proof (induction i j rule: linorder_wlog)
  case (le i j)
  then have "n dvd (r + j) - (r + i)" using mod_eq_dvd_iff_nat [of "r + i" "r + j" n] by simp
  then have "n dvd j - i" by simp
  then show ?case using le by (metis diff_is_0_eq le_antisym less_imp_diff_less nat_dvd_not_less neq0_conv)
qed (metis)

lemma stored_back:
  assumes "stored f n r xs" and "length xs < n"
  shows "stored (f((r + length xs) mod n := x)) n r (xs @ [x])"
proof -
  have "(r + i) mod n \<noteq> (r + length xs) mod n" if "i < length xs" for i using mod_inj [of r i n "length xs"] that assms(2) by auto
  then show ?thesis using assms by (auto simp: stored_def nth_append less_Suc_eq)
qed

lemma stored_front:
  assumes "stored f n r xs" and "length xs < n" and "r < n"
  shows "stored (f((r + n - 1) mod n := x)) n ((r + n - 1) mod n) (x # xs)"
proof -
  have s: "((r + n - 1) mod n + Suc i) mod n = (r + i) mod n" for i
  proof -
    have "((r + n - 1) mod n + Suc i) mod n = (r + n - 1 + Suc i) mod n" by (rule mod_add_left_eq)
    also have "r + n - 1 + Suc i = r + i + n" using assms(3) by simp
    finally show ?thesis by simp
  qed
  have "(r + i) mod n \<noteq> (r + n - 1) mod n" if "i < length xs" for i
    using mod_inj [of r i n "n - 1"] that assms(2) by (auto simp: Nat.add_diff_assoc)
  then show ?thesis using assms s by (auto simp: stored_def nth_Cons' gr0_conv_Suc)
qed

lemma stored_pop: "stored f n r (x # xs) \<Longrightarrow> r < n \<Longrightarrow> f r = x \<and> stored f n ((r + 1) mod n) xs"
  by (force simp: stored_def mod_simps)

section \<open>The storage of a queue\<close>

definition slot :: "mem \<Rightarrow> nat \<Rightarrow> nat \<Rightarrow> nat \<Rightarrow> u8 list" where
  "slot m h sz i = mem_read m (h + i * sz) sz"

lemma slot_write:
  assumes "length item = sz"
  shows "slot (mem_write m (h + i * sz) item) h sz = (slot m h sz)(i := item)"
proof (rule ext)
  fix j
  show "slot (mem_write m (h + i * sz) item) h sz j = ((slot m h sz)(i := item)) j"
  proof (cases "j = i")
    case False
    then have "Suc j \<le> i \<or> Suc i \<le> j" by auto
    then have "Suc j * sz \<le> i * sz \<or> Suc i * sz \<le> j * sz" using mult_le_mono1 by blast
    then have "h + j * sz + sz \<le> h + i * sz \<or> h + i * sz + length item \<le> h + j * sz" using assms by auto
    then show ?thesis using False mem_read_mem_write_other by (simp add: slot_def)
  qed (use assms in \<open>auto simp: slot_def\<close>)
qed

text \<open>The shape of the structure, with the next item to read in slot \<open>r\<close>, and the items it holds.\<close>

definition shaped :: "Queue_t \<Rightarrow> nat \<Rightarrow> nat \<Rightarrow> nat \<Rightarrow> nat \<Rightarrow> nat \<Rightarrow> bool" where
  "shaped Q h n sz r c \<longleftrightarrow> unat (pcHead Q) = h \<and> unat (uxLength Q) = n \<and> unat (uxItemSize Q) = sz \<and> 0 < n \<and> 0 < sz \<and> sz \<le> h \<and> h + n * sz < 2 ^ 32
    \<and> unat (pcTail Q) = h + n * sz \<and> r < n \<and> unat (pcReadFrom Q) = h + (r + n - 1) mod n * sz \<and> unat (pcWriteTo Q) = h + (r + c) mod n * sz
    \<and> unat (uxMessagesWaiting Q) = c"

definition queue_items :: "Queue_t \<Rightarrow> mem \<Rightarrow> u8 list list \<Rightarrow> bool" where
  "queue_items Q m xs \<longleftrightarrow> (\<forall>x\<in>set xs. length x = unat (uxItemSize Q))
    \<and> (\<exists>h n sz r. shaped Q h n sz r (length xs) \<and> stored (slot m h sz) n r xs)"

lemma queue_itemsI:
  "shaped Q h n sz r (length xs) \<Longrightarrow> stored (slot m h sz) n r xs \<Longrightarrow> \<forall>x\<in>set xs. length x = unat (uxItemSize Q) \<Longrightarrow> queue_items Q m xs"
  by (auto simp: queue_items_def)

lemma slot_bound: "i < n \<Longrightarrow> h + i * sz + sz \<le> h + n * sz" for i n h sz :: nat
  using mult_le_mono1 [of "Suc i" n sz] by simp

lemma next_slot:
  fixes p :: u32
  assumes p: "unat p = h + i * sz" and i: "i < n" and sz: "unat s = sz" and t: "unat t = h + n * sz" "h + n * sz < 2 ^ 32" and hd: "unat hd' = h" and pos: "0 < sz"
  shows "unat (if p + s \<ge> t then hd' else p + s) = h + Suc i mod n * sz"
proof -
  have "h + i * sz + sz < 2 ^ 32" using slot_bound [OF i, of h sz] t(2) by linarith
  then have u: "unat (p + s) = h + Suc i * sz" using p sz by (simp add: unat_word_ariths)
  show ?thesis
  proof (cases "Suc i = n")
    case True
    then show ?thesis using u t(1) hd by (simp add: word_le_nat_alt)
  next
    case False
    then have "Suc i < n" using i by simp
    then have "Suc i * sz < n * sz" using pos by (intro mult_strict_right_mono) simp_all
    then show ?thesis using u t(1) \<open>Suc i < n\<close> by (auto simp: word_le_nat_alt)
  qed
qed

lemma previous_slot:
  fixes p :: u32
  assumes p: "unat p = h + i * sz" and i: "i < n" and sz: "unat s = sz" and t: "unat t = h + n * sz" and hd: "unat hd' = h" and pos: "0 < sz" "sz \<le> h"
  shows "unat (if p - s < hd' then t - s else p - s) = h + (i + n - 1) mod n * sz"
proof -
  have u: "unat (p - s) = h + i * sz - sz" using p sz pos(2) by (simp add: unat_sub word_le_nat_alt)
  show ?thesis
  proof (cases i)
    case 0
    have "sz \<le> n * sz" using i by (cases n) simp_all
    moreover have "unat (t - s) = h + n * sz - sz" using t sz pos(2) by (simp add: unat_sub word_le_nat_alt)
    moreover have "p - s < hd'" using u 0 hd pos by (simp add: word_less_nat_alt)
    ultimately show ?thesis using 0 i by (simp add: diff_mult_distrib)
  next
    case (Suc j)
    then have "\<not> p - s < hd'" using u hd by (simp add: word_less_nat_alt)
    moreover have "(i + n - 1) mod n = j" using Suc i by simp
    ultimately show ?thesis using u Suc by simp
  qed
qed

lemma u32_count: "unat c + 1 < 2 ^ 32 \<Longrightarrow> unat (c + 1 :: u32) = unat c + 1" "c \<noteq> 0 \<Longrightarrow> unat (c - 1) = unat c - 1"
  by (simp add: unat_word_ariths) (simp add: unat_minus_one)

lemma shaped_room: "shaped Q h n sz r c \<Longrightarrow> n < 2 ^ 32"
  using unat_bound [of "uxLength Q"] by (simp add: shaped_def)

lemma copy_back_items:
  assumes q: "queue_items Q m xs" and room: "length xs < unat (uxLength Q)" and item: "length item = unat (uxItemSize Q)"
  shows "case copy_back item Q m of (Q', m') \<Rightarrow> queue_items (Q'\<lparr>uxMessagesWaiting := uxMessagesWaiting Q + 1\<rparr>) m' (xs @ [item])"
proof -
  obtain h n sz r where s: "shaped Q h n sz r (length xs)" "stored (slot m h sz) n r xs" "\<forall>x\<in>set xs. length x = unat (uxItemSize Q)"
    using q by (auto simp: queue_items_def)
  define c where "c = length xs"
  have w: "unat (pcWriteTo Q) = h + (r + c) mod n * sz" "(r + c) mod n < n" using s(1) by (simp_all add: shaped_def c_def)
  have "unat (if pcWriteTo Q + uxItemSize Q \<ge> pcTail Q then pcHead Q else pcWriteTo Q + uxItemSize Q) = h + Suc ((r + c) mod n) mod n * sz"
    by (rule next_slot [OF w]) (use s(1) in \<open>simp_all add: shaped_def\<close>)
  then have w': "unat (if pcWriteTo Q + uxItemSize Q \<ge> pcTail Q then pcHead Q else pcWriteTo Q + uxItemSize Q) = h + (r + Suc c) mod n * sz"
    by (simp add: mod_Suc_eq)
  have c1: "unat (uxMessagesWaiting Q + 1) = Suc c" using s(1) room shaped_room [OF s(1)] by (simp add: shaped_def c_def u32_count)
  have sh: "shaped (Q\<lparr>pcWriteTo := (if pcWriteTo Q + uxItemSize Q \<ge> pcTail Q then pcHead Q else pcWriteTo Q + uxItemSize Q), uxMessagesWaiting := uxMessagesWaiting Q + 1\<rparr>)
      h n sz r (length (xs @ [item]))" using s(1) w' c1 by (simp add: shaped_def c_def)
  have "stored (slot (mem_write m (unat (pcWriteTo Q)) item) h sz) n r (xs @ [item])"
    using stored_back [OF s(2)] room s(1) item w(1) by (simp add: slot_write shaped_def c_def)
  then show ?thesis using s(3) item unfolding copy_back_def Let_def prod.case by (intro queue_itemsI [OF sh]) simp_all
qed

lemma copy_front_items:
  assumes q: "queue_items Q m xs" and room: "length xs < unat (uxLength Q)" and item: "length item = unat (uxItemSize Q)"
  shows "case copy_front item Q m of (Q', m') \<Rightarrow> queue_items (Q'\<lparr>uxMessagesWaiting := uxMessagesWaiting Q + 1\<rparr>) m' (item # xs)"
proof -
  obtain h n sz r where s: "shaped Q h n sz r (length xs)" "stored (slot m h sz) n r xs" "\<forall>x\<in>set xs. length x = unat (uxItemSize Q)"
    using q by (auto simp: queue_items_def)
  define r' where "r' = (r + n - 1) mod n"
  have n: "0 < n" "r < n" using s(1) by (simp_all add: shaped_def)
  have w: "unat (pcReadFrom Q) = h + r' * sz" "r' < n" using s(1) by (simp_all add: shaped_def r'_def)
  have w': "unat (if pcReadFrom Q - uxItemSize Q < pcHead Q then pcTail Q - uxItemSize Q else pcReadFrom Q - uxItemSize Q) = h + (r' + n - 1) mod n * sz"
    by (rule previous_slot [OF w]) (use s(1) in \<open>simp_all add: shaped_def\<close>)
  have c1: "unat (uxMessagesWaiting Q + 1) = Suc (length xs)" using s(1) room shaped_room [OF s(1)] by (simp add: shaped_def u32_count)
  have "(r' + Suc (length xs)) mod n = (r + n - 1 + Suc (length xs)) mod n" unfolding r'_def by (rule mod_add_left_eq)
  also have "r + n - 1 + Suc (length xs) = r + length xs + n" using n by simp
  finally have e: "(r' + Suc (length xs)) mod n = (r + length xs) mod n" by simp
  have sh: "shaped (Q\<lparr>pcReadFrom := (if pcReadFrom Q - uxItemSize Q < pcHead Q then pcTail Q - uxItemSize Q else pcReadFrom Q - uxItemSize Q),
      uxMessagesWaiting := uxMessagesWaiting Q + 1\<rparr>) h n sz r' (length (item # xs))"
    using s(1) w' c1 w(2) e by (simp add: shaped_def)
  have "stored (slot (mem_write m (unat (pcReadFrom Q)) item) h sz) n r' (item # xs)"
    using stored_front [OF s(2)] room s(1) item w(1) by (simp add: slot_write shaped_def r'_def)
  then show ?thesis using s(3) item unfolding copy_front_def Let_def prod.case by (intro queue_itemsI [OF sh]) simp_all
qed

lemma copy_from_items:
  assumes q: "queue_items Q m (x # xs)"
  shows "snd (prvCopyDataFromQueue Q m) = x"
    and "queue_items ((fst (prvCopyDataFromQueue Q m))\<lparr>uxMessagesWaiting := uxMessagesWaiting Q - 1\<rparr>) m xs"
    and "(fst (prvCopyDataFromQueue Q m))\<lparr>pcReadFrom := pcReadFrom Q\<rparr> = Q"
proof -
  obtain h n sz r where s: "shaped Q h n sz r (Suc (length xs))" "stored (slot m h sz) n r (x # xs)" "\<forall>y\<in>set (x # xs). length y = unat (uxItemSize Q)"
    using q by (auto simp: queue_items_def)
  define r' where "r' = (r + n - 1) mod n"
  have n: "0 < n" "r < n" "uxItemSize Q \<noteq> 0" using s(1) by (auto simp: shaped_def)
  have w: "unat (pcReadFrom Q) = h + r' * sz" "r' < n" using s(1) by (simp_all add: shaped_def r'_def)
  define p where "p = (if pcReadFrom Q + uxItemSize Q \<ge> pcTail Q then pcHead Q else pcReadFrom Q + uxItemSize Q)"
  have "unat p = h + Suc r' mod n * sz" unfolding p_def
    by (rule next_slot [OF w]) (use s(1) in \<open>simp_all add: shaped_def\<close>)
  moreover have "Suc r' mod n = r"
  proof -
    have "Suc r' mod n = Suc (r + n - 1) mod n" unfolding r'_def by (rule mod_Suc_eq)
    also have "Suc (r + n - 1) = r + n" using n by simp
    finally show ?thesis using n by simp
  qed
  ultimately have p: "unat p = h + r * sz" by simp
  have e: "prvCopyDataFromQueue Q m = (Q\<lparr>pcReadFrom := p\<rparr>, mem_read m (unat p) (unat (uxItemSize Q)))"
    using n(3) by (simp add: prvCopyDataFromQueue_def p_def Let_def)
  have pop: "slot m h sz r = x" "stored (slot m h sz) n ((r + 1) mod n) xs" using stored_pop [OF s(2) n(2)] by simp_all
  show "snd (prvCopyDataFromQueue Q m) = x" using pop(1) s(1) by (simp add: e p slot_def shaped_def)
  show "(fst (prvCopyDataFromQueue Q m))\<lparr>pcReadFrom := pcReadFrom Q\<rparr> = Q" by (simp add: e)
  have "((r + 1) mod n + n - 1) mod n = r"
  proof (cases "Suc r = n")
    case False
    then show ?thesis using n by simp
  qed (use n in simp)
  moreover have "((r + 1) mod n + length xs) mod n = (r + Suc (length xs)) mod n" by (simp add: mod_simps)
  moreover have "unat (uxMessagesWaiting Q - 1) = length xs" using s(1) by (subst u32_count(2)) (auto simp: shaped_def)
  ultimately have "shaped (Q\<lparr>pcReadFrom := p, uxMessagesWaiting := uxMessagesWaiting Q - 1\<rparr>) h n sz ((r + 1) mod n) (length xs)"
    using s(1) p by (simp add: shaped_def)
  then show "queue_items ((fst (prvCopyDataFromQueue Q m))\<lparr>uxMessagesWaiting := uxMessagesWaiting Q - 1\<rparr>) m xs"
    using pop(2) s(3) by (auto simp: e queue_items_def)
qed

lemma overwrite_items:
  assumes q: "queue_items Q m xs" and one: "uxLength Q = 1" and item: "length item = unat (uxItemSize Q)"
  shows "case copy_front item Q m of (Q', m') \<Rightarrow> queue_items (Q'\<lparr>uxMessagesWaiting := 1\<rparr>) m' [item]"
proof -
  obtain h n sz r where s: "shaped Q h n sz r (length xs)" "stored (slot m h sz) n r xs" using q by (auto simp: queue_items_def)
  have "n = 1" using s(1) one by (simp add: shaped_def)
  then have "shaped (Q\<lparr>uxMessagesWaiting := 0\<rparr>) h n sz r (length ([] :: u8 list list))" using s(1) by (simp add: shaped_def)
  then have "queue_items (Q\<lparr>uxMessagesWaiting := 0\<rparr>) m []" by (rule queue_itemsI) (simp_all add: stored_def)
  from copy_front_items [OF this, of item] show ?thesis using one item
    by (cases "pcReadFrom Q - uxItemSize Q < pcHead Q") (simp_all add: copy_front_def Let_def)
qed

text \<open>Only the storage is written.\<close>

lemma copy_inside:
  assumes q: "queue_items Q m xs" and item: "length item = unat (uxItemSize Q)"
  shows "same_outside (unat (pcHead Q)) (unat (uxLength Q) * unat (uxItemSize Q)) m (snd (copy_back item Q m))"
    and "same_outside (unat (pcHead Q)) (unat (uxLength Q) * unat (uxItemSize Q)) m (snd (copy_front item Q m))"
proof -
  obtain h n sz r where s: "shaped Q h n sz r (length xs)" using q by (auto simp: queue_items_def)
  have *: "same_outside h (n * sz) m (mem_write m (h + i mod n * sz) item)" for i
    using slot_bound [of "i mod n" n h sz] s item by (auto simp: same_outside_def shaped_def intro!: mem_write_other)
  show "same_outside (unat (pcHead Q)) (unat (uxLength Q) * unat (uxItemSize Q)) m (snd (copy_back item Q m))"
    "same_outside (unat (pcHead Q)) (unat (uxLength Q) * unat (uxItemSize Q)) m (snd (copy_front item Q m))"
    using * s by (simp_all add: copy_back_def copy_front_def Let_def shaped_def)
qed

section \<open>Queues and the scheduler\<close>

definition good :: "qsys \<Rightarrow> bool" where "good st \<longleftrightarrow> kernel_ok (kern st) \<and> xSchedulerRunning (kern st)"

lemma good_ignores [simp]:
  "good (set_queue q f st) = good st" "good (st\<lparr>queue := Qs\<rparr>) = good st" "good (st\<lparr>qmem := m\<rparr>) = good st" "good (yield_if b st) = good st"
  "good (st\<lparr>kern := vTaskMissedYield (kern st)\<rparr>) = good st"
  by (simp_all add: good_def set_queue_def yield_if_def vTaskMissedYield_def) (simp add: portYIELD_def)

lemma same_parts [simp]:
  "queue (yield_if b st) = queue st" "qmem (yield_if b st) = qmem st" "kern (set_queue q f st) = kern st" "qmem (set_queue q f st) = qmem st"
  "queue (set_queue q f st) q = f (queue st q)" "q' \<noteq> q \<Longrightarrow> queue (set_queue q f st) q' = queue st q'"
  by (simp_all add: yield_if_def set_queue_def)

lemma wake_one_good:
  assumes "good st"
  shows "\<exists>st' b. wake_one e st = Some (st', b) \<and> good st' \<and> queue st' = queue st \<and> qmem st' = qmem st"
proof (cases "the_items (kern st) (EventList e) = []")
  case False
  then have "keeps (WakeEvent e) (kern st)" using keeps_wake_event assms by (auto simp: good_def)
  then obtain k b where "xTaskRemoveFromEventList e (kern st) = Some (k, b)" "kernel_ok k" "xSchedulerRunning k" by (auto simp: keeps_def)
  then show ?thesis using False by (simp add: wake_one_def kernel_ask_def good_def)
qed (use assms in \<open>auto simp: wake_one_def\<close>)

text \<open>What a queue becomes when an item is put into it, if it has room.\<close>

definition put :: "nat \<Rightarrow> copy_position \<Rightarrow> u8 list \<Rightarrow> u8 list list \<Rightarrow> u8 list list" where
  "put n xPosition item xs =
    (case xPosition of queueOVERWRITE \<Rightarrow> [item]
     | queueSEND_TO_BACK \<Rightarrow> if length xs < n then xs @ [item] else xs
     | queueSEND_TO_FRONT \<Rightarrow> if length xs < n then item # xs else xs)"

text \<open>Steps on the queue \<open>q\<close>: they succeed, the scheduler stays right, only the storage and the structure of the queue change, and its
  items become those given.\<close>

definition queue_step :: "u32 \<Rightarrow> qsys \<Rightarrow> u8 list list \<Rightarrow> qsys \<Rightarrow> bool" where
  "queue_step q st xs st' \<longleftrightarrow> good st' \<and> queue_items (queue st' q) (qmem st') xs \<and> (\<forall>q'. q' \<noteq> q \<longrightarrow> queue st' q' = queue st q')
    \<and> pcHead (queue st' q) = pcHead (queue st q) \<and> uxLength (queue st' q) = uxLength (queue st q) \<and> uxItemSize (queue st' q) = uxItemSize (queue st q)
    \<and> same_outside (unat (pcHead (queue st q))) (unat (uxLength (queue st q)) * unat (uxItemSize (queue st q))) (qmem st) (qmem st')"

lemma queue_items_count: "queue_items Q m xs \<Longrightarrow> unat (uxMessagesWaiting Q) = length xs \<and> length xs \<le> unat (uxLength Q)"
  by (auto simp: queue_items_def shaped_def stored_def)

lemma queue_items_locks [simp]:
  "queue_items (Q\<lparr>cTxLock := v\<rparr>) m xs = queue_items Q m xs" "queue_items (Q\<lparr>cRxLock := v\<rparr>) m xs = queue_items Q m xs"
  by (simp_all add: queue_items_def shaped_def)

lemma copy_fields [simp]:
  "pcHead (fst (copy_back item Q m)) = pcHead Q" "uxLength (fst (copy_back item Q m)) = uxLength Q" "uxItemSize (fst (copy_back item Q m)) = uxItemSize Q"
  "pcHead (fst (copy_front item Q m)) = pcHead Q" "uxLength (fst (copy_front item Q m)) = uxLength Q" "uxItemSize (fst (copy_front item Q m)) = uxItemSize Q"
  "pcHead (fst (prvCopyDataFromQueue Q m)) = pcHead Q" "uxLength (fst (prvCopyDataFromQueue Q m)) = uxLength Q"
  "uxItemSize (fst (prvCopyDataFromQueue Q m)) = uxItemSize Q"
  by (simp_all add: copy_back_def copy_front_def prvCopyDataFromQueue_def Let_def)

lemma copy_to_step:
  assumes g: "good st" and q: "queue_items (queue st q) (qmem st) xs" and item: "length item = unat (uxItemSize (queue st q))"
    and room: "if xPosition = queueOVERWRITE then uxLength (queue st q) = 1 else length xs < unat (uxLength (queue st q))"
  shows "\<exists>st'. prvCopyDataToQueue q item xPosition st = Some (st', False) \<and> kern st' = kern st
    \<and> queue_step q st (put (unat (uxLength (queue st q))) xPosition item xs) st'"
proof -
  define Q where "Q = queue st q"
  define m where "m = qmem st"
  have qi: "queue_items Q m xs" "length item = unat (uxItemSize Q)" using q item by (simp_all add: Q_def m_def)
  have n0: "uxItemSize Q \<noteq> 0" using qi(1) by (auto simp: queue_items_def shaped_def)
  note inside = copy_inside [OF qi]
  show ?thesis
  proof (cases "xPosition = queueSEND_TO_BACK")
    case True
    then have "queue_items ((fst (copy_back item Q m))\<lparr>uxMessagesWaiting := uxMessagesWaiting Q + 1\<rparr>) (snd (copy_back item Q m)) (xs @ [item])"
      using copy_back_items [OF qi(1) _ qi(2)] room by (simp add: Q_def split: prod.splits)
    then show ?thesis using True n0 g room inside unfolding Q_def [symmetric] m_def [symmetric] prvCopyDataToQueue_def
      by (simp add: case_prod_beta queue_step_def put_def) (simp add: set_queue_def Q_def [symmetric] m_def [symmetric])
  next
    case nb: False
    define c where "c = (if xPosition = queueOVERWRITE \<and> uxMessagesWaiting Q > 0 then uxMessagesWaiting Q - 1 else uxMessagesWaiting Q) + 1"
    have "queue_items ((fst (copy_front item Q m))\<lparr>uxMessagesWaiting := c\<rparr>) (snd (copy_front item Q m)) (put (unat (uxLength Q)) xPosition item xs)"
    proof (cases "xPosition = queueOVERWRITE")
      case True
      then have one: "uxLength Q = 1" using room by (simp add: Q_def)
      then have "unat (uxMessagesWaiting Q) \<le> 1" using queue_items_count [OF qi(1)] by simp
      then have "uxMessagesWaiting Q = 0 \<or> uxMessagesWaiting Q = 1" by (metis le_neq_implies_less less_one unat_eq_0 unat_1 unsigned_word_eqI)
      then have "c = 1" using True by (auto simp: c_def)
      then show ?thesis using overwrite_items [OF qi(1) one qi(2)] True by (simp add: put_def split: prod.splits)
    next
      case False
      then show ?thesis using copy_front_items [OF qi(1) _ qi(2)] room nb by (cases xPosition) (simp_all add: c_def put_def Q_def split: prod.splits)
    qed
    then show ?thesis using nb n0 g inside unfolding Q_def [symmetric] m_def [symmetric] prvCopyDataToQueue_def
      by (simp add: case_prod_beta queue_step_def) (simp add: Let_def set_queue_def Q_def [symmetric] m_def [symmetric] c_def)
  qed
qed

lemma step_more:
  assumes s: "queue_step q st xs st'" and g: "good st''" and e: "queue st'' = queue st'" "qmem st'' = qmem st'"
  shows "queue_step q st xs st''"
  using s g e by (simp add: queue_step_def)

lemma send_try_step:
  assumes g: "good st" and q: "queue_items (queue st q) (qmem st) xs" and item: "length item = unat (uxItemSize (queue st q))"
    and one: "xPosition = queueOVERWRITE \<Longrightarrow> uxLength (queue st q) = 1"
  shows "\<exists>st'. send_try q item xPosition st = Some (st', if length xs < unat (uxLength (queue st q)) \<or> xPosition = queueOVERWRITE then Some () else None)
    \<and> queue_step q st (put (unat (uxLength (queue st q))) xPosition item xs) st'"
proof -
  have c: "uxMessagesWaiting (queue st q) < uxLength (queue st q) \<longleftrightarrow> length xs < unat (uxLength (queue st q))"
    using queue_items_count [OF q] by (simp add: word_less_nat_alt)
  show ?thesis
  proof (cases "length xs < unat (uxLength (queue st q)) \<or> xPosition = queueOVERWRITE")
    case True
    then have "if xPosition = queueOVERWRITE then uxLength (queue st q) = 1 else length xs < unat (uxLength (queue st q))" using one by auto
    from copy_to_step [OF g q item this] obtain st1 where st1: "prvCopyDataToQueue q item xPosition st = Some (st1, False)"
      "queue_step q st (put (unat (uxLength (queue st q))) xPosition item xs) st1" by blast
    have "good st1" using st1(2) by (simp add: queue_step_def)
    from wake_one_good [OF this] obtain st2 b where st2: "wake_one (xTasksWaitingToReceive q) st1 = Some (st2, b)" "good st2"
      "queue st2 = queue st1" "qmem st2 = qmem st1" by blast
    have "queue_step q st (put (unat (uxLength (queue st q))) xPosition item xs) (yield_if b st2)" by (rule step_more [OF st1(2)]) (simp_all add: st2)
    then show ?thesis using True st1 st2(1) by (auto simp: send_try_def c) (auto simp: yield_if_def)
  next
    case False
    then have "put (unat (uxLength (queue st q))) xPosition item xs = xs" by (cases xPosition) (simp_all add: put_def)
    then show ?thesis using False g q by (simp add: send_try_def c queue_step_def)
  qed
qed

lemma send_isr_step:
  assumes g: "good st" and q: "queue_items (queue st q) (qmem st) xs" and item: "length item = unat (uxItemSize (queue st q))"
    and one: "xPosition = queueOVERWRITE \<Longrightarrow> uxLength (queue st q) = 1"
  shows "\<exists>st' w. xQueueGenericSendFromISR q item xPosition st = Some (st', if length xs < unat (uxLength (queue st q)) \<or> xPosition = queueOVERWRITE then Some () else None, w)
    \<and> queue_step q st (put (unat (uxLength (queue st q))) xPosition item xs) st'"
proof -
  have c: "uxMessagesWaiting (queue st q) < uxLength (queue st q) \<longleftrightarrow> length xs < unat (uxLength (queue st q))"
    using queue_items_count [OF q] by (simp add: word_less_nat_alt)
  show ?thesis
  proof (cases "length xs < unat (uxLength (queue st q)) \<or> xPosition = queueOVERWRITE")
    case True
    then have "if xPosition = queueOVERWRITE then uxLength (queue st q) = 1 else length xs < unat (uxLength (queue st q))" using one by auto
    from copy_to_step [OF g q item this] obtain st1 where st1: "prvCopyDataToQueue q item xPosition st = Some (st1, False)"
      "queue_step q st (put (unat (uxLength (queue st q))) xPosition item xs) st1" by blast
    have "good st1" using st1(2) by (simp add: queue_step_def)
    from wake_one_good [OF this] obtain st2 w where st2: "wake_one (xTasksWaitingToReceive q) st1 = Some (st2, w)" "good st2"
      "queue st2 = queue st1" "qmem st2 = qmem st1" by blast
    have "queue_step q st (put (unat (uxLength (queue st q))) xPosition item xs) st2" by (rule step_more [OF st1(2)]) (simp_all add: st2)
    moreover have "queue_step q st (put (unat (uxLength (queue st q))) xPosition item xs) (set_queue q (\<lambda>Q. Q\<lparr>cTxLock := v\<rparr>) st1)" for v
      using st1(2) by (simp add: queue_step_def)
    ultimately show ?thesis using True st1(1) st2(1) by (auto simp: xQueueGenericSendFromISR_def c sent_from_isr_def)
  next
    case False
    then have "put (unat (uxLength (queue st q))) xPosition item xs = xs" by (cases xPosition) (simp_all add: put_def)
    then show ?thesis using False g q by (auto simp: xQueueGenericSendFromISR_def c queue_step_def)
  qed
qed

lemma receive_step:
  assumes g: "good st" and q: "queue_items (queue st q) (qmem st) (x # xs)"
  shows "\<exists>st'. receive_try q st = Some (st', Some x) \<and> queue_step q st xs st'"
    and "\<exists>st' w. xQueueReceiveFromISR q st = Some (st', Some x, w) \<and> queue_step q st xs st'"
    and "\<exists>st'. peek_try q st = Some (st', Some x) \<and> queue_step q st (x # xs) st'"
    and "xQueuePeekFromISR q st = Some x"
proof -
  define Q where "Q = queue st q"
  have n: "uxMessagesWaiting Q > 0" using queue_items_count [OF q] by (simp add: Q_def word_less_nat_alt)
  note c = copy_from_items [OF q, folded Q_def]
  obtain P where cp: "prvCopyDataFromQueue Q (qmem st) = (P, x)" using c(1) by (metis prod.collapse)
  have P: "pcHead P = pcHead Q" "uxLength P = uxLength Q" "uxItemSize P = uxItemSize Q" using copy_fields(7-9) [of Q "qmem st"] by (simp_all add: cp)
  define Q1 where "Q1 = P\<lparr>uxMessagesWaiting := uxMessagesWaiting Q - 1\<rparr>"
  define st1 where "st1 = st\<lparr>queue := (queue st)(q := Q1)\<rparr>"
  have s1: "queue_step q st xs st1" using g c(2) P by (simp add: queue_step_def st1_def Q1_def cp) (simp add: Q_def)
  then have g1: "good st1" by (simp add: queue_step_def)
  obtain st2 b where st2: "wake_one (xTasksWaitingToSend q) st1 = Some (st2, b)" "good st2" "queue st2 = queue st1" "qmem st2 = qmem st1"
    using wake_one_good [OF g1] by blast
  have s2: "queue_step q st xs (yield_if y st2)" for y by (rule step_more [OF s1]) (simp_all add: st2)
  then have s2': "queue_step q st xs st2" by (metis yield_if_def)
  show "\<exists>st'. receive_try q st = Some (st', Some x) \<and> queue_step q st xs st'"
    using n st2(1) s2 by (simp add: receive_try_def Q_def [symmetric] cp) (simp add: Q1_def [symmetric] st1_def [symmetric])
  show "\<exists>st' w. xQueueReceiveFromISR q st = Some (st', Some x, w) \<and> queue_step q st xs st'"
  proof -
    have "queue_step q st xs (set_queue q (\<lambda>Q. Q\<lparr>cRxLock := v\<rparr>) st1)" for v using s1 by (simp add: queue_step_def)
    then have "\<exists>st' w. (if cRxLock P = queueUNLOCKED then wake_one (xTasksWaitingToSend q) st1
        else Some (set_queue q (\<lambda>Q. Q\<lparr>cRxLock := cRxLock Q + 1\<rparr>) st1, False)) = Some (st', w) \<and> queue_step q st xs st'"
      using st2(1) s2' unfolding set_queue_def by auto
    then show ?thesis
      using n by (auto simp: xQueueReceiveFromISR_def Q_def [symmetric] cp Let_def Q1_def [symmetric] st1_def [symmetric])
  qed
  obtain st3 b where st3: "wake_one (xTasksWaitingToReceive q) st = Some (st3, b)" "good st3" "queue st3 = queue st" "qmem st3 = qmem st"
    using wake_one_good [OF g] by blast
  have "queue_step q st (x # xs) st" using g q by (simp add: queue_step_def)
  then have "queue_step q st (x # xs) (yield_if b st3)" by (rule step_more) (simp_all add: st3)
  moreover have "st\<lparr>queue := (queue st)(q := P\<lparr>pcReadFrom := pcReadFrom Q\<rparr>)\<rparr> = st" using c(3) by (simp add: cp) (simp add: Q_def)
  ultimately show "\<exists>st'. peek_try q st = Some (st', Some x) \<and> queue_step q st (x # xs) st'"
    using n st3(1) by (simp add: peek_try_def Q_def [symmetric] cp)
  show "xQueuePeekFromISR q st = Some x" using n c(1) by (simp add: xQueuePeekFromISR_def Q_def)
qed

lemma receive_none:
  assumes q: "queue_items (queue st q) (qmem st) []"
  shows "receive_try q st = Some (st, None)" and "xQueueReceiveFromISR q st = Some (st, None, False)" and "peek_try q st = Some (st, None)" and "xQueuePeekFromISR q st = None"
proof -
  have "uxMessagesWaiting (queue st q) = 0" using queue_items_count [OF q] by (simp add: unat_eq_0)
  then show "receive_try q st = Some (st, None)" "xQueueReceiveFromISR q st = Some (st, None, False)" "peek_try q st = Some (st, None)" "xQueuePeekFromISR q st = None"
    by (simp_all add: receive_try_def xQueueReceiveFromISR_def peek_try_def xQueuePeekFromISR_def Let_def)
qed

section \<open>Simulation\<close>

text \<open>Sequences of operations, with their results: of the program, which may fail, and of a specification.\<close>

primrec perform :: "('c \<Rightarrow> 's \<Rightarrow> ('s \<times> 'r) option) \<Rightarrow> 'c list \<Rightarrow> 's \<Rightarrow> ('s \<times> 'r list) option" where
  "perform f [] st = Some (st, [])"
| "perform f (c # cs) st = do { (st1, r) \<leftarrow> f c st; (st2, rs) \<leftarrow> perform f cs st1; Some (st2, r # rs) }"

primrec perform_spec :: "('c \<Rightarrow> 'a \<Rightarrow> 'a \<times> 'r) \<Rightarrow> 'c list \<Rightarrow> 'a \<Rightarrow> 'a \<times> 'r list" where
  "perform_spec g [] a = (a, [])"
| "perform_spec g (c # cs) a = (let (a1, r) = g c a; (a2, rs) = perform_spec g cs a1 in (a2, r # rs))"

text \<open>The contract of an implementation: each operation that its callers may use succeeds with the result of the specification and keeps the states related.\<close>

locale simulation =
  fixes step :: "'c \<Rightarrow> 's \<Rightarrow> ('s \<times> 'r) option" and spec :: "'c \<Rightarrow> 'a \<Rightarrow> 'a \<times> 'r" and rel :: "'s \<Rightarrow> 'a \<Rightarrow> bool" and may :: "'c \<Rightarrow> bool"
  assumes simulates: "rel st a \<Longrightarrow> may c \<Longrightarrow> \<exists>st'. step c st = Some (st', snd (spec c a)) \<and> rel st' (fst (spec c a))"
begin

lemma performs: "rel st a \<Longrightarrow> \<forall>c\<in>set cs. may c \<Longrightarrow> \<exists>st'. perform step cs st = Some (st', snd (perform_spec spec cs a)) \<and> rel st' (fst (perform_spec spec cs a))"
proof (induction cs arbitrary: st a)
  case Nil
  then show ?case by simp
next
  case (Cons c cs)
  obtain st1 where st1: "step c st = Some (st1, snd (spec c a))" "rel st1 (fst (spec c a))" using simulates [OF Cons.prems(1), of c] Cons.prems(2) by auto
  from Cons.IH [OF st1(2)] show ?case using st1(1) Cons.prems(2) by (auto simp: case_prod_beta)
qed

end

section \<open>A queue is a bounded double-ended queue\<close>

text \<open>The calls that do not block, from tasks and from interrupts; sending gives the empty list, an item received is the result.\<close>

datatype queue_op = QSend "u8 list" copy_position | QSendISR "u8 list" copy_position | QReceive | QReceiveISR | QPeek | QPeekISR

fun queue_do :: "environment \<Rightarrow> u32 \<Rightarrow> queue_op \<Rightarrow> qsys \<Rightarrow> (qsys \<times> u8 list option) option" where
  "queue_do E q (QSend item p) st = do { (st1, r) \<leftarrow> xQueueGenericSend E q item 0 p st; Some (st1, map_option (\<lambda>_. []) r) }"
| "queue_do E q (QSendISR item p) st = do { (st1, r, woken) \<leftarrow> xQueueGenericSendFromISR q item p st; Some (st1, map_option (\<lambda>_. []) r) }"
| "queue_do E q QReceive st = xQueueReceive E q 0 st"
| "queue_do E q QReceiveISR st = do { (st1, r, woken) \<leftarrow> xQueueReceiveFromISR q st; Some (st1, r) }"
| "queue_do E q QPeek st = xQueuePeek E q 0 st"
| "queue_do E q QPeekISR st = Some (st, xQueuePeekFromISR q st)"

definition queue_ops :: "environment \<Rightarrow> u32 \<Rightarrow> queue_op list \<Rightarrow> qsys \<Rightarrow> (qsys \<times> u8 list option list) option" where
  "queue_ops E q = perform (queue_do E q)"

text \<open>The same on the list of the items.\<close>

fun deque_do :: "nat \<Rightarrow> queue_op \<Rightarrow> u8 list list \<Rightarrow> u8 list list \<times> u8 list option" where
  "deque_do n (QSend item p) xs = (put n p item xs, if length xs < n \<or> p = queueOVERWRITE then Some [] else None)"
| "deque_do n (QSendISR item p) xs = (put n p item xs, if length xs < n \<or> p = queueOVERWRITE then Some [] else None)"
| "deque_do n QReceive xs = (case xs of [] \<Rightarrow> ([], None) | x # r \<Rightarrow> (r, Some x))"
| "deque_do n QReceiveISR xs = (case xs of [] \<Rightarrow> ([], None) | x # r \<Rightarrow> (r, Some x))"
| "deque_do n QPeek xs = (xs, case xs of [] \<Rightarrow> None | x # r \<Rightarrow> Some x)"
| "deque_do n QPeekISR xs = (xs, case xs of [] \<Rightarrow> None | x # r \<Rightarrow> Some x)"

definition deque_ops :: "nat \<Rightarrow> queue_op list \<Rightarrow> u8 list list \<Rightarrow> u8 list list \<times> u8 list option list" where
  "deque_ops n = perform_spec (deque_do n)"

text \<open>Items have the size of the queue, and only queues of one item are overwritten.\<close>

fun fits_queue :: "Queue_t \<Rightarrow> queue_op \<Rightarrow> bool" where
  "fits_queue Q (QSend item p) = (length item = unat (uxItemSize Q) \<and> (p = queueOVERWRITE \<longrightarrow> uxLength Q = 1))"
| "fits_queue Q (QSendISR item p) = (length item = unat (uxItemSize Q) \<and> (p = queueOVERWRITE \<longrightarrow> uxLength Q = 1))"
| "fits_queue Q c = True"

lemma loop_no_wait:
  assumes "attempt st = Some (st1, r)"
  shows "queue_loop E attempt blocked inherit fails leave e q n t 0 b st = Some (st1, r)"
  by (subst queue_loop.simps) (simp add: assms)

lemma calls_no_wait:
  "send_try q item p st = Some (st1, u) \<Longrightarrow> xQueueGenericSend E q item 0 p st = Some (st1, u)"
  "receive_try q st = Some (st1, r) \<Longrightarrow> xQueueReceive E q 0 st = Some (st1, r)"
  "peek_try q st = Some (st1, r) \<Longrightarrow> xQueuePeek E q 0 st = Some (st1, r)"
  "take_try q st = Some (st1, u) \<Longrightarrow> xQueueSemaphoreTake E q 0 st = Some (st1, u)"
  unfolding xQueueGenericSend_def xQueueReceive_def xQueuePeek_def xQueueSemaphoreTake_def by (rule loop_no_wait, assumption)+

lemma queue_do_step:
  assumes g: "good st" and q: "queue_items (queue st q) (qmem st) xs" and f: "fits_queue (queue st q) c"
  shows "\<exists>st'. queue_do E q c st = Some (st', snd (deque_do (unat (uxLength (queue st q))) c xs))
    \<and> queue_step q st (fst (deque_do (unat (uxLength (queue st q))) c xs)) st'"
proof -
  have same: "queue_step q st xs st" using g q by (simp add: queue_step_def)
  show ?thesis
  proof (cases c)
    case (QSend item p)
    then obtain st' where t: "send_try q item p st = Some (st', if length xs < unat (uxLength (queue st q)) \<or> p = queueOVERWRITE then Some () else None)"
      "queue_step q st (put (unat (uxLength (queue st q))) p item xs) st'" using send_try_step [OF g q, of item p] f by auto
    then show ?thesis using QSend calls_no_wait(1) [OF t(1), of E] by auto
  next
    case (QSendISR item p)
    then show ?thesis using send_isr_step [OF g q, of item p] f by auto
  next
    case QReceive
    show ?thesis
    proof (cases xs)
      case Nil
      then show ?thesis using QReceive same calls_no_wait(2) [OF receive_none(1), of st q E] q by auto
    next
      case (Cons x r)
      then obtain st' where "receive_try q st = Some (st', Some x)" "queue_step q st r st'" using receive_step(1) [OF g] q by blast
      then show ?thesis using QReceive Cons calls_no_wait(2) [of q st st' "Some x" E] by auto
    qed
  next
    case QReceiveISR
    show ?thesis
    proof (cases xs)
      case Nil
      then show ?thesis using QReceiveISR same receive_none(2) [of st q] q by auto
    next
      case (Cons x r)
      then obtain st' w where "xQueueReceiveFromISR q st = Some (st', Some x, w)" "queue_step q st r st'" using receive_step(2) [OF g] q by blast
      then show ?thesis using QReceiveISR Cons by auto
    qed
  next
    case QPeek
    show ?thesis
    proof (cases xs)
      case Nil
      then show ?thesis using QPeek same calls_no_wait(3) [OF receive_none(3), of st q E] q by auto
    next
      case (Cons x r)
      then obtain st' where "peek_try q st = Some (st', Some x)" "queue_step q st (x # r) st'" using receive_step(3) [OF g] q by blast
      then show ?thesis using QPeek Cons calls_no_wait(3) [of q st st' "Some x" E] by auto
    qed
  next
    case QPeekISR
    then show ?thesis using same receive_step(4) [OF g] receive_none(4) q by (cases xs) auto
  qed
qed

lemma queue_step_trans:
  assumes "queue_step q st xs st1" and "queue_step q st1 ys st2"
  shows "queue_step q st ys st2"
  using assms unfolding queue_step_def by (auto elim: same_outside_trans)

interpretation deque: simulation "queue_do E q" "deque_do (unat (uxLength (queue st0 q)))" "\<lambda>st xs. queue_step q st0 xs st" "fits_queue (queue st0 q)"
  for E q st0
proof
  fix st xs c
  assume s: "queue_step q st0 xs st" and f: "fits_queue (queue st0 q) c"
  have e: "good st" "queue_items (queue st q) (qmem st) xs" "uxLength (queue st q) = uxLength (queue st0 q)" "uxItemSize (queue st q) = uxItemSize (queue st0 q)"
    using s by (simp_all add: queue_step_def)
  have "fits_queue (queue st q) c" using f e(3,4) by (cases c) simp_all
  from queue_do_step [OF e(1,2) this, of E] show "\<exists>st'. queue_do E q c st = Some (st', snd (deque_do (unat (uxLength (queue st0 q))) c xs))
    \<and> queue_step q st0 (fst (deque_do (unat (uxLength (queue st0 q))) c xs)) st'" unfolding e(3) using queue_step_trans [OF s] by blast
qed

text \<open>C7: A queue is a bounded double-ended queue. On a running scheduler with its invariant, any sequence of sends to the back, to the front and by
  overwriting (queues of one item), of receives and of peeks, from tasks without blocking and from interrupts, gives on a queue the results it gives on
  the list of its items: items come out whole, in order, none is lost or made up, a full queue refuses. Every call succeeds, the scheduler keeps its
  invariant, and memory outside the queue's storage and the other queues do not change.\<close>

theorem queue_refines_deque:
  assumes "kernel_ok (kern st)" and "xSchedulerRunning (kern st)" and "queue_items (queue st q) (qmem st) xs" and "\<forall>c\<in>set cs. fits_queue (queue st q) c"
  shows "\<exists>st' rs xs'. queue_ops E q cs st = Some (st', rs) \<and> deque_ops (unat (uxLength (queue st q))) cs xs = (xs', rs)
    \<and> queue_items (queue st' q) (qmem st') xs' \<and> kernel_ok (kern st') \<and> (\<forall>q'. q' \<noteq> q \<longrightarrow> queue st' q' = queue st q')
    \<and> same_outside (unat (pcHead (queue st q))) (unat (uxLength (queue st q)) * unat (uxItemSize (queue st q))) (qmem st) (qmem st')"
proof -
  have "queue_step q st xs st" using assms(1-3) by (simp add: queue_step_def good_def)
  from deque.performs [OF this assms(4), of E] show ?thesis unfolding queue_ops_def deque_ops_def
    by (auto simp: queue_step_def good_def intro!: exI [of _ "fst (perform_spec (deque_do (unat (uxLength (queue st q)))) cs xs)"])
qed

section \<open>Examples\<close>

text \<open>An environment that does nothing, and an empty queue for two items of three bytes in a running kernel.\<close>

definition idle_environment :: environment where "idle_environment = \<lparr>interrupts = \<lambda>_ s. s, others = \<lambda>_ s. s\<rparr>"

definition small_queue :: Queue_t where
  "small_queue = \<lparr>pcHead = 0x1000, pcTail = 0x1006, pcWriteTo = 0x1000, pcReadFrom = 0x1003, uxMessagesWaiting = 0, uxLength = 2, uxItemSize = 3,
     cRxLock = queueUNLOCKED, cTxLock = queueUNLOCKED\<rparr>"

definition small_sys :: "kernel \<Rightarrow> Queue_t \<Rightarrow> qsys" where "small_sys k Q = \<lparr>kern = k, queue = \<lambda>_. Q, qmem = \<lambda>_. 0\<rparr>"

lemma small_queue_items: "queue_items small_queue m []"
proof (rule queue_itemsI)
  show "shaped small_queue 0x1000 2 3 0 (length [])" by (simp add: shaped_def small_queue_def)
qed (simp_all add: stored_def)

lemma queue_refines_deque_witness:
  "\<exists>k st. kernel_call (Start (Some 1) (Some 2)) kernel0 = Some k
    \<and> queue_ops idle_environment 0x900 [QSend [1, 2, 3] queueSEND_TO_BACK, QSendISR [4, 5, 6] queueSEND_TO_FRONT, QSend [7, 8, 9] queueSEND_TO_BACK, QReceive]
        (small_sys k small_queue) = Some (st, [Some [], Some [], None, Some [4, 5, 6]])"
proof -
  obtain k where k: "kernel_call (Start (Some 1) (Some 2)) kernel0 = Some k" "reachable k" "xSchedulerRunning k" using running_kernel by blast
  have ok: "kernel_ok (kern (small_sys k small_queue))" "xSchedulerRunning (kern (small_sys k small_queue))"
    using reachable_inv [OF k(2)] k(3) by (simp_all add: kernel_inv_def small_sys_def)
  have q: "queue_items (queue (small_sys k small_queue) 0x900) (qmem (small_sys k small_queue)) []" by (simp add: small_sys_def small_queue_items)
  have f: "\<forall>c\<in>set [QSend [1, 2, 3] queueSEND_TO_BACK, QSendISR [4, 5, 6] queueSEND_TO_FRONT, QSend [7, 8, 9] queueSEND_TO_BACK, QReceive].
    fits_queue (queue (small_sys k small_queue) 0x900) c" by (simp add: small_sys_def small_queue_def)
  show ?thesis using queue_refines_deque [OF ok q f, of idle_environment] k(1) by (auto simp: small_sys_def small_queue_def put_def deque_ops_def)
qed

end
