(* ===== verification/Kernel_Waking.thy ===== *)
theory Kernel_Waking
  imports Kernel_Messages
begin

text \<open>
  What queues do with tasks: a send wakes a receiver, an unlock those that interrupts could not wake; semaphores count, a mutex lends priority. At
  the end, creation.
\<close>

section \<open>A kernel in which a task waits\<close>

text \<open>The timer task 2 waits to receive from the queue at 0x900, for five ticks.\<close>

lemma waiting_kernel:
  "\<exists>k k1. kernel_call (Start (Some 1) (Some 2)) kernel0 = Some k \<and> kernel_call (WaitEvent (xTasksWaitingToReceive 0x900) 5) k = Some k1
    \<and> kernel_ok k1 \<and> xSchedulerRunning k1 \<and> uxSchedulerSuspended k1 = 0
    \<and> the_items k1 (EventList (xTasksWaitingToReceive 0x900)) = [EventItem 2] \<and> the_items k1 (EventList (xTasksWaitingToSend 0x900)) = []"
proof -
  obtain k where k: "kernel_call (Start (Some 1) (Some 2)) kernel0 = Some k" "reachable k" "xSchedulerRunning k" "may_block k" using running_kernel by blast
  have "map_option (\<lambda>k. (uxSchedulerSuspended k, the_items k (EventList (xTasksWaitingToReceive 0x900)), the_items k (EventList (xTasksWaitingToSend 0x900))))
      (kernel_calls [Start (Some 1) (Some 2), WaitEvent (xTasksWaitingToReceive 0x900) 5] kernel0) = Some (0, [EventItem 2], [])" by code_simp
  then have c: "map_option (\<lambda>k. (uxSchedulerSuspended k, the_items k (EventList (xTasksWaitingToReceive 0x900)), the_items k (EventList (xTasksWaitingToSend 0x900))))
      (kernel_call (WaitEvent (xTasksWaitingToReceive 0x900) 5) k) = Some (0, [EventItem 2], [])" using k(1)
    by (cases "kernel_call (WaitEvent (xTasksWaitingToReceive 0x900) 5) k") (simp_all del: kernel_call.simps)
  have "keeps (WaitEvent (xTasksWaitingToReceive 0x900) 5) k" using keeps_wait_event reachable_inv [OF k(2)] k(3,4) by (simp add: kernel_inv_def)
  then show ?thesis using k(1) c unfolding keeps_def by auto
qed

section \<open>Waking tasks\<close>

lemma bindE: "Option.bind m f = Some y \<Longrightarrow> (\<And>x. m = Some x \<Longrightarrow> f x = Some y \<Longrightarrow> thesis) \<Longrightarrow> thesis"
  by (auto simp: bind_eq_Some_conv)

lemma remove_items:
  "list_do (Remove x) k = Some k' \<Longrightarrow> the_items k' L = (if container k x = Some L then remove1 x (the_items k L) else the_items k L)
    \<and> where_is (kl k') = (where_is (kl k))(x := None) \<and> tcb k' = tcb k \<and> uxSchedulerSuspended k' = uxSchedulerSuspended k \<and> pxCurrentTCB k' = pxCurrentTCB k"
  by (auto simp: list_do_def kl_remove_def split: if_splits)

lemma insert_end_items:
  "list_do (InsertEnd L0 x) k = Some k' \<Longrightarrow> (L \<noteq> L0 \<longrightarrow> the_items k' L = the_items k L)
    \<and> where_is (kl k') = (where_is (kl k))(x := Some L0) \<and> tcb k' = tcb k \<and> uxSchedulerSuspended k' = uxSchedulerSuspended k \<and> pxCurrentTCB k' = pxCurrentTCB k"
  by (auto simp: list_do_def split: if_splits)

lemma add_ready_items:
  "prvAddTaskToReadyList t k = Some k' \<Longrightarrow> (L \<notin> range Ready \<longrightarrow> the_items k' L = the_items k L)
    \<and> where_is (kl k') = (where_is (kl k))(StateItem t := Some (Ready (prio k t))) \<and> tcb k' = tcb k \<and> uxSchedulerSuspended k' = uxSchedulerSuspended k
    \<and> pxCurrentTCB k' = pxCurrentTCB k"
  by (auto simp: prvAddTaskToReadyList_def taskRECORD_READY_PRIORITY_def list_do_def split: if_splits)

lemma remove_event_items:
  assumes c: "core k" and x: "the_items k (EventList e) = x # ws" and r: "xTaskRemoveFromEventList e k = Some (k', b)"
  shows "the_items k' (EventList e') = (if e' = e then ws else the_items k (EventList e'))" and "tcb k' = tcb k" and "pxCurrentTCB k' = pxCurrentTCB k"
    and "uxSchedulerSuspended k' = uxSchedulerSuspended k" and "\<exists>t. x = EventItem t \<and> (if uxSchedulerSuspended k = 0
      then container k' (StateItem t) = Some (Ready (prio k t)) \<and> container k' (EventItem t) = None else container k' (EventItem t) = Some xPendingReadyList)"
proof -
  have cx: "container k x = Some (EventList e)" using set_items [OF c, of x "EventList e"] x by simp
  obtain t where t: "x = EventItem t"
  proof (cases x)
    case (StateItem u)
    then have "holds_states (EventList e)" using c cx unfolding core_in_def by blast
    then show ?thesis by simp
  qed (use that in simp)
  obtain k1 k2 where k1: "list_do (Remove (EventItem t)) k = Some k1"
    and k2: "(if uxSchedulerSuspended k1 = 0 then do { k' \<leftarrow> list_do (Remove (StateItem t)) k1; prvAddTaskToReadyList t k' }
      else list_do (InsertEnd xPendingReadyList (EventItem t)) k1) = Some k2"
    and k': "k' = prvResetNextTaskUnblockTime (if prio k2 (pxCurrentTCB k2) < prio k2 t then k2\<lparr>xYieldPending := True\<rparr> else k2)"
    using r unfolding xTaskRemoveFromEventList_def x list.case Let_def bind.bind_lunit t owner.simps
    by (elim bindE) (rule that, assumption+, auto)
  note r1 = remove_items [OF k1]
  have i1: "the_items k1 (EventList e') = (if e' = e then ws else the_items k (EventList e'))" using r1 cx x by (auto simp: t)
  have "the_items k2 (EventList e') = the_items k1 (EventList e') \<and> tcb k2 = tcb k \<and> pxCurrentTCB k2 = pxCurrentTCB k \<and> uxSchedulerSuspended k2 = uxSchedulerSuspended k
    \<and> (if uxSchedulerSuspended k = 0 then container k2 (StateItem t) = Some (Ready (prio k t)) \<and> container k2 (EventItem t) = None
       else container k2 (EventItem t) = Some xPendingReadyList)"
  proof (cases "uxSchedulerSuspended k1 = 0")
    case True
    then obtain k3 where k3: "list_do (Remove (StateItem t)) k1 = Some k3" "prvAddTaskToReadyList t k3 = Some k2" using k2 by (auto split: Option.bind_splits)
    have "container k1 (StateItem t) \<noteq> Some (EventList e')" using c r1 unfolding core_in_def by fastforce
    then show ?thesis using remove_items [OF k3(1), of "EventList e'"] add_ready_items [OF k3(2), of "EventList e'"] r1 [of "EventList e'"] True by (simp add: image_iff)
  next
    case False
    then show ?thesis using insert_end_items [of xPendingReadyList "EventItem t" k1 k2 "EventList e'"] k2 r1 by auto
  qed
  moreover have "kl k' = kl k2" "tcb k' = tcb k2" "pxCurrentTCB k' = pxCurrentTCB k2" "uxSchedulerSuspended k' = uxSchedulerSuspended k2"
    by (simp_all add: k' prvResetNextTaskUnblockTime_def)
  ultimately show "the_items k' (EventList e') = (if e' = e then ws else the_items k (EventList e'))" "tcb k' = tcb k" "pxCurrentTCB k' = pxCurrentTCB k"
    "uxSchedulerSuspended k' = uxSchedulerSuspended k" "\<exists>t. x = EventItem t \<and> (if uxSchedulerSuspended k = 0
      then container k' (StateItem t) = Some (Ready (prio k t)) \<and> container k' (EventItem t) = None else container k' (EventItem t) = Some xPendingReadyList)"
    using i1 t by (auto split: if_splits)
qed

text \<open>Where every item is after that.\<close>

definition woken_places :: "bool \<Rightarrow> u32 \<Rightarrow> u32 \<Rightarrow> (item \<Rightarrow> list_id option) \<Rightarrow> item \<Rightarrow> list_id option" where
  "woken_places running t p c =
    (if running then c(StateItem t := Some (Ready p), EventItem t := None) else c(EventItem t := Some xPendingReadyList))"

lemma remove_event_where:
  assumes x: "the_items k (EventList e) = EventItem t # ws" and r: "xTaskRemoveFromEventList e k = Some (k', b)"
  shows "where_is (kl k') = woken_places (uxSchedulerSuspended k = 0) t (prio k t) (where_is (kl k))"
proof -
  obtain k1 k2 where k1: "list_do (Remove (EventItem t)) k = Some k1"
    and k2: "(if uxSchedulerSuspended k1 = 0 then do { k' \<leftarrow> list_do (Remove (StateItem t)) k1; prvAddTaskToReadyList t k' }
      else list_do (InsertEnd xPendingReadyList (EventItem t)) k1) = Some k2"
    and k': "k' = prvResetNextTaskUnblockTime (if prio k2 (pxCurrentTCB k2) < prio k2 t then k2\<lparr>xYieldPending := True\<rparr> else k2)"
    using r unfolding xTaskRemoveFromEventList_def x list.case Let_def bind.bind_lunit owner.simps
    by (elim bindE) (rule that, assumption+, auto)
  note r1 = remove_items [OF k1]
  have "where_is (kl k2) = woken_places (uxSchedulerSuspended k = 0) t (prio k t) (where_is (kl k))"
  proof (cases "uxSchedulerSuspended k1 = 0")
    case True
    then obtain k3 where k3: "list_do (Remove (StateItem t)) k1 = Some k3" "prvAddTaskToReadyList t k3 = Some k2" using k2 by (auto split: Option.bind_splits)
    show ?thesis using remove_items [OF k3(1)] add_ready_items [OF k3(2)] r1 True by (auto simp: woken_places_def fun_eq_iff)
  next
    case False
    then show ?thesis using insert_end_items [of xPendingReadyList "EventItem t" k1 k2] k2 r1 by (auto simp: woken_places_def)
  qed
  then show ?thesis by (simp add: k' prvResetNextTaskUnblockTime_def)
qed

text \<open>The tasks that wait, first the next to be woken.\<close>

abbreviation waiters :: "qsys \<Rightarrow> u32 \<Rightarrow> item list" where "waiters st e \<equiv> the_items (kern st) (EventList e)"

lemma wake_one_waiters:
  assumes g: "good st"
  shows "\<exists>st' b. wake_one e st = Some (st', b) \<and> good st' \<and> queue st' = queue st \<and> qmem st' = qmem st \<and> (\<forall>e'. waiters st' e' = (if e' = e then tl (waiters st e) else waiters st e'))
    \<and> tcb (kern st') = tcb (kern st) \<and> pxCurrentTCB (kern st') = pxCurrentTCB (kern st) \<and> uxSchedulerSuspended (kern st') = uxSchedulerSuspended (kern st)"
proof -
  obtain st' b where st': "wake_one e st = Some (st', b)" "good st'" "queue st' = queue st" "qmem st' = qmem st" using wake_one_good [OF g] by blast
  show ?thesis
  proof (cases "waiters st e")
    case Nil
    then show ?thesis using g by (auto simp: wake_one_def)
  next
    case (Cons x ws)
    then obtain k where k: "xTaskRemoveFromEventList e (kern st) = Some (k, b)" "st' = st\<lparr>kern := k\<rparr>" using st'(1) by (auto simp: wake_one_def kernel_ask_def)
    have "core (kern st)" using g by (simp add: good_def kernel_ok_def)
    from remove_event_items(1-4) [OF this Cons k(1)] show ?thesis using st' Cons k by simp
  qed
qed

lemma unlock_loop_wakes:
  "good st \<Longrightarrow> \<exists>st'. unlock_loop n e st = Some st' \<and> good st' \<and> queue st' = queue st \<and> qmem st' = qmem st
    \<and> (\<forall>e'. waiters st' e' = (if e' = e then drop n (waiters st e) else waiters st e')) \<and> uxSchedulerSuspended (kern st') = uxSchedulerSuspended (kern st)"
proof (induction n arbitrary: st)
  case 0
  then show ?case by simp
next
  case (Suc n)
  show ?case
  proof (cases "waiters st e = []")
    case True
    then show ?thesis using Suc.prems by simp
  next
    case False
    obtain st1 b where st1: "wake_one e st = Some (st1, b)" "good st1" "queue st1 = queue st" "qmem st1 = qmem st"
      "\<forall>e'. waiters st1 e' = (if e' = e then tl (waiters st e) else waiters st e')" "uxSchedulerSuspended (kern st1) = uxSchedulerSuspended (kern st)"
      using wake_one_waiters [OF Suc.prems] by blast
    define st2 where "st2 = (if b then st1\<lparr>kern := vTaskMissedYield (kern st1)\<rparr> else st1)"
    have s2: "good st2" "queue st2 = queue st1" "qmem st2 = qmem st1" "kl (kern st2) = kl (kern st1)" "uxSchedulerSuspended (kern st2) = uxSchedulerSuspended (kern st1)"
      using st1(2) by (simp_all add: st2_def) (simp_all add: vTaskMissedYield_def)
    from Suc.IH [OF s2(1)] obtain st' where "unlock_loop n e st2 = Some st'" "good st'" "queue st' = queue st2" "qmem st' = qmem st2"
      "\<forall>e'. waiters st' e' = (if e' = e then drop n (waiters st2 e) else waiters st2 e')" "uxSchedulerSuspended (kern st') = uxSchedulerSuspended (kern st2)" by blast
    then show ?thesis using False st1 s2 by (auto simp: st2_def [symmetric] drop_Suc)
  qed
qed

lemma event_lists_differ: "xTasksWaitingToSend q \<noteq> xTasksWaitingToReceive q"
  by (simp add: xTasksWaitingToSend_def xTasksWaitingToReceive_def)

text \<open>Unlocking a queue wakes a task for every item that came or went while it was locked. On a running scheduler with its invariant
  prvUnlockQueue returns, keeps the invariant, takes from the tasks that wait to receive as many as the transmit lock counts and from those that wait to send as
  many as the receive lock counts, in their order, or all when fewer wait, and leaves the queue unlocked with its items untouched. The counts
  are signed bytes, so the law ends at 127 items.\<close>

lemma unlock_wakes_waiting:
  assumes "kernel_ok (kern st)" and "xSchedulerRunning (kern st)"
  shows "\<exists>st'. prvUnlockQueue q st = Some st' \<and> kernel_ok (kern st')
    \<and> waiters st' (xTasksWaitingToReceive q) = drop (nat (sint (cTxLock (queue st q)))) (waiters st (xTasksWaitingToReceive q))
    \<and> waiters st' (xTasksWaitingToSend q) = drop (nat (sint (cRxLock (queue st q)))) (waiters st (xTasksWaitingToSend q))
    \<and> queue st' = (queue st)(q := (queue st q)\<lparr>cTxLock := queueUNLOCKED, cRxLock := queueUNLOCKED\<rparr>) \<and> qmem st' = qmem st"
proof -
  have "good st" using assms by (simp add: good_def)
  from unlock_loop_wakes [OF this] obtain st1 where st1: "unlock_loop (nat (sint (cTxLock (queue st q)))) (xTasksWaitingToReceive q) st = Some st1" "good st1" "queue st1 = queue st"
    "qmem st1 = qmem st" "\<forall>e'. waiters st1 e' = (if e' = xTasksWaitingToReceive q then drop (nat (sint (cTxLock (queue st q)))) (waiters st e') else waiters st e')" by metis
  define st2 where "st2 = set_queue q (\<lambda>Q. Q\<lparr>cTxLock := queueUNLOCKED\<rparr>) st1"
  have s2: "good st2" "kern st2 = kern st1" "qmem st2 = qmem st1" "cRxLock (queue st2 q) = cRxLock (queue st q)" using st1 by (simp_all add: st2_def)
  from unlock_loop_wakes [OF s2(1)] obtain st3 where st3: "unlock_loop (nat (sint (cRxLock (queue st2 q)))) (xTasksWaitingToSend q) st2 = Some st3" "good st3" "queue st3 = queue st2"
    "qmem st3 = qmem st2" "\<forall>e'. waiters st3 e' = (if e' = xTasksWaitingToSend q then drop (nat (sint (cRxLock (queue st2 q)))) (waiters st2 e') else waiters st2 e')" by metis
  have u: "prvUnlockQueue q st = Some (set_queue q (\<lambda>Q. Q\<lparr>cRxLock := queueUNLOCKED\<rparr>) st3)"
    unfolding prvUnlockQueue_def st1(1) bind.bind_lunit Let_def st2_def [symmetric] st3(1) by simp
  have "kernel_ok (kern st3)" using st3(2) by (simp add: good_def)
  moreover have "queue (set_queue q (\<lambda>Q. Q\<lparr>cRxLock := queueUNLOCKED\<rparr>) st3) = (queue st)(q := (queue st q)\<lparr>cTxLock := queueUNLOCKED, cRxLock := queueUNLOCKED\<rparr>)"
    using st1(3) st3(3) by (simp add: st2_def set_queue_def)
  ultimately show ?thesis using u st1(4,5) st3(4,5) s2(2-4) event_lists_differ [of q] by simp
qed

lemma unlock_wakes_waiting_witness:
  "\<exists>k1 st. kernel_calls [Start (Some 1) (Some 2), WaitEvent (xTasksWaitingToReceive 0x900) 5] kernel0 = Some k1
    \<and> waiters (small_sys k1 (small_queue\<lparr>cTxLock := 1\<rparr>)) (xTasksWaitingToReceive 0x900) = [EventItem 2]
    \<and> prvUnlockQueue 0x900 (small_sys k1 (small_queue\<lparr>cTxLock := 1\<rparr>)) = Some st \<and> waiters st (xTasksWaitingToReceive 0x900) = []"
proof -
  obtain k k1 where k: "kernel_call (Start (Some 1) (Some 2)) kernel0 = Some k" "kernel_call (WaitEvent (xTasksWaitingToReceive 0x900) 5) k = Some k1"
    "kernel_ok k1" "xSchedulerRunning k1" "the_items k1 (EventList (xTasksWaitingToReceive 0x900)) = [EventItem 2]" using waiting_kernel by blast
  define st where "st = small_sys k1 (small_queue\<lparr>cTxLock := 1\<rparr>)"
  have "kernel_ok (kern st)" "xSchedulerRunning (kern st)" using k(3,4) by (simp_all add: st_def small_sys_def)
  from unlock_wakes_waiting [OF this, of "0x900"] show ?thesis using k(1,2,5) unfolding st_def [symmetric]
    by (simp del: kernel_call.simps) (auto simp: st_def small_sys_def small_queue_def)
qed

text \<open>C8: A send never leaves a receiver asleep. On a running scheduler with its invariant, not suspended, when a task waits to receive on a queue,
  xQueueGenericSend, to the back or to the front of a queue that has room or overwriting the item of a queue of length one, copies the item in and makes the
  first of the waiting tasks ready at its priority, out of the event list, with the others still waiting, and asks for a switch when that task has a higher
  priority than the running one.\<close>

theorem send_wakes_receiver:
  assumes "kernel_ok (kern st)" and "xSchedulerRunning (kern st)" and "uxSchedulerSuspended (kern st) = 0" and "queue_items (queue st q) (qmem st) xs"
    and "if xPosition = queueOVERWRITE then uxLength (queue st q) = 1 else length xs < unat (uxLength (queue st q))"
    and "length item = unat (uxItemSize (queue st q))" and "waiters st (xTasksWaitingToReceive q) = EventItem t # ws"
  shows "\<exists>st'. xQueueGenericSend E q item ticks xPosition st = Some (st', Some ())
    \<and> queue_items (queue st' q) (qmem st') (case xPosition of queueSEND_TO_BACK \<Rightarrow> xs @ [item] | queueSEND_TO_FRONT \<Rightarrow> item # xs | queueOVERWRITE \<Rightarrow> [item])
    \<and> container (kern st') (StateItem t) = Some (Ready (prio (kern st) t)) \<and> container (kern st') (EventItem t) = None
    \<and> waiters st' (xTasksWaitingToReceive q) = ws \<and> (prio (kern st) (pxCurrentTCB (kern st)) < prio (kern st) t \<longrightarrow> SWReq (kern st'))"
proof -
  have g: "good st" using assms(1,2) by (simp add: good_def)
  define ys where "ys = (case xPosition of queueSEND_TO_BACK \<Rightarrow> xs @ [item] | queueSEND_TO_FRONT \<Rightarrow> item # xs | queueOVERWRITE \<Rightarrow> [item])"
  have "put (unat (uxLength (queue st q))) xPosition item xs = ys" using assms(5) by (cases xPosition) (simp_all add: put_def ys_def)
  then obtain st1 where st1: "prvCopyDataToQueue q item xPosition st = Some (st1, False)" "kern st1 = kern st" "queue_step q st ys st1"
    using copy_to_step [OF g assms(4,6,5)] by auto
  have g1: "good st1" using st1(3) by (simp add: queue_step_def)
  from wake_one_good [OF g1] obtain st2 b where st2: "wake_one (xTasksWaitingToReceive q) st1 = Some (st2, b)" "queue st2 = queue st1" "qmem st2 = qmem st1" by blast
  obtain k where k: "xTaskRemoveFromEventList (xTasksWaitingToReceive q) (kern st) = Some (k, b)" "st2 = st1\<lparr>kern := k\<rparr>"
    using st2(1) assms(7) st1(2) by (auto simp: wake_one_def kernel_ask_def)
  have c: "core (kern st)" using assms(1) by (simp add: kernel_ok_def)
  note r = remove_event_items [OF c assms(7) k(1)]
  have b: "b = (prio (kern st) (pxCurrentTCB (kern st)) < prio (kern st) t)"
    using k(1) r(2,3) unfolding xTaskRemoveFromEventList_def assms(7) list.case Let_def bind.bind_lunit owner.simps
    by (elim bindE) (auto simp: prvResetNextTaskUnblockTime_def split: if_splits)
  have room: "uxMessagesWaiting (queue st q) < uxLength (queue st q) \<or> xPosition = queueOVERWRITE"
    using queue_items_count [OF assms(4)] assms(5) by (auto simp: word_less_nat_alt split: if_splits)
  have try': "send_try q item xPosition st = Some (yield_if b st2, Some ())"
    using room st1(1,2) st2(1) assms(7) by (simp add: send_try_def)
  have "xQueueGenericSend E q item ticks xPosition st = Some (yield_if b st2, Some ())"
    unfolding xQueueGenericSend_def by (subst queue_loop.simps) (simp add: try')
  moreover have "queue_items (queue (yield_if b st2) q) (qmem (yield_if b st2)) ys" using st1(3) st2(2,3) by (simp add: queue_step_def)
  moreover have "kl (kern (yield_if b st2)) = kl k" "b \<longrightarrow> SWReq (kern (yield_if b st2))" by (simp_all add: yield_if_def k(2) portYIELD_def)
  ultimately show ?thesis using r(1,5) assms(3) b unfolding ys_def by (intro exI [of _ "yield_if b st2"]) auto
qed

lemma send_wakes_receiver_witness:
  "\<exists>k1 st. kernel_calls [Start (Some 1) (Some 2), WaitEvent (xTasksWaitingToReceive 0x900) 5] kernel0 = Some k1
    \<and> xQueueGenericSend idle_environment 0x900 [1, 2, 3] 0 queueSEND_TO_BACK (small_sys k1 small_queue) = Some (st, Some ()) \<and> container (kern st) (EventItem 2) = None"
proof -
  obtain k k1 where k: "kernel_call (Start (Some 1) (Some 2)) kernel0 = Some k" "kernel_call (WaitEvent (xTasksWaitingToReceive 0x900) 5) k = Some k1"
    "kernel_ok k1" "xSchedulerRunning k1" "uxSchedulerSuspended k1 = 0" "the_items k1 (EventList (xTasksWaitingToReceive 0x900)) = [EventItem 2]"
    using waiting_kernel by blast
  define st where "st = small_sys k1 small_queue"
  have s: "kernel_ok (kern st)" "xSchedulerRunning (kern st)" "uxSchedulerSuspended (kern st) = 0" "queue_items (queue st 0x900) (qmem st) []"
    "if queueSEND_TO_BACK = queueOVERWRITE then uxLength (queue st 0x900) = 1 else length ([] :: u8 list list) < unat (uxLength (queue st 0x900))" "length [1, 2, 3 :: u8] = unat (uxItemSize (queue st 0x900))"
    "waiters st (xTasksWaitingToReceive 0x900) = EventItem 2 # []"
    using k(3-6) small_queue_items by (simp_all add: st_def small_sys_def) (simp_all add: small_queue_def)
  from send_wakes_receiver [OF s, of idle_environment 0] show ?thesis using k(1,2) unfolding st_def [symmetric] by (auto simp del: kernel_call.simps simp: st_def)
qed

section \<open>Semaphores\<close>

text \<open>Semaphores have no storage, and are not mutexes.\<close>

definition semaphore :: "Queue_t \<Rightarrow> nat \<Rightarrow> bool" where
  "semaphore Q c \<longleftrightarrow> uxItemSize Q = 0 \<and> pcHead Q \<noteq> 0 \<and> unat (uxMessagesWaiting Q) = c \<and> c \<le> unat (uxLength Q)"

datatype semaphore_op = Give | GiveFromInterrupt | Take

fun semaphore_do :: "environment \<Rightarrow> u32 \<Rightarrow> semaphore_op \<Rightarrow> qsys \<Rightarrow> (qsys \<times> bool) option" where
  "semaphore_do E q Give st = do { (st1, r) \<leftarrow> xQueueGenericSend E q [] 0 queueSEND_TO_BACK st; Some (st1, r \<noteq> None) }"
| "semaphore_do E q GiveFromInterrupt st = do { (st1, r, woken) \<leftarrow> xQueueGiveFromISR q st; Some (st1, r \<noteq> None) }"
| "semaphore_do E q Take st = do { (st1, r) \<leftarrow> xQueueSemaphoreTake E q 0 st; Some (st1, r \<noteq> None) }"

definition semaphore_ops :: "environment \<Rightarrow> u32 \<Rightarrow> semaphore_op list \<Rightarrow> qsys \<Rightarrow> (qsys \<times> bool list) option" where
  "semaphore_ops E q = perform (semaphore_do E q)"

fun counter_do :: "nat \<Rightarrow> semaphore_op \<Rightarrow> nat \<Rightarrow> nat \<times> bool" where
  "counter_do n Take c = (c - 1, 0 < c)"
| "counter_do n _ c = (if c < n then c + 1 else c, c < n)"

definition counter_ops :: "nat \<Rightarrow> semaphore_op list \<Rightarrow> nat \<Rightarrow> nat \<times> bool list" where
  "counter_ops n = perform_spec (counter_do n)"

lemma semaphore_locks [simp]: "semaphore (Q\<lparr>cTxLock := v\<rparr>) c = semaphore Q c"
  by (simp add: semaphore_def)

lemma semaphore_give:
  assumes g: "good st" and s: "semaphore (queue st q) c" and room: "c < unat (uxLength (queue st q))"
  shows "\<exists>st'. send_try q [] queueSEND_TO_BACK st = Some (st', Some ()) \<and> good st' \<and> semaphore (queue st' q) (c + 1) \<and> uxLength (queue st' q) = uxLength (queue st q)"
    and "\<exists>st' w. xQueueGiveFromISR q st = Some (st', Some (), w) \<and> good st' \<and> semaphore (queue st' q) (c + 1) \<and> uxLength (queue st' q) = uxLength (queue st q)"
proof -
  define st1 where "st1 = set_queue q (\<lambda>Q. Q\<lparr>uxMessagesWaiting := uxMessagesWaiting (queue st q) + 1\<rparr>) st"
  have st1': "set_queue q (\<lambda>Q. Q\<lparr>uxMessagesWaiting := uxMessagesWaiting Q + 1\<rparr>) st = st1" by (simp add: st1_def set_queue_def)
  have r: "uxMessagesWaiting (queue st q) < uxLength (queue st q)" using s room by (simp add: semaphore_def word_less_nat_alt)
  have "unat (uxMessagesWaiting (queue st q)) + 1 < 2 ^ 32" using s room unat_bound [of "uxLength (queue st q)"] by (simp add: semaphore_def)
  then have s1: "good st1" "semaphore (queue st1 q) (c + 1)" "uxLength (queue st1 q) = uxLength (queue st q)" "cTxLock (queue st1 q) = cTxLock (queue st q)"
    using g s room by (simp_all add: st1_def semaphore_def u32_count)
  from wake_one_good [OF s1(1)] obtain st2 b where st2: "wake_one (xTasksWaitingToReceive q) st1 = Some (st2, b)" "good st2" "queue st2 = queue st1" by blast
  have "prvCopyDataToQueue q [] queueSEND_TO_BACK st = Some (st1, False)" using s by (simp add: prvCopyDataToQueue_def semaphore_def is_mutex_def st1_def Let_def)
  then have "\<exists>y. send_try q [] queueSEND_TO_BACK st = Some (yield_if y st2, Some ()) \<or> send_try q [] queueSEND_TO_BACK st = Some (yield_if y st1, Some ())"
    using r st2(1) by (cases "waiters st1 (xTasksWaitingToReceive q) = []") (auto simp: send_try_def)
  then show "\<exists>st'. send_try q [] queueSEND_TO_BACK st = Some (st', Some ()) \<and> good st' \<and> semaphore (queue st' q) (c + 1) \<and> uxLength (queue st' q) = uxLength (queue st q)"
    using s1 st2 by auto
  show "\<exists>st' w. xQueueGiveFromISR q st = Some (st', Some (), w) \<and> good st' \<and> semaphore (queue st' q) (c + 1) \<and> uxLength (queue st' q) = uxLength (queue st q)"
    using r s1 st2 by (auto simp: xQueueGiveFromISR_def sent_from_isr_def st1')
qed

lemma semaphore_take:
  assumes g: "good st" and s: "semaphore (queue st q) c" and some: "0 < c"
  shows "\<exists>st'. take_try q st = Some (st', Some ()) \<and> good st' \<and> semaphore (queue st' q) (c - 1) \<and> uxLength (queue st' q) = uxLength (queue st q)"
proof -
  define st1 where "st1 = set_queue q (\<lambda>Q. Q\<lparr>uxMessagesWaiting := uxMessagesWaiting (queue st q) - 1\<rparr>) st"
  have n: "uxMessagesWaiting (queue st q) > 0" using s some by (simp add: semaphore_def word_less_nat_alt)
  then have "unat (uxMessagesWaiting (queue st q) - 1) = c - 1" using s by (subst u32_count(2)) (auto simp: semaphore_def)
  then have s1: "good st1" "semaphore (queue st1 q) (c - 1)" "uxLength (queue st1 q) = uxLength (queue st q)" "\<not> is_mutex q st1"
    using g s by (simp_all add: st1_def semaphore_def is_mutex_def le_diff_conv)
  from wake_one_good [OF s1(1)] obtain st2 b where st2: "wake_one (xTasksWaitingToSend q) st1 = Some (st2, b)" "good st2" "queue st2 = queue st1" by blast
  have "take_try q st = Some (yield_if b st2, Some ())" using n s1(4) st2(1) by (simp add: take_try_def Let_def st1_def [symmetric])
  then show ?thesis using s1 st2 by auto
qed

lemma semaphore_none:
  assumes s: "semaphore (queue st q) c"
  shows "c = 0 \<Longrightarrow> take_try q st = Some (st, None)" and "\<not> c < unat (uxLength (queue st q)) \<Longrightarrow> send_try q [] queueSEND_TO_BACK st = Some (st, None)"
    and "\<not> c < unat (uxLength (queue st q)) \<Longrightarrow> xQueueGiveFromISR q st = Some (st, None, False)"
  using s by (simp_all add: semaphore_def take_try_def send_try_def xQueueGiveFromISR_def word_less_nat_alt)

lemma semaphore_do_step:
  assumes g: "good st" and s: "semaphore (queue st q) c"
  shows "\<exists>st'. semaphore_do E q x st = Some (st', snd (counter_do (unat (uxLength (queue st q))) x c)) \<and> good st'
    \<and> semaphore (queue st' q) (fst (counter_do (unat (uxLength (queue st q))) x c)) \<and> uxLength (queue st' q) = uxLength (queue st q)"
proof (cases x)
  case Give
  show ?thesis
  proof (cases "c < unat (uxLength (queue st q))")
    case True
    from semaphore_give(1) [OF g s True] obtain st' where "send_try q [] queueSEND_TO_BACK st = Some (st', Some ())" "good st'" "semaphore (queue st' q) (c + 1)"
      "uxLength (queue st' q) = uxLength (queue st q)" by blast
    then show ?thesis using Give True calls_no_wait(1) [of q "[]" queueSEND_TO_BACK st st' "Some ()" E] by auto
  next
    case False
    then show ?thesis using Give g s calls_no_wait(1) [OF semaphore_none(2) [OF s False], of E] by simp
  qed
next
  case GiveFromInterrupt
  then show ?thesis using semaphore_give(2) [OF g s] semaphore_none(3) [OF s] g s by (cases "c < unat (uxLength (queue st q))") fastforce+
next
  case Take
  show ?thesis
  proof (cases "0 < c")
    case True
    from semaphore_take [OF g s True] obtain st' where "take_try q st = Some (st', Some ())" "good st'" "semaphore (queue st' q) (c - 1)"
      "uxLength (queue st' q) = uxLength (queue st q)" by blast
    then show ?thesis using Take True calls_no_wait(4) [of q st st' "Some ()" E] by auto
  next
    case False
    then show ?thesis using Take g s calls_no_wait(4) [OF semaphore_none(1) [OF s], of E] by simp
  qed
qed

interpretation counter: simulation "semaphore_do E q" "counter_do n" "\<lambda>st c. good st \<and> semaphore (queue st q) c \<and> unat (uxLength (queue st q)) = n" "\<lambda>_. True"
  for E q n
proof
  fix st c x
  assume "good st \<and> semaphore (queue st q) c \<and> unat (uxLength (queue st q)) = n"
  then show "\<exists>st'. semaphore_do E q x st = Some (st', snd (counter_do n x c))
    \<and> good st' \<and> semaphore (queue st' q) (fst (counter_do n x c)) \<and> unat (uxLength (queue st' q)) = n" using semaphore_do_step [of st q c E x] by auto
qed

text \<open>C37: A semaphore counts. On a running scheduler with its invariant, any sequence of gives, from tasks and from interrupts, and of takes without blocking
  succeeds in the model and has the results of a counter bounded by the semaphore's length: a give fails exactly when the counter is at the bound and a take
  exactly when it is zero, also while the queue is locked; the scheduler keeps its invariant.\<close>

theorem semaphore_refines_counter:
  assumes "kernel_ok (kern st)" and "xSchedulerRunning (kern st)" and "semaphore (queue st q) c"
  shows "\<exists>st' rs c'. semaphore_ops E q xs st = Some (st', rs) \<and> counter_ops (unat (uxLength (queue st q))) xs c = (c', rs) \<and> semaphore (queue st' q) c'
    \<and> kernel_ok (kern st')"
proof -
  have "good st \<and> semaphore (queue st q) c \<and> unat (uxLength (queue st q)) = unat (uxLength (queue st q))" using assms by (simp add: good_def)
  from counter.performs [OF this, of xs E] show ?thesis unfolding semaphore_ops_def counter_ops_def
    by (auto simp: good_def intro!: exI [of _ "fst (perform_spec (counter_do (unat (uxLength (queue st q)))) xs c)"])
qed

lemma semaphore_refines_counter_witness:
  "\<exists>k st. kernel_call (Start (Some 1) (Some 2)) kernel0 = Some k
    \<and> semaphore_ops idle_environment 0x900 [Take, Take, GiveFromInterrupt, Give, Give] (small_sys k (small_queue\<lparr>uxItemSize := 0, uxMessagesWaiting := 1\<rparr>))
      = Some (st, [True, False, True, True, False])"
proof -
  obtain k where k: "kernel_call (Start (Some 1) (Some 2)) kernel0 = Some k" "reachable k" "xSchedulerRunning k" using running_kernel by blast
  define st where "st = small_sys k (small_queue\<lparr>uxItemSize := 0, uxMessagesWaiting := 1\<rparr>)"
  have s: "kernel_ok (kern st)" "xSchedulerRunning (kern st)" "semaphore (queue st 0x900) 1"
    using reachable_inv [OF k(2)] k(3) by (simp_all add: kernel_inv_def st_def small_sys_def small_queue_def semaphore_def)
  have u: "unat (uxLength (queue st 0x900)) = 2" by (simp add: st_def small_sys_def small_queue_def)
  have r: "counter_ops 2 [Take, Take, GiveFromInterrupt, Give, Give] 1 = (2, [True, False, True, True, False])" by (simp add: counter_ops_def)
  obtain st' where "semaphore_ops idle_environment 0x900 [Take, Take, GiveFromInterrupt, Give, Give] st = Some (st', [True, False, True, True, False])"
    using semaphore_refines_counter [OF s, of idle_environment "[Take, Take, GiveFromInterrupt, Give, Give]"] unfolding u r prod.inject by blast
  then show ?thesis using k(1) unfolding st_def by blast
qed

section \<open>Mutexes\<close>

lemma set_event_value_tcb: "set_event_value t p k = Some k' \<Longrightarrow> tcb k' = tcb k \<and> where_is (kl k') = where_is (kl k)"
  by (auto simp: set_event_value_def list_do_def split: if_splits)

lemma inherit_tcb:
  assumes "xTaskPriorityInherit t k = Some (k', b)" and "t \<noteq> 0"
  shows "tcb k' = (tcb k)(t := (tcb k t)\<lparr>uxPriority := max (prio k t) (prio k (pxCurrentTCB k))\<rparr>)"
proof (cases "prio k t < prio k (pxCurrentTCB k)")
  case True
  then have m: "max (prio k t) (prio k (pxCurrentTCB k)) = prio k (pxCurrentTCB k)" by simp
  obtain k1 k2 where k1: "set_event_value t (prio k (pxCurrentTCB k)) k = Some k1" and k2: "(if container k1 (StateItem t) = Some (Ready (prio k1 t)) then
                  do {
                    k' \<leftarrow> list_do (Remove (StateItem t)) k1;
                    prvAddTaskToReadyList t (set_tcb t (uxPriority_update (\<lambda>_. prio k (pxCurrentTCB k))) k')
                  }
                else Some (set_tcb t (uxPriority_update (\<lambda>_. prio k (pxCurrentTCB k))) k1)) = Some k2" and k': "k' = k2"
    using assms True unfolding xTaskPriorityInherit_def by (auto elim!: bindE)
  have t1: "tcb k1 = tcb k" using set_event_value_tcb [OF k1] by simp
  show ?thesis
  proof (cases "container k1 (StateItem t) = Some (Ready (prio k1 t))")
    case True
    then obtain k3 where k3: "list_do (Remove (StateItem t)) k1 = Some k3"
      "prvAddTaskToReadyList t (set_tcb t (uxPriority_update (\<lambda>_. prio k (pxCurrentTCB k))) k3) = Some k2" using k2 by (auto elim!: bindE)
    show ?thesis unfolding m using add_ready_items [OF k3(2)] remove_items [OF k3(1)] t1 k' by (simp add: set_tcb_def)
  next
    case False
    then show ?thesis unfolding m using k2 k' t1 by (auto simp: set_tcb_def)
  qed
next
  case False
  then have "max (prio k t) (prio k (pxCurrentTCB k)) = prio k t" by simp
  then show ?thesis using assms False by (simp add: xTaskPriorityInherit_def)
qed

lemma disinherit_tcb:
  assumes "xTaskPriorityDisinherit t k = Some (k', b)" and "t \<noteq> 0" and rd: "container k (StateItem t) = Some (Ready p)"
  shows "tcb k' = (tcb k)(t := (tcb k t)\<lparr>uxMutexesHeld := uxMutexesHeld (tcb k t) - 1,
    uxPriority := (if uxMutexesHeld (tcb k t) = 1 then uxBasePriority (tcb k t) else prio k t)\<rparr>)"
    and "the_items k' (EventList e) = the_items k (EventList e)"
proof -
  define k1 where "k1 = set_tcb t (\<lambda>c. c\<lparr>uxMutexesHeld := uxMutexesHeld c - 1\<rparr>) k"
  have "tcb k' = (tcb k)(t := (tcb k t)\<lparr>uxMutexesHeld := uxMutexesHeld (tcb k t) - 1,
      uxPriority := (if uxMutexesHeld (tcb k t) = 1 then uxBasePriority (tcb k t) else prio k t)\<rparr>) \<and> the_items k' (EventList e) = the_items k (EventList e)"
  proof (cases "prio k1 t \<noteq> uxBasePriority (tcb k1 t) \<and> uxMutexesHeld (tcb k1 t) = 0")
    case True
    obtain k2 k4 where k2: "list_do (Remove (StateItem t)) k1 = Some k2"
      and k4: "list_do (SetValue (EventItem t) (configMAX_PRIORITIES - uxBasePriority (tcb k2 t))) (set_tcb t (\<lambda>c. c\<lparr>uxPriority := uxBasePriority c\<rparr>) k2) = Some k4"
      and k5: "prvAddTaskToReadyList t k4 = Some k'"
      using assms(1,2) True unfolding xTaskPriorityDisinherit_def Let_def k1_def [symmetric] by (auto elim!: bindE simp: set_tcb_def)
    have "tcb k4 = tcb (set_tcb t (\<lambda>c. c\<lparr>uxPriority := uxBasePriority c\<rparr>) k2) \<and> the_items k4 (EventList e) = the_items k2 (EventList e)"
      using k4 by (auto simp: list_do_def set_tcb_def)
    moreover have "uxMutexesHeld (tcb k t) = 1" using True by (simp add: k1_def set_tcb_def)
    moreover have "container k1 (StateItem t) = Some (Ready p)" using rd by (simp add: k1_def set_tcb_def)
    ultimately show ?thesis using add_ready_items [OF k5, of "EventList e"] remove_items [OF k2, of "EventList e"] by (simp add: k1_def set_tcb_def image_iff)
  next
    case False
    then have "k' = k1" using assms(1,2) unfolding xTaskPriorityDisinherit_def Let_def k1_def [symmetric] by auto
    then show ?thesis using False by (auto simp: k1_def set_tcb_def)
  qed
  then show "tcb k' = (tcb k)(t := (tcb k t)\<lparr>uxMutexesHeld := uxMutexesHeld (tcb k t) - 1,
      uxPriority := (if uxMutexesHeld (tcb k t) = 1 then uxBasePriority (tcb k t) else prio k t)\<rparr>)"
    and "the_items k' (EventList e) = the_items k (EventList e)" by simp_all
qed

text \<open>A task whose priority changes stays ready.\<close>

lemma inherit_where:
  assumes c: "core k" and r: "xTaskPriorityInherit t k = Some (k', b)" and t: "t \<noteq> 0" and rd: "container k (StateItem t) = Some (Ready p)"
  shows "where_is (kl k') = (where_is (kl k))(StateItem t := Some (Ready (prio k' t)))"
proof (cases "prio k t < prio k (pxCurrentTCB k)")
  case True
  have p: "p = prio k t" using c rd by (simp add: core_in_def)
  obtain k1 k2 where k1: "set_event_value t (prio k (pxCurrentTCB k)) k = Some k1" and k2: "(if container k1 (StateItem t) = Some (Ready (prio k1 t)) then
                  do {
                    k' \<leftarrow> list_do (Remove (StateItem t)) k1;
                    prvAddTaskToReadyList t (set_tcb t (uxPriority_update (\<lambda>_. prio k (pxCurrentTCB k))) k')
                  }
                else Some (set_tcb t (uxPriority_update (\<lambda>_. prio k (pxCurrentTCB k))) k1)) = Some k2" and k': "k' = k2"
    using r t True unfolding xTaskPriorityInherit_def by (auto elim!: bindE)
  have t1: "tcb k1 = tcb k" "where_is (kl k1) = where_is (kl k)" using set_event_value_tcb [OF k1] by simp_all
  then have "container k1 (StateItem t) = Some (Ready (prio k1 t))" using rd p by simp
  then obtain k3 where k3: "list_do (Remove (StateItem t)) k1 = Some k3"
    "prvAddTaskToReadyList t (set_tcb t (uxPriority_update (\<lambda>_. prio k (pxCurrentTCB k))) k3) = Some k2" using k2 by (auto elim!: bindE)
  show ?thesis using add_ready_items [OF k3(2)] remove_items [OF k3(1)] t1 k' by (simp add: set_tcb_def)
next
  case False
  have "p = prio k t" using c rd by (simp add: core_in_def)
  moreover have "k' = k" using r t False by (simp add: xTaskPriorityInherit_def)
  ultimately show ?thesis using rd by (simp add: fun_upd_idem)
qed

lemma disinherit_where:
  assumes c: "core k" and r: "xTaskPriorityDisinherit t k = Some (k', b)" and t: "t \<noteq> 0" and rd: "container k (StateItem t) = Some (Ready p)"
  shows "where_is (kl k') = (where_is (kl k))(StateItem t := Some (Ready (prio k' t)))" and "uxSchedulerSuspended k' = uxSchedulerSuspended k"
proof -
  define k1 where "k1 = set_tcb t (\<lambda>c. c\<lparr>uxMutexesHeld := uxMutexesHeld c - 1\<rparr>) k"
  have p: "p = prio k t" using c rd by (simp add: core_in_def)
  have "where_is (kl k') = (where_is (kl k))(StateItem t := Some (Ready (prio k' t))) \<and> uxSchedulerSuspended k' = uxSchedulerSuspended k"
  proof (cases "prio k1 t \<noteq> uxBasePriority (tcb k1 t) \<and> uxMutexesHeld (tcb k1 t) = 0")
    case True
    obtain k2 k4 where k2: "list_do (Remove (StateItem t)) k1 = Some k2"
      and k4: "list_do (SetValue (EventItem t) (configMAX_PRIORITIES - uxBasePriority (tcb k2 t))) (set_tcb t (\<lambda>c. c\<lparr>uxPriority := uxBasePriority c\<rparr>) k2) = Some k4"
      and k5: "prvAddTaskToReadyList t k4 = Some k'"
      using r t True unfolding xTaskPriorityDisinherit_def Let_def k1_def [symmetric] by (auto elim!: bindE simp: set_tcb_def)
    have "where_is (kl k4) = where_is (kl k2) \<and> uxSchedulerSuspended k4 = uxSchedulerSuspended k2"
      using k4 by (auto simp: list_do_def set_tcb_def)
    then show ?thesis using add_ready_items [OF k5] remove_items [OF k2] by (simp add: k1_def set_tcb_def)
  next
    case False
    then have "k' = k1" using r t unfolding xTaskPriorityDisinherit_def Let_def k1_def [symmetric] by auto
    then show ?thesis using rd p by (simp add: k1_def set_tcb_def fun_upd_idem)
  qed
  then show "where_is (kl k') = (where_is (kl k))(StateItem t := Some (Ready (prio k' t)))" and "uxSchedulerSuspended k' = uxSchedulerSuspended k" by simp_all
qed

definition held_mutex :: "Queue_t \<Rightarrow> u32 \<Rightarrow> bool" where
  "held_mutex Q t \<longleftrightarrow> pcHead Q = 0 \<and> uxItemSize Q = 0 \<and> uxLength Q = 1 \<and> uxMessagesWaiting Q = 0 \<and> pcTail Q = t"

text \<open>C9: A mutex lends priority and takes it back. On a running scheduler with its invariant, when a task is about to wait for a mutex that a ready task
  holds, the holder's priority becomes the higher of the two, the holder is ready at it, and no other entry of a control block and no other item changes.
  When the mutex is given back, the call succeeds without waiting and the mutex is free with no holder; the former holder is ready, at its base priority if
  it holds no other mutex and at its priority if it does; the first task that waits for the mutex leaves the event list and is ready at its priority, or
  pending if the scheduler is suspended; nothing else of any control block changes and every other item stays where it was.\<close>

theorem mutex_lends_priority:
  assumes "kernel_ok (kern st)" and "xSchedulerRunning (kern st)" and "held_mutex (queue st q) t" and "t \<noteq> 0" and "container (kern st) (StateItem t) = Some (Ready p)"
  shows "(\<exists>st' b. inherit_priority q occurred st = Some (st', b) \<and> kernel_ok (kern st') \<and> queue st' = queue st
      \<and> tcb (kern st') = (tcb (kern st))(t := (tcb (kern st) t)\<lparr>uxPriority := max (prio (kern st) t) (prio (kern st) (pxCurrentTCB (kern st)))\<rparr>)
      \<and> where_is (kl (kern st')) = (where_is (kl (kern st)))(StateItem t := Some (Ready (prio (kern st') t))))
    \<and> (\<exists>st'. xQueueGenericSend E q [] ticks queueSEND_TO_BACK st = Some (st', Some ()) \<and> kernel_ok (kern st')
      \<and> uxMessagesWaiting (queue st' q) = 1 \<and> xQueueGetMutexHolder q st' = 0 \<and> waiters st' (xTasksWaitingToReceive q) = tl (waiters st (xTasksWaitingToReceive q))
      \<and> tcb (kern st') = (tcb (kern st))(t := (tcb (kern st) t)\<lparr>uxMutexesHeld := uxMutexesHeld (tcb (kern st) t) - 1,
          uxPriority := (if uxMutexesHeld (tcb (kern st) t) = 1 then uxBasePriority (tcb (kern st) t) else prio (kern st) t)\<rparr>)
      \<and> (let places = (where_is (kl (kern st)))(StateItem t := Some (Ready (prio (kern st') t))) in
         case waiters st (xTasksWaitingToReceive q) of [] \<Rightarrow> where_is (kl (kern st')) = places
         | x # _ \<Rightarrow> \<exists>u. x = EventItem u \<and> where_is (kl (kern st')) =
             (if uxSchedulerSuspended (kern st) = 0 then places(StateItem u := Some (Ready (prio (kern st') u)), EventItem u := None)
              else places(EventItem u := Some xPendingReadyList))))"
proof
  define k where "k = kern st"
  have m: "is_mutex q st" "pcTail (queue st q) = t" using assms(3) by (simp_all add: held_mutex_def is_mutex_def)
  have c: "core k" using assms(1) by (simp add: k_def kernel_ok_def)
  have rd: "container k (StateItem t) = Some (Ready p)" using assms(5) by (simp add: k_def)
  have "keeps (Inherit t) k" using keeps_inherit assms by (auto simp: k_def tasks_def)
  then obtain k1 b where k1: "xTaskPriorityInherit t k = Some (k1, b)" "kernel_ok k1" by (auto simp: keeps_def)
  show "\<exists>st' b. inherit_priority q occurred st = Some (st', b) \<and> kernel_ok (kern st') \<and> queue st' = queue st
      \<and> tcb (kern st') = (tcb (kern st))(t := (tcb (kern st) t)\<lparr>uxPriority := max (prio (kern st) t) (prio (kern st) (pxCurrentTCB (kern st)))\<rparr>)
      \<and> where_is (kl (kern st')) = (where_is (kl (kern st)))(StateItem t := Some (Ready (prio (kern st') t)))"
    using k1 m inherit_tcb [OF k1(1) assms(4)] inherit_where [OF c k1(1) assms(4) rd] by (simp add: inherit_priority_def kernel_ask_def k_def [symmetric])
  have "keeps (Disinherit t) k" using keeps_disinherit assms by (auto simp: k_def)
  then obtain k2 y where k2: "xTaskPriorityDisinherit t k = Some (k2, y)" "kernel_ok k2" "xSchedulerRunning k2" by (auto simp: keeps_def)
  note dw = disinherit_where [OF c k2(1) assms(4) rd] and dt = disinherit_tcb [OF k2(1) assms(4) rd]
  define st1 where "st1 = set_queue q (\<lambda>Q. Q\<lparr>uxMessagesWaiting := 1\<rparr>) (set_queue q (\<lambda>Q. Q\<lparr>pcTail := 0\<rparr>) (st\<lparr>kern := k2\<rparr>))"
  have s1: "kern st1 = k2" by (simp add: st1_def)
  have copy: "prvCopyDataToQueue q [] queueSEND_TO_BACK st = Some (st1, y)"
    using k2(1) assms(3) m by (simp add: prvCopyDataToQueue_def held_mutex_def kernel_ask_def k_def [symmetric] st1_def)
  have g1: "good st1" using k2 by (simp add: st1_def) (simp add: good_def)
  have same: "waiters st1 e = waiters st e" for e using dt(2) by (simp add: s1 k_def)
  have q1: "uxMessagesWaiting (queue st1 q) = 1" "pcTail (queue st1 q) = 0" by (simp_all add: st1_def)
  have yielded: "kl (kern (yield_if b' st')) = kl (kern st')" "tcb (kern (yield_if b' st')) = tcb (kern st')" for b' st' by (simp_all add: yield_if_def portYIELD_def)
  obtain st3 where st3: "send_try q [] queueSEND_TO_BACK st = Some (st3, Some ())" "good st3" "queue st3 = queue st1" "tcb (kern st3) = tcb k2"
    "waiters st3 (xTasksWaitingToReceive q) = tl (waiters st (xTasksWaitingToReceive q))"
    "case waiters st (xTasksWaitingToReceive q) of [] \<Rightarrow> where_is (kl (kern st3)) = where_is (kl k2)
     | x # _ \<Rightarrow> \<exists>u. x = EventItem u \<and> where_is (kl (kern st3)) = woken_places (uxSchedulerSuspended k = 0) u (prio k2 u) (where_is (kl k2))"
  proof (cases "waiters st (xTasksWaitingToReceive q)")
    case Nil
    then have "send_try q [] queueSEND_TO_BACK st = Some (yield_if y st1, Some ())" using assms(3) copy same by (simp add: send_try_def held_mutex_def)
    then show thesis using that [of "yield_if y st1"] g1 Nil same [of "xTasksWaitingToReceive q"] by (simp add: yielded s1)
  next
    case (Cons x ws)
    from wake_one_waiters [OF g1] obtain st2 b where st2: "wake_one (xTasksWaitingToReceive q) st1 = Some (st2, b)" "good st2" "queue st2 = queue st1"
      "\<forall>e'. waiters st2 e' = (if e' = xTasksWaitingToReceive q then tl (waiters st1 e') else waiters st1 e')" "tcb (kern st2) = tcb (kern st1)" by metis
    obtain k3 where k3: "xTaskRemoveFromEventList (xTasksWaitingToReceive q) k2 = Some (k3, b)" "st2 = st1\<lparr>kern := k3\<rparr>"
      using st2(1) Cons same [of "xTasksWaitingToReceive q"] by (auto simp: wake_one_def kernel_ask_def s1)
    have x: "the_items k2 (EventList (xTasksWaitingToReceive q)) = x # ws" using Cons same [of "xTasksWaitingToReceive q"] by (simp add: s1)
    have c2: "core k2" using k2(2) by (simp add: kernel_ok_def)
    obtain u where u: "x = EventItem u" using remove_event_items(5) [OF c2 x k3(1)] by blast
    have "where_is (kl (kern st2)) = woken_places (uxSchedulerSuspended k = 0) u (prio k2 u) (where_is (kl k2))"
      using remove_event_where [OF x [unfolded u] k3(1)] dw(2) by (simp add: k3(2))
    moreover have "send_try q [] queueSEND_TO_BACK st = Some (yield_if b st2, Some ())" using assms(3) copy st2(1) Cons same by (simp add: send_try_def held_mutex_def)
    ultimately show thesis using that [of "yield_if b st2"] st2(2-5) Cons same [of "xTasksWaitingToReceive q"] u by (simp add: yielded s1)
  qed
  have "xQueueGenericSend E q [] ticks queueSEND_TO_BACK st = Some (st3, Some ())"
    unfolding xQueueGenericSend_def by (subst queue_loop.simps) (simp add: st3(1))
  moreover have "let places = (where_is (kl k))(StateItem t := Some (Ready (prio (kern st3) t))) in
      case waiters st (xTasksWaitingToReceive q) of [] \<Rightarrow> where_is (kl (kern st3)) = places
      | x # _ \<Rightarrow> \<exists>u. x = EventItem u \<and> where_is (kl (kern st3)) =
          (if uxSchedulerSuspended k = 0 then places(StateItem u := Some (Ready (prio (kern st3) u)), EventItem u := None)
           else places(EventItem u := Some xPendingReadyList))"
    using st3(6) unfolding Let_def st3(4) dw(1) woken_places_def .
  moreover have "kernel_ok (kern st3)" "uxMessagesWaiting (queue st3 q) = 1" "xQueueGetMutexHolder q st3 = 0"
    using st3(2,3) q1 by (simp_all add: good_def xQueueGetMutexHolder_def)
  moreover have "tcb (kern st3) = (tcb k)(t := (tcb k t)\<lparr>uxMutexesHeld := uxMutexesHeld (tcb k t) - 1,
      uxPriority := (if uxMutexesHeld (tcb k t) = 1 then uxBasePriority (tcb k t) else prio k t)\<rparr>)" unfolding st3(4) by (rule dt(1))
  ultimately show "\<exists>st'. xQueueGenericSend E q [] ticks queueSEND_TO_BACK st = Some (st', Some ()) \<and> kernel_ok (kern st')
      \<and> uxMessagesWaiting (queue st' q) = 1 \<and> xQueueGetMutexHolder q st' = 0 \<and> waiters st' (xTasksWaitingToReceive q) = tl (waiters st (xTasksWaitingToReceive q))
      \<and> tcb (kern st') = (tcb (kern st))(t := (tcb (kern st) t)\<lparr>uxMutexesHeld := uxMutexesHeld (tcb (kern st) t) - 1,
          uxPriority := (if uxMutexesHeld (tcb (kern st) t) = 1 then uxBasePriority (tcb (kern st) t) else prio (kern st) t)\<rparr>)
      \<and> (let places = (where_is (kl (kern st)))(StateItem t := Some (Ready (prio (kern st') t))) in
         case waiters st (xTasksWaitingToReceive q) of [] \<Rightarrow> where_is (kl (kern st')) = places
         | x # _ \<Rightarrow> \<exists>u. x = EventItem u \<and> where_is (kl (kern st')) =
             (if uxSchedulerSuspended (kern st) = 0 then places(StateItem u := Some (Ready (prio (kern st') u)), EventItem u := None)
              else places(EventItem u := Some xPendingReadyList)))"
    using st3(5) unfolding k_def by blast
qed

lemma mutex_lends_priority_witness:
  "\<exists>k st b. kernel_call (Start (Some 1) (Some 2)) kernel0 = Some k \<and> prio k 1 = 0
    \<and> inherit_priority 0x900 False (small_sys k (small_queue\<lparr>pcHead := 0, uxItemSize := 0, uxLength := 1, pcTail := 1\<rparr>)) = Some (st, b) \<and> prio (kern st) 1 = 2"
proof -
  obtain k where k: "kernel_call (Start (Some 1) (Some 2)) kernel0 = Some k" "reachable k" "xSchedulerRunning k" "pxCurrentTCB k = 2" "prio k 2 = 2"
    using running_kernel by blast
  have c: "container k (StateItem 1) = Some (Ready 0)" using started k(1) by simp
  have ok: "kernel_ok k" using reachable_inv [OF k(2)] by (simp add: kernel_inv_def)
  then have p: "prio k 1 = 0" using c by (simp add: kernel_ok_def core_in_def)
  define st where "st = small_sys k (small_queue\<lparr>pcHead := 0, uxItemSize := 0, uxLength := 1, pcTail := 1\<rparr>)"
  have s: "kernel_ok (kern st)" "xSchedulerRunning (kern st)" "held_mutex (queue st 0x900) 1" "1 \<noteq> (0 :: u32)" "container (kern st) (StateItem 1) = Some (Ready 0)"
    using ok k(3) c by (simp_all add: st_def small_sys_def) (simp add: held_mutex_def small_queue_def)
  have e: "kern st = k" by (simp add: st_def small_sys_def)
  from mutex_lends_priority [OF s, of False idle_environment 0] obtain st' b where "inherit_priority 0x900 False st = Some (st', b)"
    "tcb (kern st') = (tcb k)(1 := (tcb k 1)\<lparr>uxPriority := max (prio k 1) (prio k (pxCurrentTCB k))\<rparr>)" unfolding e by blast
  then have "inherit_priority 0x900 False st = Some (st', b)" "prio (kern st') 1 = 2" using k(4,5) p by simp_all
  then show ?thesis using k(1) p unfolding st_def by blast
qed

section \<open>Creation\<close>

text \<open>A new queue is empty and owns its storage. When the size of the structure and of all items together is below 2^32, xQueueGenericCreate asks the heap for
  exactly that many bytes, and in the block it gets sets up a queue of the given length and item size without items; the scheduler keeps its invariant.\<close>

lemma queue_create:
  assumes "kernel_ok (kern st)" and "len \<noteq> 0" and "isize \<noteq> 0" and "72 + unat len * unat isize < 2 ^ 32" and "pvPortMalloc (72 + len * isize) = Some a"
    and "unat a + (72 + unat len * unat isize) < 2 ^ 32" and "unat isize \<le> unat a + 72"
    and "waiters st (xTasksWaitingToSend a) = []" and "waiters st (xTasksWaitingToReceive a) = []"
  shows "unat (72 + len * isize) = 72 + unat len * unat isize \<and> (\<exists>st'. xQueueGenericCreate pvPortMalloc len isize st = Some (st', a)
    \<and> queue_items (queue st' a) (qmem st') [] \<and> uxLength (queue st' a) = len \<and> uxItemSize (queue st' a) = isize \<and> pcHead (queue st' a) = a + 72
    \<and> kernel_ok (kern st'))"
proof
  have u: "unat (len * isize) = unat len * unat isize" using assms(4) by (simp add: unat_word_ariths)
  then show "unat (72 + len * isize) = 72 + unat len * unat isize" using assms(4) by (simp add: unat_word_ariths)
  define Q where "Q = (queue st a)\<lparr>pcHead := a + 72, uxLength := len, uxItemSize := isize, pcTail := a + 72 + len * isize, uxMessagesWaiting := 0,
      pcWriteTo := a + 72, pcReadFrom := a + 72 + (len - 1) * isize, cRxLock := queueUNLOCKED, cTxLock := queueUNLOCKED\<rparr>"
  define k' where "k' = (kern st)\<lparr>kl := (kl (kern st))\<lparr>lists_of := (lists_of (kl (kern st)))
                 (EventList (xTasksWaitingToSend a) := kl_empty, EventList (xTasksWaitingToReceive a) := kl_empty)\<rparr>\<rparr>"
  have c: "xQueueGenericCreate pvPortMalloc len isize st = Some (st\<lparr>kern := k', queue := (queue st)(a := Q)\<rparr>, a)"
    using assms(3,5) by (simp add: xQueueGenericCreate_def sizeof_Queue_t_def prvInitialiseNewQueue_def xQueueGenericReset_def Let_def)
      (simp add: set_queue_def k'_def Q_def)
  have p: "0 < unat len" "0 < unat isize" using assms(2,3) by (simp_all add: unat_gt_0)
  have h: "unat (a + 72) = unat a + 72" using assms(6) by (simp add: unat_word_ariths)
  have t: "unat (a + 72 + len * isize) = unat a + 72 + unat len * unat isize" using assms(6) u h by (simp add: unat_word_ariths)
  have l1: "unat (len - 1) = unat len - 1" using u32_count(2) assms(2) by simp
  define x where "x = (unat len - 1) * unat isize"
  have "x \<le> unat len * unat isize" unfolding x_def by (rule mult_le_mono1) simp
  then have x: "x < 2 ^ 32" "unat a + 72 + x < 2 ^ 32" using assms(6) by linarith+
  moreover have "unat ((len - 1) * isize) = x mod 2 ^ 32" using l1 by (simp add: unat_word_ariths x_def)
  ultimately have "unat ((len - 1) * isize) = x" by simp
  then have r: "unat (a + 72 + (len - 1) * isize) = unat a + 72 + (unat len - 1) * unat isize" using h x by (simp add: unat_word_ariths x_def)
  have "shaped Q (unat a + 72) (unat len) (unat isize) 0 (length ([] :: u8 list list))"
    using p h t r assms(6,7) by (simp add: shaped_def Q_def add.assoc)
  then have "queue_items Q (qmem st) []" by (rule queue_itemsI) (simp_all add: stored_def)
  moreover have "kernel_ok k'"
  proof -
    have c0: "core (kern st)" using assms(1) by (simp add: kernel_ok_def)
    have e: "container (kern st) x \<noteq> Some (EventList (xTasksWaitingToSend a))" "container (kern st) x \<noteq> Some (EventList (xTasksWaitingToReceive a))" for x
      using set_items [OF c0, of x "EventList (xTasksWaitingToSend a)"] set_items [OF c0, of x "EventList (xTasksWaitingToReceive a)"] assms(8,9) by simp_all
    have "wf_lists (kl k')" using assms(1) e by (auto simp: kernel_ok_def core_in_def wf_lists_def k'_def kl_empty_def)
    moreover have "pxDelayedTaskList (kern st) \<noteq> EventList e" "pxOverflowDelayedTaskList (kern st) \<noteq> EventList e" for e
      using assms(1) by (auto simp: kernel_ok_def core_in_def)
    ultimately have "core k'" using assms(1) unfolding kernel_ok_def core_in_def by (simp add: k'_def)
    moreover have "alarm k'" "links k'" using assms(1) by (simp_all add: kernel_ok_def alarm_def links_def k'_def tasks_def deleted_def)
    ultimately show ?thesis using assms(1) by (simp add: kernel_ok_def k'_def)
  qed
  ultimately show "\<exists>st'. xQueueGenericCreate pvPortMalloc len isize st = Some (st', a)
    \<and> queue_items (queue st' a) (qmem st') [] \<and> uxLength (queue st' a) = len \<and> uxItemSize (queue st' a) = isize \<and> pcHead (queue st' a) = a + 72
    \<and> kernel_ok (kern st')" using c by (simp add: Q_def)
qed

lemma queue_create_witness:
  "\<exists>st. xQueueGenericCreate (\<lambda>n. if n = 78 then Some 0x1000 else None) 2 3 (small_sys kernel0 small_queue) = Some (st, 0x1000) \<and> queue_items (queue st 0x1000) (qmem st) []"
proof -
  have ok: "kernel_ok kernel0" using reset_inv [OF kernel0_reset] by (simp add: kernel_inv_def)
  define st where "st = small_sys kernel0 small_queue"
  have s: "kernel_ok (kern st)" "(2 :: u32) \<noteq> 0" "(3 :: u32) \<noteq> 0" "72 + unat (2 :: u32) * unat (3 :: u32) < 2 ^ 32"
    "(\<lambda>n :: u32. if n = 78 then Some 0x1000 else None) (72 + 2 * 3) = Some (0x1000 :: u32)"
    "unat (0x1000 :: u32) + (72 + unat (2 :: u32) * unat (3 :: u32)) < 2 ^ 32" "unat (3 :: u32) \<le> unat (0x1000 :: u32) + 72"
    "waiters st (xTasksWaitingToSend 0x1000) = []" "waiters st (xTasksWaitingToReceive 0x1000) = []"
    using ok by (simp_all add: st_def small_sys_def kernel0_def kl_empty_def)
  from queue_create [where pvPortMalloc = "\<lambda>n. if n = 78 then Some 0x1000 else None", OF s] show ?thesis unfolding st_def by blast
qed

text \<open>A queue too large for 32 bits gets too little memory. When the size of the structure and of all items together is 2^32 or more,
  xQueueGenericCreate asks the heap for fewer bytes than that, and if it gets a block, sets up a queue of the full length and item size in it, whose items
  overrun the block.\<close>

lemma queue_create_overflow:
  assumes "isize \<noteq> 0" and "2 ^ 32 \<le> 72 + unat len * unat isize" and "pvPortMalloc (72 + len * isize) = Some a"
  shows "unat (72 + len * isize) < 72 + unat len * unat isize
    \<and> (\<exists>st'. xQueueGenericCreate pvPortMalloc len isize st = Some (st', a) \<and> uxLength (queue st' a) = len \<and> uxItemSize (queue st' a) = isize)"
proof
  show "unat (72 + len * isize) < 72 + unat len * unat isize" using unat_bound [of "72 + len * isize"] assms(2) by simp
  show "\<exists>st'. xQueueGenericCreate pvPortMalloc len isize st = Some (st', a) \<and> uxLength (queue st' a) = len \<and> uxItemSize (queue st' a) = isize"
    using assms by (simp add: xQueueGenericCreate_def sizeof_Queue_t_def prvInitialiseNewQueue_def xQueueGenericReset_def Let_def)
qed

lemma queue_create_overflow_witness:
  "\<forall>st. \<exists>st'. xQueueGenericCreate (\<lambda>n. if n = 72 then Some 0x1000 else None) 0x10000 0x10000 st = Some (st', 0x1000) \<and> uxItemSize (queue st' 0x1000) = 0x10000"
proof
  fix st
  show "\<exists>st'. xQueueGenericCreate (\<lambda>n. if n = 72 then Some 0x1000 else None) 0x10000 0x10000 st = Some (st', 0x1000) \<and> uxItemSize (queue st' 0x1000) = 0x10000"
    using queue_create_overflow [of "0x10000" "0x10000" "\<lambda>n. if n = 72 then Some 0x1000 else None" "0x1000" st] by auto
qed

end
