(* ===== verification/Kernel_Events.thy ===== *)
theory Kernel_Events
  imports Kernel_Waking
begin

text \<open>
  The event groups of \<^verbatim>\<open>event_groups.c\<close>: tasks wait until bits of a group are set; the bits a task waits for are the value of its event
  item. What a task does with the scheduler suspended is one step: no other task runs then, and interrupts do not call these functions in this
  configuration. What happens until the task runs again is a parameter.
\<close>

section \<open>The calls\<close>

record EventGroup_t =
  uxEventBits :: u32

text \<open>Groups are the addresses of their structures, with the event list in them.\<close>

record esys =
  ekern :: kernel
  group :: "u32 \<Rightarrow> EventGroup_t"

definition eventCLEAR_EVENTS_ON_EXIT_BIT :: u32 where "eventCLEAR_EVENTS_ON_EXIT_BIT = 0x01000000"
definition eventUNBLOCKED_DUE_TO_BIT_SET :: u32 where "eventUNBLOCKED_DUE_TO_BIT_SET = 0x02000000"
definition eventWAIT_FOR_ALL_BITS :: u32 where "eventWAIT_FOR_ALL_BITS = 0x04000000"
definition eventEVENT_BITS_CONTROL_BYTES :: u32 where "eventEVENT_BITS_CONTROL_BYTES = 0xff000000"

definition xTasksWaitingForBits :: "u32 \<Rightarrow> u32" where "xTasksWaitingForBits e = e + 4"

abbreviation bits :: "esys \<Rightarrow> u32 \<Rightarrow> u32" where "bits st e \<equiv> uxEventBits (group st e)"

definition set_bits :: "u32 \<Rightarrow> u32 \<Rightarrow> esys \<Rightarrow> esys" where
  "set_bits e b st = st\<lparr>group := (group st)(e := (group st e)\<lparr>uxEventBits := b\<rparr>)\<rparr>"

definition xEventGroupCreate :: "u32 option \<Rightarrow> esys \<Rightarrow> esys \<times> u32" where
  "xEventGroupCreate block st =
    (case block of None \<Rightarrow> (st, 0)
     | Some e \<Rightarrow> (set_bits e 0 (st\<lparr>ekern := (ekern st)\<lparr>kl := (kl (ekern st))\<lparr>lists_of := (lists_of (kl (ekern st)))
         (EventList (xTasksWaitingForBits e) := kl_empty)\<rparr>\<rparr>\<rparr>), e))"

definition prvTestWaitCondition :: "u32 \<Rightarrow> u32 \<Rightarrow> bool \<Rightarrow> bool" where
  "prvTestWaitCondition uxCurrentEventBits uxBitsToWaitFor xWaitForAllBits =
    (if \<not> xWaitForAllBits then uxCurrentEventBits AND uxBitsToWaitFor \<noteq> 0 else uxCurrentEventBits AND uxBitsToWaitFor = uxBitsToWaitFor)"

text \<open>Whether the bits set end a wait with this item value, and the bits to clear then.\<close>

definition xMatchFound :: "u32 \<Rightarrow> u32 \<Rightarrow> bool" where
  "xMatchFound b v =
    (let uxControlBits = v AND eventEVENT_BITS_CONTROL_BYTES; uxBitsWaitedFor = v AND NOT eventEVENT_BITS_CONTROL_BYTES in
     if uxControlBits AND eventWAIT_FOR_ALL_BITS = 0 then uxBitsWaitedFor AND b \<noteq> 0 else uxBitsWaitedFor AND b = uxBitsWaitedFor)"

definition to_clear :: "u32 \<Rightarrow> u32" where
  "to_clear v = (if v AND eventEVENT_BITS_CONTROL_BYTES AND eventCLEAR_EVENTS_ON_EXIT_BIT \<noteq> 0 then v AND NOT eventEVENT_BITS_CONTROL_BYTES else 0)"

text \<open>The loop over the waiting tasks; each turn reads the next item before it removes one, so the loop goes through the list as it was.\<close>

fun set_bits_loop :: "item list \<Rightarrow> u32 \<Rightarrow> u32 \<Rightarrow> kernel \<Rightarrow> (kernel \<times> u32) option" where
  "set_bits_loop [] b uxBitsToClear k = Some (k, uxBitsToClear)"
| "set_bits_loop (x # xs) b uxBitsToClear k =
    (if xMatchFound b (item_value k x) then
       do {
         k1 \<leftarrow> vTaskRemoveFromUnorderedEventList (owner x) (b OR eventUNBLOCKED_DUE_TO_BIT_SET) k;
         set_bits_loop xs b (uxBitsToClear OR to_clear (item_value k x)) k1
       }
     else set_bits_loop xs b uxBitsToClear k)"

definition xEventGroupSetBits :: "(esys \<Rightarrow> esys) \<Rightarrow> u32 \<Rightarrow> u32 \<Rightarrow> esys \<Rightarrow> (esys \<times> u32) option" where
  "xEventGroupSetBits meanwhile e uxBitsToSet st =
    do {
      let k = vTaskSuspendAll (ekern st);
      let b = bits st e OR uxBitsToSet;
      (k1, uxBitsToClear) \<leftarrow> set_bits_loop (the_items k (EventList (xTasksWaitingForBits e))) b 0 k;
      (k2, xAlreadyYielded) \<leftarrow> xTaskResumeAll k1;
      let st' = meanwhile (set_bits e (b AND NOT uxBitsToClear) (st\<lparr>ekern := k2\<rparr>));
      Some (st', bits st' e)
    }"

definition xEventGroupClearBits :: "u32 \<Rightarrow> u32 \<Rightarrow> esys \<Rightarrow> esys \<times> u32" where
  "xEventGroupClearBits e uxBitsToClear st = (set_bits e (bits st e AND NOT uxBitsToClear) st, bits st e)"

definition xEventGroupGetBitsFromISR :: "u32 \<Rightarrow> esys \<Rightarrow> u32" where "xEventGroupGetBitsFromISR e st = bits st e"

text \<open>A wait up to where the task gives up the processor, with what it returns and whether it waits.\<close>

definition block_for_bits :: "u32 \<Rightarrow> u32 \<Rightarrow> u32 \<Rightarrow> esys \<Rightarrow> (esys \<times> u32 \<times> bool) option" where
  "block_for_bits e v xTicksToWait st =
    do {
      k1 \<leftarrow> vTaskPlaceOnUnorderedEventList (xTasksWaitingForBits e) v xTicksToWait (ekern st);
      r \<leftarrow> xTaskResumeAll k1;
      Some (st\<lparr>ekern := yield_unless r\<rparr>, 0, True)
    }"

definition resume_with :: "u32 \<Rightarrow> esys \<Rightarrow> (esys \<times> u32 \<times> bool) option" where
  "resume_with uxReturn st = do { (k, b) \<leftarrow> xTaskResumeAll (ekern st); Some (st\<lparr>ekern := k\<rparr>, uxReturn, False) }"

definition wait_bits_enter :: "u32 \<Rightarrow> u32 \<Rightarrow> bool \<Rightarrow> bool \<Rightarrow> u32 \<Rightarrow> esys \<Rightarrow> (esys \<times> u32 \<times> bool) option" where
  "wait_bits_enter e uxBitsToWaitFor xClearOnExit xWaitForAllBits xTicksToWait st =
    (let st1 = st\<lparr>ekern := vTaskSuspendAll (ekern st)\<rparr>; b = bits st e in
     if prvTestWaitCondition b uxBitsToWaitFor xWaitForAllBits then
       resume_with b (if xClearOnExit then set_bits e (b AND NOT uxBitsToWaitFor) st1 else st1)
     else if xTicksToWait = 0 then resume_with b st1
     else block_for_bits e (uxBitsToWaitFor OR ((if xClearOnExit then eventCLEAR_EVENTS_ON_EXIT_BIT else 0)
            OR (if xWaitForAllBits then eventWAIT_FOR_ALL_BITS else 0))) xTicksToWait st1)"

text \<open>When the task runs again: the bits stored when it was woken, or those set now.\<close>

definition wait_bits_leave :: "u32 \<Rightarrow> u32 \<Rightarrow> bool \<Rightarrow> bool \<Rightarrow> esys \<Rightarrow> (esys \<times> u32) option" where
  "wait_bits_leave e uxBitsToWaitFor xClearOnExit xWaitForAllBits st =
    do {
      (k, v) \<leftarrow> uxTaskResetEventItemValue (ekern st);
      let st1 = st\<lparr>ekern := k\<rparr>;
      if v AND eventUNBLOCKED_DUE_TO_BIT_SET = 0 then
        Some (if prvTestWaitCondition (bits st1 e) uxBitsToWaitFor xWaitForAllBits \<and> xClearOnExit
              then set_bits e (bits st1 e AND NOT uxBitsToWaitFor) st1 else st1, bits st1 e AND NOT eventEVENT_BITS_CONTROL_BYTES)
      else Some (st1, v AND NOT eventEVENT_BITS_CONTROL_BYTES)
    }"

definition xEventGroupWaitBits :: "(esys \<Rightarrow> esys) \<Rightarrow> u32 \<Rightarrow> u32 \<Rightarrow> bool \<Rightarrow> bool \<Rightarrow> u32 \<Rightarrow> esys \<Rightarrow> (esys \<times> u32) option" where
  "xEventGroupWaitBits meanwhile e uxBitsToWaitFor xClearOnExit xWaitForAllBits xTicksToWait st =
    do {
      (st1, uxReturn, waited) \<leftarrow> wait_bits_enter e uxBitsToWaitFor xClearOnExit xWaitForAllBits xTicksToWait st;
      if waited then wait_bits_leave e uxBitsToWaitFor xClearOnExit xWaitForAllBits (meanwhile st1) else Some (meanwhile st1, uxReturn)
    }"

text \<open>The rendezvous: setting bits and waiting for bits in one step, the bits always cleared.\<close>

definition sync_enter :: "u32 \<Rightarrow> u32 \<Rightarrow> u32 \<Rightarrow> u32 \<Rightarrow> esys \<Rightarrow> (esys \<times> u32 \<times> bool) option" where
  "sync_enter e uxBitsToSet uxBitsToWaitFor xTicksToWait st =
    do {
      (st1, r) \<leftarrow> xEventGroupSetBits id e uxBitsToSet (st\<lparr>ekern := vTaskSuspendAll (ekern st)\<rparr>);
      if (bits st e OR uxBitsToSet) AND uxBitsToWaitFor = uxBitsToWaitFor then
        resume_with (bits st e OR uxBitsToSet) (set_bits e (bits st1 e AND NOT uxBitsToWaitFor) st1)
      else if xTicksToWait \<noteq> 0 then
        block_for_bits e (uxBitsToWaitFor OR eventCLEAR_EVENTS_ON_EXIT_BIT OR eventWAIT_FOR_ALL_BITS) xTicksToWait st1
      else resume_with (bits st1 e) st1
    }"

definition xEventGroupSync :: "(esys \<Rightarrow> esys) \<Rightarrow> u32 \<Rightarrow> u32 \<Rightarrow> u32 \<Rightarrow> u32 \<Rightarrow> esys \<Rightarrow> (esys \<times> u32) option" where
  "xEventGroupSync meanwhile e uxBitsToSet uxBitsToWaitFor xTicksToWait st =
    do {
      (st1, uxReturn, waited) \<leftarrow> sync_enter e uxBitsToSet uxBitsToWaitFor xTicksToWait st;
      if waited then wait_bits_leave e uxBitsToWaitFor True True (meanwhile st1) else Some (meanwhile st1, uxReturn)
    }"

text \<open>Deletion wakes every task that waits; the block is then given back to the heap.\<close>

partial_function (option) delete_loop :: "u32 \<Rightarrow> kernel \<Rightarrow> kernel option" where [code]:
  "delete_loop e k =
    (if the_items k (EventList (xTasksWaitingForBits e)) = [] then Some k
     else do {
       k1 \<leftarrow> vTaskRemoveFromUnorderedEventList (owner (hd (the_items k (EventList (xTasksWaitingForBits e))))) eventUNBLOCKED_DUE_TO_BIT_SET k;
       delete_loop e k1
     })"

definition vEventGroupDelete :: "u32 \<Rightarrow> esys \<Rightarrow> esys option" where
  "vEventGroupDelete e st =
    do { k1 \<leftarrow> delete_loop e (vTaskSuspendAll (ekern st)); (k2, b) \<leftarrow> xTaskResumeAll k1; Some (st\<lparr>ekern := k2\<rparr>) }"

section \<open>Waking one task\<close>

lemma set_value_effect:
  "list_do (SetValue x v) k = Some k' \<Longrightarrow> the_items k' L = the_items k L \<and> where_is (kl k') = where_is (kl k) \<and> value_of (kl k') = (value_of (kl k))(x := v)
    \<and> tcb k' = tcb k \<and> frame k k' \<and> xYieldPending k' = xYieldPending k"
  by (auto simp: list_do_def frame_def split: if_splits)

lemma remove_effect: "list_do (Remove x) k = Some k' \<Longrightarrow> value_of (kl k') = value_of (kl k) \<and> frame k k' \<and> xYieldPending k' = xYieldPending k"
  by (auto simp: list_do_def frame_def split: if_splits)

lemma add_ready_effect: "prvAddTaskToReadyList t k = Some k' \<Longrightarrow> value_of (kl k') = value_of (kl k) \<and> frame k k' \<and> xYieldPending k' = xYieldPending k"
  by (auto simp: prvAddTaskToReadyList_def taskRECORD_READY_PRIORITY_def list_do_def frame_def split: if_splits)

lemma frame_trans: "frame a b \<Longrightarrow> frame b c \<Longrightarrow> frame a c"
  by (simp add: frame_def)

lemma wake_unordered:
  assumes ok: "kernel_ok k" and run: "xSchedulerRunning k" and c: "container k (EventItem t) = Some (EventList E)"
  shows "\<exists>k'. vTaskRemoveFromUnorderedEventList t v k = Some k' \<and> kernel_ok k' \<and> frame k k' \<and> tcb k' = tcb k
    \<and> where_is (kl k') = (where_is (kl k))(StateItem t := Some (Ready (prio k t)), EventItem t := None)
    \<and> value_of (kl k') = (value_of (kl k))(EventItem t := v OR taskEVENT_LIST_ITEM_VALUE_IN_USE)
    \<and> (\<forall>e. the_items k' (EventList e) = (if e = E then remove1 (EventItem t) (the_items k (EventList E)) else the_items k (EventList e)))
    \<and> xYieldPending k' = (xYieldPending k \<or> prio k (pxCurrentTCB k) < prio k t)"
proof -
  have "keeps (WakeUnordered t v) k" using keeps_wake_unordered [OF ok] run c by simp
  then obtain k' where k': "vTaskRemoveFromUnorderedEventList t v k = Some k'" "kernel_ok k'" by (auto simp: keeps_def)
  obtain k1 k2 k3 k4 where s: "list_do (SetValue (EventItem t) (v OR taskEVENT_LIST_ITEM_VALUE_IN_USE)) k = Some k1" "list_do (Remove (EventItem t)) k1 = Some k2"
    "list_do (Remove (StateItem t)) k2 = Some k3" "prvAddTaskToReadyList t k3 = Some k4"
    "k' = (if prio k4 (pxCurrentTCB k4) < prio k4 t then k4\<lparr>xYieldPending := True\<rparr> else k4)"
    using k'(1) unfolding vTaskRemoveFromUnorderedEventList_def by (elim bindE) (rule that, assumption+, simp)
  note e1 = set_value_effect [OF s(1)] and e2 = remove_items [OF s(2)] remove_effect [OF s(2)] and e3 = remove_items [OF s(3)] remove_effect [OF s(3)]
    and e4 = add_ready_items [OF s(4)] add_ready_effect [OF s(4)]
  have "frame k k4" using e1 e2(2) e3(2) e4(2) frame_trans by metis
  then have f: "frame k k'" "pxCurrentTCB k4 = pxCurrentTCB k" by (auto simp: s(5) frame_def)
  have tcb: "tcb k4 = tcb k" using e1 e2(1) e3(1) e4(1) by metis
  have "container k2 (StateItem t) = container k (StateItem t)" using e1 e2(1) by simp
  moreover have "container k (StateItem t) \<noteq> Some (EventList e)" for e using ok by (fastforce simp: kernel_ok_def core_in_def)
  ultimately have "the_items k4 (EventList e) = (if e = E then remove1 (EventItem t) (the_items k (EventList E)) else the_items k (EventList e))" for e
    using e1 e2(1) [of "EventList e"] e3(1) [of "EventList e"] e4(1) [of "EventList e"] c by auto
  moreover have "where_is (kl k4) = (where_is (kl k))(StateItem t := Some (Ready (prio k t)), EventItem t := None)"
    using e1 e2(1) e3(1) e4(1) tcb by (auto simp: fun_eq_iff)
  moreover have "value_of (kl k4) = (value_of (kl k))(EventItem t := v OR taskEVENT_LIST_ITEM_VALUE_IN_USE)" using e1 e2(2) e3(2) e4(2) by simp
  moreover have "xYieldPending k4 = xYieldPending k" using e1 e2(2) e3(2) e4(2) by simp
  moreover have "kl k' = kl k4" "tcb k' = tcb k4" "xYieldPending k' = (xYieldPending k4 \<or> prio k4 (pxCurrentTCB k4) < prio k4 t)" by (simp_all add: s(5))
  ultimately show ?thesis using k' f tcb by simp
qed

section \<open>Setting bits\<close>

text \<open>The waiting tasks whose wait the bits end, and the bits that are then cleared.\<close>

definition freed :: "kernel \<Rightarrow> u32 \<Rightarrow> item list \<Rightarrow> item list" where
  "freed k b xs = filter (\<lambda>x. xMatchFound b (item_value k x)) xs"

definition cleared :: "kernel \<Rightarrow> item list \<Rightarrow> u32" where
  "cleared k xs = foldr (\<lambda>x c. to_clear (item_value k x) OR c) xs 0"

text \<open>What waking some tasks does to a kernel: those are ready at their priority, with the value in their event items.\<close>

definition woken_with :: "u32 \<Rightarrow> item list \<Rightarrow> kernel \<Rightarrow> kernel \<Rightarrow> bool" where
  "woken_with v xs k k' \<longleftrightarrow> frame k k' \<and> tcb k' = tcb k \<and> (\<forall>t. if EventItem t \<in> set xs
     then container k' (StateItem t) = Some (Ready (prio k t)) \<and> container k' (EventItem t) = None \<and> item_value k' (EventItem t) = v OR taskEVENT_LIST_ITEM_VALUE_IN_USE
     else container k' (StateItem t) = container k (StateItem t) \<and> container k' (EventItem t) = container k (EventItem t)
       \<and> item_value k' (EventItem t) = item_value k (EventItem t))"

lemma woken_with_Cons:
  assumes "frame k k1" and "tcb k1 = tcb k" and "where_is (kl k1) = (where_is (kl k))(StateItem t := Some (Ready (prio k t)), EventItem t := None)"
    and "value_of (kl k1) = (value_of (kl k))(EventItem t := v OR taskEVENT_LIST_ITEM_VALUE_IN_USE)" and "woken_with v xs k1 k'" and "EventItem t \<notin> set xs"
  shows "woken_with v (EventItem t # xs) k k'"
  unfolding woken_with_def
proof (intro conjI allI)
  show "frame k k'" "tcb k' = tcb k" using assms(1,2,5) frame_trans by (auto simp: woken_with_def)
  fix u
  show "if EventItem u \<in> set (EventItem t # xs) then container k' (StateItem u) = Some (Ready (prio k u)) \<and> container k' (EventItem u) = None
      \<and> item_value k' (EventItem u) = v OR taskEVENT_LIST_ITEM_VALUE_IN_USE
    else container k' (StateItem u) = container k (StateItem u) \<and> container k' (EventItem u) = container k (EventItem u)
      \<and> item_value k' (EventItem u) = item_value k (EventItem u)"
    using assms(2-6) unfolding woken_with_def by (cases "EventItem u \<in> set xs"; cases "u = t") auto
qed

lemma event_list_item:
  assumes "core_in P k" and "container k x = Some (EventList E)"
  shows "\<exists>t. x = EventItem t"
proof (cases x)
  case (StateItem u)
  then have "holds_states (EventList E)" using assms unfolding core_in_def by blast
  then show ?thesis by simp
qed simp

lemma set_bits_loop_wakes:
  assumes "kernel_ok k" and "xSchedulerRunning k" and "distinct xs" and "\<forall>x \<in> set xs. container k x = Some (EventList E)"
  shows "\<exists>k'. set_bits_loop xs b c k = Some (k', c OR cleared k (freed k b xs)) \<and> kernel_ok k'
    \<and> woken_with (b OR eventUNBLOCKED_DUE_TO_BIT_SET) (freed k b xs) k k'
    \<and> (\<forall>e. the_items k' (EventList e) = (if e = E then filter (\<lambda>x. x \<notin> set (freed k b xs)) (the_items k (EventList E)) else the_items k (EventList e)))
    \<and> xYieldPending k' = (xYieldPending k \<or> (\<exists>x \<in> set (freed k b xs). prio k (pxCurrentTCB k) < prio k (owner x)))"
  using assms
proof (induction xs arbitrary: k c)
  case Nil
  then show ?case by (simp add: freed_def cleared_def woken_with_def frame_refl)
next
  case (Cons x xs)
  have core: "core k" using Cons.prems(1) by (simp add: kernel_ok_def)
  show ?case
  proof (cases "xMatchFound b (item_value k x)")
    case False
    then have e: "freed k b (x # xs) = freed k b xs" "set_bits_loop (x # xs) b c k = set_bits_loop xs b c k" by (simp_all add: freed_def)
    have "distinct xs" "\<forall>x \<in> set xs. container k x = Some (EventList E)" using Cons.prems(3,4) by simp_all
    from Cons.IH [OF Cons.prems(1,2) this, of c] show ?thesis unfolding e .
  next
    case True
    obtain t where t: "x = EventItem t" using event_list_item [OF core] Cons.prems(4) by auto
    define v where "v = b OR eventUNBLOCKED_DUE_TO_BIT_SET"
    have ct: "container k (EventItem t) = Some (EventList E)" using Cons.prems(4) t by simp
    from wake_unordered [OF Cons.prems(1,2) ct, of v] obtain k1 where k1: "vTaskRemoveFromUnorderedEventList t v k = Some k1" "kernel_ok k1" "frame k k1" "tcb k1 = tcb k"
      "where_is (kl k1) = (where_is (kl k))(StateItem t := Some (Ready (prio k t)), EventItem t := None)"
      "value_of (kl k1) = (value_of (kl k))(EventItem t := v OR taskEVENT_LIST_ITEM_VALUE_IN_USE)"
      "\<forall>e. the_items k1 (EventList e) = (if e = E then remove1 (EventItem t) (the_items k (EventList E)) else the_items k (EventList e))"
      "xYieldPending k1 = (xYieldPending k \<or> prio k (pxCurrentTCB k) < prio k t)" by blast
    have same: "container k1 y = container k y \<and> item_value k1 y = item_value k y" if "y \<in> set xs" for y
    proof -
      have "container k y = Some (EventList E)" using Cons.prems(4) that by simp
      then obtain u where "y = EventItem u" using event_list_item [OF core] by blast
      then show ?thesis using that Cons.prems(3) t by (auto simp: k1(5,6))
    qed
    have f: "freed k1 b xs = freed k b xs" using same by (auto simp: freed_def intro!: filter_cong)
    have fx: "freed k b (x # xs) = x # freed k b xs" using True by (simp add: freed_def)
    have cl: "cleared k1 (freed k b xs) = cleared k (freed k b xs)" unfolding cleared_def using same by (intro foldr_cong) (auto simp: freed_def)
    have sub: "set (freed k b xs) \<subseteq> set xs" by (auto simp: freed_def)
    have "xSchedulerRunning k1" "distinct xs" "\<forall>y \<in> set xs. container k1 y = Some (EventList E)"
      using k1(3) Cons.prems(2-4) same by (simp_all add: frame_def)
    from Cons.IH [OF k1(2) this, of "c OR to_clear (item_value k x)"] obtain k' where
      k': "set_bits_loop xs b (c OR to_clear (item_value k x)) k1 = Some (k', (c OR to_clear (item_value k x)) OR cleared k (freed k b xs))" "kernel_ok k'"
      "woken_with v (freed k b xs) k1 k'" "xYieldPending k' = (xYieldPending k1 \<or> (\<exists>x \<in> set (freed k b xs). prio k1 (pxCurrentTCB k1) < prio k1 (owner x)))"
      "\<forall>e. the_items k' (EventList e) = (if e = E then filter (\<lambda>x. x \<notin> set (freed k b xs)) (the_items k1 (EventList E)) else the_items k1 (EventList e))"
      unfolding f cl v_def [symmetric] by blast
    have "EventItem t \<notin> set (freed k b xs)" using sub Cons.prems(3) t by auto
    then have "woken_with v (x # freed k b xs) k k'" using woken_with_Cons [OF k1(3-6) k'(3)] t by simp
    moreover have "distinct (the_items k (EventList E))" using core by (simp add: core_in_def wf_lists_def)
    then have "\<forall>e. the_items k' (EventList e) = (if e = E then filter (\<lambda>y. y \<notin> set (x # freed k b xs)) (the_items k (EventList E)) else the_items k (EventList e))"
      using k'(5) k1(7) t by (auto simp: distinct_remove1_removeAll removeAll_filter_not_eq intro!: filter_cong)
    moreover have "xYieldPending k' = (xYieldPending k \<or> (\<exists>y \<in> set (x # freed k b xs). prio k (pxCurrentTCB k) < prio k (owner y)))"
      using k'(4) k1(3,4,8) t by (auto simp: frame_def)
    moreover have "set_bits_loop (x # xs) b c k = Some (k', c OR cleared k (x # freed k b xs))"
      using True k1(1) k'(1) t by (simp add: v_def [symmetric] cleared_def or.assoc)
    ultimately show ?thesis using k'(2) unfolding fx v_def by blast
  qed
qed

text \<open>With nothing pending, whether the scheduler is suspended or not.\<close>

definition quiet :: "kernel \<Rightarrow> bool" where
  "quiet k \<longleftrightarrow> kernel_ok k \<and> xSchedulerRunning k \<and> uxSchedulerSuspended k \<noteq> portMAX_TICK \<and> uxPendedTicks k = 0 \<and> the_items k xPendingReadyList = []"

lemma no_pending:
  assumes "core k" and "\<And>t. container k (EventItem t) \<noteq> Some xPendingReadyList"
  shows "the_items k xPendingReadyList = []"
proof -
  have "x \<notin> set (the_items k xPendingReadyList)" for x
  proof (cases x)
    case (StateItem t)
    have "container k x \<noteq> Some xPendingReadyList" using assms(1) unfolding StateItem core_in_def by (metis holds_states.simps)
    then show ?thesis using set_items [OF assms(1), of x xPendingReadyList] by simp
  next
    case (EventItem t)
    then show ?thesis using set_items [OF assms(1), of x xPendingReadyList] assms(2) by simp
  qed
  then show ?thesis by (metis list.set_intros(1) neq_Nil_conv)
qed

lemma running_quiet: "kernel_ok k \<Longrightarrow> xSchedulerRunning k \<Longrightarrow> uxSchedulerSuspended k = 0 \<Longrightarrow> quiet k"
  unfolding quiet_def by (intro conjI no_pending) (auto simp: kernel_ok_def links_def portMAX_TICK_def)

lemma set_bits_effect:
  fixes e uxBitsToSet :: u32
  assumes q: "quiet (ekern st)"
  defines "E \<equiv> xTasksWaitingForBits e"
  defines "b \<equiv> bits st e OR uxBitsToSet"
  defines "xs \<equiv> freed (ekern st) b (the_items (ekern st) (EventList E))"
  shows "\<exists>k. xEventGroupSetBits meanwhile e uxBitsToSet st = (let st' = meanwhile (set_bits e (b AND NOT (cleared (ekern st) xs)) (st\<lparr>ekern := k\<rparr>)) in Some (st', bits st' e))
    \<and> quiet k \<and> woken_with (b OR eventUNBLOCKED_DUE_TO_BIT_SET) xs (ekern st) k
    \<and> (\<forall>e. the_items k (EventList e) = (if e = E then filter (\<lambda>x. x \<notin> set xs) (the_items (ekern st) (EventList E)) else the_items (ekern st) (EventList e)))
    \<and> (uxSchedulerSuspended k = 0 \<longrightarrow> (\<exists>x \<in> set xs. prio (ekern st) (pxCurrentTCB (ekern st)) < prio (ekern st) (owner x)) \<longrightarrow> SWReq k)"
proof -
  define k0 where "k0 = ekern st"
  define ks where "ks = vTaskSuspendAll k0"
  have o: "kernel_ok k0" "xSchedulerRunning k0" "uxSchedulerSuspended k0 \<noteq> portMAX_TICK" "uxPendedTicks k0 = 0" "the_items k0 xPendingReadyList = []"
    using q by (simp_all add: quiet_def k0_def)
  have c0: "core k0" using o(1) by (simp add: kernel_ok_def)
  have ks: "kernel_ok ks" "uxSchedulerSuspended ks \<noteq> 0" using suspend_all_ok [OF o(1,3)] by (simp_all add: ks_def)
  have same: "kl ks = kl k0" "tcb ks = tcb k0" "pxCurrentTCB ks = pxCurrentTCB k0" "xSchedulerRunning ks" "uxPendedTicks ks = 0" "xYieldPending ks = xYieldPending k0"
    using o by (simp_all add: ks_def vTaskSuspendAll_def)
  have f: "freed ks b = freed k0 b" "cleared ks = cleared k0" by (simp_all add: fun_eq_iff freed_def cleared_def same)
  have d: "distinct (the_items ks (EventList E))" "\<forall>x \<in> set (the_items ks (EventList E)). container ks x = Some (EventList E)"
    using c0 set_items [OF c0] by (simp_all add: same core_in_def wf_lists_def)
  from set_bits_loop_wakes [OF ks(1) same(4) d, of b 0] obtain k1 where k1: "set_bits_loop (the_items ks (EventList E)) b 0 ks = Some (k1, cleared k0 xs)" "kernel_ok k1"
    "woken_with (b OR eventUNBLOCKED_DUE_TO_BIT_SET) xs ks k1"
    "\<forall>e. the_items k1 (EventList e) = (if e = E then filter (\<lambda>x. x \<notin> set xs) (the_items k0 (EventList E)) else the_items k0 (EventList e))"
    "xYieldPending k1 = (xYieldPending k0 \<or> (\<exists>x \<in> set xs. prio k0 (pxCurrentTCB k0) < prio k0 (owner x)))"
    unfolding f same(1,2,3,6) xs_def k0_def [symmetric] by auto
  define k2 where "k2 = k1\<lparr>uxSchedulerSuspended := uxSchedulerSuspended k0\<rparr>"
  have fr: "frame ks k1" using k1(3) by (simp add: woken_with_def)
  then have k12: "k1 = vTaskSuspendAll k2" by (simp add: k2_def frame_def ks_def vTaskSuspendAll_def)
  have fr2: "frame k0 k2" using fr by (simp add: frame_def k2_def ks_def vTaskSuspendAll_def)
  have c1: "core k2" using k1(2) by (simp add: k2_def kernel_ok_def)
  have "container k2 (EventItem t) \<noteq> Some xPendingReadyList" for t
    using k1(3) set_items [OF c0, of "EventItem t" xPendingReadyList] o(5) by (auto simp: woken_with_def k2_def same dest: spec [of _ t] split: if_splits)
  then have pend: "the_items k2 xPendingReadyList = []" "uxPendedTicks k2 = 0" using no_pending [OF c1] fr2 o(4) by (simp_all add: frame_def)
  define k3 where "k3 = (if uxSchedulerSuspended k2 = 0 \<and> uxCurrentNumberOfTasks k2 > 0 \<and> xYieldPending k2 then portYIELD k2 else k2)"
  obtain y where k3: "xTaskResumeAll k1 = Some (k3, y)" using quiet_resume [OF pend]
    by (cases "uxSchedulerSuspended k2 = 0 \<and> 0 < uxCurrentNumberOfTasks k2 \<and> xYieldPending k2") (auto simp: k12 k3_def)
  have run: "xSchedulerRunning k1" "uxSchedulerSuspended k1 \<noteq> 0" using fr same(4) ks(2) by (simp_all add: frame_def)
  have ok3: "kernel_ok k3" using resume_ok [OF k1(2) run] k3 by auto
  have like: "kl k3 = kl k1" "tcb k3 = tcb k1" "frame k0 k3" using fr2 by (auto simp: k3_def portYIELD_def frame_def) (simp_all add: k2_def)
  have q3: "quiet k3" using ok3 o like(3) pend(1) by (simp add: quiet_def frame_def) (simp add: like(1) k2_def)
  moreover have "woken_with (b OR eventUNBLOCKED_DUE_TO_BIT_SET) xs k0 k3" using k1(3) like by (simp add: woken_with_def same)
  moreover have "SWReq k3" if "uxSchedulerSuspended k3 = 0" "\<exists>x \<in> set xs. prio k0 (pxCurrentTCB k0) < prio k0 (owner x)"
  proof -
    have l: "links k3" "xSchedulerRunning k3" using ok3 q3 by (simp_all add: kernel_ok_def quiet_def)
    have "uxCurrentNumberOfTasks k2 > 0" "uxSchedulerSuspended k2 = 0"
      using tasks_counted [OF l(1) idle_counted [OF l]] that(1) like(3) fr2 by (simp_all add: frame_def)
    then show ?thesis using that(2) k1(5) by (simp add: k3_def portYIELD_def k2_def)
  qed
  moreover have "xEventGroupSetBits meanwhile e uxBitsToSet st = (let st' = meanwhile (set_bits e (b AND NOT (cleared k0 xs)) (st\<lparr>ekern := k3\<rparr>)) in Some (st', bits st' e))"
    unfolding xEventGroupSetBits_def Let_def k0_def [symmetric] ks_def [symmetric] E_def [symmetric] b_def [symmetric] k1(1) bind.bind_lunit prod.case k3 ..
  moreover have "\<forall>e. the_items k3 (EventList e) = (if e = E then filter (\<lambda>x. x \<notin> set xs) (the_items k0 (EventList E)) else the_items k0 (EventList e))"
    using k1(4) like(1) by simp
  ultimately show ?thesis unfolding k0_def by blast
qed

section \<open>Waiting for bits\<close>

lemma block_effect:
  fixes e :: u32
  assumes q: "quiet k" and mb: "may_block k" and n: "n \<noteq> 0"
  defines "E \<equiv> xTasksWaitingForBits e" and "t \<equiv> pxCurrentTCB k"
  shows "\<exists>k'. block_for_bits e v n (st\<lparr>ekern := vTaskSuspendAll k\<rparr>) = Some (st\<lparr>ekern := k'\<rparr>, 0, True) \<and> quiet k' \<and> SWReq k' \<and> tcb k' = tcb k
    \<and> pxCurrentTCB k' = t \<and> uxSchedulerSuspended k' = uxSchedulerSuspended k \<and> blocked_in (container k' (StateItem t))
    \<and> (\<forall>x. x \<noteq> StateItem t \<longrightarrow> container k' x = (if x = EventItem t then Some (EventList E) else container k x)
         \<and> item_value k' x = (if x = EventItem t then v OR taskEVENT_LIST_ITEM_VALUE_IN_USE else item_value k x))"
proof -
  define ks where "ks = vTaskSuspendAll k"
  define v' where "v' = v OR taskEVENT_LIST_ITEM_VALUE_IN_USE"
  have o: "kernel_ok k" "xSchedulerRunning k" "uxSchedulerSuspended k \<noteq> portMAX_TICK" "uxPendedTicks k = 0" "the_items k xPendingReadyList = []"
    using q by (simp_all add: quiet_def)
  have ks: "kernel_ok ks" "uxSchedulerSuspended ks \<noteq> 0" using suspend_all_ok [OF o(1,3)] by (simp_all add: ks_def)
  have same: "kl ks = kl k" "tcb ks = tcb k" "pxCurrentTCB ks = t" "xSchedulerRunning ks" "uxPendedTicks ks = 0" "may_block ks"
    using o mb by (simp_all add: ks_def vTaskSuspendAll_def t_def may_block_def runs_def)
  have c: "core ks" "alarm ks" using ks(1) by (simp_all add: kernel_ok_def)
  have no: "container ks (EventItem t) = None" "\<exists>p. container ks (StateItem t) = Some (Ready p)" using same(3,6) by (auto simp: may_block_def runs_def)
  have "keeps (WaitUnordered E v n) ks" using keeps_wait_unordered [OF ks(1)] same n by simp
  then obtain k1 where k1: "vTaskPlaceOnUnorderedEventList E v n ks = Some k1" "kernel_ok k1" "xSchedulerRunning k1" by (auto simp: keeps_def)
  obtain s1 where s1: "list_do (SetValue (EventItem t) v') ks = Some (ks\<lparr>kl := s1\<rparr>)" "core (ks\<lparr>kl := s1\<rparr>)" "where_is s1 = where_is (kl ks)"
    "value_of s1 = (value_of (kl ks))(EventItem t := v')" using core_set_event_value [OF c(1), of t v'] by auto
  have no1: "container (ks\<lparr>kl := s1\<rparr>) (EventItem t) = None" using no(1) s1(3) by simp
  from core_insert_end [OF s1(2) no1, of "EventList E"] obtain s2 where s2: "list_do (InsertEnd (EventList E) (EventItem t)) (ks\<lparr>kl := s1\<rparr>) = Some (ks\<lparr>kl := s2\<rparr>)"
    "core (ks\<lparr>kl := s2\<rparr>)" "where_is s2 = (where_is s1)(EventItem t := Some (EventList E))" "value_of s2 = value_of s1" by auto
  have al: "alarm (ks\<lparr>kl := s2\<rparr>)" by (rule event_alarm [OF c]) (simp_all add: s1(3,4) s2(3,4))
  obtain p where "container (ks\<lparr>kl := s2\<rparr>) (StateItem (pxCurrentTCB (ks\<lparr>kl := s2\<rparr>))) = Some (Ready p)" using no(2) same(3) by (auto simp: s1(3) s2(3))
  from add_delayed [OF s2(2) al this n, of True] obtain s3 m L where
    s3: "prvAddCurrentTaskToDelayedList n True (ks\<lparr>kl := s2\<rparr>) = Some (ks\<lparr>kl := s3, xNextTaskUnblockTime := m\<rparr>)"
    "where_is s3 = (where_is s2)(StateItem t := Some L)" "\<forall>x. x \<noteq> StateItem t \<longrightarrow> value_of s3 x = value_of s2 x" "blocked_in (Some L)"
    using c(1) by (auto simp: same(3) core_in_def blocked_in_def split: if_splits)
  have e1: "k1 = ks\<lparr>kl := s3, xNextTaskUnblockTime := m\<rparr>"
    using k1(1) s1(1) s2(1) s3(1) unfolding vTaskPlaceOnUnorderedEventList_def same(3) v'_def [symmetric] by (simp add: same(3))
  define k2 where "k2 = k1\<lparr>uxSchedulerSuspended := uxSchedulerSuspended k\<rparr>"
  have k12: "k1 = vTaskSuspendAll k2" by (simp add: k2_def e1 ks_def vTaskSuspendAll_def)
  have c1: "core k2" using k1(2) by (simp add: k2_def kernel_ok_def)
  have at: "container k2 x = (if x = StateItem t then Some L else if x = EventItem t then Some (EventList E) else container k x)" for x
    by (simp add: k2_def e1 s3(2) s2(3) s1(3) same(1))
  have "container k (EventItem u) \<noteq> Some xPendingReadyList" for u
    using set_items [of "(<) (xTickCount k)" k "EventItem u" xPendingReadyList] o(1,5) by (auto simp: kernel_ok_def)
  then have pend: "the_items k2 xPendingReadyList = []" "uxPendedTicks k2 = 0" using no_pending [OF c1] at o(4) by (simp_all add: k2_def e1 same)
  obtain k3 y where k3: "xTaskResumeAll k1 = Some (k3, y)" "yield_unless (k3, y) = portYIELD k2"
    using quiet_resume [OF pend] by (cases "uxSchedulerSuspended k2 = 0 \<and> 0 < uxCurrentNumberOfTasks k2 \<and> xYieldPending k2") (auto simp: k12 yield_unless_def)
  have "uxSchedulerSuspended k1 \<noteq> 0" using ks(2) by (simp add: e1)
  from resume_ok [OF k1(2,3) this] have "kernel_ok k3" using k3(1) by auto
  then have "kernel_ok (yield_unless (k3, y))" by (simp add: yield_unless_def)
  then have ok': "kernel_ok (portYIELD k2)" by (simp add: k3(2))
  have "block_for_bits e v n (st\<lparr>ekern := ks\<rparr>) = Some (st\<lparr>ekern := portYIELD k2\<rparr>, 0, True)"
    by (simp add: block_for_bits_def E_def [symmetric] k1(1) k3)
  moreover have "quiet (portYIELD k2)" using ok' pend o(3) k1(3) by (simp add: quiet_def portYIELD_def) (simp add: k2_def)
  moreover have "SWReq (portYIELD k2)" "tcb (portYIELD k2) = tcb k" "pxCurrentTCB (portYIELD k2) = t" "uxSchedulerSuspended (portYIELD k2) = uxSchedulerSuspended k"
    by (simp_all add: portYIELD_def) (simp_all add: k2_def e1 same)
  moreover have "kl (portYIELD k2) = kl k2" by (simp add: portYIELD_def)
  moreover have "item_value k2 x = (if x = EventItem t then v' else item_value k x)" if "x \<noteq> StateItem t" for x
    using s3(3) that by (simp add: k2_def e1 s2(4) s1(4) same(1))
  ultimately show ?thesis using at s3(4) unfolding ks_def v'_def by (intro exI [of _ "portYIELD k2"]) simp
qed

text \<open>The value of the event item of a task that waits for bits \<open>w\<close>.\<close>

definition wait_value :: "u32 \<Rightarrow> bool \<Rightarrow> bool \<Rightarrow> u32" where
  "wait_value w xClearOnExit xWaitForAllBits =
    (w OR ((if xClearOnExit then eventCLEAR_EVENTS_ON_EXIT_BIT else 0) OR (if xWaitForAllBits then eventWAIT_FOR_ALL_BITS else 0))) OR taskEVENT_LIST_ITEM_VALUE_IN_USE"

lemmas event_bits = eventCLEAR_EVENTS_ON_EXIT_BIT_def eventUNBLOCKED_DUE_TO_BIT_SET_def eventWAIT_FOR_ALL_BITS_def eventEVENT_BITS_CONTROL_BYTES_def
  taskEVENT_LIST_ITEM_VALUE_IN_USE_def

lemma split_bits:
  fixes w c m :: u32
  assumes "w AND m = 0"
  shows "(w OR c) AND m = c AND m" and "c AND NOT m = 0 \<Longrightarrow> (w OR c) AND NOT m = w"
proof -
  show "(w OR c) AND m = c AND m" using assms by (simp add: bit.conj_disj_distrib2)
  have "w AND NOT m = w"
  proof (rule bit_eqI)
    fix i
    assume "possible_bit TYPE(32 word) i"
    moreover have "\<not> bit (w AND m) i" by (simp add: assms)
    ultimately show "bit (w AND NOT m) i = bit w i" by (auto simp: bit_simps)
  qed
  then show "(w OR c) AND NOT m = w" if "c AND NOT m = 0" using that by (simp add: bit.conj_disj_distrib2)
qed

lemma wait_value_parts:
  assumes "w AND eventEVENT_BITS_CONTROL_BYTES = 0"
  shows "xMatchFound b (wait_value w c a) = prvTestWaitCondition b w a" and "to_clear (wait_value w c a) = (if c then w else 0)"
proof -
  define r where "r = (if c then eventCLEAR_EVENTS_ON_EXIT_BIT else 0) OR (if a then eventWAIT_FOR_ALL_BITS else 0) OR taskEVENT_LIST_ITEM_VALUE_IN_USE"
  have v: "wait_value w c a = w OR r" by (simp add: wait_value_def r_def or.assoc)
  have n: "r AND NOT eventEVENT_BITS_CONTROL_BYTES = 0" by (simp add: r_def event_bits)
  have p: "(w OR r) AND eventEVENT_BITS_CONTROL_BYTES = r AND eventEVENT_BITS_CONTROL_BYTES" "(w OR r) AND NOT eventEVENT_BITS_CONTROL_BYTES = w"
    using split_bits [OF assms] n by auto
  have q: "((r AND eventEVENT_BITS_CONTROL_BYTES) AND eventWAIT_FOR_ALL_BITS = 0) = (\<not> a)" "((r AND eventEVENT_BITS_CONTROL_BYTES) AND eventCLEAR_EVENTS_ON_EXIT_BIT = 0) = (\<not> c)"
    by (simp_all add: r_def event_bits)
  show "xMatchFound b (wait_value w c a) = prvTestWaitCondition b w a"
    unfolding v xMatchFound_def prvTestWaitCondition_def Let_def p q by (simp add: and.commute)
  show "to_clear (wait_value w c a) = (if c then w else 0)" unfolding v to_clear_def and.assoc [symmetric] p by (simp add: q)
qed

section \<open>What event groups do\<close>

abbreviation bit_waiters :: "esys \<Rightarrow> u32 \<Rightarrow> item list" where "bit_waiters st e \<equiv> the_items (ekern st) (EventList (xTasksWaitingForBits e))"

abbreviation freed_by :: "u32 \<Rightarrow> esys \<Rightarrow> u32 \<Rightarrow> item list" where "freed_by b st e \<equiv> freed (ekern st) b (bit_waiters st e)"

lemma set_bits_fields [simp]:
  "ekern (set_bits e b st) = ekern st" "bits (set_bits e b st) e' = (if e' = e then b else bits st e')" "ekern (st\<lparr>ekern := k\<rparr>) = k"
  "group (st\<lparr>ekern := k\<rparr>) = group st"
  by (simp_all add: set_bits_def)

text \<open>What a waiting task asked for, in the layout that xEventGroupWaitBits and xEventGroupSync give the value of its event item: the bits below 24 are those it
  waits for, bit 26 is set when it wants all of them, bit 24 when they are to be cleared.\<close>

definition ends_wait :: "u32 \<Rightarrow> u32 \<Rightarrow> bool" where
  "ends_wait b v \<longleftrightarrow> (if bit v 26 then \<forall>i<24. bit v i \<longrightarrow> bit b i else \<exists>i<24. bit v i \<and> bit b i)"

lemma control_bits: "bit eventEVENT_BITS_CONTROL_BYTES i \<longleftrightarrow> 24 \<le> i \<and> i < 32"
proof -
  have e: "eventEVENT_BITS_CONTROL_BYTES = push_bit 24 (mask 8)" by (simp add: eventEVENT_BITS_CONTROL_BYTES_def mask_eq_exp_minus_1 push_bit_eq_mult)
  show ?thesis unfolding e by (auto simp: bit_simps)
qed

lemma low_bits: "bit (v AND NOT eventEVENT_BITS_CONTROL_BYTES) i \<longleftrightarrow> i < 24 \<and> bit v i" for v :: u32
  by (cases "i < 32") (auto simp: bit_simps control_bits dest: bit_imp_possible_bit)

lemma flag_bit: "v AND push_bit n 1 = 0 \<longleftrightarrow> \<not> bit v n" if "n < 32" for v :: u32
proof
  assume "v AND push_bit n 1 = 0"
  then have "\<not> bit (v AND push_bit n 1) n" by simp
  then show "\<not> bit v n" using that by (simp add: bit_simps)
next
  assume "\<not> bit v n"
  then show "v AND push_bit n 1 = 0" by (intro bit_word_eqI) (auto simp: bit_simps)
qed

lemma nonzero_bit: "x \<noteq> 0 \<longleftrightarrow> (\<exists>i. bit x i)" for x :: u32
  by (metis bit_0_eq bot_apply bot_bool_def bit_eqI)

lemma match_ends_wait: "xMatchFound b v = ends_wait b v"
proof -
  have flag: "(v AND eventEVENT_BITS_CONTROL_BYTES) AND eventWAIT_FOR_ALL_BITS = 0 \<longleftrightarrow> \<not> bit v 26"
    using flag_bit [of 26 v] by (simp add: and.assoc event_bits)
  have all: "(v AND NOT eventEVENT_BITS_CONTROL_BYTES) AND b = v AND NOT eventEVENT_BITS_CONTROL_BYTES \<longleftrightarrow> (\<forall>i<24. bit v i \<longrightarrow> bit b i)"
  proof
    assume e: "(v AND NOT eventEVENT_BITS_CONTROL_BYTES) AND b = v AND NOT eventEVENT_BITS_CONTROL_BYTES"
    show "\<forall>i<24. bit v i \<longrightarrow> bit b i"
    proof (intro allI impI)
      fix i :: nat
      assume "i < 24" "bit v i"
      then have "bit ((v AND NOT eventEVENT_BITS_CONTROL_BYTES) AND b) i" unfolding e low_bits by simp
      then show "bit b i" unfolding bit_and_iff [of _ b] by simp
    qed
  next
    assume "\<forall>i<24. bit v i \<longrightarrow> bit b i"
    then show "(v AND NOT eventEVENT_BITS_CONTROL_BYTES) AND b = v AND NOT eventEVENT_BITS_CONTROL_BYTES"
      by (intro bit_word_eqI) (auto simp only: bit_and_iff [of _ b] low_bits)
  qed
  have one: "(v AND NOT eventEVENT_BITS_CONTROL_BYTES) AND b \<noteq> 0 \<longleftrightarrow> (\<exists>i<24. bit v i \<and> bit b i)"
    unfolding nonzero_bit bit_and_iff [of _ b] low_bits by auto
  show ?thesis unfolding xMatchFound_def Let_def flag all one ends_wait_def by simp
qed

lemma bit_to_clear: "bit (to_clear v) i \<longleftrightarrow> bit v 24 \<and> i < 24 \<and> bit v i"
proof -
  have flag: "v AND eventEVENT_BITS_CONTROL_BYTES AND eventCLEAR_EVENTS_ON_EXIT_BIT = 0 \<longleftrightarrow> \<not> bit v 24"
    using flag_bit [of 24 v] by (simp add: and.assoc event_bits)
  show ?thesis unfolding to_clear_def by (simp add: flag low_bits)
qed

lemma bit_cleared: "bit (cleared k xs) i \<longleftrightarrow> (\<exists>x \<in> set xs. bit (item_value k x) 24 \<and> i < 24 \<and> bit (item_value k x) i)"
  unfolding cleared_def by (induction xs) (auto simp: bit_or_iff bit_to_clear)

text \<open>C10: Setting bits ends the waits they complete and no others. On a running scheduler with its invariant, xEventGroupSetBits returns. A waiting task whose
  bits below 24 are all set now, if its value has bit 26, or one of whose bits is, if not, leaves the list and is ready at its priority, with the bits of that
  moment stored for it; the others stay, in their order. A bit of the group is set afterwards if it was set or is being set and no task that was freed
  both asked for clearing (bit 24) and waited for it. A switch is requested if a freed task has a higher priority than the running one.\<close>

theorem set_bits_wakes:
  assumes "kernel_ok (ekern st)" and "xSchedulerRunning (ekern st)" and "uxSchedulerSuspended (ekern st) = 0"
    and "b = bits st e OR s" and "done = filter (\<lambda>x. ends_wait b (item_value (ekern st) x)) (bit_waiters st e)"
  shows "\<exists>st'. xEventGroupSetBits meanwhile e s st = Some (meanwhile st', bits (meanwhile st') e) \<and> kernel_ok (ekern st')
    \<and> bit_waiters st' e = filter (\<lambda>x. \<not> ends_wait b (item_value (ekern st) x)) (bit_waiters st e)
    \<and> woken_with (b OR eventUNBLOCKED_DUE_TO_BIT_SET) done (ekern st) (ekern st')
    \<and> (\<forall>i. bit (bits st' e) i \<longleftrightarrow> bit b i \<and> \<not> (\<exists>x \<in> set done. bit (item_value (ekern st) x) 24 \<and> i < 24 \<and> bit (item_value (ekern st) x) i))
    \<and> ((\<exists>x \<in> set done. prio (ekern st) (pxCurrentTCB (ekern st)) < prio (ekern st) (owner x)) \<longrightarrow> SWReq (ekern st'))"
proof -
  have d: "freed_by b st e = done" by (simp add: assms(5) freed_def match_ends_wait)
  from set_bits_effect [OF running_quiet [OF assms(1-3)], of meanwhile e s, folded assms(4), unfolded d] obtain k where
    k: "xEventGroupSetBits meanwhile e s st = (let st' = meanwhile (set_bits e (b AND NOT (cleared (ekern st) done)) (st\<lparr>ekern := k\<rparr>)) in Some (st', bits st' e))" "quiet k"
    "woken_with (b OR eventUNBLOCKED_DUE_TO_BIT_SET) done (ekern st) k"
    "\<forall>e'. the_items k (EventList e') = (if e' = xTasksWaitingForBits e then filter (\<lambda>x. x \<notin> set done) (bit_waiters st e)
      else the_items (ekern st) (EventList e'))"
    "uxSchedulerSuspended k = 0 \<longrightarrow> (\<exists>x \<in> set done. prio (ekern st) (pxCurrentTCB (ekern st)) < prio (ekern st) (owner x)) \<longrightarrow> SWReq k" by blast
  have "uxSchedulerSuspended k = 0" using k(3) assms(3) by (simp add: woken_with_def frame_def)
  moreover have "the_items k (EventList (xTasksWaitingForBits e)) = filter (\<lambda>x. \<not> ends_wait b (item_value (ekern st) x)) (bit_waiters st e)"
    using k(4) by (auto simp: assms(5) intro!: filter_cong)
  moreover have "bit (b AND NOT (cleared (ekern st) done)) i \<longleftrightarrow> bit b i \<and> \<not> (\<exists>x \<in> set done. bit (item_value (ekern st) x) 24 \<and> i < 24 \<and> bit (item_value (ekern st) x) i)" for i
    unfolding bit_and_iff bit_not_iff bit_cleared by (auto dest: bit_imp_possible_bit)
  ultimately show ?thesis using k
    by (intro exI [of _ "set_bits e (b AND NOT (cleared (ekern st) done)) (st\<lparr>ekern := k\<rparr>)"]) (simp add: quiet_def Let_def)
qed

text \<open>The timer task 2 waits for the bits 1 and 2 of the group at 0x900.\<close>

definition small_group :: "kernel \<Rightarrow> u32 \<Rightarrow> esys" where "small_group k b = \<lparr>ekern = k, group = \<lambda>_. \<lparr>uxEventBits = b\<rparr>\<rparr>"

lemma waiting_group:
  "\<exists>k k1. kernel_call (Start (Some 1) (Some 2)) kernel0 = Some k \<and> kernel_call (WaitUnordered (xTasksWaitingForBits 0x900) 0x05000003 10) k = Some k1
    \<and> kernel_ok k1 \<and> xSchedulerRunning k1 \<and> uxSchedulerSuspended k1 = 0 \<and> the_items k1 (EventList (xTasksWaitingForBits 0x900)) = [EventItem 2]
    \<and> item_value k1 (EventItem 2) = 0x85000003"
proof -
  obtain k where k: "kernel_call (Start (Some 1) (Some 2)) kernel0 = Some k" "reachable k" "xSchedulerRunning k" "may_block k" using running_kernel by blast
  have "map_option (\<lambda>k. (uxSchedulerSuspended k, the_items k (EventList (xTasksWaitingForBits 0x900)), item_value k (EventItem 2)))
      (kernel_calls [Start (Some 1) (Some 2), WaitUnordered (xTasksWaitingForBits 0x900) 0x05000003 10] kernel0) = Some (0, [EventItem 2], 0x85000003)" by code_simp
  then have c: "map_option (\<lambda>k. (uxSchedulerSuspended k, the_items k (EventList (xTasksWaitingForBits 0x900)), item_value k (EventItem 2)))
      (kernel_call (WaitUnordered (xTasksWaitingForBits 0x900) 0x05000003 10) k) = Some (0, [EventItem 2], 0x85000003)" using k(1)
    by (cases "kernel_call (WaitUnordered (xTasksWaitingForBits 0x900) 0x05000003 10) k") (simp_all del: kernel_call.simps)
  have "keeps (WaitUnordered (xTasksWaitingForBits 0x900) 0x05000003 10) k" using keeps_wait_unordered reachable_inv [OF k(2)] k(3,4) by (simp add: kernel_inv_def)
  then show ?thesis using k(1) c unfolding keeps_def by auto
qed

lemma set_bits_wakes_witness:
  "\<exists>k1 st. kernel_calls [Start (Some 1) (Some 2), WaitUnordered (xTasksWaitingForBits 0x900) 0x05000003 10] kernel0 = Some k1
    \<and> xEventGroupSetBits id 0x900 7 (small_group k1 0) = Some (st, 4) \<and> bit_waiters st 0x900 = [] \<and> container (ekern st) (StateItem 2) = Some (Ready (prio k1 2))"
proof -
  obtain k k1 where k: "kernel_call (Start (Some 1) (Some 2)) kernel0 = Some k" "kernel_call (WaitUnordered (xTasksWaitingForBits 0x900) 0x05000003 10) k = Some k1"
    "kernel_ok k1" "xSchedulerRunning k1" "uxSchedulerSuspended k1 = 0" "the_items k1 (EventList (xTasksWaitingForBits 0x900)) = [EventItem 2]"
    "item_value k1 (EventItem 2) = 0x85000003" using waiting_group by blast
  define st where "st = small_group k1 0"
  have s: "kernel_ok (ekern st)" "xSchedulerRunning (ekern st)" "uxSchedulerSuspended (ekern st) = 0" and e: "ekern st = k1" "bits st 0x900 = 0"
    using k(3-5) by (simp_all add: st_def small_group_def)
  have v: "ends_wait 7 0x85000003" unfolding match_ends_wait [symmetric] by code_simp
  have cl: "to_clear 0x85000003 = 3" by code_simp
  from set_bits_wakes [OF s refl refl, of id "0x900" 7] obtain st' where st': "xEventGroupSetBits id 0x900 7 st = Some (st', bits st' 0x900)"
    "\<forall>i. bit (bits st' 0x900) i \<longleftrightarrow> bit (7 :: u32) i \<and> \<not> bit (to_clear 0x85000003) i"
    "bit_waiters st' 0x900 = []" "woken_with (0 OR 7 OR eventUNBLOCKED_DUE_TO_BIT_SET) [EventItem 2] k1 (ekern st')"
    unfolding e k(6) unfolding bit_to_clear by (auto simp: k(7) v)
  have "bits st' 0x900 = 7 AND NOT (to_clear 0x85000003)" using st'(2) by (intro bit_word_eqI) (simp only: bit_and_iff bit_not_iff possible_bit_word, simp)
  then have "bits st' 0x900 = 4" by (simp add: cl)
  then show ?thesis using st' k(1,2) by (auto simp: st_def [symmetric] woken_with_def dest!: spec [of _ 2])
qed

text \<open>What a task gets that waited: on setting the bits, or on a time-out.\<close>

lemma leave_effect:
  fixes st :: esys
  defines "v \<equiv> item_value (ekern st) (EventItem (pxCurrentTCB (ekern st)))"
  shows "\<exists>st'. wait_bits_leave e w c a st = Some (st', (if v AND eventUNBLOCKED_DUE_TO_BIT_SET = 0 then bits st e else v) AND NOT eventEVENT_BITS_CONTROL_BYTES)
    \<and> bits st' e = (if v AND eventUNBLOCKED_DUE_TO_BIT_SET = 0 \<and> prvTestWaitCondition (bits st e) w a \<and> c then bits st e AND NOT w else bits st e)"
  by (auto simp: wait_bits_leave_def uxTaskResetEventItemValue_def list_do_def v_def)

text \<open>C11: A task that waits for bits gets them. When on a running scheduler with its invariant a task that may block waits for bits that are not set,
  xEventGroupWaitBits puts it to sleep in the list of the group. If in any later state of that kind in which it still waits bits are set that complete its wait, it is
  made ready; and when it runs again the call returns the bits as they were when its wait ended, whatever has
  become of the group since.\<close>

theorem wait_returns_bits:
  assumes "kernel_ok (ekern st)" and "xSchedulerRunning (ekern st)" and "uxSchedulerSuspended (ekern st) = 0" and "may_block (ekern st)" and "n \<noteq> 0"
    and "w AND eventEVENT_BITS_CONTROL_BYTES = 0" and "\<not> prvTestWaitCondition (bits st e) w a" and "t = pxCurrentTCB (ekern st)"
  shows "\<exists>st1. wait_bits_enter e w c a n st = Some (st1, 0, True) \<and> kernel_ok (ekern st1) \<and> xSchedulerRunning (ekern st1) \<and> uxSchedulerSuspended (ekern st1) = 0
    \<and> blocked_in (container (ekern st1) (StateItem t)) \<and> EventItem t \<in> set (bit_waiters st1 e) \<and> bits st1 e = bits st e
    \<and> (\<forall>st2 s. kernel_ok (ekern st2) \<and> xSchedulerRunning (ekern st2) \<and> uxSchedulerSuspended (ekern st2) = 0 \<and> EventItem t \<in> set (bit_waiters st2 e)
         \<and> item_value (ekern st2) (EventItem t) = item_value (ekern st1) (EventItem t) \<and> prvTestWaitCondition (bits st2 e OR s) w a
       \<longrightarrow> (\<exists>st3. xEventGroupSetBits id e s st2 = Some (st3, bits st3 e) \<and> container (ekern st3) (StateItem t) = Some (Ready (prio (ekern st2) t))
         \<and> (\<forall>st4. pxCurrentTCB (ekern st4) = t \<and> item_value (ekern st4) (EventItem t) = item_value (ekern st3) (EventItem t)
              \<longrightarrow> (\<exists>st5. wait_bits_leave e w c a st4 = Some (st5, (bits st2 e OR s) AND NOT eventEVENT_BITS_CONTROL_BYTES) \<and> bits st5 e = bits st4 e))))"
proof -
  have q: "quiet (ekern st)" by (rule running_quiet [OF assms(1-3)])
  define v where "v = w OR ((if c then eventCLEAR_EVENTS_ON_EXIT_BIT else 0) OR (if a then eventWAIT_FOR_ALL_BITS else 0))"
  have wv: "v OR taskEVENT_LIST_ITEM_VALUE_IN_USE = wait_value w c a" by (simp add: v_def wait_value_def)
  from block_effect [OF q assms(4,5), of e v st] obtain k' where
    k': "block_for_bits e v n (st\<lparr>ekern := vTaskSuspendAll (ekern st)\<rparr>) = Some (st\<lparr>ekern := k'\<rparr>, 0, True)" "quiet k'" "blocked_in (container k' (StateItem t))"
    "container k' (EventItem t) = Some (EventList (xTasksWaitingForBits e))" "item_value k' (EventItem t) = wait_value w c a" "uxSchedulerSuspended k' = 0"
    unfolding assms(8) [symmetric] wv using assms(3) by auto
  have c': "core k'" using k'(2) by (simp add: quiet_def kernel_ok_def)
  have enter: "wait_bits_enter e w c a n st = Some (st\<lparr>ekern := k'\<rparr>, 0, True)"
    using assms(5,7) k'(1) unfolding wait_bits_enter_def Let_def v_def by simp
  have later: "\<exists>st3. xEventGroupSetBits id e s st2 = Some (st3, bits st3 e) \<and> container (ekern st3) (StateItem t) = Some (Ready (prio (ekern st2) t))
      \<and> (\<forall>st4. pxCurrentTCB (ekern st4) = t \<and> item_value (ekern st4) (EventItem t) = item_value (ekern st3) (EventItem t)
        \<longrightarrow> (\<exists>st5. wait_bits_leave e w c a st4 = Some (st5, (bits st2 e OR s) AND NOT eventEVENT_BITS_CONTROL_BYTES) \<and> bits st5 e = bits st4 e))"
    if s2: "kernel_ok (ekern st2)" "xSchedulerRunning (ekern st2)" "uxSchedulerSuspended (ekern st2) = 0" "EventItem t \<in> set (bit_waiters st2 e)"
      "item_value (ekern st2) (EventItem t) = wait_value w c a" "prvTestWaitCondition (bits st2 e OR s) w a" for st2 s
  proof -
    define b where "b = bits st2 e OR s"
    have "EventItem t \<in> set (freed_by b st2 e)" using s2(4-6) wait_value_parts(1) [OF assms(6)] by (simp add: freed_def b_def)
    moreover from set_bits_effect [OF running_quiet [OF s2(1-3)], of id e s] obtain k3 where
      k3: "xEventGroupSetBits id e s st2 = (let st' = id (set_bits e (b AND NOT (cleared (ekern st2) (freed_by b st2 e))) (st2\<lparr>ekern := k3\<rparr>)) in Some (st', bits st' e))"
      "woken_with (b OR eventUNBLOCKED_DUE_TO_BIT_SET) (freed_by b st2 e) (ekern st2) k3" unfolding b_def by blast
    ultimately have t3: "container k3 (StateItem t) = Some (Ready (prio (ekern st2) t))"
      "item_value k3 (EventItem t) = b OR eventUNBLOCKED_DUE_TO_BIT_SET OR taskEVENT_LIST_ITEM_VALUE_IN_USE" by (auto simp: woken_with_def or.assoc)
    have "(b OR eventUNBLOCKED_DUE_TO_BIT_SET OR taskEVENT_LIST_ITEM_VALUE_IN_USE) AND eventUNBLOCKED_DUE_TO_BIT_SET \<noteq> 0"
    proof
      assume "(b OR eventUNBLOCKED_DUE_TO_BIT_SET OR taskEVENT_LIST_ITEM_VALUE_IN_USE) AND eventUNBLOCKED_DUE_TO_BIT_SET = 0"
      then have "\<not> bit ((b OR eventUNBLOCKED_DUE_TO_BIT_SET OR taskEVENT_LIST_ITEM_VALUE_IN_USE) AND eventUNBLOCKED_DUE_TO_BIT_SET) 25" by simp
      then show False by (simp add: bit_simps event_bits)
    qed
    moreover have "(b OR eventUNBLOCKED_DUE_TO_BIT_SET OR taskEVENT_LIST_ITEM_VALUE_IN_USE) AND NOT eventEVENT_BITS_CONTROL_BYTES = b AND NOT eventEVENT_BITS_CONTROL_BYTES"
      by (simp add: bit.conj_disj_distrib2 event_bits)
    ultimately have "\<exists>st5. wait_bits_leave e w c a st4 = Some (st5, b AND NOT eventEVENT_BITS_CONTROL_BYTES) \<and> bits st5 e = bits st4 e"
      if "pxCurrentTCB (ekern st4) = t" "item_value (ekern st4) (EventItem t) = item_value k3 (EventItem t)" for st4
      using leave_effect [of e w c a st4] that t3(2) by simp
    then show ?thesis using k3(1) t3(1) by (simp add: b_def Let_def)
  qed
  have "kernel_ok k'" "xSchedulerRunning k'" "EventItem t \<in> set (the_items k' (EventList (xTasksWaitingForBits e)))"
    using k'(2,4) set_items [OF c'] by (simp_all add: quiet_def)
  then show ?thesis using enter k'(3,5,6) later by (intro exI [of _ "st\<lparr>ekern := k'\<rparr>"]) auto
qed

lemma wait_returns_bits_witness:
  "\<exists>k st1 st3 st5. kernel_call (Start (Some 1) (Some 2)) kernel0 = Some k \<and> wait_bits_enter 0x900 5 True False 10 (small_group k 2) = Some (st1, 0, True)
    \<and> xEventGroupSetBits id 0x900 1 st1 = Some (st3, bits st3 0x900)
    \<and> wait_bits_leave 0x900 5 True False (st3\<lparr>ekern := (ekern st3)\<lparr>pxCurrentTCB := 2\<rparr>\<rparr>) = Some (st5, 3)"
proof -
  obtain k where k: "kernel_call (Start (Some 1) (Some 2)) kernel0 = Some k" "reachable k" "xSchedulerRunning k" "uxSchedulerSuspended k = 0" "may_block k" "pxCurrentTCB k = 2"
    using running_kernel by blast
  have ok: "kernel_ok k" using reachable_inv [OF k(2)] by (simp add: kernel_inv_def)
  define st where "st = small_group k 2"
  have s: "kernel_ok (ekern st)" "xSchedulerRunning (ekern st)" "uxSchedulerSuspended (ekern st) = 0" "may_block (ekern st)" "(10 :: u32) \<noteq> 0"
    "5 AND eventEVENT_BITS_CONTROL_BYTES = 0" "\<not> prvTestWaitCondition (bits st 0x900) 5 False" "2 = pxCurrentTCB (ekern st)" "bits st 0x900 = 2"
    using ok k(3-6) by (simp_all add: st_def small_group_def event_bits prvTestWaitCondition_def)
  from wait_returns_bits [OF s(1-8), of True] obtain st1 where st1: "wait_bits_enter 0x900 5 True False 10 st = Some (st1, 0, True)" "kernel_ok (ekern st1)"
    "xSchedulerRunning (ekern st1)" "uxSchedulerSuspended (ekern st1) = 0" "EventItem 2 \<in> set (bit_waiters st1 0x900)" "bits st1 0x900 = bits st 0x900"
    and later: "\<forall>st2 s. kernel_ok (ekern st2) \<and> xSchedulerRunning (ekern st2) \<and> uxSchedulerSuspended (ekern st2) = 0 \<and> EventItem 2 \<in> set (bit_waiters st2 0x900)
         \<and> item_value (ekern st2) (EventItem 2) = item_value (ekern st1) (EventItem 2) \<and> prvTestWaitCondition (bits st2 0x900 OR s) 5 False
       \<longrightarrow> (\<exists>st3. xEventGroupSetBits id 0x900 s st2 = Some (st3, bits st3 0x900) \<and> container (ekern st3) (StateItem 2) = Some (Ready (prio (ekern st2) 2))
         \<and> (\<forall>st4. pxCurrentTCB (ekern st4) = 2 \<and> item_value (ekern st4) (EventItem 2) = item_value (ekern st3) (EventItem 2)
              \<longrightarrow> (\<exists>st5. wait_bits_leave 0x900 5 True False st4 = Some (st5, (bits st2 0x900 OR s) AND NOT eventEVENT_BITS_CONTROL_BYTES) \<and> bits st5 0x900 = bits st4 0x900)))"
    by blast
  have "prvTestWaitCondition (bits st1 0x900 OR 1) 5 False" by (simp add: st1(6) s(9) prvTestWaitCondition_def)
  then obtain st3 where "xEventGroupSetBits id 0x900 1 st1 = Some (st3, bits st3 0x900)"
    "\<And>st4. pxCurrentTCB (ekern st4) = 2 \<Longrightarrow> item_value (ekern st4) (EventItem 2) = item_value (ekern st3) (EventItem 2)
      \<Longrightarrow> \<exists>st5. wait_bits_leave 0x900 5 True False st4 = Some (st5, (bits st1 0x900 OR 1) AND NOT eventEVENT_BITS_CONTROL_BYTES)"
    using later [rule_format, of st1 1] st1(2-5) by blast
  moreover from this(2) [of "st3\<lparr>ekern := (ekern st3)\<lparr>pxCurrentTCB := 2\<rparr>\<rparr>"] obtain st5 where
    "wait_bits_leave 0x900 5 True False (st3\<lparr>ekern := (ekern st3)\<lparr>pxCurrentTCB := 2\<rparr>\<rparr>) = Some (st5, 3)" by (auto simp: st1(6) s(9) event_bits)
  ultimately show ?thesis using k(1) st1(1) unfolding st_def by blast
qed

section \<open>The rendezvous\<close>

lemma quiet_suspended:
  assumes "quiet k" and "v \<noteq> portMAX_TICK"
  shows "quiet (k\<lparr>uxSchedulerSuspended := v\<rparr>)"
proof -
  have o: "core k" "alarm k" "links k" "the_items k xPendingReadyList = []" using assms(1) by (simp_all add: quiet_def kernel_ok_def)
  have "container k (EventItem t) \<noteq> Some xPendingReadyList" for t using set_items [OF o(1), of "EventItem t" xPendingReadyList] o(4) by simp
  then have "links (k\<lparr>uxSchedulerSuspended := v\<rparr>)" using o(3) by (simp add: links_def tasks_def deleted_def)
  then show ?thesis using assms o by (simp add: quiet_def kernel_ok_def)
qed

lemma quiet_resumes: "quiet k \<Longrightarrow> \<exists>k' y. xTaskResumeAll (vTaskSuspendAll k) = Some (k', y) \<and> (k' = k \<or> k' = portYIELD k)"
  using quiet_resume [of k] by (auto simp: quiet_def)

lemma quiet_yield [simp]: "quiet (portYIELD k) = quiet k"
  by (simp add: quiet_def) (simp add: portYIELD_def)

lemma woken_with_yield [simp]: "woken_with v xs k (portYIELD k') = woken_with v xs k k'" "kl (portYIELD k') = kl k'"
  by (simp_all add: woken_with_def frame_def portYIELD_def)

lemma cleared_same: "\<forall>x \<in> set xs. to_clear (item_value k x) = w \<Longrightarrow> cleared k xs = (if xs = [] then 0 else w)"
  by (induction xs) (auto simp: cleared_def)

text \<open>C12: A rendezvous. On a running scheduler with its invariant, when every task that waits in an event group waits for all of the same bits to be cleared on exit: the
  call of xEventGroupSync that completes them returns the bits without waiting, makes every waiting task ready with these bits stored for it, empties
  the list and clears the bits; a call that does not complete them from a task that may block frees nobody and puts that task in the list, waiting like the
  others, its own bits set.\<close>

theorem sync_rendezvous:
  assumes "kernel_ok (ekern st)" and "xSchedulerRunning (ekern st)" and "uxSchedulerSuspended (ekern st) = 0" and "w AND eventEVENT_BITS_CONTROL_BYTES = 0"
    and "\<forall>x \<in> set (bit_waiters st e). item_value (ekern st) x = wait_value w True True" and "b = bits st e OR s"
  shows "if b AND w = w
    then \<exists>st'. xEventGroupSync meanwhile e s w n st = Some (meanwhile st', b) \<and> kernel_ok (ekern st') \<and> bit_waiters st' e = [] \<and> bits st' e = b AND NOT w
      \<and> woken_with (b OR eventUNBLOCKED_DUE_TO_BIT_SET) (bit_waiters st e) (ekern st) (ekern st')
    else may_block (ekern st) \<and> n \<noteq> 0 \<longrightarrow> (\<exists>st'. sync_enter e s w n st = Some (st', 0, True) \<and> kernel_ok (ekern st') \<and> bits st' e = b
      \<and> set (bit_waiters st' e) = insert (EventItem (pxCurrentTCB (ekern st))) (set (bit_waiters st e))
      \<and> (\<forall>x \<in> set (bit_waiters st' e). item_value (ekern st') x = wait_value w True True))"
proof -
  define k where "k = ekern st"
  define st0 where "st0 = st\<lparr>ekern := vTaskSuspendAll k\<rparr>"
  have q: "quiet k" using running_quiet assms(1-3) by (simp add: k_def)
  have q0: "quiet (ekern st0)" using quiet_suspended [OF q, of 1] assms(3) by (simp add: st0_def vTaskSuspendAll_def k_def portMAX_TICK_def)
  have same: "kl (ekern st0) = kl k" "tcb (ekern st0) = tcb k" "bits st0 e = bits st e" "group st0 = group st" by (simp_all add: st0_def vTaskSuspendAll_def)
  have f0: "freed (ekern st0) = freed (ekern st)" "cleared (ekern st0) = cleared (ekern st)" "kl (ekern st0) = kl (ekern st)"
    by (simp_all add: fun_eq_iff freed_def cleared_def same k_def)
  have f: "freed_by b st e = (if b AND w = w then bit_waiters st e else [])"
    using assms(5) wait_value_parts(1) [OF assms(4)] by (auto simp: freed_def prvTestWaitCondition_def filter_id_conv filter_empty_conv)
  have cl: "cleared k (freed_by b st e) = (if b AND w = w \<and> bit_waiters st e \<noteq> [] then w else 0)"
    using assms(5) wait_value_parts(2) [OF assms(4)] cleared_same [of "bit_waiters st e" k w] by (simp add: f k_def cleared_def)
  define b' where "b' = b AND NOT (cleared k (freed_by b st e))"
  from set_bits_effect [OF q0, of id e s] obtain k1 where
    k1: "xEventGroupSetBits id e s st0 = Some (set_bits e b' (st0\<lparr>ekern := k1\<rparr>), b')" "quiet k1"
    "woken_with (b OR eventUNBLOCKED_DUE_TO_BIT_SET) (freed_by b st e) (ekern st0) k1"
    "the_items k1 (EventList (xTasksWaitingForBits e)) = filter (\<lambda>x. x \<notin> set (freed_by b st e)) (bit_waiters st e)"
    unfolding same(3) assms(6) [symmetric] f0 Let_def id_apply set_bits_fields by (auto simp: k_def b'_def)
  define k2 where "k2 = k1\<lparr>uxSchedulerSuspended := 0\<rparr>"
  have "uxSchedulerSuspended k1 = 1" using k1(3) assms(3) by (simp add: woken_with_def frame_def st0_def vTaskSuspendAll_def k_def)
  then have k12: "k1 = vTaskSuspendAll k2" by (simp add: k2_def vTaskSuspendAll_def)
  have q2: "quiet k2" using quiet_suspended [OF k1(2), of 0] by (simp add: k2_def portMAX_TICK_def)
  have w2: "woken_with (b OR eventUNBLOCKED_DUE_TO_BIT_SET) (freed_by b st e) k k2"
    using k1(3) assms(3) by (simp add: woken_with_def frame_def st0_def vTaskSuspendAll_def k_def k2_def)
  have b0: "(bits st e OR s) AND w = b AND w" by (simp add: assms(6))
  show ?thesis
  proof (cases "b AND w = w")
    case True
    obtain k3 y where k3: "xTaskResumeAll k1 = Some (k3, y)" "k3 = k2 \<or> k3 = portYIELD k2" using quiet_resumes [OF q2] by (auto simp: k12)
    define st' where "st' = set_bits e (b' AND NOT w) (set_bits e b' (st0\<lparr>ekern := k3\<rparr>))"
    have "sync_enter e s w n st = Some (st', b, False)"
      using k1(1) k3(1) True unfolding sync_enter_def k_def [symmetric] st0_def [symmetric]
      by (simp add: assms(6) [symmetric] resume_with_def st'_def) (simp add: set_bits_def)
    then have "xEventGroupSync meanwhile e s w n st = Some (meanwhile st', b)" by (simp add: xEventGroupSync_def)
    moreover have "b' AND NOT w = b AND NOT w" by (simp add: b'_def cl and.assoc)
    moreover have "kernel_ok k3 \<and> kl k3 = kl k2 \<and> woken_with (b OR eventUNBLOCKED_DUE_TO_BIT_SET) (bit_waiters st e) k k3"
      using k3(2) q2 w2 True f by (elim disjE) (simp_all add: quiet_def)
    moreover have "kl k2 = kl k1" by (simp add: k2_def)
    ultimately show ?thesis using True k1(4) f by (auto simp: st'_def k_def [symmetric] filter_empty_conv)
  next
    case False
    show ?thesis
    proof (simp only: False if_False, intro impI, elim conjE)
      assume mb: "may_block (ekern st)" and n: "n \<noteq> 0"
      define t where "t = pxCurrentTCB k"
      have none: "freed_by b st e = []" "b' = b" using False f cl by (simp_all add: b'_def)
      have t2: "pxCurrentTCB k2 = t" using w2 by (simp add: woken_with_def frame_def t_def)
      have "may_block k2" using mb w2 unfolding none by (simp add: may_block_def runs_def woken_with_def frame_def k_def)
      moreover have wv: "(w OR eventCLEAR_EVENTS_ON_EXIT_BIT OR eventWAIT_FOR_ALL_BITS) OR taskEVENT_LIST_ITEM_VALUE_IN_USE = wait_value w True True"
        by (simp add: wait_value_def)
      moreover have st1: "(set_bits e b st0)\<lparr>ekern := vTaskSuspendAll k2\<rparr> = set_bits e b (st0\<lparr>ekern := k1\<rparr>)" by (simp add: set_bits_def k12)
      ultimately obtain k3 where
        k3: "block_for_bits e (w OR eventCLEAR_EVENTS_ON_EXIT_BIT OR eventWAIT_FOR_ALL_BITS) n (set_bits e b (st0\<lparr>ekern := k1\<rparr>)) = Some ((set_bits e b st0)\<lparr>ekern := k3\<rparr>, 0, True)"
        "quiet k3" "\<forall>x. x \<noteq> StateItem t \<longrightarrow> container k3 x = (if x = EventItem t then Some (EventList (xTasksWaitingForBits e)) else container k2 x)
          \<and> item_value k3 x = (if x = EventItem t then wait_value w True True else item_value k2 x)" "blocked_in (container k3 (StateItem t))"
        using block_effect [OF q2 _ n, of e "w OR eventCLEAR_EVENTS_ON_EXIT_BIT OR eventWAIT_FOR_ALL_BITS" "set_bits e b st0"] unfolding t2 by metis
      have enter: "sync_enter e s w n st = Some ((set_bits e b st0)\<lparr>ekern := k3\<rparr>, 0, True)"
        using k1(1) k3(1) False n unfolding sync_enter_def k_def [symmetric] st0_def [symmetric] by (simp add: assms(6) [symmetric] none)
      have c: "core k3" "core k" using k3(2) q by (simp_all add: quiet_def kernel_ok_def)
      have in3: "x \<in> set (the_items k3 (EventList (xTasksWaitingForBits e))) \<longleftrightarrow> x = EventItem t \<or> x \<in> set (bit_waiters st e)" for x
      proof (cases "x = StateItem t")
        case True
        then show ?thesis using set_items [OF c(1), of x "EventList (xTasksWaitingForBits e)"] set_items [OF c(2), of x "EventList (xTasksWaitingForBits e)"] k3(4)
            event_list_item [OF c(2), of x] by (auto simp: blocked_in_def k_def)
      next
        case no: False
        have "container k2 x = container k x" using w2 unfolding none by (cases x) (simp_all add: woken_with_def)
        then show ?thesis using no k3(3) set_items [OF c(1), of x] set_items [OF c(2), of x] by (auto simp: k_def)
      qed
      have val: "item_value k3 x = wait_value w True True" if "x = EventItem t \<or> x \<in> set (bit_waiters st e)" for x
      proof (cases "x = EventItem t")
        case no: False
        then have x: "container k x = Some (EventList (xTasksWaitingForBits e))" using that set_items [OF c(2)] by (simp add: k_def)
        obtain u where u: "x = EventItem u" using event_list_item [OF c(2) x] by blast
        have "item_value k2 x = item_value k x" using w2 unfolding none u by (simp add: woken_with_def)
        then show ?thesis using no u that k3(3) assms(5) by (simp add: k_def)
      qed (use k3(3) in simp)
      show "\<exists>st'. sync_enter e s w n st = Some (st', 0, True) \<and> kernel_ok (ekern st') \<and> bits st' e = b
        \<and> set (bit_waiters st' e) = insert (EventItem (pxCurrentTCB (ekern st))) (set (bit_waiters st e))
        \<and> (\<forall>x \<in> set (bit_waiters st' e). item_value (ekern st') x = wait_value w True True)"
        using k3(2) in3 val enter by (intro exI [of _ "(set_bits e b st0)\<lparr>ekern := k3\<rparr>"]) (auto simp: quiet_def t_def k_def same(4))
    qed
  qed
qed

lemma sync_rendezvous_witness:
  "\<exists>k1 st. kernel_calls [Start (Some 1) (Some 2), WaitUnordered (xTasksWaitingForBits 0x900) 0x05000003 10] kernel0 = Some k1
    \<and> xEventGroupSync id 0x900 2 3 100 (small_group k1 1) = Some (st, 3) \<and> bit_waiters st 0x900 = [] \<and> bits st 0x900 = 0"
proof -
  obtain k k1 where k: "kernel_call (Start (Some 1) (Some 2)) kernel0 = Some k" "kernel_call (WaitUnordered (xTasksWaitingForBits 0x900) 0x05000003 10) k = Some k1"
    "kernel_ok k1" "xSchedulerRunning k1" "uxSchedulerSuspended k1 = 0" "the_items k1 (EventList (xTasksWaitingForBits 0x900)) = [EventItem 2]"
    "item_value k1 (EventItem 2) = 0x85000003" using waiting_group by blast
  define st where "st = small_group k1 1"
  have s: "kernel_ok (ekern st)" "xSchedulerRunning (ekern st)" "uxSchedulerSuspended (ekern st) = 0" "3 AND eventEVENT_BITS_CONTROL_BYTES = 0"
    "\<forall>x \<in> set (bit_waiters st 0x900). item_value (ekern st) x = wait_value 3 True True" "3 = bits st 0x900 OR 2"
    using k(3-7) by (simp_all add: st_def small_group_def event_bits wait_value_def)
  from sync_rendezvous [OF s, of id 100] show ?thesis using k(1,2) unfolding st_def by auto
qed

section \<open>Deletion\<close>

lemma delete_loop_wakes:
  "kernel_ok k \<Longrightarrow> xSchedulerRunning k \<Longrightarrow> the_items k (EventList (xTasksWaitingForBits e)) = xs \<Longrightarrow>
    \<exists>k'. delete_loop e k = Some k' \<and> kernel_ok k' \<and> woken_with eventUNBLOCKED_DUE_TO_BIT_SET xs k k' \<and> the_items k' (EventList (xTasksWaitingForBits e)) = []"
proof (induction xs arbitrary: k)
  case Nil
  then show ?case by (subst delete_loop.simps) (simp add: woken_with_def frame_refl)
next
  case (Cons x xs)
  have core: "core k" using Cons.prems(1) by (simp add: kernel_ok_def)
  have cx: "container k x = Some (EventList (xTasksWaitingForBits e))" using set_items [OF core, of x "EventList (xTasksWaitingForBits e)"] Cons.prems(3) by simp
  obtain t where t: "x = EventItem t" using event_list_item [OF core cx] by blast
  from wake_unordered [OF Cons.prems(1,2) cx [unfolded t], of eventUNBLOCKED_DUE_TO_BIT_SET] obtain k1 where
    k1: "vTaskRemoveFromUnorderedEventList t eventUNBLOCKED_DUE_TO_BIT_SET k = Some k1" "kernel_ok k1" "frame k k1" "tcb k1 = tcb k"
    "where_is (kl k1) = (where_is (kl k))(StateItem t := Some (Ready (prio k t)), EventItem t := None)"
    "value_of (kl k1) = (value_of (kl k))(EventItem t := eventUNBLOCKED_DUE_TO_BIT_SET OR taskEVENT_LIST_ITEM_VALUE_IN_USE)"
    "the_items k1 (EventList (xTasksWaitingForBits e)) = xs" using Cons.prems(3) t by auto
  have "xSchedulerRunning k1" using k1(3) Cons.prems(2) by (simp add: frame_def)
  from Cons.IH [OF k1(2) this k1(7)] obtain k' where k': "delete_loop e k1 = Some k'" "kernel_ok k'" "woken_with eventUNBLOCKED_DUE_TO_BIT_SET xs k1 k'"
    "the_items k' (EventList (xTasksWaitingForBits e)) = []" by blast
  have "distinct (the_items k (EventList (xTasksWaitingForBits e)))" using core by (simp add: core_in_def wf_lists_def)
  then have "EventItem t \<notin> set xs" using Cons.prems(3) t by simp
  then have "woken_with eventUNBLOCKED_DUE_TO_BIT_SET (x # xs) k k'" using woken_with_Cons [OF k1(3-6) k'(3)] t by simp
  moreover have "delete_loop e k = Some k'" using Cons.prems(3) k1(1) k'(1) t by (subst delete_loop.simps) simp
  ultimately show ?case using k'(2,4) by blast
qed

text \<open>Deleting a group ends every wait on it; the waiting calls return no bits.\<close>

lemma delete_wakes_all:
  assumes "kernel_ok (ekern st)" and "xSchedulerRunning (ekern st)" and "uxSchedulerSuspended (ekern st) = 0"
  shows "\<exists>st'. vEventGroupDelete e st = Some st' \<and> kernel_ok (ekern st') \<and> bit_waiters st' e = []
    \<and> woken_with eventUNBLOCKED_DUE_TO_BIT_SET (bit_waiters st e) (ekern st) (ekern st')"
proof -
  define k where "k = ekern st"
  have q: "quiet (vTaskSuspendAll k)"
    using quiet_suspended [OF running_quiet [OF assms], of 1] assms(3) by (simp add: k_def vTaskSuspendAll_def portMAX_TICK_def)
  then have s: "kernel_ok (vTaskSuspendAll k)" "xSchedulerRunning (vTaskSuspendAll k)" by (simp_all add: quiet_def)
  have same: "kl (vTaskSuspendAll k) = kl k" "tcb (vTaskSuspendAll k) = tcb k" by (simp_all add: vTaskSuspendAll_def)
  have "the_items (vTaskSuspendAll k) (EventList (xTasksWaitingForBits e)) = bit_waiters st e" by (simp add: same) (simp add: k_def)
  from delete_loop_wakes [OF s this] obtain k1 where k1: "delete_loop e (vTaskSuspendAll k) = Some k1" "kernel_ok k1"
    "woken_with eventUNBLOCKED_DUE_TO_BIT_SET (bit_waiters st e) (vTaskSuspendAll k) k1" "the_items k1 (EventList (xTasksWaitingForBits e)) = []" by blast
  define k2 where "k2 = k1\<lparr>uxSchedulerSuspended := 0\<rparr>"
  have k12: "k1 = vTaskSuspendAll k2" using k1(3) assms(3) by (simp add: k2_def woken_with_def frame_def vTaskSuspendAll_def k_def)
  have c: "core (vTaskSuspendAll k)" "core k1" using s(1) k1(2) by (simp_all add: kernel_ok_def)
  have "container k1 (EventItem t) \<noteq> Some xPendingReadyList" for t
    using k1(3) set_items [OF c(1), of "EventItem t" xPendingReadyList] q by (auto simp: woken_with_def quiet_def dest: spec [of _ t] split: if_splits)
  then have "quiet k1" using k1(2,3) q no_pending [OF c(2)] by (simp add: quiet_def woken_with_def frame_def)
  then have q2: "quiet k2" using quiet_suspended [of k1 0] by (simp add: k2_def portMAX_TICK_def)
  obtain k3 y where k3: "xTaskResumeAll k1 = Some (k3, y)" "k3 = k2 \<or> k3 = portYIELD k2" using quiet_resumes [OF q2] by (auto simp: k12)
  have w2: "woken_with eventUNBLOCKED_DUE_TO_BIT_SET (bit_waiters st e) k k2" "kl k2 = kl k1"
    using k1(3) assms(3) same by (simp_all add: woken_with_def k2_def frame_def k_def) (simp add: vTaskSuspendAll_def)
  have "kernel_ok k3" "kl k3 = kl k2" "woken_with eventUNBLOCKED_DUE_TO_BIT_SET (bit_waiters st e) k k3"
    using k3(2) q2 w2(1) by (auto simp: quiet_def)
  then show ?thesis using k1(1,4) k3(1) w2(2) by (simp add: vEventGroupDelete_def k_def)
qed

end
