(* ===== verification/Kernel_Timers.thy ===== *)
theory Kernel_Timers
  imports Kernel_Time
begin

text \<open>
  The software timers of \<^verbatim>\<open>freertos/timers.c\<close>: the timer task keeps the active timers in two lists sorted by expiry time, the
  second for the time after the next overflow of the tick count, and carries out the commands of a queue. The lists are those of
  \<open>Kernel_List\<close>; the queue is the list of its messages, of at most ten (that \<^verbatim>\<open>queue.c\<close> keeps such a list is shown in
  \<open>Kernel_Messages\<close>). The callback functions are a parameter, and may do anything, take time included. The name of a timer and the
  release of a deleted timer's block are left out. Calls that are pended to the task are compiled out. A period of 0 is only asserted
  against, and so accepted.
\<close>

section \<open>State\<close>

record Timer_t =
  xTimerPeriodInTicks :: u32
  uxAutoReload :: bool
  pvTimerID :: u32
  pxCallbackFunction :: u32

datatype timer_list = xActiveTimerList1 | xActiveTimerList2

datatype timer_command = tmrCOMMAND_START_DONT_TRACE | tmrCOMMAND_START | tmrCOMMAND_RESET | tmrCOMMAND_STOP | tmrCOMMAND_CHANGE_PERIOD | tmrCOMMAND_DELETE
  | tmrCOMMAND_START_FROM_ISR | tmrCOMMAND_RESET_FROM_ISR | tmrCOMMAND_STOP_FROM_ISR | tmrCOMMAND_CHANGE_PERIOD_FROM_ISR

record DaemonTaskMessage_t =
  xMessageID :: timer_command
  xMessageValue :: u32
  pxTimer :: u32

text \<open>Timers are the addresses of their blocks, each with its list item in it. \<open>ticks\<close> is the kernel's tick count, \<open>called\<close> the
  timers whose callback functions were called, the last first.\<close>

record tsys =
  timer_lists :: "(timer_list, u32) lists"
  timer :: "u32 \<Rightarrow> Timer_t"
  pxCurrentTimerList :: timer_list
  pxOverflowTimerList :: timer_list
  xLastTime :: u32
  xTimerQueue :: "DaemonTaskMessage_t list option"
  ticks :: u32
  called :: "u32 list"

type_synonym callbacks = "u32 \<Rightarrow> u32 \<Rightarrow> tsys \<Rightarrow> tsys"

definition configTIMER_QUEUE_LENGTH :: nat where "configTIMER_QUEUE_LENGTH = 10"

abbreviation timers_in :: "tsys \<Rightarrow> timer_list \<Rightarrow> u32 list" where "timers_in s L \<equiv> items (lists_of (timer_lists s) L)"
abbreviation timer_at :: "tsys \<Rightarrow> u32 \<Rightarrow> timer_list option" where "timer_at s t \<equiv> where_is (timer_lists s) t"
abbreviation expiry :: "tsys \<Rightarrow> u32 \<Rightarrow> u32" where "expiry s t \<equiv> value_of (timer_lists s) t"
abbreviation period :: "tsys \<Rightarrow> u32 \<Rightarrow> u32" where "period s t \<equiv> xTimerPeriodInTicks (timer s t)"

text \<open>As for the scheduler, a list operation that would corrupt the lists has no result.\<close>

definition timer_do :: "(timer_list, u32) list_command \<Rightarrow> tsys \<Rightarrow> tsys option" where
  "timer_do c s = (if fits (timer_lists s) c then Some (s\<lparr>timer_lists := lists_call c (timer_lists s)\<rparr>) else None)"

definition call_back :: "callbacks \<Rightarrow> u32 \<Rightarrow> tsys \<Rightarrow> tsys" where
  "call_back cb t s = cb (pxCallbackFunction (timer s t)) t (s\<lparr>called := t # called s\<rparr>)"

section \<open>Creation and commands\<close>

text \<open>Whether the queue can be created is given.\<close>

definition prvCheckForValidListAndQueue :: "bool \<Rightarrow> tsys \<Rightarrow> tsys" where
  "prvCheckForValidListAndQueue memory s =
    (if xTimerQueue s = None then
       s\<lparr>timer_lists := (timer_lists s)\<lparr>lists_of := (\<lambda>_. kl_empty)\<rparr>, pxCurrentTimerList := xActiveTimerList1,
         pxOverflowTimerList := xActiveTimerList2, xTimerQueue := (if memory then Some [] else None)\<rparr>
     else s)"

definition prvInitialiseNewTimer :: "bool \<Rightarrow> u32 \<Rightarrow> bool \<Rightarrow> u32 \<Rightarrow> u32 \<Rightarrow> u32 \<Rightarrow> tsys \<Rightarrow> tsys" where
  "prvInitialiseNewTimer memory p auto ident callback t s =
    (let s1 = prvCheckForValidListAndQueue memory s in
     s1\<lparr>timer := (timer s1)(t := \<lparr>xTimerPeriodInTicks = p, uxAutoReload = auto, pvTimerID = ident, pxCallbackFunction = callback\<rparr>),
        timer_lists := (timer_lists s1)\<lparr>where_is := (where_is (timer_lists s1))(t := None)\<rparr>\<rparr>)"

definition xTimerCreate :: "u32 option \<Rightarrow> bool \<Rightarrow> u32 \<Rightarrow> bool \<Rightarrow> u32 \<Rightarrow> u32 \<Rightarrow> tsys \<Rightarrow> tsys \<times> u32" where
  "xTimerCreate block memory p auto ident callback s =
    (case block of None \<Rightarrow> (s, 0) | Some t \<Rightarrow> (prvInitialiseNewTimer memory p auto ident callback t s, t))"

text \<open>A command goes into the queue if there is room; waiting for room is the queue's.\<close>

definition xTimerGenericCommand :: "u32 \<Rightarrow> timer_command \<Rightarrow> u32 \<Rightarrow> tsys \<Rightarrow> tsys \<times> bool" where
  "xTimerGenericCommand t c v s =
    (case xTimerQueue s of None \<Rightarrow> (s, False)
     | Some ms \<Rightarrow> if length ms < configTIMER_QUEUE_LENGTH
                  then (s\<lparr>xTimerQueue := Some (ms @ [\<lparr>xMessageID = c, xMessageValue = v, pxTimer = t\<rparr>])\<rparr>, True) else (s, False))"

definition xTimerGetPeriod :: "u32 \<Rightarrow> tsys \<Rightarrow> u32" where "xTimerGetPeriod t s = period s t"
definition xTimerGetExpiryTime :: "u32 \<Rightarrow> tsys \<Rightarrow> u32" where "xTimerGetExpiryTime t s = expiry s t"
definition xTimerIsTimerActive :: "u32 \<Rightarrow> tsys \<Rightarrow> bool" where "xTimerIsTimerActive t s \<longleftrightarrow> timer_at s t \<noteq> None"
definition pvTimerGetTimerID :: "u32 \<Rightarrow> tsys \<Rightarrow> u32" where "pvTimerGetTimerID t s = pvTimerID (timer s t)"

definition vTimerSetTimerID :: "u32 \<Rightarrow> u32 \<Rightarrow> tsys \<Rightarrow> tsys" where
  "vTimerSetTimerID t ident s = s\<lparr>timer := (timer s)(t := (timer s t)\<lparr>pvTimerID := ident\<rparr>)\<rparr>"

section \<open>The timer task\<close>

text \<open>With whether the expiry time is already past.\<close>

definition prvInsertTimerInActiveList :: "u32 \<Rightarrow> u32 \<Rightarrow> u32 \<Rightarrow> u32 \<Rightarrow> tsys \<Rightarrow> (tsys \<times> bool) option" where
  "prvInsertTimerInActiveList t xNextExpiryTime xTimeNow xCommandTime s =
    do {
      s1 \<leftarrow> timer_do (SetValue t xNextExpiryTime) s;
      if xNextExpiryTime \<le> xTimeNow then
        (if xTimeNow - xCommandTime \<ge> period s1 t then Some (s1, True)
         else do { s2 \<leftarrow> timer_do (Insert (pxOverflowTimerList s1) t) s1; Some (s2, False) })
      else if xTimeNow < xCommandTime \<and> xNextExpiryTime \<ge> xCommandTime then Some (s1, True)
      else do { s2 \<leftarrow> timer_do (Insert (pxCurrentTimerList s1) t) s1; Some (s2, False) }
    }"

partial_function (option) switch_loop :: "callbacks \<Rightarrow> tsys \<Rightarrow> tsys option" where [code]:
  "switch_loop cb s =
    (if timers_in s (pxCurrentTimerList s) = [] then Some s
     else do {
       let t = hd (timers_in s (pxCurrentTimerList s));
       let xNextExpireTime = expiry s t;
       s1 \<leftarrow> timer_do (Remove t) s;
       let s2 = call_back cb t s1;
       s3 \<leftarrow> (if uxAutoReload (timer s2 t) then
                (if xNextExpireTime + period s2 t > xNextExpireTime then
                   do {
                     s' \<leftarrow> timer_do (SetValue t (xNextExpireTime + period s2 t)) s2;
                     timer_do (Insert (pxCurrentTimerList s') t) s'
                   }
                 else Some (fst (xTimerGenericCommand t tmrCOMMAND_START_DONT_TRACE xNextExpireTime s2)))
              else Some s2);
       switch_loop cb s3
     })"

definition prvSwitchTimerLists :: "callbacks \<Rightarrow> tsys \<Rightarrow> tsys option" where
  "prvSwitchTimerLists cb s =
    do {
      s1 \<leftarrow> switch_loop cb s;
      Some (s1\<lparr>pxCurrentTimerList := pxOverflowTimerList s1, pxOverflowTimerList := pxCurrentTimerList s1\<rparr>)
    }"

text \<open>With the time and whether the lists were switched.\<close>

definition prvSampleTimeNow :: "callbacks \<Rightarrow> tsys \<Rightarrow> (tsys \<times> u32 \<times> bool) option" where
  "prvSampleTimeNow cb s =
    (let xTimeNow = ticks s in
     if xTimeNow < xLastTime s then do { s1 \<leftarrow> prvSwitchTimerLists cb s; Some (s1\<lparr>xLastTime := xTimeNow\<rparr>, xTimeNow, True) }
     else Some (s\<lparr>xLastTime := xTimeNow\<rparr>, xTimeNow, False))"

definition prvGetNextExpireTime :: "tsys \<Rightarrow> u32 \<times> bool" where
  "prvGetNextExpireTime s =
    (case timers_in s (pxCurrentTimerList s) of [] \<Rightarrow> (0, True) | t # _ \<Rightarrow> (expiry s t, False))"

definition prvProcessExpiredTimer :: "callbacks \<Rightarrow> u32 \<Rightarrow> u32 \<Rightarrow> tsys \<Rightarrow> tsys option" where
  "prvProcessExpiredTimer cb xNextExpireTime xTimeNow s =
    do {
      t \<leftarrow> (case timers_in s (pxCurrentTimerList s) of [] \<Rightarrow> None | t # _ \<Rightarrow> Some t);
      s1 \<leftarrow> timer_do (Remove t) s;
      s2 \<leftarrow> (if uxAutoReload (timer s1 t) then
               do {
                 (s', expired) \<leftarrow> prvInsertTimerInActiveList t (xNextExpireTime + period s1 t) xTimeNow xNextExpireTime s1;
                 Some (if expired then fst (xTimerGenericCommand t tmrCOMMAND_START_DONT_TRACE xNextExpireTime s') else s')
               }
             else Some s1);
      Some (call_back cb t s2)
    }"

text \<open>With how long the task then waits for a command, and whether for ever, if it waits (\<open>vQueueWaitForMessageRestricted\<close>).\<close>

definition prvProcessTimerOrBlockTask :: "callbacks \<Rightarrow> u32 \<Rightarrow> bool \<Rightarrow> tsys \<Rightarrow> (tsys \<times> (u32 \<times> bool) option) option" where
  "prvProcessTimerOrBlockTask cb xNextExpireTime xListWasEmpty s =
    do {
      (s1, xTimeNow, xTimerListsWereSwitched) \<leftarrow> prvSampleTimeNow cb s;
      if xTimerListsWereSwitched then Some (s1, None)
      else if \<not> xListWasEmpty \<and> xNextExpireTime \<le> xTimeNow then do { s2 \<leftarrow> prvProcessExpiredTimer cb xNextExpireTime xTimeNow s1; Some (s2, None) }
      else Some (s1, Some (xNextExpireTime - xTimeNow, xListWasEmpty \<and> timers_in s1 (pxOverflowTimerList s1) = []))
    }"

definition process_command :: "callbacks \<Rightarrow> DaemonTaskMessage_t \<Rightarrow> tsys \<Rightarrow> tsys option" where
  "process_command cb xMessage s =
    do {
      let t = pxTimer xMessage;
      s1 \<leftarrow> (if timer_at s t \<noteq> None then timer_do (Remove t) s else Some s);
      (s2, xTimeNow, xTimerListsWereSwitched) \<leftarrow> prvSampleTimeNow cb s1;
      if xMessageID xMessage \<in> {tmrCOMMAND_START, tmrCOMMAND_START_FROM_ISR, tmrCOMMAND_RESET, tmrCOMMAND_RESET_FROM_ISR, tmrCOMMAND_START_DONT_TRACE} then
        do {
          (s3, expired) \<leftarrow> prvInsertTimerInActiveList t (xMessageValue xMessage + period s2 t) xTimeNow (xMessageValue xMessage) s2;
          Some (if expired then
                  (let s4 = call_back cb t s3 in
                   if uxAutoReload (timer s4 t) then fst (xTimerGenericCommand t tmrCOMMAND_START_DONT_TRACE (xMessageValue xMessage + period s4 t) s4) else s4)
                else s3)
        }
      else if xMessageID xMessage \<in> {tmrCOMMAND_CHANGE_PERIOD, tmrCOMMAND_CHANGE_PERIOD_FROM_ISR} then
        do {
          let s3 = s2\<lparr>timer := (timer s2)(t := (timer s2 t)\<lparr>xTimerPeriodInTicks := xMessageValue xMessage\<rparr>)\<rparr>;
          (s4, expired) \<leftarrow> prvInsertTimerInActiveList t (xTimeNow + period s3 t) xTimeNow xTimeNow s3;
          Some s4
        }
      else Some s2
    }"

partial_function (option) prvProcessReceivedCommands :: "callbacks \<Rightarrow> tsys \<Rightarrow> tsys option" where [code]:
  "prvProcessReceivedCommands cb s =
    (case xTimerQueue s of None \<Rightarrow> None
     | Some [] \<Rightarrow> Some s
     | Some (xMessage # ms) \<Rightarrow> do { s1 \<leftarrow> process_command cb xMessage (s\<lparr>xTimerQueue := Some ms\<rparr>); prvProcessReceivedCommands cb s1 })"

text \<open>The first half of a turn of the task's endless loop, and the task from there to where it waits; when it is woken, it is inside a turn, and the
  commands come first. A tick of the kernel ends the wait when its time is over; a wait of no ticks ends with the next.\<close>

definition timer_turn :: "callbacks \<Rightarrow> tsys \<Rightarrow> (tsys \<times> (u32 \<times> bool) option) option" where
  "timer_turn cb s = (let (xNextExpireTime, xListWasEmpty) = prvGetNextExpireTime s in prvProcessTimerOrBlockTask cb xNextExpireTime xListWasEmpty s)"

partial_function (option) timer_runs :: "callbacks \<Rightarrow> tsys \<Rightarrow> (tsys \<times> u32 \<times> bool) option" where [code]:
  "timer_runs cb s =
    do {
      (s1, wait) \<leftarrow> timer_turn cb s;
      (case wait of Some w \<Rightarrow> Some (s1, w) | None \<Rightarrow> do { s2 \<leftarrow> prvProcessReceivedCommands cb s1; timer_runs cb s2 })
    }"

definition timer_woken :: "callbacks \<Rightarrow> tsys \<Rightarrow> (tsys \<times> u32 \<times> bool) option" where
  "timer_woken cb s = do { s1 \<leftarrow> prvProcessReceivedCommands cb s; timer_runs cb s1 }"

definition timer_tick :: "callbacks \<Rightarrow> tsys \<times> u32 \<times> bool \<Rightarrow> (tsys \<times> u32 \<times> bool) option" where
  "timer_tick cb = (\<lambda>(s, wait, forever).
    if forever then Some (s\<lparr>ticks := ticks s + 1\<rparr>, wait, True)
    else if 1 < wait then Some (s\<lparr>ticks := ticks s + 1\<rparr>, wait - 1, False)
    else timer_woken cb (s\<lparr>ticks := ticks s + 1\<rparr>))"

fun timer_ticks :: "callbacks \<Rightarrow> nat \<Rightarrow> tsys \<times> u32 \<times> bool \<Rightarrow> (tsys \<times> u32 \<times> bool) option" where
  "timer_ticks cb 0 w = Some w"
| "timer_ticks cb (Suc m) w = do { w1 \<leftarrow> timer_tick cb w; timer_ticks cb m w1 }"

section \<open>Insertion\<close>

text \<open>Of three times, the command no later than now and less than an overflow ago.\<close>

lemma epochs:
  fixes C N p M :: nat
  assumes "C \<le> N" and "N - C < M" and "p < M"
  shows "(C + p) mod M \<le> N mod M \<Longrightarrow> N < C + p \<Longrightarrow> (C + p) div M = N div M + 1"
    and "N mod M < (C + p) mod M \<Longrightarrow> (N mod M < C mod M \<and> C mod M \<le> (C + p) mod M) = (C + p \<le> N)"
    and "N mod M < (C + p) mod M \<Longrightarrow> N < C + p \<Longrightarrow> (C + p) div M = N div M"
proof -
  have M: "0 < M" using assms(3) by simp
  have near: "C div M \<le> Y div M \<and> Y div M \<le> C div M + 1" if "C \<le> Y" "Y \<le> C + M" for Y
    using div_le_mono [OF that(1), of M] div_le_mono [OF that(2), of M] div_add_self2 [of M C] M by linarith
  have d: "N div M = C div M \<or> N div M = C div M + 1" "(C + p) div M = C div M \<or> (C + p) div M = C div M + 1"
    using near [of N] near [of "C + p"] assms by (auto simp: less_diff_conv2 le_Suc_eq)
  define A a n x X where "A = C div M * M" and "a = C mod M" and "n = N mod M" and "x = (C + p) mod M" and "X = C + p"
  define qc qn qx where "qc = C div M" and "qn = N div M" and "qx = (C + p) div M"
  have e: "C = A + a" "N = qn * M + n" "X = qx * M + x" "a < M" "n < M" "x < M" "X = C + p"
    using M by (simp_all add: A_def a_def n_def x_def qn_def qx_def X_def)
  have m: "qn * M = (if qn = qc then A else A + M)" "qx * M = (if qx = qc then A else A + M)"
    using d by (auto simp: A_def qc_def qn_def qx_def)
  show "(C + p) mod M \<le> N mod M \<Longrightarrow> N < C + p \<Longrightarrow> (C + p) div M = N div M + 1"
    "N mod M < (C + p) mod M \<Longrightarrow> (N mod M < C mod M \<and> C mod M \<le> (C + p) mod M) = (C + p \<le> N)"
    "N mod M < (C + p) mod M \<Longrightarrow> N < C + p \<Longrightarrow> (C + p) div M = N div M"
    unfolding a_def [symmetric] n_def [symmetric] x_def [symmetric] qn_def [symmetric] qx_def [symmetric] unfolding X_def [symmetric]
    using d [folded qc_def qn_def qx_def] e assms unfolding m by (auto split: if_splits)
qed

definition with_lists :: "(timer_list, u32) lists \<Rightarrow> tsys \<Rightarrow> tsys" where "with_lists l s = s\<lparr>timer_lists := l\<rparr>"

definition inserted :: "timer_list \<Rightarrow> u32 \<Rightarrow> u32 \<Rightarrow> tsys \<Rightarrow> tsys" where
  "inserted L t v s = with_lists (lists_call (Insert L t) (lists_call (SetValue t v) (timer_lists s))) s"

lemma unat_of_nat_u32: "unat (of_nat n :: u32) = n mod 2 ^ 32"
  by (simp add: unsigned_of_nat take_bit_eq_mod)

text \<open>A timer goes where its expiry belongs. Counting time without overflow, when a command of time C is carried out at time N, less than 2^32 ticks later, prvInsertTimerInActiveList
  finds the timer expired exactly when C and the period together do not lie after N; otherwise it enters the timer, with its expiry time, into the current list if
  the tick count does not overflow before it and into the other list if it does.\<close>

lemma insert_timer_exact:
  fixes C N :: nat
  assumes "C \<le> N" and "N - C < 2 ^ 32" and "timer_at s t = None" and "X = C + unat (period s t)"
  shows "prvInsertTimerInActiveList t (of_nat C + period s t) (of_nat N) (of_nat C) s =
    Some (if X \<le> N then (with_lists (lists_call (SetValue t (of_nat X)) (timer_lists s)) s, True)
          else (inserted (if X div 2 ^ 32 = N div 2 ^ 32 then pxCurrentTimerList s else pxOverflowTimerList s) t (of_nat X) s, False))"
proof -
  define p where "p = unat (period s t)"
  have p: "p < 2 ^ 32" "period s t = of_nat p" "X = C + p" using unat_bound [of "period s t"] by (simp_all add: p_def assms(4))
  have v: "of_nat C + period s t = (of_nat X :: u32)" by (simp add: p)
  have "unat (of_nat (N - C) :: u32) = N - C" unfolding unat_of_nat_u32 by (rule mod_less [OF assms(2)])
  then have "unat (of_nat N - of_nat C :: u32) = N - C" unfolding of_nat_diff [OF assms(1)] .
  then have el: "period s t \<le> of_nat N - of_nat C \<longleftrightarrow> X \<le> N" using assms(1) by (auto simp: word_le_nat_alt p(3) p_def [symmetric])
  have le: "(of_nat X \<le> (of_nat N :: u32)) = (X mod 2 ^ 32 \<le> N mod 2 ^ 32)" "((of_nat N :: u32) < of_nat C) = (N mod 2 ^ 32 < C mod 2 ^ 32)"
    "((of_nat C :: u32) \<le> of_nat X) = (C mod 2 ^ 32 \<le> X mod 2 ^ 32)" by (simp_all add: word_le_nat_alt word_less_nat_alt unat_of_nat_u32)
  note ep = epochs [OF assms(1,2) p(1), folded p(3)]
  define s1 where "s1 = with_lists (lists_call (SetValue t (of_nat X)) (timer_lists s)) s"
  have s1: "timer_do (SetValue t (of_nat X)) s = Some s1" "timer s1 = timer s" "pxCurrentTimerList s1 = pxCurrentTimerList s" "pxOverflowTimerList s1 = pxOverflowTimerList s"
    by (simp_all add: timer_do_def s1_def with_lists_def)
  have ins: "timer_do (Insert L t) s1 = Some (inserted L t (of_nat X) s)" for L
    using assms(3) by (simp add: timer_do_def s1_def with_lists_def inserted_def)
  show ?thesis
  proof (cases "X mod 2 ^ 32 \<le> N mod 2 ^ 32")
    case True
    then show ?thesis using ep(1) unfolding prvInsertTimerInActiveList_def v s1(1) bind.bind_lunit le s1(2-4) el ins by (auto simp: s1_def)
  next
    case False
    then show ?thesis using ep(2,3) unfolding prvInsertTimerInActiveList_def v s1(1) bind.bind_lunit le s1(2-4) el ins by (auto simp: s1_def)
  qed
qed

section \<open>Invariant\<close>

definition timers_ok :: "tsys \<Rightarrow> bool" where
  "timers_ok s \<longleftrightarrow> wf_lists (timer_lists s) \<and> pxCurrentTimerList s \<noteq> pxOverflowTimerList s \<and> (\<forall>L. sorted (map (expiry s) (timers_in s L)))
    \<and> (\<forall>t. timer_at s t \<noteq> None \<longrightarrow> period s t \<noteq> 0)"

text \<open>Nothing that is past; the timers of the other list expire after the next overflow.\<close>

definition up_to_date :: "tsys \<Rightarrow> bool" where
  "up_to_date s \<longleftrightarrow> (\<forall>t. timer_at s t = Some (pxCurrentTimerList s) \<longrightarrow> ticks s \<le> expiry s t) \<and> (\<forall>t. timer_at s t = Some (pxOverflowTimerList s) \<longrightarrow> expiry s t \<le> ticks s)"

text \<open>A timer that expires in \<open>r\<close> ticks.\<close>

definition expires_in :: "nat \<Rightarrow> tsys \<Rightarrow> u32 \<Rightarrow> bool" where
  "expires_in r s t \<longleftrightarrow> r > 0 \<and> (timer_at s t = Some (pxCurrentTimerList s) \<and> unat (expiry s t) = unat (ticks s) + r
     \<or> timer_at s t = Some (pxOverflowTimerList s) \<and> unat (expiry s t) + 2 ^ 32 = unat (ticks s) + r)"

lemma timers_set: "timers_ok s \<Longrightarrow> t \<in> set (timers_in s L) \<longleftrightarrow> timer_at s t = Some L"
  by (simp add: timers_ok_def wf_lists_def)

lemma two_lists: "timers_ok s \<Longrightarrow> timer_at s t = Some L \<Longrightarrow> L = pxCurrentTimerList s \<or> L = pxOverflowTimerList s"
  by (cases L; cases "pxCurrentTimerList s"; cases "pxOverflowTimerList s") (auto simp: timers_ok_def)

lemma sorted_map_other: "t \<notin> set xs \<Longrightarrow> sorted (map (f(t := v)) xs) = sorted (map f xs)"
  by (metis (mono_tags, lifting) fun_upd_other map_cong)

lemma remove_timer:
  assumes "timers_ok s" and "timer_at s t = Some L"
  shows "\<exists>l. timer_do (Remove t) s = Some (with_lists l s) \<and> timers_ok (with_lists l s) \<and> where_is l = (where_is (timer_lists s))(t := None)
    \<and> value_of l = value_of (timer_lists s) \<and> (\<forall>L'. items (lists_of l L') = (if L' = L then remove1 t (timers_in s L) else timers_in s L'))"
proof -
  define l where "l = lists_call (Remove t) (timer_lists s)"
  have l: "where_is l = (where_is (timer_lists s))(t := None)" "value_of l = value_of (timer_lists s)"
    "\<forall>L'. items (lists_of l L') = (if L' = L then remove1 t (timers_in s L) else timers_in s L')" using assms(2) by (simp_all add: l_def kl_remove_def)
  have "wf_lists l" unfolding l_def using assms by (intro lists_call_wf) (auto simp: timers_ok_def)
  then have "timers_ok (with_lists l s)" using assms(1) l by (auto simp: timers_ok_def with_lists_def sorted_remove1 split: if_splits)
  moreover have "timer_do (Remove t) s = Some (with_lists l s)" using assms(2) by (simp add: timer_do_def with_lists_def l_def)
  ultimately show ?thesis using l by blast
qed

lemma inserted_fields [simp]:
  "timer_at (inserted L t v s) u = (if u = t then Some L else timer_at s u)" "expiry (inserted L t v s) u = (if u = t then v else expiry s u)" "timer (inserted L t v s) = timer s"
  "pxCurrentTimerList (inserted L t v s) = pxCurrentTimerList s" "pxOverflowTimerList (inserted L t v s) = pxOverflowTimerList s"
  "xLastTime (inserted L t v s) = xLastTime s" "xTimerQueue (inserted L t v s) = xTimerQueue s" "ticks (inserted L t v s) = ticks s" "called (inserted L t v s) = called s"
  by (simp_all add: inserted_def with_lists_def)

lemma inserted_ok:
  assumes "timers_ok s" and "timer_at s t = None" and "period s t \<noteq> 0"
  shows "timers_ok (inserted L t v s)"
    and "filter P (timers_in (inserted L t v s) L') = (if L' = L \<and> P t then filter P (timers_in (inserted L t v s) L') else filter P (timers_in s L'))"
proof -
  define l where "l = lists_call (SetValue t v) (timer_lists s)"
  have no: "t \<notin> set (timers_in s L')" for L' using timers_set [OF assms(1), of t L'] assms(2) by simp
  have l: "wf_lists l" "where_is l = where_is (timer_lists s)" "lists_of l = lists_of (timer_lists s)" "value_of l = (value_of (timer_lists s))(t := v)"
    using assms(1) by (simp_all add: l_def timers_ok_def wf_lists_def)
  have "wf_lists (lists_call (Insert L t) l)" by (rule lists_call_wf [OF l(1)]) (simp add: l(2) assms(2))
  moreover have srt: "sorted (map (value_of l) (timers_in s L'))" for L' using no [of L'] assms(1) by (simp add: l(4) sorted_map_other timers_ok_def)
  then have "sorted (map (value_of l) (items (kl_insert (value_of l) t (lists_of (timer_lists s) L))))" by (rule kl_insert_sorted)
  moreover have "timer_lists (inserted L t v s) = lists_call (Insert L t) l" by (simp add: inserted_def with_lists_def l_def)
  ultimately show "timers_ok (inserted L t v s)" using assms srt l by (auto simp: timers_ok_def fun_upd_def)
  show "filter P (timers_in (inserted L t v s) L') = (if L' = L \<and> P t then filter P (timers_in (inserted L t v s) L') else filter P (timers_in s L'))"
    by (simp add: inserted_def with_lists_def kl_insert_def) (metis filter_append takeWhile_dropWhile_id)
qed

text \<open>A timer that is entered to expire in less than an overflow.\<close>

lemma entered:
  assumes ok: "timers_ok s" "up_to_date s" and out: "timer_at s t = None" and p: "period s t \<noteq> 0" and X: "unat (ticks s) < X" "X < unat (ticks s) + 2 ^ 32"
  defines "s' \<equiv> inserted (if X div 2 ^ 32 = unat (ticks s) div 2 ^ 32 then pxCurrentTimerList s else pxOverflowTimerList s) t (of_nat X) s"
  shows "timers_ok s'" and "up_to_date s'" and "expires_in (X - unat (ticks s)) s' t"
    and "filter (\<lambda>u. expiry s' u = ticks s) (timers_in s' (pxCurrentTimerList s)) = filter (\<lambda>u. expiry s u = ticks s) (timers_in s (pxCurrentTimerList s))"
proof -
  define n where "n = unat (ticks s)"
  have n: "n < 2 ^ 32" using unat_bound by (simp add: n_def)
  have d: "n div 2 ^ 32 = 0" using n by simp
  have pp: "pxCurrentTimerList s \<noteq> pxOverflowTimerList s" using ok(1) by (simp add: timers_ok_def)
  show "timers_ok s'" unfolding s'_def by (rule inserted_ok [OF ok(1) out p])
  show e: "expires_in (X - unat (ticks s)) s' t"
  proof (cases "X < 2 ^ 32")
    case True
    then have "unat (of_nat X :: u32) = X" unfolding unat_of_nat_u32 by (rule mod_less)
    moreover have "X div 2 ^ 32 = 0" by (rule div_less [OF True])
    ultimately show ?thesis using X pp d by (simp add: expires_in_def s'_def n_def)
  next
    case False
    then have m: "X mod 2 ^ 32 = X - 2 ^ 32" "X div 2 ^ 32 \<noteq> 0" using X n unfolding n_def [symmetric] by (simp_all add: mod_if)
    have "unat (of_nat X :: u32) = X - 2 ^ 32" unfolding unat_of_nat_u32 by (rule m(1))
    then show ?thesis using X pp d m(2) False by (simp add: expires_in_def s'_def n_def)
  qed
  have v: "expiry s' t \<noteq> ticks s"
  proof
    assume "expiry s' t = ticks s"
    then show False using e X by (auto simp: expires_in_def s'_def)
  qed
  show "up_to_date s'"
  proof -
    have "timer_at s' t = Some (pxCurrentTimerList s) \<Longrightarrow> ticks s \<le> expiry s' t" "timer_at s' t = Some (pxOverflowTimerList s) \<Longrightarrow> expiry s' t \<le> ticks s"
      using e X pp by (auto simp: expires_in_def s'_def word_le_nat_alt)
    then show ?thesis using ok(2) by (auto simp: up_to_date_def s'_def)
  qed
  have c: "filter (\<lambda>u. expiry s' u = ticks s) (timers_in s L) = filter (\<lambda>u. expiry s u = ticks s) (timers_in s L)" for L
    using timers_set [OF ok(1), of t L] out by (intro filter_cong) (auto simp: s'_def)
  show "filter (\<lambda>u. expiry s' u = ticks s) (timers_in s' (pxCurrentTimerList s)) = filter (\<lambda>u. expiry s u = ticks s) (timers_in s (pxCurrentTimerList s))"
    using inserted_ok(2) [OF ok(1) out p, of "\<lambda>u. expiry s' u = ticks s"] v unfolding c [symmetric] s'_def by metis
qed

section \<open>Turns of the task\<close>

text \<open>Callback functions that leave the timers alone.\<close>

definition harmless :: "callbacks \<Rightarrow> bool" where "harmless cb \<longleftrightarrow> (\<forall>f t s. cb f t s = s)"

lemma harmless_call: "harmless cb \<Longrightarrow> call_back cb t s = s\<lparr>called := t # called s\<rparr>"
  by (simp add: harmless_def call_back_def)

lemma ignored [simp]:
  "timers_ok (s\<lparr>called := c\<rparr>) = timers_ok s" "timers_ok (s\<lparr>xLastTime := v\<rparr>) = timers_ok s" "timers_ok (s\<lparr>xTimerQueue := q\<rparr>) = timers_ok s" "timers_ok (s\<lparr>ticks := w\<rparr>) = timers_ok s"
  "up_to_date (s\<lparr>called := c\<rparr>) = up_to_date s" "up_to_date (s\<lparr>xLastTime := v\<rparr>) = up_to_date s" "up_to_date (s\<lparr>xTimerQueue := q\<rparr>) = up_to_date s"
  "expires_in r (s\<lparr>called := c\<rparr>) t = expires_in r s t" "expires_in r (s\<lparr>xLastTime := v\<rparr>) t = expires_in r s t" "expires_in r (s\<lparr>xTimerQueue := q\<rparr>) t = expires_in r s t"
  by (simp_all add: timers_ok_def up_to_date_def expires_in_def)

text \<open>The timers that expire now, in the order of the list.\<close>

definition due_timers :: "tsys \<Rightarrow> u32 list" where "due_timers s = filter (\<lambda>t. expiry s t = ticks s) (timers_in s (pxCurrentTimerList s))"

text \<open>What stays of the timers other than some.\<close>

definition others_stay :: "u32 set \<Rightarrow> tsys \<Rightarrow> tsys \<Rightarrow> bool" where
  "others_stay D s s' \<longleftrightarrow> timer s' = timer s \<and> pxCurrentTimerList s' = pxCurrentTimerList s \<and> pxOverflowTimerList s' = pxOverflowTimerList s \<and> ticks s' = ticks s
    \<and> (\<forall>t. t \<notin> D \<longrightarrow> timer_at s' t = timer_at s t \<and> expiry s' t = expiry s t)"

definition restarted :: "tsys \<Rightarrow> tsys \<Rightarrow> u32 \<Rightarrow> bool" where
  "restarted s s' t \<longleftrightarrow> (if uxAutoReload (timer s t) then expires_in (unat (period s t)) s' t else timer_at s' t = None)"

lemma sorted_head_due:
  assumes "timers_ok s" and "up_to_date s" and "due_timers s = t # ds"
  shows "\<exists>ts. timers_in s (pxCurrentTimerList s) = t # ts \<and> expiry s t = ticks s"
proof -
  obtain x xs where x: "timers_in s (pxCurrentTimerList s) = x # xs" using assms(3) by (cases "timers_in s (pxCurrentTimerList s)") (auto simp: due_timers_def)
  have tt: "t \<in> set (x # xs)" "expiry s t = ticks s" using assms(3) x by (auto simp: due_timers_def filter_eq_Cons_iff split: if_splits)
  have "sorted (map (expiry s) (x # xs))" using assms(1) unfolding timers_ok_def x [symmetric] by simp
  then have "expiry s x \<le> ticks s" using tt by auto
  moreover have "timer_at s x = Some (pxCurrentTimerList s)" using timers_set [OF assms(1), of x "pxCurrentTimerList s"] x by simp
  then have "ticks s \<le> expiry s x" using assms(2) by (simp add: up_to_date_def)
  ultimately have "expiry s x = ticks s" by simp
  then show ?thesis using assms(3) x by (simp add: due_timers_def)
qed

lemma expired_processed:
  assumes ok: "timers_ok s" "up_to_date s" and cb: "harmless cb" and d: "due_timers s = t # ds"
  shows "\<exists>s'. prvProcessExpiredTimer cb (expiry s t) (ticks s) s = Some s' \<and> timers_ok s' \<and> up_to_date s' \<and> due_timers s' = ds \<and> called s' = t # called s
    \<and> others_stay {t} s s' \<and> restarted s s' t \<and> xLastTime s' = xLastTime s \<and> xTimerQueue s' = xTimerQueue s"
proof -
  obtain ts where ts: "timers_in s (pxCurrentTimerList s) = t # ts" "expiry s t = ticks s" using sorted_head_due [OF ok d] by blast
  have tc: "timer_at s t = Some (pxCurrentTimerList s)" using timers_set [OF ok(1), of t "pxCurrentTimerList s"] ts by simp
  have p: "period s t \<noteq> 0" using ok(1) tc by (simp add: timers_ok_def)
  from remove_timer [OF ok(1) tc] obtain l where l: "timer_do (Remove t) s = Some (with_lists l s)" "timers_ok (with_lists l s)" "where_is l = (where_is (timer_lists s))(t := None)"
    "value_of l = value_of (timer_lists s)" "items (lists_of l (pxCurrentTimerList s)) = ts" using ts(1) by auto
  define s1 where "s1 = with_lists l s"
  have f: "timer s1 = timer s" "ticks s1 = ticks s" "pxCurrentTimerList s1 = pxCurrentTimerList s" "pxOverflowTimerList s1 = pxOverflowTimerList s" "called s1 = called s"
    "xLastTime s1 = xLastTime s" "xTimerQueue s1 = xTimerQueue s" "timer_lists s1 = l" by (simp_all add: s1_def with_lists_def)
  have u1: "up_to_date s1" using ok(2) by (auto simp: up_to_date_def f l(3,4) split: if_splits)
  have d1: "filter (\<lambda>u. expiry s1 u = ticks s1) (timers_in s1 (pxCurrentTimerList s1)) = ds" using d ts by (simp add: due_timers_def f l(4,5))
  have out: "timer_at s1 t = None" by (simp add: f l(3))
  show ?thesis
  proof (cases "uxAutoReload (timer s t)")
    case False
    then have "prvProcessExpiredTimer cb (expiry s t) (ticks s) s = Some (call_back cb t s1)"
      unfolding prvProcessExpiredTimer_def ts(1) list.case bind.bind_lunit l(1) s1_def [symmetric] by (simp add: f)
    moreover have "others_stay {t} s s1" by (simp add: others_stay_def f l(3,4))
    ultimately show ?thesis using False l(2) u1 d1 out unfolding harmless_call [OF cb]
      by (intro exI [of _ "s1\<lparr>called := t # called s1\<rparr>"]) (simp add: s1_def [symmetric] f due_timers_def restarted_def others_stay_def l(3,4))
  next
    case True
    define n where "n = unat (ticks s)"
    define X where "X = n + unat (period s1 t)"
    have X: "n < X" "X < n + 2 ^ 32" using p unat_bound [of "period s1 t"] by (simp_all add: X_def f unat_gt_0)
    define s2 where "s2 = inserted (if X div 2 ^ 32 = unat (ticks s1) div 2 ^ 32 then pxCurrentTimerList s1 else pxOverflowTimerList s1) t (of_nat X) s1"
    have v: "of_nat n = ticks s" by (simp add: n_def)
    have "prvInsertTimerInActiveList t (ticks s + period s1 t) (ticks s) (ticks s) s1 = Some (s2, False)"
      using insert_timer_exact [OF order_refl _ out X_def, unfolded v] X(1) by (simp add: s2_def f(2) n_def [symmetric])
    then have "prvProcessExpiredTimer cb (expiry s t) (ticks s) s = Some (call_back cb t s2)"
      using True unfolding prvProcessExpiredTimer_def ts(1) list.case bind.bind_lunit l(1) s1_def [symmetric] by (simp add: f ts(2))
    moreover note en = entered [OF l(2) [folded s1_def] u1 out, of X, folded s2_def]
    have "period s1 t \<noteq> 0" using p by (simp add: f)
    then have "timers_ok s2" "up_to_date s2" "expires_in (X - n) s2 t"
      "filter (\<lambda>u. expiry s2 u = ticks s1) (timers_in s2 (pxCurrentTimerList s1)) = ds" using en X d1 by (simp_all add: f(2) n_def [symmetric])
    moreover have "pxCurrentTimerList s2 = pxCurrentTimerList s1" "ticks s2 = ticks s1" "X - n = unat (period s t)" by (simp_all add: s2_def X_def f)
    moreover have "others_stay {t} s s2" "called s2 = called s" "xLastTime s2 = xLastTime s" "xTimerQueue s2 = xTimerQueue s"
      by (simp_all add: s2_def others_stay_def f l(3,4))
    ultimately show ?thesis using True unfolding harmless_call [OF cb]
      by (intro exI [of _ "s2\<lparr>called := t # called s2\<rparr>"]) (simp add: due_timers_def restarted_def others_stay_def f)
  qed
qed

text \<open>The timer task running, and waiting for \<open>n\<close> ticks or for ever. The last time sampled is not 0 if the wait takes it to the overflow.\<close>

definition awake :: "tsys \<Rightarrow> bool" where
  "awake s \<longleftrightarrow> timers_ok s \<and> up_to_date s \<and> xTimerQueue s = Some [] \<and> xLastTime s \<le> ticks s"

definition asleep :: "tsys \<Rightarrow> u32 \<Rightarrow> bool \<Rightarrow> bool" where
  "asleep s n forever \<longleftrightarrow> timers_ok s \<and> xTimerQueue s = Some [] \<and>
    (if forever then \<forall>t. timer_at s t = None
     else awake s \<and> due_timers s = [] \<and> (n = 0 \<longrightarrow> ticks s = 0) \<and> unat (ticks s) + unat n < 2 ^ 32 + (if xLastTime s = 0 then 0 else 1)
       \<and> (\<forall>t. timer_at s t = Some (pxCurrentTimerList s) \<longrightarrow> unat (ticks s) + unat n \<le> unat (expiry s t)))"

lemma no_commands: "xTimerQueue s = Some [] \<Longrightarrow> prvProcessReceivedCommands cb s = Some s"
  by (simp add: prvProcessReceivedCommands.simps [of cb s])

lemma sampled: "xLastTime s \<le> ticks s \<Longrightarrow> prvSampleTimeNow cb s = Some (s\<lparr>xLastTime := ticks s\<rparr>, ticks s, False)"
  by (simp add: prvSampleTimeNow_def Let_def not_less [symmetric])

lemma others_stay_fields: "others_stay D (s\<lparr>xLastTime := v\<rparr>) s' = others_stay D s s'" "restarted (s\<lparr>xLastTime := v\<rparr>) s' t = restarted s s' t" "due_timers (s\<lparr>xLastTime := v\<rparr>) = due_timers s"
  by (simp_all add: others_stay_def restarted_def due_timers_def)

lemma turn_expires:
  assumes a: "awake s" and cb: "harmless cb" and d: "due_timers s = t # ds"
  shows "\<exists>s'. timer_turn cb s = Some (s', None) \<and> awake s' \<and> due_timers s' = ds \<and> called s' = t # called s \<and> others_stay {t} s s' \<and> restarted s s' t"
proof -
  have ok: "timers_ok s" "up_to_date s" "xTimerQueue s = Some []" "xLastTime s \<le> ticks s" using a by (simp_all add: awake_def)
  obtain ts where ts: "timers_in s (pxCurrentTimerList s) = t # ts" "expiry s t = ticks s" using sorted_head_due [OF ok(1,2) d] by blast
  define s0 where "s0 = s\<lparr>xLastTime := ticks s\<rparr>"
  have "timers_ok s0" "up_to_date s0" "due_timers s0 = t # ds" using ok d by (simp_all add: s0_def others_stay_fields)
  from expired_processed [OF this(1,2) cb this(3)] obtain s' where s': "prvProcessExpiredTimer cb (expiry s t) (ticks s) s0 = Some s'" "timers_ok s'" "up_to_date s'" "due_timers s' = ds"
    "called s' = t # called s" "others_stay {t} s s'" "restarted s s' t" "xLastTime s' = ticks s" "xTimerQueue s' = Some []"
    by (auto simp: s0_def others_stay_fields ok(3))
  have "prvProcessTimerOrBlockTask cb (expiry s t) False s = Some (s', None)"
    unfolding prvProcessTimerOrBlockTask_def sampled [OF ok(4)] s0_def [symmetric] by (simp add: ts s'(1) [unfolded ts(2)])
  then have "timer_turn cb s = Some (s', None)" by (simp add: timer_turn_def prvGetNextExpireTime_def ts(1))
  moreover have "ticks s' = ticks s" using s'(6) by (simp add: others_stay_def)
  ultimately show ?thesis using s' by (simp add: awake_def)
qed

lemma not_due_later:
  assumes "timers_ok s" and "up_to_date s" and "due_timers s = []" and "t \<in> set (timers_in s (pxCurrentTimerList s))"
  shows "ticks s < expiry s t"
  using assms timers_set [OF assms(1), of t "pxCurrentTimerList s"] by (auto simp: up_to_date_def due_timers_def filter_empty_conv order_less_le)

lemma unat_until: "a < b \<Longrightarrow> unat a + unat (b - a) = unat b" for a b :: u32
  by (simp add: unat_sub word_less_nat_alt word_le_nat_alt)

lemma unat_until_overflow: "a \<noteq> 0 \<Longrightarrow> unat a + unat (0 - a) = 2 ^ 32" for a :: u32
  using unat_bound [of a] unat_sub_if' [of 0 a] by (simp add: unat_gt_0)

lemma turn_blocks:
  assumes a: "awake s" and d: "due_timers s = []"
  shows "\<exists>n forever. timer_turn cb s = Some (s\<lparr>xLastTime := ticks s\<rparr>, Some (n, forever)) \<and> asleep (s\<lparr>xLastTime := ticks s\<rparr>) n forever"
proof -
  have ok: "timers_ok s" "up_to_date s" "xTimerQueue s = Some []" "xLastTime s \<le> ticks s" using a by (simp_all add: awake_def)
  have aw: "awake (s\<lparr>xLastTime := ticks s\<rparr>)" using ok by (simp add: awake_def)
  show ?thesis
  proof (cases "timers_in s (pxCurrentTimerList s)")
    case Nil
    have t: "timer_turn cb s = Some (s\<lparr>xLastTime := ticks s\<rparr>, Some (0 - ticks s, timers_in s (pxOverflowTimerList s) = []))"
      by (simp add: timer_turn_def prvGetNextExpireTime_def prvProcessTimerOrBlockTask_def sampled [OF ok(4)] Nil)
    have c: "timer_at s t \<noteq> Some (pxCurrentTimerList s)" for t using timers_set [OF ok(1), of t "pxCurrentTimerList s"] Nil by simp
    have o: "timers_in s (pxOverflowTimerList s) = [] \<Longrightarrow> timer_at s t = None" for t
      using c [of t] two_lists [OF ok(1), of t] timers_set [OF ok(1), of t "pxOverflowTimerList s"] by (cases "timer_at s t") auto
    have "unat (ticks s) + unat (0 - ticks s) < 2 ^ 32 + (if ticks s = 0 then 0 else 1)" using unat_until_overflow [of "ticks s"] by auto
    then show ?thesis using t c o ok d aw by (auto simp: asleep_def others_stay_fields)
  next
    case (Cons x xs)
    have x: "ticks s < expiry s x" using not_due_later [OF ok(1,2) d, of x] Cons by simp
    then have nx: "(expiry s x \<le> ticks s) = False" by simp
    have t: "timer_turn cb s = Some (s\<lparr>xLastTime := ticks s\<rparr>, Some (expiry s x - ticks s, False))"
      using nx by (simp add: timer_turn_def prvGetNextExpireTime_def prvProcessTimerOrBlockTask_def sampled [OF ok(4)] Cons)
    have "sorted (map (expiry s) (x # xs))" using ok(1) unfolding timers_ok_def Cons [symmetric] by simp
    then have "expiry s x \<le> expiry s u" if "timer_at s u = Some (pxCurrentTimerList s)" for u using timers_set [OF ok(1), of u "pxCurrentTimerList s"] that Cons by auto
    moreover have "expiry s x - ticks s \<noteq> 0" using x by auto
    ultimately have "asleep (s\<lparr>xLastTime := ticks s\<rparr>) (expiry s x - ticks s) False"
      using x ok d aw unat_bound [of "expiry s x"] by (simp add: asleep_def others_stay_fields unat_until word_le_nat_alt)
    then show ?thesis using t by blast
  qed
qed

lemma others_stay_expires: "others_stay D s s' \<Longrightarrow> t \<notin> D \<Longrightarrow> expires_in r s' t = expires_in r s t"
  by (simp add: others_stay_def expires_in_def)

lemma others_stay_trans: "others_stay D s s' \<Longrightarrow> others_stay E s' s'' \<Longrightarrow> others_stay (D \<union> E) s s''"
  by (simp add: others_stay_def)

lemma due_distinct: "timers_ok s \<Longrightarrow> distinct (due_timers s)"
  by (simp add: due_timers_def timers_ok_def wf_lists_def)

lemma runs_expire:
  assumes "awake s" and cb: "harmless cb"
  shows "\<exists>s' n forever. timer_runs cb s = Some (s', n, forever) \<and> asleep s' n forever \<and> called s' = rev (due_timers s) @ called s \<and> others_stay (set (due_timers s)) s s'
    \<and> (\<forall>t\<in>set (due_timers s). restarted s s' t)"
  using assms(1)
proof (induction "due_timers s" arbitrary: s)
  case Nil
  obtain n forever where "timer_turn cb s = Some (s\<lparr>xLastTime := ticks s\<rparr>, Some (n, forever))" "asleep (s\<lparr>xLastTime := ticks s\<rparr>) n forever" using turn_blocks [OF Nil(2) Nil(1) [symmetric]] by blast
  then show ?case using Nil(1) by (simp add: timer_runs.simps [of cb s] Nil(1) [symmetric] others_stay_def)
next
  case (Cons t ds)
  from turn_expires [OF Cons(3) cb Cons(2) [symmetric]] obtain s1 where s1: "timer_turn cb s = Some (s1, None)" "awake s1" "due_timers s1 = ds" "called s1 = t # called s"
    "others_stay {t} s s1" "restarted s s1 t" by blast
  from Cons(1) [OF s1(3) [symmetric] s1(2)] obtain s' n forever where s': "timer_runs cb s1 = Some (s', n, forever)" "asleep s' n forever" "called s' = rev ds @ called s1" "others_stay (set ds) s1 s'"
    "\<forall>u\<in>set ds. restarted s1 s' u" unfolding s1(3) by blast
  have nt: "t \<notin> set ds" using due_distinct [of s] Cons(3) by (simp add: awake_def Cons(2) [symmetric])
  have "timer_runs cb s = Some (s', n, forever)" using s1(1,2) s'(1) by (simp add: timer_runs.simps [of cb s] awake_def no_commands)
  moreover have "restarted s s' t" using s1(6) others_stay_expires [OF s'(4) nt] s'(4) nt by (simp add: restarted_def others_stay_def)
  moreover have "\<forall>u\<in>set ds. restarted s s' u" using s'(5) unfolding restarted_def s1(5) [unfolded others_stay_def, THEN conjunct1] .
  moreover have "others_stay (set (due_timers s)) s s'" using others_stay_trans [OF s1(5) s'(4)] by (simp add: Cons(2) [symmetric])
  ultimately show ?case using s'(2,3) s1(4) by (simp add: Cons(2) [symmetric])
qed

section \<open>Ticks\<close>

lemma turn_switches:
  assumes "ticks s < xLastTime s" and "timers_in s (pxCurrentTimerList s) = []" and "xTimerQueue s = Some []"
  shows "timer_runs cb s = timer_runs cb (s\<lparr>pxCurrentTimerList := pxOverflowTimerList s, pxOverflowTimerList := pxCurrentTimerList s, xLastTime := ticks s\<rparr>)"
proof -
  have "timer_turn cb s = Some (s\<lparr>pxCurrentTimerList := pxOverflowTimerList s, pxOverflowTimerList := pxCurrentTimerList s, xLastTime := ticks s\<rparr>, None)"
    using assms by (simp add: timer_turn_def prvGetNextExpireTime_def prvProcessTimerOrBlockTask_def prvSampleTimeNow_def Let_def prvSwitchTimerLists_def switch_loop.simps [of cb s])
  then show ?thesis using assms(3) by (simp add: timer_runs.simps [of cb s] no_commands)
qed

lemma in_due: "timers_ok s \<Longrightarrow> t \<in> set (due_timers s) \<longleftrightarrow> timer_at s t = Some (pxCurrentTimerList s) \<and> unat (expiry s t) = unat (ticks s)"
  by (auto simp: due_timers_def timers_set word_unat_eq_iff)

lemma not_due: "timers_ok s \<Longrightarrow> expires_in r s t \<Longrightarrow> t \<notin> set (due_timers s)"
  by (auto simp: in_due expires_in_def timers_ok_def)

lemma unat_suc: "w + 1 \<noteq> 0 \<Longrightarrow> unat (w + 1) = Suc (unat w)" for w :: u32
  by (simp add: unatSuc add.commute)

lemma unat_last: "w + 1 = 0 \<Longrightarrow> unat w = 2 ^ 32 - 1" for w :: u32
  using unat_until_overflow [of w] by (cases "w = 0") (auto simp: minus_equation_iff [of w] eq_neg_iff_add_eq_0 [symmetric])

text \<open>A tick that the task sleeps through.\<close>

lemma tick_asleep:
  assumes a: "asleep s n False" and n: "1 < n"
  defines "s' \<equiv> s\<lparr>ticks := ticks s + 1\<rparr>"
  shows "asleep s' (n - 1) False" and "expires_in (Suc r) s t \<Longrightarrow> r \<noteq> 0 \<and> expires_in r s' t"
proof -
  have ok: "timers_ok s" "up_to_date s" "xTimerQueue s = Some []" "xLastTime s \<le> ticks s" "due_timers s = []" "unat (ticks s) + unat n < 2 ^ 32 + (if xLastTime s = 0 then 0 else 1)"
    and cur: "\<And>t. timer_at s t = Some (pxCurrentTimerList s) \<Longrightarrow> unat (ticks s) + unat n \<le> unat (expiry s t)" using a by (simp_all add: asleep_def awake_def)
  have "n \<noteq> 0" using n by auto
  then have n1: "unat n > 1" "unat (n - 1) = unat n - 1" "n - 1 \<noteq> 0" using n unat_minus_one [of n] by (auto simp: word_less_nat_alt)
  have "ticks s + 1 \<noteq> 0" using unat_last [of "ticks s"] ok(6) n1(1) by (auto split: if_splits)
  note u = unat_suc [OF this]
  have ov: "unat (expiry s t) \<le> unat (ticks s)" if "timer_at s t = Some (pxOverflowTimerList s)" for t using ok(2) that by (simp add: up_to_date_def word_le_nat_alt)
  have c: "unat (ticks s') < unat (expiry s' t)" "unat (ticks s') + unat (n - 1) \<le> unat (expiry s' t)" if "timer_at s' t = Some (pxCurrentTimerList s')" for t
    using cur [of t] that n1(1,2) by (simp_all add: s'_def u)
  have o: "unat (expiry s' t) < unat (ticks s')" if "timer_at s' t = Some (pxOverflowTimerList s')" for t using ov [of t] that by (simp add: s'_def u)
  have k: "timers_ok s'" "xTimerQueue s' = Some []" "xLastTime s' \<le> ticks s'" "unat (ticks s') + unat (n - 1) = unat (ticks s) + unat n" "xLastTime s' = xLastTime s"
    using ok(1,3,4) n1(1,2) by (simp_all add: s'_def u word_le_nat_alt)
  have "up_to_date s'" using c(1) o by (simp add: up_to_date_def word_le_nat_alt less_imp_le)
  moreover have "t \<notin> set (due_timers s')" for t using in_due [OF k(1), of t] c(1) [of t] by auto
  then have "due_timers s' = []" by (cases "due_timers s'") auto
  ultimately show "asleep s' (n - 1) False" using k n1(3) ok(6) c(2) by (simp add: asleep_def awake_def)
  assume e: "expires_in (Suc r) s t"
  have "unat (ticks s) + unat n \<le> 2 ^ 32" using ok(6) by (simp split: if_splits)
  then show "r \<noteq> 0 \<and> expires_in r s' t" using e cur [of t] n1(1) by (auto simp: expires_in_def s'_def u)
qed

text \<open>A tick that ends its sleep, possibly with the lists switched: what expires then is due.\<close>

lemma awake_after_tick:
  assumes "asleep s n False" and n: "\<not> 1 < n"
  shows "\<exists>s'. timer_runs cb (s\<lparr>ticks := ticks s + 1\<rparr>) = timer_runs cb s' \<and> awake s' \<and> called s' = called s \<and> timer s' = timer s \<and> ticks s' = ticks s + 1
    \<and> (\<forall>t. timer_at s' t = timer_at s t) \<and> (\<forall>t r. expires_in (Suc r) s t \<longrightarrow> (if r = 0 then t \<in> set (due_timers s') else expires_in r s' t \<and> t \<notin> set (due_timers s')))"
proof -
  have ok: "timers_ok s" "up_to_date s" "xTimerQueue s = Some []" "xLastTime s \<le> ticks s" "due_timers s = []" "unat (ticks s) + unat n < 2 ^ 32 + (if xLastTime s = 0 then 0 else 1)" "n = 0 \<Longrightarrow> ticks s = 0"
    using assms by (simp_all add: asleep_def awake_def)
  have cur: "ticks s < expiry s t" if "timer_at s t = Some (pxCurrentTimerList s)" for t
    using not_due_later [OF ok(1,2,5), of t] timers_set [OF ok(1), of t "pxCurrentTimerList s"] that by simp
  have ov: "expiry s t \<le> ticks s" if "timer_at s t = Some (pxOverflowTimerList s)" for t using ok(2) that by (simp add: up_to_date_def)
  have pp: "pxCurrentTimerList s \<noteq> pxOverflowTimerList s" using ok(1) by (simp add: timers_ok_def)
  show ?thesis
  proof (cases "ticks s + 1 = 0")
    case False
    note u = unat_suc [OF False]
    define s' where "s' = s\<lparr>ticks := ticks s + 1\<rparr>"
    have "up_to_date s'" using cur ov by (auto simp: up_to_date_def s'_def word_le_nat_alt word_less_nat_alt u le_SucI Suc_leI)
    then have "awake s'" using ok by (simp add: awake_def s'_def word_le_nat_alt u)
    moreover have "if r = 0 then t \<in> set (due_timers s') else expires_in r s' t \<and> t \<notin> set (due_timers s')" if e: "expires_in (Suc r) s t" for t r
    proof (cases "r = 0")
      case True
      then have "timer_at s t = Some (pxCurrentTimerList s) \<and> unat (expiry s t) = unat (ticks s) + 1"
        using e u unat_bound [of "ticks s + 1"] by (auto simp: expires_in_def)
      moreover have "timers_ok s'" using ok(1) by (simp add: s'_def)
      from in_due [OF this, of t] calculation have "t \<in> set (due_timers s')" by (simp add: s'_def u)
      then show ?thesis using True by simp
    next
      case False
      then have "expires_in r s' t" using e by (auto simp: expires_in_def s'_def u)
      moreover have "timers_ok s'" using ok(1) by (simp add: s'_def)
      ultimately show ?thesis using False not_due by auto
    qed
    moreover have "called s' = called s" "timer s' = timer s" "ticks s' = ticks s + 1" "\<forall>t. timer_at s' t = timer_at s t" by (simp_all add: s'_def)
    ultimately show ?thesis unfolding s'_def [symmetric] by blast
  next
    case True
    define s' where "s' = s\<lparr>ticks := 0, pxCurrentTimerList := pxOverflowTimerList s, pxOverflowTimerList := pxCurrentTimerList s, xLastTime := 0\<rparr>"
    note m = unat_last [OF True]
    have "n \<noteq> 0" using ok(7) m by auto
    then have "0 < unat n" by (simp add: unat_gt_0)
    then have lt: "0 < xLastTime s" using ok(6) m by (auto simp: word_gt_0 split: if_splits)
    have e: "timer_at s t \<noteq> Some (pxCurrentTimerList s)" for t using cur [of t] m unat_bound [of "expiry s t"] by (auto simp: word_less_nat_alt)
    then have "timers_in s (pxCurrentTimerList s) = []" using timers_set [OF ok(1), of _ "pxCurrentTimerList s"] by (metis list.set_intros(1) list.exhaust)
    then have "timer_runs cb (s\<lparr>ticks := ticks s + 1\<rparr>) = timer_runs cb s'" using turn_switches [of "s\<lparr>ticks := ticks s + 1\<rparr>" cb] ok(3) lt by (simp add: s'_def True)
    moreover have "timers_ok s'" "up_to_date s'" using ok(1) e by (auto simp: timers_ok_def up_to_date_def s'_def)
    then have "awake s'" using ok(3) by (simp add: awake_def s'_def)
    moreover have "if r = 0 then t \<in> set (due_timers s') else expires_in r s' t \<and> t \<notin> set (due_timers s')" if "expires_in (Suc r) s t" for t r
    proof (cases "r = 0")
      case True
      then have "timer_at s t = Some (pxOverflowTimerList s)" "unat (expiry s t) + 2 ^ 32 = unat (ticks s) + 1" using that e [of t] by (auto simp: expires_in_def)
      then have "t \<in> set (due_timers s')" using in_due [OF \<open>timers_ok s'\<close>, of t] m by (simp add: s'_def)
      then show ?thesis using True by simp
    next
      case False
      then have "expires_in r s' t" using that e [of t] m by (auto simp: expires_in_def s'_def)
      then show ?thesis using False not_due [OF \<open>timers_ok s'\<close>] by auto
    qed
    moreover have "called s' = called s" "timer s' = timer s" "ticks s' = ticks s + 1" "\<forall>t. timer_at s' t = timer_at s t" by (simp_all add: s'_def True)
    ultimately show ?thesis by blast
  qed
qed

text \<open>How often a timer is called in \<open>m\<close> ticks, if it expires in \<open>r\<close> ticks and then with each period.\<close>

definition timer_calls :: "nat \<Rightarrow> nat \<Rightarrow> bool \<Rightarrow> nat \<Rightarrow> nat" where
  "timer_calls r p auto m = (if m < r then 0 else if auto then (m - r) div p + 1 else 1)"

lemma timer_calls_Suc: "r \<noteq> 0 \<Longrightarrow> timer_calls (Suc r) p auto (Suc m) = timer_calls r p auto m"
  by (simp add: timer_calls_def)

lemma timer_calls_again: "p \<noteq> 0 \<Longrightarrow> timer_calls (Suc 0) p True (Suc m) = Suc (timer_calls p p True m)"
  using le_div_geq [of p m] by (simp add: timer_calls_def)

lemma timer_calls_once: "timer_calls (Suc 0) p False (Suc m) = 1"
  by (simp add: timer_calls_def)

definition calls :: "tsys \<Rightarrow> u32 \<Rightarrow> nat" where "calls s t = count_list (called s) t"

lemma count_distinct: "distinct xs \<Longrightarrow> count_list xs x = (if x \<in> set xs then 1 else 0)"
  by (induction xs) auto

lemma calls_rev: "distinct ds \<Longrightarrow> called s' = rev ds @ called s \<Longrightarrow> calls s' t = calls s t + (if t \<in> set ds then 1 else 0)"
  by (simp add: calls_def count_distinct)

lemma timer_tick_effect:
  assumes a: "asleep s n f" and cb: "harmless cb"
  shows "\<exists>s' n' f'. timer_tick cb (s, n, f) = Some (s', n', f') \<and> asleep s' n' f' \<and> timer s' = timer s \<and> ticks s' = ticks s + 1
    \<and> (\<forall>t. timer_at s t = None \<longrightarrow> timer_at s' t = None \<and> calls s' t = calls s t)
    \<and> (\<forall>t r. expires_in (Suc r) s t \<longrightarrow> (if r = 0 then calls s' t = Suc (calls s t) \<and> restarted s s' t else calls s' t = calls s t \<and> expires_in r s' t))"
proof -
  define s1 where "s1 = s\<lparr>ticks := ticks s + 1\<rparr>"
  have same: "timer s1 = timer s" "ticks s1 = ticks s + 1" "timer_at s1 t = timer_at s t" "calls s1 t = calls s t" for t by (simp_all add: s1_def calls_def)
  consider "f" | "\<not> f" "1 < n" | "\<not> f" "\<not> 1 < n" by blast
  then show ?thesis
  proof cases
    case 1
    then have "asleep s1 n f" "\<not> expires_in r s t" for r t using a by (auto simp: asleep_def s1_def expires_in_def)
    then show ?thesis using 1 same by (intro exI [of _ s1] exI [of _ n] exI [of _ f]) (simp add: timer_tick_def s1_def)
  next
    case 2
    then have "asleep s1 (n - 1) f" "\<And>r t. expires_in (Suc r) s t \<Longrightarrow> r \<noteq> 0 \<and> expires_in r s1 t" using tick_asleep [of s n] a by (simp_all add: s1_def)
    then show ?thesis using 2 same by (intro exI [of _ s1] exI [of _ "n - 1"] exI [of _ f]) (auto simp: timer_tick_def s1_def)
  next
    case 3
    then have sl: "asleep s n False" using a by simp
    from awake_after_tick [OF sl 3(2), of cb] obtain s2 where s2: "timer_runs cb s1 = timer_runs cb s2" "awake s2" "called s2 = called s" "timer s2 = timer s" "ticks s2 = ticks s + 1"
      "\<And>t. timer_at s2 t = timer_at s t" "\<And>t r. expires_in (Suc r) s t \<Longrightarrow> if r = 0 then t \<in> set (due_timers s2) else expires_in r s2 t \<and> t \<notin> set (due_timers s2)"
      unfolding s1_def by blast
    from runs_expire [OF s2(2) cb] obtain s' n' f' where s': "timer_runs cb s2 = Some (s', n', f')" "asleep s' n' f'" "called s' = rev (due_timers s2) @ called s2" "others_stay (set (due_timers s2)) s2 s'"
      "\<And>t. t \<in> set (due_timers s2) \<Longrightarrow> restarted s2 s' t" by blast
    have w: "timers_ok s2" using s2(2) by (simp add: awake_def)
    have "xTimerQueue s1 = Some []" using sl by (simp add: asleep_def s1_def)
    then have "timer_tick cb (s, n, f) = Some (s', n', f')" using 3 s2(1) s'(1) by (simp add: timer_tick_def timer_woken_def no_commands s1_def)
    moreover have c: "calls s' t = calls s t + (if t \<in> set (due_timers s2) then 1 else 0)" for t
      using calls_rev [OF due_distinct [OF w] s'(3), of t] by (simp add: calls_def s2(3))
    moreover have "t \<notin> set (due_timers s2)" if "timer_at s t = None" for t using that in_due [OF w, of t] by (simp add: s2(6))
    moreover have "restarted s s' t" if "t \<in> set (due_timers s2)" for t using s'(5) [OF that] unfolding restarted_def s2(4) .
    moreover have "timer s' = timer s" "ticks s' = ticks s + 1" using s'(4) by (simp_all add: others_stay_def s2(4,5))
    moreover have "timer_at s' t = timer_at s t" if "t \<notin> set (due_timers s2)" for t using s'(4) that by (simp add: others_stay_def s2(6))
    moreover have "if r = 0 then t \<in> set (due_timers s2) else t \<notin> set (due_timers s2) \<and> expires_in r s' t" if "expires_in (Suc r) s t" for t r
      using s2(7) [OF that] others_stay_expires [OF s'(4), of t r] by (auto split: if_splits)
    ultimately show ?thesis using s'(2) by (intro exI [of _ s'] exI [of _ n'] exI [of _ f']) fastforce
  qed
qed

lemma timer_ticks_effect:
  assumes "asleep s n f" and cb: "harmless cb"
  shows "\<exists>s' n' f'. timer_ticks cb m (s, n, f) = Some (s', n', f') \<and> asleep s' n' f' \<and> timer s' = timer s \<and> ticks s' = ticks s + of_nat m
    \<and> (\<forall>t. timer_at s t = None \<longrightarrow> calls s' t = calls s t)
    \<and> (\<forall>t r. expires_in r s t \<longrightarrow> calls s' t = calls s t + timer_calls r (unat (period s t)) (uxAutoReload (timer s t)) m)"
  using assms(1)
proof (induction m arbitrary: s n f)
  case 0
  then show ?case by (auto simp: timer_calls_def expires_in_def)
next
  case (Suc m)
  from timer_tick_effect [OF Suc(2) cb] obtain s1 n1 f1 where s1: "timer_tick cb (s, n, f) = Some (s1, n1, f1)" "asleep s1 n1 f1" "timer s1 = timer s" "ticks s1 = ticks s + 1"
    "\<And>t. timer_at s t = None \<Longrightarrow> timer_at s1 t = None \<and> calls s1 t = calls s t"
    "\<And>t r. expires_in (Suc r) s t \<Longrightarrow> if r = 0 then calls s1 t = Suc (calls s t) \<and> restarted s s1 t else calls s1 t = calls s t \<and> expires_in r s1 t" by blast
  from Suc(1) [OF s1(2)] obtain s' n' f' where s': "timer_ticks cb m (s1, n1, f1) = Some (s', n', f')" "asleep s' n' f'" "timer s' = timer s1" "ticks s' = ticks s1 + of_nat m"
    "\<And>t. timer_at s1 t = None \<Longrightarrow> calls s' t = calls s1 t"
    "\<And>t r. expires_in r s1 t \<Longrightarrow> calls s' t = calls s1 t + timer_calls r (unat (period s1 t)) (uxAutoReload (timer s1 t)) m" by blast
  have "calls s' t = calls s t + timer_calls r (unat (period s t)) (uxAutoReload (timer s t)) (Suc m)" if e: "expires_in r s t" for t r
  proof -
    obtain r' where r: "r = Suc r'" using e by (cases r) (auto simp: expires_in_def)
    note f = s1(6) [OF e [unfolded r]]
    show ?thesis
    proof (cases "r' = 0")
      case False
      then show ?thesis using f s'(6) [of r' t] by (simp add: r timer_calls_Suc s1(3))
    next
      case True
      show ?thesis
      proof (cases "uxAutoReload (timer s t)")
        case auto: True
        then have x: "expires_in (unat (period s t)) s1 t" using f True by (simp add: restarted_def)
        then have "unat (period s t) \<noteq> 0" by (simp add: expires_in_def)
        then show ?thesis using f True auto s'(6) [OF x] by (simp add: r timer_calls_again s1(3))
      next
        case False
        then show ?thesis using f True s'(5) [of t] by (simp add: r timer_calls_once restarted_def)
      qed
    qed
  qed
  then show ?case using s1 s' by (simp add: algebra_simps)
qed

section \<open>Starting a timer\<close>

lemma asleep_any:
  assumes "asleep s n f"
  shows "timers_ok s" and "up_to_date s" and "due_timers s = []" and "xTimerQueue s = Some []" and "xLastTime s \<le> ticks s \<or> (\<forall>t. timer_at s t = None)"
proof -
  show ok: "timers_ok s" "xTimerQueue s = Some []" "xLastTime s \<le> ticks s \<or> (\<forall>t. timer_at s t = None)" using assms by (auto simp: asleep_def awake_def split: if_splits)
  have "(\<forall>t. timer_at s t = None) \<or> awake s \<and> due_timers s = []" using assms by (auto simp: asleep_def split: if_splits)
  moreover have "due_timers s = []" if "\<forall>t. timer_at s t = None" using that in_due [OF ok(1)] by (metis list.set_intros(1) neq_Nil_conv option.distinct(1))
  ultimately show "up_to_date s" "due_timers s = []" by (auto simp: awake_def up_to_date_def)
qed

text \<open>The timer taken out of its list, and the time sampled, possibly with the lists, empty, switched.\<close>

lemma taken_out:
  assumes "timers_ok s" and "up_to_date s" and "due_timers s = []"
  shows "\<exists>s1. (if timer_at s t \<noteq> None then timer_do (Remove t) s else Some s) = Some s1 \<and> timers_ok s1 \<and> up_to_date s1 \<and> due_timers s1 = [] \<and> timer_at s1 t = None
    \<and> others_stay {t} s s1 \<and> called s1 = called s \<and> xLastTime s1 = xLastTime s \<and> xTimerQueue s1 = xTimerQueue s"
proof (cases "timer_at s t")
  case None
  then show ?thesis using assms by (simp add: others_stay_def)
next
  case (Some L)
  from remove_timer [OF assms(1) Some] obtain l where l: "timer_do (Remove t) s = Some (with_lists l s)" "timers_ok (with_lists l s)" "where_is l = (where_is (timer_lists s))(t := None)"
    "value_of l = value_of (timer_lists s)" by blast
  define s1 where "s1 = with_lists l s"
  have f: "timer_lists s1 = l" "timer s1 = timer s" "ticks s1 = ticks s" "pxCurrentTimerList s1 = pxCurrentTimerList s" "pxOverflowTimerList s1 = pxOverflowTimerList s"
    "called s1 = called s" "xLastTime s1 = xLastTime s" "xTimerQueue s1 = xTimerQueue s" by (simp_all add: s1_def with_lists_def)
  have "up_to_date s1" using assms(2) by (auto simp: up_to_date_def f l(3,4) split: if_splits)
  moreover have "u \<notin> set (due_timers s1)" for u
    using in_due [OF assms(1), of u] in_due [OF l(2) [folded s1_def], of u] assms(3) by (auto simp: f l(3,4) split: if_splits)
  then have "due_timers s1 = []" by (cases "due_timers s1") auto
  ultimately show ?thesis using Some l(1,2) unfolding s1_def [symmetric] by (auto simp: others_stay_def f l(3,4))
qed

lemma sampled_start:
  assumes "timers_ok s" and "up_to_date s" and "due_timers s = []" and "xLastTime s \<le> ticks s \<or> (\<forall>t. timer_at s t = None)"
  shows "\<exists>s1 b. prvSampleTimeNow cb s = Some (s1, ticks s, b) \<and> timers_ok s1 \<and> up_to_date s1 \<and> due_timers s1 = [] \<and> xLastTime s1 = ticks s \<and> ticks s1 = ticks s
    \<and> timer_lists s1 = timer_lists s \<and> timer s1 = timer s \<and> called s1 = called s \<and> xTimerQueue s1 = xTimerQueue s \<and> (\<forall>r t. expires_in r s1 t = expires_in r s t)"
proof (cases "xLastTime s \<le> ticks s")
  case True
  then show ?thesis using assms by (simp add: sampled others_stay_fields) blast
next
  case False
  then have n: "timer_at s t = None" for t using assms(4) by simp
  have e: "timers_in s L = []" for L using timers_set [OF assms(1), of _ L] n by (metis list.set_intros(1) neq_Nil_conv option.distinct(1))
  define s1 where "s1 = s\<lparr>pxCurrentTimerList := pxOverflowTimerList s, pxOverflowTimerList := pxCurrentTimerList s, xLastTime := ticks s\<rparr>"
  have "prvSampleTimeNow cb s = Some (s1, ticks s, True)" using False by (simp add: prvSampleTimeNow_def Let_def not_le prvSwitchTimerLists_def switch_loop.simps [of cb s] e s1_def)
  moreover have "timers_ok s1" "up_to_date s1" "due_timers s1 = []" using assms(1) n e by (auto simp: timers_ok_def up_to_date_def due_timers_def s1_def)
  ultimately show ?thesis using n by (simp add: s1_def expires_in_def) blast
qed

lemma start_command:
  assumes a: "asleep s n f" and p: "period s t \<noteq> 0"
  shows "\<exists>s'. process_command cb \<lparr>xMessageID = tmrCOMMAND_START, xMessageValue = ticks s, pxTimer = t\<rparr> s = Some s' \<and> awake s' \<and> due_timers s' = []
    \<and> timer s' = timer s \<and> ticks s' = ticks s \<and> called s' = called s \<and> expires_in (unat (period s t)) s' t
    \<and> (\<forall>u. u \<noteq> t \<longrightarrow> timer_at s' u = timer_at s u \<and> (\<forall>r. expires_in r s u \<longrightarrow> expires_in r s' u))"
proof -
  note ok = asleep_any [OF a]
  from taken_out [OF ok(1-3), of t] obtain s1 where s1: "(if timer_at s t \<noteq> None then timer_do (Remove t) s else Some s) = Some s1" "timers_ok s1" "up_to_date s1" "due_timers s1 = []"
    "timer_at s1 t = None" "others_stay {t} s s1" "called s1 = called s" "xLastTime s1 = xLastTime s" "xTimerQueue s1 = xTimerQueue s" by blast
  have f1: "timer s1 = timer s" "ticks s1 = ticks s" "\<And>u. u \<noteq> t \<Longrightarrow> timer_at s1 u = timer_at s u" using s1(6) by (simp_all add: others_stay_def)
  have "xLastTime s1 \<le> ticks s1 \<or> (\<forall>t. timer_at s1 t = None)" using ok(5) f1(3) s1(5) unfolding f1(2) s1(8) by metis
  from sampled_start [OF s1(2-4) this, of cb] obtain s2 b where s2: "prvSampleTimeNow cb s1 = Some (s2, ticks s, b)" "timers_ok s2" "up_to_date s2" "due_timers s2 = []" "xLastTime s2 = ticks s"
    "ticks s2 = ticks s" "timer_lists s2 = timer_lists s1" "timer s2 = timer s" "called s2 = called s" "xTimerQueue s2 = Some []" "\<And>r u. expires_in r s2 u = expires_in r s1 u"
    by (auto simp: f1 s1(7,9) ok(4))
  define N where "N = unat (ticks s)"
  define X where "X = N + unat (period s2 t)"
  have N: "of_nat N = ticks s" by (simp add: N_def)
  have X: "N < X" "X < N + 2 ^ 32" using p unat_bound [of "period s t"] by (simp_all add: X_def s2(8) unat_gt_0)
  have out: "timer_at s2 t = None" "period s2 t \<noteq> 0" using s1(5) p by (simp_all add: s2(7,8))
  define s3 where "s3 = inserted (if X div 2 ^ 32 = unat (ticks s2) div 2 ^ 32 then pxCurrentTimerList s2 else pxOverflowTimerList s2) t (of_nat X) s2"
  have "prvInsertTimerInActiveList t (ticks s + period s2 t) (ticks s) (ticks s) s2 = Some (s3, False)"
    using insert_timer_exact [OF order_refl _ out(1) X_def] X(1) by (simp add: N s3_def s2(6) N_def [symmetric])
  then have "process_command cb \<lparr>xMessageID = tmrCOMMAND_START, xMessageValue = ticks s, pxTimer = t\<rparr> s = Some s3"
    unfolding process_command_def Let_def DaemonTaskMessage_t.simps s1(1) bind.bind_lunit s2(1) by simp
  moreover have "timers_ok s3" "up_to_date s3" "expires_in (X - N) s3 t" "due_timers s3 = []"
    using entered [OF s2(2,3) out, of X, folded s3_def] X s2(4) by (simp_all add: s2(6) N_def [symmetric] due_timers_def s3_def)
  moreover have "timer s3 = timer s" "ticks s3 = ticks s" "called s3 = called s" "xLastTime s3 = ticks s" "xTimerQueue s3 = Some []" "X - N = unat (period s t)"
    by (simp_all add: s3_def s2 X_def)
  moreover have "timer_at s3 u = timer_at s u" "expires_in r s u \<Longrightarrow> expires_in r s3 u" if "u \<noteq> t" for u r
  proof -
    show "timer_at s3 u = timer_at s u" using that by (simp add: s3_def s2(7) f1(3))
    have "expires_in r s3 u = expires_in r s2 u" using that by (simp add: s3_def expires_in_def)
    then show "expires_in r s u \<Longrightarrow> expires_in r s3 u" using s2(11) others_stay_expires [OF s1(6), of u r] that by simp
  qed
  ultimately show ?thesis by (intro exI [of _ s3]) (simp add: awake_def)
qed

text \<open>xTimerStart on a timer while the timer task waits.\<close>

definition start_timer :: "callbacks \<Rightarrow> u32 \<Rightarrow> tsys \<Rightarrow> (tsys \<times> u32 \<times> bool) option" where
  "start_timer cb t s = timer_woken cb (fst (xTimerGenericCommand t tmrCOMMAND_START (ticks s) s))"

lemma start_effect:
  assumes a: "asleep s n f" and cb: "harmless cb" and p: "period s t \<noteq> 0"
  shows "\<exists>s' n' f'. start_timer cb t s = Some (s', n', f') \<and> asleep s' n' f' \<and> timer s' = timer s \<and> ticks s' = ticks s \<and> called s' = called s
    \<and> expires_in (unat (period s t)) s' t \<and> (\<forall>u. u \<noteq> t \<longrightarrow> timer_at s' u = timer_at s u \<and> (\<forall>r. expires_in r s u \<longrightarrow> expires_in r s' u))"
proof -
  from start_command [OF a p, of cb] obtain s1 where s1: "process_command cb \<lparr>xMessageID = tmrCOMMAND_START, xMessageValue = ticks s, pxTimer = t\<rparr> s = Some s1" "awake s1" "due_timers s1 = []"
    "timer s1 = timer s" "ticks s1 = ticks s" "called s1 = called s" "expires_in (unat (period s t)) s1 t"
    "\<And>u. u \<noteq> t \<Longrightarrow> timer_at s1 u = timer_at s u \<and> (\<forall>r. expires_in r s u \<longrightarrow> expires_in r s1 u)" by blast
  have q: "xTimerQueue s = Some []" using asleep_any(4) [OF a] .
  then have e: "s\<lparr>xTimerQueue := Some []\<rparr> = s" by simp
  have "prvProcessReceivedCommands cb (fst (xTimerGenericCommand t tmrCOMMAND_START (ticks s) s)) = Some s1"
    using s1(1,2) by (simp add: xTimerGenericCommand_def q configTIMER_QUEUE_LENGTH_def prvProcessReceivedCommands.simps e no_commands awake_def)
  moreover from runs_expire [OF s1(2) cb] obtain s' n' f' where s': "timer_runs cb s1 = Some (s', n', f')" "asleep s' n' f'" "called s' = called s" "others_stay {} s1 s'"
    by (auto simp: s1(3,6))
  ultimately have "start_timer cb t s = Some (s', n', f')" by (simp add: start_timer_def timer_woken_def)
  then show ?thesis using s' s1 others_stay_expires [OF s'(4)] by (simp add: others_stay_def)
qed

text \<open>C36: Timers run when they should, as often as they should. While the timer task waits, xTimerStart on a timer with a period other than 0, active or not, wakes it,
  and it waits again; the timer, and any other active timer, is then called for the first time after exactly its period, or the ticks that were left to it,
  and, if it reloads itself, again after every period, otherwise no more; a timer that is not active is not called. This holds for any number of ticks and across
  any number of overflows of the tick count, and after it the task waits in a state of which the theorem holds again. The timer task is taken to run in the
  tick in which its wait ends, and the callback functions to leave the timers and their queue alone.\<close>

theorem timers_call_exactly:
  assumes "asleep s n f" and "harmless cb" and "period s t \<noteq> 0"
  shows "\<exists>w s' n' f'. start_timer cb t s = Some w \<and> timer_ticks cb m w = Some (s', n', f') \<and> asleep s' n' f' \<and> ticks s' = ticks s + of_nat m
    \<and> (\<forall>u r. (if u = t then r = unat (period s t) else expires_in r s u) \<longrightarrow>
         count_list (called s') u = count_list (called s) u + timer_calls r (unat (period s u)) (uxAutoReload (timer s u)) m)
    \<and> (\<forall>u. u \<noteq> t \<longrightarrow> timer_at s u = None \<longrightarrow> count_list (called s') u = count_list (called s) u)"
proof -
  from start_effect [OF assms] obtain s1 n1 f1 where s1: "start_timer cb t s = Some (s1, n1, f1)" "asleep s1 n1 f1" "timer s1 = timer s" "ticks s1 = ticks s" "called s1 = called s"
    "expires_in (unat (period s t)) s1 t" "\<And>u. u \<noteq> t \<Longrightarrow> timer_at s1 u = timer_at s u \<and> (\<forall>r. expires_in r s u \<longrightarrow> expires_in r s1 u)" by blast
  from timer_ticks_effect [OF s1(2) assms(2), of m] obtain s' n' f' where s': "timer_ticks cb m (s1, n1, f1) = Some (s', n', f')" "asleep s' n' f'" "ticks s' = ticks s1 + of_nat m"
    "\<And>t. timer_at s1 t = None \<Longrightarrow> calls s' t = calls s1 t"
    "\<And>t r. expires_in r s1 t \<Longrightarrow> calls s' t = calls s1 t + timer_calls r (unat (period s1 t)) (uxAutoReload (timer s1 t)) m" by blast
  have "calls s' u = calls s u + timer_calls r (unat (period s u)) (uxAutoReload (timer s u)) m" if "if u = t then r = unat (period s t) else expires_in r s u" for u r
    using s'(5) [of r u] s1(3,5,6) s1(7) [of u] that by (auto simp: calls_def split: if_splits)
  moreover have "calls s' u = calls s u" if "u \<noteq> t" "timer_at s u = None" for u using s'(4) [of u] s1(5,7) that by (simp add: calls_def)
  ultimately show ?thesis using s1(1,4) s' unfolding calls_def by (intro exI [of _ "(s1, n1, f1)"] exI [of _ s'] exI [of _ n'] exI [of _ f']) auto
qed

section \<open>Witness\<close>

definition fresh_timers :: tsys where
  "fresh_timers = \<lparr>timer_lists = \<lparr>lists_of = \<lambda>_. kl_empty, where_is = \<lambda>_. None, value_of = \<lambda>_. 0\<rparr>, timer = \<lambda>_. \<lparr>xTimerPeriodInTicks = 0, uxAutoReload = False, pvTimerID = 0, pxCallbackFunction = 0\<rparr>,
     pxCurrentTimerList = xActiveTimerList1, pxOverflowTimerList = xActiveTimerList1, xLastTime = 0, xTimerQueue = None, ticks = 0xFFFFFFFE, called = []\<rparr>"

definition two_timers :: tsys where
  "two_timers = fst (xTimerCreate (Some 200) True 2 False 0 7 (fst (xTimerCreate (Some 100) True 3 True 0 7 fresh_timers)))"

lemma two_timers_asleep: "asleep two_timers 0 True"
  by (auto simp: asleep_def two_timers_def xTimerCreate_def prvInitialiseNewTimer_def prvCheckForValidListAndQueue_def fresh_timers_def Let_def timers_ok_def wf_lists_def kl_empty_def)

lemma two_timers_period: "period two_timers 100 = 3" "uxAutoReload (timer two_timers 100)" "called two_timers = []" "timer_at two_timers u = None"
  by (simp_all add: two_timers_def xTimerCreate_def prvInitialiseNewTimer_def prvCheckForValidListAndQueue_def fresh_timers_def Let_def)

text \<open>Across an overflow, a timer with a period of 3 ticks is called three times in ten ticks.\<close>

theorem timers_call_exactly_witness:
  "\<exists>w s' n' f'. start_timer (\<lambda>_ _ s. s) 100 two_timers = Some w \<and> timer_ticks (\<lambda>_ _ s. s) 10 w = Some (s', n', f') \<and> count_list (called s') 100 = 3"
proof -
  have h: "harmless (\<lambda>_ _ s. s)" "period two_timers 100 \<noteq> 0" by (simp_all add: harmless_def two_timers_period)
  have c: "timer_calls 3 3 True 10 = 3" by (simp add: timer_calls_def)
  from timers_call_exactly [OF two_timers_asleep h, of 10] obtain w s' n' f' where w: "start_timer (\<lambda>_ _ s. s) 100 two_timers = Some w" "timer_ticks (\<lambda>_ _ s. s) 10 w = Some (s', n', f')"
    "\<And>r. r = unat (period two_timers 100) \<Longrightarrow> count_list (called s') 100 = count_list (called two_timers) 100 + timer_calls r (unat (period two_timers 100)) (uxAutoReload (timer two_timers 100)) 10"
    by (metis (mono_tags, lifting))
  have "count_list (called s') 100 = 3" using w(3) [OF refl] c by (simp add: two_timers_period)
  then show ?thesis using w(1,2) by blast
qed

end
