(* ===== verification/Spi_Flash.thy ===== *)
theory Spi_Flash
  imports Prelude "HOL-Library.Monad_Syntax"
begin

text \<open>
  The SPI flash driver, \<^verbatim>\<open>components/spi_flash/src/spi_flash.c\<close> over
  \<^verbatim>\<open>spi_flash_raw.c\<close>: page-wise programming, unaligned reads and writes through
  a bounce buffer, sector erase, the write-protection check and the switch to quad mode.

  The mask ROM of the chip (\<^verbatim>\<open>SPI_page_program\<close> and its neighbours, declared in
  \<^verbatim>\<open>rom_functions.h\<close>) is not part of the repository. It is the record \<open>flash_rom\<close>,
  a parameter of every definition, over a device state of any type \<open>'d\<close>. What the driver
  relies on is the locale \<open>nor_flash\<close>: a chip that programs within one page by ANDing
  and erases a sector to 0xFF. Every operation may fail, and a failing one may have changed its own
  range. A buffer argument is the list of its bytes together with its address, which the code only
  tests for alignment, for NULL and for lying in the mapped flash. The watchdog reset, the critical
  section and the cache switch around each ROM call have no effect here and are left out.
\<close>

section \<open>The chip and the ROM\<close>

record esp_rom_spiflash_chip_t =
  device_id :: u32
  chip_size :: u32
  block_size :: u32
  sector_size :: u32
  page_size :: u32
  status_mask :: u32

definition g_rom_flashchip :: "u32 \<Rightarrow> esp_rom_spiflash_chip_t" where
  "g_rom_flashchip CONFIG_SPI_FLASH_SIZE = \<lparr>device_id = 0x1640ef, chip_size = CONFIG_SPI_FLASH_SIZE,
     block_size = 64 * 1024, sector_size = 4 * 1024, page_size = 256, status_mask = 0xffff\<rparr>"

text \<open>A user command: \<^verbatim>\<open>spi_cmd_t\<close> with its pointers as options (NULL is
  \<open>None\<close>). The mode bits are those of \<^verbatim>\<open>spi_cmd_dir_t\<close>.\<close>

record spi_cmd_t =
  cmd :: u16
  cmd_len :: u8
  cmd_addr :: "u32 option"
  addr_len :: u8
  cmd_data :: "u32 option"
  data_len :: u8
  dummy_bits :: u8

definition SPI_TX :: u8 where "SPI_TX = 0x1"
definition SPI_RX :: u8 where "SPI_RX = 0x2"
definition SPI_WRSR :: u8 where "SPI_WRSR = 0x4"
definition SPI_RAW :: u8 where "SPI_RAW = 0x8"

text \<open>
  The functions below the driver. \<open>True\<close> is the ROM's success code 0.
  \<open>spi_user_cmd_raw\<close> returns what the data register holds afterwards. \<open>stack_buf\<close>
  is the address the compiler gives the bounce buffers, \<open>heap_buf\<close> what
  \<^verbatim>\<open>malloc\<close> returns for a read buffer (0 for NULL).
\<close>

record 'd flash_rom =
  chip :: esp_rom_spiflash_chip_t
  SPI_page_program :: "u32 \<Rightarrow> u8 list \<Rightarrow> 'd \<Rightarrow> 'd \<times> bool"
  SPI_read_data :: "u32 \<Rightarrow> nat \<Rightarrow> 'd \<Rightarrow> u8 list option"
  SPI_write_enable :: "'d \<Rightarrow> 'd \<times> bool"
  SPI_sector_erase :: "u32 \<Rightarrow> 'd \<Rightarrow> 'd \<times> bool"
  SPI_read_status :: "'d \<Rightarrow> u32 option"
  SPI_write_status :: "u32 \<Rightarrow> 'd \<Rightarrow> 'd \<times> bool"
  Enable_QMode :: "'d \<Rightarrow> 'd \<times> bool"
  spi_flash_get_id_raw :: "'d \<Rightarrow> u32"
  spi_user_cmd_raw :: "u8 \<Rightarrow> spi_cmd_t \<Rightarrow> 'd \<Rightarrow> 'd \<times> u32"
  spi_flash_switch_to_qio_raw :: "'d \<Rightarrow> 'd"
  stack_buf :: u32
  heap_buf :: u32

section \<open>User commands and status registers\<close>

text \<open>\<open>None\<close> is the early \<^verbatim>\<open>return false\<close>; otherwise the new state of the
  device and the word the command left in the data buffer.\<close>

definition spi_user_cmd :: "'d flash_rom \<Rightarrow> u8 \<Rightarrow> spi_cmd_t \<Rightarrow> 'd \<Rightarrow> ('d \<times> u32) option" where
  "spi_user_cmd R mode p_cmd d =
    (if (addr_len p_cmd \<noteq> 0 \<and> cmd_addr p_cmd = None) \<or> (data_len p_cmd \<noteq> 0 \<and> cmd_data p_cmd = None)
     then None else Some (spi_user_cmd_raw R mode p_cmd d))"

definition special_flash_read_status :: "'d flash_rom \<Rightarrow> u8 \<Rightarrow> u32 \<Rightarrow> int \<Rightarrow> 'd \<Rightarrow> 'd \<times> u32 \<times> bool" where
  "special_flash_read_status R command status len d =
    (if len > 2 \<or> len < 1 then (d, status, False)
     else case spi_user_cmd R SPI_RX \<lparr>cmd = ucast command, cmd_len = 1, cmd_addr = None, addr_len = 0,
              cmd_data = Some status, data_len = of_int len, dummy_bits = 0\<rparr> d of
            None \<Rightarrow> (d, status, False)
          | Some (d', w) \<Rightarrow> (d', w, True))"

text \<open>The source leaves \<^verbatim>\<open>cmd.dummy_bits = 0\<close>; the local \<^verbatim>\<open>data\<close> is the
  status to write.\<close>

definition special_flash_write_status :: "'d flash_rom \<Rightarrow> u8 \<Rightarrow> u32 \<Rightarrow> int \<Rightarrow> bool \<Rightarrow> 'd \<Rightarrow> 'd \<times> bool" where
  "special_flash_write_status R command status len write_en d =
    (if len > 2 \<or> len < 1 then (d, False)
     else case spi_user_cmd R (if write_en then SPI_WRSR else SPI_TX OR SPI_RAW)
              \<lparr>cmd = ucast command, cmd_len = 1, cmd_addr = None, addr_len = 0,
               cmd_data = Some status, data_len = (if len > 1 then 2 else 1), dummy_bits = 0\<rparr> d of
            None \<Rightarrow> (d, False)
          | Some (d', w) \<Rightarrow> (d', True))"

definition en25q16x_read_sfdp :: "'d flash_rom \<Rightarrow> 'd \<Rightarrow> 'd \<times> u8" where
  "en25q16x_read_sfdp R d =
    (case spi_user_cmd R SPI_RX \<lparr>cmd = 0x5a, cmd_len = 1, cmd_addr = Some 0x00003000, addr_len = 3,
        cmd_data = Some 0, data_len = 1, dummy_bits = 8\<rparr> d of
       None \<Rightarrow> (d, 0)
     | Some (d', w) \<Rightarrow> (d', ucast w))"

definition spi_flash_get_id :: "'d flash_rom \<Rightarrow> 'd \<Rightarrow> u32" where
  "spi_flash_get_id R d = spi_flash_get_id_raw R d"

definition spi_flash_read_status :: "'d flash_rom \<Rightarrow> 'd \<Rightarrow> u32 option" where
  "spi_flash_read_status R d = SPI_read_status R d"

definition spi_flash_write_status_raw :: "'d flash_rom \<Rightarrow> u32 \<Rightarrow> 'd \<Rightarrow> 'd \<times> esp_err_t" where
  "spi_flash_write_status_raw R v d =
    (let (d1, en) = SPI_write_enable R d in
     if \<not> en then (d1, ESP_ERR_FLASH_OP_FAIL)
     else let (d2, ok) = SPI_write_status R v d1 in
          (d2, if ok then ESP_OK else ESP_ERR_FLASH_OP_FAIL))"

definition spi_flash_write_status :: "'d flash_rom \<Rightarrow> u32 \<Rightarrow> 'd \<Rightarrow> 'd \<times> esp_err_t" where
  "spi_flash_write_status R v d = (fst (spi_flash_write_status_raw R v d), ESP_OK)"

section \<open>Write protection\<close>

definition SPI_ISSI_FLASH_WRITE_PROTECT_STATUS :: u32 where
  "SPI_ISSI_FLASH_WRITE_PROTECT_STATUS = 0x3c"
definition SPI_EON_25Q16A_WRITE_PROTECT_STATUS :: u32 where
  "SPI_EON_25Q16A_WRITE_PROTECT_STATUS = 0x3c"
definition SPI_EON_25Q16B_WRITE_PROTECT_STATUS :: u32 where
  "SPI_EON_25Q16B_WRITE_PROTECT_STATUS = 0x3c"
definition SPI_GD25Q32_FLASH_WRITE_PROTECT_STATUS :: u32 where
  "SPI_GD25Q32_FLASH_WRITE_PROTECT_STATUS = 0x7c"
definition SPI_FLASH_PROTECT_STATUS :: u32 where
  "SPI_FLASH_PROTECT_STATUS = 0x407c"

text \<open>The block the source repeats for each chip family.\<close>

definition clear_status_bits :: "'d flash_rom \<Rightarrow> u32 \<Rightarrow> 'd \<Rightarrow> 'd" where
  "clear_status_bits R wp d =
    (case spi_flash_read_status R d of
       None \<Rightarrow> d
     | Some status \<Rightarrow>
         if status AND wp \<noteq> 0
         then fst (special_flash_write_status R 0x1 (status AND NOT wp) 1 True d) else d)"

definition spi_flash_check_wr_protect :: "'d flash_rom \<Rightarrow> 'd \<Rightarrow> 'd \<times> bool" where
  "spi_flash_check_wr_protect R d =
    (let flash_id = spi_flash_get_id R d in
     if flash_id AND 0xffffff = 0x15701c then
       (let (d1, sfdp) = en25q16x_read_sfdp R d in
        if sfdp = 0xE5 then (clear_status_bits R SPI_EON_25Q16A_WRITE_PROTECT_STATUS d1, True)
        else if sfdp = 0xED then (clear_status_bits R SPI_EON_25Q16B_WRITE_PROTECT_STATUS d1, True)
        else (d1, True))
     else if flash_id AND 0xFF = 0x9D \<or> flash_id AND 0xFF = 0xC2 \<or> flash_id AND 0xFF = 0x1C then
       (clear_status_bits R SPI_ISSI_FLASH_WRITE_PROTECT_STATUS d, True)
     else if flash_id AND 0xFFFFFFFF = 0x1640C8 \<or> flash_id AND 0xFFFFFFFF = 0x1840C8 then
       (clear_status_bits R SPI_GD25Q32_FLASH_WRITE_PROTECT_STATUS d, True)
     else
       (case spi_flash_read_status R d of
          None \<Rightarrow> (d, True)
        | Some status0 \<Rightarrow>
            let (d1, status1, _) = special_flash_read_status R 0x35 0 1 d;
                status = push_bit 8 status1 OR (status0 AND 0xff) in
            if status AND SPI_FLASH_PROTECT_STATUS \<noteq> 0
            then (fst (spi_flash_write_status R (status AND NOT SPI_FLASH_PROTECT_STATUS AND 0xffff) d1), True)
            else (d1, True)))"

section \<open>Quad mode\<close>

definition spi_flash_enable_qio_bit6 :: "'d flash_rom \<Rightarrow> 'd \<Rightarrow> 'd" where
  "spi_flash_enable_qio_bit6 R d = fst (special_flash_write_status R 0x1 0x40 1 True d)"

definition spi_flash_issi_enable_QIO_mode :: "'d flash_rom \<Rightarrow> 'd \<Rightarrow> 'd \<times> bool" where
  "spi_flash_issi_enable_QIO_mode R d =
    (case spi_flash_read_status R d of
       None \<Rightarrow> (d, False)
     | Some status \<Rightarrow>
         if status AND 0x40 \<noteq> 0 then (d, True)
         else let d1 = spi_flash_enable_qio_bit6 R d in
              case spi_flash_read_status R d1 of
                None \<Rightarrow> (d1, False)
              | Some status' \<Rightarrow> (d1, status' AND 0x40 \<noteq> 0))"

datatype GD25Q32C_status = GD25Q32C_STATUS1 | GD25Q32C_STATUS2 | GD25Q32C_STATUS3

text \<open>\<^verbatim>\<open>uint32_t status;\<close> is not initialised; the read always fills it, since its
  length argument is 1.\<close>

definition flash_gd25q32c_read_status :: "'d flash_rom \<Rightarrow> GD25Q32C_status \<Rightarrow> 'd \<Rightarrow> 'd \<times> u8" where
  "flash_gd25q32c_read_status R status_index d =
    (let rdsr_cmd = (case status_index of GD25Q32C_STATUS1 \<Rightarrow> 0x05 | GD25Q32C_STATUS2 \<Rightarrow> 0x35
                     | GD25Q32C_STATUS3 \<Rightarrow> 0x15);
         (d', status, _) = special_flash_read_status R rdsr_cmd 0 1 d in
     (d', ucast status))"

definition flash_gd25q32c_write_status :: "'d flash_rom \<Rightarrow> GD25Q32C_status \<Rightarrow> u8 \<Rightarrow> 'd \<Rightarrow> 'd" where
  "flash_gd25q32c_write_status R status_index status d =
    (let wrsr_cmd = (case status_index of GD25Q32C_STATUS1 \<Rightarrow> 0x01 | GD25Q32C_STATUS2 \<Rightarrow> 0x31
                     | GD25Q32C_STATUS3 \<Rightarrow> 0x11) in
     fst (special_flash_write_status R wrsr_cmd (ucast status) 1 True d))"

definition flash_gd25q32c_enable_QIO_mode :: "'d flash_rom \<Rightarrow> 'd \<Rightarrow> 'd \<times> bool" where
  "flash_gd25q32c_enable_QIO_mode R d =
    (let (d1, data) = flash_gd25q32c_read_status R GD25Q32C_STATUS2 d in
     if data AND 0x2 \<noteq> 0 then (d1, True)
     else let d2 = flash_gd25q32c_write_status R GD25Q32C_STATUS2 0x2 d1;
              (d3, data') = flash_gd25q32c_read_status R GD25Q32C_STATUS2 d2 in
          (d3, data' AND 0x2 \<noteq> 0))"

definition special_flash_set_mode :: "'d flash_rom \<Rightarrow> u8 \<Rightarrow> bool \<Rightarrow> 'd \<Rightarrow> 'd" where
  "special_flash_set_mode R command disable_wait_idle d =
    (case spi_user_cmd R (if disable_wait_idle then SPI_TX OR SPI_RAW else SPI_TX)
        \<lparr>cmd = ucast command, cmd_len = 1, cmd_addr = None, addr_len = 0, cmd_data = None,
         data_len = 0, dummy_bits = 0\<rparr> d of
       None \<Rightarrow> d | Some (d', _) \<Rightarrow> d')"

definition en25q16x_write_volatile_status :: "'d flash_rom \<Rightarrow> u8 \<Rightarrow> 'd \<Rightarrow> 'd \<times> bool" where
  "en25q16x_write_volatile_status R vsr d =
    (let d1 = special_flash_set_mode R 0x3a True d;
         d2 = special_flash_set_mode R 0x50 True d1;
         d3 = fst (special_flash_write_status R 0x01 (ucast vsr) 1 False d2);
         (d4, status, _) = special_flash_read_status R 0x05 0 1 d3;
         d5 = special_flash_set_mode R 0x04 False d4 in
     (d5, status = 0x40))"

definition user_spi_flash_dio_to_qio_pre_init :: "'d flash_rom \<Rightarrow> 'd \<Rightarrow> 'd" where
  "user_spi_flash_dio_to_qio_pre_init R d =
    (let flash_id = spi_flash_get_id R d;
         (d1, to_qio) =
           (if flash_id AND 0xffffff = 0x15701c then
              (let (da, sfdp) = en25q16x_read_sfdp R d in
               if sfdp = 0xE5 then spi_flash_issi_enable_QIO_mode R da
               else if sfdp = 0xED then en25q16x_write_volatile_status R 0x40 da
               else (da, False))
            else if flash_id AND 0xFF = 0x9D \<or> flash_id AND 0xFF = 0xC2 \<or> flash_id AND 0xFF = 0x1C then
              spi_flash_issi_enable_QIO_mode R d
            else if flash_id AND 0xFFFFFF = 0x1640C8 \<or> flash_id AND 0xFFFFFF = 0x1840C8 then
              flash_gd25q32c_enable_QIO_mode R d
            else Enable_QMode R d) in
     if to_qio then spi_flash_switch_to_qio_raw R d1 else d1)"

section \<open>Erase\<close>

definition spi_flash_erase_sector_raw :: "'d flash_rom \<Rightarrow> u32 \<Rightarrow> u32 \<Rightarrow> 'd \<Rightarrow> 'd \<times> esp_err_t" where
  "spi_flash_erase_sector_raw R sec sec_size d =
    (let (d1, en) = SPI_write_enable R d;
         (d2, er) = SPI_sector_erase R (sec * sec_size) d1 in
     (d2, if en \<and> er then ESP_OK else ESP_ERR_FLASH_OP_FAIL))"

definition spi_flash_erase_sector :: "'d flash_rom \<Rightarrow> u32 \<Rightarrow> 'd \<Rightarrow> 'd \<times> esp_err_t" where
  "spi_flash_erase_sector R sec d =
    (if sec \<ge> chip_size (chip R) div sector_size (chip R) then (d, ESP_ERR_FLASH_OP_FAIL)
     else let (d1, unprotected) = spi_flash_check_wr_protect R d in
          if \<not> unprotected then (d1, ESP_ERR_FLASH_OP_FAIL)
          else spi_flash_erase_sector_raw R sec (sector_size (chip R)) d1)"

definition SPI_FLASH_SEC_SIZE :: u32 where "SPI_FLASH_SEC_SIZE = 4096"

text \<open>
  \<^verbatim>\<open>do ... while (ret == ESP_OK && --num)\<close>: the counter is decremented before it is
  tested, so it wraps when it starts at 0. The loop stops at the latest at the end of the chip, where
  \<^verbatim>\<open>spi_flash_erase_sector\<close> fails.
\<close>

lemma erase_sector_ok_bound:
  "snd (spi_flash_erase_sector R sec d) = ESP_OK \<Longrightarrow> sec < chip_size (chip R) div sector_size (chip R)"
  by (auto simp: spi_flash_erase_sector_def not_le split: if_splits)

function erase_loop :: "'d flash_rom \<Rightarrow> u32 \<Rightarrow> u32 \<Rightarrow> 'd \<Rightarrow> 'd \<times> esp_err_t" where
  "erase_loop R sec num d =
    (let (d', ret) = spi_flash_erase_sector R sec d in
     if ret = ESP_OK \<and> num - 1 \<noteq> 0 then erase_loop R (sec + 1) (num - 1) d' else (d', ret))"
  by auto
termination
proof (relation "measure (\<lambda>(R, sec, num, d). unat (chip_size (chip R) div sector_size (chip R)) - unat sec)", goal_cases)
  case 1
  then show ?case by simp
next
  case (2 R sec num d x d' ret)
  then have "sec < chip_size (chip R) div sector_size (chip R)"
    using erase_sector_ok_bound [of R sec d] by (cases "spi_flash_erase_sector R sec d") simp
  then show ?case by (simp add: unat_add_1_less word_less_nat_alt)
qed

declare erase_loop.simps [simp del]

definition spi_flash_erase_range :: "'d flash_rom \<Rightarrow> u32 \<Rightarrow> u32 \<Rightarrow> 'd \<Rightarrow> 'd \<times> esp_err_t" where
  "spi_flash_erase_range R start_address nbytes d =
    (if start_address mod SPI_FLASH_SEC_SIZE \<noteq> 0 \<or> nbytes mod SPI_FLASH_SEC_SIZE \<noteq> 0
     then (d, ESP_ERR_FLASH_OP_FAIL)
     else let (d1, unprotected) = spi_flash_check_wr_protect R d in
          if \<not> unprotected then (d1, ESP_ERR_FLASH_OP_FAIL)
          else erase_loop R (start_address div SPI_FLASH_SEC_SIZE) (nbytes div SPI_FLASH_SEC_SIZE) d1)"

section \<open>Program and write\<close>

text \<open>
  \<open>src_bytes\<close> are the bytes at the word pointer \<^verbatim>\<open>src_addr\<close>;
  \<^verbatim>\<open>src_addr + (n >> 2)\<close> is a word offset. The page counter
  \<^verbatim>\<open>uint8_t i\<close> is compared with a 32-bit page count, so the loop need not end:
  \<open>None\<close> is not returning. A pair \<open>(d, None)\<close> is the early
  \<^verbatim>\<open>return ESP_ERR_FLASH_OP_FAIL\<close>, \<open>(d, Some pgm_len)\<close> leaves the loop.
\<close>

partial_function (option) program_pages ::
  "'d flash_rom \<Rightarrow> u32 \<Rightarrow> u8 list \<Rightarrow> u32 \<Rightarrow> u8 \<Rightarrow> u32 \<Rightarrow> 'd \<Rightarrow> ('d \<times> u32 option) option" where
  "program_pages R target src_bytes pgm_num i pgm_len d =
    (if ucast i < pgm_num then
       (let p = SPI_page_program R (target + pgm_len)
                  (take (unat (page_size (chip R))) (drop (4 * (unat pgm_len div 4)) src_bytes)) d in
        if snd p
        then program_pages R target src_bytes pgm_num (i + 1) (pgm_len + page_size (chip R)) (fst p)
        else Some (fst p, None))
     else Some (d, Some pgm_len))"

definition spi_flash_program ::
  "'d flash_rom \<Rightarrow> u32 \<Rightarrow> u8 list \<Rightarrow> u32 \<Rightarrow> 'd \<Rightarrow> ('d \<times> esp_err_t) option" where
  "spi_flash_program R target src_bytes len d =
    (let page = page_size (chip R);
         pgm_len = page - target mod page in
     if len < pgm_len then
       (let (d1, ok) = SPI_page_program R target (take (unat len) src_bytes) d in
        Some (d1, if ok then ESP_OK else ESP_ERR_FLASH_OP_FAIL))
     else
       (let (d1, ok) = SPI_page_program R target (take (unat pgm_len) src_bytes) d in
        if \<not> ok then Some (d1, ESP_ERR_FLASH_OP_FAIL)
        else do {
          (d2, r) \<leftarrow> program_pages R target src_bytes ((len - pgm_len) div page) 0 pgm_len d1;
          (case r of
             None \<Rightarrow> Some (d2, ESP_ERR_FLASH_OP_FAIL)
           | Some pgm_len' \<Rightarrow>
               let (d3, ok3) = SPI_page_program R (target + pgm_len')
                     (take (unat (len - pgm_len')) (drop (4 * (unat pgm_len' div 4)) src_bytes)) d2 in
               Some (d3, if ok3 then ESP_OK else ESP_ERR_FLASH_OP_FAIL))
        }))"

definition FLASH_ALIGN :: "u32 \<Rightarrow> u32" where
  "FLASH_ALIGN a = (a + 3) AND NOT 3"

definition FLASH_ALIGN_BEFORE :: "u32 \<Rightarrow> u32" where
  "FLASH_ALIGN_BEFORE a = FLASH_ALIGN a - 4"

definition NOT_ALIGN :: "u32 \<Rightarrow> bool" where
  "NOT_ALIGN a \<longleftrightarrow> a AND 3 \<noteq> 0"

definition IS_FLASH :: "u32 \<Rightarrow> bool" where
  "IS_FLASH a \<longleftrightarrow> a \<ge> 0x40200000 \<and> a < 0x40200000 + 1024 * 1024"

definition SPI_READ_BUF_MAX :: nat where "SPI_READ_BUF_MAX = 64"

section \<open>Read\<close>

definition flash_read_raw :: "'d flash_rom \<Rightarrow> u32 \<Rightarrow> nat \<Rightarrow> 'd \<Rightarrow> esp_err_t + u8 list" where
  "flash_read_raw R src_addr nbytes d =
    (case SPI_read_data R src_addr nbytes d of
       None \<Rightarrow> Inl ESP_ERR_FLASH_OP_FAIL | Some bs \<Rightarrow> Inr bs)"

text \<open>The loop over the bounce buffer; \<open>unat (FLASH_ALIGN (of_nat len))\<close> bytes are read
  and the first \<open>len\<close> of them copied out.\<close>

function read_loop :: "'d flash_rom \<Rightarrow> u32 \<Rightarrow> nat \<Rightarrow> 'd \<Rightarrow> esp_err_t + u8 list" where
  "read_loop R src_addr nbytes d =
    (if nbytes = 0 then Inr []
     else let len = (if nbytes \<ge> SPI_READ_BUF_MAX then SPI_READ_BUF_MAX else nbytes);
              wlen = unat (FLASH_ALIGN (of_nat len)) in
          (case flash_read_raw R src_addr wlen d of
             Inl e \<Rightarrow> Inl e
           | Inr buf \<Rightarrow>
               (case read_loop R (src_addr + of_nat len) (nbytes - len) d of
                  Inl e \<Rightarrow> Inl e
                | Inr rest \<Rightarrow> Inr (take len buf @ rest))))"
  by pat_completeness auto
termination
  by (relation "measure (\<lambda>(R, a, n, d). n)") (auto simp: SPI_READ_BUF_MAX_def split: if_splits)

declare read_loop.simps [simp del]

definition spi_flash_read :: "'d flash_rom \<Rightarrow> u32 \<Rightarrow> u32 \<Rightarrow> nat \<Rightarrow> 'd \<Rightarrow> esp_err_t + u8 list" where
  "spi_flash_read R src_addr dest nbytes d =
    (if nbytes = 0 then Inr []
     else if dest = 0 then Inl ESP_ERR_FLASH_OP_FAIL
     else if NOT_ALIGN src_addr \<or> NOT_ALIGN dest \<or> NOT_ALIGN (of_nat nbytes) then
       (if NOT_ALIGN src_addr then
          (let r_addr = FLASH_ALIGN_BEFORE src_addr;
               c_off = unat (src_addr - r_addr);
               wbytes = (if 4 - c_off > nbytes then nbytes else 4 - c_off) in
           (case flash_read_raw R r_addr 4 d of
              Inl e \<Rightarrow> Inl e
            | Inr buf \<Rightarrow>
                (case read_loop R (src_addr + of_nat wbytes) (nbytes - wbytes) d of
                   Inl e \<Rightarrow> Inl e
                 | Inr rest \<Rightarrow> Inr (take wbytes (drop c_off buf) @ rest))))
        else read_loop R src_addr nbytes d)
     else flash_read_raw R src_addr nbytes d)"

section \<open>Unaligned writes\<close>

text \<open>
  The bounce buffer of \<^verbatim>\<open>spi_flash_write\<close> lives on the stack, at the address
  \<open>stack_buf\<close>. Only its first \<open>wlen\<close> bytes are written: the data, and behind it what
  the last word of the target holds already.
\<close>

function write_loop :: "'d flash_rom \<Rightarrow> u32 \<Rightarrow> u8 list \<Rightarrow> 'd \<Rightarrow> ('d \<times> esp_err_t) option" where
  "write_loop R dest_addr tmp d =
    (if tmp = [] then Some (d, ESP_OK)
     else let nbytes = length tmp;
              len = (if nbytes \<ge> SPI_READ_BUF_MAX then SPI_READ_BUF_MAX else nbytes);
              wlen = unat (FLASH_ALIGN (of_nat len)) in
          (case (if wlen \<noteq> len
                 then map_sum id (drop (len - (wlen - 4)))
                        (spi_flash_read R (dest_addr + of_nat (wlen - 4)) (stack_buf R + of_nat (wlen - 4)) 4 d)
                 else Inr []) of
             Inl e \<Rightarrow> Some (d, e)
           | Inr tail \<Rightarrow> do {
               (d1, ret) \<leftarrow> spi_flash_program R dest_addr (take len tmp @ tail) (of_nat wlen) d;
               if ret \<noteq> ESP_OK then Some (d1, ret)
               else write_loop R (dest_addr + of_nat len) (drop len tmp) d1
             }))"
  by pat_completeness auto
termination
  by (relation "measure (\<lambda>(R, a, tmp, d). length tmp)") (auto simp: SPI_READ_BUF_MAX_def split: if_splits)

declare write_loop.simps [simp del]

definition spi_flash_write ::
  "'d flash_rom \<Rightarrow> u32 \<Rightarrow> u32 \<Rightarrow> u8 list \<Rightarrow> 'd \<Rightarrow> ('d \<times> esp_err_t) option" where
  "spi_flash_write R dest_addr src bytes d =
    (let nbytes = length bytes in
     if nbytes = 0 then Some (d, ESP_OK)
     else if src = 0 then Some (d, ESP_ERR_FLASH_OP_FAIL)
     else if dest_addr + of_nat nbytes > chip_size (chip R) then Some (d, ESP_ERR_FLASH_OP_FAIL)
     else let (d0, unprotected) = spi_flash_check_wr_protect R d in
     if \<not> unprotected then Some (d0, ESP_ERR_FLASH_OP_FAIL)
     else if NOT_ALIGN dest_addr \<or> NOT_ALIGN src \<or> NOT_ALIGN (of_nat nbytes) \<or> IS_FLASH src then
       (if NOT_ALIGN dest_addr then
          (let r_addr = FLASH_ALIGN_BEFORE dest_addr;
               c_off = unat (dest_addr - r_addr);
               wbytes = (if 4 - c_off > nbytes then nbytes else 4 - c_off) in
           (case spi_flash_read R r_addr (stack_buf R) 4 d0 of
              Inl e \<Rightarrow> Some (d0, e)
            | Inr buf \<Rightarrow> do {
                (d1, ret) \<leftarrow> spi_flash_program R r_addr
                   (take c_off buf @ take wbytes bytes @ drop (c_off + wbytes) buf) 4 d0;
                if ret \<noteq> ESP_OK then Some (d1, ret)
                else write_loop R (dest_addr + of_nat wbytes) (drop wbytes bytes) d1
              }))
        else write_loop R dest_addr bytes d0)
     else spi_flash_program R dest_addr bytes (of_nat nbytes) d0)"

section \<open>Alignment\<close>

lemma flash_align: "unat a + 3 < 2 ^ 32 \<Longrightarrow> unat (FLASH_ALIGN a) = 4 * ((unat a + 3) div 4)"
  unfolding FLASH_ALIGN_def using unat_add_no_wrap [of a 3] unat_and_not_3 [of "a + 3"] by simp

lemma flash_align_of_nat: "n \<le> 64 \<Longrightarrow> unat (FLASH_ALIGN (of_nat n)) = 4 * ((n + 3) div 4)"
  by (subst flash_align) (simp_all add: unat_of_nat_small)

lemma not_align_iff: "NOT_ALIGN a \<longleftrightarrow> unat a mod 4 \<noteq> 0"
  by (simp add: NOT_ALIGN_def)

lemma flash_align_before:
  assumes "NOT_ALIGN a" and "unat a < c" and "c mod 4 = 0" and "c < 2 ^ 32"
  shows "unat (FLASH_ALIGN_BEFORE a) = 4 * (unat a div 4)" and "unat (a - FLASH_ALIGN_BEFORE a) = unat a mod 4"
    and "4 * (unat a div 4) + 4 \<le> c"
proof -
  have un: "unat a mod 4 \<noteq> 0" using assms(1) by (simp add: not_align_iff)
  obtain q where "c = 4 * q" using assms(3) by auto
  then have "unat a + 3 < 2 ^ 32" using assms(2,4) by simp
  then have al: "unat (FLASH_ALIGN a) = 4 * ((unat a + 3) div 4)" by (rule flash_align)
  have "4 \<le> FLASH_ALIGN a" using un by (simp add: word_le_nat_alt al)
  then have "unat (FLASH_ALIGN_BEFORE a) = 4 * ((unat a + 3) div 4) - 4"
    unfolding FLASH_ALIGN_BEFORE_def using al by (simp add: unat_sub)
  also have "\<dots> = 4 * (unat a div 4)"
    using un by (simp add: div4_up)
  finally show b: "unat (FLASH_ALIGN_BEFORE a) = 4 * (unat a div 4)" .
  have "FLASH_ALIGN_BEFORE a \<le> a" by (simp add: word_le_nat_alt b)
  then show "unat (a - FLASH_ALIGN_BEFORE a) = unat a mod 4"
    by (simp add: unat_sub b minus_mult_div_eq_mod)
  have "4 * (unat a div 4) < c" using assms(2) by (metis le_less_trans mult.commute div_times_less_eq_dividend)
  then show "4 * (unat a div 4) + 4 \<le> c" using assms(3) by (auto elim!: dvdE)
qed

lemma flash_read_raw_err: "flash_read_raw R a n d = Inl e \<Longrightarrow> e = ESP_ERR_FLASH_OP_FAIL"
  by (simp add: flash_read_raw_def split: option.splits)

lemma read_loop_err: "read_loop R a n d = Inl e \<Longrightarrow> e = ESP_ERR_FLASH_OP_FAIL"
proof (induction n arbitrary: a rule: less_induct)
  case (less n)
  then show ?case
    by (subst (asm) (2) read_loop.simps)
      (auto simp: Let_def SPI_READ_BUF_MAX_def dest: flash_read_raw_err less.IH [of "n - 64" "a + 64", rotated]
        split: if_splits sum.splits)
qed

lemma flash_read_err: "spi_flash_read R a dest n d = Inl e \<Longrightarrow> e = ESP_ERR_FLASH_OP_FAIL"
  by (auto simp: spi_flash_read_def Let_def dest: flash_read_raw_err read_loop_err split: if_splits sum.splits)

section \<open>What the driver relies on\<close>

locale nor_flash =
  fixes R :: "'d flash_rom" and cells :: "'d \<Rightarrow> mem"
  assumes page: "page_size (chip R) = 256"
    and sector: "sector_size (chip R) = 4096"
    and whole_sectors: "unat (chip_size (chip R)) mod 4096 = 0"
    and stack_in_dram: "0x3FFE8000 \<le> stack_buf R" "stack_buf R < 0x40000000"
    and read_data: "\<lbrakk>unat a mod 4 = 0; n mod 4 = 0; unat a + n \<le> unat (chip_size (chip R));
       SPI_read_data R a n d = Some bs\<rbrakk> \<Longrightarrow> bs = mem_read (cells d) (unat a) n"
    and program_ok: "\<lbrakk>unat a mod 4 = 0; length bs mod 4 = 0; unat a mod 256 + length bs \<le> 256;
       unat a + length bs \<le> unat (chip_size (chip R)); SPI_page_program R a bs d = (d', True)\<rbrakk>
       \<Longrightarrow> cells d' = nor_write (cells d) (unat a) bs"
    and program_fail: "\<lbrakk>unat a mod 4 = 0; length bs mod 4 = 0; unat a mod 256 + length bs \<le> 256;
       unat a + length bs \<le> unat (chip_size (chip R)); SPI_page_program R a bs d = (d', False)\<rbrakk>
       \<Longrightarrow> same_outside (unat a) (length bs) (cells d) (cells d')"
    and erase_ok: "\<lbrakk>unat a mod 4096 = 0; unat a < unat (chip_size (chip R)); SPI_sector_erase R a d = (d', True)\<rbrakk>
       \<Longrightarrow> cells d' = mem_fill (cells d) (unat a) 4096 0xff"
    and erase_fail: "\<lbrakk>unat a mod 4096 = 0; unat a < unat (chip_size (chip R)); SPI_sector_erase R a d = (d', False)\<rbrakk>
       \<Longrightarrow> same_outside (unat a) 4096 (cells d) (cells d')"
    and write_enable: "cells (fst (SPI_write_enable R d)) = cells d"
    and write_status: "cells (fst (SPI_write_status R v d)) = cells d"
    and user_cmd: "cells (fst (spi_user_cmd_raw R m p d)) = cells d"
begin

lemma write_status_cells: "cells (fst (spi_flash_write_status R v d)) = cells d"
  by (simp add: spi_flash_write_status_def spi_flash_write_status_raw_def case_prod_beta write_enable write_status)

lemma special_write_cells: "cells (fst (special_flash_write_status R c v n e d)) = cells d"
  by (simp add: special_flash_write_status_def spi_user_cmd_def case_prod_beta user_cmd)

lemma special_read_cells: "cells (fst (special_flash_read_status R c v n d)) = cells d"
  by (simp add: special_flash_read_status_def spi_user_cmd_def case_prod_beta user_cmd)

lemma sfdp_cells: "cells (fst (en25q16x_read_sfdp R d)) = cells d"
  by (simp add: en25q16x_read_sfdp_def spi_user_cmd_def case_prod_beta user_cmd)

lemma clear_status_cells: "cells (clear_status_bits R wp d) = cells d"
  by (simp add: clear_status_bits_def special_write_cells split: option.split)

lemma wr_protect_cells: "cells (fst (spi_flash_check_wr_protect R d)) = cells d"
  by (simp add: spi_flash_check_wr_protect_def Let_def case_prod_beta clear_status_cells write_status_cells
      sfdp_cells special_read_cells split: option.split)

lemma wr_protect_True: "snd (spi_flash_check_wr_protect R d)"
  by (simp add: spi_flash_check_wr_protect_def Let_def case_prod_beta split: option.split)

lemma sec_addr:
  assumes "sec < chip_size (chip R) div sector_size (chip R)"
  shows "unat (sec * sector_size (chip R)) = 4096 * unat sec"
    and "4096 * unat sec + 4096 \<le> unat (chip_size (chip R))"
proof -
  let ?n = "unat (chip_size (chip R))"
  have "unat sec < ?n div 4096"
    using assms by (simp add: word_less_nat_alt sector unat_div)
  then show bound: "4096 * unat sec + 4096 \<le> ?n"
    using whole_sectors by (rule next_multiple_le [rotated])
  have "?n < 2 ^ LENGTH(32)" by (rule unsigned_less)
  then show "unat (sec * sector_size (chip R)) = 4096 * unat sec"
    using bound by (simp add: sector unat_word_ariths)
qed

lemma erase_sector_raw:
  assumes "sec < chip_size (chip R) div sector_size (chip R)"
    and "spi_flash_erase_sector_raw R sec (sector_size (chip R)) d = (d', ret)"
  shows "same_outside (4096 * unat sec) 4096 (cells d) (cells d')"
    and "ret = ESP_OK \<Longrightarrow> cells d' = mem_fill (cells d) (4096 * unat sec) 4096 0xff"
proof -
  obtain d1 en where we: "SPI_write_enable R d = (d1, en)" by fastforce
  obtain d2 er where er: "SPI_sector_erase R (sec * sector_size (chip R)) d1 = (d2, er)" by fastforce
  have c1: "cells d1 = cells d" using write_enable [of d] we by simp
  have a: "unat (sec * sector_size (chip R)) mod 4096 = 0"
    "unat (sec * sector_size (chip R)) < unat (chip_size (chip R))"
    using sec_addr [OF assms(1)] by simp_all
  have d': "d' = d2" "ret = (if en \<and> er then ESP_OK else ESP_ERR_FLASH_OP_FAIL)"
    using assms(2) by (simp_all add: spi_flash_erase_sector_raw_def we er)
  show "same_outside (4096 * unat sec) 4096 (cells d) (cells d')"
    using er erase_ok [OF a, of d1 d2] erase_fail [OF a, of d1 d2] sec_addr(1) [OF assms(1)] c1 d'(1)
    by (cases er) auto
  show "ret = ESP_OK \<Longrightarrow> cells d' = mem_fill (cells d) (4096 * unat sec) 4096 0xff"
    using er erase_ok [OF a] sec_addr(1) [OF assms(1)] c1 d'
    by (auto split: if_splits)
qed

lemma erase_sector:
  assumes "spi_flash_erase_sector R sec d = (d', ret)"
  shows "same_outside (4096 * unat sec) 4096 (cells d) (cells d')"
    and "ret = ESP_OK \<Longrightarrow> cells d' = mem_fill (cells d) (4096 * unat sec) 4096 0xff
      \<and> 4096 * unat sec + 4096 \<le> unat (chip_size (chip R))"
proof -
  obtain d1 where wp: "spi_flash_check_wr_protect R d = (d1, True)"
    using wr_protect_True [of d] by (cases "spi_flash_check_wr_protect R d") auto
  then have c1: "cells d1 = cells d" using wr_protect_cells [of d] by simp
  show "same_outside (4096 * unat sec) 4096 (cells d) (cells d')"
    using assms erase_sector_raw(1) [of sec d1 d' ret] c1 wp
    by (auto simp: spi_flash_erase_sector_def split: if_splits)
  assume "ret = ESP_OK"
  then show "cells d' = mem_fill (cells d) (4096 * unat sec) 4096 0xff
      \<and> 4096 * unat sec + 4096 \<le> unat (chip_size (chip R))"
    using assms erase_sector_raw(2) [of sec d1 d' ret] c1 wp sec_addr(2) [of sec]
    by (auto simp: spi_flash_erase_sector_def split: if_splits)
qed

lemma erase_loop:
  assumes "erase_loop R sec num d = (d', ret)" and "num \<noteq> 0"
  shows "same_outside (4096 * unat sec) (4096 * unat num) (cells d) (cells d')
    \<and> (ret = ESP_OK \<longrightarrow> cells d' = mem_fill (cells d) (4096 * unat sec) (4096 * unat num) 0xff)"
  using assms
proof (induction "unat num" arbitrary: sec num d)
  case 0
  then show ?case by (simp add: unat_eq_zero)
next
  case (Suc n)
  obtain d1 r where es: "spi_flash_erase_sector R sec d = (d1, r)" by fastforce
  have n: "unat (num - 1) = n" using Suc.hyps(2) Suc.prems(2) by (metis diff_Suc_1 unat_minus_one)
  have grow: "same_outside (4096 * unat sec) (4096 * unat num) (cells d) (cells d1)"
    using erase_sector(1) [OF es] by (rule same_outside_mono) (use Suc.hyps(2) in simp_all)
  show ?case
  proof (cases "r = ESP_OK \<and> num - 1 \<noteq> 0")
    case True
    then have rest: "erase_loop R (sec + 1) (num - 1) d1 = (d', ret)"
      using Suc.prems(1) es by (simp add: erase_loop.simps [of R sec])
    have s1: "unat (sec + 1) = unat sec + 1"
      using erase_sector_ok_bound [of R sec d] es True by (simp add: unat_add_1_less)
    note erased = erase_sector(2) [OF es, THEN conjunct1]
    have IH: "same_outside (4096 * unat (sec + 1)) (4096 * n) (cells d1) (cells d')
      \<and> (ret = ESP_OK \<longrightarrow> cells d' = mem_fill (cells d1) (4096 * unat (sec + 1)) (4096 * n) 0xff)"
      using Suc.hyps(1) [of "num - 1" "sec + 1" d1] n rest True by simp
    have "same_outside (4096 * unat sec) (4096 * unat num) (cells d1) (cells d')"
      using IH [THEN conjunct1] by (rule same_outside_mono) (use s1 Suc.hyps(2) in simp_all)
    moreover have "cells d' = mem_fill (cells d) (4096 * unat sec) (4096 * unat num) 0xff" if "ret = ESP_OK"
    proof -
      have "4096 * unat num = 4096 + 4096 * n" using Suc.hyps(2) by simp
      then show ?thesis
        using IH that erased True s1 mem_fill_append [of "cells d" "4096 * unat sec" 4096 "0xff" "4096 * n"]
        by (simp add: algebra_simps)
    qed
    ultimately show ?thesis using grow same_outside_trans by blast
  next
    case False
    then have "d' = d1" "ret = r"
      using Suc.prems(1) es by (auto simp: erase_loop.simps [of R sec])
    moreover have "num = 1" if "r = ESP_OK" using False that by simp
    ultimately show ?thesis
      using grow erase_sector(2) [OF es] by auto
  qed
qed

lemma erase_range:
  assumes "spi_flash_erase_range R a n d = (d', ret)" and "n \<noteq> 0"
  shows "same_outside (unat a) (unat n) (cells d) (cells d')"
    and "ret = ESP_OK \<Longrightarrow> cells d' = mem_fill (cells d) (unat a) (unat n) 0xff"
    and "ret = ESP_OK \<Longrightarrow> unat a mod 4096 = 0 \<and> unat n mod 4096 = 0"
proof -
  obtain d1 where wp: "spi_flash_check_wr_protect R d = (d1, True)"
    using wr_protect_True [of d] by (cases "spi_flash_check_wr_protect R d") auto
  then have c1: "cells d1 = cells d" using wr_protect_cells [of d] by simp
  let ?al = "unat a mod 4096 = 0 \<and> unat n mod 4096 = 0"
  have al: "a mod SPI_FLASH_SEC_SIZE \<noteq> 0 \<or> n mod SPI_FLASH_SEC_SIZE \<noteq> 0 \<longleftrightarrow> \<not> ?al"
    by (simp add: SPI_FLASH_SEC_SIZE_def unat_mod flip: unat_eq_zero)
  have loop: "erase_loop R (a div SPI_FLASH_SEC_SIZE) (n div SPI_FLASH_SEC_SIZE) d1 = (d', ret)" if ?al
    using assms(1) al wp that by (simp add: spi_flash_erase_range_def)
  have u: "4096 * unat (a div SPI_FLASH_SEC_SIZE) = unat a" "4096 * unat (n div SPI_FLASH_SEC_SIZE) = unat n"
    "n div SPI_FLASH_SEC_SIZE \<noteq> 0" if ?al
  proof -
    show "4096 * unat (a div SPI_FLASH_SEC_SIZE) = unat a" and n: "4096 * unat (n div SPI_FLASH_SEC_SIZE) = unat n"
      using that by (simp_all add: SPI_FLASH_SEC_SIZE_def unat_div mult_div_of_mod_0)
    show "n div SPI_FLASH_SEC_SIZE \<noteq> 0" using n assms(2) by (auto simp: unat_eq_zero)
  qed
  have bad: "d' = d \<and> ret = ESP_ERR_FLASH_OP_FAIL" if "\<not> ?al"
    using assms(1) al that by (auto simp: spi_flash_erase_range_def split: if_splits)
  show "same_outside (unat a) (unat n) (cells d) (cells d')"
    using bad erase_loop [OF loop] u c1 by (cases ?al) auto
  show "ret = ESP_OK \<Longrightarrow> cells d' = mem_fill (cells d) (unat a) (unat n) 0xff"
    using bad erase_loop [OF loop] u c1 by (cases ?al) auto
  show "ret = ESP_OK \<Longrightarrow> ?al" using bad by blast
qed

lemma chip_lt: "unat (chip_size (chip R)) < 2 ^ 32"
proof -
  have "unat (chip_size (chip R)) < 2 ^ LENGTH(32)" by (rule unsigned_less)
  then show ?thesis by simp
qed

lemma program:
  assumes "SPI_page_program R a bs d = (d', ok)"
    and "unat a mod 4 = 0" "length bs mod 4 = 0" "unat a mod 256 + length bs \<le> 256"
    and "unat a + length bs \<le> unat (chip_size (chip R))"
  shows "same_outside (unat a) (length bs) (cells d) (cells d')"
    and "ok \<Longrightarrow> cells d' = nor_write (cells d) (unat a) bs"
  using program_ok [OF assms(2-5), of d d'] program_fail [OF assms(2-5), of d d'] assms(1)
  by (cases ok; auto)+

lemma program_page_step:
  assumes "unat pgm_len mod 4 = 0" and "(unat target + unat pgm_len) mod 256 = 0"
    and "unat target + unat pgm_len + 256 \<le> unat (chip_size (chip R))"
    and "unat pgm_len + 256 \<le> length bs" and i: "unat i < unat pgm_num"
  obtains d1 ok where
    "program_pages R target bs pgm_num i pgm_len d =
      (if ok then program_pages R target bs pgm_num (i + 1) (pgm_len + 256) d1 else Some (d1, None))"
    "same_outside (unat target + unat pgm_len) 256 (cells d) (cells d1)"
    "ok \<Longrightarrow> cells d1 = nor_write (cells d) (unat target + unat pgm_len) (take 256 (drop (unat pgm_len) bs))"
    "unat (pgm_len + 256) = unat pgm_len + 256"
proof -
  have lt: "unat target + unat pgm_len + 256 < 2 ^ 32"
    using assms(3) chip_lt by linarith
  have ta: "unat (target + pgm_len) = unat target + unat pgm_len"
    by (rule unat_add_no_wrap) (use lt in simp)
  have l1: "unat (pgm_len + 256) = unat pgm_len + 256"
    using unat_add_no_wrap [of pgm_len 256] lt by simp
  let ?pg = "take 256 (drop (unat pgm_len) bs)"
  have len: "length ?pg = 256" using assms(4) by simp
  obtain d1 ok where pp: "SPI_page_program R (target + pgm_len) ?pg d = (d1, ok)" by fastforce
  have mod4: "(unat target + unat pgm_len) mod 4 = 0"
    using assms(2) by (rule mod_0_trans) simp
  have lt_i: "ucast i < pgm_num"
    using i by (simp add: word_less_nat_alt)
  have step: "program_pages R target bs pgm_num i pgm_len d =
      (if ok then program_pages R target bs pgm_num (i + 1) (pgm_len + 256) d1 else Some (d1, None))"
    using pp by (subst program_pages.simps) (simp add: lt_i page mult_div_of_mod_0 assms(1))
  note pr = program [OF pp, unfolded ta len, OF mod4 _ _ assms(3)]
  show thesis
    using that [OF step _ _ l1] pr assms(2) by simp
qed

lemma program_pages:
  assumes "pgm_num \<le> 255" and "unat i + n = unat pgm_num"
    and "unat pgm_len mod 4 = 0" and "(unat target + unat pgm_len) mod 256 = 0"
    and "unat target + unat pgm_len + 256 * n \<le> unat (chip_size (chip R))"
    and "unat pgm_len + 256 * n \<le> length bs"
  shows "\<exists>d' r. program_pages R target bs pgm_num i pgm_len d = Some (d', r)
    \<and> same_outside (unat target + unat pgm_len) (256 * n) (cells d) (cells d')
    \<and> (\<forall>l. r = Some l \<longrightarrow> unat l = unat pgm_len + 256 * n
        \<and> cells d' = nor_write (cells d) (unat target + unat pgm_len) (take (256 * n) (drop (unat pgm_len) bs)))"
  using assms
proof (induction n arbitrary: i pgm_len d)
  case 0
  then have "\<not> ucast i < pgm_num" by (simp add: word_less_nat_alt)
  then show ?case by (simp add: program_pages.simps)
next
  case (Suc n)
  have i: "unat i < unat pgm_num" using Suc.prems(2) by simp
  have "unat i < 255" using i Suc.prems(1) by (simp add: word_le_nat_alt)
  then have i1: "unat (i + 1) = unat i + 1" by (simp add: unat_word_ariths)
  have b: "unat target + unat pgm_len + 256 \<le> unat (chip_size (chip R))" "unat pgm_len + 256 \<le> length bs"
    using Suc.prems(5,6) by simp_all
  obtain d1 ok where step: "program_pages R target bs pgm_num i pgm_len d =
      (if ok then program_pages R target bs pgm_num (i + 1) (pgm_len + 256) d1 else Some (d1, None))"
    and out1: "same_outside (unat target + unat pgm_len) 256 (cells d) (cells d1)"
    and res1: "ok \<Longrightarrow> cells d1 = nor_write (cells d) (unat target + unat pgm_len) (take 256 (drop (unat pgm_len) bs))"
    and l1: "unat (pgm_len + 256) = unat pgm_len + 256"
    using program_page_step [OF Suc.prems(3,4) b i] by blast
  let ?a = "unat target + unat pgm_len"
  show ?case
  proof (cases ok)
    case False
    then show ?thesis using step out1 by (auto intro: same_outside_mono)
  next
    case True
    have "(unat pgm_len + 256) mod 4 = 0"
      using Suc.prems(3) mod_add_eq [of "unat pgm_len" 4 256] by simp
    then have p: "unat (i + 1) + n = unat pgm_num" "unat (pgm_len + 256) mod 4 = 0"
      "(unat target + unat (pgm_len + 256)) mod 256 = 0"
      "unat target + unat (pgm_len + 256) + 256 * n \<le> unat (chip_size (chip R))"
      "unat (pgm_len + 256) + 256 * n \<le> length bs"
      using Suc.prems i1 l1 by (simp_all add: mod_add_eq flip: add.assoc)
    obtain d2 r where rec: "program_pages R target bs pgm_num (i + 1) (pgm_len + 256) d1 = Some (d2, r)"
      and out2: "same_outside (?a + 256) (256 * n) (cells d1) (cells d2)"
      and res2: "\<And>l. r = Some l \<Longrightarrow> unat l = unat pgm_len + 256 + 256 * n
        \<and> cells d2 = nor_write (cells d1) (?a + 256) (take (256 * n) (drop (unat pgm_len + 256) bs))"
      using Suc.IH [OF Suc.prems(1) p, of d1] unfolding l1 by (auto simp: add.assoc)
    have "same_outside ?a (256 * Suc n) (cells d) (cells d1)" "same_outside ?a (256 * Suc n) (cells d1) (cells d2)"
      using out1 out2 by (auto elim!: same_outside_mono)
    then have "same_outside ?a (256 * Suc n) (cells d) (cells d2)" by (rule same_outside_trans)
    moreover have "cells d2 = nor_write (cells d) ?a (take (256 * Suc n) (drop (unat pgm_len) bs))" if "r = Some l" for l
    proof -
      have "take (256 * Suc n) (drop (unat pgm_len) bs)
          = take 256 (drop (unat pgm_len) bs) @ take (256 * n) (drop (unat pgm_len + 256) bs)"
        by (simp add: take_add add.commute)
      moreover have "length (take 256 (drop (unat pgm_len) bs)) = 256" using b(2) by simp
      ultimately show ?thesis
        using res2 [OF that] res1 [OF True] nor_write_append [of "cells d" ?a "take 256 (drop (unat pgm_len) bs)"]
        by simp
    qed
    ultimately show ?thesis using step rec res2 True by auto
  qed
qed

lemma page_head:
  fixes target :: u32
  shows "unat (256 - target mod 256) = 256 - unat target mod 256"
    and "(unat target + (256 - unat target mod 256)) mod 256 = 0"
    and "unat target mod 4 = 0 \<Longrightarrow> (256 - unat target mod 256) mod 4 = 0"
proof -
  have le: "target mod 256 \<le> 256"
    using unat_mod [of target 256] by (simp add: word_le_nat_alt less_imp_le)
  show "unat (256 - target mod 256) = 256 - unat target mod 256"
    using unat_sub [OF le] by (simp add: unat_mod)
  have t: "unat target = 256 * (unat target div 256) + unat target mod 256" by simp
  have lt: "unat target mod 256 < 256" by simp
  have aux: "x = 256 * q + r \<Longrightarrow> r < 256 \<Longrightarrow> x + (256 - r) = 256 * (q + 1)" for x q r :: nat
    by simp
  have "unat target + (256 - unat target mod 256) = 256 * (unat target div 256 + 1)"
    using aux [OF t lt] .
  then show a: "(unat target + (256 - unat target mod 256)) mod 256 = 0"
    by (metis mod_mult_self1_is_0)
  assume "unat target mod 4 = 0"
  then have "4 dvd unat target" "4 dvd unat target + (256 - unat target mod 256)"
    using mod_0_trans [OF a, of 4] by (auto simp: mod_eq_0_iff_dvd)
  then show "(256 - unat target mod 256) mod 4 = 0"
    using dvd_add_right_iff by (metis mod_eq_0_iff_dvd)
qed

lemma flash_program:
  assumes "unat target mod 4 = 0" and "unat len mod 4 = 0" and "length bs = unat len"
    and "unat target + unat len \<le> unat (chip_size (chip R))" and "unat len \<le> 65536"
  obtains d' ret where "spi_flash_program R target bs len d = Some (d', ret)"
    and "same_outside (unat target) (unat len) (cells d) (cells d')"
    and "ret = ESP_OK \<Longrightarrow> cells d' = nor_write (cells d) (unat target) bs"
proof -
  let ?T = "unat target"
  define p where "p = 256 - ?T mod 256"
  have p: "p \<le> 256" "0 < p" "p mod 4 = 0" "(?T + p) mod 256 = 0" "?T mod 256 + p = 256"
    using page_head [of target] assms(1) mod_less_divisor [of 256 ?T] by (auto simp: p_def)
  have up: "unat (page_size (chip R) - target mod page_size (chip R)) = p"
    using page_head(1) by (simp add: page p_def)
  let ?w = "page_size (chip R) - target mod page_size (chip R)"
  show thesis
  proof (cases "unat len < p")
    case True
    obtain d1 ok where pp: "SPI_page_program R target bs d = (d1, ok)" by fastforce
    have "spi_flash_program R target bs len d = Some (d1, if ok then ESP_OK else ESP_ERR_FLASH_OP_FAIL)"
      using True pp assms(3) up by (simp add: spi_flash_program_def Let_def word_less_nat_alt)
    moreover note program [OF pp assms(1)]
    ultimately show thesis
      using that True p assms by (auto split: if_splits)
  next
    case False
    let ?L = "unat len"
    obtain d1 ok where pp: "SPI_page_program R target (take p bs) d = (d1, ok)" by fastforce
    have out1: "same_outside ?T p (cells d) (cells d1)"
      and res1: "ok \<Longrightarrow> cells d1 = nor_write (cells d) ?T (take p bs)"
      using program [OF pp assms(1)] p assms(3,4) False by simp_all
    define n where "n = (?L - p) div 256"
    have un: "unat ((len - ?w) div page_size (chip R)) = n"
      using False up by (simp add: n_def unat_div unat_sub word_le_nat_alt page)
    have n: "n \<le> 255" "256 * n \<le> ?L - p" "?L - p - 256 * n < 256"
      using assms(5) p(2) by (simp_all add: n_def flip: minus_mod_eq_mult_div)
    have b: "?T + p + 256 * n \<le> unat (chip_size (chip R))" "p + 256 * n \<le> length bs"
      using n(2) False assms(3,4) by simp_all
    have "(len - ?w) div page_size (chip R) \<le> 255" using n(1) by (simp add: word_le_nat_alt un)
    note pages = program_pages [of "(len - ?w) div page_size (chip R)" 0 n ?w target bs, unfolded up un, OF this]
    obtain d2 r where rec: "program_pages R target bs ((len - ?w) div page_size (chip R)) 0 ?w d1 = Some (d2, r)"
      and out2: "same_outside (?T + p) (256 * n) (cells d1) (cells d2)"
      and res2: "\<And>l. r = Some l \<Longrightarrow> unat l = p + 256 * n
         \<and> cells d2 = nor_write (cells d1) (?T + p) (take (256 * n) (drop p bs))"
      using pages [of d1] p b by auto
    show thesis
    proof (cases "ok \<and> r \<noteq> None")
      case False
      then have "spi_flash_program R target bs len d = Some (if ok then d2 else d1, ESP_ERR_FLASH_OP_FAIL)"
        using \<open>\<not> unat len < p\<close> pp rec up
        by (auto simp: spi_flash_program_def Let_def word_less_nat_alt)
      moreover have "same_outside ?T ?L (cells d) (cells d1)" "same_outside ?T ?L (cells d1) (cells d2)"
        using out1 out2 b(2) assms(3) \<open>\<not> unat len < p\<close> by (auto elim!: same_outside_mono)
      then have "same_outside ?T ?L (cells d) (cells (if ok then d2 else d1))"
        using same_outside_trans [of ?T ?L "cells d" "cells d1" "cells d2"] by simp
      ultimately show thesis by (rule that) simp
    next
      case True
      then obtain l where l: "r = Some l" by auto
      let ?tl = "take (?L - unat l) (drop (unat l) bs)"
      have ul: "unat l = p + 256 * n" using res2 [OF l] by simp
      have la: "unat (target + l) = ?T + (p + 256 * n)" 
        using unat_add_no_wrap [of target l] b(1) chip_lt ul by simp
      have ll: "unat (len - l) = ?L - unat l"
        using b(2) assms(3) ul by (simp add: unat_sub word_le_nat_alt)
      have len_tl: "length ?tl = ?L - unat l" using assms(3) by simp
      have m4: "unat l mod 4 = 0" "(?T + unat l) mod 4 = 0" "(?L - unat l) mod 4 = 0" "(?T + unat l) mod 256 = 0"
      proof -
        have a: "256 * n mod 4 = 0" by (rule mod_0_trans [of _ 256]) simp_all
        show l4: "unat l mod 4 = 0"
          using p(3) a ul mod_add_eq [of p 4 "256 * n"] by simp
        show "(?T + unat l) mod 4 = 0"
          using assms(1) l4 mod_add_eq [of ?T 4 "unat l"] by simp
        show "(?L - unat l) mod 4 = 0"
          using assms(2) l4 by (simp add: mod_eq_0_iff_dvd)
        show "(?T + unat l) mod 256 = 0"
          using p(4) ul mod_add_eq [of "?T + p" 256 "256 * n"] by (simp add: add.assoc)
      qed
      obtain d3 ok3 where pp3: "SPI_page_program R (target + l) ?tl d2 = (d3, ok3)" by fastforce
      have le: "unat l \<le> ?L" using b(2) assms(3) ul by simp
      have out3: "same_outside (?T + unat l) (?L - unat l) (cells d2) (cells d3)"
        and res3: "ok3 \<Longrightarrow> cells d3 = nor_write (cells d2) (?T + unat l) ?tl"
        using program [OF pp3, unfolded la len_tl, folded ul] m4 n(3) ul le assms(4) by simp_all
      have run: "spi_flash_program R target bs len d = Some (d3, if ok3 then ESP_OK else ESP_ERR_FLASH_OP_FAIL)"
        using False pp rec l True ll m4(1) pp3 up
        by (simp add: spi_flash_program_def Let_def word_less_nat_alt mult_div_of_mod_0)
      have "same_outside ?T ?L (cells d) (cells d1)" "same_outside ?T ?L (cells d1) (cells d2)"
        "same_outside ?T ?L (cells d2) (cells d3)"
        using out1 out2 out3 b(2) assms(3) False ul by (auto elim!: same_outside_mono)
      then have out: "same_outside ?T ?L (cells d) (cells d3)" by (blast intro: same_outside_trans)
      have "cells d3 = nor_write (cells d) ?T bs" if ok3
      proof -
        have "bs = take p bs @ take (256 * n) (drop p bs) @ ?tl"
          using assms(3) ul by (metis append_take_drop_id add.commute drop_drop length_drop take_all order_refl)
        moreover have "length (take p bs) = p" "length (take (256 * n) (drop p bs)) = 256 * n"
          using b(2) by simp_all
        ultimately show ?thesis
          using res1 res2 [OF l] res3 that True ul
            nor_write_append [of "cells d" ?T "take p bs" "take (256 * n) (drop p bs)"]
            nor_write_append [of "cells d" ?T "take p bs @ take (256 * n) (drop p bs)" ?tl]
          by (simp add: add.assoc)
      qed
      then show thesis by (intro that [OF run out]) (simp split: if_splits)
    qed
  qed
qed

lemma chip_mod_4: "unat (chip_size (chip R)) mod 4 = 0"
  using whole_sectors by (rule mod_0_trans) simp

lemma flash_read_raw:
  assumes "flash_read_raw R a n d = Inr bs" and "unat a mod 4 = 0" "n mod 4 = 0"
    and "unat a + n \<le> unat (chip_size (chip R))"
  shows "bs = mem_read (cells d) (unat a) n"
  using assms read_data [of a n d bs] by (auto simp: flash_read_raw_def split: option.splits)

lemma read_loop:
  "read_loop R a n d = Inr bs \<Longrightarrow> unat a mod 4 = 0 \<Longrightarrow> unat a + n \<le> unat (chip_size (chip R))
    \<Longrightarrow> bs = mem_read (cells d) (unat a) n"
proof (induction n arbitrary: a bs rule: less_induct)
  case (less n)
  show ?case
  proof (cases "n = 0")
    case True
    then show ?thesis using less.prems by (simp add: read_loop.simps)
  next
    case False
    define len where "len = (if SPI_READ_BUF_MAX \<le> n then SPI_READ_BUF_MAX else n)"
    have len: "0 < len" "len \<le> n" "len \<le> 64" "len = 64 \<or> len = n"
      using False by (auto simp: len_def SPI_READ_BUF_MAX_def)
    define w where "w = 4 * ((len + 3) div 4)"
    have w: "unat (FLASH_ALIGN (of_nat len)) = w" using len(3) by (simp add: w_def flash_align_of_nat)
    have al: "len \<le> w" "w mod 4 = 0" by (simp_all add: w_def)
    have bnd: "unat a + len \<le> unat (chip_size (chip R))" using len(2) less.prems(3) by linarith
    have fit: "unat a + w \<le> unat (chip_size (chip R))"
      unfolding w_def by (rule round_up_le [OF less.prems(2) chip_mod_4 bnd])
    obtain buf rest where raw: "flash_read_raw R a w d = Inr buf"
      and rec: "read_loop R (a + of_nat len) (n - len) d = Inr rest" and bs: "bs = take len buf @ rest"
      using less.prems(1) False w by (subst (asm) read_loop.simps) (auto simp: Let_def len_def split: sum.splits)
    have buf: "take len buf = mem_read (cells d) (unat a) len"
      using flash_read_raw [OF raw less.prems(2) al(2) fit] al(1) by (simp add: take_mem_read)
    have ua: "unat (a + of_nat len) = unat a + len"
      using unat_add_no_wrap [of a "of_nat len"] len(3) bnd chip_lt by (simp add: unat_of_nat_small)
    have "rest = mem_read (cells d) (unat a + len) (n - len)"
    proof (cases "len = n")
      case True
      then show ?thesis using rec by (simp add: read_loop.simps)
    next
      case False
      then have "(unat a + len) mod 4 = 0" using len(4) less.prems(2) by presburger
      then show ?thesis
        using less.IH [of "n - len" "a + of_nat len" rest] rec len less.prems(3) ua by simp
    qed
    then show ?thesis
      using bs buf len(2) mem_read_append [of "cells d" "unat a" len "n - len"] by simp
  qed
qed

lemma flash_read:
  assumes "spi_flash_read R a dest n d = Inr bs" and "unat a + n \<le> unat (chip_size (chip R))"
  shows "bs = mem_read (cells d) (unat a) n"
proof -
  have n32: "n < 2 ^ 32" using assms(2) chip_lt by linarith
  consider (empty) "n = 0" | (aligned) "n \<noteq> 0" "\<not> NOT_ALIGN a" "read_loop R a n d = Inr bs"
    | (direct) "n \<noteq> 0" "\<not> NOT_ALIGN a" "\<not> NOT_ALIGN (of_nat n)" "flash_read_raw R a n d = Inr bs"
    | (head) "n \<noteq> 0" "NOT_ALIGN a"
    using assms(1) by (auto simp: spi_flash_read_def split: if_splits)
  then show ?thesis
  proof cases
    case empty
    then show ?thesis using assms(1) by (simp add: spi_flash_read_def)
  next
    case aligned
    then show ?thesis using read_loop [of a n d bs] assms(2) by (simp add: not_align_iff)
  next
    case direct
    then show ?thesis
      using flash_read_raw [of a n d bs] assms(2) n32 by (simp add: not_align_iff unat_of_nat_small)
  next
    case head
    let ?r = "FLASH_ALIGN_BEFORE a"
    define c where "c = unat a mod 4"
    have lt: "unat a < unat (chip_size (chip R))" using head(1) assms(2) by linarith
    note r = flash_align_before [OF head(2) lt chip_mod_4 chip_lt, folded c_def]
    have c: "c < 4" "4 * (unat a div 4) + c = unat a" by (simp_all add: c_def)
    define w where "w = (if 4 - c > n then n else 4 - c)"
    have w: "w \<le> n" "w \<le> 4 - c" "w = n \<or> w = 4 - c" by (auto simp: w_def)
    obtain buf rest where raw: "flash_read_raw R ?r 4 d = Inr buf"
      and rec: "read_loop R (a + of_nat w) (n - w) d = Inr rest" and bs: "bs = take w (drop c buf) @ rest"
      using assms(1) head by (auto simp: spi_flash_read_def Let_def r(2) w_def split: sum.splits if_splits)
    have "buf = mem_read (cells d) (4 * (unat a div 4)) 4"
      using flash_read_raw [OF raw] r by simp
    then have buf: "take w (drop c buf) = mem_read (cells d) (unat a) w"
      using w(2) c by (simp add: drop_mem_read take_mem_read)
    have ua: "unat (a + of_nat w) = unat a + w"
      using unat_add_no_wrap [of a "of_nat w"] w c(1) assms(2) chip_lt by (simp add: unat_of_nat_small)
    have "rest = mem_read (cells d) (unat a + w) (n - w)"
    proof (cases "w = n")
      case True
      then show ?thesis using rec by (simp add: read_loop.simps)
    next
      case False
      then have "unat a + w = 4 * (unat a div 4 + 1)" using w(3) c by auto
      then have "(unat a + w) mod 4 = 0" by (metis mod_mult_self1_is_0)
      then show ?thesis
        using read_loop [OF rec] w assms(2) ua by simp
    qed
    then show ?thesis
      using bs buf w(1) mem_read_append [of "cells d" "unat a" w "n - w"] by simp
  qed
qed

lemma stack_nz: "k \<le> 64 \<Longrightarrow> stack_buf R + of_nat k \<noteq> 0"
proof
  assume k: "k \<le> 64" and z: "stack_buf R + of_nat k = 0"
  have "unat (stack_buf R) < 0x40000000" using stack_in_dram(2) by (simp add: word_less_nat_alt)
  then have "unat (stack_buf R + of_nat k) = unat (stack_buf R) + k"
    using k unat_add_no_wrap [of "stack_buf R" "of_nat k"] by (simp add: unat_of_nat_small)
  moreover have "0 < unat (stack_buf R)" using stack_in_dram(1) by (simp add: word_le_nat_alt)
  ultimately show False using z by simp
qed

text \<open>One round: the \<open>len\<close> data bytes and what the last word holds behind them.\<close>

lemma write_round:
  assumes "unat a mod 4 = 0" and "len \<le> 64" and "unat a + len \<le> unat (chip_size (chip R))" "0 < len"
    and "length bs = len" and w: "w = unat (FLASH_ALIGN (of_nat len))"
    and tail: "(if w \<noteq> len then map_sum id (drop (len - (w - 4)))
        (spi_flash_read R (a + of_nat (w - 4)) (stack_buf R + of_nat (w - 4)) 4 d) else Inr []) = Inr tb"
  obtains d' ret where "spi_flash_program R a (bs @ tb) (of_nat w) d = Some (d', ret)"
    and "same_outside (unat a) (4 * ((len + 3) div 4)) (cells d) (cells d')"
    and "ret = ESP_OK \<Longrightarrow> cells d' = nor_write (cells d) (unat a) bs"
proof -
  have w4: "w = 4 * ((len + 3) div 4)" using w assms(2) by (simp add: flash_align_of_nat)
  have fit: "unat a + w \<le> unat (chip_size (chip R))"
    unfolding w4 by (rule round_up_le [OF assms(1) chip_mod_4 assms(3)])
  have lw: "len \<le> w" "w \<le> 64" "w mod 4 = 0" "w < len + 4" "4 \<le> w" using assms(2,4) by (simp_all add: w4)
  have tb: "tb = mem_read (cells d) (unat a + len) (w - len)"
  proof (cases "w = len")
    case True
    then show ?thesis using tail by simp
  next
    case False
    obtain r where rd: "spi_flash_read R (a + of_nat (w - 4)) (stack_buf R + of_nat (w - 4)) 4 d = Inr r"
      and tb: "tb = drop (len - (w - 4)) r"
      using tail False
      by (cases "spi_flash_read R (a + of_nat (w - 4)) (stack_buf R + of_nat (w - 4)) 4 d") (auto simp del: of_nat_diff)
    have ua: "unat (a + of_nat (w - 4)) = unat a + (w - 4)"
      using unat_add_no_wrap [of a "of_nat (w - 4)"] lw fit chip_lt by (simp add: unat_of_nat_small del: of_nat_diff)
    have "r = mem_read (cells d) (unat a + (w - 4)) 4"
      using flash_read [OF rd] ua fit lw by simp
    then show ?thesis using tb lw by (simp add: drop_mem_read)
  qed
  have uw: "unat (of_nat w :: u32) = w" using lw by (simp add: unat_of_nat_small)
  obtain d' ret where run: "spi_flash_program R a (bs @ tb) (of_nat w) d = Some (d', ret)"
    and out: "same_outside (unat a) w (cells d) (cells d')"
    and res: "ret = ESP_OK \<Longrightarrow> cells d' = nor_write (cells d) (unat a) (bs @ tb)"
    using flash_program [of a "of_nat w" "bs @ tb" d] assms(1,5) lw fit tb uw by auto
  show thesis
    using that [OF run] out res nor_write_keep [of "cells d" "unat a" bs "w - len"] assms(5)
    by (simp add: w4 [symmetric] tb)
qed

lemma write_loop:
  assumes "unat a mod 4 = 0" and "unat a + length tmp \<le> unat (chip_size (chip R))"
  shows "\<exists>d' ret. write_loop R a tmp d = Some (d', ret)
    \<and> same_outside (unat a) (4 * ((length tmp + 3) div 4)) (cells d) (cells d')
    \<and> (ret = ESP_OK \<longrightarrow> cells d' = nor_write (cells d) (unat a) tmp)"
  using assms
proof (induction "length tmp" arbitrary: a tmp d rule: less_induct)
  case less
  show ?case
  proof (cases "tmp = []")
    case True
    then show ?thesis by (simp add: write_loop.simps)
  next
    case False
    let ?n = "length tmp"
    define len where "len = (if SPI_READ_BUF_MAX \<le> ?n then SPI_READ_BUF_MAX else ?n)"
    have len: "0 < len" "len \<le> ?n" "len \<le> 64" "len = 64 \<or> len = ?n"
      using False by (auto simp: len_def SPI_READ_BUF_MAX_def)
    define w where "w = unat (FLASH_ALIGN (of_nat len))"
    define tail where "tail = (if w \<noteq> len then map_sum id (drop (len - (w - 4)))
        (spi_flash_read R (a + of_nat (w - 4)) (stack_buf R + of_nat (w - 4)) 4 d) else Inr [])"
    have step: "write_loop R a tmp d = (case tail of Inl e \<Rightarrow> Some (d, e)
        | Inr tb \<Rightarrow> Option.bind (spi_flash_program R a (take len tmp @ tb) (of_nat w) d)
            (\<lambda>(d1, ret). if ret \<noteq> ESP_OK then Some (d1, ret)
               else write_loop R (a + of_nat len) (drop len tmp) d1))"
      unfolding tail_def w_def len_def using False by (subst write_loop.simps) (simp only: Let_def if_False)
    show ?thesis
    proof (cases tail)
      case (Inl e)
      then have "e \<noteq> ESP_OK"
        by (cases "spi_flash_read R (a + of_nat (w - 4)) (stack_buf R + of_nat (w - 4)) 4 d")
          (auto simp: tail_def split: if_splits dest: flash_read_err)
      then show ?thesis using step Inl by simp
    next
      case (Inr tb)
      have bnd: "unat a + len \<le> unat (chip_size (chip R))" using len(2) less.prems(2) by linarith
      obtain d1 ret where run: "spi_flash_program R a (take len tmp @ tb) (of_nat w) d = Some (d1, ret)"
        and out1: "same_outside (unat a) (4 * ((len + 3) div 4)) (cells d) (cells d1)"
        and res1: "ret = ESP_OK \<Longrightarrow> cells d1 = nor_write (cells d) (unat a) (take len tmp)"
        using write_round [OF less.prems(1) len(3) bnd len(1) _ w_def Inr [unfolded tail_def]] len(2)
        by (metis length_take min.absorb2)
      have le: "4 * ((len + 3) div 4) \<le> 4 * ((?n + 3) div 4)" using len(2) by (simp add: div_le_mono)
      have out: "same_outside (unat a) (4 * ((?n + 3) div 4)) (cells d) (cells d1)"
        using out1 by (rule same_outside_mono) (use le in simp_all)
      show ?thesis
      proof (cases "ret = ESP_OK \<and> len \<noteq> ?n")
        case False
        then show ?thesis using step Inr run out res1
          by (cases "ret = ESP_OK") (simp_all add: write_loop.simps)
      next
        case True
        then have l64: "len = 64" using len(4) by simp
        have ua: "unat (a + of_nat len) = unat a + len"
          using unat_add_no_wrap [of a "of_nat len"] len(3) bnd chip_lt by (simp add: unat_of_nat_small)
        have lt: "length (drop len tmp) < ?n" using len by simp
        have "(unat a + len) mod 4 = 0" using less.prems(1) l64 mod_add_eq [of "unat a" 4 64] by simp
        then obtain d2 ret2 where rec: "write_loop R (a + of_nat len) (drop len tmp) d1 = Some (d2, ret2)"
          and out2: "same_outside (unat a + len) (4 * ((?n - len + 3) div 4)) (cells d1) (cells d2)"
          and res2: "ret2 = ESP_OK \<Longrightarrow> cells d2 = nor_write (cells d1) (unat a + len) (drop len tmp)"
          using less.hyps [OF lt, of "a + of_nat len" d1] len(1,2) less.prems(2) ua by auto
        have "64 + 4 * ((?n - 64 + 3) div 4) \<le> 4 * ((?n + 3) div 4)"
        proof -
          have e1: "(?n - 64 + 3 + 16 * 4) div 4 = 16 + (?n - 64 + 3) div 4" by (rule div_mult_self1) simp
          have e2: "?n - 64 + 3 + 16 * 4 = ?n + 3" using len(2) l64 by simp
          from e1 [unfolded e2] show ?thesis by linarith
        qed
        then have "same_outside (unat a) (4 * ((?n + 3) div 4)) (cells d1) (cells d2)"
          using out2 l64 by (auto elim!: same_outside_mono)
        with out have "same_outside (unat a) (4 * ((?n + 3) div 4)) (cells d) (cells d2)"
          by (rule same_outside_trans)
        moreover have "ret2 = ESP_OK \<Longrightarrow> cells d2 = nor_write (cells d) (unat a) tmp"
          using res2 res1 True len(2) nor_write_append [of "cells d" "unat a" "take len tmp" "drop len tmp"]
          by simp
        ultimately show ?thesis
          using step Inr run rec True by simp
      qed
    qed
  qed
qed

lemma flash_write:
  assumes "unat a + length bytes < 2 ^ 32" and "length bytes \<le> 65536"
  shows "\<exists>d' ret. spi_flash_write R a src bytes d = Some (d', ret)
    \<and> same_outside (4 * (unat a div 4)) (4 * ((unat a mod 4 + length bytes + 3) div 4)) (cells d) (cells d')
    \<and> (ret = ESP_OK \<longrightarrow> cells d' = nor_write (cells d) (unat a) bytes)"
proof -
  let ?n = "length bytes" and ?a = "unat a" and ?C = "unat (chip_size (chip R))"
  let ?goal = "\<lambda>run. \<exists>d' ret. run = Some (d', ret)
    \<and> same_outside (4 * (?a div 4)) (4 * ((?a mod 4 + ?n + 3) div 4)) (cells d) (cells d')
    \<and> (ret = ESP_OK \<longrightarrow> cells d' = nor_write (cells d) ?a bytes)"
  obtain d0 where wp: "spi_flash_check_wr_protect R d = (d0, True)"
    using wr_protect_True [of d] by (cases "spi_flash_check_wr_protect R d") auto
  then have c0: "cells d0 = cells d" using wr_protect_cells [of d] by simp
  have un: "unat (of_nat ?n :: u32) = ?n" using assms(2) by (simp add: unat_of_nat_small)
  have sum: "unat (a + of_nat ?n) = ?a + ?n" using unat_add_no_wrap [of a "of_nat ?n"] assms(1) un by simp
  consider (none) "bytes = []" | (bad) "bytes \<noteq> []" "src = 0 \<or> \<not> ?a + ?n \<le> ?C"
    | (direct) "bytes \<noteq> []" "src \<noteq> 0" "?a + ?n \<le> ?C" "?a mod 4 = 0" "?n mod 4 = 0" "\<not> NOT_ALIGN src" "\<not> IS_FLASH src"
    | (bounce) "bytes \<noteq> []" "src \<noteq> 0" "?a + ?n \<le> ?C" "?a mod 4 = 0" "NOT_ALIGN src \<or> NOT_ALIGN (of_nat ?n) \<or> IS_FLASH src"
    | (head) "bytes \<noteq> []" "src \<noteq> 0" "?a + ?n \<le> ?C" "?a mod 4 \<noteq> 0"
    by (auto simp: not_align_iff un)
  then show ?thesis
  proof cases
    case none
    then show ?thesis by (simp add: spi_flash_write_def)
  next
    case bad
    then show ?thesis
      by (auto simp: spi_flash_write_def Let_def sum word_less_nat_alt)
  next
    case direct
    then have run: "spi_flash_write R a src bytes d = spi_flash_program R a bytes (of_nat ?n) d0"
      by (simp add: spi_flash_write_def wp not_align_iff un word_less_nat_alt sum)
    obtain d' ret where "spi_flash_program R a bytes (of_nat ?n) d0 = Some (d', ret)"
      and "same_outside ?a ?n (cells d0) (cells d')"
      and "ret = ESP_OK \<Longrightarrow> cells d' = nor_write (cells d0) ?a bytes"
      using flash_program [of a "of_nat ?n" bytes d0] un direct assms(2) by auto
    then show ?thesis using run c0 direct(4,5) by (auto elim!: same_outside_mono)
  next
    case bounce
    then have run: "spi_flash_write R a src bytes d = write_loop R a bytes d0"
      by (auto simp: spi_flash_write_def wp not_align_iff un word_less_nat_alt sum)
    then show ?thesis using write_loop [OF bounce(4,3), of d0] c0 bounce(4) by (auto elim!: same_outside_mono)
  next
    case head
    let ?r = "FLASH_ALIGN_BEFORE a"
    define c where "c = ?a mod 4"
    have lt: "?a < ?C" using head(1,3) by (cases bytes) auto
    have na: "NOT_ALIGN a" using head(4) by (simp add: not_align_iff)
    note r = flash_align_before [OF na lt chip_mod_4 chip_lt, folded c_def]
    have c: "c < 4" "4 * (?a div 4) + c = ?a" by (simp_all add: c_def)
    define w where "w = (if 4 - c > ?n then ?n else 4 - c)"
    have w: "w \<le> ?n" "w \<le> 4 - c" "w = ?n \<or> w = 4 - c" by (auto simp: w_def)
    have run: "spi_flash_write R a src bytes d = (case spi_flash_read R ?r (stack_buf R) 4 d0 of
        Inl e \<Rightarrow> Some (d0, e)
      | Inr buf \<Rightarrow> Option.bind (spi_flash_program R ?r (take c buf @ take w bytes @ drop (c + w) buf) 4 d0)
          (\<lambda>(d1, ret). if ret \<noteq> ESP_OK then Some (d1, ret)
             else write_loop R (a + of_nat w) (drop w bytes) d1))"
      unfolding w_def using head na by (simp add: spi_flash_write_def wp Let_def word_less_nat_alt sum) (unfold r(2), simp)
    show ?thesis
    proof (cases "spi_flash_read R ?r (stack_buf R) 4 d0")
      case (Inl e)
      then show ?thesis using run c0 by (auto dest: flash_read_err)
    next
      case (Inr buf)
      have buf: "buf = mem_read (cells d) (4 * (?a div 4)) 4"
        using flash_read [OF Inr] r c0 by simp
      let ?bs = "take c buf @ take w bytes @ drop (c + w) buf"
      have bs: "?bs = mem_read (cells d) (4 * (?a div 4)) c @ take w bytes
          @ mem_read (cells d) (4 * (?a div 4) + c + length (take w bytes)) (4 - (c + w))"
        using c(1) w(1) by (simp add: buf take_mem_read drop_mem_read add.assoc)
      have len: "length ?bs = 4" using w(1,2) c(1) by (simp add: bs)
      obtain d1 ret where pr: "spi_flash_program R ?r ?bs 4 d0 = Some (d1, ret)"
        and out1: "same_outside (4 * (?a div 4)) 4 (cells d) (cells d1)"
        and res1: "ret = ESP_OK \<Longrightarrow> cells d1 = nor_write (cells d) ?a (take w bytes)"
        using flash_program [of ?r 4 ?bs d0] len r c0 nor_write_middle [of "cells d" "4 * (?a div 4)" c "take w bytes"] bs c(2)
        by auto
      have le: "4 \<le> 4 * ((?a mod 4 + ?n + 3) div 4)" using head(1) by (cases bytes) auto
      from out1 have out: "same_outside (4 * (?a div 4)) (4 * ((?a mod 4 + ?n + 3) div 4)) (cells d) (cells d1)"
        by (rule same_outside_mono) (use le in simp_all)
      show ?thesis
      proof (cases "ret = ESP_OK \<and> w \<noteq> ?n")
        case False
        then show ?thesis using run Inr pr out res1
          by (cases "ret = ESP_OK") (simp_all add: write_loop.simps)
      next
        case True
        then have w4: "w = 4 - c" using w(3) by simp
        have ua: "unat (a + of_nat w) = ?a + w"
          using unat_add_no_wrap [of a "of_nat w"] w assms(1) by (simp add: unat_of_nat_small)
        have aw: "?a + w = 4 * (?a div 4 + 1)" using c w4 by simp
        have m4: "unat (a + of_nat w) mod 4 = 0" unfolding ua aw by (rule mod_mult_self1_is_0)
        obtain d2 ret2 where rec: "write_loop R (a + of_nat w) (drop w bytes) d1 = Some (d2, ret2)"
          and out2: "same_outside (?a + w) (4 * ((?n - w + 3) div 4)) (cells d1) (cells d2)"
          and res2: "ret2 = ESP_OK \<Longrightarrow> cells d2 = nor_write (cells d1) (?a + w) (drop w bytes)"
          using write_loop [OF m4, of "drop w bytes" d1] w(1) head(3) ua by auto
        have le2: "4 * ((?n - w + 3) div 4) + 4 \<le> 4 * ((?a mod 4 + ?n + 3) div 4)"
        proof -
          have e1: "(?n - w + 3 + 1 * 4) div 4 = 1 + (?n - w + 3) div 4" by (rule div_mult_self1) simp
          have e2: "?n - w + 3 + 1 * 4 = c + ?n + 3" using w4 w(1) c(1) by simp
          from e1 [unfolded e2] show ?thesis unfolding c_def by linarith
        qed
        from out2 have "same_outside (4 * (?a div 4)) (4 * ((?a mod 4 + ?n + 3) div 4)) (cells d1) (cells d2)"
          by (rule same_outside_mono) (use aw le2 in simp_all)
        with out have all: "same_outside (4 * (?a div 4)) (4 * ((?a mod 4 + ?n + 3) div 4)) (cells d) (cells d2)"
          by (rule same_outside_trans)
        have "ret2 = ESP_OK \<Longrightarrow> cells d2 = nor_write (cells d) ?a bytes"
          using res2 res1 True w(1) nor_write_append [of "cells d" ?a "take w bytes" "drop w bytes"] by simp
        then show ?thesis using run Inr pr rec True all by simp
      qed
    qed
  qed
qed

end

section \<open>A chip that never fails\<close>

locale reliable_flash = nor_flash +
  assumes reads: "SPI_read_data R a n d \<noteq> None"
    and programs: "snd (SPI_page_program R a bs d)"
    and enables: "snd (SPI_write_enable R d)"
    and erases: "snd (SPI_sector_erase R a d)"
begin

lemma program_pages_ret:
  assumes "program_pages R target bs pgm_num i pgm_len d = Some y"
  shows "snd y \<noteq> None"
proof -
  have "program_pages R' t b pn j pl e = Some z \<Longrightarrow> R' = R \<Longrightarrow> snd z \<noteq> None" for R' t b pn j pl e z
  proof (induction rule: program_pages.raw_induct [rotated, consumes 1, case_names step])
    case step
    then show ?case by (auto simp: programs Let_def split: if_splits)
  qed
  with assms show ?thesis by blast
qed

lemma flash_program_ret: "spi_flash_program R target bs len d = Some (d', ret) \<Longrightarrow> ret = ESP_OK"
  using programs
  by (auto simp: spi_flash_program_def Let_def case_prod_beta bind_eq_Some_conv
      split: if_splits option.splits dest: program_pages_ret)

lemma flash_read_raw_ok: "flash_read_raw R a n d \<noteq> Inl e"
  using reads [of a n d] by (auto simp: flash_read_raw_def)

lemma read_loop_ok: "read_loop R a n d \<noteq> Inl e"
proof (induction n arbitrary: a rule: less_induct)
  case (less n)
  then show ?case
    by (subst read_loop.simps) (auto simp: Let_def SPI_READ_BUF_MAX_def flash_read_raw_ok split: if_splits sum.splits)
qed

lemma flash_read_ok: "dest \<noteq> 0 \<Longrightarrow> spi_flash_read R a dest n d \<noteq> Inl e"
  by (auto simp: spi_flash_read_def Let_def flash_read_raw_ok read_loop_ok split: if_splits sum.splits)

lemma write_loop_ret: "write_loop R a tmp d = Some (d', ret) \<Longrightarrow> ret = ESP_OK"
proof (induction "length tmp" arbitrary: a tmp d rule: less_induct)
  case less
  define len where "len = (if SPI_READ_BUF_MAX \<le> length tmp then SPI_READ_BUF_MAX else length tmp)"
  define w where "w = unat (FLASH_ALIGN (of_nat len))"
  show ?case
  proof (cases "tmp = []")
    case True
    then show ?thesis using less.prems by (simp add: write_loop.simps)
  next
    case False
    have len: "0 < len" "len \<le> 64" using False by (auto simp: len_def SPI_READ_BUF_MAX_def)
    have "w \<le> 64" using len by (simp add: w_def flash_align_of_nat)
    then have "stack_buf R + of_nat (w - 4) \<noteq> 0" by (intro stack_nz) simp
    then obtain rd where "spi_flash_read R (a + of_nat (w - 4)) (stack_buf R + of_nat (w - 4)) 4 d = Inr rd"
      using flash_read_ok by (metis sum.exhaust)
    then obtain tb where tb: "(if w \<noteq> len then map_sum id (drop (len - (w - 4)))
        (spi_flash_read R (a + of_nat (w - 4)) (stack_buf R + of_nat (w - 4)) 4 d) else Inr []) = Inr tb"
      by (cases "w = len") auto
    let ?B = "Option.bind (spi_flash_program R a (take len tmp @ tb) (of_nat w) d)
            (\<lambda>(d1, ret). if ret \<noteq> ESP_OK then Some (d1, ret)
               else write_loop R (a + of_nat len) (drop len tmp) d1)"
    have "write_loop R a tmp d = ?B"
      using False tb [unfolded w_def len_def] unfolding w_def len_def
      by (subst write_loop.simps) (simp only: Let_def if_False sum.case)
    then have "?B = Some (d', ret)" using less.prems by (rule trans [OF sym])
    then obtain d1 where "write_loop R (a + of_nat len) (drop len tmp) d1 = Some (d', ret)"
      by (auto simp: bind_eq_Some_conv dest: flash_program_ret split: if_splits)
    moreover have "length (drop len tmp) < length tmp" using len False by simp
    ultimately show ?thesis by (rule less.hyps [rotated])
  qed
qed

lemma flash_write_ret:
  assumes "spi_flash_write R a src bytes d = Some (d', ret)" and "src \<noteq> 0"
    and "unat a + length bytes \<le> unat (chip_size (chip R))"
  shows "ret = ESP_OK"
proof -
  have "unat (a + of_nat (length bytes)) = unat a + length bytes"
    using unat_add_no_wrap [of a "of_nat (length bytes)"] assms(3) chip_lt by (simp add: unat_of_nat_small)
  then have "\<not> a + of_nat (length bytes) > chip_size (chip R)" using assms(3) by (simp add: word_less_nat_alt)
  moreover have "stack_buf R \<noteq> 0" using stack_nz [of 0] by simp
  ultimately show ?thesis
    using assms(1,2) wr_protect_True [of d] flash_read_ok [of "stack_buf R"]
    by (auto simp: spi_flash_write_def Let_def case_prod_beta bind_eq_Some_conv
        dest: flash_program_ret write_loop_ret split: if_splits sum.splits)
qed

lemma erase_sector_ret:
  "sec < chip_size (chip R) div sector_size (chip R) \<Longrightarrow> snd (spi_flash_erase_sector R sec d) = ESP_OK"
  using enables erases wr_protect_True [of d]
  by (simp add: spi_flash_erase_sector_def spi_flash_erase_sector_raw_def case_prod_beta not_le)

text \<open>With a counter that starts at zero the loop runs to the end of the chip and reports failure.\<close>

lemma erase_loop_wrap:
  assumes "unat sec + n = unat (chip_size (chip R)) div 4096" and "k = 0 \<or> n < unat k" and "n < 2 ^ 32 - 1"
  shows "snd (erase_loop R sec k d) = ESP_ERR_FLASH_OP_FAIL
    \<and> cells (fst (erase_loop R sec k d)) = mem_fill (cells d) (4096 * unat sec) (4096 * n) 0xff"
  using assms
proof (induction n arbitrary: sec k d)
  case 0
  then have "\<not> sec < chip_size (chip R) div sector_size (chip R)"
    by (simp add: word_less_nat_alt unat_div sector)
  then have "spi_flash_erase_sector R sec d = (d, ESP_ERR_FLASH_OP_FAIL)"
    by (simp add: spi_flash_erase_sector_def not_less)
  then show ?case by (simp add: erase_loop.simps [of R sec])
next
  case (Suc n)
  have lt: "sec < chip_size (chip R) div sector_size (chip R)"
    using Suc.prems(1) by (simp add: word_less_nat_alt unat_div sector)
  obtain d1 where es: "spi_flash_erase_sector R sec d = (d1, ESP_OK)"
    using erase_sector_ret [OF lt, of d] by (cases "spi_flash_erase_sector R sec d") auto
  have k1: "k - 1 \<noteq> 0" using Suc.prems(2) by auto
  have uk: "unat (k - 1) = (if k = 0 then 2 ^ 32 - 1 else unat k - 1)"
    by (simp add: unat_minus_one unsigned_minus_1_eq_mask mask_eq_exp_minus_1)
  have s1: "unat (sec + 1) = unat sec + 1" using lt by (rule unat_add_1_less)
  have step: "erase_loop R sec k d = erase_loop R (sec + 1) (k - 1) d1"
    using es k1 by (simp add: erase_loop.simps [of R sec])
  have "unat (sec + 1) + n = unat (chip_size (chip R)) div 4096" "k - 1 = 0 \<or> n < unat (k - 1)" "n < 2 ^ 32 - 1"
    using Suc.prems s1 uk by (auto split: if_splits)
  note IH = Suc.IH [OF this, of d1]
  then show ?case
    using erase_sector(2) [OF es] step s1 mem_fill_append [of "cells d" "4096 * unat sec" 4096 "0xff" "4096 * n"]
    by (simp add: algebra_simps)
qed

lemma erase_range_0:
  assumes "unat a mod 4096 = 0" and "unat a \<le> unat (chip_size (chip R))"
  shows "snd (spi_flash_erase_range R a 0 d) = ESP_ERR_FLASH_OP_FAIL"
    and "cells (fst (spi_flash_erase_range R a 0 d)) =
      mem_fill (cells d) (unat a) (unat (chip_size (chip R)) - unat a) 0xff"
proof -
  let ?C = "unat (chip_size (chip R))"
  obtain d1 where wp: "spi_flash_check_wr_protect R d = (d1, True)"
    using wr_protect_True [of d] by (cases "spi_flash_check_wr_protect R d") auto
  then have c1: "cells d1 = cells d" using wr_protect_cells [of d] by simp
  have am: "a mod SPI_FLASH_SEC_SIZE = 0"
    using assms(1) by (simp add: SPI_FLASH_SEC_SIZE_def unat_mod flip: unat_eq_zero)
  have run: "spi_flash_erase_range R a 0 d = erase_loop R (a div SPI_FLASH_SEC_SIZE) 0 d1"
    using am wp by (simp add: spi_flash_erase_range_def)
  have ua: "unat (a div SPI_FLASH_SEC_SIZE) = unat a div 4096" by (simp add: SPI_FLASH_SEC_SIZE_def unat_div)
  define n where "n = ?C div 4096 - unat a div 4096"
  have sum: "unat (a div SPI_FLASH_SEC_SIZE) + n = ?C div 4096"
    using div_le_mono [OF assms(2), of 4096] by (simp add: ua n_def)
  have "n \<le> ?C div 4096" using sum by linarith
  also have "\<dots> \<le> ?C" by simp
  also have "\<dots> < 2 ^ 32 - 1"
    using chip_lt chip_mod_4 by (cases "?C = 2 ^ 32 - 1") auto
  finally have n: "n < 2 ^ 32 - 1" .
  have len: "4096 * n = ?C - unat a" "4096 * (unat a div 4096) = unat a"
    using mult_div_of_mod_0 [OF whole_sectors] mult_div_of_mod_0 [OF assms(1)]
    by (simp_all add: n_def diff_mult_distrib2)
  show "snd (spi_flash_erase_range R a 0 d) = ESP_ERR_FLASH_OP_FAIL"
    using erase_loop_wrap [OF sum _ n, of 0 d1] by (simp add: run)
  show "cells (fst (spi_flash_erase_range R a 0 d)) = mem_fill (cells d) (unat a) (?C - unat a) 0xff"
    using erase_loop_wrap [OF sum _ n, of 0 d1] by (simp add: run ua len c1)
qed

lemma erase_loop_ret:
  assumes "unat sec + unat num \<le> unat (chip_size (chip R)) div 4096" and "num \<noteq> 0"
  shows "snd (erase_loop R sec num d) = ESP_OK"
  using assms
proof (induction "unat num" arbitrary: sec num d)
  case 0
  then show ?case by (simp add: unat_eq_zero)
next
  case (Suc n)
  have lt: "sec < chip_size (chip R) div sector_size (chip R)"
    using Suc.prems(1) Suc.hyps(2) by (simp add: word_less_nat_alt unat_div sector)
  obtain d1 where es: "spi_flash_erase_sector R sec d = (d1, ESP_OK)"
    using erase_sector_ret [OF lt, of d] by (cases "spi_flash_erase_sector R sec d") auto
  show ?case
  proof (cases "num - 1 = 0")
    case True
    then show ?thesis using es by (simp add: erase_loop.simps [of R sec])
  next
    case False
    have n: "n = unat (num - 1)" using Suc.hyps(2) Suc.prems(2) by (metis diff_Suc_1 unat_minus_one)
    have "unat (sec + 1) + unat (num - 1) \<le> unat (chip_size (chip R)) div 4096"
      using Suc.prems(1) Suc.hyps(2) n unat_add_1_less [OF lt] by simp
    then show ?thesis
      using Suc.hyps(1) [OF n, of "sec + 1" d1] False es by (simp add: erase_loop.simps [of R sec])
  qed
qed

lemma erase_range_ret:
  assumes "unat a mod 4096 = 0" and "unat n mod 4096 = 0" and "n \<noteq> 0"
    and "unat a + unat n \<le> unat (chip_size (chip R))"
  shows "snd (spi_flash_erase_range R a n d) = ESP_OK"
proof -
  obtain d1 where wp: "spi_flash_check_wr_protect R d = (d1, True)"
    using wr_protect_True [of d] by (cases "spi_flash_check_wr_protect R d") auto
  have m: "a mod SPI_FLASH_SEC_SIZE = 0" "n mod SPI_FLASH_SEC_SIZE = 0"
    using assms(1,2) by (simp_all add: SPI_FLASH_SEC_SIZE_def unat_mod flip: unat_eq_zero)
  have u: "unat (a div SPI_FLASH_SEC_SIZE) = unat a div 4096" "unat (n div SPI_FLASH_SEC_SIZE) = unat n div 4096"
    by (simp_all add: SPI_FLASH_SEC_SIZE_def unat_div)
  have "4096 * (unat a div 4096 + unat n div 4096) \<le> 4096 * (unat (chip_size (chip R)) div 4096)"
    using assms(4) mult_div_of_mod_0 [OF assms(1)] mult_div_of_mod_0 [OF assms(2)] mult_div_of_mod_0 [OF whole_sectors]
    by (simp add: distrib_left)
  then have le: "unat (a div SPI_FLASH_SEC_SIZE) + unat (n div SPI_FLASH_SEC_SIZE) \<le> unat (chip_size (chip R)) div 4096"
    unfolding u by simp
  have "n div SPI_FLASH_SEC_SIZE \<noteq> 0"
    using u(2) mult_div_of_mod_0 [OF assms(2)] assms(3) by (auto simp: unat_eq_zero)
  then show ?thesis
    using erase_loop_ret [OF le] m wp by (simp add: spi_flash_erase_range_def)
qed

lemma flash_read_exact:
  assumes "dest \<noteq> 0" and "unat a + n \<le> unat (chip_size (chip R))"
  shows "spi_flash_read R a dest n d = Inr (mem_read (cells d) (unat a) n)"
  using flash_read_ok [OF assms(1)] flash_read [OF _ assms(2)]
  by (cases "spi_flash_read R a dest n d") auto

end

text \<open>The counter of the page loop has eight bits: with 256 pages or more it never reaches the end.\<close>

lemma program_pages_never:
  assumes "program_pages R target bs pgm_num i pgm_len d = Some y" and "255 < pgm_num"
  shows "snd y = None"
  using assms
proof (induction rule: program_pages.raw_induct [rotated, consumes 1, case_names step])
  case (step f R target bs pgm_num i pgm_len d y)
  have "ucast i < pgm_num"
  proof -
    have "unat i < 2 ^ LENGTH(8)" by (rule unsigned_less)
    then show ?thesis using step.prems by (simp add: word_less_nat_alt)
  qed
  with step show ?case by (auto simp: Let_def split: if_splits)
qed

section \<open>A chip that keeps the laws\<close>

definition nor_chip :: "u32 \<Rightarrow> mem flash_rom" where
  "nor_chip sz = \<lparr>chip = g_rom_flashchip sz,
     SPI_page_program = (\<lambda>a bs d. (nor_write d (unat a) bs, True)),
     SPI_read_data = (\<lambda>a n d. Some (mem_read d (unat a) n)),
     SPI_write_enable = (\<lambda>d. (d, True)),
     SPI_sector_erase = (\<lambda>a d. (mem_fill d (unat a) 4096 0xff, True)),
     SPI_read_status = (\<lambda>d. Some 0),
     SPI_write_status = (\<lambda>v d. (d, True)),
     Enable_QMode = (\<lambda>d. (d, True)),
     spi_flash_get_id_raw = (\<lambda>d. 0x1640ef),
     spi_user_cmd_raw = (\<lambda>m p d. (d, 0)),
     spi_flash_switch_to_qio_raw = (\<lambda>d. d),
     stack_buf = 0x3FFFF000, heap_buf = 0x3FFEA000\<rparr>"

lemma nor_chip_geometry [simp]:
  "chip_size (chip (nor_chip sz)) = sz" "page_size (chip (nor_chip sz)) = 256"
  by (simp_all add: nor_chip_def g_rom_flashchip_def)

lemma nor_chip_laws: "unat sz mod 4096 = 0 \<Longrightarrow> reliable_flash (nor_chip sz) (\<lambda>d. d)"
  by unfold_locales (auto simp: nor_chip_def g_rom_flashchip_def)

interpretation chip1M: reliable_flash "nor_chip 0x100000" "\<lambda>d. d"
  by (rule nor_chip_laws) simp

lemma unat_page_head: "unat (256 - dest mod 256 :: u32) = 256 - unat dest mod 256"
  by (rule nor_flash.page_head(1) [OF chip1M.nor_flash_axioms])

section \<open>Properties\<close>

text \<open>C29: Writing any buffer of at most 64 KiB at any address and alignment, the range ending below 2^32, always returns. When it
  reports success, the cells of the chip are the old ones ANDed with the buffer in exactly the
  requested range and no other cell changes; when it reports failure, only the words the range
  touches may have changed. On a chip whose operations succeed, a non-NULL source and a range inside
  the chip make it succeed.\<close>

theorem spi_flash_write_correct:
  assumes "nor_flash R cells" and "unat dest + length bytes < 2 ^ 32" and "length bytes \<le> 65536"
  shows "\<exists>d' ret. spi_flash_write R dest src bytes d = Some (d', ret)
    \<and> (ret = ESP_OK \<longrightarrow> cells d' = nor_write (cells d) (unat dest) bytes)
    \<and> same_outside (4 * (unat dest div 4)) (4 * ((unat dest mod 4 + length bytes + 3) div 4)) (cells d) (cells d')
    \<and> (reliable_flash R cells \<and> src \<noteq> 0 \<and> unat dest + length bytes \<le> unat (chip_size (chip R)) \<longrightarrow> ret = ESP_OK)"
  using nor_flash.flash_write [OF assms, of src d] reliable_flash.flash_write_ret [of R cells dest src bytes d]
  by blast

lemma spi_flash_write_correct_witness:
  "\<exists>d' ret. spi_flash_write (nor_chip 0x100000) 4093 0x3FFE8001 [1, 2, 3, 4, 5, 6] (\<lambda>_. 0xff) = Some (d', ret)
    \<and> (ret = ESP_OK \<longrightarrow> d' = nor_write (\<lambda>_. 0xff) 4093 [1, 2, 3, 4, 5, 6])
    \<and> same_outside 4092 8 (\<lambda>_. 0xff) d' \<and> ret = ESP_OK"
  using spi_flash_write_correct [of "nor_chip 0x100000" "\<lambda>d. d" 4093 "[1, 2, 3, 4, 5, 6]" "0x3FFE8001" "\<lambda>_. 0xff"]
    chip1M.nor_flash_axioms chip1M.reliable_flash_axioms
  by simp

text \<open>Reading any range inside the chip, whatever the alignment of the address, of the
  destination and of the length, delivers exactly the cells of the range, and fails only when the chip
  does or the destination is NULL.\<close>

lemma spi_flash_read_correct:
  assumes "nor_flash R cells" and "unat src + n \<le> unat (chip_size (chip R))"
  shows "(\<forall>bs. spi_flash_read R src dest n d = Inr bs \<longrightarrow> bs = mem_read (cells d) (unat src) n)
    \<and> (reliable_flash R cells \<and> dest \<noteq> 0 \<longrightarrow> spi_flash_read R src dest n d = Inr (mem_read (cells d) (unat src) n))"
  using nor_flash.flash_read [OF assms(1) _ assms(2)] reliable_flash.flash_read_ok [of R cells dest src n d]
  by (cases "spi_flash_read R src dest n d") auto

lemma spi_flash_read_correct_witness:
  "spi_flash_read (nor_chip 0x100000) 7 0x3FFE8000 100 (\<lambda>_. 0xAB) = Inr (mem_read (\<lambda>_. 0xAB) 7 100)"
  using spi_flash_read_correct [OF chip1M.nor_flash_axioms, of 7 100 "0x3FFE8000" "\<lambda>_. 0xAB", THEN conjunct2, THEN mp]
    chip1M.reliable_flash_axioms
  by simp

text \<open>C30: Erasing a non-empty range changes nothing outside it, and success means that the range was
  made of whole sectors and now reads 0xFF throughout.\<close>

theorem spi_flash_erase_range_correct:
  assumes "nor_flash R cells" and "n \<noteq> 0" and "spi_flash_erase_range R a n d = (d', ret)"
  shows "same_outside (unat a) (unat n) (cells d) (cells d')
    \<and> (ret = ESP_OK \<longrightarrow> unat a mod 4096 = 0 \<and> unat n mod 4096 = 0
        \<and> cells d' = mem_fill (cells d) (unat a) (unat n) 0xff)"
  using nor_flash.erase_range [OF assms(1) assms(3,2)] by blast

lemma spi_flash_erase_range_correct_witness:
  "same_outside 0x2000 0x3000 (\<lambda>_. 0) (fst (spi_flash_erase_range (nor_chip 0x100000) 0x2000 0x3000 (\<lambda>_. 0)))"
  using spi_flash_erase_range_correct [of "nor_chip 0x100000" "\<lambda>d. d" "0x3000" "0x2000" "\<lambda>_. 0"
      "fst (spi_flash_erase_range (nor_chip 0x100000) 0x2000 0x3000 (\<lambda>_. 0))"
      "snd (spi_flash_erase_range (nor_chip 0x100000) 0x2000 0x3000 (\<lambda>_. 0))"] chip1M.nor_flash_axioms
  by simp

text \<open>An aligned write of 65792 bytes (257 pages) or more out of RAM never reports success, on
  any chip: the page counter of spi_flash_program is a uint8_t and never reaches the number of
  pages, so the loop goes round forever unless the chip refuses a page.\<close>

lemma spi_flash_write_large_never_ok:
  assumes "page_size (chip R) = 256" and "unat dest mod 4 = 0" and "unat src mod 4 = 0" and "\<not> IS_FLASH src"
    and "length bytes mod 4 = 0" and "65792 \<le> length bytes" and "length bytes < 2 ^ 32"
  shows "spi_flash_write R dest src bytes d \<noteq> Some (d', ESP_OK)"
proof
  assume ok: "spi_flash_write R dest src bytes d = Some (d', ESP_OK)"
  let ?n = "of_nat (length bytes) :: u32"
  have un: "unat ?n = length bytes" using assms(7) by (simp add: unat_of_nat_small)
  obtain d0 where run: "spi_flash_program R dest bytes ?n d0 = Some (d', ESP_OK)"
    using ok assms un
    by (auto simp: spi_flash_write_def Let_def case_prod_beta not_align_iff split: if_splits)
  have p: "unat (256 - dest mod 256) = 256 - unat dest mod 256" by (rule unat_page_head)
  then have "\<not> ?n < 256 - dest mod 256" using assms(6) un by (simp add: word_less_nat_alt)
  moreover have "255 < (?n - (256 - dest mod 256)) div 256"
  proof -
    have "256 \<le> (length bytes - (256 - unat dest mod 256)) div 256"
      using assms(6) div_le_mono [of 65536 "length bytes - (256 - unat dest mod 256)" 256] by simp
    moreover have "256 - dest mod 256 \<le> ?n" using assms(6) un p by (simp add: word_le_nat_alt)
    ultimately show ?thesis by (simp add: word_less_nat_alt unat_div unat_sub un p)
  qed
  ultimately have big: "\<not> ?n < 256 - dest mod 256" "255 < (?n - (256 - dest mod 256)) div 256" by blast+
  obtain d1 ok where p1: "SPI_page_program R dest (take (unat (256 - dest mod 256)) bytes) d0 = (d1, ok)" by fastforce
  show False
  proof (cases "program_pages R dest bytes ((?n - (256 - dest mod 256)) div 256) 0 (256 - dest mod 256) d1")
    case None
    then show ?thesis using run big p1 assms(1) by (auto simp: spi_flash_program_def Let_def split: if_splits)
  next
    case (Some y)
    then have "snd y = None" by (rule program_pages_never [OF _ big(2)])
    then show ?thesis
      using Some run big p1 assms(1)
      by (cases y) (auto simp: spi_flash_program_def Let_def split: if_splits)
  qed
qed

lemma spi_flash_write_large_never_ok_witness:
  "\<forall>d'. spi_flash_write (nor_chip 0x100000) 0 0x3FFE8000 (replicate 65792 0) (\<lambda>_. 0xff) \<noteq> Some (d', ESP_OK)"
  by (intro allI, rule spi_flash_write_large_never_ok) (simp_all add: IS_FLASH_def)

text \<open>\<^verbatim>\<open>spi_flash_erase_range\<close> with size 0 erases every sector from the start address to the end of
  the chip and then reports failure: the do-while loop decrements its counter before testing it.\<close>

lemma spi_flash_erase_range_zero:
  assumes "reliable_flash R cells" and "unat a mod 4096 = 0" and "unat a \<le> unat (chip_size (chip R))"
  shows "snd (spi_flash_erase_range R a 0 d) = ESP_ERR_FLASH_OP_FAIL
    \<and> cells (fst (spi_flash_erase_range R a 0 d)) =
        mem_fill (cells d) (unat a) (unat (chip_size (chip R)) - unat a) 0xff"
  using reliable_flash.erase_range_0 [OF assms] by blast

lemma spi_flash_erase_range_zero_witness:
  "fst (spi_flash_erase_range (nor_chip 0x100000) 0x10000 0 (\<lambda>_. 0)) = mem_fill (\<lambda>_. 0) 0x10000 0xf0000 0xff"
  using spi_flash_erase_range_zero [of "nor_chip 0x100000" "\<lambda>d. d" "0x10000" "\<lambda>_. 0"] chip1M.reliable_flash_axioms
  by simp

text \<open>The check of the range adds in 32 bits: a range that runs past the end of the address space and comes round to an end within the chip is programmed.\<close>

lemma spi_flash_write_wraps:
  assumes "2 ^ 32 \<le> unat dest + length bytes" and "unat dest + length bytes \<le> 2 ^ 32 + unat (chip_size (chip R))" and "length bytes < 2 ^ 32"
    and "src \<noteq> 0" and "unat dest mod 4 = 0" and "unat src mod 4 = 0" and "length bytes mod 4 = 0" and "\<not> IS_FLASH src"
  shows "spi_flash_write R dest src bytes d = (case spi_flash_check_wr_protect R d of (d0, unprotected) \<Rightarrow>
    if unprotected then spi_flash_program R dest bytes (of_nat (length bytes)) d0 else Some (d0, ESP_ERR_FLASH_OP_FAIL))"
proof -
  have n: "unat (of_nat (length bytes) :: u32) = length bytes" using assms(3) by (simp add: unat_of_nat_small)
  have "unat dest < 2 ^ LENGTH(32)" by (rule unsigned_less)
  then have lt32: "unat dest < 2 ^ 32" by simp
  have "unat (dest + of_nat (length bytes)) = unat dest + length bytes - 2 ^ 32"
    using assms(1,3) lt32 by (simp add: unat_word_ariths n le_mod_geq)
  then have "\<not> dest + of_nat (length bytes) > chip_size (chip R)" using assms(2) by (simp add: word_less_nat_alt)
  moreover have "bytes \<noteq> []" using assms(1) lt32 by (cases bytes) auto
  ultimately show ?thesis using assms(4-8) n by (auto simp: spi_flash_write_def Let_def not_align_iff split: prod.split)
qed

lemma spi_flash_write_wraps_witness:
  "spi_flash_write (nor_chip 0x100000) 0xFFFFFFF0 0x3FFE8000 (replicate 32 0) d = (case spi_flash_check_wr_protect (nor_chip 0x100000) d of (d0, unprotected) \<Rightarrow>
    if unprotected then spi_flash_program (nor_chip 0x100000) 0xFFFFFFF0 (replicate 32 0) 32 d0 else Some (d0, ESP_ERR_FLASH_OP_FAIL))"
proof -
  have l: "of_nat (length (replicate 32 (0 :: u8))) = (32 :: u32)" by simp
  show ?thesis using spi_flash_write_wraps [where R = "nor_chip 0x100000" and dest = "0xFFFFFFF0" and bytes = "replicate 32 0" and src = "0x3FFE8000", unfolded l]
    by (simp add: IS_FLASH_def)
qed

end
