(* ===== verification/Flash_Format.thy ===== *)
theory Flash_Format
  imports Prelude Crc
begin

text \<open>
  The structures both the application and the boot loader read from the flash:
  \<^verbatim>\<open>components/spi_flash/include/esp_flash_data_types.h\<close>. A structure is a record
  and its image a list of bytes; \<open>decode_\<close> is what reading it into the C structure means
  on this little-endian machine without padding, \<open>encode_\<close> what writing the structure
  means.
\<close>

section \<open>Partition table entries\<close>

definition ESP_PARTITION_MAGIC :: u16 where "ESP_PARTITION_MAGIC = 0x50AA"
definition ESP_PARTITION_MAGIC_MD5 :: u16 where "ESP_PARTITION_MAGIC_MD5 = 0xEBEB"

record esp_partition_pos_t =
  pos_offset :: u32
  pos_size :: u32

record esp_partition_info_t =
  info_magic :: u16
  info_type :: u8
  info_subtype :: u8
  info_pos :: esp_partition_pos_t
  info_label :: "u8 list"
  info_flags :: u32

definition decode_partition_info :: "u8 list \<Rightarrow> esp_partition_info_t" where
  "decode_partition_info bs = \<lparr>info_magic = le16 bs, info_type = bs ! 2, info_subtype = bs ! 3,
     info_pos = \<lparr>pos_offset = le32 (drop 4 bs), pos_size = le32 (drop 8 bs)\<rparr>,
     info_label = take 16 (drop 12 bs), info_flags = le32 (drop 28 bs)\<rparr>"

definition encode_partition_info :: "esp_partition_info_t \<Rightarrow> u8 list" where
  "encode_partition_info p = le16_bytes (info_magic p) @ [info_type p, info_subtype p]
     @ le32_bytes (pos_offset (info_pos p)) @ le32_bytes (pos_size (info_pos p))
     @ info_label p @ le32_bytes (info_flags p)"

lemma length_encode_partition_info [simp]:
  "length (info_label p) = 16 \<Longrightarrow> length (encode_partition_info p) = 32"
  by (simp add: encode_partition_info_def)

lemma decode_encode_partition_info [simp]:
  assumes "length (info_label p) = 16"
  shows "decode_partition_info (encode_partition_info p @ rest) = p"
proof -
  let ?e = "encode_partition_info p @ rest"
  have "drop 4 ?e = le32_bytes (pos_offset (info_pos p)) @ le32_bytes (pos_size (info_pos p)) @ info_label p
      @ le32_bytes (info_flags p) @ rest"
    "drop 8 ?e = le32_bytes (pos_size (info_pos p)) @ info_label p @ le32_bytes (info_flags p) @ rest"
    "drop 12 ?e = info_label p @ le32_bytes (info_flags p) @ rest"
    "drop 28 ?e = le32_bytes (info_flags p) @ rest"
    "le16 ?e = info_magic p" "?e ! 2 = info_type p" "?e ! 3 = info_subtype p"
    using assms by (simp_all add: encode_partition_info_def nth_append)
  then show ?thesis
    using assms by (simp add: decode_partition_info_def)
qed

section \<open>OTA selection entries\<close>

record ota_select =
  ota_seq :: u32
  seq_label :: "u8 list"
  ota_crc :: u32

definition decode_ota_select :: "u8 list \<Rightarrow> ota_select" where
  "decode_ota_select bs = \<lparr>ota_seq = le32 bs, seq_label = take 24 (drop 4 bs), ota_crc = le32 (drop 28 bs)\<rparr>"

definition encode_ota_select :: "ota_select \<Rightarrow> u8 list" where
  "encode_ota_select s = le32_bytes (ota_seq s) @ seq_label s @ le32_bytes (ota_crc s)"

lemma length_encode_ota_select [simp]: "length (seq_label s) = 24 \<Longrightarrow> length (encode_ota_select s) = 32"
  by (simp add: encode_ota_select_def)

lemma decode_encode_ota_select [simp]:
  "length (seq_label s) = 24 \<Longrightarrow> decode_ota_select (encode_ota_select s @ rest) = s"
  "length (seq_label s) = 24 \<Longrightarrow> decode_ota_select (encode_ota_select s) = s"
  by (simp_all add: encode_ota_select_def decode_ota_select_def)

lemma length_seq_label_decode [simp]: "length bs = 32 \<Longrightarrow> length (seq_label (decode_ota_select bs)) = 24"
  by (simp add: decode_ota_select_def)

text \<open>The CRC covers the four bytes of the sequence number only. The start value
  \<^verbatim>\<open>UINT32_MAX\<close> is complemented to 0 by \<^verbatim>\<open>crc32_le\<close>.\<close>

definition ota_select_crc :: "ota_select \<Rightarrow> u32" where
  "ota_select_crc s = crc32_le 0xFFFFFFFF (le32_bytes (ota_seq s))"

definition ota_select_valid :: "ota_select \<Rightarrow> bool" where
  "ota_select_valid s \<longleftrightarrow> ota_seq s \<noteq> 0xFFFFFFFF \<and> ota_crc s = ota_select_crc s"

text \<open>Distinct sequence numbers have distinct check sums.\<close>

lemma ota_select_crc_inj: "ota_select_crc s = ota_select_crc t \<longleftrightarrow> ota_seq s = ota_seq t"
proof
  assume "ota_select_crc s = ota_select_crc t"
  then have "le32_bytes (ota_seq s) = le32_bytes (ota_seq t)"
    using crc32_serial_burst [of "le32_bytes (ota_seq s)" "le32_bytes (ota_seq t)" "0xEDB88320" "NOT 0xFFFFFFFF" "[]" "[]"]
    by (auto simp: ota_select_crc_def crc32_le_eq_serial)
  then show "ota_seq s = ota_seq t" by (simp add: le32_bytes_inj)
qed (simp add: ota_select_crc_def)

end
