(* ===== verification/Partition.thy ===== *)
theory Partition
  imports Spi_Flash Flash_Format
begin

text \<open>
  The partition API, \<^verbatim>\<open>components/spi_flash/src/partition.c\<close>, in the configuration of
  this chip (no flash mapping, no flash encryption): loading the table from its sector, the iterator,
  find and verify, and the bounds-checked read, write and erase of a partition.

  The linked list \<^verbatim>\<open>s_partition_list\<close> only ever grows once, at its load, so a
  pointer into it is the record it points to. A label is its C string, the bytes before the first NUL.
  The small allocations of list items and iterators, whose result the code does not test, succeed.
\<close>

section \<open>The table\<close>

record esp_partition_t =
  p_type :: u8
  p_subtype :: u8
  p_address :: u32
  p_size :: u32
  p_label :: "u8 list"
  p_encrypted :: bool

definition ESP_PARTITION_TYPE_APP :: u8 where "ESP_PARTITION_TYPE_APP = 0x00"
definition ESP_PARTITION_TYPE_DATA :: u8 where "ESP_PARTITION_TYPE_DATA = 0x01"
definition ESP_PARTITION_SUBTYPE_APP_FACTORY :: u8 where "ESP_PARTITION_SUBTYPE_APP_FACTORY = 0x00"
definition ESP_PARTITION_SUBTYPE_APP_OTA_MIN :: u8 where "ESP_PARTITION_SUBTYPE_APP_OTA_MIN = 0x10"
definition ESP_PARTITION_SUBTYPE_APP_OTA_MAX :: u8 where "ESP_PARTITION_SUBTYPE_APP_OTA_MAX = 0x20"
definition ESP_PARTITION_SUBTYPE_APP_TEST :: u8 where "ESP_PARTITION_SUBTYPE_APP_TEST = 0x20"
definition ESP_PARTITION_SUBTYPE_DATA_OTA :: u8 where "ESP_PARTITION_SUBTYPE_DATA_OTA = 0x00"
definition ESP_PARTITION_SUBTYPE_ANY :: u8 where "ESP_PARTITION_SUBTYPE_ANY = 0xff"

record 'd part_state =
  dev :: 'd
  s_partition_list :: "esp_partition_t list"

definition partition_of_info :: "esp_partition_info_t \<Rightarrow> esp_partition_t" where
  "partition_of_info it = \<lparr>p_type = info_type it, p_subtype = info_subtype it,
     p_address = pos_offset (info_pos it), p_size = pos_size (info_pos it),
     p_label = takeWhile (\<lambda>b. b \<noteq> 0) (info_label it), p_encrypted = False\<rparr>"

text \<open>The 128 entries of the sector, up to the first without the magic number.\<close>

definition table_entries :: "u8 list \<Rightarrow> esp_partition_info_t list" where
  "table_entries bs = takeWhile (\<lambda>it. info_magic it = ESP_PARTITION_MAGIC)
     (map (\<lambda>i. decode_partition_info (drop (32 * i) bs)) [0..<128])"

definition load_partitions :: "'d flash_rom \<Rightarrow> u32 \<Rightarrow> ('d, 'z) part_state_scheme \<Rightarrow> ('d, 'z) part_state_scheme \<times> esp_err_t" where
  "load_partitions R table_addr s =
    (if heap_buf R = 0 then (s, ESP_ERR_NO_MEM)
     else case spi_flash_read R table_addr (heap_buf R) 4096 (dev s) of
            Inl ret \<Rightarrow> (s, ret)
          | Inr bs \<Rightarrow> (s\<lparr>s_partition_list := map partition_of_info (table_entries bs) @ s_partition_list s\<rparr>, ESP_OK))"

section \<open>Iterators\<close>

record esp_partition_iterator =
  it_type :: u8
  it_subtype :: u8
  it_label :: "u8 list option"
  next_item :: "esp_partition_t list"
  it_info :: "esp_partition_t option"

definition iterator_create :: "u8 \<Rightarrow> u8 \<Rightarrow> u8 list option \<Rightarrow> ('d, 'z) part_state_scheme \<Rightarrow> esp_partition_iterator" where
  "iterator_create ty subtype label s = \<lparr>it_type = ty, it_subtype = subtype, it_label = label,
     next_item = s_partition_list s, it_info = None\<rparr>"

text \<open>The three tests of the loop in \<^verbatim>\<open>esp_partition_next\<close>.\<close>

definition it_matches :: "u8 \<Rightarrow> u8 \<Rightarrow> u8 list option \<Rightarrow> esp_partition_t \<Rightarrow> bool" where
  "it_matches ty subtype label p \<longleftrightarrow> ty = p_type p
     \<and> (subtype = 0xff \<or> subtype = p_subtype p)
     \<and> (case label of None \<Rightarrow> True | Some l \<Rightarrow> l = p_label p)"

definition esp_partition_next :: "esp_partition_iterator \<Rightarrow> esp_partition_iterator option" where
  "esp_partition_next it =
    (case dropWhile (\<lambda>p. \<not> it_matches (it_type it) (it_subtype it) (it_label it) p) (next_item it) of
       [] \<Rightarrow> None
     | p # rest \<Rightarrow> Some (it\<lparr>it_info := Some p, next_item := rest\<rparr>))"

definition esp_partition_get :: "esp_partition_iterator \<Rightarrow> esp_partition_t option" where
  "esp_partition_get it = it_info it"

definition esp_partition_find ::
  "'d flash_rom \<Rightarrow> u32 \<Rightarrow> u8 \<Rightarrow> u8 \<Rightarrow> u8 list option \<Rightarrow> ('d, 'z) part_state_scheme
    \<Rightarrow> ('d, 'z) part_state_scheme \<times> esp_partition_iterator option" where
  "esp_partition_find R table_addr ty subtype label s =
    (let (s1, err) = (if s_partition_list s = [] then load_partitions R table_addr s else (s, ESP_OK)) in
     if err \<noteq> ESP_OK then (s1, None)
     else (s1, esp_partition_next (iterator_create ty subtype label s1)))"

definition esp_partition_find_first ::
  "'d flash_rom \<Rightarrow> u32 \<Rightarrow> u8 \<Rightarrow> u8 \<Rightarrow> u8 list option \<Rightarrow> ('d, 'z) part_state_scheme
    \<Rightarrow> ('d, 'z) part_state_scheme \<times> esp_partition_t option" where
  "esp_partition_find_first R table_addr ty subtype label s =
    (case esp_partition_find R table_addr ty subtype label s of
       (s1, None) \<Rightarrow> (s1, None)
     | (s1, Some it) \<Rightarrow> (s1, esp_partition_get it))"

text \<open>The \<^verbatim>\<open>while (it != NULL)\<close> loop shared by verify and the search for the
  running partition: the first item of the iteration that satisfies the test.\<close>

lemma esp_partition_next_shrinks:
  "esp_partition_next it = Some it' \<Longrightarrow> length (next_item it') < length (next_item it)"
proof -
  assume "esp_partition_next it = Some it'"
  then obtain p rest where "dropWhile (\<lambda>p. \<not> it_matches (it_type it) (it_subtype it) (it_label it) p) (next_item it) = p # rest"
    and "next_item it' = rest"
    by (auto simp: esp_partition_next_def split: list.splits)
  moreover have "length (dropWhile (\<lambda>p. \<not> it_matches (it_type it) (it_subtype it) (it_label it) p) (next_item it)) \<le> length (next_item it)"
    by (rule length_dropWhile_le)
  ultimately show ?thesis by simp
qed

function iterate_until :: "(esp_partition_t \<Rightarrow> bool) \<Rightarrow> esp_partition_iterator option \<Rightarrow> esp_partition_t option" where
  "iterate_until P None = None"
| "iterate_until P (Some it) =
    (case esp_partition_get it of
       None \<Rightarrow> None
     | Some p \<Rightarrow> if P p then Some p else iterate_until P (esp_partition_next it))"
  by pat_completeness auto
termination
proof (relation "measure (\<lambda>(P, it). case it of None \<Rightarrow> 0 | Some i \<Rightarrow> Suc (length (next_item i)))", goal_cases)
  case (2 P it p)
  then show ?case
    by (cases "esp_partition_next it") (auto dest: esp_partition_next_shrinks)
qed simp

definition esp_partition_verify ::
  "'d flash_rom \<Rightarrow> u32 \<Rightarrow> esp_partition_t \<Rightarrow> ('d, 'z) part_state_scheme \<Rightarrow> ('d, 'z) part_state_scheme \<times> esp_partition_t option" where
  "esp_partition_verify R table_addr part s =
    (let label = (if p_label part \<noteq> [] then Some (p_label part) else None);
         (s1, it) = esp_partition_find R table_addr (p_type part) (p_subtype part) label s in
     (s1, iterate_until (\<lambda>p. p_address p = p_address part \<and> p_size part = p_size p) it))"

section \<open>Access\<close>

definition esp_partition_read ::
  "'d flash_rom \<Rightarrow> esp_partition_t \<Rightarrow> u32 \<Rightarrow> u32 \<Rightarrow> u32 \<Rightarrow> 'd \<Rightarrow> esp_err_t + u8 list" where
  "esp_partition_read R part src_offset dst nbytes d =
    (if src_offset > p_size part then Inl ESP_ERR_INVALID_ARG
     else if src_offset + nbytes > p_size part then Inl ESP_ERR_INVALID_SIZE
     else spi_flash_read R (p_address part + src_offset) dst (unat nbytes) d)"

definition esp_partition_write ::
  "'d flash_rom \<Rightarrow> esp_partition_t \<Rightarrow> u32 \<Rightarrow> u32 \<Rightarrow> u8 list \<Rightarrow> 'd \<Rightarrow> ('d \<times> esp_err_t) option" where
  "esp_partition_write R part dst_offset src bytes d =
    (if dst_offset > p_size part then Some (d, ESP_ERR_INVALID_ARG)
     else if dst_offset + of_nat (length bytes) > p_size part then Some (d, ESP_ERR_INVALID_SIZE)
     else spi_flash_write R (p_address part + dst_offset) src bytes d)"

definition esp_partition_erase_range ::
  "'d flash_rom \<Rightarrow> esp_partition_t \<Rightarrow> u32 \<Rightarrow> u32 \<Rightarrow> 'd \<Rightarrow> 'd \<times> esp_err_t" where
  "esp_partition_erase_range R part start_addr nbytes d =
    (if start_addr > p_size part then (d, ESP_ERR_INVALID_ARG)
     else if start_addr + nbytes > p_size part then (d, ESP_ERR_INVALID_SIZE)
     else if nbytes mod SPI_FLASH_SEC_SIZE \<noteq> 0 then (d, ESP_ERR_INVALID_SIZE)
     else if start_addr mod SPI_FLASH_SEC_SIZE \<noteq> 0 then (d, ESP_ERR_INVALID_ARG)
     else spi_flash_erase_range R (p_address part + start_addr) nbytes d)"

section \<open>Find and the iterator\<close>

lemma next_create:
  "esp_partition_next it = (case List.find (it_matches (it_type it) (it_subtype it) (it_label it)) (next_item it) of
      None \<Rightarrow> None
    | Some p \<Rightarrow> Some (it\<lparr>it_info := Some p,
        next_item := tl (dropWhile (\<lambda>p. \<not> it_matches (it_type it) (it_subtype it) (it_label it) p) (next_item it))\<rparr>))"
proof (cases "dropWhile (\<lambda>p. \<not> it_matches (it_type it) (it_subtype it) (it_label it) p) (next_item it)")
  case Nil
  then have "List.find (it_matches (it_type it) (it_subtype it) (it_label it)) (next_item it) = None"
    by (simp add: find_None_iff dropWhile_eq_Nil_conv)
  then show ?thesis unfolding esp_partition_next_def Nil by simp
next
  case (Cons p rest)
  then have "List.find (it_matches (it_type it) (it_subtype it) (it_label it)) (next_item it) = Some p"
    by (simp add: find_dropWhile o_def)
  then show ?thesis using Cons by (simp add: esp_partition_next_def)
qed

text \<open>Once the table is loaded a lookup is \<open>List.find\<close> and leaves the state alone.\<close>

lemma find_first_loaded:
  assumes "s_partition_list s \<noteq> []"
  shows "esp_partition_find_first R t ty st l s = (s, List.find (it_matches ty st l) (s_partition_list s))"
  using assms
  by (auto simp: esp_partition_find_first_def esp_partition_find_def next_create iterator_create_def
      esp_partition_get_def split: option.split)

lemma filter_next:
  assumes "esp_partition_next it = Some it'"
  shows "filter (it_matches (it_type it) (it_subtype it) (it_label it)) (next_item it)
      = the (it_info it') # filter (it_matches (it_type it) (it_subtype it) (it_label it)) (next_item it')"
    and "it_type it' = it_type it" "it_subtype it' = it_subtype it" "it_label it' = it_label it"
    and "it_info it' \<noteq> None"
proof -
  let ?M = "it_matches (it_type it) (it_subtype it) (it_label it)"
  obtain p rest where dw: "dropWhile (\<lambda>p. \<not> ?M p) (next_item it) = p # rest"
    and it': "it' = it\<lparr>it_info := Some p, next_item := rest\<rparr>"
    using assms by (auto simp: esp_partition_next_def split: list.splits)
  have split: "next_item it = takeWhile (\<lambda>p. \<not> ?M p) (next_item it) @ p # rest"
    using dw by (metis takeWhile_dropWhile_id)
  have "?M p" using dw hd_dropWhile [of "\<lambda>p. \<not> ?M p" "next_item it"] by auto
  moreover have "filter ?M (takeWhile (\<lambda>p. \<not> ?M p) (next_item it)) = []"
    by (auto simp: filter_empty_conv dest: set_takeWhileD)
  ultimately show "filter ?M (next_item it) = the (it_info it') # filter ?M (next_item it')"
    by (subst split) (simp add: it')
  show "it_type it' = it_type it" "it_subtype it' = it_subtype it" "it_label it' = it_label it" "it_info it' \<noteq> None"
    by (simp_all add: it')
qed

lemma filter_next_None:
  "esp_partition_next it = None \<Longrightarrow> filter (it_matches (it_type it) (it_subtype it) (it_label it)) (next_item it) = []"
  by (auto simp: esp_partition_next_def filter_empty_conv dropWhile_eq_Nil_conv split: list.splits)

lemma iterate_until_next:
  "iterate_until P (esp_partition_next it)
    = List.find P (filter (it_matches (it_type it) (it_subtype it) (it_label it)) (next_item it))"
proof (induction "length (next_item it)" arbitrary: it rule: less_induct)
  case less
  show ?case
  proof (cases "esp_partition_next it")
    case None
    then show ?thesis by (simp add: filter_next_None)
  next
    case (Some it')
    then show ?thesis
      using less.hyps [OF esp_partition_next_shrinks [OF Some]] filter_next [OF Some]
      by (auto simp: esp_partition_get_def)
  qed
qed

lemma verify_loaded:
  assumes "s_partition_list s \<noteq> []"
  shows "esp_partition_verify R t p s = (s, List.find (\<lambda>q. p_address q = p_address p \<and> p_size p = p_size q)
     (filter (it_matches (p_type p) (p_subtype p) (if p_label p \<noteq> [] then Some (p_label p) else None)) (s_partition_list s)))"
  using assms
  by (simp add: esp_partition_verify_def esp_partition_find_def iterate_until_next iterator_create_def)

section \<open>Reading back a table\<close>

lemma drop_concat_encode:
  assumes "\<forall>p \<in> set es. length (info_label p) = 16" and "i \<le> length es"
  shows "drop (32 * i) (concat (map encode_partition_info es) @ rest)
    = concat (map encode_partition_info (drop i es)) @ rest"
  using assms
proof (induction es arbitrary: i)
  case Nil
  then show ?case by simp
next
  case (Cons p es)
  show ?case
  proof (cases i)
    case 0
    then show ?thesis by simp
  next
    case (Suc j)
    then have "drop (32 * i) (concat (map encode_partition_info (p # es)) @ rest)
        = drop (32 * j) (concat (map encode_partition_info es) @ rest)"
      using Cons.prems(1) by simp
    then show ?thesis using Cons Suc by simp
  qed
qed

lemma table_entries_encode:
  assumes "\<forall>p \<in> set es. info_magic p = ESP_PARTITION_MAGIC \<and> length (info_label p) = 16"
    and "length es = 128 \<or> length es < 128 \<and> le16 rest \<noteq> ESP_PARTITION_MAGIC"
  shows "table_entries (concat (map encode_partition_info es) @ rest) = es"
proof -
  let ?bs = "concat (map encode_partition_info es) @ rest" and ?n = "length es"
  let ?f = "\<lambda>i. decode_partition_info (drop (32 * i) ?bs)"
  have lab: "\<forall>p \<in> set es. length (info_label p) = 16" using assms(1) by blast
  have nth: "?f i = es ! i" if "i < ?n" for i
  proof -
    have "drop (32 * i) ?bs = encode_partition_info (es ! i) @ concat (map encode_partition_info (drop (Suc i) es)) @ rest"
      using drop_concat_encode [OF lab, of i rest] that by (simp flip: Cons_nth_drop_Suc)
    then show ?thesis using lab that by simp
  qed
  have le: "?n \<le> 128" using assms(2) by auto
  have "[0..<128] = [0..<?n] @ [?n..<128]" using upt_add_eq_append [of 0 ?n "128 - ?n"] le by simp
  then have "map ?f [0..<128] = map (\<lambda>i. es ! i) [0..<?n] @ map ?f [?n..<128]"
    using nth by simp
  then have all: "map ?f [0..<128] = es @ map ?f [?n..<128]" by (simp only: map_nth)
  have stop: "takeWhile (\<lambda>it. info_magic it = ESP_PARTITION_MAGIC) (map ?f [?n..<128]) = []"
  proof (cases "?n = 128")
    case False
    then have "?n < 128" "le16 rest \<noteq> ESP_PARTITION_MAGIC" using assms(2) by auto
    moreover have "drop (32 * ?n) ?bs = rest" using drop_concat_encode [OF lab, of ?n rest] by simp
    then have "info_magic (?f ?n) = le16 rest" by (simp add: decode_partition_info_def)
    ultimately show ?thesis by (simp add: upt_conv_Cons)
  qed simp
  show ?thesis
    unfolding table_entries_def all using assms(1) stop by (subst takeWhile_append2) auto
qed

section \<open>A partition keeps to itself\<close>

text \<open>A partition of whole sectors inside the chip.\<close>

definition sector_partition :: "'d flash_rom \<Rightarrow> esp_partition_t \<Rightarrow> bool" where
  "sector_partition R p \<longleftrightarrow> unat (p_address p) mod 4096 = 0 \<and> unat (p_size p) mod 4096 = 0
     \<and> unat (p_address p) + unat (p_size p) \<le> unat (chip_size (chip R))"

context nor_flash begin

lemma partition_write:
  assumes p: "sector_partition R p" and "unat off + length bytes < 2 ^ 32" and "length bytes \<le> 65536"
  shows "\<exists>d' ret. esp_partition_write R p off src bytes d = Some (d', ret)
    \<and> same_outside (unat (p_address p)) (unat (p_size p)) (cells d) (cells d')
    \<and> (ret = ESP_OK \<longrightarrow> unat off + length bytes \<le> unat (p_size p)
        \<and> cells d' = nor_write (cells d) (unat (p_address p) + unat off) bytes)"
proof -
  let ?n = "length bytes" and ?A = "unat (p_address p)" and ?S = "unat (p_size p)"
  have un: "unat (of_nat ?n :: u32) = ?n" using assms(3) by (simp add: unat_of_nat_small)
  have sum: "unat (off + of_nat ?n) = unat off + ?n"
    using unat_add_no_wrap [of off "of_nat ?n"] assms(2) un by simp
  show ?thesis
  proof (cases "unat off + ?n \<le> ?S")
    case False
    then show ?thesis by (auto simp: esp_partition_write_def word_less_nat_alt sum)
  next
    case True
    let ?a = "p_address p + off"
    have in_chip: "?A + ?S \<le> unat (chip_size (chip R))" using p by (simp add: sector_partition_def)
    have ua: "unat ?a = ?A + unat off"
      using unat_add_no_wrap [of "p_address p" off] True in_chip chip_lt by simp
    have bound: "unat ?a + ?n < 2 ^ 32" using True in_chip chip_lt ua by simp
    have run: "esp_partition_write R p off src bytes d = spi_flash_write R ?a src bytes d"
      using True by (simp add: esp_partition_write_def word_less_nat_alt sum)
    obtain d' ret where w: "spi_flash_write R ?a src bytes d = Some (d', ret)"
      and hull: "same_outside (4 * (unat ?a div 4)) (4 * ((unat ?a mod 4 + ?n + 3) div 4)) (cells d) (cells d')"
      and res: "ret = ESP_OK \<longrightarrow> cells d' = nor_write (cells d) (unat ?a) bytes"
      using flash_write [OF bound assms(3), of src d] by blast
    have m: "?A mod 4 = 0" "(?A + ?S) mod 4 = 0"
      using p mod_0_trans [of ?A 4096 4] mod_0_trans [of ?S 4096 4]
      by (auto simp: sector_partition_def mod_eq_0_iff_dvd)
    have "?A \<le> unat ?a" "unat ?a + ?n \<le> ?A + ?S" using True ua by simp_all
    note hull_in = word_hull [OF m this]
    have "same_outside ?A ?S (cells d) (cells d')"
      using hull by (rule same_outside_mono) (use hull_in in auto)
    then show ?thesis using run w res True ua by auto
  qed
qed

lemma partition_erase:
  assumes p: "sector_partition R p" and "unat off + unat n < 2 ^ 32" and "n \<noteq> 0"
    and run: "esp_partition_erase_range R p off n d = (d', ret)"
  shows "same_outside (unat (p_address p)) (unat (p_size p)) (cells d) (cells d')"
    and "ret = ESP_OK \<Longrightarrow> unat off + unat n \<le> unat (p_size p)
       \<and> cells d' = mem_fill (cells d) (unat (p_address p) + unat off) (unat n) 0xff"
proof -
  let ?A = "unat (p_address p)" and ?S = "unat (p_size p)" and ?a = "p_address p + off"
  have sum: "unat (off + n) = unat off + unat n"
    using unat_add_no_wrap [of off n] assms(2) by simp
  have in_chip: "?A + ?S \<le> unat (chip_size (chip R))" using p by (simp add: sector_partition_def)
  have ua: "unat ?a = ?A + unat off" if "unat off \<le> ?S"
    using unat_add_no_wrap [of "p_address p" off] that in_chip chip_lt by simp
  consider (bad) "d' = d" "ret \<noteq> ESP_OK" | (go) "unat off + unat n \<le> ?S" "spi_flash_erase_range R ?a n d = (d', ret)"
    using run by (auto simp: esp_partition_erase_range_def word_less_nat_alt sum not_less split: if_splits)
  note cs = this
  show "same_outside ?A ?S (cells d) (cells d')"
    using cs
  proof cases
    case bad
    then show ?thesis by simp
  next
    case go
    then show ?thesis
      using erase_range(1) [OF go(2) assms(3)] ua by (auto elim!: same_outside_mono)
  qed
  assume ok: "ret = ESP_OK"
  show "unat off + unat n \<le> ?S \<and> cells d' = mem_fill (cells d) (?A + unat off) (unat n) 0xff"
    using cs
  proof cases
    case bad
    then show ?thesis using ok by simp
  next
    case go
    then show ?thesis using erase_range(2) [OF go(2) assms(3) ok] ua by simp
  qed
qed

end

context reliable_flash begin

lemma partition_erase_ok:
  assumes p: "sector_partition R p" and "unat off mod 4096 = 0" "unat n mod 4096 = 0" "n \<noteq> 0"
    and "unat off + unat n \<le> unat (p_size p)"
  obtains d' where "esp_partition_erase_range R p off n d = (d', ESP_OK)"
    and "cells d' = mem_fill (cells d) (unat (p_address p) + unat off) (unat n) 0xff"
proof -
  have in_chip: "unat (p_address p) + unat (p_size p) \<le> unat (chip_size (chip R))" "unat (p_address p) mod 4096 = 0"
    using p by (simp_all add: sector_partition_def)
  have lt: "unat off + unat n < 2 ^ 32" using assms(5) in_chip(1) chip_lt by simp
  have sum: "unat (off + n) = unat off + unat n" using unat_add_no_wrap [of off n] lt by simp
  have ua: "unat (p_address p + off) = unat (p_address p) + unat off"
    using unat_add_no_wrap [of "p_address p" off] assms(5) in_chip(1) chip_lt by simp
  have am: "unat (p_address p + off) mod 4096 = 0"
    using assms(2) in_chip(2) mod_add_eq [of "unat (p_address p)" 4096 "unat off"] by (simp add: ua)
  have m: "off mod SPI_FLASH_SEC_SIZE = 0" "n mod SPI_FLASH_SEC_SIZE = 0"
    using assms(2,3) by (simp_all add: SPI_FLASH_SEC_SIZE_def unat_mod flip: unat_eq_zero)
  have run: "esp_partition_erase_range R p off n d = spi_flash_erase_range R (p_address p + off) n d"
    using assms(5) m by (simp add: esp_partition_erase_range_def word_less_nat_alt sum)
  have "snd (spi_flash_erase_range R (p_address p + off) n d) = ESP_OK"
    using erase_range_ret [OF am assms(3,4)] assms(5) in_chip(1) ua by simp
  then obtain d' where d': "esp_partition_erase_range R p off n d = (d', ESP_OK)"
    using run by (cases "spi_flash_erase_range R (p_address p + off) n d") auto
  show thesis
    using that [OF d'] partition_erase(2) [OF p lt assms(4) d'] by simp
qed

lemma partition_write_ok:
  assumes p: "sector_partition R p" and "length bytes \<le> 65536" "src \<noteq> 0"
    and "unat off + length bytes \<le> unat (p_size p)"
  obtains d' where "esp_partition_write R p off src bytes d = Some (d', ESP_OK)"
    and "cells d' = nor_write (cells d) (unat (p_address p) + unat off) bytes"
proof -
  have in_chip: "unat (p_address p) + unat (p_size p) \<le> unat (chip_size (chip R))"
    using p by (simp add: sector_partition_def)
  have lt: "unat off + length bytes < 2 ^ 32" using assms(4) in_chip chip_lt by simp
  obtain d' ret where w: "esp_partition_write R p off src bytes d = Some (d', ret)"
    and res: "ret = ESP_OK \<longrightarrow> cells d' = nor_write (cells d) (unat (p_address p) + unat off) bytes"
    using partition_write [OF p lt assms(2), of src d] by blast
  have un: "unat (of_nat (length bytes) :: u32) = length bytes" using assms(2) by (simp add: unat_of_nat_small)
  have sum: "unat (off + of_nat (length bytes)) = unat off + length bytes"
    using unat_add_no_wrap [of off "of_nat (length bytes)"] lt un by simp
  have ua: "unat (p_address p + off) = unat (p_address p) + unat off"
    using unat_add_no_wrap [of "p_address p" off] assms(4) in_chip chip_lt by simp
  have "spi_flash_write R (p_address p + off) src bytes d = Some (d', ret)"
    using w assms(4) by (simp add: esp_partition_write_def word_less_nat_alt sum)
  then have "ret = ESP_OK"
    using flash_write_ret assms(3,4) ua in_chip by simp
  then show thesis using that w res by blast
qed

end

section \<open>Properties\<close>

text \<open>The client's loop over an iterator.\<close>

function iterate_all :: "esp_partition_iterator option \<Rightarrow> esp_partition_t list" where
  "iterate_all None = []"
| "iterate_all (Some it) = (case esp_partition_get it of None \<Rightarrow> [] | Some p \<Rightarrow> p # iterate_all (esp_partition_next it))"
  by pat_completeness auto
termination
proof (relation "measure (\<lambda>it. case it of None \<Rightarrow> 0 | Some i \<Rightarrow> Suc (length (next_item i)))", goal_cases)
  case (2 it p)
  then show ?case
    by (cases "esp_partition_next it") (auto dest: esp_partition_next_shrinks)
qed simp

lemma iterate_all_next:
  "iterate_all (esp_partition_next it) = filter (it_matches (it_type it) (it_subtype it) (it_label it)) (next_item it)"
proof (induction "length (next_item it)" arbitrary: it rule: less_induct)
  case less
  show ?case
  proof (cases "esp_partition_next it")
    case None
    then show ?thesis by (simp add: filter_next_None)
  next
    case (Some it')
    then show ?thesis
      using less.hyps [OF esp_partition_next_shrinks [OF Some]] filter_next [OF Some]
      by (auto simp: esp_partition_get_def)
  qed
qed

text \<open>C34: Loading reads back exactly the table that was flashed: when memory can be allocated, the chip answers every read and the table sector holds the
  encoded entries es (each with the magic number, at most 128, followed by something else when
  there are fewer), load_partitions succeeds, the list holds exactly their types, subtypes,
  addresses, sizes and labels in table order, and nothing else changes.\<close>

theorem load_partitions_roundtrip:
  assumes "reliable_flash R cells" and "heap_buf R \<noteq> 0"
    and "unat table_addr + 4096 \<le> unat (chip_size (chip R))"
    and "\<forall>p \<in> set es. info_magic p = ESP_PARTITION_MAGIC \<and> length (info_label p) = 16"
    and "length es = 128 \<or> length es < 128 \<and> le16 rest \<noteq> ESP_PARTITION_MAGIC"
    and "mem_read (cells (dev s)) (unat table_addr) 4096 = concat (map encode_partition_info es) @ rest"
    and "s_partition_list s = []"
  shows "load_partitions R table_addr s = (s\<lparr>s_partition_list := map partition_of_info es\<rparr>, ESP_OK)"
proof -
  have "spi_flash_read R table_addr (heap_buf R) 4096 (dev s) = Inr (mem_read (cells (dev s)) (unat table_addr) 4096)"
    using reliable_flash.flash_read_ok [OF assms(1,2)]
      nor_flash.flash_read [OF reliable_flash.axioms(1) [OF assms(1)] _ assms(3)]
    by (cases "spi_flash_read R table_addr (heap_buf R) 4096 (dev s)") auto
  then show ?thesis
    using assms(2,7) table_entries_encode [OF assms(4,5)] by (simp add: load_partitions_def assms(6))
qed


lemma mem_read_mem_write_prefix: "length bs \<le> n \<Longrightarrow> mem_read (mem_write m a bs) a n = bs @ mem_read m (a + length bs) (n - length bs)"
  using mem_read_append [of "mem_write m a bs" a "length bs" "n - length bs"]
  by (simp add: mem_read_mem_write_other)

definition example_info :: "u8 \<Rightarrow> u8 \<Rightarrow> u32 \<Rightarrow> u32 \<Rightarrow> esp_partition_info_t" where
  "example_info ty st off sz = \<lparr>info_magic = ESP_PARTITION_MAGIC, info_type = ty, info_subtype = st,
     info_pos = \<lparr>pos_offset = off, pos_size = sz\<rparr>, info_label = [0x61, 0x70, 0x70, ty, st] @ replicate 11 0, info_flags = 0\<rparr>"

text \<open>Two OTA slots and the OTA data partition, as in \<^verbatim>\<open>partitions_two_ota.csv\<close>.\<close>

definition example_table :: "esp_partition_info_t list" where
  "example_table = [example_info 1 0 0xd000 0x2000, example_info 0 0x10 0x10000 0x20000, example_info 0 0x11 0x40000 0x20000]"

definition example_flash :: mem where
  "example_flash = mem_write (\<lambda>_. 0xff) 0x8000 (concat (map encode_partition_info example_table))"

lemma load_partitions_roundtrip_witness:
  "load_partitions (nor_chip 0x100000) 0x8000 \<lparr>dev = example_flash, s_partition_list = []\<rparr>
    = (\<lparr>dev = example_flash, s_partition_list = map partition_of_info example_table\<rparr>, ESP_OK)"
proof -
  let ?es = "concat (map encode_partition_info example_table)"
  have len: "length ?es = 96" by (simp add: example_table_def example_info_def)
  have rest: "mem_read example_flash 0x8000 4096 = ?es @ mem_read (\<lambda>_. 0xff) (0x8000 + 96) 4000"
    using mem_read_mem_write_prefix [of ?es 4096 "\<lambda>_. 0xff" "0x8000"] len by (simp add: example_flash_def)
  have "mem_read (\<lambda>_. 0xff) (0x8000 + 96) (2 + 3998)
      = mem_read (\<lambda>_. 0xff) (0x8000 + 96) 2 @ mem_read (\<lambda>_. 0xff) (0x8000 + 96 + 2) 3998"
    by (rule mem_read_append)
  moreover have "mem_read (\<lambda>_. 0xff) (0x8000 + 96) 2 = [0xff, 0xff]"
    by (simp add: mem_read_def upt_rec)
  ultimately have magic: "le16 (mem_read (\<lambda>_. 0xff) (0x8000 + 96) 4000) \<noteq> ESP_PARTITION_MAGIC"
    by (simp add: ESP_PARTITION_MAGIC_def)
  show ?thesis
    using load_partitions_roundtrip [OF chip1M.reliable_flash_axioms, of "0x8000" example_table
        "mem_read (\<lambda>_. 0xff) (0x8000 + 96) 4000" "\<lparr>dev = example_flash, s_partition_list = []\<rparr>"] rest magic
    by (simp add: nor_chip_def g_rom_flashchip_def example_table_def example_info_def)
qed

text \<open>On a loaded table (find loads it when it is empty) the iterator API is complete and exact:
  find and next visit exactly the entries of the requested type, of the requested subtype (0xFF for
  any) and label, each once and in table order; find_first returns the first of them; verify returns
  the first entry of the same type, subtype and label (when the argument has one) with the same
  address and size. None of them changes the state.\<close>

lemma partition_find_exact:
  assumes "s_partition_list s \<noteq> []"
  shows "iterate_all (snd (esp_partition_find R t ty st l s)) = filter (it_matches ty st l) (s_partition_list s)
    \<and> fst (esp_partition_find R t ty st l s) = s
    \<and> esp_partition_find_first R t ty st l s = (s, List.find (it_matches ty st l) (s_partition_list s))
    \<and> esp_partition_verify R t p s = (s, List.find (\<lambda>q. p_address q = p_address p \<and> p_size p = p_size q)
        (filter (it_matches (p_type p) (p_subtype p) (if p_label p \<noteq> [] then Some (p_label p) else None)) (s_partition_list s)))"
  using assms find_first_loaded [OF assms] verify_loaded [OF assms]
  by (simp add: esp_partition_find_def iterate_all_next iterator_create_def)

lemma partition_find_exact_witness:
  "iterate_all (snd (esp_partition_find (nor_chip 0x100000) 0x8000 0 0xff None
      \<lparr>dev = example_flash, s_partition_list = map partition_of_info example_table\<rparr>))
    = [partition_of_info (example_info 0 0x10 0x10000 0x20000), partition_of_info (example_info 0 0x11 0x40000 0x20000)]"
  using partition_find_exact [of "\<lparr>dev = example_flash, s_partition_list = map partition_of_info example_table\<rparr>"
      "nor_chip 0x100000" "0x8000" 0 "0xff" None]
  by (simp add: example_table_def example_info_def partition_of_info_def it_matches_def)

text \<open>C33: A partition made of whole sectors is isolated: no write of at most 64 KiB and no erase of a
  non-empty range, of any alignment, successful or failing, changes a single byte outside it, as long
  as offset + length does not exceed 32 bits. When the write reports success the range lies inside
  the partition and was programmed; when the erase does, the range reads 0xFF.\<close>

theorem partition_isolation:
  assumes "nor_flash R cells" and "sector_partition R p"
  shows "(unat off + length bytes < 2 ^ 32 \<longrightarrow> length bytes \<le> 65536 \<longrightarrow>
      (\<exists>d' ret. esp_partition_write R p off src bytes d = Some (d', ret)
        \<and> same_outside (unat (p_address p)) (unat (p_size p)) (cells d) (cells d')
        \<and> (ret = ESP_OK \<longrightarrow> unat off + length bytes \<le> unat (p_size p)
            \<and> cells d' = nor_write (cells d) (unat (p_address p) + unat off) bytes)))
    \<and> (unat off + unat n < 2 ^ 32 \<longrightarrow> n \<noteq> 0 \<longrightarrow>
      (case esp_partition_erase_range R p off n d of (d', ret) \<Rightarrow>
        same_outside (unat (p_address p)) (unat (p_size p)) (cells d) (cells d')
        \<and> (ret = ESP_OK \<longrightarrow> unat off + unat n \<le> unat (p_size p)
            \<and> cells d' = mem_fill (cells d) (unat (p_address p) + unat off) (unat n) 0xff)))"
  using nor_flash.partition_write [OF assms, of off bytes src d] nor_flash.partition_erase [OF assms, of off n d]
  by (auto split: prod.split)

lemma partition_isolation_witness:
  "\<exists>d' ret. esp_partition_write (nor_chip 0x100000) (partition_of_info (example_info 0 0x10 0x10000 0x20000)) 3 0x3FFE8000
      [1, 2, 3] (\<lambda>_. 0xff) = Some (d', ret) \<and> same_outside 0x10000 0x20000 (\<lambda>_. 0xff) d'"
  using partition_isolation [OF chip1M.nor_flash_axioms, of "partition_of_info (example_info 0 0x10 0x10000 0x20000)"
      3 "[1, 2, 3]" "0x3FFE8000" "\<lambda>_. 0xff" 4096]
  by (auto simp: sector_partition_def partition_of_info_def example_info_def)

text \<open>The bounds checks do not isolate a partition from an empty erase: erasing zero bytes at any
  sector boundary of a partition passes every check and erases everything from there to the end of
  the chip, the partitions behind it included.\<close>

lemma partition_erase_escapes:
  assumes "reliable_flash R cells" and "sector_partition R p" and "unat off mod 4096 = 0" and "off \<le> p_size p"
  shows "cells (fst (esp_partition_erase_range R p off 0 d)) =
      mem_fill (cells d) (unat (p_address p) + unat off)
        (unat (chip_size (chip R)) - (unat (p_address p) + unat off)) 0xff"
proof -
  let ?A = "unat (p_address p)"
  have in_chip: "?A + unat (p_size p) \<le> unat (chip_size (chip R))" "?A mod 4096 = 0"
    using assms(2) by (simp_all add: sector_partition_def)
  have le: "unat off \<le> unat (p_size p)" using assms(4) by (simp add: word_le_nat_alt)
  have ua: "unat (p_address p + off) = ?A + unat off"
    using unat_add_no_wrap [of "p_address p" off] le in_chip(1)
      nor_flash.chip_lt [OF reliable_flash.axioms(1) [OF assms(1)]] by simp
  have "(?A + unat off) mod 4096 = 0" using in_chip(2) assms(3) mod_add_eq [of ?A 4096 "unat off"] by simp
  moreover have "off mod SPI_FLASH_SEC_SIZE = 0"
    using assms(3) by (simp add: SPI_FLASH_SEC_SIZE_def unat_mod flip: unat_eq_zero)
  ultimately show ?thesis
    using reliable_flash.erase_range_0(2) [OF assms(1), of "p_address p + off" d] assms(4) le in_chip(1) ua
    by (simp add: esp_partition_erase_range_def not_less)
qed

lemma partition_erase_escapes_witness:
  "fst (esp_partition_erase_range (nor_chip 0x100000) (partition_of_info (example_info 0 0x10 0x10000 0x20000)) 0 0 (\<lambda>_. 0))
    = mem_fill (\<lambda>_. 0) 0x10000 0xf0000 0xff"
  using partition_erase_escapes [OF chip1M.reliable_flash_axioms, of "partition_of_info (example_info 0 0x10 0x10000 0x20000)" 0 "\<lambda>_. 0"]
  by (simp add: sector_partition_def partition_of_info_def example_info_def)

end
