(* ===== verification/Sha.thy ===== *)
theory Sha
  imports Prelude
begin

text \<open>
  The hash functions of \<^verbatim>\<open>components/util/src/sha.c\<close> and
  \<^verbatim>\<open>util/include/esp_sha.h\<close>: SHA-1, the two members of the 32-bit and the two
  of the 64-bit SHA-2 family. The unrolled rounds of the C code, in which the working variables keep
  their place and the roles rotate, are folds over the round number with the roles computed from it;
  the message schedule of SHA-1 is the ring of 16 words of the code.

  The second half states the standard (FIPS 180-4) as reference definitions and shows that the
  compression functions equal it and that hashing a message in any pieces gives the standard's hash
  of the whole.
\<close>

type_synonym u64 = "64 word"

section \<open>Macros\<close>

definition F0 :: "'a::len word \<Rightarrow> 'a word \<Rightarrow> 'a word \<Rightarrow> 'a word" where
  "F0 x y z = ((x AND y) OR (z AND (x OR y)))"

definition F1 :: "'a::len word \<Rightarrow> 'a word \<Rightarrow> 'a word \<Rightarrow> 'a word" where
  "F1 x y z = (z XOR (x AND (y XOR z)))"

definition SHR :: "u32 \<Rightarrow> nat \<Rightarrow> u32" where "SHR x n = drop_bit n (x AND 0xFFFFFFFF)"
definition ROTR :: "u32 \<Rightarrow> nat \<Rightarrow> u32" where "ROTR x n = SHR x n OR push_bit (32 - n) x"
definition S0 :: "u32 \<Rightarrow> u32" where "S0 x = ROTR x 7 XOR ROTR x 18 XOR SHR x 3"
definition S1 :: "u32 \<Rightarrow> u32" where "S1 x = ROTR x 17 XOR ROTR x 19 XOR SHR x 10"
definition S2 :: "u32 \<Rightarrow> u32" where "S2 x = ROTR x 2 XOR ROTR x 13 XOR ROTR x 22"
definition S3 :: "u32 \<Rightarrow> u32" where "S3 x = ROTR x 6 XOR ROTR x 11 XOR ROTR x 25"

definition SHR64 :: "u64 \<Rightarrow> nat \<Rightarrow> u64" where "SHR64 x n = drop_bit n x"
definition ROTR64 :: "u64 \<Rightarrow> nat \<Rightarrow> u64" where "ROTR64 x n = SHR64 x n OR push_bit (64 - n) x"
definition S0_64 :: "u64 \<Rightarrow> u64" where "S0_64 x = ROTR64 x 1 XOR ROTR64 x 8 XOR SHR64 x 7"
definition S1_64 :: "u64 \<Rightarrow> u64" where "S1_64 x = ROTR64 x 19 XOR ROTR64 x 61 XOR SHR64 x 6"
definition S2_64 :: "u64 \<Rightarrow> u64" where "S2_64 x = ROTR64 x 28 XOR ROTR64 x 34 XOR ROTR64 x 39"
definition S3_64 :: "u64 \<Rightarrow> u64" where "S3_64 x = ROTR64 x 14 XOR ROTR64 x 18 XOR ROTR64 x 41"

text \<open>The \<^verbatim>\<open>S\<close> of SHA-1, a rotation to the left.\<close>

definition S_sha1 :: "u32 \<Rightarrow> nat \<Rightarrow> u32" where
  "S_sha1 x n = push_bit n x OR drop_bit (32 - n) (x AND 0xFFFFFFFF)"

section \<open>Constants\<close>

definition esp_sha1_state_ctx :: "u32 list" where
  "esp_sha1_state_ctx = [
    0x67452301, 0xEFCDAB89, 0x98BADCFE, 0x10325476,
    0xC3D2E1F0]"

definition esp_sha224_state_ctx :: "u32 list" where
  "esp_sha224_state_ctx = [
    0xC1059ED8, 0x367CD507, 0x3070DD17, 0xF70E5939,
    0xFFC00B31, 0x68581511, 0x64F98FA7, 0xBEFA4FA4]"

definition esp_sha256_state_ctx :: "u32 list" where
  "esp_sha256_state_ctx = [
    0x6A09E667, 0xBB67AE85, 0x3C6EF372, 0xA54FF53A,
    0x510E527F, 0x9B05688C, 0x1F83D9AB, 0x5BE0CD19]"

definition esp_sha384_state_ctx :: "u64 list" where
  "esp_sha384_state_ctx = [
    0xCBBB9D5DC1059ED8, 0x629A292A367CD507, 0x9159015A3070DD17, 0x152FECD8F70E5939,
    0x67332667FFC00B31, 0x8EB44A8768581511, 0xDB0C2E0D64F98FA7, 0x47B5481DBEFA4FA4]"

definition esp_sha512_state_ctx :: "u64 list" where
  "esp_sha512_state_ctx = [
    0x6A09E667F3BCC908, 0xBB67AE8584CAA73B, 0x3C6EF372FE94F82B, 0xA54FF53A5F1D36F1,
    0x510E527FADE682D1, 0x9B05688C2B3E6C1F, 0x1F83D9ABFB41BD6B, 0x5BE0CD19137E2179]"


definition K256 :: "u32 list" where
  "K256 = [
    0x428A2F98, 0x71374491, 0xB5C0FBCF, 0xE9B5DBA5,
    0x3956C25B, 0x59F111F1, 0x923F82A4, 0xAB1C5ED5,
    0xD807AA98, 0x12835B01, 0x243185BE, 0x550C7DC3,
    0x72BE5D74, 0x80DEB1FE, 0x9BDC06A7, 0xC19BF174,
    0xE49B69C1, 0xEFBE4786, 0x0FC19DC6, 0x240CA1CC,
    0x2DE92C6F, 0x4A7484AA, 0x5CB0A9DC, 0x76F988DA,
    0x983E5152, 0xA831C66D, 0xB00327C8, 0xBF597FC7,
    0xC6E00BF3, 0xD5A79147, 0x06CA6351, 0x14292967,
    0x27B70A85, 0x2E1B2138, 0x4D2C6DFC, 0x53380D13,
    0x650A7354, 0x766A0ABB, 0x81C2C92E, 0x92722C85,
    0xA2BFE8A1, 0xA81A664B, 0xC24B8B70, 0xC76C51A3,
    0xD192E819, 0xD6990624, 0xF40E3585, 0x106AA070,
    0x19A4C116, 0x1E376C08, 0x2748774C, 0x34B0BCB5,
    0x391C0CB3, 0x4ED8AA4A, 0x5B9CCA4F, 0x682E6FF3,
    0x748F82EE, 0x78A5636F, 0x84C87814, 0x8CC70208,
    0x90BEFFFA, 0xA4506CEB, 0xBEF9A3F7, 0xC67178F2]"

definition K512 :: "u64 list" where
  "K512 = [
    0x428A2F98D728AE22, 0x7137449123EF65CD,
    0xB5C0FBCFEC4D3B2F, 0xE9B5DBA58189DBBC,
    0x3956C25BF348B538, 0x59F111F1B605D019,
    0x923F82A4AF194F9B, 0xAB1C5ED5DA6D8118,
    0xD807AA98A3030242, 0x12835B0145706FBE,
    0x243185BE4EE4B28C, 0x550C7DC3D5FFB4E2,
    0x72BE5D74F27B896F, 0x80DEB1FE3B1696B1,
    0x9BDC06A725C71235, 0xC19BF174CF692694,
    0xE49B69C19EF14AD2, 0xEFBE4786384F25E3,
    0x0FC19DC68B8CD5B5, 0x240CA1CC77AC9C65,
    0x2DE92C6F592B0275, 0x4A7484AA6EA6E483,
    0x5CB0A9DCBD41FBD4, 0x76F988DA831153B5,
    0x983E5152EE66DFAB, 0xA831C66D2DB43210,
    0xB00327C898FB213F, 0xBF597FC7BEEF0EE4,
    0xC6E00BF33DA88FC2, 0xD5A79147930AA725,
    0x06CA6351E003826F, 0x142929670A0E6E70,
    0x27B70A8546D22FFC, 0x2E1B21385C26C926,
    0x4D2C6DFC5AC42AED, 0x53380D139D95B3DF,
    0x650A73548BAF63DE, 0x766A0ABB3C77B2A8,
    0x81C2C92E47EDAEE6, 0x92722C851482353B,
    0xA2BFE8A14CF10364, 0xA81A664BBC423001,
    0xC24B8B70D0F89791, 0xC76C51A30654BE30,
    0xD192E819D6EF5218, 0xD69906245565A910,
    0xF40E35855771202A, 0x106AA07032BBD1B8,
    0x19A4C116B8D2D0C8, 0x1E376C085141AB53,
    0x2748774CDF8EEB99, 0x34B0BCB5E19B48A8,
    0x391C0CB3C5C95A63, 0x4ED8AA4AE3418ACB,
    0x5B9CCA4F7763E373, 0x682E6FF3D6B2B8A3,
    0x748F82EE5DEFB2FC, 0x78A5636F43172F60,
    0x84C87814A1F0AB72, 0x8CC702081A6439EC,
    0x90BEFFFA23631E28, 0xA4506CEBDE82BDE9,
    0xBEF9A3F7B2C67915, 0xC67178F2E372532B,
    0xCA273ECEEA26619C, 0xD186B8C721C0C207,
    0xEADA7DD6CDE0EB1E, 0xF57D4F7FEE6ED178,
    0x06F067AA72176FBA, 0x0A637DC5A2C898A6,
    0x113F9804BEF90DAE, 0x1B710B35131C471B,
    0x28DB77F523047D84, 0x32CAAB7B40C72493,
    0x3C9EBE0A15C9BEBC, 0x431D67C49C100D4C,
    0x4CC5D4BECB3E42B6, 0x597F299CFC657E2A,
    0x5FCB6FAB3AD6FAEC, 0x6C44198C4A475817]"

text \<open>128 bytes: 0x80 and zeros, as the little-endian words are laid out.\<close>

definition sha_padding :: "u8 list" where
  "sha_padding = 0x80 # replicate 127 0"

section \<open>Bytes and words\<close>

definition le64 :: "u8 list \<Rightarrow> u64" where
  "le64 bs = foldr (\<lambda>b w. ucast b OR push_bit 8 w) (take 8 bs) 0"

definition le64_bytes :: "u64 \<Rightarrow> u8 list" where
  "le64_bytes v = map (\<lambda>i. ucast (drop_bit (8 * i) v)) [0..<8]"

definition esp_sha_put_be :: "u8 list \<Rightarrow> nat \<Rightarrow> nat \<Rightarrow> u8 list" where
  "esp_sha_put_be src sz steps =
    concat (map (\<lambda>q. map (\<lambda>j. src ! (q * steps + (steps - j - 1))) [0..<steps]) [0..<(sz + steps - 1) div steps])"

section \<open>Compression\<close>

text \<open>Which slot of \<^verbatim>\<open>A\<close> the argument number \<open>j\<close> of round \<open>t\<close> is,
  in the rotated calls of the macro \<^verbatim>\<open>P\<close>.\<close>

definition role :: "nat \<Rightarrow> nat \<Rightarrow> nat \<Rightarrow> nat" where
  "role n t j = (j + (n - t mod n)) mod n"

text \<open>The last loop of each function: \<^verbatim>\<open>ctx->state[i] += A[i]\<close>.\<close>

definition add_state :: "nat \<Rightarrow> 'a::len word list \<Rightarrow> 'a word list \<Rightarrow> 'a word list" where
  "add_state n state A = map (\<lambda>i. state ! i + A ! i) [0..<n] @ drop n state"

definition sha1_R :: "nat \<Rightarrow> u32 list \<Rightarrow> u32 list \<times> u32" where
  "sha1_R t W =
    (let temp = W ! ((t - 3) mod 16) XOR W ! ((t - 8) mod 16) XOR W ! ((t - 14) mod 16) XOR W ! (t mod 16);
         v = S_sha1 temp 1 in
     (W[t mod 16 := v], v))"

definition sha1_F :: "nat \<Rightarrow> u32 \<Rightarrow> u32 \<Rightarrow> u32 \<Rightarrow> u32" where
  "sha1_F t x y z =
    (if t < 20 then z XOR (x AND (y XOR z))
     else if t < 40 then x XOR y XOR z
     else if t < 60 then (x AND y) OR (z AND (x OR y))
     else x XOR y XOR z)"

definition sha1_K :: "nat \<Rightarrow> u32" where
  "sha1_K t = (if t < 20 then 0x5A827999 else if t < 40 then 0x6ED9EBA1 else if t < 60 then 0x8F1BBCDC else 0xCA62C1D6)"

definition sha1_P :: "nat \<Rightarrow> u32 \<Rightarrow> u32 list \<Rightarrow> u32 list" where
  "sha1_P t x A =
    (let a = role 5 t 0; b = role 5 t 1; c = role 5 t 2; d = role 5 t 3; e = role 5 t 4;
         A1 = A[e := A ! e + (S_sha1 (A ! a) 5 + sha1_F t (A ! b) (A ! c) (A ! d) + sha1_K t + x)] in
     A1[b := S_sha1 (A1 ! b) 30])"

definition sha1_round :: "nat \<Rightarrow> u32 list \<times> u32 list \<Rightarrow> u32 list \<times> u32 list" where
  "sha1_round t WA =
    (let (W, A) = WA; (W1, x) = (if t < 16 then (W, W ! t) else sha1_R t W) in (W1, sha1_P t x A))"

definition esp_sha1_process :: "u8 list \<Rightarrow> u32 list \<Rightarrow> u32 list" where
  "esp_sha1_process data state =
    (let be = esp_sha_put_be data 64 4; W = map (\<lambda>i. le32 (drop (4 * i) be)) [0..<16] in
     add_state 5 state (snd (fold sha1_round [0..<80] (W, take 5 state))))"

text \<open>\<^verbatim>\<open>P\<close> of the SHA-2 functions on the slots that \<open>r\<close> gives to its
  arguments.\<close>

definition sha2_P :: "('a::len word \<Rightarrow> 'a word) \<Rightarrow> ('a word \<Rightarrow> 'a word) \<Rightarrow> (nat \<Rightarrow> nat) \<Rightarrow> 'a word \<Rightarrow> 'a word
    \<Rightarrow> 'a word list \<Rightarrow> 'a word list" where
  "sha2_P s2 s3 r x k A =
    (let temp1 = A ! r 7 + s3 (A ! r 4) + F1 (A ! r 4) (A ! r 5) (A ! r 6) + k + x;
         temp2 = s2 (A ! r 0) + F0 (A ! r 0) (A ! r 1) (A ! r 2);
         A1 = A[r 3 := A ! r 3 + temp1] in
     A1[r 7 := temp1 + temp2])"

definition sha256_round :: "u8 list \<Rightarrow> nat \<Rightarrow> u32 list \<times> u32 list \<Rightarrow> u32 list \<times> u32 list" where
  "sha256_round data i WA =
    (let (W, A) = WA;
         W1 = W @ [if i < 16 then le32 (esp_sha_put_be (drop (4 * i) data) 4 4)
                   else S1 (W ! (i - 2)) + W ! (i - 7) + S0 (W ! (i - 15)) + W ! (i - 16)];
         A1 = sha2_P S2 S3 (\<lambda>j. j) (W1 ! i) (K256 ! i) A in
     (W1, A1 ! 7 # take 7 A1))"

definition esp_sha256_process :: "u8 list \<Rightarrow> u32 list \<Rightarrow> u32 list" where
  "esp_sha256_process data state =
    add_state 8 state (snd (fold (sha256_round data) [0..<64] ([], take 8 state)))"

definition sha512_schedule :: "u8 list \<Rightarrow> u64 list" where
  "sha512_schedule data =
    fold (\<lambda>i W. W @ [S1_64 (W ! (i - 2)) + W ! (i - 7) + S0_64 (W ! (i - 15)) + W ! (i - 16)]) [16..<80]
      (map (\<lambda>i. le64 (esp_sha_put_be (drop (8 * i) data) 8 8)) [0..<16])"

definition esp_sha512_process :: "u8 list \<Rightarrow> u64 list \<Rightarrow> u64 list" where
  "esp_sha512_process data state =
    (let W = sha512_schedule data in
     add_state 8 state (fold (\<lambda>i A. sha2_P S2_64 S3_64 (role 8 i) (W ! i) (K512 ! i) A) [0..<80] (take 8 state)))"

section \<open>Contexts\<close>

datatype esp_sha_type_t = SHA1 | SHA224 | SHA256 | SHA384 | SHA512

text \<open>The two structures \<^verbatim>\<open>esp_sha_t\<close> and \<^verbatim>\<open>esp_sha512_t\<close> differ in
  the width of their words and the size of the buffer; the code tells them apart by the type field,
  which the initialisers tie to the structure.\<close>

record 'w sha_ctx_t =
  sha_type :: esp_sha_type_t
  sha_buffer :: "u8 list"
  total0 :: 'w
  total1 :: 'w
  sha_state :: "'w list"
  sha_cal :: "u8 list \<Rightarrow> 'w list \<Rightarrow> 'w list"

datatype sha_ctx = Sha32 "u32 sha_ctx_t" | Sha64 "u64 sha_ctx_t"

definition esp_sha_init :: "'w::zero sha_ctx_t \<Rightarrow> esp_sha_type_t \<Rightarrow> 'w list \<Rightarrow> nat
    \<Rightarrow> (u8 list \<Rightarrow> 'w list \<Rightarrow> 'w list) \<Rightarrow> 'w sha_ctx_t" where
  "esp_sha_init ctx ty state_ctx sz cal =
    ctx\<lparr>total0 := 0, total1 := 0, sha_state := take sz state_ctx @ drop sz (sha_state ctx), sha_type := ty, sha_cal := cal\<rparr>"

definition esp_sha1_init :: "u32 sha_ctx_t \<Rightarrow> sha_ctx" where
  "esp_sha1_init ctx = Sha32 (esp_sha_init ctx SHA1 esp_sha1_state_ctx 5 esp_sha1_process)"

definition esp_sha224_init :: "u32 sha_ctx_t \<Rightarrow> sha_ctx" where
  "esp_sha224_init ctx = Sha32 (esp_sha_init ctx SHA224 esp_sha224_state_ctx 8 esp_sha256_process)"

definition esp_sha256_init :: "u32 sha_ctx_t \<Rightarrow> sha_ctx" where
  "esp_sha256_init ctx = Sha32 (esp_sha_init ctx SHA256 esp_sha256_state_ctx 8 esp_sha256_process)"

definition esp_sha384_init :: "u64 sha_ctx_t \<Rightarrow> sha_ctx" where
  "esp_sha384_init ctx = Sha64 (esp_sha_init ctx SHA384 esp_sha384_state_ctx 8 esp_sha512_process)"

definition esp_sha512_init :: "u64 sha_ctx_t \<Rightarrow> sha_ctx" where
  "esp_sha512_init ctx = Sha64 (esp_sha_init ctx SHA512 esp_sha512_state_ctx 8 esp_sha512_process)"

section \<open>Feeding data\<close>

definition overwrite :: "'a list \<Rightarrow> nat \<Rightarrow> 'a list \<Rightarrow> 'a list" where
  "overwrite buf i xs = take i buf @ xs @ drop (i + length xs) buf"

text \<open>The loop over whole blocks of the input.\<close>

function eat_blocks :: "nat \<Rightarrow> (u8 list \<Rightarrow> 's \<Rightarrow> 's) \<Rightarrow> 's \<Rightarrow> u8 list \<Rightarrow> 's \<times> u8 list" where
  "eat_blocks step cal st input =
    (if 0 < step \<and> step \<le> length input then eat_blocks step cal (cal (take step input) st) (drop step input)
     else (st, input))"
  by pat_completeness auto
termination by (relation "measure (\<lambda>(step, cal, st, input). length input)") auto

declare eat_blocks.simps [simp del]

text \<open>The common part of \<^verbatim>\<open>__esp_sha_update\<close>, from \<^verbatim>\<open>fill = step - left\<close> on.\<close>

definition sha_absorb :: "nat \<Rightarrow> nat \<Rightarrow> (u8 list \<Rightarrow> 's \<Rightarrow> 's) \<Rightarrow> u8 list \<Rightarrow> 's \<Rightarrow> u8 list \<Rightarrow> u8 list \<times> 's" where
  "sha_absorb step left0 cal buf0 st0 input0 =
    (let fill = step - left0;
         (buf, st, input, left) =
           (if left0 \<noteq> 0 \<and> length input0 \<ge> fill
            then let b = overwrite buf0 left0 (take fill input0) in (b, cal b st0, drop fill input0, 0)
            else (buf0, st0, input0, left0));
         (st1, rest) = eat_blocks step cal st input in
     (if length rest > 0 then overwrite buf left rest else buf, st1))"

definition esp_sha_update :: "sha_ctx \<Rightarrow> u8 list \<Rightarrow> sha_ctx" where
  "esp_sha_update ctx input =
    (if input = [] then ctx
     else case ctx of
       Sha32 c \<Rightarrow>
         let left = unat (total0 c AND 0x3F); ilen = of_nat (length input);
             t0 = total0 c + ilen; t1 = (if t0 < ilen then total1 c + 1 else total1 c);
             (buf, st) = sha_absorb 64 left (sha_cal c) (sha_buffer c) (sha_state c) input in
         Sha32 (c\<lparr>total0 := t0, total1 := t1, sha_buffer := buf, sha_state := st\<rparr>)
     | Sha64 c \<Rightarrow>
         let left = unat (total0 c AND 0x7F); ilen = of_nat (length input);
             t0 = total0 c + ilen; t1 = (if t0 < ilen then total1 c + 1 else total1 c);
             (buf, st) = sha_absorb 128 left (sha_cal c) (sha_buffer c) (sha_state c) input in
         Sha64 (c\<lparr>total0 := t0, total1 := t1, sha_buffer := buf, sha_state := st\<rparr>))"

fun sha_bytes :: "esp_sha_type_t \<Rightarrow> nat" where
  "sha_bytes SHA1 = 20"
| "sha_bytes SHA224 = 28"
| "sha_bytes SHA256 = 32"
| "sha_bytes SHA384 = 48"
| "sha_bytes SHA512 = 64"

text \<open>\<^verbatim>\<open>__esp_sha_finish\<close>: the digest and the context left behind.\<close>

definition esp_sha_finish :: "sha_ctx \<Rightarrow> u8 list \<times> sha_ctx" where
  "esp_sha_finish ctx =
    (case ctx of
       Sha32 c \<Rightarrow>
         let high = drop_bit 29 (total0 c) OR push_bit 3 (total1 c); low = push_bit 3 (total0 c);
             last = unat (total0 c AND 0x3F); padn = (if last < 56 then 56 - last else 120 - last);
             msglen = esp_sha_put_be (le32_bytes high) 4 4 @ esp_sha_put_be (le32_bytes low) 4 4;
             ctx1 = esp_sha_update (esp_sha_update ctx (take padn sha_padding)) msglen in
         (case ctx1 of
            Sha32 c1 \<Rightarrow> (esp_sha_put_be (concat (map le32_bytes (sha_state c1))) (sha_bytes (sha_type c)) 4, ctx1)
          | Sha64 _ \<Rightarrow> ([], ctx1))
     | Sha64 c \<Rightarrow>
         let high = drop_bit 61 (total0 c) OR push_bit 3 (total1 c); low = push_bit 3 (total0 c);
             last = unat (total0 c AND 0x7F); padn = (if last < 112 then 112 - last else 240 - last);
             msglen = esp_sha_put_be (le64_bytes high) 8 8 @ esp_sha_put_be (le64_bytes low) 8 8;
             ctx1 = esp_sha_update (esp_sha_update ctx (take padn sha_padding)) msglen in
         (case ctx1 of
            Sha64 c1 \<Rightarrow> (esp_sha_put_be (concat (map le64_bytes (sha_state c1))) (sha_bytes (sha_type c)) 8, ctx1)
          | Sha32 _ \<Rightarrow> ([], ctx1)))"

section \<open>The standard\<close>

definition sha_Ch :: "'a::len word \<Rightarrow> 'a word \<Rightarrow> 'a word \<Rightarrow> 'a word" where
  "sha_Ch x y z = (x AND y) XOR (NOT x AND z)"

definition sha_Maj :: "'a::len word \<Rightarrow> 'a word \<Rightarrow> 'a word \<Rightarrow> 'a word" where
  "sha_Maj x y z = (x AND y) XOR (x AND z) XOR (y AND z)"

definition be_word :: "u8 list \<Rightarrow> 'a::len word" where
  "be_word bs = foldl (\<lambda>w b. push_bit 8 w OR ucast b) 0 bs"

definition be_bytes :: "nat \<Rightarrow> nat \<Rightarrow> u8 list" where
  "be_bytes n x = rev (map (\<lambda>i. of_nat (x div 256 ^ i)) [0..<n])"

definition block_words :: "nat \<Rightarrow> u8 list \<Rightarrow> 'a::len word list" where
  "block_words k b = map (\<lambda>i. be_word (take k (drop (k * i) b))) [0..<16]"

fun sha2_W :: "('a::len word \<Rightarrow> 'a word) \<Rightarrow> ('a word \<Rightarrow> 'a word) \<Rightarrow> 'a word list \<Rightarrow> nat \<Rightarrow> 'a word" where
  "sha2_W s0 s1 M t =
    (if t < 16 then M ! t
     else s1 (sha2_W s0 s1 M (t - 2)) + sha2_W s0 s1 M (t - 7) + s0 (sha2_W s0 s1 M (t - 15)) + sha2_W s0 s1 M (t - 16))"

fun sha1_W :: "u32 list \<Rightarrow> nat \<Rightarrow> u32" where
  "sha1_W M t =
    (if t < 16 then M ! t
     else word_rotl 1 (sha1_W M (t - 3) XOR sha1_W M (t - 8) XOR sha1_W M (t - 14) XOR sha1_W M (t - 16)))"

declare sha2_W.simps [simp del] sha1_W.simps [simp del]

definition sha2_step :: "('a::len word \<Rightarrow> 'a word) \<Rightarrow> ('a word \<Rightarrow> 'a word) \<Rightarrow> 'a word \<Rightarrow> 'a word \<Rightarrow> 'a word list \<Rightarrow> 'a word list" where
  "sha2_step sum0 sum1 k w A =
    (let T1 = A ! 7 + sum1 (A ! 4) + sha_Ch (A ! 4) (A ! 5) (A ! 6) + k + w;
         T2 = sum0 (A ! 0) + sha_Maj (A ! 0) (A ! 1) (A ! 2) in
     [T1 + T2, A ! 0, A ! 1, A ! 2, A ! 3 + T1, A ! 4, A ! 5, A ! 6])"

definition sha1_f :: "nat \<Rightarrow> u32 \<Rightarrow> u32 \<Rightarrow> u32 \<Rightarrow> u32" where
  "sha1_f t x y z =
    (if t < 20 then sha_Ch x y z else if t < 40 then x XOR y XOR z else if t < 60 then sha_Maj x y z else x XOR y XOR z)"

definition sha1_step :: "nat \<Rightarrow> u32 \<Rightarrow> u32 list \<Rightarrow> u32 list" where
  "sha1_step t w A =
    (let T = word_rotl 5 (A ! 0) + sha1_f t (A ! 1) (A ! 2) (A ! 3) + A ! 4 + sha1_K t + w in
     [T, A ! 0, word_rotl 30 (A ! 1), A ! 2, A ! 3])"

definition sha1_compress :: "u8 list \<Rightarrow> u32 list \<Rightarrow> u32 list" where
  "sha1_compress b H = map2 (+) H (fold (\<lambda>t. sha1_step t (sha1_W (block_words 4 b) t)) [0..<80] H)"

definition sha256_compress :: "u8 list \<Rightarrow> u32 list \<Rightarrow> u32 list" where
  "sha256_compress b H = map2 (+) H
    (fold (\<lambda>t. sha2_step
        (\<lambda>x. word_rotr 2 x XOR word_rotr 13 x XOR word_rotr 22 x) (\<lambda>x. word_rotr 6 x XOR word_rotr 11 x XOR word_rotr 25 x)
        (K256 ! t)
        (sha2_W (\<lambda>x. word_rotr 7 x XOR word_rotr 18 x XOR drop_bit 3 x) (\<lambda>x. word_rotr 17 x XOR word_rotr 19 x XOR drop_bit 10 x)
          (block_words 4 b) t)) [0..<64] H)"

definition sha512_compress :: "u8 list \<Rightarrow> u64 list \<Rightarrow> u64 list" where
  "sha512_compress b H = map2 (+) H
    (fold (\<lambda>t. sha2_step
        (\<lambda>x. word_rotr 28 x XOR word_rotr 34 x XOR word_rotr 39 x) (\<lambda>x. word_rotr 14 x XOR word_rotr 18 x XOR word_rotr 41 x)
        (K512 ! t)
        (sha2_W (\<lambda>x. word_rotr 1 x XOR word_rotr 8 x XOR drop_bit 7 x) (\<lambda>x. word_rotr 19 x XOR word_rotr 61 x XOR drop_bit 6 x)
          (block_words 8 b) t)) [0..<80] H)"

fun blocks :: "nat \<Rightarrow> 'a list \<Rightarrow> 'a list list" where
  "blocks n xs = (if n = 0 \<or> xs = [] then [] else take n xs # blocks n (drop n xs))"

declare blocks.simps [simp del]

definition sha_pad :: "nat \<Rightarrow> nat \<Rightarrow> u8 list \<Rightarrow> u8 list" where
  "sha_pad blk lenb m =
    m @ 0x80 # replicate ((2 * blk - lenb - (length m + 1) mod blk) mod blk) 0 @ be_bytes lenb (8 * length m)"

definition fips_hash :: "nat \<Rightarrow> nat \<Rightarrow> nat \<Rightarrow> (u8 list \<Rightarrow> 'w::len word list \<Rightarrow> 'w word list) \<Rightarrow> 'w word list \<Rightarrow> nat \<Rightarrow> u8 list \<Rightarrow> u8 list" where
  "fips_hash blk lenb k compress H0 n m =
    take n (concat (map (\<lambda>w. be_bytes k (unat w)) (foldl (\<lambda>H b. compress b H) H0 (blocks blk (sha_pad blk lenb m)))))"

section \<open>Rotations, choices and byte order\<close>

lemma u32_and_full: "(x :: u32) AND 0xFFFFFFFF = x"
proof -
  have "(0xFFFFFFFF :: u32) = - 1" by simp
  then show ?thesis by (metis and.right_neutral)
qed

lemma SHR_eq: "SHR x n = drop_bit n x"
  by (simp only: SHR_def u32_and_full)

lemma ROTR_eq: "0 < n \<Longrightarrow> n < 32 \<Longrightarrow> ROTR x n = word_rotr n x"
proof (rule bit_word_eqI)
  fix i assume n: "0 < n" "n < 32" and i: "i < LENGTH(32)"
  show "bit (ROTR x n) i \<longleftrightarrow> bit (word_rotr n x) i"
  proof (cases "i + n < 32")
    case True
    then have "\<not> 32 - n \<le> i" by linarith
    with True show ?thesis using n i by (simp add: ROTR_def SHR_eq bit_simps bit_word_rotr_iff add.commute)
  next
    case False
    then have "(i + n) mod 32 = i - (32 - n)" using n i by (simp add: mod_if)
    then show ?thesis using n i False
      by (simp add: ROTR_def SHR_eq bit_simps bit_word_rotr_iff) (auto dest: bit_imp_le_length)
  qed
qed

lemma ROTR64_eq: "0 < n \<Longrightarrow> n < 64 \<Longrightarrow> ROTR64 x n = word_rotr n x"
proof (rule bit_word_eqI)
  fix i assume n: "0 < n" "n < 64" and i: "i < LENGTH(64)"
  show "bit (ROTR64 x n) i \<longleftrightarrow> bit (word_rotr n x) i"
  proof (cases "i + n < 64")
    case True
    then have "\<not> 64 - n \<le> i" by linarith
    with True show ?thesis using n i by (simp add: ROTR64_def SHR64_def bit_simps bit_word_rotr_iff add.commute)
  next
    case False
    then have "(i + n) mod 64 = i - (64 - n)" using n i by (simp add: mod_if)
    then show ?thesis using n i False
      by (simp add: ROTR64_def SHR64_def bit_simps bit_word_rotr_iff) (auto dest: bit_imp_le_length)
  qed
qed

lemma S_sha1_eq: "0 < n \<Longrightarrow> n < 32 \<Longrightarrow> S_sha1 x n = word_rotl n x"
proof (rule bit_word_eqI)
  fix i assume n: "0 < n" "n < 32" and i: "i < LENGTH(32)"
  have md: "(i + (LENGTH(32) - n mod LENGTH(32))) mod LENGTH(32) = (if n \<le> i then i - n else 32 + i - n)"
  proof (cases "n \<le> i")
    case True
    then have "i + (32 - n) = (i - n) + 32" using n by simp
    then have "(i + (32 - n)) mod 32 = (i - n) mod 32" by simp
    then show ?thesis using True i n by simp
  next
    case False
    then have "i + (32 - n) < 32" using n by simp
    then show ?thesis using False n by simp
  qed
  have r: "bit (word_rotl n x) i \<longleftrightarrow> bit x (if n \<le> i then i - n else 32 + i - n)"
    unfolding bit_word_rotl_iff md using i by (simp only: simp_thms)
  have l: "bit (S_sha1 x n) i \<longleftrightarrow> n \<le> i \<and> bit x (i - n) \<or> bit x (32 - n + i)"
    using i by (simp add: S_sha1_def u32_and_full bit_simps)
  show "bit (S_sha1 x n) i \<longleftrightarrow> bit (word_rotl n x) i"
  proof (cases "n \<le> i")
    case True
    then have "\<not> bit x (32 - n + i)" using n by (auto dest: bit_imp_le_length)
    then show ?thesis using True by (simp add: l r)
  next
    case False
    then have "32 - n + i = 32 + i - n" using n by simp
    then show ?thesis using False by (simp add: l r)
  qed
qed

lemma F1_eq: "F1 x y z = sha_Ch x y z"
  by (rule bit_word_eqI) (auto simp: F1_def sha_Ch_def bit_simps)

lemma F0_eq: "F0 x y z = sha_Maj x y z"
  by (rule bit_word_eqI) (auto simp: F0_def sha_Maj_def bit_simps)

lemma sha1_F_eq: "sha1_F t = sha1_f t"
  using F1_eq F0_eq by (auto simp: sha1_F_def sha1_f_def F1_def F0_def fun_eq_iff)

lemma S_eq:
  "S0 x = word_rotr 7 x XOR word_rotr 18 x XOR drop_bit 3 x" "S1 x = word_rotr 17 x XOR word_rotr 19 x XOR drop_bit 10 x"
  "S2 x = word_rotr 2 x XOR word_rotr 13 x XOR word_rotr 22 x" "S3 x = word_rotr 6 x XOR word_rotr 11 x XOR word_rotr 25 x"
  by (simp_all add: S0_def S1_def S2_def S3_def ROTR_eq SHR_eq)

lemma S64_eq:
  "S0_64 x = word_rotr 1 x XOR word_rotr 8 x XOR drop_bit 7 x" "S1_64 x = word_rotr 19 x XOR word_rotr 61 x XOR drop_bit 6 x"
  "S2_64 x = word_rotr 28 x XOR word_rotr 34 x XOR word_rotr 39 x" "S3_64 x = word_rotr 14 x XOR word_rotr 18 x XOR word_rotr 41 x"
  by (simp_all add: S0_64_def S1_64_def S2_64_def S3_64_def ROTR64_eq SHR64_def)

lemma put_be_words:
  assumes "0 < k" and "n * k \<le> length src"
  shows "esp_sha_put_be src (n * k) k = concat (map (\<lambda>q. rev (take k (drop (q * k) src))) [0..<n])"
proof -
  have "(n * k + k - 1) div k = n"
    using assms(1) div_mult_self3 [of k n "k - 1"] by (simp add: add_diff_eq [symmetric] div_add1_eq)
  moreover have "map (\<lambda>j. src ! (q * k + (k - j - 1))) [0..<k] = rev (take k (drop (q * k) src))" if "q < n" for q
  proof (rule nth_equalityI)
    have "(q + 1) * k \<le> n * k" using that by (intro mult_right_mono) auto
    then have le: "q * k + k \<le> length src" using assms(2) by simp
    then show "length (map (\<lambda>j. src ! (q * k + (k - j - 1))) [0..<k]) = length (rev (take k (drop (q * k) src)))" by simp
    show "map (\<lambda>j. src ! (q * k + (k - j - 1))) [0..<k] ! i = rev (take k (drop (q * k) src)) ! i"
      if "i < length (map (\<lambda>j. src ! (q * k + (k - j - 1))) [0..<k])" for i
      using that le by (simp add: rev_nth)
  qed
  ultimately show ?thesis
    unfolding esp_sha_put_be_def by (intro arg_cong [where f = concat] map_cong) (simp_all only: set_upt atLeastLessThan_iff)
qed

lemma put_be_word: "0 < k \<Longrightarrow> k \<le> length src \<Longrightarrow> esp_sha_put_be src k k = rev (take k src)"
  using put_be_words [of k 1 src] by simp

lemma le32_foldr: "length bs = 4 \<Longrightarrow> le32 (bs @ rest) = foldr (\<lambda>b w. ucast b OR push_bit 8 w) bs 0"
proof -
  assume "length bs = 4"
  then obtain a b c d where "bs = [a, b, c, d]" by (auto simp: numeral_eq_Suc length_Suc_conv)
  then show ?thesis by (simp add: push_bit_or)
qed

lemma le32_rev: "length bs = 4 \<Longrightarrow> le32 (rev bs @ rest) = be_word bs"
  by (simp add: le32_foldr be_word_def foldr_conv_foldl or.commute)

lemma le64_rev: "length bs = 8 \<Longrightarrow> le64 (rev bs) = be_word bs"
  by (simp add: le64_def be_word_def foldr_conv_foldl or.commute)

section \<open>The compression functions meet the standard\<close>

lemma list8: "length A = 8 \<Longrightarrow> \<exists>a b c d e f g h. A = [a, b, c, d, e, f, g, h]"
  by (auto simp: numeral_eq_Suc length_Suc_conv)

lemma list5: "length A = 5 \<Longrightarrow> \<exists>a b c d e. A = [a, b, c, d, e]"
  by (auto simp: numeral_eq_Suc length_Suc_conv)

lemma upt_8: "[0..<8] = [0, 1, 2, 3, 4, 5, 6, 7]"
  by (simp add: upt_conv_Cons)

lemma upt_5: "[0..<5] = [0, 1, 2, 3, 4]"
  by (simp add: upt_conv_Cons)

lemma add_state_eq: "length H = 8 \<Longrightarrow> length A = 8 \<Longrightarrow> add_state 8 H A = map2 (+) H A"
  by (rule nth_equalityI) (simp_all add: add_state_def)

lemma length_sha2_step [simp]: "length (sha2_step s0 s1 k w A) = 8"
  by (simp add: sha2_step_def Let_def)

lemma length_sha2_fold: "length H = 8 \<Longrightarrow> length (fold (\<lambda>t. sha2_step s0 s1 (k t) (w t)) ts H) = 8"
  by (induction ts arbitrary: H) simp_all

lemma nth_block_words: "i < 16 \<Longrightarrow> block_words k b ! i = be_word (take k (drop (k * i) b))"
  by (simp add: block_words_def)

lemma sha2_W_small: "t < 16 \<Longrightarrow> sha2_W s0 s1 M t = M ! t"
  by (simp add: sha2_W.simps)

text \<open>Appending the next word of the schedule.\<close>

lemma schedule_step:
  assumes "16 \<le> t" and "W = map (sha2_W s0 s1 M) [0..<t]"
  shows "W @ [s1 (W ! (t - 2)) + W ! (t - 7) + s0 (W ! (t - 15)) + W ! (t - 16)] = map (sha2_W s0 s1 M) [0..<Suc t]"
proof -
  have "sha2_W s0 s1 M t = s1 (sha2_W s0 s1 M (t - 2)) + sha2_W s0 s1 M (t - 7) + s0 (sha2_W s0 s1 M (t - 15)) + sha2_W s0 s1 M (t - 16)"
    using assms(1) by (subst sha2_W.simps) simp
  then show ?thesis using assms by simp
qed

lemma sha256_rounds:
  assumes "length data = 64" and "length A = 8" and "n \<le> 64"
  shows "fold (sha256_round data) [0..<n] ([], A)
    = (map (sha2_W S0 S1 (block_words 4 data)) [0..<n],
       fold (\<lambda>t. sha2_step S2 S3 (K256 ! t) (sha2_W S0 S1 (block_words 4 data) t)) [0..<n] A)"
  using assms(3)
proof (induction n)
  case 0
  then show ?case by simp
next
  case (Suc n)
  let ?M = "block_words 4 data" and ?W = "sha2_W S0 S1 (block_words 4 data)"
  let ?A = "fold (\<lambda>t. sha2_step S2 S3 (K256 ! t) (?W t)) [0..<n] A"
  obtain a b c d e f g h where A: "?A = [a, b, c, d, e, f, g, h]" using list8 [OF length_sha2_fold [OF assms(2), of S2 S3 "\<lambda>t. K256 ! t" ?W "[0..<n]"]] by blast
  have W: "map ?W [0..<n] @ [if n < 16 then le32 (esp_sha_put_be (drop (4 * n) data) 4 4)
         else S1 (map ?W [0..<n] ! (n - 2)) + map ?W [0..<n] ! (n - 7) + S0 (map ?W [0..<n] ! (n - 15)) + map ?W [0..<n] ! (n - 16)]
       = map ?W [0..<Suc n]"
  proof (cases "n < 16")
    case True
    then have "le32 (esp_sha_put_be (drop (4 * n) data) 4 4) = ?M ! n"
      using assms(1) le32_rev [of "take 4 (drop (4 * n) data)" "[]"] by (simp add: put_be_word nth_block_words)
    then show ?thesis using True by (simp add: sha2_W_small)
  next
    case False
    then show ?thesis using schedule_step [of n "map ?W [0..<n]" S0 S1 ?M] by simp
  qed
  have "map ?W [0..<Suc n] ! n = ?W n" by (simp add: nth_append)
  moreover have "fold (sha256_round data) [0..<n] ([], A) = (map ?W [0..<n], ?A)" using Suc by simp
  ultimately have "fold (sha256_round data) [0..<Suc n] ([], A)
      = (map ?W [0..<Suc n], let A1 = sha2_P S2 S3 (\<lambda>j. j) (?W n) (K256 ! n) ?A in A1 ! 7 # take 7 A1)"
    using W by (simp add: sha256_round_def Let_def)
  also have "(let A1 = sha2_P S2 S3 (\<lambda>j. j) (?W n) (K256 ! n) ?A in A1 ! 7 # take 7 A1)
      = sha2_step S2 S3 (K256 ! n) (?W n) ?A"
    by (simp add: A sha2_P_def sha2_step_def F0_eq F1_eq Let_def)
  finally show ?case by simp
qed

lemma sha256_process_eq:
  assumes "length data = 64" and "length H = 8"
  shows "esp_sha256_process data H = sha256_compress data H"
  using sha256_rounds [OF assms order_refl] assms(2)
  by (simp add: esp_sha256_process_def add_state_eq length_sha2_fold sha256_compress_def S_eq [abs_def])

lemma sha512_schedule_eq:
  assumes "length data = 128"
  shows "sha512_schedule data = map (sha2_W S0_64 S1_64 (block_words 8 data)) [0..<80]"
proof -
  let ?M = "block_words 8 data" and ?W = "sha2_W S0_64 S1_64 (block_words 8 data)"
  have "le64 (esp_sha_put_be (drop (8 * i) data) 8 8) = ?W i" if "i < 16" for i
    using that assms le64_rev [of "take 8 (drop (8 * i) data)"]
    by (simp add: sha2_W_small put_be_word nth_block_words)
  then have start: "map (\<lambda>i. le64 (esp_sha_put_be (drop (8 * i) data) 8 8)) [0..<16] = map ?W [0..<16]" by simp
  let ?F = "\<lambda>i W. W @ [S1_64 (W ! (i - 2)) + W ! (i - 7) + S0_64 (W ! (i - 15)) + W ! (i - 16)]"
  have "fold ?F [16..<16 + k] (map ?W [0..<16]) = map ?W [0..<16 + k]" for k
  proof (induction k)
    case (Suc k)
    have "fold ?F [16..<16 + Suc k] (map ?W [0..<16]) = ?F (16 + k) (fold ?F [16..<16 + k] (map ?W [0..<16]))"
      by (simp only: add_Suc_right upt_Suc_append [of 16 "16 + k"] le_add1 fold_append fold_simps o_apply id_apply)
    also have "\<dots> = ?F (16 + k) (map ?W [0..<16 + k])" by (simp only: Suc)
    also have "\<dots> = map ?W [0..<Suc (16 + k)]" by (rule schedule_step) simp_all
    finally show ?case by (simp only: add_Suc_right)
  qed simp
  from this [of 64] have "fold ?F [16..<80] (map ?W [0..<16]) = map ?W [0..<80]" by (simp only: numeral_plus_numeral semiring_norm)
  then show ?thesis by (simp only: sha512_schedule_def start)
qed

lemma role_int: "0 < n \<Longrightarrow> int (role n t j) = (int j - int t) mod int n"
proof -
  assume n: "0 < n"
  then have "int (n - t mod n) = int n - int t mod int n" by (simp add: of_nat_diff less_imp_le zmod_int)
  then have "int (role n t j) = (int j + (int n - int t mod int n)) mod int n"
    by (simp only: role_def zmod_int of_nat_add)
  also have "\<dots> = (int j - int t mod int n + int n) mod int n" by (simp add: algebra_simps)
  also have "\<dots> = (int j - int t) mod int n" by (simp add: mod_diff_right_eq)
  finally show ?thesis .
qed

lemma role_Suc:
  assumes "0 < n"
  shows "role n (Suc t) 0 = role n t (n - 1)" and "role n (Suc t) (Suc j) = role n t j"
proof -
  have "int (role n (Suc t) 0) = int (role n t (n - 1))"
  proof -
    have "(int (n - 1) - int t) mod int n = (- 1 - int t + int n) mod int n"
      using assms by (simp add: of_nat_diff algebra_simps)
    then show ?thesis using assms by (simp add: role_int)
  qed
  then show "role n (Suc t) 0 = role n t (n - 1)" by simp
  have "int (role n (Suc t) (Suc j)) = int (role n t j)" using assms by (simp add: role_int)
  then show "role n (Suc t) (Suc j) = role n t j" by simp
qed

lemma role_less [simp]: "0 < n \<Longrightarrow> role n t j < n"
  by (simp add: role_def)

lemma role_eq_iff: "i < n \<Longrightarrow> j < n \<Longrightarrow> role n t i = role n t j \<longleftrightarrow> i = j"
proof
  assume ij: "i < n" "j < n" and "role n t i = role n t j"
  then have "(int i - int t) mod int n = (int j - int t) mod int n" by (metis role_int gr_implies_not0 not_gr_zero)
  then have "int i mod int n = int j mod int n" by (metis add_diff_cancel_left' diff_add_cancel mod_add_left_eq)
  then show "i = j" using ij by simp
qed simp

lemma role_prev: "0 < j \<Longrightarrow> 0 < n \<Longrightarrow> role n (Suc t) j = role n t (j - 1)"
  using role_Suc(2) [of n t "j - 1"] by simp

lemma sha2_P_role:
  assumes "length A = 8"
  shows "map (\<lambda>j. sha2_P s2 s3 (role 8 t) x k A ! role 8 (Suc t) j) [0..<8]
    = sha2_step s2 s3 k x (map (\<lambda>j. A ! role 8 t j) [0..<8])"
  using assms
  by (simp add: upt_8 role_Suc(1) role_prev sha2_P_def sha2_step_def F0_eq F1_eq Let_def nth_list_update role_eq_iff)

lemma length_sha2_P [simp]: "length (sha2_P s2 s3 r x k A) = length A"
  by (simp add: sha2_P_def Let_def)

lemma sha512_rounds:
  assumes "length A = 8"
  shows "length (fold (\<lambda>i. sha2_P s2 s3 (role 8 i) (w i) (k i)) [0..<n] A) = 8
    \<and> map (\<lambda>j. fold (\<lambda>i. sha2_P s2 s3 (role 8 i) (w i) (k i)) [0..<n] A ! role 8 n j) [0..<8]
      = fold (\<lambda>t. sha2_step s2 s3 (k t) (w t)) [0..<n] A"
proof (induction n)
  case 0
  obtain a b c d e f g h where A: "A = [a, b, c, d, e, f, g, h]" using list8 [OF assms(1)] by blast
  show ?case by (simp add: A role_def upt_8)
next
  case (Suc n)
  let ?A = "fold (\<lambda>i. sha2_P s2 s3 (role 8 i) (w i) (k i)) [0..<n] A"
  have "fold (\<lambda>i. sha2_P s2 s3 (role 8 i) (w i) (k i)) [0..<Suc n] A = sha2_P s2 s3 (role 8 n) (w n) (k n) ?A" by simp
  then show ?case using Suc sha2_P_role [of ?A s2 s3 n "w n" "k n"] by simp
qed

lemma sha512_process_eq:
  assumes "length data = 128" and "length H = 8"
  shows "esp_sha512_process data H = sha512_compress data H"
proof -
  let ?W = "sha2_W S0_64 S1_64 (block_words 8 data)"
  let ?A = "fold (\<lambda>i A. sha2_P S2_64 S3_64 (role 8 i) (?W i) (K512 ! i) A) [0..<80] H"
  have "fold (\<lambda>i A. sha2_P S2_64 S3_64 (role 8 i) (map ?W [0..<80] ! i) (K512 ! i) A) [0..<80] H = ?A"
    by (rule fold_cong) auto
  moreover have "length ?A = 8" "map (\<lambda>j. ?A ! role 8 80 j) [0..<8]
      = fold (\<lambda>t. sha2_step S2_64 S3_64 (K512 ! t) (?W t)) [0..<80] H"
    using sha512_rounds [OF assms(2), of S2_64 S3_64 ?W "\<lambda>i. K512 ! i" 80] by simp_all
  moreover have "map (\<lambda>j. ?A ! role 8 80 j) [0..<8] = ?A"
    using \<open>length ?A = 8\<close> by (intro nth_equalityI) (simp_all add: role_def)
  ultimately show ?thesis using assms
    by (simp add: esp_sha512_process_def sha512_schedule_eq add_state_eq sha512_compress_def S64_eq [abs_def])
qed

lemma sha1_P_role:
  assumes "length A = 5"
  shows "map (\<lambda>j. sha1_P t x A ! role 5 (Suc t) j) [0..<5] = sha1_step t x (map (\<lambda>j. A ! role 5 t j) [0..<5])"
  using assms
  by (simp add: upt_5 role_Suc(1) role_prev sha1_P_def sha1_step_def sha1_F_eq S_sha1_eq Let_def nth_list_update role_eq_iff
      ac_simps)

lemma sha1_R_eq:
  assumes "16 \<le> t" and "length W = 16"
    and W: "\<And>s. s < t \<Longrightarrow> t \<le> s + 16 \<Longrightarrow> W ! (s mod 16) = sha1_W M s"
  shows "sha1_R t W = (W[t mod 16 := sha1_W M t], sha1_W M t)"
proof -
  have "(t - 16) mod 16 = t mod 16" using assms(1) by (simp add: le_mod_geq)
  then have "W ! (t mod 16) = sha1_W M (t - 16)" using W [of "t - 16"] assms(1) by simp
  moreover have "sha1_W M t = word_rotl 1 (sha1_W M (t - 3) XOR sha1_W M (t - 8) XOR sha1_W M (t - 14) XOR sha1_W M (t - 16))"
    using assms(1) by (subst sha1_W.simps) simp
  ultimately show ?thesis
    using W [of "t - 3"] W [of "t - 8"] W [of "t - 14"] assms(1) by (simp add: sha1_R_def S_sha1_eq Let_def)
qed

lemma sha1_rounds:
  assumes "length M = 16" and "length A = 5"
  shows "\<exists>W A'. fold sha1_round [0..<t] (M, A) = (W, A') \<and> length W = 16 \<and> length A' = 5
    \<and> (\<forall>s < max t 16. max t 16 \<le> s + 16 \<longrightarrow> W ! (s mod 16) = sha1_W M s)
    \<and> map (\<lambda>j. A' ! role 5 t j) [0..<5] = fold (\<lambda>t. sha1_step t (sha1_W M t)) [0..<t] A"
proof (induction t)
  case 0
  obtain a b c d e where "A = [a, b, c, d, e]" using list5 [OF assms(2)] by blast
  then show ?case using assms by (simp add: role_def upt_5 sha1_W.simps)
next
  case (Suc t)
  then obtain W A' where IH: "fold sha1_round [0..<t] (M, A) = (W, A')" "length W = 16" "length A' = 5"
    and W: "\<And>s. s < max t 16 \<Longrightarrow> max t 16 \<le> s + 16 \<Longrightarrow> W ! (s mod 16) = sha1_W M s"
    and A': "map (\<lambda>j. A' ! role 5 t j) [0..<5] = fold (\<lambda>t. sha1_step t (sha1_W M t)) [0..<t] A" by blast
  let ?x = "sha1_W M t"
  let ?W = "if t < 16 then W else W[t mod 16 := ?x]"
  have R: "(if t < 16 then (W, W ! t) else sha1_R t W) = (?W, ?x)"
  proof (cases "t < 16")
    case True
    then show ?thesis using W [of t] by simp
  next
    case False
    then show ?thesis using sha1_R_eq [of t W M] W IH(2) by (simp add: max_def)
  qed
  have "fold sha1_round [0..<Suc t] (M, A) = (?W, sha1_P t ?x A')"
    using IH(1) R by (simp add: sha1_round_def)
  moreover have "?W ! (s mod 16) = sha1_W M s" if "s < max (Suc t) 16" "max (Suc t) 16 \<le> s + 16" for s
  proof (cases "t < 16")
    case True
    then show ?thesis using that W [of s] by (simp add: max_def split: if_splits)
  next
    case False
    show ?thesis
    proof (cases "s = t")
      case True
      then show ?thesis using False IH(2) by simp
    next
      case ne: False
      then have "s < t" "t - s < 16" using that False by (auto simp: max_def split: if_splits)
      then have "t mod 16 \<noteq> s mod 16"
        by (metis diff_is_0_eq' dvd_imp_le mod_eq_dvd_iff_nat nat_less_le not_less zero_less_diff less_imp_le)
      then show ?thesis using False W [of s] \<open>s < t\<close> that by (simp add: max_def)
    qed
  qed
  moreover have "length (sha1_P t ?x A') = 5" using IH(3) by (simp add: sha1_P_def Let_def)
  ultimately show ?case using sha1_P_role [OF IH(3), of t ?x] A' IH(2) by simp
qed

lemma sha1_process_eq:
  assumes "length data = 64" and "length H = 5"
  shows "esp_sha1_process data (H @ junk) = sha1_compress data H @ junk"
proof -
  let ?be = "esp_sha_put_be data 64 4" and ?M = "block_words 4 data :: u32 list"
  have be: "?be = concat (map (\<lambda>q. rev (take 4 (drop (q * 4) data))) [0..<16])"
    using put_be_words [of 4 16 data] assms(1) by simp
  have "le32 (drop (4 * i) ?be) = ?M ! i" if "i < 16" for i
  proof -
    let ?f = "\<lambda>q. rev (take 4 (drop (q * 4) data))"
    have "[0..<16] = [0..<i] @ i # [Suc i..<16]" using that by (metis upt_conv_Cons upt_add_eq_append less_imp_add_positive zero_le less_imp_le)
    then have "?be = concat (map ?f [0..<i]) @ ?f i @ concat (map ?f [Suc i..<16])" unfolding be by simp
    moreover have "length (concat (map ?f [0..<i])) = 4 * i"
    proof -
      have "map length (map ?f [0..<i]) = replicate i 4"
        using that assms(1) by (intro nth_equalityI) (simp_all add: min_def)
      then show ?thesis by (simp add: length_concat sum_list_replicate)
    qed
    ultimately have "drop (4 * i) ?be = ?f i @ concat (map ?f [Suc i..<16])" by simp
    then show ?thesis using that assms(1) le32_rev [of "take 4 (drop (4 * i) data)"] by (simp add: nth_block_words mult.commute)
  qed
  then have M: "map (\<lambda>i. le32 (drop (4 * i) ?be)) [0..<16] = ?M"
    by (intro nth_equalityI) (simp_all add: block_words_def)
  obtain W A' where r: "fold sha1_round [0..<80] (?M, H) = (W, A')" "length A' = 5"
    "map (\<lambda>j. A' ! role 5 80 j) [0..<5] = fold (\<lambda>t. sha1_step t (sha1_W ?M t)) [0..<80] H"
    using sha1_rounds [of ?M H 80] assms(2) by (auto simp: block_words_def)
  have "map (\<lambda>j. A' ! role 5 80 j) [0..<5] = A'" using r(2) by (intro nth_equalityI) (simp_all add: role_def)
  then have "A' = fold (\<lambda>t. sha1_step t (sha1_W ?M t)) [0..<80] H" using r(3) by simp
  moreover have "map (\<lambda>i. (H @ junk) ! i + A' ! i) [0..<5] = map2 (+) H A'"
    using assms(2) r(2) by (intro nth_equalityI) (simp_all add: nth_append)
  ultimately show ?thesis
    using r(1) assms(2) by (simp add: esp_sha1_process_def M add_state_def sha1_compress_def)
qed

section \<open>Blocks\<close>

definition whole :: "nat \<Rightarrow> 'a list \<Rightarrow> 'a list" where "whole n m = take (length m - length m mod n) m"
definition tail_part :: "nat \<Rightarrow> 'a list \<Rightarrow> 'a list" where "tail_part n m = drop (length m - length m mod n) m"

lemma whole_tail_part [simp]: "whole n m @ tail_part n m = m"
  by (simp add: whole_def tail_part_def)

lemma length_tail_part [simp]: "length (tail_part n m) = length m mod n"
proof -
  have "length m mod n \<le> length m" by simp
  then show ?thesis unfolding tail_part_def length_drop by linarith
qed

lemma tail_part_Nil_iff: "tail_part n m = [] \<longleftrightarrow> length m mod n = 0"
  using length_tail_part [of n m] by (metis length_0_conv)

lemma length_whole: "length (whole n m) = length m - length m mod n" "length (whole n m) mod n = 0"
proof -
  show l: "length (whole n m) = length m - length m mod n" by (simp add: whole_def)
  show "length (whole n m) mod n = 0" unfolding l by (simp add: minus_mod_eq_mult_div)
qed

lemma whole_small: "length m < n \<Longrightarrow> whole n m = [] \<and> tail_part n m = m"
  by (simp add: whole_def tail_part_def)

lemma whole_append:
  assumes "length x mod n = 0"
  shows "whole n (x @ y) = x @ whole n y" and "tail_part n (x @ y) = tail_part n y"
proof -
  have "(length x + length y) mod n = length y mod n" using assms by (metis add.left_neutral mod_add_left_eq)
  moreover define K where "K = length y - length y mod n"
  moreover have "length y mod n \<le> length y" by simp
  ultimately have k: "length (x @ y) - length (x @ y) mod n = length x + K"
    unfolding length_append by linarith
  show "whole n (x @ y) = x @ whole n y" "tail_part n (x @ y) = tail_part n y"
    unfolding whole_def tail_part_def k K_def [symmetric] by simp_all
qed

lemma blocks_Nil [simp]: "blocks n [] = []"
  by (simp add: blocks.simps)

lemma blocks_append:
  assumes "length x mod n = 0" and "0 < n"
  shows "blocks n (x @ y) = blocks n x @ blocks n y"
  using assms
proof (induction "length x" arbitrary: x rule: less_induct)
  case less
  show ?case
  proof (cases "x = []")
    case False
    then have le: "n \<le> length x" using less.prems by (metis dvd_imp_le length_greater_0_conv mod_0_imp_dvd)
    then have "length (drop n x) mod n = 0" using less.prems by (simp add: le_mod_geq)
    then have "blocks n (drop n x @ y) = blocks n (drop n x) @ blocks n y" using less False le by simp
    then show ?thesis using False le less.prems by (subst (1 2) blocks.simps) simp
  qed simp
qed

lemma blocks_single: "length b = n \<Longrightarrow> 0 < n \<Longrightarrow> blocks n b = [b]"
  by (subst blocks.simps) auto

lemma eat_blocks_eq:
  "0 < n \<Longrightarrow> eat_blocks n cal st m = (foldl (\<lambda>s b. cal b s) st (blocks n (whole n m)), tail_part n m)"
proof (induction "length m" arbitrary: m st rule: less_induct)
  case less
  show ?case
  proof (cases "n \<le> length m")
    case True
    then have m: "m = take n m @ drop n m" "length (take n m) mod n = 0" by simp_all
    have "whole n m = take n m @ whole n (drop n m)" "tail_part n m = tail_part n (drop n m)"
      using whole_append [OF m(2), of "drop n m"] by simp_all
    moreover have "blocks n (take n m) = [take n m]" using True less.prems by (subst blocks.simps) auto
    moreover have "eat_blocks n cal (cal (take n m) st) (drop n m)
        = (foldl (\<lambda>s b. cal b s) (cal (take n m) st) (blocks n (whole n (drop n m))), tail_part n (drop n m))"
      using less True by simp
    ultimately show ?thesis using True less.prems m(2) by (subst eat_blocks.simps) (simp add: blocks_append)
  next
    case False
    then show ?thesis using whole_small [of m n] by (subst eat_blocks.simps) simp
  qed
qed

text \<open>A context that has taken in the message \<open>m\<close>.\<close>

definition absorbed :: "nat \<Rightarrow> (u8 list \<Rightarrow> 's \<Rightarrow> 's) \<Rightarrow> 's \<Rightarrow> u8 list \<Rightarrow> u8 list \<Rightarrow> 's \<Rightarrow> bool" where
  "absorbed n cal H0 m buf st \<longleftrightarrow> length buf = n \<and> take (length m mod n) buf = tail_part n m
     \<and> st = foldl (\<lambda>s b. cal b s) H0 (blocks n (whole n m))"

lemma sha_absorb_absorbed:
  assumes "0 < n" and a: "absorbed n cal H0 m buf st" and "sha_absorb n (length m mod n) cal buf st input = (buf', st')"
  shows "absorbed n cal H0 (m @ input) buf' st'"
proof -
  let ?l = "length m mod n" and ?F = "foldl (\<lambda>s b. cal b s)"
  have buf: "length buf = n" "take ?l buf = tail_part n m" and st: "st = ?F H0 (blocks n (whole n m))"
    using a by (simp_all add: absorbed_def)
  have l: "?l < n" using assms(1) by simp
  have over: "take (length x mod n) (if tail_part n x \<noteq> [] then overwrite b 0 (tail_part n x) else b) = tail_part n x
      \<and> length (if tail_part n x \<noteq> [] then overwrite b 0 (tail_part n x) else b) = n" if "length b = n" for x b :: "u8 list"
  proof -
    have "length x mod n < n" using assms(1) by simp
    then show ?thesis using that tail_part_Nil_iff [of n x] by (auto simp: overwrite_def)
  qed
  show ?thesis
  proof (cases "?l \<noteq> 0 \<and> n - ?l \<le> length input")
    case True
    let ?fill = "n - ?l"
    let ?b = "tail_part n m @ take ?fill input"
    have ov: "overwrite buf ?l (take ?fill input) = ?b" using True buf l by (simp add: overwrite_def)
    have len: "length ?b = n" using True l by simp
    let ?in = "drop ?fill input"
    have r: "buf' = (if tail_part n ?in \<noteq> [] then overwrite ?b 0 (tail_part n ?in) else ?b)"
      "st' = ?F (cal ?b st) (blocks n (whole n ?in))"
      using assms(3) True by (simp_all add: sha_absorb_def Let_def ov eat_blocks_eq [OF assms(1)] split: if_splits)
    have split: "m @ input = (whole n m @ ?b) @ ?in" by simp
    have z: "length (whole n m @ ?b) mod n = 0" using len length_whole(2) [of n m] by simp
    have w: "whole n (m @ input) = (whole n m @ ?b) @ whole n ?in" "tail_part n (m @ input) = tail_part n ?in"
      unfolding split by (rule whole_append [OF z])+
    have "blocks n (whole n (m @ input)) = blocks n (whole n m) @ [?b] @ blocks n (whole n ?in)"
      unfolding w(1) blocks_append [OF z assms(1)] blocks_append [OF length_whole(2) assms(1)] blocks_single [OF len assms(1)]
      by (rule append_assoc)
    moreover have "length (m @ input) mod n = length ?in mod n" using w(2) by (metis length_tail_part)
    ultimately show ?thesis using over [OF len, of ?in] w(2) r st by (simp add: absorbed_def)
  next
    case False
    show ?thesis
    proof (cases "?l = 0")
      case True
      then have m: "whole n m = m" "length m mod n = 0" by (simp_all add: whole_def)
      have r: "buf' = (if tail_part n input \<noteq> [] then overwrite buf 0 (tail_part n input) else buf)"
        "st' = ?F st (blocks n (whole n input))"
        using assms(3) True by (simp_all add: sha_absorb_def Let_def eat_blocks_eq [OF assms(1)] split: if_splits)
      have w: "whole n (m @ input) = m @ whole n input" "tail_part n (m @ input) = tail_part n input" by (rule whole_append [OF m(2)])+
      have "blocks n (whole n (m @ input)) = blocks n m @ blocks n (whole n input)"
        unfolding w(1) by (rule blocks_append [OF m(2) assms(1)])
      moreover have "length (m @ input) mod n = length input mod n" using w(2) by (metis length_tail_part)
      ultimately show ?thesis using over [OF buf(1), of input] w(2) r st m(1) by (simp add: absorbed_def)
    next
      case nz: False
      then have short: "?l + length input < n" using False l by simp
      then have "length input < n" by simp
      note small = whole_small [OF this]
      have r: "buf' = (if input \<noteq> [] then overwrite buf ?l input else buf)" "st' = st"
        using assms(3) False nz small by (auto simp: sha_absorb_def Let_def eat_blocks_eq [OF assms(1)] split: if_splits)
      have e: "whole n m @ tail_part n m @ input = m @ input" by (metis append_assoc whole_tail_part)
      have w: "whole n (m @ input) = whole n m" "tail_part n (m @ input) = tail_part n m @ input"
        using whole_append [OF length_whole(2) [of n m], of "tail_part n m @ input", unfolded e]
          whole_small [of "tail_part n m @ input" n] short by simp_all
      have "length (m @ input) mod n = ?l + length input" using w(2) by (metis length_append length_tail_part)
      moreover have "take (?l + length input) buf' = tail_part n m @ input" "length buf' = n"
        using r(1) buf short by (auto simp: overwrite_def)
      ultimately show ?thesis using w r(2) st by (simp add: absorbed_def)
    qed
  qed
qed

section \<open>Counting and padding\<close>

lemma count_nat:
  assumes "(n::nat) < q"
  shows "(L + n) div q = L div q + (if (L + n) mod q < n then 1 else 0)"
proof -
  let ?r = "L mod q"
  have r: "?r < q" using assms by simp
  have e: "L + n = q * (L div q) + (?r + n)" by simp
  show ?thesis
  proof (cases "?r + n < q")
    case True
    have "(L + n) mod q = ?r + n" using True by (metis mod_add_left_eq mod_less)
    moreover have "(L + n) div q = L div q"
      using True by (metis add.right_neutral div_less div_mult_self4 e less_nat_zero_code mult_is_0 nat_neq_iff not_gr_zero assms)
    ultimately show ?thesis by simp
  next
    case False
    then have lt: "?r + n - q < q" using assms r by linarith
    have "(L + n) mod q = (?r + n) mod q" by (simp add: mod_add_left_eq)
    also have "\<dots> = ?r + n - q" using False lt by (simp add: le_mod_geq)
    finally have m: "(L + n) mod q = ?r + n - q" .
    have "(L div q + 1) * q = q * (L div q) + q" by (simp add: algebra_simps)
    then have "L + n = (L div q + 1) * q + (?r + n - q)" using False e by linarith
    then have "(L + n) div q = L div q + 1" using lt by (metis add.commute div_less div_mult_self3 less_nat_zero_code plus_nat.add_0)
    then show ?thesis using m r False by simp
  qed
qed

lemma count_word:
  assumes "n < 2 ^ LENGTH('w)"
  shows "(if (of_nat (L + n) :: 'w::len word) < of_nat n then of_nat (L div 2 ^ LENGTH('w)) + 1 else of_nat (L div 2 ^ LENGTH('w)))
    = (of_nat ((L + n) div 2 ^ LENGTH('w)) :: 'w word)"
proof -
  have "(of_nat (L + n) :: 'w word) < of_nat n \<longleftrightarrow> (L + n) mod 2 ^ LENGTH('w) < n"
    using assms by (simp add: word_less_nat_alt unsigned_of_nat take_bit_eq_mod del: of_nat_add)
  then show ?thesis using count_nat [OF assms, of L] by simp
qed

definition taken :: "nat \<Rightarrow> 'w::len word list \<Rightarrow> u8 list \<Rightarrow> 'w word sha_ctx_t \<Rightarrow> bool" where
  "taken n H0 m c \<longleftrightarrow> absorbed n (sha_cal c) H0 m (sha_buffer c) (sha_state c)
     \<and> total0 c = of_nat (length m) \<and> total1 c = of_nat (length m div 2 ^ LENGTH('w))"

lemma unat_total_mask:
  "unat ((of_nat L :: u32) AND 0x3F) = L mod 64" "unat ((of_nat L :: u64) AND 0x7F) = L mod 128"
proof -
  have m: "(0x3F :: u32) = mask 6" "(0x7F :: u64) = mask 7" by (simp_all add: mask_eq_exp_minus_1)
  show "unat ((of_nat L :: u32) AND 0x3F) = L mod 64"
    unfolding m unat_and_mask by (simp add: unsigned_of_nat take_bit_eq_mod mod_mod_cancel)
  show "unat ((of_nat L :: u64) AND 0x7F) = L mod 128"
    unfolding m unat_and_mask by (simp add: unsigned_of_nat take_bit_eq_mod mod_mod_cancel)
qed

lemma update32:
  assumes "taken 64 H0 m c" and "length x < 2 ^ 32"
  obtains c' where "esp_sha_update (Sha32 c) x = Sha32 c'" and "taken 64 H0 (m @ x) c'"
    and "sha_type c' = sha_type c" and "sha_cal c' = sha_cal c"
proof (cases "x = []")
  case True
  then show thesis using that assms by (simp add: esp_sha_update_def)
next
  case False
  obtain buf st where a: "sha_absorb 64 (length m mod 64) (sha_cal c) (sha_buffer c) (sha_state c) x = (buf, st)"
    by fastforce
  let ?c = "c\<lparr>total0 := of_nat (length m + length x), total1 := of_nat ((length m + length x) div 2 ^ 32), sha_buffer := buf, sha_state := st\<rparr>"
  have e: "(if of_nat (length m) + of_nat (length x) < (of_nat (length x) :: u32) then total1 c + 1 else total1 c) = (of_nat ((length m + length x) div 2 ^ 32) :: u32)"
  proof -
    have l: "LENGTH(32) = 32" by simp
    have "length x < 2 ^ 32" using assms(2) by simp
    moreover have "total1 c = of_nat (length m div 2 ^ 32)" using assms(1) by (simp add: taken_def)
    ultimately show ?thesis using count_word [where 'w = 32, of "length x" "length m", unfolded l of_nat_add] by (simp only: of_nat_add)
  qed
  have "esp_sha_update (Sha32 c) x = Sha32 ?c"
    using False assms(1) e
    by (simp add: esp_sha_update_def taken_def unat_total_mask a Let_def split del: if_split)
  moreover have "taken 64 H0 (m @ x) ?c"
    using assms sha_absorb_absorbed [OF _ _ a, of H0] by (simp add: taken_def)
  ultimately show thesis using that by simp
qed

lemma update64:
  assumes "taken 128 H0 m c" and "length x < 2 ^ 32"
  obtains c' where "esp_sha_update (Sha64 c) x = Sha64 c'" and "taken 128 H0 (m @ x) c'"
    and "sha_type c' = sha_type c" and "sha_cal c' = sha_cal c"
proof (cases "x = []")
  case True
  then show thesis using that assms by (simp add: esp_sha_update_def)
next
  case False
  obtain buf st where a: "sha_absorb 128 (length m mod 128) (sha_cal c) (sha_buffer c) (sha_state c) x = (buf, st)"
    by fastforce
  let ?c = "c\<lparr>total0 := of_nat (length m + length x), total1 := of_nat ((length m + length x) div 2 ^ 64), sha_buffer := buf, sha_state := st\<rparr>"
  have e: "(if of_nat (length m) + of_nat (length x) < (of_nat (length x) :: u64) then total1 c + 1 else total1 c) = (of_nat ((length m + length x) div 2 ^ 64) :: u64)"
  proof -
    have l: "LENGTH(64) = 64" by simp
    have "length x < 2 ^ 64" using assms(2) by simp
    moreover have "total1 c = of_nat (length m div 2 ^ 64)" using assms(1) by (simp add: taken_def)
    ultimately show ?thesis using count_word [where 'w = 64, of "length x" "length m", unfolded l of_nat_add] by (simp only: of_nat_add)
  qed
  have "esp_sha_update (Sha64 c) x = Sha64 ?c"
    using False assms(1) e
    by (simp add: esp_sha_update_def taken_def unat_total_mask a Let_def split del: if_split)
  moreover have "taken 128 H0 (m @ x) ?c"
    using assms sha_absorb_absorbed [OF _ _ a, of H0] by (simp add: taken_def)
  ultimately show thesis using that by simp
qed

lemma updates32:
  assumes "taken 64 H0 m c" and "\<forall>x \<in> set xs. length x < 2 ^ 32"
  obtains c' where "foldl esp_sha_update (Sha32 c) xs = Sha32 c'" and "taken 64 H0 (m @ concat xs) c'"
    and "sha_type c' = sha_type c" and "sha_cal c' = sha_cal c"
  using assms
proof (induction xs arbitrary: m c thesis)
  case (Cons x xs)
  obtain c1 where c1: "esp_sha_update (Sha32 c) x = Sha32 c1" "taken 64 H0 (m @ x) c1" "sha_type c1 = sha_type c" "sha_cal c1 = sha_cal c"
    using update32 [OF Cons.prems(2), of x] Cons.prems(3) by auto
  show ?case
    by (rule Cons.IH [OF _ c1(2)]) (use Cons.prems c1 in auto)
qed simp

lemma updates64:
  assumes "taken 128 H0 m c" and "\<forall>x \<in> set xs. length x < 2 ^ 32"
  obtains c' where "foldl esp_sha_update (Sha64 c) xs = Sha64 c'" and "taken 128 H0 (m @ concat xs) c'"
    and "sha_type c' = sha_type c" and "sha_cal c' = sha_cal c"
  using assms
proof (induction xs arbitrary: m c thesis)
  case (Cons x xs)
  obtain c1 where c1: "esp_sha_update (Sha64 c) x = Sha64 c1" "taken 128 H0 (m @ x) c1" "sha_type c1 = sha_type c" "sha_cal c1 = sha_cal c"
    using update64 [OF Cons.prems(2), of x] Cons.prems(3) by auto
  show ?case
    by (rule Cons.IH [OF _ c1(2)]) (use Cons.prems c1 in auto)
qed simp

text \<open>Byte order of counters and words.\<close>

lemma length_be_bytes [simp]: "length (be_bytes n x) = n"
  by (simp add: be_bytes_def)

lemma be_bytes_add: "be_bytes (a + b) x = be_bytes a (x div 256 ^ b) @ be_bytes b x"
proof -
  have "[0..<a + b] = [0..<b] @ map (\<lambda>i. i + b) [0..<a]"
    using upt_add_eq_append [of 0 b a] by (simp add: map_add_upt add.commute)
  moreover have "x div 256 ^ b div 256 ^ i = x div 256 ^ (i + b)" for i by (simp add: div_mult2_eq power_add mult.commute)
  ultimately show ?thesis by (simp add: be_bytes_def rev_map o_def)
qed

lemma be_bytes_mod: "be_bytes k (x mod 256 ^ k) = be_bytes k x"
proof -
  have "(of_nat (x mod 256 ^ k div 256 ^ i) :: u8) = of_nat (x div 256 ^ i)" if "i < k" for i
  proof -
    have k: "(256::nat) ^ k = 256 ^ i * (256 * 256 ^ (k - i - 1))" using that by (simp flip: power_add power_Suc)
    have "x mod 256 ^ k div 256 ^ i = x div 256 ^ i mod (256 * 256 ^ (k - i - 1))"
      unfolding k by (simp add: mod_mult2_eq)
    then have "x mod 256 ^ k div 256 ^ i mod 256 = x div 256 ^ i mod 256" by (simp add: mod_mod_cancel)
    then show ?thesis by (simp add: word_unat_eq_iff unsigned_of_nat take_bit_eq_mod)
  qed
  then show ?thesis by (simp add: be_bytes_def)
qed

lemma ucast_drop_bit: "(ucast (drop_bit (8 * i) w) :: u8) = of_nat (unat (w :: 'a::len word) div 256 ^ i)"
proof -
  have "unat (drop_bit (8 * i) w) = unat w div 256 ^ i"
    unfolding unat_drop_bit_eq unfolding drop_bit_eq_div by (simp add: power_mult)
  moreover have "(ucast v :: u8) = of_nat (unat v)" for v :: "'a word" by simp
  ultimately show ?thesis by metis
qed

lemma rev_le32_bytes: "rev (le32_bytes w) = be_bytes 4 (unat w)"
proof -
  have "[0..<4] = [0, 1, 2, 3]" by (simp add: upt_conv_Cons)
  then show ?thesis
    using ucast_drop_bit [of 0 w] ucast_drop_bit [of 1 w] ucast_drop_bit [of 2 w] ucast_drop_bit [of 3 w]
    by (simp add: be_bytes_def le32_bytes_def)
qed

lemma rev_le64_bytes: "rev (le64_bytes w) = be_bytes 8 (unat w)"
  by (simp add: be_bytes_def le64_bytes_def ucast_drop_bit)

lemma length_le64_bytes [simp]: "length (le64_bytes w) = 8"
  by (simp add: le64_bytes_def)

lemma take_drop_concat:
  assumes "\<forall>x \<in> set xs. length (f x) = k" and "q < length xs"
  shows "take k (drop (q * k) (concat (map f xs))) = f (xs ! q)"
  using assms
proof (induction xs arbitrary: q)
  case (Cons x xs)
  then show ?case by (cases q) (simp_all add: add.commute [of k])
qed simp

lemma take_concat:
  assumes "\<forall>x \<in> set xs. length (f x) = k"
  shows "take (n * k) (concat (map f xs)) = concat (map f (take n xs))"
  using assms
proof (induction xs arbitrary: n)
  case (Cons x xs)
  then show ?case by (cases n) simp_all
qed simp

lemma put_be_state:
  assumes "0 < k" and "\<And>w. length (f w) = k" and "n \<le> length st"
  shows "esp_sha_put_be (concat (map f st)) (n * k) k = take (n * k) (concat (map (\<lambda>w. rev (f w)) st))"
proof -
  have len: "length (concat (map f st)) = length st * k" using assms(2) by (induction st) simp_all
  have "esp_sha_put_be (concat (map f st)) (n * k) k
      = concat (map (\<lambda>q. rev (take k (drop (q * k) (concat (map f st))))) [0..<n])"
    by (rule put_be_words) (use assms len in simp_all)
  also have "\<dots> = concat (map (\<lambda>q. rev (f (st ! q))) [0..<n])"
    using assms take_drop_concat [of st f k] by (intro arg_cong [where f = concat] map_cong) simp_all
  also have "map (\<lambda>q. rev (f (st ! q))) [0..<n] = map (\<lambda>w. rev (f w)) (take n st)"
    using assms(3) by (intro nth_equalityI) simp_all
  also have "concat \<dots> = take (n * k) (concat (map (\<lambda>w. rev (f w)) st))"
    using assms(2) by (subst take_concat) simp_all
  finally show ?thesis .
qed

section \<open>Hashing in pieces\<close>

lemma pad_length:
  fixes L :: nat
  shows "(120 - (L + 1) mod 64) mod 64 = (if L mod 64 < 56 then 56 - L mod 64 else 120 - L mod 64) - 1"
proof -
  have gen: "(120 - (la + 1) mod 64) mod 64 = (if la < 56 then 56 - la else 120 - la) - 1" if "la < 64" for la :: nat
  proof -
    consider "la < 55" | "la = 55" | "55 < la" "la < 63" | "la = 63" using \<open>la < 64\<close> by linarith
    then show ?thesis
    proof cases
      case 1
      then have "120 - (la + 1) = (55 - la) + 64" and "(la + 1) mod 64 = la + 1" by simp_all
      then have "(120 - (la + 1) mod 64) mod 64 = (55 - la) mod 64" by (simp only: mod_add_self2)
      then show ?thesis using 1 by simp
    next
      case 3
      then have "(la + 1) mod 64 = la + 1" "120 - (la + 1) < 64" by simp_all
      then have "(120 - (la + 1) mod 64) mod 64 = 120 - (la + 1)" by (simp only: mod_less)
      then show ?thesis using 3 by simp
    qed simp_all
  qed
  show ?thesis using gen [of "L mod 64"] mod_less_divisor [of 64 L] by (simp only: mod_add_left_eq zero_less_numeral simp_thms)
qed

lemma pad_length_128:
  fixes L :: nat
  shows "(240 - (L + 1) mod 128) mod 128 = (if L mod 128 < 112 then 112 - L mod 128 else 240 - L mod 128) - 1"
proof -
  have gen: "(240 - (la + 1) mod 128) mod 128 = (if la < 112 then 112 - la else 240 - la) - 1" if "la < 128" for la :: nat
  proof -
    consider "la < 111" | "la = 111" | "111 < la" "la < 127" | "la = 127" using \<open>la < 128\<close> by linarith
    then show ?thesis
    proof cases
      case 1
      then have "240 - (la + 1) = (111 - la) + 128" and "(la + 1) mod 128 = la + 1" by simp_all
      then have "(240 - (la + 1) mod 128) mod 128 = (111 - la) mod 128" by (simp only: mod_add_self2)
      then show ?thesis using 1 by simp
    next
      case 3
      then have "(la + 1) mod 128 = la + 1" "240 - (la + 1) < 128" by simp_all
      then have "(240 - (la + 1) mod 128) mod 128 = 240 - (la + 1)" by (simp only: mod_less)
      then show ?thesis using 3 by simp
    qed simp_all
  qed
  show ?thesis using gen [of "L mod 128"] mod_less_divisor [of 128 L] by (simp only: mod_add_left_eq zero_less_numeral simp_thms)
qed

lemma take_padding: "0 < k \<Longrightarrow> k \<le> 128 \<Longrightarrow> take k sha_padding = 0x80 # replicate (k - 1) 0"
  by (cases k) (simp_all add: sha_padding_def min_def)

lemma pad_whole:
  "length (sha_pad 64 8 m) mod 64 = 0" "length (sha_pad 128 16 m) mod 128 = 0"
proof -
  have "length (sha_pad 64 8 m) = length m + 1 + (120 - (length m + 1) mod 64) mod 64 + 8" by (simp add: sha_pad_def)
  moreover have "(x + (120 - x mod 64) mod 64 + 8) mod 64 = 0" for x :: nat
  proof -
    have "x mod 64 \<le> 120" using mod_less_divisor [of 64 x] by linarith
    then have "(x mod 64 + (120 - x mod 64) + 8) mod 64 = 0" by simp
    then show ?thesis by (metis mod_add_left_eq mod_add_right_eq)
  qed
  ultimately show "length (sha_pad 64 8 m) mod 64 = 0" by (simp only:)
  have "length (sha_pad 128 16 m) = length m + 1 + (240 - (length m + 1) mod 128) mod 128 + 16" by (simp add: sha_pad_def)
  moreover have "(x + (240 - x mod 128) mod 128 + 16) mod 128 = 0" for x :: nat
  proof -
    have "x mod 128 \<le> 240" using mod_less_divisor [of 128 x] by linarith
    then have "(x mod 128 + (240 - x mod 128) + 16) mod 128 = 0" by simp
    then show ?thesis by (metis mod_add_left_eq mod_add_right_eq)
  qed
  ultimately show "length (sha_pad 128 16 m) mod 128 = 0" by (simp only:)
qed

lemma whole_all: "length m mod n = 0 \<Longrightarrow> whole n m = m"
  by (simp add: whole_def)

text \<open>The bit length in the two words of the counter.\<close>

lemma msglen32:
  assumes "L < 2 ^ 61"
  shows "esp_sha_put_be (le32_bytes (drop_bit 29 (of_nat L) OR push_bit 3 (of_nat (L div 2 ^ 32)))) 4 4
      @ esp_sha_put_be (le32_bytes (push_bit 3 (of_nat L))) 4 4 = be_bytes 8 (8 * L)"
proof -
  let ?t0 = "of_nat L :: u32" and ?t1 = "of_nat (L div 2 ^ 32) :: u32"
  let ?h = "drop_bit 29 ?t0 OR push_bit 3 ?t1"
  have t0: "unat ?t0 = L mod 2 ^ 32" by (simp add: unsigned_of_nat take_bit_eq_mod)
  have "L div 2 ^ 32 < 2 ^ 29" using assms by (simp add: less_mult_imp_div_less)
  then have t1: "unat ?t1 = L div 2 ^ 32" by (intro unat_of_nat_small) simp
  have d: "unat (drop_bit 29 ?t0) = L mod 2 ^ 32 div 2 ^ 29" unfolding unat_drop_bit_eq t0 by (simp only: drop_bit_eq_div)
  have "L div 2 ^ 32 * 8 < 2 ^ 32" using \<open>L div 2 ^ 32 < 2 ^ 29\<close> by simp
  then have p: "unat (push_bit 3 ?t1) = L div 2 ^ 32 * 8"
    unfolding unsigned_push_bit_eq t1 by (simp add: push_bit_eq_mult take_bit_eq_mod)
  have dis: "drop_bit 29 ?t0 AND push_bit 3 ?t1 = 0"
    by (rule bit_word_eqI) (auto simp: bit_simps dest!: bit_imp_le_length)
  have lt: "L mod 2 ^ 32 div 2 ^ 29 < 8" by (simp add: less_mult_imp_div_less)
  have "?h = drop_bit 29 ?t0 + push_bit 3 ?t1"
    by (rule disjunctive_add [symmetric]) (use dis in \<open>auto simp: bit_eq_iff bit_simps\<close>)
  moreover have "unat (drop_bit 29 ?t0 + push_bit 3 ?t1) = L mod 2 ^ 32 div 2 ^ 29 + L div 2 ^ 32 * 8"
    using unat_add_no_wrap [of "drop_bit 29 ?t0" "push_bit 3 ?t1"] d p lt \<open>L div 2 ^ 32 < 2 ^ 29\<close> by simp
  moreover have "L mod 2 ^ 32 div 2 ^ 29 + L div 2 ^ 32 * 8 = 8 * L div 2 ^ 32"
  proof -
    have L: "L = L mod 2 ^ 32 + 2 ^ 29 * (L div 2 ^ 32 * 8)" using mult_div_mod_eq [of "2 ^ 32" L] by simp
    have "8 * L div 2 ^ 32 = L div 2 ^ 29" using div_mult2_eq [of "8 * L" 8 "2 ^ 29"] by simp
    also have "\<dots> = (L mod 2 ^ 32 + 2 ^ 29 * (L div 2 ^ 32 * 8)) div 2 ^ 29" using L by (rule arg_cong)
    also have "\<dots> = L div 2 ^ 32 * 8 + L mod 2 ^ 32 div 2 ^ 29" by (rule div_mult_self2) simp
    finally show ?thesis by (simp only: add.commute)
  qed
  ultimately have h: "unat ?h = 8 * L div 2 ^ 32" by (simp only:)
  have l: "unat (push_bit 3 ?t0) = 8 * L mod 2 ^ 32"
    unfolding unsigned_push_bit_eq t0 by (simp add: push_bit_eq_mult take_bit_eq_mod mod_mult_left_eq mult.commute [of 8])
  have "be_bytes 8 (8 * L) = be_bytes 4 (8 * L div 256 ^ 4) @ be_bytes 4 (8 * L)"
    using be_bytes_add [of 4 4 "8 * L"] by simp
  moreover have "be_bytes 4 (8 * L) = be_bytes 4 (8 * L mod 2 ^ 32)" using be_bytes_mod [of 4 "8 * L"] by simp
  moreover have "(256::nat) ^ 4 = 2 ^ 32" by simp
  ultimately show ?thesis using h l by (simp only: put_be_word length_le_bytes rev_le32_bytes take_all order_refl zero_less_numeral)
qed

lemma msglen64:
  assumes "L < 2 ^ 61"
  shows "esp_sha_put_be (le64_bytes (drop_bit 61 (of_nat L) OR push_bit 3 (of_nat (L div 2 ^ 64)))) 8 8
      @ esp_sha_put_be (le64_bytes (push_bit 3 (of_nat L))) 8 8 = be_bytes 16 (8 * L)"
proof -
  let ?t0 = "of_nat L :: u64"
  have t0: "unat ?t0 = L" using assms by (intro unat_of_nat_small) simp
  have "unat (drop_bit 61 ?t0) = 0" unfolding unat_drop_bit_eq t0 using assms by (simp add: drop_bit_eq_div)
  then have d: "drop_bit 61 ?t0 = 0" by (simp add: unat_eq_zero)
  have z: "(of_nat (L div 2 ^ 64) :: u64) = 0" using assms by simp
  have l: "unat (push_bit 3 ?t0) = 8 * L"
    unfolding unsigned_push_bit_eq t0 using assms by (simp add: push_bit_eq_mult take_bit_eq_mod)
  have "be_bytes 16 (8 * L) = be_bytes 8 (8 * L div 256 ^ 8) @ be_bytes 8 (8 * L)"
    using be_bytes_add [of 8 8 "8 * L"] by simp
  moreover have "8 * L div 256 ^ 8 = 0" using assms by simp
  ultimately show ?thesis using l d z
    by (simp add: put_be_word rev_le64_bytes)
qed

lemma finish32:
  assumes t: "taken 64 H0 m c" and L: "length m < 2 ^ 61" and n: "4 * n = sha_bytes (sha_type c)" "n \<le> 8"
    and len: "length (foldl (\<lambda>s b. sha_cal c b s) H0 (blocks 64 (sha_pad 64 8 m))) = 8"
  shows "fst (esp_sha_finish (Sha32 c)) = take (sha_bytes (sha_type c))
    (concat (map (\<lambda>w. be_bytes 4 (unat w)) (foldl (\<lambda>s b. sha_cal c b s) H0 (blocks 64 (sha_pad 64 8 m)))))"
proof -
  let ?la = "length m mod 64"
  let ?padn = "if ?la < 56 then 56 - ?la else 120 - ?la"
  have tot: "total0 c = of_nat (length m)" "total1 c = of_nat (length m div 2 ^ 32)" using t by (simp_all add: taken_def)
  have padn: "0 < ?padn" "?padn \<le> 64" using mod_less_divisor [of 64 "length m"] by (auto split: if_splits)
  have p1: "length (take ?padn sha_padding) < 2 ^ 32" using padn by (simp add: sha_padding_def)
  obtain c1 where c1: "esp_sha_update (Sha32 c) (take ?padn sha_padding) = Sha32 c1" "taken 64 H0 (m @ take ?padn sha_padding) c1"
    "sha_type c1 = sha_type c" "sha_cal c1 = sha_cal c"
    by (rule update32 [OF t p1])
  obtain c2 where c2: "esp_sha_update (Sha32 c1) (be_bytes 8 (8 * length m)) = Sha32 c2"
    "taken 64 H0 ((m @ take ?padn sha_padding) @ be_bytes 8 (8 * length m)) c2"
    "sha_type c2 = sha_type c" "sha_cal c2 = sha_cal c"
    by (rule update32 [OF c1(2)]) (use c1(3,4) in \<open>auto\<close>)
  have "(m @ take ?padn sha_padding) @ be_bytes 8 (8 * length m) = sha_pad 64 8 m"
    using padn take_padding [of ?padn] pad_length [of "length m"] by (simp add: sha_pad_def)
  then have st: "sha_state c2 = foldl (\<lambda>s b. sha_cal c b s) H0 (blocks 64 (sha_pad 64 8 m))"
    using c2(2,4) whole_all [OF pad_whole(1)] by (simp add: taken_def absorbed_def)
  have "fst (esp_sha_finish (Sha32 c)) = esp_sha_put_be (concat (map le32_bytes (sha_state c2))) (sha_bytes (sha_type c)) 4"
    unfolding esp_sha_finish_def using c1(1) c2(1) msglen32 [OF L]
    by (simp add: tot unat_total_mask Let_def)
  also have "\<dots> = esp_sha_put_be (concat (map le32_bytes (sha_state c2))) (n * 4) 4" using n(1) by (simp add: mult.commute)
  also have "\<dots> = take (n * 4) (concat (map (\<lambda>w. be_bytes 4 (unat w)) (sha_state c2)))"
    using put_be_state [of 4 le32_bytes n "sha_state c2"] n(2) len st by (simp add: rev_le32_bytes)
  finally show ?thesis using n(1) st by (simp add: mult.commute)
qed

lemma finish64:
  assumes t: "taken 128 H0 m c" and L: "length m < 2 ^ 61" and n: "8 * n = sha_bytes (sha_type c)" "n \<le> 8"
    and len: "length (foldl (\<lambda>s b. sha_cal c b s) H0 (blocks 128 (sha_pad 128 16 m))) = 8"
  shows "fst (esp_sha_finish (Sha64 c)) = take (sha_bytes (sha_type c))
    (concat (map (\<lambda>w. be_bytes 8 (unat w)) (foldl (\<lambda>s b. sha_cal c b s) H0 (blocks 128 (sha_pad 128 16 m)))))"
proof -
  let ?la = "length m mod 128"
  let ?padn = "if ?la < 112 then 112 - ?la else 240 - ?la"
  have tot: "total0 c = of_nat (length m)" "total1 c = of_nat (length m div 2 ^ 64)" using t by (simp_all add: taken_def)
  have padn: "0 < ?padn" "?padn \<le> 128" using mod_less_divisor [of 128 "length m"] by (auto split: if_splits)
  have p1: "length (take ?padn sha_padding) < 2 ^ 32" using padn by (simp add: sha_padding_def)
  obtain c1 where c1: "esp_sha_update (Sha64 c) (take ?padn sha_padding) = Sha64 c1" "taken 128 H0 (m @ take ?padn sha_padding) c1"
    "sha_type c1 = sha_type c" "sha_cal c1 = sha_cal c"
    by (rule update64 [OF t p1])
  obtain c2 where c2: "esp_sha_update (Sha64 c1) (be_bytes 16 (8 * length m)) = Sha64 c2"
    "taken 128 H0 ((m @ take ?padn sha_padding) @ be_bytes 16 (8 * length m)) c2"
    "sha_type c2 = sha_type c" "sha_cal c2 = sha_cal c"
    by (rule update64 [OF c1(2)]) (use c1(3,4) in \<open>auto\<close>)
  have "(m @ take ?padn sha_padding) @ be_bytes 16 (8 * length m) = sha_pad 128 16 m"
    using padn take_padding [of ?padn] pad_length_128 [of "length m"] by (simp add: sha_pad_def)
  then have st: "sha_state c2 = foldl (\<lambda>s b. sha_cal c b s) H0 (blocks 128 (sha_pad 128 16 m))"
    using c2(2,4) whole_all [OF pad_whole(2)] by (simp add: taken_def absorbed_def)
  have "fst (esp_sha_finish (Sha64 c)) = esp_sha_put_be (concat (map le64_bytes (sha_state c2))) (sha_bytes (sha_type c)) 8"
    unfolding esp_sha_finish_def using c1(1) c2(1) msglen64 [OF L]
    by (simp add: tot unat_total_mask Let_def)
  also have "\<dots> = esp_sha_put_be (concat (map le64_bytes (sha_state c2))) (n * 8) 8" using n(1) by (simp add: mult.commute)
  also have "\<dots> = take (n * 8) (concat (map (\<lambda>w. be_bytes 8 (unat w)) (sha_state c2)))"
    using put_be_state [of 8 le64_bytes n "sha_state c2"] n(2) len st by (simp add: rev_le64_bytes)
  finally show ?thesis using n(1) st by (simp add: mult.commute)
qed

section \<open>The five hash functions\<close>

lemma blocks_length:
  assumes "length m mod n = 0" and "b \<in> set (blocks n m)"
  shows "length b = n"
  using assms
proof (induction "length m" arbitrary: m rule: less_induct)
  case less
  show ?case
  proof (cases "n = 0 \<or> m = []")
    case True
    then show ?thesis using less.prems by (simp add: blocks.simps)
  next
    case False
    then have "n \<le> length m" using less.prems(1) by (metis dvd_imp_le length_greater_0_conv mod_0_imp_dvd)
    moreover have "length (drop n m) mod n = 0" using less.prems(1) calculation by (simp add: le_mod_geq)
    moreover have "b = take n m \<or> b \<in> set (blocks n (drop n m))" using less.prems(2) False by (subst (asm) blocks.simps) auto
    ultimately show ?thesis using less.hyps [of "drop n m"] False by auto
  qed
qed

lemma foldl_cong_length:
  assumes "\<And>H b. length H = k \<Longrightarrow> b \<in> set bs \<Longrightarrow> f b H = g b H \<and> length (g b H) = k" and "length H = k"
  shows "foldl (\<lambda>s b. f b s) H bs = foldl (\<lambda>s b. g b s) H bs \<and> length (foldl (\<lambda>s b. g b s) H bs) = k"
  using assms
proof (induction bs arbitrary: H)
  case (Cons b bs)
  have "f b H = g b H" "length (g b H) = k" using Cons.prems by simp_all
  then show ?case using Cons.IH [of "g b H"] Cons.prems(1) by simp
qed simp

lemma length_sha2_compress:
  "length H = 8 \<Longrightarrow> length (sha256_compress b H) = 8" "length H' = 8 \<Longrightarrow> length (sha512_compress b H') = 8"
  by (simp_all add: sha256_compress_def sha512_compress_def length_sha2_fold)

lemma length_sha1_fold: "length H = 5 \<Longrightarrow> length (fold (\<lambda>t. sha1_step t (w t)) ts H) = 5"
  by (induction ts arbitrary: H) (simp_all add: sha1_step_def Let_def)

lemma foldl_sha1:
  assumes "length H = 5" and "\<forall>b \<in> set bs. length b = 64"
  shows "foldl (\<lambda>s b. esp_sha1_process b s) (H @ junk) bs = foldl (\<lambda>s b. sha1_compress b s) H bs @ junk
    \<and> length (foldl (\<lambda>s b. sha1_compress b s) H bs) = 5"
  using assms
proof (induction bs arbitrary: H)
  case (Cons b bs)
  have "length (sha1_compress b H) = 5" using Cons.prems(1) by (simp add: sha1_compress_def length_sha1_fold)
  then show ?case using Cons.IH [of "sha1_compress b H"] Cons.prems by (simp add: sha1_process_eq)
qed simp

lemma taken_init:
  assumes "length (sha_buffer c) = n" and "0 < n"
  shows "taken n (take k st @ drop k (sha_state c)) [] (esp_sha_init c ty st k cal)"
  using assms by (simp add: taken_def absorbed_def esp_sha_init_def whole_def tail_part_def)

lemmas sha_init_simps = esp_sha_init_def esp_sha1_init_def esp_sha224_init_def esp_sha256_init_def
  esp_sha384_init_def esp_sha512_init_def

lemma sha256_digest:
  assumes "length (sha_buffer c) = 64" and st: "length st = 8" "length (sha_state c) = 8" and bytes: "4 * n = sha_bytes ty" "n \<le> 8"
    and chunks: "\<forall>x \<in> set xs. length x < 2 ^ 32" "length (concat xs) < 2 ^ 61"
  shows "fst (esp_sha_finish (foldl esp_sha_update (Sha32 (esp_sha_init c ty st 8 esp_sha256_process)) xs))
    = fips_hash 64 8 4 sha256_compress st (sha_bytes ty) (concat xs)"
proof -
  let ?c = "esp_sha_init c ty st 8 esp_sha256_process"
  have t: "taken 64 st [] ?c" using taken_init [OF assms(1), of 8 st ty esp_sha256_process] st by simp
  obtain c' where c': "foldl esp_sha_update (Sha32 ?c) xs = Sha32 c'" "taken 64 st ([] @ concat xs) c'"
    "sha_type c' = ty" "sha_cal c' = esp_sha256_process"
    by (rule updates32 [OF t chunks(1)]) (auto simp: esp_sha_init_def)
  let ?bs = "blocks 64 (sha_pad 64 8 (concat xs))"
  have f: "foldl (\<lambda>s b. esp_sha256_process b s) st ?bs = foldl (\<lambda>s b. sha256_compress b s) st ?bs
      \<and> length (foldl (\<lambda>s b. sha256_compress b s) st ?bs) = 8"
    by (rule foldl_cong_length [OF _ st(1)])
      (use sha256_process_eq blocks_length [OF pad_whole(1)] length_sha2_compress(1) in blast)
  show ?thesis
    using finish32 [OF c'(2), of n] c' f chunks(2) bytes by (simp add: fips_hash_def)
qed

lemma sha512_digest:
  assumes "length (sha_buffer c) = 128" and st: "length st = 8" "length (sha_state c) = 8" and bytes: "8 * n = sha_bytes ty" "n \<le> 8"
    and chunks: "\<forall>x \<in> set xs. length x < 2 ^ 32" "length (concat xs) < 2 ^ 61"
  shows "fst (esp_sha_finish (foldl esp_sha_update (Sha64 (esp_sha_init c ty st 8 esp_sha512_process)) xs))
    = fips_hash 128 16 8 sha512_compress st (sha_bytes ty) (concat xs)"
proof -
  let ?c = "esp_sha_init c ty st 8 esp_sha512_process"
  have t: "taken 128 st [] ?c" using taken_init [OF assms(1), of 8 st ty esp_sha512_process] st by simp
  obtain c' where c': "foldl esp_sha_update (Sha64 ?c) xs = Sha64 c'" "taken 128 st ([] @ concat xs) c'"
    "sha_type c' = ty" "sha_cal c' = esp_sha512_process"
    by (rule updates64 [OF t chunks(1)]) (auto simp: esp_sha_init_def)
  let ?bs = "blocks 128 (sha_pad 128 16 (concat xs))"
  have f: "foldl (\<lambda>s b. esp_sha512_process b s) st ?bs = foldl (\<lambda>s b. sha512_compress b s) st ?bs
      \<and> length (foldl (\<lambda>s b. sha512_compress b s) st ?bs) = 8"
    by (rule foldl_cong_length [OF _ st(1)])
      (use sha512_process_eq blocks_length [OF pad_whole(2)] length_sha2_compress(2) in blast)
  show ?thesis
    using finish64 [OF c'(2), of n] c' f chunks(2) bytes by (simp add: fips_hash_def)
qed

lemma sha1_digest:
  assumes "length (sha_buffer c) = 64" and st: "length (sha_state c) = 8"
    and chunks: "\<forall>x \<in> set xs. length x < 2 ^ 32" "length (concat xs) < 2 ^ 61"
  shows "fst (esp_sha_finish (foldl esp_sha_update (esp_sha1_init c) xs))
    = fips_hash 64 8 4 sha1_compress esp_sha1_state_ctx 20 (concat xs)"
proof -
  let ?c = "esp_sha_init c SHA1 esp_sha1_state_ctx 5 esp_sha1_process" and ?junk = "drop 5 (sha_state c)"
  have h: "length esp_sha1_state_ctx = 5" by (simp add: esp_sha1_state_ctx_def)
  have t: "taken 64 (esp_sha1_state_ctx @ ?junk) [] ?c"
    using taken_init [OF assms(1), of 5 esp_sha1_state_ctx SHA1 esp_sha1_process] h by simp
  obtain c' where c': "foldl esp_sha_update (Sha32 ?c) xs = Sha32 c'" "taken 64 (esp_sha1_state_ctx @ ?junk) ([] @ concat xs) c'"
    "sha_type c' = SHA1" "sha_cal c' = esp_sha1_process"
    by (rule updates32 [OF t chunks(1)]) (auto simp: esp_sha_init_def)
  let ?bs = "blocks 64 (sha_pad 64 8 (concat xs))"
  have f: "foldl (\<lambda>s b. esp_sha1_process b s) (esp_sha1_state_ctx @ ?junk) ?bs = foldl (\<lambda>s b. sha1_compress b s) esp_sha1_state_ctx ?bs @ ?junk
      \<and> length (foldl (\<lambda>s b. sha1_compress b s) esp_sha1_state_ctx ?bs) = 5"
    by (rule foldl_sha1 [OF h]) (use blocks_length [OF pad_whole(1)] in blast)
  let ?H = "foldl (\<lambda>s b. sha1_compress b s) esp_sha1_state_ctx ?bs"
  have len: "length (concat (map (\<lambda>w. be_bytes 4 (unat w)) ?H)) = 20"
  proof -
    have "map length (map (\<lambda>w. be_bytes 4 (unat w)) ws) = replicate (length ws) 4" for ws :: "u32 list"
      by (induction ws) simp_all
    then show ?thesis using f by (simp add: length_concat sum_list_replicate)
  qed
  show ?thesis
    using finish32 [OF c'(2), of 5] c' f chunks(2) st len by (simp add: fips_hash_def esp_sha1_init_def)
qed

section \<open>Properties\<close>

text \<open>C28: The compression functions are those of FIPS 180-4. On every block of 64 (128 for the 64-bit
  family) bytes and every chaining value, the unrolled rounds with rotating roles, the ring-buffered
  schedule of SHA-1 and the reduced forms of the choice and majority functions compute the standard's
  SHA-1, SHA-256 and SHA-512 compression; the words of the context behind the five of SHA-1 keep
  their value.\<close>

theorem sha_process_meets_standard:
  assumes "length block = 64" and "length H1 = 5" and "length H2 = 8" and "length block' = 128" and "length H5 = 8"
  shows "esp_sha1_process block (H1 @ others) = sha1_compress block H1 @ others
    \<and> esp_sha256_process block H2 = sha256_compress block H2
    \<and> esp_sha512_process block' H5 = sha512_compress block' H5"
  by (intro conjI sha1_process_eq sha256_process_eq sha512_process_eq assms)

lemma sha_process_meets_standard_witness:
  "esp_sha1_process (replicate 64 0) (replicate 5 1 @ []) = sha1_compress (replicate 64 0) (replicate 5 1) @ []
    \<and> esp_sha256_process (replicate 64 0) (replicate 8 2) = sha256_compress (replicate 64 0) (replicate 8 2)
    \<and> esp_sha512_process (replicate 128 0) (replicate 8 3) = sha512_compress (replicate 128 0) (replicate 8 3)"
  by (rule sha_process_meets_standard) simp_all

text \<open>C27: Hashing is independent of how the message is cut. For each of the five hash functions, from
  any context (whatever its buffer, counters and state hold), initialising, feeding the message in any
  sequence of pieces, empty ones included, and finishing gives the FIPS 180-4 digest of the
  concatenation, for messages below 2^61 bytes in pieces below 2^32.\<close>

theorem sha_streaming:
  assumes "\<forall>x \<in> set xs. length x < 2 ^ 32" and "length (concat xs) < 2 ^ 61"
    and "length (sha_buffer c) = 64" and "length (sha_state c) = 8"
    and "length (sha_buffer c') = 128" and "length (sha_state c') = 8"
  shows "fst (esp_sha_finish (foldl esp_sha_update (esp_sha1_init c) xs)) = fips_hash 64 8 4 sha1_compress esp_sha1_state_ctx 20 (concat xs)
    \<and> fst (esp_sha_finish (foldl esp_sha_update (esp_sha224_init c) xs)) = fips_hash 64 8 4 sha256_compress esp_sha224_state_ctx 28 (concat xs)
    \<and> fst (esp_sha_finish (foldl esp_sha_update (esp_sha256_init c) xs)) = fips_hash 64 8 4 sha256_compress esp_sha256_state_ctx 32 (concat xs)
    \<and> fst (esp_sha_finish (foldl esp_sha_update (esp_sha384_init c') xs)) = fips_hash 128 16 8 sha512_compress esp_sha384_state_ctx 48 (concat xs)
    \<and> fst (esp_sha_finish (foldl esp_sha_update (esp_sha512_init c') xs)) = fips_hash 128 16 8 sha512_compress esp_sha512_state_ctx 64 (concat xs)"
proof (intro conjI)
  show "fst (esp_sha_finish (foldl esp_sha_update (esp_sha1_init c) xs)) = fips_hash 64 8 4 sha1_compress esp_sha1_state_ctx 20 (concat xs)"
    by (rule sha1_digest [OF assms(3,4,1,2)])
  show "fst (esp_sha_finish (foldl esp_sha_update (esp_sha224_init c) xs)) = fips_hash 64 8 4 sha256_compress esp_sha224_state_ctx 28 (concat xs)"
    using sha256_digest [OF assms(3) _ assms(4) _ _ assms(1,2), of esp_sha224_state_ctx 7 SHA224]
    by (simp add: esp_sha224_init_def esp_sha224_state_ctx_def)
  show "fst (esp_sha_finish (foldl esp_sha_update (esp_sha256_init c) xs)) = fips_hash 64 8 4 sha256_compress esp_sha256_state_ctx 32 (concat xs)"
    using sha256_digest [OF assms(3) _ assms(4) _ _ assms(1,2), of esp_sha256_state_ctx 8 SHA256]
    by (simp add: esp_sha256_init_def esp_sha256_state_ctx_def)
  show "fst (esp_sha_finish (foldl esp_sha_update (esp_sha384_init c') xs)) = fips_hash 128 16 8 sha512_compress esp_sha384_state_ctx 48 (concat xs)"
    using sha512_digest [OF assms(5) _ assms(6) _ _ assms(1,2), of esp_sha384_state_ctx 6 SHA384]
    by (simp add: esp_sha384_init_def esp_sha384_state_ctx_def)
  show "fst (esp_sha_finish (foldl esp_sha_update (esp_sha512_init c') xs)) = fips_hash 128 16 8 sha512_compress esp_sha512_state_ctx 64 (concat xs)"
    using sha512_digest [OF assms(5) _ assms(6) _ _ assms(1,2), of esp_sha512_state_ctx 8 SHA512]
    by (simp add: esp_sha512_init_def esp_sha512_state_ctx_def)
qed

definition blank_ctx32 :: "u32 sha_ctx_t" where
  "blank_ctx32 = \<lparr>sha_type = SHA1, sha_buffer = replicate 64 0xa5, total0 = 7, total1 = 9, sha_state = replicate 8 0xdeadbeef,
     sha_cal = (\<lambda>b s. s)\<rparr>"

definition blank_ctx64 :: "u64 sha_ctx_t" where
  "blank_ctx64 = \<lparr>sha_type = SHA1, sha_buffer = replicate 128 0xa5, total0 = 7, total1 = 9, sha_state = replicate 8 0xdeadbeef,
     sha_cal = (\<lambda>b s. s)\<rparr>"

lemma sha_streaming_witness:
  "fst (esp_sha_finish (foldl esp_sha_update (esp_sha256_init blank_ctx32) [[0x61], [], replicate 70 0x62]))
    = fips_hash 64 8 4 sha256_compress esp_sha256_state_ctx 32 (0x61 # replicate 70 0x62)"
  using sha_streaming [of "[[0x61], [], replicate 70 0x62]" blank_ctx32 blank_ctx64]
  by (simp add: blank_ctx32_def blank_ctx64_def)

end
