(* ===== verification/Image.thy ===== *)
theory Image
  imports Spi_Flash Flash_Format Sha
begin

text \<open>
  Application images on the flash: the ESP8266 half of
  \<^verbatim>\<open>bootloader_support/src/esp_image_format.c\<close> with the read wrapper of
  \<^verbatim>\<open>bootloader_flash.c\<close> and the SHA-256 wrapper of
  \<^verbatim>\<open>bootloader_sha.c\<close>, without secure boot, on-chip debugging and RAM
  unpacking (\<^verbatim>\<open>BOOTLOADER_UNPACK_APP\<close> is defined by no build).

  The same code is built into the application, where it reads with \<^verbatim>\<open>spi_flash_read\<close>,
  and into the boot loader, where it reads with the ROM's \<^verbatim>\<open>SPIRead\<close>. The
  environment holds what differs: what a buffer holds after a read (the wrapper ignores whether the
  read worked), the addresses of the buffers (only their alignment counts), whether the chunk buffer
  can be allocated, the two configuration switches and the hash functions. The result \<open>None\<close>
  is a call that never returns.
\<close>

section \<open>Structures\<close>

definition SIXTEEN_MB :: u32 where "SIXTEEN_MB = 0x1000000"
definition ESP_ROM_CHECKSUM_INITIAL :: u32 where "ESP_ROM_CHECKSUM_INITIAL = 0xEF"
definition ESP_IMAGE_HEADER_MAGIC :: u8 where "ESP_IMAGE_HEADER_MAGIC = 0xE9"
definition ESP_IMAGE_MAX_SEGMENTS :: nat where "ESP_IMAGE_MAX_SEGMENTS = 16"
definition ESP_BOOTLOADER_OFFSET :: u32 where "ESP_BOOTLOADER_OFFSET = 0"
definition HASH_LEN :: nat where "HASH_LEN = 32"
definition SHA_CHUNK :: u32 where "SHA_CHUNK = 1024"

record esp_image_header_t =
  h_magic :: u8
  segment_count :: u8
  spi_mode :: u8
  spi_speed :: u8
  spi_size :: u8
  entry_addr :: u32

record esp_image_segment_header_t =
  load_addr :: u32
  seg_data_len :: u32

record esp_image_metadata_t =
  start_addr :: u32
  image :: esp_image_header_t
  segments :: "esp_image_segment_header_t list"
  segment_data :: "u32 list"
  image_len :: u32

definition decode_image_header :: "u8 list \<Rightarrow> esp_image_header_t" where
  "decode_image_header bs = \<lparr>h_magic = bs ! 0, segment_count = bs ! 1, spi_mode = bs ! 2,
     spi_speed = bs ! 3 AND 0x0f, spi_size = drop_bit 4 (bs ! 3), entry_addr = le32 (drop 4 bs)\<rparr>"

definition decode_segment_header :: "u8 list \<Rightarrow> esp_image_segment_header_t" where
  "decode_segment_header bs = \<lparr>load_addr = le32 bs, seg_data_len = le32 (drop 4 bs)\<rparr>"

text \<open>\<^verbatim>\<open>bzero(data, ...)\<close>\<close>

definition no_metadata :: esp_image_metadata_t where
  "no_metadata = \<lparr>start_addr = 0, image = \<lparr>h_magic = 0, segment_count = 0, spi_mode = 0, spi_speed = 0, spi_size = 0, entry_addr = 0\<rparr>,
     segments = replicate ESP_IMAGE_MAX_SEGMENTS \<lparr>load_addr = 0, seg_data_len = 0\<rparr>,
     segment_data = replicate ESP_IMAGE_MAX_SEGMENTS 0, image_len = 0\<rparr>"

record ('d, 'h) image_env =
  flash_into :: "u32 \<Rightarrow> u32 \<Rightarrow> nat \<Rightarrow> 'd \<Rightarrow> u8 list"
  data_buf :: u32
  chunk_buf :: "u32 option"
  tail_buf :: u32
  hash_buf :: u32
  check_sum :: bool
  check_hash :: bool
  sha256_start :: "'h option"
  sha256_data :: "'h \<Rightarrow> u8 list \<Rightarrow> 'h"
  sha256_finish :: "'h \<Rightarrow> u8 list"

section \<open>Reading\<close>

definition bootloader_flash_read :: "('d, 'h) image_env \<Rightarrow> u32 \<Rightarrow> u32 \<Rightarrow> u32 \<Rightarrow> 'd \<Rightarrow> esp_err_t + u8 list" where
  "bootloader_flash_read I src_addr dest sz d =
    (if src_addr AND 3 \<noteq> 0 then Inl ESP_FAIL
     else if sz AND 3 \<noteq> 0 then Inl ESP_FAIL
     else if dest AND 3 \<noteq> 0 then Inl ESP_FAIL
     else Inr (flash_into I src_addr dest (unat sz) d))"

text \<open>Feeding an open hash, if there is one.\<close>

definition sha_feed :: "('d, 'h) image_env \<Rightarrow> 'h option \<Rightarrow> u8 list \<Rightarrow> 'h option" where
  "sha_feed I sha bs = (if check_hash I then map_option (\<lambda>h. sha256_data I h bs) sha else sha)"

section \<open>Segments\<close>

text \<open>\<^verbatim>\<open>*checksum ^= pbuf[i]\<close> over the words of a chunk.\<close>

definition xor_words :: "u32 \<Rightarrow> u8 list \<Rightarrow> u32" where
  "xor_words c bs = foldl (\<lambda>c i. c XOR le32 (drop (4 * i) bs)) c [0..<length bs div 4]"

text \<open>The chunk loop. Its counter is 32 bits wide, so for a length above 2^32 - 1024 it never
  ends.\<close>

partial_function (option) segment_loop ::
  "('d, 'h) image_env \<Rightarrow> 'd \<Rightarrow> u32 \<Rightarrow> u32 \<Rightarrow> u32 \<Rightarrow> u32 \<Rightarrow> u32 \<Rightarrow> 'h option \<Rightarrow> (esp_err_t + u32 \<times> 'h option) option" where
  "segment_loop I d pbuf data_addr dlen i checksum sha =
    (if i < dlen then
       (case bootloader_flash_read I (data_addr + i) pbuf (min SHA_CHUNK (dlen - i)) d of
          Inl ret \<Rightarrow> Some (Inl ret)
        | Inr bs \<Rightarrow> segment_loop I d pbuf data_addr dlen (i + SHA_CHUNK)
            (if check_sum I then xor_words checksum bs else checksum) (sha_feed I sha bs))
     else Some (Inr (checksum, sha)))"

definition process_segment_data ::
  "('d, 'h) image_env \<Rightarrow> 'd \<Rightarrow> u32 \<Rightarrow> u32 \<Rightarrow> u32 \<Rightarrow> 'h option \<Rightarrow> (esp_err_t + u32 \<times> 'h option) option" where
  "process_segment_data I d data_addr dlen checksum sha =
    (if check_sum I \<or> check_hash I then
       (case chunk_buf I of
          None \<Rightarrow> Some (Inl ESP_FAIL)
        | Some pbuf \<Rightarrow> segment_loop I d pbuf data_addr dlen 0 checksum sha)
     else Some (Inr (checksum, sha)))"

definition verify_segment_header :: "nat \<Rightarrow> esp_image_segment_header_t \<Rightarrow> u32 \<Rightarrow> esp_err_t" where
  "verify_segment_header index segment segment_data_offs = ESP_OK"

definition process_segment ::
  "('d, 'h) image_env \<Rightarrow> 'd \<Rightarrow> nat \<Rightarrow> u32 \<Rightarrow> u32 \<Rightarrow> 'h option
    \<Rightarrow> (esp_err_t + esp_image_segment_header_t \<times> u32 \<times> 'h option) option" where
  "process_segment I d index flash_addr checksum sha =
    (case bootloader_flash_read I flash_addr (data_buf I + 12 + 8 * of_nat index) 8 d of
       Inl err \<Rightarrow> Some (Inl err)
     | Inr bs \<Rightarrow>
         let header = decode_segment_header bs; sha1 = sha_feed I sha bs; data_addr = flash_addr + 8;
             err = verify_segment_header index header data_addr in
         if err \<noteq> ESP_OK then Some (Inl err)
         else if seg_data_len header mod 4 \<noteq> 0 then Some (Inl ESP_ERR_IMAGE_INVALID)
         else (case process_segment_data I d data_addr (seg_data_len header) checksum sha1 of
                 None \<Rightarrow> None
               | Some (Inl err) \<Rightarrow> Some (Inl err)
               | Some (Inr (checksum', sha')) \<Rightarrow> Some (Inr (header, checksum', sha'))))"

text \<open>The loop over the segments, from number \<open>i\<close> on with \<open>n\<close> left.\<close>

fun load_segments ::
  "('d, 'h) image_env \<Rightarrow> 'd \<Rightarrow> nat \<Rightarrow> nat \<Rightarrow> u32 \<Rightarrow> u32 \<Rightarrow> 'h option \<Rightarrow> esp_image_metadata_t
    \<Rightarrow> (esp_err_t + u32 \<times> u32 \<times> 'h option \<times> esp_image_metadata_t) option" where
  "load_segments I d 0 i next_addr checksum sha data = Some (Inr (next_addr, checksum, sha, data))"
| "load_segments I d (Suc n) i next_addr checksum sha data =
    (case process_segment I d i next_addr checksum sha of
       None \<Rightarrow> None
     | Some (Inl err) \<Rightarrow> Some (Inl err)
     | Some (Inr (header, checksum', sha')) \<Rightarrow>
         let next1 = next_addr + 8;
             data' = data\<lparr>segments := (segments data)[i := header], segment_data := (segment_data data)[i := next1]\<rparr> in
         load_segments I d n (i + 1) (next1 + seg_data_len header) checksum' sha' data')"

section \<open>Checks\<close>

definition verify_image_header :: "esp_image_header_t \<Rightarrow> esp_err_t" where
  "verify_image_header im = (if h_magic im \<noteq> ESP_IMAGE_HEADER_MAGIC then ESP_ERR_IMAGE_INVALID else ESP_OK)"

definition fold_checksum :: "u32 \<Rightarrow> u8" where
  "fold_checksum w = ucast (drop_bit 24 w) XOR ucast (drop_bit 16 w) XOR ucast (drop_bit 8 w) XOR ucast w"

definition verify_checksum ::
  "('d, 'h) image_env \<Rightarrow> 'd \<Rightarrow> 'h option \<Rightarrow> u32 \<Rightarrow> esp_image_metadata_t \<Rightarrow> esp_err_t + 'h option \<times> esp_image_metadata_t" where
  "verify_checksum I d sha checksum_word data =
    (if check_sum I \<or> check_hash I then
       let unpadded_length = image_len data;
           padded = (unpadded_length + 1 + 15) AND NOT 15;
           n = padded - unpadded_length in
       (case bootloader_flash_read I (start_addr data + unpadded_length) (tail_buf I) n d of
          Inl err \<Rightarrow> Inl ESP_ERR_IMAGE_INVALID
        | Inr buf \<Rightarrow>
            if check_sum I \<and> fold_checksum checksum_word \<noteq> buf ! (unat n - 1) then Inl ESP_ERR_IMAGE_INVALID
            else Inr (sha_feed I sha buf,
                   data\<lparr>image_len := padded + (if check_hash I then of_nat HASH_LEN else 0)\<rparr>))
     else Inr (sha, data))"

definition verify_simple_hash :: "('d, 'h) image_env \<Rightarrow> 'd \<Rightarrow> 'h \<Rightarrow> esp_image_metadata_t \<Rightarrow> esp_err_t" where
  "verify_simple_hash I d sha data =
    (case bootloader_flash_read I (start_addr data + image_len data - of_nat HASH_LEN) (hash_buf I) (of_nat HASH_LEN) d of
       Inl err \<Rightarrow> ESP_ERR_IMAGE_INVALID
     | Inr image_hash_flash \<Rightarrow>
         if image_hash_flash \<noteq> sha256_finish I sha then ESP_ERR_IMAGE_INVALID else ESP_OK)"

section \<open>Loading\<close>

text \<open>The metadata on success; on every error the code clears them.\<close>

definition esp_image_load_data ::
  "('d, 'h) image_env \<Rightarrow> esp_partition_pos_t \<Rightarrow> 'd \<Rightarrow> (esp_err_t + esp_image_metadata_t) option" where
  "esp_image_load_data I part d =
    (if pos_size part > SIXTEEN_MB then Some (Inl ESP_ERR_INVALID_ARG)
     else case bootloader_flash_read I (pos_offset part) (data_buf I + 4) 8 d of
       Inl err \<Rightarrow> Some (Inl err)
     | Inr bs \<Rightarrow>
         let data = no_metadata\<lparr>start_addr := pos_offset part, image := decode_image_header bs\<rparr> in
         if check_hash I \<and> sha256_start I = None then Some (Inl ESP_ERR_NO_MEM)
         else
           let sha = (if check_hash I then sha_feed I (sha256_start I) bs else None);
               err = verify_image_header (image data) in
           if err \<noteq> ESP_OK then Some (Inl err)
           else if unat (segment_count (image data)) > ESP_IMAGE_MAX_SEGMENTS then Some (Inl ESP_ERR_IMAGE_INVALID)
           else
             (case load_segments I d (unat (segment_count (image data))) 0 (start_addr data + 8) ESP_ROM_CHECKSUM_INITIAL sha data of
                None \<Rightarrow> None
              | Some (Inl err) \<Rightarrow> Some (Inl err)
              | Some (Inr (end_addr, checksum_word, sha1, data1)) \<Rightarrow>
                  if end_addr < start_addr data1 then Some (Inl ESP_ERR_IMAGE_INVALID)
                  else
                    (case verify_checksum I d sha1 checksum_word (data1\<lparr>image_len := end_addr - start_addr data1\<rparr>) of
                       Inl err \<Rightarrow> Some (Inl err)
                     | Inr (sha2, data2) \<Rightarrow>
                         if image_len data2 > pos_size part then Some (Inl ESP_ERR_IMAGE_INVALID)
                         else if start_addr data2 \<noteq> ESP_BOOTLOADER_OFFSET \<and> check_hash I
                         then (case sha2 of
                                 None \<Rightarrow> Some (Inr data2)
                               | Some h \<Rightarrow>
                                   let err = verify_simple_hash I d h data2 in
                                   if err \<noteq> ESP_OK then Some (Inl err) else Some (Inr data2))
                         else Some (Inr data2))))"

definition esp_image_verify_bootloader ::
  "('d, 'h) image_env \<Rightarrow> u32 \<Rightarrow> 'd \<Rightarrow> (esp_err_t \<times> u32) option" where
  "esp_image_verify_bootloader I table_offset d =
    map_option (\<lambda>r. case r of Inl err \<Rightarrow> (err, 0) | Inr data \<Rightarrow> (ESP_OK, image_len data))
      (esp_image_load_data I \<lparr>pos_offset = ESP_BOOTLOADER_OFFSET, pos_size = table_offset - ESP_BOOTLOADER_OFFSET\<rparr> d)"

section \<open>The check sum is the exclusive or of the bytes\<close>

definition xor_list :: "u8 list \<Rightarrow> u8" where
  "xor_list bs = foldr (XOR) bs 0"

lemma xor_list_simps [simp]: "xor_list [] = 0" "xor_list (b # bs) = b XOR xor_list bs"
  by (simp_all add: xor_list_def)

lemma xor_list_append: "xor_list (xs @ ys) = xor_list xs XOR xor_list ys"
  by (induction xs) (simp_all add: xor.assoc)

lemma xor_list_update: "j < length bs \<Longrightarrow> xor_list (bs[j := b]) = xor_list bs XOR (bs ! j XOR b)"
proof (induction bs arbitrary: j)
  case (Cons a bs)
  then show ?case
  proof (cases j)
    case 0
    have "b XOR xor_list bs = a XOR (xor_list bs XOR (a XOR b))"
      by (rule bit_word_eqI) (auto simp: bit_simps)
    then show ?thesis using 0 by (simp add: xor.assoc)
  next
    case (Suc i)
    then show ?thesis using Cons by (simp add: xor.assoc)
  qed
qed simp

lemma fold_checksum_xor: "fold_checksum (v XOR w) = fold_checksum v XOR fold_checksum w"
  unfolding fold_checksum_def by (rule bit_word_eqI) (auto simp: bit_simps)

lemma fold_checksum_le32: "length bs = 4 \<Longrightarrow> fold_checksum (le32 (bs @ rest)) = xor_list bs"
proof -
  assume "length bs = 4"
  then obtain a b c d where bs: "bs = [a, b, c, d]" by (auto simp: numeral_eq_Suc length_Suc_conv)
  have byte: "(ucast w :: u8) = x" if "\<And>n. n < 8 \<Longrightarrow> bit w n = bit x n" for w :: u32 and x
    by (rule bit_word_eqI) (use that in \<open>simp add: bit_simps\<close>)
  have "ucast (le32 [a, b, c, d]) = a" "ucast (drop_bit 8 (le32 [a, b, c, d])) = b"
    "ucast (drop_bit 16 (le32 [a, b, c, d])) = c" "ucast (drop_bit 24 (le32 [a, b, c, d])) = d"
    by (rule byte; auto simp: bit_simps dest: bit_imp_le_length)+
  moreover have "d XOR c XOR b XOR a = a XOR (b XOR (c XOR d))" by (rule bit_word_eqI) (auto simp: bit_simps)
  ultimately show ?thesis by (simp add: bs fold_checksum_def)
qed

lemma xor_words_append:
  assumes "length xs mod 4 = 0"
  shows "xor_words c (xs @ ys) = xor_words (xor_words c xs) ys"
proof -
  obtain q where q: "length xs = 4 * q" using assms by auto
  have "[0..<(length xs + length ys) div 4] = [0..<q] @ map (\<lambda>i. i + q) [0..<length ys div 4]"
    using q upt_add_eq_append [of 0 q "length ys div 4"] by (simp add: map_add_upt add.commute)
  moreover have "foldl (\<lambda>c i. c XOR le32 (drop (4 * i) (xs @ ys))) c [0..<q] = foldl (\<lambda>c i. c XOR le32 (drop (4 * i) xs)) c [0..<q]"
  proof (rule foldl_cong [OF refl refl])
    fix a i assume "i \<in> set [0..<q]"
    then have l: "4 \<le> length (drop (4 * i) xs)" using q by simp
    then obtain z1 z2 z3 z4 rest where "drop (4 * i) xs = z1 # z2 # z3 # z4 # rest"
      by (cases "drop (4 * i) xs" rule: le32.cases) auto
    then show "a XOR le32 (drop (4 * i) (xs @ ys)) = a XOR le32 (drop (4 * i) xs)" by simp
  qed
  moreover have "drop (4 * (i + q)) (xs @ ys) = drop (4 * i) ys" for i using q by (simp add: algebra_simps)
  ultimately show ?thesis using q by (simp add: xor_words_def foldl_map)
qed

lemma fold_xor_words:
  "length bs mod 4 = 0 \<Longrightarrow> fold_checksum (xor_words c bs) = fold_checksum c XOR xor_list bs"
proof (induction "length bs" arbitrary: bs c rule: less_induct)
  case less
  show ?case
  proof (cases "bs = []")
    case False
    then have l: "4 \<le> length bs" using less.prems by (metis dvd_imp_le length_greater_0_conv mod_0_imp_dvd)
    let ?x = "take 4 bs" and ?y = "drop 4 bs"
    have x: "length ?x = 4" using l by simp
    have y: "length ?y mod 4 = 0" using less.prems l by (simp add: le_mod_geq)
    have "xor_words c (?x @ ?y) = xor_words (xor_words c ?x) ?y" by (rule xor_words_append) (simp only: x, simp)
    then have "xor_words c bs = xor_words (xor_words c ?x) ?y" by simp
    moreover have "xor_words c ?x = c XOR le32 ?x" using x by (simp add: xor_words_def upt_conv_Cons)
    moreover have "fold_checksum (xor_words (xor_words c ?x) ?y) = fold_checksum (xor_words c ?x) XOR xor_list ?y"
      by (rule less.hyps) (use l y in simp_all)
    moreover have "xor_list bs = xor_list ?x XOR xor_list ?y" using xor_list_append [of ?x ?y] by simp
    ultimately show ?thesis
      using fold_checksum_le32 [OF x, of "[]"] by (simp add: fold_checksum_xor xor.assoc)
  qed (simp add: xor_words_def)
qed

section \<open>What loading relies on\<close>

definition sha256_fips :: "u8 list \<Rightarrow> u8 list" where
  "sha256_fips = fips_hash 64 8 4 sha256_compress esp_sha256_state_ctx 32"

locale sha256_impl =
  fixes start :: "'h option" and data :: "'h \<Rightarrow> u8 list \<Rightarrow> 'h" and finish :: "'h \<Rightarrow> u8 list"
  assumes digest: "\<lbrakk>start = Some h; \<forall>x \<in> set xs. length x < 2 ^ 32; length (concat xs) < 2 ^ 61\<rbrakk>
      \<Longrightarrow> finish (foldl data h xs) = sha256_fips (concat xs)"
    and starts: "start \<noteq> None"

text \<open>The wrapper of the boot loader: a static context given to the functions of
  \<^verbatim>\<open>esp_sha.h\<close>.\<close>

definition bootloader_sha256_start :: "u32 sha_ctx_t \<Rightarrow> sha_ctx option" where
  "bootloader_sha256_start ctx = Some (esp_sha256_init ctx)"

definition bootloader_sha256_data :: "sha_ctx \<Rightarrow> u8 list \<Rightarrow> sha_ctx" where
  "bootloader_sha256_data ctx bs = esp_sha_update ctx bs"

definition bootloader_sha256_finish :: "sha_ctx \<Rightarrow> u8 list" where
  "bootloader_sha256_finish ctx = fst (esp_sha_finish ctx)"

lemma bootloader_sha256_impl:
  assumes "length (sha_buffer ctx) = 64" and "length (sha_state ctx) = 8"
  shows "sha256_impl (bootloader_sha256_start ctx) bootloader_sha256_data bootloader_sha256_finish"
proof
  fix h and xs :: "u8 list list"
  assume "bootloader_sha256_start ctx = Some h" "\<forall>x \<in> set xs. length x < 2 ^ 32" "length (concat xs) < 2 ^ 61"
  then show "bootloader_sha256_finish (foldl bootloader_sha256_data h xs) = sha256_fips (concat xs)"
    using sha256_digest [OF assms(1) _ assms(2), of esp_sha256_state_ctx 8 SHA256 xs]
    by (simp add: bootloader_sha256_start_def bootloader_sha256_finish_def bootloader_sha256_data_def [abs_def]
        esp_sha256_init_def esp_sha256_state_ctx_def sha256_fips_def)
qed (simp add: bootloader_sha256_start_def)

interpretation boot_sha: sha256_impl "bootloader_sha256_start blank_ctx32" bootloader_sha256_data bootloader_sha256_finish
  by (rule bootloader_sha256_impl) (simp_all add: blank_ctx32_def)

locale image_flash = sha256_impl "sha256_start I" "sha256_data I" "sha256_finish I"
  for I :: "('d, 'h) image_env" +
  fixes cells :: "'d \<Rightarrow> mem" and chip_bytes :: nat
  assumes reads: "\<lbrakk>dst \<noteq> 0; unat src mod 4 = 0; n mod 4 = 0; n \<noteq> 0; unat src + n \<le> chip_bytes\<rbrakk>
      \<Longrightarrow> flash_into I src dst n d = mem_read (cells d) (unat src) n"
    and buffers: "unat (data_buf I) mod 4 = 0" "unat (tail_buf I) mod 4 = 0" "unat (hash_buf I) mod 4 = 0"
      "chunk_buf I \<noteq> None" "chunk_buf I = Some pbuf \<Longrightarrow> unat pbuf mod 4 = 0 \<and> pbuf \<noteq> 0"
      "tail_buf I \<noteq> 0" "hash_buf I \<noteq> 0" "0 < unat (data_buf I)" "unat (data_buf I) + 256 < 2 ^ 32"
    and small_chip: "chip_bytes \<le> 0x1000000"

text \<open>An image in the flash: the segments \<open>ss\<close>, load address and data, from address
  \<open>a\<close> on.\<close>

fun segs_at :: "mem \<Rightarrow> nat \<Rightarrow> (u32 \<times> u8 list) list \<Rightarrow> bool" where
  "segs_at m a [] = True"
| "segs_at m a ((l, bs) # ss) \<longleftrightarrow> mem_read m a 8 = le32_bytes l @ le32_bytes (of_nat (length bs))
     \<and> mem_read m (a + 8) (length bs) = bs \<and> length bs mod 4 = 0 \<and> segs_at m (a + 8 + length bs) ss"

fun segs_size :: "(u32 \<times> u8 list) list \<Rightarrow> nat" where
  "segs_size [] = 0"
| "segs_size ((l, bs) # ss) = 8 + length bs + segs_size ss"

fun seg_offsets :: "nat \<Rightarrow> (u32 \<times> u8 list) list \<Rightarrow> u32 list" where
  "seg_offsets a [] = []"
| "seg_offsets a ((l, bs) # ss) = of_nat (a + 8) # seg_offsets (a + 8 + length bs) ss"

definition seg_header :: "u32 \<times> u8 list \<Rightarrow> esp_image_segment_header_t" where
  "seg_header s = \<lparr>load_addr = fst s, seg_data_len = of_nat (length (snd s))\<rparr>"

text \<open>The hash fed piece by piece.\<close>

definition feeds :: "('d, 'h) image_env \<Rightarrow> 'h option \<Rightarrow> u8 list list \<Rightarrow> 'h option" where
  "feeds I sha xs = foldl (sha_feed I) sha xs"

lemma feeds_simps [simp]: "feeds I sha [] = sha" "feeds I sha (x # xs) = feeds I (sha_feed I sha x) xs"
  "feeds I (feeds I sha xs) ys = feeds I sha (xs @ ys)"
  by (simp_all add: feeds_def)

lemma feeds_Some: "check_hash I \<Longrightarrow> feeds I (Some h) xs = Some (foldl (sha256_data I) h xs)"
  by (induction xs arbitrary: h) (simp_all add: sha_feed_def)

context image_flash begin

lemma data_buf_field:
  assumes "k \<le> 256"
  shows "data_buf I + of_nat k \<noteq> 0"
proof -
  have "unat (of_nat k :: u32) = k" using assms by (simp add: unat_of_nat_small)
  then have "unat (data_buf I + of_nat k) = unat (data_buf I) + k"
    using unat_add_no_wrap [of "data_buf I" "of_nat k"] buffers(9) assms by simp
  then show ?thesis using buffers(8) by (metis add_is_0 less_irrefl unat_0)
qed

lemma flash_read:
  assumes "dst \<noteq> 0" and "unat src mod 4 = 0" and "unat sz mod 4 = 0" and "unat dst mod 4 = 0" and "sz \<noteq> 0"
    and "unat src + unat sz \<le> chip_bytes"
  shows "bootloader_flash_read I src dst sz d = Inr (mem_read (cells d) (unat src) (unat sz))"
  using assms reads [of dst src "unat sz" d]
  by (simp add: bootloader_flash_read_def and_3_eq_0_iff unat_eq_zero)

lemma segment_loop_eq:
  assumes "unat pbuf mod 4 = 0 \<and> pbuf \<noteq> 0" and "unat a mod 4 = 0" and len: "unat len mod 4 = 0" and bound: "unat a + unat len \<le> chip_bytes"
    and "unat i mod 4 = 0" and "unat i \<le> unat len + 1024"
  shows "\<exists>xs. segment_loop I d pbuf a len i c sha
      = Some (Inr (if check_sum I then xor_words c (mem_read (cells d) (unat a + unat i) (unat len - unat i)) else c, feeds I sha xs))
    \<and> concat xs = mem_read (cells d) (unat a + unat i) (unat len - unat i) \<and> (\<forall>x \<in> set xs. length x \<le> 1024)"
  using assms(5,6)
proof (induction "unat len - unat i" arbitrary: i c sha rule: less_induct)
  case less
  let ?m = "cells d"
  show ?case
  proof (cases "i < len")
    case False
    then have "unat len - unat i = 0" by (simp add: word_less_nat_alt)
    then show ?thesis using False by (subst segment_loop.simps) (auto simp: xor_words_def intro!: exI [of _ "[]"])
  next
    case True
    then have lt: "unat i < unat len" by (simp add: word_less_nat_alt)
    have small: "unat len \<le> 0x1000000" using bound small_chip by simp
    let ?n = "min SHA_CHUNK (len - i)" and ?k = "min 1024 (unat len - unat i)"
    have sub: "unat (len - i) = unat len - unat i"
      by (rule unat_sub) (use True in simp)
    have n: "unat ?n = ?k" by (simp add: min_def SHA_CHUNK_def word_le_nat_alt sub)
    have k4: "?k mod 4 = 0" using len less.prems(1) lt by (auto simp: min_def mod_eq_dvd_iff_nat)
    have ai: "unat (a + i) = unat a + unat i" using unat_add_no_wrap [of a i] bound lt small_chip by simp
    have i': "unat (i + SHA_CHUNK) = unat i + 1024"
      using unat_add_no_wrap [of i "1024"] lt small by (simp add: SHA_CHUNK_def)
    have nz: "?n \<noteq> 0" using n lt by (metis min_0L min_def not_less_zero unat_0 zero_less_diff zero_neq_numeral diff_is_0_eq le_zero_eq less_irrefl_nat)
    have "(unat a + unat i) mod 4 = 0" using mod_add_eq [of "unat a" 4 "unat i"] assms(2) less.prems(1) by simp
    moreover have "unat a + unat i + ?k \<le> chip_bytes" using bound lt by linarith
    ultimately have rd: "bootloader_flash_read I (a + i) pbuf ?n d = Inr (mem_read ?m (unat a + unat i) ?k)"
      using flash_read [of pbuf "a + i" ?n d] ai n k4 nz assms(1) by simp
    let ?x = "mem_read ?m (unat a + unat i) ?k"
    let ?c = "if check_sum I then xor_words c ?x else c"
    have p: "unat len - unat (i + SHA_CHUNK) < unat len - unat i" "unat (i + SHA_CHUNK) mod 4 = 0"
      "unat (i + SHA_CHUNK) \<le> unat len + 1024"
      using lt mod_add_eq [of "unat i" 4 1024] less.prems(1) by (simp_all add: i')
    obtain xs where IH: "segment_loop I d pbuf a len (i + SHA_CHUNK) ?c (sha_feed I sha ?x)
        = Some (Inr (if check_sum I then xor_words ?c (mem_read ?m (unat a + (unat i + 1024)) (unat len - (unat i + 1024))) else ?c,
            feeds I (sha_feed I sha ?x) xs))"
      "concat xs = mem_read ?m (unat a + (unat i + 1024)) (unat len - (unat i + 1024))" "\<forall>x \<in> set xs. length x \<le> 1024"
      using less.hyps [OF p, unfolded i'] by blast
    have split: "mem_read ?m (unat a + unat i) (unat len - unat i) = ?x @ mem_read ?m (unat a + (unat i + 1024)) (unat len - (unat i + 1024))"
    proof (cases "unat len - unat i \<le> 1024")
      case False
      then have "unat len - unat i = 1024 + (unat len - (unat i + 1024))" by simp
      then show ?thesis using mem_read_append [of ?m "unat a + unat i" 1024 "unat len - (unat i + 1024)"] False
        by (simp add: add.assoc min_def)
    qed simp
    have "segment_loop I d pbuf a len i c sha = segment_loop I d pbuf a len (i + SHA_CHUNK) ?c (sha_feed I sha ?x)"
      using True rd by (subst segment_loop.simps) simp
    then show ?thesis using IH split k4
      by (auto simp: xor_words_append intro!: exI [of _ "?x # xs"])
  qed
qed

end

lemma padded_length: "unat u + 16 < 2 ^ 32 \<Longrightarrow> unat ((u + 1 + 15) AND NOT 15 :: u32) = 16 * (unat u div 16 + 1)"
proof -
  assume b: "unat u + 16 < 2 ^ 32"
  have m: "(15 :: u32) = mask 4" by (simp add: mask_eq_exp_minus_1)
  have "unat (u + 16 :: u32) = unat u + 16" using unat_add_no_wrap [of u 16] b by simp
  moreover have "(u + 1 + 15) = u + 16" by simp
  ultimately have "unat ((u + 1 + 15) AND NOT (mask 4)) = unat u + 16 - (unat u + 16) mod 16"
    by (simp only: unat_and_not_mask) simp
  moreover have "x + 16 - (x + 16) mod 16 = 16 * (x div 16 + 1)" for x :: nat
    using mod_less_eq_dividend [of x 16] by (simp add: minus_mod_eq_mult_div [symmetric])
  ultimately show ?thesis unfolding m by (simp only:)
qed

lemma mod4_add: "unat a mod 4 = 0 \<Longrightarrow> unat b mod 4 = 0 \<Longrightarrow> unat (a + b :: u32) mod 4 = 0"
  by (simp add: unat_word_ariths mod_mod_cancel mod_eq_0_iff_dvd)

lemma mod4_mult: "unat a mod 4 = 0 \<Longrightarrow> unat (a * b :: u32) mod 4 = 0"
  by (simp add: unat_word_ariths mod_mod_cancel mod_eq_0_iff_dvd)

lemma segs_size_mod: "segs_at m a ss \<Longrightarrow> segs_size ss mod 4 = 0"
  by (induction m a ss rule: segs_at.induct) (auto simp: mod_eq_0_iff_dvd)

lemma length_seg_offsets [simp]: "length (seg_offsets a ss) = length ss"
  by (induction a ss rule: seg_offsets.induct) simp_all

lemma overwrite_Cons: "i < length buf \<Longrightarrow> overwrite (buf[i := x]) (Suc i) xs = overwrite buf i (x # xs)"
  by (simp add: overwrite_def take_Suc_conv_app_nth)

lemma overwrite_Nil [simp]: "overwrite buf i [] = buf"
  by (simp add: overwrite_def)

lemma decode_segment_bytes [simp]:
  "decode_segment_header (le32_bytes l @ le32_bytes n) = \<lparr>load_addr = l, seg_data_len = n\<rparr>"
  by (simp add: decode_segment_header_def)

lemma feeds_unhashed: "\<not> check_hash I \<Longrightarrow> feeds I sha xs = sha"
  by (induction xs) (simp_all add: sha_feed_def)

definition stored_segments :: "nat \<Rightarrow> nat \<Rightarrow> (u32 \<times> u8 list) list \<Rightarrow> esp_image_metadata_t \<Rightarrow> esp_image_metadata_t" where
  "stored_segments i a ss data = data\<lparr>segments := overwrite (segments data) i (map seg_header ss),
     segment_data := overwrite (segment_data data) i (seg_offsets a ss)\<rparr>"

context image_flash begin

lemma process_segment_eq:
  assumes at: "segs_at (cells d) (unat a) ((l, bs) # ss)" and "unat a mod 4 = 0" and "i < 16"
    and bound: "unat a + 8 + length bs \<le> chip_bytes"
  shows "\<exists>xs c'. process_segment I d i a c sha = Some (Inr (seg_header (l, bs), c', feeds I sha xs))
    \<and> concat xs = mem_read (cells d) (unat a) (8 + length bs) \<and> (\<forall>x \<in> set xs. length x \<le> 1024)
    \<and> (check_sum I \<longrightarrow> fold_checksum c' = fold_checksum c XOR xor_list bs)"
proof -
  let ?m = "cells d" and ?len = "of_nat (length bs) :: u32"
  have hd: "mem_read ?m (unat a) 8 = le32_bytes l @ le32_bytes ?len" and dt: "mem_read ?m (unat a + 8) (length bs) = bs"
    and l4: "length bs mod 4 = 0" using at by simp_all
  have len: "unat ?len = length bs" using bound small_chip by (intro unat_of_nat_small) simp
  have al: "unat (data_buf I + 12 + 8 * of_nat i) mod 4 = 0"
    by (intro mod4_add mod4_mult buffers(1)) simp_all
  have rd: "bootloader_flash_read I a (data_buf I + 12 + 8 * of_nat i) 8 d = Inr (mem_read ?m (unat a) 8)"
    using flash_read [of "data_buf I + 12 + 8 * of_nat i" a 8 d] data_buf_field [of "12 + 8 * i"] assms(2,3) bound al
    by (simp add: add.assoc)
  have a8: "unat (a + 8) = unat a + 8" using unat_add_no_wrap [of a 8] bound small_chip by simp
  have m4: "?len mod 4 = 0" using l4 by (simp add: word_unat_eq_iff unat_mod len)
  show ?thesis
  proof (cases "check_sum I \<or> check_hash I")
    case False
    have "concat (map (\<lambda>x. [x]) ys) = ys" for ys :: "u8 list" by (induction ys) simp_all
    moreover have "process_segment I d i a c sha = Some (Inr (seg_header (l, bs), c, sha))"
      using False rd hd m4
      by (simp add: process_segment_def process_segment_data_def verify_segment_header_def sha_feed_def seg_header_def)
    moreover have "\<forall>x \<in> set (map (\<lambda>x. [x]) (mem_read ?m (unat a) (8 + length bs))). length x \<le> 1024" by simp
    ultimately show ?thesis using False feeds_unhashed [of I]
      by (intro exI [of _ "map (\<lambda>x. [x]) (mem_read ?m (unat a) (8 + length bs))"] exI [of _ c]) (simp del: concat_map_singleton)
  next
    case True
    obtain pbuf where pb: "chunk_buf I = Some pbuf" "unat pbuf mod 4 = 0 \<and> pbuf \<noteq> 0" using buffers(4,5) by (cases "chunk_buf I") simp_all
    have "unat (a + 8) mod 4 = 0" using mod4_add [of a 8] assms(2) by simp
    then have pre: "unat (a + 8) mod 4 = 0" "unat ?len mod 4 = 0" "unat (a + 8) + unat ?len \<le> chip_bytes"
        "unat (0 :: u32) mod 4 = 0" "unat (0 :: u32) \<le> unat ?len + 1024"
      using l4 bound by (simp_all add: a8 len)
    let ?sha = "sha_feed I sha (mem_read ?m (unat a) 8)"
    obtain xs where loop: "segment_loop I d pbuf (a + 8) ?len 0 c ?sha
        = Some (Inr (if check_sum I then xor_words c bs else c, feeds I ?sha xs))"
      "concat xs = bs" "\<forall>x \<in> set xs. length x \<le> 1024"
      using segment_loop_eq [OF pb(2) pre, of d c ?sha, unfolded a8 len unat_0 add_0_right diff_zero dt] by blast
    have "process_segment I d i a c sha = Some (Inr (seg_header (l, bs), if check_sum I then xor_words c bs else c,
        feeds I sha (mem_read ?m (unat a) 8 # xs)))"
      using rd hd m4 True loop(1) pb(1)
      by (simp add: process_segment_def process_segment_data_def verify_segment_header_def seg_header_def)
    moreover have "concat (mem_read ?m (unat a) 8 # xs) = mem_read ?m (unat a) (8 + length bs)"
      using loop(2) dt mem_read_append [of ?m "unat a" 8 "length bs"] by simp
    moreover have "\<forall>x \<in> set (mem_read ?m (unat a) 8 # xs). length x \<le> 1024" using loop(3) by simp
    ultimately show ?thesis using fold_xor_words [OF l4, of c]
      by (intro exI [of _ "mem_read ?m (unat a) 8 # xs"] exI [of _ "if check_sum I then xor_words c bs else c"]) simp
  qed
qed

lemma load_segments_eq:
  assumes "segs_at (cells d) (unat a) ss" and "unat a mod 4 = 0" and "i + length ss \<le> 16"
    and "unat a + segs_size ss \<le> chip_bytes" and "length (segments data) = 16" and "length (segment_data data) = 16"
  shows "\<exists>xs c'. load_segments I d (length ss) i a c sha data
      = Some (Inr (of_nat (unat a + segs_size ss), c', feeds I sha xs, stored_segments i (unat a) ss data))
    \<and> concat xs = mem_read (cells d) (unat a) (segs_size ss) \<and> (\<forall>x \<in> set xs. length x \<le> 1024)
    \<and> (check_sum I \<longrightarrow> fold_checksum c' = fold_checksum c XOR xor_list (concat (map snd ss)))"
  using assms
proof (induction ss arbitrary: a i c sha data)
  case Nil
  then show ?case by (intro exI [of _ "[]"]) (simp add: stored_segments_def)
next
  case (Cons s ss)
  obtain l bs where s: "s = (l, bs)" by (cases s)
  let ?m = "cells d" and ?len = "of_nat (length bs) :: u32"
  have b: "unat a + 8 + length bs + segs_size ss \<le> chip_bytes" using Cons.prems(4) by (simp add: s)
  obtain xs c1 where seg: "process_segment I d i a c sha = Some (Inr (seg_header (l, bs), c1, feeds I sha xs))"
    "concat xs = mem_read ?m (unat a) (8 + length bs)" "\<forall>x \<in> set xs. length x \<le> 1024"
    "check_sum I \<longrightarrow> fold_checksum c1 = fold_checksum c XOR xor_list bs"
    using process_segment_eq [of d a l bs ss i c sha] Cons.prems b by (auto simp: s)
  have len: "unat ?len = length bs" using b small_chip by (intro unat_of_nat_small) simp
  have next1: "unat (a + 8) = unat a + 8" using unat_add_no_wrap [of a 8] b small_chip by simp
  have next2: "unat (a + 8 + ?len) = unat a + 8 + length bs"
    using unat_add_no_wrap [of "a + 8" ?len] b small_chip by (simp add: next1 len)
  let ?data = "data\<lparr>segments := (segments data)[i := seg_header (l, bs)], segment_data := (segment_data data)[i := a + 8]\<rparr>"
  have pre: "segs_at ?m (unat (a + 8 + ?len)) ss" "unat (a + 8 + ?len) mod 4 = 0" "Suc i + length ss \<le> 16"
    "unat (a + 8 + ?len) + segs_size ss \<le> chip_bytes" "length (segments ?data) = 16" "length (segment_data ?data) = 16"
    using Cons.prems b mod4_add [of "a + 8" ?len] mod4_add [of a 8] by (simp_all add: s next2 len)
  obtain ys c2 where rest: "load_segments I d (length ss) (Suc i) (a + 8 + ?len) c1 (feeds I sha xs) ?data
      = Some (Inr (of_nat (unat (a + 8 + ?len) + segs_size ss), c2, feeds I (feeds I sha xs) ys,
          stored_segments (Suc i) (unat (a + 8 + ?len)) ss ?data))"
    "concat ys = mem_read ?m (unat (a + 8 + ?len)) (segs_size ss)" "\<forall>x \<in> set ys. length x \<le> 1024"
    "check_sum I \<longrightarrow> fold_checksum c2 = fold_checksum c1 XOR xor_list (concat (map snd ss))"
    using Cons.IH [OF pre, of c1 "feeds I sha xs"] by blast
  have "of_nat (unat a + 8) = a + 8" by simp
  then have "stored_segments (Suc i) (unat (a + 8 + ?len)) ss ?data = stored_segments i (unat a) (s # ss) data"
    using Cons.prems(3,5,6) by (simp add: stored_segments_def s overwrite_Cons next2)
  moreover have "of_nat (unat (a + 8 + ?len) + segs_size ss) = (of_nat (unat a + segs_size (s # ss)) :: u32)"
    by (simp add: next2 s)
  ultimately have "load_segments I d (length (s # ss)) i a c sha data
      = Some (Inr (of_nat (unat a + segs_size (s # ss)), c2, feeds I sha (xs @ ys), stored_segments i (unat a) (s # ss) data))"
    using rest(1) by (simp add: seg(1) Let_def) (simp add: seg_header_def)
  moreover have "concat (xs @ ys) = mem_read ?m (unat a) (segs_size (s # ss))"
    using seg(2) rest(2) [unfolded next2] mem_read_append [of ?m "unat a" "8 + length bs" "segs_size ss"] by (simp add: s add.assoc)
  ultimately show ?case
    using seg(3,4) rest(3,4) by (intro exI [of _ "xs @ ys"] exI [of _ c2]) (auto simp: xor_list_append s xor.assoc)
qed

end

section \<open>An image and its checks\<close>

definition image_at :: "mem \<Rightarrow> nat \<Rightarrow> esp_image_header_t \<Rightarrow> (u32 \<times> u8 list) list \<Rightarrow> bool" where
  "image_at m a h ss \<longleftrightarrow> decode_image_header (mem_read m a 8) = h \<and> h_magic h = ESP_IMAGE_HEADER_MAGIC
     \<and> unat (segment_count h) = length ss \<and> length ss \<le> 16 \<and> segs_at m (a + 8) ss"

text \<open>The length up to and with the check sum byte, and with the appended hash.\<close>

definition padded_len :: "(u32 \<times> u8 list) list \<Rightarrow> nat" where
  "padded_len ss = 16 * ((8 + segs_size ss) div 16 + 1)"

definition image_total :: "('d, 'h) image_env \<Rightarrow> (u32 \<times> u8 list) list \<Rightarrow> nat" where
  "image_total I ss = (if check_sum I \<or> check_hash I then padded_len ss + (if check_hash I then 32 else 0) else 8 + segs_size ss)"

definition sum_ok :: "mem \<Rightarrow> nat \<Rightarrow> (u32 \<times> u8 list) list \<Rightarrow> bool" where
  "sum_ok m a ss \<longleftrightarrow> m (a + padded_len ss - 1) = 0xEF XOR xor_list (concat (map snd ss))"

definition hash_ok :: "mem \<Rightarrow> nat \<Rightarrow> (u32 \<times> u8 list) list \<Rightarrow> bool" where
  "hash_ok m a ss \<longleftrightarrow> mem_read m (a + padded_len ss) 32 = sha256_fips (mem_read m a (padded_len ss))"

definition image_intact :: "('d, 'h) image_env \<Rightarrow> mem \<Rightarrow> nat \<Rightarrow> nat \<Rightarrow> (u32 \<times> u8 list) list \<Rightarrow> bool" where
  "image_intact I m a sz ss \<longleftrightarrow> (check_sum I \<longrightarrow> sum_ok m a ss) \<and> image_total I ss \<le> sz
     \<and> (check_hash I \<and> a \<noteq> 0 \<longrightarrow> hash_ok m a ss)"

definition image_metadata :: "('d, 'h) image_env \<Rightarrow> u32 \<Rightarrow> esp_image_header_t \<Rightarrow> (u32 \<times> u8 list) list \<Rightarrow> esp_image_metadata_t" where
  "image_metadata I a h ss = (stored_segments 0 (unat a + 8) ss (no_metadata\<lparr>start_addr := a, image := h\<rparr>))
     \<lparr>image_len := of_nat (image_total I ss)\<rparr>"

lemma padded_len_bounds: "8 + segs_size ss < padded_len ss" "padded_len ss \<le> 8 + segs_size ss + 16" "padded_len ss mod 16 = 0"
  using mult_div_mod_eq [of 16 "8 + segs_size ss"] mod_less_divisor [of 16 "8 + segs_size ss"]
  by (simp_all add: padded_len_def)

lemma stored_segments_sel [simp]: "start_addr (stored_segments i a ss data) = start_addr data"
  "image (stored_segments i a ss data) = image data" "image_len (stored_segments i a ss data) = image_len data"
  by (simp_all add: stored_segments_def)

context image_flash begin

lemma verify_checksum_eq:
  assumes at: "segs_at (cells d) (unat a + 8) ss" and a: "unat a mod 4 = 0"
    and bound: "unat a + image_total I ss \<le> chip_bytes" and start: "start_addr data = a" and len: "image_len data = of_nat (8 + segs_size ss)"
    and c: "check_sum I \<longrightarrow> fold_checksum c = 0xEF XOR xor_list (concat (map snd ss))"
  shows "verify_checksum I d sha c data = (if check_sum I \<and> \<not> sum_ok (cells d) (unat a) ss then Inl ESP_ERR_IMAGE_INVALID
     else Inr (feeds I sha [mem_read (cells d) (unat a + 8 + segs_size ss) (padded_len ss - (8 + segs_size ss))],
       data\<lparr>image_len := of_nat (image_total I ss)\<rparr>))"
proof (cases "check_sum I \<or> check_hash I")
  case False
  then show ?thesis using len
    by (cases data) (simp add: verify_checksum_def image_total_def sha_feed_def)
next
  case True
  obtain n where n: "8 + segs_size ss = n" by simp
  let ?m = "cells d" and ?u = "of_nat n :: u32" and ?k = "padded_len ss - n"
  note pad = padded_len_bounds [of ss, unfolded n]
  have tot: "unat a + padded_len ss \<le> chip_bytes" using True bound by (auto simp: image_total_def split: if_splits)
  have u: "unat ?u = n" using tot pad small_chip by (intro unat_of_nat_small) simp
  have p: "unat ((?u + 1 + 15) AND NOT 15) = padded_len ss"
    using padded_length [of ?u] tot pad small_chip by (simp only: u) (simp add: padded_len_def n)
  then have peq: "(?u + 1 + 15) AND NOT 15 = of_nat (padded_len ss)" by (simp flip: p)
  have k: "unat (of_nat (padded_len ss) - ?u) = ?k"
    using p peq u pad by (subst unat_sub) (simp_all add: word_le_nat_alt)
  have au: "unat (a + ?u) = unat a + n" using unat_add_no_wrap [of a ?u] tot pad small_chip by (simp add: u)
  have m4: "n mod 4 = 0" using segs_size_mod [OF at] n by presburger
  have k4: "?k mod 4 = 0" using pad(1) m4 mod_0_trans [OF pad(3), of 4] by (simp add: mod_eq_0_iff_dvd)
  have au4: "(unat a + n) mod 4 = 0" using a m4 by (simp add: mod_eq_0_iff_dvd)
  have k0: "of_nat (padded_len ss) - ?u \<noteq> 0" using k pad(1) by (metis unat_0 zero_less_diff less_irrefl)
  have rd: "bootloader_flash_read I (a + ?u) (tail_buf I) (of_nat (padded_len ss) - ?u) d = Inr (mem_read ?m (unat a + n) ?k)"
    using flash_read [of "tail_buf I" "a + ?u" "of_nat (padded_len ss) - ?u" d, unfolded au k] au4 k4 buffers(2,6) tot pad(1) k0 by simp
  have last: "mem_read ?m (unat a + n) ?k ! (?k - 1) = ?m (unat a + padded_len ss - 1)"
    using pad(1) by (simp add: add.commute add.left_commute)
  show ?thesis
    unfolding verify_checksum_def Let_def start len [unfolded n] peq rd k
    using True c last by (cases "check_sum I") (auto simp: sum_ok_def image_total_def HASH_LEN_def n add.assoc)
qed

lemma verify_simple_hash_eq:
  assumes "unat a mod 4 = 0" and bound: "unat a + padded_len ss + 32 \<le> chip_bytes" and start: "start_addr data = a"
    and len: "image_len data = of_nat (padded_len ss + 32)"
    and h: "sha256_start I = Some h0" "h = foldl (sha256_data I) h0 xs" and xs: "concat xs = mem_read (cells d) (unat a) (padded_len ss)"
      "\<forall>x \<in> set xs. length x \<le> 1024"
  shows "verify_simple_hash I d h data = (if hash_ok (cells d) (unat a) ss then ESP_OK else ESP_ERR_IMAGE_INVALID)"
proof -
  let ?m = "cells d"
  have p: "unat (of_nat (padded_len ss) :: u32) = padded_len ss" using bound small_chip by (intro unat_of_nat_small) simp
  have e: "a + of_nat (padded_len ss + 32) - of_nat HASH_LEN = a + of_nat (padded_len ss)" by (simp add: HASH_LEN_def)
  have ap: "unat (a + of_nat (padded_len ss)) = unat a + padded_len ss"
    using unat_add_no_wrap [of a "of_nat (padded_len ss)"] bound small_chip by (simp add: p)
  have "(unat a + padded_len ss) mod 4 = 0" using assms(1) mod_0_trans [OF padded_len_bounds(3), of 4 ss] by (simp add: mod_eq_0_iff_dvd)
  then have rd: "bootloader_flash_read I (a + of_nat (padded_len ss)) (hash_buf I) (of_nat HASH_LEN) d = Inr (mem_read ?m (unat a + padded_len ss) 32)"
    using flash_read [of "hash_buf I" "a + of_nat (padded_len ss)" 32 d, unfolded ap] buffers(3,7) bound by (simp add: HASH_LEN_def)
  have "length (concat xs) < 2 ^ 61" unfolding xs using bound small_chip by simp
  moreover have "\<forall>x \<in> set xs. length x < 2 ^ 32" using xs(2) by force
  ultimately have "sha256_finish I h = sha256_fips (mem_read ?m (unat a) (padded_len ss))"
    using digest [OF h(1)] by (simp add: h(2) flip: xs(1))
  then show ?thesis unfolding verify_simple_hash_def start len e rd by (simp add: hash_ok_def)
qed

lemma load_data_eq:
  assumes at: "image_at (cells d) (unat a) h ss" and a: "unat a mod 4 = 0" and sz: "sz \<le> SIXTEEN_MB"
    and bound: "unat a + image_total I ss \<le> chip_bytes"
  shows "esp_image_load_data I \<lparr>pos_offset = a, pos_size = sz\<rparr> d
    = Some (if image_intact I (cells d) (unat a) (unat sz) ss then Inr (image_metadata I a h ss) else Inl ESP_ERR_IMAGE_INVALID)"
proof -
  let ?m = "cells d" and ?n = "8 + segs_size ss" and ?hd = "mem_read (cells d) (unat a) 8"
  let ?data0 = "no_metadata\<lparr>start_addr := a, image := h\<rparr>"
  have h: "decode_image_header ?hd = h" "h_magic h = ESP_IMAGE_HEADER_MAGIC" "unat (segment_count h) = length ss" "length ss \<le> 16"
    and segs: "segs_at ?m (unat a + 8) ss" using at by (simp_all add: image_at_def)
  have n: "unat a + ?n \<le> chip_bytes" using bound padded_len_bounds(1) [of ss] by (auto simp: image_total_def split: if_splits)
  have a8: "unat (a + 8) = unat a + 8" using unat_add_no_wrap [of a 8] n small_chip by simp
  have rd: "bootloader_flash_read I a (data_buf I + 4) 8 d = Inr ?hd"
    using flash_read [of "data_buf I + 4" a 8 d] data_buf_field [of 4] a n mod4_add [OF buffers(1), of 4] by simp
  obtain h0 where h0: "sha256_start I = Some h0" using starts by auto
  let ?sha = "if check_hash I then sha_feed I (sha256_start I) ?hd else None"
  have pre: "segs_at ?m (unat (a + 8)) ss" "unat (a + 8) mod 4 = 0" "0 + length ss \<le> 16" "unat (a + 8) + segs_size ss \<le> chip_bytes"
    "length (segments ?data0) = 16" "length (segment_data ?data0) = 16"
    using segs h(4) n mod4_add [OF a, of 8] by (simp_all add: a8 no_metadata_def ESP_IMAGE_MAX_SEGMENTS_def)
  obtain en :: u32 where en: "of_nat (unat a + 8 + segs_size ss) = en" by simp
  obtain xs c where ld: "load_segments I d (length ss) 0 (a + 8) ESP_ROM_CHECKSUM_INITIAL ?sha ?data0
      = Some (Inr (en, c, feeds I ?sha xs, stored_segments 0 (unat a + 8) ss ?data0))"
    and xs: "concat xs = mem_read ?m (unat a + 8) (segs_size ss)" "\<forall>x \<in> set xs. length x \<le> 1024"
    and c: "check_sum I \<longrightarrow> fold_checksum c = 0xEF XOR xor_list (concat (map snd ss))"
    using load_segments_eq [OF pre, of ESP_ROM_CHECKSUM_INITIAL ?sha, unfolded a8 en]
    by (auto simp: ESP_ROM_CHECKSUM_INITIAL_def fold_checksum_def)
  let ?data1 = "stored_segments 0 (unat a + 8) ss ?data0"
  have e: "unat en = unat a + ?n" using n small_chip unfolding en [symmetric] by (subst unat_of_nat_small) simp_all
  have ge: "\<not> en < a" by (simp add: word_less_nat_alt e)
  have len: "en - a = of_nat ?n" unfolding en [symmetric] by simp
  let ?tail = "mem_read ?m (unat a + ?n) (padded_len ss - ?n)"
  have sum: "verify_checksum I d (feeds I ?sha xs) c (?data1\<lparr>image_len := en - a\<rparr>)
      = (if check_sum I \<and> \<not> sum_ok ?m (unat a) ss then Inl ESP_ERR_IMAGE_INVALID
         else Inr (feeds I ?sha (xs @ [?tail]), image_metadata I a h ss))"
    using verify_checksum_eq [OF segs a bound _ _ c, of "?data1\<lparr>image_len := en - a\<rparr>" "feeds I ?sha xs"] len
    by (simp add: image_metadata_def feeds_def add.assoc del: feeds_simps)
  have tot: "unat (of_nat (image_total I ss) :: u32) = image_total I ss"
    using bound small_chip by (intro unat_of_nat_small) simp
  have meta: "start_addr (image_metadata I a h ss) = a" "image_len (image_metadata I a h ss) = of_nat (image_total I ss)"
    by (simp_all add: image_metadata_def)
  have hash: "feeds I ?sha (xs @ [?tail]) = Some (foldl (sha256_data I) h0 (?hd # xs @ [?tail]))
      \<and> verify_simple_hash I d (foldl (sha256_data I) h0 (?hd # xs @ [?tail])) (image_metadata I a h ss)
        = (if hash_ok ?m (unat a) ss then ESP_OK else ESP_ERR_IMAGE_INVALID)" if "check_hash I"
  proof -
    have "concat (?hd # xs @ [?tail]) = mem_read ?m (unat a) (padded_len ss)"
      using xs(1) mem_read_append [of ?m "unat a" 8 "segs_size ss"] mem_read_append [of ?m "unat a" ?n "padded_len ss - ?n"]
        padded_len_bounds(1) [of ss] by (simp add: add.assoc)
    moreover have "\<forall>x \<in> set (?hd # xs @ [?tail]). length x \<le> 1024" using xs(2) padded_len_bounds(2) [of ss] by auto
    moreover have "image_total I ss = padded_len ss + 32" using that by (simp add: image_total_def)
    ultimately have "verify_simple_hash I d (foldl (sha256_data I) h0 (?hd # xs @ [?tail])) (image_metadata I a h ss)
        = (if hash_ok ?m (unat a) ss then ESP_OK else ESP_ERR_IMAGE_INVALID)"
      using bound meta(2) by (intro verify_simple_hash_eq [OF a _ meta(1) _ h0 refl]) simp_all
    then show ?thesis using that h0 feeds_Some [OF that, of "sha256_data I h0 ?hd" "xs @ [?tail]"] by (simp add: sha_feed_def)
  qed
  show ?thesis
    using sz h(2,3,4) ge meta tot hash h0
    by (simp add: esp_image_load_data_def rd h(1) verify_image_header_def ESP_IMAGE_MAX_SEGMENTS_def ld sum image_intact_def
        word_le_nat_alt word_less_nat_alt unat_eq_zero ESP_BOOTLOADER_OFFSET_def)
qed

end

section \<open>The two builds\<close>

text \<open>What a buffer holds after a read: a failed read leaves it as it was.\<close>

definition app_reads :: "'d flash_rom \<Rightarrow> (u32 \<Rightarrow> nat \<Rightarrow> u8 list) \<Rightarrow> u32 \<Rightarrow> u32 \<Rightarrow> nat \<Rightarrow> 'd \<Rightarrow> u8 list" where
  "app_reads R old src dst n d = (case spi_flash_read R src dst n d of Inl _ \<Rightarrow> old dst n | Inr bs \<Rightarrow> bs)"

definition boot_reads :: "'d flash_rom \<Rightarrow> (u32 \<Rightarrow> nat \<Rightarrow> u8 list) \<Rightarrow> u32 \<Rightarrow> u32 \<Rightarrow> nat \<Rightarrow> 'd \<Rightarrow> u8 list" where
  "boot_reads R old src dst n d = (case SPI_read_data R src n d of None \<Rightarrow> old dst n | Some bs \<Rightarrow> bs)"

definition example_image_env :: "(u32 \<Rightarrow> u32 \<Rightarrow> nat \<Rightarrow> mem \<Rightarrow> u8 list) \<Rightarrow> (mem, sha_ctx) image_env" where
  "example_image_env rd = \<lparr>flash_into = rd, data_buf = 0x3FFE9000, chunk_buf = Some 0x3FFEA000, tail_buf = 0x3FFEB000,
     hash_buf = 0x3FFEB100, check_sum = True, check_hash = False,
     sha256_start = bootloader_sha256_start blank_ctx32, sha256_data = bootloader_sha256_data, sha256_finish = bootloader_sha256_finish\<rparr>"

lemma example_image_env_sel [simp]:
  "flash_into (example_image_env rd) = rd" "data_buf (example_image_env rd) = 0x3FFE9000" "chunk_buf (example_image_env rd) = Some 0x3FFEA000"
  "tail_buf (example_image_env rd) = 0x3FFEB000" "hash_buf (example_image_env rd) = 0x3FFEB100"
  "check_sum (example_image_env rd)" "\<not> check_hash (example_image_env rd)"
  "sha256_start (example_image_env rd) = bootloader_sha256_start blank_ctx32" 
  "sha256_data (example_image_env rd) = bootloader_sha256_data" "sha256_finish (example_image_env rd) = bootloader_sha256_finish"
  by (simp_all add: example_image_env_def)

interpretation app_image: image_flash "example_image_env (app_reads (nor_chip 0x100000) (\<lambda>dst n. replicate n 0))" "\<lambda>d. d" "0x100000"
  by unfold_locales
    (simp_all add: boot_sha.digest boot_sha.starts app_reads_def chip1M.flash_read_exact)

interpretation boot_image: image_flash "example_image_env (boot_reads (nor_chip 0x100000) (\<lambda>dst n. replicate n 0))" "\<lambda>d. d" "0x100000"
  by unfold_locales
    (simp_all add: boot_sha.digest boot_sha.starts boot_reads_def nor_chip_def)

definition example_image :: "u8 list" where
  "example_image = [0xE9, 1, 0, 0, 0x00, 0x01, 0x21, 0x40,  0x00, 0x01, 0x21, 0x40, 4, 0, 0, 0,  1, 2, 4, 8] @ replicate 11 0 @ [0xE0]"

lemma example_image_at:
  assumes "mem_read m a 32 = example_image"
  shows "image_at m a \<lparr>h_magic = 0xE9, segment_count = 1, spi_mode = 0, spi_speed = 0, spi_size = 0, entry_addr = 0x40210100\<rparr>
    [(0x40210100, [1, 2, 4, 8])]" and "sum_ok m a [(0x40210100, [1, 2, 4, 8])]"
proof -
  have "mem_read m (a + k) n = take n (drop k example_image)" if "k + n \<le> 32" for k n
    using that by (simp flip: assms add: drop_mem_read take_mem_read)
  note r = this [of 0 8] this [of 8 8] this [of 16 4] this [of 31 1]
  have r4: "mem_read m (16 + a) (Suc (Suc (Suc (Suc 0)))) = [1, 2, 4, 8]"
    using r(3) by (simp add: example_image_def add.commute numeral_eq_Suc)
  show "image_at m a \<lparr>h_magic = 0xE9, segment_count = 1, spi_mode = 0, spi_speed = 0, spi_size = 0, entry_addr = 0x40210100\<rparr>
    [(0x40210100, [1, 2, 4, 8])]"
    using r(1,2) r4 by (simp add: image_at_def example_image_def decode_image_header_def ESP_IMAGE_HEADER_MAGIC_def le32_bytes_def)
  show "sum_ok m a [(0x40210100, [1, 2, 4, 8])]"
    using arg_cong [OF r(4), of "\<lambda>xs. xs ! 0"] by (simp add: sum_ok_def padded_len_def example_image_def add.commute)
qed

section \<open>Damaged images\<close>

text \<open>The address of the data of segment \<open>k\<close>.\<close>

fun seg_data_at :: "nat \<Rightarrow> (u32 \<times> u8 list) list \<Rightarrow> nat \<Rightarrow> nat" where
  "seg_data_at a [] k = a"
| "seg_data_at a ((l, bs) # ss) 0 = a + 8"
| "seg_data_at a ((l, bs) # ss) (Suc k) = seg_data_at (a + 8 + length bs) ss k"

lemma mem_read_upd_other: "x < a \<or> a + n \<le> x \<Longrightarrow> mem_read (m(x := b)) a n = mem_read m a n"
  by (rule mem_read_cong) auto

lemma mem_read_upd: "j < n \<Longrightarrow> mem_read (m(a + j := b)) a n = (mem_read m a n)[j := b]"
  by (rule nth_equalityI) (auto simp: nth_list_update)

lemma seg_data_at_le:
  "k < length ss \<Longrightarrow> a + 8 \<le> seg_data_at a ss k \<and> seg_data_at a ss k + length (snd (ss ! k)) \<le> a + segs_size ss"
  by (induction a ss k rule: seg_data_at.induct) force+

lemma segs_at_upd_before: "segs_at m a ss \<Longrightarrow> x < a \<Longrightarrow> segs_at (m(x := b)) a ss"
  by (induction m a ss rule: segs_at.induct) (auto simp: mem_read_upd_other)

lemma segs_at_damaged:
  assumes "segs_at m a ss" and "k < length ss" and "j < length (snd (ss ! k))"
  shows "segs_at (m(seg_data_at a ss k + j := b)) a (ss[k := (fst (ss ! k), (snd (ss ! k))[j := b])])"
  using assms
proof (induction a ss k rule: seg_data_at.induct)
  case (2 a l bs ss)
  then show ?case
    using mem_read_upd [of j "length bs" m "a + 8" b] by (auto simp: mem_read_upd_other simp del: fun_upd_apply intro!: segs_at_upd_before)
next
  case (3 a l bs ss k)
  then show ?case
    using seg_data_at_le [of k ss "a + 8 + length bs"] by (auto simp: mem_read_upd_other simp del: fun_upd_apply)
qed simp

lemma segs_size_damaged: "k < length ss \<Longrightarrow> length bs = length (snd (ss ! k)) \<Longrightarrow> segs_size (ss[k := (l, bs)]) = segs_size ss"
  by (induction ss arbitrary: k rule: segs_size.induct) (auto split: nat.split)

lemma xor_damaged:
  assumes "k < length ss" and "j < length (snd (ss ! k))"
  shows "xor_list (concat (map snd (ss[k := (l, (snd (ss ! k))[j := b])])))
    = xor_list (concat (map snd ss)) XOR (snd (ss ! k) ! j XOR b)"
  using assms
proof (induction ss arbitrary: k)
  case (Cons s ss)
  show ?case
  proof (cases k)
    case 0
    then have "j < length (snd s)" using Cons.prems by simp
    then show ?thesis using 0 by (simp add: xor_list_append xor_list_update xor.assoc xor.commute xor.left_commute)
  next
    case (Suc i)
    then show ?thesis using Cons by (simp add: xor_list_append xor.assoc)
  qed
qed simp

lemma xor_differs: "(x :: u8) \<noteq> b \<Longrightarrow> a XOR (c XOR (x XOR b)) \<noteq> a XOR c"
  by (auto simp: bit_eq_iff bit_simps)

lemma sum_damaged:
  assumes "sum_ok m a ss" and k: "k < length ss" and j: "j < length (snd (ss ! k))" and "b \<noteq> snd (ss ! k) ! j"
  shows "\<not> sum_ok (m(seg_data_at (a + 8) ss k + j := b)) a (ss[k := (fst (ss ! k), (snd (ss ! k))[j := b])])"
proof -
  let ?bs = "snd (ss ! k)"
  have p: "padded_len (ss[k := (fst (ss ! k), ?bs[j := b])]) = padded_len ss"
    using segs_size_damaged [OF k, of "?bs[j := b]"] by (simp add: padded_len_def)
  have "seg_data_at (a + 8) ss k + j < a + padded_len ss - 1"
    using seg_data_at_le [OF k, of "a + 8"] j padded_len_bounds(1) [of ss] by linarith
  moreover have "0xEF XOR xor_list (concat (map snd ss)) \<noteq> 0xEF XOR (xor_list (concat (map snd ss)) XOR (?bs ! j XOR b))"
    using assms(4) xor_differs [of "?bs ! j" b "0xEF" "xor_list (concat (map snd ss))"] by (simp add: xor.assoc)
  ultimately show ?thesis using assms(1) by (simp add: sum_ok_def p xor_damaged [OF k j])
qed

section \<open>A length the loop cannot pass\<close>

lemma segment_loop_endless:
  assumes "segment_loop I d pbuf a len i c sha = Some y"
    and "0xFFFFFC00 < unat len" "unat len mod 4 = 0" "unat a mod 4 = 0" "unat pbuf mod 4 = 0" "unat i mod 1024 = 0"
  shows False
  using assms
proof (induction rule: segment_loop.raw_induct [rotated, consumes 1, case_names step])
  case (step f I d pbuf a len i c sha y)
  obtain q where q: "unat i = 1024 * q" using step.prems(5) by auto
  have "unat i < 2 ^ LENGTH(32)" by (rule unsigned_less)
  then have q': "q < 4194304" using q by simp
  then have lt: "i < len" using step.prems(1) q by (simp add: word_less_nat_alt)
  have "unat (i + SHA_CHUNK) mod 1024 = 0"
    using q by (simp add: SHA_CHUNK_def unat_word_ariths mod_mod_cancel mod_eq_0_iff_dvd)
  moreover have "unat (a + i) mod 4 = 0" using mod4_add [of a i] step.prems(3) q by (simp add: mod_eq_0_iff_dvd)
  moreover have "unat (min SHA_CHUNK (len - i)) mod 4 = 0"
  proof -
    have "unat (len - i) = unat len - unat i" using lt by (simp add: unat_sub)
    then show ?thesis using step.prems(2) q lt by (auto simp: min_def SHA_CHUNK_def mod_eq_0_iff_dvd)
  qed
  ultimately show ?case
    using step(2) lt step.prems(1-4) by (auto simp: bootloader_flash_read_def dest!: step(1))
qed

context image_flash begin

lemma load_endless:
  assumes checked: "check_sum I \<or> check_hash I" and a: "unat a mod 4 = 0" "unat a + 16 \<le> chip_bytes" and sz: "sz \<le> SIXTEEN_MB"
    and h: "decode_image_header (mem_read (cells d) (unat a) 8) = h" "h_magic h = ESP_IMAGE_HEADER_MAGIC"
      "0 < unat (segment_count h)" "unat (segment_count h) \<le> 16"
    and len: "seg_data_len (decode_segment_header (mem_read (cells d) (unat a + 8) 8)) = len" "0xFFFFFC00 < unat len" "unat len mod 4 = 0"
  shows "esp_image_load_data I \<lparr>pos_offset = a, pos_size = sz\<rparr> d = None"
proof -
  have a8: "unat (a + 8) = unat a + 8" using unat_add_no_wrap [of a 8] a small_chip by simp
  have al: "unat (a + 8) mod 4 = 0" "unat (a + 8 + 8) mod 4 = 0"
    using mod4_add [OF a(1), of 8] mod4_add [of "a + 8" 8] by simp_all
  have rd: "bootloader_flash_read I a (data_buf I + 4) 8 d = Inr (mem_read (cells d) (unat a) 8)"
    using flash_read [of "data_buf I + 4" a 8 d] data_buf_field [of 4] a mod4_add [OF buffers(1), of 4] by simp
  have rd1: "bootloader_flash_read I (a + 8) (data_buf I + 12) 8 d = Inr (mem_read (cells d) (unat a + 8) 8)"
    using flash_read [of "data_buf I + 12" "a + 8" 8 d] data_buf_field [of 12] a al a8 mod4_add [OF buffers(1), of 12] by simp
  obtain pbuf where pb: "chunk_buf I = Some pbuf" "unat pbuf mod 4 = 0" using buffers(4,5) by (cases "chunk_buf I") simp_all
  have never: "segment_loop I d pbuf (a + 8 + 8) len 0 c sha = None" for c sha
  proof (cases "segment_loop I d pbuf (a + 8 + 8) len 0 c sha")
    case (Some y)
    then show ?thesis using segment_loop_endless [OF Some len(2,3) al(2) pb(2)] by simp
  qed
  have m4: "len mod 4 = 0" using len(3) by (simp add: word_unat_eq_iff unat_mod)
  have "process_segment I d 0 (a + 8) c sha = None" for c sha
    using checked pb(1) never m4
    by (simp add: process_segment_def rd1 process_segment_data_def verify_segment_header_def len(1))
  moreover obtain n where n: "unat (segment_count h) = Suc n" using h(3) by (cases "unat (segment_count h)") simp_all
  moreover have "sha256_start I \<noteq> None" by (rule starts)
  moreover have "Suc n \<le> 16" using h(4) n by simp
  moreover have "\<not> SIXTEEN_MB < sz" using sz by (simp add: not_less)
  ultimately show ?thesis
    using h(2) by (auto simp: esp_image_load_data_def rd h(1) verify_image_header_def ESP_IMAGE_MAX_SEGMENTS_def Let_def)
qed

end

lemma mem_read_parts:
  "mem_read (mem_write m a (xs @ ys)) a (length xs) = xs" "mem_read (mem_write m a (xs @ ys)) (a + length xs) (length ys) = ys"
  using take_mem_read [of "length xs" "length (xs @ ys)" "mem_write m a (xs @ ys)" a]
    drop_mem_read [of "length xs" "mem_write m a (xs @ ys)" a "length (xs @ ys)"] by (simp_all del: length_append) simp_all

section \<open>Properties\<close>

text \<open>C17: Loading an image is exact. For an image in the flash (a header with the magic byte and n segments,
  n at most 16, then n segment headers each followed by its data, in multiples of four bytes), whose padded
  length lies on the chip, esp_image_load_data always returns: the metadata of the image, if the check
  sum byte is 0xEF XOR all bytes of all segments, the SHA-256 hash behind it is that of everything before it
  (where that is configured, and not for an image at address 0) and the total length fits the
  partition; otherwise ESP_ERR_IMAGE_INVALID. The chunks of 1024 bytes, the word-wise sum and
  the incremental hash do not show.\<close>

theorem image_load_exact:
  assumes "image_flash I cells chip_bytes" and "image_at (cells d) (unat a) h ss" and "unat a mod 4 = 0"
    and "sz \<le> SIXTEEN_MB" and "unat a + image_total I ss \<le> chip_bytes"
  shows "esp_image_load_data I \<lparr>pos_offset = a, pos_size = sz\<rparr> d
    = Some (if image_intact I (cells d) (unat a) (unat sz) ss then Inr (image_metadata I a h ss) else Inl ESP_ERR_IMAGE_INVALID)"
  by (rule image_flash.load_data_eq [OF assms])

lemma image_load_exact_witness:
  "\<exists>md. esp_image_load_data (example_image_env (app_reads (nor_chip 0x100000) (\<lambda>dst n. replicate n 0)))
      \<lparr>pos_offset = 0x1000, pos_size = 0x1000\<rparr> (mem_write (\<lambda>_. 0xff) 0x1000 example_image) = Some (Inr md)
    \<and> image_len md = 32 \<and> segment_data md ! 0 = 0x1010"
proof -
  let ?m = "mem_write (\<lambda>_. 0xff) 0x1000 example_image"
  have "mem_read ?m 0x1000 32 = example_image"
    using mem_read_mem_write [of "\<lambda>_. 0xff" "0x1000" example_image] by (simp add: example_image_def)
  note at = example_image_at [OF this]
  have "image_intact (example_image_env rd) ?m 0x1000 0x1000 [(0x40210100, [1, 2, 4, 8])]" for rd
    using at(2) by (simp add: image_intact_def image_total_def padded_len_def)
  then show ?thesis
    using image_load_exact [OF app_image.image_flash_axioms, of ?m "0x1000" _ _ "0x1000", OF _ _ _ _] at(1)
    by (simp add: SIXTEEN_MB_def image_total_def padded_len_def image_metadata_def stored_segments_def overwrite_def
        no_metadata_def ESP_IMAGE_MAX_SEGMENTS_def)
qed

text \<open>C18: One wrong byte is found. If an image loads with the check sum configured, and one byte of the
  data of one of its segments then changes, to any other value, loading it fails with
  ESP_ERR_IMAGE_INVALID.\<close>

theorem image_corruption_detected:
  assumes I: "image_flash I cells chip_bytes" and at: "image_at (cells d) (unat a) h ss" and a: "unat a mod 4 = 0"
    and sz: "sz \<le> SIXTEEN_MB" and bound: "unat a + image_total I ss \<le> chip_bytes" and sum: "check_sum I"
    and loads: "esp_image_load_data I \<lparr>pos_offset = a, pos_size = sz\<rparr> d = Some (Inr md)"
    and k: "k < length ss" and j: "j < length (snd (ss ! k))" and b: "b \<noteq> snd (ss ! k) ! j"
    and d': "cells d' = (cells d)(seg_data_at (unat a + 8) ss k + j := b)"
  shows "esp_image_load_data I \<lparr>pos_offset = a, pos_size = sz\<rparr> d' = Some (Inl ESP_ERR_IMAGE_INVALID)"
proof -
  let ?ss = "ss[k := (fst (ss ! k), (snd (ss ! k))[j := b])]"
  have size: "segs_size ?ss = segs_size ss" by (rule segs_size_damaged [OF k]) simp
  have "mem_read (cells d') (unat a) 8 = mem_read (cells d) (unat a) 8"
    unfolding d' using seg_data_at_le [OF k, of "unat a + 8"] by (intro mem_read_upd_other) simp
  then have at': "image_at (cells d') (unat a) h ?ss"
    using at segs_at_damaged [of "cells d" "unat a + 8" ss k j b] k j by (simp add: image_at_def d')
  have "padded_len ?ss = padded_len ss" by (simp add: padded_len_def size)
  then have "image_total I ?ss = image_total I ss" by (simp add: image_total_def size)
  then have bound': "unat a + image_total I ?ss \<le> chip_bytes" using bound by simp
  have "sum_ok (cells d) (unat a) ss"
    using image_flash.load_data_eq [OF I at a sz bound] loads sum by (simp add: image_intact_def split: if_splits)
  then have "\<not> sum_ok (cells d') (unat a) ?ss" unfolding d' by (rule sum_damaged [OF _ k j b])
  then show ?thesis
    using image_flash.load_data_eq [OF I at' a sz bound'] sum by (simp add: image_intact_def)
qed

lemma image_corruption_detected_witness:
  "esp_image_load_data (example_image_env (app_reads (nor_chip 0x100000) (\<lambda>dst n. replicate n 0)))
      \<lparr>pos_offset = 0x1000, pos_size = 0x1000\<rparr> ((mem_write (\<lambda>_. 0xff) 0x1000 example_image)(0x1012 := 0xFF)) = Some (Inl ESP_ERR_IMAGE_INVALID)"
proof -
  let ?m = "mem_write (\<lambda>_. 0xff) 0x1000 example_image"
  have "mem_read ?m 0x1000 32 = example_image"
    using mem_read_mem_write [of "\<lambda>_. 0xff" "0x1000" example_image] by (simp add: example_image_def)
  note at = example_image_at [OF this]
  have ok: "image_intact (example_image_env rd) ?m 0x1000 0x1000 [(0x40210100, [1, 2, 4, 8])]" for rd
    using at(2) by (simp add: image_intact_def image_total_def padded_len_def)
  note load = app_image.load_data_eq [of ?m "0x1000", simplified, OF at(1), of "0x1000"]
  show ?thesis
    by (rule image_corruption_detected [OF app_image.image_flash_axioms, of ?m "0x1000", simplified, OF at(1), where k = 0 and j = 2])
      (use load ok in \<open>simp_all add: SIXTEEN_MB_def image_total_def padded_len_def\<close>)
qed

text \<open>A length the loader cannot pass. With the check sum or the hash configured, an image whose first
  segment header has a length above 2^32 - 1024, in whole words, makes esp_image_load_data run for ever: the
  counter of the chunk loop, 32 bits wide, wraps before it reaches the length (as two's complement,
  it is an int), the check of the length is commented out and failed reads are not
  noticed. The length of the partition is looked at only behind the loop.\<close>

lemma image_load_endless:
  assumes "image_flash I cells chip_bytes" and "check_sum I \<or> check_hash I" and "unat a mod 4 = 0" and "unat a + 16 \<le> chip_bytes"
    and "sz \<le> SIXTEEN_MB"
    and "decode_image_header (mem_read (cells d) (unat a) 8) = h" and "h_magic h = ESP_IMAGE_HEADER_MAGIC"
    and "0 < unat (segment_count h)" and "unat (segment_count h) \<le> 16"
    and "seg_data_len (decode_segment_header (mem_read (cells d) (unat a + 8) 8)) = len" and "0xFFFFFC00 < unat len" and "unat len mod 4 = 0"
  shows "esp_image_load_data I \<lparr>pos_offset = a, pos_size = sz\<rparr> d = None"
  by (rule image_flash.load_endless [OF assms])

lemma image_load_endless_witness:
  "esp_image_load_data (example_image_env (app_reads (nor_chip 0x100000) (\<lambda>dst n. replicate n 0)))
      \<lparr>pos_offset = 0x1000, pos_size = 0x1000\<rparr>
      (mem_write (\<lambda>_. 0xff) 0x1000 ([0xE9, 1, 0, 0, 0x00, 0x01, 0x21, 0x40] @ [0x00, 0x01, 0x21, 0x40, 0xFC, 0xFF, 0xFF, 0xFF])) = None"
proof -
  let ?h = "[0xE9, 1, 0, 0, 0x00, 0x01, 0x21, 0x40] :: u8 list" and ?s = "[0x00, 0x01, 0x21, 0x40, 0xFC, 0xFF, 0xFF, 0xFF] :: u8 list"
  let ?m = "mem_write (\<lambda>_. 0xff) 0x1000 (?h @ ?s)"
  have "length ?h = 8" "length ?s = 8" by simp_all
  then have "mem_read ?m 0x1000 8 = ?h" "mem_read ?m (0x1000 + 8) 8 = ?s"
    using mem_read_parts [of "\<lambda>_. 0xff" "0x1000" ?h ?s] by (simp_all only:)
  then show ?thesis
    by (intro image_load_endless [OF app_image.image_flash_axioms _ _ _ _ refl _ _ _ refl])
      (simp_all add: SIXTEEN_MB_def decode_image_header_def decode_segment_header_def ESP_IMAGE_HEADER_MAGIC_def)
qed

end
