(* ===== verification/Ota.thy ===== *)
theory Ota
  imports Partition
begin

text \<open>
  Over-the-air updates on the application side, \<^verbatim>\<open>components/app_update/esp_ota_ops.c\<close>
  in its ESP8266 branches: the list of open update handles, the choice of the slot to boot through the
  two selection entries of the OTA data partition, and the search for the running and the next slot.

  The state extends the state of the partition API by the file's static variables. The environment
  holds what the file does not define: the ROM, the configured offset of the partition table, the image
  verifier \<^verbatim>\<open>esp_image_load(ESP_IMAGE_VERIFY, ...)\<close> (its result: the entry address
  of a valid image), the flash cache register and the address of the running code, the outcome of
  \<^verbatim>\<open>calloc\<close>, and the address of the static \<^verbatim>\<open>s_ota_select\<close>. A result
  \<open>None\<close> is a call that does not return normally: a failed \<^verbatim>\<open>assert\<close>,
  \<^verbatim>\<open>abort\<close>, a division by zero or an endless loop.
\<close>

section \<open>State\<close>

record ota_ops_entry_t =
  ota_handle :: u32
  ota_part :: esp_partition_t
  erased_size :: u32
  wrote_size :: u32
  partial_bytes :: u8
  partial_data :: "u8 list"

record 'd ota_state = "'d part_state" +
  s_ota_ops_entries :: "ota_ops_entry_t list"
  s_ota_ops_last_handle :: u32
  s_ota_select0 :: ota_select
  s_ota_select1 :: ota_select

record 'd ota_env =
  rom :: "'d flash_rom"
  table_addr :: u32
  esp_image_load :: "esp_partition_pos_t \<Rightarrow> 'd \<Rightarrow> u32 option"
  cache_flash_ctrl :: u32
  running_addr :: u32
  calloc_ok :: bool
  boot_copy_app :: bool
  select_addr :: u32

definition OTA_SIZE_UNKNOWN :: u32 where "OTA_SIZE_UNKNOWN = 0xffffffff"
definition SPI_FLASH_CACHE2PHYS_FAIL :: u32 where "SPI_FLASH_CACHE2PHYS_FAIL = 0xffffffff"

text \<open>\<^verbatim>\<open>spi_flash_cache2phys\<close> of the driver: the flash offset behind an address of
  the instruction cache, from the value of the cache control register.\<close>

definition spi_flash_cache2phys :: "u32 \<Rightarrow> u32 \<Rightarrow> u32" where
  "spi_flash_cache2phys reg addr =
    (let segment = drop_bit 16 reg AND 0x3;
         (map_size, addr_offset) =
           (if bit reg 24 then (0x00200000, 0)
            else (0x00100000, if bit reg 25 then 0x00100000 else 0)) in
     if addr \<le> 0x40200000 \<or> addr \<ge> 0x40200000 + map_size then SPI_FLASH_CACHE2PHYS_FAIL
     else segment * 0x00200000 + (addr + addr_offset - 0x40200000))"

abbreviation find1 :: "'d ota_env \<Rightarrow> u8 \<Rightarrow> u8 \<Rightarrow> ('d, 'z) part_state_scheme \<Rightarrow> ('d, 'z) part_state_scheme \<times> esp_partition_t option" where
  "find1 E ty st s \<equiv> esp_partition_find_first (rom E) (table_addr E) ty st None s"

section \<open>Slots\<close>

definition is_ota_partition :: "esp_partition_t \<Rightarrow> bool" where
  "is_ota_partition p \<longleftrightarrow> p_type p = ESP_PARTITION_TYPE_APP
     \<and> p_subtype p \<ge> ESP_PARTITION_SUBTYPE_APP_OTA_MIN \<and> p_subtype p < ESP_PARTITION_SUBTYPE_APP_OTA_MAX"

definition SUB_TYPE_ID :: "u8 \<Rightarrow> u8" where
  "SUB_TYPE_ID i = i AND 0x0F"

definition esp_ota_get_running_partition ::
  "'d ota_env \<Rightarrow> ('d, 'z) part_state_scheme \<Rightarrow> (('d, 'z) part_state_scheme \<times> esp_partition_t) option" where
  "esp_ota_get_running_partition E s =
    (let phys_offs = spi_flash_cache2phys (cache_flash_ctrl E) (running_addr E) in
     if phys_offs = SPI_FLASH_CACHE2PHYS_FAIL then None
     else case esp_partition_find (rom E) (table_addr E) ESP_PARTITION_TYPE_APP ESP_PARTITION_SUBTYPE_ANY None s of
            (s1, None) \<Rightarrow> None
          | (s1, Some it) \<Rightarrow>
              (case iterate_until (\<lambda>p. p_address p \<le> phys_offs \<and> p_address p + p_size p > phys_offs) (Some it) of
                 None \<Rightarrow> None
               | Some p \<Rightarrow> Some (s1, p)))"

text \<open>The loop of \<^verbatim>\<open>get_ota_partition_count\<close>, from \<open>n\<close> on.\<close>

function ota_count_from :: "'d ota_env \<Rightarrow> nat \<Rightarrow> ('d, 'z) part_state_scheme \<Rightarrow> (('d, 'z) part_state_scheme \<times> nat) option" where
  "ota_count_from E n s =
    (case find1 E ESP_PARTITION_TYPE_APP (ESP_PARTITION_SUBTYPE_APP_OTA_MIN + of_nat n) s of
       (s1, None) \<Rightarrow> Some (s1, n)
     | (s1, Some _) \<Rightarrow> if n < 16 then ota_count_from E (n + 1) s1 else None)"
  by pat_completeness auto
termination by (relation "measure (\<lambda>(E, n, s). 16 - n)") auto

declare ota_count_from.simps [simp del]

definition get_ota_partition_count :: "'d ota_env \<Rightarrow> ('d, 'z) part_state_scheme \<Rightarrow> (('d, 'z) part_state_scheme \<times> nat) option" where
  "get_ota_partition_count E s = ota_count_from E 0 s"

section \<open>Update handles\<close>

definition esp_ota_begin ::
  "'d ota_env \<Rightarrow> esp_partition_t option \<Rightarrow> u32 \<Rightarrow> bool \<Rightarrow> 'd ota_state \<Rightarrow> ('d ota_state \<times> (esp_err_t + u32)) option" where
  "esp_ota_begin E partition0 image_size out_handle_given s =
    (if partition0 = None \<or> \<not> out_handle_given then Some (s, Inl ESP_ERR_INVALID_ARG)
     else case esp_partition_verify (rom E) (table_addr E) (the partition0) s of
       (s1, None) \<Rightarrow> Some (s1, Inl ESP_ERR_NOT_FOUND)
     | (s1, Some part) \<Rightarrow>
         if \<not> is_ota_partition part then Some (s1, Inl ESP_ERR_INVALID_ARG)
         else do {
           (s2, running) \<leftarrow> esp_ota_get_running_partition E s1;
           if part = running then Some (s2, Inl ESP_ERR_OTA_PARTITION_CONFLICT)
           else
             let whole = (image_size = 0 \<or> image_size = OTA_SIZE_UNKNOWN);
                 (d, ret) = esp_partition_erase_range (rom E) part 0
                    (if whole then p_size part else (image_size div SPI_FLASH_SEC_SIZE + 1) * SPI_FLASH_SEC_SIZE) (dev s2);
                 s3 = s2\<lparr>dev := d\<rparr> in
             if ret \<noteq> ESP_OK then Some (s3, Inl ret)
             else if \<not> calloc_ok E then Some (s3, Inl ESP_ERR_NO_MEM)
             else
               let h = s_ota_ops_last_handle s3 + 1;
                   new_entry = \<lparr>ota_handle = h, ota_part = part,
                      erased_size = (if whole then p_size part else image_size), wrote_size = 0,
                      partial_bytes = 0, partial_data = replicate 16 0\<rparr> in
               Some (s3\<lparr>s_ota_ops_entries := new_entry # s_ota_ops_entries s3, s_ota_ops_last_handle := h\<rparr>, Inr h)
         })"

definition find_entry :: "u32 \<Rightarrow> ota_ops_entry_t list \<Rightarrow> nat" where
  "find_entry h es = find_idx (\<lambda>it. ota_handle it = h) es"

definition esp_ota_write ::
  "'d ota_env \<Rightarrow> u32 \<Rightarrow> u32 \<Rightarrow> u8 list \<Rightarrow> 'd ota_state \<Rightarrow> ('d ota_state \<times> esp_err_t) option" where
  "esp_ota_write E h data data_bytes s =
    (if data = 0 then Some (s, ESP_ERR_INVALID_ARG)
     else let es = s_ota_ops_entries s; i = find_entry h es in
       if i < length es then
         (let it = es ! i in
          if erased_size it = 0 then None
          else if wrote_size it = 0 \<and> data_bytes \<noteq> [] \<and> data_bytes ! 0 \<noteq> 0xE9
          then Some (s, ESP_ERR_OTA_VALIDATE_FAILED)
          else do {
            (d, ret) \<leftarrow> esp_partition_write (rom E) (ota_part it) (wrote_size it) data data_bytes (dev s);
            let s1 = s\<lparr>dev := d\<rparr>;
                s2 = (if ret = ESP_OK
                      then s1\<lparr>s_ota_ops_entries := es[i := it\<lparr>wrote_size := wrote_size it + of_nat (length data_bytes)\<rparr>]\<rparr>
                      else s1) in
            Some (s2, ret)
          })
       else Some (s, ESP_ERR_INVALID_ARG))"

text \<open>The entry address is relative to the cache base plus the image header. The comparison with the
  start of the partition is signed against 0 and unsigned against the bounds.\<close>

definition esp_ota_verify_binary :: "esp_partition_pos_t \<Rightarrow> u32 \<Rightarrow> esp_err_t" where
  "esp_ota_verify_binary pos entry_addr =
    (let entry = entry_addr - 0x40200010 in
     if pos_offset pos + pos_size pos \<le> 0x100000 \<and>
        (sint entry \<le> 0 \<or> entry \<le> pos_offset pos \<or> entry \<ge> pos_offset pos + pos_size pos)
     then ESP_ERR_INVALID_ARG else ESP_OK)"

text \<open>Every path of \<^verbatim>\<open>esp_ota_end\<close> behind the lookup ends at the label
  \<^verbatim>\<open>cleanup\<close>, which removes the entry.\<close>

definition esp_ota_end :: "'d ota_env \<Rightarrow> u32 \<Rightarrow> 'd ota_state \<Rightarrow> ('d ota_state \<times> esp_err_t) option" where
  "esp_ota_end E h s =
    (let es = s_ota_ops_entries s; i = find_entry h es in
     if i \<ge> length es then Some (s, ESP_ERR_NOT_FOUND)
     else
       let it = es ! i;
           cleanup = (\<lambda>s' ret. Some (s'\<lparr>s_ota_ops_entries := take i es @ drop (Suc i) es\<rparr>, ret)) in
       if erased_size it = 0 \<or> wrote_size it = 0 then cleanup s ESP_ERR_INVALID_ARG
       else do {
         (s1, ret) \<leftarrow>
           (if partial_bytes it > 0 then do {
              (d, r) \<leftarrow> esp_partition_write (rom E) (ota_part it) (wrote_size it) (select_addr E) (partial_data it) (dev s);
              Some (s\<lparr>dev := d\<rparr>, r)
            } else Some (s, ESP_OK));
         if ret \<noteq> ESP_OK then cleanup s1 ESP_ERR_INVALID_STATE
         else
           let part_pos = \<lparr>pos_offset = p_address (ota_part it), pos_size = p_size (ota_part it)\<rparr> in
           (case esp_image_load E part_pos (dev s1) of
              None \<Rightarrow> cleanup s1 ESP_ERR_OTA_VALIDATE_FAILED
            | Some entry_addr \<Rightarrow>
                if \<not> boot_copy_app E \<and> esp_ota_verify_binary part_pos entry_addr \<noteq> ESP_OK
                then cleanup s1 ESP_ERR_OTA_VALIDATE_FAILED
                else cleanup s1 ESP_OK)
       })"

section \<open>Selecting the slot to boot\<close>

definition set_select :: "nat \<Rightarrow> ota_select \<Rightarrow> 'd ota_state \<Rightarrow> 'd ota_state" where
  "set_select sec_id e s = (if sec_id = 0 then s\<lparr>s_ota_select0 := e\<rparr> else s\<lparr>s_ota_select1 := e\<rparr>)"

definition rewrite_ota_seq ::
  "'d ota_env \<Rightarrow> u32 \<Rightarrow> nat \<Rightarrow> esp_partition_t \<Rightarrow> 'd ota_state \<Rightarrow> ('d ota_state \<times> esp_err_t) option" where
  "rewrite_ota_seq E sq sec_id ota_data_partition s =
    (if sec_id = 0 \<or> sec_id = 1 then
       let e0 = (if sec_id = 0 then s_ota_select0 s else s_ota_select1 s)\<lparr>ota_seq := sq\<rparr>;
           e = e0\<lparr>ota_crc := ota_select_crc e0\<rparr>;
           s1 = set_select sec_id e s;
           (d, ret) = esp_partition_erase_range (rom E) ota_data_partition (of_nat sec_id * SPI_FLASH_SEC_SIZE) SPI_FLASH_SEC_SIZE (dev s1);
           s2 = s1\<lparr>dev := d\<rparr> in
       if ret \<noteq> ESP_OK then Some (s2, ret)
       else do {
         (d2, ret2) \<leftarrow> esp_partition_write (rom E) ota_data_partition (SPI_FLASH_SEC_SIZE * of_nat sec_id)
            (select_addr E + 32 * of_nat sec_id) (encode_ota_select e) (dev s2);
         Some (s2\<lparr>dev := d2\<rparr>, ret2)
       }
     else Some (s, ESP_ERR_INVALID_ARG))"

text \<open>\<^verbatim>\<open>while (seq > c + i * n) i++;\<close> in 32-bit arithmetic; it need not end when
  the sum wraps. The result is the last value of \<^verbatim>\<open>i\<close>.\<close>

partial_function (option) advance_i :: "u32 \<Rightarrow> u32 \<Rightarrow> u32 \<Rightarrow> u32 \<Rightarrow> u32 option" where
  "advance_i sq c n i = (if sq > c + i * n then advance_i sq c n (i + 1) else Some i)"

text \<open>The two 32-byte reads at the start of the two sectors, shared by the functions below.\<close>

definition read_selects :: "'d ota_env \<Rightarrow> esp_partition_t \<Rightarrow> 'd ota_state \<Rightarrow> 'd ota_state \<times> esp_err_t" where
  "read_selects E p s =
    (case spi_flash_read (rom E) (p_address p) (select_addr E) 32 (dev s) of
       Inl ret \<Rightarrow> (s, ret)
     | Inr b0 \<Rightarrow>
         let s1 = s\<lparr>s_ota_select0 := decode_ota_select b0\<rparr> in
         (case spi_flash_read (rom E) (p_address p + 0x1000) (select_addr E + 32) 32 (dev s) of
            Inl ret \<Rightarrow> (s1, ret)
          | Inr b1 \<Rightarrow> (s1\<lparr>s_ota_select1 := decode_ota_select b1\<rparr>, ESP_OK)))"

definition esp_rewrite_ota_data :: "'d ota_env \<Rightarrow> u8 \<Rightarrow> 'd ota_state \<Rightarrow> ('d ota_state \<times> esp_err_t) option" where
  "esp_rewrite_ota_data E subtype s =
    (case find1 E ESP_PARTITION_TYPE_DATA ESP_PARTITION_SUBTYPE_DATA_OTA s of
       (s1, None) \<Rightarrow> Some (s1, ESP_ERR_NOT_FOUND)
     | (s1, Some find_partition) \<Rightarrow> do {
         (s2, ota_app_count) \<leftarrow> get_ota_partition_count E s1;
         if unat (SUB_TYPE_ID subtype) \<ge> ota_app_count then Some (s2, ESP_ERR_INVALID_ARG)
         else
           let (s3, ret) = read_selects E find_partition s2 in
           if ret \<noteq> ESP_OK then Some (s3, ret)
           else
             let e0 = s_ota_select0 s3; e1 = s_ota_select1 s3;
                 n = of_nat ota_app_count;
                 c = of_nat ((unat (SUB_TYPE_ID subtype) + 1) mod ota_app_count) in
             if ota_select_valid e0 \<and> ota_select_valid e1 then do {
               i \<leftarrow> advance_i (if ota_seq e0 \<ge> ota_seq e1 then ota_seq e0 else ota_seq e1) c n 0;
               if ota_seq e0 \<ge> ota_seq e1
               then rewrite_ota_seq E (c + i * n) 1 find_partition s3
               else rewrite_ota_seq E (c + i * n) 0 find_partition s3
             }
             else if ota_select_valid e0 then do {
               i \<leftarrow> advance_i (ota_seq e0) c n 0;
               rewrite_ota_seq E (c + i * n) 1 find_partition s3
             }
             else if ota_select_valid e1 then do {
               i \<leftarrow> advance_i (ota_seq e1) c n 0;
               rewrite_ota_seq E (c + i * n) 0 find_partition s3
             }
             else rewrite_ota_seq E (of_nat (unat (SUB_TYPE_ID subtype) + 1)) 0 find_partition s3
       })"

definition esp_ota_set_boot_partition ::
  "'d ota_env \<Rightarrow> esp_partition_t option \<Rightarrow> 'd ota_state \<Rightarrow> ('d ota_state \<times> esp_err_t) option" where
  "esp_ota_set_boot_partition E partition0 s =
    (case partition0 of
       None \<Rightarrow> Some (s, ESP_ERR_INVALID_ARG)
     | Some part \<Rightarrow>
         if esp_image_load E \<lparr>pos_offset = p_address part, pos_size = p_size part\<rparr> (dev s) = None
         then Some (s, ESP_ERR_OTA_VALIDATE_FAILED)
         else if p_type part \<noteq> ESP_PARTITION_TYPE_APP then Some (s, ESP_ERR_INVALID_ARG)
         else
           (case find1 E ESP_PARTITION_TYPE_DATA ESP_PARTITION_SUBTYPE_DATA_OTA s of
              (s1, None) \<Rightarrow> Some (s1, ESP_ERR_NOT_FOUND)
            | (s1, Some find_partition) \<Rightarrow>
                if p_subtype part = ESP_PARTITION_SUBTYPE_APP_FACTORY
                then let (d, ret) = esp_partition_erase_range (rom E) find_partition 0 (p_size find_partition) (dev s1) in
                     Some (s1\<lparr>dev := d\<rparr>, ret)
                else esp_rewrite_ota_data E (p_subtype part) s1))"

fun first_found :: "'d ota_env \<Rightarrow> u8 list \<Rightarrow> ('d, 'z) part_state_scheme \<Rightarrow> ('d, 'z) part_state_scheme \<times> esp_partition_t option" where
  "first_found E [] s = (s, None)"
| "first_found E (st # sts) s =
    (case find1 E ESP_PARTITION_TYPE_APP st s of
       (s1, Some p) \<Rightarrow> (s1, Some p)
     | (s1, None) \<Rightarrow> first_found E sts s1)"

definition ota_subtypes :: "u8 list" where
  "ota_subtypes = map (\<lambda>i. ESP_PARTITION_SUBTYPE_APP_OTA_MIN + of_nat i) [0..<16]"

definition find_default_boot_partition ::
  "'d ota_env \<Rightarrow> ('d, 'z) part_state_scheme \<Rightarrow> ('d, 'z) part_state_scheme \<times> esp_partition_t option" where
  "find_default_boot_partition E s =
    (case find1 E ESP_PARTITION_TYPE_APP ESP_PARTITION_SUBTYPE_APP_FACTORY s of
       (s1, Some p) \<Rightarrow> (s1, Some p)
     | (s1, None) \<Rightarrow>
         (case first_found E ota_subtypes s1 of
            (s2, Some p) \<Rightarrow> (s2, Some p)
          | (s2, None) \<Rightarrow> find1 E ESP_PARTITION_TYPE_APP ESP_PARTITION_SUBTYPE_APP_TEST s2))"

definition esp_ota_get_boot_partition ::
  "'d ota_env \<Rightarrow> 'd ota_state \<Rightarrow> ('d ota_state \<times> esp_partition_t option) option" where
  "esp_ota_get_boot_partition E s =
    (case find1 E ESP_PARTITION_TYPE_DATA ESP_PARTITION_SUBTYPE_DATA_OTA s of
       (s1, None) \<Rightarrow> Some (s1, None)
     | (s1, Some find_partition) \<Rightarrow>
         let (s2, ret) = read_selects E find_partition s1 in
         if ret \<noteq> ESP_OK then Some (s2, None)
         else do {
           (s3, ota_app_count) \<leftarrow> get_ota_partition_count E s2;
           let e0 = s_ota_select0 s3; e1 = s_ota_select1 s3;
               slot = (\<lambda>sq. if ota_app_count = 0 then None
                 else Some (find1 E ESP_PARTITION_TYPE_APP
                   (ESP_PARTITION_SUBTYPE_APP_OTA_MIN + ucast ((sq - 1) mod of_nat ota_app_count)) s3)) in
           if ota_seq e0 = 0xFFFFFFFF \<and> ota_seq e1 = 0xFFFFFFFF then Some (find_default_boot_partition E s3)
           else if ota_select_valid e0 \<and> ota_select_valid e1
           then slot (if ota_seq e0 \<ge> ota_seq e1 then ota_seq e0 else ota_seq e1)
           else if ota_select_valid e0 then slot (ota_seq e0)
           else if ota_select_valid e1 then slot (ota_seq e1)
           else Some (find_default_boot_partition E s3)
         })"

section \<open>The next slot to update\<close>

fun next_update_loop ::
  "'d ota_env \<Rightarrow> esp_partition_t \<Rightarrow> u8 list \<Rightarrow> esp_partition_t option \<Rightarrow> bool \<Rightarrow> ('d, 'z) part_state_scheme
    \<Rightarrow> ('d, 'z) part_state_scheme \<times> esp_partition_t option" where
  "next_update_loop E start_from [] default_ota next_is_result s = (s, default_ota)"
| "next_update_loop E start_from (t # ts) default_ota next_is_result s =
    (case find1 E ESP_PARTITION_TYPE_APP t s of
       (s1, None) \<Rightarrow> next_update_loop E start_from ts default_ota next_is_result s1
     | (s1, Some p) \<Rightarrow>
         let default' = (if default_ota = None then Some p else default_ota) in
         if p = start_from then next_update_loop E start_from ts default' True s1
         else if next_is_result then (s1, Some p)
         else next_update_loop E start_from ts default' next_is_result s1)"

definition esp_ota_get_next_update_partition ::
  "'d ota_env \<Rightarrow> esp_partition_t option \<Rightarrow> ('d, 'z) part_state_scheme \<Rightarrow> (('d, 'z) part_state_scheme \<times> esp_partition_t option) option" where
  "esp_ota_get_next_update_partition E start0 s =
    (let r = (case start0 of
                None \<Rightarrow> map_option (\<lambda>(s1, p). (s1, Some p)) (esp_ota_get_running_partition E s)
              | Some p \<Rightarrow> Some (esp_partition_verify (rom E) (table_addr E) p s)) in
     case r of
       None \<Rightarrow> None
     | Some (s1, None) \<Rightarrow> None
     | Some (s1, Some start_from) \<Rightarrow> Some (next_update_loop E start_from ota_subtypes None False s1))"

section \<open>Which sequence number counts\<close>

text \<open>The choice between the two entries that both sides make, as one function, and the slot it
  stands for among \<open>n\<close>.\<close>

definition selected_seq :: "ota_select \<Rightarrow> ota_select \<Rightarrow> u32 option" where
  "selected_seq e0 e1 =
    (if ota_select_valid e0 \<and> ota_select_valid e1 then Some (max (ota_seq e0) (ota_seq e1))
     else if ota_select_valid e0 then Some (ota_seq e0)
     else if ota_select_valid e1 then Some (ota_seq e1) else None)"

definition boot_slot :: "ota_select \<Rightarrow> ota_select \<Rightarrow> nat \<Rightarrow> nat option" where
  "boot_slot e0 e1 n = map_option (\<lambda>sq. unat (sq - 1) mod n) (selected_seq e0 e1)"

definition ota_select_at :: "mem \<Rightarrow> esp_partition_t \<Rightarrow> nat \<Rightarrow> ota_select" where
  "ota_select_at m p i = decode_ota_select (mem_read m (unat (p_address p) + 4096 * i) 32)"

definition app_slot :: "esp_partition_t list \<Rightarrow> nat \<Rightarrow> esp_partition_t option" where
  "app_slot ps k = List.find (it_matches ESP_PARTITION_TYPE_APP (ESP_PARTITION_SUBTYPE_APP_OTA_MIN + of_nat k) None) ps"

definition ota_data :: "esp_partition_t list \<Rightarrow> esp_partition_t option" where
  "ota_data ps = List.find (it_matches ESP_PARTITION_TYPE_DATA ESP_PARTITION_SUBTYPE_DATA_OTA None) ps"

text \<open>A table with an OTA data partition of two sectors and exactly the slots 0 to \<open>n - 1\<close>.\<close>

definition ota_layout :: "'d ota_env \<Rightarrow> esp_partition_t list \<Rightarrow> esp_partition_t \<Rightarrow> nat \<Rightarrow> bool" where
  "ota_layout E ps od n \<longleftrightarrow> ps \<noteq> [] \<and> ota_data ps = Some od
     \<and> sector_partition (rom E) od \<and> 0x2000 \<le> unat (p_size od)
     \<and> 0 < n \<and> n \<le> 16 \<and> (\<forall>k < n. app_slot ps k \<noteq> None) \<and> app_slot ps n = None
     \<and> select_addr E \<noteq> 0 \<and> select_addr E + 32 \<noteq> 0"

section \<open>Counting and comparing\<close>

lemma find1_loaded:
  "s_partition_list s \<noteq> [] \<Longrightarrow> find1 E ty st s = (s, List.find (it_matches ty st None) (s_partition_list s))"
  by (rule find_first_loaded)

lemma find1_slot:
  "s_partition_list s = ps \<Longrightarrow> ps \<noteq> [] \<Longrightarrow>
    find1 E ESP_PARTITION_TYPE_APP (ESP_PARTITION_SUBTYPE_APP_OTA_MIN + of_nat k) s = (s, app_slot ps k)"
  by (simp add: find1_loaded app_slot_def)

lemma find1_ota_data:
  "s_partition_list s = ps \<Longrightarrow> ps \<noteq> [] \<Longrightarrow>
    find1 E ESP_PARTITION_TYPE_DATA ESP_PARTITION_SUBTYPE_DATA_OTA s = (s, ota_data ps)"
  by (simp add: find1_loaded ota_data_def)

lemma ota_count_from:
  assumes "s_partition_list s = ps" and "ps \<noteq> []" and "\<forall>k < n. app_slot ps k \<noteq> None" and "app_slot ps n = None"
    and "n \<le> 16" and "k \<le> n"
  shows "ota_count_from E k s = Some (s, n)"
  using assms(6)
proof (induction "n - k" arbitrary: k)
  case 0
  then show ?case using assms(4) by (subst ota_count_from.simps) (simp add: find1_slot [OF assms(1,2)])
next
  case (Suc j)
  then have "k < n" by simp
  then obtain p where "app_slot ps k = Some p" using assms(3) by auto
  then show ?case
    using Suc \<open>k < n\<close> assms(5) by (subst ota_count_from.simps) (simp add: find1_slot [OF assms(1,2)])
qed

lemma ota_count:
  "ota_layout E ps od n \<Longrightarrow> s_partition_list s = ps \<Longrightarrow> get_ota_partition_count E s = Some (s, n)"
  unfolding get_ota_partition_count_def ota_layout_def by (intro ota_count_from) auto

text \<open>Without wrap-around the loop stops at the first value of the progression that is not below
  the current sequence number.\<close>

lemma advance_i:
  assumes "0 < unat n" and "unat c < unat n" and "unat sq + unat n < 2 ^ 32"
    and "unat c + unat i * unat n < unat sq + unat n"
  shows "\<exists>j. advance_i sq c n i = Some j \<and> unat (c + j * n) = unat c + unat j * unat n
    \<and> unat sq \<le> unat c + unat j * unat n \<and> unat c + unat j * unat n < unat sq + unat n"
  using assms(4)
proof (induction "unat sq - (unat c + unat i * unat n)" arbitrary: i rule: less_induct)
  case less
  have small: "unat i * unat n < 2 ^ 32" using less.prems assms(3) by linarith
  then have mul: "unat (i * n) = unat i * unat n" by (simp add: unat_word_ariths)
  have val: "unat (c + i * n) = unat c + unat i * unat n"
    using unat_add_no_wrap [of c "i * n"] less.prems assms(3) by (simp add: mul)
  show ?case
  proof (cases "sq > c + i * n")
    case False
    then have "advance_i sq c n i = Some i" by (subst advance_i.simps) simp
    then show ?thesis using False val less.prems by (auto simp: word_less_nat_alt)
  next
    case True
    then have lt: "unat c + unat i * unat n < unat sq" by (simp add: word_less_nat_alt val)
    have "unat i * 1 \<le> unat i * unat n" using assms(1) by (intro mult_le_mono2) simp
    then have "unat i + 1 < 2 ^ 32" using lt assms(3) by linarith
    then have i1: "unat (i + 1) = unat i + 1" by (simp add: unat_word_ariths)
    have nx: "unat (i + 1) * unat n = unat i * unat n + unat n" by (simp add: i1 distrib_right)
    have pre: "unat c + unat (i + 1) * unat n < unat sq + unat n" using lt nx by linarith
    have dec: "unat sq - (unat c + unat (i + 1) * unat n) < unat sq - (unat c + unat i * unat n)"
      using lt nx assms(1) by linarith
    have "advance_i sq c n i = advance_i sq c n (i + 1)" using True by (subst advance_i.simps) simp
    then show ?thesis using less.hyps [OF dec pre] by simp
  qed
qed

text \<open>The sequence number written for slot \<open>k\<close> maps back to \<open>k\<close>.\<close>

lemma seq_slot:
  fixes k n v j :: nat
  assumes "k < n" and "v = (k + 1) mod n + j * n" and "0 < v"
  shows "(v - 1) mod n = k"
proof (cases "k + 1 = n")
  case True
  have v: "v = j * n" using assms(2) by (simp only: True mod_self add_0)
  then obtain j' where j: "j = Suc j'" using assms(3) by (cases j) auto
  have "v - 1 = k + j' * n" using v j True by simp
  then show ?thesis using assms(1) by simp
next
  case False
  then have "v - 1 = k + j * n" using assms(1,2) by simp
  then show ?thesis using assms(1) by simp
qed

section \<open>What rewriting an entry does to the flash\<close>

text \<open>The entry \<^verbatim>\<open>rewrite_ota_seq\<close> prepares in RAM.\<close>

definition fresh_entry :: "u32 \<Rightarrow> ota_select \<Rightarrow> ota_select" where
  "fresh_entry sq e = e\<lparr>ota_seq := sq, ota_crc := ota_select_crc (e\<lparr>ota_seq := sq\<rparr>)\<rparr>"

lemma fresh_entry_simps [simp]:
  "ota_seq (fresh_entry sq e) = sq" "seq_label (fresh_entry sq e) = seq_label e"
  "ota_select_valid (fresh_entry sq e) \<longleftrightarrow> sq \<noteq> 0xFFFFFFFF"
  by (simp_all add: fresh_entry_def ota_select_valid_def ota_select_crc_def)

lemma length_label_at [simp]: "length (seq_label (ota_select_at m p i)) = 24"
  by (simp add: ota_select_at_def)

locale ota_flash = reliable_flash "rom E" cells for E :: "'d ota_env" and cells
begin

lemma read_selects_ok:
  assumes "ota_layout E ps od n"
  shows "read_selects E od s = (s\<lparr>s_ota_select0 := ota_select_at (cells (dev s)) od 0,
      s_ota_select1 := ota_select_at (cells (dev s)) od 1\<rparr>, ESP_OK)"
proof -
  have od: "unat (p_address od) + unat (p_size od) \<le> unat (chip_size (chip (rom E)))" "0x2000 \<le> unat (p_size od)"
    and nz: "select_addr E \<noteq> 0" "select_addr E + 32 \<noteq> 0"
    using assms by (simp_all add: ota_layout_def sector_partition_def)
  have u: "unat (p_address od + 0x1000) = unat (p_address od) + 4096"
    using unat_add_no_wrap [of "p_address od" "0x1000"] od chip_lt by simp
  have "spi_flash_read (rom E) (p_address od) (select_addr E) 32 (dev s) = Inr (mem_read (cells (dev s)) (unat (p_address od)) 32)"
    using od by (intro flash_read_exact nz) simp
  moreover have "spi_flash_read (rom E) (p_address od + 0x1000) (select_addr E + 32) 32 (dev s)
      = Inr (mem_read (cells (dev s)) (unat (p_address od) + 4096) 32)"
    unfolding u [symmetric] using od u by (intro flash_read_exact nz) simp
  ultimately show ?thesis by (simp add: read_selects_def ota_select_at_def)
qed

lemma rewrite_ok:
  assumes lay: "ota_layout E ps od n" and j: "j = 0 \<or> j = 1"
    and e: "e = (if j = 0 then s_ota_select0 s else s_ota_select1 s)" and "length (seq_label e) = 24"
  obtains s' where "rewrite_ota_seq E sq j od s = Some (s', ESP_OK)"
    and "cells (dev s') = mem_write (mem_fill (cells (dev s)) (unat (p_address od) + 4096 * j) 4096 0xff)
            (unat (p_address od) + 4096 * j) (encode_ota_select (fresh_entry sq e))"
    and "s_partition_list s' = s_partition_list s"
proof -
  have od: "sector_partition (rom E) od" "0x2000 \<le> unat (p_size od)"
    and nz: "select_addr E + 32 * of_nat j \<noteq> 0"
    using lay j by (auto simp: ota_layout_def)
  have off: "unat (of_nat j * SPI_FLASH_SEC_SIZE) = 4096 * j" "SPI_FLASH_SEC_SIZE * of_nat j = of_nat j * SPI_FLASH_SEC_SIZE"
    "unat SPI_FLASH_SEC_SIZE = 4096" "SPI_FLASH_SEC_SIZE \<noteq> 0"
    using j by (auto simp: SPI_FLASH_SEC_SIZE_def)
  let ?f = "fresh_entry sq e" and ?s1 = "set_select j (fresh_entry sq e) s"
  have s1: "dev ?s1 = dev s" "s_partition_list ?s1 = s_partition_list s" by (simp_all add: set_select_def)
  obtain d1 where er: "esp_partition_erase_range (rom E) od (of_nat j * SPI_FLASH_SEC_SIZE) SPI_FLASH_SEC_SIZE (dev s) = (d1, ESP_OK)"
    and c1: "cells d1 = mem_fill (cells (dev s)) (unat (p_address od) + 4096 * j) 4096 0xff"
    by (rule partition_erase_ok [OF od(1), of "of_nat j * SPI_FLASH_SEC_SIZE" SPI_FLASH_SEC_SIZE "dev s"])
      (use off od(2) j in auto)
  have len: "length (encode_ota_select ?f) = 32" using assms(4) by simp
  obtain d2 where wr: "esp_partition_write (rom E) od (of_nat j * SPI_FLASH_SEC_SIZE) (select_addr E + 32 * of_nat j)
        (encode_ota_select ?f) d1 = Some (d2, ESP_OK)"
    and c2: "cells d2 = nor_write (cells d1) (unat (p_address od) + 4096 * j) (encode_ota_select ?f)"
    by (rule partition_write_ok [OF od(1) _ nz, of "encode_ota_select ?f" "of_nat j * SPI_FLASH_SEC_SIZE" d1])
      (use off od(2) j len in auto)
  have "cells d2 = mem_write (cells d1) (unat (p_address od) + 4096 * j) (encode_ota_select ?f)"
    unfolding c2 by (rule nor_write_erased) (simp add: len c1 mem_fill_def)
  moreover have "rewrite_ota_seq E sq j od s = Some (?s1\<lparr>dev := d2\<rparr>, ESP_OK)"
    using j e er wr s1 off(2) by (auto simp: rewrite_ota_seq_def Let_def fresh_entry_def)
  ultimately show thesis
    using that [of "?s1\<lparr>dev := d2\<rparr>"] s1 by (simp add: c1)
qed

lemma rewrite_selects:
  assumes lay: "ota_layout E ps od n" and j: "j = 0 \<or> j = 1"
    and e: "e = (if j = 0 then s_ota_select0 s else s_ota_select1 s)" and len: "length (seq_label e) = 24"
  obtains s' where "rewrite_ota_seq E sq j od s = Some (s', ESP_OK)"
    and "ota_select_at (cells (dev s')) od j = fresh_entry sq e"
    and "ota_select_at (cells (dev s')) od (1 - j) = ota_select_at (cells (dev s)) od (1 - j)"
    and "s_partition_list s' = s_partition_list s"
    and "same_outside (unat (p_address od) + 4096 * j) 4096 (cells (dev s)) (cells (dev s'))"
proof -
  obtain s' where run: "rewrite_ota_seq E sq j od s = Some (s', ESP_OK)"
    and c: "cells (dev s') = mem_write (mem_fill (cells (dev s)) (unat (p_address od) + 4096 * j) 4096 0xff)
            (unat (p_address od) + 4096 * j) (encode_ota_select (fresh_entry sq e))"
    and l: "s_partition_list s' = s_partition_list s"
    using rewrite_ok [OF lay j e len] by blast
  let ?f = "encode_ota_select (fresh_entry sq e)"
  have lf: "length ?f = 32" using len by simp
  have "ota_select_at (cells (dev s')) od j = fresh_entry sq e"
    using mem_read_mem_write [of "mem_fill (cells (dev s)) (unat (p_address od) + 4096 * j) 4096 0xff" "unat (p_address od) + 4096 * j" ?f] len lf
    by (simp add: ota_select_at_def c)
  moreover have out: "same_outside (unat (p_address od) + 4096 * j) 4096 (cells (dev s)) (cells (dev s'))"
    using lf by (auto simp: same_outside_def c mem_write_def mem_fill_def)
  moreover have "ota_select_at (cells (dev s')) od (1 - j) = ota_select_at (cells (dev s)) od (1 - j)"
    unfolding ota_select_at_def using j by (subst mem_read_same_outside [OF out]) auto
  ultimately show thesis using that run l by blast
qed

text \<open>One case of \<^verbatim>\<open>esp_rewrite_ota_data\<close>: the newest sequence number is \<open>sq\<close>, the entry
  in sector \<open>j\<close> is overwritten, and the other one is not newer than \<open>sq\<close>.\<close>

lemma advance_rewrite:
  assumes lay: "ota_layout E ps od n" and j: "j = 0 \<or> j = 1" and k: "k < n"
    and sq: "0 < sq" "unat sq + 32 < 2 ^ 32"
    and other: "ota_select_valid (ota_select_at (cells (dev s)) od (1 - j))
        \<Longrightarrow> ota_seq (ota_select_at (cells (dev s)) od (1 - j)) \<le> sq"
    and e: "e = (if j = 0 then s_ota_select0 s else s_ota_select1 s)" and len: "length (seq_label e) = 24"
  obtains i s' where "advance_i sq (of_nat ((k + 1) mod n)) (of_nat n) 0 = Some i"
    and "rewrite_ota_seq E (of_nat ((k + 1) mod n) + i * of_nat n) j od s = Some (s', ESP_OK)"
    and "boot_slot (ota_select_at (cells (dev s')) od 0) (ota_select_at (cells (dev s')) od 1) n = Some k"
    and "s_partition_list s' = s_partition_list s"
    and "same_outside (unat (p_address od) + 4096 * j) 4096 (cells (dev s)) (cells (dev s'))"
proof -
  have n: "0 < n" "n \<le> 16" using lay by (simp_all add: ota_layout_def)
  let ?c = "of_nat ((k + 1) mod n) :: u32" and ?n = "of_nat n :: u32"
  have cn: "(k + 1) mod n < n" using n(1) by simp
  have u: "unat ?c = (k + 1) mod n" "unat ?n = n"
    using n cn by (simp_all add: unat_of_nat_small)
  obtain i where adv: "advance_i sq ?c ?n 0 = Some i"
    and val: "unat (?c + i * ?n) = (k + 1) mod n + unat i * n"
    and ge: "unat sq \<le> (k + 1) mod n + unat i * n" and lt: "(k + 1) mod n + unat i * n < unat sq + n"
    using advance_i [of ?n ?c sq 0, unfolded u] sq n cn by (auto simp: word_less_nat_alt)
  let ?v = "?c + i * ?n"
  have pos: "0 < unat ?v" unfolding val using ge sq(1) unfolding word_less_nat_alt unat_0 by (rule less_le_trans [rotated])
  have nmax: "?v \<noteq> 0xFFFFFFFF" using val lt sq(2) n(2) by auto
  obtain s' where run: "rewrite_ota_seq E ?v j od s = Some (s', ESP_OK)"
    and at: "ota_select_at (cells (dev s')) od j = fresh_entry ?v e"
    and at': "ota_select_at (cells (dev s')) od (1 - j) = ota_select_at (cells (dev s)) od (1 - j)"
    and l: "s_partition_list s' = s_partition_list s"
    and out: "same_outside (unat (p_address od) + 4096 * j) 4096 (cells (dev s)) (cells (dev s'))"
    using rewrite_selects [OF lay j e len] by blast
  have le: "sq \<le> ?v" using ge unfolding word_le_nat_alt val .
  have "selected_seq (ota_select_at (cells (dev s')) od 0) (ota_select_at (cells (dev s')) od 1) = Some ?v"
    using j
  proof
    assume "j = 0"
    then show ?thesis using at at' other nmax le
      by (auto simp: selected_seq_def max_absorb1 max_absorb2)
  next
    assume "j = 1"
    then show ?thesis using at at' other nmax le
      by (auto simp: selected_seq_def max_absorb1 max_absorb2)
  qed
  moreover have "unat (?v - 1) mod n = k"
  proof -
    have "unat (?v - 1) = unat ?v - 1" using pos by (metis unat_minus_one unat_0 less_irrefl)
    then show ?thesis using seq_slot [OF k val pos] by simp
  qed
  ultimately have "boot_slot (ota_select_at (cells (dev s')) od 0) (ota_select_at (cells (dev s')) od 1) n = Some k"
    by (simp add: boot_slot_def)
  then show thesis using that adv run l out by blast
qed

lemma rewrite_data_ok:
  assumes lay: "ota_layout E ps od n" and ps: "s_partition_list s = ps"
    and st: "unat (SUB_TYPE_ID st) = k" "k < n"
    and e0: "e0 = ota_select_at (cells (dev s)) od 0" and e1: "e1 = ota_select_at (cells (dev s)) od 1"
    and seqs: "\<forall>e \<in> {e0, e1}. ota_select_valid e \<longrightarrow> 0 < ota_seq e \<and> unat (ota_seq e) + 32 < 2 ^ 32"
  obtains s' j where "esp_rewrite_ota_data E st s = Some (s', ESP_OK)"
    and "boot_slot (ota_select_at (cells (dev s')) od 0) (ota_select_at (cells (dev s')) od 1) n = Some k"
    and "s_partition_list s' = ps" and "j = 0 \<or> j = 1"
    and "same_outside (unat (p_address od) + 4096 * j) 4096 (cells (dev s)) (cells (dev s'))"
    and "\<And>bad. \<not> ota_select_valid bad \<Longrightarrow>
      selected_seq (if j = 0 then bad else e0) (if j = 0 then e1 else bad) = selected_seq e0 e1"
proof -
  have ne: "ps \<noteq> []" and od: "ota_data ps = Some od" and n: "0 < n" "n \<le> 16"
    using lay by (simp_all add: ota_layout_def)
  let ?s = "s\<lparr>s_ota_select0 := e0, s_ota_select1 := e1\<rparr>"
  let ?c = "of_nat ((k + 1) mod n) :: u32" and ?n = "of_nat n :: u32"
  have lab: "length (seq_label e0) = 24" "length (seq_label e1) = 24" by (simp_all add: e0 e1)
  have run: "esp_rewrite_ota_data E st s =
     (if ota_select_valid e0 \<and> ota_select_valid e1 then do {
         i \<leftarrow> advance_i (if ota_seq e0 \<ge> ota_seq e1 then ota_seq e0 else ota_seq e1) ?c ?n 0;
         if ota_seq e0 \<ge> ota_seq e1 then rewrite_ota_seq E (?c + i * ?n) 1 od ?s
         else rewrite_ota_seq E (?c + i * ?n) 0 od ?s }
      else if ota_select_valid e0 then do { i \<leftarrow> advance_i (ota_seq e0) ?c ?n 0; rewrite_ota_seq E (?c + i * ?n) 1 od ?s }
      else if ota_select_valid e1 then do { i \<leftarrow> advance_i (ota_seq e1) ?c ?n 0; rewrite_ota_seq E (?c + i * ?n) 0 od ?s }
      else rewrite_ota_seq E (of_nat (k + 1)) 0 od ?s)"
    using st by (simp add: esp_rewrite_ota_data_def find1_ota_data [OF ps ne] od ota_count [OF lay ps]
        read_selects_ok [OF lay] e0 e1 Let_def)
  have at: "ota_select_at (cells (dev ?s)) od 0 = e0" "ota_select_at (cells (dev ?s)) od 1 = e1"
    by (simp_all add: e0 e1)
  consider (w1) "ota_select_valid e0" "ota_select_valid e1 \<longrightarrow> ota_seq e0 \<ge> ota_seq e1"
    | (w0) "ota_select_valid e1" "ota_select_valid e0 \<longrightarrow> \<not> ota_seq e0 \<ge> ota_seq e1"
    | (none) "\<not> ota_select_valid e0" "\<not> ota_select_valid e1"
    by auto
  then show thesis
  proof cases
    case w1
    obtain i s' where adv: "advance_i (ota_seq e0) ?c ?n 0 = Some i"
      and rw: "rewrite_ota_seq E (?c + i * ?n) 1 od ?s = Some (s', ESP_OK)"
      and res: "boot_slot (ota_select_at (cells (dev s')) od 0) (ota_select_at (cells (dev s')) od 1) n = Some k"
      "s_partition_list s' = s_partition_list ?s"
      "same_outside (unat (p_address od) + 4096 * 1) 4096 (cells (dev ?s)) (cells (dev s'))"
      by (rule advance_rewrite [OF lay _ st(2), of 1 "ota_seq e0" ?s e1]) (use w1 seqs lab at in auto)
    have "esp_rewrite_ota_data E st s = Some (s', ESP_OK)" using run w1 adv rw by simp
    then show thesis using that [of s' 1] res ps w1 by (auto simp: selected_seq_def max_absorb1)
  next
    case w0
    obtain i s' where adv: "advance_i (ota_seq e1) ?c ?n 0 = Some i"
      and rw: "rewrite_ota_seq E (?c + i * ?n) 0 od ?s = Some (s', ESP_OK)"
      and res: "boot_slot (ota_select_at (cells (dev s')) od 0) (ota_select_at (cells (dev s')) od 1) n = Some k"
      "s_partition_list s' = s_partition_list ?s"
      "same_outside (unat (p_address od) + 4096 * 0) 4096 (cells (dev ?s)) (cells (dev s'))"
      by (rule advance_rewrite [OF lay _ st(2), of 0 "ota_seq e1" ?s e0]) (use w0 seqs lab at in auto)
    have "esp_rewrite_ota_data E st s = Some (s', ESP_OK)" using run w0 adv rw by simp
    then show thesis using that [of s' 0] res ps w0 by (auto simp: selected_seq_def max_absorb2)
  next
    case none
    obtain s' where rw: "rewrite_ota_seq E (of_nat (k + 1)) 0 od ?s = Some (s', ESP_OK)"
      and at': "ota_select_at (cells (dev s')) od 0 = fresh_entry (of_nat (k + 1)) e0"
        "ota_select_at (cells (dev s')) od (1 - 0) = ota_select_at (cells (dev ?s)) od (1 - 0)"
      and res: "s_partition_list s' = s_partition_list ?s"
      "same_outside (unat (p_address od) + 4096 * 0) 4096 (cells (dev ?s)) (cells (dev s'))"
      by (rule rewrite_selects [OF lay, of 0 e0 ?s "of_nat (k + 1)"]) (use lab in auto)
    have k: "unat (of_nat (k + 1) :: u32) = k + 1" using st n by (simp add: unat_of_nat_small del: of_nat_add of_nat_Suc)
    then have "(of_nat (k + 1) :: u32) \<noteq> 0xFFFFFFFF" using st n by auto
    then have "selected_seq (ota_select_at (cells (dev s')) od 0) (ota_select_at (cells (dev s')) od 1) = Some (of_nat (k + 1))"
      using at' none at by (simp add: selected_seq_def del: of_nat_add of_nat_Suc)
    then have "boot_slot (ota_select_at (cells (dev s')) od 0) (ota_select_at (cells (dev s')) od 1) n = Some k"
      using st n by (simp add: boot_slot_def unat_of_nat_small)
    then show thesis using that [of s' 0] run none rw res ps by (auto simp: selected_seq_def)
  qed
qed

end

section \<open>Reading the selection back\<close>

lemma unat_sub_type_id: "unat (SUB_TYPE_ID st) = unat st mod 16"
proof -
  have "(0x0F :: u8) = mask 4" by (simp add: mask_eq_exp_minus_1)
  then show ?thesis unfolding SUB_TYPE_ID_def by (simp only: unat_and_mask) simp
qed

lemma app_slot_subtype:
  assumes "app_slot ps k = Some p" and "k < 16"
  shows "p_type p = ESP_PARTITION_TYPE_APP" and "p_subtype p = ESP_PARTITION_SUBTYPE_APP_OTA_MIN + of_nat k"
    and "unat (SUB_TYPE_ID (p_subtype p)) = k" and "p_subtype p \<noteq> ESP_PARTITION_SUBTYPE_APP_FACTORY"
    and "p \<in> set ps"
proof -
  let ?st = "ESP_PARTITION_SUBTYPE_APP_OTA_MIN + of_nat k :: u8"
  have u: "unat ?st = 16 + k"
    using assms(2) unat_add_no_wrap [of "0x10 :: u8" "of_nat k"]
    by (simp add: ESP_PARTITION_SUBTYPE_APP_OTA_MIN_def unat_of_nat_small)
  have m: "it_matches ESP_PARTITION_TYPE_APP ?st None p" "p \<in> set ps"
    using assms(1) by (auto simp: app_slot_def find_Some_iff)
  have "?st \<noteq> 0xff" using u assms(2) by auto
  then show st: "p_subtype p = ?st" "p_type p = ESP_PARTITION_TYPE_APP" "p \<in> set ps"
    using m by (auto simp: it_matches_def)
  show "unat (SUB_TYPE_ID (p_subtype p)) = k" using assms(2) by (simp add: unat_sub_type_id st(1) u)
  show "p_subtype p \<noteq> ESP_PARTITION_SUBTYPE_APP_FACTORY"
    using u unfolding st(1) ESP_PARTITION_SUBTYPE_APP_FACTORY_def by (metis add_is_0 unat_0 zero_neq_numeral)
qed

lemma slot_index:
  fixes sq :: u32
  assumes "0 < n" and "n \<le> 16"
  shows "(ucast ((sq - 1) mod of_nat n) :: u8) = of_nat (unat (sq - 1) mod n)"
proof -
  have n: "unat (of_nat n :: u32) = n" using assms(2) by (simp add: unat_of_nat_small)
  have "unat ((sq - 1) mod of_nat n) = unat (sq - 1) mod n" by (simp only: unat_mod n)
  moreover have "(ucast ((sq - 1) mod of_nat n) :: u8) = of_nat (unat ((sq - 1) mod of_nat n))" by simp
  ultimately show ?thesis by (simp only:)
qed

lemma first_found_loaded:
  assumes "s_partition_list s \<noteq> []"
  shows "fst (first_found E sts s) = s"
    and "snd (first_found E sts s) = (case List.find (\<lambda>st. List.find (it_matches ESP_PARTITION_TYPE_APP st None) (s_partition_list s) \<noteq> None) sts of
           None \<Rightarrow> None | Some st \<Rightarrow> List.find (it_matches ESP_PARTITION_TYPE_APP st None) (s_partition_list s))"
  by (induction sts) (auto simp: find1_loaded [OF assms] split: option.splits)

lemma default_state:
  "s_partition_list s \<noteq> [] \<Longrightarrow> fst (find_default_boot_partition E s) = s"
  using first_found_loaded(1) [of s E ota_subtypes]
  by (auto simp: find_default_boot_partition_def find1_loaded split: option.splits prod.splits)

context ota_flash begin

lemma get_boot_ok:
  assumes lay: "ota_layout E ps od n" and ps: "s_partition_list s = ps"
    and e0: "e0 = ota_select_at (cells (dev s)) od 0" and e1: "e1 = ota_select_at (cells (dev s)) od 1"
  defines "s' \<equiv> s\<lparr>s_ota_select0 := e0, s_ota_select1 := e1\<rparr>"
  shows "esp_ota_get_boot_partition E s = Some (s', case boot_slot e0 e1 n of
      None \<Rightarrow> snd (find_default_boot_partition E s') | Some k \<Rightarrow> app_slot ps k)"
proof -
  have ne: "ps \<noteq> []" and od: "ota_data ps = Some od" and n: "0 < n" "n \<le> 16"
    using lay by (simp_all add: ota_layout_def)
  have s': "s_partition_list s' = ps" "s_ota_select0 s' = e0" "s_ota_select1 s' = e1" by (simp_all add: s'_def ps)
  have rd: "read_selects E od s = (s', ESP_OK)" by (simp add: read_selects_ok [OF lay] s'_def e0 e1)
  have slot: "find1 E ESP_PARTITION_TYPE_APP (ESP_PARTITION_SUBTYPE_APP_OTA_MIN + ucast ((sq - 1) mod of_nat n)) s'
      = (s', app_slot ps (unat (sq - 1) mod n))" for sq :: u32
    unfolding slot_index [OF n] by (rule find1_slot [OF s'(1) ne])
  have dflt: "find_default_boot_partition E s' = (s', snd (find_default_boot_partition E s'))"
    using default_state [of s' E] s'(1) ne by (metis prod.collapse)
  have mx: "(if ota_seq e0 \<ge> ota_seq e1 then ota_seq e0 else ota_seq e1) = max (ota_seq e0) (ota_seq e1)"
    using linear [of "ota_seq e0" "ota_seq e1"] by (auto simp: max_def)
  show ?thesis
  proof (cases "ota_seq e0 = 0xFFFFFFFF \<and> ota_seq e1 = 0xFFFFFFFF")
    case True
    then have "selected_seq e0 e1 = None" by (simp add: selected_seq_def ota_select_valid_def)
    then show ?thesis using True dflt
      by (simp add: esp_ota_get_boot_partition_def find1_ota_data [OF ps ne] od rd ota_count [OF lay s'(1)] s' boot_slot_def)
  next
    case False
    then show ?thesis using dflt n(1) slot mx
      by (auto simp: esp_ota_get_boot_partition_def find1_ota_data [OF ps ne] od rd ota_count [OF lay s'(1)] s' Let_def
          boot_slot_def selected_seq_def)
  qed
qed

lemma set_boot_ok:
  assumes lay: "ota_layout E ps od n" and ps: "s_partition_list s = ps"
    and img: "esp_image_load E \<lparr>pos_offset = p_address p, pos_size = p_size p\<rparr> (dev s) \<noteq> None"
    and p: "p_type p = ESP_PARTITION_TYPE_APP" "p_subtype p \<noteq> ESP_PARTITION_SUBTYPE_APP_FACTORY"
  shows "esp_ota_set_boot_partition E (Some p) s = esp_rewrite_ota_data E (p_subtype p) s"
proof -
  have ne: "ps \<noteq> []" and od: "ota_data ps = Some od" using lay by (simp_all add: ota_layout_def)
  show ?thesis
    using img p by (auto simp: esp_ota_set_boot_partition_def find1_ota_data [OF ps ne] od)
qed

end

section \<open>The running image is safe\<close>

text \<open>The partition the running code lies in, as the search finds it in the table.\<close>

definition running_in :: "'d ota_env \<Rightarrow> esp_partition_t list \<Rightarrow> esp_partition_t option" where
  "running_in E ps =
    (let phys_offs = spi_flash_cache2phys (cache_flash_ctrl E) (running_addr E) in
     if phys_offs = SPI_FLASH_CACHE2PHYS_FAIL then None
     else List.find (\<lambda>p. p_address p \<le> phys_offs \<and> p_address p + p_size p > phys_offs)
            (filter (it_matches ESP_PARTITION_TYPE_APP ESP_PARTITION_SUBTYPE_ANY None) ps))"

lemma running_loaded:
  assumes "s_partition_list s = ps" and "ps \<noteq> []"
  shows "esp_ota_get_running_partition E s = map_option (\<lambda>p. (s, p)) (running_in E ps)"
proof -
  let ?it = "iterator_create ESP_PARTITION_TYPE_APP ESP_PARTITION_SUBTYPE_ANY None s"
  have find: "esp_partition_find (rom E) (table_addr E) ESP_PARTITION_TYPE_APP ESP_PARTITION_SUBTYPE_ANY None s
      = (s, esp_partition_next ?it)"
    using assms by (simp add: esp_partition_find_def)
  have "iterate_until P (esp_partition_next ?it)
      = List.find P (filter (it_matches ESP_PARTITION_TYPE_APP ESP_PARTITION_SUBTYPE_ANY None) ps)" for P
    by (simp add: iterate_until_next iterator_create_def assms(1))
  then show ?thesis
    by (cases "esp_partition_next ?it")
      (simp_all add: esp_ota_get_running_partition_def running_in_def find Let_def split: option.split)
qed

text \<open>A table for updates, on a chip with 24-bit addresses: every OTA slot is a non-empty sector
  partition, and distinct entries do not overlap.\<close>

definition part_range :: "esp_partition_t \<Rightarrow> nat set" where
  "part_range p = {unat (p_address p) ..< unat (p_address p) + unat (p_size p)}"

definition update_table :: "'d ota_env \<Rightarrow> esp_partition_t list \<Rightarrow> bool" where
  "update_table E ps \<longleftrightarrow> ps \<noteq> [] \<and> chip_size (chip (rom E)) \<le> 0x1000000
     \<and> (\<forall>p \<in> set ps. is_ota_partition p \<longrightarrow> sector_partition (rom E) p \<and> p_size p \<noteq> 0)
     \<and> (\<forall>p \<in> set ps. \<forall>q \<in> set ps. p \<noteq> q \<longrightarrow> part_range p \<inter> part_range q = {})"

text \<open>What every reachable state keeps: the table, and that an open handle names an OTA slot that is
  not the running partition and is never written beyond its end.\<close>

definition handle_ok :: "esp_partition_t list \<Rightarrow> esp_partition_t \<Rightarrow> ota_ops_entry_t \<Rightarrow> bool" where
  "handle_ok ps run e \<longleftrightarrow> ota_part e \<in> set ps \<and> is_ota_partition (ota_part e) \<and> ota_part e \<noteq> run
     \<and> unat (wrote_size e) \<le> unat (p_size (ota_part e)) \<and> erased_size e \<noteq> 0 \<and> partial_bytes e = 0"

definition update_inv :: "'d ota_env \<Rightarrow> esp_partition_t list \<Rightarrow> esp_partition_t \<Rightarrow> 'd ota_state \<Rightarrow> bool" where
  "update_inv E ps run s \<longleftrightarrow> s_partition_list s = ps
     \<and> (\<forall>e \<in> set (s_ota_ops_entries s). handle_ok ps run e)"

definition part_kept :: "esp_partition_t \<Rightarrow> mem \<Rightarrow> mem \<Rightarrow> bool" where
  "part_kept p m m' \<longleftrightarrow> (\<forall>i \<in> part_range p. m' i = m i)"

lemma part_kept_refl [simp, intro]: "part_kept p m m"
  by (simp add: part_kept_def)

lemma part_kept_trans: "part_kept p m m' \<Longrightarrow> part_kept p m' m'' \<Longrightarrow> part_kept p m m''"
  by (simp add: part_kept_def)

lemma part_kept_other:
  assumes "same_outside (unat (p_address q)) (unat (p_size q)) m m'" and "part_range q \<inter> part_range p = {}"
  shows "part_kept p m m'"
  using assms by (auto simp: part_kept_def same_outside_def part_range_def disjoint_iff)

text \<open>The three calls of an update, when they return. An image size of 0xFFFFF000 or more other than \<^verbatim>\<open>OTA_SIZE_UNKNOWN\<close> is excluded: its
  rounding wraps; and so are writes of more than 64 KiB: see \<open>spi_flash_write_large_never_ok\<close>.\<close>

inductive ota_step :: "'d ota_env \<Rightarrow> 'd ota_state \<Rightarrow> 'd ota_state \<Rightarrow> bool" for E where
  begin_step: "esp_ota_begin E p image_size given s = Some (s', r)
     \<Longrightarrow> image_size = OTA_SIZE_UNKNOWN \<or> image_size < 0xFFFFF000 \<Longrightarrow> ota_step E s s'"
| write_step: "esp_ota_write E h src bytes s = Some (s', ret) \<Longrightarrow> length bytes \<le> 65536 \<Longrightarrow> ota_step E s s'"
| end_step: "esp_ota_end E h s = Some (s', ret) \<Longrightarrow> ota_step E s s'"

inductive_cases ota_stepE: "ota_step E s s'"

lemma verify_in_table:
  assumes "s_partition_list s = ps" "ps \<noteq> []" and "esp_partition_verify R t p s = (s1, Some q)"
  shows "s1 = s" and "q \<in> set ps"
  using assms by (auto simp: verify_loaded find_Some_iff dest: nth_mem)

lemma erase_length_nonzero:
  assumes "image_size < 0xFFFFF000"
  shows "(image_size div SPI_FLASH_SEC_SIZE + 1) * SPI_FLASH_SEC_SIZE \<noteq> (0 :: u32)"
proof -
  have lt: "unat image_size < 0xFFFFF000" using assms by (simp add: word_less_nat_alt)
  have d: "unat (image_size div SPI_FLASH_SEC_SIZE) = unat image_size div 4096"
    by (simp add: SPI_FLASH_SEC_SIZE_def unat_div)
  have q: "unat image_size div 4096 < 0xFFFFF"
    using lt by (simp add: div_less_iff_less_mult)
  then have "unat (image_size div SPI_FLASH_SEC_SIZE + 1) = unat image_size div 4096 + 1"
    using unat_add_no_wrap [of "image_size div SPI_FLASH_SEC_SIZE" 1] d by simp
  then have "unat ((image_size div SPI_FLASH_SEC_SIZE + 1) * SPI_FLASH_SEC_SIZE) = (unat image_size div 4096 + 1) * 4096"
    using q by (simp add: unat_word_ariths SPI_FLASH_SEC_SIZE_def)
  then show ?thesis by (metis add_is_0 mult_is_0 unat_0 zero_neq_numeral zero_neq_one)
qed

locale ota_nor = nor_flash "rom E" cells for E :: "'d ota_env" and cells
begin

lemma begin_inv:
  assumes tab: "update_table E ps" and inv: "update_inv E ps run s" and run: "running_in E ps = Some run" "run \<in> set ps"
    and call: "esp_ota_begin E p image_size given s = Some (s', r)"
    and sz: "image_size = OTA_SIZE_UNKNOWN \<or> image_size < 0xFFFFF000"
  shows "update_inv E ps run s' \<and> part_kept run (cells (dev s)) (cells (dev s'))"
proof -
  have ps: "s_partition_list s = ps" "ps \<noteq> []" using tab inv by (simp_all add: update_table_def update_inv_def)
  have rp: "esp_ota_get_running_partition E s = Some (s, run)" using running_loaded [OF ps] run by simp
  show ?thesis
  proof (cases "p = None \<or> \<not> given")
    case True
    then show ?thesis using call inv by (auto simp: esp_ota_begin_def)
  next
    case False
    obtain s1 v where ver: "esp_partition_verify (rom E) (table_addr E) (the p) s = (s1, v)" by fastforce
    show ?thesis
    proof (cases v)
      case None
      then have "s' = s" using call False ver verify_loaded [of s "rom E" "table_addr E" "the p"] ps
        by (auto simp: esp_ota_begin_def)
      then show ?thesis using inv by simp
    next
      case (Some part)
      have s1: "s1 = s" and mem: "part \<in> set ps" using verify_in_table [OF ps] ver Some by blast+
      show ?thesis
      proof (cases "is_ota_partition part \<and> part \<noteq> run")
        case False
        then have "s' = s" using call ver Some s1 rp \<open>\<not> (p = None \<or> \<not> given)\<close>
          by (auto simp: esp_ota_begin_def split: if_splits)
        then show ?thesis using inv by simp
      next
        case True
        have sec: "sector_partition (rom E) part" "p_size part \<noteq> 0" using tab mem True by (auto simp: update_table_def)
        have dis: "part_range part \<inter> part_range run = {}" using tab mem run(2) True by (auto simp: update_table_def)
        let ?whole = "image_size = 0 \<or> image_size = OTA_SIZE_UNKNOWN"
        define n where "n = (if ?whole then p_size part else (image_size div SPI_FLASH_SEC_SIZE + 1) * SPI_FLASH_SEC_SIZE)"
        have nz: "n \<noteq> 0" using sec(2) erase_length_nonzero sz by (auto simp: n_def)
        obtain d ret where er: "esp_partition_erase_range (rom E) part 0 n (dev s) = (d, ret)" by fastforce
        have "unat n < 2 ^ LENGTH(32)" by (rule unsigned_less)
        then have out: "same_outside (unat (p_address part)) (unat (p_size part)) (cells (dev s)) (cells d)"
          using partition_erase(1) [OF sec(1) _ nz er] by simp
        have kept: "part_kept run (cells (dev s)) (cells d)" by (rule part_kept_other [OF out dis])
        have "dev s' = d \<and> s_partition_list s' = ps \<and> (\<forall>e \<in> set (s_ota_ops_entries s'). e \<in> set (s_ota_ops_entries s)
            \<or> ota_part e = part \<and> wrote_size e = 0 \<and> partial_bytes e = 0
              \<and> erased_size e = (if ?whole then p_size part else image_size))"
          using call ver Some s1 rp True er ps(1) \<open>\<not> (p = None \<or> \<not> given)\<close>
          by (auto simp: esp_ota_begin_def Let_def n_def split: if_splits)
        moreover have "(if ?whole then p_size part else image_size) \<noteq> 0" using sec(2) by auto
        ultimately show ?thesis using inv kept mem True by (fastforce simp: update_inv_def handle_ok_def)
      qed
    qed
  qed
qed

lemma write_inv:
  assumes tab: "update_table E ps" and inv: "update_inv E ps run s" and run: "run \<in> set ps"
    and call: "esp_ota_write E h src bytes s = Some (s', ret)" and len: "length bytes \<le> 65536"
  shows "update_inv E ps run s' \<and> part_kept run (cells (dev s)) (cells (dev s'))"
proof -
  let ?es = "s_ota_ops_entries s" and ?i = "find_entry h (s_ota_ops_entries s)"
  show ?thesis
  proof (cases "src \<noteq> 0 \<and> ?i < length ?es \<and> \<not> (wrote_size (?es ! ?i) = 0 \<and> bytes \<noteq> [] \<and> bytes ! 0 \<noteq> 0xE9)")
    case False
    then have "s' = s" using call by (auto simp: esp_ota_write_def Let_def split: if_splits)
    then show ?thesis using inv by simp
  next
    case True
    let ?it = "?es ! ?i"
    have it: "?it \<in> set ?es" using True by simp
    have ip: "ota_part ?it \<in> set ps" "is_ota_partition (ota_part ?it)" "ota_part ?it \<noteq> run"
      "unat (wrote_size ?it) \<le> unat (p_size (ota_part ?it))" "erased_size ?it \<noteq> 0" "partial_bytes ?it = 0"
      using inv it by (auto simp: update_inv_def handle_ok_def)
    have sec: "sector_partition (rom E) (ota_part ?it)" using tab ip(1,2) by (auto simp: update_table_def)
    have dis: "part_range (ota_part ?it) \<inter> part_range run = {}" using tab ip(1,3) run by (auto simp: update_table_def)
    have "unat (wrote_size ?it) \<le> 0x1000000"
      using ip(4) sec tab by (auto simp: sector_partition_def update_table_def word_le_nat_alt)
    then have lt: "unat (wrote_size ?it) + length bytes < 2 ^ 32" using len by simp
    obtain d r where w: "esp_partition_write (rom E) (ota_part ?it) (wrote_size ?it) src bytes (dev s) = Some (d, r)"
      and out: "same_outside (unat (p_address (ota_part ?it))) (unat (p_size (ota_part ?it))) (cells (dev s)) (cells d)"
      and ok: "r = ESP_OK \<Longrightarrow> unat (wrote_size ?it) + length bytes \<le> unat (p_size (ota_part ?it))"
      using partition_write [OF sec lt len, of src "dev s"] by blast
    have kept: "part_kept run (cells (dev s)) (cells d)" by (rule part_kept_other [OF out dis])
    have adv: "unat (wrote_size ?it + of_nat (length bytes)) = unat (wrote_size ?it) + length bytes"
      using unat_add_no_wrap [of "wrote_size ?it" "of_nat (length bytes)"] lt len by (simp add: unat_of_nat_small)
    have s': "s' = (if r = ESP_OK
        then s\<lparr>dev := d, s_ota_ops_entries := ?es[?i := ?it\<lparr>wrote_size := wrote_size ?it + of_nat (length bytes)\<rparr>]\<rparr>
        else s\<lparr>dev := d\<rparr>)"
      using call True w ip(5) by (auto simp: esp_ota_write_def Let_def split: if_splits)
    show ?thesis
    proof (cases "r = ESP_OK")
      case False
      then show ?thesis using s' inv kept by (simp add: update_inv_def)
    next
      case rok: True
      have "handle_ok ps run (?it\<lparr>wrote_size := wrote_size ?it + of_nat (length bytes)\<rparr>)"
        using ip adv ok [OF rok] by (simp add: handle_ok_def)
      then have "\<forall>e \<in> set (?es[?i := ?it\<lparr>wrote_size := wrote_size ?it + of_nat (length bytes)\<rparr>]). handle_ok ps run e"
        using inv set_update_subset_insert [of ?es ?i "?it\<lparr>wrote_size := wrote_size ?it + of_nat (length bytes)\<rparr>"]
        by (auto simp: update_inv_def)
      then show ?thesis using s' rok inv kept by (simp add: update_inv_def)
    qed
  qed
qed

lemma end_inv:
  assumes inv: "update_inv E ps run s" and call: "esp_ota_end E h s = Some (s', ret)"
  shows "update_inv E ps run s' \<and> part_kept run (cells (dev s)) (cells (dev s'))"
proof -
  let ?es = "s_ota_ops_entries s" and ?i = "find_entry h (s_ota_ops_entries s)"
  show ?thesis
  proof (cases "?i < length ?es")
    case False
    then show ?thesis using call inv by (auto simp: esp_ota_end_def Let_def)
  next
    case True
    have pb: "\<not> partial_bytes (?es ! ?i) > 0" using inv nth_mem [OF True] by (auto simp: update_inv_def handle_ok_def)
    have "s' = s\<lparr>s_ota_ops_entries := take ?i ?es @ drop (Suc ?i) ?es\<rparr>"
      using call True pb
      by (auto simp: esp_ota_end_def Let_def split: if_splits option.splits)
    then show ?thesis using inv by (auto simp: update_inv_def dest: in_set_takeD in_set_dropD)
  qed
qed

lemma step_inv:
  assumes "ota_step E s s'" and "update_table E ps" and "update_inv E ps run s" and "running_in E ps = Some run"
  shows "update_inv E ps run s' \<and> part_kept run (cells (dev s)) (cells (dev s'))"
proof -
  have run: "run \<in> set ps"
    using assms(4) by (auto simp: running_in_def Let_def find_Some_iff split: if_splits dest: nth_mem)
  show ?thesis
    using assms(1)
    by (rule ota_stepE) (use begin_inv [OF assms(2-4) run] write_inv [OF assms(2,3) run] end_inv [OF assms(3)] in blast)+
qed

lemma steps_inv:
  assumes "(ota_step E)\<^sup>*\<^sup>* s s'" and "update_table E ps" and "update_inv E ps run s" and "running_in E ps = Some run"
  shows "update_inv E ps run s' \<and> part_kept run (cells (dev s)) (cells (dev s'))"
  using assms(1)
proof (induction rule: rtranclp_induct)
  case base
  then show ?case using assms(3) by simp
next
  case (step t u)
  then show ?case using step_inv [OF step.hyps(2) assms(2) _ assms(4)] part_kept_trans by blast
qed

end

section \<open>The slot after a given one\<close>

definition ota_slots :: "esp_partition_t list \<Rightarrow> esp_partition_t list" where
  "ota_slots ps = List.map_filter (app_slot ps) [0..<16]"

text \<open>The element behind \<open>x\<close>, the first one when there is none.\<close>

definition next_cyclic :: "'a \<Rightarrow> 'a list \<Rightarrow> 'a option" where
  "next_cyclic x xs = (case dropWhile (\<lambda>y. y \<noteq> x) xs of _ # y # _ \<Rightarrow> Some y | _ \<Rightarrow> (case xs of [] \<Rightarrow> None | z # _ \<Rightarrow> Some z))"

lemma next_loop_after:
  assumes "s_partition_list s = ps" "ps \<noteq> []" and "start \<notin> set (List.map_filter (app_slot ps) ks)" "dflt \<noteq> None"
  shows "next_update_loop E start (map (\<lambda>i. ESP_PARTITION_SUBTYPE_APP_OTA_MIN + of_nat i) ks) dflt True s
    = (s, case List.map_filter (app_slot ps) ks of [] \<Rightarrow> dflt | y # _ \<Rightarrow> Some y)"
  using assms(3)
proof (induction ks)
  case Nil
  then show ?case by (simp add: map_filter_simps)
next
  case (Cons k ks)
  then show ?case
    using assms(4) by (auto simp: find1_slot [OF assms(1,2)] map_filter_simps split: option.splits)
qed

fun next_from :: "'a \<Rightarrow> 'a list \<Rightarrow> 'a option \<Rightarrow> 'a option" where
  "next_from x [] d = d"
| "next_from x (p # rest) d =
    (if p = x then (case rest of [] \<Rightarrow> (if d = None then Some p else d) | y # _ \<Rightarrow> Some y)
     else next_from x rest (if d = None then Some p else d))"

lemma next_from_Some:
  "next_from x xs (Some d) = (case dropWhile (\<lambda>y. y \<noteq> x) xs of _ # y # _ \<Rightarrow> Some y | _ \<Rightarrow> Some d)"
  by (induction xs) (simp_all split: list.split)

lemma next_from_cyclic: "next_from x xs None = next_cyclic x xs"
proof (cases xs)
  case (Cons a list)
  then show ?thesis
  proof (cases "a = x")
    case False
    have "next_from x xs None = next_from x list (Some a)" using Cons False by simp
    also have "\<dots> = (case dropWhile (\<lambda>y. y \<noteq> x) xs of _ # y # _ \<Rightarrow> Some y | _ \<Rightarrow> Some a)"
      using Cons False by (simp add: next_from_Some)
    finally show ?thesis unfolding next_cyclic_def using Cons by (simp only: list.case)
  qed (simp add: next_cyclic_def split: list.split)
qed (simp add: next_cyclic_def)

lemma next_loop_before:
  assumes "s_partition_list s = ps" "ps \<noteq> []" and "distinct (List.map_filter (app_slot ps) ks)"
  shows "next_update_loop E start (map (\<lambda>i. ESP_PARTITION_SUBTYPE_APP_OTA_MIN + of_nat i) ks) dflt False s
    = (s, next_from start (List.map_filter (app_slot ps) ks) dflt)"
  using assms(3)
proof (induction ks arbitrary: dflt)
  case Nil
  then show ?case by (simp add: map_filter_simps)
next
  case (Cons k ks)
  show ?case
  proof (cases "app_slot ps k")
    case None
    then show ?thesis using Cons by (simp add: find1_slot [OF assms(1,2)] map_filter_simps)
  next
    case (Some p)
    let ?d = "if dflt = None then Some p else dflt"
    have d: "distinct (List.map_filter (app_slot ps) ks)" "p \<notin> set (List.map_filter (app_slot ps) ks)"
      using Cons.prems Some by (simp_all add: map_filter_simps)
    show ?thesis
    proof (cases "p = start")
      case True
      then have "next_update_loop E start (map (\<lambda>i. ESP_PARTITION_SUBTYPE_APP_OTA_MIN + of_nat i) (k # ks)) dflt False s
          = next_update_loop E start (map (\<lambda>i. ESP_PARTITION_SUBTYPE_APP_OTA_MIN + of_nat i) ks) ?d True s"
        using Some by (simp add: find1_slot [OF assms(1,2)])
      also have "\<dots> = (s, case List.map_filter (app_slot ps) ks of [] \<Rightarrow> ?d | y # _ \<Rightarrow> Some y)"
        by (rule next_loop_after [OF assms(1,2)]) (use d(2) True in auto)
      finally show ?thesis using Some True by (cases dflt) (auto simp: map_filter_simps)
    next
      case False
      then have "next_update_loop E start (map (\<lambda>i. ESP_PARTITION_SUBTYPE_APP_OTA_MIN + of_nat i) (k # ks)) dflt False s
          = next_update_loop E start (map (\<lambda>i. ESP_PARTITION_SUBTYPE_APP_OTA_MIN + of_nat i) ks) ?d False s"
        using Some by (simp add: find1_slot [OF assms(1,2)])
      then show ?thesis using Cons.IH [OF d(1), of ?d] Some False by (simp add: map_filter_simps)
    qed
  qed
qed

lemma distinct_slots: "distinct (ota_slots ps)"
proof -
  have "distinct (List.map_filter (app_slot ps) ks)" if "distinct ks" "set ks \<subseteq> {..<16}" for ks
    using that
  proof (induction ks)
    case Nil
    then show ?case by (simp add: map_filter_simps)
  next
    case (Cons k ks)
    have "p \<notin> set (List.map_filter (app_slot ps) ks)" if p: "app_slot ps k = Some p" for p
    proof
      assume "p \<in> set (List.map_filter (app_slot ps) ks)"
      then obtain j where j: "j \<in> set ks" "app_slot ps j = Some p" by (auto simp: map_filter_def)
      then have "j = k"
        using app_slot_subtype(3) [OF p] app_slot_subtype(3) [OF j(2)] Cons.prems(2) by auto
      then show False using j(1) Cons.prems(1) by simp
    qed
    then show ?case using Cons by (auto simp: map_filter_simps split: option.splits)
  qed
  then show ?thesis unfolding ota_slots_def by (metis atLeastLessThan_upt distinct_upt lessThan_atLeast0 set_upt subset_refl)
qed

lemma next_update_loaded:
  assumes "s_partition_list s = ps" "ps \<noteq> []"
  shows "next_update_loop E start ota_subtypes None False s = (s, next_cyclic start (ota_slots ps))"
  using next_loop_before [OF assms, of "[0..<16]" E start None] distinct_slots [of ps]
  unfolding ota_subtypes_def ota_slots_def next_from_cyclic by simp

section \<open>An example device\<close>

definition example_env :: "mem ota_env" where
  "example_env = \<lparr>rom = nor_chip 0x100000, table_addr = 0x8000, esp_image_load = (\<lambda>pos d. Some 0x40210100),
     cache_flash_ctrl = 0, running_addr = 0x40210100, calloc_ok = True, boot_copy_app = False, select_addr = 0x3FFE8000\<rparr>"

definition example_parts :: "esp_partition_t list" where
  "example_parts = map partition_of_info example_table"

definition example_state :: "mem ota_state" where
  "example_state = \<lparr>dev = (\<lambda>_. 0xff), s_partition_list = example_parts, s_ota_ops_entries = [], s_ota_ops_last_handle = 0,
     s_ota_select0 = \<lparr>ota_seq = 0, seq_label = [], ota_crc = 0\<rparr>, s_ota_select1 = \<lparr>ota_seq = 0, seq_label = [], ota_crc = 0\<rparr>\<rparr>"

interpretation example_ota: ota_flash example_env "\<lambda>d. d"
  unfolding ota_flash_def using chip1M.reliable_flash_axioms by (simp add: example_env_def)

interpretation example_nor: ota_nor example_env "\<lambda>d. d"
  unfolding ota_nor_def using chip1M.nor_flash_axioms by (simp add: example_env_def)

lemmas example_simps = example_env_def example_parts_def example_state_def example_table_def example_info_def
  partition_of_info_def it_matches_def app_slot_def ota_data_def ESP_PARTITION_TYPE_APP_def ESP_PARTITION_TYPE_DATA_def
  ESP_PARTITION_SUBTYPE_APP_OTA_MIN_def ESP_PARTITION_SUBTYPE_DATA_OTA_def ESP_PARTITION_SUBTYPE_APP_OTA_MAX_def
  ESP_PARTITION_SUBTYPE_ANY_def

lemma example_layout:
  "ota_layout example_env example_parts (partition_of_info (example_info 1 0 0xd000 0x2000)) 2"
proof -
  have "app_slot example_parts k \<noteq> None" if "k < 2" for k
    using less_2_cases [OF that] by (auto simp: example_simps)
  moreover have "app_slot example_parts 2 = None" by (simp add: example_simps)
  ultimately show ?thesis
    by (simp add: ota_layout_def sector_partition_def example_simps nor_chip_def g_rom_flashchip_def)
qed

lemma example_slots:
  "app_slot example_parts 0 = Some (partition_of_info (example_info 0 0x10 0x10000 0x20000))"
  "app_slot example_parts 1 = Some (partition_of_info (example_info 0 0x11 0x40000 0x20000))"
  by (simp_all add: example_simps)

lemma example_selects: "ota_select_at (dev example_state) p i = \<lparr>ota_seq = 0xFFFFFFFF, seq_label = replicate 24 0xff, ota_crc = 0xFFFFFFFF\<rparr>"
proof -
  let ?e = "\<lparr>ota_seq = 0xFFFFFFFF, seq_label = replicate 24 0xff, ota_crc = 0xFFFFFFFF\<rparr>"
  have "replicate 4 (0xff :: u8) = [0xff, 0xff, 0xff, 0xff]" by (simp add: eval_nat_numeral)
  then have "le32_bytes 0xFFFFFFFF = replicate 4 0xff" by (simp add: le32_bytes_def)
  then have "encode_ota_select ?e = replicate 32 0xff" by (simp add: encode_ota_select_def flip: replicate_add)
  moreover have "mem_read (\<lambda>_. 0xff) a 32 = replicate 32 0xff" for a by (simp add: mem_read_def map_replicate_const)
  ultimately show ?thesis
    using decode_encode_ota_select(2) [of ?e] by (simp add: ota_select_at_def example_state_def)
qed

lemma example_running:
  "running_in example_env example_parts = Some (partition_of_info (example_info 0 0x10 0x10000 0x20000))"
proof -
  have "spi_flash_cache2phys 0 0x40210100 = 0x10100" by (simp add: spi_flash_cache2phys_def)
  then show ?thesis by (simp add: running_in_def SPI_FLASH_CACHE2PHYS_FAIL_def example_simps)
qed

lemma example_ps: "s_partition_list example_state = example_parts" "example_parts \<noteq> []"
  by (simp_all add: example_simps)

lemma example_verify:
  "esp_partition_verify (rom example_env) (table_addr example_env) (partition_of_info (example_info 0 0x11 0x40000 0x20000)) example_state
    = (example_state, Some (partition_of_info (example_info 0 0x11 0x40000 0x20000)))"
  by (simp add: verify_loaded example_ps) (simp add: example_simps)

section \<open>Properties\<close>

text \<open>Setting the boot partition takes effect. On a working chip with OTA slots 0 to n - 1 and an
  OTA data partition, for a slot p with a valid image and whatever the two selection entries hold
  (valid ones below 2^32 - 32 and not 0), esp_ota_set_boot_partition(p) returns ESP_OK, and
  esp_ota_get_boot_partition then returns p.\<close>

lemma ota_set_then_get:
  assumes "ota_flash E cells" and "ota_layout E ps od n" and "s_partition_list s = ps"
    and "k < n" and "app_slot ps k = Some p"
    and "esp_image_load E \<lparr>pos_offset = p_address p, pos_size = p_size p\<rparr> (dev s) \<noteq> None"
    and "\<forall>i \<in> {0, 1}. ota_select_valid (ota_select_at (cells (dev s)) od i) \<longrightarrow>
      0 < ota_seq (ota_select_at (cells (dev s)) od i) \<and> unat (ota_seq (ota_select_at (cells (dev s)) od i)) + 32 < 2 ^ 32"
  shows "\<exists>s' s''. esp_ota_set_boot_partition E (Some p) s = Some (s', ESP_OK)
    \<and> esp_ota_get_boot_partition E s' = Some (s'', Some p)"
proof -
  have "k < 16" using assms(2,4) by (simp add: ota_layout_def)
  note p = app_slot_subtype [OF assms(5) this]
  obtain s' j where set: "esp_rewrite_ota_data E (p_subtype p) s = Some (s', ESP_OK)"
    and slot: "boot_slot (ota_select_at (cells (dev s')) od 0) (ota_select_at (cells (dev s')) od 1) n = Some k"
    and l: "s_partition_list s' = ps"
    by (rule ota_flash.rewrite_data_ok [OF assms(1,2,3) p(3) assms(4) refl refl]) (use assms(7) in auto)
  show ?thesis
    using ota_flash.set_boot_ok [OF assms(1,2,3,6) p(1,4)] set
      ota_flash.get_boot_ok [OF assms(1,2) l refl refl] slot assms(5) by simp
qed

lemma ota_set_then_get_witness:
  "\<exists>s' s''. esp_ota_set_boot_partition example_env (Some (partition_of_info (example_info 0 0x11 0x40000 0x20000))) example_state
      = Some (s', ESP_OK)
    \<and> esp_ota_get_boot_partition example_env s' = Some (s'', Some (partition_of_info (example_info 0 0x11 0x40000 0x20000)))"
  by (rule ota_set_then_get [OF example_ota.ota_flash_axioms example_layout _ _ example_slots(2)])
    (simp_all add: example_selects ota_select_valid_def, simp_all add: example_state_def example_env_def)

text \<open>C16: Changing the boot partition survives a power loss. The call rewrites exactly one sector of
  the OTA data partition, sector j. Until the new entry in it is valid, whatever an interrupted erase
  or write has left in that sector, the slot selected by the two entries is the one selected before
  the call; afterwards it is the new one. The image of the new slot loads, and valid entries have a sequence number above 0 and below 2^32 - 32.\<close>

theorem ota_power_loss:
  assumes "ota_flash E cells" and "ota_layout E ps od n" and "s_partition_list s = ps"
    and "k < n" and "app_slot ps k = Some p"
    and "esp_image_load E \<lparr>pos_offset = p_address p, pos_size = p_size p\<rparr> (dev s) \<noteq> None"
    and "\<forall>i \<in> {0, 1}. ota_select_valid (ota_select_at (cells (dev s)) od i) \<longrightarrow>
      0 < ota_seq (ota_select_at (cells (dev s)) od i) \<and> unat (ota_seq (ota_select_at (cells (dev s)) od i)) + 32 < 2 ^ 32"
  shows "\<exists>s' j. esp_ota_set_boot_partition E (Some p) s = Some (s', ESP_OK) \<and> j < 2
    \<and> same_outside (unat (p_address od) + 4096 * j) 4096 (cells (dev s)) (cells (dev s'))
    \<and> boot_slot (ota_select_at (cells (dev s')) od 0) (ota_select_at (cells (dev s')) od 1) n = Some k
    \<and> (\<forall>m. same_outside (unat (p_address od) + 4096 * j) 4096 (cells (dev s)) m \<and> \<not> ota_select_valid (ota_select_at m od j)
        \<longrightarrow> boot_slot (ota_select_at m od 0) (ota_select_at m od 1) n
          = boot_slot (ota_select_at (cells (dev s)) od 0) (ota_select_at (cells (dev s)) od 1) n)"
proof -
  have "k < 16" using assms(2,4) by (simp add: ota_layout_def)
  note p = app_slot_subtype [OF assms(5) this]
  let ?at = "\<lambda>i. ota_select_at (cells (dev s)) od i"
  obtain s' j where set: "esp_rewrite_ota_data E (p_subtype p) s = Some (s', ESP_OK)"
    and slot: "boot_slot (ota_select_at (cells (dev s')) od 0) (ota_select_at (cells (dev s')) od 1) n = Some k"
    and j: "j = 0 \<or> j = 1"
    and out: "same_outside (unat (p_address od) + 4096 * j) 4096 (cells (dev s)) (cells (dev s'))"
    and old: "\<And>bad. \<not> ota_select_valid bad \<Longrightarrow>
      selected_seq (if j = 0 then bad else ?at 0) (if j = 0 then ?at 1 else bad) = selected_seq (?at 0) (?at 1)"
    by (rule ota_flash.rewrite_data_ok [OF assms(1,2,3) p(3) assms(4) refl refl]) (use assms(7) in auto)
  have torn: "boot_slot (ota_select_at m od 0) (ota_select_at m od 1) n = boot_slot (?at 0) (?at 1) n"
    if m: "same_outside (unat (p_address od) + 4096 * j) 4096 (cells (dev s)) m" "\<not> ota_select_valid (ota_select_at m od j)" for m
  proof -
    have "ota_select_at m od (1 - j) = ?at (1 - j)"
      unfolding ota_select_at_def using j by (subst mem_read_same_outside [OF m(1)]) auto
    then show ?thesis using old [OF m(2)] j by (auto simp: boot_slot_def)
  qed
  show ?thesis
    using ota_flash.set_boot_ok [OF assms(1,2,3,6) p(1,4)] set slot j out torn by (intro exI [of _ s'] exI [of _ j]) auto
qed

lemma ota_power_loss_witness:
  "\<exists>s' j. esp_ota_set_boot_partition example_env (Some (partition_of_info (example_info 0 0x11 0x40000 0x20000))) example_state
      = Some (s', ESP_OK) \<and> j < (2::nat)"
  using ota_power_loss [OF example_ota.ota_flash_axioms example_layout _ _ example_slots(2), of example_state]
  by (auto simp: example_selects ota_select_valid_def example_env_def) (auto simp: example_state_def)

text \<open>C15: No sequence of esp_ota_begin, esp_ota_write and esp_ota_end calls that return, in any order, with any handles and results, with data of at most
  64 KiB per write, and with image sizes below 0xFFFFF000 or unknown, changes a byte of the partition the code runs from, and every open handle always
  names an OTA slot other than the running partition, written at most to its end. Both limits are needed: from 65792 bytes on, one aligned write
  runs into the page counter of spi_flash_program and may program past the partition, and the rounding of larger image sizes to a sector wraps around 32 bits.\<close>

theorem ota_update_keeps_running:
  assumes "ota_nor E cells" and "update_table E ps" and "running_in E ps = Some run"
    and "update_inv E ps run s" and "(ota_step E)\<^sup>*\<^sup>* s s'"
  shows "update_inv E ps run s' \<and> part_kept run (cells (dev s)) (cells (dev s'))"
  using ota_nor.steps_inv [OF assms(1,5,2,4,3)] .

lemma ota_update_keeps_running_witness:
  "part_kept (partition_of_info (example_info 0 0x10 0x10000 0x20000)) (dev example_state)
    (dev (fst (the (esp_ota_begin example_env (Some (partition_of_info (example_info 0 0x11 0x40000 0x20000))) 0x1000 True example_state))))"
proof -
  let ?p1 = "partition_of_info (example_info 0 0x11 0x40000 0x20000)" and ?p0 = "partition_of_info (example_info 0 0x10 0x10000 0x20000)"
  note run = example_running
  have tab: "update_table example_env example_parts"
    by (auto simp: update_table_def is_ota_partition_def sector_partition_def example_simps nor_chip_def g_rom_flashchip_def part_range_def)
  have inv: "update_inv example_env example_parts ?p0 example_state"
    by (simp add: update_inv_def example_state_def)
  note ps = example_ps and ver = example_verify
  have "esp_ota_begin example_env (Some ?p1) 0x1000 True example_state \<noteq> None"
    using running_loaded [OF ps, of example_env] run
    by (simp add: esp_ota_begin_def ver Let_def case_prod_beta)
  then obtain s' r where b: "esp_ota_begin example_env (Some ?p1) 0x1000 True example_state = Some (s', r)" by auto
  have "(ota_step example_env)\<^sup>*\<^sup>* example_state s'"
    using begin_step [OF b] by auto
  then show ?thesis
    using ota_update_keeps_running [OF example_nor.ota_nor_axioms tab run inv] b by auto
qed

text \<open>The slot to update next is the one after the given (or running) partition in slot order,
  and the first one when there is none behind it or the given partition is not an OTA slot; the state
  does not change.\<close>

lemma ota_next_update_cyclic:
  assumes "s_partition_list s = ps" and "ps \<noteq> []"
    and "(case start of None \<Rightarrow> running_in E ps | Some p \<Rightarrow> snd (esp_partition_verify (rom E) (table_addr E) p s)) = Some q"
  shows "esp_ota_get_next_update_partition E start s = Some (s, next_cyclic q (ota_slots ps))"
proof (cases start)
  case None
  then show ?thesis
    using assms running_loaded [OF assms(1,2)] next_update_loaded [OF assms(1,2)]
    by (simp add: esp_ota_get_next_update_partition_def Let_def)
next
  case (Some p)
  have ne: "s_partition_list s \<noteq> []" using assms(1,2) by simp
  have "esp_partition_verify (rom E) (table_addr E) p s = (s, Some q)"
    using assms(3) Some verify_loaded [OF ne, of "rom E" "table_addr E" p] by simp
  then show ?thesis
    using Some next_update_loaded [OF assms(1,2)]
    by (simp add: esp_ota_get_next_update_partition_def Let_def)
qed

lemma ota_next_update_cyclic_witness:
  "esp_ota_get_next_update_partition example_env None example_state
    = Some (example_state, Some (partition_of_info (example_info 0 0x11 0x40000 0x20000)))"
proof -
  note run = example_running
  have "ota_slots example_parts = [partition_of_info (example_info 0 0x10 0x10000 0x20000), partition_of_info (example_info 0 0x11 0x40000 0x20000)]"
    by (simp add: ota_slots_def upt_rec map_filter_simps example_simps)
  then have "next_cyclic (partition_of_info (example_info 0 0x10 0x10000 0x20000)) (ota_slots example_parts)
      = Some (partition_of_info (example_info 0 0x11 0x40000 0x20000))"
    by (simp add: next_cyclic_def)
  then show ?thesis
    using ota_next_update_cyclic [where s = example_state and ps = example_parts and start = None and E = example_env] run
    by (simp add: example_state_def) (simp add: example_simps)
qed

text \<open>esp_ota_begin refuses every image that exactly fills its slot: the erase length is rounded to
  the sector behind the image size even when the size is already a whole number of sectors, so it
  exceeds the partition and the call fails with ESP_ERR_INVALID_SIZE.\<close>

lemma ota_begin_full_image_refused:
  assumes "s_partition_list s = ps" and "ps \<noteq> []"
    and "esp_partition_verify (rom E) (table_addr E) p s = (s, Some q)" and "is_ota_partition q"
    and "running_in E ps = Some run" and "q \<noteq> run"
    and "unat (p_size q) mod 4096 = 0" and "0 < p_size q" and "p_size q < 0xFFFFF000"
  shows "esp_ota_begin E (Some p) (p_size q) True s = Some (s, Inl ESP_ERR_INVALID_SIZE)"
proof -
  have lt: "unat (p_size q) < 0xFFFFF000" using assms(9) by (simp add: word_less_nat_alt)
  have d: "unat (p_size q div SPI_FLASH_SEC_SIZE) = unat (p_size q) div 4096"
    by (simp add: SPI_FLASH_SEC_SIZE_def unat_div)
  have q: "unat (p_size q) div 4096 < 0xFFFFF" using lt by (simp add: div_less_iff_less_mult)
  then have "unat (p_size q div SPI_FLASH_SEC_SIZE + 1) = unat (p_size q) div 4096 + 1"
    using unat_add_no_wrap [of "p_size q div SPI_FLASH_SEC_SIZE" 1] d by simp
  then have n: "unat ((p_size q div SPI_FLASH_SEC_SIZE + 1) * SPI_FLASH_SEC_SIZE) = (unat (p_size q) div 4096 + 1) * 4096"
    using q by (simp add: unat_word_ariths SPI_FLASH_SEC_SIZE_def)
  have "(unat (p_size q) div 4096 + 1) * 4096 = unat (p_size q) + 4096"
    using mult_div_of_mod_0 [OF assms(7)] by simp
  then have gt: "(p_size q div SPI_FLASH_SEC_SIZE + 1) * SPI_FLASH_SEC_SIZE > p_size q"
    by (simp add: word_less_nat_alt n)
  have "p_size q \<noteq> 0" "p_size q \<noteq> OTA_SIZE_UNKNOWN" using assms(8,9) by (auto simp: OTA_SIZE_UNKNOWN_def)
  then show ?thesis
    using assms(3,4,6) gt running_loaded [OF assms(1,2), of E] assms(5)
    by (simp add: esp_ota_begin_def esp_partition_erase_range_def)
qed

lemma ota_begin_full_image_refused_witness:
  "esp_ota_begin example_env (Some (partition_of_info (example_info 0 0x11 0x40000 0x20000))) 0x20000 True example_state
    = Some (example_state, Inl ESP_ERR_INVALID_SIZE)"
proof -
  let ?p1 = "partition_of_info (example_info 0 0x11 0x40000 0x20000)" and ?p0 = "partition_of_info (example_info 0 0x10 0x10000 0x20000)"
  note run = example_running
  note ps = example_ps and ver = example_verify
  have size: "p_size ?p1 = 0x20000" by (simp add: example_simps)
  have "esp_ota_begin example_env (Some ?p1) (p_size ?p1) True example_state = Some (example_state, Inl ESP_ERR_INVALID_SIZE)"
    by (rule ota_begin_full_image_refused [OF ps ver _ run]) (simp_all add: example_simps is_ota_partition_def)
  then show ?thesis by (simp only: size)
qed

text \<open>Setting the test application as boot partition selects OTA slot 0 instead: the selection
  entry keeps only the low four bits of the subtype, and the call still returns ESP_OK.\<close>

lemma ota_set_test_selects_slot_0:
  assumes "ota_flash E cells" and "ota_layout E ps od n" and "s_partition_list s = ps"
    and "p_type p = ESP_PARTITION_TYPE_APP" and "p_subtype p = ESP_PARTITION_SUBTYPE_APP_TEST"
    and "esp_image_load E \<lparr>pos_offset = p_address p, pos_size = p_size p\<rparr> (dev s) \<noteq> None"
    and "\<forall>i \<in> {0, 1}. ota_select_valid (ota_select_at (cells (dev s)) od i) \<longrightarrow>
      0 < ota_seq (ota_select_at (cells (dev s)) od i) \<and> unat (ota_seq (ota_select_at (cells (dev s)) od i)) + 32 < 2 ^ 32"
  shows "\<exists>s' s''. esp_ota_set_boot_partition E (Some p) s = Some (s', ESP_OK)
    \<and> esp_ota_get_boot_partition E s' = Some (s'', app_slot ps 0)"
proof -
  have k: "unat (SUB_TYPE_ID (p_subtype p)) = 0" "0 < n" "p_subtype p \<noteq> ESP_PARTITION_SUBTYPE_APP_FACTORY"
    using assms(2,5) by (simp_all add: unat_sub_type_id ESP_PARTITION_SUBTYPE_APP_TEST_def ESP_PARTITION_SUBTYPE_APP_FACTORY_def ota_layout_def)
  obtain s' j where set: "esp_rewrite_ota_data E (p_subtype p) s = Some (s', ESP_OK)"
    and slot: "boot_slot (ota_select_at (cells (dev s')) od 0) (ota_select_at (cells (dev s')) od 1) n = Some 0"
    and l: "s_partition_list s' = ps"
    by (rule ota_flash.rewrite_data_ok [OF assms(1,2,3) k(1,2) refl refl]) (use assms(7) in auto)
  show ?thesis
    using ota_flash.set_boot_ok [OF assms(1,2,3,6,4) k(3)] set
      ota_flash.get_boot_ok [OF assms(1,2) l refl refl] slot by simp
qed

lemma ota_set_test_selects_slot_0_witness:
  "\<exists>s' s''. esp_ota_set_boot_partition example_env (Some (partition_of_info (example_info 0 0x20 0x60000 0x20000))) example_state
      = Some (s', ESP_OK)
    \<and> esp_ota_get_boot_partition example_env s' = Some (s'', Some (partition_of_info (example_info 0 0x10 0x10000 0x20000)))"
  unfolding example_slots(1) [symmetric]
  by (rule ota_set_test_selects_slot_0 [OF example_ota.ota_flash_axioms example_layout])
    (simp_all add: example_selects ota_select_valid_def, simp_all add: example_simps ESP_PARTITION_SUBTYPE_APP_TEST_def)

end
