(* ===== verification/Boot.thy ===== *)
theory Boot
  imports Ota Image
begin

text \<open>
  The second-stage boot loader in its ESP8266 half: the check of the partition table
  (\<^verbatim>\<open>bootloader_support/src/flash_partitions.c\<close>), the mapping of the flash
  (\<^verbatim>\<open>bootloader_flash.c\<close>), reading the table and the OTA selection and the search
  for a bootable image (\<^verbatim>\<open>bootloader_utility.c\<close>), and
  \<^verbatim>\<open>select_image\<close> of \<^verbatim>\<open>bootloader_start.c\<close>, in the configuration
  without secure boot, factory-reset and test pins, copying boot and old partition tables.

  The environment holds the geometry of the chip, the offset of the table, what a load through the
  flash cache returns for a device state and the half of the first two megabytes that is mapped, and the image loader
  \<^verbatim>\<open>esp_image_load(ESP_IMAGE_LOAD, ...)\<close>. The locale \<open>boot_cache\<close> states what
  is relied on: the cache shows the mapped half at 0x40200000.
\<close>

section \<open>State\<close>

record bootloader_state_t =
  bs_ota_info :: esp_partition_pos_t
  bs_factory :: esp_partition_pos_t
  bs_test :: esp_partition_pos_t
  bs_ota :: "esp_partition_pos_t list"
  app_count :: u32

record 'd boot_env =
  b_chip :: esp_rom_spiflash_chip_t
  b_table_addr :: u32
  cache_load :: "'d \<Rightarrow> bool \<Rightarrow> u32 \<Rightarrow> u8"
  b_image_load :: "esp_partition_pos_t \<Rightarrow> 'd \<Rightarrow> esp_image_metadata_t option"

definition MAX_OTA_SLOTS :: nat where "MAX_OTA_SLOTS = 16"
definition FACTORY_INDEX :: int where "FACTORY_INDEX = -1"
definition TEST_APP_INDEX :: int where "TEST_APP_INDEX = -2"
definition INVALID_INDEX :: int where "INVALID_INDEX = -99"
definition ESP_PARTITION_TABLE_MAX_ENTRIES :: nat where "ESP_PARTITION_TABLE_MAX_ENTRIES = 96"

text \<open>\<^verbatim>\<open>memset(&bs, 0, ...)\<close>\<close>

definition no_pos :: esp_partition_pos_t where
  "no_pos = \<lparr>pos_offset = 0, pos_size = 0\<rparr>"

definition empty_bs :: bootloader_state_t where
  "empty_bs = \<lparr>bs_ota_info = no_pos, bs_factory = no_pos, bs_test = no_pos,
     bs_ota = replicate MAX_OTA_SLOTS no_pos, app_count = 0\<rparr>"

section \<open>Mapping the flash\<close>

text \<open>The result is the mapped half (\<open>True\<close> for the second megabyte) and the address, or
  \<open>None\<close> for NULL, and the new value of the static \<^verbatim>\<open>mapped\<close>. The size is
  not looked at.\<close>

definition bootloader_mmap :: "u32 \<Rightarrow> bool \<Rightarrow> (bool \<times> u32) option \<times> bool" where
  "bootloader_mmap src_addr mapped =
    (if mapped then (None, mapped)
     else if src_addr < 0x100000 then (Some (False, 0x40200000 + src_addr), True)
     else (Some (True, 0x40200000 + (src_addr - 0x100000)), True))"

definition bootloader_munmap :: "bool \<Rightarrow> bool" where
  "bootloader_munmap mapped = (if mapped then False else mapped)"

text \<open>\<^verbatim>\<open>memcpy\<close> out of the mapping.\<close>

definition mapped_bytes :: "'d boot_env \<Rightarrow> 'd \<Rightarrow> bool \<times> u32 \<Rightarrow> nat \<Rightarrow> u8 list" where
  "mapped_bytes B d p n = map (\<lambda>i. cache_load B d (fst p) (snd p + of_nat i)) [0..<n]"

section \<open>The partition table\<close>

text \<open>\<open>entry n\<close> is the n-th 32-byte entry. The MD5 branch of this target is compiled out, so an
  MD5 entry is passed over and counted.\<close>

function verify_from :: "u32 \<Rightarrow> (nat \<Rightarrow> esp_partition_info_t) \<Rightarrow> nat \<Rightarrow> esp_err_t + nat" where
  "verify_from chip_sz entry num_parts =
    (if num_parts \<ge> ESP_PARTITION_TABLE_MAX_ENTRIES then Inl ESP_ERR_INVALID_STATE
     else let part = entry num_parts; pos = info_pos part in
       if info_magic part = ESP_PARTITION_MAGIC then
         (if pos_offset pos > chip_sz \<or> pos_offset pos + pos_size pos > chip_sz then Inl ESP_ERR_INVALID_SIZE
          else verify_from chip_sz entry (num_parts + 1))
       else if info_magic part = ESP_PARTITION_MAGIC_MD5 then verify_from chip_sz entry (num_parts + 1)
       else if info_magic part = 0xFFFF \<and> info_type part = 0xff \<and> info_subtype part = 0xff then Inr num_parts
       else Inl ESP_ERR_INVALID_STATE)"
  by pat_completeness auto
termination by (relation "measure (\<lambda>(c, e, n). 96 - n)") (auto simp: ESP_PARTITION_TABLE_MAX_ENTRIES_def)

declare verify_from.simps [simp del]

definition esp_partition_table_basic_verify :: "u32 \<Rightarrow> (nat \<Rightarrow> esp_partition_info_t) \<Rightarrow> esp_err_t + nat" where
  "esp_partition_table_basic_verify chip_sz entry = verify_from chip_sz entry 0"

definition load_entry :: "bootloader_state_t \<Rightarrow> esp_partition_info_t \<Rightarrow> bootloader_state_t" where
  "load_entry bs part =
    (if info_type part = 0x00 then
       (if info_subtype part = 0x00 then bs\<lparr>bs_factory := info_pos part\<rparr>
        else if info_subtype part = 0x20 then bs\<lparr>bs_test := info_pos part\<rparr>
        else if info_subtype part AND NOT 0x0f = 0x10
        then bs\<lparr>bs_ota := (bs_ota bs)[unat (info_subtype part AND 0x0f) := info_pos part],
                app_count := app_count bs + 1\<rparr>
        else bs)
     else if info_type part = 0x01 then
       (if info_subtype part = 0x00 then bs\<lparr>bs_ota_info := info_pos part\<rparr> else bs)
     else bs)"

text \<open>\<open>None\<close> is \<^verbatim>\<open>return false\<close>; the early return of a failed check leaves the
  table mapped.\<close>

definition bootloader_utility_load_partition_table ::
  "'d boot_env \<Rightarrow> 'd \<Rightarrow> bool \<Rightarrow> bootloader_state_t \<Rightarrow> bootloader_state_t option \<times> bool" where
  "bootloader_utility_load_partition_table B d mapped bs =
    (case bootloader_mmap (b_table_addr B) mapped of
       (None, m) \<Rightarrow> (None, m)
     | (Some p, m) \<Rightarrow>
         let entry = (\<lambda>i. decode_partition_info (mapped_bytes B d (fst p, snd p + of_nat (32 * i)) 32)) in
         (case esp_partition_table_basic_verify (chip_size (b_chip B)) entry of
            Inl err \<Rightarrow> (None, m)
          | Inr num_partitions \<Rightarrow> (Some (foldl load_entry bs (map entry [0..<num_partitions])), bootloader_munmap m)))"

section \<open>Selection\<close>

text \<open>\<open>None\<close> is the division by zero when there is no OTA slot.\<close>

definition bootloader_utility_get_selected_boot_partition ::
  "'d boot_env \<Rightarrow> 'd \<Rightarrow> bool \<Rightarrow> bootloader_state_t \<Rightarrow> (int \<times> bool) option" where
  "bootloader_utility_get_selected_boot_partition B d mapped bs =
    (if pos_offset (bs_ota_info bs) \<noteq> 0 then
       if pos_size (bs_ota_info bs) < 2 * 0x1000 then Some (INVALID_INDEX, mapped)
       else
         (case bootloader_mmap (pos_offset (bs_ota_info bs)) mapped of
            (None, m) \<Rightarrow> Some (INVALID_INDEX, m)
          | (Some p, m) \<Rightarrow>
              let sa = decode_ota_select (mapped_bytes B d p 32);
                  sb = decode_ota_select (mapped_bytes B d (fst p, snd p + 0x1000) 32);
                  m' = bootloader_munmap m in
              if ota_seq sa = 0xFFFFFFFF \<and> ota_seq sb = 0xFFFFFFFF then
                (if pos_offset (bs_factory bs) \<noteq> 0 then Some (FACTORY_INDEX, m') else Some (0, m'))
              else
                let va = ota_select_valid sa; vb = ota_select_valid sb;
                    slot = (\<lambda>sq. if app_count bs = 0 then None else Some (uint (sq mod app_count bs), m')) in
                if va \<and> vb then slot ((if ota_seq sa > ota_seq sb then ota_seq sa else ota_seq sb) - 1)
                else if va then slot (ota_seq sa - 1)
                else if vb then slot (ota_seq sb - 1)
                else Some (FACTORY_INDEX, m'))
     else Some (FACTORY_INDEX, mapped))"

definition index_to_partition :: "bootloader_state_t \<Rightarrow> int \<Rightarrow> esp_partition_pos_t" where
  "index_to_partition bs index =
    (if index = FACTORY_INDEX then bs_factory bs
     else if index = TEST_APP_INDEX then bs_test bs
     else if index \<ge> 0 \<and> index < int MAX_OTA_SLOTS \<and> (word_of_int index :: u32) < app_count bs
     then bs_ota bs ! nat index else no_pos)"

definition try_load_partition :: "'d boot_env \<Rightarrow> 'd \<Rightarrow> esp_partition_pos_t \<Rightarrow> esp_image_metadata_t option" where
  "try_load_partition B d part = (if pos_size part = 0 then None else b_image_load B part d)"

text \<open>One round of the two search loops: an empty position is skipped.\<close>

definition try_index :: "'d boot_env \<Rightarrow> 'd \<Rightarrow> bootloader_state_t \<Rightarrow> int \<Rightarrow> esp_image_metadata_t option" where
  "try_index B d bs index =
    (let part = index_to_partition bs index in
     if pos_size part = 0 then None else try_load_partition B d part)"

function search_down :: "'d boot_env \<Rightarrow> 'd \<Rightarrow> bootloader_state_t \<Rightarrow> int \<Rightarrow> esp_image_metadata_t option" where
  "search_down B d bs index =
    (if index \<ge> FACTORY_INDEX then
       (case try_index B d bs index of Some m \<Rightarrow> Some m | None \<Rightarrow> search_down B d bs (index - 1))
     else None)"
  by pat_completeness auto
termination by (relation "measure (\<lambda>(B, d, bs, i). nat (i + 2))") (auto simp: FACTORY_INDEX_def)

text \<open>\<^verbatim>\<open>index < bs->app_count\<close> compares an \<^verbatim>\<open>int\<close> with an unsigned
  count: the index is converted.\<close>

function search_up :: "'d boot_env \<Rightarrow> 'd \<Rightarrow> bootloader_state_t \<Rightarrow> int \<Rightarrow> esp_image_metadata_t option" where
  "search_up B d bs index =
    (if (word_of_int index :: u32) < app_count bs then
       (case try_index B d bs index of Some m \<Rightarrow> Some m | None \<Rightarrow> search_up B d bs (index + 1))
     else None)"
  by pat_completeness auto
termination
proof (relation "measure (\<lambda>(B, d, bs, i). unat (app_count bs) - unat (word_of_int i :: u32))", goal_cases)
  case (2 B d bs index)
  then have "(word_of_int index :: u32) < app_count bs" by simp
  then have "unat (word_of_int index + 1 :: u32) = unat (word_of_int index :: u32) + 1" by (rule unat_add_1_less)
  then show ?case using 2 by (simp add: word_less_nat_alt)
qed simp

declare search_down.simps [simp del] search_up.simps [simp del]

definition bootloader_utility_load_boot_image ::
  "'d boot_env \<Rightarrow> 'd \<Rightarrow> bootloader_state_t \<Rightarrow> int \<Rightarrow> esp_image_metadata_t option" where
  "bootloader_utility_load_boot_image B d bs start_index =
    (if start_index = TEST_APP_INDEX then try_load_partition B d (bs_test bs)
     else case search_down B d bs start_index of
            Some m \<Rightarrow> Some m
          | None \<Rightarrow>
              (case search_up B d bs (start_index + 1) of
                 Some m \<Rightarrow> Some m
               | None \<Rightarrow> try_load_partition B d (bs_test bs)))"

text \<open>\<^verbatim>\<open>select_image\<close>: \<open>Inl\<close> is \<^verbatim>\<open>ESP_FAIL\<close>, the outer
  \<open>None\<close> the division by zero of the selection.\<close>

definition select_image :: "'d boot_env \<Rightarrow> 'd \<Rightarrow> bool \<Rightarrow> (esp_err_t + esp_image_metadata_t) option" where
  "select_image B d mapped =
    (case bootloader_utility_load_partition_table B d mapped empty_bs of
       (None, m) \<Rightarrow> Some (Inl ESP_FAIL)
     | (Some bs, m) \<Rightarrow>
         (case bootloader_utility_get_selected_boot_partition B d m bs of
            None \<Rightarrow> None
          | Some (boot_index, m') \<Rightarrow>
              if boot_index = INVALID_INDEX then Some (Inl ESP_FAIL)
              else (case bootloader_utility_load_boot_image B d bs boot_index of
                      None \<Rightarrow> Some (Inl ESP_FAIL) | Some im \<Rightarrow> Some (Inr im))))"

text \<open>The cache half \<^verbatim>\<open>bootloader_utility_load_image\<close> enables for an image;
  \<open>None\<close> is its endless loop.\<close>

definition load_image_map :: "esp_image_metadata_t \<Rightarrow> nat option" where
  "load_image_map im =
    (if start_addr im < 0x100000 \<and> start_addr im + image_len im < 0x100000 then Some 0
     else if start_addr im \<ge> 0x100000 \<and> start_addr im < 0x200000 \<and> start_addr im + image_len im < 0x200000 then Some 1
     else None)"

section \<open>Searching for an image\<close>

definition first_some :: "('a \<Rightarrow> 'b option) \<Rightarrow> 'a list \<Rightarrow> 'b option" where
  "first_some f xs = (case List.find (\<lambda>x. f x \<noteq> None) xs of None \<Rightarrow> None | Some x \<Rightarrow> f x)"

lemma first_some_simps [simp]:
  "first_some f [] = None"
  "first_some f (x # xs) = (case f x of None \<Rightarrow> first_some f xs | Some y \<Rightarrow> Some y)"
  by (auto simp: first_some_def split: option.split)

lemma first_some_append:
  "first_some f (xs @ ys) = (case first_some f xs of None \<Rightarrow> first_some f ys | Some y \<Rightarrow> Some y)"
  by (induction xs) (auto split: option.split)

lemma first_some_map: "first_some f (map g xs) = first_some (f \<circ> g) xs"
  by (induction xs) (auto split: option.split)

lemma first_some_None: "first_some f xs = None \<longleftrightarrow> (\<forall>x \<in> set xs. f x = None)"
  by (induction xs) (auto split: option.split)

lemma try_index_load: "try_index B d bs = try_load_partition B d \<circ> index_to_partition bs"
  by (auto simp: try_index_def try_load_partition_def Let_def)

lemma search_down_eq:
  "-2 \<le> i \<Longrightarrow> search_down B d bs i = first_some (try_index B d bs) (rev [-1..i])"
proof (induction "nat (i + 2)" arbitrary: i)
  case 0
  then show ?case by (subst search_down.simps) (simp add: FACTORY_INDEX_def)
next
  case (Suc n)
  then have "search_down B d bs (i - 1) = first_some (try_index B d bs) (rev [-1..i - 1])" by simp
  moreover have i: "-1 \<le> i" using Suc.hyps(2) by simp
  moreover have "[-1..i] = [-1..i - 1] @ [i]" using i by (simp add: upto_rec2)
  ultimately show ?case
    by (subst search_down.simps) (simp add: FACTORY_INDEX_def split: option.split)
qed

lemma search_up_eq:
  assumes "0 \<le> i" and "i < 2 ^ 32"
  shows "search_up B d bs i = first_some (try_index B d bs) [i..uint (app_count bs) - 1]"
  using assms
proof (induction "nat (uint (app_count bs) - i)" arbitrary: i)
  case 0
  then have "uint (word_of_int i :: u32) = i" by (simp add: uint_word_of_int)
  then show ?case using 0 by (subst search_up.simps) (simp add: word_less_def)
next
  case (Suc n)
  have u: "uint (word_of_int i :: u32) = i" using Suc.prems by (simp add: uint_word_of_int)
  have lt: "i < uint (app_count bs)" using Suc.hyps(2) by simp
  moreover have "uint (app_count bs) < 2 ^ 32" using unsigned_less [of "app_count bs"] by simp
  ultimately have "search_up B d bs (i + 1) = first_some (try_index B d bs) [i + 1..uint (app_count bs) - 1]"
    using Suc by simp
  moreover have "[i..uint (app_count bs) - 1] = i # [i + 1..uint (app_count bs) - 1]"
    using lt by (simp add: upto_rec1)
  ultimately show ?case using lt u
    by (subst search_up.simps) (simp add: word_less_def split: option.split)
qed

lemma load_boot_image_eq:
  assumes "-1 \<le> start" and "start < 16"
  shows "bootloader_utility_load_boot_image B d bs start = first_some (try_load_partition B d)
     (map (index_to_partition bs) (rev [-1..start] @ [start + 1..uint (app_count bs) - 1]) @ [bs_test bs])"
  using assms search_down_eq [of start B d bs] search_up_eq [of "start + 1" B d bs]
  by (auto simp: bootloader_utility_load_boot_image_def TEST_APP_INDEX_def first_some_map first_some_append try_index_load
      split: option.split)

lemma boot_order_none:
  assumes "-1 \<le> start" and "start < 16" and len: "length (bs_ota bs) = 16"
  shows "bootloader_utility_load_boot_image B d bs start = None
    \<longleftrightarrow> (\<forall>pos \<in> set (bs_factory bs # take (unat (app_count bs)) (bs_ota bs) @ [bs_test bs]). try_load_partition B d pos = None)"
    (is "?L \<longleftrightarrow> ?R")
proof -
  let ?n = "uint (app_count bs)"
  have L: "?L \<longleftrightarrow> (\<forall>i \<in> {-1..start} \<union> {start + 1..?n - 1}. try_load_partition B d (index_to_partition bs i) = None)
      \<and> try_load_partition B d (bs_test bs) = None"
    unfolding load_boot_image_eq [OF assms(1,2)] first_some_None by auto
  have f: "index_to_partition bs (-1) = bs_factory bs" by (simp add: index_to_partition_def FACTORY_INDEX_def)
  have slot: "index_to_partition bs (int k) = (if k < 16 \<and> k < unat (app_count bs) then bs_ota bs ! k else no_pos)" for k
  proof (cases "k < 16")
    case True
    then have "unat (word_of_int (int k) :: u32) = k" by (simp add: unat_of_nat_small)
    then show ?thesis by (auto simp: index_to_partition_def FACTORY_INDEX_def TEST_APP_INDEX_def MAX_OTA_SLOTS_def word_less_nat_alt)
  qed (simp add: index_to_partition_def FACTORY_INDEX_def TEST_APP_INDEX_def MAX_OTA_SLOTS_def)
  have np: "try_load_partition B d no_pos = None" by (simp add: try_load_partition_def no_pos_def)
  have un: "?n = int (unat (app_count bs))" by simp
  have idx: "(\<forall>i \<in> {-1..start} \<union> {start + 1..?n - 1}. try_load_partition B d (index_to_partition bs i) = None)
    \<longleftrightarrow> try_load_partition B d (bs_factory bs) = None
      \<and> (\<forall>k < min 16 (unat (app_count bs)). try_load_partition B d (bs_ota bs ! k) = None)" (is "?A \<longleftrightarrow> ?F \<and> ?S")
  proof
    assume a: ?A
    have "try_load_partition B d (bs_ota bs ! k) = None" if "k < min 16 (unat (app_count bs))" for k
    proof -
      have "int k \<in> {-1..start} \<union> {start + 1..?n - 1}" using that un by (simp only: atLeastAtMost_iff Un_iff) linarith
      then have "try_load_partition B d (index_to_partition bs (int k)) = None" using a by blast
      then show ?thesis using that by (simp add: slot)
    qed
    moreover have "-1 \<in> {-1..start} \<union> {start + 1..?n - 1}" using assms(1) by simp
    ultimately show "?F \<and> ?S" using a f by metis
  next
    assume r: "?F \<and> ?S"
    show ?A
    proof
      fix i assume i: "i \<in> {-1..start} \<union> {start + 1..?n - 1}"
      show "try_load_partition B d (index_to_partition bs i) = None"
      proof (cases "i = -1")
        case True
        then show ?thesis using r f by simp
      next
        case False
        then have "i = int (nat i)" using i assms(1) by auto
        then show ?thesis using r slot [of "nat i"] np by auto
      qed
    qed
  qed
  have "?R \<longleftrightarrow> try_load_partition B d (bs_factory bs) = None
      \<and> (\<forall>k < min 16 (unat (app_count bs)). try_load_partition B d (bs_ota bs ! k) = None)
      \<and> try_load_partition B d (bs_test bs) = None"
    by (auto simp: all_set_conv_all_nth len)
  then show ?thesis using L idx by blast
qed

section \<open>What the table check accepts\<close>

text \<open>An entry the check passes over, and the end of the table.\<close>

definition entry_ok :: "u32 \<Rightarrow> esp_partition_info_t \<Rightarrow> bool" where
  "entry_ok chip_sz part \<longleftrightarrow>
    (info_magic part = ESP_PARTITION_MAGIC \<and> pos_offset (info_pos part) \<le> chip_sz
       \<and> pos_offset (info_pos part) + pos_size (info_pos part) \<le> chip_sz)
    \<or> info_magic part = ESP_PARTITION_MAGIC_MD5"

definition table_end :: "esp_partition_info_t \<Rightarrow> bool" where
  "table_end part \<longleftrightarrow> info_magic part = 0xFFFF \<and> info_type part = 0xff \<and> info_subtype part = 0xff"

lemma entry_ok_not_end: "entry_ok c p \<Longrightarrow> \<not> table_end p"
  by (auto simp: entry_ok_def table_end_def ESP_PARTITION_MAGIC_def ESP_PARTITION_MAGIC_MD5_def)

lemma verify_step:
  "verify_from c entry n =
    (if n \<ge> 96 then Inl ESP_ERR_INVALID_STATE
     else if entry_ok c (entry n) then verify_from c entry (n + 1)
     else if info_magic (entry n) = ESP_PARTITION_MAGIC then Inl ESP_ERR_INVALID_SIZE
     else if table_end (entry n) then Inr n else Inl ESP_ERR_INVALID_STATE)"
  by (subst verify_from.simps)
    (auto simp: entry_ok_def table_end_def Let_def ESP_PARTITION_TABLE_MAX_ENTRIES_def not_le
        ESP_PARTITION_MAGIC_def ESP_PARTITION_MAGIC_MD5_def)

lemma verify_from_Inr:
  "verify_from c entry n = Inr m \<longleftrightarrow> n \<le> m \<and> m < 96 \<and> table_end (entry m) \<and> (\<forall>i. n \<le> i \<and> i < m \<longrightarrow> entry_ok c (entry i))"
proof (induction "96 - n" arbitrary: n)
  case 0
  then show ?case by (subst verify_step) auto
next
  case (Suc k)
  have IH: "verify_from c entry (n + 1) = Inr m
      \<longleftrightarrow> n + 1 \<le> m \<and> m < 96 \<and> table_end (entry m) \<and> (\<forall>i. n + 1 \<le> i \<and> i < m \<longrightarrow> entry_ok c (entry i))"
    using Suc by simp
  have n: "\<not> 96 \<le> n" using Suc.hyps(2) by simp
  show ?case
  proof (cases "entry_ok c (entry n)")
    case True
    then have "verify_from c entry n = verify_from c entry (n + 1)"
      using n verify_step [of c entry n] by simp
    moreover have "n \<le> m \<and> table_end (entry m) \<longrightarrow> n + 1 \<le> m"
      using True entry_ok_not_end [of c "entry n"] by (cases "m = n") auto
    moreover have "(\<forall>i. n \<le> i \<and> i < m \<longrightarrow> entry_ok c (entry i)) \<longleftrightarrow> (\<forall>i. n + 1 \<le> i \<and> i < m \<longrightarrow> entry_ok c (entry i))"
      using True by (metis add.commute le_neq_implies_less less_imp_le_nat order_refl plus_1_eq_Suc Suc_leI Suc_leD)
    ultimately show ?thesis using IH by auto
  next
    case False
    have "\<not> table_end (entry n)" if "info_magic (entry n) = ESP_PARTITION_MAGIC"
      using that by (simp add: table_end_def ESP_PARTITION_MAGIC_def)
    then have "verify_from c entry n = Inr m \<longleftrightarrow> table_end (entry n) \<and> m = n"
      using False n verify_step [of c entry n] by auto
    then show ?thesis using False Suc.hyps(2) by (auto simp: le_less)
  qed
qed

section \<open>The two readings of the table\<close>

lemma find_map: "List.find P (map f xs) = map_option f (List.find (P \<circ> f) xs)"
  by (induction xs) auto

lemma find_rev_unique:
  assumes "distinct (map f (filter Q xs))" and "\<And>x. P x \<Longrightarrow> Q x \<and> f x = c"
  shows "List.find P (rev xs) = List.find P xs"
proof (cases "List.find P xs")
  case None
  then have "\<not> (\<exists>x. x \<in> set (rev xs) \<and> P x)" by (simp add: find_None_iff)
  then have "List.find P (rev xs) = None" unfolding find_None_iff .
  then show ?thesis using None by simp
next
  case (Some x)
  then have x: "P x" "x \<in> set (filter Q xs)" using assms(2) by (auto simp: find_Some_iff)
  then obtain y where y: "List.find P (rev xs) = Some y"
    by (cases "List.find P (rev xs)") (auto simp: find_None_iff)
  then have "P y" "y \<in> set xs" by (auto simp: find_Some_iff rev_nth)
  then have "y \<in> set (filter Q xs)" "f y = f x" using assms(2) x(1) by auto
  moreover have "inj_on f (set (filter Q xs))" using assms(1) by (simp add: distinct_map)
  ultimately have "y = x" using x(2) by (meson inj_onD)
  then show ?thesis using Some y by simp
qed

text \<open>The entries that stand for a slot, the OTA data, and any of them.\<close>

definition is_slot_entry :: "esp_partition_info_t \<Rightarrow> bool" where
  "is_slot_entry e \<longleftrightarrow> info_type e = 0 \<and> unat (info_subtype e) div 16 = 1"

definition is_ota_data_entry :: "esp_partition_info_t \<Rightarrow> bool" where
  "is_ota_data_entry e \<longleftrightarrow> info_type e = 1 \<and> info_subtype e = 0"

lemma u8_ota_flag: "(st :: u8) AND NOT 0x0f = 0x10 \<longleftrightarrow> unat st div 16 = 1"
proof -
  have "(0x0F :: u8) = mask 4" by (simp add: mask_eq_exp_minus_1)
  then have "unat (st AND NOT 0x0f) = 16 * (unat st div 16)" by (simp only: unat_and_not_mask) (simp add: minus_mod_eq_mult_div)
  then show ?thesis by (auto simp: word_unat_eq_iff)
qed

lemma u8_ota_index: "unat ((st :: u8) AND 0x0f) = unat st mod 16"
proof -
  have "(0x0F :: u8) = mask 4" by (simp add: mask_eq_exp_minus_1)
  then show ?thesis by (simp only: unat_and_mask) simp
qed

lemma load_entry_fields:
  assumes "length (bs_ota bs) = 16"
  shows "length (bs_ota (load_entry bs e)) = 16"
    and "app_count (load_entry bs e) = (if is_slot_entry e then app_count bs + 1 else app_count bs)"
    and "bs_ota_info (load_entry bs e) = (if is_ota_data_entry e then info_pos e else bs_ota_info bs)"
    and "k < 16 \<Longrightarrow> bs_ota (load_entry bs e) ! k
       = (if is_slot_entry e \<and> unat (info_subtype e) mod 16 = k then info_pos e else bs_ota bs ! k)"
proof -
  have no: "unat (0 :: u8) div 16 \<noteq> 1" "unat (0x20 :: u8) div 16 \<noteq> 1" by simp_all
  have run: "load_entry bs e = (if is_slot_entry e then bs\<lparr>bs_ota := (bs_ota bs)[unat (info_subtype e) mod 16 := info_pos e],
      app_count := app_count bs + 1\<rparr> else if is_ota_data_entry e then bs\<lparr>bs_ota_info := info_pos e\<rparr>
      else if info_type e = 0 \<and> info_subtype e = 0 then bs\<lparr>bs_factory := info_pos e\<rparr>
      else if info_type e = 0 \<and> info_subtype e = 0x20 then bs\<lparr>bs_test := info_pos e\<rparr> else bs)"
    unfolding load_entry_def u8_ota_flag u8_ota_index is_slot_entry_def is_ota_data_entry_def
    using no by (cases "info_subtype e = 0"; cases "info_subtype e = 0x20"; simp)
  show "length (bs_ota (load_entry bs e)) = 16"
    "app_count (load_entry bs e) = (if is_slot_entry e then app_count bs + 1 else app_count bs)"
    using assms by (simp_all add: run)
  show "bs_ota_info (load_entry bs e) = (if is_ota_data_entry e then info_pos e else bs_ota_info bs)"
    by (auto simp: run is_slot_entry_def is_ota_data_entry_def)
  show "bs_ota (load_entry bs e) ! k
       = (if is_slot_entry e \<and> unat (info_subtype e) mod 16 = k then info_pos e else bs_ota bs ! k)" if "k < 16"
    using assms that by (auto simp: run)
qed

lemma load_entries:
  assumes "length (bs_ota bs) = 16"
  shows "length (bs_ota (foldl load_entry bs es)) = 16"
    and "app_count (foldl load_entry bs es) = app_count bs + of_nat (length (filter is_slot_entry es))"
    and "bs_ota_info (foldl load_entry bs es)
       = (case List.find is_ota_data_entry (rev es) of None \<Rightarrow> bs_ota_info bs | Some e \<Rightarrow> info_pos e)"
    and "k < 16 \<Longrightarrow> bs_ota (foldl load_entry bs es) ! k
       = (case List.find (\<lambda>e. is_slot_entry e \<and> unat (info_subtype e) mod 16 = k) (rev es) of
            None \<Rightarrow> bs_ota bs ! k | Some e \<Rightarrow> info_pos e)"
proof (induction es rule: rev_induct)
  case Nil
  { case 1 then show ?case using assms by simp
  next case 2 then show ?case by simp
  next case 3 then show ?case by simp
  next case 4 then show ?case by simp }
next
  case (snoc e es)
  { case 1 then show ?case using load_entry_fields(1) [OF snoc.IH(1)] by simp
  next case 2 then show ?case using load_entry_fields(2) [OF snoc.IH(1), of e] snoc.IH(2) by simp
  next case 3 then show ?case using load_entry_fields(3) [OF snoc.IH(1), of e] snoc.IH(3) by simp
  next case 4 then show ?case using load_entry_fields(4) [OF snoc.IH(1), of k e] snoc.IH(4) by simp }
qed

definition pos_of :: "esp_partition_t \<Rightarrow> esp_partition_pos_t" where
  "pos_of p = \<lparr>pos_offset = p_address p, pos_size = p_size p\<rparr>"

lemma pos_of_info [simp]: "pos_of (partition_of_info e) = info_pos e"
  by (simp add: pos_of_def partition_of_info_def)

text \<open>A table on which both readers agree: no slot or OTA data entry occurs twice, and no slot
  beyond the first gap is used.\<close>

definition boot_table_ok :: "esp_partition_info_t list \<Rightarrow> nat \<Rightarrow> bool" where
  "boot_table_ok es n \<longleftrightarrow>
     distinct (map (\<lambda>e. (info_type e, info_subtype e)) (filter (\<lambda>e. is_slot_entry e \<or> is_ota_data_entry e) es))
     \<and> (\<forall>e \<in> set es. is_slot_entry e \<longrightarrow> unat (info_subtype e) < 16 + n)"

lemma slot_number: "(k::nat) < 16 \<Longrightarrow> x = 16 + k \<longleftrightarrow> x div 16 = 1 \<and> x mod 16 = k"
proof
  assume a: "x div 16 = 1 \<and> x mod 16 = k"
  have "x = x div 16 * 16 + x mod 16" by simp
  also have "\<dots> = 16 + k" using a by (simp only:)
  finally show "x = 16 + k" .
qed simp

lemma slot_entry_matches:
  assumes "k < 16"
  shows "it_matches ESP_PARTITION_TYPE_APP (ESP_PARTITION_SUBTYPE_APP_OTA_MIN + of_nat k) None (partition_of_info e)
    \<longleftrightarrow> is_slot_entry e \<and> unat (info_subtype e) mod 16 = k"
proof -
  let ?st = "ESP_PARTITION_SUBTYPE_APP_OTA_MIN + of_nat k :: u8"
  have u: "unat ?st = 16 + k"
    using assms unat_add_no_wrap [of "0x10 :: u8" "of_nat k"]
    by (simp add: ESP_PARTITION_SUBTYPE_APP_OTA_MIN_def unat_of_nat_small)
  have "?st \<noteq> 0xff" using u assms by auto
  then have "it_matches ESP_PARTITION_TYPE_APP ?st None (partition_of_info e)
      \<longleftrightarrow> info_type e = 0 \<and> unat (info_subtype e) = 16 + k"
    by (auto simp: it_matches_def partition_of_info_def ESP_PARTITION_TYPE_APP_def word_unat_eq_iff u)
  also have "\<dots> \<longleftrightarrow> is_slot_entry e \<and> unat (info_subtype e) mod 16 = k"
  proof -
    have "unat (info_subtype e) = 16 + k \<longleftrightarrow> unat (info_subtype e) div 16 = 1 \<and> unat (info_subtype e) mod 16 = k"
      by (rule slot_number [OF assms])
    then show ?thesis by (auto simp: is_slot_entry_def)
  qed
  finally show ?thesis .
qed

lemma table_relation:
  assumes lay: "ota_layout E (map partition_of_info es) od n" and ok: "boot_table_ok es n"
    and bs: "bs = foldl load_entry empty_bs (es @ others)"
    and others: "\<forall>e \<in> set others. \<not> is_slot_entry e \<and> \<not> is_ota_data_entry e"
  shows "bs_ota_info bs = pos_of od" and "app_count bs = of_nat n"
    and "app_slot (map partition_of_info es) k = Some p \<Longrightarrow> k < n \<Longrightarrow> bs_ota bs ! k = pos_of p"
proof -
  have len: "length (bs_ota empty_bs) = 16" by (simp add: empty_bs_def MAX_OTA_SLOTS_def)
  have n: "n \<le> 16" using lay by (simp add: ota_layout_def)
  have dist: "distinct (map (\<lambda>e. (info_type e, info_subtype e)) (filter (\<lambda>e. is_slot_entry e \<or> is_ota_data_entry e) es))"
    and gap: "\<forall>e \<in> set es. is_slot_entry e \<longrightarrow> unat (info_subtype e) < 16 + n"
    using ok by (simp_all add: boot_table_ok_def)
  have skip: "List.find P (rev (es @ others)) = List.find P (rev es)" if "\<And>e. P e \<Longrightarrow> is_slot_entry e \<or> is_ota_data_entry e" for P
  proof -
    have "List.find P (rev others) = None" using others that by (auto simp: find_None_iff)
    moreover have "List.find P (xs @ ys) = (case List.find P xs of None \<Rightarrow> List.find P ys | Some x \<Rightarrow> Some x)" for xs ys
      by (induction xs) auto
    ultimately show ?thesis by simp
  qed
  have od: "it_matches ESP_PARTITION_TYPE_DATA ESP_PARTITION_SUBTYPE_DATA_OTA None \<circ> partition_of_info = is_ota_data_entry"
    by (auto simp: it_matches_def partition_of_info_def is_ota_data_entry_def ESP_PARTITION_TYPE_DATA_def ESP_PARTITION_SUBTYPE_DATA_OTA_def)
  have "ota_data (map partition_of_info es) = Some od" using lay by (simp add: ota_layout_def)
  then obtain e where e: "List.find is_ota_data_entry es = Some e" "od = partition_of_info e"
    by (auto simp: ota_data_def find_map od)
  have "List.find is_ota_data_entry (rev es) = List.find is_ota_data_entry es"
    by (rule find_rev_unique [OF dist, where c = "(1, 0)"]) (auto simp: is_ota_data_entry_def)
  then show "bs_ota_info bs = pos_of od"
    using load_entries(3) [OF len, of "es @ others"] skip [of is_ota_data_entry] e by (simp add: bs)
  let ?S = "filter is_slot_entry es"
  have slot: "app_slot (map partition_of_info es) k
      = map_option partition_of_info (List.find (\<lambda>e. is_slot_entry e \<and> unat (info_subtype e) mod 16 = k) es)" if "k < n" for k
    using that n slot_entry_matches [of k] by (simp add: app_slot_def find_map o_def)
  have inj: "distinct (map (\<lambda>e. unat (info_subtype e)) ?S)"
  proof -
    have sub: "?S = filter is_slot_entry (filter (\<lambda>e. is_slot_entry e \<or> is_ota_data_entry e) es)"
      by (simp add: filter_filter) (metis (no_types, lifting))
    have "distinct (map (\<lambda>e. (info_type e, info_subtype e)) ?S)"
      unfolding sub by (rule distinct_map_filter [OF dist])
    then have d: "distinct ?S" "inj_on (\<lambda>e. (info_type e, info_subtype e)) (set ?S)" by (simp_all add: distinct_map)
    moreover have "inj_on (\<lambda>e. unat (info_subtype e)) (set ?S)"
    proof (rule inj_onI)
      fix x y assume xy: "x \<in> set ?S" "y \<in> set ?S" "unat (info_subtype x) = unat (info_subtype y)"
      then have "(info_type x, info_subtype x) = (info_type y, info_subtype y)"
        by (simp add: is_slot_entry_def word_unat_eq_iff)
      then show "x = y" using d(2) xy(1,2) by (meson inj_onD)
    qed
    ultimately show ?thesis by (simp add: distinct_map)
  qed
  have "set (map (\<lambda>e. unat (info_subtype e)) ?S) = {16..<16 + n}"
  proof (intro equalityI subsetI)
    fix x assume "x \<in> set (map (\<lambda>e. unat (info_subtype e)) ?S)"
    then obtain e where e: "e \<in> set es" "is_slot_entry e" "x = unat (info_subtype e)" by auto
    then show "x \<in> {16..<16 + n}" using gap div_mult_mod_eq [of x 16] by (auto simp: is_slot_entry_def)
  next
    fix x assume "x \<in> {16..<16 + n}"
    then have x: "x - 16 < n" "16 \<le> x" by auto
    then have "app_slot (map partition_of_info es) (x - 16) \<noteq> None" using lay by (simp add: ota_layout_def)
    then obtain e where "List.find (\<lambda>e. is_slot_entry e \<and> unat (info_subtype e) mod 16 = x - 16) es = Some e"
      using slot [OF x(1)] by auto
    then have e: "e \<in> set es" "is_slot_entry e" "unat (info_subtype e) mod 16 = x - 16"
      by (auto simp: find_Some_iff)
    then have "unat (info_subtype e) = x" using div_mult_mod_eq [of "unat (info_subtype e)" 16] x by (simp add: is_slot_entry_def)
    then show "x \<in> set (map (\<lambda>e. unat (info_subtype e)) ?S)" using e by force
  qed
  then have "card {16..<16 + n} = length ?S" using distinct_card [OF inj] by simp
  moreover have "filter is_slot_entry others = []" using others by (simp add: filter_empty_conv)
  ultimately show "app_count bs = of_nat n"
    using load_entries(2) [OF len, of "es @ others"] by (simp add: bs empty_bs_def)
  assume p: "app_slot (map partition_of_info es) k = Some p" and k: "k < n"
  let ?P = "\<lambda>e. is_slot_entry e \<and> unat (info_subtype e) mod 16 = k"
  have "map_option partition_of_info (List.find ?P es) = Some p" using slot [OF k] p by simp
  then obtain e where e: "List.find ?P es = Some e" "p = partition_of_info e" unfolding map_option_eq_Some by blast
  have P: "?P x \<Longrightarrow> (is_slot_entry x \<or> is_ota_data_entry x) \<and> (info_type x, info_subtype x) = (0, of_nat (16 + k))" for x
  proof -
    assume x: "?P x"
    then have "unat (info_subtype x) = 16 + k" using slot_number [of k "unat (info_subtype x)"] k n by (simp add: is_slot_entry_def)
    moreover have "info_subtype x = of_nat (unat (info_subtype x))" by simp
    ultimately have "info_subtype x = of_nat (16 + k)" by (simp only:)
    then show ?thesis using x by (simp add: is_slot_entry_def)
  qed
  have "List.find ?P (rev es) = List.find ?P es" by (rule find_rev_unique [OF dist P])
  then show "bs_ota bs ! k = pos_of p"
    using load_entries(4) [OF len, of k "es @ others"] skip [of ?P] e k n by (simp add: bs)
qed

section \<open>What the boot loader relies on\<close>

locale boot_cache =
  fixes B :: "'d boot_env" and cells :: "'d \<Rightarrow> mem"
  assumes window: "0x40200000 \<le> unat p \<Longrightarrow> unat p < 0x40300000 \<Longrightarrow>
      cache_load B d half p = cells d (unat p - 0x40200000 + (if half then 0x100000 else 0))"
begin

lemma mapped_read:
  assumes "bootloader_mmap a False = (Some p, m)" and "unat a + off + n \<le> (if unat a < 0x100000 then 0x100000 else 0x200000)"
  shows "mapped_bytes B d (fst p, snd p + of_nat off) n = mem_read (cells d) (unat a + off) n"
proof -
  let ?h = "\<not> unat a < 0x100000"
  let ?b = "if ?h then unat a - 0x100000 else unat a"
  have lt: "a < 0x100000 \<longleftrightarrow> unat a < 0x100000" by (simp add: word_less_nat_alt)
  have p: "fst p = ?h" using assms(1) by (auto simp: bootloader_mmap_def lt split: if_splits)
  have "unat (a - 0x100000) = unat a - 0x100000" if ?h using that by (simp add: unat_sub word_le_nat_alt)
  moreover have "snd p = 0x40200000 + (if ?h then a - 0x100000 else a)"
    using assms(1) by (auto simp: bootloader_mmap_def lt split: if_splits)
  moreover have "?b + off + n \<le> 0x100000" using assms(2) by (auto split: if_splits)
  ultimately have sp: "unat (snd p) = 0x40200000 + ?b" and b: "?b + off + n \<le> 0x100000"
    using unat_add_no_wrap [of "0x40200000 :: u32" "if ?h then a - 0x100000 else a"] by (auto split: if_splits)
  have "cache_load B d (fst p) (snd p + of_nat off + of_nat i) = cells d (unat a + off + i)" if i: "i < n" for i
  proof -
    have o: "unat (of_nat (off + i) :: u32) = off + i" using b i by (intro unat_of_nat_small) simp
    have "unat (snd p + of_nat (off + i)) = 0x40200000 + ?b + (off + i)"
      using unat_add_no_wrap [of "snd p" "of_nat (off + i)"] sp b i o by simp
    then have "unat (snd p + of_nat off + of_nat i) = 0x40200000 + (?b + (off + i))" by (simp add: add.assoc)
    then have "cache_load B d (fst p) (snd p + of_nat off + of_nat i) = cells d (?b + (off + i) + (if fst p then 0x100000 else 0))"
      using window [of "snd p + of_nat off + of_nat i" d "fst p"] b i by simp
    moreover have "?b + (off + i) + (if fst p then 0x100000 else 0) = unat a + off + i" using p by auto
    ultimately show ?thesis by (simp only:)
  qed
  then show ?thesis by (auto simp: mapped_bytes_def mem_read_def intro!: nth_equalityI)
qed

end

text \<open>A region of the flash inside one megabyte of the first two.\<close>

definition in_half :: "u32 \<Rightarrow> nat \<Rightarrow> bool" where
  "in_half a n \<longleftrightarrow> unat a + n \<le> (if unat a < 0x100000 then 0x100000 else 0x200000)"

lemma mmap_False: "\<exists>p. bootloader_mmap a False = (Some p, True)"
  by (auto simp: bootloader_mmap_def)

text \<open>The table in the flash: the entries \<open>ts\<close>, all of which pass the check, and an erased one
  behind them.\<close>

definition table_at :: "mem \<Rightarrow> u32 \<Rightarrow> u32 \<Rightarrow> esp_partition_info_t list \<Rightarrow> bool" where
  "table_at m chip_sz t ts \<longleftrightarrow> length ts < 96 \<and> in_half t (32 * (length ts + 1))
     \<and> (\<forall>e \<in> set ts. entry_ok chip_sz e \<and> length (info_label e) = 16)
     \<and> mem_read m (unat t) (32 * (length ts + 1)) = concat (map encode_partition_info ts) @ replicate 32 0xff"

lemma decode_erased: "table_end (decode_partition_info (replicate 32 0xff))"
proof -
  have "replicate 32 (0xff :: u8) = 0xff # 0xff # 0xff # 0xff # replicate 28 0xff" by (simp add: eval_nat_numeral)
  then show ?thesis by (simp add: decode_partition_info_def table_end_def)
qed

lemma table_at_entry:
  assumes "table_at m c t ts" and "i \<le> length ts"
  shows "decode_partition_info (mem_read m (unat t + 32 * i) 32)
    = (if i < length ts then ts ! i else decode_partition_info (replicate 32 0xff))"
proof -
  let ?n = "length ts" and ?all = "mem_read m (unat t) (32 * (length ts + 1))"
  have lab: "\<forall>e \<in> set ts. length (info_label e) = 16" and all: "?all = concat (map encode_partition_info ts) @ replicate 32 0xff"
    using assms(1) by (simp_all add: table_at_def)
  have "mem_read m (unat t + 32 * i) 32 = take 32 (drop (32 * i) ?all)"
    using assms(2) by (simp add: drop_mem_read take_mem_read)
  then have b: "mem_read m (unat t + 32 * i) 32 = take 32 (concat (map encode_partition_info (drop i ts)) @ replicate 32 0xff)"
    using drop_concat_encode [OF lab assms(2), of "replicate 32 0xff"] by (simp only: all)
  show ?thesis
  proof (cases "i < ?n")
    case True
    then have "drop i ts = ts ! i # drop (Suc i) ts" by (simp add: Cons_nth_drop_Suc)
    then have "mem_read m (unat t + 32 * i) 32 = encode_partition_info (ts ! i)"
      using b lab True by simp
    then show ?thesis using decode_encode_partition_info [of "ts ! i" "[]"] lab True by simp
  qed (use b in simp)
qed

context boot_cache begin

lemma load_table:
  assumes tab: "table_at (cells d) (chip_size (b_chip B)) (b_table_addr B) ts"
  shows "bootloader_utility_load_partition_table B d False bs = (Some (foldl load_entry bs ts), False)"
proof -
  let ?t = "b_table_addr B" and ?n = "length ts" and ?c = "chip_size (b_chip B)"
  obtain p where p: "bootloader_mmap ?t False = (Some p, True)" using mmap_False by blast
  define entry where "entry i = decode_partition_info (mapped_bytes B d (fst p, snd p + of_nat (32 * i)) 32)" for i
  have e: "entry i = (if i < ?n then ts ! i else decode_partition_info (replicate 32 0xff))" if "i \<le> ?n" for i
  proof -
    have "unat ?t + 32 * i + 32 \<le> (if unat ?t < 0x100000 then 0x100000 else 0x200000)"
      using tab that by (auto simp: table_at_def in_half_def split: if_splits)
    then show ?thesis using table_at_entry [OF tab that] mapped_read [OF p, of "32 * i" 32 d]
      by (simp add: entry_def del: of_nat_mult)
  qed
  have "verify_from ?c entry 0 = Inr ?n"
    unfolding verify_from_Inr using tab e decode_erased by (auto simp: table_at_def)
  moreover have "map entry [0..<?n] = ts" by (rule nth_equalityI) (simp_all add: e)
  ultimately show ?thesis
    by (simp add: bootloader_utility_load_partition_table_def p esp_partition_table_basic_verify_def bootloader_munmap_def
        entry_def [abs_def] Let_def)
qed

lemma select_slot:
  assumes info: "bs_ota_info bs = pos_of od" and nz: "p_address od \<noteq> 0" and sz: "0x2000 \<le> unat (p_size od)"
    and half: "in_half (p_address od) 0x2000" and cnt: "app_count bs = of_nat n" and n: "0 < n" "n \<le> 16"
    and slot: "boot_slot (ota_select_at (cells d) od 0) (ota_select_at (cells d) od 1) n = Some k"
  shows "bootloader_utility_get_selected_boot_partition B d False bs = Some (int k, False)"
proof -
  let ?a = "p_address od"
  obtain p where p: "bootloader_mmap ?a False = (Some p, True)" using mmap_False by blast
  have a0: "mapped_bytes B d p 32 = mem_read (cells d) (unat ?a) 32"
    using mapped_read [OF p, of 0 32] half by (simp add: in_half_def split: if_splits)
  have a1: "mapped_bytes B d (fst p, snd p + 0x1000) 32 = mem_read (cells d) (unat ?a + 4096) 32"
    using mapped_read [OF p, of 4096 32] half by (simp add: in_half_def split: if_splits)
  let ?e0 = "ota_select_at (cells d) od 0" and ?e1 = "ota_select_at (cells d) od 1"
  have u: "unat (of_nat n :: u32) = n" using n by (simp add: unat_of_nat_small)
  then have nz': "app_count bs \<noteq> 0" using n cnt by (metis gr_implies_not0 unat_0)
  have md: "uint ((sq - 1) mod app_count bs) = int (unat (sq - 1) mod n)" for sq :: u32
  proof -
    have "unat ((sq - 1) mod app_count bs) = unat (sq - 1) mod n" by (simp only: unat_mod u cnt)
    then show ?thesis by (metis uint_nat)
  qed
  have mx: "(if ota_seq ?e0 > ota_seq ?e1 then ota_seq ?e0 else ota_seq ?e1) = max (ota_seq ?e0) (ota_seq ?e1)"
    by (auto simp: max_def)
  have nb: "\<not> (ota_seq ?e0 = 0xFFFFFFFF \<and> ota_seq ?e1 = 0xFFFFFFFF)"
    using slot by (auto simp: boot_slot_def selected_seq_def ota_select_valid_def)
  have big: "\<not> pos_size (pos_of od) < 2 * 0x1000" using sz by (simp add: pos_of_def word_less_nat_alt)
  have run: "bootloader_utility_get_selected_boot_partition B d False bs =
     (if ota_select_valid ?e0 \<and> ota_select_valid ?e1 then Some (uint ((max (ota_seq ?e0) (ota_seq ?e1) - 1) mod app_count bs), False)
      else if ota_select_valid ?e0 then Some (uint ((ota_seq ?e0 - 1) mod app_count bs), False)
      else if ota_select_valid ?e1 then Some (uint ((ota_seq ?e1 - 1) mod app_count bs), False)
      else Some (FACTORY_INDEX, False))"
    using nz big nb nz' unfolding bootloader_utility_get_selected_boot_partition_def info
    by (simp add: pos_of_def p a0 a1 bootloader_munmap_def Let_def mx flip: ota_select_at_def [of "cells d" od 0, simplified]
      ota_select_at_def [of "cells d" od 1, simplified]) blast
  show ?thesis
    using slot unfolding run md by (auto simp: boot_slot_def selected_seq_def split: if_splits)
qed

end

section \<open>The boot loader on the example chip\<close>

definition example_boot :: "mem boot_env" where
  "example_boot = \<lparr>b_chip = chip (nor_chip 0x100000), b_table_addr = 0x8000,
     cache_load = (\<lambda>d half p. d (unat p - 0x40200000 + (if half then 0x100000 else 0))),
     b_image_load = (\<lambda>pos d. Some (no_metadata\<lparr>start_addr := pos_offset pos, image_len := pos_size pos\<rparr>))\<rparr>"

interpretation example_cache: boot_cache example_boot "\<lambda>d. d"
  by unfold_locales (simp add: example_boot_def)

lemma example_table_at: "table_at example_flash (chip_size (b_chip example_boot)) (b_table_addr example_boot) example_table"
proof -
  let ?es = "concat (map encode_partition_info example_table)"
  have len: "length ?es = 96" by (simp add: example_table_def example_info_def)
  have "mem_read example_flash 0x8000 128 = ?es @ mem_read (\<lambda>_. 0xff) (0x8000 + 96) 32"
    using mem_read_mem_write_prefix [of ?es 128 "\<lambda>_. 0xff" "0x8000"] len by (simp add: example_flash_def)
  moreover have "mem_read (\<lambda>_. 0xff) a n = replicate n 0xff" for a n by (simp add: mem_read_def map_replicate_const)
  ultimately have "mem_read example_flash 0x8000 128 = ?es @ replicate 32 0xff" by (simp only:)
  moreover have "\<forall>e \<in> set example_table. entry_ok 0x100000 e \<and> length (info_label e) = 16"
    by (simp add: example_table_def example_info_def entry_ok_def)
  ultimately show ?thesis
    by (simp add: table_at_def example_boot_def nor_chip_def g_rom_flashchip_def in_half_def example_table_def)
qed

section \<open>From the call to the jump\<close>

lemma set_boot_then_select:
  assumes "ota_flash E cells" and "boot_cache B cells"
    and tab: "table_at (cells (dev s)) (chip_size (b_chip B)) (b_table_addr B) (es @ others)"
    and others: "\<forall>e \<in> set others. info_type e = 0xff"
    and lay: "ota_layout E (map partition_of_info es) od n" and ok: "boot_table_ok es n"
    and ps: "s_partition_list s = map partition_of_info es"
    and od: "p_address od \<noteq> 0" "in_half (p_address od) 0x2000"
    and apart: "unat (b_table_addr B) + 32 * (length (es @ others) + 1) \<le> unat (p_address od)
        \<or> unat (p_address od) + 0x2000 \<le> unat (b_table_addr B)"
    and p: "k < n" "app_slot (map partition_of_info es) k = Some p" "p_size p \<noteq> 0"
    and img: "esp_image_load E (pos_of p) (dev s) \<noteq> None"
    and seqs: "\<forall>i \<in> {0, 1}. ota_select_valid (ota_select_at (cells (dev s)) od i) \<longrightarrow>
      0 < ota_seq (ota_select_at (cells (dev s)) od i) \<and> unat (ota_seq (ota_select_at (cells (dev s)) od i)) + 32 < 2 ^ 32"
  shows "\<exists>s' j. (j = 0 \<or> j = 1) \<and> same_outside (unat (p_address od) + 4096 * j) 4096 (cells (dev s)) (cells (dev s'))
    \<and> esp_ota_set_boot_partition E (Some p) s = Some (s', ESP_OK)
    \<and> (\<forall>im. b_image_load B (pos_of p) (dev s') = Some im \<longrightarrow> select_image B (dev s') False = Some (Inr im))"
proof -
  have n: "0 < n" "n \<le> 16" and sz: "0x2000 \<le> unat (p_size od)" using lay by (simp_all add: ota_layout_def)
  have "k < 16" using p(1) n by simp
  note q = app_slot_subtype [OF p(2) this]
  obtain s' j where set: "esp_rewrite_ota_data E (p_subtype p) s = Some (s', ESP_OK)"
    and slot: "boot_slot (ota_select_at (cells (dev s')) od 0) (ota_select_at (cells (dev s')) od 1) n = Some k"
    and j: "j = 0 \<or> j = 1"
    and same: "same_outside (unat (p_address od) + 4096 * j) 4096 (cells (dev s)) (cells (dev s'))"
    by (rule ota_flash.rewrite_data_ok [OF assms(1) lay ps q(3) p(1) refl refl]) (use seqs in auto)
  have set': "esp_ota_set_boot_partition E (Some p) s = Some (s', ESP_OK)"
    using ota_flash.set_boot_ok [OF assms(1) lay ps _ q(1,4)] img set by (simp add: pos_of_def)
  let ?bs = "foldl load_entry empty_bs (es @ others)"
  have tab': "table_at (cells (dev s')) (chip_size (b_chip B)) (b_table_addr B) (es @ others)"
    using tab apart j mem_read_same_outside [OF same, of "unat (b_table_addr B)" "32 * (length (es @ others) + 1)"]
    by (auto simp: table_at_def)
  have no_slot: "\<forall>e \<in> set others. \<not> is_slot_entry e \<and> \<not> is_ota_data_entry e"
    using others by (auto simp: is_slot_entry_def is_ota_data_entry_def)
  note rel = table_relation [OF lay ok refl no_slot]
  have sel: "bootloader_utility_get_selected_boot_partition B (dev s') False ?bs = Some (int k, False)"
    by (rule boot_cache.select_slot [OF assms(2) rel(1) od(1) sz od(2) rel(2) n slot])
  have "bootloader_utility_load_boot_image B (dev s') ?bs (int k) = Some im"
    if "b_image_load B (pos_of p) (dev s') = Some im" for im
  proof -
    have u: "unat (of_nat n :: u32) = n" "unat (of_nat k :: u32) = k" using n p(1) by (simp_all add: unat_of_nat_small)
    have "index_to_partition ?bs (int k) = pos_of p"
      using rel(2) rel(3) [OF p(2,1)] n p(1) u
      by (simp add: index_to_partition_def FACTORY_INDEX_def TEST_APP_INDEX_def MAX_OTA_SLOTS_def word_less_nat_alt)
    then have "try_load_partition B (dev s') (index_to_partition ?bs (int k)) = Some im"
      using that p(3) by (simp add: try_load_partition_def pos_of_def)
    moreover have "rev [-1..int k] = int k # rev [-1..int k - 1]" by (simp add: upto_rec2)
    ultimately show ?thesis using n p(1) by (simp add: load_boot_image_eq)
  qed
  then have "select_image B (dev s') False = Some (Inr im)" if "b_image_load B (pos_of p) (dev s') = Some im" for im
    using that boot_cache.load_table [OF assms(2) tab', of empty_bs] sel
    by (simp add: select_image_def INVALID_INDEX_def)
  then show ?thesis using set' same j by blast
qed

section \<open>The verifier and the loader\<close>

text \<open>\<^verbatim>\<open>esp_image_load\<close> as the application uses it, for the entry address, and as the boot
  loader uses it; a call that does not return is no image.\<close>

definition image_loaded :: "('d, 'h) image_env \<Rightarrow> esp_partition_pos_t \<Rightarrow> 'd \<Rightarrow> esp_image_metadata_t option" where
  "image_loaded I pos d = (case esp_image_load_data I pos d of Some (Inr md) \<Rightarrow> Some md | _ \<Rightarrow> None)"

definition image_entry :: "('d, 'h) image_env \<Rightarrow> esp_partition_pos_t \<Rightarrow> 'd \<Rightarrow> u32 option" where
  "image_entry I pos d = map_option (\<lambda>md. entry_addr (image md)) (image_loaded I pos d)"

lemma segs_at_cong:
  "(\<And>i. a \<le> i \<Longrightarrow> i < a + segs_size ss \<Longrightarrow> m' i = m i) \<Longrightarrow> segs_at m' a ss \<longleftrightarrow> segs_at m a ss"
proof (induction m a ss rule: segs_at.induct)
  case (2 m a l bs ss)
  have "mem_read m' a 8 = mem_read m a 8" "mem_read m' (a + 8) (length bs) = mem_read m (a + 8) (length bs)"
    by (rule mem_read_cong; use 2(2) in simp)+
  moreover have "segs_at m' (a + 8 + length bs) ss \<longleftrightarrow> segs_at m (a + 8 + length bs) ss"
    by (rule 2(1)) (use 2(2) in simp)
  ultimately show ?case by simp
qed simp

lemma image_cong:
  assumes "\<And>i. a \<le> i \<Longrightarrow> i < a + image_total I ss \<Longrightarrow> m' i = m i"
  shows "image_at m' a h ss \<longleftrightarrow> image_at m a h ss" and "image_intact I m' a sz ss \<longleftrightarrow> image_intact I m a sz ss"
proof -
  have le: "8 + segs_size ss \<le> image_total I ss" using padded_len_bounds(1) [of ss] by (simp add: image_total_def)
  have "mem_read m' a 8 = mem_read m a 8" by (rule mem_read_cong) (use assms le in simp)
  moreover have "segs_at m' (a + 8) ss \<longleftrightarrow> segs_at m (a + 8) ss" by (rule segs_at_cong) (use assms le in simp)
  ultimately show "image_at m' a h ss \<longleftrightarrow> image_at m a h ss" by (simp add: image_at_def)
  have "sum_ok m' a ss \<longleftrightarrow> sum_ok m a ss" if "check_sum I"
    using assms [of "a + padded_len ss - 1"] that padded_len_bounds(1) [of ss] by (simp add: sum_ok_def image_total_def)
  moreover have "hash_ok m' a ss \<longleftrightarrow> hash_ok m a ss" if "check_hash I"
  proof -
    have "mem_read m' (a + padded_len ss) 32 = mem_read m (a + padded_len ss) 32" "mem_read m' a (padded_len ss) = mem_read m a (padded_len ss)"
      by (rule mem_read_cong; use assms that in \<open>simp add: image_total_def\<close>)+
    then show ?thesis by (simp add: hash_ok_def)
  qed
  ultimately show "image_intact I m' a sz ss \<longleftrightarrow> image_intact I m a sz ss" by (auto simp: image_intact_def)
qed

lemma example_flash_selects:
  assumes "od = partition_of_info (example_info 1 0 0xd000 0x2000)"
    and "mem_read m (0xd000 + 4096 * i) 32 = mem_read example_flash (0xd000 + 4096 * i) 32"
  shows "ota_select_at m od i = \<lparr>ota_seq = 0xFFFFFFFF, seq_label = replicate 24 0xff, ota_crc = 0xFFFFFFFF\<rparr>"
proof -
  have "mem_read example_flash (0xd000 + 4096 * i) 32 = mem_read (\<lambda>_. 0xff) (0xd000 + 4096 * i) 32"
    unfolding example_flash_def by (rule mem_read_mem_write_other) (simp add: example_table_def example_info_def)
  then show ?thesis
    using assms example_selects [of od i] by (simp add: ota_select_at_def partition_of_info_def example_info_def example_state_def)
qed

section \<open>Properties\<close>

text \<open>C38: The table check is exact: esp_partition_table_basic_verify accepts a table with m entries
  exactly when entry m, with m below 96, is the erased end mark and every entry before it either has
  the partition magic, an offset within the chip and offset + size (in 32 bits) within the chip, or
  has the MD5 magic; and then no entry behind the end is looked at.\<close>

theorem partition_table_verify_exact:
  "esp_partition_table_basic_verify chip_sz entry = Inr m
    \<longleftrightarrow> m < 96 \<and> table_end (entry m) \<and> (\<forall>i < m. entry_ok chip_sz (entry i))"
  by (simp add: esp_partition_table_basic_verify_def verify_from_Inr)

lemma partition_table_verify_exact_witness:
  "esp_partition_table_basic_verify 0x100000 (\<lambda>i. if i = 0 then example_info 0 0x10 0x10000 0xFFFF8000
      else decode_partition_info (replicate 32 0xff)) = Inr 1"
  using partition_table_verify_exact [of "0x100000" "\<lambda>i. if i = 0 then example_info 0 0x10 0x10000 0xFFFF8000
      else decode_partition_info (replicate 32 0xff)" 1] decode_erased
  by (simp add: entry_ok_def example_info_def)

text \<open>The search for an image is exhaustive and ordered. Starting from slot start (or the factory
  index -1), bootloader_utility_load_boot_image loads the first loadable image of: start, start - 1,
  ..., 0, factory, start + 1, ..., the last slot, test. It fails exactly when neither factory, nor
  any of the counted slots, nor test is loadable.\<close>

lemma boot_search_exhaustive:
  assumes "-1 \<le> start" and "start < 16" and "length (bs_ota bs) = 16"
  shows "bootloader_utility_load_boot_image B d bs start = first_some (try_load_partition B d)
      (map (index_to_partition bs) (rev [-1..start] @ [start + 1..uint (app_count bs) - 1]) @ [bs_test bs])
    \<and> (bootloader_utility_load_boot_image B d bs start = None
      \<longleftrightarrow> (\<forall>pos \<in> set (bs_factory bs # take (unat (app_count bs)) (bs_ota bs) @ [bs_test bs]). try_load_partition B d pos = None))"
  by (intro conjI load_boot_image_eq [OF assms(1,2)] boot_order_none [OF assms])

lemma boot_search_exhaustive_witness:
  "\<forall>d. bootloader_utility_load_boot_image example_boot d empty_bs 0 = None"
proof -
  have "length (bs_ota empty_bs) = 16" by (simp add: empty_bs_def MAX_OTA_SLOTS_def)
  moreover have "try_load_partition example_boot d no_pos = None" for d by (simp add: try_load_partition_def no_pos_def)
  ultimately show ?thesis
    using boot_search_exhaustive [THEN conjunct2, of 0 empty_bs example_boot] by (simp add: empty_bs_def)
qed

text \<open>C14: Application and boot loader agree, from the call to the jump. On a working chip whose flash
  holds a table of entries es, followed by MD5 entries, that has OTA slots 0 to n - 1, each once, and an OTA
  data partition that does not overlap the table, its valid selection entries with a sequence number above 0 and below 2^32 - 32,
  when the application has loaded that table and calls esp_ota_set_boot_partition on slot p, the call returns ESP_OK and the next run of the boot
  loader's select_image picks exactly the image of p, if that image loads.\<close>

theorem boot_follows_set_boot_partition:
  assumes "ota_flash E cells" and "boot_cache B cells"
    and tab: "table_at (cells (dev s)) (chip_size (b_chip B)) (b_table_addr B) (es @ others)"
    and others: "\<forall>e \<in> set others. info_type e = 0xff"
    and lay: "ota_layout E (map partition_of_info es) od n" and ok: "boot_table_ok es n"
    and ps: "s_partition_list s = map partition_of_info es"
    and od: "p_address od \<noteq> 0" "in_half (p_address od) 0x2000"
    and apart: "unat (b_table_addr B) + 32 * (length (es @ others) + 1) \<le> unat (p_address od)
        \<or> unat (p_address od) + 0x2000 \<le> unat (b_table_addr B)"
    and p: "k < n" "app_slot (map partition_of_info es) k = Some p" "p_size p \<noteq> 0"
    and img: "esp_image_load E (pos_of p) (dev s) \<noteq> None"
    and seqs: "\<forall>i \<in> {0, 1}. ota_select_valid (ota_select_at (cells (dev s)) od i) \<longrightarrow>
      0 < ota_seq (ota_select_at (cells (dev s)) od i) \<and> unat (ota_seq (ota_select_at (cells (dev s)) od i)) + 32 < 2 ^ 32"
  shows "\<exists>s'. esp_ota_set_boot_partition E (Some p) s = Some (s', ESP_OK)
    \<and> (\<forall>im. b_image_load B (pos_of p) (dev s') = Some im \<longrightarrow> select_image B (dev s') False = Some (Inr im))"
  using set_boot_then_select [OF assms] by blast

lemma boot_follows_set_boot_partition_witness:
  "\<exists>s'. esp_ota_set_boot_partition example_env (Some (partition_of_info (example_info 0 0x11 0x40000 0x20000)))
        (example_state\<lparr>dev := example_flash\<rparr>) = Some (s', ESP_OK)
     \<and> select_image example_boot (dev s') False
       = Some (Inr (no_metadata\<lparr>start_addr := 0x40000, image_len := 0x20000\<rparr>))"
proof -
  note sel = example_flash_selects [where m = example_flash, OF _ refl]
  have ok: "boot_table_ok example_table 2"
    by (simp add: boot_table_ok_def is_slot_entry_def is_ota_data_entry_def example_table_def example_info_def)
  have "\<exists>s'. esp_ota_set_boot_partition example_env (Some (partition_of_info (example_info 0 0x11 0x40000 0x20000)))
        (example_state\<lparr>dev := example_flash\<rparr>) = Some (s', ESP_OK)
     \<and> (\<forall>im. b_image_load example_boot (pos_of (partition_of_info (example_info 0 0x11 0x40000 0x20000))) (dev s') = Some im
        \<longrightarrow> select_image example_boot (dev s') False = Some (Inr im))"
    by (rule boot_follows_set_boot_partition [OF example_ota.ota_flash_axioms example_cache.boot_cache_axioms, where others = "[]",
          OF _ _ example_layout [unfolded example_parts_def] ok _ _ _ _ _ example_slots(2) [unfolded example_parts_def]])
      (use example_table_at in \<open>simp_all add: sel ota_select_valid_def\<close>,
       simp_all add: example_state_def example_parts_def example_env_def partition_of_info_def example_info_def in_half_def
         example_boot_def example_table_def)
  then show ?thesis by (simp add: example_boot_def example_info_def)
qed

text \<open>C13: A verified update boots. Take the application and the boot loader with their own builds of
  esp_image_load (same checks configured, each reading the same chip), a table with OTA slots and OTA data as there, the valid selection entries with a sequence
  number above 0 and below 2^32 - 32, and an image in slot p, a partition of at most 16 MB that starts at a multiple of four, within the chip and apart from the OTA data. If the image is intact (check sum, hash, length),
  esp_ota_set_boot_partition returns ESP_OK and the next run of select_image boots
  that image, with the metadata of its segments; if it is not, the call returns ESP_ERR_OTA_VALIDATE_FAILED and changes
  nothing.\<close>

theorem verified_image_boots:
  assumes "ota_flash E cells" and "boot_cache B cells"
    and A: "image_flash A cells na" "esp_image_load E = image_entry A"
    and L: "image_flash L cells nb" "b_image_load B = image_loaded L"
    and same: "check_sum A = check_sum L" "check_hash A = check_hash L"
    and tab: "table_at (cells (dev s)) (chip_size (b_chip B)) (b_table_addr B) (es @ others)"
    and others: "\<forall>e \<in> set others. info_type e = 0xff"
    and lay: "ota_layout E (map partition_of_info es) od n" and ok: "boot_table_ok es n"
    and ps: "s_partition_list s = map partition_of_info es"
    and od: "p_address od \<noteq> 0" "in_half (p_address od) 0x2000"
    and apart: "unat (b_table_addr B) + 32 * (length (es @ others) + 1) \<le> unat (p_address od)
        \<or> unat (p_address od) + 0x2000 \<le> unat (b_table_addr B)"
    and p: "k < n" "app_slot (map partition_of_info es) k = Some p" "p_size p \<noteq> 0"
    and seqs: "\<forall>i \<in> {0, 1}. ota_select_valid (ota_select_at (cells (dev s)) od i) \<longrightarrow>
      0 < ota_seq (ota_select_at (cells (dev s)) od i) \<and> unat (ota_seq (ota_select_at (cells (dev s)) od i)) + 32 < 2 ^ 32"
    and img: "image_at (cells (dev s)) (unat (p_address p)) h ss" "unat (p_address p) mod 4 = 0" "p_size p \<le> SIXTEEN_MB"
      "unat (p_address p) + image_total A ss \<le> min na nb"
    and free: "unat (p_address p) + image_total A ss \<le> unat (p_address od) \<or> unat (p_address od) + 0x2000 \<le> unat (p_address p)"
  shows "if image_intact A (cells (dev s)) (unat (p_address p)) (unat (p_size p)) ss
    then \<exists>s'. esp_ota_set_boot_partition E (Some p) s = Some (s', ESP_OK)
      \<and> select_image B (dev s') False = Some (Inr (image_metadata L (p_address p) h ss))
    else esp_ota_set_boot_partition E (Some p) s = Some (s, ESP_ERR_OTA_VALIDATE_FAILED)"
proof (cases "image_intact A (cells (dev s)) (unat (p_address p)) (unat (p_size p)) ss")
  case False
  then have "esp_image_load E (pos_of p) (dev s) = None"
    using image_flash.load_data_eq [OF A(1) img(1-3)] img(4) by (simp add: A(2) image_entry_def image_loaded_def pos_of_def)
  then show ?thesis using False by (simp add: esp_ota_set_boot_partition_def pos_of_def)
next
  case True
  have tot: "image_total L ss = image_total A ss" and intact: "image_intact L m a sz ss = image_intact A m a sz ss" for m a sz
    using same by (simp_all add: image_total_def image_intact_def)
  have "esp_image_load E (pos_of p) (dev s) \<noteq> None"
    using True image_flash.load_data_eq [OF A(1) img(1-3)] img(4) by (simp add: A(2) image_entry_def image_loaded_def pos_of_def)
  then obtain s' j where j: "j = 0 \<or> j = 1"
    and kept: "same_outside (unat (p_address od) + 4096 * j) 4096 (cells (dev s)) (cells (dev s'))"
    and set: "esp_ota_set_boot_partition E (Some p) s = Some (s', ESP_OK)"
    and sel: "\<forall>im. b_image_load B (pos_of p) (dev s') = Some im \<longrightarrow> select_image B (dev s') False = Some (Inr im)"
    using set_boot_then_select [OF assms(1,2) tab others lay ok ps od apart p _ seqs] by blast
  have "cells (dev s') i = cells (dev s) i" if "unat (p_address p) \<le> i" "i < unat (p_address p) + image_total L ss" for i
    using kept free j that by (auto simp: same_outside_def tot)
  note keep = this
  have at': "image_at (cells (dev s')) (unat (p_address p)) h ss"
    using img(1) image_cong(1) [of "unat (p_address p)" L ss "cells (dev s')" "cells (dev s)" h, OF keep] by simp
  have "image_intact L (cells (dev s')) (unat (p_address p)) (unat (p_size p)) ss"
    using True image_cong(2) [of "unat (p_address p)" L ss "cells (dev s')" "cells (dev s)", OF keep] by (simp add: intact)
  then have "b_image_load B (pos_of p) (dev s') = Some (image_metadata L (p_address p) h ss)"
    using image_flash.load_data_eq [OF L(1) at' img(2,3)] img(4) by (simp add: L(2) image_loaded_def pos_of_def tot)
  then show ?thesis using True set sel by auto
qed

lemma verified_image_boots_witness:
  "\<exists>s' md. esp_ota_set_boot_partition
        (example_env\<lparr>esp_image_load := image_entry (example_image_env (app_reads (nor_chip 0x100000) (\<lambda>dst n. replicate n 0)))\<rparr>)
        (Some (partition_of_info (example_info 0 0x11 0x40000 0x20000)))
        (example_state\<lparr>dev := mem_write example_flash 0x40000 example_image\<rparr>) = Some (s', ESP_OK)
     \<and> select_image (example_boot\<lparr>b_image_load := image_loaded (example_image_env (boot_reads (nor_chip 0x100000) (\<lambda>dst n. replicate n 0)))\<rparr>)
         (dev s') False = Some (Inr md) \<and> start_addr md = 0x40000 \<and> image_len md = 32"
proof -
  let ?A = "example_image_env (app_reads (nor_chip 0x100000) (\<lambda>dst n. replicate n 0))"
    and ?L = "example_image_env (boot_reads (nor_chip 0x100000) (\<lambda>dst n. replicate n 0))"
  let ?E = "example_env\<lparr>esp_image_load := image_entry ?A\<rparr>" and ?B = "example_boot\<lparr>b_image_load := image_loaded ?L\<rparr>"
    and ?m = "mem_write example_flash 0x40000 example_image" and ?ss = "[(0x40210100 :: u32, [1, 2, 4, 8 :: u8])]"
  let ?s = "example_state\<lparr>dev := ?m\<rparr>"
  have len: "length example_image = 32" by (simp add: example_image_def)
  have other: "mem_read ?m a n = mem_read example_flash a n" if "a + n \<le> 0x40000" for a n
    by (rule mem_read_mem_write_other) (use that in simp)
  have "mem_read ?m 0x40000 32 = example_image"
    using mem_read_mem_write [of example_flash "0x40000" example_image] by (simp only: len)
  note at = example_image_at [OF this]
  have intact: "image_intact ?A ?m 0x40000 0x20000 ?ss"
    using at(2) by (simp add: image_intact_def image_total_def padded_len_def)
  have E: "ota_flash ?E (\<lambda>d. d)" using example_ota.ota_flash_axioms by (simp add: ota_flash_def)
  have B: "boot_cache ?B (\<lambda>d. d)" by unfold_locales (simp add: example_boot_def)
  have tab: "table_at ?m (chip_size (b_chip ?B)) (b_table_addr ?B) (example_table @ [])"
    using example_table_at other [of "0x8000" 128] by (simp add: table_at_def example_boot_def example_table_def)
  have lay: "ota_layout ?E (map partition_of_info example_table) (partition_of_info (example_info 1 0 0xd000 0x2000)) 2"
    using example_layout by (simp add: ota_layout_def example_parts_def)
  have ok: "boot_table_ok example_table 2"
    by (simp add: boot_table_ok_def is_slot_entry_def is_ota_data_entry_def example_table_def example_info_def)
  have sel: "ota_select_at ?m (partition_of_info (example_info 1 0 0xd000 0x2000)) i = \<lparr>ota_seq = 0xFFFFFFFF, seq_label = replicate 24 0xff, ota_crc = 0xFFFFFFFF\<rparr>"
    if "i \<in> {0, 1}" for i
    by (rule example_flash_selects [OF refl]) (rule other, use that in auto)
  let ?p = "partition_of_info (example_info 0 0x11 0x40000 0x20000)"
    and ?h = "\<lparr>h_magic = 0xE9, segment_count = 1, spi_mode = 0, spi_speed = 0, spi_size = 0, entry_addr = 0x40210100\<rparr>"
  have p: "p_address ?p = 0x40000" "p_size ?p = 0x20000" by (simp_all add: partition_of_info_def example_info_def)
  have "if image_intact ?A (dev ?s) (unat (p_address ?p)) (unat (p_size ?p)) ?ss
    then \<exists>s'. esp_ota_set_boot_partition ?E (Some ?p) ?s = Some (s', ESP_OK)
      \<and> select_image ?B (dev s') False = Some (Inr (image_metadata ?L (p_address ?p) ?h ?ss))
    else esp_ota_set_boot_partition ?E (Some ?p) ?s = Some (?s, ESP_ERR_OTA_VALIDATE_FAILED)"
    by (rule verified_image_boots [OF E B app_image.image_flash_axioms _ boot_image.image_flash_axioms _ _ _ _ _ lay ok,
        where others = "[]" and k = 1])
      (use tab sel at(1) p example_slots(2) [unfolded example_parts_def] in \<open>simp_all add: ota_select_valid_def image_total_def padded_len_def SIXTEEN_MB_def\<close>,
       simp_all add: example_state_def example_parts_def partition_of_info_def example_info_def in_half_def example_boot_def example_table_def)
  note main = this [unfolded p]
  obtain s' where "esp_ota_set_boot_partition ?E (Some ?p) ?s = Some (s', ESP_OK)"
      "select_image ?B (dev s') False = Some (Inr (image_metadata ?L 0x40000 ?h ?ss))"
    using main intact by auto
  moreover have "start_addr (image_metadata ?L 0x40000 h ?ss) = 0x40000 \<and> image_len (image_metadata ?L 0x40000 h ?ss) = 32" for h
    by (simp add: image_metadata_def image_total_def padded_len_def)
  ultimately show ?thesis by blast
qed

end
