(* ===== verification/Heap_Caps.thy ===== *)
theory Heap_Caps
  imports Prelude "HOL-Library.Monad_Syntax"
begin

text \<open>
  The heap allocator, \<^verbatim>\<open>components/heap\<close>: \<^verbatim>\<open>src/esp_heap_caps.c\<close>,
  the inline functions of \<^verbatim>\<open>port/esp8266/include/priv/esp_heap_caps_priv.h\<close>, the regions of
  \<^verbatim>\<open>port/esp8266/esp_heap_init.c\<close> and the trace switch of
  \<^verbatim>\<open>src/esp_heap_trace.c\<close>.

  The memory is a map from addresses to bytes, and the headers of the blocks lie in it, as in the code: a block
  at address b has the word \<^verbatim>\<open>prev\<close> at b, with the used tag in bit 31, the word \<^verbatim>\<open>next\<close> at
  b + 4, with the trace tag in bit 31, and, if it is traced, the caller at b + 8 and b + 12. The loops over the
  chain of blocks may not end in a broken chain: the result \<open>None\<close> is a call that does not
  return. The interrupt lock around the region is not modelled, nor are the log lines.
\<close>

section \<open>Structures\<close>

definition HEAP_ALIGN :: "u32 \<Rightarrow> u32" where "HEAP_ALIGN p = (p + (4 - 1)) AND NOT (4 - 1)"
definition MEM_BLK_MIN :: u32 where "MEM_BLK_MIN = 1"
definition MEM_HEAD_SIZE :: u32 where "MEM_HEAD_SIZE = 8"
definition MEM2_HEAD_SIZE :: u32 where "MEM2_HEAD_SIZE = 16"
definition MEM_BLK_TAG :: u32 where "MEM_BLK_TAG = 0x80000000"
definition MEM_BLK_TRACE :: u32 where "MEM_BLK_TRACE = 0x80000000"
definition MALLOC_CAP_32BIT :: u32 where "MALLOC_CAP_32BIT = push_bit 1 1"
definition MALLOC_CAP_8BIT :: u32 where "MALLOC_CAP_8BIT = push_bit 2 1"
definition MALLOC_CAP_DMA :: u32 where "MALLOC_CAP_DMA = push_bit 3 1"

record heap_region_t =
  hr_start_addr :: u32
  hr_total_size :: u32
  hr_caps :: u32
  hr_free_blk :: u32
  hr_free_bytes :: u32
  hr_min_free_bytes :: u32

datatype heap_trace_mode_t = HEAP_TRACE_NONE | HEAP_TRACE_LEAKS

record heap_state =
  h_mem :: mem
  g_heap_region :: "heap_region_t list"
  g_heap_trace_mode :: heap_trace_mode_t

section \<open>Headers\<close>

definition mem_blk_get_ptr :: "mem \<Rightarrow> u32 \<Rightarrow> u32 \<Rightarrow> u32 \<Rightarrow> u32" where
  "mem_blk_get_ptr m b off msk = ld32 m (unat (b + 4 * off)) AND NOT msk"

definition mem_blk_set_ptr :: "mem \<Rightarrow> u32 \<Rightarrow> u32 \<Rightarrow> u32 \<Rightarrow> u32 \<Rightarrow> mem" where
  "mem_blk_set_ptr m b val off msk =
    (let bits = ld32 m (unat (b + 4 * off)) AND msk in st32 m (unat (b + 4 * off)) (val OR bits))"

definition mem_blk_prev :: "mem \<Rightarrow> u32 \<Rightarrow> u32" where "mem_blk_prev m b = mem_blk_get_ptr m b 0 MEM_BLK_TAG"
definition mem_blk_next :: "mem \<Rightarrow> u32 \<Rightarrow> u32" where "mem_blk_next m b = mem_blk_get_ptr m b 1 MEM_BLK_TRACE"

definition mem_blk_set_prev :: "u32 \<Rightarrow> u32 \<Rightarrow> mem \<Rightarrow> mem" where
  "mem_blk_set_prev b v m = mem_blk_set_ptr m b v 0 MEM_BLK_TAG"

definition mem_blk_set_next :: "u32 \<Rightarrow> u32 \<Rightarrow> mem \<Rightarrow> mem" where
  "mem_blk_set_next b v m = mem_blk_set_ptr m b v 1 MEM_BLK_TRACE"

definition mem_blk_head_size :: "bool \<Rightarrow> u32" where
  "mem_blk_head_size trace = (if trace then MEM2_HEAD_SIZE else MEM_HEAD_SIZE)"

definition mem_blk_set_traced :: "u32 \<Rightarrow> u32 \<Rightarrow> u32 \<Rightarrow> mem \<Rightarrow> mem" where
  "mem_blk_set_traced b caller line m =
    (let m1 = st32 m (unat (b + 4)) (ld32 m (unat (b + 4)) OR MEM_BLK_TRACE);
         m2 = st32 m1 (unat (b + 8)) caller in
     st32 m2 (unat (b + 12)) (line OR MEM_BLK_TRACE))"

definition mem_blk_set_untraced :: "u32 \<Rightarrow> mem \<Rightarrow> mem" where
  "mem_blk_set_untraced b m = st32 m (unat (b + 4)) (ld32 m (unat (b + 4)) AND NOT MEM_BLK_TRACE)"

definition mem_blk_is_traced :: "mem \<Rightarrow> u32 \<Rightarrow> bool" where
  "mem_blk_is_traced m b = (ld32 m (unat (b + 4)) AND MEM_BLK_TRACE \<noteq> 0)"

definition mem_blk_set_used :: "u32 \<Rightarrow> mem \<Rightarrow> mem" where
  "mem_blk_set_used b m = st32 m (unat b) (ld32 m (unat b) OR MEM_BLK_TAG)"

definition mem_blk_set_unused :: "u32 \<Rightarrow> mem \<Rightarrow> mem" where
  "mem_blk_set_unused b m = st32 m (unat b) (ld32 m (unat b) AND NOT MEM_BLK_TAG)"

definition mem_blk_is_used :: "mem \<Rightarrow> u32 \<Rightarrow> bool" where
  "mem_blk_is_used m b = (ld32 m (unat b) AND MEM_BLK_TAG \<noteq> 0)"

definition mem_blk_is_end :: "mem \<Rightarrow> u32 \<Rightarrow> bool" where
  "mem_blk_is_end m b = (mem_blk_next m b = 0)"

definition blk_link_size :: "mem \<Rightarrow> u32 \<Rightarrow> u32" where
  "blk_link_size m b = mem_blk_next m b - b"

definition get_blk_region :: "u32 \<Rightarrow> heap_region_t list \<Rightarrow> nat" where
  "get_blk_region ptr rs = find_idx (\<lambda>r. ptr > hr_start_addr r \<and> ptr < hr_start_addr r + hr_total_size r) rs"

definition ptr2memblk_size :: "u32 \<Rightarrow> bool \<Rightarrow> u32" where
  "ptr2memblk_size sz trace = HEAP_ALIGN (sz + mem_blk_head_size trace)"

definition ptr_is_traced :: "mem \<Rightarrow> u32 \<Rightarrow> bool" where
  "ptr_is_traced m ptr = (ld32 m (unat (ptr - 4)) AND MEM_BLK_TRACE \<noteq> 0)"

definition ptr2blk :: "u32 \<Rightarrow> bool \<Rightarrow> u32" where "ptr2blk ptr trace = ptr - mem_blk_head_size trace"
definition blk2ptr :: "u32 \<Rightarrow> bool \<Rightarrow> u32" where "blk2ptr b trace = b + mem_blk_head_size trace"

definition ptr_size :: "mem \<Rightarrow> u32 \<Rightarrow> u32" where
  "ptr_size m ptr =
    (let traced = ptr_is_traced m ptr in blk_link_size m (ptr2blk ptr traced) - mem_blk_head_size traced)"

section \<open>Setting up\<close>

definition init_region :: "mem \<Rightarrow> heap_region_t \<Rightarrow> mem \<times> heap_region_t" where
  "init_region m r =
    (let finish = hr_start_addr r + hr_total_size r;
         mem_start = HEAP_ALIGN (hr_start_addr r);
         e = HEAP_ALIGN finish;
         mem_end = (if e \<noteq> finish then e - 4 else e) - MEM_HEAD_SIZE;
         m1 = st32 (st32 m (unat mem_start) 0) (unat (mem_start + 4)) mem_end;
         m2 = st32 (st32 m1 (unat mem_end) mem_start) (unat (mem_end + 4)) 0;
         sz = blk_link_size m2 mem_start in
     (m2, r\<lparr>hr_free_blk := mem_start, hr_free_bytes := sz, hr_min_free_bytes := sz\<rparr>))"

fun esp_heap_caps_init_region :: "mem \<Rightarrow> heap_region_t list \<Rightarrow> mem \<times> heap_region_t list" where
  "esp_heap_caps_init_region m [] = (m, [])"
| "esp_heap_caps_init_region m (r # rs) =
    (let (m1, r') = init_region m r; (m2, rs') = esp_heap_caps_init_region m1 rs in (m2, r' # rs'))"

text \<open>The linker's symbols are arguments; \<open>full_icache\<close> is
  \<^verbatim>\<open>CONFIG_SOC_FULL_ICACHE\<close>. The statics are zero at the start.\<close>

definition heap_caps_init :: "bool \<Rightarrow> u32 \<Rightarrow> u32 \<Rightarrow> heap_state \<Rightarrow> heap_state" where
  "heap_caps_init full_icache lit4_end heap_start s =
    (let iram = \<lparr>hr_start_addr = lit4_end, hr_total_size = 0x4010C000 - lit4_end, hr_caps = MALLOC_CAP_32BIT,
                 hr_free_blk = 0, hr_free_bytes = 0, hr_min_free_bytes = 0\<rparr>;
         dram = \<lparr>hr_start_addr = heap_start, hr_total_size = 0x40000000 - heap_start,
                 hr_caps = MALLOC_CAP_8BIT OR MALLOC_CAP_32BIT OR MALLOC_CAP_DMA,
                 hr_free_blk = 0, hr_free_bytes = 0, hr_min_free_bytes = 0\<rparr>;
         (m, rs) = esp_heap_caps_init_region (h_mem s) (if full_icache then [dram] else [iram, dram]) in
     s\<lparr>h_mem := m, g_heap_region := rs\<rparr>)"

definition heap_caps_get_free_size :: "u32 \<Rightarrow> heap_state \<Rightarrow> u32" where
  "heap_caps_get_free_size caps s =
    foldl (\<lambda>bytes r. if caps = caps AND hr_caps r then bytes + hr_free_bytes r else bytes) 0 (g_heap_region s)"

definition heap_caps_get_minimum_free_size :: "u32 \<Rightarrow> heap_state \<Rightarrow> u32" where
  "heap_caps_get_minimum_free_size caps s =
    foldl (\<lambda>bytes r. if caps = caps AND hr_caps r then bytes + hr_min_free_bytes r else bytes) 0 (g_heap_region s)"

definition heap_trace_is_on :: "heap_state \<Rightarrow> bool" where
  "heap_trace_is_on s = (g_heap_trace_mode s = HEAP_TRACE_LEAKS)"

definition heap_trace_start :: "heap_trace_mode_t \<Rightarrow> heap_state \<Rightarrow> heap_state" where
  "heap_trace_start mode s = s\<lparr>g_heap_trace_mode := mode\<rparr>"

definition heap_trace_stop :: "heap_state \<Rightarrow> heap_state" where
  "heap_trace_stop s = s\<lparr>g_heap_trace_mode := HEAP_TRACE_NONE\<rparr>"

definition heap_trace_resume :: "heap_state \<Rightarrow> heap_state" where
  "heap_trace_resume s = s\<lparr>g_heap_trace_mode := HEAP_TRACE_LEAKS\<rparr>"

section \<open>Allocating\<close>

partial_function (option) find_fit :: "mem \<Rightarrow> u32 \<Rightarrow> u32 \<Rightarrow> u32 option" where [code]:
  "find_fit m mem_blk_size mem_blk =
    (if mem_blk \<noteq> 0 \<and> \<not> mem_blk_is_end m mem_blk \<and> (mem_blk_is_used m mem_blk \<or> blk_link_size m mem_blk < mem_blk_size)
     then find_fit m mem_blk_size (mem_blk_next m mem_blk) else Some mem_blk)"

partial_function (option) skip_used :: "mem \<Rightarrow> u32 \<Rightarrow> u32 option" where [code]:
  "skip_used m free_blk =
    (if free_blk \<noteq> 0 \<and> \<not> mem_blk_is_end m free_blk \<and> mem_blk_is_used m free_blk
     then skip_used m (mem_blk_next m free_blk) else Some free_blk)"

text \<open>Linking in the rest of a block that is split.\<close>

definition link_rest :: "u32 \<Rightarrow> u32 \<Rightarrow> mem \<Rightarrow> mem" where
  "link_rest mem_blk next_mem_blk m =
    (let m1 = st32 (st32 m (unat (next_mem_blk + 4)) 0) (unat next_mem_blk) 0;
         m2 = mem_blk_set_prev next_mem_blk mem_blk m1;
         m3 = mem_blk_set_next next_mem_blk (mem_blk_next m2 mem_blk) m2;
         m4 = mem_blk_set_prev (mem_blk_next m3 mem_blk) next_mem_blk m3 in
     mem_blk_set_next mem_blk next_mem_blk m4)"

text \<open>The body of the loop over the regions, for a region with the capabilities; the pointer 0 is
  \<^verbatim>\<open>NULL\<close>.\<close>

definition malloc_region :: "u32 \<Rightarrow> u32 \<Rightarrow> u32 \<Rightarrow> bool \<Rightarrow> mem \<Rightarrow> heap_region_t \<Rightarrow> (mem \<times> heap_region_t \<times> u32) option" where
  "malloc_region sz caller line trace m r =
    (let mem_blk_size = ptr2memblk_size sz trace in
     if mem_blk_size > hr_free_bytes r then Some (m, r, 0)
     else do {
       mem_blk \<leftarrow> find_fit m mem_blk_size (hr_free_blk r);
       if mem_blk = 0 \<or> mem_blk_is_end m mem_blk then Some (m, r, 0)
       else
         let ret_mem = blk2ptr mem_blk trace; head_size = mem_blk_head_size trace;
             next_mem_blk =
               (if blk_link_size m mem_blk \<ge> mem_blk_size + head_size + MEM_BLK_MIN then mem_blk + mem_blk_size
                else mem_blk_next m mem_blk);
             m1 = (if mem_blk_next m mem_blk \<noteq> next_mem_blk then link_rest mem_blk next_mem_blk m else m);
             m2 = mem_blk_set_used mem_blk m1;
             m3 = (if trace then mem_blk_set_traced mem_blk caller line m2 else m2) in
         do {
           free_blk \<leftarrow> (if hr_free_blk r = mem_blk then skip_used m3 mem_blk else Some (hr_free_blk r));
           let free_bytes = hr_free_bytes r - blk_link_size m3 mem_blk;
               min_free = (if hr_min_free_bytes r > free_bytes then free_bytes else hr_min_free_bytes r) in
           Some (m3, r\<lparr>hr_free_blk := free_blk, hr_free_bytes := free_bytes, hr_min_free_bytes := min_free\<rparr>, ret_mem)
         }
     })"

fun malloc_regions :: "u32 \<Rightarrow> u32 \<Rightarrow> u32 \<Rightarrow> u32 \<Rightarrow> bool \<Rightarrow> mem \<Rightarrow> heap_region_t list \<Rightarrow> (mem \<times> heap_region_t list \<times> u32) option" where
  "malloc_regions sz caps caller line trace m [] = Some (m, [], 0)"
| "malloc_regions sz caps caller line trace m (r # rs) =
    (if hr_caps r AND caps \<noteq> caps then do {
       (m', rs', p) \<leftarrow> malloc_regions sz caps caller line trace m rs;
       Some (m', r # rs', p)
     } else do {
       (m1, r1, p) \<leftarrow> malloc_region sz caller line trace m r;
       if p \<noteq> 0 then Some (m1, r1 # rs, p)
       else do {
         (m', rs', p') \<leftarrow> malloc_regions sz caps caller line trace m1 rs;
         Some (m', r1 # rs', p')
       }
     })"

definition heap_caps_malloc :: "u32 \<Rightarrow> u32 \<Rightarrow> u32 \<Rightarrow> u32 \<Rightarrow> heap_state \<Rightarrow> (heap_state \<times> u32) option" where
  "heap_caps_malloc sz caps caller line s = do {
     (m, rs, p) \<leftarrow> malloc_regions sz caps caller line (heap_trace_is_on s) (h_mem s) (g_heap_region s);
     Some (s\<lparr>h_mem := m, g_heap_region := rs\<rparr>, p)
   }"

section \<open>Freeing\<close>

definition free_region :: "u32 \<Rightarrow> mem \<Rightarrow> heap_region_t \<Rightarrow> mem \<times> heap_region_t" where
  "free_region mem_blk m r =
    (let free_bytes = hr_free_bytes r + blk_link_size m mem_blk;
         m1 = mem_blk_set_untraced mem_blk (mem_blk_set_unused mem_blk m);
         prv = mem_blk_prev m1 mem_blk; nxt = mem_blk_next m1 mem_blk; last_blk = mem_blk_next m1 nxt;
         (m2, tmp) = (if prv \<noteq> 0 \<and> \<not> mem_blk_is_used m1 prv then (mem_blk_set_prev nxt prv (mem_blk_set_next prv nxt m1), prv)
                      else (m1, mem_blk));
         m3 = (if last_blk \<noteq> 0 \<and> \<not> mem_blk_is_used m2 nxt then mem_blk_set_prev last_blk tmp (mem_blk_set_next tmp last_blk m2)
               else m2) in
     (m3, r\<lparr>hr_free_bytes := free_bytes, hr_free_blk := (if mem_blk < hr_free_blk r then mem_blk else hr_free_blk r)\<rparr>))"

definition heap_caps_free :: "u32 \<Rightarrow> heap_state \<Rightarrow> heap_state" where
  "heap_caps_free ptr s =
    (if ptr = 0 then s
     else
       let num = get_blk_region ptr (g_heap_region s) in
       if num \<ge> length (g_heap_region s) then s
       else
         let mem_blk = ptr2blk ptr (ptr_is_traced (h_mem s) ptr) in
         if \<not> mem_blk_is_used (h_mem s) mem_blk then s
         else let (m, r) = free_region mem_blk (h_mem s) (g_heap_region s ! num) in
              s\<lparr>h_mem := m, g_heap_region := (g_heap_region s)[num := r]\<rparr>)"

section \<open>The other allocation functions\<close>

definition heap_caps_calloc :: "u32 \<Rightarrow> u32 \<Rightarrow> u32 \<Rightarrow> u32 \<Rightarrow> u32 \<Rightarrow> heap_state \<Rightarrow> (heap_state \<times> u32) option" where
  "heap_caps_calloc count sz caps caller line s = do {
     (s1, p) \<leftarrow> heap_caps_malloc (count * sz) caps caller line s;
     Some (if p \<noteq> 0 then s1\<lparr>h_mem := mem_fill (h_mem s1) (unat p) (unat (count * sz)) 0\<rparr> else s1, p)
   }"

definition heap_caps_realloc :: "u32 \<Rightarrow> u32 \<Rightarrow> u32 \<Rightarrow> u32 \<Rightarrow> u32 \<Rightarrow> heap_state \<Rightarrow> (heap_state \<times> u32) option" where
  "heap_caps_realloc ptr newsize caps caller line s = do {
     (s1, p) \<leftarrow> heap_caps_malloc newsize caps caller line s;
     Some (if p \<noteq> 0 \<and> ptr \<noteq> 0 then
        let n = min newsize (ptr_size (h_mem s1) ptr);
            s2 = s1\<lparr>h_mem := mem_write (h_mem s1) (unat p) (mem_read (h_mem s1) (unat ptr) (unat n))\<rparr> in
        heap_caps_free ptr s2
      else s1, p)
   }"

definition heap_caps_zalloc :: "u32 \<Rightarrow> u32 \<Rightarrow> u32 \<Rightarrow> u32 \<Rightarrow> heap_state \<Rightarrow> (heap_state \<times> u32) option" where
  "heap_caps_zalloc sz caps caller line s = do {
     (s1, p) \<leftarrow> heap_caps_malloc sz caps caller line s;
     Some (if p \<noteq> 0 then s1\<lparr>h_mem := mem_fill (h_mem s1) (unat p) (unat sz) 0\<rparr> else s1, p)
   }"

section \<open>Tagged words\<close>

lemma trace_tag: "MEM_BLK_TRACE = MEM_BLK_TAG"
  by (simp add: MEM_BLK_TRACE_def MEM_BLK_TAG_def)

definition tagged :: "nat \<Rightarrow> bool \<Rightarrow> u32" where
  "tagged a b = of_nat a OR (if b then MEM_BLK_TAG else 0)"

lemma bit_tag: "bit MEM_BLK_TAG n \<longleftrightarrow> n = 31"
proof -
  have tag: "MEM_BLK_TAG = push_bit 31 1" by (simp add: MEM_BLK_TAG_def)
  show ?thesis unfolding tag by (subst bit_push_bit_iff) (auto simp: bit_1_iff)
qed

lemma bit31_of_nat: "a < 2 ^ 31 \<Longrightarrow> \<not> bit (of_nat a :: u32) 31"
  by (simp add: bit_simps) (simp add: bit_iff_odd)

lemma tagged_simps:
  assumes "a < 2 ^ 31"
  shows "tagged a b AND NOT MEM_BLK_TAG = of_nat a" and "tagged a b AND MEM_BLK_TAG = (if b then MEM_BLK_TAG else 0)"
    and "tagged a b OR MEM_BLK_TAG = tagged a True" and "of_nat a = tagged a False"
  using bit31_of_nat [OF assms]
  by (auto simp: tagged_def bit_tag bit_simps intro!: bit_word_eqI)

lemma tagged_set: "a < 2 ^ 31 \<Longrightarrow> c < 2 ^ 31 \<Longrightarrow> of_nat a OR (tagged c b AND MEM_BLK_TAG) = tagged a b"
  by (simp add: tagged_simps(2)) (simp add: tagged_def)

lemma tag_nonzero: "MEM_BLK_TAG \<noteq> 0"
  by (simp add: MEM_BLK_TAG_def)

lemma tagged_False: "tagged a False = of_nat a"
  by (simp add: tagged_def)

lemma ld32_st32_word:
  assumes "a mod 4 = b mod 4"
  shows "ld32 (st32 m a v) b = (if b = a then v else ld32 m b)"
proof (cases "b = a")
  case False
  then have "b + 4 \<le> a \<or> a + 4 \<le> b"
    using assms mod_eq_dvd_iff_nat [of a b 4] mod_eq_dvd_iff_nat [of b a 4] by (cases "a < b") (auto dest!: dvd_imp_le)
  then show ?thesis using False by (simp add: ld32_st32_other)
qed simp

section \<open>The chain of blocks\<close>

datatype blk_status = Free | Used | Traced

type_synonym blk = "nat \<times> blk_status"

definition hdr :: "mem \<Rightarrow> nat \<Rightarrow> nat \<Rightarrow> blk \<Rightarrow> bool" where
  "hdr m p a b \<longleftrightarrow> ld32 m a = tagged p (snd b \<noteq> Free) \<and> ld32 m (a + 4) = tagged (a + fst b) (snd b = Traced)
     \<and> (snd b = Traced \<longrightarrow> ld32 m (a + 12) AND MEM_BLK_TAG \<noteq> 0)"

definition shape :: "blk \<Rightarrow> bool" where
  "shape b \<longleftrightarrow> fst b mod 4 = 0 \<and> (if snd b = Traced then 16 else 8) \<le> fst b"

fun blks :: "mem \<Rightarrow> nat \<Rightarrow> nat \<Rightarrow> blk list \<Rightarrow> bool" where
  "blks m p a [] = True"
| "blks m p a (b # bs) \<longleftrightarrow> hdr m p a b \<and> blks m a (a + fst b) bs"

definition span :: "blk list \<Rightarrow> nat" where "span bs = sum_list (map fst bs)"

fun last_at :: "nat \<Rightarrow> nat \<Rightarrow> blk list \<Rightarrow> nat" where
  "last_at p a [] = p"
| "last_at p a (b # bs) = last_at a (a + fst b) bs"

definition chain :: "mem \<Rightarrow> nat \<Rightarrow> nat \<Rightarrow> blk list \<Rightarrow> bool" where
  "chain m p a bs \<longleftrightarrow> blks m p a bs \<and> ld32 m (a + span bs) = tagged (last_at p a bs) False \<and> ld32 m (a + span bs + 4) = 0"

lemma span_simps [simp]: "span [] = 0" "span (b # bs) = fst b + span bs" "span (xs @ ys) = span xs + span ys"
  by (simp_all add: span_def)

lemma chain_simps:
  "chain m p a [] \<longleftrightarrow> ld32 m a = tagged p False \<and> ld32 m (a + 4) = 0"
  "chain m p a (b # bs) \<longleftrightarrow> hdr m p a b \<and> chain m a (a + fst b) bs"
  by (auto simp: chain_def add.assoc)

lemma chain_append: "chain m p a (xs @ ys) \<longleftrightarrow> blks m p a xs \<and> chain m (last_at p a xs) (a + span xs) ys"
  by (induction xs arbitrary: p a) (auto simp: chain_simps add.assoc)

lemma last_at_append: "last_at p a (xs @ ys) = last_at (last_at p a xs) (a + span xs) ys"
  by (induction xs arbitrary: p a) (auto simp: add.assoc)

lemma last_at_le: "p \<le> a \<Longrightarrow> last_at p a bs \<le> a + span bs"
  by (induction bs arbitrary: p a) (auto simp: add.assoc [symmetric])

definition head_used :: "blk list \<Rightarrow> bool" where
  "head_used bs = (case bs of [] \<Rightarrow> False | b # _ \<Rightarrow> snd b \<noteq> Free)"

definition head_next :: "nat \<Rightarrow> blk list \<Rightarrow> nat" where
  "head_next a bs = (case bs of [] \<Rightarrow> 0 | b # _ \<Rightarrow> a + fst b)"

lemma chain_head: "chain m p a bs \<Longrightarrow> ld32 m a = tagged p (head_used bs)"
  by (cases bs) (auto simp: chain_simps hdr_def head_used_def)

lemma chain_head_next: "chain m p a bs \<Longrightarrow> a + span bs < 2 ^ 31 \<Longrightarrow> ld32 m (a + 4) AND NOT MEM_BLK_TAG = of_nat (head_next a bs)"
  by (cases bs) (auto simp: chain_simps hdr_def head_next_def tagged_simps(1) simp del: of_nat_add)

lemma blks_cong:
  assumes "\<forall>b \<in> set bs. shape b" and "a mod 4 = 0"
    and "\<And>w. w mod 4 = 0 \<Longrightarrow> a \<le> w \<Longrightarrow> w < a + span bs \<Longrightarrow> ld32 m' w = ld32 m w" and "blks m p a bs"
  shows "blks m' p a bs"
  using assms
proof (induction bs arbitrary: p a)
  case (Cons b bs)
  have b: "fst b mod 4 = 0" "8 \<le> fst b" "snd b = Traced \<Longrightarrow> 16 \<le> fst b" using Cons.prems(1) by (auto simp: shape_def split: if_splits)
  have "ld32 m' a = ld32 m a" "ld32 m' (a + 4) = ld32 m (a + 4)" "snd b = Traced \<Longrightarrow> ld32 m' (a + 12) = ld32 m (a + 12)"
    using Cons.prems(2) b by (auto intro!: Cons.prems(3) simp: mod_eq_0_iff_dvd)
  then have "hdr m' p a b" using Cons.prems(4) by (auto simp: hdr_def)
  moreover have "blks m' a (a + fst b) bs"
    using Cons.prems b by (intro Cons.IH) (auto simp: mod_eq_0_iff_dvd intro!: Cons.prems(3))
  ultimately show ?case by simp
qed simp

lemma chain_relink:
  assumes "\<forall>b \<in> set bs. shape b" and "a mod 4 = 0" and "chain m p a bs" and "ld32 m' a = tagged q (head_used bs)"
    and "\<And>w. w mod 4 = 0 \<Longrightarrow> a + 4 \<le> w \<Longrightarrow> w \<le> a + span bs + 4 \<Longrightarrow> ld32 m' w = ld32 m w"
  shows "chain m' q a bs"
proof (cases bs)
  case Nil
  then show ?thesis using assms by (auto simp: chain_simps head_used_def)
next
  case (Cons b cs)
  have b: "fst b mod 4 = 0" "8 \<le> fst b" "snd b = Traced \<Longrightarrow> 16 \<le> fst b" using assms(1) Cons by (auto simp: shape_def split: if_splits)
  have "ld32 m' (a + 4) = ld32 m (a + 4)" "snd b = Traced \<Longrightarrow> ld32 m' (a + 12) = ld32 m (a + 12)"
    using assms(2) b Cons by (auto intro!: assms(5) simp: mod_eq_0_iff_dvd)
  then have "hdr m' q a b" using assms(3,4) Cons by (auto simp: hdr_def chain_simps head_used_def)
  moreover have "blks m' a (a + fst b) cs"
    by (rule blks_cong [where m = m]) (use assms(1,2,3) b Cons in \<open>auto simp: mod_eq_0_iff_dvd chain_def intro!: assms(5)\<close>)
  moreover have "span cs mod 4 = 0" using assms(1) Cons by (induction cs arbitrary: bs) (auto simp: shape_def mod_eq_0_iff_dvd)
  moreover have "ld32 m' (a + span bs) = ld32 m (a + span bs)" "ld32 m' (a + span bs + 4) = ld32 m (a + span bs + 4)"
    using assms(2) b Cons \<open>span cs mod 4 = 0\<close> by (auto intro!: assms(5) simp: mod_eq_0_iff_dvd)
  ultimately show ?thesis using assms(3) Cons by (auto simp: chain_def)
qed

section \<open>The header functions on addresses\<close>

lemma unat_of_nat_add:
  assumes "a < 2 ^ 31" and "k < 2 ^ 31"
  shows "unat (of_nat a + of_nat k :: u32) = a + k"
  using assms unat_of_nat_small [of "a + k", where 'a = 32] by simp

lemma of_nat_inj_small: "a < 2 ^ 31 \<Longrightarrow> b < 2 ^ 31 \<Longrightarrow> (of_nat a = (of_nat b :: u32)) = (a = b)"
proof -
  assume "a < 2 ^ 31" "b < 2 ^ 31"
  then have "unat (of_nat a :: u32) = a" "unat (of_nat b :: u32) = b" by (simp_all add: unat_of_nat_small)
  then show ?thesis by metis
qed

lemma of_nat_zero_small: "a < 2 ^ 31 \<Longrightarrow> (of_nat a = (0 :: u32)) = (a = 0)"
  using of_nat_inj_small [of a 0] by simp

lemma header_functions:
  assumes "a < 2 ^ 31"
  shows "mem_blk_prev m (of_nat a) = ld32 m a AND NOT MEM_BLK_TAG" and "mem_blk_next m (of_nat a) = ld32 m (a + 4) AND NOT MEM_BLK_TAG"
    and "mem_blk_is_used m (of_nat a) \<longleftrightarrow> ld32 m a AND MEM_BLK_TAG \<noteq> 0"
    and "mem_blk_set_prev (of_nat a) v m = st32 m a (v OR (ld32 m a AND MEM_BLK_TAG))"
    and "mem_blk_set_next (of_nat a) v m = st32 m (a + 4) (v OR (ld32 m (a + 4) AND MEM_BLK_TAG))"
    and "mem_blk_set_used (of_nat a) m = st32 m a (ld32 m a OR MEM_BLK_TAG)"
    and "mem_blk_set_unused (of_nat a) m = st32 m a (ld32 m a AND NOT MEM_BLK_TAG)"
    and "mem_blk_set_untraced (of_nat a) m = st32 m (a + 4) (ld32 m (a + 4) AND NOT MEM_BLK_TAG)"
    and "mem_blk_set_traced (of_nat a) c l m
      = st32 (st32 (st32 m (a + 4) (ld32 m (a + 4) OR MEM_BLK_TAG)) (a + 8) c) (a + 12) (l OR MEM_BLK_TAG)"
  using unat_of_nat_add [OF assms, of 0] unat_of_nat_add [OF assms, of 4] unat_of_nat_add [OF assms, of 8] unat_of_nat_add [OF assms, of 12]
  by (simp_all add: mem_blk_prev_def mem_blk_next_def mem_blk_get_ptr_def mem_blk_is_used_def mem_blk_set_prev_def mem_blk_set_next_def
      mem_blk_set_ptr_def mem_blk_set_used_def mem_blk_set_unused_def mem_blk_set_untraced_def mem_blk_set_traced_def trace_tag Let_def)

lemma chain_first:
  assumes "chain m p a bs" and "p \<le> a" and "a + span bs < 2 ^ 31"
  shows "mem_blk_prev m (of_nat a) = of_nat p" and "mem_blk_is_used m (of_nat a) \<longleftrightarrow> head_used bs"
    and "mem_blk_next m (of_nat a) = of_nat (head_next a bs)"
  using assms chain_head [OF assms(1)] chain_head_next [OF assms(1)]
  by (simp_all add: header_functions tagged_simps(1,2) tag_nonzero)

lemma chain_end:
  assumes "chain m p a bs" and "a + span bs < 2 ^ 31" and "0 < a"
  shows "mem_blk_is_end m (of_nat a) \<longleftrightarrow> bs = []"
proof (cases bs)
  case Nil
  then show ?thesis using assms by (simp add: mem_blk_is_end_def header_functions chain_simps)
next
  case (Cons b cs)
  have "mem_blk_next m (of_nat a) = of_nat (a + fst b)"
    using chain_head_next [OF assms(1)] assms(2) Cons by (simp add: header_functions head_next_def)
  moreover have "of_nat (a + fst b) \<noteq> (0 :: u32)"
    using assms(2,3) Cons of_nat_zero_small [of "a + fst b"] by (simp del: of_nat_add)
  ultimately show ?thesis using Cons by (simp add: mem_blk_is_end_def del: of_nat_add)
qed

lemma chain_link_size:
  assumes "chain m p a (b # bs)" and "p \<le> a" and "a + span (b # bs) < 2 ^ 31"
  shows "blk_link_size m (of_nat a) = of_nat (fst b)" and "unat (of_nat (fst b) :: u32) = fst b"
  using chain_first(3) [OF assms] assms(3) unat_of_nat_small [of "fst b", where 'a = 32]
  by (simp_all add: blk_link_size_def head_next_def)

section \<open>The two searches\<close>

fun fit_off :: "nat \<Rightarrow> blk list \<Rightarrow> nat" where
  "fit_off n [] = 0"
| "fit_off n (b # bs) = (if snd b = Free \<and> n \<le> fst b then 0 else fst b + fit_off n bs)"

fun used_off :: "blk list \<Rightarrow> nat" where
  "used_off [] = 0"
| "used_off (b # bs) = (if snd b \<noteq> Free then fst b + used_off bs else 0)"

lemma find_fit_chain:
  assumes "chain m p a bs" and "p \<le> a" and "0 < a" and "a + span bs < 2 ^ 31"
  shows "find_fit m n (of_nat a) = Some (of_nat (a + fit_off (unat n) bs))"
  using assms
proof (induction bs arbitrary: p a)
  case Nil
  then show ?case using chain_end [OF Nil.prems(1)] by (subst find_fit.simps) simp
next
  case (Cons b bs)
  note first = chain_first [OF Cons.prems(1,2,4)] and size = chain_link_size [OF Cons.prems(1,2,4)]
  have "of_nat a \<noteq> (0 :: u32)" using Cons.prems of_nat_zero_small [of a] by simp
  moreover have "find_fit m n (of_nat (a + fst b)) = Some (of_nat (a + fst b + fit_off (unat n) bs))"
    by (rule Cons.IH [where p = a]) (use Cons.prems in \<open>simp_all add: chain_simps\<close>)
  moreover have "of_nat (fst b) < n \<longleftrightarrow> fst b < unat n" using size(2) by (simp add: word_less_nat_alt)
  moreover have "\<not> mem_blk_is_end m (of_nat a)" using chain_end [OF Cons.prems(1,4,3)] by simp
  ultimately show ?case
    using first size(1) by (subst find_fit.simps) (simp add: head_used_def head_next_def add.assoc not_less)
qed

lemma skip_used_chain:
  assumes "chain m p a bs" and "p \<le> a" and "0 < a" and "a + span bs < 2 ^ 31"
  shows "skip_used m (of_nat a) = Some (of_nat (a + used_off bs))"
  using assms
proof (induction bs arbitrary: p a)
  case Nil
  then show ?case using chain_end [OF Nil.prems(1)] by (subst skip_used.simps) simp
next
  case (Cons b bs)
  note first = chain_first [OF Cons.prems(1,2,4)]
  have "of_nat a \<noteq> (0 :: u32)" using Cons.prems of_nat_zero_small [of a] by simp
  moreover have "skip_used m (of_nat (a + fst b)) = Some (of_nat (a + fst b + used_off bs))"
    by (rule Cons.IH [where p = a]) (use Cons.prems in \<open>simp_all add: chain_simps\<close>)
  moreover have "\<not> mem_blk_is_end m (of_nat a)" using chain_end [OF Cons.prems(1,4,3)] by simp
  ultimately show ?case
    using first by (subst skip_used.simps) (simp add: head_used_def head_next_def add.assoc)
qed

lemma fit_off_cases:
  obtains (none) "fit_off n bs = span bs" "\<forall>b \<in> set bs. \<not> (snd b = Free \<and> n \<le> fst b)"
    | (found) pre sz post where "bs = pre @ (sz, Free) # post" "n \<le> sz" "fit_off n bs = span pre"
        "\<forall>b \<in> set pre. \<not> (snd b = Free \<and> n \<le> fst b)"
proof (induction bs arbitrary: thesis)
  case (Cons b bs)
  show ?case
  proof (cases "snd b = Free \<and> n \<le> fst b")
    case True
    then show ?thesis by (intro Cons.prems(2) [of "[]" "fst b" bs]) (cases b; simp)+
  next
    case False
    show ?thesis
    proof (rule Cons.IH)
      assume "fit_off n bs = span bs" "\<forall>b \<in> set bs. \<not> (snd b = Free \<and> n \<le> fst b)"
      then show ?thesis using False by (intro Cons.prems(1)) auto
    next
      fix pre sz post
      assume "bs = pre @ (sz, Free) # post" "n \<le> sz" "fit_off n bs = span pre" "\<forall>b \<in> set pre. \<not> (snd b = Free \<and> n \<le> fst b)"
      then show ?thesis using False by (intro Cons.prems(2) [of "b # pre" sz post]) auto
    qed
  qed
qed simp

section \<open>Carving a block\<close>

definition carve :: "nat \<Rightarrow> nat \<Rightarrow> blk_status \<Rightarrow> nat \<Rightarrow> blk list" where
  "carve n h st sz = (if n + h + 1 \<le> sz then [(n, st), (sz - n, Free)] else [(sz, st)])"

lemma shape_mod: "\<forall>b \<in> set bs. shape b \<Longrightarrow> span bs mod 4 = 0"
  by (induction bs) (auto simp: shape_def mod_eq_0_iff_dvd)

lemma link_rest_chain:
  assumes c: "chain m p a ((sz, Free) # bs)" and "p \<le> a" and a: "0 < a" "a mod 4 = 0" and bound: "a + sz + span bs + 8 < 2 ^ 31"
    and shapes: "\<forall>b \<in> set bs. shape b" and n: "n mod 4 = 0" "8 \<le> n" "n + 8 \<le> sz" "sz mod 4 = 0"
  shows "chain (link_rest (of_nat a) (of_nat (a + n)) m) p a ((n, Free) # (sz - n, Free) # bs)"
    and "\<And>w. w mod 4 = 0 \<Longrightarrow> w \<notin> {a + 4, a + n, a + n + 4, a + sz} \<Longrightarrow> ld32 (link_rest (of_nat a) (of_nat (a + n)) m) w = ld32 m w"
proof -
  have hd: "ld32 m a = tagged p False" "ld32 m (a + 4) = tagged (a + sz) False" and rest: "chain m a (a + sz) bs"
    using c by (simp_all add: chain_simps hdr_def)
  have l: "ld32 m (a + sz) = tagged a (head_used bs)" by (rule chain_head [OF rest])
  let ?n = "a + n" and ?e = "a + sz"
  have lt: "a < 2 ^ 31" "?n < 2 ^ 31" "?e < 2 ^ 31" "?n + 4 < 2 ^ 31" using bound n by simp_all
  have m4: "a mod 4 = 0" "?n mod 4 = 0" "?e mod 4 = 0" "(a + 4) mod 4 = 0" "(?n + 4) mod 4 = 0"
    using a n by (simp_all add: mod_eq_0_iff_dvd)
  define m1 where "m1 = st32 (st32 m (?n + 4) 0) ?n 0"
  define m2 where "m2 = st32 m1 ?n (tagged a False)"
  define m3 where "m3 = st32 m2 (?n + 4) (tagged ?e False)"
  define m4 where "m4 = st32 m3 ?e (tagged ?n (head_used bs))"
  define m5 where "m5 = st32 m4 (a + 4) (tagged ?n False)"
  have ld: "ld32 m5 w = (if w = a + 4 then tagged ?n False else if w = ?e then tagged ?n (head_used bs)
      else if w = ?n + 4 then tagged ?e False else if w = ?n then tagged a False else ld32 m w)" if "w mod 4 = 0" for w
    using that m4 by (simp add: m5_def m4_def m3_def m2_def m1_def ld32_st32_word)
  have ld1: "ld32 m1 w = (if w = ?n \<or> w = ?n + 4 then 0 else ld32 m w)" if "w mod 4 = 0" for w
    using that m4 by (simp add: m1_def ld32_st32_word)
  have ld2: "ld32 m2 w = (if w = ?n then tagged a False else ld32 m1 w)" if "w mod 4 = 0" for w
    using that m4 by (simp add: m2_def ld32_st32_word)
  have ld3: "ld32 m3 w = (if w = ?n + 4 then tagged ?e False else ld32 m2 w)" if "w mod 4 = 0" for w
    using that m4 by (simp add: m3_def ld32_st32_word)
  have ld4: "ld32 m4 w = (if w = ?e then tagged ?n (head_used bs) else ld32 m3 w)" if "w mod 4 = 0" for w
    using that m4 by (simp add: m4_def ld32_st32_word)
  have u: "unat (of_nat ?n + 4 :: u32) = ?n + 4" "unat (of_nat ?n :: u32) = ?n"
    using unat_of_nat_add [OF lt(2), of 4] unat_of_nat_add [OF lt(2), of 0] by (simp_all del: of_nat_add)
  have e2: "mem_blk_set_prev (of_nat ?n) (of_nat a) m1 = m2"
    using header_functions(4) [OF lt(2)] m4 by (simp add: ld1 m2_def tagged_False del: of_nat_add)
  have "mem_blk_next m2 (of_nat a) = of_nat ?e"
    using header_functions(2) [OF lt(1)] m4 n by (simp add: ld1 ld2 hd(2) tagged_simps(1) [OF lt(3)] del: of_nat_add)
  then have e3: "mem_blk_set_next (of_nat ?n) (mem_blk_next m2 (of_nat a)) m2 = m3"
    using header_functions(5) [OF lt(2)] m4 by (simp add: ld1 ld2 m3_def tagged_False del: of_nat_add)
  have "mem_blk_next m3 (of_nat a) = of_nat ?e"
    using header_functions(2) [OF lt(1)] m4 n by (simp add: ld1 ld2 ld3 hd(2) tagged_simps(1) [OF lt(3)] del: of_nat_add)
  then have e4: "mem_blk_set_prev (mem_blk_next m3 (of_nat a)) (of_nat ?n) m3 = m4"
    using header_functions(4) [OF lt(3)] m4 n
    by (simp add: ld1 ld2 ld3 l m4_def tagged_set [OF lt(2) lt(1)] del: of_nat_add)
  have e5: "mem_blk_set_next (of_nat a) (of_nat ?n) m4 = m5"
    using header_functions(5) [OF lt(1)] m4 n
    by (simp add: ld1 ld2 ld3 ld4 hd(2) m5_def tagged_set [OF lt(2) lt(3)] del: of_nat_add)
  have run: "link_rest (of_nat a) (of_nat ?n) m = m5"
    unfolding link_rest_def Let_def u m1_def [symmetric] e2 e3 e4 e5 ..
  have "chain m5 ?n ?e bs"
    by (rule chain_relink [OF shapes m4(3) rest]) (use n m4 ld in \<open>auto\<close>)
  then show "chain (link_rest (of_nat a) (of_nat (a + n)) m) p a ((n, Free) # (sz - n, Free) # bs)"
    unfolding run using n m4 by (simp add: chain_simps hdr_def ld hd)
  show "ld32 (link_rest (of_nat a) (of_nat (a + n)) m) w = ld32 m w" if "w mod 4 = 0" "w \<notin> {a + 4, a + n, a + n + 4, a + sz}" for w
    unfolding run using that by (simp add: ld)
qed

definition alloc_status :: "bool \<Rightarrow> blk_status" where "alloc_status trace = (if trace then Traced else Used)"
definition head_len :: "blk_status \<Rightarrow> nat" where "head_len st = (if st = Traced then 16 else 8)"

definition mark_used :: "bool \<Rightarrow> u32 \<Rightarrow> u32 \<Rightarrow> u32 \<Rightarrow> mem \<Rightarrow> mem" where
  "mark_used trace b caller line m =
    (let m2 = mem_blk_set_used b m in if trace then mem_blk_set_traced b caller line m2 else m2)"

lemma mark_used_chain:
  assumes c: "chain m p a ((sz, Free) # bs)" and "p \<le> a" and "a mod 4 = 0" and bound: "a + sz + span bs + 8 < 2 ^ 31"
    and shapes: "\<forall>b \<in> set bs. shape b" and sz: "sz mod 4 = 0" "head_len (alloc_status trace) \<le> sz"
  shows "chain (mark_used trace (of_nat a) caller line m) p a ((sz, alloc_status trace) # bs)"
    and "\<And>w. w mod 4 = 0 \<Longrightarrow> w < a \<or> a + head_len (alloc_status trace) \<le> w \<Longrightarrow> ld32 (mark_used trace (of_nat a) caller line m) w = ld32 m w"
proof -
  have hd: "ld32 m a = tagged p False" "ld32 m (a + 4) = tagged (a + sz) False" and rest: "chain m a (a + sz) bs"
    using c by (simp_all add: chain_simps hdr_def)
  have lt: "a < 2 ^ 31" "p < 2 ^ 31" "a + sz < 2 ^ 31" using bound assms(2) by simp_all
  let ?m = "mark_used trace (of_nat a) caller line m"
  have m4: "(a + 4) mod 4 = 0" "(a + 8) mod 4 = 0" "(a + 12) mod 4 = 0" "(a + sz) mod 4 = 0"
    using assms(3) sz(1) by (simp_all add: mod_eq_0_iff_dvd)
  have ld: "ld32 ?m w = (if w = a then tagged p True
      else if trace \<and> w = a + 4 then tagged (a + sz) True else if trace \<and> w = a + 8 then caller
      else if trace \<and> w = a + 12 then line OR MEM_BLK_TAG else ld32 m w)" if "w mod 4 = 0" for w
    using that m4 assms(3)
    by (simp add: mark_used_def header_functions [OF lt(1)] ld32_st32_word hd tagged_simps(3) [OF lt(2)] tagged_simps(3) [OF lt(3)] Let_def)
  have tag: "(line OR MEM_BLK_TAG) AND MEM_BLK_TAG \<noteq> 0"
  proof -
    have "bit ((line OR MEM_BLK_TAG) AND MEM_BLK_TAG) 31" by (simp add: bit_simps bit_tag)
    then show ?thesis by (metis bit_0_eq bot_fun_def bot_bool_def)
  qed
  show frame: "ld32 ?m w = ld32 m w" if "w mod 4 = 0" "w < a \<or> a + head_len (alloc_status trace) \<le> w" for w
    using that by (auto simp: ld head_len_def alloc_status_def split: if_splits)
  have "chain ?m a (a + sz) bs"
  proof (rule chain_relink [OF shapes m4(4) rest])
    show "ld32 ?m (a + sz) = tagged a (head_used bs)"
      using frame [OF m4(4)] sz(2) chain_head [OF rest] by simp
    show "ld32 ?m w = ld32 m w" if "w mod 4 = 0" "a + sz + 4 \<le> w" for w
      using frame [OF that(1)] that(2) sz(2) by simp
  qed
  then show "chain ?m p a ((sz, alloc_status trace) # bs)"
    using m4 assms(3) hd(2) tag by (auto simp: chain_simps hdr_def ld alloc_status_def)
qed

section \<open>Merging two free blocks\<close>

definition unlink_next :: "nat \<Rightarrow> nat \<Rightarrow> mem \<Rightarrow> mem" where
  "unlink_next a e m = mem_blk_set_prev (of_nat e) (of_nat a) (mem_blk_set_next (of_nat a) (of_nat e) m)"

lemma unlink_next_chain:
  assumes c: "chain m p a ((s1, Free) # (s2, Free) # bs)" and "p \<le> a" and "a mod 4 = 0" and bound: "a + s1 + s2 + span bs + 8 < 2 ^ 31"
    and shapes: "\<forall>b \<in> set bs. shape b" and s: "s1 mod 4 = 0" "s2 mod 4 = 0" "8 \<le> s1" "8 \<le> s2"
  shows "chain (unlink_next a (a + s1 + s2) m) p a ((s1 + s2, Free) # bs)"
    and "\<And>w. w mod 4 = 0 \<Longrightarrow> w \<noteq> a + 4 \<Longrightarrow> w \<noteq> a + s1 + s2 \<Longrightarrow> ld32 (unlink_next a (a + s1 + s2) m) w = ld32 m w"
proof -
  let ?e = "a + s1 + s2"
  have hd: "ld32 m a = tagged p False" "ld32 m (a + 4) = tagged (a + s1) False" and rest: "chain m (a + s1) ?e bs"
    using c by (simp_all add: chain_simps hdr_def)
  have lt: "a < 2 ^ 31" "a + s1 < 2 ^ 31" "?e < 2 ^ 31" using bound by simp_all
  have m4: "(a + 4) mod 4 = 0" "?e mod 4 = 0" using assms(3) s by (simp_all add: mod_eq_0_iff_dvd)
  have ld: "ld32 (unlink_next a ?e m) w = (if w = ?e then tagged a (head_used bs) else if w = a + 4 then tagged ?e False else ld32 m w)"
    if "w mod 4 = 0" for w
    using that m4 s hd(2) chain_head [OF rest]
    by (simp add: unlink_next_def header_functions [OF lt(1)] header_functions [OF lt(3)] ld32_st32_word
        tagged_set [OF lt(3) lt(2)] tagged_set [OF lt(1) lt(2)] del: of_nat_add)
  have "chain (unlink_next a ?e m) a ?e bs"
    by (rule chain_relink [OF shapes m4(2) rest]) (use m4 s ld in auto)
  then show "chain (unlink_next a ?e m) p a ((s1 + s2, Free) # bs)"
    using ld [OF assms(3)] ld [OF m4(1)] s hd(1) by (simp add: chain_simps hdr_def) (simp add: add.assoc)
  show "ld32 (unlink_next a ?e m) w = ld32 m w" if "w mod 4 = 0" "w \<noteq> a + 4" "w \<noteq> ?e" for w
    using that by (simp add: ld)
qed

section \<open>A region and its blocks\<close>

text \<open>First fit on the list of blocks: the new list and the offset of the block.\<close>

fun place :: "nat \<Rightarrow> nat \<Rightarrow> blk_status \<Rightarrow> blk list \<Rightarrow> (blk list \<times> nat) option" where
  "place n h st [] = None"
| "place n h st (b # bs) =
    (if snd b = Free \<and> n \<le> fst b then Some (carve n h st (fst b) @ bs, 0)
     else map_option (\<lambda>(cs, off). (b # cs, fst b + off)) (place n h st bs))"

definition free_total :: "blk list \<Rightarrow> nat" where
  "free_total bs = sum_list (map (\<lambda>b. if snd b = Free then fst b else 0) bs)"

fun no_adj :: "blk list \<Rightarrow> bool" where
  "no_adj (b # c # bs) \<longleftrightarrow> \<not> (snd b = Free \<and> snd c = Free) \<and> no_adj (c # bs)"
| "no_adj [b] = True"
| "no_adj [] = True"

definition region_start :: "heap_region_t \<Rightarrow> nat" where "region_start r = unat (HEAP_ALIGN (hr_start_addr r))"

definition region_ok :: "mem \<Rightarrow> heap_region_t \<Rightarrow> blk list \<Rightarrow> bool" where
  "region_ok m r bs \<longleftrightarrow> 0 < region_start r \<and> region_start r mod 4 = 0 \<and> unat (hr_start_addr r) \<le> region_start r
     \<and> region_start r + span bs + 8 \<le> unat (hr_start_addr r) + unat (hr_total_size r)
     \<and> unat (hr_start_addr r) + unat (hr_total_size r) < 2 ^ 31
     \<and> chain m 0 (region_start r) bs \<and> (\<forall>b \<in> set bs. shape b) \<and> no_adj bs
     \<and> hr_free_bytes r = of_nat (free_total bs) \<and> hr_min_free_bytes r \<le> hr_free_bytes r
     \<and> hr_free_blk r = of_nat (region_start r + used_off bs)"

lemma free_total_simps [simp]: "free_total [] = 0"
  "free_total (b # bs) = (if snd b = Free then fst b else 0) + free_total bs" "free_total (xs @ ys) = free_total xs + free_total ys"
  by (simp_all add: free_total_def)

lemma free_total_le: "free_total bs \<le> span bs"
  by (induction bs) auto

lemma place_none: "(\<forall>b \<in> set bs. \<not> (snd b = Free \<and> n \<le> fst b)) \<Longrightarrow> place n h st bs = None"
  by (induction bs) auto

lemma place_found: "\<forall>b \<in> set pre. \<not> (snd b = Free \<and> n \<le> fst b) \<Longrightarrow> n \<le> sz
    \<Longrightarrow> place n h st (pre @ (sz, Free) # post) = Some (pre @ carve n h st sz @ post, span pre)"
  by (induction pre) auto

lemma place_None_iff: "place n h st bs = None \<longleftrightarrow> (\<forall>b \<in> set bs. \<not> (snd b = Free \<and> n \<le> fst b))"
  by (induction bs) auto

lemma used_off_append: "used_off (xs @ ys) = (if \<forall>b \<in> set xs. snd b \<noteq> Free then span xs + used_off ys else used_off xs)"
  by (induction xs) auto

lemma used_off_le: "used_off bs \<le> span bs"
  by (induction bs) auto

lemma used_off_lt: "b \<in> set bs \<Longrightarrow> snd b = Free \<Longrightarrow> shape b \<Longrightarrow> used_off bs < span bs"
  by (induction bs) (auto simp: shape_def intro: add_strict_mono split: if_splits)

lemma used_off_used: "used_off (xs @ ys) \<noteq> span xs \<Longrightarrow> \<forall>b \<in> set xs. shape b \<Longrightarrow> ys \<noteq> [] \<Longrightarrow> snd (hd ys) = Free \<Longrightarrow>
    \<exists>b \<in> set xs. snd b = Free"
  by (cases ys) (auto simp: used_off_append split: if_splits)

lemma no_adj_append: "no_adj (xs @ ys) \<longleftrightarrow> no_adj xs \<and> no_adj ys \<and> (xs \<noteq> [] \<and> ys \<noteq> [] \<longrightarrow> \<not> (snd (last xs) = Free \<and> snd (hd ys) = Free))"
proof (induction xs rule: no_adj.induct)
  case (2 b)
  then show ?case by (cases ys) auto
qed auto

lemma blks_frame:
  assumes "blks m p a xs" and "\<forall>b \<in> set xs. shape b" and "a mod 4 = 0"
    and "\<And>w. w mod 4 = 0 \<Longrightarrow> w < a + span xs \<Longrightarrow> ld32 m' w = ld32 m w"
  shows "blks m' p a xs"
  by (rule blks_cong [OF assms(2,3) _ assms(1)]) (simp_all add: assms(4))

lemma chain_in_place:
  assumes "chain m p a (xs @ ys)" and "\<forall>b \<in> set xs. shape b" and "a mod 4 = 0"
    and "chain m' (last_at p a xs) (a + span xs) zs"
    and "\<And>w. w mod 4 = 0 \<Longrightarrow> w < a + span xs \<Longrightarrow> ld32 m' w = ld32 m w"
  shows "chain m' p a (xs @ zs)"
  using assms blks_frame [of m p a xs m'] by (auto simp: chain_append)

section \<open>Allocation in a region refines first fit\<close>

lemma unat_head [simp]: "unat (mem_blk_head_size trace) = head_len (alloc_status trace)"
  by (simp add: mem_blk_head_size_def head_len_def alloc_status_def MEM_HEAD_SIZE_def MEM2_HEAD_SIZE_def)

lemma last_at_mono: "0 \<le> a \<Longrightarrow> last_at 0 a xs \<le> a + span xs"
  by (rule last_at_le) simp

lemma carve_facts:
  assumes "sz mod 4 = 0" "n mod 4 = 0" "n \<le> sz" "h \<le> n" "8 \<le> h" "h mod 4 = 0" "st \<noteq> Free" "st = Traced \<Longrightarrow> 16 \<le> h"
  shows "span (carve n h st sz) = sz" and "\<forall>b \<in> set (carve n h st sz). shape b"
    and "free_total (carve n h st sz) = (if n + h + 1 \<le> sz then sz - n else 0)"
    and "snd (hd (carve n h st sz)) = st" and "carve n h st sz \<noteq> []"
    and "used_off (carve n h st sz @ ys) = (if n + h + 1 \<le> sz then n else sz + used_off ys)"
    and "fst (hd (carve n h st sz)) = (if n + h + 1 \<le> sz then n else sz)"
  using assms by (auto simp: carve_def shape_def mod_eq_0_iff_dvd split: if_splits)

lemma fit_off_used: "\<forall>b \<in> set us. snd b \<noteq> Free \<Longrightarrow> fit_off n (us @ vs) = span us + fit_off n vs"
  by (induction us) auto

lemma fit_off_pre: "\<forall>b \<in> set pre. \<not> (snd b = Free \<and> n \<le> fst b) \<Longrightarrow> fit_off n (pre @ vs) = span pre + fit_off n vs"
  by (induction pre) auto

lemma used_split: obtains us vs where "bs = us @ vs" "\<forall>b \<in> set us. snd b \<noteq> Free" "span us = used_off bs"
proof (induction bs arbitrary: thesis)
  case (Cons b bs)
  show ?case
  proof (cases "snd b = Free")
    case True
    then show ?thesis by (intro Cons.prems [of "[]" "b # bs"]) simp_all
  next
    case False
    show ?thesis
    proof (rule Cons.IH)
      fix us vs assume "bs = us @ vs" "\<forall>b \<in> set us. snd b \<noteq> Free" "span us = used_off bs"
      then show ?thesis using False by (intro Cons.prems [of "b # us" vs]) auto
    qed
  qed
qed simp

lemma find_fit_region:
  assumes "chain m 0 a bs" and "0 < a" and "a + span bs < 2 ^ 31"
  shows "find_fit m n (of_nat (a + used_off bs)) = Some (of_nat (a + fit_off (unat n) bs))"
proof -
  obtain us vs where bs: "bs = us @ vs" "\<forall>b \<in> set us. snd b \<noteq> Free" "span us = used_off bs" by (rule used_split)
  have "chain m (last_at 0 a us) (a + span us) vs" using assms(1) by (simp add: bs(1) chain_append)
  moreover have "a + span us + span vs < 2 ^ 31" using assms(3) by (simp add: bs(1))
  ultimately have "find_fit m n (of_nat (a + span us)) = Some (of_nat (a + span us + fit_off (unat n) vs))"
    using last_at_mono [of a us] assms(2) by (intro find_fit_chain) simp_all
  then show ?thesis using fit_off_used [OF bs(2), of "unat n" vs] bs(3) by (simp add: bs(1)[symmetric] add.assoc)
qed

lemma malloc_region_fit:
  assumes ok: "region_ok m r bs" and bs: "bs = pre @ (sz0, Free) # post"
    and need: "unat (ptr2memblk_size sz trace) = n" "n mod 4 = 0" "head_len (alloc_status trace) \<le> n" "n \<le> sz0"
    and pre: "\<forall>b \<in> set pre. \<not> (snd b = Free \<and> n \<le> fst b)"
  shows "\<exists>m' r'. malloc_region sz caller line trace m r
      = Some (m', r', of_nat (region_start r + span pre + head_len (alloc_status trace)))
    \<and> region_ok m' r' (pre @ carve n (head_len (alloc_status trace)) (alloc_status trace) sz0 @ post)
    \<and> hr_start_addr r' = hr_start_addr r \<and> hr_total_size r' = hr_total_size r \<and> hr_caps r' = hr_caps r
    \<and> (\<forall>w. w mod 4 = 0 \<and> (w < region_start r + span pre \<or> region_start r + span pre + sz0 < w) \<longrightarrow> ld32 m' w = ld32 m w)"
proof -
  let ?a = "region_start r" and ?h = "head_len (alloc_status trace)" and ?st = "alloc_status trace"
  let ?b = "?a + span pre" and ?p = "last_at 0 ?a pre"
  have a: "0 < ?a" "?a mod 4 = 0" and bound: "?a + span pre + sz0 + span post + 8 < 2 ^ 31"
    and c: "chain m 0 ?a bs" and shapes: "\<forall>b \<in> set pre. shape b" "shape (sz0, Free)" "\<forall>b \<in> set post. shape b"
    and fb: "hr_free_bytes r = of_nat (free_total bs)" and ff: "hr_free_blk r = of_nat (?a + used_off bs)"
    and adj: "no_adj bs" and mn: "hr_min_free_bytes r \<le> hr_free_bytes r"
    using ok by (auto simp: region_ok_def bs)
  have cb: "chain m ?p ?b ((sz0, Free) # post)" using c by (simp add: bs chain_append)
  have pb: "?p \<le> ?b" by (rule last_at_mono) simp
  have sz0: "sz0 mod 4 = 0" "8 \<le> sz0" using shapes(2) by (simp_all add: shape_def)
  have b4: "?b mod 4 = 0" using a(2) shape_mod [OF shapes(1)] by (simp add: mod_eq_0_iff_dvd)
  have h: "8 \<le> ?h" "?h mod 4 = 0" "?st \<noteq> Free" "?st = Traced \<Longrightarrow> 16 \<le> ?h" by (auto simp: head_len_def alloc_status_def)
  have lt: "?b < 2 ^ 31" "0 < ?b" using bound a by simp_all
  have ft: "free_total bs < 2 ^ 31" using free_total_le [of bs] bound by (simp add: bs)
  have enough: "\<not> ptr2memblk_size sz trace > hr_free_bytes r"
  proof -
    have "n \<le> free_total bs" using need(4) by (simp add: bs)
    then show ?thesis using ft unat_of_nat_small [of "free_total bs", where 'a = 32] by (simp add: fb word_less_nat_alt need(1))
  qed
  have found: "find_fit m (ptr2memblk_size sz trace) (hr_free_blk r) = Some (of_nat ?b)"
    using find_fit_region [OF c a(1)] bound fit_off_pre [OF pre, of "(sz0, Free) # post"] need
    by (simp add: ff bs del: of_nat_add)
  have b0: "of_nat ?b \<noteq> (0 :: u32)" using of_nat_zero_small [OF lt(1)] lt by simp
  have cbound: "?b + span ((sz0, Free) # post) < 2 ^ 31" using bound by simp
  have notend: "\<not> mem_blk_is_end m (of_nat ?b)" using chain_end [OF cb cbound lt(2)] by simp
  have size: "blk_link_size m (of_nat ?b) = of_nat sz0" and usz: "unat (of_nat sz0 :: u32) = sz0"
    using chain_link_size [OF cb pb cbound] by simp_all
  let ?need = "ptr2memblk_size sz trace" and ?hd = "mem_blk_head_size trace"
  have fits: "blk_link_size m (of_nat ?b) \<ge> ?need + ?hd + MEM_BLK_MIN \<longleftrightarrow> n + ?h + 1 \<le> sz0"
  proof -
    have "unat (?need + ?hd + MEM_BLK_MIN) = n + ?h + 1"
      using unat_add_no_wrap [of ?need ?hd] unat_add_no_wrap [of "?need + ?hd" 1] need bound head_len_def [of ?st]
      by (simp add: MEM_BLK_MIN_def split: if_splits)
    then show ?thesis by (simp add: size usz word_le_nat_alt del: of_nat_add)
  qed
  let ?next = "if blk_link_size m (of_nat ?b) \<ge> ?need + ?hd + MEM_BLK_MIN then of_nat ?b + ?need else mem_blk_next m (of_nat ?b)"
  let ?m1 = "if mem_blk_next m (of_nat ?b) \<noteq> ?next then link_rest (of_nat ?b) ?next m else m"
  let ?m3 = "mark_used trace (of_nat ?b) caller line ?m1"
  let ?cs = "carve n ?h ?st sz0"
  have m1: "chain ?m1 ?p ?b ((fst (hd ?cs), Free) # tl ?cs @ post)
      \<and> (\<forall>w. w mod 4 = 0 \<and> (w < ?b \<or> ?b + sz0 < w) \<longrightarrow> ld32 ?m1 w = ld32 m w)"
  proof (cases "n + ?h + 1 \<le> sz0")
    case True
    have nw: "of_nat ?b + ?need = of_nat (?b + n)" by (simp flip: need(1))
    have "mem_blk_next m (of_nat ?b) \<noteq> of_nat (?b + n)"
      using chain_first(3) [OF cb pb cbound] of_nat_inj_small [of "?b + sz0" "?b + n"] bound True
      by (simp add: head_next_def del: of_nat_add)
    then have "?m1 = link_rest (of_nat ?b) (of_nat (?b + n)) m" using True fits nw by simp
    then show ?thesis
      using link_rest_chain [OF cb pb lt(2) b4 _ shapes(3) need(2) _ _ sz0(1)] True need(3) h(1) bound b4 need(2)
      by (auto simp: carve_def)
  next
    case False
    then show ?thesis using fits cb by (auto simp: carve_def)
  qed
  note cf = carve_facts [OF sz0(1) need(2,4,3) h(1,2,3) h(4)]
  let ?sz = "fst (hd ?cs)"
  have cs: "?cs = (?sz, ?st) # tl ?cs" using cf(4,5) by (cases ?cs) auto
  have shapes': "\<forall>b \<in> set (tl ?cs @ post). shape b" using cf(2,5) shapes(3) by (cases ?cs) auto
  have span': "?sz + span (tl ?cs @ post) = sz0 + span post" using cf(1) cs by (metis span_simps(2,3) fst_conv add.assoc)
  have sz: "?sz mod 4 = 0" "?h \<le> ?sz" using sz0(1) need cf(7) by (auto split: if_splits)
  have m3: "chain ?m3 ?p ?b (?cs @ post)"
    and m3w: "\<And>w. w mod 4 = 0 \<Longrightarrow> w < ?b \<or> ?b + sz0 < w \<Longrightarrow> ld32 ?m3 w = ld32 m w"
  proof -
    note mu = mark_used_chain [where m = ?m1, OF m1 [THEN conjunct1] pb b4 _ shapes' sz]
    have bnd: "?b + ?sz + span (tl ?cs @ post) + 8 < 2 ^ 31" using span' bound by simp
    show "chain ?m3 ?p ?b (?cs @ post)" using mu(1) [OF bnd, of caller line] by (subst cs) simp
    show "ld32 ?m3 w = ld32 m w" if "w mod 4 = 0" "w < ?b \<or> ?b + sz0 < w" for w
      using mu(2) [OF bnd that(1), of caller line] m1 that sz(2) span' cf(1,7) need(4) by (auto split: if_splits)
  qed
  have whole: "chain ?m3 0 ?a (pre @ ?cs @ post)"
    by (rule chain_in_place [OF c [unfolded bs] shapes(1) a(2) m3]) (rule m3w, simp_all)
  have bound3: "?b + span (?cs @ post) < 2 ^ 31" using bound cf(1) by simp
  have size3: "blk_link_size ?m3 (of_nat ?b) = of_nat ?sz"
    using chain_link_size(1) [of ?m3 ?p ?b "(?sz, ?st)" "tl ?cs @ post"] m3 pb bound3 cs by (metis append_Cons fst_conv)
  obtain M where M: "?m3 = M" by simp
  note chM = m3 [unfolded M] and frameM = m3w [unfolded M] and wholeM = whole [unfolded M] and sizeM = size3 [unfolded M]
  let ?new = "pre @ ?cs @ post"
  have free_blk: "(if hr_free_blk r = of_nat ?b then skip_used M (of_nat ?b) else Some (hr_free_blk r)) = Some (of_nat (?a + used_off ?new))"
  proof (cases "\<forall>b \<in> set pre. snd b \<noteq> Free")
    case True
    then have "hr_free_blk r = of_nat ?b" "used_off ?new = span pre + used_off (?cs @ post)" by (simp_all add: ff bs used_off_append)
    then show ?thesis using skip_used_chain [OF chM pb lt(2) bound3] by (simp add: add.assoc del: of_nat_add)
  next
    case False
    then have "used_off pre < span pre" using shapes(1) by (auto intro: used_off_lt)
    moreover have "used_off bs = used_off pre" "used_off ?new = used_off pre" using False by (auto simp: bs used_off_append)
    ultimately show ?thesis using of_nat_inj_small [of "?a + used_off pre" ?b] bound by (simp add: ff del: of_nat_add)
  qed
  have "free_total bs = free_total ?new + ?sz" using cf(3,7) need(4) by (simp add: bs)
  then have free_bytes: "hr_free_bytes r - blk_link_size M (of_nat ?b) = of_nat (free_total ?new)" unfolding fb sizeM by simp
  have adj': "no_adj ?new"
    using adj h(3) unfolding bs no_adj_append by (cases post) (auto simp: carve_def no_adj_append)
  have region: "malloc_region sz caller line trace m r
      = Some (M, r\<lparr>hr_free_blk := of_nat (?a + used_off ?new), hr_free_bytes := of_nat (free_total ?new),
          hr_min_free_bytes := (if hr_min_free_bytes r > of_nat (free_total ?new) then of_nat (free_total ?new) else hr_min_free_bytes r)\<rparr>,
          of_nat (?b + ?h))"
  proof -
    have ptr: "blk2ptr (of_nat ?b) trace = of_nat (?b + ?h)" by (simp add: blk2ptr_def flip: unat_head)
    have "malloc_region sz caller line trace m r = do {
        free_blk \<leftarrow> (if hr_free_blk r = of_nat ?b then skip_used M (of_nat ?b) else Some (hr_free_blk r));
        let free_bytes = hr_free_bytes r - blk_link_size M (of_nat ?b);
            min_free = (if hr_min_free_bytes r > free_bytes then free_bytes else hr_min_free_bytes r) in
        Some (M, r\<lparr>hr_free_blk := free_blk, hr_free_bytes := free_bytes, hr_min_free_bytes := min_free\<rparr>, of_nat (?b + ?h)) }"
      unfolding malloc_region_def Let_def found if_not_P [OF enough] ptr [symmetric] M [symmetric] mark_used_def
      using b0 notend by (simp del: of_nat_add)
    then show ?thesis unfolding free_blk free_bytes by (simp add: Let_def)
  qed
  let ?r = "r\<lparr>hr_free_blk := of_nat (?a + used_off ?new), hr_free_bytes := of_nat (free_total ?new),
          hr_min_free_bytes := (if hr_min_free_bytes r > of_nat (free_total ?new) then of_nat (free_total ?new) else hr_min_free_bytes r)\<rparr>"
  have "region_ok M ?r ?new"
    using ok wholeM adj' shapes cf(1,2) unfolding region_ok_def by (auto simp: region_start_def bs)
  then show ?thesis using region frameM by (intro exI [of _ M] exI [of _ ?r]) auto
qed

lemma malloc_region_none:
  assumes ok: "region_ok m r bs" and need: "unat (ptr2memblk_size sz trace) = n"
    and no: "\<forall>b \<in> set bs. \<not> (snd b = Free \<and> n \<le> fst b)"
  shows "malloc_region sz caller line trace m r = Some (m, r, 0)"
proof -
  let ?a = "region_start r"
  have a: "0 < ?a" and bound: "?a + span bs + 8 < 2 ^ 31" and c: "chain m 0 ?a bs" and ff: "hr_free_blk r = of_nat (?a + used_off bs)"
    using ok by (auto simp: region_ok_def)
  have "find_fit m (ptr2memblk_size sz trace) (hr_free_blk r) = Some (of_nat (?a + span bs))"
    using find_fit_region [OF c a] bound fit_off_pre [OF no, of "[]"] need by (simp add: ff del: of_nat_add)
  moreover have "mem_blk_is_end m (of_nat (?a + span bs))"
    using chain_end [of m "last_at 0 ?a bs" "?a + span bs" "[]"] c bound a chain_append [of m 0 ?a bs "[]"] by (simp del: of_nat_add)
  ultimately show ?thesis by (simp add: malloc_region_def Let_def del: of_nat_add)
qed

section \<open>Release in a region\<close>

text \<open>Freeing the block of size \<open>sz\<close> between \<open>pre\<close> and \<open>post\<close>: merge with what is
  free on either side.\<close>

definition merge_left :: "blk list \<Rightarrow> nat \<Rightarrow> blk list \<times> nat" where
  "merge_left pre sz = (if pre \<noteq> [] \<and> snd (last pre) = Free then (butlast pre, fst (last pre) + sz) else (pre, sz))"

definition merge_right :: "nat \<Rightarrow> blk list \<Rightarrow> blk list" where
  "merge_right sz post = (case post of (s, Free) # ps \<Rightarrow> (sz + s, Free) # ps | _ \<Rightarrow> (sz, Free) # post)"

definition release :: "blk list \<Rightarrow> nat \<Rightarrow> blk list \<Rightarrow> blk list" where
  "release pre sz post = (let (pre', s) = merge_left pre sz in pre' @ merge_right s post)"

lemma release_cases:
  obtains (merge) pre' s where "pre = pre' @ [(s, Free)]" "\<And>sz post. release pre sz post = pre' @ merge_right (s + sz) post"
    | (keep) "pre = [] \<or> snd (last pre) \<noteq> Free" "\<And>sz post. release pre sz post = pre @ merge_right sz post"
proof (cases "pre \<noteq> [] \<and> snd (last pre) = Free")
  case True
  then have "pre = butlast pre @ [(fst (last pre), Free)]" by (metis append_butlast_last_id prod.collapse)
  then show ?thesis using True by (intro merge) (auto simp: release_def merge_left_def)
next
  case False
  then show ?thesis by (intro keep) (auto simp: release_def merge_left_def)
qed

lemma merge_right_facts:
  shows "span (merge_right s post) = s + span post" and "free_total (merge_right s post) = s + free_total post"
    and "used_off (merge_right s post) = 0" and "merge_right s post \<noteq> []" and "snd (hd (merge_right s post)) = Free"
  by (auto simp: merge_right_def split: list.split blk_status.split)

lemma shape_Free: "shape (s, Free) \<longleftrightarrow> s mod 4 = 0 \<and> 8 \<le> s"
  by (simp add: shape_def)

lemma merge_right_shape:
  assumes "\<forall>b \<in> set post. shape b" and "s mod 4 = 0" and "8 \<le> s"
  shows "\<forall>b \<in> set (merge_right s post). shape b"
proof (cases post)
  case (Cons b bs)
  then show ?thesis using assms by (cases b; cases "snd b") (auto simp: merge_right_def shape_Free mod_eq_0_iff_dvd)
qed (use assms in \<open>simp add: merge_right_def shape_Free\<close>)

lemma merge_right_no_adj: "no_adj post \<Longrightarrow> no_adj (merge_right s post)"
proof (cases post)
  case (Cons b bs)
  assume "no_adj post"
  then show ?thesis using Cons by (cases b; cases "snd b"; cases bs) (auto simp: merge_right_def)
qed (simp add: merge_right_def)

lemma release_span [simp]: "span (release pre sz post) = span pre + sz + span post"
  by (cases rule: release_cases [of pre]) (simp_all add: merge_right_facts)

lemma release_free_total: "free_total (release pre sz post) = free_total pre + sz + free_total post"
  by (cases rule: release_cases [of pre]) (simp_all add: merge_right_facts)

lemma release_shape:
  assumes "\<forall>b \<in> set pre. shape b" "\<forall>b \<in> set post. shape b" "sz mod 4 = 0" "8 \<le> sz"
  shows "\<forall>b \<in> set (release pre sz post). shape b"
proof (cases rule: release_cases [of pre])
  case (merge pre' s)
  then have "(s + sz) mod 4 = 0" "8 \<le> s + sz" using assms by (auto simp: shape_def mod_eq_0_iff_dvd)
  then show ?thesis using merge assms(1) merge_right_shape [OF assms(2), of "s + sz"] by auto
next
  case keep
  then show ?thesis using assms merge_right_shape [OF assms(2), of sz] by auto
qed

lemma release_no_adj: "no_adj (pre @ b # post) \<Longrightarrow> no_adj (release pre sz post)"
proof (cases rule: release_cases [of pre])
  case (merge pre' s)
  assume "no_adj (pre @ b # post)"
  then have "no_adj pre'" "no_adj post" "pre' = [] \<or> snd (last pre') \<noteq> Free"
    using no_adj_append [of "[b]" post] by (auto simp: merge(1) no_adj_append)
  then show ?thesis using merge_right_no_adj [of post] by (auto simp: merge(2) no_adj_append)
next
  case keep
  assume "no_adj (pre @ b # post)"
  then have "no_adj pre" "no_adj post" using no_adj_append [of "[b]" post] by (auto simp: no_adj_append)
  then show ?thesis using keep merge_right_no_adj [of post] by (auto simp: no_adj_append)
qed

lemma release_used_off:
  assumes "\<forall>b \<in> set pre. shape b"
  shows "used_off (release pre sz post) = min (used_off (pre @ b # post)) (span pre)"
proof (cases "\<forall>b \<in> set pre. snd b \<noteq> Free")
  case True
  then show ?thesis
    by (cases rule: release_cases [of pre]) (auto simp: used_off_append merge_right_facts)
next
  case False
  then have "used_off pre < span pre" using assms used_off_lt by blast
  then have old: "min (used_off (pre @ b # post)) (span pre) = used_off pre" using False by (auto simp: used_off_append)
  show ?thesis
  proof (cases rule: release_cases [of pre])
    case (merge pre' s)
    then show ?thesis unfolding old by (simp add: used_off_append merge_right_facts)
  next
    case keep
    then show ?thesis using False unfolding old by (auto simp: used_off_append)
  qed
qed

fun starts :: "nat \<Rightarrow> blk list \<Rightarrow> nat set" where
  "starts a [] = {a}"
| "starts a (b # bs) = insert a (starts (a + fst b) bs)"

lemma starts_append: "starts a (xs @ ys) = starts a xs \<union> starts (a + span xs) ys"
proof (induction xs arbitrary: a)
  case Nil
  then show ?case by (cases ys) auto
next
  case (Cons x xs)
  then show ?case by (simp add: add.assoc)
qed

lemma last_at_starts: "xs \<noteq> [] \<Longrightarrow> last_at p a xs \<in> starts a xs"
proof (induction xs arbitrary: p a)
  case (Cons b bs)
  then show ?case by (cases bs) auto
qed simp

lemma last_at_snoc [simp]: "last_at p a (xs @ [b]) = a + span xs"
  by (induction xs arbitrary: p a) (auto simp: add.assoc)

definition mark_free :: "u32 \<Rightarrow> mem \<Rightarrow> mem" where
  "mark_free b m = mem_blk_set_untraced b (mem_blk_set_unused b m)"

lemma mark_free_chain:
  assumes c: "chain m p a ((sz, st) # bs)" and "p \<le> a" and "a mod 4 = 0" and bound: "a + sz + span bs + 8 < 2 ^ 31"
    and shapes: "\<forall>b \<in> set bs. shape b" and sz: "shape (sz, st)"
  shows "chain (mark_free (of_nat a) m) p a ((sz, Free) # bs)"
    and "\<And>w. w mod 4 = 0 \<Longrightarrow> w \<noteq> a \<Longrightarrow> w \<noteq> a + 4 \<Longrightarrow> ld32 (mark_free (of_nat a) m) w = ld32 m w"
proof -
  have hd: "ld32 m a = tagged p (st \<noteq> Free)" "ld32 m (a + 4) = tagged (a + sz) (st = Traced)" and rest: "chain m a (a + sz) bs"
    using c by (simp_all add: chain_simps hdr_def)
  have lt: "a < 2 ^ 31" "p < 2 ^ 31" "a + sz < 2 ^ 31" using bound assms(2) by simp_all
  have s: "sz mod 4 = 0" "8 \<le> sz" using sz by (auto simp: shape_def split: if_splits)
  have m4: "(a + 4) mod 4 = 0" "(a + sz) mod 4 = 0" using assms(3) s by (simp_all add: mod_eq_0_iff_dvd)
  have ld: "ld32 (mark_free (of_nat a) m) w = (if w = a then tagged p False else if w = a + 4 then tagged (a + sz) False else ld32 m w)"
    if "w mod 4 = 0" for w
    using that m4 assms(3)
    by (simp add: mark_free_def header_functions [OF lt(1)] ld32_st32_word hd tagged_simps(1) [OF lt(2)] tagged_simps(1) [OF lt(3)] tagged_False)
  have "chain (mark_free (of_nat a) m) a (a + sz) bs"
    by (rule chain_relink [OF shapes m4(2) rest]) (use m4 s ld chain_head [OF rest] in auto)
  then show "chain (mark_free (of_nat a) m) p a ((sz, Free) # bs)"
    using m4 assms(3) by (simp add: chain_simps hdr_def ld)
  show "ld32 (mark_free (of_nat a) m) w = ld32 m w" if "w mod 4 = 0" "w \<noteq> a" "w \<noteq> a + 4" for w
    using that by (simp add: ld)
qed

text \<open>The second half of the release: what follows the free block \<open>tmp\<close>.\<close>

definition merge_next :: "nat \<Rightarrow> nat \<Rightarrow> nat \<Rightarrow> mem \<Rightarrow> mem" where
  "merge_next t e nxt m =
    (if of_nat nxt \<noteq> (0 :: u32) \<and> \<not> mem_blk_is_used m (of_nat e) then unlink_next t nxt m else m)"

lemma merge_right_chain:
  assumes c: "chain m p t ((s1, Free) # bs)" and "p \<le> t" and t: "0 < t" "t mod 4 = 0" and bound: "t + s1 + span bs + 8 < 2 ^ 31"
    and shapes: "\<forall>b \<in> set bs. shape b" and s1: "s1 mod 4 = 0" "8 \<le> s1"
  shows "chain (merge_next t (t + s1) (head_next (t + s1) bs) m) p t (merge_right s1 bs)"
    and "\<And>w. w mod 4 = 0 \<Longrightarrow> w \<noteq> t + 4 \<Longrightarrow> w \<notin> starts (t + s1) bs \<Longrightarrow> ld32 (merge_next t (t + s1) (head_next (t + s1) bs) m) w = ld32 m w"
proof -
  let ?m = "merge_next t (t + s1) (head_next (t + s1) bs) m"
  have rest: "chain m t (t + s1) bs" using c by (simp add: chain_simps)
  have used: "mem_blk_is_used m (of_nat (t + s1)) \<longleftrightarrow> head_used bs"
    by (rule chain_first(2) [OF rest]) (use bound in simp_all)
  have next0: "of_nat (head_next (t + s1) bs) \<noteq> (0 :: u32) \<longleftrightarrow> bs \<noteq> []"
    using of_nat_zero_small [of "head_next (t + s1) bs"] bound t(1) by (cases bs) (auto simp: head_next_def simp del: of_nat_add)
  have res: "chain ?m p t (merge_right s1 bs) \<and> (\<forall>w. w mod 4 = 0 \<and> w \<noteq> t + 4 \<and> w \<notin> starts (t + s1) bs \<longrightarrow> ld32 ?m w = ld32 m w)"
  proof (cases "bs \<noteq> [] \<and> \<not> head_used bs")
    case True
    then obtain s2 ps where merge: "bs = (s2, Free) # ps" by (cases bs) (auto simp: head_used_def)
    have s2: "s2 mod 4 = 0" "8 \<le> s2" using shapes merge by (auto simp: shape_Free)
    have cc: "chain m p t ((s1, Free) # (s2, Free) # ps)" using c merge by simp
    have b: "t + s1 + s2 + span ps + 8 < 2 ^ 31" and sh: "\<forall>b \<in> set ps. shape b" using bound shapes merge by simp_all
    note u = unlink_next_chain [OF cc assms(2) t(2) b sh s1(1) s2(1) s1(2) s2(2)]
    have m: "?m = unlink_next t (t + s1 + s2) m"
      using merge used next0 by (simp add: merge_next_def head_next_def head_used_def del: of_nat_add)
    have "t + s1 + s2 \<in> starts (t + s1) bs" using merge by (cases ps) auto
    then have "ld32 ?m w = ld32 m w" if "w mod 4 = 0" "w \<noteq> t + 4" "w \<notin> starts (t + s1) bs" for w
      unfolding m using u(2) that by metis
    moreover have "chain ?m p t (merge_right s1 bs)" unfolding m using u(1) by (simp add: merge merge_right_def)
    ultimately show ?thesis by (simp del: mod_mod_trivial)
  next
    case keep: False
    then have "?m = m" using used next0 by (auto simp: merge_next_def)
    moreover have "merge_right s1 bs = (s1, Free) # bs"
      using keep by (auto simp: merge_right_def head_used_def split: list.splits blk_status.splits)
    ultimately show ?thesis using c by (simp del: of_nat_add)
  qed
  then show "chain ?m p t (merge_right s1 bs)" by simp
  show "ld32 ?m w = ld32 m w" if "w mod 4 = 0" "w \<noteq> t + 4" "w \<notin> starts (t + s1) bs" for w
    using res that by simp
qed

lemma start_in_starts [simp]: "a \<in> starts a bs"
  by (cases bs) auto

lemma starts_ge: "x \<in> starts a bs \<Longrightarrow> a \<le> x"
  by (induction a bs rule: starts.induct) auto

lemma free_region_ok:
  assumes ok: "region_ok m r bs" and bs: "bs = pre @ (sz, st) # post" and st: "st \<noteq> Free"
  shows "\<exists>m' r'. free_region (of_nat (region_start r + span pre)) m r = (m', r') \<and> region_ok m' r' (release pre sz post)
    \<and> hr_start_addr r' = hr_start_addr r \<and> hr_total_size r' = hr_total_size r \<and> hr_caps r' = hr_caps r
    \<and> (\<forall>w. w mod 4 = 0 \<and> w \<notin> starts (region_start r) bs \<and> w \<notin> (\<lambda>x. x + 4) ` starts (region_start r) bs \<longrightarrow> ld32 m' w = ld32 m w)"
proof -
  let ?a = "region_start r"
  let ?b = "?a + span pre" and ?p = "last_at 0 ?a pre"
  let ?e = "?b + sz"
  have a: "0 < ?a" "?a mod 4 = 0" and bound: "?a + span pre + sz + span post + 8 < 2 ^ 31"
    and c: "chain m 0 ?a bs" and shapes: "\<forall>b \<in> set pre. shape b" "shape (sz, st)" "\<forall>b \<in> set post. shape b"
    and fb: "hr_free_bytes r = of_nat (free_total bs)" and ff: "hr_free_blk r = of_nat (?a + used_off bs)"
    and adj: "no_adj bs" and mn: "hr_min_free_bytes r \<le> hr_free_bytes r"
    using ok by (auto simp: region_ok_def bs)
  have cb: "chain m ?p ?b ((sz, st) # post)" using c by (simp add: bs chain_append)
  have pb: "?p \<le> ?b" by (rule last_at_mono) simp
  have sz: "sz mod 4 = 0" "8 \<le> sz" using shapes(2) by (auto simp: shape_def split: if_splits)
  have b4: "?b mod 4 = 0" using a(2) shape_mod [OF shapes(1)] by (simp add: mod_eq_0_iff_dvd)
  have bnd: "?b + sz + span post + 8 < 2 ^ 31" "?b + span ((sz, st) # post) < 2 ^ 31" using bound by simp_all
  let ?m1 = "mark_free (of_nat ?b) m"
  note mf = mark_free_chain [OF cb pb b4 bnd(1) shapes(3,2)]
  have whole1: "chain ?m1 0 ?a (pre @ (sz, Free) # post)"
    by (rule chain_in_place [OF c [unfolded bs] shapes(1) a(2) mf(1)]) (rule mf(2), simp_all)
  have size: "blk_link_size m (of_nat ?b) = of_nat sz" using chain_link_size(1) [OF cb pb bnd(2)] by simp
  have bnd1: "?b + span ((sz, Free) # post) < 2 ^ 31" using bound by simp
  have prv: "mem_blk_prev ?m1 (of_nat ?b) = of_nat ?p" and nxt: "mem_blk_next ?m1 (of_nat ?b) = of_nat ?e"
    using chain_first(1,3) [OF mf(1) pb bnd1] by (simp_all add: head_next_def)
  have last_blk: "mem_blk_next ?m1 (of_nat ?e) = of_nat (head_next ?e post)"
    using chain_first(3) [of ?m1 ?b ?e post] mf(1) bound by (simp add: chain_simps)
  let ?m2 = "if (of_nat ?p :: u32) \<noteq> 0 \<and> \<not> mem_blk_is_used ?m1 (of_nat ?p) then unlink_next ?p ?e ?m1 else ?m1"
  let ?tmp = "if (of_nat ?p :: u32) \<noteq> 0 \<and> \<not> mem_blk_is_used ?m1 (of_nat ?p) then ?p else ?b"
  have run: "free_region (of_nat ?b) m r = (merge_next ?tmp ?e (head_next ?e post) ?m2,
      r\<lparr>hr_free_bytes := hr_free_bytes r + of_nat sz, hr_free_blk := (if of_nat ?b < hr_free_blk r then of_nat ?b else hr_free_blk r)\<rparr>)"
    unfolding free_region_def mark_free_def [symmetric] Let_def prv nxt last_blk size merge_next_def unlink_next_def
    by (simp del: of_nat_add)
  have mem: "chain (merge_next ?tmp ?e (head_next ?e post) ?m2) 0 ?a (release pre sz post)
      \<and> (\<forall>w. w mod 4 = 0 \<and> w \<notin> starts ?a bs \<and> w \<notin> (\<lambda>x. x + 4) ` starts ?a bs \<longrightarrow> ld32 (merge_next ?tmp ?e (head_next ?e post) ?m2) w = ld32 m w)"
  proof (cases rule: release_cases [of pre])
    case (merge pre' s)
    let ?t = "?a + span pre'" and ?q = "last_at 0 ?a pre'"
    have t: "?p = ?t" and e: "?t + s + sz = ?e" by (simp_all add: merge(1))
    have s: "s mod 4 = 0" "8 \<le> s" and shp: "\<forall>b \<in> set pre'. shape b" using shapes(1) by (auto simp: merge(1) shape_Free)
    have ct: "chain ?m1 ?q ?t ((s, Free) # (sz, Free) # post)"
      using whole1 by (simp add: merge(1)) (simp add: chain_append)
    have qt: "?q \<le> ?t" by (rule last_at_mono) simp
    have t4: "?t mod 4 = 0" "0 < ?t" using a shape_mod [OF shp] by (simp_all add: mod_eq_0_iff_dvd)
    have bt: "?t + s + sz + span post + 8 < 2 ^ 31" "?t + span ((s, Free) # (sz, Free) # post) < 2 ^ 31"
      "?t + (s + sz) + span post + 8 < 2 ^ 31" using bound by (simp_all add: merge(1))
    have cond: "(of_nat ?p :: u32) \<noteq> 0 \<and> \<not> mem_blk_is_used ?m1 (of_nat ?p)"
      using chain_first(2) [OF ct qt bt(2)] of_nat_zero_small [of ?t] t4(2) bt(1) unfolding t by (simp add: head_used_def del: of_nat_add)
    note u = unlink_next_chain [OF ct qt t4(1) bt(1) shapes(3) s(1) sz(1) s(2) sz(2), unfolded e]
    have ss: "(s + sz) mod 4 = 0" "8 \<le> s + sz" using s sz by (simp_all add: mod_eq_0_iff_dvd)
    have e': "?t + (s + sz) = ?e" using e by simp
    note mr = merge_right_chain [OF u(1) qt t4(2,1) bt(3) shapes(3) ss, unfolded e']
    have w: "ld32 (merge_next ?t ?e (head_next ?e post) (unlink_next ?t ?e ?m1)) w = ld32 m w"
      if "w mod 4 = 0" "w \<notin> {?t + 4, ?b, ?b + 4}" "w \<notin> starts ?e post" for w
    proof -
      have "w \<noteq> ?e" using that(3) by auto
      then show ?thesis using that mr(2) u(2) mf(2) by simp
    qed
    have "chain (merge_next ?t ?e (head_next ?e post) (unlink_next ?t ?e ?m1)) 0 ?a (pre' @ merge_right (s + sz) post)"
    proof (rule chain_in_place [where m = ?m1 and ys = "(s, Free) # (sz, Free) # post", OF _ shp a(2) mr(1)])
      show "chain ?m1 0 ?a (pre' @ (s, Free) # (sz, Free) # post)" using whole1 by (simp add: merge(1))
      fix w assume "w mod 4 = 0" "w < ?t"
      moreover have "w \<notin> starts ?e post" "?t \<le> ?b" "?t \<le> ?e" using starts_ge [of w ?e post] calculation by (auto simp: merge(1))
      ultimately show "ld32 (merge_next ?t ?e (head_next ?e post) (unlink_next ?t ?e ?m1)) w = ld32 ?m1 w"
        using mr(2) u(2) by simp
    qed
    moreover have sub: "?t \<in> starts ?a bs" "?b \<in> starts ?a bs" "starts ?e post \<subseteq> starts ?a bs"
      by (simp_all add: bs merge(1) starts_append add.assoc subset_insertI2)
    have "ld32 (merge_next ?t ?e (head_next ?e post) (unlink_next ?t ?e ?m1)) w = ld32 m w"
      if "w mod 4 = 0" "w \<notin> starts ?a bs" "w \<notin> (\<lambda>x. x + 4) ` starts ?a bs" for w
      using that sub by (intro w) blast+
    ultimately show ?thesis unfolding if_P [OF cond] merge(2) unfolding t by simp
  next
    case keep
    have cond: "\<not> ((of_nat ?p :: u32) \<noteq> 0 \<and> \<not> mem_blk_is_used ?m1 (of_nat ?p))"
    proof (cases "pre = []")
      case False
      then obtain pre' b' where pre: "pre = pre' @ [b']" by (metis append_butlast_last_id)
      have "chain ?m1 (last_at 0 ?a pre') (?a + span pre') (b' # (sz, Free) # post)"
        using whole1 by (simp add: pre) (simp add: chain_append)
      from chain_first(2) [OF this last_at_mono] bound keep(1)
      have "mem_blk_is_used ?m1 (of_nat (?a + span pre'))" by (simp add: pre head_used_def)
      then show ?thesis by (simp add: pre)
    qed simp
    note mr = merge_right_chain [OF mf(1) pb _ b4 bnd(1) shapes(3) sz]
    have b0: "0 < ?b" using a by simp
    have w: "ld32 (merge_next ?b ?e (head_next ?e post) ?m1) w = ld32 m w"
      if "w mod 4 = 0" "w \<notin> {?b, ?b + 4}" "w \<notin> starts ?e post" for w
      using that mr(2) [OF b0] mf(2) by simp
    have "chain (merge_next ?b ?e (head_next ?e post) ?m1) 0 ?a (pre @ merge_right sz post)"
    proof (rule chain_in_place [OF whole1 shapes(1) a(2) mr(1) [OF b0]])
      fix w assume "w mod 4 = 0" "w < ?b"
      moreover have "w \<notin> starts ?e post" using starts_ge [of w ?e post] calculation by auto
      ultimately show "ld32 (merge_next ?b ?e (head_next ?e post) ?m1) w = ld32 ?m1 w" using mr(2) [OF b0] by simp
    qed
    moreover have sub: "?b \<in> starts ?a bs" "starts ?e post \<subseteq> starts ?a bs"
      by (simp_all add: bs starts_append add.assoc subset_insertI2)
    have "ld32 (merge_next ?b ?e (head_next ?e post) ?m1) w = ld32 m w"
      if "w mod 4 = 0" "w \<notin> starts ?a bs" "w \<notin> (\<lambda>x. x + 4) ` starts ?a bs" for w
      using that sub by (intro w) blast+
    ultimately show ?thesis unfolding if_not_P [OF cond] keep(2) by simp
  qed
  have free_blk: "(if of_nat ?b < hr_free_blk r then of_nat ?b else hr_free_blk r) = of_nat (?a + used_off (release pre sz post))"
  proof -
    have "used_off bs \<le> span bs" by (rule used_off_le)
    then have lt: "?b < 2 ^ 31" "?a + used_off bs < 2 ^ 31" using bound by (simp_all add: bs)
    then have "of_nat ?b < hr_free_blk r \<longleftrightarrow> ?b < ?a + used_off bs"
      using unat_of_nat_small [of ?b, where 'a = 32] unat_of_nat_small [of "?a + used_off bs", where 'a = 32]
      by (simp add: ff word_less_nat_alt del: of_nat_add)
    moreover have "used_off (release pre sz post) = min (used_off bs) (span pre)"
      unfolding bs by (rule release_used_off [OF shapes(1)])
    ultimately show ?thesis by (simp add: ff min_def)
  qed
  let ?r = "r\<lparr>hr_free_bytes := hr_free_bytes r + of_nat sz, hr_free_blk := of_nat (?a + used_off (release pre sz post))\<rparr>"
  have free: "hr_free_bytes r + of_nat sz = of_nat (free_total (release pre sz post))"
    using st by (simp add: fb release_free_total bs)
  have "hr_min_free_bytes r \<le> of_nat (free_total (release pre sz post))"
  proof -
    have "free_total bs \<le> free_total (release pre sz post)" using st by (simp add: release_free_total bs)
    moreover have "free_total (release pre sz post) < 2 ^ 32" "free_total bs < 2 ^ 32"
      using free_total_le [of "release pre sz post"] free_total_le [of bs] bound by (simp_all add: bs)
    ultimately have "hr_free_bytes r \<le> of_nat (free_total (release pre sz post))"
      by (simp add: fb word_le_nat_alt unat_of_nat_small)
    then show ?thesis using mn by simp
  qed
  then have "region_ok (merge_next ?tmp ?e (head_next ?e post) ?m2) ?r (release pre sz post)"
    using ok mem release_shape [OF shapes(1,3) sz] release_no_adj [of pre "(sz, st)" post sz] adj free
    unfolding region_ok_def by (simp add: region_start_def bs)
  then show ?thesis using run mem unfolding free_blk
    by (intro exI [of _ "merge_next ?tmp ?e (head_next ?e post) ?m2"] exI [of _ ?r]) simp
qed

end
