(* ===== verification/Heap_State.thy ===== *)
theory Heap_State
  imports Heap_Caps
begin

text \<open>
  The heap as a whole: \<^verbatim>\<open>components/heap/src/esp_heap_caps.c\<close> over all the regions of
  \<^verbatim>\<open>port/esp8266/esp_heap_init.c\<close>. The blocks that callers hold and their contents; what allocation and
  release do to them; the heap after the set-up; and every sequence of calls from there.
\<close>

section \<open>Live blocks and their contents\<close>

text \<open>The pointers the caller holds, with the bytes behind each.\<close>

fun live :: "nat \<Rightarrow> blk list \<Rightarrow> (nat \<times> nat) list" where
  "live a [] = []"
| "live a (b # bs) = (if snd b = Free then [] else [(a + head_len (snd b), fst b - head_len (snd b))]) @ live (a + fst b) bs"

lemma live_append [simp]: "live a (xs @ ys) = live a xs @ live (a + span xs) ys"
  by (induction xs arbitrary: a) (auto simp: add.assoc)

lemma head_len_shape: "shape b \<Longrightarrow> head_len (snd b) \<le> fst b"
  by (auto simp: shape_def head_len_def)

lemma head_len_cases: "head_len st = 8 \<or> head_len st = 16"
  by (simp add: head_len_def)

lemma live_range:
  assumes "x \<in> set (live a bs)" and "\<forall>b \<in> set bs. shape b"
  shows "a + 8 \<le> fst x" and "fst x + snd x \<le> a + span bs"
  using assms
proof (induction bs arbitrary: a)
  case (Cons b bs)
  case 1
  then show ?case using Cons.IH(1) [of "a + fst b"] by (auto simp: head_len_def split: if_splits)
next
  case (Cons b bs)
  case 2
  then show ?case using Cons.IH(2) [of "a + fst b"] head_len_shape [of b] by (auto split: if_splits)
qed simp_all

lemma live_mod:
  assumes "x \<in> set (live a bs)" and "\<forall>b \<in> set bs. shape b" and "a mod 4 = 0"
  shows "fst x mod 4 = 0" and "snd x mod 4 = 0"
  using assms
proof (induction bs arbitrary: a)
  case (Cons b bs)
  case 1
  then show ?case using Cons.IH(1) [of "a + fst b"] head_len_cases [of "snd b"]
    by (auto simp: shape_def mod_eq_0_iff_dvd split: if_splits)
next
  case (Cons b bs)
  case 2
  then show ?case using Cons.IH(2) [of "a + fst b"] head_len_cases [of "snd b"] head_len_shape [of b]
    by (auto simp: shape_def mod_eq_0_iff_dvd intro: dvd_diff_nat split: if_splits)
qed simp_all

lemma live_starts:
  assumes "x \<in> set (live a bs)" and "\<forall>b \<in> set bs. shape b" and "y \<in> starts a bs"
  shows "y + 8 \<le> fst x \<or> fst x + snd x \<le> y"
  using assms
proof (induction bs arbitrary: a)
  case (Cons b bs)
  show ?case
  proof (cases "x \<in> set (live (a + fst b) bs)")
    case True
    then have "a + fst b + 8 \<le> fst x" using live_range(1) Cons.prems(2) by fastforce
    then show ?thesis using Cons.IH [OF True] Cons.prems by auto
  next
    case False
    then have x: "x = (a + head_len (snd b), fst b - head_len (snd b))" using Cons.prems(1) by (auto split: if_splits)
    consider "y = a" | "a + fst b \<le> y" using Cons.prems(3) starts_ge by fastforce
    then show ?thesis using head_len_cases [of "snd b"] head_len_shape [of b] Cons.prems(2) by cases (auto simp: x)
  qed
qed simp

lemma live_word:
  assumes x: "x \<in> set (live a bs)" and s: "\<forall>b \<in> set bs. shape b" and w: "fst x \<le> w" "w < fst x + snd x"
  shows "w \<notin> starts a bs" and "w \<notin> (\<lambda>x. x + 4) ` starts a bs"
  using live_starts [OF x s, of w] live_starts [OF x s, of "w - 4"] w by auto

lemma live_at:
  assumes "x \<in> set (live a bs)"
  obtains pre sz st post where "bs = pre @ (sz, st) # post" and "st \<noteq> Free" and "x = (a + span pre + head_len st, sz - head_len st)"
  using assms
proof (induction bs arbitrary: a thesis)
  case (Cons b bs)
  show ?case
  proof (cases "x \<in> set (live (a + fst b) bs)")
    case True
    show ?thesis
    proof (rule Cons.IH [OF _ True])
      fix pre sz st post
      assume "bs = pre @ (sz, st) # post" "st \<noteq> Free" "x = (a + fst b + span pre + head_len st, sz - head_len st)"
      then show ?thesis by (intro Cons.prems(1) [of "b # pre" sz st post]) (auto simp: add.assoc)
    qed
  next
    case False
    then show ?thesis using Cons.prems(2) by (intro Cons.prems(1) [of "[]" "fst b" "snd b" bs]) (auto split: if_splits)
  qed
qed simp

lemma live_distinct:
  assumes "x \<in> set (live a bs)" and "y \<in> set (live a bs)" and "x \<noteq> y" and "\<forall>b \<in> set bs. shape b"
  shows "fst x + snd x \<le> fst y \<or> fst y + snd y \<le> fst x"
  using assms
proof (induction bs arbitrary: a)
  case (Cons b bs)
  have low: "a + fst b + 8 \<le> fst z" if "z \<in> set (live (a + fst b) bs)" for z
    using that live_range(1) Cons.prems(4) by fastforce
  have "fst z + snd z \<le> a + fst b" if "z = (a + head_len (snd b), fst b - head_len (snd b))" for z
    using that head_len_shape [of b] Cons.prems(4) by simp
  then show ?case using Cons.IH [of "a + fst b"] Cons.prems low [of x] low [of y] by (fastforce split: if_splits)
qed simp

text \<open>Equal words are equal bytes.\<close>

lemma ld32_byte:
  "ucast (ld32 m a) = m a" "ucast (drop_bit 8 (ld32 m a)) = m (a + 1)" "ucast (drop_bit 16 (ld32 m a)) = m (a + 2)"
  "ucast (drop_bit 24 (ld32 m a)) = m (a + 3)"
proof -
  have high: "\<not> bit b (k + n)" if "8 \<le> k" for b :: u8 and k n
    using that bit_imp_le_length [of b "k + n"] by auto
  show "ucast (ld32 m a) = m a" "ucast (drop_bit 8 (ld32 m a)) = m (a + 1)" "ucast (drop_bit 16 (ld32 m a)) = m (a + 2)"
    "ucast (drop_bit 24 (ld32 m a)) = m (a + 3)"
    by (rule bit_word_eqI, simp add: ld32_def bit_simps high)+
qed

lemma ld32_eqD:
  assumes "ld32 m' w = ld32 m w" and "w \<le> i" and "i < w + 4"
  shows "m' i = m i"
proof -
  have "i = w \<or> i = w + 1 \<or> i = w + 2 \<or> i = w + 3" using assms(2,3) by auto
  then show ?thesis using ld32_byte [of m' w] ld32_byte [of m w] assms(1) by auto
qed

lemma words_mem_read:
  assumes "\<And>w. w mod 4 = 0 \<Longrightarrow> p \<le> w \<Longrightarrow> w < p + l \<Longrightarrow> ld32 m' w = ld32 m w" and "p mod 4 = 0" and "k \<le> l"
  shows "mem_read m' p k = mem_read m p k"
proof (rule mem_read_cong)
  fix i assume i: "p \<le> i" "i < p + k"
  let ?w = "4 * (i div 4)"
  obtain q where q: "p = 4 * q" using assms(2) by auto
  have "q \<le> i div 4" using i(1) unfolding q by (metis div_le_mono nonzero_mult_div_cancel_left zero_neq_numeral)
  then have "p \<le> ?w" "?w mod 4 = 0" "?w \<le> i" "i < ?w + 4" unfolding q by simp_all
  then show "m' i = m i" using ld32_eqD [OF assms(1) [of ?w]] i assms(3) by simp
qed


section \<open>The whole heap\<close>

definition region_end :: "heap_region_t \<Rightarrow> nat" where
  "region_end r = unat (hr_start_addr r) + unat (hr_total_size r)"

definition apart :: "heap_region_t \<Rightarrow> heap_region_t \<Rightarrow> bool" where
  "apart r r' \<longleftrightarrow> region_end r \<le> unat (hr_start_addr r') \<or> region_end r' \<le> unat (hr_start_addr r)"

definition geometry :: "heap_region_t \<Rightarrow> u32 \<times> u32 \<times> u32" where
  "geometry r = (hr_start_addr r, hr_total_size r, hr_caps r)"

definition regions_ok :: "mem \<Rightarrow> heap_region_t list \<Rightarrow> blk list list \<Rightarrow> bool" where
  "regions_ok m rs bss \<longleftrightarrow> list_all2 (region_ok m) rs bss \<and> sorted_wrt apart rs"

definition live_all :: "heap_region_t list \<Rightarrow> blk list list \<Rightarrow> (nat \<times> nat) list" where
  "live_all rs bss = concat (map2 (\<lambda>r. live (region_start r)) rs bss)"

lemma geometry_eq:
  assumes "geometry r' = geometry r"
  shows "region_start r' = region_start r" and "region_end r' = region_end r" and "apart r' = apart r" and "apart x r' = apart x r"
    and "hr_caps r' = hr_caps r" and "hr_start_addr r' = hr_start_addr r" and "hr_total_size r' = hr_total_size r"
  using assms by (auto simp: geometry_def region_start_def region_end_def apart_def fun_eq_iff)

lemma apart_sym: "apart r r' \<longleftrightarrow> apart r' r"
  by (auto simp: apart_def)

lemma regions_apart:
  assumes "regions_ok m rs bss" and "i < length rs" and "j < length rs" and "i \<noteq> j"
  shows "apart (rs ! i) (rs ! j)"
  using assms sorted_wrt_nth_less [of apart rs i j] sorted_wrt_nth_less [of apart rs j i]
  by (cases "i < j") (auto simp: regions_ok_def apart_sym)

lemma regions_nth: "regions_ok m rs bss \<Longrightarrow> i < length rs \<Longrightarrow> region_ok m (rs ! i) (bss ! i)"
  by (simp add: regions_ok_def list_all2_nthD)

lemma regions_length: "regions_ok m rs bss \<Longrightarrow> length bss = length rs"
  by (auto simp: regions_ok_def dest: list_all2_lengthD)

lemma live_all_iff:
  assumes "regions_ok m rs bss"
  shows "x \<in> set (live_all rs bss) \<longleftrightarrow> (\<exists>i < length rs. x \<in> set (live (region_start (rs ! i)) (bss ! i)))"
  using regions_length [OF assms] by (auto simp: live_all_def set_zip)

lemma live_region:
  assumes "region_ok m r bs" and "x \<in> set (live (region_start r) bs)"
  shows "region_start r + 8 \<le> fst x" and "fst x + snd x + 8 \<le> region_end r" and "fst x mod 4 = 0" and "snd x mod 4 = 0"
    and "unat (hr_start_addr r) + 8 \<le> fst x" and "region_end r < 2 ^ 31"
  using assms live_range [OF assms(2)] live_mod [OF assms(2)] by (auto simp: region_ok_def region_end_def)

lemma region_ok_frame:
  assumes ok: "region_ok m r bs"
    and eq: "\<And>w. w mod 4 = 0 \<Longrightarrow> region_start r \<le> w \<Longrightarrow> w + 4 \<le> region_end r \<Longrightarrow> ld32 m' w = ld32 m w"
  shows "region_ok m' r bs"
proof -
  have c: "chain m 0 (region_start r) bs" and s: "\<forall>b \<in> set bs. shape b" and a: "region_start r mod 4 = 0"
    and e: "region_start r + span bs + 8 \<le> region_end r"
    using ok by (auto simp: region_ok_def region_end_def)
  have "chain m' 0 (region_start r) bs"
  proof (rule chain_relink [OF s a c])
    show "ld32 m' (region_start r) = tagged 0 (head_used bs)" using eq [OF a] e chain_head [OF c] by simp
    show "ld32 m' w = ld32 m w" if "w mod 4 = 0" "region_start r + 4 \<le> w" "w \<le> region_start r + span bs + 4" for w
      using that e by (intro eq) simp_all
  qed
  then show ?thesis using ok unfolding region_ok_def by blast
qed

text \<open>An operation works in one region: the others keep their words.\<close>

lemma regions_update:
  assumes ok: "regions_ok m rs bss" and i: "i < length rs" and new: "region_ok m' r' cs" and g: "geometry r' = geometry (rs ! i)"
    and eq: "\<And>w. w mod 4 = 0 \<Longrightarrow> w + 4 \<le> region_start (rs ! i) \<or> region_end (rs ! i) \<le> w \<Longrightarrow> ld32 m' w = ld32 m w"
  shows "regions_ok m' (rs[i := r']) (bss[i := cs])"
proof -
  have other: "region_ok m' (rs ! j) (bss ! j)" if j: "j < length rs" "j \<noteq> i" for j
  proof (rule region_ok_frame [OF regions_nth [OF ok j(1)]])
    have i2: "unat (hr_start_addr (rs ! i)) \<le> region_start (rs ! i)" "unat (hr_start_addr (rs ! j)) \<le> region_start (rs ! j)"
      using regions_nth [OF ok] i j(1) by (auto simp: region_ok_def)
    fix w assume w: "w mod 4 = 0" "region_start (rs ! j) \<le> w" "w + 4 \<le> region_end (rs ! j)"
    have "apart (rs ! j) (rs ! i)" using regions_apart [OF ok] i j by blast
    then have "w + 4 \<le> region_start (rs ! i) \<or> region_end (rs ! i) \<le> w" using w i2 by (auto simp: apart_def)
    then show "ld32 m' w = ld32 m w" by (rule eq [OF w(1)])
  qed
  have "list_all2 (region_ok m') (rs[i := r']) (bss[i := cs])"
    using new i regions_length [OF ok] other by (auto simp: list_all2_conv_all_nth nth_list_update)
  moreover have "sorted_wrt apart (rs[i := r'])"
  proof -
    have "sorted_wrt apart rs" using ok by (simp add: regions_ok_def)
    moreover have "apart (rs[i := r'] ! j) (rs[i := r'] ! k) = apart (rs ! j) (rs ! k)" if "j < length rs" "k < length rs" for j k
      using that i geometry_eq(3,4) [OF g] by (simp add: nth_list_update)
    ultimately show ?thesis by (simp add: sorted_wrt_iff_nth_less)
  qed
  ultimately show ?thesis by (simp add: regions_ok_def)
qed

lemma live_all_apart:
  assumes ok: "regions_ok m rs bss" and i: "i < length rs" and j: "j < length rs" "j \<noteq> i"
    and x: "x \<in> set (live (region_start (rs ! j)) (bss ! j))"
  shows "fst x + snd x \<le> unat (hr_start_addr (rs ! i)) \<or> region_end (rs ! i) \<le> fst x"
  using live_region [OF regions_nth [OF ok j(1)] x] regions_apart [OF ok i j(1)] j(2) by (auto simp: apart_def)

lemma live_all_distinct:
  assumes ok: "regions_ok m rs bss" and x: "x \<in> set (live_all rs bss)" and y: "y \<in> set (live_all rs bss)" and "x \<noteq> y"
  shows "fst x + snd x \<le> fst y \<or> fst y + snd y \<le> fst x"
proof -
  obtain i j where i: "i < length rs" "x \<in> set (live (region_start (rs ! i)) (bss ! i))"
    and j: "j < length rs" "y \<in> set (live (region_start (rs ! j)) (bss ! j))"
    using x y unfolding live_all_iff [OF ok] by blast
  show ?thesis
  proof (cases "i = j")
    case True
    then show ?thesis using live_distinct [of x _ _ y] i j assms(4) regions_nth [OF ok i(1)] by (auto simp: region_ok_def)
  next
    case False
    then show ?thesis
      using live_all_apart [OF ok j(1) i(1) False i(2)] live_region(5) [OF regions_nth [OF ok j(1)] j(2)]
        live_region(2) [OF regions_nth [OF ok j(1)] j(2)] by auto
  qed
qed

lemma live_all_update:
  assumes ok: "regions_ok m rs bss" and new: "regions_ok m' (rs[i := r']) (bss[i := cs])" and i: "i < length rs"
    and g: "geometry r' = geometry (rs ! i)"
  shows "x \<in> set (live_all (rs[i := r']) (bss[i := cs])) \<longleftrightarrow> x \<in> set (live (region_start (rs ! i)) cs)
    \<or> (\<exists>j < length rs. j \<noteq> i \<and> x \<in> set (live (region_start (rs ! j)) (bss ! j)))"
  unfolding live_all_iff [OF new] using i regions_length [OF ok] geometry_eq(1) [OF g] by (auto simp: nth_list_update)


section \<open>First fit over the regions\<close>

definition fits :: "u32 \<Rightarrow> nat \<Rightarrow> heap_region_t \<Rightarrow> blk list \<Rightarrow> bool" where
  "fits caps n r bs \<longleftrightarrow> hr_caps r AND caps = caps \<and> (\<exists>b \<in> set bs. snd b = Free \<and> n \<le> fst b)"

text \<open>What the allocator promises: in the first region that has the capabilities and a free block of \<open>n\<close> bytes,
  the first such block is carved; the result is the new lists of blocks and the address behind the header.\<close>

definition alloc :: "u32 \<Rightarrow> nat \<Rightarrow> blk_status \<Rightarrow> heap_region_t list \<Rightarrow> blk list list \<Rightarrow> (blk list list \<times> nat) option" where
  "alloc caps n st rs bss =
    (let i = find_idx (\<lambda>(r, bs). fits caps n r bs) (zip rs bss) in
     if i \<ge> length rs then None
     else map_option (\<lambda>(cs, off). (bss[i := cs], region_start (rs ! i) + off + head_len st)) (place n (head_len st) st (bss ! i)))"

lemma malloc_regions_none:
  assumes "\<forall>r \<in> set rs. hr_caps r AND caps = caps \<longrightarrow> malloc_region sz caller line trace m r = Some (m, r, 0)"
  shows "malloc_regions sz caps caller line trace m rs = Some (m, rs, 0)"
  using assms by (induction rs) auto

lemma malloc_regions_first:
  assumes "i < length rs" and "hr_caps (rs ! i) AND caps = caps" and "malloc_region sz caller line trace m (rs ! i) = Some (m', r', p)"
    and "p \<noteq> 0" and "\<And>j. j < i \<Longrightarrow> hr_caps (rs ! j) AND caps = caps \<Longrightarrow> malloc_region sz caller line trace m (rs ! j) = Some (m, rs ! j, 0)"
  shows "malloc_regions sz caps caller line trace m rs = Some (m', rs[i := r'], p)"
  using assms
proof (induction rs arbitrary: i)
  case (Cons r rs)
  show ?case
  proof (cases i)
    case 0
    then show ?thesis using Cons.prems by simp
  next
    case (Suc k)
    have "malloc_regions sz caps caller line trace m rs = Some (m', rs[k := r'], p)"
    proof (rule Cons.IH)
      fix j assume "j < k" "hr_caps (rs ! j) AND caps = caps"
      then show "malloc_region sz caller line trace m (rs ! j) = Some (m, rs ! j, 0)" using Cons.prems(5) [of "Suc j"] Suc by simp
    qed (use Cons.prems Suc in simp_all)
    then show ?thesis using Cons.prems(5) [of 0] Suc by auto
  qed
qed simp

definition same_heap :: "heap_state \<Rightarrow> heap_state \<Rightarrow> bool" where
  "same_heap s s' \<longleftrightarrow> map geometry (g_heap_region s') = map geometry (g_heap_region s) \<and> g_heap_trace_mode s' = g_heap_trace_mode s"

definition heap_ok :: "heap_state \<Rightarrow> blk list list \<Rightarrow> bool" where
  "heap_ok s bss = regions_ok (h_mem s) (g_heap_region s) bss"

definition heap_live :: "heap_state \<Rightarrow> blk list list \<Rightarrow> (nat \<times> nat) list" where
  "heap_live s bss = live_all (g_heap_region s) bss"

abbreviation trace_status :: "heap_state \<Rightarrow> blk_status" where
  "trace_status s \<equiv> alloc_status (heap_trace_is_on s)"

definition keeps :: "heap_state \<Rightarrow> heap_state \<Rightarrow> (nat \<times> nat) set \<Rightarrow> bool" where
  "keeps s s' A \<longleftrightarrow> (\<forall>x \<in> A. mem_read (h_mem s') (fst x) (snd x) = mem_read (h_mem s) (fst x) (snd x))"

lemma malloc_cases:
  assumes ok: "heap_ok s bss" and need: "unat (ptr2memblk_size sz (heap_trace_is_on s)) = n" "n mod 4 = 0" "head_len (trace_status s) \<le> n"
  obtains (none) "alloc caps n (trace_status s) (g_heap_region s) bss = None" "heap_caps_malloc sz caps caller line s = Some (s, 0)"
  | (some) s' css p where "alloc caps n (trace_status s) (g_heap_region s) bss = Some (css, p)"
      "heap_caps_malloc sz caps caller line s = Some (s', of_nat p)" "0 < p" "p < 2 ^ 31" "p mod 4 = 0" "heap_ok s' css" "same_heap s s'"
      "\<exists>l. n \<le> l + head_len (trace_status s) \<and> l \<le> n \<and> set (heap_live s' css) = insert (p, l) (set (heap_live s bss))
        \<and> (\<forall>x \<in> set (heap_live s bss). fst x + snd x + head_len (trace_status s) \<le> p \<or> p + l < fst x)"
      "keeps s s' (set (heap_live s bss))"
proof -
  let ?rs = "g_heap_region s" and ?m = "h_mem s" and ?st = "trace_status s" and ?h = "head_len (trace_status s)"
  let ?P = "\<lambda>(r, bs). fits caps n r bs"
  define i where "i = find_idx ?P (zip ?rs bss)"
  have ok': "regions_ok ?m ?rs bss" using ok by (simp add: heap_ok_def)
  note len = regions_length [OF ok']
  have skip: "malloc_region sz caller line (heap_trace_is_on s) ?m (?rs ! j) = Some (?m, ?rs ! j, 0)"
    if "j < length ?rs" "\<not> fits caps n (?rs ! j) (bss ! j)" "hr_caps (?rs ! j) AND caps = caps" for j
    using that by (intro malloc_region_none [OF regions_nth [OF ok' that(1)] need(1)]) (auto simp: fits_def)
  show thesis
  proof (cases "i < length ?rs")
    case False
    then have no: "find_idx ?P (zip ?rs bss) = length (zip ?rs bss)"
      using find_idx_le [of ?P "zip ?rs bss"] len by (simp add: i_def)
    have "\<not> fits caps n (?rs ! j) (bss ! j)" if "j < length ?rs" for j
      using no that len unfolding find_idx_eq_length by (auto simp: set_zip)
    then have "malloc_regions sz caps caller line (heap_trace_is_on s) ?m ?rs = Some (?m, ?rs, 0)"
      by (intro malloc_regions_none) (auto simp: in_set_conv_nth skip)
    then show thesis using False by (intro none) (simp_all add: alloc_def heap_caps_malloc_def i_def [symmetric] Let_def)
  next
    case True
    have "?P (zip ?rs bss ! i)" unfolding i_def by (rule find_idx_nth) (use True len in \<open>simp add: i_def\<close>)
    then have fit: "fits caps n (?rs ! i) (bss ! i)" using True len by simp
    have before: "\<not> fits caps n (?rs ! j) (bss ! j)" if "j < i" for j
      using find_idx_first [of j ?P "zip ?rs bss"] that True len by (simp add: i_def)
    let ?r = "?rs ! i"
    note rok = regions_nth [OF ok' True]
    obtain pre sz0 post where bs: "bss ! i = pre @ (sz0, Free) # post" and sz0: "n \<le> sz0"
      and pre: "\<forall>b \<in> set pre. \<not> (snd b = Free \<and> n \<le> fst b)"
      by (rule fit_off_cases [of n "bss ! i"]) (use fit in \<open>auto simp: fits_def\<close>)
    let ?cs = "pre @ carve n ?h ?st sz0 @ post" and ?b = "region_start ?r + span pre"
    let ?p = "?b + ?h"
    from malloc_region_fit [OF rok bs need sz0 pre, of caller line] obtain m' r' where
      run: "malloc_region sz caller line (heap_trace_is_on s) ?m ?r = Some (m', r', of_nat ?p)"
      and new: "region_ok m' r' ?cs" and g: "geometry r' = geometry ?r"
      and frame: "\<And>w. w mod 4 = 0 \<Longrightarrow> w < ?b \<or> ?b + sz0 < w \<Longrightarrow> ld32 m' w = ld32 ?m w"
      by (auto simp: geometry_def)
    have bound: "?b + sz0 + span post + 8 \<le> region_end ?r" "region_end ?r < 2 ^ 31" "0 < ?b" "region_start ?r mod 4 = 0"
      and shp: "\<forall>b \<in> set pre. shape b" "sz0 mod 4 = 0" and start: "unat (hr_start_addr ?r) \<le> region_start ?r"
      using rok bs by (auto simp: region_ok_def region_end_def shape_def)
    have b4: "?b mod 4 = 0" using bound(4) shape_mod [OF shp(1)] by (simp add: mod_eq_0_iff_dvd)
    have plt: "?p < 2 ^ 31" "0 < ?p" using bound sz0 need(3) by simp_all
    then have p0: "of_nat ?p \<noteq> (0 :: u32)" using of_nat_zero_small [of ?p] by simp
    let ?rs' = "?rs[i := r']"
    let ?s = "s\<lparr>h_mem := m', g_heap_region := ?rs'\<rparr>"
    have "malloc_regions sz caps caller line (heap_trace_is_on s) ?m ?rs = Some (m', ?rs', of_nat ?p)"
      by (rule malloc_regions_first [OF True _ run p0]) (use fit before skip True in \<open>auto simp: fits_def\<close>)
    then have malloc: "heap_caps_malloc sz caps caller line s = Some (?s, of_nat ?p)" by (simp add: heap_caps_malloc_def del: of_nat_add)
    have alloc: "alloc caps n ?st ?rs bss = Some (bss[i := ?cs], ?p)"
      using True place_found [OF pre sz0, of ?h ?st post] by (simp add: alloc_def i_def [symmetric] Let_def bs)
    have regs: "regions_ok m' ?rs' (bss[i := ?cs])"
      by (rule regions_update [OF ok' True new g]) (rule frame, use bound in auto)
    have fst4: "fst x mod 4 = 0" if "x \<in> set (live_all ?rs bss)" for x
      using that live_region(3) [OF regions_nth [OF ok']] unfolding live_all_iff [OF ok'] by blast
    define l where "l = fst (hd (carve n ?h ?st sz0)) - ?h"
    have hs: "8 \<le> ?h" "?st \<noteq> Free" using head_len_cases [of ?st] by (auto simp: alloc_status_def)
    have lv: "live ?b (carve n ?h ?st sz0) = [(?p, l)]" "span (carve n ?h ?st sz0) = sz0" "n \<le> l + ?h" "?h + l \<le> sz0" "l \<le> n"
      using hs sz0 need(3) by (auto simp: carve_def l_def)
    have far: "fst x + snd x \<le> ?b \<or> ?b + sz0 < fst x" if x: "x \<in> set (live_all ?rs bss)" for x
    proof -
      obtain j where j: "j < length ?rs" "x \<in> set (live (region_start (?rs ! j)) (bss ! j))" using x unfolding live_all_iff [OF ok'] by blast
      show ?thesis
      proof (cases "j = i")
        case True
        then have "x \<in> set (live (region_start ?r) pre) \<or> x \<in> set (live (?b + sz0) post)" using j(2) bs by (auto simp: add.assoc)
        moreover have "\<forall>b \<in> set post. shape b" using rok by (simp add: region_ok_def bs)
        ultimately show ?thesis using live_range(2) [of x "region_start ?r" pre] live_range(1) [of x "?b + sz0" post] shp(1) by auto
      next
        case False
        then show ?thesis using live_all_apart [OF ok' True j(1) False j(2)] bound start by auto
      qed
    qed
    have "set (live_all ?rs' (bss[i := ?cs])) = insert (?p, l) (set (live_all ?rs bss))"
      using True lv(1,2) by (intro set_eqI, unfold live_all_update [OF ok' regs True g] live_all_iff [OF ok'] insert_iff)
        (auto simp: bs add.assoc)
    then have ex: "\<exists>l. n \<le> l + ?h \<and> l \<le> n \<and> set (heap_live ?s (bss[i := ?cs])) = insert (?p, l) (set (heap_live s bss))
        \<and> (\<forall>x \<in> set (heap_live s bss). fst x + snd x + ?h \<le> ?p \<or> ?p + l < fst x)"
      using lv(3,4,5) far by (intro exI [of _ l]) (force simp: heap_live_def)
    have "mem_read m' (fst x) (snd x) = mem_read ?m (fst x) (snd x)" if x: "x \<in> set (live_all ?rs bss)" for x
    proof (rule words_mem_read [OF _ fst4 [OF x] order_refl])
      fix w assume "w mod 4 = 0" "fst x \<le> w" "w < fst x + snd x"
      then show "ld32 m' w = ld32 ?m w" using far [OF x] by (intro frame) auto
    qed
    then have "keeps s ?s (set (heap_live s bss))" by (simp add: keeps_def heap_live_def)
    moreover have "same_heap s ?s" using g True by (simp add: same_heap_def map_update list_update_same_conv)
    moreover have "?p mod 4 = 0" using b4 head_len_cases [of ?st] by (auto simp: mod_eq_0_iff_dvd)
    ultimately show thesis using regs ex plt by (intro some [OF alloc malloc]) (simp_all add: heap_ok_def)
  qed
qed


section \<open>Free in the heap\<close>

lemma starts_le: "x \<in> starts a bs \<Longrightarrow> x \<le> a + span bs"
  by (induction a bs rule: starts.induct) auto

lemma live_mod_gap: "(w::nat) mod 4 = 0 \<Longrightarrow> p mod 4 = 0 \<Longrightarrow> l mod 4 = 0 \<Longrightarrow> w < p + l \<Longrightarrow> w + 4 \<le> p + l"
  by presburger

lemma live_merge_right: "live t (merge_right sz post) = live (t + sz) post"
  by (auto simp: merge_right_def add.assoc split: list.split blk_status.split)

lemma live_release: "live a (release pre sz post) = live a pre @ live (a + span pre + sz) post"
  by (cases rule: release_cases [of pre]) (simp_all add: live_merge_right add.assoc)

lemma unat_region_end:
  assumes "region_ok m r bs"
  shows "unat (hr_start_addr r + hr_total_size r) = region_end r"
  using assms by (simp add: region_ok_def region_end_def unat_add_no_wrap)

lemma find_region:
  assumes ok: "regions_ok m rs bss" and i: "i < length rs" and x: "x \<in> set (live (region_start (rs ! i)) (bss ! i))"
  shows "get_blk_region (of_nat (fst x)) rs = i"
proof -
  note lr = live_region [OF regions_nth [OF ok i] x]
  have p: "unat (of_nat (fst x) :: u32) = fst x" using lr by (intro unat_of_nat_small) simp
  have test: "(of_nat (fst x) > hr_start_addr (rs ! j) \<and> of_nat (fst x) < hr_start_addr (rs ! j) + hr_total_size (rs ! j))
    \<longleftrightarrow> unat (hr_start_addr (rs ! j)) < fst x \<and> fst x < region_end (rs ! j)" if "j < length rs" for j
    using that by (simp add: word_less_nat_alt p unat_region_end [OF regions_nth [OF ok]])
  show ?thesis unfolding get_blk_region_def
  proof (rule find_idx_eqI [OF i])
    show "hr_start_addr (rs ! i) < of_nat (fst x) \<and> of_nat (fst x) < hr_start_addr (rs ! i) + hr_total_size (rs ! i)"
      unfolding test [OF i] using lr by auto
    fix j assume "j < i"
    then have "j < length rs" "apart (rs ! j) (rs ! i)" using i regions_apart [OF ok, of j i] by auto
    then show "\<not> (hr_start_addr (rs ! j) < of_nat (fst x) \<and> of_nat (fst x) < hr_start_addr (rs ! j) + hr_total_size (rs ! j))"
      unfolding test [OF \<open>j < length rs\<close>] using lr by (auto simp: apart_def)
  qed
qed

lemma block_of_ptr:
  assumes "region_ok m r bs" and bs: "bs = pre @ (sz, st) # post" and st: "st \<noteq> Free"
  defines "b \<equiv> region_start r + span pre"
  defines "p \<equiv> of_nat (b + head_len st) :: u32"
  shows "ptr_is_traced m p \<longleftrightarrow> st = Traced" and "ptr2blk p (st = Traced) = of_nat b" and "mem_blk_is_used m (of_nat b)"
    and "blk_link_size m (of_nat b) = of_nat sz" and "ptr_size m p = of_nat (sz - head_len st)"
proof -
  have c: "chain m (last_at 0 (region_start r) pre) b ((sz, st) # post)" and bound: "b + span ((sz, st) # post) + 8 < 2 ^ 31"
    and sh: "head_len st \<le> sz"
    using assms(1) head_len_shape [of "(sz, st)"] by (auto simp: region_ok_def bs b_def chain_append)
  have hd: "ld32 m b = tagged (last_at 0 (region_start r) pre) True" "ld32 m (b + 4) = tagged (b + sz) (st = Traced)"
    "st = Traced \<Longrightarrow> ld32 m (b + 12) AND MEM_BLK_TAG \<noteq> 0"
    using c st by (simp_all add: chain_simps hdr_def)
  have le: "last_at 0 (region_start r) pre \<le> b" unfolding b_def by (rule last_at_mono) simp
  have lt: "b < 2 ^ 31" "b + sz < 2 ^ 31" "last_at 0 (region_start r) pre < 2 ^ 31" "b + span ((sz, st) # post) < 2 ^ 31" using bound le by simp_all
  have four: "unat (p - 4) = b + head_len st - 4"
  proof -
    have "p - 4 = of_nat (b + head_len st - 4)" using head_len_cases [of st] by (auto simp: p_def of_nat_diff)
    then show ?thesis using bound sh by (simp add: unat_of_nat_small del: of_nat_add)
  qed
  have "b + head_len st - 4 = (if st = Traced then b + 12 else b + 4)" by (simp add: head_len_def)
  then have "ld32 m (unat (p - 4)) AND MEM_BLK_TRACE \<noteq> 0 \<longleftrightarrow> st = Traced"
    using hd tagged_simps(2) [OF lt(2)] by (cases "st = Traced") (auto simp: four trace_tag)
  then show tr: "ptr_is_traced m p \<longleftrightarrow> st = Traced" by (simp add: ptr_is_traced_def)
  have hl: "mem_blk_head_size (st = Traced) = of_nat (head_len st)"
    by (simp add: mem_blk_head_size_def head_len_def MEM_HEAD_SIZE_def MEM2_HEAD_SIZE_def)
  show pb: "ptr2blk p (st = Traced) = of_nat b" by (simp add: ptr2blk_def hl p_def)
  show "mem_blk_is_used m (of_nat b)"
    using header_functions(3) [OF lt(1)] hd(1) tagged_simps(2) [OF lt(3)] tag_nonzero by simp
  show ls: "blk_link_size m (of_nat b) = of_nat sz" using chain_link_size(1) [OF c le lt(4)] by simp
  show "ptr_size m p = of_nat (sz - head_len st)" using sh by (simp add: ptr_size_def tr pb ls hl Let_def of_nat_diff)
qed

lemma free_at:
  assumes ok: "heap_ok s bss" and i: "i < length bss" and bs: "bss ! i = pre @ (sz, st) # post" and st: "st \<noteq> Free"
    and xe: "x = (region_start (g_heap_region s ! i) + span pre + head_len st, sz - head_len st)"
  shows "heap_ok (heap_caps_free (of_nat (fst x)) s) (bss[i := release pre sz post])"
    and "same_heap s (heap_caps_free (of_nat (fst x)) s)"
    and "set (heap_live (heap_caps_free (of_nat (fst x)) s) (bss[i := release pre sz post])) = set (heap_live s bss) - {x}"
    and "keeps s (heap_caps_free (of_nat (fst x)) s) (set (heap_live s bss))"
    and "head_len st \<le> sz"
    and "ptr_size (h_mem s) (of_nat (fst x)) = of_nat (snd x)"
proof -
  let ?rs = "g_heap_region s" and ?m = "h_mem s"
  have ok': "regions_ok ?m ?rs bss" using ok by (simp add: heap_ok_def)
  note len = regions_length [OF ok']
  note i = i [unfolded len]
  let ?r = "?rs ! i"
  note rok = regions_nth [OF ok' i]
  have xi: "x \<in> set (live (region_start ?r) (bss ! i))" using st by (simp add: bs xe)
  have shp: "\<forall>b \<in> set (bss ! i). shape b" using rok by (simp add: region_ok_def)
  then have hl: "head_len st \<le> sz" using head_len_shape [of "(sz, st)"] by (simp add: bs)
  let ?b = "region_start ?r + span pre" and ?cs = "release pre sz post" and ?p = "of_nat (fst x) :: u32"
  from free_region_ok [OF rok bs st] obtain m' r' where
    run: "free_region (of_nat ?b) ?m ?r = (m', r')" and new: "region_ok m' r' ?cs" and g: "geometry r' = geometry ?r"
    and frame: "\<And>w. w mod 4 = 0 \<Longrightarrow> w \<notin> starts (region_start ?r) (bss ! i) \<Longrightarrow> w \<notin> (\<lambda>x. x + 4) ` starts (region_start ?r) (bss ! i)
      \<Longrightarrow> ld32 m' w = ld32 ?m w"
    by (auto simp: geometry_def)
  let ?s = "s\<lparr>h_mem := m', g_heap_region := ?rs[i := r']\<rparr>"
  have p0: "?p \<noteq> 0" using of_nat_zero_small [of "fst x"] live_region [OF rok xi] by simp
  note bp = block_of_ptr [OF rok bs st]
  have fx: "fst x = ?b + head_len st" by (simp add: xe)
  have free: "heap_caps_free ?p s = ?s"
    using p0 i bp(1,2,3) find_region [OF ok' i xi] run by (simp add: heap_caps_free_def fx Let_def del: of_nat_add)
  have out: "w \<notin> starts (region_start ?r) (bss ! i) \<and> w \<notin> (\<lambda>x. x + 4) ` starts (region_start ?r) (bss ! i)"
    if "w + 4 \<le> region_start ?r \<or> region_end ?r \<le> w" for w
  proof -
    have "y + 8 \<le> region_end ?r" if "y \<in> starts (region_start ?r) (bss ! i)" for y
      using that starts_le [of y "region_start ?r" "bss ! i"] rok by (auto simp: region_ok_def region_end_def)
    then show ?thesis using that starts_ge by fastforce
  qed
  have regs: "regions_ok m' (?rs[i := r']) (bss[i := ?cs])"
    by (rule regions_update [OF ok' i new g]) (rule frame, use out in auto)
  have inreg: "y \<in> set (live (region_start ?r) (bss ! i)) \<longleftrightarrow> y = x \<or> y \<in> set (live (region_start ?r) ?cs)" for y
    using st by (auto simp: bs live_release xe)
  have notin: "x \<notin> set (live (region_start ?r) ?cs)"
    using live_range [of x "region_start ?r" pre] live_range(1) [of x "?b + sz" post] shp hl head_len_cases [of st]
    by (auto simp: live_release bs xe)
  have far: "x \<notin> set (live (region_start (?rs ! j)) (bss ! j))" if j: "j < length ?rs" "j \<noteq> i" for j
  proof
    assume xj: "x \<in> set (live (region_start (?rs ! j)) (bss ! j))"
    then show False
      using live_all_apart [OF ok' j(1) i _ xi] j(2) live_region(2,5) [OF regions_nth [OF ok' j(1)] xj] by linarith
  qed
  have lv: "set (heap_live ?s (bss[i := ?cs])) = set (heap_live s bss) - {x}"
  proof (intro set_eqI)
    fix y
    have "y \<in> set (live_all ?rs bss) \<longleftrightarrow> y \<in> set (live (region_start ?r) (bss ! i)) \<or> (\<exists>j < length ?rs. j \<noteq> i \<and> y \<in> set (live (region_start (?rs ! j)) (bss ! j)))"
      using i unfolding live_all_iff [OF ok'] by blast
    then show "y \<in> set (heap_live ?s (bss[i := ?cs])) \<longleftrightarrow> y \<in> set (heap_live s bss) - {x}"
      using inreg [of y] notin far live_all_update [OF ok' regs i g, of y] by (auto simp: heap_live_def)
  qed
  have keep: "keeps s ?s (set (heap_live s bss))"
  proof -
    have "mem_read m' (fst y) (snd y) = mem_read ?m (fst y) (snd y)" if y: "y \<in> set (live_all ?rs bss)" for y
    proof -
      obtain j where j: "j < length ?rs" "y \<in> set (live (region_start (?rs ! j)) (bss ! j))" using y unfolding live_all_iff [OF ok'] by blast
      show ?thesis
      proof (rule words_mem_read [OF _ live_region(3) [OF regions_nth [OF ok' j(1)] j(2)] order_refl])
        fix w assume w: "w mod 4 = 0" "fst y \<le> w" "w < fst y + snd y"
        show "ld32 m' w = ld32 ?m w"
        proof (cases "j = i")
          case True
          then show ?thesis using live_word [OF j(2) _ w(2,3)] shp frame [OF w(1)] by blast
        next
          case False
          have "unat (hr_start_addr ?r) \<le> region_start ?r" using rok by (simp add: region_ok_def)
          then have "w + 4 \<le> region_start ?r \<or> region_end ?r \<le> w"
            using live_all_apart [OF ok' i j(1) False j(2)] w live_mod_gap [of w "fst y" "snd y"]
              live_region(3,4) [OF regions_nth [OF ok' j(1)] j(2)] by auto
          then show ?thesis using out frame [OF w(1)] by blast
        qed
      qed
    qed
    then show ?thesis by (simp add: keeps_def heap_live_def)
  qed
  show "heap_ok (heap_caps_free ?p s) (bss[i := release pre sz post])" "same_heap s (heap_caps_free ?p s)"
    "set (heap_live (heap_caps_free ?p s) (bss[i := release pre sz post])) = set (heap_live s bss) - {x}"
    "keeps s (heap_caps_free ?p s) (set (heap_live s bss))" "head_len st \<le> sz"
    unfolding free using i len regs lv keep g hl by (simp_all add: heap_ok_def same_heap_def map_update list_update_same_conv)
  show "ptr_size ?m ?p = of_nat (snd x)" using bp(5) by (simp add: xe)
qed

lemma free_cases:
  assumes ok: "heap_ok s bss" and x: "x \<in> set (heap_live s bss)"
  obtains i pre sz st post where "i < length bss" "bss ! i = pre @ (sz, st) # post" "st \<noteq> Free"
    "x = (region_start (g_heap_region s ! i) + span pre + head_len st, sz - head_len st)"
proof -
  have ok': "regions_ok (h_mem s) (g_heap_region s) bss" using ok by (simp add: heap_ok_def)
  obtain i where i: "i < length bss" and xi: "x \<in> set (live (region_start (g_heap_region s ! i)) (bss ! i))"
    using x regions_length [OF ok'] unfolding heap_live_def live_all_iff [OF ok'] by auto
  show thesis by (rule live_at [OF xi]) (use that [OF i] in blast)
qed


section \<open>Setting up gives one free block per region\<close>

lemma word_eq_of_nat: "unat w = n \<Longrightarrow> w = of_nat n"
  by auto

lemma of_nat_neq_small: "a < 2 ^ 32 \<Longrightarrow> b < 2 ^ 32 \<Longrightarrow> a \<noteq> b \<Longrightarrow> (of_nat a :: u32) \<noteq> of_nat b"
  using unat_of_nat_small [of a, where 'a = 32] unat_of_nat_small [of b, where 'a = 32] by auto

lemma unat_HEAP_ALIGN: "unat x + 3 < 2 ^ 32 \<Longrightarrow> unat (HEAP_ALIGN x) = 4 * ((unat x + 3) div 4)"
  using unat_add_no_wrap [of x 3] unat_and_not_3 [of "x + 3"] by (simp add: HEAP_ALIGN_def)

lemma ptr2memblk_size_exact:
  assumes "unat sz + 19 < 2 ^ 32"
  shows "unat (ptr2memblk_size sz trace) = 4 * ((unat sz + head_len (alloc_status trace) + 3) div 4)"
proof -
  have "unat (sz + mem_blk_head_size trace) = unat sz + head_len (alloc_status trace)"
    using assms head_len_cases [of "alloc_status trace"] by (subst unat_add_no_wrap) auto
  then show ?thesis
    using assms head_len_cases [of "alloc_status trace"] unfolding ptr2memblk_size_def by (subst unat_HEAP_ALIGN) auto
qed

lemma ptr2memblk_size_facts:
  assumes "unat sz + 19 < 2 ^ 32" and n: "n = unat (ptr2memblk_size sz trace)"
  shows "n mod 4 = 0" and "head_len (alloc_status trace) \<le> n" and "unat sz + head_len (alloc_status trace) \<le> n"
    and "n < unat sz + head_len (alloc_status trace) + 4"
  unfolding n ptr2memblk_size_exact [OF assms(1)] by (presburger+)?

lemma init_region_ok:
  assumes start: "0 < unat (hr_start_addr r)" and e: "region_end r = e" "e < 2 ^ 31"
    and room: "4 * ((unat (hr_start_addr r) + 3) div 4) + 16 \<le> 4 * (e div 4)"
  defines "a \<equiv> 4 * ((unat (hr_start_addr r) + 3) div 4)"
  shows "\<exists>m' r'. init_region m r = (m', r') \<and> region_ok m' r' [(4 * (e div 4) - 8 - a, Free)] \<and> geometry r' = geometry r
    \<and> (\<forall>w. w mod 4 = 0 \<and> (w + 4 \<le> a \<or> e \<le> w) \<longrightarrow> ld32 m' w = ld32 m w)"
proof -
  define d where "d = 4 * (e div 4) - 8"
  have fin: "unat (hr_start_addr r + hr_total_size r) = e"
    using e unat_add_no_wrap [of "hr_start_addr r" "hr_total_size r"] by (simp add: region_end_def)
  have lt: "unat (hr_start_addr r) < 2 ^ 31" using e by (simp add: region_end_def)
  have ua: "unat (HEAP_ALIGN (hr_start_addr r)) = a" using unat_HEAP_ALIGN lt by (simp add: a_def)
  then have ms: "HEAP_ALIGN (hr_start_addr r) = of_nat a" by (simp flip: ua)
  have "unat (HEAP_ALIGN (hr_start_addr r + hr_total_size r)) = 4 * ((e + 3) div 4)"
    using unat_HEAP_ALIGN [of "hr_start_addr r + hr_total_size r"] e(2) by (simp add: fin)
  then have al: "HEAP_ALIGN (hr_start_addr r + hr_total_size r) = of_nat (4 * ((e + 3) div 4))" by (rule word_eq_of_nat)
  have fe: "hr_start_addr r + hr_total_size r = of_nat e" by (simp flip: fin)
  note al' = al [unfolded fe]
  let ?e = "HEAP_ALIGN (hr_start_addr r + hr_total_size r)"
  have me: "(if ?e \<noteq> hr_start_addr r + hr_total_size r then ?e - 4 else ?e) - MEM_HEAD_SIZE = of_nat d"
  proof -
    have "(if ?e \<noteq> hr_start_addr r + hr_total_size r then ?e - 4 else ?e) = of_nat (4 * (e div 4))"
    proof (cases "e mod 4 = 0")
      case True
      then have "4 * ((e + 3) div 4) = e" "4 * (e div 4) = e" by presburger+
      then show ?thesis unfolding fe al' by simp
    next
      case False
      then have up: "4 * ((e + 3) div 4) = 4 * (e div 4) + 4" "4 * (e div 4) + 4 \<noteq> e" by presburger+
      have "(of_nat (4 * (e div 4) + 4) :: u32) \<noteq> of_nat e"
        using up(2) e(2) by (intro of_nat_neq_small) simp_all
      then show ?thesis unfolding fe al' up(1) by (simp del: of_nat_mult)
    qed
    moreover have "of_nat (4 * (e div 4)) - MEM_HEAD_SIZE = of_nat d" using room by (simp add: MEM_HEAD_SIZE_def d_def of_nat_diff del: of_nat_mult)
    ultimately show ?thesis by simp
  qed
  have ad: "a + 8 \<le> d" "d + 8 \<le> e" using room by (simp_all add: a_def d_def)
  have m4: "a mod 4 = 0" "d mod 4 = 0" "(a + 4) mod 4 = 0" "(d + 4) mod 4 = 0" using room by (auto simp: a_def d_def mod_eq_0_iff_dvd dvd_diff_nat)
  have lt4: "a < 2 ^ 31" "d < 2 ^ 31" using ad e(2) by simp_all
  have u: "unat (of_nat a :: u32) = a" "unat (of_nat a + 4 :: u32) = a + 4" "unat (of_nat d :: u32) = d" "unat (of_nat d + 4 :: u32) = d + 4"
    using unat_of_nat_add [OF lt4(1), of 4] unat_of_nat_add [OF lt4(1), of 0] unat_of_nat_add [OF lt4(2), of 4] unat_of_nat_add [OF lt4(2), of 0]
    by (simp_all del: of_nat_diff)
  define m1 where "m1 = st32 (st32 m a 0) (a + 4) (of_nat d)"
  define m2 where "m2 = st32 (st32 m1 d (of_nat a)) (d + 4) 0"
  have ld: "ld32 m2 w = (if w = d + 4 then 0 else if w = d then of_nat a else if w = a + 4 then of_nat d else if w = a then 0 else ld32 m w)"
    if "w mod 4 = 0" for w
    using that m4 ad by (simp add: m2_def m1_def ld32_st32_word)
  let ?bs = "[(d - a, Free)]"
  have ch: "chain m2 0 a ?bs"
    using m4 ad ld by (simp add: chain_simps hdr_def tagged_False)
  have ls: "blk_link_size m2 (of_nat a) = of_nat (d - a)"
    using chain_link_size(1) [OF ch] ad e(2) by simp
  let ?r = "r\<lparr>hr_free_blk := of_nat a, hr_free_bytes := of_nat (d - a), hr_min_free_bytes := of_nat (d - a)\<rparr>"
  have run: "init_region m r = (m2, ?r)"
    unfolding init_region_def Let_def me ms u m1_def [symmetric] m2_def [symmetric] ls ..
  have sz: "(d - a) mod 4 = 0" using m4 by (simp add: mod_eq_0_iff_dvd dvd_diff_nat)
  have "unat (hr_start_addr r) \<le> a" by (simp add: a_def)
  then have "region_ok m2 ?r ?bs"
    using ch ad e m4 sz start by (simp add: region_ok_def region_start_def ms u shape_def free_total_def region_end_def)
  moreover have "ld32 m2 w = ld32 m w" if "w mod 4 = 0" "w + 4 \<le> a \<or> e \<le> w" for w
  proof -
    have "w \<noteq> a" "w \<noteq> a + 4" "w \<noteq> d" "w \<noteq> d + 4" using that ad by auto
    then show ?thesis using that(1) by (simp add: ld)
  qed
  ultimately show ?thesis unfolding d_def [symmetric]
    by (intro exI [of _ m2] exI [of _ ?r]) (simp add: run geometry_def)
qed

definition initial_blocks :: "bool \<Rightarrow> u32 \<Rightarrow> u32 \<Rightarrow> blk list list" where
  "initial_blocks full_icache lit4_end heap_start =
    (if full_icache then [] else [[(0x4010C000 - 8 - 4 * ((unat lit4_end + 3) div 4), Free)]])
    @ [[(0x40000000 - 8 - 4 * ((unat heap_start + 3) div 4), Free)]]"

lemma room_4: "x + 16 \<le> e \<Longrightarrow> e mod 4 = 0 \<Longrightarrow> 4 * ((x + 3) div 4) + 16 \<le> 4 * (e div (4 :: nat))"
  by presburger

lemma init_ok:
  fixes full_icache :: bool and s :: heap_state and lit4_end heap_start :: u32
  assumes iram: "0x40000000 \<le> unat lit4_end" "unat lit4_end \<le> 0x4010BFF0" and dram: "0 < unat heap_start" "unat heap_start \<le> 0x3FFFFFF0"
  defines "s' \<equiv> heap_caps_init full_icache lit4_end heap_start s"
  shows "heap_ok s' (initial_blocks full_icache lit4_end heap_start)" and "heap_live s' (initial_blocks full_icache lit4_end heap_start) = []"
    and "g_heap_trace_mode s' = g_heap_trace_mode s"
proof -
  let ?i = "\<lparr>hr_start_addr = lit4_end, hr_total_size = 0x4010C000 - lit4_end, hr_caps = MALLOC_CAP_32BIT,
                 hr_free_blk = 0, hr_free_bytes = 0, hr_min_free_bytes = 0\<rparr>"
  let ?d = "\<lparr>hr_start_addr = heap_start, hr_total_size = 0x40000000 - heap_start,
                 hr_caps = MALLOC_CAP_8BIT OR MALLOC_CAP_32BIT OR MALLOC_CAP_DMA,
                 hr_free_blk = 0, hr_free_bytes = 0, hr_min_free_bytes = 0\<rparr>"
  have ends: "region_end ?i = 0x4010C000" "region_end ?d = 0x40000000"
    using iram dram by (simp_all add: region_end_def unat_sub word_le_nat_alt)
  let ?bi = "[(0x4010C000 - 8 - 4 * ((unat lit4_end + 3) div 4), Free)]" and ?bd = "[(0x40000000 - 8 - 4 * ((unat heap_start + 3) div 4), Free)]"
  have gi: "\<exists>m' r'. init_region m ?i = (m', r') \<and> region_ok m' r' ?bi \<and> geometry r' = geometry ?i" for m
    using init_region_ok [where r = ?i and m = m, OF _ ends(1)] iram room_4 [of "unat lit4_end" "0x4010C000"] by auto
  have gd: "\<exists>m' r'. init_region m ?d = (m', r') \<and> region_ok m' r' ?bd \<and> geometry r' = geometry ?d
      \<and> (\<forall>w. w mod 4 = 0 \<and> 0x40000000 \<le> w \<longrightarrow> ld32 m' w = ld32 m w)" for m
    using init_region_ok [where r = ?d and m = m, OF _ ends(2)] dram room_4 [of "unat heap_start" "0x40000000"] by auto
  have "heap_ok s' (initial_blocks full_icache lit4_end heap_start) \<and> heap_live s' (initial_blocks full_icache lit4_end heap_start) = []
    \<and> g_heap_trace_mode s' = g_heap_trace_mode s"
  proof (cases full_icache)
    case True
    obtain m' r' where "init_region (h_mem s) ?d = (m', r')" "region_ok m' r' ?bd" using gd by blast
    then show ?thesis using True
      by (simp add: s'_def heap_caps_init_def initial_blocks_def heap_ok_def regions_ok_def heap_live_def live_all_def Let_def)
  next
    case False
    obtain m1 r1 where 1: "init_region (h_mem s) ?i = (m1, r1)" "region_ok m1 r1 ?bi" "geometry r1 = geometry ?i" using gi by blast
    obtain m2 r2 where 2: "init_region m1 ?d = (m2, r2)" "region_ok m2 r2 ?bd" "geometry r2 = geometry ?d"
      "\<And>w. w mod 4 = 0 \<Longrightarrow> 0x40000000 \<le> w \<Longrightarrow> ld32 m2 w = ld32 m1 w" using gd [of m1] by (elim exE conjE) (simp add: that)
    have "unat (hr_start_addr r1) \<le> region_start r1" using 1(2) by (simp add: region_ok_def)
    then have "region_ok m2 r1 ?bi"
      using iram(1) geometry_eq(6) [OF 1(3)] by (intro region_ok_frame [OF 1(2)] 2(4)) simp_all
    moreover have "apart r1 r2"
      using geometry_eq(2,6) [OF 1(3)] geometry_eq(2,6) [OF 2(3)] ends iram(1) by (simp add: apart_def)
    ultimately show ?thesis using False 1(1) 2(1,2)
      by (simp add: s'_def heap_caps_init_def initial_blocks_def heap_ok_def regions_ok_def heap_live_def live_all_def Let_def)
  qed
  then show "heap_ok s' (initial_blocks full_icache lit4_end heap_start)" "heap_live s' (initial_blocks full_icache lit4_end heap_start) = []"
    "g_heap_trace_mode s' = g_heap_trace_mode s" by simp_all
qed

section \<open>What the callers hold\<close>

lemma live_fst_inj:
  assumes "x \<in> set (live a bs)" and "y \<in> set (live a bs)" and "fst x = fst y" and "\<forall>b \<in> set bs. shape b"
  shows "x = y"
  using assms
proof (induction bs arbitrary: a)
  case (Cons b bs)
  have low: "a + fst b + 8 \<le> fst z" if "z \<in> set (live (a + fst b) bs)" for z
    using that live_range(1) Cons.prems(4) by fastforce
  have "a + head_len (snd b) \<le> a + fst b" using head_len_shape [of b] Cons.prems(4) by simp
  then show ?case using Cons.IH [of "a + fst b"] Cons.prems low [of x] low [of y] by (fastforce split: if_splits)
qed simp

lemma live_all_fst_inj:
  assumes ok: "regions_ok m rs bss" and x: "x \<in> set (live_all rs bss)" and y: "y \<in> set (live_all rs bss)" and eq: "fst x = fst y"
  shows "x = y"
proof -
  obtain i j where i: "i < length rs" "x \<in> set (live (region_start (rs ! i)) (bss ! i))"
    and j: "j < length rs" "y \<in> set (live (region_start (rs ! j)) (bss ! j))"
    using x y unfolding live_all_iff [OF ok] by blast
  have "i = j"
    using live_all_apart [OF ok j(1) i(1) _ i(2)] live_region(2,5) [OF regions_nth [OF ok j(1)] j(2)] eq by linarith
  then show ?thesis using live_fst_inj [OF i(2), of y] j(2) eq regions_nth [OF ok i(1)] by (simp add: region_ok_def)
qed

text \<open>The caller knows the pointers and the sizes that were asked for; the blocks may be larger.\<close>

definition covers :: "(nat \<times> nat) set \<Rightarrow> (nat \<times> nat) set \<Rightarrow> bool" where
  "covers A L \<longleftrightarrow> inj_on fst A \<and> fst ` A = fst ` L \<and> (\<forall>x \<in> A. \<exists>y \<in> L. fst y = fst x \<and> snd x \<le> snd y)"

definition holds :: "heap_state \<Rightarrow> (nat \<times> nat) set \<Rightarrow> bool" where
  "holds s A \<longleftrightarrow> (\<exists>bss. heap_ok s bss \<and> covers A (set (heap_live s bss)))"

lemma coversD: "covers A L \<Longrightarrow> (p, n) \<in> A \<Longrightarrow> \<exists>l. (p, l) \<in> L \<and> n \<le> l"
  unfolding covers_def by (metis fst_conv snd_conv prod.collapse)

lemma covers_insert:
  assumes "covers A L" and "p \<notin> fst ` L" and "n \<le> l"
  shows "covers (insert (p, n) A) (insert (p, l) L)"
  using assms by (auto simp: covers_def)

lemma covers_remove:
  assumes c: "covers A L" and A: "(p, n) \<in> A" and L: "(p, l) \<in> L" and inj: "inj_on fst L"
  shows "covers (A - {(p, n)}) (L - {(p, l)})"
proof -
  have image: "fst ` (B - {x}) = fst ` B - {fst x}" if "inj_on fst B" "x \<in> B" for B and x :: "nat \<times> nat"
    using that by (auto simp: inj_on_def)
  have "fst ` (A - {(p, n)}) = fst ` (L - {(p, l)})"
    using image [OF _ A] image [OF inj L] c by (simp add: covers_def)
  moreover have "\<exists>y \<in> L - {(p, l)}. fst y = fst x \<and> snd x \<le> snd y" if x: "x \<in> A - {(p, n)}" for x
  proof -
    obtain y where y: "y \<in> L" "fst y = fst x" "snd x \<le> snd y" using c x unfolding covers_def by blast
    have "fst x \<noteq> p" using c x A by (auto simp: covers_def inj_on_def)
    then show ?thesis using y by auto
  qed
  moreover have "inj_on fst (A - {(p, n)})" using c by (auto simp: covers_def intro: inj_on_diff)
  ultimately show ?thesis unfolding covers_def by blast
qed

lemma live_inj: "heap_ok s bss \<Longrightarrow> inj_on fst (set (heap_live s bss))"
  using live_all_fst_inj by (auto simp: inj_on_def heap_ok_def heap_live_def)

text \<open>A size that leaves room for a header and for rounding in 32 bits, traced or not; larger ones are below, at the end.\<close>

abbreviation size_ok :: "u32 \<Rightarrow> bool" where "size_ok sz \<equiv> unat sz + 19 < 2 ^ 32"

lemma holds_malloc:
  assumes h: "holds s A" and sz: "size_ok sz" and run: "heap_caps_malloc sz caps caller line s = Some (s', p)"
  shows "holds s' (if p = 0 then A else insert (unat p, unat sz) A)" and "p \<noteq> 0 \<Longrightarrow> unat p \<notin> fst ` A"
proof -
  obtain bss where ok: "heap_ok s bss" and c: "covers A (set (heap_live s bss))" using h by (auto simp: holds_def)
  define n where "n = unat (ptr2memblk_size sz (heap_trace_is_on s))"
  note f = ptr2memblk_size_facts [OF sz n_def]
  have "holds s' (if p = 0 then A else insert (unat p, unat sz) A) \<and> (p \<noteq> 0 \<longrightarrow> unat p \<notin> fst ` A)"
  proof (rule malloc_cases [OF ok n_def [symmetric] f(1,2), of caps caller line])
    assume "heap_caps_malloc sz caps caller line s = Some (s, 0)"
    then show ?thesis using run h by simp
  next
    fix s1 css q
    assume q: "heap_caps_malloc sz caps caller line s = Some (s1, of_nat q)" "0 < q" "q < 2 ^ 31" "heap_ok s1 css"
      "\<exists>l. n \<le> l + head_len (trace_status s) \<and> l \<le> n \<and> set (heap_live s1 css) = insert (q, l) (set (heap_live s bss))
        \<and> (\<forall>x \<in> set (heap_live s bss). fst x + snd x + head_len (trace_status s) \<le> q \<or> q + l < fst x)"
    have uq: "unat (of_nat q :: u32) = q" "of_nat q \<noteq> (0 :: u32)"
      using q(2,3) unat_of_nat_small [of q, where 'a = 32] by auto
    obtain l where l: "n \<le> l + head_len (trace_status s)" "set (heap_live s1 css) = insert (q, l) (set (heap_live s bss))"
      "\<forall>x \<in> set (heap_live s bss). fst x + snd x + head_len (trace_status s) \<le> q \<or> q + l < fst x" using q(5) by blast
    have new: "q \<notin> fst ` set (heap_live s bss)" using l(3) head_len_cases [of "trace_status s"] by force
    then have "covers (insert (q, unat sz) A) (set (heap_live s1 css))"
      unfolding l(2) using c f(3) l(1) by (intro covers_insert) auto
    moreover have "q \<notin> fst ` A" using new c by (simp add: covers_def)
    ultimately show ?thesis using run q(1,4) uq by (auto simp: holds_def)
  qed
  then show "holds s' (if p = 0 then A else insert (unat p, unat sz) A)" and "p \<noteq> 0 \<Longrightarrow> unat p \<notin> fst ` A" by simp_all
qed

lemma holds_free:
  assumes h: "holds s A" and A: "(p, n) \<in> A"
  shows "holds (heap_caps_free (of_nat p) s) (A - {(p, n)})"
proof -
  obtain bss where ok: "heap_ok s bss" and c: "covers A (set (heap_live s bss))" using h by (auto simp: holds_def)
  obtain l where l: "(p, l) \<in> set (heap_live s bss)" using coversD [OF c A] by blast
  show ?thesis
  proof (rule free_cases [OF ok l])
    fix i pre sz st post
    assume "i < length bss" "bss ! i = pre @ (sz, st) # post" "st \<noteq> Free"
      "(p, l) = (region_start (g_heap_region s ! i) + span pre + head_len st, sz - head_len st)"
    from free_at(1,3) [OF ok this] show ?thesis
      using covers_remove [OF c A l live_inj [OF ok]] unfolding holds_def by (metis fst_conv)
  qed
qed

text \<open>A caller writes into what it holds.\<close>

lemma ld32_mem_write_word:
  assumes "w mod 4 = 0" and "p mod 4 = 0" and "l mod 4 = 0" and "w < p \<or> p + l \<le> w" and "p \<le> q" and "q + length bs \<le> p + l"
  shows "ld32 (mem_write m q bs) w = ld32 m w"
proof -
  have "w + 4 \<le> p" if "w < p" using live_mod_gap [OF assms(1), of p 0] assms(2) that by simp
  then show ?thesis using assms(4-6) by (intro ld32_mem_write_other) auto
qed

lemma write_region_ok:
  assumes ok: "region_ok m r bs" and x: "x \<in> set (live (region_start r) bs)" and q: "fst x \<le> q" "q + length ds \<le> fst x + snd x"
  shows "region_ok (mem_write m q ds) r bs"
proof -
  obtain pre sz st post where bs: "bs = pre @ (sz, st) # post" and st: "st \<noteq> Free"
    and xe: "x = (region_start r + span pre + head_len st, sz - head_len st)" by (rule live_at [OF x])
  let ?a = "region_start r" and ?m = "mem_write m q ds"
  let ?b = "?a + span pre"
  have c: "chain m 0 ?a (pre @ (sz, st) # post)" and s: "\<forall>b \<in> set pre. shape b" "shape (sz, st)" "\<forall>b \<in> set post. shape b" and a4: "?a mod 4 = 0"
    using ok by (auto simp: region_ok_def bs)
  have b4: "?b mod 4 = 0" "(?b + sz) mod 4 = 0" and hl: "head_len st \<le> sz"
    using a4 shape_mod [OF s(1)] s(2) head_len_shape [OF s(2)] by (auto simp: shape_def mod_eq_0_iff_dvd)
  have p4: "fst x mod 4 = 0" "snd x mod 4 = 0" using live_region(3,4) [OF ok x] by simp_all
  have eq: "ld32 ?m w = ld32 m w" if "w mod 4 = 0" "w < ?b + head_len st \<or> ?b + sz \<le> w" for w
    using that hl by (intro ld32_mem_write_word [OF that(1) p4 _ q]) (auto simp: xe)
  have rest: "chain m (last_at 0 ?a pre) ?b ((sz, st) # post)" using c by (simp add: chain_append)
  have "hdr ?m (last_at 0 ?a pre) ?b (sz, st)"
  proof -
    have "(?b + 4) mod 4 = 0" "(?b + 12) mod 4 = 0" using b4(1) by (simp_all add: mod_eq_0_iff_dvd)
    then show ?thesis using rest b4(1) eq [of ?b] eq [of "?b + 4"] eq [of "?b + 12"] by (auto simp: chain_simps hdr_def head_len_def)
  qed
  moreover have "chain ?m ?b (?b + sz) post"
    by (rule chain_relink [OF s(3) b4(2), where p = ?b and m = m])
      (use rest eq b4(2) chain_head [of m ?b "?b + sz" post] in \<open>auto simp: chain_simps\<close>)
  ultimately have "chain ?m (last_at 0 ?a pre) ?b ((sz, st) # post)" by (simp add: chain_simps)
  then have "chain ?m 0 ?a bs" unfolding bs by (rule chain_in_place [OF c s(1) a4]) (rule eq, auto)
  then show ?thesis using ok unfolding region_ok_def by blast
qed

lemma write_heap_ok:
  assumes ok: "heap_ok s bss" and x: "x \<in> set (heap_live s bss)" and q: "fst x \<le> q" "q + length ds \<le> fst x + snd x"
  shows "heap_ok (s\<lparr>h_mem := mem_write (h_mem s) q ds\<rparr>) bss"
proof -
  let ?rs = "g_heap_region s"
  have ok': "regions_ok (h_mem s) ?rs bss" using ok by (simp add: heap_ok_def)
  obtain i where i: "i < length ?rs" "x \<in> set (live (region_start (?rs ! i)) (bss ! i))"
    using x unfolding heap_live_def live_all_iff [OF ok'] by blast
  note rok = regions_nth [OF ok' i(1)] and lr = live_region [OF regions_nth [OF ok' i(1)] i(2)]
  have "regions_ok (mem_write (h_mem s) q ds) (?rs[i := ?rs ! i]) (bss[i := bss ! i])"
    by (rule regions_update [OF ok' i(1) write_region_ok [OF rok i(2) q]])
      (use lr q in \<open>auto intro!: ld32_mem_write_other\<close>)
  then show ?thesis by (simp add: heap_ok_def)
qed

lemma holds_write:
  assumes h: "holds s A" and A: "(p, n) \<in> A" and q: "p \<le> q" "q + length ds \<le> p + n"
  shows "holds (s\<lparr>h_mem := mem_write (h_mem s) q ds\<rparr>) A"
proof -
  obtain bss where ok: "heap_ok s bss" and c: "covers A (set (heap_live s bss))" using h by (auto simp: holds_def)
  obtain l where l: "(p, l) \<in> set (heap_live s bss)" "n \<le> l" using coversD [OF c A] by blast
  then have "heap_ok (s\<lparr>h_mem := mem_write (h_mem s) q ds\<rparr>) bss" using q by (intro write_heap_ok [OF ok l(1)]) auto
  then show ?thesis using c by (auto simp: holds_def heap_live_def)
qed

lemma mem_fill_write: "mem_fill m a n v = mem_write m a (replicate n v)"
  by (auto simp: mem_fill_def mem_write_def fun_eq_iff)

lemma holds_mode: "holds (s\<lparr>g_heap_trace_mode := t\<rparr>) A \<longleftrightarrow> holds s A"
  by (simp add: holds_def heap_ok_def heap_live_def)

lemma holds_calloc:
  assumes h: "holds s A" and sz: "size_ok (count * sz)" and run: "heap_caps_calloc count sz caps caller line s = Some (s', p)"
  shows "holds s' (if p = 0 then A else insert (unat p, unat (count * sz)) A)"
proof -
  obtain s1 where m: "heap_caps_malloc (count * sz) caps caller line s = Some (s1, p)"
    and s': "s' = (if p \<noteq> 0 then s1\<lparr>h_mem := mem_fill (h_mem s1) (unat p) (unat (count * sz)) 0\<rparr> else s1)"
    using run by (auto simp: heap_caps_calloc_def split: Option.bind_splits)
  note h1 = holds_malloc(1) [OF h sz m]
  show ?thesis
  proof (cases "p = 0")
    case False
    then have h2: "holds s1 (insert (unat p, unat (count * sz)) A)" using h1 by simp
    show ?thesis unfolding s' mem_fill_write
      using holds_write [OF h2, of "unat p" "unat (count * sz)" "unat p" "replicate (unat (count * sz)) 0"] False by simp
  qed (use h1 s' in simp)
qed

lemma holds_zalloc:
  assumes h: "holds s A" and sz: "size_ok sz" and run: "heap_caps_zalloc sz caps caller line s = Some (s', p)"
  shows "holds s' (if p = 0 then A else insert (unat p, unat sz) A)"
proof -
  have "heap_caps_calloc 1 sz caps caller line s = Some (s', p)" using run unfolding heap_caps_calloc_def heap_caps_zalloc_def mult_1 .
  then show ?thesis using holds_calloc [OF h, of 1 sz, unfolded mult_1] sz by blast
qed

lemma holds_realloc:
  assumes h: "holds s A" and sz: "size_ok newsize" and A: "ptr \<noteq> 0 \<Longrightarrow> (unat ptr, n) \<in> A"
    and run: "heap_caps_realloc ptr newsize caps caller line s = Some (s', p)"
  shows "holds s' (if p = 0 then A else if ptr = 0 then insert (unat p, unat newsize) A
    else insert (unat p, unat newsize) (A - {(unat ptr, n)}))"
proof -
  obtain s1 where m: "heap_caps_malloc newsize caps caller line s = Some (s1, p)"
    and s': "s' = (if p \<noteq> 0 \<and> ptr \<noteq> 0 then
        let n = min newsize (ptr_size (h_mem s1) ptr);
            s2 = s1\<lparr>h_mem := mem_write (h_mem s1) (unat p) (mem_read (h_mem s1) (unat ptr) (unat n))\<rparr> in
        heap_caps_free ptr s2 else s1)"
    using run by (auto simp: heap_caps_realloc_def split: Option.bind_splits)
  note h1 = holds_malloc [OF h sz m]
  show ?thesis
  proof (cases "p \<noteq> 0 \<and> ptr \<noteq> 0")
    case True
    then have h2: "holds s1 (insert (unat p, unat newsize) A)" and new: "unat p \<notin> fst ` A" using h1 by simp_all
    let ?ds = "mem_read (h_mem s1) (unat ptr) (unat (min newsize (ptr_size (h_mem s1) ptr)))"
    have "unat (min newsize (ptr_size (h_mem s1) ptr)) \<le> unat newsize" by (simp add: min_def word_le_nat_alt)
    then have "holds (s1\<lparr>h_mem := mem_write (h_mem s1) (unat p) ?ds\<rparr>) (insert (unat p, unat newsize) A)"
      by (intro holds_write [OF h2, of "unat p" "unat newsize"]) simp_all
    from holds_free [OF this, of "unat ptr" n] have "holds s' (insert (unat p, unat newsize) A - {(unat ptr, n)})"
      using True A unfolding s' by (simp add: Let_def)
    moreover have "insert (unat p, unat newsize) A - {(unat ptr, n)} = insert (unat p, unat newsize) (A - {(unat ptr, n)})"
      using new A True by force
    ultimately show ?thesis using True by (simp del: Diff_insert)
  next
    case False
    then show ?thesis using h1(1) s' by auto
  qed
qed

section \<open>Every sequence of calls\<close>

text \<open>The states that calls lead to from the set-up, with the pointers the callers hold and the sizes they
  asked for. Every request, for calloc the product of count and size, is below 2^32 - 19 bytes.\<close>

inductive heap_reach :: "bool \<Rightarrow> u32 \<Rightarrow> u32 \<Rightarrow> heap_state \<Rightarrow> (nat \<times> nat) set \<Rightarrow> bool" for full_icache lit4_end heap_start where
  reach_init: "heap_reach full_icache lit4_end heap_start (heap_caps_init full_icache lit4_end heap_start s) {}"
| reach_malloc: "heap_reach full_icache lit4_end heap_start s A \<Longrightarrow> size_ok sz
    \<Longrightarrow> heap_caps_malloc sz caps caller line s = Some (s', p)
    \<Longrightarrow> heap_reach full_icache lit4_end heap_start s' (if p = 0 then A else insert (unat p, unat sz) A)"
| reach_calloc: "heap_reach full_icache lit4_end heap_start s A \<Longrightarrow> unat count * unat sz + 19 < 2 ^ 32
    \<Longrightarrow> heap_caps_calloc count sz caps caller line s = Some (s', p)
    \<Longrightarrow> heap_reach full_icache lit4_end heap_start s' (if p = 0 then A else insert (unat p, unat count * unat sz) A)"
| reach_zalloc: "heap_reach full_icache lit4_end heap_start s A \<Longrightarrow> size_ok sz
    \<Longrightarrow> heap_caps_zalloc sz caps caller line s = Some (s', p)
    \<Longrightarrow> heap_reach full_icache lit4_end heap_start s' (if p = 0 then A else insert (unat p, unat sz) A)"
| reach_realloc: "heap_reach full_icache lit4_end heap_start s A \<Longrightarrow> size_ok newsize
    \<Longrightarrow> ptr = 0 \<or> (unat ptr, n) \<in> A \<Longrightarrow> heap_caps_realloc ptr newsize caps caller line s = Some (s', p)
    \<Longrightarrow> heap_reach full_icache lit4_end heap_start s' (if p = 0 then A else if ptr = 0 then insert (unat p, unat newsize) A
          else insert (unat p, unat newsize) (A - {(unat ptr, n)}))"
| reach_free: "heap_reach full_icache lit4_end heap_start s A \<Longrightarrow> (p, n) \<in> A
    \<Longrightarrow> heap_reach full_icache lit4_end heap_start (heap_caps_free (of_nat p) s) (A - {(p, n)})"
| reach_free_null: "heap_reach full_icache lit4_end heap_start s A
    \<Longrightarrow> heap_reach full_icache lit4_end heap_start (heap_caps_free 0 s) A"
| reach_write: "heap_reach full_icache lit4_end heap_start s A \<Longrightarrow> (p, n) \<in> A \<Longrightarrow> p \<le> q \<Longrightarrow> q + length ds \<le> p + n
    \<Longrightarrow> heap_reach full_icache lit4_end heap_start (s\<lparr>h_mem := mem_write (h_mem s) q ds\<rparr>) A"
| reach_trace: "heap_reach full_icache lit4_end heap_start s A \<Longrightarrow> heap_reach full_icache lit4_end heap_start (heap_trace_start mode s) A"
| reach_trace_stop: "heap_reach full_icache lit4_end heap_start s A \<Longrightarrow> heap_reach full_icache lit4_end heap_start (heap_trace_stop s) A"
| reach_trace_resume: "heap_reach full_icache lit4_end heap_start s A \<Longrightarrow> heap_reach full_icache lit4_end heap_start (heap_trace_resume s) A"

text \<open>What the linker's symbols have to satisfy: room for two headers in each region.\<close>

definition linker_ok :: "u32 \<Rightarrow> u32 \<Rightarrow> bool" where
  "linker_ok lit4_end heap_start \<longleftrightarrow> 0x40000000 \<le> lit4_end \<and> lit4_end \<le> 0x4010BFF0 \<and> 0 < heap_start \<and> heap_start \<le> 0x3FFFFFF0"

lemma holds_init:
  assumes "linker_ok lit4_end heap_start"
  shows "holds (heap_caps_init full_icache lit4_end heap_start s) {}"
proof -
  have "0x40000000 \<le> unat lit4_end" "unat lit4_end \<le> 0x4010BFF0" "0 < unat heap_start" "unat heap_start \<le> 0x3FFFFFF0"
    using assms by (simp_all add: linker_ok_def word_le_nat_alt word_less_nat_alt)
  from init_ok(1,2) [OF this, of full_icache s] show ?thesis by (auto simp: holds_def covers_def)
qed

lemma reach_holds:
  assumes "heap_reach full_icache lit4_end heap_start s A" and "linker_ok lit4_end heap_start"
  shows "holds s A"
  using assms(1)
proof induction
  case (reach_init s)
  show ?case by (rule holds_init [OF assms(2)])
next
  case (reach_free_null s A)
  then show ?case by (simp add: heap_caps_free_def)
next
  case (reach_realloc s A newsize ptr n caps caller line s' p)
  then show ?case by (intro holds_realloc) auto
next
  case (reach_malloc s A sz caps caller line s' p)
  then show ?case by (intro holds_malloc(1))
next
  case (reach_calloc s A count sz caps caller line s' p)
  then have u: "unat (count * sz) = unat count * unat sz" by (simp add: unat_word_ariths)
  from holds_calloc [OF reach_calloc(4) _ reach_calloc(3), unfolded u] reach_calloc(2) show ?case by simp
next
  case (reach_zalloc s A sz caps caller line s' p)
  then show ?case by (intro holds_zalloc)
qed (auto simp: holds_mode heap_trace_start_def heap_trace_stop_def heap_trace_resume_def intro: holds_free holds_write)

section \<open>Correctness of the allocator\<close>

lemma malloc_keeps_held:
  assumes h: "holds s A" and sz: "size_ok sz" and run: "heap_caps_malloc sz caps caller line s = Some (s', p)" and p: "p \<noteq> 0"
  shows "unat p mod 4 = 0" and "(q, n) \<in> A \<Longrightarrow> q + n \<le> unat p \<or> unat p + unat sz \<le> q"
    and "(q, n) \<in> A \<Longrightarrow> mem_read (h_mem s') q n = mem_read (h_mem s) q n"
proof -
  obtain bss where ok: "heap_ok s bss" and c: "covers A (set (heap_live s bss))" using h by (auto simp: holds_def)
  define m where "m = unat (ptr2memblk_size sz (heap_trace_is_on s))"
  note f = ptr2memblk_size_facts [OF sz m_def]
  have "unat p mod 4 = 0 \<and> (\<forall>(q, n) \<in> A. (q + n \<le> unat p \<or> unat p + unat sz \<le> q) \<and> mem_read (h_mem s') q n = mem_read (h_mem s) q n)"
  proof (rule malloc_cases [OF ok m_def [symmetric] f(1,2), of caps caller line])
    assume "heap_caps_malloc sz caps caller line s = Some (s, 0)"
    then show ?thesis using run p by simp
  next
    fix s1 css r
    assume r: "heap_caps_malloc sz caps caller line s = Some (s1, of_nat r)" "r < 2 ^ 31" "r mod 4 = 0"
      "\<exists>l. m \<le> l + head_len (trace_status s) \<and> l \<le> m \<and> set (heap_live s1 css) = insert (r, l) (set (heap_live s bss))
        \<and> (\<forall>x \<in> set (heap_live s bss). fst x + snd x + head_len (trace_status s) \<le> r \<or> r + l < fst x)"
      "keeps s s1 (set (heap_live s bss))"
    have s1: "s1 = s'" "unat p = r" using run r(1,2) unat_of_nat_small [of r, where 'a = 32] by auto
    have "(q + n \<le> r \<or> r + unat sz \<le> q) \<and> mem_read (h_mem s') q n = mem_read (h_mem s) q n" if q: "(q, n) \<in> A" for q n
    proof -
      obtain k where k: "(q, k) \<in> set (heap_live s bss)" "n \<le> k" using coversD [OF c q] by blast
      then have "mem_read (h_mem s') q k = mem_read (h_mem s) q k" using r(5) s1 by (auto simp: keeps_def)
      then have "mem_read (h_mem s') q n = mem_read (h_mem s) q n" using k(2) by (metis take_mem_read)
      moreover have "q + n \<le> r \<or> r + unat sz \<le> q" using r(4) k f(3) by fastforce
      ultimately show ?thesis by simp
    qed
    then show ?thesis using r(3) s1 by auto
  qed
  then show "unat p mod 4 = 0" and "(q, n) \<in> A \<Longrightarrow> q + n \<le> unat p \<or> unat p + unat sz \<le> q"
    and "(q, n) \<in> A \<Longrightarrow> mem_read (h_mem s') q n = mem_read (h_mem s) q n" by auto
qed

lemma alloc_SomeD:
  assumes "alloc caps n st rs bss = Some (css, p)" and "length bss = length rs"
  obtains i pre sz post where "i < length rs" "bss ! i = pre @ (sz, Free) # post" "n \<le> sz"
    "css = bss[i := pre @ carve n (head_len st) st sz @ post]" "p = region_start (rs ! i) + span pre + head_len st"
proof -
  define i where "i = find_idx (\<lambda>(r, bs). fits caps n r bs) (zip rs bss)"
  obtain cs off where i: "i < length rs" and pl: "place n (head_len st) st (bss ! i) = Some (cs, off)"
    and css: "css = bss[i := cs]" "p = region_start (rs ! i) + off + head_len st"
    using assms(1) by (auto simp: alloc_def i_def [symmetric] Let_def split: if_splits)
  show thesis
  proof (rule fit_off_cases [of n "bss ! i"])
    assume "\<forall>b \<in> set (bss ! i). \<not> (snd b = Free \<and> n \<le> fst b)"
    then show thesis using pl by (simp add: place_none)
  next
    fix pre sz post
    assume "bss ! i = pre @ (sz, Free) # post" "n \<le> sz" "\<forall>b \<in> set pre. \<not> (snd b = Free \<and> n \<le> fst b)"
    then show thesis using pl css i place_found [of pre n sz "head_len st" st post] by (intro that [of i pre sz post]) simp_all
  qed
qed

lemma release_carve:
  assumes adj: "no_adj (pre @ (sz, Free) # post)" and "n \<le> sz" and "st \<noteq> Free"
  obtains k rest where "carve n h st sz = (k, st) # rest" and "release pre k (rest @ post) = pre @ (sz, Free) # post"
proof -
  have pre: "pre = [] \<or> snd (last pre) \<noteq> Free" and post: "post = [] \<or> snd (hd post) \<noteq> Free"
    using adj by (auto simp: no_adj_append neq_Nil_conv)
  have left: "release pre k ys = pre @ merge_right k ys" for k ys
    using pre by (auto simp: release_def merge_left_def)
  have right: "merge_right sz post = (sz, Free) # post"
    using post by (cases post) (auto simp: merge_right_def split: blk_status.split)
  show thesis
  proof (cases "n + h + 1 \<le> sz")
    case True
    then show thesis using assms(2) by (intro that [of n "[(sz - n, Free)]"]) (simp_all add: carve_def left merge_right_def)
  next
    case False
    then show thesis by (intro that [of sz "[]"]) (simp_all add: carve_def left right)
  qed
qed

lemma heap_ok_counters:
  assumes "heap_ok s bss" and "heap_ok s' bss" and "same_heap s s'"
  shows "map (\<lambda>r. (geometry r, hr_free_blk r, hr_free_bytes r)) (g_heap_region s') = map (\<lambda>r. (geometry r, hr_free_blk r, hr_free_bytes r)) (g_heap_region s)"
proof (rule nth_equalityI)
  have g: "map geometry (g_heap_region s') = map geometry (g_heap_region s)" using assms(3) by (simp add: same_heap_def)
  then have len: "length (g_heap_region s') = length (g_heap_region s)" by (metis length_map)
  then show "length (map (\<lambda>r. (geometry r, hr_free_blk r, hr_free_bytes r)) (g_heap_region s'))
      = length (map (\<lambda>r. (geometry r, hr_free_blk r, hr_free_bytes r)) (g_heap_region s))" by simp
  fix i assume "i < length (map (\<lambda>r. (geometry r, hr_free_blk r, hr_free_bytes r)) (g_heap_region s'))"
  then have i: "i < length (g_heap_region s')" "i < length (g_heap_region s)" using len by simp_all
  have gi: "geometry (g_heap_region s' ! i) = geometry (g_heap_region s ! i)" using g i by (metis nth_map)
  show "map (\<lambda>r. (geometry r, hr_free_blk r, hr_free_bytes r)) (g_heap_region s') ! i
      = map (\<lambda>r. (geometry r, hr_free_blk r, hr_free_bytes r)) (g_heap_region s) ! i"
    using regions_nth [OF _ i(1), of "h_mem s'" bss] regions_nth [OF _ i(2), of "h_mem s" bss] assms(1,2) i gi geometry_eq(1) [OF gi]
    by (simp add: heap_ok_def region_ok_def)
qed

text \<open>A heap of one region to apply the theorems to.\<close>

definition sample_heap :: heap_state where
  "sample_heap = heap_caps_init True 0x40100000 0x3FFF8000 \<lparr>h_mem = (\<lambda>_. 0), g_heap_region = [], g_heap_trace_mode = HEAP_TRACE_NONE\<rparr>"

lemma sample_linker: "linker_ok 0x40100000 0x3FFF8000"
  by (simp add: linker_ok_def)

lemma sample_ok: "heap_ok sample_heap [[(0x7FF8, Free)]]" and sample_trace: "\<not> heap_trace_is_on sample_heap"
  and sample_live: "heap_live sample_heap [[(0x7FF8, Free)]] = []"
  using init_ok [of "0x40100000" "0x3FFF8000" True "\<lparr>h_mem = (\<lambda>_. 0), g_heap_region = [], g_heap_trace_mode = HEAP_TRACE_NONE\<rparr>"]
  by (simp_all add: sample_heap_def [symmetric] initial_blocks_def heap_trace_is_on_def)

lemma sample_regions: "\<exists>r. g_heap_region sample_heap = [r] \<and> region_start r = 0x3FFF8000 \<and> hr_caps r AND 4 = 4"
proof -
  have i: "hr_start_addr (snd (init_region m r)) = hr_start_addr r" "hr_caps (snd (init_region m r)) = hr_caps r" for m r
    by (simp_all add: init_region_def Let_def)
  have "g_heap_region sample_heap = [snd (init_region (\<lambda>_. 0) \<lparr>hr_start_addr = 0x3FFF8000, hr_total_size = 0x40000000 - 0x3FFF8000,
                 hr_caps = MALLOC_CAP_8BIT OR MALLOC_CAP_32BIT OR MALLOC_CAP_DMA,
                 hr_free_blk = 0, hr_free_bytes = 0, hr_min_free_bytes = 0\<rparr>)]"
    unfolding sample_heap_def heap_caps_init_def Let_def by (simp add: split_def Let_def)
  moreover have "unat (HEAP_ALIGN 0x3FFF8000) = 0x3FFF8000" "(MALLOC_CAP_8BIT OR MALLOC_CAP_32BIT OR MALLOC_CAP_DMA) AND 4 = 4"
    by (simp_all add: HEAP_ALIGN_def MALLOC_CAP_8BIT_def MALLOC_CAP_32BIT_def MALLOC_CAP_DMA_def)
  ultimately show ?thesis by (simp add: region_start_def i)
qed

lemma sample_same:
  assumes "same_heap sample_heap s"
  shows "\<exists>r. g_heap_region s = [r] \<and> region_start r = 0x3FFF8000 \<and> hr_caps r AND 4 = 4"
proof -
  obtain r0 where r0: "g_heap_region sample_heap = [r0]" "region_start r0 = 0x3FFF8000" "hr_caps r0 AND 4 = 4"
    using sample_regions by blast
  obtain r where "g_heap_region s = [r]" "geometry r = geometry r0" using assms r0(1) by (auto simp: same_heap_def)
  then show ?thesis using geometry_eq(1,5) [of r r0] r0(2,3) by simp
qed

lemma sample_alloc: "alloc 4 108 Used (g_heap_region sample_heap) [[(0x7FF8, Free)]] = Some ([[(108, Used), (32652, Free)]], 0x3FFF8008)"
  using sample_regions by (auto simp: alloc_def fits_def Let_def head_len_def carve_def)

lemma sample_malloc:
  obtains s' where "heap_caps_malloc 100 4 0 0 sample_heap = Some (s', 0x3FFF8008)" "heap_ok s' [[(108, Used), (32652, Free)]]"
    "same_heap sample_heap s'" "heap_live s' [[(108, Used), (32652, Free)]] = [(0x3FFF8008, 100)]"
    "heap_reach True 0x40100000 0x3FFF8000 s' {(0x3FFF8008, 100)}"
proof -
  have st: "trace_status sample_heap = Used" using sample_trace by (simp add: alloc_status_def)
  have n: "unat (ptr2memblk_size 100 (heap_trace_is_on sample_heap)) = 108"
    by (subst ptr2memblk_size_exact) (simp_all add: st head_len_def)
  show thesis
  proof (rule malloc_cases [OF sample_ok n, of 4 0 0])
    fix s' css p
    assume r: "alloc 4 108 (trace_status sample_heap) (g_heap_region sample_heap) [[(0x7FF8, Free)]] = Some (css, p)"
      "heap_caps_malloc 100 4 0 0 sample_heap = Some (s', of_nat p)" "heap_ok s' css" "same_heap sample_heap s'"
    then have run: "heap_caps_malloc 100 4 0 0 sample_heap = Some (s', 0x3FFF8008)" and ok: "heap_ok s' [[(108, Used), (32652, Free)]]"
      using sample_alloc by (simp_all add: st)
    obtain r' where "g_heap_region s' = [r']" "region_start r' = 0x3FFF8000" using sample_same [OF r(4)] by blast
    then have "heap_live s' [[(108, Used), (32652, Free)]] = [(0x3FFF8008, 100)]" by (simp add: heap_live_def live_all_def head_len_def)
    moreover have "heap_reach True 0x40100000 0x3FFF8000 s' (if (0x3FFF8008 :: u32) = 0 then {} else {(unat (0x3FFF8008 :: u32), unat (100 :: u32))})"
      by (rule reach_malloc [OF _ _ run]) (simp_all add: sample_heap_def reach_init)
    ultimately show thesis using that [OF run ok r(4)] by simp
  next
    assume "alloc 4 108 (trace_status sample_heap) (g_heap_region sample_heap) [[(0x7FF8, Free)]] = None"
    then show thesis by (simp only: st sample_alloc option.distinct)
  qed (simp_all add: st head_len_def)
qed

text \<open>C20: From the set-up on, whatever the callers allocate, clear, resize, release and write in what they hold, with no request of
  2^32 - 19 bytes or more (for calloc: no such product of count and size), every region stays a well-formed chain of blocks with exact counters, no two
  free blocks side by side, and the used blocks are exactly those the callers hold, each at least as large as asked for.\<close>

theorem heap_well_formed:
  assumes "heap_reach full_icache lit4_end heap_start s A" and "linker_ok lit4_end heap_start"
  shows "\<exists>bss. heap_ok s bss \<and> covers A (set (heap_live s bss))"
  using reach_holds [OF assms] by (simp add: holds_def)

lemma heap_well_formed_witness:
  "\<exists>s bss. map_option snd (heap_caps_malloc 100 4 0 0 sample_heap) = Some 0x3FFF8008 \<and> heap_ok s bss
    \<and> covers {(0x3FFF8008, 100)} (set (heap_live s bss))"
proof -
  obtain s' where run: "heap_caps_malloc 100 4 0 0 sample_heap = Some (s', 0x3FFF8008)"
    and "heap_reach True 0x40100000 0x3FFF8000 s' {(0x3FFF8008, 100)}" by (rule sample_malloc)
  from heap_well_formed [OF this(2) sample_linker] run show ?thesis by auto
qed

text \<open>C19: Allocation is first fit. For a size below 2^32 - 19, the bound from which header and rounding may wrap around 32 bits: in the first region that has the capabilities and a free block large enough for the header
  and the rounded size, the first such block is taken and split when the rest is worth it. When there is none the result is NULL and
  nothing changes. In both cases the call returns.\<close>

theorem malloc_first_fit:
  assumes "heap_ok s bss" and "size_ok sz"
  shows "case alloc caps (4 * ((unat sz + head_len (trace_status s) + 3) div 4)) (trace_status s) (g_heap_region s) bss of
      None \<Rightarrow> heap_caps_malloc sz caps caller line s = Some (s, 0)
    | Some (css, p) \<Rightarrow> p \<noteq> 0 \<and> p < 2 ^ 31 \<and> (\<exists>s'. heap_caps_malloc sz caps caller line s = Some (s', of_nat p) \<and> heap_ok s' css \<and> same_heap s s')"
proof -
  define n where "n = unat (ptr2memblk_size sz (heap_trace_is_on s))"
  note f = ptr2memblk_size_facts [OF assms(2) n_def]
  have n: "4 * ((unat sz + head_len (trace_status s) + 3) div 4) = n" by (simp add: n_def ptr2memblk_size_exact [OF assms(2)])
  show ?thesis unfolding n
    by (rule malloc_cases [OF assms(1) n_def [symmetric] f(1,2), of caps caller line]) auto
qed

lemma malloc_first_fit_witness:
  "\<exists>s'. heap_caps_malloc 100 4 0 0 sample_heap = Some (s', of_nat 0x3FFF8008) \<and> heap_ok s' [[(108, Used), (32652, Free)]]"
proof -
  have st: "trace_status sample_heap = Used" using sample_trace by (simp add: alloc_status_def)
  have n: "4 * ((unat (100 :: u32) + head_len Used + 3) div 4) = 108" by (simp add: head_len_def)
  have "size_ok 100" by simp
  from malloc_first_fit [OF sample_ok this, of 4 0 0] show ?thesis unfolding st n sample_alloc by auto
qed

text \<open>C21: A block that is handed out for a request below 2^32 - 19 bytes is aligned, is one of the used blocks of the chain afterwards, with at least as many
  bytes as asked for, and shares no byte with a block that a caller holds; the contents of all of these stay.\<close>

theorem malloc_block_safe:
  assumes "heap_reach full_icache lit4_end heap_start s A" and "linker_ok lit4_end heap_start" and "size_ok sz"
    and "heap_caps_malloc sz caps caller line s = Some (s', p)" and "p \<noteq> 0"
  shows "unat p mod 4 = 0 \<and> (\<exists>bss l. heap_ok s' bss \<and> (unat p, l) \<in> set (heap_live s' bss) \<and> unat sz \<le> l)
    \<and> (\<forall>(q, n) \<in> A. (q + n \<le> unat p \<or> unat p + unat sz \<le> q) \<and> mem_read (h_mem s') q n = mem_read (h_mem s) q n)"
proof -
  have h: "holds s A" by (rule reach_holds [OF assms(1,2)])
  have "holds s' (insert (unat p, unat sz) A)" using holds_malloc(1) [OF h assms(3,4)] assms(5) by simp
  then have "\<exists>bss l. heap_ok s' bss \<and> (unat p, l) \<in> set (heap_live s' bss) \<and> unat sz \<le> l" using coversD by (fastforce simp: holds_def)
  then show ?thesis using malloc_keeps_held [OF h assms(3-5)] by blast
qed

lemma malloc_block_safe_witness:
  "\<exists>s'. heap_caps_malloc 100 4 0 0 sample_heap = Some (s', 0x3FFF8008) \<and> unat (0x3FFF8008 :: u32) mod 4 = 0"
proof -
  obtain s' where run: "heap_caps_malloc 100 4 0 0 sample_heap = Some (s', 0x3FFF8008)" by (rule sample_malloc)
  have "heap_reach True 0x40100000 0x3FFF8000 sample_heap {}" unfolding sample_heap_def by (rule reach_init)
  from malloc_block_safe [OF this sample_linker _ run] run show ?thesis by auto
qed

text \<open>C24: Every allocation call of a caller for fewer than 2^32 - 19 bytes (for calloc, the product of count and size in 32 bits) returns, with a block
  or with NULL. Just below 2^32 bytes this ends: by malloc_size_hangs, requests of 2^32 - 11 to 2^32 - 8 bytes need not return.\<close>

theorem heap_calls_return:
  assumes reach: "heap_reach full_icache lit4_end heap_start s A" and link: "linker_ok lit4_end heap_start"
    and sz: "size_ok sz" and csz: "size_ok (count * sz)"
  shows "heap_caps_malloc sz caps caller line s \<noteq> None \<and> heap_caps_zalloc sz caps caller line s \<noteq> None
    \<and> heap_caps_calloc count sz caps caller line s \<noteq> None \<and> heap_caps_realloc ptr sz caps caller line s \<noteq> None"
proof -
  obtain bss where ok: "heap_ok s bss" using reach_holds [OF reach link] by (auto simp: holds_def)
  have m: "\<exists>s' p. heap_caps_malloc k caps caller line s = Some (s', p)" if k: "size_ok k" for k
    by (rule malloc_cases [OF ok refl ptr2memblk_size_facts(1,2) [OF k refl], of caps caller line]) auto
  show ?thesis using m [OF sz] m [OF csz] by (auto simp: heap_caps_calloc_def heap_caps_zalloc_def heap_caps_realloc_def)
qed

lemma heap_calls_return_witness: "heap_caps_calloc 10 10 4 0 0 sample_heap \<noteq> None"
proof -
  have "heap_reach True 0x40100000 0x3FFF8000 sample_heap {}" unfolding sample_heap_def by (rule reach_init)
  from heap_calls_return [OF this sample_linker, of 10 10] show ?thesis by simp
qed

text \<open>C22: Release of a used block: it becomes free and merges with a free neighbour on either side, the free count grows by
  its size, and the other blocks keep their contents.\<close>

theorem free_coalesces:
  assumes "heap_ok s bss" and "i < length bss" and "bss ! i = pre @ (sz, st) # post" and "st \<noteq> Free"
  shows "let s' = heap_caps_free (of_nat (region_start (g_heap_region s ! i) + span pre + head_len st)) s in
    heap_ok s' (bss[i := release pre sz post]) \<and> same_heap s s'
    \<and> hr_free_bytes (g_heap_region s' ! i) = hr_free_bytes (g_heap_region s ! i) + of_nat sz
    \<and> keeps s s' (set (heap_live s bss))"
proof -
  define s' where "s' = heap_caps_free (of_nat (region_start (g_heap_region s ! i) + span pre + head_len st)) s"
  note f = free_at [OF assms(1-4) refl, unfolded fst_conv snd_conv, folded s'_def]
  have len: "length (g_heap_region s') = length (g_heap_region s)" "length bss = length (g_heap_region s)"
    using f(2) assms(1) regions_length by (auto simp: same_heap_def heap_ok_def dest: map_eq_imp_length_eq)
  have "hr_free_bytes (g_heap_region s' ! i) = of_nat (free_total (release pre sz post))"
    "hr_free_bytes (g_heap_region s ! i) = of_nat (free_total (pre @ (sz, st) # post))"
    using regions_nth [of "h_mem s'" "g_heap_region s'" _ i] regions_nth [of "h_mem s" "g_heap_region s" bss i] f(1) assms len
    by (auto simp: heap_ok_def region_ok_def)
  then show ?thesis unfolding s'_def [symmetric] Let_def using f assms(4) by (simp add: release_free_total)
qed

lemma free_coalesces_witness: "\<exists>s s'. heap_ok s [[(108, Used), (32652, Free)]] \<and> heap_ok s' [[(32760, Free)]]"
proof -
  obtain s where ok: "heap_ok s [[(108, Used), (32652, Free)]]" by (rule sample_malloc)
  from free_coalesces [OF ok, of 0 "[]" 108 Used "[(32652, Free)]"] ok show ?thesis
    by (auto simp: release_def merge_left_def merge_right_def Let_def)
qed

text \<open>Allocating a block and releasing it again restores the lists of blocks, the free counts and the first free
  blocks of all regions, and keeps what the others hold.\<close>

lemma malloc_free_roundtrip:
  assumes "heap_ok s bss" and "size_ok sz" and "heap_caps_malloc sz caps caller line s = Some (s1, p)" and "p \<noteq> 0"
  shows "heap_ok (heap_caps_free p s1) bss
    \<and> map (\<lambda>r. (geometry r, hr_free_blk r, hr_free_bytes r)) (g_heap_region (heap_caps_free p s1))
      = map (\<lambda>r. (geometry r, hr_free_blk r, hr_free_bytes r)) (g_heap_region s)
    \<and> keeps s (heap_caps_free p s1) (set (heap_live s bss))"
proof -
  define n where "n = unat (ptr2memblk_size sz (heap_trace_is_on s))"
  note f = ptr2memblk_size_facts [OF assms(2) n_def]
  have len: "length bss = length (g_heap_region s)" using assms(1) regions_length by (auto simp: heap_ok_def)
  show ?thesis
  proof (rule malloc_cases [OF assms(1) n_def [symmetric] f(1,2), of caps caller line])
    assume "heap_caps_malloc sz caps caller line s = Some (s, 0)"
    then show ?thesis using assms(3,4) by simp
  next
    fix s' css q
    assume r: "alloc caps n (trace_status s) (g_heap_region s) bss = Some (css, q)"
      "heap_caps_malloc sz caps caller line s = Some (s', of_nat q)" "heap_ok s' css" "same_heap s s'"
      "\<exists>l. n \<le> l + head_len (trace_status s) \<and> l \<le> n \<and> set (heap_live s' css) = insert (q, l) (set (heap_live s bss))
        \<and> (\<forall>x \<in> set (heap_live s bss). fst x + snd x + head_len (trace_status s) \<le> q \<or> q + l < fst x)"
      "keeps s s' (set (heap_live s bss))"
    have s1: "s1 = s'" "p = of_nat q" using assms(3) r(2) by simp_all
    obtain i pre sz0 post where i: "i < length (g_heap_region s)" and bs: "bss ! i = pre @ (sz0, Free) # post" "n \<le> sz0"
      and css: "css = bss[i := pre @ carve n (head_len (trace_status s)) (trace_status s) sz0 @ post]"
      and q: "q = region_start (g_heap_region s ! i) + span pre + head_len (trace_status s)"
      by (rule alloc_SomeD [OF r(1) len])
    have st: "trace_status s \<noteq> Free" by (simp add: alloc_status_def)
    have "no_adj (pre @ (sz0, Free) # post)" using regions_nth [of "h_mem s" "g_heap_region s" bss i] assms(1) i bs(1)
      by (simp add: heap_ok_def region_ok_def)
    then obtain k rest where k: "carve n (head_len (trace_status s)) (trace_status s) sz0 = (k, trace_status s) # rest"
      "release pre k (rest @ post) = pre @ (sz0, Free) # post" using bs(2) st by (rule release_carve)
    have gi: "region_start (g_heap_region s' ! i) = region_start (g_heap_region s ! i)"
      using r(4) i geometry_eq(1) unfolding same_heap_def by (metis length_map nth_map)
    have "css ! i = pre @ (k, trace_status s) # (rest @ post)" "i < length css" using css k(1) i len by simp_all
    note fr = free_at [OF r(3) this(2,1) st refl, unfolded fst_conv gi q [symmetric] k(2)]
    have undo: "css[i := pre @ (sz0, Free) # post] = bss" by (simp add: css flip: bs(1))
    have "keeps s' (heap_caps_free (of_nat q) s') (set (heap_live s bss))" using fr(4) r(5) unfolding keeps_def by blast
    then have keep: "keeps s (heap_caps_free (of_nat q) s') (set (heap_live s bss))" using r(6) by (simp add: keeps_def)
    have ok: "heap_ok (heap_caps_free (of_nat q) s') bss" using fr(1) unfolding undo .
    have "same_heap s (heap_caps_free (of_nat q) s')" using fr(2) r(4) by (simp add: same_heap_def)
    then show ?thesis using ok keep heap_ok_counters [OF assms(1) ok] s1 by simp
  qed
qed

lemma malloc_free_roundtrip_witness:
  "\<exists>s1. heap_caps_malloc 100 4 0 0 sample_heap = Some (s1, 0x3FFF8008) \<and> heap_ok (heap_caps_free 0x3FFF8008 s1) [[(0x7FF8, Free)]]"
proof -
  obtain s1 where run: "heap_caps_malloc 100 4 0 0 sample_heap = Some (s1, 0x3FFF8008)" by (rule sample_malloc)
  have "size_ok 100" "(0x3FFF8008 :: u32) \<noteq> 0" by simp_all
  from malloc_free_roundtrip [OF sample_ok this(1) run this(2)] run show ?thesis by auto
qed

lemma free_live:
  assumes "heap_ok s bss" and "x \<in> set (heap_live s bss)"
  shows "keeps s (heap_caps_free (of_nat (fst x)) s) (set (heap_live s bss))" and "ptr_size (h_mem s) (of_nat (fst x)) = of_nat (snd x)"
proof -
  obtain i pre sz st post where "i < length bss" "bss ! i = pre @ (sz, st) # post" "st \<noteq> Free"
    "x = (region_start (g_heap_region s ! i) + span pre + head_len st, sz - head_len st)" by (rule free_cases [OF assms])
  from free_at(4,6) [OF assms(1) this]
  show "keeps s (heap_caps_free (of_nat (fst x)) s) (set (heap_live s bss))" "ptr_size (h_mem s) (of_nat (fst x)) = of_nat (snd x)" .
qed

lemma heap_live_pos:
  assumes "heap_ok s bss" and "x \<in> set (heap_live s bss)"
  shows "0 < fst x" and "snd x < 2 ^ 31"
proof -
  have ok': "regions_ok (h_mem s) (g_heap_region s) bss" using assms(1) by (simp add: heap_ok_def)
  obtain i where i: "i < length (g_heap_region s)" "x \<in> set (live (region_start (g_heap_region s ! i)) (bss ! i))"
    using assms(2) unfolding heap_live_def live_all_iff [OF ok'] by blast
  note lr = live_region [OF regions_nth [OF ok' i(1)] i(2)]
  show "0 < fst x" "snd x < 2 ^ 31" using lr by auto
qed

text \<open>C23: Resizing keeps the contents: when a caller resizes a block it holds to fewer than 2^32 - 19 bytes and gets a block, that block starts with the
  bytes of the old one, as many as both sizes allow, and the blocks of the other callers keep theirs. The new size may be 0: unlike what the header
  file says, this too hands out a new block.\<close>

theorem realloc_keeps_contents:
  assumes "heap_reach full_icache lit4_end heap_start s A" and "linker_ok lit4_end heap_start" and sz: "size_ok newsize"
    and old: "(unat ptr, n) \<in> A" and run: "heap_caps_realloc ptr newsize caps caller line s = Some (s', p)" and p: "p \<noteq> 0"
  shows "mem_read (h_mem s') (unat p) (min (unat newsize) n) = mem_read (h_mem s) (unat ptr) (min (unat newsize) n)
    \<and> (\<forall>(q, m) \<in> A - {(unat ptr, n)}. mem_read (h_mem s') q m = mem_read (h_mem s) q m)"
proof -
  have h: "holds s A" by (rule reach_holds [OF assms(1,2)])
  obtain s1 where m: "heap_caps_malloc newsize caps caller line s = Some (s1, p)"
    and s': "ptr \<noteq> 0 \<Longrightarrow> s' = heap_caps_free ptr (s1\<lparr>h_mem := mem_write (h_mem s1) (unat p)
        (mem_read (h_mem s1) (unat ptr) (unat (min newsize (ptr_size (h_mem s1) ptr))))\<rparr>)"
    using run p by (auto simp: heap_caps_realloc_def Let_def split: Option.bind_splits)
  note kept = malloc_keeps_held [OF h sz m p]
  have "holds s1 (insert (unat p, unat newsize) A)" using holds_malloc(1) [OF h sz m] p by simp
  then obtain bss where ok: "heap_ok s1 bss" and c: "covers (insert (unat p, unat newsize) A) (set (heap_live s1 bss))" by (auto simp: holds_def)
  obtain l where l: "(unat ptr, l) \<in> set (heap_live s1 bss)" "n \<le> l" using coversD [OF c] old by blast
  obtain k where k: "(unat p, k) \<in> set (heap_live s1 bss)" "unat newsize \<le> k" using coversD [OF c] by blast
  note pos = heap_live_pos [OF ok l(1), unfolded fst_conv snd_conv]
  have ptr: "ptr \<noteq> 0" using pos(1) by auto
  have "ptr_size (h_mem s1) ptr = of_nat l"
    using free_live(2) [OF ok l(1)] by simp
  then have "unat (min newsize (ptr_size (h_mem s1) ptr)) = min (unat newsize) l"
    using unat_of_nat_small [of l, where 'a = 32] pos(2) by (simp add: min_def word_le_nat_alt)
  then obtain ds where s'2: "s' = heap_caps_free ptr (s1\<lparr>h_mem := mem_write (h_mem s1) (unat p) ds\<rparr>)"
    and ds: "ds = mem_read (h_mem s1) (unat ptr) (min (unat newsize) l)" using s' [OF ptr] by simp
  let ?s2 = "s1\<lparr>h_mem := mem_write (h_mem s1) (unat p) ds\<rparr>"
  have ok2: "heap_ok ?s2 bss" using k by (intro write_heap_ok [OF ok k(1)]) (simp_all add: ds)
  have live2: "heap_live ?s2 bss = heap_live s1 bss" by (simp add: heap_live_def)
  have keeps: "keeps ?s2 s' (set (heap_live s1 bss))" 
    using free_live(1) [OF ok2, unfolded live2, OF l(1)] by (simp add: s'2)
  have final: "mem_read (h_mem s') q j = mem_read (h_mem ?s2) q j" if "(q, i) \<in> set (heap_live s1 bss)" "j \<le> i" for q i j
    using keeps that unfolding keeps_def by (metis fst_conv snd_conv take_mem_read)
  let ?n = "min (unat newsize) n"
  have "mem_read (h_mem s') (unat p) ?n = take ?n (mem_read (h_mem ?s2) (unat p) (length ds))"
    using final [OF k(1), of ?n] k(2) l(2) ds by (simp add: take_mem_read)
  also have "\<dots> = take ?n ds" by simp
  also have "\<dots> = mem_read (h_mem s1) (unat ptr) ?n" unfolding ds by (rule take_mem_read) (use l(2) in simp)
  also have "\<dots> = mem_read (h_mem s) (unat ptr) ?n"
    using kept(3) [OF old] by (metis take_mem_read min.cobounded2)
  finally have new: "mem_read (h_mem s') (unat p) ?n = mem_read (h_mem s) (unat ptr) ?n" .
  have "mem_read (h_mem s') q m = mem_read (h_mem s) q m" if q: "(q, m) \<in> A" for q m
  proof -
    obtain i where "(q, i) \<in> set (heap_live s1 bss)" "m \<le> i" using coversD [OF c] q by blast
    then have "mem_read (h_mem s') q m = mem_read (h_mem ?s2) q m" by (rule final)
    also have "\<dots> = mem_read (h_mem s1) q m"
      using kept(2) [OF q] by (simp, intro mem_read_mem_write_other) (auto simp: ds)
    finally show ?thesis using kept(3) [OF q] by simp
  qed
  then show ?thesis using new by auto
qed

lemma realloc_keeps_contents_witness:
  "\<exists>s s'. heap_caps_realloc 0x3FFF8008 40 4 0 0 s = Some (s', 0x3FFF8074) \<and> mem_read (h_mem s') 0x3FFF8074 40 = mem_read (h_mem s) 0x3FFF8008 40"
proof -
  obtain s where ok: "heap_ok s [[(108, Used), (32652, Free)]]" and same: "same_heap sample_heap s"
    and reach: "heap_reach True 0x40100000 0x3FFF8000 s {(0x3FFF8008, 100)}" by (rule sample_malloc)
  have st: "trace_status s = Used" using same sample_trace by (simp add: same_heap_def heap_trace_is_on_def alloc_status_def)
  obtain r where r: "g_heap_region s = [r]" "region_start r = 0x3FFF8000" "hr_caps r AND 4 = 4" using sample_same [OF same] by blast
  have al: "alloc 4 48 Used (g_heap_region s) [[(108, Used), (32652, Free)]] = Some ([[(108, Used), (48, Used), (32604, Free)]], 0x3FFF8074)"
    using r by (simp add: alloc_def fits_def Let_def head_len_def carve_def)
  have n: "unat (ptr2memblk_size 40 (heap_trace_is_on s)) = 48" by (subst ptr2memblk_size_exact) (simp_all add: st head_len_def)
  obtain s1 where "heap_caps_malloc 40 4 0 0 s = Some (s1, 0x3FFF8074)"
    by (rule malloc_cases [OF ok n, of 4 0 0]) (simp_all add: st al head_len_def)
  then obtain s' where run: "heap_caps_realloc 0x3FFF8008 40 4 0 0 s = Some (s', 0x3FFF8074)" by (simp add: heap_caps_realloc_def)
  from realloc_keeps_contents [OF reach sample_linker, of 40 "0x3FFF8008" 100, OF _ _ run] run show ?thesis by auto
qed

text \<open>A request within three bytes of 4 GB passes the overflow of the block size: the call succeeds and hands out a block with at most eight
  bytes.\<close>

lemma malloc_size_wraps:
  assumes ok: "heap_ok s bss" and off: "\<not> heap_trace_is_on s" and sz: "0xFFFFFFFD \<le> sz"
    and room: "i < length bss" "fits caps 8 (g_heap_region s ! i) (bss ! i)"
  shows "\<exists>s' p css l. heap_caps_malloc sz caps caller line s = Some (s', p) \<and> p \<noteq> 0 \<and> heap_ok s' css
    \<and> (unat p, l) \<in> set (heap_live s' css) \<and> l \<le> 8"
proof -
  have n: "unat (ptr2memblk_size sz (heap_trace_is_on s)) = 8"
  proof -
    have "4294967293 \<le> unat sz" "unat sz < 2 ^ 32" using sz unsigned_less [of sz] by (simp_all add: word_le_nat_alt)
    then have "unat (sz + 8) = unat sz + 8 - 2 ^ 32" by (simp add: unat_word_ariths le_mod_geq)
    then show ?thesis using off \<open>4294967293 \<le> unat sz\<close> \<open>unat sz < 2 ^ 32\<close> unat_HEAP_ALIGN [of "sz + 8"]
      by (simp add: ptr2memblk_size_def mem_blk_head_size_def MEM_HEAD_SIZE_def)
  qed
  have st: "trace_status s = Used" using off by (simp add: alloc_status_def)
  have len: "length bss = length (g_heap_region s)" using ok regions_length by (auto simp: heap_ok_def)
  show ?thesis
  proof (rule malloc_cases [OF ok n, of caps caller line])
    assume none: "alloc caps 8 (trace_status s) (g_heap_region s) bss = None"
    let ?i = "find_idx (\<lambda>(r, bs). fits caps 8 r bs) (zip (g_heap_region s) bss)"
    have "(g_heap_region s ! i, bss ! i) \<in> set (zip (g_heap_region s) bss)" using room(1) len by (auto simp: set_zip)
    then have i: "?i < length (zip (g_heap_region s) bss)" using room(2) unfolding find_idx_less_iff by blast
    have "fits caps 8 (g_heap_region s ! ?i) (bss ! ?i)" using find_idx_nth [OF i] i by simp
    then show ?thesis using none i len by (auto simp: alloc_def Let_def fits_def place_None_iff)
  next
    fix s' css p
    assume "heap_caps_malloc sz caps caller line s = Some (s', of_nat p)" "0 < p" "p < 2 ^ 31" "heap_ok s' css"
      "\<exists>l. 8 \<le> l + head_len (trace_status s) \<and> l \<le> 8 \<and> set (heap_live s' css) = insert (p, l) (set (heap_live s bss))
        \<and> (\<forall>x \<in> set (heap_live s bss). fst x + snd x + head_len (trace_status s) \<le> p \<or> p + l < fst x)"
    moreover have "unat (of_nat p :: u32) = p" "of_nat p \<noteq> (0 :: u32)"
      using unat_of_nat_small [of p, where 'a = 32] calculation(2,3) by auto
    ultimately show ?thesis by auto
  qed (simp_all add: st head_len_def)
qed

lemma malloc_size_wraps_witness:
  "\<exists>s' p css l. heap_caps_malloc 0xFFFFFFFF 4 0 0 sample_heap = Some (s', p) \<and> p \<noteq> 0 \<and> heap_ok s' css
    \<and> (unat p, l) \<in> set (heap_live s' css) \<and> l \<le> 8"
proof -
  have "fits 4 8 (g_heap_region sample_heap ! 0) ([[(0x7FF8, Free)]] ! 0)" using sample_regions by (auto simp: fits_def)
  then show ?thesis by (intro malloc_size_wraps [OF sample_ok sample_trace, of _ 0]) simp_all
qed

text \<open>A block linked to itself.\<close>

lemma skip_used_self: "mem_blk_next m b = b \<Longrightarrow> b \<noteq> 0 \<Longrightarrow> mem_blk_is_used m b \<Longrightarrow> skip_used m b = None"
proof (rule ccontr)
  assume b: "mem_blk_next m b = b" "b \<noteq> 0" "mem_blk_is_used m b" and "skip_used m b \<noteq> None"
  then obtain y where run: "skip_used m b = Some y" by blast
  have "\<not> (mem_blk_next m b = b \<and> b \<noteq> 0 \<and> mem_blk_is_used m b)"
  proof (rule skip_used.raw_induct [OF _ run])
    fix skip m b y
    assume IH: "\<And>m b y. skip m b = Some y \<Longrightarrow> \<not> (mem_blk_next m b = b \<and> b \<noteq> 0 \<and> mem_blk_is_used m b)"
      and r: "(if b \<noteq> 0 \<and> \<not> mem_blk_is_end m b \<and> mem_blk_is_used m b then skip m (mem_blk_next m b) else Some b) = Some y"
    show "\<not> (mem_blk_next m b = b \<and> b \<noteq> 0 \<and> mem_blk_is_used m b)"
    proof
      assume c: "mem_blk_next m b = b \<and> b \<noteq> 0 \<and> mem_blk_is_used m b"
      then have "skip m b = Some y" using r by (simp add: mem_blk_is_end_def)
      then show False using IH c by blast
    qed
  qed
  then show False using b by blast
qed

lemma link_rest_self:
  assumes "0 < b" and "b < 2 ^ 31" and "b mod 4 = 0"
  shows "ld32 (link_rest (of_nat b) (of_nat b) m) b = of_nat b" and "ld32 (link_rest (of_nat b) (of_nat b) m) (b + 4) = of_nat b"
proof -
  have b: "unat (of_nat b :: u32) = b" "unat (of_nat b + 4 :: u32) = b + 4"
    using assms unat_of_nat_add [of b 0] unat_of_nat_add [of b 4] by simp_all
  define m1 where "m1 = st32 (st32 m (b + 4) 0) b 0"
  have m4: "b mod 4 = 0" "(b + 4) mod 4 = 0" using assms(3) by (simp_all add: mod_eq_0_iff_dvd)
  note h = header_functions [OF assms(2)] and w = ld32_st32_word
  have m1: "ld32 m1 b = 0" "ld32 m1 (b + 4) = 0" by (simp_all add: m1_def w m4)
  define m2 where "m2 = mem_blk_set_prev (of_nat b) (of_nat b) m1"
  have m2: "ld32 m2 b = of_nat b" "ld32 m2 (b + 4) = 0" using m1 by (simp_all add: m2_def h w m4)
  define m3 where "m3 = mem_blk_set_next (of_nat b) (mem_blk_next m2 (of_nat b)) m2"
  have m3: "ld32 m3 b = of_nat b" "ld32 m3 (b + 4) = 0" using m2 by (simp_all add: m3_def h w m4)
  have n3: "mem_blk_next m3 (of_nat b) = 0" using m3 by (simp add: h)
  define m4' where "m4' = mem_blk_set_prev 0 (of_nat b) m3"
  have m4': "ld32 m4' b = of_nat b" "ld32 m4' (b + 4) = 0" using m3 assms(1) header_functions(4) [of 0 "of_nat b" m3] by (simp_all add: m4'_def w m4)
  have e: "link_rest (of_nat b) (of_nat b) m = mem_blk_set_next (of_nat b) (of_nat b) m4'"
    unfolding link_rest_def Let_def b m1_def [symmetric] m2_def [symmetric] m3_def [symmetric] n3 m4'_def [symmetric] ..
  show "ld32 (link_rest (of_nat b) (of_nat b) m) b = of_nat b" "ld32 (link_rest (of_nat b) (of_nat b) m) (b + 4) = of_nat b"
    unfolding e using m4' by (simp_all add: h w m4)
qed

lemma malloc_region_hangs:
  assumes ok: "region_ok m r bs" and bs: "bs = pre @ (sz0, Free) # post" and pre: "\<forall>b \<in> set pre. snd b \<noteq> Free" and sz0: "9 \<le> sz0"
    and need: "ptr2memblk_size sz False = 0"
  shows "malloc_region sz caller line False m r = None"
proof -
  let ?a = "region_start r"
  define b where "b = ?a + span pre"
  have a: "0 < ?a" "?a mod 4 = 0" and bound: "?a + span pre + sz0 + span post + 8 < 2 ^ 31"
    and c: "chain m 0 ?a bs" and shapes: "\<forall>b \<in> set pre. shape b" and ff: "hr_free_blk r = of_nat (?a + used_off bs)"
    using ok by (auto simp: region_ok_def bs)
  have uo: "used_off bs = span pre" using pre unfolding bs by (induction pre) auto
  have cb: "chain m (last_at 0 ?a pre) b ((sz0, Free) # post)" using c by (simp add: bs chain_append b_def)
  have pb: "last_at 0 ?a pre \<le> b" unfolding b_def by (rule last_at_mono) simp
  have lt: "b < 2 ^ 31" "0 < b" "b + sz0 < 2 ^ 31" using bound a by (simp_all add: b_def)
  have b4: "b mod 4 = 0" using a(2) shape_mod [OF shapes] by (simp add: mod_eq_0_iff_dvd b_def)
  have cbound: "b + span ((sz0, Free) # post) < 2 ^ 31" using bound by (simp add: b_def)
  have b0: "of_nat b \<noteq> (0 :: u32)" using of_nat_zero_small [OF lt(1)] lt by simp
  have notend: "\<not> mem_blk_is_end m (of_nat b)" using chain_end [OF cb cbound lt(2)] by simp
  have size: "blk_link_size m (of_nat b) = of_nat sz0" and usz: "unat (of_nat sz0 :: u32) = sz0" using chain_link_size [OF cb pb cbound] by simp_all
  have nxt: "mem_blk_next m (of_nat b) \<noteq> of_nat b"
    using chain_first(3) [OF cb pb cbound] of_nat_inj_small [OF lt(3) lt(1)] sz0 by (simp add: head_next_def del: of_nat_add)
  have found: "find_fit m 0 (hr_free_blk r) = Some (of_nat b)"
    using find_fit_region [OF c a(1), of 0] bound fit_off_pre [of pre 0 "(sz0, Free) # post"] pre unfolding ff uo by (simp add: bs b_def del: of_nat_add)
  define m3 where "m3 = mem_blk_set_used (of_nat b) (link_rest (of_nat b) (of_nat b) m)"
  have l3: "ld32 m3 b = of_nat b OR MEM_BLK_TAG" "ld32 m3 (b + 4) = of_nat b"
    using link_rest_self [OF lt(2,1) b4, of m] by (simp_all add: m3_def header_functions [OF lt(1)] ld32_st32_word)
  have "mem_blk_next m3 (of_nat b) = of_nat b" using l3 tagged_simps(1) [OF lt(1), of False] by (simp add: header_functions [OF lt(1)] tagged_False)
  moreover have "mem_blk_is_used m3 (of_nat b)" using l3 tagged_simps(2,3) [OF lt(1), of True] tagged_simps(3) [OF lt(1), of False] tag_nonzero
    by (simp add: header_functions [OF lt(1)] tagged_False)
  ultimately have loop: "skip_used m3 (of_nat b) = None" using b0 by (intro skip_used_self)
  have "\<not> hr_free_bytes r < 0" by simp
  moreover have "0 + mem_blk_head_size False + MEM_BLK_MIN \<le> blk_link_size m (of_nat b)"
    using sz0 by (simp add: size mem_blk_head_size_def MEM_HEAD_SIZE_def MEM_BLK_MIN_def word_le_nat_alt usz)
  ultimately show ?thesis
    unfolding malloc_region_def Let_def need found using b0 notend nxt loop by (simp add: ff uo b_def [symmetric] m3_def del: of_nat_add)
qed

text \<open>Requests of 2^32 - 11 to 2^32 - 8 bytes give a block size of zero: the split of the first free block, if it has more than eight bytes, links it to itself, and the
  call never returns.\<close>

lemma malloc_size_hangs:
  assumes ok: "heap_ok s bss" and off: "\<not> heap_trace_is_on s" and sz: "0xFFFFFFF5 \<le> sz" "sz \<le> 0xFFFFFFF8"
    and rs: "g_heap_region s = rs1 @ r # rs2" "\<forall>x \<in> set rs1. hr_caps x AND caps \<noteq> caps" "hr_caps r AND caps = caps"
    and bs: "bss ! length rs1 = pre @ (sz0, Free) # post" "\<forall>b \<in> set pre. snd b \<noteq> Free" "9 \<le> sz0"
  shows "heap_caps_malloc sz caps caller line s = None"
proof -
  have need: "ptr2memblk_size sz False = 0"
  proof -
    have "unat sz \<le> 0xFFFFFFF8" "0xFFFFFFF5 \<le> unat sz" using sz by (simp_all add: word_le_nat_alt)
    then have "sz = 0xFFFFFFF5 \<or> sz = 0xFFFFFFF6 \<or> sz = 0xFFFFFFF7 \<or> sz = 0xFFFFFFF8"
      by (auto simp: word_unat_eq_iff)
    then show ?thesis by (auto simp: ptr2memblk_size_def mem_blk_head_size_def MEM_HEAD_SIZE_def HEAP_ALIGN_def)
  qed
  have "region_ok (h_mem s) r (bss ! length rs1)" using ok regions_nth [of "h_mem s" "g_heap_region s" bss "length rs1"] by (simp add: heap_ok_def rs(1))
  from malloc_region_hangs [OF this bs need] have "malloc_region sz caller line False (h_mem s) r = None" .
  then have "malloc_regions sz caps caller line False (h_mem s) (rs1 @ r # rs2) = None" using rs(2,3) by (induction rs1) auto
  then show ?thesis using off by (simp add: heap_caps_malloc_def rs(1))
qed

lemma malloc_size_hangs_witness: "heap_caps_malloc 0xFFFFFFF8 4 0 0 sample_heap = None"
proof -
  obtain r where r: "g_heap_region sample_heap = [] @ r # []" "hr_caps r AND 4 = 4" using sample_regions by auto
  from malloc_size_hangs [OF sample_ok sample_trace _ _ r(1) _ r(2), of "0xFFFFFFF8" "[]" "0x7FF8" "[]"] show ?thesis by simp
qed

end
