(* ===== verification/Base64.thy ===== *)
theory Base64
  imports Prelude
begin

text \<open>
  Base64, \<^verbatim>\<open>components/util/src/base64.c\<close>. The look-up tables are arrays of words, read byte by
  byte as \<^verbatim>\<open>ESP_IBUS_GET_U8_DATA\<close> does. A call gives the value it returns and the bytes it puts at the destination, or
  \<open>None\<close> when an assertion fails. A loop over the source is a recursion over the bytes that are left.
\<close>

section \<open>Tables\<close>

definition s_base64_enc_lut :: "u32 list" where
  "s_base64_enc_lut = [
    0x44434241, 0x48474645, 0x4c4b4a49, 0x504f4e4d,
    0x54535251, 0x58575655, 0x62615a59, 0x66656463,
    0x6a696867, 0x6e6d6c6b, 0x7271706f, 0x76757473,
    0x7a797877, 0x33323130, 0x37363534, 0x2f2b3938]"

definition s_base64_dec_lut :: "u32 list" where
  "s_base64_dec_lut = [
    0x7f7f7f7f, 0x7f7f7f7f, 0x7f7f7f7f, 0x7f7f7f7f,
    0x7f7f7f7f, 0x7f7f7f7f, 0x7f7f7f7f, 0x7f7f7f7f,
    0x7f7f7f7f, 0x7f7f7f7f, 0x3e7f7f7f, 0x3f7f7f7f,
    0x37363534, 0x3b3a3938, 0x7f7f3d3c, 0x7f7f407f,
    0x0201007f, 0x06050403, 0x0a090807, 0x0e0d0c0b,
    0x1211100f, 0x16151413, 0x7f191817, 0x7f7f7f7f,
    0x1c1b1a7f, 0x201f1e1d, 0x24232221, 0x28272625,
    0x2c2b2a29, 0x302f2e2d, 0x7f333231, 0x7f7f7f7f]"

definition ESP_IBUS_GET_U8_DATA :: "nat \<Rightarrow> u32 list \<Rightarrow> u8" where
  "ESP_IBUS_GET_U8_DATA i tab = ucast (drop_bit (8 * (i mod 4)) (tab ! (i div 4)))"

definition enc_char :: "u32 \<Rightarrow> u8" where "enc_char v = ESP_IBUS_GET_U8_DATA (unat v) s_base64_enc_lut"
definition dec_char :: "u8 \<Rightarrow> u8" where "dec_char c = ESP_IBUS_GET_U8_DATA (unat c) s_base64_dec_lut"

definition ENOBUFS :: "32 word" where "ENOBUFS = 105"
definition EINVAL :: "32 word" where "EINVAL = 22"

section \<open>Encoding\<close>

definition enc4 :: "u8 \<Rightarrow> u8 \<Rightarrow> u8 \<Rightarrow> u8 list" where
  "enc4 a b c =
    (let C1 = ucast a; C2 = ucast b; C3 = ucast c :: u32 in
     [enc_char (drop_bit 2 C1 AND 0x3F),
      enc_char ((push_bit 4 (C1 AND 3) + drop_bit 4 C2) AND 0x3F),
      enc_char ((push_bit 2 (C2 AND 15) + drop_bit 6 C3) AND 0x3F),
      enc_char (C3 AND 0x3F)])"

fun enc_loop :: "u8 list \<Rightarrow> u8 list" where
  "enc_loop (a # b # c # src) = enc4 a b c @ enc_loop src"
| "enc_loop [a, b] =
    (let C1 = ucast a; C2 = ucast b :: u32 in
     [enc_char (drop_bit 2 C1 AND 0x3F), enc_char ((push_bit 4 (C1 AND 3) + drop_bit 4 C2) AND 0x3F),
      enc_char (push_bit 2 (C2 AND 15) AND 0x3F), 0x3D])"
| "enc_loop [a] =
    (let C1 = ucast a; C2 = 0 :: u32 in
     [enc_char (drop_bit 2 C1 AND 0x3F), enc_char ((push_bit 4 (C1 AND 3) + drop_bit 4 C2) AND 0x3F), 0x3D, 0x3D])"
| "enc_loop [] = []"

text \<open>\<open>slen\<close> is the length of the source.\<close>

definition esp_base64_encode :: "u8 list \<Rightarrow> u32 \<Rightarrow> ((32 word) \<times> u8 list) option" where
  "esp_base64_encode src dlen =
    (let slen = of_nat (length src) :: u32 in
     if dlen = 0 \<or> slen = 0 then None
     else
       let n = 4 * (slen div 3 + (if slen mod 3 \<noteq> 0 then 1 else 0)) in
       if dlen < n + 1 then Some (- ENOBUFS, [])
       else let out = enc_loop src in Some (of_nat (length out), out @ [0]))"

section \<open>Decoding\<close>

lemma dropWhile_less: "dropWhile P xs = c # cs \<Longrightarrow> length cs < length xs"
  using length_dropWhile_le [of P xs] by simp

text \<open>The first pass: what is left of the source, the characters \<open>n\<close> and the padding \<open>j\<close> so far.\<close>

function (sequential) scan :: "u8 list \<Rightarrow> u32 \<Rightarrow> u32 \<Rightarrow> (32 word) + (u32 \<times> u32)" where
  "scan [] n j = Inr (n, j)"
| "scan (s # src) n j =
    (let x = length (takeWhile ((=) 0x20) (s # src)) in
     case dropWhile ((=) 0x20) (s # src) of
       [] \<Rightarrow> Inr (n, j)
     | c # cs \<Rightarrow>
         if c = 0x0D \<and> (case cs of d # _ \<Rightarrow> d = 0x0A | [] \<Rightarrow> False) then scan cs n j
         else if c = 0x0A then scan cs n j
         else if x \<noteq> 0 then Inl (- EINVAL)
         else
           let j' = (if c = 0x3D then j + 1 else j) in
           if c = 0x3D \<and> j' > 2 then Inl (- EINVAL)
           else if c > 127 \<or> dec_char c = 127 then Inl (- EINVAL)
           else if dec_char c < 64 \<and> j' \<noteq> 0 then Inl (- EINVAL)
           else scan cs (n + 1) j')"
  by pat_completeness auto
termination
proof (relation "measure (\<lambda>(src, n, j). length src)")
  fix s c :: u8 and src cs :: "u8 list" and n j n' j' :: u32
  assume "dropWhile ((=) 0x20) (s # src) = c # cs"
  then have less: "length cs < length (s # src)" by (rule dropWhile_less)
  show "((cs, n, j), s # src, n, j) \<in> measure (\<lambda>(src, n, j). length src)"
    "((cs, n, j), s # src, n, j) \<in> measure (\<lambda>(src, n, j). length src)"
    "((cs, n + 1, j'), s # src, n, j) \<in> measure (\<lambda>(src, n, j). length src)" using less by simp_all
qed simp

text \<open>The second pass.\<close>

fun dec_loop :: "u8 list \<Rightarrow> u32 \<Rightarrow> u32 \<Rightarrow> u32 \<Rightarrow> u8 list" where
  "dec_loop [] j n x = []"
| "dec_loop (c # src) j n x =
    (if c = 0x0D \<or> c = 0x0A \<or> c = 0x20 then dec_loop src j n x
     else
       let j' = j - (if dec_char c = 64 then 1 else 0);
           x' = push_bit 6 x OR (ucast (dec_char c) AND 0x3F) in
       if n + 1 = 4 then
         (if j' > 0 then [ucast (drop_bit 16 x')] else []) @ (if j' > 1 then [ucast (drop_bit 8 x')] else [])
         @ (if j' > 2 then [ucast x'] else []) @ dec_loop src j' 0 x'
       else dec_loop src j' (n + 1) x')"

definition esp_base64_decode :: "u8 list \<Rightarrow> u32 \<Rightarrow> ((32 word) \<times> u8 list) option" where
  "esp_base64_decode src dlen =
    (if dlen = 0 \<or> (of_nat (length src) :: u32) = 0 then None
     else case scan src 0 0 of
       Inl e \<Rightarrow> Some (e, [])
     | Inr (n, j) \<Rightarrow>
         if n = 0 then Some (- EINVAL, [])
         else
           let n' = 6 * drop_bit 3 n + drop_bit 3 (6 * (n AND 7) + 7) - j in
           if dlen < n' then Some (- ENOBUFS, [])
           else let out = dec_loop src 3 0 0 in Some (of_nat (length out), out))"

section \<open>The tables invert each other\<close>

abbreviation space :: "u8 \<Rightarrow> bool" where "space c \<equiv> c = 0x0D \<or> c = 0x0A \<or> c = 0x20"

definition lut_bytes :: "u32 list \<Rightarrow> u8 list" where
  "lut_bytes tab = concat (map (\<lambda>w. [ucast w, ucast (drop_bit 8 w), ucast (drop_bit 16 w), ucast (drop_bit 24 w)]) tab)"

lemma lut_bytes_nth: "i < 4 * length tab \<Longrightarrow> ESP_IBUS_GET_U8_DATA i tab = lut_bytes tab ! i"
proof (induction tab arbitrary: i)
  case (Cons w tab)
  show ?case
  proof (cases "i < 4")
    case True
    then have "i = 0 \<or> i = 1 \<or> i = 2 \<or> i = 3" by auto
    then show ?thesis by (auto simp: ESP_IBUS_GET_U8_DATA_def lut_bytes_def)
  next
    case False
    then obtain k where k: "i = k + 4" by (metis add.commute le_Suc_ex not_less)
    have "ESP_IBUS_GET_U8_DATA i (w # tab) = ESP_IBUS_GET_U8_DATA k tab" 
      using div_add_self2 [of 4 k] unfolding k by (simp add: ESP_IBUS_GET_U8_DATA_def del: div_add_self2)
    then show ?thesis using Cons.IH [of k] Cons.prems k by (simp add: lut_bytes_def)
  qed
qed simp

lemma enc_bytes: "lut_bytes s_base64_enc_lut = [
    65, 66, 67, 68, 69, 70, 71, 72, 73, 74, 75, 76, 77, 78, 79, 80,
    81, 82, 83, 84, 85, 86, 87, 88, 89, 90, 97, 98, 99, 100, 101, 102,
    103, 104, 105, 106, 107, 108, 109, 110, 111, 112, 113, 114, 115, 116, 117, 118,
    119, 120, 121, 122, 48, 49, 50, 51, 52, 53, 54, 55, 56, 57, 43, 47]"
  unfolding lut_bytes_def s_base64_enc_lut_def by simp

lemma dec_bytes: "lut_bytes s_base64_dec_lut = [
    127, 127, 127, 127, 127, 127, 127, 127, 127, 127, 127, 127, 127, 127, 127, 127,
    127, 127, 127, 127, 127, 127, 127, 127, 127, 127, 127, 127, 127, 127, 127, 127,
    127, 127, 127, 127, 127, 127, 127, 127, 127, 127, 127, 62, 127, 127, 127, 63,
    52, 53, 54, 55, 56, 57, 58, 59, 60, 61, 127, 127, 127, 64, 127, 127,
    127, 0, 1, 2, 3, 4, 5, 6, 7, 8, 9, 10, 11, 12, 13, 14,
    15, 16, 17, 18, 19, 20, 21, 22, 23, 24, 25, 127, 127, 127, 127, 127,
    127, 26, 27, 28, 29, 30, 31, 32, 33, 34, 35, 36, 37, 38, 39, 40,
    41, 42, 43, 44, 45, 46, 47, 48, 49, 50, 51, 127, 127, 127, 127, 127]"
  unfolding lut_bytes_def s_base64_dec_lut_def by simp

lemma enc_char_nth: "v < 64 \<Longrightarrow> enc_char v = lut_bytes s_base64_enc_lut ! unat v"
  unfolding enc_char_def by (rule lut_bytes_nth) (simp add: s_base64_enc_lut_def word_less_nat_alt)

lemma dec_char_nth: "c \<le> 127 \<Longrightarrow> dec_char c = lut_bytes s_base64_dec_lut ! unat c"
  unfolding dec_char_def by (rule lut_bytes_nth) (simp add: s_base64_dec_lut_def word_le_nat_alt)

lemma enc_table: "list_all (\<lambda>(v, c). c \<le> 127 \<and> unat (lut_bytes s_base64_dec_lut ! unat c) = v \<and> \<not> space c \<and> c \<noteq> 0x3D)
    (enumerate 0 (lut_bytes s_base64_enc_lut))"
  unfolding enc_bytes dec_bytes by simp

lemma dec_table: "list_all (\<lambda>(c, d). (d = 64 \<longleftrightarrow> c = 61) \<and> (d < 64 \<or> d = 64 \<or> d = 127)) (enumerate 0 (lut_bytes s_base64_dec_lut))"
  unfolding dec_bytes by simp

lemma enc_char_facts:
  assumes "v < 64"
  shows "dec_char (enc_char v) = ucast v" and "\<not> space (enc_char v)" and "enc_char v \<noteq> 0x3D" and "enc_char v \<le> 127"
proof -
  have "length (lut_bytes s_base64_enc_lut) = 64" by (simp add: enc_bytes)
  then have f: "enc_char v \<le> 127" "unat (lut_bytes s_base64_dec_lut ! unat (enc_char v)) = unat v" "\<not> space (enc_char v)" "enc_char v \<noteq> 0x3D"
    using enc_table assms by (simp_all add: list_all_length nth_enumerate_eq enc_char_nth word_less_nat_alt)
  show "\<not> space (enc_char v)" "enc_char v \<noteq> 0x3D" "enc_char v \<le> 127" by (fact f)+
  have "dec_char (enc_char v) = of_nat (unat v)" using f(2) dec_char_nth [OF f(1)] by (metis of_nat_unat ucast_id)
  then show "dec_char (enc_char v) = ucast v" by (simp add: of_nat_unat)
qed

lemma dec_char_facts:
  assumes "c \<le> 127"
  shows "dec_char c = 64 \<longleftrightarrow> c = 0x3D" and "dec_char c < 64 \<or> dec_char c = 64 \<or> dec_char c = 127"
proof -
  have "length (lut_bytes s_base64_dec_lut) = 128" by (simp add: dec_bytes)
  moreover have "unat c < 128" using assms by (simp add: word_le_nat_alt)
  ultimately have "(lut_bytes s_base64_dec_lut ! unat c = 64 \<longleftrightarrow> unat c = 61)
      \<and> (lut_bytes s_base64_dec_lut ! unat c < 64 \<or> lut_bytes s_base64_dec_lut ! unat c = 64 \<or> lut_bytes s_base64_dec_lut ! unat c = 127)"
    using dec_table unfolding list_all_length by (auto simp: nth_enumerate_eq)
  then have f: "dec_char c = 64 \<longleftrightarrow> unat c = 61" "dec_char c < 64 \<or> dec_char c = 64 \<or> dec_char c = 127"
    unfolding dec_char_nth [OF assms] by blast+
  show "dec_char c < 64 \<or> dec_char c = 64 \<or> dec_char c = 127" by (fact f(2))
  have "unat c = 61 \<longleftrightarrow> c = 0x3D" by (simp add: word_unat_eq_iff)
  then show "dec_char c = 64 \<longleftrightarrow> c = 0x3D" using f(1) by simp
qed

lemma dec_space: "dec_char 0x0D = 127" "dec_char 0x0A = 127" "dec_char 0x20 = 127"
  by (simp_all add: dec_char_nth dec_bytes)

lemma dec_pad: "dec_char 0x3D = 64"
  by (simp add: dec_char_facts)

section \<open>What the first pass accepts\<close>

abbreviation data_char :: "u8 \<Rightarrow> bool" where "data_char c \<equiv> dec_char c < 64 \<and> c \<le> 127"

abbreviation strip :: "u8 list \<Rightarrow> u8 list" where "strip \<equiv> filter (\<lambda>c. \<not> space c)"

lemma strip_spaces: "dropWhile ((=) 0x20) xs = ys \<Longrightarrow> strip xs = strip ys"
  by (induction xs) auto

lemma scan_accepts:
  assumes "scan src n j = Inr (N, J)" and "j \<le> 2"
  shows "\<exists>ds e. strip src = ds @ replicate e 0x3D \<and> (\<forall>c \<in> set ds. data_char c) \<and> (j \<noteq> 0 \<longrightarrow> ds = [])
    \<and> N = n + of_nat (length ds + e) \<and> J = j + of_nat e \<and> unat j + e \<le> 2"
  using assms
proof (induction src arbitrary: n j rule: length_induct)
  case (1 src)
  show ?case
  proof (cases "src = [] \<or> dropWhile ((=) 0x20) src = []")
    case True
    then have "strip src = []" using strip_spaces [of src "[]"] by auto
    moreover have "N = n" "J = j" using 1(2) True by (cases src; simp)+
    ultimately show ?thesis using 1(3) by (intro exI [of _ "[]"] exI [of _ 0]) (simp add: word_le_nat_alt)
  next
    case False
    then obtain s xs c cs where src: "src = s # xs" and dw: "dropWhile ((=) 0x20) (s # xs) = c # cs" by (metis neq_Nil_conv)
    have st: "strip src = strip (c # cs)" unfolding src by (rule strip_spaces [OF dw])
    have less: "length cs < length src" unfolding src by (rule dropWhile_less [OF dw])
    note IH = 1(1) [rule_format, OF less]
    have run: "(if c = 0x0D \<and> (case cs of d # _ \<Rightarrow> d = 0x0A | [] \<Rightarrow> False) then scan cs n j
         else if c = 0x0A then scan cs n j
         else if length (takeWhile ((=) 0x20) (s # xs)) \<noteq> 0 then Inl (- EINVAL)
         else
           let j' = (if c = 0x3D then j + 1 else j) in
           if c = 0x3D \<and> j' > 2 then Inl (- EINVAL)
           else if c > 127 \<or> dec_char c = 127 then Inl (- EINVAL)
           else if dec_char c < 64 \<and> j' \<noteq> 0 then Inl (- EINVAL)
           else scan cs (n + 1) j') = Inr (N, J)"
      using 1(2) unfolding src scan.simps Let_def dw list.case .
    consider (skip) "c = 0x0D \<or> c = 0x0A" "scan cs n j = Inr (N, J)"
      | (pad) "c = 0x3D" "j + 1 \<le> 2" "scan cs (n + 1) (j + 1) = Inr (N, J)"
      | (data) "c \<noteq> 0x3D" "c \<le> 127" "dec_char c < 64" "j = 0" "scan cs (n + 1) j = Inr (N, J)"
      using run dec_char_facts [of c] by (auto simp: Let_def not_less split: if_splits)
    then show ?thesis
    proof cases
      case skip
      then have "strip src = strip cs" using st by auto
      then show ?thesis using IH [OF skip(2) 1(3)] by simp
    next
      case pad
      have uj: "unat (j + 1) = unat j + 1" using 1(3) by (intro unat_add_1_less [of j 3]) (simp add: word_le_nat_alt word_less_nat_alt)
      obtain ds e where d: "strip cs = ds @ replicate e 0x3D" "j + 1 \<noteq> 0 \<longrightarrow> ds = []" "N = n + 1 + of_nat (length ds + e)"
        "J = j + 1 + of_nat e" "unat (j + 1) + e \<le> 2" using IH [OF pad(3,2)] by blast
      have "j + 1 \<noteq> 0" using uj by auto
      then have "ds = []" using d(2) by simp
      then show ?thesis using d uj pad(1) st by (intro exI [of _ "[]"] exI [of _ "Suc e"]) simp
    next
      case data
      obtain ds e where d: "strip cs = ds @ replicate e 0x3D" "\<forall>c \<in> set ds. data_char c" "N = n + 1 + of_nat (length ds + e)"
        "J = j + of_nat e" "unat j + e \<le> 2" using IH [OF data(5) 1(3)] by blast
      have "\<not> space c" using data(3) dec_space by auto
      then show ?thesis using d data st by (intro exI [of _ "c # ds"] exI [of _ e]) simp
    qed
  qed
qed

section \<open>What the second pass writes\<close>

lemma dec_loop_strip: "dec_loop src j n x = dec_loop (strip src) j n x"
  by (induction src arbitrary: j n x) (auto simp: Let_def)

text \<open>One step of the loop, and the step that completes a group.\<close>

definition shift_in :: "u32 \<Rightarrow> u8 \<Rightarrow> u32" where
  "shift_in x c = push_bit 6 x OR (ucast (dec_char c) AND 0x3F)"

lemma dec_step: "\<not> space c \<Longrightarrow> dec_char c \<noteq> 64 \<Longrightarrow> n + 1 \<noteq> 4 \<Longrightarrow> dec_loop (c # src) j n x = dec_loop src j (n + 1) (shift_in x c)"
  by (simp add: Let_def shift_in_def)

lemma dec_group: "\<not> space c \<Longrightarrow> dec_char c \<noteq> 64 \<Longrightarrow> dec_loop (c # src) 3 3 x
    = [ucast (drop_bit 16 (shift_in x c)), ucast (drop_bit 8 (shift_in x c)), ucast (shift_in x c)] @ dec_loop src 3 0 (shift_in x c)"
proof -
  have "(3 :: u32) > 0" "(3 :: u32) > 1" "(3 :: u32) > 2" "(3 :: u32) + 1 = 4" by simp_all
  then show "\<not> space c \<Longrightarrow> dec_char c \<noteq> 64 \<Longrightarrow> ?thesis" unfolding dec_loop.simps Let_def shift_in_def by simp
qed

lemma dec_loop_data:
  assumes "\<forall>c \<in> set ds. data_char c" and "m < 4"
  shows "\<exists>x'. length (dec_loop (ds @ rest) 3 (of_nat m) x)
    = 3 * ((m + length ds) div 4) + length (dec_loop rest 3 (of_nat ((m + length ds) mod 4)) x')"
  using assms
proof (induction ds arbitrary: m x)
  case Nil
  then show ?case by (intro exI [of _ x]) simp
next
  case (Cons c ds)
  have c: "\<not> space c" "dec_char c \<noteq> 64" "\<forall>c \<in> set ds. data_char c" using Cons.prems(1) dec_space by auto
  show ?case
  proof (cases "m = 3")
    case True
    obtain x' where "length (dec_loop (ds @ rest) 3 (of_nat 0) (shift_in x c))
        = 3 * ((0 + length ds) div 4) + length (dec_loop rest 3 (of_nat ((0 + length ds) mod 4)) x')"
      using Cons.IH [OF c(3), of 0] by auto
    moreover have "(3 + length (c # ds)) div 4 = Suc (length ds div 4)" "(3 + length (c # ds)) mod 4 = length ds mod 4"
      using div_add_self2 [of 4 "length ds"] mod_add_self2 [of "length ds" 4] by (simp_all add: add.commute)
    ultimately show ?thesis using dec_group [OF c(1,2), of "ds @ rest" x] True by (intro exI [of _ x']) (simp del: dec_loop.simps)
  next
    case False
    then have "m = 0 \<or> m = 1 \<or> m = 2" using Cons.prems(2) by auto
    then have n: "of_nat m + 1 \<noteq> (4 :: u32)" "m + 1 < 4" by auto
    obtain x' where "length (dec_loop (ds @ rest) 3 (of_nat (m + 1)) (shift_in x c))
        = 3 * ((m + 1 + length ds) div 4) + length (dec_loop rest 3 (of_nat ((m + 1 + length ds) mod 4)) x')"
      using Cons.IH [OF c(3) n(2)] by blast
    moreover have "dec_loop ((c # ds) @ rest) 3 (of_nat m) x = dec_loop (ds @ rest) 3 (of_nat (m + 1)) (shift_in x c)"
      using dec_step [OF c(1,2) n(1), of "ds @ rest" 3 x] by (simp del: dec_loop.simps add: add.commute)
    ultimately show ?thesis by (intro exI [of _ x']) (simp del: dec_loop.simps)
  qed
qed

lemma dec_pad_step: "n + 1 \<noteq> 4 \<Longrightarrow> dec_loop (0x3D # src) j n x = dec_loop src (j - 1) (n + 1) (shift_in x 0x3D)"
  by (simp add: Let_def dec_pad shift_in_def)

lemma dec_pad_group:
  "dec_loop (0x3D # src) 3 3 x
    = [ucast (drop_bit 16 (shift_in x 0x3D)), ucast (drop_bit 8 (shift_in x 0x3D))] @ dec_loop src 2 0 (shift_in x 0x3D)"
  "dec_loop (0x3D # src) 2 3 x = [ucast (drop_bit 16 (shift_in x 0x3D))] @ dec_loop src 1 0 (shift_in x 0x3D)"
proof -
  have "(3 :: u32) + 1 = 4" "(3 :: u32) - 1 = 2" "(2 :: u32) - 1 = 1" "(2 :: u32) > 0" "(2 :: u32) > 1" "\<not> (2 :: u32) > 2"
    "(1 :: u32) > 0" "\<not> (1 :: u32) > 1" "\<not> (1 :: u32) > 2" by simp_all
  then show "dec_loop (0x3D # src) 3 3 x
    = [ucast (drop_bit 16 (shift_in x 0x3D)), ucast (drop_bit 8 (shift_in x 0x3D))] @ dec_loop src 2 0 (shift_in x 0x3D)"
    "dec_loop (0x3D # src) 2 3 x = [ucast (drop_bit 16 (shift_in x 0x3D))] @ dec_loop src 1 0 (shift_in x 0x3D)"
    unfolding dec_loop.simps Let_def dec_pad shift_in_def by simp_all
qed

lemma dec_loop_pad:
  assumes "m < 4" and "e \<le> 2"
  shows "length (dec_loop (replicate e 0x3D) 3 (of_nat m) x) = (if m + e < 4 then 0 else if m = 3 then 2 else 1)"
proof -
  have e: "replicate e 0x3D = [] \<and> e = 0 \<or> replicate e 0x3D = [0x3D] \<and> e = 1 \<or> replicate e 0x3D = [0x3D, 0x3D :: u8] \<and> e = 2"
    using assms(2) by (auto simp: numeral_2_eq_2 le_Suc_eq)
  have "m = 0 \<or> m = 1 \<or> m = 2 \<or> m = 3" using assms by auto
  then show ?thesis using e by (elim disjE conjE) (simp_all add: dec_pad_step dec_pad_group del: dec_loop.simps(2))
qed

lemma dec_length:
  assumes "\<forall>c \<in> set ds. data_char c" and "e \<le> 2" and "strip src = ds @ replicate e 0x3D"
  shows "length (dec_loop src 3 0 x) = 3 * (length ds div 4) + (if length ds mod 4 + e < 4 then 0 else if length ds mod 4 = 3 then 2 else 1)"
proof -
  obtain x' where "length (dec_loop (ds @ replicate e 0x3D) 3 (of_nat 0) x)
    = 3 * ((0 + length ds) div 4) + length (dec_loop (replicate e 0x3D) 3 (of_nat ((0 + length ds) mod 4)) x')"
    using dec_loop_data [OF assms(1), of 0] by auto
  then show ?thesis using dec_loop_strip [of src 3 0 x] assms(3) dec_loop_pad [of "length ds mod 4" e] assms(2) by simp
qed

lemma six_eighths: "6 * (x div 8) + (6 * (x mod 8) + 7) div 8 = (6 * x + 7) div (8 :: nat)"
proof -
  have "6 * x + 7 = (6 * (x mod 8) + 7) + 8 * (6 * (x div 8))" using div_mult_mod_eq [of x 8] by linarith
  then show ?thesis by (simp only: div_mult_self2)
qed

lemma out_len_arith:
  fixes k e :: nat
  assumes "e \<le> 2"
  shows "3 * (k div 4) + (if k mod 4 + e < 4 then 0 else if k mod 4 = 3 then 2 else 1) + e \<le> (6 * (k + e) + 7) div 8"
proof -
  define q m where "q = k div 4" and "m = k mod 4"
  have m: "m < 4" "k = 4 * q + m" by (simp_all add: q_def m_def)
  have "6 * (k + e) + 7 = (6 * (m + e) + 7) + 8 * (3 * q)" using m(2) by simp
  then have "(6 * (k + e) + 7) div 8 = 3 * q + (6 * (m + e) + 7) div 8" by (simp only: div_mult_self2)
  moreover have "(if m + e < 4 then 0 else if m = 3 then 2 else 1) + e \<le> (6 * (m + e) + 7) div 8"
  proof -
    have "m = 0 \<or> m = 1 \<or> m = 2 \<or> m = 3" "e = 0 \<or> e = 1 \<or> e = 2" using m(1) assms by auto
    then show ?thesis by (elim disjE) simp_all
  qed
  ultimately show ?thesis unfolding q_def [symmetric] m_def [symmetric] by linarith
qed

lemma room_unat:
  assumes "unat j \<le> (6 * unat n + 7) div 8"
  shows "unat (6 * drop_bit 3 n + drop_bit 3 (6 * (n AND 7) + 7) - j :: u32) = (6 * unat n + 7) div 8 - unat j"
proof -
  have seven: "unat (n AND 7) = unat n mod 8" using unat_and_mask [of n 3] by (simp add: mask_eq_exp_minus_1)
  have dv: "unat (drop_bit 3 n) = unat n div 8" unfolding unat_drop_bit_eq by (simp add: drop_bit_eq_div)
  have "unat n < 2 ^ LENGTH(32)" by (rule unsigned_less)
  then have small: "unat n div 8 < 2 ^ 29" by simp
  have six: "unat (6 * drop_bit 3 n) = 6 * (unat n div 8)" using small by (simp add: unat_word_ariths dv)
  have "unat (6 * (n AND 7) + 7) = 6 * (unat n mod 8) + 7" by (simp add: unat_word_ariths seven)
  then have rest: "unat (drop_bit 3 (6 * (n AND 7) + 7)) = (6 * (unat n mod 8) + 7) div 8"
    unfolding unat_drop_bit_eq by (simp add: drop_bit_eq_div)
  have sum: "unat (6 * drop_bit 3 n + drop_bit 3 (6 * (n AND 7) + 7)) = (6 * unat n + 7) div 8"
    unfolding six_eighths [of "unat n", symmetric] using small by (subst unat_add_no_wrap) (simp_all add: six rest)
  have "j \<le> 6 * drop_bit 3 n + drop_bit 3 (6 * (n AND 7) + 7)" using assms by (simp add: word_le_nat_alt sum)
  then show ?thesis by (simp add: unat_sub sum)
qed

text \<open>The decoder never writes more than the caller's buffer holds, whatever the source is: valid text, white space, padding
  in odd places or an incomplete last group.\<close>

lemma base64_decode_in_bounds:
  assumes run: "esp_base64_decode src dlen = Some (r, out)" and len: "length src < 2 ^ 32"
  shows "length out \<le> unat dlen"
proof (cases "out = []")
  case False
  then obtain n j where sc: "scan src 0 0 = Inr (n, j)" and out: "out = dec_loop src 3 0 0"
    and room: "\<not> dlen < 6 * drop_bit 3 n + drop_bit 3 (6 * (n AND 7) + 7) - j"
    using run by (auto simp: esp_base64_decode_def Let_def split: if_splits sum.splits)
  obtain ds e where d: "strip src = ds @ replicate e 0x3D" "\<forall>c \<in> set ds. data_char c" "n = of_nat (length ds + e)" "j = of_nat e" "e \<le> 2"
    using scan_accepts [OF sc] by auto
  let ?k = "length ds"
  have "length (strip src) < 2 ^ 32" using len length_filter_le order_le_less_trans by blast
  then have un: "unat n = ?k + e" using d(1,3) unat_of_nat_small [of "?k + e", where 'a = 32] by simp
  have uj: "unat j = e" using d(4,5) unat_of_nat_small [of e, where 'a = 32] by simp
  have "e \<le> (6 * (?k + e) + 7) div 8" using out_len_arith [OF d(5), of ?k] by linarith
  then have "unat (6 * drop_bit 3 n + drop_bit 3 (6 * (n AND 7) + 7) - j) = (6 * (?k + e) + 7) div 8 - e"
    using room_unat [of j n] by (simp add: un uj)
  then have "(6 * (?k + e) + 7) div 8 - e \<le> unat dlen" using room by (simp add: not_less word_le_nat_alt)
  then show ?thesis using dec_length [OF d(2,5,1), of 0] out_len_arith [OF d(5), of ?k] unfolding out by linarith
qed simp

section \<open>Round trip\<close>

lemma enc_char_dec_lt: "v < 64 \<Longrightarrow> dec_char (enc_char v) < 64"
  using enc_char_facts(1) [of v] by (simp add: word_less_nat_alt unsigned_ucast_eq take_bit_nat_eq_self)

lemma scan_data:
  assumes "v < 64"
  shows "scan (enc_char v # xs) n 0 = scan xs (n + 1) 0"
proof -
  note f = enc_char_facts [OF assms] enc_char_dec_lt [OF assms]
  have "dec_char (enc_char v) \<noteq> 127" using f(5) by auto
  then show ?thesis using f(2-5) by (auto simp: Let_def not_less)
qed

lemma scan_pad: "j + 1 \<le> 2 \<Longrightarrow> scan (0x3D # xs) n j = scan xs (n + 1) (j + 1)"
  by (auto simp: Let_def dec_pad not_less)

lemma shift_in_enc: "v < 64 \<Longrightarrow> shift_in x (enc_char v) = push_bit 6 x OR v"
proof -
  assume v: "v < 64"
  have "ucast (ucast v :: u8) AND 0x3F = v"
  proof -
    have m: "(0x3F :: u32) = mask 6" by (simp add: mask_eq_exp_minus_1)
    have "unat (ucast (ucast v :: u8) AND mask 6 :: u32) = unat v"
      using v by (simp add: unat_and_mask word_less_nat_alt unsigned_ucast_eq unsigned_take_bit_eq take_bit_nat_eq_self)
    then show ?thesis unfolding m by (simp add: word_unat_eq_iff)
  qed
  then show ?thesis by (simp add: shift_in_def enc_char_facts(1) [OF v])
qed

definition six_1 :: "u8 \<Rightarrow> u32" where "six_1 a = drop_bit 2 (ucast a) AND 0x3F"
definition six_2 :: "u8 \<Rightarrow> u8 \<Rightarrow> u32" where "six_2 a b = (push_bit 4 (ucast a AND 3) + drop_bit 4 (ucast b)) AND 0x3F"
definition six_3 :: "u8 \<Rightarrow> u8 \<Rightarrow> u32" where "six_3 b c = (push_bit 2 (ucast b AND 15) + drop_bit 6 (ucast c)) AND 0x3F"
definition six_4 :: "u8 \<Rightarrow> u32" where "six_4 c = ucast c AND 0x3F"

lemma masks: "(0x3F :: u32) = mask 6" "(15 :: u32) = mask 4" "(3 :: u32) = mask 2"
  by (simp_all add: mask_eq_exp_minus_1)

lemma and_3F_less: "(x :: u32) AND 0x3F < 64"
proof -
  have "unat (x AND 0x3F) < 64" unfolding masks unat_and_mask by simp
  then show ?thesis by (simp add: word_less_nat_alt)
qed

lemma six_less: "six_1 a < 64" "six_2 a b < 64" "six_3 b c < 64" "six_4 c < 64"
  by (simp_all add: six_1_def six_2_def six_3_def six_4_def and_3F_less)

lemma bit_low: "bit (ucast (b :: u8) :: u32) n \<longleftrightarrow> n < 8 \<and> bit b n"
  using bit_imp_le_length [of b n] by (auto simp: bit_simps)

lemma byte_high: "8 \<le> k \<Longrightarrow> \<not> bit (w :: u8) k"
  using bit_imp_le_length [of w k] by auto

lemma six_sums:
  "push_bit 4 (ucast a AND mask 2) + drop_bit 4 (ucast (b :: u8)) = (push_bit 4 (ucast a AND mask 2) OR drop_bit 4 (ucast b) :: u32)"
  "push_bit 2 (ucast b AND mask 4) + drop_bit 6 (ucast (c :: u8)) = (push_bit 2 (ucast b AND mask 4) OR drop_bit 6 (ucast c) :: u32)"
  by (rule disjunctive_add, auto simp: bit_simps bit_low byte_high)+

lemma six_bits:
  "bit (six_1 a) n \<longleftrightarrow> n < 6 \<and> bit a (n + 2)"
  "bit (six_2 a b) n \<longleftrightarrow> n < 6 \<and> (if n < 4 then bit b (n + 4) else bit a (n - 4))"
  "bit (six_3 b c) n \<longleftrightarrow> n < 6 \<and> (if n < 2 then bit c (n + 6) else bit b (n - 2))"
  "bit (six_4 c) n \<longleftrightarrow> n < 6 \<and> bit c n"
proof -
  show "bit (six_1 a) n \<longleftrightarrow> n < 6 \<and> bit a (n + 2)" "bit (six_4 c) n \<longleftrightarrow> n < 6 \<and> bit c n"
    unfolding six_1_def six_4_def masks by (auto simp: bit_simps bit_low add.commute)
  show "bit (six_2 a b) n \<longleftrightarrow> n < 6 \<and> (if n < 4 then bit b (n + 4) else bit a (n - 4))"
    unfolding six_2_def masks six_sums by (auto simp: bit_simps bit_low byte_high add.commute)
  show "bit (six_3 b c) n \<longleftrightarrow> n < 6 \<and> (if n < 2 then bit c (n + 6) else bit b (n - 2))"
    unfolding six_3_def masks six_sums by (auto simp: bit_simps bit_low byte_high add.commute)
qed

definition group :: "u32 \<Rightarrow> u8 \<Rightarrow> u8 \<Rightarrow> u8 \<Rightarrow> u32" where
  "group x a b c = push_bit 6 (push_bit 6 (push_bit 6 (push_bit 6 x OR six_1 a) OR six_2 a b) OR six_3 b c) OR six_4 c"

lemma group_bytes: "ucast (drop_bit 16 (group x a b c)) = a" "ucast (drop_bit 8 (group x a b c)) = b" "ucast (group x a b c) = c"
proof -
  have bits: "n < 24 \<Longrightarrow> bit (group x a b c) n \<longleftrightarrow> (if n < 8 then bit c n else if n < 16 then bit b (n - 8) else bit a (n - 16))" for n
  proof -
    have "18 \<le> n \<Longrightarrow> Suc (Suc (n - 18)) = n - 16" by simp
    then show "n < 24 \<Longrightarrow> ?thesis" unfolding group_def by (auto simp: bit_simps six_bits)
  qed
  show "ucast (drop_bit 16 (group x a b c)) = a" "ucast (drop_bit 8 (group x a b c)) = b" "ucast (group x a b c) = c"
    by (rule bit_word_eqI, simp add: bit_simps bits)+
qed

lemma shift_in_pad: "shift_in x 0x3D = push_bit 6 x"
  by (simp add: shift_in_def dec_pad)

lemma shift_group:
  "shift_in (shift_in (shift_in (shift_in x (enc_char (six_1 a))) (enc_char (six_2 a b))) (enc_char (six_3 b c))) (enc_char (six_4 c)) = group x a b c"
  "shift_in (shift_in (shift_in (shift_in x (enc_char (six_1 a))) (enc_char (six_2 a b))) (enc_char (six_3 b 0))) 0x3D = group x a b 0"
  "shift_in (shift_in (shift_in (shift_in x (enc_char (six_1 a))) (enc_char (six_2 a 0))) 0x3D) 0x3D = group x a 0 0"
  unfolding shift_in_pad shift_in_enc [OF six_less(1)] shift_in_enc [OF six_less(2)] shift_in_enc [OF six_less(3)] shift_in_enc [OF six_less(4)] group_def
  by (simp_all add: six_4_def six_3_def)

lemma enc_loop_six:
  "enc_loop (a # b # c # src) = [enc_char (six_1 a), enc_char (six_2 a b), enc_char (six_3 b c), enc_char (six_4 c)] @ enc_loop src"
  "enc_loop [a, b] = [enc_char (six_1 a), enc_char (six_2 a b), enc_char (six_3 b 0), 0x3D]"
  "enc_loop [a] = [enc_char (six_1 a), enc_char (six_2 a 0), 0x3D, 0x3D]"
  by (simp_all add: enc4_def six_1_def six_2_def six_3_def six_4_def Let_def)

lemma enc_char_plain: "v < 64 \<Longrightarrow> \<not> space (enc_char v) \<and> dec_char (enc_char v) \<noteq> 64"
  using enc_char_facts(2) [of v] enc_char_dec_lt [of v] by auto

lemma dec_six:
  assumes "v < 64"
  shows "n + 1 \<noteq> 4 \<Longrightarrow> dec_loop (enc_char v # src) 3 n x = dec_loop src 3 (n + 1) (shift_in x (enc_char v))"
    and "dec_loop (enc_char v # src) 3 3 x
      = [ucast (drop_bit 16 (shift_in x (enc_char v))), ucast (drop_bit 8 (shift_in x (enc_char v))), ucast (shift_in x (enc_char v))]
        @ dec_loop src 3 0 (shift_in x (enc_char v))"
  using enc_char_plain [OF assms] dec_step dec_group by blast+

lemma dec_enc: "dec_loop (enc_loop src) 3 0 x = src"
proof (induction src arbitrary: x rule: enc_loop.induct)
  case (1 a b c src)
  show ?case
    unfolding enc_loop_six append_Cons append_Nil
    by (simp add: dec_six six_less 1 shift_group group_bytes del: dec_loop.simps)
next
  case (2 a b)
  show ?case unfolding enc_loop_six by (simp add: dec_six six_less dec_pad_group shift_group group_bytes del: dec_loop.simps(2))
next
  case (3 a)
  show ?case unfolding enc_loop_six by (simp add: dec_six six_less dec_pad_step dec_pad_group shift_group group_bytes del: dec_loop.simps(2))
qed simp

definition pad_len :: "u8 list \<Rightarrow> nat" where "pad_len src = (3 - length src mod 3) mod 3"

lemma scan_enc: "scan (enc_loop src) n 0 = Inr (n + of_nat (length (enc_loop src)), of_nat (pad_len src))"
proof (induction src arbitrary: n rule: enc_loop.induct)
  case (1 a b c src)
  have "pad_len (a # b # c # src) = pad_len src" by (simp add: pad_len_def)
  then show ?case unfolding enc_loop_six append_Cons append_Nil by (simp add: scan_data six_less 1 add.assoc del: scan.simps)
qed (simp_all add: enc_loop_six scan_data scan_pad six_less pad_len_def del: enc_loop.simps(1-3) scan.simps(2))

lemma enc_length: "length (enc_loop src) = 4 * ((length src + 2) div 3)"
proof (induction src rule: enc_loop.induct)
  case (1 a b c src)
  have "(5 + length src) div 3 = Suc ((2 + length src) div 3)" by presburger
  then show ?case using 1 by (simp add: enc_loop_six del: enc_loop.simps(1-3))
qed (simp_all add: enc_loop_six del: enc_loop.simps(1-3))

lemma encode_ok:
  assumes "src \<noteq> []" and "length src < 2 ^ 29" and "4 * ((length src + 2) div 3) < unat dlen"
  shows "esp_base64_encode src dlen = Some (of_nat (length (enc_loop src)), enc_loop src @ [0])"
proof -
  define l where "l = length src"
  have u: "unat (of_nat l :: u32) = l" using assms(2) by (intro unat_of_nat_small) (simp add: l_def)
  have l0: "0 < l" "l < 2 ^ 29" using assms(1,2) by (auto simp: l_def)
  have z: "(of_nat l :: u32) \<noteq> 0" using u l0 by (metis unat_0 less_irrefl)
  have m3: "(of_nat l :: u32) mod 3 \<noteq> 0 \<longleftrightarrow> l mod 3 \<noteq> 0" by (simp add: word_unat_eq_iff unat_mod_distrib u)
  have d3: "unat ((of_nat l :: u32) div 3) = l div 3" by (simp add: unat_div_distrib u)
  define q where "q = (of_nat l :: u32) div 3 + (if (of_nat l :: u32) mod 3 \<noteq> 0 then 1 else 0)"
  have "l div 3 + (if l mod 3 \<noteq> 0 then 1 else 0) = (l + 2) div 3" by (cases "l mod 3 = 0"; presburger)
  moreover have "unat q = l div 3 + (if l mod 3 \<noteq> 0 then 1 else 0)"
    unfolding q_def using l0 by (subst unat_add_no_wrap) (auto simp: d3 m3)
  ultimately have uq: "unat q = (l + 2) div 3" by simp
  moreover have "(l + 2) div 3 < 2 ^ 28" using l0 by simp
  ultimately have "unat (4 * q + 1) = 4 * ((l + 2) div 3) + 1" by (simp add: unat_word_ariths)
  then have "\<not> dlen < 4 * q + 1" using assms(3) by (simp add: word_less_nat_alt l_def)
  moreover have "dlen \<noteq> 0" using assms(3) by auto
  ultimately show ?thesis using z unfolding esp_base64_encode_def l_def [symmetric] Let_def q_def [symmetric] by simp
qed

text \<open>C39: What the encoder writes, the decoder turns back into the source; the encoder needs four characters for three bytes, rounded up, and the closing
  zero, the decoder no more than the length of the source. Both return the number of bytes they wrote, the closing zero not counted, where the header
  file says that 0 means success.\<close>

theorem base64_roundtrip:
  assumes "src \<noteq> []" and "length src < 2 ^ 29" and "4 * ((length src + 2) div 3) < unat dlen" and "length src \<le> unat dlen'"
  shows "\<exists>txt. esp_base64_encode src dlen = Some (of_nat (length txt), txt @ [0]) \<and> length txt = 4 * ((length src + 2) div 3)
    \<and> esp_base64_decode txt dlen' = Some (of_nat (length src), src)"
proof -
  define l where "l = length src"
  have l: "0 < l" "l < 2 ^ 29" "l \<le> unat dlen'" using assms by (auto simp: l_def)
  let ?txt = "enc_loop src"
  have len: "length ?txt = 4 * ((l + 2) div 3)" by (simp add: enc_length l_def)
  have lt: "length ?txt < 2 ^ 32" "length ?txt \<noteq> 0" using len l by auto
  define n :: u32 where "n = of_nat (length ?txt)"
  define j :: u32 where "j = of_nat (pad_len src)"
  have un: "unat n = length ?txt" unfolding n_def using lt(1) by (intro unat_of_nat_small) simp
  have n0: "n \<noteq> 0" using un lt(2) by auto
  have uj: "unat j = (3 - l mod 3) mod 3" unfolding j_def l_def pad_len_def by (rule unat_of_nat_small) simp
  have pad: "(6 * (4 * ((l + 2) div 3)) + 7) div 8 - (3 - l mod 3) mod 3 = l" "(3 - l mod 3) mod 3 \<le> (6 * (4 * ((l + 2) div 3)) + 7) div 8"
  proof -
    define k where "k = (l + 2) div 3"
    have "(6 * (4 * k) + 7) div 8 = 3 * k" by simp
    moreover have "3 * k - (3 - l mod 3) mod 3 = l" "(3 - l mod 3) mod 3 \<le> 3 * k"
    proof -
      consider "l mod 3 = 0" | "l mod 3 = 1" | "l mod 3 = 2" by linarith
      then show "3 * k - (3 - l mod 3) mod 3 = l" "(3 - l mod 3) mod 3 \<le> 3 * k" unfolding k_def by (cases; simp; presburger)+
    qed
    ultimately show "(6 * (4 * ((l + 2) div 3)) + 7) div 8 - (3 - l mod 3) mod 3 = l" "(3 - l mod 3) mod 3 \<le> (6 * (4 * ((l + 2) div 3)) + 7) div 8"
      by (simp_all add: k_def)
  qed
  have "unat (6 * drop_bit 3 n + drop_bit 3 (6 * (n AND 7) + 7) - j) = l"
    using room_unat [of j n] pad unfolding un uj len by simp
  then have "\<not> dlen' < 6 * drop_bit 3 n + drop_bit 3 (6 * (n AND 7) + 7) - j" using l(3) by (simp add: not_less word_le_nat_alt)
  moreover have "dlen' \<noteq> 0" using l by auto
  moreover have "scan ?txt 0 0 = Inr (n, j)" unfolding scan_enc n_def j_def by simp
  ultimately have "esp_base64_decode ?txt dlen' = Some (of_nat l, src)"
    unfolding esp_base64_decode_def n_def [symmetric] dec_enc Let_def using n0 by (simp add: l_def)
  then show ?thesis using encode_ok [OF assms(1-3)] len unfolding l_def by blast
qed

lemma base64_roundtrip_witness:
  "\<exists>txt. esp_base64_encode [0x4D, 0x61] 8 = Some (of_nat (length txt), txt @ [0]) \<and> esp_base64_decode txt 2 = Some (2, [0x4D, 0x61])"
  using base64_roundtrip [of "[0x4D, 0x61]" 8 2] by auto

lemma base64_decode_in_bounds_witness: "\<exists>r out. esp_base64_decode [0x3D] 1 = Some (r, out) \<and> length out \<le> unat (1 :: u32)"
proof -
  have "scan [0x3D] 0 0 = Inr (1, 1)" by (simp add: Let_def dec_pad)
  then have "esp_base64_decode [0x3D] 1 = Some (0, [])" by (simp add: esp_base64_decode_def Let_def dec_pad)
  then show ?thesis using base64_decode_in_bounds [of "[0x3D]" 1 0 "[]"] by simp
qed

end
