(* ===== verification/Ring_Buffer.thy ===== *)
theory Ring_Buffer
  imports Prelude "HOL-Library.Monad_Syntax"
begin

text \<open>
  Ring buffers, \<^verbatim>\<open>components/esp_ringbuf/ringbuf.c\<close>: the three kinds of buffer, with the headers of the
  items in the buffer's memory. Pointers are addresses. The function pointers that the set-up stores are those of the kind of the
  buffer, so a call through one is a case distinction on the kind. \<^verbatim>\<open>configASSERT\<close> is empty in this SDK
  (\<^verbatim>\<open>FreeRTOS.h\<close>): the checks, and what they would evaluate, are not there. A semaphore is
  binary: given or not. The two loops that block are told by their environment what a wait ended with.
\<close>

section \<open>Structures\<close>

datatype ringbuf_type_t = RINGBUF_TYPE_NOSPLIT | RINGBUF_TYPE_ALLOWSPLIT | RINGBUF_TYPE_BYTEBUF

definition rbALIGN_SIZE :: "u32 \<Rightarrow> u32" where "rbALIGN_SIZE n = (n + 3) AND NOT 3"
definition rbALLOW_SPLIT_FLAG :: u32 where "rbALLOW_SPLIT_FLAG = 1"
definition rbBYTE_BUFFER_FLAG :: u32 where "rbBYTE_BUFFER_FLAG = 2"
definition rbBUFFER_FULL_FLAG :: u32 where "rbBUFFER_FULL_FLAG = 4"
definition rbITEM_FREE_FLAG :: u32 where "rbITEM_FREE_FLAG = 1"
definition rbITEM_DUMMY_DATA_FLAG :: u32 where "rbITEM_DUMMY_DATA_FLAG = 2"
definition rbITEM_SPLIT_FLAG :: u32 where "rbITEM_SPLIT_FLAG = 4"
definition rbHEADER_SIZE :: u32 where "rbHEADER_SIZE = 8"

record Ringbuffer_t =
  rb_mem :: mem
  xSize :: u32
  uxRingbufferFlags :: u32
  xMaxItemSize :: u32
  xKind :: ringbuf_type_t
  pucWrite :: u32
  pucRead :: u32
  pucFree :: u32
  pucHead :: u32
  pucTail :: u32
  xItemsWaiting :: "32 word"
  xFreeSpaceSemaphore :: bool
  xItemsBufferedSemaphore :: bool

definition xItemLen :: "mem \<Rightarrow> u32 \<Rightarrow> u32" where "xItemLen m p = ld32 m (unat p)"
definition uxItemFlags :: "mem \<Rightarrow> u32 \<Rightarrow> u32" where "uxItemFlags m p = ld32 m (unat (p + 4))"
definition set_xItemLen :: "u32 \<Rightarrow> u32 \<Rightarrow> mem \<Rightarrow> mem" where "set_xItemLen p v m = st32 m (unat p) v"
definition set_uxItemFlags :: "u32 \<Rightarrow> u32 \<Rightarrow> mem \<Rightarrow> mem" where "set_uxItemFlags p v m = st32 m (unat (p + 4)) v"

abbreviation flag :: "Ringbuffer_t \<Rightarrow> u32 \<Rightarrow> bool" where "flag rb f \<equiv> uxRingbufferFlags rb AND f \<noteq> 0"

section \<open>Free space\<close>

definition prvGetFreeSize :: "Ringbuffer_t \<Rightarrow> u32" where
  "prvGetFreeSize rb =
    (if flag rb rbBUFFER_FULL_FLAG then 0
     else let xFreeSize = pucFree rb - pucWrite rb in
       if sint xFreeSize \<le> 0 then xFreeSize + xSize rb else xFreeSize)"

definition prvCheckItemFitsDefault :: "Ringbuffer_t \<Rightarrow> u32 \<Rightarrow> bool" where
  "prvCheckItemFitsDefault rb n =
    (let total = rbALIGN_SIZE n + rbHEADER_SIZE in
     if pucWrite rb = pucFree rb then \<not> flag rb rbBUFFER_FULL_FLAG
     else if pucFree rb > pucWrite rb then total \<le> pucFree rb - pucWrite rb
     else if total \<le> pucTail rb - pucWrite rb then True
     else if flag rb rbALLOW_SPLIT_FLAG then total + rbHEADER_SIZE \<le> xSize rb - (pucWrite rb - pucFree rb)
     else total \<le> pucFree rb - pucHead rb)"

definition prvCheckItemFitsByteBuffer :: "Ringbuffer_t \<Rightarrow> u32 \<Rightarrow> bool" where
  "prvCheckItemFitsByteBuffer rb n =
    (if pucWrite rb = pucFree rb then \<not> flag rb rbBUFFER_FULL_FLAG
     else if pucFree rb > pucWrite rb then n \<le> pucFree rb - pucWrite rb
     else n \<le> xSize rb - (pucWrite rb - pucFree rb))"

definition prvGetCurMaxSizeNoSplit :: "Ringbuffer_t \<Rightarrow> u32" where
  "prvGetCurMaxSizeNoSplit rb =
    (if flag rb rbBUFFER_FULL_FLAG then 0
     else
       let room = (if pucWrite rb < pucFree rb then pucFree rb - pucWrite rb
                   else let s1 = pucTail rb - pucWrite rb; s2 = pucFree rb - pucHead rb in if s1 > s2 then s1 else s2);
           xFreeSize = room - rbHEADER_SIZE in
       if xFreeSize > xMaxItemSize rb then xMaxItemSize rb else if sint xFreeSize < 0 then 0 else xFreeSize)"

definition prvGetCurMaxSizeAllowSplit :: "Ringbuffer_t \<Rightarrow> u32" where
  "prvGetCurMaxSizeAllowSplit rb =
    (if flag rb rbBUFFER_FULL_FLAG then 0
     else
       let xFreeSize =
         (if pucWrite rb = pucHead rb \<and> pucFree rb = pucHead rb then xSize rb - rbHEADER_SIZE
          else if pucWrite rb < pucFree rb then (pucFree rb - pucWrite rb) - rbHEADER_SIZE
          else (pucFree rb - pucHead rb) + (pucTail rb - pucWrite rb) - rbHEADER_SIZE * 2) in
       if xFreeSize > xMaxItemSize rb then xMaxItemSize rb else if sint xFreeSize < 0 then 0 else xFreeSize)"

definition prvGetCurMaxSizeByteBuf :: "Ringbuffer_t \<Rightarrow> u32" where
  "prvGetCurMaxSizeByteBuf rb =
    (if flag rb rbBUFFER_FULL_FLAG then 0
     else let xFreeSize = pucFree rb - pucWrite rb in
       if sint xFreeSize \<le> 0 then xFreeSize + xSize rb else xFreeSize)"

section \<open>Copying in\<close>

definition wrap_write :: "Ringbuffer_t \<Rightarrow> Ringbuffer_t" where
  "wrap_write rb = (if pucTail rb - pucWrite rb < rbHEADER_SIZE then rb\<lparr>pucWrite := pucHead rb\<rparr> else rb)"

definition mark_full :: "Ringbuffer_t \<Rightarrow> Ringbuffer_t" where
  "mark_full rb = (if pucWrite rb = pucFree rb then rb\<lparr>uxRingbufferFlags := uxRingbufferFlags rb OR rbBUFFER_FULL_FLAG\<rparr> else rb)"

text \<open>Header and data of an item, or of its second part; \<open>aligned\<close> is the room the data takes.\<close>

definition put_item :: "u8 list \<Rightarrow> u32 \<Rightarrow> Ringbuffer_t \<Rightarrow> Ringbuffer_t" where
  "put_item item aligned rb =
    (let p = pucWrite rb;
         m = set_uxItemFlags p 0 (set_xItemLen p (of_nat (length item)) (rb_mem rb));
         w = p + rbHEADER_SIZE in
     rb\<lparr>rb_mem := mem_write m (unat w) item, xItemsWaiting := xItemsWaiting rb + 1, pucWrite := w + aligned\<rparr>)"

definition prvCopyItemNoSplit :: "Ringbuffer_t \<Rightarrow> u8 list \<Rightarrow> Ringbuffer_t" where
  "prvCopyItemNoSplit rb item =
    (let aligned = rbALIGN_SIZE (of_nat (length item)); rem = pucTail rb - pucWrite rb;
         rb1 = (if rem < aligned + rbHEADER_SIZE then
                  rb\<lparr>rb_mem := set_xItemLen (pucWrite rb) 0 (set_uxItemFlags (pucWrite rb) rbITEM_DUMMY_DATA_FLAG (rb_mem rb)),
                     pucWrite := pucHead rb\<rparr>
                else rb) in
     mark_full (wrap_write (put_item item aligned rb1)))"

definition prvCopyItemAllowSplit :: "Ringbuffer_t \<Rightarrow> u8 list \<Rightarrow> Ringbuffer_t" where
  "prvCopyItemAllowSplit rb item =
    (let aligned = rbALIGN_SIZE (of_nat (length item)); rem = pucTail rb - pucWrite rb in
     if rem < aligned + rbHEADER_SIZE then
       let p = pucWrite rb; rem' = rem - rbHEADER_SIZE; w = p + rbHEADER_SIZE;
           m1 = set_xItemLen p rem' (set_uxItemFlags p 0 (rb_mem rb)) in
       if rem' > 0 then
         let m2 = mem_write m1 (unat w) (take (unat rem') item);
             m3 = set_uxItemFlags p (uxItemFlags m2 p OR rbITEM_SPLIT_FLAG) m2;
             rb1 = rb\<lparr>rb_mem := m3, xItemsWaiting := xItemsWaiting rb + 1, pucWrite := pucHead rb\<rparr> in
         mark_full (wrap_write (put_item (drop (unat rem') item) (aligned - rem') rb1))
       else
         let rb1 = rb\<lparr>rb_mem := set_uxItemFlags p (uxItemFlags m1 p OR rbITEM_DUMMY_DATA_FLAG) m1, pucWrite := pucHead rb\<rparr> in
         mark_full (wrap_write (put_item item aligned rb1))
     else mark_full (wrap_write (put_item item aligned rb)))"

definition prvCopyItemByteBuf :: "Ringbuffer_t \<Rightarrow> u8 list \<Rightarrow> Ringbuffer_t" where
  "prvCopyItemByteBuf rb item =
    (let rem = pucTail rb - pucWrite rb;
         (rb1, rest) =
           (if rem < of_nat (length item) then
              (rb\<lparr>rb_mem := mem_write (rb_mem rb) (unat (pucWrite rb)) (take (unat rem) item),
                  xItemsWaiting := xItemsWaiting rb + rem, pucWrite := pucHead rb\<rparr>, drop (unat rem) item)
            else (rb, item));
         rb2 = rb1\<lparr>rb_mem := mem_write (rb_mem rb1) (unat (pucWrite rb1)) rest,
                   xItemsWaiting := xItemsWaiting rb1 + of_nat (length rest), pucWrite := pucWrite rb1 + of_nat (length rest)\<rparr>;
         rb3 = (if pucWrite rb2 = pucTail rb2 then rb2\<lparr>pucWrite := pucHead rb2\<rparr> else rb2) in
     mark_full rb3)"

section \<open>Taking out\<close>

definition prvCheckItemAvail :: "Ringbuffer_t \<Rightarrow> bool" where
  "prvCheckItemAvail rb =
    (if flag rb rbBYTE_BUFFER_FLAG \<and> pucRead rb \<noteq> pucFree rb then False
     else sint (xItemsWaiting rb) > 0 \<and> (pucRead rb \<noteq> pucWrite rb \<or> flag rb rbBUFFER_FULL_FLAG))"

text \<open>Address, length and whether there is a second part.\<close>

definition prvGetItemDefault :: "Ringbuffer_t \<Rightarrow> Ringbuffer_t \<times> u32 \<times> u32 \<times> bool" where
  "prvGetItemDefault rb =
    (let rd = (if uxItemFlags (rb_mem rb) (pucRead rb) AND rbITEM_DUMMY_DATA_FLAG \<noteq> 0 then pucHead rb else pucRead rb);
         len = xItemLen (rb_mem rb) rd;
         rd' = rd + (rbHEADER_SIZE + rbALIGN_SIZE len);
         rd'' = (if pucTail rb - rd' < rbHEADER_SIZE then pucHead rb else rd') in
     (rb\<lparr>xItemsWaiting := xItemsWaiting rb - 1, pucRead := rd''\<rparr>, rd + rbHEADER_SIZE, len,
      uxItemFlags (rb_mem rb) rd AND rbITEM_SPLIT_FLAG \<noteq> 0))"

definition prvGetItemByteBuf :: "Ringbuffer_t \<Rightarrow> u32 \<Rightarrow> Ringbuffer_t \<times> u32 \<times> u32" where
  "prvGetItemByteBuf rb xMaxSize =
    (let ret = pucRead rb in
     if pucRead rb > pucWrite rb \<or> flag rb rbBUFFER_FULL_FLAG then
       let n = pucTail rb - pucRead rb in
       if xMaxSize = 0 \<or> n \<le> xMaxSize then (rb\<lparr>xItemsWaiting := xItemsWaiting rb - n, pucRead := pucHead rb\<rparr>, ret, n)
       else (rb\<lparr>xItemsWaiting := xItemsWaiting rb - xMaxSize, pucRead := pucRead rb + xMaxSize\<rparr>, ret, xMaxSize)
     else
       let n = pucWrite rb - pucRead rb in
       if xMaxSize = 0 \<or> n \<le> xMaxSize then (rb\<lparr>xItemsWaiting := xItemsWaiting rb - n, pucRead := pucWrite rb\<rparr>, ret, n)
       else (rb\<lparr>xItemsWaiting := xItemsWaiting rb - xMaxSize, pucRead := pucRead rb + xMaxSize\<rparr>, ret, xMaxSize))"

section \<open>Giving back\<close>

partial_function (option) advance_free :: "Ringbuffer_t \<Rightarrow> Ringbuffer_t option" where [code]:
  "advance_free rb =
    (let p = pucFree rb; fl = uxItemFlags (rb_mem rb) p in
     if (fl AND rbITEM_FREE_FLAG \<noteq> 0 \<or> fl AND rbITEM_DUMMY_DATA_FLAG \<noteq> 0) \<and> pucFree rb \<noteq> pucRead rb then
       let rb1 = (if fl AND rbITEM_DUMMY_DATA_FLAG \<noteq> 0
                  then rb\<lparr>rb_mem := set_uxItemFlags p (fl OR rbITEM_FREE_FLAG) (rb_mem rb), pucFree := pucHead rb\<rparr>
                  else rb\<lparr>pucFree := p + (rbALIGN_SIZE (xItemLen (rb_mem rb) p) + rbHEADER_SIZE)\<rparr>);
           rb2 = (if pucTail rb1 - pucFree rb1 < rbHEADER_SIZE then rb1\<lparr>pucFree := pucHead rb1\<rparr> else rb1) in
       advance_free rb2
     else Some rb)"

definition prvReturnItemDefault :: "Ringbuffer_t \<Rightarrow> u32 \<Rightarrow> Ringbuffer_t option" where
  "prvReturnItemDefault rb item =
    (let p = item - rbHEADER_SIZE;
         m1 = set_uxItemFlags p (uxItemFlags (rb_mem rb) p AND NOT rbITEM_SPLIT_FLAG) (rb_mem rb);
         m2 = set_uxItemFlags p (uxItemFlags m1 p OR rbITEM_FREE_FLAG) m1 in
     do {
       rb1 \<leftarrow> advance_free (rb\<lparr>rb_mem := m2\<rparr>);
       Some (if flag rb1 rbBUFFER_FULL_FLAG then
               if pucFree rb1 \<noteq> pucWrite rb1 then rb1\<lparr>uxRingbufferFlags := uxRingbufferFlags rb1 AND NOT rbBUFFER_FULL_FLAG\<rparr>
               else if pucFree rb1 = pucWrite rb1 \<and> pucFree rb1 = pucRead rb1
                 then rb1\<lparr>uxRingbufferFlags := uxRingbufferFlags rb1 AND NOT rbBUFFER_FULL_FLAG\<rparr>
               else rb1
             else rb1)
     })"

definition prvReturnItemByteBuf :: "Ringbuffer_t \<Rightarrow> u32 \<Rightarrow> Ringbuffer_t" where
  "prvReturnItemByteBuf rb item =
    (let rb1 = rb\<lparr>pucFree := pucRead rb\<rparr> in
     if flag rb1 rbBUFFER_FULL_FLAG then rb1\<lparr>uxRingbufferFlags := uxRingbufferFlags rb1 AND NOT rbBUFFER_FULL_FLAG\<rparr> else rb1)"

section \<open>The public functions\<close>

definition xCheckItemFits :: "Ringbuffer_t \<Rightarrow> u32 \<Rightarrow> bool" where
  "xCheckItemFits rb n = (if xKind rb = RINGBUF_TYPE_BYTEBUF then prvCheckItemFitsByteBuffer rb n else prvCheckItemFitsDefault rb n)"

definition vCopyItem :: "Ringbuffer_t \<Rightarrow> u8 list \<Rightarrow> Ringbuffer_t" where
  "vCopyItem rb item =
    (case xKind rb of RINGBUF_TYPE_NOSPLIT \<Rightarrow> prvCopyItemNoSplit rb item
     | RINGBUF_TYPE_ALLOWSPLIT \<Rightarrow> prvCopyItemAllowSplit rb item
     | RINGBUF_TYPE_BYTEBUF \<Rightarrow> prvCopyItemByteBuf rb item)"

definition pvGetItem :: "Ringbuffer_t \<Rightarrow> u32 \<Rightarrow> Ringbuffer_t \<times> u32 \<times> u32 \<times> bool" where
  "pvGetItem rb xMaxSize =
    (if xKind rb = RINGBUF_TYPE_BYTEBUF then let (rb1, p, n) = prvGetItemByteBuf rb xMaxSize in (rb1, p, n, False)
     else prvGetItemDefault rb)"

definition vReturnItem :: "Ringbuffer_t \<Rightarrow> u32 \<Rightarrow> Ringbuffer_t option" where
  "vReturnItem rb item = (if xKind rb = RINGBUF_TYPE_BYTEBUF then Some (prvReturnItemByteBuf rb item) else prvReturnItemDefault rb item)"

definition xGetCurMaxSize :: "Ringbuffer_t \<Rightarrow> u32" where
  "xGetCurMaxSize rb =
    (case xKind rb of RINGBUF_TYPE_NOSPLIT \<Rightarrow> prvGetCurMaxSizeNoSplit rb
     | RINGBUF_TYPE_ALLOWSPLIT \<Rightarrow> prvGetCurMaxSizeAllowSplit rb
     | RINGBUF_TYPE_BYTEBUF \<Rightarrow> prvGetCurMaxSizeByteBuf rb)"

text \<open>What the allocations give is an argument: whether there is room for the structure, the address of the storage (0 when there is none)
  and whether the semaphores can be made. \<open>None\<close> is \<^verbatim>\<open>NULL\<close>.\<close>

definition xRingbufferCreate :: "bool \<Rightarrow> u32 \<Rightarrow> bool \<Rightarrow> mem \<Rightarrow> u32 \<Rightarrow> ringbuf_type_t \<Rightarrow> Ringbuffer_t option" where
  "xRingbufferCreate struct_ok head sems_ok m xBufferSize kind =
    (if \<not> struct_ok then None
     else
       let sz = (if kind \<noteq> RINGBUF_TYPE_BYTEBUF then rbALIGN_SIZE xBufferSize else xBufferSize) in
       if head = 0 then None
       else
         let rb = \<lparr>rb_mem = m, xSize = sz,
                    uxRingbufferFlags = 0 OR (case kind of RINGBUF_TYPE_NOSPLIT \<Rightarrow> 0
                      | RINGBUF_TYPE_ALLOWSPLIT \<Rightarrow> rbALLOW_SPLIT_FLAG | RINGBUF_TYPE_BYTEBUF \<Rightarrow> rbBYTE_BUFFER_FLAG),
                    xMaxItemSize = (case kind of RINGBUF_TYPE_NOSPLIT \<Rightarrow> rbALIGN_SIZE (sz div 2) - rbHEADER_SIZE
                      | RINGBUF_TYPE_ALLOWSPLIT \<Rightarrow> sz - rbHEADER_SIZE * 2 | RINGBUF_TYPE_BYTEBUF \<Rightarrow> sz),
                    xKind = kind, pucWrite = head, pucRead = head, pucFree = head, pucHead = head, pucTail = head + sz,
                    xItemsWaiting = 0, xFreeSpaceSemaphore = False, xItemsBufferedSemaphore = False\<rparr> in
         if \<not> sems_ok then None else Some (rb\<lparr>xFreeSpaceSemaphore := True\<rparr>))"

definition xRingbufferCreateNoSplit :: "bool \<Rightarrow> u32 \<Rightarrow> bool \<Rightarrow> mem \<Rightarrow> u32 \<Rightarrow> u32 \<Rightarrow> Ringbuffer_t option" where
  "xRingbufferCreateNoSplit struct_ok head sems_ok m xItemSize xItemNum =
    xRingbufferCreate struct_ok head sems_ok m ((rbALIGN_SIZE xItemSize + rbHEADER_SIZE) * xItemNum) RINGBUF_TYPE_NOSPLIT"

text \<open>The critical section of the two sending functions: whether the item was copied and whether there is still room.\<close>

definition try_send :: "Ringbuffer_t \<Rightarrow> u8 list \<Rightarrow> Ringbuffer_t \<times> bool \<times> bool" where
  "try_send rb item =
    (if xCheckItemFits rb (of_nat (length item)) then let rb1 = vCopyItem rb item in (rb1, True, prvGetFreeSize rb1 > 0)
     else (rb, False, False))"

definition give_after_send :: "bool \<Rightarrow> bool \<Rightarrow> Ringbuffer_t \<Rightarrow> Ringbuffer_t" where
  "give_after_send ok room rb =
    (let rb1 = (if ok then rb\<lparr>xItemsBufferedSemaphore := True\<rparr> else rb) in
     if room then rb1\<lparr>xFreeSpaceSemaphore := True\<rparr> else rb1)"

definition xRingbufferSendFromISR :: "Ringbuffer_t \<Rightarrow> u8 list \<Rightarrow> Ringbuffer_t \<times> bool" where
  "xRingbufferSendFromISR rb item =
    (if of_nat (length item) > xMaxItemSize rb then (rb, False)
     else if flag rb rbBYTE_BUFFER_FLAG \<and> (of_nat (length item) :: u32) = 0 then (rb, True)
     else let (rb1, ok, room) = try_send rb item in (give_after_send ok room rb1, ok))"

text \<open>A wait on a semaphore is a function of the number of the attempt, the ticks left and the buffer when the wait starts; it gives the
  buffer when the wait ends and whether the semaphore was taken. \<open>clock k\<close> is the tick count the k-th time it is
  read.\<close>

type_synonym waiting = "nat \<Rightarrow> u32 \<Rightarrow> Ringbuffer_t \<Rightarrow> Ringbuffer_t \<times> bool"

definition portMAX_DELAY :: u32 where "portMAX_DELAY = 0xffffffff"

partial_function (option) send_loop :: "waiting \<Rightarrow> (nat \<Rightarrow> u32) \<Rightarrow> u32 \<Rightarrow> u8 list \<Rightarrow> nat \<Rightarrow> u32 \<Rightarrow> Ringbuffer_t
    \<Rightarrow> (Ringbuffer_t \<times> bool \<times> bool) option" where [code]:
  "send_loop wait clock xTicksToWait item k remaining rb =
    (if remaining \<le> xTicksToWait then
       (case wait k remaining rb of (rb1, got) \<Rightarrow>
          if \<not> got then Some (rb1, False, False)
          else
            (case try_send rb1 item of (rb2, ok, room) \<Rightarrow>
               if ok then Some (rb2, True, room)
               else send_loop wait clock xTicksToWait item (k + 1)
                      (if xTicksToWait \<noteq> portMAX_DELAY then clock 0 + xTicksToWait - clock (k + 1) else remaining) rb2))
     else Some (rb, False, False))"

definition xRingbufferSend :: "waiting \<Rightarrow> (nat \<Rightarrow> u32) \<Rightarrow> Ringbuffer_t \<Rightarrow> u8 list \<Rightarrow> u32 \<Rightarrow> (Ringbuffer_t \<times> bool) option" where
  "xRingbufferSend wait clock rb item xTicksToWait =
    (if of_nat (length item) > xMaxItemSize rb then Some (rb, False)
     else if flag rb rbBYTE_BUFFER_FLAG \<and> (of_nat (length item) :: u32) = 0 then Some (rb, True)
     else do {
       (rb1, ok, room) \<leftarrow> send_loop wait clock xTicksToWait item 0 xTicksToWait rb;
       Some (give_after_send ok room rb1, ok)
     })"

text \<open>What a receive hands out: address and length of the first part, and of the second when it was asked for and there
  is one.\<close>

type_synonym received = "(u32 \<times> u32) \<times> (u32 \<times> u32) option"

definition take_items :: "Ringbuffer_t \<Rightarrow> bool \<Rightarrow> u32 \<Rightarrow> Ringbuffer_t \<times> received" where
  "take_items rb both xMaxSize =
    (let (rb1, p, n, split) = pvGetItem rb (if flag rb rbBYTE_BUFFER_FLAG then xMaxSize else 0) in
     if flag rb1 rbALLOW_SPLIT_FLAG \<and> both \<and> split then let (rb2, p2, n2, _) = pvGetItem rb1 0 in (rb2, (p, n), Some (p2, n2))
     else (rb1, (p, n), None))"

definition give_after_receive :: "Ringbuffer_t \<Rightarrow> Ringbuffer_t" where
  "give_after_receive rb = (if sint (xItemsWaiting rb) > 0 then rb\<lparr>xItemsBufferedSemaphore := True\<rparr> else rb)"

definition prvReceiveGenericFromISR :: "Ringbuffer_t \<Rightarrow> bool \<Rightarrow> u32 \<Rightarrow> Ringbuffer_t \<times> received option" where
  "prvReceiveGenericFromISR rb both xMaxSize =
    (if prvCheckItemAvail rb then let (rb1, r) = take_items rb both xMaxSize in (give_after_receive rb1, Some r) else (rb, None))"

partial_function (option) receive_loop :: "waiting \<Rightarrow> (nat \<Rightarrow> u32) \<Rightarrow> u32 \<Rightarrow> bool \<Rightarrow> u32 \<Rightarrow> nat \<Rightarrow> u32 \<Rightarrow> Ringbuffer_t
    \<Rightarrow> (Ringbuffer_t \<times> received option) option" where [code]:
  "receive_loop wait clock xTicksToWait both xMaxSize k remaining rb =
    (if remaining \<le> xTicksToWait then
       (case wait k remaining rb of (rb1, got) \<Rightarrow>
          if \<not> got then Some (rb1, None)
          else if prvCheckItemAvail rb1
            then Some (case take_items rb1 both xMaxSize of (rb2, r) \<Rightarrow> (give_after_receive rb2, Some r))
          else receive_loop wait clock xTicksToWait both xMaxSize (k + 1)
                 (if xTicksToWait \<noteq> portMAX_DELAY then clock 0 + xTicksToWait - clock (k + 1) else remaining) rb1)
     else Some (rb, None))"

definition prvReceiveGeneric :: "waiting \<Rightarrow> (nat \<Rightarrow> u32) \<Rightarrow> Ringbuffer_t \<Rightarrow> bool \<Rightarrow> u32 \<Rightarrow> u32
    \<Rightarrow> (Ringbuffer_t \<times> received option) option" where
  "prvReceiveGeneric wait clock rb both xMaxSize xTicksToWait = receive_loop wait clock xTicksToWait both xMaxSize 0 xTicksToWait rb"

definition xRingbufferReceive :: "waiting \<Rightarrow> (nat \<Rightarrow> u32) \<Rightarrow> Ringbuffer_t \<Rightarrow> u32 \<Rightarrow> (Ringbuffer_t \<times> (u32 \<times> u32) option) option" where
  "xRingbufferReceive wait clock rb xTicksToWait =
    map_option (\<lambda>(rb1, r). (rb1, map_option fst r)) (prvReceiveGeneric wait clock rb False 0 xTicksToWait)"

definition xRingbufferReceiveFromISR :: "Ringbuffer_t \<Rightarrow> Ringbuffer_t \<times> (u32 \<times> u32) option" where
  "xRingbufferReceiveFromISR rb = (let (rb1, r) = prvReceiveGenericFromISR rb False 0 in (rb1, map_option fst r))"

definition xRingbufferReceiveSplit :: "waiting \<Rightarrow> (nat \<Rightarrow> u32) \<Rightarrow> Ringbuffer_t \<Rightarrow> u32 \<Rightarrow> (Ringbuffer_t \<times> received option) option" where
  "xRingbufferReceiveSplit wait clock rb xTicksToWait = prvReceiveGeneric wait clock rb True 0 xTicksToWait"

definition xRingbufferReceiveSplitFromISR :: "Ringbuffer_t \<Rightarrow> Ringbuffer_t \<times> received option" where
  "xRingbufferReceiveSplitFromISR rb = prvReceiveGenericFromISR rb True 0"

definition xRingbufferReceiveUpTo :: "waiting \<Rightarrow> (nat \<Rightarrow> u32) \<Rightarrow> Ringbuffer_t \<Rightarrow> u32 \<Rightarrow> u32
    \<Rightarrow> (Ringbuffer_t \<times> (u32 \<times> u32) option) option" where
  "xRingbufferReceiveUpTo wait clock rb xTicksToWait xMaxSize =
    (if xMaxSize = 0 then Some (rb, None)
     else map_option (\<lambda>(rb1, r). (rb1, map_option fst r)) (prvReceiveGeneric wait clock rb False xMaxSize xTicksToWait))"

definition xRingbufferReceiveUpToFromISR :: "Ringbuffer_t \<Rightarrow> u32 \<Rightarrow> Ringbuffer_t \<times> (u32 \<times> u32) option" where
  "xRingbufferReceiveUpToFromISR rb xMaxSize =
    (if xMaxSize = 0 then (rb, None)
     else let (rb1, r) = prvReceiveGenericFromISR rb False xMaxSize in (rb1, map_option fst r))"

definition vRingbufferReturnItem :: "Ringbuffer_t \<Rightarrow> u32 \<Rightarrow> Ringbuffer_t option" where
  "vRingbufferReturnItem rb item = do { rb1 \<leftarrow> vReturnItem rb item; Some (rb1\<lparr>xFreeSpaceSemaphore := True\<rparr>) }"

definition vRingbufferReturnItemFromISR :: "Ringbuffer_t \<Rightarrow> u32 \<Rightarrow> Ringbuffer_t option" where
  "vRingbufferReturnItemFromISR rb item = do { rb1 \<leftarrow> vReturnItem rb item; Some (rb1\<lparr>xFreeSpaceSemaphore := True\<rparr>) }"

definition xRingbufferGetMaxItemSize :: "Ringbuffer_t \<Rightarrow> u32" where "xRingbufferGetMaxItemSize rb = xMaxItemSize rb"
definition xRingbufferGetCurFreeSize :: "Ringbuffer_t \<Rightarrow> u32" where "xRingbufferGetCurFreeSize rb = xGetCurMaxSize rb"

text \<open>Queue sets are the kernel's: what \<^verbatim>\<open>xQueueAddToSet\<close> answers for a semaphore that is not given is an argument, for one that
  is given it is an error. The semaphore that is held meanwhile would be given back inside a
  \<^verbatim>\<open>configASSERT\<close>.\<close>

definition xRingbufferAddToQueueSetRead :: "bool \<Rightarrow> Ringbuffer_t \<Rightarrow> Ringbuffer_t \<times> bool" where
  "xRingbufferAddToQueueSetRead added rb = (rb\<lparr>xItemsBufferedSemaphore := False\<rparr>, added)"

definition xRingbufferRemoveFromQueueSetRead :: "bool \<Rightarrow> Ringbuffer_t \<Rightarrow> Ringbuffer_t \<times> bool" where
  "xRingbufferRemoveFromQueueSetRead removed rb = (rb\<lparr>xItemsBufferedSemaphore := False\<rparr>, removed)"

definition xRingbufferAddToQueueSetWrite :: "bool \<Rightarrow> Ringbuffer_t \<Rightarrow> Ringbuffer_t \<times> bool" where
  "xRingbufferAddToQueueSetWrite added rb = (rb\<lparr>xFreeSpaceSemaphore := False\<rparr>, added)"

definition xRingbufferRemoveFromQueueSetWrite :: "bool \<Rightarrow> Ringbuffer_t \<Rightarrow> Ringbuffer_t \<times> bool" where
  "xRingbufferRemoveFromQueueSetWrite removed rb = (rb\<lparr>xFreeSpaceSemaphore := False\<rparr>, removed)"

definition vRingbufferGetInfo :: "Ringbuffer_t \<Rightarrow> u32 \<times> u32 \<times> u32 \<times> u32" where
  "vRingbufferGetInfo rb = (pucFree rb - pucHead rb, pucRead rb - pucHead rb, pucWrite rb - pucHead rb, xItemsWaiting rb)"

definition xRingbufferIsNextItemWrapped :: "Ringbuffer_t \<Rightarrow> bool" where
  "xRingbufferIsNextItemWrapped rb = (uxItemFlags (rb_mem rb) (pucRead rb) AND rbITEM_SPLIT_FLAG \<noteq> 0)"

section \<open>Byte buffers\<close>

text \<open>The bytes that are retrieved and not yet given back, then those that wait, lie from the free pointer on, around the end of
  the storage.\<close>

definition ring_at :: "Ringbuffer_t \<Rightarrow> nat \<Rightarrow> nat \<Rightarrow> nat" where
  "ring_at rb a i = unat (pucHead rb) + (a + i) mod unat (xSize rb)"

definition byte_ok :: "Ringbuffer_t \<Rightarrow> u8 list \<Rightarrow> u8 list \<Rightarrow> bool" where
  "byte_ok rb h q \<longleftrightarrow> xKind rb = RINGBUF_TYPE_BYTEBUF \<and> 0 < unat (xSize rb) \<and> unat (xSize rb) < 2 ^ 31
     \<and> unat (pucHead rb) + unat (xSize rb) < 2 ^ 32 \<and> unat (pucTail rb) = unat (pucHead rb) + unat (xSize rb) \<and> xMaxItemSize rb = xSize rb
     \<and> length (h @ q) \<le> unat (xSize rb) \<and> uxRingbufferFlags rb = (if length (h @ q) = unat (xSize rb) then 6 else 2)
     \<and> xItemsWaiting rb = of_nat (length q)
     \<and> (\<exists>f < unat (xSize rb). unat (pucFree rb) = ring_at rb f 0 \<and> unat (pucRead rb) = ring_at rb f (length h)
          \<and> unat (pucWrite rb) = ring_at rb f (length (h @ q)) \<and> (\<forall>i < length (h @ q). rb_mem rb (ring_at rb f i) = (h @ q) ! i))"

lemma byte_okI:
  assumes "xKind rb = RINGBUF_TYPE_BYTEBUF" and "unat (xSize rb) = S" and "0 < S" and "S < 2 ^ 31" and "unat (pucHead rb) = H" and "H + S < 2 ^ 32"
    and "unat (pucTail rb) = H + S" and "xMaxItemSize rb = xSize rb" and "length (h @ q) = u" and "u \<le> S"
    and "uxRingbufferFlags rb = (if u = S then 6 else 2)" and "xItemsWaiting rb = of_nat (length q)"
    and "f < S" and "unat (pucFree rb) = H + f" and "unat (pucRead rb) = H + (f + length h) mod S"
    and "unat (pucWrite rb) = H + (f + u) mod S" and "\<And>i. i < u \<Longrightarrow> rb_mem rb (H + (f + i) mod S) = (h @ q) ! i"
  shows "byte_ok rb h q"
  unfolding byte_ok_def ring_at_def using assms by (intro conjI exI [of _ f]) (simp_all del: length_append)

lemma ptr_facts:
  fixes p p' :: u32
  assumes "unat p = H + a" and "unat p' = H + b"
  shows "p = p' \<longleftrightarrow> a = b" and "p < p' \<longleftrightarrow> a < b" and "b \<le> a \<Longrightarrow> unat (p - p') = a - b"
  using assms by (auto simp: word_unat_eq_iff word_less_nat_alt unat_sub word_le_nat_alt)

lemma mod_step: "(a::nat) < S \<Longrightarrow> k \<le> S \<Longrightarrow> (a + k) mod S = (if a + k < S then a + k else a + k - S)"
  by (auto simp: mod_if)

lemma flags_2_6: "(2 :: u32) AND 4 = 0" "(6 :: u32) AND 4 \<noteq> 0" "(2 :: u32) AND 2 \<noteq> 0" "(6 :: u32) AND 2 \<noteq> 0" "(2 :: u32) AND 1 = 0"
    "(6 :: u32) AND 1 = 0" "(2 :: u32) OR 4 = 6" "(6 :: u32) OR 4 = 6" "(6 :: u32) AND NOT 4 = 2"
  by simp_all

definition copied :: "mem \<Rightarrow> mem \<Rightarrow> nat \<Rightarrow> nat \<Rightarrow> nat \<Rightarrow> u8 list \<Rightarrow> bool" where
  "copied m m' H S w bs \<longleftrightarrow> (\<forall>i < length bs. m' (H + (w + i) mod S) = bs ! i)
     \<and> (\<forall>i. length bs \<le> i \<and> i < S \<longrightarrow> m' (H + (w + i) mod S) = m (H + (w + i) mod S))"

lemma copied_write:
  assumes "w < S" and "length bs \<le> S"
  shows "w + length bs \<le> S \<Longrightarrow> copied m (mem_write m (H + w) bs) H S w bs"
    and "S < w + length bs \<Longrightarrow> copied m (mem_write (mem_write m (H + w) (take (S - w) bs)) H (drop (S - w) bs)) H S w bs"
  using assms by (auto simp: copied_def mod_step mem_write_def)

lemma copy_byte_buf:
  assumes ok: "xKind rb = RINGBUF_TYPE_BYTEBUF" "unat (pucTail rb) = unat (pucHead rb) + unat (xSize rb)"
      "unat (pucHead rb) + unat (xSize rb) < 2 ^ 32" "unat (xSize rb) < 2 ^ 31"
    and w: "unat (pucWrite rb) = unat (pucHead rb) + w" "w < unat (xSize rb)"
    and n: "bs \<noteq> []" "length bs \<le> unat (xSize rb)"
  shows "\<exists>m' w'. prvCopyItemByteBuf rb bs = mark_full (rb\<lparr>rb_mem := m', xItemsWaiting := xItemsWaiting rb + of_nat (length bs), pucWrite := w'\<rparr>)
    \<and> unat w' = unat (pucHead rb) + (w + length bs) mod unat (xSize rb)
    \<and> copied (rb_mem rb) m' (unat (pucHead rb)) (unat (xSize rb)) w bs"
proof -
  define H S n where "H = unat (pucHead rb)" and "S = unat (xSize rb)" and "n = length bs"
  note d = H_def [symmetric] S_def [symmetric] n_def [symmetric]
  have f: "H + S < 2 ^ 32" "S < 2 ^ 31" "w < S" "n \<le> S" "0 < n" using assms by (auto simp: H_def S_def n_def)
  have rem: "unat (pucTail rb - pucWrite rb) = S - w"
    using ptr_facts(3) [OF ok(2) w(1)] w(2) by (simp add: S_def)
  have un: "unat (of_nat n :: u32) = n" using f by (intro unat_of_nat_small) simp
  show ?thesis
  proof (cases "S - w < n")
    case True
    have lt: "pucTail rb - pucWrite rb < of_nat (length bs)" using True by (simp add: word_less_nat_alt rem un d)
    have len: "length (drop (S - w) bs) = w + n - S" using f by (simp add: d)
    have wn: "unat (pucHead rb + of_nat (w + n - S)) = H + (w + n - S)"
      using f unat_of_nat_small [of "w + n - S", where 'a = 32] by (subst unat_add_no_wrap) (simp_all add: d)
    have ne: "pucHead rb + of_nat (w + n - S) \<noteq> pucTail rb" using wn ok(2) f by (auto simp: d)
    have sum: "xItemsWaiting rb + (pucTail rb - pucWrite rb) + of_nat (w + n - S) = xItemsWaiting rb + of_nat n"
    proof -
      have "pucTail rb - pucWrite rb = of_nat (S - w)" by (simp flip: rem)
      moreover have "S - w + (w + n - S) = n" using True f by simp
      then have "of_nat (S - w) + of_nat (w + n - S) = (of_nat n :: u32)" by (metis of_nat_add)
      ultimately show ?thesis by (metis add.assoc)
    qed
    have "prvCopyItemByteBuf rb bs = mark_full (rb\<lparr>
        rb_mem := mem_write (mem_write (rb_mem rb) (H + w) (take (S - w) bs)) H (drop (S - w) bs),
        xItemsWaiting := xItemsWaiting rb + of_nat n, pucWrite := pucHead rb + of_nat (w + n - S)\<rparr>)"
      using lt ne by (simp add: prvCopyItemByteBuf_def Let_def rem len w(1) d del: length_drop of_nat_diff) (simp only: sum)
    moreover have "(w + n) mod S = w + n - S" using f True by (simp add: mod_step)
    ultimately show ?thesis using wn copied_write(2) [of w S bs "rb_mem rb" H] f True by (intro exI conjI) (assumption | simp add: d)+
  next
    case False
    have lt: "\<not> pucTail rb - pucWrite rb < of_nat (length bs)" using False by (simp add: word_less_nat_alt rem un d)
    have wn: "unat (pucWrite rb + of_nat n) = H + (w + n)"
      using f False w(1) unat_of_nat_small [of n, where 'a = 32] by (subst unat_add_no_wrap) (simp_all add: d)
    have e: "pucWrite rb + of_nat n = pucTail rb \<longleftrightarrow> w + n = S" using wn ok(2) by (simp add: word_unat_eq_iff d)
    have "prvCopyItemByteBuf rb bs = mark_full (rb\<lparr>rb_mem := mem_write (rb_mem rb) (H + w) bs,
        xItemsWaiting := xItemsWaiting rb + of_nat n, pucWrite := (if w + n = S then pucHead rb else pucWrite rb + of_nat n)\<rparr>)"
      using lt e by (simp add: prvCopyItemByteBuf_def Let_def w(1) d)
    moreover have "unat (if w + n = S then pucHead rb else pucWrite rb + of_nat n) = H + (w + n) mod S"
    proof -
      have "w + n \<le> S" using False f(3) by linarith
      then show ?thesis using f wn by (auto simp: mod_step d)
    qed
    ultimately show ?thesis using copied_write(1) [of w S bs "rb_mem rb" H] f False by (intro exI conjI) (assumption | simp add: d)+
  qed
qed

lemma byte_fits:
  assumes ok: "byte_ok rb h q" and n: "bs \<noteq> []" "length bs \<le> unat (xSize rb)"
  shows "prvCheckItemFitsByteBuffer rb (of_nat (length bs)) \<longleftrightarrow> length (h @ q) + length bs \<le> unat (xSize rb)"
proof -
  define H S u where "H = unat (pucHead rb)" and "S = unat (xSize rb)" and "u = length (h @ q)"
  note d = H_def [symmetric] S_def [symmetric] u_def [symmetric]
  obtain f where f: "f < S" "unat (pucFree rb) = H + f" "unat (pucWrite rb) = H + (f + u) mod S" "u \<le> S" "S < 2 ^ 31"
      and fl: "uxRingbufferFlags rb = (if u = S then 6 else 2)"
    using ok by (auto simp: byte_ok_def ring_at_def H_def S_def u_def)
  have un: "unat (of_nat (length bs) :: u32) = length bs" using n f(5) by (intro unat_of_nat_small) (simp add: d)
  have full: "flag rb rbBUFFER_FULL_FLAG \<longleftrightarrow> u = S" by (simp add: fl rbBUFFER_FULL_FLAG_def)
  note w = mod_step [OF f(1,4)]
  have eq: "pucWrite rb = pucFree rb \<longleftrightarrow> u = 0 \<or> u = S" using ptr_facts(1) [OF f(3,2)] f(1,4) by (auto simp: w)
  have lt: "pucWrite rb < pucFree rb \<longleftrightarrow> (f + u) mod S < f" by (rule ptr_facts(2) [OF f(3,2)])
  consider (ends) "u = 0 \<or> u = S" | (wrapped) "0 < u" "u < S" "S \<le> f + u" | (plain) "0 < u" "u < S" "f + u < S"
    using f(4) by linarith
  then show ?thesis unfolding d
  proof cases
    case ends
    then show "prvCheckItemFitsByteBuffer rb (of_nat (length bs)) \<longleftrightarrow> u + length bs \<le> S"
      using eq full n by (auto simp: prvCheckItemFitsByteBuffer_def d)
  next
    case wrapped
    have "unat (pucFree rb - pucWrite rb) = S - u" using ptr_facts(3) [OF f(2,3)] wrapped f(1) by (simp add: w)
    then show "prvCheckItemFitsByteBuffer rb (of_nat (length bs)) \<longleftrightarrow> u + length bs \<le> S"
      using eq lt wrapped f(1) by (auto simp: prvCheckItemFitsByteBuffer_def w word_le_nat_alt un)
  next
    case plain
    have "unat (pucWrite rb - pucFree rb) = u" using ptr_facts(3) [OF f(3,2)] plain by (simp add: w)
    then have "unat (xSize rb - (pucWrite rb - pucFree rb)) = S - u"
      using plain by (subst unat_sub) (simp_all add: word_le_nat_alt d)
    then show "prvCheckItemFitsByteBuffer rb (of_nat (length bs)) \<longleftrightarrow> u + length bs \<le> S"
      using eq lt plain by (auto simp: prvCheckItemFitsByteBuffer_def w word_le_nat_alt un)
  qed
qed

lemma byte_ok_sem [simp]:
  "byte_ok (rb\<lparr>xFreeSpaceSemaphore := b\<rparr>) h q = byte_ok rb h q" "byte_ok (rb\<lparr>xItemsBufferedSemaphore := b\<rparr>) h q = byte_ok rb h q"
  by (simp_all add: byte_ok_def ring_at_def)

lemma copied_content:
  assumes c: "copied m m' H S ((f + u) mod S) bs" and f: "f < S" "u + length bs \<le> S" and i: "i < u + length bs"
  shows "m' (H + (f + i) mod S) = (if i < u then m (H + (f + i) mod S) else bs ! (i - u))"
proof (cases "i < u")
  case True
  have "((f + u) mod S + (S - u + i)) mod S = (f + u + (S - u + i)) mod S" by (rule mod_add_left_eq)
  also have "f + u + (S - u + i) = f + i + S" using f True by simp
  finally have e: "((f + u) mod S + (S - u + i)) mod S = (f + i) mod S" by simp
  have "length bs \<le> S - u + i" "S - u + i < S" using f True by simp_all
  then have "m' (H + ((f + u) mod S + (S - u + i)) mod S) = m (H + ((f + u) mod S + (S - u + i)) mod S)"
    using c unfolding copied_def by blast
  then show ?thesis using True unfolding e by simp
next
  case False
  have "((f + u) mod S + (i - u)) mod S = (f + u + (i - u)) mod S" by (rule mod_add_left_eq)
  moreover have "f + u + (i - u) = f + i" using False by simp
  ultimately have "((f + u) mod S + (i - u)) mod S = (f + i) mod S" by simp
  moreover have "m' (H + ((f + u) mod S + (i - u)) mod S) = bs ! (i - u)"
  proof -
    have "i - u < length bs" using False i by simp
    then show ?thesis using c unfolding copied_def by blast
  qed
  ultimately show ?thesis using False by simp
qed

lemma byte_copy_ok:
  assumes ok: "byte_ok rb h q" and n: "bs \<noteq> []" "length (h @ q) + length bs \<le> unat (xSize rb)"
  shows "byte_ok (prvCopyItemByteBuf rb bs) h (q @ bs)"
proof -
  define H S u where "H = unat (pucHead rb)" and "S = unat (xSize rb)" and "u = length (h @ q)"
  note d = H_def [symmetric] S_def [symmetric] u_def [symmetric]
  have b: "xKind rb = RINGBUF_TYPE_BYTEBUF" "unat (pucTail rb) = H + S" "H + S < 2 ^ 32" "S < 2 ^ 31" "0 < S" "xMaxItemSize rb = xSize rb" "u \<le> S"
      and fl: "uxRingbufferFlags rb = (if u = S then 6 else 2)" and wait: "xItemsWaiting rb = of_nat (length q)"
    using ok by (auto simp: byte_ok_def H_def S_def u_def)
  obtain f where f: "f < S" "unat (pucFree rb) = H + f" "unat (pucRead rb) = H + (f + length h) mod S" "unat (pucWrite rb) = H + (f + u) mod S"
      and cont: "\<forall>i < u. rb_mem rb (H + (f + i) mod S) = (h @ q) ! i"
    using ok by (auto simp: byte_ok_def ring_at_def H_def S_def u_def)
  have un: "u + length bs \<le> S" "length bs \<le> S" using n(2) unfolding d by simp_all
  have wS: "(f + u) mod S < S" using b(5) by simp
  obtain m' w' where run: "prvCopyItemByteBuf rb bs = mark_full (rb\<lparr>rb_mem := m', xItemsWaiting := xItemsWaiting rb + of_nat (length bs), pucWrite := w'\<rparr>)"
    and w': "unat w' = H + ((f + u) mod S + length bs) mod S" and cp: "copied (rb_mem rb) m' H S ((f + u) mod S) bs"
    using copy_byte_buf [of rb "(f + u) mod S" bs, unfolded d] b f(4) wS n(1) un(2) by auto
  have w2: "unat w' = H + (f + (u + length bs)) mod S" unfolding w' mod_add_left_eq by (simp add: add.assoc)
  have full: "w' = pucFree rb \<longleftrightarrow> u + length bs = S"
  proof -
    have "w' = pucFree rb \<longleftrightarrow> (f + (u + length bs)) mod S = f" by (rule ptr_facts(1) [OF w2 f(2)])
    then show ?thesis using mod_step [OF f(1) un(1)] n(1) f(1) by (auto split: if_splits)
  qed
  have uS: "u \<noteq> S" using un n(1) by (cases bs) auto
  let ?rb = "rb\<lparr>rb_mem := m', xItemsWaiting := xItemsWaiting rb + of_nat (length bs), pucWrite := w'\<rparr>"
  have mark: "mark_full ?rb = ?rb\<lparr>uxRingbufferFlags := (if u + length bs = S then 6 else 2)\<rparr>"
    using full fl uS by (simp add: mark_full_def rbBUFFER_FULL_FLAG_def)
  have "m' (H + (f + i) mod S) = (h @ q @ bs) ! i" if "i < u + length bs" for i
    using copied_content [OF cp f(1) un(1) that] cont that by (auto simp: nth_append u_def)
  then show ?thesis unfolding run mark using b un(1) wait f w2
    by (intro byte_okI [where S = S and H = H and f = f and u = "u + length bs"]) (simp_all add: H_def S_def u_def)
qed

lemma byte_send:
  assumes ok: "byte_ok rb h q" and len: "length bs < 2 ^ 32" and run: "xRingbufferSendFromISR rb bs = (rb', sent)"
  shows "sent \<longleftrightarrow> length (h @ q) + length bs \<le> unat (xSize rb)" and "byte_ok rb' h (if sent then q @ bs else q)"
    and "xSize rb' = xSize rb"
proof -
  have un: "unat (of_nat (length bs) :: u32) = length bs" using len by (intro unat_of_nat_small) simp
  have b: "xMaxItemSize rb = xSize rb" "xKind rb = RINGBUF_TYPE_BYTEBUF" "length (h @ q) \<le> unat (xSize rb)" "flag rb rbBYTE_BUFFER_FLAG"
    using ok by (auto simp: byte_ok_def rbBYTE_BUFFER_FLAG_def)
  have z: "(of_nat (length bs) :: u32) = 0 \<longleftrightarrow> bs = []" using un by auto
  have sz: "xSize (prvCopyItemByteBuf rb bs) = xSize rb" by (simp add: prvCopyItemByteBuf_def mark_full_def Let_def)
  have "(sent \<longleftrightarrow> length (h @ q) + length bs \<le> unat (xSize rb)) \<and> byte_ok rb' h (if sent then q @ bs else q) \<and> xSize rb' = xSize rb"
  proof (cases "length bs \<le> unat (xSize rb) \<and> bs \<noteq> []")
    case True
    then have "\<not> of_nat (length bs) > xMaxItemSize rb" by (simp add: b word_less_nat_alt un)
    then show ?thesis
      using run True b ok byte_fits [OF ok] byte_copy_ok [OF ok] z sz
      by (auto simp: xRingbufferSendFromISR_def try_send_def xCheckItemFits_def vCopyItem_def give_after_send_def Let_def split: if_splits)
  next
    case False
    then show ?thesis using run b ok z
      by (auto simp: xRingbufferSendFromISR_def word_less_nat_alt un split: if_splits)
  qed
  then show "sent \<longleftrightarrow> length (h @ q) + length bs \<le> unat (xSize rb)" "byte_ok rb' h (if sent then q @ bs else q)" "xSize rb' = xSize rb" by blast+
qed

lemma send_keeps_out:
  assumes "byte_ok rb h q" and "xRingbufferSendFromISR rb bs = (rb', sent)"
  shows "pucFree rb' = pucFree rb" and "pucTail rb' = pucTail rb"
proof -
  have "pucFree (prvCopyItemByteBuf rb bs) = pucFree rb" "pucTail (prvCopyItemByteBuf rb bs) = pucTail rb"
    by (simp_all add: prvCopyItemByteBuf_def mark_full_def Let_def)
  moreover have "xKind rb = RINGBUF_TYPE_BYTEBUF" using assms(1) by (simp add: byte_ok_def)
  ultimately show "pucFree rb' = pucFree rb" "pucTail rb' = pucTail rb"
    using assms(2) by (auto simp: xRingbufferSendFromISR_def try_send_def vCopyItem_def give_after_send_def Let_def split: if_splits)
qed

text \<open>A piece that is out lies at the free pointer and does not go around the end of the storage.\<close>

lemma piece_bytes:
  assumes ok: "byte_ok rb h q" and n: "length h = unat n" and p: "p = pucFree rb" and room: "unat p + unat n \<le> unat (pucTail rb)"
  shows "mem_read (rb_mem rb) (unat p) (unat n) = h"
proof (rule nth_equalityI)
  fix i
  assume "i < length (mem_read (rb_mem rb) (unat p) (unat n))"
  then have i: "i < length h" using n by simp
  obtain f where f: "f < unat (xSize rb)" "unat (pucFree rb) = unat (pucHead rb) + f mod unat (xSize rb)" "unat (pucTail rb) = unat (pucHead rb) + unat (xSize rb)"
    "\<forall>i < length (h @ q). rb_mem rb (unat (pucHead rb) + (f + i) mod unat (xSize rb)) = (h @ q) ! i"
    using ok by (auto simp: byte_ok_def ring_at_def)
  have "(f + i) mod unat (xSize rb) = f + i" using room i n p f(1-3) by simp
  then show "mem_read (rb_mem rb) (unat p) (unat n) ! i = h ! i" using f(4) [THEN spec, of i] f(1,2) i n p by (simp add: nth_append add.assoc)
qed (use n in simp)

lemma byte_get:
  assumes ok: "byte_ok rb [] q" and q: "q \<noteq> []" and run: "prvGetItemByteBuf rb mx = (rb', p, n)"
  shows "byte_ok rb' (take (unat n) q) (drop (unat n) q)" and "0 < unat n" and "unat n \<le> length q" and "mx \<noteq> 0 \<longrightarrow> n \<le> mx"
    and "mem_read (rb_mem rb') (unat p) (unat n) = take (unat n) q" and "xSize rb' = xSize rb" and "p \<noteq> 0 \<or> unat (pucHead rb) = 0"
    and "p = pucFree rb'" and "unat p + unat n \<le> unat (pucTail rb')"
proof -
  define H S u where "H = unat (pucHead rb)" and "S = unat (xSize rb)" and "u = length q"
  note d = H_def [symmetric] S_def [symmetric] u_def [symmetric]
  have b: "xKind rb = RINGBUF_TYPE_BYTEBUF" "unat (pucTail rb) = H + S" "H + S < 2 ^ 32" "S < 2 ^ 31" "0 < S" "xMaxItemSize rb = xSize rb" "u \<le> S" "0 < u"
      and fl: "uxRingbufferFlags rb = (if u = S then 6 else 2)" and wait: "xItemsWaiting rb = of_nat u"
    using ok q by (auto simp: byte_ok_def H_def S_def u_def)
  obtain f where f: "f < S" "unat (pucFree rb) = H + f" "unat (pucRead rb) = H + f" "unat (pucWrite rb) = H + (f + u) mod S"
      and cont: "\<forall>i < u. rb_mem rb (H + (f + i) mod S) = q ! i"
    using ok by (auto simp: byte_ok_def ring_at_def H_def S_def u_def)
  have full: "flag rb rbBUFFER_FULL_FLAG \<longleftrightarrow> u = S" by (simp add: fl rbBUFFER_FULL_FLAG_def)
  note w = mod_step [OF f(1) b(7)]
  have case_a: "pucRead rb > pucWrite rb \<or> flag rb rbBUFFER_FULL_FLAG \<longleftrightarrow> S \<le> f + u"
    unfolding full ptr_facts(2) [OF f(4,3)] using b(7,8) f(1) by (auto simp: w)
  obtain n0 X where get: "prvGetItemByteBuf rb mx = (if mx = 0 \<or> n0 \<le> mx then (rb\<lparr>xItemsWaiting := xItemsWaiting rb - n0, pucRead := X\<rparr>, pucRead rb, n0)
        else (rb\<lparr>xItemsWaiting := xItemsWaiting rb - mx, pucRead := pucRead rb + mx\<rparr>, pucRead rb, mx))"
    and n0: "unat X = H + (f + unat n0) mod S" "f + unat n0 \<le> S" "unat n0 \<le> u" "0 < unat n0"
  proof (cases "S \<le> f + u")
    case True
    have "unat (pucTail rb - pucRead rb) = S - f" using ptr_facts(3) [OF b(2) f(3)] f(1) by simp
    then show thesis using True case_a f(1) b(8) that [of "pucTail rb - pucRead rb" "pucHead rb"] by (simp add: prvGetItemByteBuf_def Let_def d)
  next
    case False
    then have "unat (pucWrite rb - pucRead rb) = u" using ptr_facts(3) [OF f(4,3)] by (simp add: w)
    then show thesis using False case_a f b(8) that [of "pucWrite rb - pucRead rb" "pucWrite rb"] by (simp add: prvGetItemByteBuf_def Let_def w)
  qed
  have mid: "\<not> (mx = 0 \<or> n0 \<le> mx) \<Longrightarrow> f + unat mx < S \<and> 0 < unat mx \<and> unat mx \<le> u \<and> unat (pucRead rb + mx) = H + (f + unat mx) mod S"
  proof -
    assume "\<not> (mx = 0 \<or> n0 \<le> mx)"
    then have m: "unat mx < unat n0" "0 < unat mx" by (simp_all add: word_le_nat_alt not_le unat_gt_0)
    then have "f + unat mx < S" using n0(2) by simp
    moreover have "unat (pucRead rb + mx) = H + f + unat mx" using f(3) b(3) calculation by (subst unat_add_no_wrap) simp_all
    ultimately show ?thesis using m n0(3) by simp
  qed
  have k: "f + unat n \<le> S" "0 < unat n" "unat n \<le> u" "p = pucRead rb" "mx \<noteq> 0 \<longrightarrow> n \<le> mx"
    and rb': "\<exists>X. rb' = rb\<lparr>xItemsWaiting := xItemsWaiting rb - n, pucRead := X\<rparr> \<and> unat X = H + (f + unat n) mod S"
    using run mid n0 unfolding get by (auto split: if_splits)
  obtain X where X: "rb' = rb\<lparr>xItemsWaiting := xItemsWaiting rb - n, pucRead := X\<rparr>" "unat X = H + (f + unat n) mod S" using rb' by blast
  have rd: "rb_mem rb (H + f + i) = q ! i" if "i < unat n" for i
  proof -
    have "(f + i) mod S = f + i" using that k(1) by simp
    then show ?thesis using cont that k(3) by (metis add.assoc order_less_le_trans)
  qed
  show "mem_read (rb_mem rb') (unat p) (unat n) = take (unat n) q"
    by (rule nth_equalityI) (use k rd in \<open>auto simp: X(1) f(3) u_def\<close>)
  have wt: "xItemsWaiting rb - n = of_nat (length (drop (unat n) q))"
    using k(3) by (simp add: wait of_nat_diff u_def)
  show "byte_ok rb' (take (unat n) q) (drop (unat n) q)"
    using b f X(2) cont k(3) wt fl unfolding X(1)
    by (intro byte_okI [where S = S and H = H and f = f and u = u]) (simp_all add: H_def S_def u_def)
  show "0 < unat n" "unat n \<le> length q" "mx \<noteq> 0 \<longrightarrow> n \<le> mx" "xSize rb' = xSize rb" using k by (simp_all add: u_def X(1))
  show "p \<noteq> 0 \<or> unat (pucHead rb) = 0" using k(4) f(3) by (auto simp: d)
  show "p = pucFree rb'" using k(4) f(2,3) by (simp add: X(1) word_unat_eq_iff)
  show "unat p + unat n \<le> unat (pucTail rb')" using k(1,4) f(3) b(2) by (simp add: X(1))
qed

lemma byte_avail:
  assumes ok: "byte_ok rb h q"
  shows "prvCheckItemAvail rb \<longleftrightarrow> h = [] \<and> q \<noteq> []"
proof -
  define H S where "H = unat (pucHead rb)" and "S = unat (xSize rb)"
  have b: "S < 2 ^ 31" "0 < S" "length h + length q \<le> S" and fl: "uxRingbufferFlags rb = (if length h + length q = S then 6 else 2)"
      and wait: "xItemsWaiting rb = of_nat (length q)"
    using ok by (auto simp: byte_ok_def H_def S_def)
  obtain f where f: "f < S" "unat (pucFree rb) = H + f" "unat (pucRead rb) = H + (f + length h) mod S"
      "unat (pucWrite rb) = H + (f + (length h + length q)) mod S"
    using ok by (auto simp: byte_ok_def ring_at_def H_def S_def)
  have full: "flag rb rbBUFFER_FULL_FLAG \<longleftrightarrow> length h + length q = S" by (simp add: fl rbBUFFER_FULL_FLAG_def)
  have byte: "flag rb rbBYTE_BUFFER_FLAG" by (simp add: fl rbBYTE_BUFFER_FLAG_def)
  have "length h \<le> S" using b(3) by simp
  note mh = mod_step [OF f(1) this] and mw = mod_step [OF f(1) b(3)]
  have rf: "pucRead rb = pucFree rb \<longleftrightarrow> h = [] \<or> length h = S"
    unfolding ptr_facts(1) [OF f(3,2)] using f(1) b(3) by (auto simp: mh)
  have sw: "sint (xItemsWaiting rb) > 0 \<longleftrightarrow> q \<noteq> []"
  proof -
    have "sint (of_nat (length q) :: 32 word) = int (length q)"
      using b by (simp add: signed_of_nat signed_take_bit_eq_if_positive take_bit_int_eq_self_iff bit_iff_odd)
    then show ?thesis by (simp add: wait)
  qed
  have rw: "pucRead rb = pucWrite rb \<longleftrightarrow> q = [] \<or> length q = S" if "h = []"
    unfolding ptr_facts(1) [OF f(3,4)] using f(1) b(3) that by (auto simp: mod_step)
  show ?thesis
  proof (cases "h = []")
    case True
    then show ?thesis using byte rf sw rw full by (auto simp: prvCheckItemAvail_def)
  next
    case False
    then have "pucRead rb = pucFree rb \<Longrightarrow> q = []" using rf b(3) by auto
    then show ?thesis using False byte sw by (auto simp: prvCheckItemAvail_def)
  qed
qed

lemma byte_return:
  assumes ok: "byte_ok rb h q" and h: "h \<noteq> []"
  shows "byte_ok (prvReturnItemByteBuf rb p) [] q"
proof -
  define H S where "H = unat (pucHead rb)" and "S = unat (xSize rb)"
  have b: "xKind rb = RINGBUF_TYPE_BYTEBUF" "unat (pucTail rb) = H + S" "H + S < 2 ^ 32" "S < 2 ^ 31" "0 < S" "xMaxItemSize rb = xSize rb"
      "length h + length q \<le> S" and fl: "uxRingbufferFlags rb = (if length h + length q = S then 6 else 2)" and wait: "xItemsWaiting rb = of_nat (length q)"
    using ok by (auto simp: byte_ok_def H_def S_def)
  obtain f where f: "f < S" "unat (pucFree rb) = H + f" "unat (pucRead rb) = H + (f + length h) mod S"
      "unat (pucWrite rb) = H + (f + (length h + length q)) mod S"
      and cont: "\<forall>i < length h + length q. rb_mem rb (H + (f + i) mod S) = (h @ q) ! i"
    using ok by (auto simp: byte_ok_def ring_at_def H_def S_def)
  let ?f = "(f + length h) mod S"
  have c: "rb_mem rb (H + (?f + i) mod S) = q ! i" if "i < length q" for i
  proof -
    have "(?f + i) mod S = (f + (length h + i)) mod S" unfolding mod_add_left_eq by (simp add: add.assoc)
    then show ?thesis using cont that by (simp add: nth_append)
  qed
  have wr: "unat (pucWrite rb) = H + (?f + length q) mod S" unfolding f(4) mod_add_left_eq by (simp add: add.assoc)
  have less: "length q < S" using b(7) h by (cases h) auto
  have "prvReturnItemByteBuf rb p = rb\<lparr>pucFree := pucRead rb, uxRingbufferFlags := 2\<rparr>"
    by (simp add: prvReturnItemByteBuf_def rbBUFFER_FULL_FLAG_def fl)
  then show ?thesis using b f(3) wait c wr less
    by (intro byte_okI [where S = S and H = H and f = ?f and u = "length q"]) (simp_all add: H_def S_def)
qed

text \<open>A run of calls on a byte buffer: the buffer, the piece that is out (its address and length), the bytes that were accepted and those that were received,
  read where the call points to.\<close>

datatype ring_op = Send "u8 list" | Receive u32 | Return

type_synonym ring_state = "Ringbuffer_t \<times> (u32 \<times> u32) option \<times> u8 list \<times> u8 list"

fun ring_step :: "ring_op \<Rightarrow> ring_state \<Rightarrow> ring_state option" where
  "ring_step (Send bs) (rb, out, acc, rcv) =
    (let (rb', ok) = xRingbufferSendFromISR rb bs in Some (rb', out, if ok then acc @ bs else acc, rcv))"
| "ring_step (Receive mx) (rb, out, acc, rcv) =
    (let (rb', r) = (if mx = 0 then xRingbufferReceiveFromISR rb else xRingbufferReceiveUpToFromISR rb mx) in
     case r of None \<Rightarrow> Some (rb', out, acc, rcv)
     | Some (p, n) \<Rightarrow> Some (rb', Some (p, n), acc, rcv @ mem_read (rb_mem rb') (unat p) (unat n)))"
| "ring_step Return (rb, out, acc, rcv) =
    (case out of None \<Rightarrow> Some (rb, out, acc, rcv)
     | Some (p, n) \<Rightarrow> do { rb' \<leftarrow> vRingbufferReturnItemFromISR rb p; Some (rb', None, acc, rcv) })"

fun ring_run :: "ring_op list \<Rightarrow> ring_state \<Rightarrow> ring_state option" where
  "ring_run [] st = Some st"
| "ring_run (c # cs) st = do { st' \<leftarrow> ring_step c st; ring_run cs st' }"

definition run_ok :: "u32 \<Rightarrow> ring_state \<Rightarrow> u8 list \<Rightarrow> u8 list \<Rightarrow> bool" where
  "run_ok sz st h q = (case st of (rb, out, acc, rcv) \<Rightarrow> byte_ok rb h q \<and> xSize rb = sz \<and> acc = rcv @ q \<and>
     (case out of None \<Rightarrow> h = [] | Some (p, n) \<Rightarrow> 0 < unat n \<and> length h = unat n \<and> p = pucFree rb \<and> unat p + unat n \<le> unat (pucTail rb) \<and> (\<exists>ys. rcv = ys @ h)))"

lemma byte_take:
  assumes ok: "byte_ok rb h q"
  shows "prvReceiveGenericFromISR rb False mx = (rb', None) \<Longrightarrow> rb' = rb \<and> \<not> (h = [] \<and> q \<noteq> [])"
    and "prvReceiveGenericFromISR rb False mx = (rb', Some r) \<Longrightarrow> h = [] \<and> q \<noteq> [] \<and> (\<exists>rb1 p n. prvGetItemByteBuf rb mx = (rb1, p, n)
      \<and> r = ((p, n), None) \<and> rb_mem rb' = rb_mem rb1 \<and> xSize rb' = xSize rb1 \<and> byte_ok rb' = byte_ok rb1 \<and> pucFree rb' = pucFree rb1 \<and> pucTail rb' = pucTail rb1)"
proof -
  have k: "xKind rb = RINGBUF_TYPE_BYTEBUF" "flag rb rbBYTE_BUFFER_FLAG" using ok by (auto simp: byte_ok_def rbBYTE_BUFFER_FLAG_def)
  have sem: "byte_ok (give_after_receive rb1) = byte_ok rb1" "rb_mem (give_after_receive rb1) = rb_mem rb1" "xSize (give_after_receive rb1) = xSize rb1"
    "pucFree (give_after_receive rb1) = pucFree rb1" "pucTail (give_after_receive rb1) = pucTail rb1" for rb1
    by (simp_all add: give_after_receive_def fun_eq_iff)
  show "prvReceiveGenericFromISR rb False mx = (rb', None) \<Longrightarrow> rb' = rb \<and> \<not> (h = [] \<and> q \<noteq> [])"
    using byte_avail [OF ok] by (auto simp: prvReceiveGenericFromISR_def Let_def split: if_splits prod.splits)
  show "prvReceiveGenericFromISR rb False mx = (rb', Some r) \<Longrightarrow> h = [] \<and> q \<noteq> [] \<and> (\<exists>rb1 p n. prvGetItemByteBuf rb mx = (rb1, p, n)
      \<and> r = ((p, n), None) \<and> rb_mem rb' = rb_mem rb1 \<and> xSize rb' = xSize rb1 \<and> byte_ok rb' = byte_ok rb1 \<and> pucFree rb' = pucFree rb1 \<and> pucTail rb' = pucTail rb1)"
    using byte_avail [OF ok] k
    by (auto simp: prvReceiveGenericFromISR_def take_items_def pvGetItem_def Let_def sem split: if_splits prod.splits)
qed

lemma ring_step_ok:
  assumes ok: "run_ok sz st h q" and c: "\<forall>bs. c = Send bs \<longrightarrow> length bs < 2 ^ 32"
  shows "\<exists>st' h' q'. ring_step c st = Some st' \<and> run_ok sz st' h' q'"
proof -
  obtain rb out acc rcv where st: "st = (rb, out, acc, rcv)" by (cases st)
  have b: "byte_ok rb h q" "xSize rb = sz" "acc = rcv @ q"
    and o: "case out of None \<Rightarrow> h = [] | Some (p, n) \<Rightarrow> 0 < unat n \<and> length h = unat n \<and> p = pucFree rb \<and> unat p + unat n \<le> unat (pucTail rb) \<and> (\<exists>ys. rcv = ys @ h)"
    using ok by (simp_all add: run_ok_def st)
  show ?thesis
  proof (cases c)
    case (Send bs)
    obtain rb' sent where run: "xRingbufferSendFromISR rb bs = (rb', sent)" by (cases "xRingbufferSendFromISR rb bs")
    note s = byte_send [OF b(1) _ run] and kept = send_keeps_out [OF b(1) run]
    have "length bs < 2 ^ 32" using c Send by blast
    note s = s [OF this]
    have "ring_step c st = Some (rb', out, if sent then acc @ bs else acc, rcv)" by (simp add: Send st run)
    moreover have "run_ok sz (rb', out, if sent then acc @ bs else acc, rcv) h (if sent then q @ bs else q)"
      using s(2,3) b o by (auto simp: run_ok_def kept split: if_splits option.splits)
    ultimately show ?thesis by blast
  next
    case (Receive mx)
    obtain rb' r where run: "prvReceiveGenericFromISR rb False mx = (rb', r)" by (cases "prvReceiveGenericFromISR rb False mx")
    have step: "ring_step c st = (case map_option fst r of None \<Rightarrow> Some (rb', out, acc, rcv)
        | Some (p, n) \<Rightarrow> Some (rb', Some (p, n), acc, rcv @ mem_read (rb_mem rb') (unat p) (unat n)))"
      using run by (auto simp: Receive st xRingbufferReceiveFromISR_def xRingbufferReceiveUpToFromISR_def)
    show ?thesis
    proof (cases r)
      case None
      then have "rb' = rb" using byte_take(1) [OF b(1)] run by simp
      then show ?thesis using None step b o by (auto simp: run_ok_def)
    next
      case (Some r')
      then obtain rb1 p n where g: "h = []" "q \<noteq> []" "prvGetItemByteBuf rb mx = (rb1, p, n)" "r' = ((p, n), None)"
        "rb_mem rb' = rb_mem rb1" "xSize rb' = xSize rb1" "byte_ok rb' = byte_ok rb1" "pucFree rb' = pucFree rb1" "pucTail rb' = pucTail rb1"
        using byte_take(2) [OF b(1), of mx rb' r'] run by auto
      note bg = byte_get [OF b(1) [unfolded g(1)] g(2,3)]
      have "run_ok sz (rb', Some (p, n), acc, rcv @ mem_read (rb_mem rb') (unat p) (unat n)) (take (unat n) q) (drop (unat n) q)"
        using bg(1-3,5,6,8,9) b(2,3) by (simp add: g(5-9) run_ok_def)
      then show ?thesis using step by (auto simp: Some g(4))
    qed
  next
    case Return
    show ?thesis
    proof (cases out)
      case None
      then show ?thesis using Return ok st by auto
    next
      case (Some pn)
      obtain p n where pn: "pn = (p, n)" by (cases pn)
      have "h \<noteq> []" using o Some pn by auto
      then have "byte_ok (prvReturnItemByteBuf rb p) [] q" by (rule byte_return [OF b(1)])
      moreover have "xSize (prvReturnItemByteBuf rb p) = xSize rb" by (simp add: prvReturnItemByteBuf_def Let_def)
      moreover have "xKind rb = RINGBUF_TYPE_BYTEBUF" using b(1) by (simp add: byte_ok_def)
      ultimately show ?thesis using Return Some b pn
        by (auto simp: st run_ok_def vRingbufferReturnItemFromISR_def vReturnItem_def)
    qed
  qed
qed

lemma ring_run_ok: "run_ok sz st h q \<Longrightarrow> \<forall>bs. Send bs \<in> set cs \<longrightarrow> length bs < 2 ^ 32
    \<Longrightarrow> \<exists>st' h' q'. ring_run cs st = Some st' \<and> run_ok sz st' h' q'"
proof (induction cs arbitrary: st h q)
  case (Cons c cs)
  then obtain st' h' q' where "ring_step c st = Some st'" "run_ok sz st' h' q'" using ring_step_ok [of sz st h q c] by auto
  then show ?case using Cons.IH [of st' h' q'] Cons.prems(2) by auto
qed auto

text \<open>C25: A byte buffer is a queue of bytes. Whatever is sent, received, in pieces of any size, and given back, every call returns; the bytes read
  from the pieces are those accepted, in order, without loss or repetition, and the rest waits. A piece that is out still holds the bytes that were received
  last, whatever was sent since. A further piece of data is accepted if and only if it fits in what is neither waiting nor taken by the
  piece that is out; and a further piece is handed out if and only if none is out and bytes wait: at least one byte, no more than asked for.\<close>

theorem ring_bytes_fifo:
  assumes "xRingbufferCreate True head True m sz RINGBUF_TYPE_BYTEBUF = Some rb" and "0 < sz" and "unat sz < 2 ^ 31" and "unat head + unat sz < 2 ^ 32"
    and "\<forall>bs. Send bs \<in> set cs \<longrightarrow> length bs < 2 ^ 32"
  shows "\<exists>rb' out acc rcv q. ring_run cs (rb, None, [], []) = Some (rb', out, acc, rcv) \<and> acc = rcv @ q
    \<and> (\<forall>p n. out = Some (p, n) \<longrightarrow> 0 < unat n \<and> unat n \<le> length rcv \<and> mem_read (rb_mem rb') (unat p) (unat n) = drop (length rcv - unat n) rcv)
    \<and> (\<forall>bs. length bs < 2 ^ 32 \<longrightarrow>
         snd (xRingbufferSendFromISR rb' bs) = (length q + (case out of None \<Rightarrow> 0 | Some (p, n) \<Rightarrow> unat n) + length bs \<le> unat sz))
    \<and> (\<forall>mx. mx \<noteq> 0 \<longrightarrow> (case snd (xRingbufferReceiveUpToFromISR rb' mx) of None \<Rightarrow> out \<noteq> None \<or> q = []
         | Some (p, n) \<Rightarrow> out = None \<and> 0 < unat n \<and> n \<le> mx))"
proof -
  have "unat (head + sz) = unat head + unat sz" using assms(4) by (intro unat_add_no_wrap) simp
  then have "byte_ok rb [] []" and sz: "xSize rb = sz"
    using assms(1-4)
    by (auto simp: xRingbufferCreate_def Let_def rbBYTE_BUFFER_FLAG_def word_less_nat_alt unat_gt_0 intro!: byte_okI [where f = 0] split: if_splits)
  then have "run_ok sz (rb, None, [], []) [] []" by (simp add: run_ok_def)
  from ring_run_ok [OF this assms(5)] obtain rb' out acc rcv h q
    where r: "ring_run cs (rb, None, [], []) = Some (rb', out, acc, rcv)" "run_ok sz (rb', out, acc, rcv) h q" by auto
  then have b: "byte_ok rb' h q" "xSize rb' = sz" "acc = rcv @ q"
    and o: "case out of None \<Rightarrow> h = [] | Some (p, n) \<Rightarrow> 0 < unat n \<and> length h = unat n \<and> p = pucFree rb' \<and> unat p + unat n \<le> unat (pucTail rb') \<and> (\<exists>ys. rcv = ys @ h)"
    by (simp_all add: run_ok_def)
  have h: "length h = (case out of None \<Rightarrow> 0 | Some (p, n) \<Rightarrow> unat n)" and he: "h = [] \<longleftrightarrow> out = None" using o by (auto split: option.splits)
  have "snd (xRingbufferSendFromISR rb' bs) = (length q + (case out of None \<Rightarrow> 0 | Some (p, n) \<Rightarrow> unat n) + length bs \<le> unat sz)" if "length bs < 2 ^ 32" for bs
    using byte_send(1) [OF b(1) that, of "fst (xRingbufferSendFromISR rb' bs)" "snd (xRingbufferSendFromISR rb' bs)"] b(2) unfolding h [symmetric]
    by (simp add: add.commute)
  moreover have "0 < unat n \<and> unat n \<le> length rcv \<and> mem_read (rb_mem rb') (unat p) (unat n) = drop (length rcv - unat n) rcv" if "out = Some (p, n)" for p n
    using piece_bytes [OF b(1), of n p] o that by auto
  moreover have "case snd (xRingbufferReceiveUpToFromISR rb' mx) of None \<Rightarrow> out \<noteq> None \<or> q = [] | Some (p, n) \<Rightarrow> out = None \<and> 0 < unat n \<and> n \<le> mx" if mx: "mx \<noteq> 0" for mx
  proof -
    obtain rb2 r where run: "prvReceiveGenericFromISR rb' False mx = (rb2, r)" by (cases "prvReceiveGenericFromISR rb' False mx")
    have s: "snd (xRingbufferReceiveUpToFromISR rb' mx) = map_option fst r" using run mx by (simp add: xRingbufferReceiveUpToFromISR_def)
    show ?thesis
    proof (cases r)
      case None
      then show ?thesis using byte_take(1) [OF b(1), of mx rb2] run he by (auto simp: s)
    next
      case (Some r')
      then obtain rb1 p n where g: "h = []" "q \<noteq> []" "prvGetItemByteBuf rb' mx = (rb1, p, n)" "r' = ((p, n), None)"
        using byte_take(2) [OF b(1), of mx rb2 r'] run by auto
      show ?thesis using byte_get(2,4) [OF b(1) [unfolded g(1)] g(2,3)] mx he g(1) by (simp add: s Some g(4))
    qed
  qed
  ultimately show ?thesis using r(1) b(3) by blast
qed

definition sample_ring :: Ringbuffer_t where
  "sample_ring = \<lparr>rb_mem = \<lambda>_. 0, xSize = 5, uxRingbufferFlags = 2, xMaxItemSize = 5, xKind = RINGBUF_TYPE_BYTEBUF,
     pucWrite = 4096, pucRead = 4096, pucFree = 4096, pucHead = 4096, pucTail = 4101, xItemsWaiting = 0,
     xFreeSpaceSemaphore = True, xItemsBufferedSemaphore = False\<rparr>"

lemma sample_ring_create: "xRingbufferCreate True 4096 True (\<lambda>_. 0) 5 RINGBUF_TYPE_BYTEBUF = Some sample_ring"
  by (simp add: xRingbufferCreate_def rbBYTE_BUFFER_FLAG_def sample_ring_def)

theorem ring_bytes_fifo_witness:
  "xRingbufferCreate True 4096 True (\<lambda>_. 0) 5 RINGBUF_TYPE_BYTEBUF = Some sample_ring
   \<and> (\<exists>rb' out acc rcv q. ring_run [Send [1, 2, 3], Receive 2, Send [4, 5], Return, Send [6, 7], Receive 0] (sample_ring, None, [], [])
          = Some (rb', out, acc, rcv) \<and> acc = rcv @ q)"
proof -
  let ?cs = "[Send [1, 2, 3], Receive 2, Send [4, 5], Return, Send [6, 7], Receive 0]"
  have "0 < (5 :: u32)" "unat (5 :: u32) < 2 ^ 31" "unat (4096 :: u32) + unat (5 :: u32) < 2 ^ 32" "\<forall>bs. Send bs \<in> set ?cs \<longrightarrow> length bs < 2 ^ 32"
    by auto
  from ring_bytes_fifo [OF sample_ring_create this] show ?thesis using sample_ring_create by blast
qed

section \<open>Item buffers: the full flag\<close>

lemma mark_full_frame [simp]:
  "rb_mem (mark_full rb) = rb_mem rb" "rb_mem (wrap_write rb) = rb_mem rb" "xSize (mark_full rb) = xSize rb" "xSize (wrap_write rb) = xSize rb"
  by (simp_all add: mark_full_def wrap_write_def)

lemma and_not_self: "(x AND NOT f) AND f = (0 :: u32)"
  by (simp add: and.assoc and.left_commute)

text \<open>When everything was retrieved from a full buffer, the three pointers are equal.\<close>

lemma return_to_full:
  assumes "xKind rb \<noteq> RINGBUF_TYPE_BYTEBUF" and "flag rb rbBUFFER_FULL_FLAG" and "pucFree rb = pucRead rb" and "pucWrite rb = pucRead rb"
  shows "\<exists>m'. vRingbufferReturnItem rb p = Some (rb\<lparr>rb_mem := m', uxRingbufferFlags := uxRingbufferFlags rb AND NOT rbBUFFER_FULL_FLAG,
      xFreeSpaceSemaphore := True\<rparr>)"
proof -
  have "advance_free (rb\<lparr>rb_mem := m\<rparr>) = Some (rb\<lparr>rb_mem := m\<rparr>)" for m
    by (subst advance_free.simps) (simp add: assms Let_def)
  then show ?thesis
    by (simp add: vRingbufferReturnItem_def vReturnItem_def prvReturnItemDefault_def Let_def assms) blast
qed

lemma nosplit_copy_here:
  assumes "unat (pucWrite rb) + 8 + length bs < 2 ^ 32"
    and "\<not> pucTail rb - pucWrite rb < rbALIGN_SIZE (of_nat (length bs)) + rbHEADER_SIZE"
  shows "mem_read (rb_mem (prvCopyItemNoSplit rb bs)) (unat (pucWrite rb + 8)) (length bs) = bs"
  using assms by (simp add: prvCopyItemNoSplit_def put_item_def rbHEADER_SIZE_def Let_def)

text \<open>Items may be given back in any order, but when a full buffer without splitting has been retrieved completely, giving back any
  one of its items clears the full flag although the free pointer does not move: from then on every size is reported to fit, and the next item is
  written over the oldest one, which its reader still holds.\<close>

lemma return_frees_outstanding:
  assumes "xKind rb = RINGBUF_TYPE_NOSPLIT" and "uxRingbufferFlags rb = rbBUFFER_FULL_FLAG" and "pucFree rb = pucRead rb" and "pucWrite rb = pucRead rb"
    and "\<not> of_nat (length bs) > xMaxItemSize rb" and "unat (pucWrite rb) + 8 + length bs < 2 ^ 32"
    and "\<not> pucTail rb - pucWrite rb < rbALIGN_SIZE (of_nat (length bs)) + rbHEADER_SIZE"
  shows "\<exists>rb' rb''. vRingbufferReturnItem rb item = Some rb' \<and> pucFree rb' = pucFree rb \<and> (\<forall>n. xCheckItemFits rb' n)
    \<and> xRingbufferSendFromISR rb' bs = (rb'', True) \<and> mem_read (rb_mem rb'') (unat (pucFree rb + 8)) (length bs) = bs"
proof -
  have full: "flag rb rbBUFFER_FULL_FLAG" and clear: "uxRingbufferFlags rb AND NOT rbBUFFER_FULL_FLAG = 0"
    using assms(2) by (simp_all add: rbBUFFER_FULL_FLAG_def)
  obtain m' where r: "vRingbufferReturnItem rb item = Some (rb\<lparr>rb_mem := m', uxRingbufferFlags := 0, xFreeSpaceSemaphore := True\<rparr>)"
    using return_to_full [OF _ full assms(3,4), of item] assms(1) by (auto simp: clear)
  define rb2 where "rb2 = rb\<lparr>rb_mem := m', uxRingbufferFlags := 0, xFreeSpaceSemaphore := True\<rparr>"
  have e: "xKind rb2 = RINGBUF_TYPE_NOSPLIT" "uxRingbufferFlags rb2 = 0" "pucFree rb2 = pucFree rb" "pucWrite rb2 = pucFree rb"
      "xMaxItemSize rb2 = xMaxItemSize rb" "pucTail rb2 = pucTail rb"
    using assms(1,3,4) by (simp_all add: rb2_def)
  have fits: "\<forall>n. xCheckItemFits rb2 n" by (simp add: xCheckItemFits_def prvCheckItemFitsDefault_def e)
  obtain rb'' where s: "xRingbufferSendFromISR rb2 bs = (rb'', True)" "rb_mem rb'' = rb_mem (prvCopyItemNoSplit rb2 bs)"
    using fits assms(5) by (simp add: xRingbufferSendFromISR_def try_send_def vCopyItem_def give_after_send_def Let_def e)
  have "mem_read (rb_mem rb'') (unat (pucFree rb + 8)) (length bs) = bs"
    using nosplit_copy_here [of rb2 bs] assms(3,4,6,7) by (simp add: s(2) e)
  then show ?thesis using r fits s(1) e(3) unfolding rb2_def [symmetric] by blast
qed

text \<open>Two items of eight bytes, both retrieved; the second is given back and the next send overwrites the first.\<close>

definition drained_ring :: Ringbuffer_t where
  "drained_ring = \<lparr>rb_mem = (\<lambda>a. if a = 4096 \<or> a = 4112 then 8 else if 4104 \<le> a \<and> a < 4112 then 0x11 else if 4120 \<le> a \<and> a < 4128 then 0x22 else 0),
     xSize = 32, uxRingbufferFlags = 4, xMaxItemSize = 8, xKind = RINGBUF_TYPE_NOSPLIT,
     pucWrite = 4096, pucRead = 4096, pucFree = 4096, pucHead = 4096, pucTail = 4128, xItemsWaiting = 0,
     xFreeSpaceSemaphore = False, xItemsBufferedSemaphore = False\<rparr>"

theorem return_frees_outstanding_witness:
  "mem_read (rb_mem drained_ring) 4104 8 = replicate 8 0x11
   \<and> (\<exists>rb' rb''. vRingbufferReturnItem drained_ring 4120 = Some rb' \<and> pucFree rb' = 4096
        \<and> xRingbufferSendFromISR rb' (replicate 8 0x33) = (rb'', True) \<and> mem_read (rb_mem rb'') 4104 8 = replicate 8 0x33)"
proof -
  have "mem_read (rb_mem drained_ring) 4104 8 = replicate 8 0x11" by (rule nth_equalityI) (auto simp: drained_ring_def)
  moreover have "\<exists>rb' rb''. vRingbufferReturnItem drained_ring 4120 = Some rb' \<and> pucFree rb' = pucFree drained_ring \<and> (\<forall>n. xCheckItemFits rb' n)
    \<and> xRingbufferSendFromISR rb' (replicate 8 0x33) = (rb'', True)
    \<and> mem_read (rb_mem rb'') (unat (pucFree drained_ring + 8)) (length (replicate 8 0x33 :: u8 list)) = replicate 8 0x33"
    by (rule return_frees_outstanding)
      (simp_all add: drained_ring_def rbBUFFER_FULL_FLAG_def rbALIGN_SIZE_def rbHEADER_SIZE_def)
  ultimately show ?thesis by (auto simp: drained_ring_def)
qed

section \<open>Waiting alone\<close>

text \<open>A wait with nobody else about: the semaphore is taken when it is given, else the wait times out.\<close>

definition alone :: waiting where
  "alone k remaining rb = (rb\<lparr>xItemsBufferedSemaphore := False\<rparr>, xItemsBufferedSemaphore rb)"

lemma receive_not_given:
  "\<not> xItemsBufferedSemaphore rb \<Longrightarrow> \<exists>rb'. receive_loop alone clock t both mx k r rb = Some (rb', None)"
  by (subst receive_loop.simps) (simp add: alone_def)

text \<open>Whatever the time left, the second wait of a receive that found nothing does not end with an item.\<close>

lemma receive_alone_unavailable:
  assumes "\<not> prvCheckItemAvail rb"
  shows "xRingbufferReceive alone clock rb t = Some (rb\<lparr>xItemsBufferedSemaphore := False\<rparr>, None)"
proof -
  let ?rb = "rb\<lparr>xItemsBufferedSemaphore := False\<rparr>"
  have na: "\<not> prvCheckItemAvail ?rb" using assms by (auto simp: prvCheckItemAvail_def split: if_splits)
  have two: "receive_loop alone clock t False 0 k r ?rb = Some (?rb, None)" for k r
    by (subst receive_loop.simps) (simp add: alone_def)
  have "receive_loop alone clock t False 0 0 t rb = Some (?rb, None)"
    by (subst receive_loop.simps) (simp add: alone_def na two)
  then show ?thesis by (simp add: xRingbufferReceive_def prvReceiveGeneric_def)
qed

text \<open>Adding the buffer to a queue set, or removing it, takes the semaphore of the items and keeps it.\<close>

lemma queue_set_takes_semaphore:
  "prvCheckItemAvail (fst (xRingbufferAddToQueueSetRead added rb)) = prvCheckItemAvail rb"
  "\<exists>rb'. xRingbufferReceive alone clock (fst (xRingbufferAddToQueueSetRead added rb)) t = Some (rb', None)"
proof -
  show "prvCheckItemAvail (fst (xRingbufferAddToQueueSetRead added rb)) = prvCheckItemAvail rb"
    by (simp add: xRingbufferAddToQueueSetRead_def prvCheckItemAvail_def)
  show "\<exists>rb'. xRingbufferReceive alone clock (fst (xRingbufferAddToQueueSetRead added rb)) t = Some (rb', None)"
    using receive_not_given [of "fst (xRingbufferAddToQueueSetRead added rb)" clock t False 0 0 t]
    by (auto simp: xRingbufferReceive_def prvReceiveGeneric_def xRingbufferAddToQueueSetRead_def)
qed

text \<open>A wake-up is lost in a byte buffer. While a piece is out and more bytes wait, a second reader takes the semaphore of the items, finds
  nothing available and waits until its time is over; giving the piece back makes the bytes available but gives only the semaphore of the free space, so
  that a later receive finds it not given, and comes back empty when its time is over although bytes are available, unless somebody sends.\<close>

lemma byte_wakeup_lost:
  assumes "byte_ok rb h q" and "h \<noteq> []" and "q \<noteq> []"
  shows "\<exists>rb1 rb2. xRingbufferReceive alone clock rb t = Some (rb1, None) \<and> vRingbufferReturnItem rb1 p = Some rb2
    \<and> byte_ok rb2 [] q \<and> prvCheckItemAvail rb2 \<and> \<not> xItemsBufferedSemaphore rb2
    \<and> (\<forall>clock' t'. \<exists>rb3. xRingbufferReceive alone clock' rb2 t' = Some (rb3, None))"
proof -
  define rb1 where "rb1 = rb\<lparr>xItemsBufferedSemaphore := False\<rparr>"
  define rb2 where "rb2 = prvReturnItemByteBuf rb1 p\<lparr>xFreeSpaceSemaphore := True\<rparr>"
  have ok1: "byte_ok rb1 h q" using assms(1) by (simp add: rb1_def)
  have ok2: "byte_ok rb2 [] q" using byte_return [OF ok1 assms(2)] by (simp add: rb2_def)
  have "xRingbufferReceive alone clock rb t = Some (rb1, None)"
    unfolding rb1_def by (rule receive_alone_unavailable) (simp add: byte_avail [OF assms(1)] assms(2))
  moreover have "vRingbufferReturnItem rb1 p = Some rb2"
    using ok1 by (simp add: vRingbufferReturnItem_def vReturnItem_def rb2_def byte_ok_def)
  moreover have "prvCheckItemAvail rb2" using byte_avail [OF ok2] assms(3) by simp
  moreover have ng: "\<not> xItemsBufferedSemaphore rb2" by (simp add: rb2_def rb1_def prvReturnItemByteBuf_def Let_def)
  moreover have "\<exists>rb3. xRingbufferReceive alone clock' rb2 t' = Some (rb3, None)" for clock' t'
    using receive_not_given [OF ng, of clock' t' False 0 0 t'] by (auto simp: xRingbufferReceive_def prvReceiveGeneric_def)
  ultimately show ?thesis using ok2 by blast
qed

theorem byte_wakeup_lost_witness:
  "\<exists>rb. byte_ok rb [7] [9] \<and> xItemsBufferedSemaphore rb \<and> (\<exists>rb1 rb2. xRingbufferReceive alone (\<lambda>_. 0) rb 10 = Some (rb1, None)
     \<and> vRingbufferReturnItem rb1 4096 = Some rb2 \<and> prvCheckItemAvail rb2
     \<and> (\<exists>rb3. xRingbufferReceive alone (\<lambda>_. 0) rb2 10 = Some (rb3, None)))"
proof -
  let ?rb = "sample_ring\<lparr>rb_mem := mem_write (\<lambda>_. 0) 4096 [7, 9], pucRead := 4097, pucWrite := 4098, xItemsWaiting := 1, xItemsBufferedSemaphore := True\<rparr>"
  have ok: "byte_ok ?rb [7] [9]"
    by (rule byte_okI [where S = 5 and H = 4096 and f = 0 and u = 2]) (auto simp: sample_ring_def mem_write_def nth_Cons split: nat.split)
  moreover have "xItemsBufferedSemaphore ?rb" by simp
  moreover have "\<exists>rb1 rb2. xRingbufferReceive alone (\<lambda>_. 0) ?rb 10 = Some (rb1, None) \<and> vRingbufferReturnItem rb1 4096 = Some rb2
    \<and> prvCheckItemAvail rb2 \<and> (\<exists>rb3. xRingbufferReceive alone (\<lambda>_. 0) rb2 10 = Some (rb3, None))"
    using byte_wakeup_lost [OF ok, of "\<lambda>_. 0" 10 4096] by blast
  ultimately show ?thesis by blast
qed

end
