(* ===== verification/Ring_Items.thy ===== *)
theory Ring_Items
  imports Ring_Buffer
begin

text \<open>
  Items of a ring buffer that may split: where a send puts the header and the data, what a receive takes, how the free pointer moves
  when the parts are given back; a full turn leaves the buffer empty. The model is that of
  \<^verbatim>\<open>Ring_Buffer\<close>.
\<close>

section \<open>Item buffers: one item at a time\<close>

definition rnd :: "nat \<Rightarrow> nat" where "rnd n = (n + 3) div 4 * 4"

lemma rnd_bounds: "n \<le> rnd n" "rnd n < n + 4" "4 dvd rnd n"
  by (simp_all add: rnd_def)

lemma rnd_sub4: "4 dvd k \<Longrightarrow> k \<le> n \<Longrightarrow> rnd (n - k) = rnd n - k"
proof -
  assume "4 dvd k" "k \<le> n"
  then obtain q m where q: "k = 4 * q" "n = 4 * q + m" by (auto elim!: dvdE dest!: le_Suc_ex)
  have "(4 * q + m + 3) div 4 = q + (m + 3) div 4" by presburger
  then show ?thesis by (simp add: rnd_def q add_mult_distrib)
qed

lemma rnd_le: "4 dvd k \<Longrightarrow> n \<le> k \<Longrightarrow> rnd n \<le> k"
  by (auto simp: rnd_def elim!: dvdE)

lemma rnd_fits: "4 dvd S \<Longrightarrow> n + 16 \<le> S \<Longrightarrow> rnd n + 16 \<le> S"
proof -
  assume "4 dvd S" "n + 16 \<le> S"
  then have "rnd n \<le> S - 16" by (intro rnd_le dvd_diff_nat) simp_all
  then show "rnd n + 16 \<le> S" using \<open>n + 16 \<le> S\<close> by linarith
qed

lemma unat_align: "n + 3 < 2 ^ 32 \<Longrightarrow> unat (rbALIGN_SIZE (of_nat n)) = rnd n"
  using unat_of_nat_small [of "n + 3", where 'a = 32] unfolding rbALIGN_SIZE_def unat_and_not_3 rnd_def by (simp add: mult.commute)

definition wrap_at :: "nat \<Rightarrow> nat \<Rightarrow> nat" where "wrap_at S a = (if S - a < 8 then 0 else a)"

definition hdr :: "mem \<Rightarrow> nat \<Rightarrow> nat \<Rightarrow> u32 \<Rightarrow> bool" where
  "hdr m a n fl \<longleftrightarrow> ld32 m a = of_nat n \<and> ld32 m (a + 4) = fl"

definition item_at :: "mem \<Rightarrow> nat \<Rightarrow> u32 \<Rightarrow> u8 list \<Rightarrow> bool" where
  "item_at m a fl bs \<longleftrightarrow> hdr m a (length bs) fl \<and> mem_read m (a + 8) (length bs) = bs"

lemma unat_plus:
  fixes p q :: u32
  assumes "unat p = x" and "unat q = y" and "x + y < 2 ^ 32"
  shows "unat (p + q) = x + y"
  using assms by (subst unat_add_no_wrap) simp_all

lemma unat_wrap:
  fixes p head tl' :: u32
  assumes "unat p = H + a" and "unat head = H" and "unat tl' = H + S" and "a \<le> S"
  shows "unat (if tl' - p < rbHEADER_SIZE then head else p) = H + wrap_at S a"
  using assms ptr_facts(3) [OF assms(3,1,4)] by (simp add: wrap_at_def rbHEADER_SIZE_def word_less_nat_alt)

text \<open>The header and the data that are written.\<close>

lemma put_item_at:
  assumes "unat (pucWrite rb) = w" and "w + 8 + length bs < 2 ^ 32"
  shows "item_at (rb_mem (put_item bs al rb)) w 0 bs"
    and "b + 8 \<le> w \<or> w + 8 + length bs \<le> b \<Longrightarrow> hdr (rb_mem (put_item bs al rb)) b n fl = hdr (rb_mem rb) b n fl"
    and "b + k \<le> w \<or> w + 8 + length bs \<le> b \<Longrightarrow> mem_read (rb_mem (put_item bs al rb)) b k = mem_read (rb_mem rb) b k"
proof -
  have "unat (pucWrite rb + 4) = w + 4" "unat (pucWrite rb + rbHEADER_SIZE) = w + 8"
    using assms by (auto intro!: unat_plus simp: rbHEADER_SIZE_def)
  then have m: "rb_mem (put_item bs al rb) = mem_write (st32 (st32 (rb_mem rb) w (of_nat (length bs))) (w + 4) 0) (w + 8) bs"
    using assms(1) by (simp add: put_item_def set_uxItemFlags_def set_xItemLen_def Let_def)
  show "item_at (rb_mem (put_item bs al rb)) w 0 bs"
    by (simp add: m item_at_def hdr_def ld32_mem_write_other ld32_st32_other)
  show "b + 8 \<le> w \<or> w + 8 + length bs \<le> b \<Longrightarrow> hdr (rb_mem (put_item bs al rb)) b n fl = hdr (rb_mem rb) b n fl"
    by (auto simp: m hdr_def ld32_mem_write_other ld32_st32_other)
  show "b + k \<le> w \<or> w + 8 + length bs \<le> b \<Longrightarrow> mem_read (rb_mem (put_item bs al rb)) b k = mem_read (rb_mem rb) b k"
    by (auto simp: m mem_read_mem_write_other mem_read_st32_other)
qed

lemma put_item_fields:
  "put_item bs al rb = rb\<lparr>rb_mem := rb_mem (put_item bs al rb), xItemsWaiting := xItemsWaiting rb + 1, pucWrite := pucWrite rb + rbHEADER_SIZE + al\<rparr>"
  by (simp add: put_item_def Let_def)

text \<open>An empty buffer whose pointers are all at offset \<open>a\<close>.\<close>

definition ring_idle :: "Ringbuffer_t \<Rightarrow> nat \<Rightarrow> nat \<Rightarrow> nat \<Rightarrow> bool" where
  "ring_idle rb H S a \<longleftrightarrow> xKind rb = RINGBUF_TYPE_ALLOWSPLIT \<and> uxRingbufferFlags rb = 1 \<and> xItemsWaiting rb = 0
     \<and> unat (xSize rb) = S \<and> S < 2 ^ 31 \<and> 16 \<le> S \<and> 4 dvd S \<and> H + S < 2 ^ 32 \<and> unat (pucHead rb) = H \<and> unat (pucTail rb) = H + S
     \<and> unat (xMaxItemSize rb) = S - 16 \<and> 4 dvd a \<and> a + 8 \<le> S
     \<and> unat (pucFree rb) = H + a \<and> pucRead rb = pucFree rb \<and> pucWrite rb = pucFree rb"

text \<open>After the copy, the item lies at the read pointer in one piece, in two pieces, or at the head behind a dummy header.\<close>

definition item_placed :: "mem \<Rightarrow> u8 list \<Rightarrow> nat \<Rightarrow> nat \<Rightarrow> nat \<Rightarrow> nat \<Rightarrow> u32 \<Rightarrow> bool" where
  "item_placed m bs H S a w k \<longleftrightarrow>
     (if a + 8 + rnd (length bs) \<le> S then k = 1 \<and> w = wrap_at S (a + 8 + rnd (length bs)) \<and> item_at m (H + a) 0 bs
      else if a + 8 < S then k = 2 \<and> w = 8 + rnd (length bs) - (S - (a + 8))
             \<and> item_at m (H + a) 4 (take (S - (a + 8)) bs) \<and> item_at m H 0 (drop (S - (a + 8)) bs)
      else k = 1 \<and> w = 8 + rnd (length bs) \<and> hdr m (H + a) 0 2 \<and> item_at m H 0 bs)"

definition copied_item :: "Ringbuffer_t \<Rightarrow> u8 list \<Rightarrow> nat \<Rightarrow> nat \<Rightarrow> nat \<Rightarrow> Ringbuffer_t \<Rightarrow> bool" where
  "copied_item rb bs H S a rb' \<longleftrightarrow> (\<exists>m w k b. rb' = rb\<lparr>rb_mem := m, xItemsWaiting := k, pucWrite := w, uxRingbufferFlags := (if w = pucFree rb then 5 else 1)\<rparr>
     \<and> unat w = H + b \<and> item_placed m bs H S a b k)"

lemma copied_itemI:
  assumes "rb' = rb\<lparr>rb_mem := m, xItemsWaiting := k, pucWrite := w, uxRingbufferFlags := (if w = pucFree rb then 5 else 1)\<rparr>" and "unat w = H + b"
    and "a + 8 + r = S" and "r < rnd (length bs)"
  shows "\<lbrakk>0 < r; k = 2; b + r = 8 + rnd (length bs); item_at m (H + a) 4 (take r bs); item_at m H 0 (drop r bs)\<rbrakk> \<Longrightarrow> copied_item rb bs H S a rb'"
    and "\<lbrakk>r = 0; k = 1; b = 8 + rnd (length bs); hdr m (H + a) 0 2; item_at m H 0 bs\<rbrakk> \<Longrightarrow> copied_item rb bs H S a rb'"
proof -
  have S: "S - (a + 8) = r" "\<not> a + 8 + rnd (length bs) \<le> S" "a + 8 < S \<longleftrightarrow> 0 < r" using assms(3,4) by auto
  show "\<lbrakk>0 < r; k = 2; b + r = 8 + rnd (length bs); item_at m (H + a) 4 (take r bs); item_at m H 0 (drop r bs)\<rbrakk> \<Longrightarrow> copied_item rb bs H S a rb'"
    unfolding copied_item_def item_placed_def S(1) S(3) using S(2) assms(1,2) by (intro exI [of _ m] exI [of _ w] exI [of _ k] exI [of _ b]) auto
  show "\<lbrakk>r = 0; k = 1; b = 8 + rnd (length bs); hdr m (H + a) 0 2; item_at m H 0 bs\<rbrakk> \<Longrightarrow> copied_item rb bs H S a rb'"
    unfolding copied_item_def item_placed_def S(1) S(3) using S(2) assms(1,2) by (intro exI [of _ m] exI [of _ w] exI [of _ k] exI [of _ b]) auto
qed

lemma finish_copy:
  assumes "unat (pucWrite rb + rbHEADER_SIZE + al) = H + b" and "unat (pucHead rb) = H" and "unat (pucTail rb) = H + S" and "b \<le> S"
    and "uxRingbufferFlags rb = 1"
  shows "\<exists>w. mark_full (wrap_write (put_item bs al rb)) = rb\<lparr>rb_mem := rb_mem (put_item bs al rb), xItemsWaiting := xItemsWaiting rb + 1, pucWrite := w,
      uxRingbufferFlags := (if w = pucFree rb then 5 else 1)\<rparr> \<and> unat w = H + wrap_at S b"
proof -
  define w where "w = (if pucTail rb - (pucWrite rb + rbHEADER_SIZE + al) < rbHEADER_SIZE then pucHead rb else pucWrite rb + rbHEADER_SIZE + al)"
  have "unat w = H + wrap_at S b" unfolding w_def by (rule unat_wrap [OF assms(1-4)])
  moreover have "wrap_write (put_item bs al rb) = rb\<lparr>rb_mem := rb_mem (put_item bs al rb), xItemsWaiting := xItemsWaiting rb + 1, pucWrite := w\<rparr>"
    by (subst put_item_fields) (simp add: wrap_write_def w_def)
  then have "mark_full (wrap_write (put_item bs al rb)) = rb\<lparr>rb_mem := rb_mem (put_item bs al rb), xItemsWaiting := xItemsWaiting rb + 1, pucWrite := w,
      uxRingbufferFlags := (if w = pucFree rb then 5 else 1)\<rparr>"
    by (simp add: mark_full_def rbBUFFER_FULL_FLAG_def assms(5))
  ultimately show ?thesis by blast
qed

lemma idle_copy:
  assumes idle: "ring_idle rb H S a" and n: "length bs + 16 \<le> S"
  shows "copied_item rb bs H S a (prvCopyItemAllowSplit rb bs)"
proof -
  define n where "n = length bs"
  have i: "uxRingbufferFlags rb = 1" "xItemsWaiting rb = 0" "S < 2 ^ 31" "16 \<le> S" "4 dvd S" "H + S < 2 ^ 32" "unat (pucHead rb) = H"
      "unat (pucTail rb) = H + S" "4 dvd a" "a + 8 \<le> S" "unat (pucFree rb) = H + a" "pucWrite rb = pucFree rb"
    using idle by (simp_all add: ring_idle_def)
  have r: "n \<le> rnd n" "rnd n < n + 4" "rnd n + 16 \<le> S"
    using rnd_bounds [of n] rnd_fits [OF i(5), of n] n by (simp_all add: n_def)
  have al: "unat (rbALIGN_SIZE (of_nat n)) = rnd n" using r i(3) by (intro unat_align) simp
  have rem: "unat (pucTail rb - pucWrite rb) = S - a" using ptr_facts(3) [OF i(8,11)] i(10) by (simp add: i(12))
  have al8: "unat (rbALIGN_SIZE (of_nat n) + rbHEADER_SIZE) = rnd n + 8"
    using r i(3) by (intro unat_plus al) (simp_all add: rbHEADER_SIZE_def)
  have lt: "pucTail rb - pucWrite rb < rbALIGN_SIZE (of_nat (length bs)) + rbHEADER_SIZE \<longleftrightarrow> S < a + 8 + rnd n"
    using i(10) by (simp add: word_less_nat_alt rem al8 flip: n_def) linarith
  have h8: "unat rbHEADER_SIZE = 8" by (simp add: rbHEADER_SIZE_def)
  have rem': "unat (pucTail rb - pucWrite rb - rbHEADER_SIZE) = S - a - 8"
    using i(10) by (subst unat_sub) (simp_all add: word_le_nat_alt rem h8)
  have w8: "unat (pucWrite rb + rbHEADER_SIZE) = H + a + 8"
    using i(6,10) by (intro unat_plus) (simp_all add: i(11,12) h8)
  show ?thesis
  proof (cases "a + 8 + rnd n \<le> S")
    case True
    have "unat (pucWrite rb + rbHEADER_SIZE + rbALIGN_SIZE (of_nat n)) = H + (a + 8 + rnd n)"
      using i(6) True by (subst unat_plus [OF w8 al]) simp_all
    from finish_copy [OF this i(7,8) True i(1), of bs] obtain w where w: "mark_full (wrap_write (put_item bs (rbALIGN_SIZE (of_nat n)) rb))
        = rb\<lparr>rb_mem := rb_mem (put_item bs (rbALIGN_SIZE (of_nat n)) rb), xItemsWaiting := 1, pucWrite := w,
          uxRingbufferFlags := (if w = pucFree rb then 5 else 1)\<rparr>" "unat w = H + wrap_at S (a + 8 + rnd n)"
      by (auto simp: i(2))
    have "item_at (rb_mem (put_item bs (rbALIGN_SIZE (of_nat n)) rb)) (H + a) 0 bs"
      using i(6) True r by (intro put_item_at(1)) (simp_all add: i(11,12) n_def)
    then show ?thesis using True w lt unfolding copied_item_def item_placed_def
      by (intro exI conjI) (assumption | simp add: prvCopyItemAllowSplit_def Let_def flip: n_def)+
  next
    case False
    define r where "r = S - a - 8"
    define b where "b = 8 + rnd n - r"
    have rS: "a + 8 + r = S" "4 dvd r" "r < rnd n" using False i(5,9,10) by (auto simp: r_def dvd_diff_nat)
    have rn: "r \<le> n" using rS(2,3) rnd_le [of r n] by (meson leD nat_le_linear)
    have b: "b + 8 \<le> S" "b \<le> a" "8 + n - r \<le> b" using r rS by (simp_all add: b_def)
    have wb: "wrap_at S b = b" using b(1) by (auto simp: wrap_at_def)
    have remr: "unat (pucTail rb - pucWrite rb - rbHEADER_SIZE) = r" unfolding r_def by (rule rem')
    have alr: "unat (rbALIGN_SIZE (of_nat n) - (pucTail rb - pucWrite rb - rbHEADER_SIZE)) = rnd n - r"
      using rS(3) by (subst unat_sub) (simp_all add: word_le_nat_alt al remr)
    have h4: "unat (pucWrite rb + 4) = H + a + 4" using i(6,10) by (intro unat_plus) (simp_all add: i(11,12))
    show ?thesis
    proof (cases "0 < r")
      case True
      define m where "m = st32 (mem_write (st32 (st32 (rb_mem rb) (H + a + 4) 0) (H + a) (of_nat r)) (H + a + 8) (take r bs)) (H + a + 4) 4"
      define rb1 where "rb1 = rb\<lparr>rb_mem := m, xItemsWaiting := 1, pucWrite := pucHead rb\<rparr>"
      define al2 where "al2 = rbALIGN_SIZE (of_nat n) - (pucTail rb - pucWrite rb - rbHEADER_SIZE)"
      have gt: "0 < pucTail rb - pucWrite rb - rbHEADER_SIZE" using True by (simp add: word_less_nat_alt remr)
      have e: "pucTail rb - pucWrite rb - rbHEADER_SIZE = of_nat r" by (simp flip: remr)
      have it1: "item_at m (H + a) 4 (take r bs)"
        using rn by (simp add: m_def item_at_def hdr_def n_def ld32_mem_write_other ld32_st32_other mem_read_st32_other)
          (metis length_take min.absorb2 mem_read_mem_write)
      have p0: "unat (pucWrite rb) = H + a" by (simp add: i(11,12))
      have ld4: "ld32 (mem_write (st32 (st32 (rb_mem rb) (H + a + 4) 0) (H + a) (of_nat r)) (H + a + 8) (take r bs)) (H + a + 4) = 0"
        by (simp add: ld32_mem_write_other ld32_st32_other)
      have un: "unat (of_nat r :: u32) = r" using remr by (simp add: e)
      have run: "prvCopyItemAllowSplit rb bs = mark_full (wrap_write (put_item (drop r bs) al2 rb1))"
        using False lt gt unfolding prvCopyItemAllowSplit_def Let_def
        by (simp add: e un al2_def rb1_def m_def i(2) set_uxItemFlags_def set_xItemLen_def uxItemFlags_def p0 h4 w8 ld4 rbITEM_SPLIT_FLAG_def flip: n_def)
      have al2: "unat al2 = rnd n - r" unfolding al2_def by (rule alr)
      have "unat (pucWrite rb1 + rbHEADER_SIZE + al2) = H + 8 + (rnd n - r)"
        using i(6,7) b rS(3) by (intro unat_plus al2) (simp_all add: rb1_def h8 b_def)
      then have "unat (pucWrite rb1 + rbHEADER_SIZE + al2) = H + b" using rS(3) by (simp add: b_def)
      from finish_copy [OF this, of S "drop r bs"] obtain w where w: "mark_full (wrap_write (put_item (drop r bs) al2 rb1))
        = rb1\<lparr>rb_mem := rb_mem (put_item (drop r bs) al2 rb1), xItemsWaiting := 2, pucWrite := w,
          uxRingbufferFlags := (if w = pucFree rb1 then 5 else 1)\<rparr>" "unat w = H + b"
        using i(1,7,8) b(1) by (auto simp: rb1_def wb)
      have w1: "unat (pucWrite rb1) = H" by (simp add: rb1_def i(7))
      have fit: "H + 8 + length (drop r bs) \<le> H + a" "H + 8 + length (drop r bs) < 2 ^ 32" using b r i(6,10) rn by (simp_all add: n_def)
      have p: "item_at (rb_mem (put_item (drop r bs) al2 rb1)) H 0 (drop r bs)" by (rule put_item_at(1) [OF w1 fit(2)])
      have "item_at (rb_mem (put_item (drop r bs) al2 rb1)) (H + a) 4 (take r bs)"
        using it1 fit(1) unfolding item_at_def
        by (subst put_item_at(2,3) [OF w1 fit(2)], simp, subst put_item_at(3) [OF w1 fit(2)]) (simp_all add: rb1_def)
      then show ?thesis using True w p rS(1,3) by (intro copied_itemI(1) [where w = w and b = b and r = r]) (simp_all add: run rb1_def b_def n_def)
    next
      case False
      then have r0: "r = 0" by simp
      define m where "m = st32 (st32 (st32 (rb_mem rb) (H + a + 4) 0) (H + a) 0) (H + a + 4) 2"
      define rb1 where "rb1 = rb\<lparr>rb_mem := m, pucWrite := pucHead rb\<rparr>"
      have e: "pucTail rb - pucWrite rb - rbHEADER_SIZE = 0" using remr r0 by (simp add: unat_eq_zero)
      have p0: "unat (pucWrite rb) = H + a" by (simp add: i(11,12))
      have run: "prvCopyItemAllowSplit rb bs = mark_full (wrap_write (put_item bs (rbALIGN_SIZE (of_nat n)) rb1))"
        using \<open>\<not> a + 8 + rnd n \<le> S\<close> lt unfolding prvCopyItemAllowSplit_def Let_def
        by (simp add: e rb1_def m_def set_uxItemFlags_def set_xItemLen_def uxItemFlags_def p0 h4 rbITEM_DUMMY_DATA_FLAG_def ld32_st32_other flip: n_def)
      have w1: "unat (pucWrite rb1) = H" by (simp add: rb1_def i(7))
      have "unat (pucWrite rb1 + rbHEADER_SIZE + rbALIGN_SIZE (of_nat n)) = H + 8 + rnd n"
        using i(6,7) r by (intro unat_plus al) (simp_all add: w1 h8)
      then have "unat (pucWrite rb1 + rbHEADER_SIZE + rbALIGN_SIZE (of_nat n)) = H + b" by (simp add: b_def r0)
      from finish_copy [OF this, of S bs] obtain w where w: "mark_full (wrap_write (put_item bs (rbALIGN_SIZE (of_nat n)) rb1))
        = rb1\<lparr>rb_mem := rb_mem (put_item bs (rbALIGN_SIZE (of_nat n)) rb1), xItemsWaiting := 1, pucWrite := w,
          uxRingbufferFlags := (if w = pucFree rb1 then 5 else 1)\<rparr>" "unat w = H + b"
        using i(1,2,7,8) b(1) by (auto simp: rb1_def wb)
      have fit: "H + 8 + length bs \<le> H + a" "H + 8 + length bs < 2 ^ 32" using b r0 i(6,10) by (simp_all add: n_def)
      have p: "item_at (rb_mem (put_item bs (rbALIGN_SIZE (of_nat n)) rb1)) H 0 bs" by (rule put_item_at(1) [OF w1 fit(2)])
      have "hdr m (H + a) 0 2" by (simp add: hdr_def m_def ld32_st32_other)
      then have "hdr (rb_mem (put_item bs (rbALIGN_SIZE (of_nat n)) rb1)) (H + a) 0 2"
        using fit(1) by (subst put_item_at(2) [OF w1 fit(2)]) (simp_all add: rb1_def)
      then show ?thesis using r0 w p rS(1,3) by (intro copied_itemI(2) [where w = w and b = b and r = r]) (simp_all add: run rb1_def b_def n_def)
    qed
  qed
qed

text \<open>The pointers as offsets, the flags and the count.\<close>

definition ring_pos :: "Ringbuffer_t \<Rightarrow> nat \<Rightarrow> nat \<Rightarrow> nat \<Rightarrow> nat \<Rightarrow> nat \<Rightarrow> u32 \<Rightarrow> u32 \<Rightarrow> mem \<Rightarrow> bool" where
  "ring_pos rb H S f r w fl k m \<longleftrightarrow> xKind rb = RINGBUF_TYPE_ALLOWSPLIT \<and> unat (xSize rb) = S \<and> S < 2 ^ 31 \<and> 16 \<le> S \<and> 4 dvd S \<and> H + S < 2 ^ 32
     \<and> unat (pucHead rb) = H \<and> unat (pucTail rb) = H + S \<and> unat (xMaxItemSize rb) = S - 16
     \<and> unat (pucFree rb) = H + f \<and> unat (pucRead rb) = H + r \<and> unat (pucWrite rb) = H + w \<and> uxRingbufferFlags rb = fl \<and> xItemsWaiting rb = k \<and> rb_mem rb = m"

lemma ring_pos_sem [simp]:
  "ring_pos (rb\<lparr>xFreeSpaceSemaphore := b\<rparr>) H S f r w fl k m = ring_pos rb H S f r w fl k m"
  "ring_pos (rb\<lparr>xItemsBufferedSemaphore := b\<rparr>) H S f r w fl k m = ring_pos rb H S f r w fl k m"
  "ring_pos (give_after_receive rb) H S f r w fl k m = ring_pos rb H S f r w fl k m"
  "ring_pos (give_after_send x y rb) H S f r w fl k m = ring_pos rb H S f r w fl k m"
  by (simp_all add: ring_pos_def give_after_receive_def give_after_send_def Let_def)

lemma ring_pos_eq:
  assumes "ring_pos rb H S f r w fl k m"
  shows "pucFree rb = pucRead rb \<longleftrightarrow> f = r" and "pucFree rb = pucWrite rb \<longleftrightarrow> f = w" and "pucRead rb = pucWrite rb \<longleftrightarrow> r = w"
  using assms by (auto simp: ring_pos_def word_unat_eq_iff)

text \<open>Taking an item that is there, or behind a dummy header at the head.\<close>

lemma get_item_pos:
  assumes pos: "ring_pos rb H S f a w fl k m" and b: "if uxItemFlags m (pucRead rb) AND 2 \<noteq> 0 then b = 0 else b = a"
    and item: "item_at m (H + b) g bs" and fit: "b + 8 + rnd (length bs) \<le> S"
  shows "\<exists>rb' p. prvGetItemDefault rb = (rb', p, of_nat (length bs), g AND 4 \<noteq> 0) \<and> unat p = H + b + 8
    \<and> ring_pos rb' H S f (wrap_at S (b + 8 + rnd (length bs))) w fl (k - 1) m"
proof -
  have p: "H + S < 2 ^ 32" "unat (pucHead rb) = H" "unat (pucTail rb) = H + S" "unat (pucRead rb) = H + a" "rb_mem rb = m" "S < 2 ^ 31"
    using pos by (simp_all add: ring_pos_def)
  have r: "length bs \<le> rnd (length bs)" by (rule rnd_bounds)
  define rd where "rd = (if uxItemFlags m (pucRead rb) AND 2 \<noteq> 0 then pucHead rb else pucRead rb)"
  have rd: "unat rd = H + b" using b p(2,4) by (auto simp: rd_def split: if_splits)
  have rd4: "unat (rd + 4) = H + b + 4" using fit p(1) by (intro unat_plus) (simp_all add: rd)
  have len: "xItemLen m rd = of_nat (length bs)" "uxItemFlags m rd = g"
    using item by (simp_all add: item_at_def hdr_def xItemLen_def uxItemFlags_def rd rd4)
  have al: "unat (rbALIGN_SIZE (of_nat (length bs))) = rnd (length bs)" using r fit p(6) by (intro unat_align) simp
  have "unat (rd + (rbHEADER_SIZE + rbALIGN_SIZE (of_nat (length bs)))) = H + b + (8 + rnd (length bs))"
    using fit p(1) by (intro unat_plus rd al) (simp_all add: rbHEADER_SIZE_def)
  then have nx: "unat (rd + (rbHEADER_SIZE + rbALIGN_SIZE (of_nat (length bs)))) = H + (b + 8 + rnd (length bs))" by simp
  define nr where "nr = (if pucTail rb - (rd + (rbHEADER_SIZE + rbALIGN_SIZE (of_nat (length bs)))) < rbHEADER_SIZE then pucHead rb
    else rd + (rbHEADER_SIZE + rbALIGN_SIZE (of_nat (length bs))))"
  have "unat nr = H + wrap_at S (b + 8 + rnd (length bs))" unfolding nr_def by (rule unat_wrap [OF nx p(2,3) fit])
  then have "ring_pos (rb\<lparr>xItemsWaiting := xItemsWaiting rb - 1, pucRead := nr\<rparr>) H S f (wrap_at S (b + 8 + rnd (length bs))) w fl (k - 1) m"
    using pos by (simp add: ring_pos_def)
  moreover have "unat (rd + rbHEADER_SIZE) = H + b + 8" using fit p(1) by (intro unat_plus) (simp_all add: rd rbHEADER_SIZE_def)
  moreover have "prvGetItemDefault rb = (rb\<lparr>xItemsWaiting := xItemsWaiting rb - 1, pucRead := nr\<rparr>, rd + rbHEADER_SIZE, of_nat (length bs), g AND 4 \<noteq> 0)"
    unfolding prvGetItemDefault_def Let_def rbITEM_DUMMY_DATA_FLAG_def rbITEM_SPLIT_FLAG_def p(5) rd_def [symmetric] len nr_def [symmetric] by simp
  ultimately show ?thesis by blast
qed

text \<open>Moving the free pointer.\<close>

lemma advance_stop:
  assumes "ring_pos rb H S f r w fl k m" and "f = r \<or> (\<exists>n. hdr m (H + f) n 0 \<and> f + 8 \<le> S)"
  shows "advance_free rb = Some rb"
proof -
  have "f = r \<or> uxItemFlags (rb_mem rb) (pucFree rb) = 0"
  proof -
    have "unat (pucFree rb + 4) = H + f + 4" if "f + 8 \<le> S"
      using assms(1) that by (intro unat_plus) (simp_all add: ring_pos_def)
    then show ?thesis using assms by (auto simp: hdr_def uxItemFlags_def ring_pos_def)
  qed
  then show ?thesis using ring_pos_eq(1) [OF assms(1)] by (subst advance_free.simps) (auto simp: Let_def)
qed

lemma advance_item:
  assumes pos: "ring_pos rb H S f r w fl k m" and "f \<noteq> r" and h: "hdr m (H + f) n 1" and fit: "f + 8 + rnd n \<le> S"
  shows "\<exists>rb'. advance_free rb = advance_free rb' \<and> ring_pos rb' H S (wrap_at S (f + 8 + rnd n)) r w fl k m"
proof -
  have p: "H + S < 2 ^ 32" "unat (pucHead rb) = H" "unat (pucTail rb) = H + S" "unat (pucFree rb) = H + f" "rb_mem rb = m" "S < 2 ^ 31"
    using pos by (simp_all add: ring_pos_def)
  have n: "n \<le> rnd n" by (rule rnd_bounds)
  have "unat (pucFree rb + 4) = H + f + 4" using fit p(1,4) by (intro unat_plus) simp_all
  then have len: "xItemLen m (pucFree rb) = of_nat n" "uxItemFlags m (pucFree rb) = 1"
    using h by (simp_all add: hdr_def xItemLen_def uxItemFlags_def p(4))
  have al: "unat (rbALIGN_SIZE (of_nat n)) = rnd n" using n fit p(6) by (intro unat_align) simp
  have "unat (pucFree rb + (rbALIGN_SIZE (of_nat n) + rbHEADER_SIZE)) = H + f + (rnd n + 8)"
    using fit p(1,4) by (intro unat_plus al) (simp_all add: rbHEADER_SIZE_def)
  then have nx: "unat (pucFree rb + (rbALIGN_SIZE (of_nat n) + rbHEADER_SIZE)) = H + (f + 8 + rnd n)" by simp
  let ?f = "if pucTail rb - (pucFree rb + (rbALIGN_SIZE (of_nat n) + rbHEADER_SIZE)) < rbHEADER_SIZE then pucHead rb
    else pucFree rb + (rbALIGN_SIZE (of_nat n) + rbHEADER_SIZE)"
  have "advance_free rb = advance_free (rb\<lparr>pucFree := ?f\<rparr>)"
    using ring_pos_eq(1) [OF pos] assms(2)
    by (subst advance_free.simps) (simp add: Let_def p(5) len rbITEM_FREE_FLAG_def rbITEM_DUMMY_DATA_FLAG_def)
  moreover have "ring_pos (rb\<lparr>pucFree := ?f\<rparr>) H S (wrap_at S (f + 8 + rnd n)) r w fl k m"
    using pos unat_wrap [OF nx p(2,3) fit] by (simp add: ring_pos_def)
  ultimately show ?thesis by blast
qed

lemma advance_dummy:
  assumes pos: "ring_pos rb H S f r w fl k m" and "f \<noteq> r" and h: "hdr m (H + f) n 2" and fit: "f + 8 \<le> S"
  shows "\<exists>rb'. advance_free rb = advance_free rb' \<and> ring_pos rb' H S 0 r w fl k (st32 m (H + f + 4) 3)"
proof -
  have p: "H + S < 2 ^ 32" "unat (pucHead rb) = H" "unat (pucTail rb) = H + S" "unat (pucFree rb) = H + f" "rb_mem rb = m" "16 \<le> S"
    using pos by (simp_all add: ring_pos_def)
  have f4: "unat (pucFree rb + 4) = H + f + 4" using fit p(1,4) by (intro unat_plus) simp_all
  then have len: "uxItemFlags m (pucFree rb) = 2" using h by (simp add: hdr_def uxItemFlags_def)
  have "unat (pucTail rb - pucHead rb) = S" using ptr_facts(3) [of "pucTail rb" H S "pucHead rb" 0] p by simp
  then have no: "\<not> pucTail rb - pucHead rb < rbHEADER_SIZE" using p(6) by (simp add: word_less_nat_alt rbHEADER_SIZE_def)
  have "advance_free rb = advance_free (rb\<lparr>rb_mem := st32 m (H + f + 4) 3, pucFree := pucHead rb\<rparr>)"
    using ring_pos_eq(1) [OF pos] assms(2) no
    by (subst advance_free.simps) (simp add: Let_def p(5) len f4 set_uxItemFlags_def rbITEM_FREE_FLAG_def rbITEM_DUMMY_DATA_FLAG_def)
  moreover have "ring_pos (rb\<lparr>rb_mem := st32 m (H + f + 4) 3, pucFree := pucHead rb\<rparr>) H S 0 r w fl k (st32 m (H + f + 4) 3)"
    using pos by (simp add: ring_pos_def)
  ultimately show ?thesis by blast
qed

text \<open>Giving back.\<close>

definition clear_full :: "Ringbuffer_t \<Rightarrow> Ringbuffer_t" where
  "clear_full rb = (if flag rb rbBUFFER_FULL_FLAG then
      if pucFree rb \<noteq> pucWrite rb then rb\<lparr>uxRingbufferFlags := uxRingbufferFlags rb AND NOT rbBUFFER_FULL_FLAG\<rparr>
      else if pucFree rb = pucWrite rb \<and> pucFree rb = pucRead rb then rb\<lparr>uxRingbufferFlags := uxRingbufferFlags rb AND NOT rbBUFFER_FULL_FLAG\<rparr>
      else rb else rb)"

lemma clear_full_pos:
  assumes "ring_pos rb H S f r w fl k m" and "fl = 1 \<or> fl = 5 \<and> (f \<noteq> w \<or> f = r)"
  shows "ring_pos (clear_full rb) H S f r w 1 k m"
proof -
  have "uxRingbufferFlags rb = fl" using assms(1) by (simp add: ring_pos_def)
  then have "clear_full rb = rb\<lparr>uxRingbufferFlags := 1\<rparr>"
    using assms(2) ring_pos_eq(1,2) [OF assms(1)] by (auto simp: clear_full_def rbBUFFER_FULL_FLAG_def)
  then show ?thesis using assms(1) by (simp add: ring_pos_def)
qed

lemma return_item_pos:
  assumes pos: "ring_pos rb H S f r w fl k m" and p: "unat p = H + b + 8" and b: "b + 8 \<le> S" and h: "hdr m (H + b) n g" and g: "g = 0 \<or> g = 4"
  shows "\<exists>m' rb1. ring_pos rb1 H S f r w fl k m' \<and> hdr m' (H + b) n 1 \<and> (\<forall>c n' g'. c + 8 \<le> b \<or> b + 8 \<le> c \<longrightarrow> hdr m' (H + c) n' g' = hdr m (H + c) n' g')
    \<and> prvReturnItemDefault rb p = map_option clear_full (advance_free rb1)"
proof -
  have q: "unat (p - rbHEADER_SIZE) = H + b"
    using p by (subst unat_sub) (simp_all add: rbHEADER_SIZE_def word_le_nat_alt)
  have "H + S < 2 ^ 32" "rb_mem rb = m" using pos by (simp_all add: ring_pos_def)
  then have q4: "unat (p - rbHEADER_SIZE + 4) = H + b + 4" using b by (intro unat_plus q) simp_all
  define m1 where "m1 = st32 m (H + b + 4) 0"
  define m' where "m' = st32 m1 (H + b + 4) 1"
  have l: "ld32 m (H + b + 4) = g" using h by (simp add: hdr_def)
  have 1: "set_uxItemFlags (p - rbHEADER_SIZE) (uxItemFlags (rb_mem rb) (p - rbHEADER_SIZE) AND NOT rbITEM_SPLIT_FLAG) (rb_mem rb) = m1"
    using g by (auto simp: set_uxItemFlags_def uxItemFlags_def q4 l \<open>rb_mem rb = m\<close> m1_def rbITEM_SPLIT_FLAG_def)
  have 2: "set_uxItemFlags (p - rbHEADER_SIZE) (uxItemFlags m1 (p - rbHEADER_SIZE) OR rbITEM_FREE_FLAG) m1 = m'"
    by (simp add: set_uxItemFlags_def uxItemFlags_def q4 m1_def m'_def rbITEM_FREE_FLAG_def)
  have "prvReturnItemDefault rb p = map_option clear_full (advance_free (rb\<lparr>rb_mem := m'\<rparr>))"
    unfolding prvReturnItemDefault_def Let_def 1 2 clear_full_def by (cases "advance_free (rb\<lparr>rb_mem := m'\<rparr>)") simp_all
  moreover have "hdr m' (H + b) n 1" using h by (simp add: m'_def m1_def hdr_def ld32_st32_other)
  moreover have "hdr m' (H + c) n' g' = hdr m (H + c) n' g'" if "c + 8 \<le> b \<or> b + 8 \<le> c" for c n' g'
    using that by (auto simp: m'_def m1_def hdr_def ld32_st32_other)
  moreover have "ring_pos (rb\<lparr>rb_mem := m'\<rparr>) H S f r w fl k m'" using pos by (simp add: ring_pos_def)
  ultimately show ?thesis by blast
qed

text \<open>Send an item, receive it, in one part or two, read the parts and give them back.\<close>

definition item_cycle :: "Ringbuffer_t \<Rightarrow> u8 list \<Rightarrow> (Ringbuffer_t \<times> u8 list) option" where
  "item_cycle rb bs =
    (let (rb1, ok) = xRingbufferSendFromISR rb bs; (rb2, r) = xRingbufferReceiveSplitFromISR rb1 in
     if \<not> ok then None
     else case r of None \<Rightarrow> None
       | Some ((p, n), second) \<Rightarrow> do {
           rb3 \<leftarrow> vRingbufferReturnItemFromISR rb2 p;
           rb4 \<leftarrow> (case second of None \<Rightarrow> Some rb3 | Some (p2, n2) \<Rightarrow> vRingbufferReturnItemFromISR rb3 p2);
           Some (rb4, mem_read (rb_mem rb2) (unat p) (unat n)
             @ (case second of None \<Rightarrow> [] | Some (p2, n2) \<Rightarrow> mem_read (rb_mem rb2) (unat p2) (unat n2)))
         })"

fun item_cycles :: "Ringbuffer_t \<Rightarrow> u8 list list \<Rightarrow> (Ringbuffer_t \<times> u8 list list) option" where
  "item_cycles rb [] = Some (rb, [])"
| "item_cycles rb (bs # rest) = do {
     (rb1, out) \<leftarrow> item_cycle rb bs;
     (rb2, outs) \<leftarrow> item_cycles rb1 rest;
     Some (rb2, out # outs)
   }"

lemma idle_pos: "ring_idle rb H S a \<longleftrightarrow> (\<exists>m. ring_pos rb H S a a a 1 0 m) \<and> 4 dvd a \<and> a + 8 \<le> S"
  by (auto simp: ring_idle_def ring_pos_def word_unat_eq_iff)

lemma send_item:
  assumes idle: "ring_idle rb H S a" and n: "length bs + 16 \<le> S"
  shows "\<exists>rb1 w m k. xRingbufferSendFromISR rb bs = (rb1, True) \<and> ring_pos rb1 H S a a w (if w = a then 5 else 1) k m \<and> item_placed m bs H S a w k"
proof -
  have c: "copied_item rb bs H S a (prvCopyItemAllowSplit rb bs)" by (rule idle_copy [OF idle n])
  obtain m0 where p: "ring_pos rb H S a a a 1 0 m0" using idle by (auto simp: idle_pos)
  then have q: "xKind rb = RINGBUF_TYPE_ALLOWSPLIT" "uxRingbufferFlags rb = 1" "unat (xMaxItemSize rb) = S - 16" "S < 2 ^ 31" "unat (pucFree rb) = H + a"
    by (simp_all add: ring_pos_def)
  have un: "unat (of_nat (length bs) :: u32) = length bs" using n q(4) by (intro unat_of_nat_small) simp
  obtain m w k fl where e: "prvCopyItemAllowSplit rb bs = rb\<lparr>rb_mem := m, xItemsWaiting := k, pucWrite := w, uxRingbufferFlags := (if w = pucFree rb then 5 else 1)\<rparr>"
      "unat w = H + fl" "item_placed m bs H S a fl k" using c unfolding copied_item_def by blast
  have "w = pucFree rb \<longleftrightarrow> fl = a" using e(2) q(5) by (simp add: word_unat_eq_iff)
  then have pos: "ring_pos (prvCopyItemAllowSplit rb bs) H S a a fl (if fl = a then 5 else 1) k m" using p e by (simp add: ring_pos_def)
  have "\<not> of_nat (length bs) > xMaxItemSize rb" using n by (simp add: word_less_nat_alt un q(3))
  moreover have "xCheckItemFits rb (of_nat (length bs))"
    using p ring_pos_eq [OF p] by (simp add: xCheckItemFits_def prvCheckItemFitsDefault_def q(1,2) rbBUFFER_FULL_FLAG_def)
  ultimately have "xRingbufferSendFromISR rb bs
      = (give_after_send True (prvGetFreeSize (prvCopyItemAllowSplit rb bs) > 0) (prvCopyItemAllowSplit rb bs), True)"
    by (simp add: xRingbufferSendFromISR_def q(1,2) rbBYTE_BUFFER_FLAG_def try_send_def Let_def vCopyItem_def)
  moreover have "ring_pos (give_after_send True (prvGetFreeSize (prvCopyItemAllowSplit rb bs) > 0) (prvCopyItemAllowSplit rb bs))
      H S a a fl (if fl = a then 5 else 1) k m" using pos by simp
  ultimately show ?thesis using e(3) by blast
qed

lemma receive_split:
  assumes pos: "ring_pos rb H S a a w fl k m" and avail: "fl = 1 \<and> w \<noteq> a \<or> fl = 5" and k: "k = 1 \<or> k = 2"
    and get: "prvGetItemDefault rb = (rb1, p, n, split)" "ring_pos rb1 H S a r w fl k' m"
  shows "\<not> split \<Longrightarrow> xRingbufferReceiveSplitFromISR rb = (give_after_receive rb1, Some ((p, n), None))"
    and "split \<Longrightarrow> prvGetItemDefault rb1 = (rb2, p2, n2, x) \<Longrightarrow> xRingbufferReceiveSplitFromISR rb = (give_after_receive rb2, Some ((p, n), Some (p2, n2)))"
proof -
  have q: "xKind rb = RINGBUF_TYPE_ALLOWSPLIT" "uxRingbufferFlags rb = fl" "xItemsWaiting rb = k"
    "xKind rb1 = RINGBUF_TYPE_ALLOWSPLIT" "uxRingbufferFlags rb1 = fl"
    using pos get(2) by (simp_all add: ring_pos_def)
  have "0 < sint k" using k by auto
  then have "prvCheckItemAvail rb" using avail ring_pos_eq(3) [OF pos]
    by (auto simp: prvCheckItemAvail_def q rbBYTE_BUFFER_FLAG_def rbBUFFER_FULL_FLAG_def)
  then show "\<not> split \<Longrightarrow> xRingbufferReceiveSplitFromISR rb = (give_after_receive rb1, Some ((p, n), None))"
    and "split \<Longrightarrow> prvGetItemDefault rb1 = (rb2, p2, n2, x) \<Longrightarrow> xRingbufferReceiveSplitFromISR rb = (give_after_receive rb2, Some ((p, n), Some (p2, n2)))"
    using get(1) avail by (auto simp: xRingbufferReceiveSplitFromISR_def prvReceiveGenericFromISR_def take_items_def pvGetItem_def q
        rbBYTE_BUFFER_FLAG_def rbALLOW_SPLIT_FLAG_def)
qed

text \<open>The return of an item, to a place \<open>f'\<close> of the free pointer that the caller names.\<close>

lemma return_pos:
  assumes pos: "ring_pos rb H S f r w fl k m" and p: "unat p = H + b + 8" and b: "b + 8 \<le> S" and h: "hdr m (H + b) n g" and g: "g = 0 \<or> g = 4"
    and adv: "\<And>m' rb1. ring_pos rb1 H S f r w fl k m' \<Longrightarrow> hdr m' (H + b) n 1
      \<Longrightarrow> \<forall>c n' g'. c + 8 \<le> b \<or> b + 8 \<le> c \<longrightarrow> hdr m' (H + c) n' g' = hdr m (H + c) n' g'
      \<Longrightarrow> \<exists>rb2 m2. advance_free rb1 = Some rb2 \<and> ring_pos rb2 H S f' r w fl k m2 \<and> (keep \<longrightarrow> m2 = m')"
    and full: "fl = 1 \<or> fl = 5 \<and> (f' \<noteq> w \<or> f' = r)"
  shows "\<exists>rb' m'. vRingbufferReturnItemFromISR rb p = Some rb' \<and> ring_pos rb' H S f' r w 1 k m'
    \<and> (keep \<longrightarrow> (\<forall>c n' g'. c + 8 \<le> b \<or> b + 8 \<le> c \<longrightarrow> hdr m' (H + c) n' g' = hdr m (H + c) n' g'))"
proof -
  obtain m' rb1 where r: "ring_pos rb1 H S f r w fl k m'" "hdr m' (H + b) n 1"
      "\<forall>c n' g'. c + 8 \<le> b \<or> b + 8 \<le> c \<longrightarrow> hdr m' (H + c) n' g' = hdr m (H + c) n' g'"
      "prvReturnItemDefault rb p = map_option clear_full (advance_free rb1)"
    using return_item_pos [OF pos p b h g] by blast
  from adv [OF r(1-3)] obtain rb2 m2 where a: "advance_free rb1 = Some rb2" "ring_pos rb2 H S f' r w fl k m2" "keep \<longrightarrow> m2 = m'" by blast
  have "xKind rb \<noteq> RINGBUF_TYPE_BYTEBUF" using pos by (simp add: ring_pos_def)
  then have "vRingbufferReturnItemFromISR rb p = Some (clear_full rb2\<lparr>xFreeSpaceSemaphore := True\<rparr>)"
    using r(4) a(1) by (simp add: vRingbufferReturnItemFromISR_def vReturnItem_def)
  moreover have "ring_pos (clear_full rb2\<lparr>xFreeSpaceSemaphore := True\<rparr>) H S f' r w 1 k m2"
    using clear_full_pos [OF a(2) full] by simp
  ultimately show ?thesis using a(3) r(3) by blast
qed

lemma get_item:
  assumes pos: "ring_pos rb H S f a w fl k m" and item: "item_at m (H + b) g bs" and fit: "b + 8 + rnd (length bs) \<le> S" "a + 8 \<le> S"
    and b: "b = a \<and> (g = 0 \<or> g = 4) \<or> b = 0 \<and> hdr m (H + a) 0 2"
  shows "\<exists>rb' p n. prvGetItemDefault rb = (rb', p, n, g AND 4 \<noteq> 0) \<and> unat p = H + b + 8 \<and> mem_read m (unat p) (unat n) = bs
    \<and> ring_pos rb' H S f (wrap_at S (b + 8 + rnd (length bs))) w fl (k - 1) m"
proof -
  have p: "H + S < 2 ^ 32" "unat (pucRead rb) = H + a" "S < 2 ^ 31" using pos by (simp_all add: ring_pos_def)
  have "unat (pucRead rb + 4) = H + a + 4" using fit(2) p(1) by (intro unat_plus) (simp_all add: p(2))
  then have "if uxItemFlags m (pucRead rb) AND 2 \<noteq> 0 then b = 0 else b = a"
    using b item by (auto simp: uxItemFlags_def item_at_def hdr_def)
  from get_item_pos [OF pos this item fit(1)] obtain rb' q where g: "prvGetItemDefault rb = (rb', q, of_nat (length bs), g AND 4 \<noteq> 0)"
    "unat q = H + b + 8" "ring_pos rb' H S f (wrap_at S (b + 8 + rnd (length bs))) w fl (k - 1) m" by blast
  have "length bs < 2 ^ 32" using rnd_bounds(1) [of "length bs"] fit(1) p(3) by simp
  then have "unat (of_nat (length bs) :: u32) = length bs" by (intro unat_of_nat_small) simp
  then show ?thesis using g item by (auto simp: item_at_def)
qed

lemma cycle_whole:
  assumes idle: "ring_idle rb H S a" and n: "length bs + 16 \<le> S" and fit: "a + 8 + rnd (length bs) \<le> S"
  shows "\<exists>rb' a'. item_cycle rb bs = Some (rb', bs) \<and> ring_idle rb' H S a'"
proof -
  obtain rb1 w m k where s: "xRingbufferSendFromISR rb bs = (rb1, True)" and pos: "ring_pos rb1 H S a a w (if w = a then 5 else 1) k m"
    and pl: "item_placed m bs H S a w k" using send_item [OF idle n] by blast
  have i: "4 dvd a" "a + 8 \<le> S" "4 dvd S" "16 \<le> S" using idle by (simp_all add: ring_idle_def)
  have it: "k = 1" "w = wrap_at S (a + 8 + rnd (length bs))" "item_at m (H + a) 0 bs" using pl fit by (simp_all add: item_placed_def)
  have r: "rnd (length bs) + 16 \<le> S" by (rule rnd_fits [OF i(3) n])
  have w: "w \<noteq> a" "4 dvd w" "w + 8 \<le> S" using r i rnd_bounds(3) [of "length bs"] by (auto simp: it(2) wrap_at_def)
  have pos1: "ring_pos rb1 H S a a w 1 1 m" using pos w(1) it(1) by simp
  obtain rb2 p l where g: "prvGetItemDefault rb1 = (rb2, p, l, False)" "unat p = H + a + 8" "mem_read m (unat p) (unat l) = bs" "ring_pos rb2 H S a w w 1 0 m"
    using get_item [OF pos1 it(3) fit i(2)] by (auto simp flip: it(2))
  have rec: "xRingbufferReceiveSplitFromISR rb1 = (give_after_receive rb2, Some ((p, l), None))"
    using receive_split(1) [OF pos1 _ _ g(1,4)] w(1) by simp
  have posr: "ring_pos (give_after_receive rb2) H S a w w 1 0 m" using g(4) by simp
  have "\<exists>rb3 m3. vRingbufferReturnItemFromISR (give_after_receive rb2) p = Some rb3 \<and> ring_pos rb3 H S w w w 1 0 m3"
  proof -
    have "\<exists>rb4 m4. advance_free rb3 = Some rb4 \<and> ring_pos rb4 H S w w w 1 0 m4 \<and> (False \<longrightarrow> m4 = m')"
      if "ring_pos rb3 H S a w w 1 0 m'" "hdr m' (H + a) (length bs) 1" for m' rb3
      using advance_item [OF that(1) _ that(2) fit] w(1) advance_stop unfolding it(2) [symmetric] by metis
    moreover have "hdr m (H + a) (length bs) 0" using it(3) by (simp add: item_at_def)
    ultimately show ?thesis using return_pos [OF posr g(2) i(2), of "length bs" 0 w] by blast
  qed
  then obtain rb3 m3 where ret: "vRingbufferReturnItemFromISR (give_after_receive rb2) p = Some rb3" "ring_pos rb3 H S w w w 1 0 m3" by blast
  have "rb_mem (give_after_receive rb2) = m" using posr by (simp add: ring_pos_def)
  then have "item_cycle rb bs = Some (rb3, bs)" by (simp add: item_cycle_def s rec ret(1) g(3))
  then show ?thesis using ret(2) w(2,3) by (auto simp: idle_pos)
qed

lemma cycle_dummy:
  assumes idle: "ring_idle rb H S a" and n: "length bs + 16 \<le> S" and fit: "\<not> a + 8 + rnd (length bs) \<le> S" and a8: "a + 8 = S"
  shows "\<exists>rb' a'. item_cycle rb bs = Some (rb', bs) \<and> ring_idle rb' H S a'"
proof -
  obtain rb1 w m k where s: "xRingbufferSendFromISR rb bs = (rb1, True)" and pos: "ring_pos rb1 H S a a w (if w = a then 5 else 1) k m"
    and pl: "item_placed m bs H S a w k" using send_item [OF idle n] by blast
  define fl :: u32 where "fl = (if w = a then 5 else 1)"
  have i: "4 dvd a" "a + 8 \<le> S" "4 dvd S" "16 \<le> S" using idle by (simp_all add: ring_idle_def)
  have it: "k = 1" "w = 8 + rnd (length bs)" "hdr m (H + a) 0 2" "item_at m (H + 0) 0 bs" using pl fit a8 by (simp_all add: item_placed_def)
  have r: "rnd (length bs) + 16 \<le> S" by (rule rnd_fits [OF i(3) n])
  have fit0: "0 + 8 + rnd (length bs) \<le> S" using r by simp
  have w: "wrap_at S (0 + 8 + rnd (length bs)) = w" "4 dvd w" "w + 8 \<le> S" "w \<noteq> 0" using r rnd_bounds(3) [of "length bs"] by (auto simp: it(2) wrap_at_def)
  have pos1: "ring_pos rb1 H S a a w fl 1 m" using pos it(1) by (simp add: fl_def)
  obtain rb2 p l where g: "prvGetItemDefault rb1 = (rb2, p, l, False)" "unat p = H + 0 + 8" "mem_read m (unat p) (unat l) = bs" "ring_pos rb2 H S a w w fl 0 m"
    using get_item [OF pos1 it(4) fit0 i(2), unfolded w(1)] it(3) by auto
  have rec: "xRingbufferReceiveSplitFromISR rb1 = (give_after_receive rb2, Some ((p, l), None))"
    using receive_split(1) [OF pos1 _ _ g(1,4)] by (simp add: fl_def)
  have posr: "ring_pos (give_after_receive rb2) H S a w w fl 0 m" using g(4) by simp
  have h0: "hdr m (H + 0) (length bs) 0" using it(4) by (simp add: item_at_def)
  have full: "fl = 1 \<or> fl = 5 \<and> (w \<noteq> w \<or> w = w)" by (simp add: fl_def)
  have adv: "\<exists>rb4 m4. advance_free rb3 = Some rb4 \<and> ring_pos rb4 H S w w w fl 0 m4 \<and> (False \<longrightarrow> m4 = m')"
    if t: "ring_pos rb3 H S a w w fl 0 m'" "hdr m' (H + 0) (length bs) 1"
      "\<forall>c n' g'. c + 8 \<le> 0 \<or> 0 + 8 \<le> c \<longrightarrow> hdr m' (H + c) n' g' = hdr m (H + c) n' g'" for m' rb3
  proof (cases "a = w")
    case True
    then show ?thesis using advance_stop [OF t(1)] t(1) by blast
  next
    case False
    have "hdr m' (H + a) 0 2" using t(3) it(3) a8 i(4) by simp
    from advance_dummy [OF t(1) False this i(2)] obtain rb5 where d: "advance_free rb3 = advance_free rb5"
      "ring_pos rb5 H S 0 w w fl 0 (st32 m' (H + a + 4) 3)" by blast
    have "hdr (st32 m' (H + a + 4) 3) (H + 0) (length bs) 1" using t(2) a8 i(4) by (simp add: hdr_def ld32_st32_other)
    from advance_item [OF d(2) w(4) [symmetric] this fit0] obtain rb6 where e: "advance_free rb5 = advance_free rb6"
      "ring_pos rb6 H S w w w fl 0 (st32 m' (H + a + 4) 3)" unfolding w(1) by blast
    have "advance_free rb3 = Some rb6" using advance_stop [OF e(2)] d(1) e(1) by simp
    then show ?thesis using e(2) by blast
  qed
  have b8: "0 + 8 \<le> S" using i(4) by simp
  obtain rb3 m3 where ret: "vRingbufferReturnItemFromISR (give_after_receive rb2) p = Some rb3" "ring_pos rb3 H S w w w 1 0 m3"
    using return_pos [OF posr g(2) b8 h0 disjI1 [OF refl] adv full] by blast
  have "rb_mem (give_after_receive rb2) = m" using posr by (simp add: ring_pos_def)
  then have "item_cycle rb bs = Some (rb3, bs)" by (simp add: item_cycle_def s rec ret(1) g(3))
  then show ?thesis using ret(2) w(2,3) by (auto simp: idle_pos)
qed

lemma cycle_split:
  assumes idle: "ring_idle rb H S a" and n: "length bs + 16 \<le> S" and fit: "\<not> a + 8 + rnd (length bs) \<le> S" and a8: "a + 8 < S"
  shows "\<exists>rb' a'. item_cycle rb bs = Some (rb', bs) \<and> ring_idle rb' H S a'"
proof -
  obtain rb1 w m k where s: "xRingbufferSendFromISR rb bs = (rb1, True)" and pos: "ring_pos rb1 H S a a w (if w = a then 5 else 1) k m"
    and pl: "item_placed m bs H S a w k" using send_item [OF idle n] by blast
  define fl :: u32 where "fl = (if w = a then 5 else 1)"
  define r where "r = S - (a + 8)"
  have i: "4 dvd a" "a + 8 \<le> S" "4 dvd S" "16 \<le> S" using idle by (simp_all add: ring_idle_def)
  have it: "k = 2" "w = 8 + rnd (length bs) - r" "item_at m (H + a) 4 (take r bs)" "item_at m (H + 0) 0 (drop r bs)"
    using pl fit a8 by (simp_all add: item_placed_def r_def)
  have r: "4 dvd r" "a + 8 + r = S" "r < rnd (length bs)" "rnd (length bs) + 16 \<le> S"
    using i a8 fit rnd_fits [OF i(3) n] by (auto simp: r_def dvd_diff_nat)
  have rn: "r \<le> length bs" using r(1,3) rnd_le [of r "length bs"] by (meson leD nat_le_linear)
  have rr: "rnd r = r" using rnd_le [OF r(1), of r] rnd_bounds(1) [of r] by simp
  have l: "length (take r bs) = r" "length (drop r bs) = length bs - r" "rnd (length bs - r) = rnd (length bs) - r"
    using rn rnd_sub4 [OF r(1) rn] by simp_all
  have fit1: "a + 8 + rnd (length (take r bs)) \<le> S" and fit2: "0 + 8 + rnd (length (drop r bs)) \<le> S"
    using r unfolding l rr by simp_all
  have w: "wrap_at S (0 + 8 + rnd (length (drop r bs))) = w" "wrap_at S (a + 8 + rnd (length (take r bs))) = 0" "4 dvd w" "w + 8 \<le> S" "w \<noteq> 0" "8 \<le> a"
    using r rnd_bounds(3) [of "length bs"] unfolding l rr by (auto simp: it(2) wrap_at_def dvd_diff_nat)
  have pos1: "ring_pos rb1 H S a a w fl 2 m" using pos it(1) by (simp add: fl_def)
  obtain rb2 p x where g: "prvGetItemDefault rb1 = (rb2, p, x, True)" "unat p = H + a + 8" "mem_read m (unat p) (unat x) = take r bs" "ring_pos rb2 H S a 0 w fl 1 m"
    using get_item [OF pos1 it(3) fit1 i(2), unfolded w(2)] by auto
  have z8: "0 + 8 \<le> S" using i(4) by simp
  obtain rb3 p2 x2 where g2: "prvGetItemDefault rb2 = (rb3, p2, x2, False)" "unat p2 = H + 0 + 8" "mem_read m (unat p2) (unat x2) = drop r bs" "ring_pos rb3 H S a w w fl 0 m"
    using get_item [OF g(4) it(4) fit2 z8, unfolded w(1)] by auto
  have rec: "xRingbufferReceiveSplitFromISR rb1 = (give_after_receive rb3, Some ((p, x), Some (p2, x2)))"
    using receive_split(2) [OF pos1 _ _ g(1,4) _ g2(1)] by (simp add: fl_def)
  have posr: "ring_pos (give_after_receive rb3) H S a w w fl 0 m" using g2(4) by simp
  define f' where "f' = (if a = w then w else 0)"
  have h: "hdr m (H + a) r 4" "hdr m (H + 0) (length bs - r) 0" using it(3,4) rn by (simp_all add: item_at_def l min_absorb2)
  have adv1: "\<exists>rb5 m5. advance_free rb4 = Some rb5 \<and> ring_pos rb5 H S f' w w fl 0 m5 \<and> (True \<longrightarrow> m5 = m')"
    if t: "ring_pos rb4 H S a w w fl 0 m'" "hdr m' (H + a) r 1"
      "\<forall>c n' g'. c + 8 \<le> a \<or> a + 8 \<le> c \<longrightarrow> hdr m' (H + c) n' g' = hdr m (H + c) n' g'" for m' rb4
  proof (cases "a = w")
    case True
    then show ?thesis using advance_stop [OF t(1)] t(1) by (auto simp: f'_def)
  next
    case False
    have "hdr m' (H + a) (length (take r bs)) 1" using t(2) l(1) by simp
    from advance_item [OF t(1) False this fit1] obtain rb5 where d: "advance_free rb4 = advance_free rb5"
      "ring_pos rb5 H S 0 w w fl 0 m'" unfolding w(2) by blast
    have "hdr m' (H + 0) (length bs - r) 0" using t(3) [rule_format, of 0 "length bs - r" 0] h(2) w(6) by simp
    then have "advance_free rb4 = Some rb5" using advance_stop [OF d(2)] d(1) z8 by metis
    then show ?thesis using d(2) False by (simp add: f'_def)
  qed
  have "fl = 1 \<or> fl = 5 \<and> (f' \<noteq> w \<or> f' = w)" by (simp add: fl_def)
  from return_pos [OF posr g(2) i(2) h(1) disjI2 [OF refl] adv1 this] obtain rb4 m4
    where ret: "vRingbufferReturnItemFromISR (give_after_receive rb3) p = Some rb4" "ring_pos rb4 H S f' w w 1 0 m4"
      and keep: "\<forall>c n' g'. c + 8 \<le> a \<or> a + 8 \<le> c \<longrightarrow> hdr m4 (H + c) n' g' = hdr m (H + c) n' g'" by blast
  have h4: "hdr m4 (H + 0) (length bs - r) 0" using keep [rule_format, of 0 "length bs - r" 0] h(2) w(6) by simp
  have adv2: "\<exists>rb6 m6. advance_free rb5 = Some rb6 \<and> ring_pos rb6 H S w w w 1 0 m6 \<and> (False \<longrightarrow> m6 = m')"
    if t: "ring_pos rb5 H S f' w w 1 0 m'" "hdr m' (H + 0) (length bs - r) 1"
      "\<forall>c n' g'. c + 8 \<le> 0 \<or> 0 + 8 \<le> c \<longrightarrow> hdr m' (H + c) n' g' = hdr m4 (H + c) n' g'" for m' rb5
  proof (cases "a = w")
    case True
    then show ?thesis using advance_stop [OF t(1)] t(1) by (auto simp: f'_def)
  next
    case False
    have t1: "ring_pos rb5 H S 0 w w 1 0 m'" using t(1) False by (simp add: f'_def)
    have "hdr m' (H + 0) (length (drop r bs)) 1" using t(2) l(2) by simp
    from advance_item [OF t1 w(5) [symmetric] this fit2] obtain rb6 where d: "advance_free rb5 = advance_free rb6"
      "ring_pos rb6 H S w w w 1 0 m'" unfolding w(1) by blast
    have "advance_free rb5 = Some rb6" using advance_stop [OF d(2)] d(1) by simp
    then show ?thesis using d(2) by blast
  qed
  obtain rb5 m5 where ret2: "vRingbufferReturnItemFromISR rb4 p2 = Some rb5" "ring_pos rb5 H S w w w 1 0 m5"
    using return_pos [OF ret(2) g2(2) z8 h4 disjI1 [OF refl] adv2 disjI1 [OF refl]] by blast
  have "rb_mem (give_after_receive rb3) = m" using posr by (simp add: ring_pos_def)
  then have "item_cycle rb bs = Some (rb5, take r bs @ drop r bs)" by (simp add: item_cycle_def s rec ret(1) ret2(1) g(3) g2(3))
  then show ?thesis using ret2(2) w(3,4) by (auto simp: idle_pos)
qed

text \<open>C26: What goes into a buffer that may split comes out of it: items of any length up to the size asked for at the creation (at least 16) less 16 bytes, sent, received in one part or in two, and
  given back one after the other, are each accepted, the parts put together are the item, and the buffer is left empty for the next,
  wherever its pointers stand, around the end of the storage for ever.\<close>

theorem split_items_roundtrip:
  assumes "xRingbufferCreate True head True m sz RINGBUF_TYPE_ALLOWSPLIT = Some rb" and "16 \<le> unat sz" and "unat sz + 3 < 2 ^ 31"
    and "unat head + unat sz + 3 < 2 ^ 32" and "\<forall>bs \<in> set items. length bs + 16 \<le> unat sz"
  shows "\<exists>rb'. item_cycles rb items = Some (rb', items)"
proof -
  define S where "S = rnd (unat sz)"
  have S: "unat sz \<le> S" "S < unat sz + 4" "4 dvd S" unfolding S_def by (rule rnd_bounds)+
  have al: "unat (rbALIGN_SIZE sz) = S" using assms(3) unat_align [of "unat sz"] by (simp add: S_def)
  have t: "unat (head + rbALIGN_SIZE sz) = unat head + S" using S assms(4) by (intro unat_plus al) simp_all
  have mx: "unat (rbALIGN_SIZE sz - 16) = S - 16" using S assms(2) by (subst unat_sub) (simp_all add: word_le_nat_alt al)
  have idle: "ring_idle rb (unat head) S 0"
    using assms(1-4) S al t mx
    by (auto simp: xRingbufferCreate_def Let_def ring_idle_def rbALLOW_SPLIT_FLAG_def rbHEADER_SIZE_def split: if_splits)
  have "ring_idle rb H S a \<Longrightarrow> \<forall>bs \<in> set items. length bs + 16 \<le> S \<Longrightarrow> \<exists>rb'. item_cycles rb items = Some (rb', items)" for rb H a
  proof (induction items arbitrary: rb a)
    case (Cons bs rest)
    have n: "length bs + 16 \<le> S" using Cons.prems(2) by simp
    have "a + 8 \<le> S" using Cons.prems(1) by (simp add: ring_idle_def)
    then obtain rb1 a1 where c: "item_cycle rb bs = Some (rb1, bs)" "ring_idle rb1 H S a1"
      using cycle_whole [OF Cons.prems(1) n] cycle_dummy [OF Cons.prems(1) n] cycle_split [OF Cons.prems(1) n] by (metis le_neq_implies_less)
    then show ?case using Cons.IH [OF c(2)] Cons.prems(2) by auto
  qed simp
  then show ?thesis using idle assms(5) S(1) by (meson order_trans)
qed

theorem split_items_roundtrip_witness:
  "\<exists>rb rb'. xRingbufferCreate True 4096 True (\<lambda>_. 0) 40 RINGBUF_TYPE_ALLOWSPLIT = Some rb
     \<and> item_cycles rb [replicate 20 1, replicate 24 2, [], replicate 17 3] = Some (rb', [replicate 20 1, replicate 24 2, [], replicate 17 3])"
proof -
  obtain rb where c: "xRingbufferCreate True 4096 True (\<lambda>_. 0) 40 RINGBUF_TYPE_ALLOWSPLIT = Some rb" by (simp add: xRingbufferCreate_def Let_def)
  have "16 \<le> unat (40 :: u32)" "unat (40 :: u32) + 3 < 2 ^ 31" "unat (4096 :: u32) + unat (40 :: u32) + 3 < 2 ^ 32"
    "\<forall>bs \<in> set [replicate 20 1, replicate 24 2, [], replicate 17 (3 :: u8)]. length bs + 16 \<le> unat (40 :: u32)" by simp_all
  from split_items_roundtrip [OF c this] show ?thesis using c by blast
qed

end
