(* ===== verification/Split_Argv.thy ===== *)
theory Split_Argv
  imports Prelude
begin

text \<open>
  Splitting a command line, \<^verbatim>\<open>components/console/split_argv.c\<close>. The line is split in place: the
  arguments are written over the line that is being read, and \<^verbatim>\<open>argv\<close> holds where each starts.
\<close>

datatype split_state_t = SS_SPACE | SS_ARG | SS_QUOTED_ARG | SS_ARG_ESCAPED | SS_QUOTED_ARG_ESCAPED

definition QUOTE :: u8 where "QUOTE = 34"
definition ESCAPE :: u8 where "ESCAPE = 92"
definition SPACE :: u8 where "SPACE = 32"

text \<open>The variables of the loop; \<open>argv\<close> holds offsets into the line.\<close>

record splitter =
  ss :: split_state_t
  line :: "u8 list"
  next_arg_start :: nat
  out_ptr :: nat
  argv :: "nat list"

text \<open>\<^verbatim>\<open>end_arg\<close> leaves the state between arguments and a zero to be written.\<close>

definition end_arg :: "splitter \<Rightarrow> splitter" where
  "end_arg s = s\<lparr>argv := argv s @ [next_arg_start s], ss := SS_SPACE\<rparr>"

text \<open>One character: the switch, which gives the character to write when there is one, then the write.\<close>

definition split_switch :: "splitter \<Rightarrow> u8 \<Rightarrow> splitter \<times> u8 option" where
  "split_switch s c =
    (case ss s of
       SS_SPACE \<Rightarrow>
         if c = SPACE then (s, None)
         else if c = QUOTE then (s\<lparr>next_arg_start := out_ptr s, ss := SS_QUOTED_ARG\<rparr>, None)
         else if c = ESCAPE then (s\<lparr>next_arg_start := out_ptr s, ss := SS_ARG_ESCAPED\<rparr>, None)
         else (s\<lparr>next_arg_start := out_ptr s, ss := SS_ARG\<rparr>, Some c)
     | SS_QUOTED_ARG \<Rightarrow>
         if c = QUOTE then (end_arg s, Some 0)
         else if c = ESCAPE then (s\<lparr>ss := SS_QUOTED_ARG_ESCAPED\<rparr>, None)
         else (s, Some c)
     | SS_ARG_ESCAPED \<Rightarrow> (s\<lparr>ss := SS_ARG\<rparr>, if c = ESCAPE \<or> c = QUOTE \<or> c = SPACE then Some c else None)
     | SS_QUOTED_ARG_ESCAPED \<Rightarrow> (s\<lparr>ss := SS_QUOTED_ARG\<rparr>, if c = ESCAPE \<or> c = QUOTE \<or> c = SPACE then Some c else None)
     | SS_ARG \<Rightarrow>
         if c = SPACE then (end_arg s, Some 0)
         else if c = ESCAPE then (s\<lparr>ss := SS_ARG_ESCAPED\<rparr>, None)
         else (s, Some c))"

definition split_char :: "splitter \<Rightarrow> u8 \<Rightarrow> splitter" where
  "split_char s c =
    (case split_switch s c of (s1, None) \<Rightarrow> s1 | (s1, Some x) \<Rightarrow> s1\<lparr>line := (line s1)[out_ptr s1 := x], out_ptr := out_ptr s1 + 1\<rparr>)"

lemma length_split_char [simp]: "length (line (split_char s c)) = length (line s)"
  by (auto simp: split_char_def split_switch_def end_arg_def split: split_state_t.splits option.splits)

text \<open>The loop; \<open>None\<close> is a read past the end of the line's memory. \<^verbatim>\<open>argc < argv_size - 1\<close> is a
  comparison of unsigned numbers.\<close>

function split_loop :: "u32 \<Rightarrow> nat \<Rightarrow> splitter \<Rightarrow> splitter option" where
  "split_loop argv_size i s =
    (if of_nat (length (argv s)) < argv_size - 1 then
       if i < length (line s) then
         if line s ! i = 0 then Some s else split_loop argv_size (i + 1) (split_char s (line s ! i))
       else None
     else Some s)"
  by pat_completeness auto
termination by (relation "measure (\<lambda>(n, i, s). length (line s) - i)") auto

declare split_loop.simps [simp del]

text \<open>The line after the call and where the arguments start in it.\<close>

definition esp_console_split_argv :: "u8 list \<Rightarrow> u32 \<Rightarrow> (u8 list \<times> nat list) option" where
  "esp_console_split_argv l argv_size =
    (case split_loop argv_size 0 \<lparr>ss = SS_SPACE, line = l, next_arg_start = 0, out_ptr = 0, argv = []\<rparr> of
       None \<Rightarrow> None
     | Some s \<Rightarrow> Some ((line s)[out_ptr s := 0],
         if ss s \<noteq> SS_SPACE \<and> of_nat (length (argv s)) < argv_size - 1 then argv s @ [next_arg_start s] else argv s))"

definition cstring_at :: "u8 list \<Rightarrow> nat \<Rightarrow> u8 list" where "cstring_at l i = takeWhile (\<lambda>c. c \<noteq> 0) (drop i l)"

lemma split_loop_length: "split_loop n i s = Some s' \<Longrightarrow> length (line s') = length (line s)"
  by (induction n i s rule: split_loop.induct) (subst (asm) (2) split_loop.simps, auto split: if_splits)

section \<open>In place\<close>

text \<open>What was written lies before what is still to be read, with some bytes that count for nothing between.\<close>

definition in_place :: "splitter \<Rightarrow> u8 list \<Rightarrow> nat \<Rightarrow> u8 list \<Rightarrow> bool" where
  "in_place s out i rest \<longleftrightarrow> (\<exists>junk. line s = out @ junk @ rest \<and> out_ptr s = length out \<and> i = length out + length junk)"

lemma in_place_char:
  assumes "in_place s out i (c # rest)"
  shows "in_place (split_char s c) (out @ (case snd (split_switch s c) of None \<Rightarrow> [] | Some x \<Rightarrow> [x])) (i + 1) rest"
proof -
  obtain junk where j: "line s = out @ junk @ c # rest" "out_ptr s = length out" "i = length out + length junk"
    using assms by (auto simp: in_place_def)
  obtain s1 w where sw: "split_switch s c = (s1, w)" by (cases "split_switch s c")
  have same: "line s1 = line s" "out_ptr s1 = out_ptr s"
    using sw by (auto simp: split_switch_def end_arg_def split: split_state_t.splits if_splits)
  show ?thesis
  proof (cases w)
    case None
    then show ?thesis using j same by (auto simp: split_char_def sw in_place_def intro!: exI [of _ "junk @ [c]"])
  next
    case (Some x)
    have "(out @ junk @ c # rest)[length out := x] = out @ [x] @ tl (junk @ [c]) @ rest"
      by (cases junk) simp_all
    then show ?thesis using j same Some
      by (auto simp: split_char_def sw in_place_def intro!: exI [of _ "tl (junk @ [c])"])
  qed
qed

lemma loop_step:
  assumes "in_place s out i (c # rest)" and "c \<noteq> 0" and "of_nat (length (argv s)) < n - 1"
  shows "split_loop n i s = split_loop n (i + 1) (split_char s c)"
  using assms by (subst split_loop.simps) (auto simp: in_place_def nth_append)

section \<open>Quoted arguments\<close>

definition quote_char :: "u8 \<Rightarrow> u8 list" where "quote_char c = (if c = QUOTE \<or> c = ESCAPE then [ESCAPE, c] else [c])"
definition quote_arg :: "u8 list \<Rightarrow> u8 list" where "quote_arg a = QUOTE # concat (map quote_char a) @ [QUOTE]"

text \<open>A command line: each argument in quotes, after some spaces.\<close>

definition command_line :: "(nat \<times> u8 list) list \<Rightarrow> u8 list" where
  "command_line kas = concat (map (\<lambda>(k, a). replicate k SPACE @ quote_arg a) kas)"

lemma chars_distinct: "QUOTE \<noteq> 0" "ESCAPE \<noteq> 0" "SPACE \<noteq> 0" "QUOTE \<noteq> ESCAPE" "QUOTE \<noteq> SPACE" "ESCAPE \<noteq> SPACE"
  by (simp_all add: QUOTE_def ESCAPE_def SPACE_def)

lemmas switch_simps = split_switch_def end_arg_def chars_distinct chars_distinct [symmetric]

text \<open>A state that differs in what was written and in what was read.\<close>

definition same_but :: "splitter \<Rightarrow> split_state_t \<Rightarrow> nat \<Rightarrow> nat list \<Rightarrow> bool" where
  "same_but s st start starts \<longleftrightarrow> ss s = st \<and> next_arg_start s = start \<and> argv s = starts"

lemma char_step:
  assumes "in_place s out i (c # rest)" and "c \<noteq> 0" and "of_nat (length (argv s)) < n - 1" and "split_switch s c = (s1, w)"
    and "same_but s1 st start starts"
  shows "split_loop n i s = split_loop n (i + 1) (split_char s c)"
    and "in_place (split_char s c) (out @ (case w of None \<Rightarrow> [] | Some x \<Rightarrow> [x])) (i + 1) rest"
    and "same_but (split_char s c) st start starts"
  using loop_step [OF assms(1-3)] in_place_char [OF assms(1)] assms(4,5)
  by (auto simp: same_but_def split_char_def split: option.splits)

lemma quoted_chars:
  assumes "in_place s out i (concat (map quote_char a) @ rest)" and "same_but s SS_QUOTED_ARG start starts" and "0 \<notin> set a"
    and "of_nat (length starts) < n - 1"
  shows "\<exists>s' i'. split_loop n i s = split_loop n i' s' \<and> in_place s' (out @ a) i' rest \<and> same_but s' SS_QUOTED_ARG start starts"
  using assms
proof (induction a arbitrary: s out i)
  case (Cons c a)
  have b: "ss s = SS_QUOTED_ARG" "argv s = starts" "next_arg_start s = start" "c \<noteq> 0" using Cons.prems(2,3) by (auto simp: same_but_def)
  have "\<exists>s1 i1. split_loop n i s = split_loop n i1 s1 \<and> in_place s1 (out @ [c]) i1 (concat (map quote_char a) @ rest)
      \<and> same_but s1 SS_QUOTED_ARG start starts"
  proof (cases "c = QUOTE \<or> c = ESCAPE")
    case True
    let ?s = "s\<lparr>ss := SS_QUOTED_ARG_ESCAPED\<rparr>"
    have p: "in_place s out i (ESCAPE # c # concat (map quote_char a) @ rest)" using Cons.prems(1) True by (simp add: quote_char_def [of c])
    have sw: "split_switch s ESCAPE = (?s, None)" by (simp add: switch_simps b)
    have "same_but ?s SS_QUOTED_ARG_ESCAPED start starts" by (simp add: same_but_def b)
    from char_step [OF p chars_distinct(2) _ sw this] have 1: "split_loop n i s = split_loop n (i + 1) (split_char s ESCAPE)"
      "in_place (split_char s ESCAPE) out (i + 1) (c # concat (map quote_char a) @ rest)" "same_but (split_char s ESCAPE) SS_QUOTED_ARG_ESCAPED start starts"
      using Cons.prems(4) b(2) by simp_all
    let ?t = "split_char s ESCAPE"
    have sw2: "split_switch ?t c = (?t\<lparr>ss := SS_QUOTED_ARG\<rparr>, Some c)" using 1(3) True by (auto simp: split_switch_def same_but_def)
    have "same_but (?t\<lparr>ss := SS_QUOTED_ARG\<rparr>) SS_QUOTED_ARG start starts" using 1(3) by (simp add: same_but_def)
    moreover have "of_nat (length (argv ?t)) < n - 1" using 1(3) Cons.prems(4) by (simp add: same_but_def)
    ultimately show ?thesis using 1(1) char_step [OF 1(2) b(4) _ sw2] by (metis option.simps(5))
  next
    case False
    have p: "in_place s out i (c # concat (map quote_char a) @ rest)" using Cons.prems(1) False by (simp add: quote_char_def [of c])
    have sw: "split_switch s c = (s, Some c)" using False by (simp add: switch_simps b)
    have "of_nat (length (argv s)) < n - 1" using Cons.prems(4) b(2) by simp
    from char_step [OF p b(4) this sw Cons.prems(2)] show ?thesis by auto
  qed
  then obtain s1 i1 where 1: "split_loop n i s = split_loop n i1 s1" "in_place s1 (out @ [c]) i1 (concat (map quote_char a) @ rest)"
    "same_but s1 SS_QUOTED_ARG start starts" by blast
  show ?case using Cons.IH [OF 1(2,3)] Cons.prems(3,4) 1(1) by auto
qed auto

lemma skip_spaces:
  assumes "in_place s out i (replicate k SPACE @ rest)" and "ss s = SS_SPACE" and "argv s = starts" and "of_nat (length starts) < n - 1"
  shows "\<exists>s' i'. split_loop n i s = split_loop n i' s' \<and> in_place s' out i' rest \<and> ss s' = SS_SPACE \<and> argv s' = starts"
  using assms
proof (induction k arbitrary: s i)
  case (Suc k)
  have p: "in_place s out i (SPACE # replicate k SPACE @ rest)" using Suc.prems(1) by simp
  have "split_switch s SPACE = (s, None)" by (simp add: split_switch_def Suc.prems(2))
  from char_step [OF p chars_distinct(3) _ this, of n SS_SPACE "next_arg_start s" starts] Suc.prems(2-4)
  have 1: "split_loop n i s = split_loop n (i + 1) (split_char s SPACE)" "in_place (split_char s SPACE) out (i + 1) (replicate k SPACE @ rest)"
    "ss (split_char s SPACE) = SS_SPACE" "argv (split_char s SPACE) = starts" by (simp_all add: same_but_def)
  show ?case using Suc.IH [OF 1(2-4) Suc.prems(4)] 1(1) by simp
qed auto

lemma split_arg:
  assumes "in_place s out i (replicate k SPACE @ quote_arg a @ rest)" and "ss s = SS_SPACE" and "argv s = starts" and "of_nat (length starts) < n - 1"
    and "0 \<notin> set a"
  shows "\<exists>s' i'. split_loop n i s = split_loop n i' s' \<and> in_place s' (out @ a @ [0]) i' rest \<and> ss s' = SS_SPACE \<and> argv s' = starts @ [length out]"
proof -
  obtain s1 i1 where 1: "split_loop n i s = split_loop n i1 s1" "in_place s1 out i1 (quote_arg a @ rest)" "ss s1 = SS_SPACE" "argv s1 = starts"
    using skip_spaces [OF assms(1-4)] by blast
  have p: "in_place s1 out i1 (QUOTE # concat (map quote_char a) @ QUOTE # rest)" using 1(2) by (simp add: quote_arg_def)
  have "split_switch s1 QUOTE = (s1\<lparr>next_arg_start := out_ptr s1, ss := SS_QUOTED_ARG\<rparr>, None)" by (simp add: switch_simps 1(3))
  moreover have "out_ptr s1 = length out" using p by (auto simp: in_place_def)
  ultimately have sw: "split_switch s1 QUOTE = (s1\<lparr>next_arg_start := length out, ss := SS_QUOTED_ARG\<rparr>, None)" by simp
  have "same_but (s1\<lparr>next_arg_start := length out, ss := SS_QUOTED_ARG\<rparr>) SS_QUOTED_ARG (length out) starts" by (simp add: same_but_def 1(4))
  from char_step [OF p chars_distinct(1) _ sw this] assms(4) 1(4)
  have 2: "split_loop n i1 s1 = split_loop n (i1 + 1) (split_char s1 QUOTE)"
    "in_place (split_char s1 QUOTE) out (i1 + 1) (concat (map quote_char a) @ QUOTE # rest)"
    "same_but (split_char s1 QUOTE) SS_QUOTED_ARG (length out) starts" by simp_all
  obtain s3 i3 where 3: "split_loop n (i1 + 1) (split_char s1 QUOTE) = split_loop n i3 s3" "in_place s3 (out @ a) i3 (QUOTE # rest)"
    "same_but s3 SS_QUOTED_ARG (length out) starts" using quoted_chars [OF 2(2,3) assms(5,4)] by blast
  have b: "ss s3 = SS_QUOTED_ARG" "argv s3 = starts" "next_arg_start s3 = length out" using 3(3) by (simp_all add: same_but_def)
  have sw: "split_switch s3 QUOTE = (end_arg s3, Some 0)" by (simp add: split_switch_def b)
  have "same_but (end_arg s3) SS_SPACE (length out) (starts @ [length out])" by (simp add: same_but_def end_arg_def b)
  moreover have "of_nat (length (argv s3)) < n - 1" using assms(4) b(2) by simp
  ultimately have "split_loop n i3 s3 = split_loop n (i3 + 1) (split_char s3 QUOTE)" "in_place (split_char s3 QUOTE) (out @ a @ [0]) (i3 + 1) rest"
    "same_but (split_char s3 QUOTE) SS_SPACE (length out) (starts @ [length out])" using char_step [OF 3(2) chars_distinct(1) _ sw] by simp_all
  then show ?thesis using 1(1) 2(1) 3(1) by (auto simp: same_but_def)
qed

text \<open>Where the arguments come to lie.\<close>

fun arg_starts :: "nat \<Rightarrow> (nat \<times> u8 list) list \<Rightarrow> nat list" where
  "arg_starts p [] = []"
| "arg_starts p ((k, a) # kas) = p # arg_starts (p + length a + 1) kas"

lemma argc_room:
  assumes "k < unat (n :: u32)"
  shows "of_nat k < n - 1 \<longleftrightarrow> k + 1 < unat n"
proof -
  have "unat n < 2 ^ LENGTH(32)" by (rule unsigned_less)
  then have "unat (of_nat k :: u32) = k" using assms by (intro unat_of_nat_small) simp
  moreover have "unat (n - 1) = unat n - 1" using assms by (subst unat_sub) (simp_all add: word_le_nat_alt)
  ultimately show ?thesis using assms by (simp add: word_less_nat_alt) linarith
qed

lemma split_args:
  assumes "in_place s out i (command_line kas @ 0 # rest)" and "ss s = SS_SPACE" and "length (argv s) + length kas < unat n"
    and "\<forall>ka \<in> set kas. 0 \<notin> set (snd ka)"
  shows "\<exists>s' i' rest'. split_loop n i s = Some s' \<and> in_place s' (out @ concat (map (\<lambda>ka. snd ka @ [0]) kas)) i' (0 # rest) \<and> ss s' = SS_SPACE
    \<and> argv s' = argv s @ arg_starts (length out) kas"
  using assms
proof (induction kas arbitrary: s out i)
  case Nil
  have "split_loop n i s = Some s"
    using Nil.prems(1) by (subst split_loop.simps) (auto simp: in_place_def nth_append command_line_def)
  then show ?case using Nil.prems by (auto simp: command_line_def)
next
  case (Cons ka kas)
  obtain k a where ka: "ka = (k, a)" by (cases ka)
  have p: "in_place s out i (replicate k SPACE @ quote_arg a @ command_line kas @ 0 # rest)" using Cons.prems(1) by (simp add: command_line_def ka)
  have lt: "of_nat (length (argv s)) < n - 1" using Cons.prems(3) argc_room [of "length (argv s)" n] by simp
  obtain s1 i1 where 1: "split_loop n i s = split_loop n i1 s1" "in_place s1 (out @ a @ [0]) i1 (command_line kas @ 0 # rest)" "ss s1 = SS_SPACE"
    "argv s1 = argv s @ [length out]" using split_arg [OF p Cons.prems(2) refl lt] Cons.prems(4) ka by auto
  have "length (argv s1) + length kas < unat n" using Cons.prems(3) 1(4) by simp
  from Cons.IH [OF 1(2,3) this] show ?case using Cons.prems(4) 1(1,4) by (auto simp: ka)
qed

lemma cstring_starts:
  "\<forall>ka \<in> set kas. 0 \<notin> set (snd ka) \<Longrightarrow> map (cstring_at (pre @ concat (map (\<lambda>ka. snd ka @ [0]) kas) @ post)) (arg_starts (length pre) kas) = map snd kas"
proof (induction kas arbitrary: pre)
  case (Cons ka kas)
  obtain k a where ka: "ka = (k, a)" by (cases ka)
  have "cstring_at (pre @ (a @ [0] @ concat (map (\<lambda>ka. snd ka @ [0]) kas)) @ post) (length pre) = a"
    using Cons.prems by (simp add: cstring_at_def ka) (subst takeWhile_append2, auto)
  moreover have "map (cstring_at ((pre @ a @ [0]) @ concat (map (\<lambda>ka. snd ka @ [0]) kas) @ post)) (arg_starts (length (pre @ a @ [0])) kas) = map snd kas"
    using Cons.prems by (intro Cons.IH) simp
  ultimately show ?case by (simp add: ka)
qed simp

text \<open>C40: With room in argv for an entry more than there are arguments, a command line in which each argument is quoted, with a backslash before each quote and backslash, after any number of spaces, even none, is
  split into exactly these arguments: whatever bytes they have, zero excepted, there are as many entries as arguments, and each entry points to its argument,
  terminated, in the line. (The closing NULL of argv is not represented.)\<close>

theorem split_argv_roundtrip:
  assumes "\<forall>ka \<in> set kas. 0 \<notin> set (snd ka)" and "length kas < unat argv_size"
  shows "\<exists>l starts. esp_console_split_argv (command_line kas @ 0 # rest) argv_size = Some (l, starts)
    \<and> map (cstring_at l) starts = map snd kas \<and> length l = length (command_line kas @ 0 # rest)"
proof -
  let ?s = "\<lparr>ss = SS_SPACE, line = command_line kas @ 0 # rest, next_arg_start = 0, out_ptr = 0, argv = []\<rparr>"
  have "in_place ?s [] 0 (command_line kas @ 0 # rest)" by (simp add: in_place_def)
  from split_args [OF this, of argv_size] assms obtain s' i' where r: "split_loop argv_size 0 ?s = Some s'"
    "in_place s' (concat (map (\<lambda>ka. snd ka @ [0]) kas)) i' (0 # rest)" "ss s' = SS_SPACE" "argv s' = arg_starts 0 kas" by auto
  obtain junk where j: "line s' = concat (map (\<lambda>ka. snd ka @ [0]) kas) @ junk @ 0 # rest" "out_ptr s' = length (concat (map (\<lambda>ka. snd ka @ [0]) kas))"
    using r(2) by (auto simp: in_place_def)
  then have "(line s')[out_ptr s' := 0] = [] @ concat (map (\<lambda>ka. snd ka @ [0]) kas) @ (junk @ 0 # rest)[0 := 0]" by (simp add: list_update_append)
  then have "map (cstring_at ((line s')[out_ptr s' := 0])) (argv s') = map snd kas"
    using cstring_starts [OF assms(1), of "[]" "(junk @ 0 # rest)[0 := 0]"] r(4) by simp
  moreover have "length (line s') = length (command_line kas @ 0 # rest)" using split_loop_length [OF r(1)] by simp
  ultimately show ?thesis by (simp add: esp_console_split_argv_def r(1,3))
qed

theorem split_argv_roundtrip_witness:
  "\<exists>l starts. esp_console_split_argv (command_line [(0, [115, 101, 116]), (2, [97, 32, 34, 98]), (0, [])] @ 0 # [1, 2]) 8 = Some (l, starts)
     \<and> map (cstring_at l) starts = [[115, 101, 116], [97, 32, 34, 98], []]"
proof -
  have "\<forall>ka \<in> set [(0 :: nat, [115, 101, 116 :: u8]), (2, [97, 32, 34, 98]), (0, [])]. 0 \<notin> set (snd ka)"
    "length [(0 :: nat, [115, 101, 116 :: u8]), (2, [97, 32, 34, 98]), (0, [])] < unat (8 :: u32)" by simp_all
  from split_argv_roundtrip [OF this, of "[1, 2]"] show ?thesis by auto
qed

text \<open>There are never more arguments than the array has room for beside the terminating entry.\<close>

lemma split_loop_count:
  assumes "0 < n" and "split_loop n i s = Some s'" and "length (argv s) < unat n"
  shows "length (argv s') < unat n"
  using assms(2,3)
proof (induction n i s rule: split_loop.induct)
  case (1 n i s)
  have "length (argv (split_char s c)) < unat n" if "of_nat (length (argv s)) < n - 1" for c
    using that argc_room [OF "1.prems"(2)] "1.prems"(2)
    by (auto simp: split_char_def split_switch_def end_arg_def split: split_state_t.splits option.splits)
  moreover have "(if of_nat (length (argv s)) < n - 1 then
       if i < length (line s) then
         if line s ! i = 0 then Some s else split_loop n (i + 1) (split_char s (line s ! i))
       else None
     else Some s) = Some s'" using "1.prems"(1) by (subst (asm) split_loop.simps)
  ultimately show ?case using "1.IH" "1.prems"(2) by (auto split: if_splits)
qed

lemma split_argv_count:
  assumes "0 < argv_size" and "esp_console_split_argv l argv_size = Some (l', starts)"
  shows "length starts < unat argv_size"
proof -
  let ?s = "\<lparr>ss = SS_SPACE, line = l, next_arg_start = 0, out_ptr = 0, argv = []\<rparr>"
  obtain s where s: "split_loop argv_size 0 ?s = Some s" using assms(2) by (auto simp: esp_console_split_argv_def split: option.splits)
  have "length (argv s) < unat argv_size" using split_loop_count [OF assms(1) s] assms(1) by (simp add: word_less_nat_alt)
  then show ?thesis using assms(2) s argc_room [of "length (argv s)" argv_size] by (auto simp: esp_console_split_argv_def split: if_splits)
qed

end
