(* ===== verification/Spec2Isabelle.thy ===== *)
theory Spec2Isabelle
  imports Crc Kernel_Events Kernel_Timers Spi_Flash Flash_Format Partition Sha Image Ota Boot Heap_State Base64 Ring_Items Split_Argv
begin

text \<open>
  The storage and update core of the ESP8266 RTOS SDK, the scheduler and the queues of its kernel, its heap and its ring buffers.

  \<^bold>\<open>The program.\<close> The SDK is a collection of components around a FreeRTOS kernel. The part
  modelled here decides what the device runs: the driver of the SPI flash, the partition table on it, the
  update of an application over the air, the verification of an application image, and the second-stage boot
  loader that picks the image to start. The scheduler of the FreeRTOS kernel with its queues and the heap allocator are what every component rests
  on; the ring buffers carry the data between tasks and interrupts; two small codecs stand alone. The drivers call the ROM of the chip; the partition API calls the driver; the update code calls the
  partition API and the image verifier; the boot loader reads the same table and the same selection entries through
  the flash cache, with code of its own. The two sides never call each other: they meet in the flash.

  \<^bold>\<open>Theories.\<close>
  \<^item> \<open>Prelude\<close>: integer types as words, result codes, byte memory, little-endian fields, NOR flash,
    facts on lists and words.
  \<^item> \<open>Crc\<close>: \<^verbatim>\<open>util/src/crc.c\<close>, the tables and the byte loops. Lemmas: the
    tables are those of their polynomials, the register is linear, a burst of errors of up to 32 bits is seen.
  \<^item> \<open>Kernel_List\<close>: \<^verbatim>\<open>freertos/list.c\<close> and the macros of
    \<^verbatim>\<open>list.h\<close>, on a memory of items and heads; they implement finite sequences with an index
    (\<open>lists\<close>), on which the rest of the kernel is modelled.
  \<^item> \<open>Kernel_Tasks\<close>: \<^verbatim>\<open>freertos/tasks.c\<close> and the two interrupt
    handlers of \<^verbatim>\<open>port.c\<close>: the record \<open>kernel\<close> holds the file's variables; ready, delayed and suspended
    lists, the tick, the switch, delays, creation, deletion, suspension, priorities with inheritance, event lists, time-outs,
    notifications. A call that inserts an item twice or removes one that is in no list has no result. A call that blocks is split
    where it gives up the processor.
  \<^item> \<open>Kernel_Invariant\<close>, \<open>Kernel_Calls\<close>, \<open>Kernel_Reach\<close>: the invariant of the scheduler; each call as a constructor of
    \<open>call\<close>, what its callers keep to (\<open>allowed\<close>), the states that allowed calls reach (\<open>reachable\<close>); every allowed call
    returns and keeps the invariant.
  \<^item> \<open>Kernel_Time\<close>: what a tick wakes, that delays and time-outs are exact across the overflow of the tick count, that ticks
    during a suspension of the scheduler are not lost, that the ready tasks of the highest priority take turns; two defects.
  \<^item> \<open>Kernel_Queue\<close>: \<^verbatim>\<open>freertos/queue.c\<close>: queues, semaphores and mutexes over the scheduler and a byte memory
    (\<open>qsys\<close>). A critical section is one step; the calls that block are the loop \<open>queue_loop\<close>, with what interrupts and other
    tasks do between its steps in the record \<open>environment\<close>. \<^verbatim>\<open>pvPortMalloc\<close> is a parameter of the creating calls.
  \<^item> \<open>Kernel_Messages\<close>: a queue is a bounded double-ended queue of its items; the locale \<open>simulation\<close> lifts the step of
    one call to sequences of calls.
  \<^item> \<open>Kernel_Waking\<close>: whom a send and an unlock wake, semaphores as counters, the inheritance of priorities through a
    mutex, creation.
  \<^item> \<open>Kernel_Events\<close>: \<^verbatim>\<open>freertos/event_groups.c\<close>: setting bits ends exactly the waits they complete, a wait
    returns the bits that ended it, the rendezvous, deletion. What happens while a call waits is its parameter \<open>meanwhile\<close>.
  \<^item> \<open>Kernel_Timers\<close>: \<^verbatim>\<open>freertos/timers.c\<close>: the two lists, the commands and the loop of the timer task
    (\<open>tsys\<close>); a timer is entered into the right list, and every active timer is called exactly when it expires, over any number of
    overflows of the tick count.
  \<^item> \<open>Spi_Flash\<close>: \<^verbatim>\<open>spi_flash/src/spi_flash.c\<close> and
    \<^verbatim>\<open>spi_flash_raw.c\<close>: read, write with bounce buffers, program page by page, erase, write protection, quad
    mode. The ROM's SPI routines are the record \<open>flash_rom\<close>; the locale \<open>nor_flash\<close> states what is relied
    on (programming clears bits, erasing sets a sector to ones, a failed operation keeps to its
    range), \<open>reliable_flash\<close> extends it by success.
  \<^item> \<open>Flash_Format\<close>: entries of the partition table and OTA selection entries, as bytes and as
    records, with round trips.
  \<^item> \<open>Partition\<close>: \<^verbatim>\<open>spi_flash/src/partition.c\<close>: loading the table, iterators,
    find and verify, the bounds-checked accesses.
  \<^item> \<open>Sha\<close>: \<^verbatim>\<open>util/src/sha.c\<close>: the five hash functions, against the definition of
    FIPS 180-4.
  \<^item> \<open>Image\<close>: \<^verbatim>\<open>bootloader_support/src/esp_image_format.c\<close>: loading and
    verifying an image. The locale \<open>sha256_impl\<close> is what it needs of a hash, \<open>image_flash\<close> extends it by
    what it needs of reads; both are interpreted for the application's and for the boot loader's build.
  \<^item> \<open>Ota\<close>: \<^verbatim>\<open>app_update/esp_ota_ops.c\<close>: update handles, writing the
    selection entries, the boot and the next slot. The locales \<open>ota_flash\<close> and \<open>ota_nor\<close> put the
    flash contracts under an OTA environment.
  \<^item> \<open>Boot\<close>: \<^verbatim>\<open>bootloader_support/src/bootloader_utility.c\<close>,
    \<^verbatim>\<open>flash_partitions.c\<close>, \<^verbatim>\<open>bootloader_flash.c\<close> and
    \<^verbatim>\<open>select_image\<close> of the boot loader. The locale \<open>boot_cache\<close>: the cache window
    shows the flash. Here the two sides meet: the theorems on
    \<open>esp_ota_set_boot_partition\<close> followed by \<open>select_image\<close>.
  \<^item> \<open>Heap_Caps\<close>: \<^verbatim>\<open>heap/src/esp_heap_caps.c\<close> with the header functions of the port:
    the allocator on its memory, block headers included: the calls, and what they do to the chain of blocks of one
    region.
  \<^item> \<open>Heap_State\<close>: the whole heap as the list of its blocks, an invariant of all reachable
    heaps; allocation is first fit, blocks in use never overlap and are not touched, every call returns, a released block
    is merged with its free neighbours, \<^verbatim>\<open>realloc\<close> keeps the contents.
  \<^item> \<open>Ring_Buffer\<close>: \<^verbatim>\<open>esp_ringbuf/ringbuf.c\<close>, the three kinds of
    buffer with the item headers in their memory. The abstract state of a byte buffer is two byte lists, what is out and what waits
    (\<open>byte_ok\<close>); each operation is a queue operation on them. Two defects of the code are theorems.
  \<^item> \<open>Ring_Items\<close>: items of a buffer that may split: placed whole, in two parts, or behind a dummy
    header; a full turn returns the item and leaves the buffer empty.
  \<^item> \<open>Base64\<close>: \<^verbatim>\<open>util/src/base64.c\<close>: round trip, and the decoder
    keeps to its buffers.
  \<^item> \<open>Split_Argv\<close>: \<^verbatim>\<open>console/split_argv.c\<close>: the splitting in
    place as a state machine, inverse to quoting.

  \<^bold>\<open>How the model reads.\<close> A C integer is a word of its width, so sums wrap where the code's do. A structure is a
  record, an enumeration a datatype. Memory is a map from addresses to bytes. Static variables
  are fields of a state record that the operations take and return. Error returns are values of
  \<open>esp_err_t\<close>, alone or as the left of a sum. A device is an arbitrary type \<open>'d\<close> with a view
  of its cells; the ROM functions are parameters.
  A loop that may not end is a \<open>partial_function (option)\<close>: \<open>None\<close> is a call that does not return, so no
  fuel is chosen anywhere; the other loops are structural or have a measure. The two loops of the ring buffers that block take a
  parameter \<open>waiting\<close>, what each wait ends with; \<^verbatim>\<open>configASSERT\<close> is empty in
  this SDK and so is absent.

  \<^bold>\<open>Not modelled.\<close> Within these components: flash encryption, secure boot, on-chip
  debugging, the factory-reset and test pins, memory-mapped reads of segments, the ESP32 halves of the files, locks
  and log output. Of the kernel: stacks and contexts of tasks, the hooks, thread-local storage, what only reports and queue sets; the
  timers are modelled apart from the scheduler, their task taken to run when its wait ends. How often the loop of a blocking queue
  call turns depends on its environment. The other components of the SDK (network stack,
  drivers, protocols, vendored libraries) are listed with the reason in the manifest.
\<close>

end
